(* ===== verification/Prelude.thy ===== *)
theory Prelude
  imports Main "HOL-Library.Word" "HOL-Library.Monad_Syntax" "HOL-Library.Multiset"
begin

text \<open>
  The vocabulary the component theories share: the machine types of the 32-bit x86 target, the
  kernel's \<^verbatim>\<open>ASSERT\<close>, array accesses that fail outside their bounds, the little-endian layout
  of C integers in memory, and the rounding macros of \<^verbatim>\<open>lib/round.h\<close>.

  A C function is a HOL function into the option monad: \<open>None\<close> is a kernel panic (a failed
  \<^verbatim>\<open>ASSERT\<close>, an explicit \<^verbatim>\<open>PANIC\<close>, or an access outside an object, which is undefined
  behaviour), \<open>Some\<close> is a normal return. State is passed and returned explicitly.
\<close>

unbundle bit_operations_syntax

section \<open>Collections of rules\<close>

named_theorems panic_simps \<open>unfolding of the panic monad and of guarded array accesses\<close>

section \<open>Machine types\<close>

type_synonym byte = "8 word"
type_synonym u32 = "32 word"
type_synonym u64 = "64 word"

section \<open>Panics and guarded accesses\<close>

definition ASSERT :: "bool \<Rightarrow> unit option" where
  "ASSERT c = (if c then Some () else None)"

definition arr_get :: "'a list \<Rightarrow> nat \<Rightarrow> 'a option" where
  "arr_get xs i = (if i < length xs then Some (xs ! i) else None)"

definition arr_set :: "'a list \<Rightarrow> nat \<Rightarrow> 'a \<Rightarrow> 'a list option" where
  "arr_set xs i v = (if i < length xs then Some (xs[i := v]) else None)"

definition SIZE_MAX :: nat where
  "SIZE_MAX = 2 ^ 32 - 1"

definition size_add :: "nat \<Rightarrow> nat \<Rightarrow> nat" where
  "size_add a b = (a + b) mod 2 ^ 32"

section \<open>Rounding (lib/round.h)\<close>

definition ROUND_UP :: "nat \<Rightarrow> nat \<Rightarrow> nat" where
  "ROUND_UP x step = (x + step - 1) div step * step"

definition DIV_ROUND_UP :: "nat \<Rightarrow> nat \<Rightarrow> nat" where
  "DIV_ROUND_UP x step = (x + step - 1) div step"

definition ROUND_DOWN :: "nat \<Rightarrow> nat \<Rightarrow> nat" where
  "ROUND_DOWN x step = x div step * step"

section \<open>Integers in memory\<close>

definition le32 :: "u32 \<Rightarrow> byte list" where
  "le32 w = [ucast w, ucast (drop_bit 8 w), ucast (drop_bit 16 w), ucast (drop_bit 24 w)]"

definition of_le32 :: "byte list \<Rightarrow> u32" where
  "of_le32 bs = (ucast (bs ! 0) OR push_bit 8 (ucast (bs ! 1))) OR
                (push_bit 16 (ucast (bs ! 2)) OR push_bit 24 (ucast (bs ! 3)))"

definition words_to_bytes :: "u32 list \<Rightarrow> byte list" where
  "words_to_bytes ws = concat (map le32 ws)"

fun bytes_to_words :: "byte list \<Rightarrow> u32 list" where
  "bytes_to_words (a # b # c # d # bs) = of_le32 [a, b, c, d] # bytes_to_words bs"
| "bytes_to_words _ = []"

section \<open>Byte ranges\<close>

definition slice :: "nat \<Rightarrow> nat \<Rightarrow> 'a list \<Rightarrow> 'a list" where
  "slice ofs n xs = take n (drop ofs xs)"

definition overwrite :: "'a list \<Rightarrow> nat \<Rightarrow> 'a list \<Rightarrow> 'a list" where
  "overwrite xs ofs ys = take ofs xs @ ys @ drop (ofs + length ys) xs"

section \<open>Lemmas\<close>

lemma ASSERT_simps [simp]: "ASSERT True = Some ()" "ASSERT False = None"
  by (simp_all add: ASSERT_def)

lemma ASSERT_eq_Some [simp]: "ASSERT c = Some u \<longleftrightarrow> c"
  by (simp add: ASSERT_def)

lemma ASSERT_bind [panic_simps]: "Option.bind (ASSERT c) f = (if c then f () else None)"
  by simp

lemma arr_get_in [simp]: "i < length xs \<Longrightarrow> arr_get xs i = Some (xs ! i)"
  by (simp add: arr_get_def)

lemma arr_get_eq_Some: "arr_get xs i = Some v \<longleftrightarrow> i < length xs \<and> v = xs ! i"
  by (auto simp: arr_get_def)

lemma arr_set_in [simp]: "i < length xs \<Longrightarrow> arr_set xs i v = Some (xs[i := v])"
  by (simp add: arr_set_def)

lemma arr_set_eq_Some: "arr_set xs i v = Some ys \<longleftrightarrow> i < length xs \<and> ys = xs[i := v]"
  by (auto simp: arr_set_def)

lemma size_add_small [simp]: "a + b \<le> SIZE_MAX \<Longrightarrow> size_add a b = a + b"
  by (simp add: size_add_def SIZE_MAX_def)

lemmas bind_cases = bind_eq_Some_conv bind_eq_None_conv

lemma DIV_ROUND_UP_bounds:
  assumes "0 < step"
  shows "x \<le> DIV_ROUND_UP x step * step" "DIV_ROUND_UP x step * step < x + step"
proof -
  have "(x + step - 1) div step * step + (x + step - 1) mod step = x + step - 1"
    by simp
  moreover have "(x + step - 1) mod step < step"
    using assms by simp
  ultimately show "x \<le> DIV_ROUND_UP x step * step" "DIV_ROUND_UP x step * step < x + step"
    using assms unfolding DIV_ROUND_UP_def by linarith+
qed

lemma less_DIV_ROUND_UP:
  assumes "0 < step" "i < x"
  shows "i div step < DIV_ROUND_UP x step"
proof -
  have "i < DIV_ROUND_UP x step * step"
    using DIV_ROUND_UP_bounds(1) [OF assms(1), of x] assms(2) by linarith
  then show ?thesis
    by (simp add: less_mult_imp_div_less)
qed

lemma length_le32 [simp]: "length (le32 w) = 4"
  by (simp add: le32_def)

lemma of_le32_le32 [simp]: "of_le32 (le32 w) = w"
proof (rule bit_word_eqI)
  fix n assume "n < LENGTH(32)"
  then have n: "n < 32" by simp
  then consider "n < 8" | "8 \<le> n \<and> n < 16" | "16 \<le> n \<and> n < 24" | "24 \<le> n \<and> n < 32"
    by linarith
  then show "bit (of_le32 (le32 w)) n = bit w n"
    by cases (auto simp: of_le32_def le32_def bit_simps)
qed

lemma byte_bit_beyond [simp]:
  "\<not> bit (a :: byte) (8 + n)" "\<not> bit (a :: byte) (16 + n)" "\<not> bit (a :: byte) (24 + n)"
  by (auto dest: bit_imp_le_length)

lemma le32_of_le32:
  assumes "length bs = 4"
  shows "le32 (of_le32 bs) = bs"
proof -
  obtain a b c d where bs: "bs = [a, b, c, d]"
    using assms by (auto simp: length_Suc_conv eval_nat_numeral)
  show ?thesis
    unfolding bs le32_def of_le32_def
    by (auto intro!: bit_word_eqI simp: bit_simps)
qed

lemma words_to_bytes_simps [simp]:
  "words_to_bytes [] = []" "words_to_bytes (w # ws) = le32 w @ words_to_bytes ws"
  by (simp_all add: words_to_bytes_def)

lemma length_words_to_bytes [simp]: "length (words_to_bytes ws) = 4 * length ws"
  by (induction ws) simp_all

lemma bytes_to_words_words_to_bytes [simp]: "bytes_to_words (words_to_bytes ws) = ws"
proof (induction ws)
  case (Cons w ws)
  have "of_le32 [ucast w, ucast (drop_bit 8 w), ucast (drop_bit 16 w), ucast (drop_bit 24 w)] = w"
    using of_le32_le32 [of w] by (simp add: le32_def)
  with Cons show ?case by (simp add: le32_def)
qed simp

lemma length_bytes_to_words [simp]: "length (bytes_to_words bs) = length bs div 4"
  by (induction bs rule: bytes_to_words.induct) simp_all

lemma words_to_bytes_bytes_to_words:
  "4 dvd length bs \<Longrightarrow> words_to_bytes (bytes_to_words bs) = bs"
proof (induction bs rule: bytes_to_words.induct)
  case (1 a b c d bs)
  have "4 dvd length bs"
    using "1.prems" by simp presburger
  with "1.IH" show ?case by (simp add: le32_of_le32)
qed (auto dest: dvd_imp_le)

lemma slice_0 [simp]: "slice p 0 m = []"
  by (simp add: slice_def)

lemma slice_Suc: "i < length xs \<Longrightarrow> slice i (Suc n) xs = xs ! i # slice (Suc i) n xs"
  by (simp add: slice_def Cons_nth_drop_Suc [symmetric])

lemma length_slice [simp]: "length (slice ofs n xs) = min n (length xs - ofs)"
  by (simp add: slice_def)

lemma length_overwrite [simp]:
  "ofs + length ys \<le> length xs \<Longrightarrow> length (overwrite xs ofs ys) = length xs"
  by (simp add: overwrite_def)

lemma nth_overwrite:
  assumes "ofs + length ys \<le> length xs" "i < length xs"
  shows "overwrite xs ofs ys ! i = (if ofs \<le> i \<and> i < ofs + length ys then ys ! (i - ofs) else xs ! i)"
  using assms by (auto simp: overwrite_def nth_append)

lemma slice_overwrite_same [simp]:
  "ofs + length ys \<le> length xs \<Longrightarrow> slice ofs (length ys) (overwrite xs ofs ys) = ys"
  by (simp add: slice_def overwrite_def)

lemma overwrite_whole [simp]: "length ys = length xs \<Longrightarrow> overwrite xs 0 ys = ys"
  by (simp add: overwrite_def)

lemma bind_SomeE:
  assumes "Option.bind x f = Some y"
  obtains z where "x = Some z" "f z = Some y"
  using assms by (cases x) auto

end
