(* ===== verification/Bitmap.thy ===== *)
theory Bitmap
  imports Prelude
begin

text \<open>
  The kernel bitmap of \<^verbatim>\<open>lib/kernel/bitmap.c\<close>: an array of 32-bit elements that simulates an
  array of bits. The definitions follow the C text, one per function; \<open>bitmap_abs\<close> reads a bitmap
  as the list of its bits, and every operation is shown to be the obvious list operation on it.
\<close>

section \<open>The data type and its element arithmetic\<close>

type_synonym elem_type = u32

definition ELEM_BITS :: nat where
  "ELEM_BITS = 32"

record bitmap =
  bit_cnt :: nat
  bits :: "elem_type list"

definition elem_idx :: "nat \<Rightarrow> nat" where
  "elem_idx bit_idx = bit_idx div ELEM_BITS"

definition bit_mask :: "nat \<Rightarrow> elem_type" where
  "bit_mask bit_idx = push_bit (bit_idx mod ELEM_BITS) 1"

definition elem_cnt :: "nat \<Rightarrow> nat" where
  "elem_cnt n = DIV_ROUND_UP n ELEM_BITS"

definition byte_cnt :: "nat \<Rightarrow> nat" where
  "byte_cnt n = 4 * elem_cnt n"

definition last_mask :: "bitmap \<Rightarrow> elem_type" where
  "last_mask b =
     (let last_bits = bit_cnt b mod ELEM_BITS
      in if last_bits \<noteq> 0 then push_bit last_bits 1 - 1 else -1)"

definition BITMAP_ERROR :: nat where
  "BITMAP_ERROR = SIZE_MAX"

section \<open>Single bits\<close>

definition bitmap_size :: "bitmap \<Rightarrow> nat" where
  "bitmap_size b = bit_cnt b"

definition bitmap_mark :: "bitmap \<Rightarrow> nat \<Rightarrow> bitmap option" where
  "bitmap_mark b bit_idx = do {
     e \<leftarrow> arr_get (bits b) (elem_idx bit_idx);
     es \<leftarrow> arr_set (bits b) (elem_idx bit_idx) (e OR bit_mask bit_idx);
     Some (b\<lparr>bits := es\<rparr>) }"

definition bitmap_reset :: "bitmap \<Rightarrow> nat \<Rightarrow> bitmap option" where
  "bitmap_reset b bit_idx = do {
     e \<leftarrow> arr_get (bits b) (elem_idx bit_idx);
     es \<leftarrow> arr_set (bits b) (elem_idx bit_idx) (e AND NOT (bit_mask bit_idx));
     Some (b\<lparr>bits := es\<rparr>) }"

definition bitmap_flip :: "bitmap \<Rightarrow> nat \<Rightarrow> bitmap option" where
  "bitmap_flip b bit_idx = do {
     e \<leftarrow> arr_get (bits b) (elem_idx bit_idx);
     es \<leftarrow> arr_set (bits b) (elem_idx bit_idx) (e XOR bit_mask bit_idx);
     Some (b\<lparr>bits := es\<rparr>) }"

definition bitmap_set :: "bitmap \<Rightarrow> nat \<Rightarrow> bool \<Rightarrow> bitmap option" where
  "bitmap_set b idx v = do {
     ASSERT (idx < bit_cnt b);
     (if v then bitmap_mark b idx else bitmap_reset b idx) }"

definition bitmap_test :: "bitmap \<Rightarrow> nat \<Rightarrow> bool option" where
  "bitmap_test b idx = do {
     ASSERT (idx < bit_cnt b);
     e \<leftarrow> arr_get (bits b) (elem_idx idx);
     Some (e AND bit_mask idx \<noteq> 0) }"

section \<open>Runs of bits\<close>

fun set_loop :: "bitmap \<Rightarrow> nat \<Rightarrow> nat \<Rightarrow> bool \<Rightarrow> bitmap option" where
  "set_loop b i 0 v = Some b"
| "set_loop b i (Suc n) v = do { b' \<leftarrow> bitmap_set b i v; set_loop b' (i + 1) n v }"

definition bitmap_set_multiple :: "bitmap \<Rightarrow> nat \<Rightarrow> nat \<Rightarrow> bool \<Rightarrow> bitmap option" where
  "bitmap_set_multiple b start cnt v = do {
     ASSERT (start \<le> bit_cnt b);
     ASSERT (size_add start cnt \<le> bit_cnt b);
     set_loop b start cnt v }"

definition bitmap_set_all :: "bitmap \<Rightarrow> bool \<Rightarrow> bitmap option" where
  "bitmap_set_all b v = bitmap_set_multiple b 0 (bitmap_size b) v"

fun count_loop :: "bitmap \<Rightarrow> nat \<Rightarrow> nat \<Rightarrow> bool \<Rightarrow> nat \<Rightarrow> nat option" where
  "count_loop b i 0 v value_cnt = Some value_cnt"
| "count_loop b i (Suc n) v value_cnt = do {
     t \<leftarrow> bitmap_test b i;
     count_loop b (i + 1) n v (if t = v then value_cnt + 1 else value_cnt) }"

definition bitmap_count :: "bitmap \<Rightarrow> nat \<Rightarrow> nat \<Rightarrow> bool \<Rightarrow> nat option" where
  "bitmap_count b start cnt v = do {
     ASSERT (start \<le> bit_cnt b);
     ASSERT (size_add start cnt \<le> bit_cnt b);
     count_loop b start cnt v 0 }"

fun contains_loop :: "bitmap \<Rightarrow> nat \<Rightarrow> nat \<Rightarrow> bool \<Rightarrow> bool option" where
  "contains_loop b i 0 v = Some False"
| "contains_loop b i (Suc n) v = do {
     t \<leftarrow> bitmap_test b i;
     (if t = v then Some True else contains_loop b (i + 1) n v) }"

definition bitmap_contains :: "bitmap \<Rightarrow> nat \<Rightarrow> nat \<Rightarrow> bool \<Rightarrow> bool option" where
  "bitmap_contains b start cnt v = do {
     ASSERT (start \<le> bit_cnt b);
     ASSERT (size_add start cnt \<le> bit_cnt b);
     contains_loop b start cnt v }"

definition bitmap_any :: "bitmap \<Rightarrow> nat \<Rightarrow> nat \<Rightarrow> bool option" where
  "bitmap_any b start cnt = bitmap_contains b start cnt True"

definition bitmap_none :: "bitmap \<Rightarrow> nat \<Rightarrow> nat \<Rightarrow> bool option" where
  "bitmap_none b start cnt = map_option Not (bitmap_contains b start cnt True)"

definition bitmap_all :: "bitmap \<Rightarrow> nat \<Rightarrow> nat \<Rightarrow> bool option" where
  "bitmap_all b start cnt = map_option Not (bitmap_contains b start cnt False)"

section \<open>Scanning\<close>

function scan_loop :: "bitmap \<Rightarrow> nat \<Rightarrow> nat \<Rightarrow> nat \<Rightarrow> bool \<Rightarrow> nat option" where
  "scan_loop b i lst cnt v =
     (if i \<le> lst then do {
        c \<leftarrow> bitmap_contains b i cnt (\<not> v);
        (if \<not> c then Some i else scan_loop b (i + 1) lst cnt v) }
      else Some BITMAP_ERROR)"
  by pat_completeness auto
termination
  by (relation "measure (\<lambda>(b, i, lst, cnt, v). Suc lst - i)") auto

declare scan_loop.simps [simp del]

definition bitmap_scan :: "bitmap \<Rightarrow> nat \<Rightarrow> nat \<Rightarrow> bool \<Rightarrow> nat option" where
  "bitmap_scan b start cnt v = do {
     ASSERT (start \<le> bit_cnt b);
     (if cnt \<le> bit_cnt b then scan_loop b start (bit_cnt b - cnt) cnt v
      else Some BITMAP_ERROR) }"

definition bitmap_scan_and_flip :: "bitmap \<Rightarrow> nat \<Rightarrow> nat \<Rightarrow> bool \<Rightarrow> (nat \<times> bitmap) option" where
  "bitmap_scan_and_flip b start cnt v = do {
     idx \<leftarrow> bitmap_scan b start cnt v;
     (if idx \<noteq> BITMAP_ERROR then do {
        b' \<leftarrow> bitmap_set_multiple b idx cnt (\<not> v);
        Some (idx, b') }
      else Some (idx, b)) }"

section \<open>Creation\<close>

text \<open>
  The element array comes from \<^verbatim>\<open>malloc\<close> or from a caller's buffer and holds arbitrary words, the
  argument \<open>garbage\<close>; \<open>None\<close> inside the result is the null pointer of a failed allocation.
\<close>

definition bitmap_create :: "nat \<Rightarrow> u32 list option \<Rightarrow> bitmap option option" where
  "bitmap_create n malloc_bits =
     (case malloc_bits of
        None \<Rightarrow> if n = 0 then map_option Some (bitmap_set_all \<lparr>bit_cnt = n, bits = []\<rparr> False)
                else Some None
      | Some garbage \<Rightarrow>
          map_option Some
            (bitmap_set_all \<lparr>bit_cnt = n, bits = take (elem_cnt n) garbage\<rparr> False))"

definition bitmap_buf_size :: "nat \<Rightarrow> nat" where
  "bitmap_buf_size n = 8 + byte_cnt n"

definition bitmap_create_in_buf :: "nat \<Rightarrow> u32 list \<Rightarrow> nat \<Rightarrow> bitmap option" where
  "bitmap_create_in_buf n garbage block_size = do {
     ASSERT (bitmap_buf_size n \<le> block_size);
     bitmap_set_all \<lparr>bit_cnt = n, bits = take (elem_cnt n) garbage\<rparr> False }"

section \<open>The bitmap as a file\<close>

definition bitmap_file_size :: "bitmap \<Rightarrow> nat" where
  "bitmap_file_size b = byte_cnt (bit_cnt b)"

text \<open>The bytes \<open>bitmap_write\<close> hands to \<^verbatim>\<open>file_write_at\<close>, and what \<open>bitmap_read\<close> makes of the bytes
  \<^verbatim>\<open>file_read_at\<close> stored at the start of the element array.\<close>

definition bitmap_bytes :: "bitmap \<Rightarrow> byte list" where
  "bitmap_bytes b = words_to_bytes (bits b)"

definition bitmap_load :: "bitmap \<Rightarrow> byte list \<Rightarrow> bitmap option" where
  "bitmap_load b data =
     (if bit_cnt b > 0 then do {
        let es = bytes_to_words (overwrite (words_to_bytes (bits b)) 0 data);
        e \<leftarrow> arr_get es (elem_cnt (bit_cnt b) - 1);
        es' \<leftarrow> arr_set es (elem_cnt (bit_cnt b) - 1) (e AND last_mask b);
        Some (b\<lparr>bits := es'\<rparr>) }
      else Some b)"

section \<open>Abstraction and invariant\<close>

definition bitmap_inv :: "bitmap \<Rightarrow> bool" where
  "bitmap_inv b \<longleftrightarrow> length (bits b) = elem_cnt (bit_cnt b) \<and> bit_cnt b < SIZE_MAX"

definition bitmap_bit :: "bitmap \<Rightarrow> nat \<Rightarrow> bool" where
  "bitmap_bit b i = bit (bits b ! (i div 32)) (i mod 32)"

definition bitmap_abs :: "bitmap \<Rightarrow> bool list" where
  "bitmap_abs b = map (bitmap_bit b) [0..<bit_cnt b]"

section \<open>Element arithmetic\<close>

lemma elem_idx_in_range:
  "bitmap_inv b \<Longrightarrow> i < bit_cnt b \<Longrightarrow> i div 32 < length (bits b)"
  by (simp add: bitmap_inv_def elem_cnt_def ELEM_BITS_def less_DIV_ROUND_UP)

lemma bit_mask_test: "(e AND bit_mask i \<noteq> 0) = bit e (i mod 32)"
  by (simp add: bit_mask_def ELEM_BITS_def push_bit_eq_mult and_exp_eq_0_iff_not_bit)

lemma bit_bit_mask: "k < 32 \<Longrightarrow> bit (bit_mask i) k \<longleftrightarrow> k = i mod 32"
  by (auto simp: bit_mask_def ELEM_BITS_def bit_simps)

lemma bit_elem_update:
  assumes "i div 32 < length es" "\<And>k. k < 32 \<Longrightarrow> bit e k = (if k = i mod 32 then v else bit (es ! (i div 32)) k)"
  shows "bit (es[i div 32 := e] ! (j div 32)) (j mod 32)
         = (if j = i then v else bit (es ! (j div 32)) (j mod 32))"
proof (cases "j div 32 = i div 32")
  case True
  have "j = i \<longleftrightarrow> j mod 32 = i mod 32"
    using True by (metis div_mod_decomp)
  then show ?thesis
    using assms True by auto
next
  case False
  then show ?thesis by auto
qed

lemma bitmap_abs_nth [simp]: "i < bit_cnt b \<Longrightarrow> bitmap_abs b ! i = bitmap_bit b i"
  by (simp add: bitmap_abs_def)

lemma length_bitmap_abs [simp]: "length (bitmap_abs b) = bit_cnt b"
  by (simp add: bitmap_abs_def)

section \<open>Single bits refine list update and lookup\<close>

lemma bitmap_test_spec:
  "bitmap_inv b \<Longrightarrow> i < bit_cnt b \<Longrightarrow> bitmap_test b i = Some (bitmap_abs b ! i)"
  using elem_idx_in_range [of b i]
  by (simp add: bitmap_test_def elem_idx_def ELEM_BITS_def bit_mask_test bitmap_bit_def)

lemma bitmap_with_elem:
  assumes "bitmap_inv b" "i < bit_cnt b"
    and "\<And>k. k < 32 \<Longrightarrow> bit e k = (if k = i mod 32 then v else bit (bits b ! (i div 32)) k)"
  defines "b' \<equiv> b\<lparr>bits := (bits b)[i div 32 := e]\<rparr>"
  shows "bitmap_inv b'" "bit_cnt b' = bit_cnt b" "bitmap_abs b' = (bitmap_abs b)[i := v]"
proof -
  have r: "i div 32 < length (bits b)"
    using assms(1,2) by (rule elem_idx_in_range)
  show "bitmap_inv b'" "bit_cnt b' = bit_cnt b"
    using assms(1) by (simp_all add: b'_def bitmap_inv_def)
  have "bitmap_bit b' j = (if j = i then v else bitmap_bit b j)" for j
    using bit_elem_update [OF r assms(3)] by (simp add: b'_def bitmap_bit_def)
  then show "bitmap_abs b' = (bitmap_abs b)[i := v]"
    by (intro nth_equalityI) (auto simp: b'_def nth_list_update)
qed

lemma bitmap_mark_spec:
  assumes "bitmap_inv b" "i < bit_cnt b"
  shows "\<exists>b'. bitmap_mark b i = Some b' \<and> bitmap_inv b' \<and> bit_cnt b' = bit_cnt b
              \<and> bitmap_abs b' = (bitmap_abs b)[i := True]"
  using elem_idx_in_range [OF assms] bitmap_with_elem [OF assms, of "bits b ! (i div 32) OR bit_mask i" True]
  by (simp add: bitmap_mark_def elem_idx_def ELEM_BITS_def bit_or_iff bit_bit_mask)

lemma bitmap_reset_spec:
  assumes "bitmap_inv b" "i < bit_cnt b"
  shows "\<exists>b'. bitmap_reset b i = Some b' \<and> bitmap_inv b' \<and> bit_cnt b' = bit_cnt b
              \<and> bitmap_abs b' = (bitmap_abs b)[i := False]"
  using elem_idx_in_range [OF assms]
    bitmap_with_elem [OF assms, of "bits b ! (i div 32) AND NOT (bit_mask i)" False]
  by (simp add: bitmap_reset_def elem_idx_def ELEM_BITS_def bit_simps bit_bit_mask)

lemma bitmap_flip_spec:
  assumes "bitmap_inv b" "i < bit_cnt b"
  shows "\<exists>b'. bitmap_flip b i = Some b' \<and> bitmap_inv b' \<and> bit_cnt b' = bit_cnt b
              \<and> bitmap_abs b' = (bitmap_abs b)[i := \<not> bitmap_abs b ! i]"
  using elem_idx_in_range [OF assms]
    bitmap_with_elem [OF assms, of "bits b ! (i div 32) XOR bit_mask i" "\<not> bitmap_bit b i"]
  by (simp add: bitmap_flip_def elem_idx_def ELEM_BITS_def bit_simps bit_bit_mask bitmap_bit_def assms)

lemma bitmap_set_spec:
  assumes "bitmap_inv b" "i < bit_cnt b"
  shows "\<exists>b'. bitmap_set b i v = Some b' \<and> bitmap_inv b' \<and> bit_cnt b' = bit_cnt b
              \<and> bitmap_abs b' = (bitmap_abs b)[i := v]"
  using assms bitmap_mark_spec [OF assms] bitmap_reset_spec [OF assms]
  by (cases v) (simp_all add: bitmap_set_def)

section \<open>Runs of bits\<close>

lemma overwrite_replicate_Suc:
  "i < length xs \<Longrightarrow> i + Suc n \<le> length xs \<Longrightarrow>
   overwrite (xs[i := v]) (Suc i) (replicate n v) = overwrite xs i (replicate (Suc n) v)"
  by (intro nth_equalityI) (auto simp: nth_overwrite nth_list_update less_Suc_eq)

lemma set_loop_spec:
  "bitmap_inv b \<Longrightarrow> i + n \<le> bit_cnt b \<Longrightarrow>
   \<exists>b'. set_loop b i n v = Some b' \<and> bitmap_inv b' \<and> bit_cnt b' = bit_cnt b
        \<and> bitmap_abs b' = overwrite (bitmap_abs b) i (replicate n v)"
proof (induction n arbitrary: b i)
  case 0
  then show ?case by (simp add: overwrite_def)
next
  case (Suc n)
  then obtain b1 where b1: "bitmap_set b i v = Some b1" "bitmap_inv b1" "bit_cnt b1 = bit_cnt b"
    "bitmap_abs b1 = (bitmap_abs b)[i := v]"
    using bitmap_set_spec [of b i v] by auto
  with Suc.IH [of b1 "i + 1"] Suc.prems show ?case
    by (auto simp: overwrite_replicate_Suc)
qed

lemma bitmap_set_multiple_spec:
  assumes "bitmap_inv b" "start + cnt \<le> bit_cnt b"
  shows "\<exists>b'. bitmap_set_multiple b start cnt v = Some b' \<and> bitmap_inv b' \<and> bit_cnt b' = bit_cnt b
              \<and> bitmap_abs b' = overwrite (bitmap_abs b) start (replicate cnt v)"
  using set_loop_spec [OF assms] assms
  by (simp add: bitmap_set_multiple_def bitmap_inv_def)

lemma contains_loop_spec:
  "bitmap_inv b \<Longrightarrow> i + n \<le> bit_cnt b \<Longrightarrow>
   contains_loop b i n v = Some (v \<in> set (slice i n (bitmap_abs b)))"
proof (induction n arbitrary: i)
  case (Suc n)
  then show ?case
    by (auto simp: bitmap_test_spec slice_Suc)
qed (simp add: slice_def)

lemma bitmap_contains_spec:
  "bitmap_inv b \<Longrightarrow> start + cnt \<le> bit_cnt b \<Longrightarrow>
   bitmap_contains b start cnt v = Some (v \<in> set (slice start cnt (bitmap_abs b)))"
  by (simp add: bitmap_contains_def contains_loop_spec bitmap_inv_def)

lemma count_loop_spec:
  "bitmap_inv b \<Longrightarrow> i + n \<le> bit_cnt b \<Longrightarrow>
   count_loop b i n v c = Some (c + count_list (slice i n (bitmap_abs b)) v)"
proof (induction n arbitrary: i c)
  case (Suc n)
  then show ?case
    by (auto simp: bitmap_test_spec slice_Suc)
qed (simp add: slice_def)

lemma bitmap_count_spec:
  "bitmap_inv b \<Longrightarrow> start + cnt \<le> bit_cnt b \<Longrightarrow>
   bitmap_count b start cnt v = Some (count_list (slice start cnt (bitmap_abs b)) v)"
  by (simp add: bitmap_count_def count_loop_spec bitmap_inv_def)

lemma bitmap_all_spec:
  "bitmap_inv b \<Longrightarrow> start + cnt \<le> bit_cnt b \<Longrightarrow>
   bitmap_all b start cnt = Some (\<forall>i. start \<le> i \<and> i < start + cnt \<longrightarrow> bitmap_abs b ! i)"
  by (auto simp: bitmap_all_def bitmap_contains_spec slice_def in_set_conv_nth)
    (metis add_diff_inverse_nat less_diff_conv2 nat_add_left_cancel_less not_less)+

section \<open>Scanning\<close>

definition run_at :: "bool list \<Rightarrow> nat \<Rightarrow> nat \<Rightarrow> bool \<Rightarrow> bool" where
  "run_at xs i cnt v \<longleftrightarrow> i + cnt \<le> length xs \<and> (\<forall>k < cnt. xs ! (i + k) = v)"

lemma slice_all_iff:
  "i + cnt \<le> length xs \<Longrightarrow> ((\<not> v) \<notin> set (slice i cnt xs)) = run_at xs i cnt v"
  by (auto simp: run_at_def slice_def in_set_conv_nth)

lemma scan_loop_spec:
  assumes "bitmap_inv b" "cnt \<le> bit_cnt b" "lst = bit_cnt b - cnt"
  shows "\<exists>r. scan_loop b i lst cnt v = Some r \<and>
           (if r = BITMAP_ERROR then \<forall>j \<ge> i. \<not> run_at (bitmap_abs b) j cnt v
            else i \<le> r \<and> run_at (bitmap_abs b) r cnt v \<and>
                 (\<forall>j. i \<le> j \<and> j < r \<longrightarrow> \<not> run_at (bitmap_abs b) j cnt v))"
  using assms
proof (induction b i lst cnt v rule: scan_loop.induct)
  case (1 b i lst cnt v)
  show ?case
  proof (cases "i \<le> lst")
    case False
    then show ?thesis
      using "1.prems" by (auto simp: scan_loop.simps [of b i] run_at_def)
  next
    case True
    with "1.prems" have "i + cnt \<le> bit_cnt b" "i < BITMAP_ERROR"
      by (auto simp: BITMAP_ERROR_def bitmap_inv_def)
    then have c: "bitmap_contains b i cnt (\<not> v) = Some (\<not> run_at (bitmap_abs b) i cnt v)"
      using "1.prems" by (simp add: bitmap_contains_spec flip: slice_all_iff)
    show ?thesis
    proof (cases "run_at (bitmap_abs b) i cnt v")
      case True
      then show ?thesis
        using \<open>i \<le> lst\<close> \<open>i < BITMAP_ERROR\<close> c by (auto simp: scan_loop.simps [of b i])
    next
      case False
      with "1.IH" [OF \<open>i \<le> lst\<close> c] "1.prems" obtain r where r: "scan_loop b (i + 1) lst cnt v = Some r"
        "if r = BITMAP_ERROR then \<forall>j \<ge> i + 1. \<not> run_at (bitmap_abs b) j cnt v
         else i + 1 \<le> r \<and> run_at (bitmap_abs b) r cnt v \<and>
              (\<forall>j. i + 1 \<le> j \<and> j < r \<longrightarrow> \<not> run_at (bitmap_abs b) j cnt v)"
        by auto
      have "\<forall>j. i \<le> j \<longrightarrow> j = i \<or> i + 1 \<le> j" by auto
      then show ?thesis
        using r False \<open>i \<le> lst\<close> c by (auto simp: scan_loop.simps [of b i] split: if_splits)
    qed
  qed
qed

text \<open>What \<open>bitmap_scan\<close> returns: the least start of a run, or the error value if there is none.\<close>

definition scan_result :: "bool list \<Rightarrow> nat \<Rightarrow> nat \<Rightarrow> bool \<Rightarrow> nat \<Rightarrow> bool" where
  "scan_result xs start cnt v r \<longleftrightarrow>
     (if r = BITMAP_ERROR then \<forall>j \<ge> start. \<not> run_at xs j cnt v
      else start \<le> r \<and> run_at xs r cnt v \<and> (\<forall>j. start \<le> j \<and> j < r \<longrightarrow> \<not> run_at xs j cnt v))"

lemma bitmap_scan_spec:
  assumes "bitmap_inv b" "start \<le> bit_cnt b"
  shows "\<exists>r. bitmap_scan b start cnt v = Some r \<and> scan_result (bitmap_abs b) start cnt v r"
proof (cases "cnt \<le> bit_cnt b")
  case True
  then show ?thesis
    using scan_loop_spec [OF assms(1) True refl, of start v] assms(2)
    by (simp add: bitmap_scan_def scan_result_def)
next
  case False
  then show ?thesis
    using assms(2) by (simp add: bitmap_scan_def scan_result_def run_at_def)
qed

lemma bitmap_scan_and_flip_spec:
  assumes "bitmap_inv b" "start \<le> bit_cnt b"
  shows "\<exists>r b'. bitmap_scan_and_flip b start cnt v = Some (r, b') \<and> bitmap_inv b' \<and>
           bit_cnt b' = bit_cnt b \<and> scan_result (bitmap_abs b) start cnt v r \<and>
           bitmap_abs b' = (if r = BITMAP_ERROR then bitmap_abs b
                            else overwrite (bitmap_abs b) r (replicate cnt (\<not> v)))"
proof -
  obtain r where r: "bitmap_scan b start cnt v = Some r" "scan_result (bitmap_abs b) start cnt v r"
    using bitmap_scan_spec [OF assms] by blast
  show ?thesis
  proof (cases "r = BITMAP_ERROR")
    case True
    then show ?thesis
      using r assms by (simp add: bitmap_scan_and_flip_def)
  next
    case False
    then have "r + cnt \<le> bit_cnt b"
      using r(2) by (simp add: scan_result_def run_at_def)
    from bitmap_set_multiple_spec [OF assms(1) this, of "\<not> v"] show ?thesis
      using False r by (auto simp: bitmap_scan_and_flip_def)
  qed
qed

section \<open>Creation and the file image\<close>

lemma bitmap_set_all_spec:
  assumes "bitmap_inv b"
  shows "\<exists>b'. bitmap_set_all b v = Some b' \<and> bitmap_inv b' \<and> bit_cnt b' = bit_cnt b
              \<and> bitmap_abs b' = replicate (bit_cnt b) v"
  using bitmap_set_multiple_spec [OF assms, of 0 "bit_cnt b" v]
  by (simp add: bitmap_set_all_def bitmap_size_def)

lemma bitmap_create_spec:
  assumes "n < SIZE_MAX" "elem_cnt n \<le> length garbage"
  shows "\<exists>b. bitmap_create n (Some garbage) = Some (Some b) \<and> bitmap_inv b \<and>
             bit_cnt b = n \<and> bitmap_abs b = replicate n False"
  using bitmap_set_all_spec [of "\<lparr>bit_cnt = n, bits = take (elem_cnt n) garbage\<rparr>" False] assms
  by (auto simp: bitmap_create_def bitmap_inv_def)

lemma bit_last_mask:
  assumes "k < 32"
  shows "bit (last_mask b) k \<longleftrightarrow> (bit_cnt b mod 32 = 0 \<or> k < bit_cnt b mod 32)"
proof -
  have "push_bit m 1 - 1 = (mask m :: u32)" for m
    by (simp add: push_bit_eq_mult mask_eq_exp_minus_1)
  then show ?thesis
    using assms by (auto simp: last_mask_def ELEM_BITS_def Let_def bit_mask_iff bit_minus_1_iff)
qed

lemma last_elem_bits:
  assumes "(m :: nat) \<le> n * 32" "n * 32 < m + 32" "i < m" "i div 32 = n - 1"
  shows "m mod 32 = 0 \<or> i mod 32 < m mod 32"
proof (cases "m = n * 32")
  case False
  then have "m div 32 = n - 1"
    using assms by (intro div_nat_eqI) auto
  then show ?thesis
    using assms(3,4) by (metis div_mod_decomp nat_add_left_cancel_less)
qed simp

text \<open>Loading the image of any bitmap of the same size gives back its bits, whatever the target held
  before.\<close>

lemma bitmap_load_bytes:
  assumes "bitmap_inv b" "bitmap_inv c" "bit_cnt c = bit_cnt b"
  shows "\<exists>c'. bitmap_load c (bitmap_bytes b) = Some c' \<and> bitmap_inv c' \<and>
              bit_cnt c' = bit_cnt b \<and> bitmap_abs c' = bitmap_abs b"
proof (cases "bit_cnt b > 0")
  case False
  then show ?thesis
    using assms by (simp add: bitmap_load_def bitmap_abs_def)
next
  case True
  let ?n = "elem_cnt (bit_cnt b)"
  let ?e = "bits b ! (?n - 1) AND last_mask c"
  have len: "length (bits b) = ?n" "length (bits c) = ?n"
    using assms by (simp_all add: bitmap_inv_def)
  have n: "0 < ?n" "bit_cnt b \<le> ?n * 32" "?n * 32 < bit_cnt b + 32"
    using True DIV_ROUND_UP_bounds [of 32 "bit_cnt b"]
    by (auto simp: elem_cnt_def ELEM_BITS_def)
  have ld: "bitmap_load c (bitmap_bytes b) = Some (c\<lparr>bits := (bits b)[?n - 1 := ?e]\<rparr>)"
    using n True len assms(3) by (simp add: bitmap_load_def bitmap_bytes_def Let_def)
  have "bit ((bits b)[?n - 1 := ?e] ! (i div 32)) (i mod 32) = bitmap_bit b i" if "i < bit_cnt b" for i
  proof (cases "i div 32 = ?n - 1")
    case True
    then have "bit (last_mask c) (i mod 32)"
      using last_elem_bits [OF n(2,3) that] assms(3) by (simp add: bit_last_mask)
    then show ?thesis
      using True n len by (simp add: bitmap_bit_def bit_and_iff)
  qed (simp add: bitmap_bit_def)
  then have "bitmap_abs (c\<lparr>bits := (bits b)[?n - 1 := ?e]\<rparr>) = bitmap_abs b"
    using assms(3) by (intro nth_equalityI) (auto simp: bitmap_bit_def)
  then show ?thesis
    using ld len assms by (simp add: bitmap_inv_def)
qed

section \<open>Properties\<close>

text \<open>\<^verbatim>\<open>bitmap_scan_and_flip\<close> is a first-fit allocator. On a well-formed bitmap it never fails an
  assertion: it returns the lowest index at or after \<open>start\<close> of a run of \<open>cnt\<close> bits equal to \<open>v\<close>,
  flips exactly the bits of that run and keeps the bitmap well-formed, or it returns
  \<^verbatim>\<open>BITMAP_ERROR\<close>, changing nothing, and then there is no such run.\<close>
theorem bitmap_scan_and_flip_first_fit:
  assumes "bitmap_inv b" "start \<le> bit_cnt b"
  shows "\<exists>r b'. bitmap_scan_and_flip b start cnt v = Some (r, b') \<and> bitmap_inv b' \<and>
    (if r = BITMAP_ERROR then b' = b \<and> (\<forall>j \<ge> start. \<not> run_at (bitmap_abs b) j cnt v)
     else start \<le> r \<and> run_at (bitmap_abs b) r cnt v \<and>
          (\<forall>j. start \<le> j \<and> j < r \<longrightarrow> \<not> run_at (bitmap_abs b) j cnt v) \<and>
          bitmap_abs b' = overwrite (bitmap_abs b) r (replicate cnt (\<not> v)))"
proof -
  obtain r b' where *: "bitmap_scan_and_flip b start cnt v = Some (r, b')" "bitmap_inv b'"
    "scan_result (bitmap_abs b) start cnt v r"
    "bitmap_abs b' = (if r = BITMAP_ERROR then bitmap_abs b
                      else overwrite (bitmap_abs b) r (replicate cnt (\<not> v)))"
    using bitmap_scan_and_flip_spec [OF assms] by blast
  moreover have "r = BITMAP_ERROR \<Longrightarrow> b' = b"
    using *(1) by (auto simp: bitmap_scan_and_flip_def bind_cases split: if_splits)
  ultimately show ?thesis
    by (auto simp: scan_result_def split: if_splits)
qed

theorem bitmap_scan_and_flip_first_fit_witness:
  "\<exists>r b'. bitmap_scan_and_flip \<lparr>bit_cnt = 5, bits = [3]\<rparr> 1 2 False = Some (r, b') \<and> bitmap_inv b' \<and>
    (if r = BITMAP_ERROR
     then b' = \<lparr>bit_cnt = 5, bits = [3]\<rparr> \<and>
          (\<forall>j \<ge> 1. \<not> run_at (bitmap_abs \<lparr>bit_cnt = 5, bits = [3]\<rparr>) j 2 False)
     else 1 \<le> r \<and> run_at (bitmap_abs \<lparr>bit_cnt = 5, bits = [3]\<rparr>) r 2 False \<and>
          (\<forall>j. 1 \<le> j \<and> j < r \<longrightarrow> \<not> run_at (bitmap_abs \<lparr>bit_cnt = 5, bits = [3]\<rparr>) j 2 False) \<and>
          bitmap_abs b' = overwrite (bitmap_abs \<lparr>bit_cnt = 5, bits = [3]\<rparr>) r (replicate 2 (\<not> False)))"
  by (rule bitmap_scan_and_flip_first_fit) (simp_all add: bitmap_inv_def elem_cnt_def ELEM_BITS_def DIV_ROUND_UP_def SIZE_MAX_def)

text \<open>The file image of a bitmap can be read back: \<^verbatim>\<open>bitmap_read\<close> of the bytes that
  \<^verbatim>\<open>bitmap_write\<close> puts in the file restores every bit, for a target bitmap of the same size and
  arbitrary earlier contents, and masks the unused bits of the last element so that the bitmap stays
  well-formed.\<close>
theorem bitmap_file_roundtrip:
  assumes "bitmap_inv b" "bitmap_inv c" "bit_cnt c = bit_cnt b"
  shows "\<exists>c'. bitmap_load c (bitmap_bytes b) = Some c' \<and> bitmap_inv c' \<and> bitmap_abs c' = bitmap_abs b"
  using bitmap_load_bytes [OF assms] by blast

theorem bitmap_file_roundtrip_witness:
  "\<exists>c'. bitmap_load \<lparr>bit_cnt = 5, bits = [7]\<rparr> (bitmap_bytes \<lparr>bit_cnt = 5, bits = [18]\<rparr>) = Some c' \<and>
        bitmap_inv c' \<and> bitmap_abs c' = bitmap_abs \<lparr>bit_cnt = 5, bits = [18]\<rparr>"
  by (rule bitmap_file_roundtrip) (simp_all add: bitmap_inv_def elem_cnt_def ELEM_BITS_def DIV_ROUND_UP_def SIZE_MAX_def)

end
