(* ===== verification/Kernel_List.thy ===== *)
theory Kernel_List
  imports Prelude
begin

text \<open>
  The intrusive doubly linked lists of \<^verbatim>\<open>lib/kernel/list.c\<close>, on which the ready queue, wait queues,
  buffer cache and open-inode table are built. Elements are addresses in a heap that maps an address
  to its \<^verbatim>\<open>prev\<close> and \<^verbatim>\<open>next\<close> links (address 0 is \<^verbatim>\<open>NULL\<close>); a \<^verbatim>\<open>struct list\<close> is the pair of
  addresses of its two header elements. The predicate \<open>dlist\<close> says that a heap represents a HOL
  list, and each operation is shown to be the corresponding operation on HOL lists.
\<close>

section \<open>Heap and list headers\<close>

type_synonym addr = nat

abbreviation NULL :: addr where
  "NULL \<equiv> 0"

record lheap =
  prev_of :: "addr \<Rightarrow> addr"
  next_of :: "addr \<Rightarrow> addr"

record klist =
  head :: addr
  tail :: addr

definition set_prev :: "addr \<Rightarrow> addr \<Rightarrow> lheap \<Rightarrow> lheap" where
  "set_prev e v h = h\<lparr>prev_of := (prev_of h)(e := v)\<rparr>"

definition set_next :: "addr \<Rightarrow> addr \<Rightarrow> lheap \<Rightarrow> lheap" where
  "set_next e v h = h\<lparr>next_of := (next_of h)(e := v)\<rparr>"

definition deref :: "addr \<Rightarrow> unit option" where
  "deref e = (if e = NULL then None else Some ())"

definition is_head :: "lheap \<Rightarrow> addr \<Rightarrow> bool" where
  "is_head h elem \<longleftrightarrow> elem \<noteq> NULL \<and> prev_of h elem = NULL \<and> next_of h elem \<noteq> NULL"

definition is_interior :: "lheap \<Rightarrow> addr \<Rightarrow> bool" where
  "is_interior h elem \<longleftrightarrow> elem \<noteq> NULL \<and> prev_of h elem \<noteq> NULL \<and> next_of h elem \<noteq> NULL"

definition is_tail :: "lheap \<Rightarrow> addr \<Rightarrow> bool" where
  "is_tail h elem \<longleftrightarrow> elem \<noteq> NULL \<and> prev_of h elem \<noteq> NULL \<and> next_of h elem = NULL"

section \<open>Traversal\<close>

definition list_init :: "klist \<Rightarrow> lheap \<Rightarrow> lheap" where
  "list_init l h =
     set_next (tail l) NULL (set_prev (tail l) (head l)
       (set_next (head l) (tail l) (set_prev (head l) NULL h)))"

definition list_begin :: "klist \<Rightarrow> lheap \<Rightarrow> addr" where
  "list_begin l h = next_of h (head l)"

definition list_next :: "addr \<Rightarrow> lheap \<Rightarrow> addr option" where
  "list_next elem h = do {
     ASSERT (is_head h elem \<or> is_interior h elem);
     Some (next_of h elem) }"

definition list_end :: "klist \<Rightarrow> addr" where
  "list_end l = tail l"

definition list_rbegin :: "klist \<Rightarrow> lheap \<Rightarrow> addr" where
  "list_rbegin l h = prev_of h (tail l)"

definition list_prev :: "addr \<Rightarrow> lheap \<Rightarrow> addr option" where
  "list_prev elem h = do {
     ASSERT (is_interior h elem \<or> is_tail h elem);
     Some (prev_of h elem) }"

definition list_rend :: "klist \<Rightarrow> addr" where
  "list_rend l = head l"

definition list_empty :: "klist \<Rightarrow> lheap \<Rightarrow> bool" where
  "list_empty l h \<longleftrightarrow> list_begin l h = list_end l"

definition list_front :: "klist \<Rightarrow> lheap \<Rightarrow> addr option" where
  "list_front l h = do { ASSERT (\<not> list_empty l h); Some (next_of h (head l)) }"

definition list_back :: "klist \<Rightarrow> lheap \<Rightarrow> addr option" where
  "list_back l h = do { ASSERT (\<not> list_empty l h); Some (prev_of h (tail l)) }"

partial_function (option) size_loop :: "klist \<Rightarrow> lheap \<Rightarrow> addr \<Rightarrow> nat \<Rightarrow> nat option" where
  "size_loop l h e cnt =
     (if e \<noteq> list_end l then do { e' \<leftarrow> list_next e h; size_loop l h e' (cnt + 1) }
      else Some cnt)"

definition list_size :: "klist \<Rightarrow> lheap \<Rightarrow> nat option" where
  "list_size l h = size_loop l h (list_begin l h) 0"

section \<open>Insertion and removal\<close>

definition list_insert :: "addr \<Rightarrow> addr \<Rightarrow> lheap \<Rightarrow> lheap option" where
  "list_insert before elem h = do {
     ASSERT (is_interior h before \<or> is_tail h before);
     ASSERT (elem \<noteq> NULL);
     let h1 = set_prev elem (prev_of h before) h;
     let h2 = set_next elem before h1;
     let h3 = set_next (prev_of h2 before) elem h2;
     Some (set_prev before elem h3) }"

definition list_splice :: "addr \<Rightarrow> addr \<Rightarrow> addr \<Rightarrow> lheap \<Rightarrow> lheap option" where
  "list_splice before first lst h = do {
     ASSERT (is_interior h before \<or> is_tail h before);
     (if first = lst then Some h
      else do {
        lst \<leftarrow> list_prev lst h;
        ASSERT (is_interior h first);
        ASSERT (is_interior h lst);
        let h1 = set_next (prev_of h first) (next_of h lst) h;
        let h2 = set_prev (next_of h1 lst) (prev_of h1 first) h1;
        let h3 = set_prev first (prev_of h2 before) h2;
        let h4 = set_next lst before h3;
        let h5 = set_next (prev_of h4 before) first h4;
        Some (set_prev before lst h5) }) }"

definition list_push_front :: "klist \<Rightarrow> addr \<Rightarrow> lheap \<Rightarrow> lheap option" where
  "list_push_front l elem h = list_insert (list_begin l h) elem h"

definition list_push_back :: "klist \<Rightarrow> addr \<Rightarrow> lheap \<Rightarrow> lheap option" where
  "list_push_back l elem h = list_insert (list_end l) elem h"

definition list_remove :: "addr \<Rightarrow> lheap \<Rightarrow> (addr \<times> lheap) option" where
  "list_remove elem h = do {
     ASSERT (is_interior h elem);
     let h1 = set_next (prev_of h elem) (next_of h elem) h;
     let h2 = set_prev (next_of h1 elem) (prev_of h1 elem) h1;
     Some (next_of h2 elem, h2) }"

definition list_pop_front :: "klist \<Rightarrow> lheap \<Rightarrow> (addr \<times> lheap) option" where
  "list_pop_front l h = do {
     front \<leftarrow> list_front l h;
     (_, h') \<leftarrow> list_remove front h;
     Some (front, h') }"

definition list_pop_back :: "klist \<Rightarrow> lheap \<Rightarrow> (addr \<times> lheap) option" where
  "list_pop_back l h = do {
     back \<leftarrow> list_back l h;
     (_, h') \<leftarrow> list_remove back h;
     Some (back, h') }"

section \<open>Whole-list operations\<close>

definition swap_links :: "addr \<Rightarrow> lheap \<Rightarrow> lheap" where
  "swap_links e h = set_next e (prev_of h e) (set_prev e (next_of h e) h)"

partial_function (option) reverse_loop :: "klist \<Rightarrow> addr \<Rightarrow> lheap \<Rightarrow> lheap option" where
  "reverse_loop l e h =
     (if e \<noteq> list_end l then
        do { deref e; let h' = swap_links e h; reverse_loop l (prev_of h' e) h' }
      else Some h)"

definition list_reverse :: "klist \<Rightarrow> lheap \<Rightarrow> lheap option" where
  "list_reverse l h =
     (if \<not> list_empty l h then do {
        h1 \<leftarrow> reverse_loop l (list_begin l h) h;
        let h2 = set_prev (tail l) (next_of h1 (head l)) (set_next (head l) (prev_of h1 (tail l)) h1);
        let f = next_of h2 (head l);
        let b = prev_of h2 (tail l);
        Some (set_next b (prev_of h2 f) (set_prev f (next_of h2 b) h2)) }
      else Some h)"

partial_function (option) ordered_pos ::
    "(addr \<Rightarrow> addr \<Rightarrow> bool) \<Rightarrow> klist \<Rightarrow> addr \<Rightarrow> lheap \<Rightarrow> addr \<Rightarrow> addr option" where
  "ordered_pos lt l elem h e =
     (if e \<noteq> list_end l then
        (if lt elem e then Some e
         else do { e' \<leftarrow> list_next e h; ordered_pos lt l elem h e' })
      else Some e)"

definition list_insert_ordered ::
    "(addr \<Rightarrow> addr \<Rightarrow> bool) \<Rightarrow> klist \<Rightarrow> addr \<Rightarrow> lheap \<Rightarrow> lheap option" where
  "list_insert_ordered lt l elem h = do {
     ASSERT (elem \<noteq> NULL);
     e \<leftarrow> ordered_pos lt l elem h (list_begin l h);
     list_insert e elem h }"

partial_function (option) unique_loop ::
    "(addr \<Rightarrow> addr \<Rightarrow> bool) \<Rightarrow> klist \<Rightarrow> klist option \<Rightarrow> addr \<Rightarrow> lheap \<Rightarrow> lheap option" where
  "unique_loop lt l dups elem h = do {
     nxt \<leftarrow> list_next elem h;
     (if nxt \<noteq> list_end l then
        (if \<not> lt elem nxt \<and> \<not> lt nxt elem then do {
           (_, h1) \<leftarrow> list_remove nxt h;
           h2 \<leftarrow> (case dups of None \<Rightarrow> Some h1 | Some d \<Rightarrow> list_push_back d nxt h1);
           unique_loop lt l dups elem h2 }
         else unique_loop lt l dups nxt h)
      else Some h) }"

definition list_unique ::
    "(addr \<Rightarrow> addr \<Rightarrow> bool) \<Rightarrow> klist \<Rightarrow> klist option \<Rightarrow> lheap \<Rightarrow> lheap option" where
  "list_unique lt l dups h =
     (if list_empty l h then Some h else unique_loop lt l dups (list_begin l h) h)"

partial_function (option) max_loop ::
    "(addr \<Rightarrow> addr \<Rightarrow> bool) \<Rightarrow> klist \<Rightarrow> lheap \<Rightarrow> addr \<Rightarrow> addr \<Rightarrow> addr option" where
  "max_loop lt l h mx e =
     (if e \<noteq> list_end l then do {
        e' \<leftarrow> list_next e h;
        max_loop lt l h (if lt mx e then e else mx) e' }
      else Some mx)"

definition list_max :: "(addr \<Rightarrow> addr \<Rightarrow> bool) \<Rightarrow> klist \<Rightarrow> lheap \<Rightarrow> addr option" where
  "list_max lt l h =
     (let mx = list_begin l h in
      if mx \<noteq> list_end l then do { e \<leftarrow> list_next mx h; max_loop lt l h mx e } else Some mx)"

partial_function (option) min_loop ::
    "(addr \<Rightarrow> addr \<Rightarrow> bool) \<Rightarrow> klist \<Rightarrow> lheap \<Rightarrow> addr \<Rightarrow> addr \<Rightarrow> addr option" where
  "min_loop lt l h mn e =
     (if e \<noteq> list_end l then do {
        e' \<leftarrow> list_next e h;
        min_loop lt l h (if lt e mn then e else mn) e' }
      else Some mn)"

definition list_min :: "(addr \<Rightarrow> addr \<Rightarrow> bool) \<Rightarrow> klist \<Rightarrow> lheap \<Rightarrow> addr option" where
  "list_min lt l h =
     (let mn = list_begin l h in
      if mn \<noteq> list_end l then do { e \<leftarrow> list_next mn h; min_loop lt l h mn e } else Some mn)"

section \<open>What a heap represents\<close>

fun chain :: "lheap \<Rightarrow> addr list \<Rightarrow> bool" where
  "chain h (x # y # zs) \<longleftrightarrow> next_of h x = y \<and> prev_of h y = x \<and> chain h (y # zs)"
| "chain h _ \<longleftrightarrow> True"

definition nodes :: "klist \<Rightarrow> addr list \<Rightarrow> addr list" where
  "nodes l xs = head l # xs @ [tail l]"

definition dlist :: "lheap \<Rightarrow> klist \<Rightarrow> addr list \<Rightarrow> bool" where
  "dlist h l xs \<longleftrightarrow> chain h (nodes l xs) \<and> distinct (nodes l xs) \<and> NULL \<notin> set (nodes l xs) \<and>
                    prev_of h (head l) = NULL \<and> next_of h (tail l) = NULL"

section \<open>Chains\<close>

lemma set_prev_simps [simp]:
  "prev_of (set_prev e v h) = (prev_of h)(e := v)" "next_of (set_prev e v h) = next_of h"
  by (simp_all add: set_prev_def)

lemma set_next_simps [simp]:
  "next_of (set_next e v h) = (next_of h)(e := v)" "prev_of (set_next e v h) = prev_of h"
  by (simp_all add: set_next_def)

lemma chain_append:
  "chain h (xs @ y # ys) \<longleftrightarrow> chain h (xs @ [y]) \<and> chain h (y # ys)"
proof (induction xs)
  case (Cons x xs)
  then show ?case by (cases xs) auto
qed simp

lemma chain_cong:
  "(\<And>a. a \<in> set (butlast xs) \<Longrightarrow> next_of h a = next_of h' a) \<Longrightarrow>
   (\<And>a. a \<in> set (tl xs) \<Longrightarrow> prev_of h a = prev_of h' a) \<Longrightarrow> chain h xs = chain h' xs"
proof (induction xs rule: induct_list012)
  case (3 x y zs)
  have "chain h (y # zs) = chain h' (y # zs)"
    by (rule "3.IH"(2)) (use "3.prems" in simp_all)
  moreover have "next_of h x = next_of h' x" "prev_of h y = prev_of h' y"
    using "3.prems" by simp_all
  ultimately show ?case by simp
qed simp_all

lemma chain_links:
  assumes "chain h (as @ p # q # bs)"
  shows "next_of h p = q" "prev_of h q = p"
  using assms by (simp_all add: chain_append [of h as p "q # bs"])

lemma chain_prefix_upd:
  assumes "distinct (as @ p # bs)"
  shows "chain (set_next p v h) (as @ [p]) = chain h (as @ [p])"
    and "chain (set_prev p v h) (p # bs) = chain h (p # bs)"
  using assms by (auto intro!: chain_cong)

lemma in_set_tl: "a \<in> set (tl xs) \<Longrightarrow> a \<in> set xs"
  by (cases xs) auto

lemma chain_upd_notin [simp]:
  "a \<notin> set xs \<Longrightarrow> chain (set_next a v h) xs = chain h xs"
  "a \<notin> set xs \<Longrightarrow> chain (set_prev a v h) xs = chain h xs"
  by (auto intro!: chain_cong dest: in_set_butlastD in_set_tl)

lemma dlist_cong:
  "(\<And>a. a \<in> set (nodes l xs) \<Longrightarrow> prev_of h a = prev_of h' a \<and> next_of h a = next_of h' a) \<Longrightarrow>
   dlist h l xs = dlist h' l xs"
  using chain_cong [of "nodes l xs" h h']
  by (auto simp: dlist_def nodes_def dest: in_set_butlastD)

text \<open>Inserting between two neighbours of a chain.\<close>

lemma chain_insert:
  assumes ch: "chain h (as @ p # b # bs)" and d: "distinct (as @ p # b # bs)"
    and e: "e \<notin> set (as @ p # b # bs)"
  defines "h' \<equiv> set_prev b e (set_next p e (set_next e b (set_prev e p h)))"
  shows "chain h' (as @ p # e # b # bs)"
proof -
  let ?g = "set_next e b (set_prev e p h)"
  have "chain ?g (as @ [p])" "chain ?g (b # bs)"
    using ch e chain_append [of h as p "b # bs"] by auto
  then have "chain (set_next p e ?g) (as @ [p])" "chain (set_next p e ?g) (b # bs)"
    using d chain_prefix_upd(1) [of as p "b # bs"] by auto
  then have "chain h' (as @ [p])" "chain h' (b # bs)"
    unfolding h'_def using d chain_prefix_upd(2) [of "as @ [p]" b bs] by auto
  moreover have "next_of h' p = e" "prev_of h' e = p" "next_of h' e = b" "prev_of h' b = e"
    unfolding h'_def using d e by auto
  ultimately show ?thesis
    using chain_append [of h' as p "e # b # bs"] by simp
qed

text \<open>Unlinking the middle one of three neighbours.\<close>

lemma chain_delete:
  assumes ch: "chain h (as @ p # e # b # bs)" and d: "distinct (as @ p # e # b # bs)"
  defines "h' \<equiv> set_prev b p (set_next p b h)"
  shows "chain h' (as @ p # b # bs)"
proof -
  have "chain h (as @ [p])" "chain h (b # bs)"
    using ch chain_append [of h as p "e # b # bs"] by auto
  then have "chain (set_next p b h) (as @ [p])" "chain (set_next p b h) (b # bs)"
    using d chain_prefix_upd(1) [of as p "b # bs"] by auto
  then have "chain h' (as @ [p])" "chain h' (b # bs)"
    unfolding h'_def using d chain_prefix_upd(2) [of "as @ [p]" b bs] by auto
  moreover have "next_of h' p = b" "prev_of h' b = p"
    unfolding h'_def by auto
  ultimately show ?thesis
    using chain_append [of h' as p "b # bs"] by simp
qed

section \<open>Lists: positions and frames\<close>

lemma nodes_split:
  obtains as p b bs where "head l # xs = as @ [p]" "ys @ [tail l] = b # bs"
    "nodes l (xs @ ys) = as @ p # b # bs" "\<forall>e. nodes l (xs @ e # ys) = as @ p # e # b # bs"
proof -
  obtain as p where a: "head l # xs = as @ [p]"
    by (metis list.distinct(1) rev_exhaust)
  obtain b bs where b: "ys @ [tail l] = b # bs"
    by (cases "ys @ [tail l]") auto
  have "nodes l (xs @ zs) = (head l # xs) @ zs @ [tail l]" for zs
    by (simp add: nodes_def)
  with a b that show thesis by auto
qed

definition same_outside :: "addr set \<Rightarrow> lheap \<Rightarrow> lheap \<Rightarrow> bool" where
  "same_outside A h h' \<longleftrightarrow> (\<forall>a. a \<notin> A \<longrightarrow> prev_of h' a = prev_of h a \<and> next_of h' a = next_of h a)"

lemma dlist_frame:
  "same_outside A h h' \<Longrightarrow> set (nodes l xs) \<inter> A = {} \<Longrightarrow> dlist h' l xs = dlist h l xs"
  by (rule dlist_cong) (auto simp: same_outside_def)

lemma same_outside_trans [trans]:
  "same_outside A h h' \<Longrightarrow> same_outside B h' h'' \<Longrightarrow> same_outside (A \<union> B) h h''"
  by (simp add: same_outside_def)

lemma same_outside_mono: "same_outside A h h' \<Longrightarrow> A \<subseteq> B \<Longrightarrow> same_outside B h h'"
  by (auto simp: same_outside_def)

lemma dlist_distinct: "dlist h l xs \<Longrightarrow> distinct xs"
  by (simp add: dlist_def nodes_def)

lemma list_init_spec:
  "head l \<noteq> NULL \<Longrightarrow> tail l \<noteq> NULL \<Longrightarrow> head l \<noteq> tail l \<Longrightarrow> dlist (list_init l h) l []"
  by (simp add: list_init_def dlist_def nodes_def)

lemma dlist_begin: "dlist h l xs \<Longrightarrow> list_begin l h = hd (xs @ [tail l])"
  by (cases xs) (auto simp: dlist_def nodes_def list_begin_def)

lemma dlist_rbegin: "dlist h l xs \<Longrightarrow> list_rbegin l h = last (head l # xs)"
proof -
  assume d: "dlist h l xs"
  obtain as p where a: "head l # xs = as @ [p]"
    by (metis list.distinct(1) rev_exhaust)
  then have "nodes l xs = as @ p # [tail l]"
    by (simp add: nodes_def)
  then have "prev_of h (tail l) = p"
    using d chain_links(2) [of h as p "tail l" "[]"] by (simp add: dlist_def)
  with a show ?thesis
    by (metis last_snoc list_rbegin_def)
qed

lemma dlist_interior:
  assumes "dlist h l (xs @ e # ys)"
  shows "is_interior h e" "next_of h e = hd (ys @ [tail l])" "prev_of h e = last (head l # xs)"
proof -
  obtain as p b bs where n: "head l # xs = as @ [p]" "ys @ [tail l] = b # bs"
    "nodes l (xs @ ys) = as @ p # b # bs" "\<forall>e. nodes l (xs @ e # ys) = as @ p # e # b # bs"
    by (rule nodes_split [of l xs ys]) (rule that)
  have "chain h (as @ p # e # b # bs)" "NULL \<notin> set (as @ p # e # b # bs)"
    using assms n(4) by (auto simp: dlist_def)
  then have e: "prev_of h e = p" "next_of h e = b" "p \<noteq> NULL" "b \<noteq> NULL" "e \<noteq> NULL"
    using chain_append [of h as p "e # b # bs"] by auto
  then show "is_interior h e" by (simp add: is_interior_def)
  show "next_of h e = hd (ys @ [tail l])" using e n(2) by simp
  show "prev_of h e = last (head l # xs)" unfolding n(1) using e by simp
qed

lemma dlist_tail: "dlist h l xs \<Longrightarrow> is_tail h (tail l) \<and> prev_of h (tail l) = last (head l # xs)"
proof -
  assume d: "dlist h l xs"
  then have "NULL \<notin> set (head l # xs)"
    by (simp add: dlist_def nodes_def)
  then have "last (head l # xs) \<noteq> NULL"
    by (metis last_in_set list.distinct(1))
  with d dlist_rbegin [OF d] show ?thesis
    by (simp add: dlist_def nodes_def is_tail_def list_rbegin_def)
qed

lemma dlist_empty: "dlist h l xs \<Longrightarrow> list_empty l h \<longleftrightarrow> xs = []"
  using dlist_begin [of h l xs]
  by (cases xs) (auto simp: list_empty_def list_end_def dlist_def nodes_def)

lemma dlist_next: "dlist h l (xs @ e # ys) \<Longrightarrow> list_next e h = Some (hd (ys @ [tail l]))"
  using dlist_interior [of h l xs e ys] by (simp add: list_next_def)

lemma dlist_not_tail: "dlist h l xs \<Longrightarrow> e \<in> set xs \<Longrightarrow> e \<noteq> tail l"
  by (auto simp: dlist_def nodes_def)

section \<open>Insertion and removal on lists\<close>

lemma list_insert_spec:
  assumes d: "dlist h l (xs @ ys)" and before: "before = hd (ys @ [tail l])"
    and e: "e \<notin> set (nodes l (xs @ ys))" "e \<noteq> NULL"
  shows "\<exists>h'. list_insert before e h = Some h' \<and> dlist h' l (xs @ e # ys) \<and>
              same_outside (set (nodes l (xs @ e # ys))) h h'"
proof -
  obtain as p b bs where n: "head l # xs = as @ [p]" "ys @ [tail l] = b # bs"
    "nodes l (xs @ ys) = as @ p # b # bs" "\<forall>e. nodes l (xs @ e # ys) = as @ p # e # b # bs"
    by (rule nodes_split [of l xs ys]) (rule that)
  let ?h = "set_prev b e (set_next p e (set_next e b (set_prev e p h)))"
  have b: "before = b" using before n(2) by simp
  have ch: "chain h (as @ p # b # bs)" "distinct (as @ p # b # bs)" "NULL \<notin> set (as @ p # b # bs)"
    using d n(3) by (auto simp: dlist_def)
  have pb: "prev_of h b = p" "b \<noteq> e"
    using chain_links [OF ch(1)] e n(3) by auto
  have "is_interior h b \<or> is_tail h b"
    using ch(3) pb by (auto simp: is_interior_def is_tail_def)
  then have ins: "list_insert before e h = Some ?h"
    using pb e by (simp add: list_insert_def b Let_def)
  have "head l \<in> set (as @ [p])" "tail l \<in> set (b # bs)"
    unfolding n(1) [symmetric] n(2) [symmetric] by simp_all
  then have "head l \<noteq> b" "head l \<noteq> e" "tail l \<noteq> p" "tail l \<noteq> e"
    using ch(2) e n(3) by auto
  then have "dlist ?h l (xs @ e # ys)"
    using chain_insert [OF ch(1,2)] ch e d n(3,4) by (auto simp: dlist_def)
  moreover have "same_outside (set (nodes l (xs @ e # ys))) h ?h"
    using n(4) by (auto simp: same_outside_def)
  ultimately show ?thesis using ins by blast
qed

lemma list_remove_spec:
  assumes d: "dlist h l (xs @ e # ys)"
  shows "\<exists>h'. list_remove e h = Some (hd (ys @ [tail l]), h') \<and> dlist h' l (xs @ ys) \<and>
              same_outside (set (nodes l (xs @ ys))) h h'"
proof -
  obtain as p b bs where n: "head l # xs = as @ [p]" "ys @ [tail l] = b # bs"
    "nodes l (xs @ ys) = as @ p # b # bs" "\<forall>e. nodes l (xs @ e # ys) = as @ p # e # b # bs"
    by (rule nodes_split [of l xs ys]) (rule that)
  let ?h = "set_prev b p (set_next p b h)"
  have ch: "chain h (as @ p # e # b # bs)" "distinct (as @ p # e # b # bs)"
    using d n(4) by (auto simp: dlist_def)
  have pe: "prev_of h e = p" "next_of h e = b"
    using ch(1) chain_append [of h as p "e # b # bs"] by auto
  then have rem: "list_remove e h = Some (b, ?h)"
    using dlist_interior(1) [OF d] ch(2) by (auto simp: list_remove_def Let_def)
  have "head l \<in> set (as @ [p])" "tail l \<in> set (b # bs)"
    unfolding n(1) [symmetric] n(2) [symmetric] by simp_all
  then have "head l \<noteq> b" "tail l \<noteq> p"
    using ch(2) by auto
  then have "dlist ?h l (xs @ ys)"
    using chain_delete [OF ch] d n(3,4) by (auto simp: dlist_def)
  moreover have "same_outside (set (nodes l (xs @ ys))) h ?h"
    using n(3) by (auto simp: same_outside_def)
  ultimately show ?thesis using rem n(2) by auto
qed

lemma list_push_front_spec:
  assumes "dlist h l xs" "e \<notin> set (nodes l xs)" "e \<noteq> NULL"
  shows "\<exists>h'. list_push_front l e h = Some h' \<and> dlist h' l (e # xs) \<and>
              same_outside (set (nodes l (e # xs))) h h'"
  using list_insert_spec [of h l "[]" xs "list_begin l h" e] assms dlist_begin [of h l xs]
  by (simp add: list_push_front_def)

lemma list_push_back_spec:
  assumes "dlist h l xs" "e \<notin> set (nodes l xs)" "e \<noteq> NULL"
  shows "\<exists>h'. list_push_back l e h = Some h' \<and> dlist h' l (xs @ [e]) \<and>
              same_outside (set (nodes l (xs @ [e]))) h h'"
  using list_insert_spec [of h l xs "[]" "tail l" e] assms
  by (simp add: list_push_back_def list_end_def)

lemma list_front_spec: "dlist h l xs \<Longrightarrow> list_front l h = (case xs of [] \<Rightarrow> None | x # _ \<Rightarrow> Some x)"
  using dlist_begin [of h l xs] dlist_empty [of h l xs]
  by (cases xs) (auto simp: list_front_def list_begin_def)

lemma list_back_spec: "dlist h l xs \<Longrightarrow> list_back l h = (if xs = [] then None else Some (last xs))"
  using dlist_rbegin [of h l xs] dlist_empty [of h l xs]
  by (auto simp: list_back_def list_rbegin_def)

lemma list_pop_front_spec:
  assumes d: "dlist h l xs"
  shows "case xs of [] \<Rightarrow> list_pop_front l h = None
         | x # ys \<Rightarrow> \<exists>h'. list_pop_front l h = Some (x, h') \<and> dlist h' l ys \<and>
                         same_outside (set (nodes l ys)) h h'"
proof (cases xs)
  case (Cons x ys)
  with d obtain h' where "list_remove x h = Some (hd (ys @ [tail l]), h')" "dlist h' l ys"
    "same_outside (set (nodes l ys)) h h'"
    using list_remove_spec [of h l "[]" x ys] by auto
  with Cons d show ?thesis by (simp add: list_pop_front_def list_front_spec)
qed (use d in \<open>simp add: list_pop_front_def list_front_spec\<close>)

lemma list_pop_back_spec:
  assumes d: "dlist h l (ys @ [x])"
  shows "\<exists>h'. list_pop_back l h = Some (x, h') \<and> dlist h' l ys \<and> same_outside (set (nodes l ys)) h h'"
proof -
  obtain h' where "list_remove x h = Some (tail l, h')" "dlist h' l ys"
    "same_outside (set (nodes l ys)) h h'"
    using list_remove_spec [of h l ys x "[]"] d by auto
  with d show ?thesis by (simp add: list_pop_back_def list_back_spec)
qed

section \<open>Traversal loops\<close>

lemma size_loop_spec:
  "dlist h l (xs @ ys) \<Longrightarrow> size_loop l h (hd (ys @ [tail l])) cnt = Some (cnt + length ys)"
proof (induction ys arbitrary: xs cnt)
  case Nil
  then show ?case by (simp add: size_loop.simps list_end_def)
next
  case (Cons e ys)
  have "e \<noteq> list_end l"
    using dlist_not_tail [OF Cons.prems] by (simp add: list_end_def)
  with Cons.IH [of "xs @ [e]" "cnt + 1"] Cons.prems dlist_next [OF Cons.prems] show ?case
    by (simp add: size_loop.simps [of l h e])
qed

lemma list_size_spec: "dlist h l xs \<Longrightarrow> list_size l h = Some (length xs)"
  using size_loop_spec [of h l "[]" xs 0] dlist_begin [of h l xs] by (simp add: list_size_def)

lemma ordered_pos_spec:
  "dlist h l (xs @ ys) \<Longrightarrow>
   ordered_pos lt l e h (hd (ys @ [tail l])) =
     Some (hd (dropWhile (\<lambda>y. \<not> lt e y) ys @ [tail l]))"
proof (induction ys arbitrary: xs)
  case Nil
  then show ?case by (simp add: ordered_pos.simps list_end_def)
next
  case (Cons y ys)
  have "y \<noteq> list_end l"
    using dlist_not_tail [OF Cons.prems] by (simp add: list_end_def)
  with Cons.IH [of "xs @ [y]"] Cons.prems dlist_next [OF Cons.prems] show ?case
    by (simp add: ordered_pos.simps [of lt l e h y])
qed

text \<open>The HOL function that \<open>list_insert_ordered\<close> implements.\<close>

definition insert_ordered :: "('a \<Rightarrow> 'a \<Rightarrow> bool) \<Rightarrow> 'a \<Rightarrow> 'a list \<Rightarrow> 'a list" where
  "insert_ordered lt e xs =
     takeWhile (\<lambda>y. \<not> lt e y) xs @ e # dropWhile (\<lambda>y. \<not> lt e y) xs"

lemma list_insert_ordered_spec:
  assumes d: "dlist h l xs" and e: "e \<notin> set (nodes l xs)" "e \<noteq> NULL"
  shows "\<exists>h'. list_insert_ordered lt l e h = Some h' \<and> dlist h' l (insert_ordered lt e xs) \<and>
              same_outside (set (nodes l (e # xs))) h h'"
proof -
  let ?as = "takeWhile (\<lambda>y. \<not> lt e y) xs" and ?bs = "dropWhile (\<lambda>y. \<not> lt e y) xs"
  have "ordered_pos lt l e h (list_begin l h) = Some (hd (?bs @ [tail l]))"
    using ordered_pos_spec [of h l "[]" xs lt e] d dlist_begin [OF d] by simp
  moreover have n: "set (nodes l (?as @ e # ?bs)) = set (nodes l (e # xs))"
    using set_append [of ?as ?bs] unfolding takeWhile_dropWhile_id by (auto simp: nodes_def)
  moreover obtain h' where "list_insert (hd (?bs @ [tail l])) e h = Some h'"
    "dlist h' l (?as @ e # ?bs)" "same_outside (set (nodes l (?as @ e # ?bs))) h h'"
    using list_insert_spec [of h l ?as ?bs _ e] d e by auto
  ultimately show ?thesis
    using e by (simp add: list_insert_ordered_def insert_ordered_def)
qed

lemma mset_insert_ordered [simp]: "mset (insert_ordered lt e xs) = add_mset e (mset xs)"
proof -
  have "mset (takeWhile (\<lambda>y. \<not> lt e y) xs) + mset (dropWhile (\<lambda>y. \<not> lt e y) xs) = mset xs"
    by (metis mset_append takeWhile_dropWhile_id)
  then show ?thesis by (simp add: insert_ordered_def)
qed

lemma max_loop_spec:
  "dlist h l (xs @ ys) \<Longrightarrow>
   max_loop lt l h mx (hd (ys @ [tail l])) = Some (fold (\<lambda>e m. if lt m e then e else m) ys mx)"
proof (induction ys arbitrary: xs mx)
  case Nil
  then show ?case by (simp add: max_loop.simps list_end_def)
next
  case (Cons y ys)
  have "y \<noteq> list_end l"
    using dlist_not_tail [OF Cons.prems] by (simp add: list_end_def)
  with Cons.IH [of "xs @ [y]"] Cons.prems dlist_next [OF Cons.prems] show ?case
    by (simp add: max_loop.simps [of lt l h mx y])
qed

lemma min_loop_spec:
  "dlist h l (xs @ ys) \<Longrightarrow>
   min_loop lt l h mn (hd (ys @ [tail l])) = Some (fold (\<lambda>e m. if lt e m then e else m) ys mn)"
proof (induction ys arbitrary: xs mn)
  case Nil
  then show ?case by (simp add: min_loop.simps list_end_def)
next
  case (Cons y ys)
  have "y \<noteq> list_end l"
    using dlist_not_tail [OF Cons.prems] by (simp add: list_end_def)
  with Cons.IH [of "xs @ [y]"] Cons.prems dlist_next [OF Cons.prems] show ?case
    by (simp add: min_loop.simps [of lt l h mn y])
qed

lemma list_max_spec:
  assumes "dlist h l (x # xs)"
  shows "list_max lt l h = Some (fold (\<lambda>e m. if lt m e then e else m) xs x)"
  using assms dlist_begin [OF assms] dlist_next [of h l "[]" x xs] dlist_not_tail [OF assms, of x]
    max_loop_spec [of h l "[x]" xs lt x]
  by (simp add: list_max_def list_end_def)

lemma list_min_spec:
  assumes "dlist h l (x # xs)"
  shows "list_min lt l h = Some (fold (\<lambda>e m. if lt e m then e else m) xs x)"
  using assms dlist_begin [OF assms] dlist_next [of h l "[]" x xs] dlist_not_tail [OF assms, of x]
    min_loop_spec [of h l "[x]" xs lt x]
  by (simp add: list_min_def list_end_def)

section \<open>Joining chains, reversal and splicing\<close>

lemma chain_join:
  assumes "xs \<noteq> []" "ys \<noteq> []"
  shows "chain h (xs @ ys) \<longleftrightarrow>
    chain h xs \<and> chain h ys \<and> next_of h (last xs) = hd ys \<and> prev_of h (hd ys) = last xs"
proof -
  obtain as p where x: "xs = as @ [p]" using assms(1) rev_exhaust by blast
  obtain b bs where y: "ys = b # bs" using assms(2) by (cases ys) auto
  show ?thesis
    using chain_append [of h as p "b # bs"] by (auto simp: x y)
qed

definition swapped :: "lheap \<Rightarrow> lheap" where
  "swapped h = \<lparr>prev_of = next_of h, next_of = prev_of h\<rparr>"

lemma chain_rev: "chain (swapped h) (rev xs) = chain h xs"
proof (induction xs rule: induct_list012)
  case (3 x y zs)
  then show ?case
    using chain_append [of "swapped h" "rev zs" y "[x]"] by (auto simp: swapped_def)
qed simp_all

lemma fold_swap_links:
  "distinct ys \<Longrightarrow>
   prev_of (fold swap_links ys h) = (\<lambda>a. if a \<in> set ys then next_of h a else prev_of h a) \<and>
   next_of (fold swap_links ys h) = (\<lambda>a. if a \<in> set ys then prev_of h a else next_of h a)"
  by (induction ys arbitrary: h) (auto simp: swap_links_def fun_eq_iff)

lemma reverse_loop_spec:
  "chain h (ys @ [tail l]) \<Longrightarrow> distinct (ys @ [tail l]) \<Longrightarrow> NULL \<notin> set ys \<Longrightarrow>
   reverse_loop l (hd (ys @ [tail l])) h = Some (fold swap_links ys h)"
proof (induction ys arbitrary: h)
  case Nil
  then show ?case by (simp add: reverse_loop.simps list_end_def)
next
  case (Cons y ys)
  let ?h = "swap_links y h"
  have c: "chain h (ys @ [tail l])" "next_of h y = hd (ys @ [tail l])"
    using Cons.prems(1) by (cases ys; simp)+
  have "chain ?h (ys @ [tail l]) = chain h (ys @ [tail l])"
    by (rule chain_cong) (use Cons.prems(2) in \<open>auto simp: swap_links_def dest: in_set_tl\<close>)
  with c Cons.prems Cons.IH [of ?h] show ?case
    by (simp add: reverse_loop.simps [of l y] list_end_def deref_def swap_links_def Let_def)
qed

lemma list_reverse_spec:
  assumes d: "dlist h l xs"
  shows "\<exists>h'. list_reverse l h = Some h' \<and> dlist h' l (rev xs) \<and>
              same_outside (set (nodes l xs)) h h'"
proof (cases "xs = []")
  case True
  with d show ?thesis by (auto simp: list_reverse_def dlist_empty same_outside_def)
next
  case False
  let ?b = "hd xs" and ?f = "last xs" and ?h1 = "fold swap_links xs h"
  let ?h2 = "set_prev (tail l) ?b (set_next (head l) ?f ?h1)"
  let ?h3 = "set_next ?b (tail l) (set_prev ?f (head l) ?h2)"
  have D: "distinct xs" "head l \<notin> set xs" "tail l \<notin> set xs" "head l \<noteq> tail l" "NULL \<notin> set xs"
    "prev_of h (head l) = NULL" "next_of h (tail l) = NULL" "chain h (head l # xs @ [tail l])"
    "head l \<noteq> NULL" "tail l \<noteq> NULL"
    using d by (auto simp: dlist_def nodes_def)
  have ends: "chain h' (head l # zs @ [tail l]) \<longleftrightarrow> chain h' zs \<and> next_of h' (head l) = hd zs \<and>
      prev_of h' (hd zs) = head l \<and> next_of h' (last zs) = tail l \<and> prev_of h' (tail l) = last zs"
    if "zs \<noteq> []" for h' zs
    using chain_join [of "[head l]" "zs @ [tail l]" h'] chain_join [of zs "[tail l]" h'] that by auto
  have C: "chain h xs" "next_of h (head l) = ?b" "prev_of h ?b = head l" "next_of h ?f = tail l"
    "prev_of h (tail l) = ?f"
    using ends [OF False, of h] D(8) by auto
  have M: "?b \<in> set xs" "?f \<in> set xs" using False by auto
  have N: "?b \<noteq> head l" "?b \<noteq> tail l" "?f \<noteq> head l" "?f \<noteq> tail l"
    using M D(2,3) by metis+
  note S = fold_swap_links [OF D(1), of h]
  have "reverse_loop l ?b h = Some ?h1"
    using reverse_loop_spec [of h xs l] D(1,3,5,8) False C chain_join [of xs "[tail l]" h] by auto
  then have R: "list_reverse l h = Some ?h3"
    using d False dlist_begin [OF d] S M N D(2-4) C
    by (auto simp: list_reverse_def dlist_empty Let_def)
  have "chain ?h3 (rev xs) = chain (swapped h) (rev xs)"
  proof (rule chain_cong)
    fix a
    assume "a \<in> set (butlast (rev xs))"
    then have "a \<in> set (tl xs)" by (simp add: butlast_rev)
    then have "a \<in> set xs" "a \<noteq> ?b" using False D(1) by (cases xs; auto)+
    then show "next_of ?h3 a = next_of (swapped h) a"
      using S D(2,3) by (auto simp: swapped_def)
  next
    fix a
    assume "a \<in> set (tl (rev xs))"
    then have "a \<in> set (butlast xs)" by (metis butlast_rev rev_rev_ident set_rev)
    then have "a \<in> set xs" "a \<noteq> ?f"
      using D(1) False by (auto dest: in_set_butlastD) (metis append_butlast_last_id distinct_append
        disjoint_insert(1) list.simps(15) disjoint_iff)
    then show "prev_of ?h3 a = prev_of (swapped h) a"
      using S D(2,3) by (auto simp: swapped_def)
  qed
  then have "dlist ?h3 l (rev xs)"
    using ends [of "rev xs" ?h3] chain_rev [of h xs] C S D M N False
    by (auto simp: dlist_def nodes_def hd_rev last_rev)
  moreover have "same_outside (set (nodes l xs)) h ?h3"
    using S M by (auto simp: same_outside_def nodes_def)
  ultimately show ?thesis using R by blast
qed

lemma chain_upd_ends [simp]:
  "distinct xs \<Longrightarrow> chain (set_next (last xs) v h) xs = chain h xs"
  "distinct xs \<Longrightarrow> chain (set_prev (hd xs) v h) xs = chain h xs"
proof -
  assume d: "distinct xs"
  have "last xs \<notin> set (butlast xs)"
    by (cases xs rule: rev_cases) (use d in auto)
  then show "chain (set_next (last xs) v h) xs = chain h xs"
    by (auto intro!: chain_cong)
  have "hd xs \<notin> set (tl xs)"
    by (cases xs) (use d in auto)
  then show "chain (set_prev (hd xs) v h) xs = chain h xs"
    by (auto intro!: chain_cong)
qed

definition spliced :: "addr \<Rightarrow> addr \<Rightarrow> addr \<Rightarrow> addr \<Rightarrow> addr \<Rightarrow> addr \<Rightarrow> lheap \<Rightarrow> lheap" where
  "spliced p b f l q n h =
     set_prev b l (set_next p f (set_next l b (set_prev f p (set_prev n q (set_next q n h)))))"

lemma chain_splice:
  assumes ne: "bs \<noteq> []" and dis: "distinct ((xs @ [p]) @ (b # ys) @ (as @ [q]) @ bs @ (n # cs))"
    and ch: "chain h ((xs @ [p]) @ (b # ys))" "chain h ((as @ [q]) @ bs @ (n # cs))"
  shows "chain (spliced p b (hd bs) (last bs) q n h) ((xs @ [p]) @ bs @ (b # ys)) \<and>
         chain (spliced p b (hd bs) (last bs) q n h) ((as @ [q]) @ (n # cs))"
proof -
  define f l where "f = hd bs" and "l = last bs"
  have fl: "f \<in> set bs" "l \<in> set bs" using ne by (simp_all add: f_def l_def)
  then have out: "f \<notin> set (xs @ p # b # ys @ as @ q # n # cs)" "l \<notin> set (xs @ p # b # ys @ as @ q # n # cs)"
    using dis by auto
  have N: "chain h (xs @ [p])" "chain h (b # ys)" "chain h (as @ [q])" "chain h bs" "chain h (n # cs)"
    using ch ne by (simp_all only: chain_join append_is_Nil_conv list.distinct simp_thms)
  have bs: "chain (set_next l v k) bs = chain k bs" "chain (set_prev f v k) bs = chain k bs" for v k
    using dis by (auto simp: f_def l_def)
  have last: "chain (set_next z v k) (zs @ [z]) = chain k (zs @ [z])" if "distinct (zs @ [z])" for z zs v k
    using chain_upd_ends(1) [OF that] by simp
  have first: "chain (set_prev z v k) (z # zs) = chain k (z # zs)" if "distinct (z # zs)" for z zs v k
    using chain_upd_ends(2) [OF that] by simp
  have sym: "b \<noteq> p" "q \<noteq> p" "n \<noteq> p" "q \<noteq> b" "n \<noteq> b" "n \<noteq> q" "p \<noteq> f" "b \<noteq> f" "q \<noteq> f" "n \<noteq> f"
      "p \<noteq> l" "b \<noteq> l" "q \<noteq> l" "n \<noteq> l"
    using dis out by simp_all metis+
  let ?h = "spliced p b f l q n h"
  have "chain ?h (xs @ [p])" "chain ?h (b # ys)" "chain ?h (as @ [q])" "chain ?h bs" "chain ?h (n # cs)"
    using N dis out sym unfolding spliced_def by (simp_all add: bs last first)
  moreover have "next_of ?h p = f" "prev_of ?h f = p" "next_of ?h l = b" "prev_of ?h b = l"
      "next_of ?h q = n" "prev_of ?h n = q"
    using dis out sym by (simp_all add: spliced_def)
  ultimately show ?thesis
    using ne by (simp only: chain_join append_is_Nil_conv list.distinct simp_thms) (simp add: f_def l_def)
qed

lemma list_splice_eq:
  assumes "is_interior h before \<or> is_tail h before" "f \<noteq> n" "prev_of h n = l" "is_interior h n \<or> is_tail h n"
    "is_interior h f" "is_interior h l" "next_of h l = n" "prev_of h f = q" "prev_of h before = p"
    "l \<noteq> q" "f \<noteq> n" "before \<noteq> n" "before \<noteq> f"
  shows "list_splice before f n h = Some (spliced p before f l q n h)"
  using assms by (auto simp: list_splice_def list_prev_def spliced_def Let_def)

lemma distinct_parts:
  "distinct (as @ bs @ cs @ ds @ es) \<Longrightarrow>
   set as \<inter> set bs = {} \<and> set as \<inter> set cs = {} \<and> set as \<inter> set ds = {} \<and> set as \<inter> set es = {} \<and>
   set bs \<inter> set cs = {} \<and> set bs \<inter> set ds = {} \<and> set bs \<inter> set es = {} \<and>
   set cs \<inter> set ds = {} \<and> set cs \<inter> set es = {} \<and> set ds \<inter> set es = {}"
  by auto

lemma list_splice_spec:
  assumes d: "dlist h l (xs @ ys)" and d': "dlist h l' (as @ bs @ cs)"
    and disj: "set (nodes l (xs @ ys)) \<inter> set (nodes l' (as @ bs @ cs)) = {}" and ne: "bs \<noteq> []"
  shows "\<exists>h'. list_splice (hd (ys @ [tail l])) (hd bs) (hd (cs @ [tail l'])) h = Some h' \<and>
              dlist h' l (xs @ bs @ ys) \<and> dlist h' l' (as @ cs)"
proof -
  obtain xs' p where x: "head l # xs = xs' @ [p]" by (metis list.distinct(1) rev_exhaust)
  obtain as' q where a: "head l' # as = as' @ [q]" by (metis list.distinct(1) rev_exhaust)
  obtain b ys' where y: "ys @ [tail l] = b # ys'" by (cases "ys @ [tail l]") auto
  obtain n cs' where c: "cs @ [tail l'] = n # cs'" by (cases "cs @ [tail l']") auto
  let ?h = "spliced p b (hd bs) (last bs) q n h"
  have nx: "nodes l (xs @ zs @ ys) = (xs' @ [p]) @ zs @ b # ys'" for zs
    unfolding x [symmetric] y [symmetric] by (simp add: nodes_def)
  have na: "nodes l' (as @ zs @ cs) = (as' @ [q]) @ zs @ n # cs'" for zs
    unfolding a [symmetric] c [symmetric] by (simp add: nodes_def)
  have ch: "chain h ((xs' @ [p]) @ b # ys')" "chain h ((as' @ [q]) @ bs @ n # cs')"
    using d d' unfolding dlist_def na [symmetric] using nx [of "[]"] by simp_all
  have dis: "distinct ((xs' @ [p]) @ (b # ys') @ (as' @ [q]) @ bs @ n # cs')"
    "NULL \<notin> set ((xs' @ [p]) @ (b # ys') @ (as' @ [q]) @ bs @ n # cs')"
  proof -
    have "distinct (nodes l (xs @ [] @ ys) @ nodes l' (as @ bs @ cs))"
      "NULL \<notin> set (nodes l (xs @ [] @ ys) @ nodes l' (as @ bs @ cs))"
      using d d' disj by (simp_all add: dlist_def)
    then show "distinct ((xs' @ [p]) @ (b # ys') @ (as' @ [q]) @ bs @ n # cs')"
      "NULL \<notin> set ((xs' @ [p]) @ (b # ys') @ (as' @ [q]) @ bs @ n # cs')"
      unfolding nx na by simp_all
  qed
  note new = chain_splice [OF ne dis(1) ch]
  have links: "prev_of h b = p" "next_of h q = hd bs" "prev_of h (hd bs) = q" "next_of h (last bs) = n"
      "prev_of h n = last bs" "chain h bs"
    using ch ne by (simp_all only: chain_join append_is_Nil_conv list.distinct simp_thms) simp_all
  have mem: "hd bs \<in> set bs" "last bs \<in> set bs" using ne by simp_all
  have "is_interior h (hd bs)"
    using dlist_interior(1) [of h l' as "hd bs" "tl bs @ cs"] d' ne by (cases bs) simp_all
  moreover have "as @ bs @ cs = (as @ butlast bs) @ last bs # cs"
    using ne by simp
  then have "is_interior h (last bs)"
    using dlist_interior(1) [of h l' "as @ butlast bs" "last bs" cs] d' by metis
  moreover have nz: "b \<noteq> NULL" "n \<noteq> NULL" "p \<noteq> NULL" "last bs \<noteq> NULL"
    using dis(2) \<open>is_interior h (last bs)\<close> by (simp_all add: is_interior_def)
  then have "is_interior h b \<or> is_tail h b" "is_interior h n \<or> is_tail h n"
    using links by (auto simp: is_interior_def is_tail_def)
  moreover have neq: "hd bs \<noteq> n" "last bs \<noteq> q" "b \<noteq> n" "b \<noteq> hd bs"
    using dis(1) mem by auto
  ultimately have S: "list_splice b (hd bs) n h = Some ?h"
    using links by (intro list_splice_eq) auto
  have ends: "head l \<in> set (xs' @ [p])" "tail l \<in> set (b # ys')" "head l' \<in> set (as' @ [q])"
      "tail l' \<in> set (n # cs')"
    unfolding x [symmetric] y [symmetric] a [symmetric] c [symmetric] by simp_all
  have apart: "u \<noteq> v" if "u \<in> set us" "v \<in> set vs" "set us \<inter> set vs = {}" for u v and us vs :: "addr list"
    using that by blast
  have mem': "p \<in> set (xs' @ [p])" "b \<in> set (b # ys')" "q \<in> set (as' @ [q])" "n \<in> set (n # cs')"
    by simp_all
  have sep: "set (xs' @ [p]) \<inter> set (b # ys') = {}" "set (xs' @ [p]) \<inter> set bs = {}"
      "set (xs' @ [p]) \<inter> set (n # cs') = {}" "set (as' @ [q]) \<inter> set (b # ys') = {}"
      "set (as' @ [q]) \<inter> set bs = {}" "set (as' @ [q]) \<inter> set (n # cs') = {}"
      "set (b # ys') \<inter> set (xs' @ [p]) = {}" "set (b # ys') \<inter> set bs = {}"
      "set (b # ys') \<inter> set (as' @ [q]) = {}" "set (n # cs') \<inter> set (xs' @ [p]) = {}"
      "set (n # cs') \<inter> set bs = {}" "set (n # cs') \<inter> set (as' @ [q]) = {}"
    using distinct_parts [OF dis(1)] by (simp_all only: Int_commute)
  have "head l \<notin> {b, hd bs, n}" "head l' \<notin> {b, hd bs, n}" "tail l \<notin> {p, last bs, q}"
      "tail l' \<notin> {p, last bs, q}"
    using apart [OF ends(1) _ sep(1)] apart [OF ends(1) _ sep(2)] apart [OF ends(1) _ sep(3)]
      apart [OF ends(3) _ sep(4)] apart [OF ends(3) _ sep(5)] apart [OF ends(3) _ sep(6)]
      apart [OF ends(2) _ sep(7)] apart [OF ends(2) _ sep(8)] apart [OF ends(2) _ sep(9)]
      apart [OF ends(4) _ sep(10)] apart [OF ends(4) _ sep(11)] apart [OF ends(4) _ sep(12)] mem mem'
    by blast+
  then have "prev_of ?h (head l) = NULL" "next_of ?h (tail l) = NULL" "prev_of ?h (head l') = NULL"
      "next_of ?h (tail l') = NULL"
    using d d' by (simp_all add: spliced_def dlist_def)
  moreover have "distinct (nodes l (xs @ bs @ ys))" "distinct (nodes l' (as @ cs))"
      "NULL \<notin> set (nodes l (xs @ bs @ ys))" "NULL \<notin> set (nodes l' (as @ cs))"
    using dis na [of "[]"] by (simp_all add: nx) blast+
  ultimately have "dlist ?h l (xs @ bs @ ys)" "dlist ?h l' (as @ cs)"
    using new nx [of bs] na [of "[]"] by (simp_all add: dlist_def)
  with S y c show ?thesis by simp
qed

section \<open>Removing adjacent duplicates\<close>

text \<open>\<open>uniq\<close> keeps the first element of every group of adjacent equivalent elements, \<open>uniq_dups\<close>
  lists the others.\<close>

fun uniq :: "('a \<Rightarrow> 'a \<Rightarrow> bool) \<Rightarrow> 'a list \<Rightarrow> 'a list" where
  "uniq lt (x # y # ys) =
     (if \<not> lt x y \<and> \<not> lt y x then uniq lt (x # ys) else x # uniq lt (y # ys))"
| "uniq lt xs = xs"

fun uniq_dups :: "('a \<Rightarrow> 'a \<Rightarrow> bool) \<Rightarrow> 'a list \<Rightarrow> 'a list" where
  "uniq_dups lt (x # y # ys) =
     (if \<not> lt x y \<and> \<not> lt y x then y # uniq_dups lt (x # ys) else uniq_dups lt (y # ys))"
| "uniq_dups lt xs = []"

lemma mset_uniq: "mset (uniq lt xs) + mset (uniq_dups lt xs) = mset xs"
  by (induction lt xs rule: uniq.induct) auto

lemma unique_loop_spec:
  assumes "dlist h l (xs @ x # ys)" "dlist h d ds"
    "set (nodes l (xs @ x # ys)) \<inter> set (nodes d ds) = {}"
  shows "\<exists>h'. unique_loop lt l (Some d) x h = Some h' \<and> dlist h' l (xs @ uniq lt (x # ys)) \<and>
              dlist h' d (ds @ uniq_dups lt (x # ys))"
  using assms
proof (induction ys arbitrary: xs x ds h)
  case Nil
  then show ?case
    using dlist_next [OF Nil.prems(1)] by (simp add: unique_loop.simps list_end_def)
next
  case (Cons y ys)
  have y: "list_next x h = Some y" "y \<noteq> list_end l"
    using dlist_next [OF Cons.prems(1)] dlist_not_tail [OF Cons.prems(1), of y] by (auto simp: list_end_def)
  show ?case
  proof (cases "\<not> lt x y \<and> \<not> lt y x")
    case True
    obtain h1 where h1: "list_remove y h = Some (hd (ys @ [tail l]), h1)" "dlist h1 l (xs @ x # ys)"
      "same_outside (set (nodes l (xs @ x # ys))) h h1"
      using list_remove_spec [of h l "xs @ [x]" y ys] Cons.prems(1) by auto
    have "set (nodes d ds) \<inter> set (nodes l (xs @ x # ys)) = {}" "y \<notin> set (nodes d ds)" "y \<noteq> NULL"
      using Cons.prems by (auto simp: nodes_def dlist_def)
    then obtain h2 where h2: "list_push_back d y h1 = Some h2" "dlist h2 d (ds @ [y])"
      "same_outside (set (nodes d (ds @ [y]))) h1 h2"
      using list_push_back_spec [of h1 d ds y] dlist_frame [OF h1(3)] Cons.prems(2) by auto
    have disj: "set (nodes l (xs @ x # ys)) \<inter> set (nodes d (ds @ [y])) = {}"
      using Cons.prems(1,3) by (auto simp: nodes_def dlist_def)
    then have "dlist h2 l (xs @ x # ys)"
      using dlist_frame [OF h2(3)] h1(2) by blast
    then show ?thesis
      using Cons.IH [OF _ h2(2) disj] True y h1(1) h2(1)
      by (simp add: unique_loop.simps [of lt l "Some d" x h])
  next
    case False
    then have "unique_loop lt l (Some d) x h = unique_loop lt l (Some d) y h"
      "uniq lt (x # y # ys) = x # uniq lt (y # ys)" "uniq_dups lt (x # y # ys) = uniq_dups lt (y # ys)"
      using y by (auto simp: unique_loop.simps [of lt l "Some d" x h])
    then show ?thesis
      using Cons.IH [of h "xs @ [x]" y ds] Cons.prems by simp
  qed
qed

lemma list_unique_spec:
  assumes "dlist h l xs" "dlist h d ds" "set (nodes l xs) \<inter> set (nodes d ds) = {}"
  shows "\<exists>h'. list_unique lt l (Some d) h = Some h' \<and> dlist h' l (uniq lt xs) \<and>
              dlist h' d (ds @ uniq_dups lt xs)"
proof (cases xs)
  case Nil
  then show ?thesis using assms by (simp add: list_unique_def dlist_empty)
next
  case (Cons x ys)
  then show ?thesis
    using unique_loop_spec [of h l "[]" x ys d ds lt] assms dlist_begin [OF assms(1)] dlist_empty [OF assms(1)]
    by (simp add: list_unique_def)
qed

end
