(* ===== verification/List_Sort.thy ===== *)
theory List_Sort
  imports Kernel_List
begin

text \<open>
  The natural iterative merge sort of \<^verbatim>\<open>lib/kernel/list.c\<close> (\<^verbatim>\<open>is_sorted\<close>, \<^verbatim>\<open>find_end_of_run\<close>,
  \<^verbatim>\<open>inplace_merge\<close>, \<^verbatim>\<open>list_sort\<close>) on the pointer heap of \<open>Kernel_List\<close>. Each routine is shown to
  implement a function on HOL lists; under a strict weak order the sort terminates, its assertions
  hold, and its result is the stable sorted permutation of the list.
\<close>

section \<open>The code\<close>

partial_function (option) is_sorted_loop ::
    "(addr \<Rightarrow> addr \<Rightarrow> bool) \<Rightarrow> lheap \<Rightarrow> addr \<Rightarrow> addr \<Rightarrow> bool option" where
  "is_sorted_loop lt h b a = do {
     a \<leftarrow> list_next a h;
     (if a \<noteq> b then do {
        p \<leftarrow> list_prev a h;
        (if lt a p then Some False else is_sorted_loop lt h b a) }
      else Some True) }"

definition is_sorted :: "(addr \<Rightarrow> addr \<Rightarrow> bool) \<Rightarrow> lheap \<Rightarrow> addr \<Rightarrow> addr \<Rightarrow> bool option" where
  "is_sorted lt h a b = (if a \<noteq> b then is_sorted_loop lt h b a else Some True)"

partial_function (option) find_end_loop ::
    "(addr \<Rightarrow> addr \<Rightarrow> bool) \<Rightarrow> lheap \<Rightarrow> addr \<Rightarrow> addr \<Rightarrow> addr option" where
  "find_end_loop lt h b a = do {
     a \<leftarrow> list_next a h;
     (if a \<noteq> b then do {
        p \<leftarrow> list_prev a h;
        (if \<not> lt a p then find_end_loop lt h b a else Some a) }
      else Some a) }"

definition find_end_of_run :: "(addr \<Rightarrow> addr \<Rightarrow> bool) \<Rightarrow> lheap \<Rightarrow> addr \<Rightarrow> addr \<Rightarrow> addr option" where
  "find_end_of_run lt h a b = do {
     ASSERT (a \<noteq> NULL);
     ASSERT (b \<noteq> NULL);
     ASSERT (a \<noteq> b);
     find_end_loop lt h b a }"

partial_function (option) merge_loop ::
    "(addr \<Rightarrow> addr \<Rightarrow> bool) \<Rightarrow> addr \<Rightarrow> addr \<Rightarrow> addr \<Rightarrow> lheap \<Rightarrow> lheap option" where
  "merge_loop lt b1 a0 a1b0 h =
     (if a0 \<noteq> a1b0 \<and> a1b0 \<noteq> b1 then
        (if \<not> lt a1b0 a0 then do { a0 \<leftarrow> list_next a0 h; merge_loop lt b1 a0 a1b0 h }
         else do {
           a1b0 \<leftarrow> list_next a1b0 h;
           e \<leftarrow> list_prev a1b0 h;
           h \<leftarrow> list_splice a0 e a1b0 h;
           merge_loop lt b1 a0 a1b0 h })
      else Some h)"

definition inplace_merge ::
    "(addr \<Rightarrow> addr \<Rightarrow> bool) \<Rightarrow> addr \<Rightarrow> addr \<Rightarrow> addr \<Rightarrow> lheap \<Rightarrow> lheap option" where
  "inplace_merge lt a0 a1b0 b1 h = do {
     ASSERT (a0 \<noteq> NULL);
     ASSERT (a1b0 \<noteq> NULL);
     ASSERT (b1 \<noteq> NULL);
     s1 \<leftarrow> is_sorted lt h a0 a1b0;
     ASSERT s1;
     s2 \<leftarrow> is_sorted lt h a1b0 b1;
     ASSERT s2;
     merge_loop lt b1 a0 a1b0 h }"

text \<open>One pass over the list: the body of the \<^verbatim>\<open>do\<close> loop of \<^verbatim>\<open>list_sort\<close>. It returns the number of
  runs that the pass has output.\<close>

partial_function (option) sort_pass ::
    "(addr \<Rightarrow> addr \<Rightarrow> bool) \<Rightarrow> klist \<Rightarrow> addr \<Rightarrow> nat \<Rightarrow> lheap \<Rightarrow> (nat \<times> lheap) option" where
  "sort_pass lt l a0 cnt h =
     (if a0 \<noteq> list_end l then do {
        a1b0 \<leftarrow> find_end_of_run lt h a0 (list_end l);
        (if a1b0 = list_end l then Some (cnt + 1, h)
         else do {
           b1 \<leftarrow> find_end_of_run lt h a1b0 (list_end l);
           h \<leftarrow> inplace_merge lt a0 a1b0 b1 h;
           sort_pass lt l b1 (cnt + 1) h }) }
      else Some (cnt, h))"

partial_function (option) sort_loop ::
    "(addr \<Rightarrow> addr \<Rightarrow> bool) \<Rightarrow> klist \<Rightarrow> lheap \<Rightarrow> lheap option" where
  "sort_loop lt l h = do {
     (output_run_cnt, h) \<leftarrow> sort_pass lt l (list_begin l h) 0 h;
     (if output_run_cnt > 1 then sort_loop lt l h else Some h) }"

definition list_sort :: "(addr \<Rightarrow> addr \<Rightarrow> bool) \<Rightarrow> klist \<Rightarrow> lheap \<Rightarrow> lheap option" where
  "list_sort lt l h = do {
     h \<leftarrow> sort_loop lt l h;
     s \<leftarrow> is_sorted lt h (list_begin l h) (list_end l);
     ASSERT s;
     Some h }"

text \<open>The comparison function of \<^verbatim>\<open>tests/internal/list.c\<close>: \<open>values\<close> gives the \<^verbatim>\<open>value\<close> member of the
  structure an element is embedded in.\<close>

definition value_less :: "(addr \<Rightarrow> int) \<Rightarrow> addr \<Rightarrow> addr \<Rightarrow> bool" where
  "value_less values a b \<longleftrightarrow> values a < values b"

section \<open>Merge sort on HOL lists\<close>

fun asc :: "('a \<Rightarrow> 'a \<Rightarrow> bool) \<Rightarrow> 'a list \<Rightarrow> bool" where
  "asc lt (x # y # zs) \<longleftrightarrow> \<not> lt y x \<and> asc lt (y # zs)"
| "asc lt _ \<longleftrightarrow> True"

fun run_of :: "('a \<Rightarrow> 'a \<Rightarrow> bool) \<Rightarrow> 'a list \<Rightarrow> 'a list" where
  "run_of lt (x # y # zs) = (if lt y x then [x] else x # run_of lt (y # zs))"
| "run_of lt xs = xs"

fun after_run :: "('a \<Rightarrow> 'a \<Rightarrow> bool) \<Rightarrow> 'a list \<Rightarrow> 'a list" where
  "after_run lt (x # y # zs) = (if lt y x then y # zs else after_run lt (y # zs))"
| "after_run lt xs = []"

fun merge :: "('a \<Rightarrow> 'a \<Rightarrow> bool) \<Rightarrow> 'a list \<Rightarrow> 'a list \<Rightarrow> 'a list" where
  "merge lt (a # as) (b # bs) =
     (if \<not> lt b a then a # merge lt as (b # bs) else b # merge lt (a # as) bs)"
| "merge lt [] bs = bs"
| "merge lt as [] = as"

lemma run_of_after_run: "run_of lt xs @ after_run lt xs = xs"
  by (induction lt xs rule: run_of.induct) auto

lemma length_after_run: "xs \<noteq> [] \<Longrightarrow> length (after_run lt xs) < length xs"
  by (induction lt xs rule: after_run.induct) auto

lemma run_of_Nil [simp]: "run_of lt xs = [] \<longleftrightarrow> xs = []"
  by (cases "(lt, xs)" rule: run_of.cases) auto

lemma asc_run_of: "asc lt (run_of lt xs)"
proof (induction lt xs rule: run_of.induct)
  case (1 lt x y zs)
  then show ?case by (cases zs) auto
qed auto

lemma mset_merge [simp]: "mset (merge lt as bs) = mset as + mset bs"
  by (induction lt as bs rule: merge.induct) auto

lemma set_merge [simp]: "set (merge lt as bs) = set as \<union> set bs"
  by (induction lt as bs rule: merge.induct) auto

lemma merge_induct [case_names Both Left Right]:
  fixes lt :: "'a \<Rightarrow> 'a \<Rightarrow> bool"
  assumes "\<And>a as b bs. (\<not> lt b a \<Longrightarrow> P as (b # bs)) \<Longrightarrow> (lt b a \<Longrightarrow> P (a # as) bs) \<Longrightarrow> P (a # as) (b # bs)"
    "\<And>bs. P [] bs" "\<And>a as. P (a # as) []"
  shows "P as bs"
proof -
  have "l = lt \<longrightarrow> P as bs" for l
    by (induction l as bs rule: merge.induct) (auto intro: assms)
  then show ?thesis by simp
qed

text \<open>One pass: the output list and the number of output runs.\<close>

function pass :: "('a \<Rightarrow> 'a \<Rightarrow> bool) \<Rightarrow> 'a list \<Rightarrow> 'a list \<times> nat" where
  "pass lt [] = ([], 0)"
| "pass lt (x # xs) =
     (let as = run_of lt (x # xs); r = after_run lt (x # xs) in
      if r = [] then (as, 1)
      else (let (out, n) = pass lt (after_run lt r) in (merge lt as (run_of lt r) @ out, Suc n)))"
  by pat_completeness auto
termination
proof (relation "measure (length \<circ> snd)")
  fix lt :: "'a \<Rightarrow> 'a \<Rightarrow> bool" and x xs as r
  assume "r = after_run lt (x # xs)" "r \<noteq> []"
  then show "((lt, after_run lt r), lt, x # xs) \<in> measure (length \<circ> snd)"
    using length_after_run [of r lt] length_after_run [of "x # xs" lt] by simp
qed simp

lemma pass_induct [case_names Nil Last Pair]:
  fixes lt :: "'a \<Rightarrow> 'a \<Rightarrow> bool"
  assumes "P []" "\<And>xs. xs \<noteq> [] \<Longrightarrow> after_run lt xs = [] \<Longrightarrow> P xs"
    "\<And>xs. xs \<noteq> [] \<Longrightarrow> after_run lt xs \<noteq> [] \<Longrightarrow> P (after_run lt (after_run lt xs)) \<Longrightarrow> P xs"
  shows "P xs"
proof -
  have "l = lt \<longrightarrow> P xs" for l
    by (induction l xs rule: pass.induct) (use assms in blast)+
  then show ?thesis by simp
qed

lemma pass_simps:
  "xs \<noteq> [] \<Longrightarrow> after_run lt xs = [] \<Longrightarrow> pass lt xs = (xs, 1)"
  "xs \<noteq> [] \<Longrightarrow> after_run lt xs \<noteq> [] \<Longrightarrow>
     pass lt xs = (merge lt (run_of lt xs) (run_of lt (after_run lt xs)) @
        fst (pass lt (after_run lt (after_run lt xs))), Suc (snd (pass lt (after_run lt (after_run lt xs)))))"
proof -
  show "xs \<noteq> [] \<Longrightarrow> after_run lt xs = [] \<Longrightarrow> pass lt xs = (xs, 1)"
    using run_of_after_run [of lt xs] by (cases xs) (simp_all add: Let_def)
qed (cases xs, simp_all add: Let_def case_prod_beta)

fun runs :: "('a \<Rightarrow> 'a \<Rightarrow> bool) \<Rightarrow> 'a list \<Rightarrow> nat" where
  "runs lt (x # y # zs) = (if lt y x then 1 else 0) + runs lt (y # zs)"
| "runs lt [x] = 1"
| "runs lt [] = 0"

lemma mset_run: "mset (run_of lt xs) + mset (after_run lt xs) = mset xs"
  unfolding mset_append [symmetric] run_of_after_run ..

lemma mset_pass: "mset (fst (pass lt xs)) = mset xs"
proof (induction lt xs rule: pass.induct)
  case (2 lt x xs)
  let ?r = "after_run lt (x # xs)"
  have m: "mset (x # xs) = mset (run_of lt (x # xs)) + mset (run_of lt ?r) + mset (after_run lt ?r)"
    by (simp only: add.assoc mset_run)
  show ?case
  proof (cases "?r = []")
    case True
    then show ?thesis using run_of_after_run [of lt "x # xs"] by simp
  next
    case False
    then show ?thesis
      unfolding m using "2.IH" [OF refl refl] by (simp add: Let_def case_prod_beta)
  qed
qed simp

lemma runs_after_run: "xs \<noteq> [] \<Longrightarrow> runs lt xs = Suc (runs lt (after_run lt xs))"
  by (induction lt xs rule: runs.induct) auto

lemma runs_append: "runs lt (xs @ ys) \<le> runs lt xs + runs lt ys"
proof (induction lt xs rule: runs.induct)
  case (2 lt x)
  then show ?case by (cases ys) auto
qed auto

lemma runs_asc: "asc lt xs \<Longrightarrow> runs lt xs \<le> 1"
  by (induction lt xs rule: runs.induct) auto

lemma snd_pass: "snd (pass lt xs) = (runs lt xs + 1) div 2"
  by (induction xs rule: pass_induct [where lt = lt]) (simp_all add: pass_simps runs_after_run)

text \<open>The elements equivalent to \<open>k\<close>, in order.\<close>

definition eqv :: "('a \<Rightarrow> 'a \<Rightarrow> bool) \<Rightarrow> 'a \<Rightarrow> 'a list \<Rightarrow> 'a list" where
  "eqv lt k xs = filter (\<lambda>x. \<not> lt k x \<and> \<not> lt x k) xs"

lemma eqv_append: "eqv lt k (xs @ ys) = eqv lt k xs @ eqv lt k ys"
  by (simp add: eqv_def)

section \<open>The pointer code implements it\<close>

lemma dlist_prev: "dlist h l (xs @ x # y # ys) \<Longrightarrow> list_prev y h = Some x"
  using dlist_interior [of h l "xs @ [x]" y ys] by (simp add: list_prev_def)

lemma dlist_prev_tail: "dlist h l (xs @ [x]) \<Longrightarrow> list_prev (tail l) h = Some x"
  using dlist_tail [of h l "xs @ [x]"] by (simp add: list_prev_def)

lemma dlist_neq_end: "dlist h l (pre @ y # xs @ post) \<Longrightarrow> y \<noteq> hd (post @ [tail l])"
  by (cases post) (auto simp: dlist_def nodes_def)

lemma dlist_not_NULL: "dlist h l (pre @ post) \<Longrightarrow> hd (post @ [tail l]) \<noteq> NULL"
  by (cases post) (auto simp: dlist_def nodes_def)

lemma is_sorted_loop_spec:
  "dlist h l (pre @ x # xs @ post) \<Longrightarrow>
   is_sorted_loop lt h (hd (post @ [tail l])) x = Some (asc lt (x # xs))"
proof (induction xs arbitrary: pre x)
  case Nil
  then show ?case
    using dlist_next [of h l pre x post] by (simp add: is_sorted_loop.simps)
next
  case (Cons y xs)
  have "list_next x h = Some y" "list_prev y h = Some x" "y \<noteq> hd (post @ [tail l])"
    using dlist_next [of h l pre x "y # xs @ post"] dlist_prev [of h l pre x y "xs @ post"]
      dlist_neq_end [of h l "pre @ [x]" y xs post] Cons.prems by simp_all
  with Cons.IH [of "pre @ [x]" y] Cons.prems show ?case
    by (simp add: is_sorted_loop.simps [of lt h _ x])
qed

lemma is_sorted_spec:
  "dlist h l (pre @ xs @ post) \<Longrightarrow>
   is_sorted lt h (hd (xs @ post @ [tail l])) (hd (post @ [tail l])) = Some (asc lt xs)"
proof (cases xs)
  case (Cons x ys)
  moreover assume "dlist h l (pre @ xs @ post)"
  ultimately show ?thesis
    using is_sorted_loop_spec [of h l pre x ys post lt] dlist_neq_end [of h l pre x ys post]
    by (simp add: is_sorted_def)
qed (simp add: is_sorted_def)

lemma find_end_loop_spec:
  "dlist h l (pre @ x # xs) \<Longrightarrow>
   find_end_loop lt h (tail l) x = Some (hd (after_run lt (x # xs) @ [tail l]))"
proof (induction xs arbitrary: pre x)
  case Nil
  then show ?case
    using dlist_next [of h l pre x "[]"] by (simp add: find_end_loop.simps)
next
  case (Cons y xs)
  have "list_next x h = Some y" "list_prev y h = Some x" "y \<noteq> tail l"
    using dlist_next [of h l pre x "y # xs"] dlist_prev [of h l pre x y xs]
      dlist_not_tail [OF Cons.prems, of y] Cons.prems by simp_all
  with Cons.IH [of "pre @ [x]" y] Cons.prems show ?case
    by (simp add: find_end_loop.simps [of lt h _ x])
qed

lemma find_end_of_run_spec:
  assumes "dlist h l (pre @ x # xs)"
  shows "find_end_of_run lt h x (list_end l) = Some (hd (after_run lt (x # xs) @ [tail l]))"
  using assms find_end_loop_spec [OF assms, of lt] dlist_not_tail [OF assms, of x]
  by (auto simp: find_end_of_run_def list_end_def dlist_def nodes_def)

lemma list_splice_single:
  assumes "is_interior h b" "next_of h b = n" "is_interior h a \<or> is_tail h a" "list_prev n h = Some b"
    "a \<noteq> b" "b \<noteq> n" "a \<noteq> n" "prev_of h b \<noteq> b"
    and r: "list_remove b h = Some (n, h1)" and i: "list_insert a b h1 = Some h2"
  shows "list_splice a b n h = Some h2"
proof -
  have h1: "h1 = set_prev n (prev_of h b) (set_next (prev_of h b) n h)"
    using r assms(1,2,6,8) by (auto simp: list_remove_def Let_def)
  then have h2: "h2 = set_prev a b (set_next (prev_of h a) b (set_next b a (set_prev b (prev_of h a) h1)))"
    using i assms(5-7) by (auto simp: list_insert_def ASSERT_eq_Some Let_def split: bind_splits)
  show ?thesis
    unfolding h2 h1 using assms(1-8) by (auto simp: list_splice_def Let_def)
qed

lemma splice_one:
  assumes d: "dlist h l (pre @ (a # as) @ b # post)"
  shows "\<exists>h'. list_splice a b (hd (post @ [tail l])) h = Some h' \<and> dlist h' l (pre @ b # (a # as) @ post)"
proof -
  define n where "n = hd (post @ [tail l])"
  obtain h1 where h1: "list_remove b h = Some (n, h1)" "dlist h1 l (pre @ (a # as) @ post)"
    using list_remove_spec [of h l "pre @ a # as" b post] d by (auto simp: n_def)
  have b: "b \<notin> set (nodes l (pre @ (a # as) @ post))" "b \<noteq> NULL" "a \<noteq> b"
    using d by (auto simp: dlist_def nodes_def)
  obtain h2 where h2: "list_insert a b h1 = Some h2" "dlist h2 l (pre @ b # (a # as) @ post)"
    using list_insert_spec [of h1 l pre "(a # as) @ post" a b] h1(2) b by auto
  have i: "is_interior h b" "next_of h b = n" "prev_of h b = last (head l # pre @ a # as)" "is_interior h a"
    using dlist_interior [of h l "pre @ a # as" b post] dlist_interior [of h l pre a "as @ b # post"] d
    by (simp_all add: n_def)
  have p: "list_prev n h = Some b"
    using dlist_prev [of h l "pre @ a # as" b _ "tl post"] dlist_prev_tail [of h l "pre @ a # as" b] d
    by (cases post) (auto simp: n_def)
  have n: "b \<noteq> n" "a \<noteq> n"
    using dlist_neq_end [of h l "pre @ a # as" b "[]" post] dlist_neq_end [of h l pre a "as @ [b]" post] d
    by (auto simp: n_def)
  have "last (a # as) \<in> set (nodes l (pre @ (a # as) @ post))"
    using last_in_set [of "a # as"] by (auto simp: nodes_def simp del: last.simps last_in_set)
  then have "prev_of h b \<noteq> b"
    using i(3) b(1) by auto
  then show ?thesis
    using list_splice_single [of h b n a h1 h2] i p n b h1(1) h2 by (auto simp: n_def)
qed

lemma merge_loop_spec:
  "dlist h l (pre @ as @ bs @ post) \<Longrightarrow>
   \<exists>h'. merge_loop lt (hd (post @ [tail l])) (hd (as @ bs @ post @ [tail l])) (hd (bs @ post @ [tail l])) h
          = Some h' \<and> dlist h' l (pre @ merge lt as bs @ post)"
proof (induction lt as bs arbitrary: pre h rule: merge.induct)
  case (1 lt a as b bs)
  have ab: "a \<noteq> b" "b \<noteq> hd (post @ [tail l])"
    using "1.prems" dlist_neq_end [of h l "pre @ a # as" b bs post] by (auto simp: dlist_def nodes_def)
  show ?case
  proof (cases "lt b a")
    case False
    have "list_next a h = Some (hd (as @ b # bs @ post @ [tail l]))"
      using dlist_next [of h l pre a "as @ b # bs @ post"] "1.prems" by simp
    moreover have "dlist h l ((pre @ [a]) @ as @ (b # bs) @ post)"
      using "1.prems" by simp
    ultimately show ?thesis
      using "1.IH"(1) [OF False, of h "pre @ [a]"] ab False
      by (simp add: merge_loop.simps [of lt _ a b h])
  next
    case True
    have n: "list_next b h = Some (hd (bs @ post @ [tail l]))"
      using dlist_next [of h l "pre @ a # as" b "bs @ post"] "1.prems" by simp
    have p: "list_prev (hd (bs @ post @ [tail l])) h = Some b"
      using dlist_prev [of h l "pre @ a # as" b "hd (bs @ post)" "tl (bs @ post)"]
        dlist_prev_tail [of h l "pre @ a # as" b] "1.prems"
      by (cases bs; cases post) auto
    obtain h' where h': "list_splice a b (hd (bs @ post @ [tail l])) h = Some h'"
      "dlist h' l (pre @ b # (a # as) @ bs @ post)"
      using splice_one [of h l pre a as b "bs @ post"] "1.prems" by auto
    have "\<not> \<not> lt b a" using True by simp
    note IH = "1.IH"(2) [OF this, of h' "pre @ [b]"]
    show ?thesis
      using IH h' n p ab True by (simp add: merge_loop.simps [of lt _ a b h])
  qed
next
  case (2 lt bs)
  then show ?case by (simp add: merge_loop.simps)
next
  case (3 lt a as)
  then show ?case by (simp add: merge_loop.simps)
qed

lemma inplace_merge_spec:
  assumes "dlist h l (pre @ as @ bs @ post)" "asc lt as" "asc lt bs"
  shows "\<exists>h'. inplace_merge lt (hd (as @ bs @ post @ [tail l])) (hd (bs @ post @ [tail l]))
                (hd (post @ [tail l])) h = Some h' \<and> dlist h' l (pre @ merge lt as bs @ post)"
  using assms merge_loop_spec [OF assms(1), of lt] is_sorted_spec [of h l pre as "bs @ post" lt]
    is_sorted_spec [of h l "pre @ as" bs post lt] dlist_not_NULL [of h l pre "as @ bs @ post"]
    dlist_not_NULL [of h l "pre @ as" "bs @ post"] dlist_not_NULL [of h l "pre @ as @ bs" post]
  by (simp add: inplace_merge_def)

lemma sort_pass_spec:
  "dlist h l (pre @ xs) \<Longrightarrow>
   \<exists>h'. sort_pass lt l (hd (xs @ [tail l])) cnt h = Some (cnt + snd (pass lt xs), h') \<and>
        dlist h' l (pre @ fst (pass lt xs))"
proof (induction lt xs arbitrary: pre cnt h rule: pass.induct)
  case (1 lt)
  then show ?case by (simp add: sort_pass.simps list_end_def)
next
  case (2 lt x xs)
  let ?as = "run_of lt (x # xs)" and ?r = "after_run lt (x # xs)"
  let ?bs = "run_of lt ?r" and ?post = "after_run lt ?r"
  have x: "x \<noteq> list_end l" "find_end_of_run lt h x (list_end l) = Some (hd (?r @ [tail l]))"
    using dlist_not_tail [OF "2.prems"] find_end_of_run_spec [OF "2.prems"] by (simp_all add: list_end_def)
  show ?case
  proof (cases "?r = []")
    case True
    then show ?thesis
      using x "2.prems" run_of_after_run [of lt "x # xs"]
      by (simp add: sort_pass.simps [of lt l x] list_end_def Let_def)
  next
    case False
    then obtain y ys where r: "?r = y # ys" by (cases ?r) auto
    have split: "x # xs = ?as @ ?r" "?r = ?bs @ ?post"
      by (simp_all only: run_of_after_run)
    have d: "dlist h l (pre @ ?as @ ?bs @ ?post)" "dlist h l ((pre @ ?as) @ y # ys)"
      using "2.prems" split r by (metis, metis append_assoc)
    have hd: "hd (?as @ ?bs @ ?post @ [tail l]) = x" "hd (?bs @ ?post @ [tail l]) = y"
      using split r by (metis append_assoc append_Cons list.sel(1))+
    have "find_end_of_run lt h y (list_end l) = Some (hd (?post @ [tail l]))" "y \<noteq> list_end l"
      using find_end_of_run_spec [OF d(2)] dlist_not_tail [OF d(2), of y] r by (auto simp: list_end_def)
    moreover obtain h' where "inplace_merge lt x y (hd (?post @ [tail l])) h = Some h'"
      and d': "dlist h' l ((pre @ merge lt ?as ?bs) @ ?post)"
      using inplace_merge_spec [OF d(1) asc_run_of asc_run_of] hd by auto
    ultimately have "sort_pass lt l x cnt h = sort_pass lt l (hd (?post @ [tail l])) (cnt + 1) h'"
      using x r by (simp add: sort_pass.simps [of lt l x])
    then show ?thesis
      using "2.IH" [OF refl refl False d', of "cnt + 1"] False by (simp add: Let_def case_prod_beta)
  qed
qed

section \<open>Sorting under a strict weak order\<close>

locale strict_weak_order =
  fixes lt :: "'a \<Rightarrow> 'a \<Rightarrow> bool"
  assumes asym: "lt a b \<Longrightarrow> \<not> lt b a"
    and neg_trans: "\<not> lt b a \<Longrightarrow> \<not> lt c b \<Longrightarrow> \<not> lt c a"
begin

lemma asc_Cons: "asc lt (x # xs) \<longleftrightarrow> (\<forall>y\<in>set xs. \<not> lt y x) \<and> asc lt xs"
proof (induction xs arbitrary: x)
  case (Cons y ys)
  then show ?case using neg_trans by auto
qed simp

lemma asc_sorted_wrt: "asc lt xs \<longleftrightarrow> sorted_wrt (\<lambda>a b. \<not> lt b a) xs"
  by (induction xs) (simp_all add: asc_Cons)

lemma asc_merge: "asc lt as \<Longrightarrow> asc lt bs \<Longrightarrow> asc lt (merge lt as bs)"
proof (induction as bs rule: merge_induct [where lt = lt])
  case (Both a as b bs)
  show ?case
  proof (cases "lt b a")
    case True
    then have "\<not> lt y b" if "y \<in> set (a # as)" for y
      using that Both.prems(1) asym neg_trans by (metis asc_Cons set_ConsD)
    with True Both show ?thesis by (auto simp: asc_Cons)
  next
    case False
    then have "\<not> lt y a" if "y \<in> set (b # bs)" for y
      using that Both.prems(2) neg_trans by (metis asc_Cons set_ConsD)
    with False Both show ?thesis by (auto simp: asc_Cons)
  qed
qed simp_all

lemma eqv_merge: "asc lt as \<Longrightarrow> asc lt bs \<Longrightarrow> eqv lt k (merge lt as bs) = eqv lt k as @ eqv lt k bs"
proof (induction as bs rule: merge_induct [where lt = lt])
  case (Both a as b bs)
  show ?case
  proof (cases "lt b a")
    case True
    have "eqv lt k (a # as) = []" if "\<not> lt k b" "\<not> lt b k"
    proof -
      have "lt k y" if "y \<in> set (a # as)" for y
        using that Both.prems(1) True neg_trans \<open>\<not> lt b k\<close> by (metis asc_Cons set_ConsD)
      then show ?thesis by (auto simp: eqv_def filter_empty_conv)
    qed
    with Both True show ?thesis by (auto simp: eqv_def asc_Cons)
  next
    case False
    with Both show ?thesis by (auto simp: eqv_def asc_Cons)
  qed
qed (simp_all add: eqv_def)

lemma eqv_pass: "eqv lt k (fst (pass lt xs)) = eqv lt k xs"
proof (induction xs rule: pass_induct [where lt = lt])
  case (Pair xs)
  have "eqv lt k xs = eqv lt k (run_of lt xs) @ eqv lt k (run_of lt (after_run lt xs)) @
      eqv lt k (after_run lt (after_run lt xs))"
    by (simp only: eqv_append [symmetric] run_of_after_run)
  with Pair show ?case
    by (simp add: pass_simps eqv_append eqv_merge asc_run_of)
qed (simp_all add: pass_simps)

lemma runs_pass: "runs lt (fst (pass lt xs)) \<le> snd (pass lt xs)"
proof (induction xs rule: pass_induct [where lt = lt])
  case (Last xs)
  then show ?case by (simp add: pass_simps runs_after_run)
next
  case (Pair xs)
  let ?m = "merge lt (run_of lt xs) (run_of lt (after_run lt xs))"
  have "runs lt ?m \<le> 1"
    by (intro runs_asc asc_merge asc_run_of)
  with Pair runs_append [of lt ?m "fst (pass lt (after_run lt (after_run lt xs)))"] show ?case
    by (simp add: pass_simps)
qed simp

lemma asc_runs: "runs lt xs \<le> 1 \<Longrightarrow> asc lt xs"
  by (induction lt xs rule: runs.induct) (auto simp: runs_after_run split: if_splits)

end


interpretation vl: strict_weak_order "value_less vs" for vs
  by unfold_locales (auto simp: value_less_def)

lemma sort_loop_spec:
  assumes "strict_weak_order lt" "dlist h l xs"
  shows "\<exists>h' ys. sort_loop lt l h = Some h' \<and> dlist h' l ys \<and> asc lt ys \<and> mset ys = mset xs \<and>
                (\<forall>k. eqv lt k ys = eqv lt k xs)"
  using assms(2)
proof (induction "runs lt xs" arbitrary: xs h rule: less_induct)
  case less
  let ?ys = "fst (pass lt xs)" and ?n = "snd (pass lt xs)"
  note swo = strict_weak_order.runs_pass [OF assms(1), of xs] strict_weak_order.eqv_pass [OF assms(1)]
    strict_weak_order.asc_runs [OF assms(1), of ?ys]
  obtain h' where p: "sort_pass lt l (list_begin l h) 0 h = Some (?n, h')" "dlist h' l ?ys"
    using sort_pass_spec [of h l "[]" xs lt 0] less.prems dlist_begin [OF less.prems] by auto
  show ?case
  proof (cases "?n > 1")
    case True
    then have "runs lt ?ys < runs lt xs"
      using swo(1) snd_pass [of lt xs] by linarith
    then show ?thesis
      using less.hyps [OF _ p(2)] p(1) True swo(2) mset_pass [of lt xs]
      by (simp add: sort_loop.simps [of lt l h])
  next
    case False
    then show ?thesis
      using p swo mset_pass [of lt xs] by (auto simp: sort_loop.simps [of lt l h])
  qed
qed

section \<open>Properties\<close>

text \<open>C10: Under a comparison that is a strict weak order, \<^verbatim>\<open>list_sort\<close> terminates on every well-formed
  list without failing an assertion, and leaves a well-formed list that is a permutation of the old
  one, in nondecreasing order, with equivalent elements in their original order (stability).\<close>
theorem list_sort_correct:
  assumes "strict_weak_order lt" "dlist h l xs"
  shows "\<exists>h' ys. list_sort lt l h = Some h' \<and> dlist h' l ys \<and> sorted_wrt (\<lambda>a b. \<not> lt b a) ys \<and>
                mset ys = mset xs \<and> (\<forall>k. eqv lt k ys = eqv lt k xs)"
proof -
  obtain h' ys where s: "sort_loop lt l h = Some h'" "dlist h' l ys" "asc lt ys" "mset ys = mset xs"
    "\<forall>k. eqv lt k ys = eqv lt k xs"
    using sort_loop_spec [OF assms] by blast
  moreover have "is_sorted lt h' (list_begin l h') (list_end l) = Some True"
    using is_sorted_spec [of h' l "[]" ys "[]" lt] dlist_begin [OF s(2)] s(2,3) by (simp add: list_end_def)
  ultimately show ?thesis
    using strict_weak_order.asc_sorted_wrt [OF assms(1), of ys] by (auto simp: list_sort_def)
qed


theorem list_sort_correct_witness:
  fixes h l defines "h \<equiv> \<lparr>prev_of = (\<lambda>_. 0)(2 := 4, 4 := 3, 3 := 1), next_of = (\<lambda>_. 0)(1 := 3, 3 := 4, 4 := 2)\<rparr>"
    and "l \<equiv> \<lparr>head = 1, tail = 2\<rparr>"
  shows "dlist h l [3, 4] \<and>
    (\<exists>h' ys. list_sort (value_less (\<lambda>a. - int a)) l h = Some h' \<and> dlist h' l ys \<and>
       sorted_wrt (\<lambda>a b. \<not> value_less (\<lambda>a. - int a) b a) ys \<and> mset ys = mset [3, 4] \<and>
       (\<forall>k. eqv (value_less (\<lambda>a. - int a)) k ys = eqv (value_less (\<lambda>a. - int a)) k [3, 4]))"
proof -
  have "dlist h l [3, 4]"
    by (simp add: dlist_def nodes_def h_def l_def)
  with list_sort_correct [OF vl.strict_weak_order_axioms this, of "\<lambda>a. - int a"]
  show ?thesis by blast
qed

end
