(* ===== verification/C_String.thy ===== *)
theory C_String
  imports Prelude
begin

text \<open>
  The string and memory routines of \<^verbatim>\<open>lib/string.c\<close>. Memory is a list of bytes, a pointer is an index
  into it, and index 0 is the null pointer; an access outside the memory or through the null pointer
  is a fault (\<^term>\<open>None\<close>). Each routine is related to the string or the byte range it works on.
\<close>

section \<open>Memory\<close>

type_synonym cmem = "byte list"

definition ld :: "cmem \<Rightarrow> nat \<Rightarrow> byte option" where
  "ld m p = (if p \<noteq> 0 \<and> p < length m then Some (m ! p) else None)"

definition st :: "cmem \<Rightarrow> nat \<Rightarrow> byte \<Rightarrow> cmem option" where
  "st m p v = (if p \<noteq> 0 \<and> p < length m then Some (m[p := v]) else None)"

lemma ld_eq_Some: "ld m p = Some v \<longleftrightarrow> p \<noteq> 0 \<and> p < length m \<and> v = m ! p"
  by (auto simp: ld_def)

lemma st_eq_Some: "st m p v = Some m' \<longleftrightarrow> p \<noteq> 0 \<and> p < length m \<and> m' = m[p := v]"
  by (auto simp: st_def)

section \<open>Blocks of memory\<close>

fun copy_up :: "nat \<Rightarrow> nat \<Rightarrow> nat \<Rightarrow> cmem \<Rightarrow> cmem option" where
  "copy_up dst src 0 m = Some m"
| "copy_up dst src (Suc sz) m = do {
     v \<leftarrow> ld m src;
     m \<leftarrow> st m dst v;
     copy_up (dst + 1) (src + 1) sz m }"

definition memcpy :: "nat \<Rightarrow> nat \<Rightarrow> nat \<Rightarrow> cmem \<Rightarrow> (nat \<times> cmem) option" where
  "memcpy dst src sz m = do {
     ASSERT (dst \<noteq> 0 \<or> sz = 0);
     ASSERT (src \<noteq> 0 \<or> sz = 0);
     m \<leftarrow> copy_up dst src sz m;
     Some (dst, m) }"

text \<open>The loop \<^verbatim>\<open>while (size-- > 0) *--dst = *--src\<close>, where \<open>dst\<close> and \<open>src\<close> are the ends of the ranges
  minus the bytes already copied.\<close>

fun copy_down :: "nat \<Rightarrow> nat \<Rightarrow> nat \<Rightarrow> cmem \<Rightarrow> (nat \<times> cmem) option" where
  "copy_down dst src 0 m = Some (dst, m)"
| "copy_down dst src (Suc sz) m = do {
     v \<leftarrow> ld m (src - 1);
     m \<leftarrow> st m (dst - 1) v;
     copy_down (dst - 1) (src - 1) sz m }"

text \<open>The pointer that is returned is the current value of \<^verbatim>\<open>dst\<close>, as in the code, and not \<^verbatim>\<open>dst_\<close>.\<close>

definition memmove :: "nat \<Rightarrow> nat \<Rightarrow> nat \<Rightarrow> cmem \<Rightarrow> (nat \<times> cmem) option" where
  "memmove dst src sz m = do {
     ASSERT (dst \<noteq> 0 \<or> sz = 0);
     ASSERT (src \<noteq> 0 \<or> sz = 0);
     (if dst < src then do { m \<leftarrow> copy_up dst src sz m; Some (dst + sz, m) }
      else copy_down (dst + sz) (src + sz) sz m) }"

fun memcmp_loop :: "nat \<Rightarrow> nat \<Rightarrow> nat \<Rightarrow> cmem \<Rightarrow> int option" where
  "memcmp_loop a b 0 m = Some 0"
| "memcmp_loop a b (Suc sz) m = do {
     x \<leftarrow> ld m a;
     y \<leftarrow> ld m b;
     (if x \<noteq> y then Some (if x > y then 1 else - 1)
      else memcmp_loop (a + 1) (b + 1) sz m) }"

definition memcmp :: "nat \<Rightarrow> nat \<Rightarrow> nat \<Rightarrow> cmem \<Rightarrow> int option" where
  "memcmp a b sz m = do {
     ASSERT (a \<noteq> 0 \<or> sz = 0);
     ASSERT (b \<noteq> 0 \<or> sz = 0);
     memcmp_loop a b sz m }"

fun memchr_loop :: "nat \<Rightarrow> byte \<Rightarrow> nat \<Rightarrow> cmem \<Rightarrow> nat option" where
  "memchr_loop block ch 0 m = Some 0"
| "memchr_loop block ch (Suc sz) m = do {
     c \<leftarrow> ld m block;
     (if c = ch then Some block else memchr_loop (block + 1) ch sz m) }"

definition memchr :: "nat \<Rightarrow> byte \<Rightarrow> nat \<Rightarrow> cmem \<Rightarrow> nat option" where
  "memchr block ch sz m = do {
     ASSERT (block \<noteq> 0 \<or> sz = 0);
     memchr_loop block ch sz m }"

fun memset_loop :: "nat \<Rightarrow> byte \<Rightarrow> nat \<Rightarrow> cmem \<Rightarrow> cmem option" where
  "memset_loop dst v 0 m = Some m"
| "memset_loop dst v (Suc sz) m = do { m \<leftarrow> st m dst v; memset_loop (dst + 1) v sz m }"

definition memset :: "nat \<Rightarrow> byte \<Rightarrow> nat \<Rightarrow> cmem \<Rightarrow> (nat \<times> cmem) option" where
  "memset dst v sz m = do {
     ASSERT (dst \<noteq> 0 \<or> sz = 0);
     m \<leftarrow> memset_loop dst v sz m;
     Some (dst, m) }"

section \<open>Strings\<close>

text \<open>The loops over strings end at the terminator or fault at the end of the memory.\<close>

function strcmp_loop :: "nat \<Rightarrow> nat \<Rightarrow> cmem \<Rightarrow> int option" where
  "strcmp_loop a b m =
     (case ld m a of None \<Rightarrow> None
      | Some x \<Rightarrow> (case ld m b of None \<Rightarrow> None
        | Some y \<Rightarrow> if x \<noteq> 0 \<and> x = y then strcmp_loop (a + 1) (b + 1) m
                   else Some (if x < y then - 1 else if x > y then 1 else 0)))"
  by pat_completeness auto
termination
  by (relation "measure (\<lambda>(a, b, m). length m - a)") (auto simp: ld_eq_Some)

definition strcmp :: "nat \<Rightarrow> nat \<Rightarrow> cmem \<Rightarrow> int option" where
  "strcmp a b m = do { ASSERT (a \<noteq> 0); ASSERT (b \<noteq> 0); strcmp_loop a b m }"

function strchr_loop :: "nat \<Rightarrow> byte \<Rightarrow> cmem \<Rightarrow> nat option" where
  "strchr_loop p c m =
     (case ld m p of None \<Rightarrow> None
      | Some x \<Rightarrow> if x = c then Some p else if x = 0 then Some 0 else strchr_loop (p + 1) c m)"
  by pat_completeness auto
termination
  by (relation "measure (\<lambda>(p, c, m). length m - p)") (auto simp: ld_eq_Some)

definition strchr :: "nat \<Rightarrow> byte \<Rightarrow> cmem \<Rightarrow> nat option" where
  "strchr p c m = do { ASSERT (p \<noteq> 0); strchr_loop p c m }"

function strcspn_loop :: "nat \<Rightarrow> nat \<Rightarrow> nat \<Rightarrow> cmem \<Rightarrow> nat option" where
  "strcspn_loop s stop n m =
     (case ld m (s + n) of None \<Rightarrow> None
      | Some x \<Rightarrow> if x = 0 then Some n
                  else do { r \<leftarrow> strchr stop x m;
                            (if r \<noteq> 0 then Some n else strcspn_loop s stop (n + 1) m) })"
  by pat_completeness auto
termination
  by (relation "measure (\<lambda>(s, stop, n, m). length m - (s + n))") (auto simp: ld_eq_Some)

definition strcspn :: "nat \<Rightarrow> nat \<Rightarrow> cmem \<Rightarrow> nat option" where
  "strcspn s stop m = strcspn_loop s stop 0 m"

function strpbrk :: "nat \<Rightarrow> nat \<Rightarrow> cmem \<Rightarrow> nat option" where
  "strpbrk s stop m =
     (case ld m s of None \<Rightarrow> None
      | Some x \<Rightarrow> if x = 0 then Some 0
                  else do { r \<leftarrow> strchr stop x m;
                            (if r \<noteq> 0 then Some s else strpbrk (s + 1) stop m) })"
  by pat_completeness auto
termination
  by (relation "measure (\<lambda>(s, stop, m). length m - s)") (auto simp: ld_eq_Some)

function strrchr_loop :: "nat \<Rightarrow> byte \<Rightarrow> nat \<Rightarrow> cmem \<Rightarrow> nat option" where
  "strrchr_loop s c p m =
     (case ld m s of None \<Rightarrow> None
      | Some x \<Rightarrow> if x = 0 then Some p else strrchr_loop (s + 1) c (if x = c then s else p) m)"
  by pat_completeness auto
termination
  by (relation "measure (\<lambda>(s, c, p, m). length m - s)") (auto simp: ld_eq_Some)

definition strrchr :: "nat \<Rightarrow> byte \<Rightarrow> cmem \<Rightarrow> nat option" where
  "strrchr s c m = strrchr_loop s c 0 m"

function strspn_loop :: "nat \<Rightarrow> nat \<Rightarrow> nat \<Rightarrow> cmem \<Rightarrow> nat option" where
  "strspn_loop s skip n m =
     (case ld m (s + n) of None \<Rightarrow> None
      | Some x \<Rightarrow> if x = 0 then Some n
                  else do { r \<leftarrow> strchr skip x m;
                            (if r = 0 then Some n else strspn_loop s skip (n + 1) m) })"
  by pat_completeness auto
termination
  by (relation "measure (\<lambda>(s, skip, n, m). length m - (s + n))") (auto simp: ld_eq_Some)

definition strspn :: "nat \<Rightarrow> nat \<Rightarrow> cmem \<Rightarrow> nat option" where
  "strspn s skip m = strspn_loop s skip 0 m"

function strlen_loop :: "nat \<Rightarrow> cmem \<Rightarrow> nat option" where
  "strlen_loop p m =
     (case ld m p of None \<Rightarrow> None
      | Some x \<Rightarrow> if x = 0 then Some p else strlen_loop (p + 1) m)"
  by pat_completeness auto
termination
  by (relation "measure (\<lambda>(p, m). length m - p)") (auto simp: ld_eq_Some)

definition strlen :: "nat \<Rightarrow> cmem \<Rightarrow> nat option" where
  "strlen s m = do { ASSERT (s \<noteq> 0); p \<leftarrow> strlen_loop s m; Some (p - s) }"

text \<open>The condition of the loop reads the character before it compares the index.\<close>

function strnlen_loop :: "nat \<Rightarrow> nat \<Rightarrow> nat \<Rightarrow> cmem \<Rightarrow> nat option" where
  "strnlen_loop s maxlen n m =
     (case ld m (s + n) of None \<Rightarrow> None
      | Some x \<Rightarrow> if x \<noteq> 0 \<and> n < maxlen then strnlen_loop s maxlen (n + 1) m else Some n)"
  by pat_completeness auto
termination
  by (relation "measure (\<lambda>(s, maxlen, n, m). length m - (s + n))") (auto simp: ld_eq_Some)

definition strnlen :: "nat \<Rightarrow> nat \<Rightarrow> cmem \<Rightarrow> nat option" where
  "strnlen s maxlen m = strnlen_loop s maxlen 0 m"

function strstr_loop :: "nat \<Rightarrow> nat \<Rightarrow> nat \<Rightarrow> nat \<Rightarrow> nat \<Rightarrow> cmem \<Rightarrow> nat option" where
  "strstr_loop hay needle hay_len needle_len i m =
     (if i \<le> hay_len - needle_len then do {
        r \<leftarrow> memcmp (hay + i) needle needle_len m;
        (if r = 0 then Some (hay + i) else strstr_loop hay needle hay_len needle_len (i + 1) m) }
      else Some 0)"
  by pat_completeness auto
termination
  by (relation "measure (\<lambda>(hay, needle, hl, nl, i, m). Suc (hl - nl) - i)") auto

definition strstr :: "nat \<Rightarrow> nat \<Rightarrow> cmem \<Rightarrow> nat option" where
  "strstr haystack needle m = do {
     haystack_len \<leftarrow> strlen haystack m;
     needle_len \<leftarrow> strlen needle m;
     (if haystack_len \<ge> needle_len then strstr_loop haystack needle haystack_len needle_len 0 m
      else Some 0) }"

text \<open>The two scans of \<^verbatim>\<open>strtok_r\<close>. The first one returns the position and whether the string ended
  there.\<close>

function tok_skip :: "nat \<Rightarrow> nat \<Rightarrow> cmem \<Rightarrow> (nat \<times> bool) option" where
  "tok_skip s delims m =
     (case ld m s of None \<Rightarrow> None
      | Some x \<Rightarrow> do {
          r \<leftarrow> strchr delims x m;
          (if r \<noteq> 0 then (if x = 0 then Some (s, True) else tok_skip (s + 1) delims m)
           else Some (s, False)) })"
  by pat_completeness auto
termination
  by (relation "measure (\<lambda>(s, delims, m). length m - s)") (auto simp: ld_eq_Some)

function tok_end :: "nat \<Rightarrow> nat \<Rightarrow> cmem \<Rightarrow> nat option" where
  "tok_end s delims m =
     (case ld m s of None \<Rightarrow> None
      | Some x \<Rightarrow> do { r \<leftarrow> strchr delims x m; (if r = 0 then tok_end (s + 1) delims m else Some s) })"
  by pat_completeness auto
termination
  by (relation "measure (\<lambda>(s, delims, m). length m - s)") (auto simp: ld_eq_Some)

text \<open>Returns the token (0 for none), the new value of \<^verbatim>\<open>*save_ptr\<close> and the memory.\<close>

definition strtok_r :: "nat \<Rightarrow> nat \<Rightarrow> nat \<Rightarrow> cmem \<Rightarrow> (nat \<times> nat \<times> cmem) option" where
  "strtok_r s delims save_ptr m = do {
     ASSERT (delims \<noteq> 0);
     let s = (if s = 0 then save_ptr else s);
     ASSERT (s \<noteq> 0);
     (token, ended) \<leftarrow> tok_skip s delims m;
     (if ended then Some (0, token, m)
      else do {
        e \<leftarrow> tok_end token delims m;
        x \<leftarrow> ld m e;
        (if x \<noteq> 0 then do { m \<leftarrow> st m e 0; Some (token, e + 1, m) }
         else Some (token, e, m)) }) }"

definition strlcpy :: "nat \<Rightarrow> nat \<Rightarrow> nat \<Rightarrow> cmem \<Rightarrow> (nat \<times> cmem) option" where
  "strlcpy dst src sz m = do {
     ASSERT (dst \<noteq> 0);
     ASSERT (src \<noteq> 0);
     src_len \<leftarrow> strlen src m;
     (if sz > 0 then do {
        let dst_len = (if src_len < sz - 1 then src_len else sz - 1);
        (_, m) \<leftarrow> memcpy dst src dst_len m;
        m \<leftarrow> st m (dst + dst_len) 0;
        Some (src_len, m) }
      else Some (src_len, m)) }"

definition strlcat :: "nat \<Rightarrow> nat \<Rightarrow> nat \<Rightarrow> cmem \<Rightarrow> (nat \<times> cmem) option" where
  "strlcat dst src sz m = do {
     ASSERT (dst \<noteq> 0);
     ASSERT (src \<noteq> 0);
     src_len \<leftarrow> strlen src m;
     dst_len \<leftarrow> strlen dst m;
     (if sz > 0 \<and> dst_len < sz then do {
        let copy_cnt = (if src_len < sz - dst_len - 1 then src_len else sz - dst_len - 1);
        (_, m) \<leftarrow> memcpy (dst + dst_len) src copy_cnt m;
        m \<leftarrow> st m (dst + dst_len + copy_cnt) 0;
        Some (src_len + dst_len, m) }
      else Some (src_len + dst_len, m)) }"

declare strcmp_loop.simps [simp del] strchr_loop.simps [simp del] strcspn_loop.simps [simp del]
  strpbrk.simps [simp del] strrchr_loop.simps [simp del] strspn_loop.simps [simp del]
  strlen_loop.simps [simp del] strnlen_loop.simps [simp del] strstr_loop.simps [simp del]
  tok_skip.simps [simp del] tok_end.simps [simp del]

section \<open>Ranges and strings in memory\<close>

definition in_mem :: "cmem \<Rightarrow> nat \<Rightarrow> nat \<Rightarrow> bool" where
  "in_mem m p n \<longleftrightarrow> p \<noteq> 0 \<and> p + n \<le> length m"

fun str_at :: "cmem \<Rightarrow> nat \<Rightarrow> byte list \<Rightarrow> bool" where
  "str_at m p [] \<longleftrightarrow> ld m p = Some 0"
| "str_at m p (c # s) \<longleftrightarrow> ld m p = Some c \<and> c \<noteq> 0 \<and> str_at m (p + 1) s"

lemma slice_snoc: "p + n < length m \<Longrightarrow> slice p (Suc n) m = slice p n m @ [m ! (p + n)]"
  by (simp add: slice_def take_Suc_conv_app_nth)

lemma slice_update_other:
  "q < p \<or> p + n \<le> q \<Longrightarrow> slice p n (m[q := v]) = slice p n m"
  by (rule nth_equalityI) (auto simp: slice_def nth_list_update)

lemma overwrite_Cons: "p < length m \<Longrightarrow> overwrite (m[p := v]) (p + 1) ys = overwrite m p (v # ys)"
  by (simp add: overwrite_def take_Suc_conv_app_nth)

lemma overwrite_snoc:
  "p + length ys < length m \<Longrightarrow> overwrite (m[p + length ys := v]) p ys = overwrite m p (ys @ [v])"
  by (simp add: overwrite_def upd_conv_take_nth_drop Cons_nth_drop_Suc [symmetric])

lemma overwrite_Nil [simp]: "overwrite m p [] = m"
  by (simp add: overwrite_def)

lemma str_at_append: "str_at m p (s @ t) \<longleftrightarrow> (\<forall>i < length s. ld m (p + i) = Some (s ! i) \<and> s ! i \<noteq> 0) \<and> str_at m (p + length s) t"
proof (induction s arbitrary: p)
  case (Cons c s)
  then show ?case by (simp add: All_less_Suc2)
qed simp

lemma str_at_0: "str_at m p s \<Longrightarrow> p \<noteq> 0"
  by (cases s) (auto simp: ld_eq_Some)

lemma str_at_bounds: "str_at m p s \<Longrightarrow> p + length s < length m"
proof (induction s arbitrary: p)
  case (Cons c s)
  then show ?case using Cons.IH [of "p + 1"] by simp
qed (simp add: ld_eq_Some)

lemma str_at_no_NUL: "str_at m p s \<Longrightarrow> 0 \<notin> set s"
  by (induction s arbitrary: p) auto

section \<open>Copying and comparing blocks\<close>

lemma copy_up_spec:
  "in_mem m dst n \<Longrightarrow> in_mem m src n \<Longrightarrow> dst \<le> src \<or> src + n \<le> dst \<Longrightarrow>
   copy_up dst src n m = Some (overwrite m dst (slice src n m))"
proof (induction n arbitrary: dst src m)
  case (Suc n)
  let ?m = "m[dst := m ! src]"
  have "slice (src + 1) n ?m = slice (src + 1) n m"
    using Suc.prems by (intro slice_update_other) auto
  then show ?case
    using Suc.IH [of ?m "dst + 1" "src + 1"] Suc.prems overwrite_Cons [of dst m "m ! src"]
    by (auto simp: in_mem_def ld_def st_def slice_Suc)
qed simp

lemma copy_down_spec:
  "in_mem m dst n \<Longrightarrow> in_mem m src n \<Longrightarrow> src \<le> dst \<Longrightarrow>
   copy_down (dst + n) (src + n) n m = Some (dst, overwrite m dst (slice src n m))"
proof (induction n arbitrary: m)
  case (Suc n)
  let ?m = "m[dst + n := m ! (src + n)]"
  have "slice src n ?m = slice src n m"
    using Suc.prems by (intro slice_update_other) auto
  moreover have "length (slice src n m) = n"
    using Suc.prems by (simp add: slice_def in_mem_def)
  ultimately show ?case
    using Suc.IH [of ?m] Suc.prems overwrite_snoc [of dst "slice src n m" m "m ! (src + n)"]
    by (simp add: in_mem_def ld_def st_def slice_snoc)
qed simp

fun lexcmp :: "byte list \<Rightarrow> byte list \<Rightarrow> int" where
  "lexcmp (x # xs) (y # ys) = (if x \<noteq> y then (if x > y then 1 else - 1) else lexcmp xs ys)"
| "lexcmp _ _ = 0"

lemma lexcmp_eq_0: "length xs = length ys \<Longrightarrow> lexcmp xs ys = 0 \<longleftrightarrow> xs = ys"
  by (induction xs ys rule: list_induct2) auto

lemma memcmp_spec:
  "in_mem m a n \<Longrightarrow> in_mem m b n \<Longrightarrow> memcmp a b n m = Some (lexcmp (slice a n m) (slice b n m))"
proof -
  have "in_mem m a n \<Longrightarrow> in_mem m b n \<Longrightarrow> memcmp_loop a b n m = Some (lexcmp (slice a n m) (slice b n m))"
    by (induction n arbitrary: a b) (auto simp: in_mem_def ld_def slice_Suc)
  then show "in_mem m a n \<Longrightarrow> in_mem m b n \<Longrightarrow> ?thesis"
    by (auto simp: memcmp_def in_mem_def)
qed

lemma memset_spec:
  assumes "in_mem m p n"
  shows "memset p v n m = Some (p, overwrite m p (replicate n v))"
proof -
  have "in_mem m p n \<Longrightarrow> memset_loop p v n m = Some (overwrite m p (replicate n v))"
  proof (induction n arbitrary: p m)
    case (Suc n)
    then show ?case
      using overwrite_Cons [of p m v "replicate n v"] by (simp add: in_mem_def st_def)
  qed simp
  with assms show ?thesis by (auto simp: memset_def in_mem_def)
qed

section \<open>Scanning strings\<close>

lemma strlen_loop_spec: "str_at m p s \<Longrightarrow> strlen_loop p m = Some (p + length s)"
  by (induction s arbitrary: p) (simp_all add: strlen_loop.simps)

lemma strlen_spec: "str_at m p s \<Longrightarrow> strlen p m = Some (length s)"
  using str_at_0 [of m p s] strlen_loop_spec [of m p s] by (simp add: strlen_def)

lemma strnlen_spec: "str_at m p s \<Longrightarrow> strnlen p n m = Some (min (length s) n)"
proof -
  have "str_at m (p + k) t \<Longrightarrow> k \<le> n \<Longrightarrow> strnlen_loop p n k m = Some (min (k + length t) n)" for k t
  proof (induction t arbitrary: k)
    case (Cons c t)
    then show ?case
      using Cons.IH [of "k + 1"] by (cases "k < n") (auto simp: strnlen_loop.simps [of p n k] strnlen_loop.simps [of p n n])
  qed (simp add: strnlen_loop.simps)
  from this [of 0 s] show "str_at m p s \<Longrightarrow> ?thesis" by (simp add: strnlen_def)
qed

lemma strchr_spec:
  assumes "str_at m p s"
  shows "strchr p c m = Some (if c \<in> set s \<or> c = 0 then p + length (takeWhile (\<lambda>x. x \<noteq> c) s) else 0)"
proof -
  have "str_at m p s \<Longrightarrow>
    strchr_loop p c m = Some (if c \<in> set s \<or> c = 0 then p + length (takeWhile (\<lambda>x. x \<noteq> c) s) else 0)"
    by (induction s arbitrary: p) (auto simp: strchr_loop.simps)
  with assms str_at_0 [OF assms] show ?thesis by (simp add: strchr_def)
qed

lemma strchr_member:
  assumes "str_at m p s"
  shows "\<exists>r. strchr p c m = Some r \<and> (r \<noteq> 0 \<longleftrightarrow> c \<in> set s \<or> c = 0)"
  using strchr_spec [OF assms, of c] str_at_0 [OF assms] by auto

lemma strcspn_spec:
  assumes "str_at m p s" and d: "str_at m stop ds"
  shows "strcspn p stop m = Some (length (takeWhile (\<lambda>x. x \<notin> set ds) s))"
proof -
  have "str_at m (p + k) t \<Longrightarrow>
      strcspn_loop p stop k m = Some (k + length (takeWhile (\<lambda>x. x \<notin> set ds) t))" for k t
  proof (induction t arbitrary: k)
    case (Cons c t)
    then show ?case
      using Cons.IH [of "k + 1"] strchr_member [OF d, of c]
      by (auto simp: strcspn_loop.simps [of p stop k])
  qed (simp add: strcspn_loop.simps)
  from this [of 0 s] assms(1) show ?thesis by (simp add: strcspn_def)
qed

lemma strspn_spec:
  assumes "str_at m p s" and d: "str_at m skip ds"
  shows "strspn p skip m = Some (length (takeWhile (\<lambda>x. x \<in> set ds) s))"
proof -
  have "str_at m (p + k) t \<Longrightarrow>
      strspn_loop p skip k m = Some (k + length (takeWhile (\<lambda>x. x \<in> set ds) t))" for k t
  proof (induction t arbitrary: k)
    case (Cons c t)
    then show ?case
      using Cons.IH [of "k + 1"] strchr_member [OF d, of c]
      by (auto simp: strspn_loop.simps [of p skip k])
  qed (simp add: strspn_loop.simps)
  from this [of 0 s] assms(1) show ?thesis by (simp add: strspn_def)
qed

lemma strpbrk_spec:
  assumes d: "str_at m stop ds"
  shows "str_at m p s \<Longrightarrow>
    strpbrk p stop m = Some (if set s \<inter> set ds = {} then 0 else p + length (takeWhile (\<lambda>x. x \<notin> set ds) s))"
proof (induction s arbitrary: p)
  case (Cons c s)
  then show ?case
    using Cons.IH [of "p + 1"] strchr_member [OF d, of c]
    by (cases "set s \<inter> set ds = {}") (auto simp: strpbrk.simps [of p])
qed (simp add: strpbrk.simps)

lemma takeWhile_shorter: "c \<in> set xs \<Longrightarrow> length (takeWhile (\<lambda>x. x \<noteq> c) xs) < length xs"
  by (induction xs) auto

lemma strrchr_loop_spec:
  "str_at m p s \<Longrightarrow>
   strrchr_loop p c q m =
     Some (if c \<in> set s then p + length s - 1 - length (takeWhile (\<lambda>x. x \<noteq> c) (rev s)) else q)"
proof (induction s arbitrary: p q)
  case (Cons x s)
  have "length (takeWhile (\<lambda>x. x \<noteq> c) (rev s)) < length s" if "c \<in> set s"
    using that takeWhile_shorter [of c "rev s"] by simp
  moreover have "takeWhile (\<lambda>x. x \<noteq> c) (rev s) = rev s" if "c \<notin> set s"
    using that by (auto simp: takeWhile_eq_all_conv)
  ultimately show ?case
    using Cons by (auto simp: strrchr_loop.simps [of p] takeWhile_append)
qed (simp add: strrchr_loop.simps)

lemma slice_str: "str_at m p (s @ t) \<Longrightarrow> slice p (length s) m = s"
proof (induction s arbitrary: p)
  case (Cons c s)
  then have "p < length m" "m ! p = c" by (auto simp: ld_eq_Some)
  with Cons show ?case by (simp add: slice_Suc)
qed simp

lemma str_at_drop: "str_at m p s \<Longrightarrow> i \<le> length s \<Longrightarrow> str_at m (p + i) (drop i s)"
  using str_at_append [of m p "take i s" "drop i s"] by (simp add: min_absorb2)

lemma str_in_mem: "str_at m p s \<Longrightarrow> i + n \<le> length s \<Longrightarrow> in_mem m (p + i) n"
  using str_at_bounds [of m p s] str_at_0 [of m p s] by (simp add: in_mem_def)

lemma strstr_loop_spec:
  assumes h: "str_at m p s" and t: "str_at m q t" and "length t \<le> length s"
  shows "\<exists>r. strstr_loop p q (length s) (length t) i m = Some r \<and>
    (if r = 0 then \<forall>j \<ge> i. j + length t \<le> length s \<longrightarrow> slice j (length t) s \<noteq> t
     else \<exists>k. r = p + k \<and> i \<le> k \<and> k + length t \<le> length s \<and> slice k (length t) s = t \<and>
              (\<forall>j. i \<le> j \<and> j < k \<longrightarrow> slice j (length t) s \<noteq> t))"
proof (induction "Suc (length s - length t) - i" arbitrary: i)
  case 0
  then show ?case by (auto simp: strstr_loop.simps [of p q _ _ i])
next
  case (Suc n)
  then have i: "i + length t \<le> length s" using assms(3) by linarith
  have eq: "slice (p + i) (length t) m = slice i (length t) s"
    using slice_str [of m "p + i" "slice i (length t) s" "drop (i + length t) s"] str_at_drop [OF h, of i] i
    by (simp add: slice_def) (metis add.commute append_take_drop_id drop_drop length_drop length_take min.absorb2
        nat_add_left_cancel_le le_add_diff_inverse)
  have q: "slice q (length t) m = t" using slice_str [of m q t "[]"] t by simp
  have cmp: "memcmp (p + i) q (length t) m = Some (lexcmp (slice i (length t) s) t)"
    using memcmp_spec [OF str_in_mem [OF h i] str_in_mem [of m q t 0]] t eq q by simp
  have len: "length (slice i (length t) s) = length t" using i by (simp add: slice_def)
  show ?case
  proof (cases "slice i (length t) s = t")
    case True
    then show ?thesis
      using cmp i str_at_0 [OF h] lexcmp_eq_0 [OF len]
      by (auto simp: strstr_loop.simps [of p q _ _ i])
  next
    case False
    have "n = Suc (length s - length t) - (i + 1)" using Suc(2) by simp
    from Suc(1) [OF this] obtain r where r: "strstr_loop p q (length s) (length t) (i + 1) m = Some r"
      "if r = 0 then \<forall>j \<ge> i + 1. j + length t \<le> length s \<longrightarrow> slice j (length t) s \<noteq> t
       else \<exists>k. r = p + k \<and> i + 1 \<le> k \<and> k + length t \<le> length s \<and> slice k (length t) s = t \<and>
              (\<forall>j. i + 1 \<le> j \<and> j < k \<longrightarrow> slice j (length t) s \<noteq> t)" by blast
    have "strstr_loop p q (length s) (length t) i m = Some r"
      using cmp False lexcmp_eq_0 [OF len] r(1) i by (auto simp: strstr_loop.simps [of p q _ _ i])
    moreover have split: "i \<le> j \<longleftrightarrow> j = i \<or> i + 1 \<le> j" for j by linarith
    ultimately show ?thesis
      using r(2) False unfolding split by (cases "r = 0") auto
  qed
qed

section \<open>Comparing strings\<close>

lemma strcmp_loop_spec:
  "str_at m a s \<Longrightarrow> str_at m b t \<Longrightarrow> strcmp_loop a b m = Some (lexcmp (s @ [0]) (t @ [0]))"
proof (induction s arbitrary: a b t)
  case Nil
  then show ?case by (cases t) (auto simp: strcmp_loop.simps word_gt_0)
next
  case (Cons c s)
  then show ?case by (cases t) (auto simp: strcmp_loop.simps [of a b] word_gt_0)
qed

lemma strcmp_spec: "str_at m a s \<Longrightarrow> str_at m b t \<Longrightarrow> strcmp a b m = Some (lexcmp (s @ [0]) (t @ [0]))"
  using strcmp_loop_spec [of m a s b t] str_at_0 [of m a s] str_at_0 [of m b t] by (simp add: strcmp_def)

lemma lexcmp_strings:
  "0 \<notin> set s \<Longrightarrow> 0 \<notin> set t \<Longrightarrow>
   lexcmp (s @ [0]) (t @ [0]) = (if s = t then 0 else if ord_class.lexordp s t then - 1 else 1)"
proof (induction s arbitrary: t)
  case Nil
  then show ?case by (cases t) (auto simp: word_gt_0)
next
  case (Cons c s)
  then show ?case by (cases t) (auto simp: word_gt_0)
qed

section \<open>Bounded copies\<close>

lemma str_at_slice: "str_at m p s \<longleftrightarrow> in_mem m p (length s + 1) \<and> slice p (length s + 1) m = s @ [0] \<and> 0 \<notin> set s"
proof (induction s arbitrary: p)
  case Nil
  then show ?case
    by (auto simp: in_mem_def ld_eq_Some slice_Suc Suc_le_eq)
next
  case (Cons c s)
  show ?case
    by (auto simp: Cons.IH in_mem_def ld_eq_Some slice_Suc Suc_le_eq)
qed

lemma slice_overwrite_prefix:
  "p + length xs \<le> length m \<Longrightarrow> n \<le> length xs \<Longrightarrow> slice p n (overwrite m p xs) = take n xs"
  by (simp add: slice_def overwrite_def)

lemma slice_overwrite_other:
  "q + n \<le> p \<or> p + length xs \<le> q \<Longrightarrow> p + length xs \<le> length m \<Longrightarrow> slice q n (overwrite m p xs) = slice q n m"
  by (rule nth_equalityI) (auto simp: slice_def nth_overwrite)

lemma overwrite_twice:
  "p + length xs < length m \<Longrightarrow> (overwrite m p xs)[p + length xs := v] = overwrite m p (xs @ [v])"
  by (simp add: overwrite_def list_update_append Cons_nth_drop_Suc [symmetric])

text \<open>The effect of \<^verbatim>\<open>strlcpy\<close> on the destination.\<close>

lemma strlcpy_effect:
  assumes s: "str_at m src s" and d: "in_mem m dst n" "0 < n"
    and apart: "dst + n \<le> src \<or> src + length s < dst"
  shows "strlcpy dst src n m = Some (length s, overwrite m dst (take (n - 1) s @ [0]))"
proof -
  let ?k = "min (length s) (n - 1)"
  have k: "(if length s < n - 1 then length s else n - 1) = ?k" by simp
  have in1: "in_mem m dst ?k" "in_mem m src ?k"
    using d str_in_mem [OF s, of 0 ?k] by (auto simp: in_mem_def)
  have sl: "slice src ?k m = take (n - 1) s"
    using slice_str [of m src "take (n - 1) s" "drop (n - 1) s"] s by (simp add: min.commute)
  have "copy_up dst src ?k m = Some (overwrite m dst (take (n - 1) s))"
    using copy_up_spec [OF in1] apart sl by auto
  moreover have "dst + ?k < length m" using d by (auto simp: in_mem_def)
  moreover have "(overwrite m dst (take (n - 1) s))[dst + ?k := 0] = overwrite m dst (take (n - 1) s @ [0])"
    using overwrite_twice [of dst "take (n - 1) s" m 0] \<open>dst + ?k < length m\<close> by (simp add: min.commute)
  ultimately show ?thesis
    using d str_at_0 [OF s] strlen_spec [OF s] k
    by (simp add: strlcpy_def memcpy_def in_mem_def st_def Let_def)
qed

lemma str_at_overwrite:
  assumes "in_mem m p n" "length xs < n" "0 \<notin> set xs"
  shows "str_at (overwrite m p (xs @ [0])) p xs"
  using assms by (simp add: str_at_slice in_mem_def slice_overwrite_prefix)

lemma str_at_overwrite_other:
  assumes "str_at m q t" "in_mem m p (length xs)" "q + length t < p \<or> p + length xs \<le> q"
  shows "str_at (overwrite m p xs) q t"
  using assms by (auto simp: str_at_slice in_mem_def slice_overwrite_other)

section \<open>Tokens\<close>

lemma tok_skip_spec:
  assumes d: "str_at m d ds"
  shows "str_at m p s \<Longrightarrow>
    tok_skip p d m = Some (p + length (takeWhile (\<lambda>x. x \<in> set ds) s), dropWhile (\<lambda>x. x \<in> set ds) s = [])"
proof (induction s arbitrary: p)
  case Nil
  then show ?case using strchr_member [OF d, of 0] by (auto simp: tok_skip.simps)
next
  case (Cons c s)
  then show ?case
    using Cons.IH [of "p + 1"] strchr_member [OF d, of c] by (auto simp: tok_skip.simps [of p])
qed

lemma tok_end_spec:
  assumes d: "str_at m d ds"
  shows "str_at m p s \<Longrightarrow> tok_end p d m = Some (p + length (takeWhile (\<lambda>x. x \<notin> set ds) s))"
proof (induction s arbitrary: p)
  case Nil
  then show ?case using strchr_member [OF d, of 0] by (auto simp: tok_end.simps)
next
  case (Cons c s)
  then show ?case
    using Cons.IH [of "p + 1"] strchr_member [OF d, of c] by (auto simp: tok_end.simps [of p])
qed

lemma str_at_terminate:
  assumes "str_at m p (t @ x # r)"
  shows "str_at (m[p + length t := 0]) p t" "str_at (m[p + length t := 0]) (p + length t + 1) r"
proof -
  have b: "in_mem m p (length t + 1)" "p + length t + 1 \<noteq> 0"
    using str_at_bounds [OF assms] str_at_0 [OF assms] by (auto simp: in_mem_def)
  have "slice p (length t) m = t" "0 \<notin> set t"
    using slice_str [OF assms] str_at_no_NUL [OF assms] by auto
  then show "str_at (m[p + length t := 0]) p t"
    using b by (simp add: str_at_slice slice_snoc in_mem_def slice_update_other)
  have "str_at m (p + length t + 1) r"
    using assms by (simp add: str_at_append)
  then show "str_at (m[p + length t := 0]) (p + length t + 1) r"
    by (auto simp: str_at_slice in_mem_def slice_update_other)
qed

lemma str_at_update_other:
  "str_at m q t \<Longrightarrow> e < q \<or> q + length t < e \<Longrightarrow> str_at (m[e := v]) q t"
  by (auto simp: str_at_slice in_mem_def slice_update_other)

lemma strtok_r_spec:
  assumes s: "str_at m p s" and d: "str_at m d ds" and apart: "d + length ds < p \<or> p + length s < d"
  defines "u \<equiv> dropWhile (\<lambda>x. x \<in> set ds) s"
  defines "t \<equiv> takeWhile (\<lambda>x. x \<notin> set ds) u"
  shows "if u = [] then strtok_r p d sv m = Some (0, p + length s, m)
         else \<exists>tok q m'. strtok_r p d sv m = Some (tok, q, m') \<and> tok \<noteq> 0 \<and> str_at m' tok t \<and>
                str_at m' q (drop (length t + 1) u) \<and> str_at m' d ds \<and>
                p \<le> tok \<and> tok + length t \<le> q \<and> q \<le> p + length s \<and> q + length (drop (length t + 1) u) = p + length s \<and>
                (\<exists>e. tok + length t \<le> e \<and> e \<le> q \<and> (m' = m \<or> m' = m[e := 0] \<and> e < q))"
proof (cases "u = []")
  case True
  then have "length (takeWhile (\<lambda>x. x \<in> set ds) s) = length s"
    by (metis u_def append_Nil2 takeWhile_dropWhile_id)
  then show ?thesis
    using True tok_skip_spec [OF d s] str_at_0 [OF s] str_at_0 [OF d]
    by (simp add: strtok_r_def u_def Let_def del: dropWhile_eq_Nil_conv)
next
  case False
  let ?k = "length (takeWhile (\<lambda>x. x \<in> set ds) s)"
  have su: "str_at m (p + ?k) u"
    using s str_at_append [of m p "takeWhile (\<lambda>x. x \<in> set ds) s" u] by (simp add: u_def)
  have len: "?k + length u = length s"
    unfolding u_def by (metis length_append takeWhile_dropWhile_id)
  have skip: "tok_skip p d m = Some (p + ?k, False)" "tok_end (p + ?k) d m = Some (p + ?k + length t)"
    using tok_skip_spec [OF d s] tok_end_spec [OF d su] False by (auto simp: u_def t_def)
  obtain r where r: "u = t @ r" unfolding t_def by (metis takeWhile_dropWhile_id)
  show ?thesis
  proof (cases r)
    case Nil
    then have "ld m (p + ?k + length t) = Some 0"
      using su r str_at_append [of m "p + ?k" t "[]"] by simp
    then have "strtok_r p d sv m = Some (p + ?k, p + ?k + length t, m)"
      using skip str_at_0 [OF s] str_at_0 [OF d] by (simp add: strtok_r_def Let_def)
    then show ?thesis
      using False su r Nil str_at_0 [OF s] d len str_at_append [of m "p + ?k" t "[]"] by auto
  next
    case (Cons x r')
    let ?m = "m[p + ?k + length t := 0]"
    have x: "ld m (p + ?k + length t) = Some x" "x \<noteq> 0"
      using su r Cons str_at_append [of m "p + ?k" t "x # r'"] by auto
    then have "strtok_r p d sv m = Some (p + ?k, p + ?k + length t + 1, ?m)"
      using skip str_at_0 [OF s] str_at_0 [OF d] by (auto simp: strtok_r_def Let_def st_def ld_def split: if_splits)
    moreover have "str_at ?m (p + ?k) t" "str_at ?m (p + ?k + length t + 1) r'"
      using str_at_terminate [of m "p + ?k" t x r'] su r Cons by simp_all
    moreover have "str_at ?m d ds"
      using apart len r Cons by (intro str_at_update_other [OF d]) auto
    ultimately show ?thesis
      using False str_at_0 [OF s] r Cons len by auto
  qed
qed

section \<open>Properties\<close>

text \<open>\<^verbatim>\<open>memmove\<close> copies correctly for every pair of ranges inside the memory, overlapping or not: the
  destination range holds what the source range held before, and nothing else changes.\<close>
theorem memmove_overlap:
  assumes "in_mem m dst n" "in_mem m src n"
  shows "\<exists>r. memmove dst src n m = Some (r, overwrite m dst (slice src n m))"
  using assms copy_up_spec [OF assms] copy_down_spec [OF assms]
  by (cases "dst < src") (auto simp: memmove_def in_mem_def)

theorem memmove_overlap_witness:
  "\<exists>r. memmove 3 1 4 [0, 1, 2, 3, 4, 5, 6, 7, 8] =
        Some (r, overwrite [0, 1, 2, 3, 4, 5, 6, 7, 8] 3 (slice 1 4 [0, 1, 2, 3, 4, 5, 6, 7, 8]))"
  by (rule memmove_overlap) (simp_all add: in_mem_def)

text \<open>\<^verbatim>\<open>strcmp\<close> on two strings anywhere in memory returns 0 exactly if they are equal, and otherwise
  -1 or 1 as the first is lexicographically smaller or greater, comparing unsigned characters.\<close>
theorem strcmp_lexicographic:
  assumes "str_at m a s" "str_at m b t"
  shows "strcmp a b m = Some (if s = t then 0 else if ord_class.lexordp s t then - 1 else 1)"
  using strcmp_spec [OF assms] lexcmp_strings [OF assms [THEN str_at_no_NUL]] by simp

theorem strcmp_lexicographic_witness:
  "strcmp 1 3 [0, 7, 0, 7, 200, 0] =
     Some (if [7] = [7, 200 :: byte] then 0 else if ord_class.lexordp [7] [7, 200 :: byte] then - 1 else 1)"
  by (rule strcmp_lexicographic) (simp_all add: ld_def)

text \<open>\<^verbatim>\<open>strlcpy\<close> into a buffer of \<open>n > 0\<close> bytes that does not overlap the source writes only to that
  buffer, leaves there the source string cut to \<open>n - 1\<close> characters and terminated, and returns the
  length of the source, so that truncation is detectable.\<close>
theorem strlcpy_bounded:
  assumes "str_at m src s" "in_mem m dst n" "0 < n" "dst + n \<le> src \<or> src + length s < dst"
  shows "\<exists>m'. strlcpy dst src n m = Some (length s, m') \<and> str_at m' dst (take (n - 1) s) \<and>
              length m' = length m \<and> (\<forall>i < length m. i < dst \<or> dst + n \<le> i \<longrightarrow> m' ! i = m ! i)"
proof -
  have "str_at (overwrite m dst (take (n - 1) s @ [0])) dst (take (n - 1) s)"
    using assms str_at_no_NUL [OF assms(1)] by (intro str_at_overwrite) (auto dest: in_set_takeD)
  moreover have "\<forall>i < length m. i < dst \<or> dst + n \<le> i \<longrightarrow> overwrite m dst (take (n - 1) s @ [0]) ! i = m ! i"
    using assms by (auto simp: nth_overwrite in_mem_def)
  ultimately show ?thesis
    using strlcpy_effect [OF assms] assms(2,3) by (auto simp: in_mem_def)
qed

theorem strlcpy_bounded_witness:
  "\<exists>m'. strlcpy 5 1 3 [0, 65, 66, 67, 0, 9, 9, 9, 9] = Some (length [65, 66, 67 :: byte], m') \<and>
        str_at m' 5 (take (3 - 1) [65, 66, 67]) \<and> length m' = length [0, 65, 66, 67, 0, 9, 9, 9, 9 :: byte] \<and>
        (\<forall>i < length [0, 65, 66, 67, 0, 9, 9, 9, 9 :: byte]. i < 5 \<or> 5 + 3 \<le> i \<longrightarrow> m' ! i = [0, 65, 66, 67, 0, 9, 9, 9, 9] ! i)"
  by (rule strlcpy_bounded) (simp_all add: ld_def in_mem_def)

text \<open>\<^verbatim>\<open>strstr\<close> returns a pointer to the first occurrence of the needle in the haystack, and the null
  pointer exactly if there is none.\<close>
theorem strstr_first:
  assumes "str_at m p s" "str_at m q t"
  shows "\<exists>r. strstr p q m = Some r \<and>
    (if r = 0 then \<forall>j. j + length t \<le> length s \<longrightarrow> slice j (length t) s \<noteq> t
     else \<exists>k. r = p + k \<and> k + length t \<le> length s \<and> slice k (length t) s = t \<and>
              (\<forall>j < k. slice j (length t) s \<noteq> t))"
proof (cases "length t \<le> length s")
  case True
  then show ?thesis
    using strstr_loop_spec [OF assms True, of 0] strlen_spec [OF assms(1)] strlen_spec [OF assms(2)]
    by (fastforce simp: strstr_def)
next
  case False
  then show ?thesis
    using strlen_spec [OF assms(1)] strlen_spec [OF assms(2)] by (simp add: strstr_def)
qed

theorem strstr_first_witness:
  "\<exists>r. strstr 1 5 [0, 1, 2, 3, 0, 2, 3, 0] = Some r \<and>
    (if r = 0 then \<forall>j. j + length [2, 3 :: byte] \<le> length [1, 2, 3 :: byte] \<longrightarrow>
                     slice j (length [2, 3 :: byte]) [1, 2, 3] \<noteq> [2, 3 :: byte]
     else \<exists>k. r = 1 + k \<and> k + length [2, 3 :: byte] \<le> length [1, 2, 3 :: byte] \<and>
              slice k (length [2, 3 :: byte]) [1, 2, 3] = [2, 3 :: byte] \<and>
              (\<forall>j < k. slice j (length [2, 3 :: byte]) [1, 2, 3] \<noteq> [2, 3 :: byte]))"
  by (rule strstr_first) (simp_all add: ld_def)

end
