(* ===== verification/Block_Dev.thy ===== *)
theory Block_Dev
  imports Prelude
begin

text \<open>
  The block layer of \<^verbatim>\<open>devices/block.c\<close>: devices registered under a name and a role, and sector reads
  and writes that panic past the end of the device. What a driver stores is the list \<open>media\<close> of its
  sectors; \<^verbatim>\<open>ops->read\<close> and \<^verbatim>\<open>ops->write\<close> access one element of it.
\<close>

type_synonym sector = u32

definition BLOCK_SECTOR_SIZE :: nat where
  "BLOCK_SECTOR_SIZE = 512"

datatype block_type =
  BLOCK_KERNEL | BLOCK_FILESYS | BLOCK_SCRATCH | BLOCK_SWAP | BLOCK_RAW | BLOCK_FOREIGN

record block =
  blk_name :: "byte list"
  blk_type :: block_type
  blk_size :: sector
  media :: "byte list list"
  read_cnt :: u64
  write_cnt :: u64

definition check_sector :: "block \<Rightarrow> sector \<Rightarrow> unit option" where
  "check_sector b s = (if s \<ge> blk_size b then None else Some ())"

definition block_read :: "block \<Rightarrow> sector \<Rightarrow> (byte list \<times> block) option" where
  "block_read b s = do {
     check_sector b s;
     buffer \<leftarrow> arr_get (media b) (unat s);
     Some (buffer, b\<lparr>read_cnt := read_cnt b + 1\<rparr>) }"

definition block_write :: "block \<Rightarrow> sector \<Rightarrow> byte list \<Rightarrow> block option" where
  "block_write b s buffer = do {
     check_sector b s;
     ASSERT (blk_type b \<noteq> BLOCK_FOREIGN);
     m \<leftarrow> arr_set (media b) (unat s) buffer;
     Some (b\<lparr>media := m, write_cnt := write_cnt b + 1\<rparr>) }"

definition block_size :: "block \<Rightarrow> sector" where
  "block_size b = blk_size b"

definition block_name :: "block \<Rightarrow> byte list" where
  "block_name b = blk_name b"

definition block_type_of :: "block \<Rightarrow> block_type" where
  "block_type_of b = blk_type b"

fun block_type_name :: "block_type \<Rightarrow> string" where
  "block_type_name BLOCK_KERNEL = ''kernel''"
| "block_type_name BLOCK_FILESYS = ''filesys''"
| "block_type_name BLOCK_SCRATCH = ''scratch''"
| "block_type_name BLOCK_SWAP = ''swap''"
| "block_type_name BLOCK_RAW = ''raw''"
| "block_type_name BLOCK_FOREIGN = ''foreign''"

section \<open>Registered devices\<close>

text \<open>A device pointer is an index into \<open>all_blocks\<close>; the list only grows, so indices stay valid.\<close>

record blocks =
  all_blocks :: "block list"
  block_by_role :: "block_type \<Rightarrow> nat option"

definition is_role :: "block_type \<Rightarrow> bool" where
  "is_role t \<longleftrightarrow> t \<noteq> BLOCK_RAW \<and> t \<noteq> BLOCK_FOREIGN"

definition block_get_role :: "blocks \<Rightarrow> block_type \<Rightarrow> nat option option" where
  "block_get_role bs role = do { ASSERT (is_role role); Some (block_by_role bs role) }"

definition block_set_role :: "blocks \<Rightarrow> block_type \<Rightarrow> nat option \<Rightarrow> blocks option" where
  "block_set_role bs role b = do {
     ASSERT (is_role role);
     Some (bs\<lparr>block_by_role := (block_by_role bs)(role := b)\<rparr>) }"

definition list_elem_to_block :: "blocks \<Rightarrow> nat \<Rightarrow> nat option" where
  "list_elem_to_block bs i = (if i < length (all_blocks bs) then Some i else None)"

definition block_first :: "blocks \<Rightarrow> nat option" where
  "block_first bs = list_elem_to_block bs 0"

definition block_next :: "blocks \<Rightarrow> nat \<Rightarrow> nat option" where
  "block_next bs i = list_elem_to_block bs (i + 1)"

fun find_block :: "byte list \<Rightarrow> block list \<Rightarrow> nat \<Rightarrow> nat option" where
  "find_block name [] i = None"
| "find_block name (b # bs) i = (if name = blk_name b then Some i else find_block name bs (i + 1))"

definition block_get_by_name :: "blocks \<Rightarrow> byte list \<Rightarrow> nat option" where
  "block_get_by_name bs name = find_block name (all_blocks bs) 0"

definition block_register ::
    "byte list \<Rightarrow> block_type \<Rightarrow> sector \<Rightarrow> byte list list \<Rightarrow> bool \<Rightarrow> blocks \<Rightarrow> (nat \<times> blocks) option" where
  "block_register name ty n contents mem_ok bs =
     (if \<not> mem_ok then None
      else Some (length (all_blocks bs),
        bs\<lparr>all_blocks := all_blocks bs @
          [\<lparr>blk_name = take 15 name, blk_type = ty, blk_size = n, media = contents,
            read_cnt = 0, write_cnt = 0\<rparr>]\<rparr>))"

section \<open>Lemmas\<close>

definition block_ok :: "block \<Rightarrow> bool" where
  "block_ok b \<longleftrightarrow> length (media b) = unat (blk_size b) \<and> blk_type b \<noteq> BLOCK_FOREIGN \<and>
                 (\<forall>d \<in> set (media b). length d = BLOCK_SECTOR_SIZE)"

lemma block_read_ok:
  "block_ok b \<Longrightarrow> s < blk_size b \<Longrightarrow>
   block_read b s = Some (media b ! unat s, b\<lparr>read_cnt := read_cnt b + 1\<rparr>)"
  by (auto simp: block_read_def check_sector_def block_ok_def word_less_nat_alt word_le_nat_alt)

lemma block_write_ok:
  "block_ok b \<Longrightarrow> s < blk_size b \<Longrightarrow>
   block_write b s d = Some (b\<lparr>media := (media b)[unat s := d], write_cnt := write_cnt b + 1\<rparr>)"
  by (auto simp: block_write_def check_sector_def block_ok_def word_less_nat_alt word_le_nat_alt)

lemma block_access_past_end:
  "blk_size b \<le> s \<Longrightarrow> block_read b s = None" "blk_size b \<le> s \<Longrightarrow> block_write b s d = None"
  by (simp_all add: block_read_def block_write_def check_sector_def)

lemma block_ok_update:
  "block_ok b \<Longrightarrow> length d = BLOCK_SECTOR_SIZE \<Longrightarrow>
   block_ok (b\<lparr>media := (media b)[i := d], write_cnt := w\<rparr>)"
  by (auto simp: block_ok_def dest: subsetD [OF set_update_subset_insert])

lemma media_length: "block_ok b \<Longrightarrow> s < blk_size b \<Longrightarrow> length (media b ! unat s) = BLOCK_SECTOR_SIZE"
  by (auto simp: block_ok_def word_less_nat_alt)

end
