(* ===== verification/Buffer_Cache.thy ===== *)
theory Buffer_Cache
  imports Block_Dev
begin

text \<open>
  The buffer cache of \<^verbatim>\<open>filesys/inode.c\<close>: at most 64 sectors in a list, the most recently loaded in
  front, a write-back policy, and eviction of the sector at the back. The model is that of one thread
  between its \<^verbatim>\<open>lock_acquire\<close> and \<^verbatim>\<open>lock_release\<close> of \<^verbatim>\<open>buffer_cache_lock\<close> and the sector lock, so the
  second test of \<^verbatim>\<open>sector_idx\<close> after a hit always succeeds. The field \<open>mem\<close> decides whether the next
  allocations from the kernel heap succeed; once it is empty they all do.

  \<open>view\<close> is what the cache and the disk together hold. The lemmas show that reads return the view, that
  writes update it, and that a flush makes the disk alone agree with it.
\<close>

section \<open>State\<close>

record csector =
  sector_idx :: sector
  dirty :: bool
  cdata :: "byte list"

record cache_state =
  fs_device :: block
  buffer_cache :: "csector list"
  mem :: "bool list"

definition kalloc :: "'a cache_state_scheme \<Rightarrow> bool \<times> 'a cache_state_scheme" where
  "kalloc s = (case mem s of [] \<Rightarrow> (True, s) | b # bs \<Rightarrow> (b, s\<lparr>mem := bs\<rparr>))"

text \<open>An allocation whose result is not tested: the first access through the null pointer faults.\<close>

definition kalloc_unchecked :: "'a cache_state_scheme \<Rightarrow> 'a cache_state_scheme option" where
  "kalloc_unchecked s = (case kalloc s of (ok, s) \<Rightarrow> if ok then Some s else None)"

definition cached :: "'a cache_state_scheme \<Rightarrow> sector \<Rightarrow> csector option" where
  "cached s sec = find (\<lambda>cs. sector_idx cs = sec) (buffer_cache s)"

section \<open>Operations\<close>

definition evict :: "'a cache_state_scheme \<Rightarrow> 'a cache_state_scheme option" where
  "evict s = do {
     let new_cs = last (buffer_cache s);
     let s = s\<lparr>buffer_cache := butlast (buffer_cache s)\<rparr>;
     (if dirty new_cs then do {
        dev \<leftarrow> block_write (fs_device s) (sector_idx new_cs) (cdata new_cs);
        Some (s\<lparr>fs_device := dev\<rparr>) }
      else Some s) }"

definition get_cached_sector :: "sector \<Rightarrow> bool \<Rightarrow> 'a cache_state_scheme \<Rightarrow> 'a cache_state_scheme option" where
  "get_cached_sector sec is_write s =
     (if cached s sec \<noteq> None then Some s
      else do {
        s \<leftarrow> (if length (buffer_cache s) < 64 then kalloc_unchecked s else evict s);
        (dat, s) \<leftarrow>
          (if is_write then Some (replicate BLOCK_SECTOR_SIZE 0, s)
           else do { (d, dev) \<leftarrow> block_read (fs_device s) sec; Some (d, s\<lparr>fs_device := dev\<rparr>) });
        Some (s\<lparr>buffer_cache := \<lparr>sector_idx = sec, dirty = False, cdata = dat\<rparr> # buffer_cache s\<rparr>) })"

fun flush_loop :: "csector list \<Rightarrow> block \<Rightarrow> (csector list \<times> block) option" where
  "flush_loop [] dev = Some ([], dev)"
| "flush_loop (cs # css) dev = do {
     (cs, dev) \<leftarrow> (if dirty cs then do {
                     dev \<leftarrow> block_write dev (sector_idx cs) (cdata cs);
                     Some (cs\<lparr>dirty := False\<rparr>, dev) }
                   else Some (cs, dev));
     (css, dev) \<leftarrow> flush_loop css dev;
     Some (cs # css, dev) }"

text \<open>\<^verbatim>\<open>list_front\<close> fails its assertion on an empty list.\<close>

definition write_all_dirty_sectors :: "'a cache_state_scheme \<Rightarrow> 'a cache_state_scheme option" where
  "write_all_dirty_sectors s = do {
     ASSERT (buffer_cache s \<noteq> []);
     (css, dev) \<leftarrow> flush_loop (buffer_cache s) (fs_device s);
     Some (s\<lparr>buffer_cache := css, fs_device := dev\<rparr>) }"

fun update_sector :: "sector \<Rightarrow> (csector \<Rightarrow> csector) \<Rightarrow> csector list \<Rightarrow> csector list" where
  "update_sector sec f [] = []"
| "update_sector sec f (cs # css) = (if sector_idx cs = sec then f cs # css else cs # update_sector sec f css)"

text \<open>The buffer of the caller is a list of bytes; an access past its end is a fault.\<close>

definition cache_write_with_size_and_offset ::
    "sector \<Rightarrow> byte list \<Rightarrow> nat \<Rightarrow> nat \<Rightarrow> 'a cache_state_scheme \<Rightarrow> 'a cache_state_scheme option" where
  "cache_write_with_size_and_offset sec buffer sz sector_ofs s = do {
     ASSERT (sector_ofs + sz \<le> BLOCK_SECTOR_SIZE);
     s \<leftarrow> get_cached_sector sec True s;
     ASSERT (sz \<le> length buffer);
     Some (s\<lparr>buffer_cache := update_sector sec
       (\<lambda>cs. cs\<lparr>cdata := overwrite (cdata cs) sector_ofs (take sz buffer), dirty := True\<rparr>)
       (buffer_cache s)\<rparr>) }"

definition cache_write :: "sector \<Rightarrow> byte list \<Rightarrow> 'a cache_state_scheme \<Rightarrow> 'a cache_state_scheme option" where
  "cache_write sec buffer s = cache_write_with_size_and_offset sec buffer BLOCK_SECTOR_SIZE 0 s"

definition cache_read_with_size_and_offset ::
    "sector \<Rightarrow> nat \<Rightarrow> nat \<Rightarrow> 'a cache_state_scheme \<Rightarrow> (byte list \<times> 'a cache_state_scheme) option" where
  "cache_read_with_size_and_offset sec sz sector_ofs s = do {
     ASSERT (sector_ofs + sz \<le> BLOCK_SECTOR_SIZE);
     s \<leftarrow> get_cached_sector sec False s;
     cs \<leftarrow> cached s sec;
     Some (slice sector_ofs sz (cdata cs), s) }"

definition cache_read :: "sector \<Rightarrow> 'a cache_state_scheme \<Rightarrow> (byte list \<times> 'a cache_state_scheme) option" where
  "cache_read sec s = cache_read_with_size_and_offset sec BLOCK_SECTOR_SIZE 0 s"

section \<open>Invariant and view\<close>

definition entry_ok :: "block \<Rightarrow> csector \<Rightarrow> bool" where
  "entry_ok dev cs \<longleftrightarrow> length (cdata cs) = BLOCK_SECTOR_SIZE \<and> sector_idx cs < blk_size dev \<and>
                      (\<not> dirty cs \<longrightarrow> cdata cs = media dev ! unat (sector_idx cs))"

text \<open>The cache and the disk are consistent, and no allocation fails: the list of outcomes of the next calls of \<^verbatim>\<open>malloc\<close>
  is empty, after which \<open>kalloc\<close> always succeeds.\<close>

definition cache_ok :: "'a cache_state_scheme \<Rightarrow> bool" where
  "cache_ok s \<longleftrightarrow> block_ok (fs_device s) \<and> distinct (map sector_idx (buffer_cache s)) \<and>
                  length (buffer_cache s) \<le> 64 \<and> (\<forall>cs \<in> set (buffer_cache s). entry_ok (fs_device s) cs) \<and>
                  mem s = []"

fun view_of :: "block \<Rightarrow> csector list \<Rightarrow> sector \<Rightarrow> byte list" where
  "view_of dev [] sec = media dev ! unat sec"
| "view_of dev (cs # css) sec = (if sector_idx cs = sec then cdata cs else view_of dev css sec)"

definition view :: "'a cache_state_scheme \<Rightarrow> sector \<Rightarrow> byte list" where
  "view s = view_of (fs_device s) (buffer_cache s)"

abbreviation on_disk :: "'a cache_state_scheme \<Rightarrow> sector \<Rightarrow> bool" where
  "on_disk s sec \<equiv> sec < blk_size (fs_device s)"

text \<open>What the cache operations leave alone: the size of the device and every other field.\<close>

definition only_cache :: "'a cache_state_scheme \<Rightarrow> 'a cache_state_scheme \<Rightarrow> bool" where
  "only_cache s s' \<longleftrightarrow> blk_size (fs_device s') = blk_size (fs_device s) \<and> more s' = more s"

section \<open>Lookup\<close>

lemma only_cache_refl [simp]: "only_cache s s"
  by (simp add: only_cache_def)

lemma only_cache_trans: "only_cache s s' \<Longrightarrow> only_cache s' s'' \<Longrightarrow> only_cache s s''"
  by (simp add: only_cache_def)

lemma cached_map_of: "cached s sec = map_of (map (\<lambda>cs. (sector_idx cs, cs)) (buffer_cache s)) sec"
proof -
  have "find (\<lambda>cs. sector_idx cs = sec) css = map_of (map (\<lambda>cs. (sector_idx cs, cs)) css) sec" for css
    by (induction css) auto
  then show ?thesis by (simp add: cached_def)
qed

lemma cached_SomeD: "cached s sec = Some cs \<Longrightarrow> cs \<in> set (buffer_cache s) \<and> sector_idx cs = sec"
  by (auto simp: cached_map_of dest: map_of_SomeD)

lemma cached_None: "cached s sec = None \<longleftrightarrow> sec \<notin> sector_idx ` set (buffer_cache s)"
  by (auto simp: cached_map_of map_of_eq_None_iff image_image)

lemma cached_in:
  "cache_ok s \<Longrightarrow> cs \<in> set (buffer_cache s) \<Longrightarrow> cached s (sector_idx cs) = Some cs"
  by (auto simp: cached_map_of cache_ok_def comp_def intro!: map_of_is_SomeI)

lemma length_update_sector [simp]: "length (update_sector sec f css) = length css"
  by (induction css) auto

lemma map_update_sector:
  "(\<And>cs. sector_idx (f cs) = sector_idx cs) \<Longrightarrow>
   map sector_idx (update_sector sec f css) = map sector_idx css"
  by (induction css) auto

lemma set_update_sector:
  "distinct (map sector_idx css) \<Longrightarrow> cs \<in> set (update_sector sec f css) \<Longrightarrow>
   cs \<in> set css \<and> sector_idx cs \<noteq> sec \<or> (\<exists>c \<in> set css. sector_idx c = sec \<and> cs = f c)"
  by (induction css) (auto split: if_splits simp: image_iff)

lemma view_of_update:
  "(\<And>cs. sector_idx (f cs) = sector_idx cs) \<Longrightarrow> sec \<in> sector_idx ` set css \<Longrightarrow>
   (\<And>cs. cs \<in> set css \<Longrightarrow> sector_idx cs = sec \<Longrightarrow> cdata (f cs) = g (cdata cs)) \<Longrightarrow>
   view_of dev (update_sector sec f css) = (view_of dev css)(sec := g (view_of dev css sec))"
  by (induction css) (auto simp: fun_eq_iff)

lemma view_of_absent: "sec \<notin> sector_idx ` set css \<Longrightarrow> view_of dev css sec = media dev ! unat sec"
  by (induction css) auto

lemma view_of_snoc:
  "view_of dev (css @ [v]) sec =
     (if sec \<in> sector_idx ` set css then view_of dev css sec
      else if sector_idx v = sec then cdata v else media dev ! unat sec)"
  by (induction css) auto

lemma view_of_dev:
  "(sec \<notin> sector_idx ` set css \<Longrightarrow> media dev' ! unat sec = media dev ! unat sec) \<Longrightarrow>
   view_of dev' css sec = view_of dev css sec"
  by (induction css) auto

lemma view_of_present:
  "distinct (map sector_idx css) \<Longrightarrow> cs \<in> set css \<Longrightarrow> view_of dev css (sector_idx cs) = cdata cs"
  by (induction css) auto

lemma view_cached: "cached s sec = Some cs \<Longrightarrow> cdata cs = view s sec"
proof -
  have "find (\<lambda>cs. sector_idx cs = sec) css = Some cs \<Longrightarrow> cdata cs = view_of dev css sec" for css dev
    by (induction css) (auto split: if_splits)
  then show "cached s sec = Some cs \<Longrightarrow> ?thesis" by (simp add: cached_def view_def)
qed

lemma view_uncached: "cached s sec = None \<Longrightarrow> view s sec = media (fs_device s) ! unat sec"
  by (simp add: cached_None view_def view_of_absent)

lemma view_length:
  assumes "cache_ok s" "on_disk s sec"
  shows "length (view s sec) = BLOCK_SECTOR_SIZE"
proof (cases "cached s sec")
  case None
  then show ?thesis using assms by (simp add: view_uncached cache_ok_def media_length)
next
  case (Some cs)
  then show ?thesis
    using assms view_cached [OF Some] cached_SomeD [OF Some] by (auto simp: cache_ok_def entry_ok_def)
qed

section \<open>Eviction and loading\<close>

lemma evict_spec:
  assumes ok: "cache_ok s" and ne: "buffer_cache s \<noteq> []"
  shows "\<exists>s'. evict s = Some s' \<and> cache_ok s' \<and> view s' = view s \<and> only_cache s s' \<and>
              buffer_cache s' = butlast (buffer_cache s)"
proof -
  obtain css v where c: "buffer_cache s = css @ [v]" using ne rev_exhaust by blast
  have v: "entry_ok (fs_device s) v" "block_ok (fs_device s)" "sector_idx v \<notin> sector_idx ` set css"
    using ok c by (auto simp: cache_ok_def)
  show ?thesis
  proof (cases "dirty v")
    case False
    let ?s = "s\<lparr>buffer_cache := css\<rparr>"
    have "view ?s = view s"
      using False v by (auto simp: view_def c view_of_snoc view_of_absent entry_ok_def fun_eq_iff)
    then show ?thesis
      using False ok c by (auto simp: evict_def cache_ok_def only_cache_def)
  next
    case True
    let ?dev = "fs_device s\<lparr>media := (media (fs_device s))[unat (sector_idx v) := cdata v],
                          write_cnt := write_cnt (fs_device s) + 1\<rparr>"
    let ?s = "s\<lparr>buffer_cache := css, fs_device := ?dev\<rparr>"
    have e: "evict s = Some ?s"
      using True v c by (simp add: evict_def block_write_ok entry_ok_def)
    have idx: "unat (sector_idx v) < length (media (fs_device s))"
      using v by (auto simp: entry_ok_def block_ok_def word_less_nat_alt)
    have med: "media ?dev ! unat sec = (if sec = sector_idx v then cdata v else media (fs_device s) ! unat sec)" for sec
      using idx by (auto simp: nth_list_update word_unat_eq_iff)
    have "view_of ?dev css sec = view_of (fs_device s) (css @ [v]) sec" for sec
    proof (cases "sec \<in> sector_idx ` set css")
      case True
      then show ?thesis by (induction css) (auto simp: view_of_snoc)
    next
      case False
      then show ?thesis using med by (auto simp: view_of_snoc view_of_absent)
    qed
    then have "view ?s = view s"
      by (simp add: view_def c fun_eq_iff)
    moreover have "entry_ok ?dev cs" if "cs \<in> set css" for cs
    proof -
      have "sector_idx cs \<noteq> sector_idx v" using that v(3) by (metis imageI)
      then show ?thesis
        using that ok c med [of "sector_idx cs"] by (auto simp: cache_ok_def entry_ok_def)
    qed
    moreover have "block_ok ?dev"
      using v by (intro block_ok_update) (auto simp: entry_ok_def)
    ultimately show ?thesis
      using e ok c by (auto simp: cache_ok_def only_cache_def)
  qed
qed

lemma make_room_spec:
  assumes "cache_ok s"
  shows "\<exists>s'. (if length (buffer_cache s) < 64 then kalloc_unchecked s else evict s) = Some s' \<and>
              cache_ok s' \<and> view s' = view s \<and> only_cache s s' \<and> length (buffer_cache s') < 64 \<and>
              set (buffer_cache s') \<subseteq> set (buffer_cache s)"
proof (cases "length (buffer_cache s) < 64")
  case True
  then show ?thesis using assms by (simp add: kalloc_unchecked_def kalloc_def cache_ok_def)
next
  case False
  then have "buffer_cache s \<noteq> []" "length (buffer_cache s) = 64"
    using assms by (auto simp: cache_ok_def)
  then show ?thesis
    using evict_spec [OF assms] by (auto dest: in_set_butlastD)
qed

lemma get_cached_sector_read:
  assumes ok: "cache_ok s" and d: "on_disk s sec"
  shows "\<exists>s' cs. get_cached_sector sec False s = Some s' \<and> cache_ok s' \<and> view s' = view s \<and>
                 only_cache s s' \<and> cached s' sec = Some cs \<and> cdata cs = view s sec"
proof (cases "cached s sec")
  case (Some cs)
  then show ?thesis using ok view_cached [OF Some] by (simp add: get_cached_sector_def)
next
  case None
  obtain s1 where s1: "(if length (buffer_cache s) < 64 then kalloc_unchecked s else evict s) = Some s1"
    "cache_ok s1" "view s1 = view s" "only_cache s s1" "length (buffer_cache s1) < 64"
    "set (buffer_cache s1) \<subseteq> set (buffer_cache s)"
    using make_room_spec [OF ok] by blast
  have miss: "cached s1 sec = None" using None s1(6) by (auto simp: cached_None)
  then have v: "media (fs_device s1) ! unat sec = view s sec"
    using s1(3) view_uncached by metis
  let ?dev = "fs_device s1\<lparr>read_cnt := read_cnt (fs_device s1) + 1\<rparr>"
  let ?cs = "\<lparr>sector_idx = sec, dirty = False, cdata = view s sec\<rparr>"
  let ?s = "s1\<lparr>fs_device := ?dev, buffer_cache := ?cs # buffer_cache s1\<rparr>"
  have d1: "on_disk s1 sec" "block_ok (fs_device s1)"
    using d s1(2,4) by (auto simp: only_cache_def cache_ok_def)
  have "get_cached_sector sec False s = Some ?s"
    using None s1(1) v d1 by (simp add: get_cached_sector_def block_read_ok)
  moreover have "view_of ?dev (buffer_cache s1) = view s1"
    unfolding view_def by (rule ext, rule view_of_dev) simp
  then have "view ?s = view s"
    using s1(3) by (auto simp: view_def fun_eq_iff)
  moreover have "cached ?s sec = Some ?cs"
    by (simp add: cached_def)
  moreover have "cache_ok ?s"
    using s1(2,5) miss d1 v view_length [OF ok d]
    by (auto simp: cache_ok_def cached_None entry_ok_def block_ok_def image_iff)
  ultimately show ?thesis using s1(4) by (auto simp: only_cache_def)
qed

section \<open>Reads and writes\<close>

lemma cache_read_at_spec:
  assumes ok: "cache_ok s" and d: "on_disk s sec" and "ofs + sz \<le> BLOCK_SECTOR_SIZE"
  shows "\<exists>s'. cache_read_with_size_and_offset sec sz ofs s = Some (slice ofs sz (view s sec), s') \<and>
              cache_ok s' \<and> view s' = view s \<and> only_cache s s'"
  using get_cached_sector_read [OF ok d] assms(3) by (auto simp: cache_read_with_size_and_offset_def)

lemma cache_read_spec:
  assumes ok: "cache_ok s" and d: "on_disk s sec"
  shows "\<exists>s'. cache_read sec s = Some (view s sec, s') \<and> cache_ok s' \<and> view s' = view s \<and> only_cache s s'"
  using cache_read_at_spec [OF assms, of 0 BLOCK_SECTOR_SIZE] view_length [OF assms]
  by (simp add: cache_read_def slice_def)

text \<open>The contents a write starts from: those of the cached sector, or zeros if it is not cached.\<close>

definition write_base :: "'a cache_state_scheme \<Rightarrow> sector \<Rightarrow> byte list" where
  "write_base s sec = (if cached s sec = None then replicate BLOCK_SECTOR_SIZE 0 else view s sec)"

lemma cache_write_at_spec:
  assumes ok: "cache_ok s" and d: "on_disk s sec" and "ofs + sz \<le> BLOCK_SECTOR_SIZE" "sz \<le> length buf"
  shows "\<exists>s'. cache_write_with_size_and_offset sec buf sz ofs s = Some s' \<and> cache_ok s' \<and>
              view s' = (view s)(sec := overwrite (write_base s sec) ofs (take sz buf)) \<and> only_cache s s' \<and>
              cached s' sec \<noteq> None"
proof -
  define f where "f cs = cs\<lparr>cdata := overwrite (cdata cs) ofs (take sz buf), dirty := True\<rparr>" for cs :: csector
  have f: "sector_idx (f cs) = sector_idx cs" "cdata (f cs) = overwrite (cdata cs) ofs (take sz buf)"
    "dirty (f cs)" for cs by (simp_all add: f_def)
  have "\<exists>s1. get_cached_sector sec True s = Some s1 \<and> only_cache s s1 \<and> block_ok (fs_device s1) \<and>
      distinct (map sector_idx (buffer_cache s1)) \<and> length (buffer_cache s1) \<le> 64 \<and> mem s1 = [] \<and>
      sec \<in> sector_idx ` set (buffer_cache s1) \<and>
      (\<forall>cs \<in> set (buffer_cache s1). length (cdata cs) = BLOCK_SECTOR_SIZE \<and> on_disk s1 (sector_idx cs) \<and>
          (sector_idx cs \<noteq> sec \<longrightarrow> entry_ok (fs_device s1) cs)) \<and>
      view s1 = (view s)(sec := write_base s sec)"
  proof (cases "cached s sec")
    case (Some cs)
    then have "sec \<in> sector_idx ` set (buffer_cache s)" by (auto dest!: cached_SomeD)
    with Some ok show ?thesis
      by (auto simp: get_cached_sector_def cache_ok_def entry_ok_def write_base_def)
  next
    case None
    obtain s1 where s1: "(if length (buffer_cache s) < 64 then kalloc_unchecked s else evict s) = Some s1"
      "cache_ok s1" "view s1 = view s" "only_cache s s1" "length (buffer_cache s1) < 64"
      "set (buffer_cache s1) \<subseteq> set (buffer_cache s)"
      using make_room_spec [OF ok] by blast
    let ?cs = "\<lparr>sector_idx = sec, dirty = False, cdata = replicate BLOCK_SECTOR_SIZE 0\<rparr>"
    let ?s = "s1\<lparr>buffer_cache := ?cs # buffer_cache s1\<rparr>"
    have "sec \<notin> sector_idx ` set (buffer_cache s1)" using None s1(6) by (auto simp: cached_None)
    moreover have "view ?s = (view s)(sec := write_base s sec)"
      using None s1(3) by (auto simp: view_def write_base_def fun_eq_iff)
    ultimately show ?thesis
      using None s1 d by (auto simp: get_cached_sector_def only_cache_def cache_ok_def entry_ok_def)
  qed
  then obtain s1 where s1: "get_cached_sector sec True s = Some s1" "only_cache s s1" "block_ok (fs_device s1)"
      "distinct (map sector_idx (buffer_cache s1))" "length (buffer_cache s1) \<le> 64" "mem s1 = []"
      "sec \<in> sector_idx ` set (buffer_cache s1)"
      "\<And>cs. cs \<in> set (buffer_cache s1) \<Longrightarrow> length (cdata cs) = BLOCK_SECTOR_SIZE \<and> on_disk s1 (sector_idx cs) \<and>
          (sector_idx cs \<noteq> sec \<longrightarrow> entry_ok (fs_device s1) cs)"
      "view s1 = (view s)(sec := write_base s sec)" by blast
  let ?s = "s1\<lparr>buffer_cache := update_sector sec f (buffer_cache s1)\<rparr>"
  have "cache_write_with_size_and_offset sec buf sz ofs s = Some ?s"
    using s1(1) assms(3,4) by (simp add: cache_write_with_size_and_offset_def f_def [abs_def])
  moreover have "view ?s = (view s)(sec := overwrite (write_base s sec) ofs (take sz buf))"
    using view_of_update [of f sec "buffer_cache s1" "\<lambda>d. overwrite d ofs (take sz buf)" "fs_device s1"] f s1(7,9)
    by (simp add: view_def)
  moreover have "entry_ok (fs_device s1) cs" if "cs \<in> set (update_sector sec f (buffer_cache s1))" for cs
    using set_update_sector [OF s1(4) that] s1(8) assms(3,4) by (auto simp: entry_ok_def f)
  then have "cache_ok ?s"
    using s1 map_update_sector [of f sec "buffer_cache s1", OF f(1)] by (simp add: cache_ok_def)
  moreover have "cached ?s sec \<noteq> None"
    using s1(7) map_update_sector [of f sec "buffer_cache s1", OF f(1)]
    by (metis cached_None cache_state.select_convs(2) cache_state.surjective cache_state.update_convs(2) set_map)
  ultimately show ?thesis using s1(2) by (auto simp: only_cache_def)
qed

lemma cache_write_spec:
  assumes "cache_ok s" "on_disk s sec" "length buf = BLOCK_SECTOR_SIZE"
  shows "\<exists>s'. cache_write sec buf s = Some s' \<and> cache_ok s' \<and> view s' = (view s)(sec := buf) \<and> only_cache s s'"
proof -
  have "overwrite (write_base s sec) 0 buf = buf"
    using assms view_length [OF assms(1,2)] by (simp add: write_base_def overwrite_def)
  with cache_write_at_spec [OF assms(1,2), of 0 BLOCK_SECTOR_SIZE buf] assms(3) show ?thesis
    by (auto simp: cache_write_def)
qed

section \<open>Flushing\<close>

lemma flush_loop_spec:
  "block_ok dev \<Longrightarrow> distinct (map sector_idx css) \<Longrightarrow> \<forall>cs \<in> set css. entry_ok dev cs \<Longrightarrow>
   \<exists>css' dev'. flush_loop css dev = Some (css', dev') \<and> block_ok dev' \<and> blk_size dev' = blk_size dev \<and>
     css' = map (\<lambda>cs. cs\<lparr>dirty := False\<rparr>) css \<and>
     (\<forall>sec. media dev' ! unat sec = view_of dev css sec)"
proof (induction css arbitrary: dev)
  case (Cons cs css)
  have cs: "entry_ok dev cs" "sector_idx cs \<notin> sector_idx ` set css"
    using Cons.prems by auto
  define dev1 where "dev1 = (if dirty cs then dev\<lparr>media := (media dev)[unat (sector_idx cs) := cdata cs],
      write_cnt := write_cnt dev + 1\<rparr> else dev)"
  have idx: "unat (sector_idx cs) < length (media dev)"
    using cs(1) Cons.prems(1) by (auto simp: entry_ok_def block_ok_def word_less_nat_alt)
  have med: "media dev1 ! unat sec = (if sec = sector_idx cs then cdata cs else media dev ! unat sec)" for sec
    using idx cs(1) by (auto simp: dev1_def entry_ok_def nth_list_update word_unat_eq_iff)
  have ok: "block_ok dev1" "blk_size dev1 = blk_size dev"
    using Cons.prems(1) cs(1) by (auto simp: dev1_def entry_ok_def block_ok_update)
  have "entry_ok dev1 c" if "c \<in> set css" for c
  proof -
    have "sector_idx c \<noteq> sector_idx cs" using that cs(2) by (metis imageI)
    then show ?thesis
      using that Cons.prems(3) med [of "sector_idx c"] ok(2) by (auto simp: entry_ok_def)
  qed
  then obtain css' dev' where IH: "flush_loop css dev1 = Some (css', dev')" "block_ok dev'"
    "blk_size dev' = blk_size dev1" "css' = map (\<lambda>cs. cs\<lparr>dirty := False\<rparr>) css"
    "\<forall>sec. media dev' ! unat sec = view_of dev1 css sec"
    using Cons.IH [OF ok(1)] Cons.prems(2) by auto
  have "flush_loop (cs # css) dev = Some (cs\<lparr>dirty := False\<rparr> # css', dev')"
    using IH(1) Cons.prems(1) cs(1) by (auto simp: dev1_def entry_ok_def block_write_ok)
  moreover have "view_of dev1 css sec = view_of dev (cs # css) sec" for sec
    using med [of sec] cs(2) view_of_dev [of sec css dev1 dev]
    by (cases "sector_idx cs = sec") (auto simp: view_of_absent)
  ultimately show ?case
    using IH ok(2) by simp
qed simp

lemma write_all_dirty_sectors_spec:
  assumes ok: "cache_ok s" and "buffer_cache s \<noteq> []"
  shows "\<exists>s'. write_all_dirty_sectors s = Some s' \<and> cache_ok s' \<and> view s' = view s \<and> only_cache s s' \<and>
              (\<forall>cs \<in> set (buffer_cache s'). \<not> dirty cs) \<and>
              (\<forall>sec. media (fs_device s') ! unat sec = view s sec)"
proof -
  let ?css = "map (\<lambda>cs. cs\<lparr>dirty := False\<rparr>) (buffer_cache s)"
  obtain dev' where f: "flush_loop (buffer_cache s) (fs_device s) = Some (?css, dev')" "block_ok dev'"
    "blk_size dev' = blk_size (fs_device s)" "\<And>sec. media dev' ! unat sec = view s sec"
    using flush_loop_spec [of "fs_device s" "buffer_cache s"] ok by (auto simp: cache_ok_def view_def)
  let ?s = "s\<lparr>buffer_cache := ?css, fs_device := dev'\<rparr>"
  have c: "view s (sector_idx cs) = cdata cs" if "cs \<in> set (buffer_cache s)" for cs
    using ok that by (auto simp: cache_ok_def view_def view_of_present)
  have "view_of dev' (map (\<lambda>cs. cs\<lparr>dirty := False\<rparr>) css) sec = view s sec"
    if "set css \<subseteq> set (buffer_cache s)" for css sec
    using that by (induction css) (auto simp: f(4) c)
  then have "view ?s = view s" by (auto simp: view_def [of ?s])
  moreover have "cache_ok ?s"
    using ok f(2-4) c by (auto simp: cache_ok_def entry_ok_def comp_def)
  ultimately show ?thesis
    using f assms(2) by (auto simp: write_all_dirty_sectors_def only_cache_def)
qed

section \<open>The contract of a sector store\<close>

text \<open>What the file system expects below it: whole sectors are read and written, a read returns what
  the last write to the sector stored. \<open>run_ops\<close> is a sequence of accesses through the interface,
  \<open>run_spec\<close> the same on the function that gives the contents of every sector.\<close>

datatype sector_op = Rd sector | Wr sector "byte list"

fun op_sector :: "sector_op \<Rightarrow> sector" where
  "op_sector (Rd sec) = sec"
| "op_sector (Wr sec d) = sec"

fun op_ok :: "(sector \<Rightarrow> bool) \<Rightarrow> sector_op \<Rightarrow> bool" where
  "op_ok valid (Rd sec) \<longleftrightarrow> valid sec"
| "op_ok valid (Wr sec d) \<longleftrightarrow> valid sec \<and> length d = BLOCK_SECTOR_SIZE"

fun run_ops :: "(sector \<Rightarrow> 's \<Rightarrow> (byte list \<times> 's) option) \<Rightarrow> (sector \<Rightarrow> byte list \<Rightarrow> 's \<Rightarrow> 's option) \<Rightarrow>
    sector_op list \<Rightarrow> 's \<Rightarrow> (byte list list \<times> 's) option" where
  "run_ops rd wr [] s = Some ([], s)"
| "run_ops rd wr (Rd sec # ops) s = do {
     (d, s) \<leftarrow> rd sec s; (ds, s) \<leftarrow> run_ops rd wr ops s; Some (d # ds, s) }"
| "run_ops rd wr (Wr sec d # ops) s = do { s \<leftarrow> wr sec d s; run_ops rd wr ops s }"

fun run_spec :: "sector_op list \<Rightarrow> (sector \<Rightarrow> byte list) \<Rightarrow> byte list list \<times> (sector \<Rightarrow> byte list)" where
  "run_spec [] v = ([], v)"
| "run_spec (Rd sec # ops) v = (case run_spec ops v of (ds, v') \<Rightarrow> (v sec # ds, v'))"
| "run_spec (Wr sec d # ops) v = run_spec ops (v(sec := d))"

locale sector_store =
  fixes ok :: "'s \<Rightarrow> bool" and valid :: "'s \<Rightarrow> sector \<Rightarrow> bool" and contents :: "'s \<Rightarrow> sector \<Rightarrow> byte list"
    and rd :: "sector \<Rightarrow> 's \<Rightarrow> (byte list \<times> 's) option" and wr :: "sector \<Rightarrow> byte list \<Rightarrow> 's \<Rightarrow> 's option"
  assumes rd_law: "ok s \<Longrightarrow> valid s sec \<Longrightarrow>
      \<exists>s'. rd sec s = Some (contents s sec, s') \<and> ok s' \<and> contents s' = contents s \<and> valid s' = valid s"
    and wr_law: "ok s \<Longrightarrow> valid s sec \<Longrightarrow> length d = BLOCK_SECTOR_SIZE \<Longrightarrow>
      \<exists>s'. wr sec d s = Some s' \<and> ok s' \<and> contents s' = (contents s)(sec := d) \<and> valid s' = valid s"
begin

lemma run_ops_spec:
  "ok s \<Longrightarrow> \<forall>op \<in> set ops. op_ok (valid s) op \<Longrightarrow>
   \<exists>s'. run_ops rd wr ops s = Some (fst (run_spec ops (contents s)), s') \<and> ok s' \<and>
        contents s' = snd (run_spec ops (contents s))"
proof (induction ops arbitrary: s)
  case (Cons op ops)
  show ?case
  proof (cases op)
    case (Rd sec)
    obtain s1 where s1: "rd sec s = Some (contents s sec, s1)" "ok s1" "contents s1 = contents s"
      "valid s1 = valid s"
      using rd_law [of s sec] Cons.prems Rd by auto
    then show ?thesis
      using Cons.IH [of s1] Cons.prems Rd by (auto simp: case_prod_beta)
  next
    case (Wr sec d)
    obtain s1 where s1: "wr sec d s = Some s1" "ok s1" "contents s1 = (contents s)(sec := d)"
      "valid s1 = valid s"
      using wr_law [of s sec d] Cons.prems Wr by auto
    then show ?thesis
      using Cons.IH [of s1] Cons.prems Wr by (auto simp del: fun_upd_apply)
  qed
qed simp

end

interpretation cached_disk: sector_store cache_ok on_disk view cache_read cache_write
proof
  fix s :: "'a cache_state_scheme" and sec
  assume "cache_ok s" "on_disk s sec"
  then show "\<exists>s'. cache_read sec s = Some (view s sec, s') \<and> cache_ok s' \<and> view s' = view s \<and>
      on_disk s' = on_disk s"
    using cache_read_spec [of s sec] by (auto simp: only_cache_def)
next
  fix s :: "'a cache_state_scheme" and sec and d :: "byte list"
  assume "cache_ok s" "on_disk s sec" "length d = BLOCK_SECTOR_SIZE"
  then show "\<exists>s'. cache_write sec d s = Some s' \<and> cache_ok s' \<and> view s' = (view s)(sec := d) \<and>
      on_disk s' = on_disk s"
    using cache_write_spec [of s sec d] by (auto simp: only_cache_def)
qed

text \<open>The bare device satisfies the same contract.\<close>

definition dev_read :: "sector \<Rightarrow> block \<Rightarrow> (byte list \<times> block) option" where
  "dev_read sec b = block_read b sec"

definition dev_write :: "sector \<Rightarrow> byte list \<Rightarrow> block \<Rightarrow> block option" where
  "dev_write sec d b = block_write b sec d"

definition dev_contents :: "block \<Rightarrow> sector \<Rightarrow> byte list" where
  "dev_contents b sec = media b ! unat sec"

interpretation bare_disk: sector_store block_ok "\<lambda>b sec. sec < blk_size b" dev_contents dev_read dev_write
proof
  fix b :: block and sec
  assume "block_ok b" "sec < blk_size b"
  then show "\<exists>b'. dev_read sec b = Some (dev_contents b sec, b') \<and> block_ok b' \<and>
      dev_contents b' = dev_contents b \<and> (\<lambda>sec. sec < blk_size b') = (\<lambda>sec. sec < blk_size b)"
    by (simp add: dev_read_def block_read_ok dev_contents_def [abs_def] block_ok_def)
next
  fix b :: block and sec and d :: "byte list"
  assume b: "block_ok b" "sec < blk_size b" "length d = BLOCK_SECTOR_SIZE"
  have "(media b)[unat sec := d] ! unat x = (if x = sec then d else media b ! unat x)" for x
    using b(1,2) by (auto simp: block_ok_def word_less_nat_alt nth_list_update word_unat_eq_iff)
  then show "\<exists>b'. dev_write sec d b = Some b' \<and> block_ok b' \<and>
      dev_contents b' = (dev_contents b)(sec := d) \<and> (\<lambda>sec. sec < blk_size b') = (\<lambda>sec. sec < blk_size b)"
    using b block_ok_update [OF b(1,3)]
    by (auto simp: dev_write_def block_write_ok dev_contents_def [abs_def] fun_eq_iff)
qed

section \<open>Properties\<close>

text \<open>C18: The buffer cache is transparent. Any sequence of whole-sector reads and writes through a consistent cache that gets the
  memory it asks for, evictions and write-backs included, returns exactly the data that the same sequence returns
  on the bare device holding the same contents, and leaves the same contents behind.\<close>
theorem cache_transparent:
  assumes "cache_ok s" "block_ok b" "blk_size b = blk_size (fs_device s)" "dev_contents b = view s"
    and "\<forall>op \<in> set ops. op_ok (on_disk s) op"
  shows "\<exists>out s' b'. run_ops cache_read cache_write ops s = Some (out, s') \<and>
           run_ops dev_read dev_write ops b = Some (out, b') \<and> view s' = dev_contents b' \<and> cache_ok s'"
proof -
  have "\<forall>op \<in> set ops. op_ok (\<lambda>sec. sec < blk_size b) op"
    using assms(3,5) by simp
  from bare_disk.run_ops_spec [OF assms(2) this] cached_disk.run_ops_spec [OF assms(1,5)] show ?thesis
    using assms(4) by auto
qed

definition demo_dev :: block where
  "demo_dev = \<lparr>blk_name = [], blk_type = BLOCK_FILESYS, blk_size = 3, media = replicate 3 (replicate 512 7),
               read_cnt = 0, write_cnt = 0\<rparr>"

definition demo_cache :: cache_state where
  "demo_cache = \<lparr>fs_device = demo_dev, buffer_cache = [], mem = []\<rparr>"

lemma demo_cache_ok: "cache_ok demo_cache" "block_ok demo_dev" "view demo_cache = dev_contents demo_dev"
  by (simp_all add: cache_ok_def block_ok_def demo_cache_def demo_dev_def BLOCK_SECTOR_SIZE_def
      view_def dev_contents_def [abs_def] fun_eq_iff)

theorem cache_transparent_witness:
  "\<exists>out s' b'. run_ops cache_read cache_write [Wr 1 (replicate 512 5), Rd 1, Rd 2] demo_cache = Some (out, s') \<and>
     run_ops dev_read dev_write [Wr 1 (replicate 512 5), Rd 1, Rd 2] demo_dev = Some (out, b') \<and>
     view s' = dev_contents b' \<and> cache_ok s'"
  by (rule cache_transparent [OF demo_cache_ok(1,2)])
     (simp_all add: demo_cache_ok, simp_all add: demo_cache_def demo_dev_def BLOCK_SECTOR_SIZE_def)

text \<open>C27: Writing all dirty sectors makes the disk durable: on a cache that is not empty
  \<^verbatim>\<open>write_all_dirty_sectors\<close> succeeds, afterwards no cached sector is dirty, and the disk by itself
  holds for every sector what cache and disk together held before.\<close>
theorem flush_makes_durable:
  assumes "cache_ok s" "buffer_cache s \<noteq> []"
  shows "\<exists>s'. write_all_dirty_sectors s = Some s' \<and> cache_ok s' \<and>
              (\<forall>cs \<in> set (buffer_cache s'). \<not> dirty cs) \<and> view s' = view s \<and>
              dev_contents (fs_device s') = view s"
  using write_all_dirty_sectors_spec [OF assms] by (auto simp: dev_contents_def [abs_def])

definition demo_dirty :: cache_state where
  "demo_dirty = demo_cache\<lparr>buffer_cache := [\<lparr>sector_idx = 2, dirty = True, cdata = replicate 512 9\<rparr>]\<rparr>"

lemma demo_dirty_ok: "cache_ok demo_dirty" "buffer_cache demo_dirty \<noteq> []"
  using demo_cache_ok(1)
  by (simp_all add: cache_ok_def demo_dirty_def entry_ok_def BLOCK_SECTOR_SIZE_def)
     (simp_all add: demo_cache_def demo_dev_def)

theorem flush_makes_durable_witness:
  "\<exists>s'. write_all_dirty_sectors demo_dirty = Some s' \<and> cache_ok s' \<and>
        (\<forall>cs \<in> set (buffer_cache s'). \<not> dirty cs) \<and> view s' = view demo_dirty \<and>
        dev_contents (fs_device s') = view demo_dirty"
  by (rule flush_makes_durable [OF demo_dirty_ok])

text \<open>C40: A partial write to a sector that is not in the cache destroys the rest of the sector: the
  cache does not read the sector from disk first, so the bytes outside the written range become zero
  whatever the disk holds there.\<close>
theorem partial_write_loses_uncached_data:
  assumes "cache_ok s" "on_disk s sec" "cached s sec = None" "ofs + sz \<le> BLOCK_SECTOR_SIZE" "length buf = sz"
  shows "\<exists>s'. cache_write_with_size_and_offset sec buf sz ofs s = Some s' \<and>
              view s' sec = overwrite (replicate BLOCK_SECTOR_SIZE 0) ofs buf"
  using cache_write_at_spec [OF assms(1,2,4), of buf] assms(3,5) by (auto simp: write_base_def)

theorem partial_write_loses_uncached_data_witness:
  "\<exists>s'. cache_write_with_size_and_offset 1 [1] 1 0 demo_cache = Some s' \<and>
        view s' 1 = overwrite (replicate BLOCK_SECTOR_SIZE 0) 0 [1]"
  by (rule partial_write_loses_uncached_data [OF demo_cache_ok(1)])
     (simp_all add: demo_cache_def demo_dev_def cached_def BLOCK_SECTOR_SIZE_def)

end
