(* ===== verification/FS_State.thy ===== *)
theory FS_State
  imports Buffer_Cache Bitmap
begin

text \<open>
  The state of the file system above the buffer cache, and the locking of inodes as one thread sees it.
  In-memory inodes and open files live in heaps indexed by their address; a lock is a flag that says
  that the running thread holds it. A thread that waits for a condition that nobody will signal never
  returns (\<^term>\<open>None\<close>).
\<close>

section \<open>Inodes, files and the file system\<close>

record inode =
  isector :: sector
  open_cnt :: int
  removed :: bool
  deny_write_cnt :: int
  active_writers :: nat
  active_readers :: nat
  waiting_writers :: nat
  waiting_readers :: nat

record ofile =
  finode :: nat
  fpos :: u32
  deny_write :: bool

record fs = cache_state +
  inodes :: "nat \<Rightarrow> inode option"
  next_inode :: nat
  open_inodes :: "nat list"
  open_inodes_lock :: bool
  files :: "nat \<Rightarrow> ofile option"
  next_file :: nat
  free_map :: bitmap
  free_map_file :: "nat option"
  free_map_lock :: bool

definition FREE_MAP_SECTOR :: sector where
  "FREE_MAP_SECTOR = 0"

definition ROOT_DIR_SECTOR :: sector where
  "ROOT_DIR_SECTOR = 1"

definition upd_inode :: "nat \<Rightarrow> (inode \<Rightarrow> inode) \<Rightarrow> fs \<Rightarrow> fs option" where
  "upd_inode ip f s = do { i \<leftarrow> inodes s ip; Some (s\<lparr>inodes := (inodes s)(ip \<mapsto> f i)\<rparr>) }"

section \<open>Readers and writers of an inode\<close>

definition reader_checkin :: "nat \<Rightarrow> fs \<Rightarrow> fs option" where
  "reader_checkin ip s = do {
     i \<leftarrow> inodes s ip;
     ASSERT (\<not> active_writers i + waiting_writers i > 0);
     upd_inode ip (\<lambda>i. i\<lparr>active_readers := active_readers i + 1\<rparr>) s }"

definition reader_checkout :: "nat \<Rightarrow> fs \<Rightarrow> fs option" where
  "reader_checkout ip s = upd_inode ip (\<lambda>i. i\<lparr>active_readers := active_readers i - 1\<rparr>) s"

definition writer_checkin :: "nat \<Rightarrow> fs \<Rightarrow> fs option" where
  "writer_checkin ip s = do {
     i \<leftarrow> inodes s ip;
     ASSERT (\<not> active_writers i + active_readers i > 0);
     upd_inode ip (\<lambda>i. i\<lparr>active_writers := active_writers i + 1\<rparr>) s }"

definition writer_checkout :: "nat \<Rightarrow> fs \<Rightarrow> fs option" where
  "writer_checkout ip s = upd_inode ip (\<lambda>i. i\<lparr>active_writers := active_writers i - 1\<rparr>) s"

text \<open>An inode that no thread is using.\<close>

definition quiet :: "inode \<Rightarrow> bool" where
  "quiet i \<longleftrightarrow> active_writers i = 0 \<and> active_readers i = 0 \<and> waiting_writers i = 0 \<and> waiting_readers i = 0"

lemma reader_checkin_quiet:
  "inodes s ip = Some i \<Longrightarrow> quiet i \<Longrightarrow>
   reader_checkin ip s = Some (s\<lparr>inodes := (inodes s)(ip \<mapsto> i\<lparr>active_readers := 1\<rparr>)\<rparr>)"
  by (simp add: reader_checkin_def upd_inode_def quiet_def)

lemma writer_checkin_quiet:
  "inodes s ip = Some i \<Longrightarrow> quiet i \<Longrightarrow>
   writer_checkin ip s = Some (s\<lparr>inodes := (inodes s)(ip \<mapsto> i\<lparr>active_writers := 1\<rparr>)\<rparr>)"
  by (simp add: writer_checkin_def upd_inode_def quiet_def)

section \<open>The file system state seen through the cache\<close>

text \<open>A step that works only on the cache leaves the fields of the file system alone.\<close>

definition fs_rest :: "fs \<Rightarrow> (nat \<Rightarrow> inode option) \<times> nat \<times> nat list \<times> bool \<times> (nat \<Rightarrow> ofile option) \<times> nat \<times> bitmap \<times> nat option \<times> bool" where
  "fs_rest s = (inodes s, next_inode s, open_inodes s, open_inodes_lock s, files s, next_file s, free_map s,
                free_map_file s, free_map_lock s)"

lemma only_cache_iff:
  "only_cache s s' \<longleftrightarrow> blk_size (fs_device s') = blk_size (fs_device s) \<and> fs_rest s' = fs_rest s"
  by (cases s; cases s') (auto simp: only_cache_def fs_rest_def)

lemma only_cache_rest: "only_cache s s' \<Longrightarrow> fs_rest s' = fs_rest s"
  by (simp add: only_cache_iff)

lemma fs_rest_eq:
  "fs_rest s' = fs_rest s \<longleftrightarrow> inodes s' = inodes s \<and> next_inode s' = next_inode s \<and> open_inodes s' = open_inodes s \<and>
     open_inodes_lock s' = open_inodes_lock s \<and> files s' = files s \<and> next_file s' = next_file s \<and>
     free_map s' = free_map s \<and> free_map_file s' = free_map_file s \<and> free_map_lock s' = free_map_lock s"
  by (auto simp: fs_rest_def)

lemma view_rest [simp]:
  "view (s\<lparr>inodes := a\<rparr>) = view s" "view (s\<lparr>free_map := b\<rparr>) = view s" "view (s\<lparr>free_map_lock := c\<rparr>) = view s"
  "view (s\<lparr>open_inodes := d\<rparr>) = view s" "view (s\<lparr>files := e\<rparr>) = view s"
  "view (s\<lparr>open_inodes_lock := c\<rparr>) = view s" "view (s\<lparr>next_inode := n\<rparr>) = view s"
  "view (s\<lparr>next_file := n\<rparr>) = view s" "view (s\<lparr>free_map_file := ff\<rparr>) = view s"
  by (simp_all add: view_def)

lemma cache_ok_rest [simp]:
  "cache_ok (s\<lparr>inodes := a\<rparr>) = cache_ok s" "cache_ok (s\<lparr>free_map := b\<rparr>) = cache_ok s"
  "cache_ok (s\<lparr>free_map_lock := c\<rparr>) = cache_ok s"
  "cache_ok (s\<lparr>open_inodes := d\<rparr>) = cache_ok s" "cache_ok (s\<lparr>files := e\<rparr>) = cache_ok s"
  "cache_ok (s\<lparr>open_inodes_lock := c\<rparr>) = cache_ok s" "cache_ok (s\<lparr>next_inode := n\<rparr>) = cache_ok s"
  "cache_ok (s\<lparr>next_file := n\<rparr>) = cache_ok s" "cache_ok (s\<lparr>free_map_file := ff\<rparr>) = cache_ok s"
  by (simp_all add: cache_ok_def)

lemma cached_rest [simp]:
  "cached (s\<lparr>inodes := a\<rparr>) = cached s" "cached (s\<lparr>free_map := b\<rparr>) = cached s"
  "cached (s\<lparr>free_map_lock := c\<rparr>) = cached s"
  by (simp_all add: cached_def fun_eq_iff)

end
