(* ===== verification/Inode.thy ===== *)
theory Inode
  imports FS_State "HOL-Library.Signed_Division"
begin

text \<open>
  \<^verbatim>\<open>filesys/inode.c\<close> above the cache, with the two functions of \<^verbatim>\<open>filesys/free-map.c\<close> that it calls: the
  on-disk inode and its two levels of pointer sectors, growing and shrinking a file, reading and
  writing at an offset, and the table of open inodes. Writing a file may allocate sectors, which
  writes the free map, which is a file again; the functions below the write take the write routine as
  the argument \<open>wr\<close>, and \<open>inode_write_at\<close> ties the knot with a bound on the depth of that recursion.
  Sizes and offsets are 32-bit words, compared signed or unsigned as C does.
\<close>

section \<open>On-disk inode and pointer sectors\<close>

definition INODE_MAGIC :: u32 where
  "INODE_MAGIC = 0x494e4f44"

definition NUM_POINTERS :: nat where
  "NUM_POINTERS = 128"

text \<open>The first word holds \<^verbatim>\<open>isdir\<close> in its low byte, followed by padding.\<close>

record inode_disk =
  isdir_word :: u32
  indirect_ptr_idx :: sector
  ilength :: u32
  magic :: u32
  unused :: "u32 list"

definition empty_inode_disk :: inode_disk where
  "empty_inode_disk = \<lparr>isdir_word = 0, indirect_ptr_idx = 0, ilength = 0, magic = 0, unused = replicate 124 0\<rparr>"

definition enc_inode :: "inode_disk \<Rightarrow> byte list" where
  "enc_inode d = words_to_bytes ([isdir_word d, indirect_ptr_idx d, ilength d, magic d] @ unused d)"

definition dec_inode :: "byte list \<Rightarrow> inode_disk" where
  "dec_inode bs =
     (let ws = bytes_to_words bs in
      \<lparr>isdir_word = ws ! 0, indirect_ptr_idx = ws ! 1, ilength = ws ! 2, magic = ws ! 3, unused = drop 4 ws\<rparr>)"

definition isdir :: "inode_disk \<Rightarrow> bool" where
  "isdir d \<longleftrightarrow> (ucast (isdir_word d) :: byte) \<noteq> 0"

definition set_isdir :: "inode_disk \<Rightarrow> inode_disk" where
  "set_isdir d = d\<lparr>isdir_word := (isdir_word d AND NOT 0xff) OR 1\<rparr>"

definition bytes_to_sectors :: "nat \<Rightarrow> nat" where
  "bytes_to_sectors n = DIV_ROUND_UP n BLOCK_SECTOR_SIZE"

definition arr_geti :: "'a list \<Rightarrow> int \<Rightarrow> 'a option" where
  "arr_geti xs i = (if 0 \<le> i then arr_get xs (nat i) else None)"

section \<open>Free map\<close>

type_synonym writer = "nat \<Rightarrow> byte list \<Rightarrow> u32 \<Rightarrow> u32 \<Rightarrow> fs \<Rightarrow> (u32 \<times> fs) option"

definition bitmap_write :: "writer \<Rightarrow> bitmap \<Rightarrow> nat option \<Rightarrow> fs \<Rightarrow> (bool \<times> fs) option" where
  "bitmap_write wr b fp s = do {
     p \<leftarrow> fp;
     f \<leftarrow> files s p;
     let sz = of_nat (byte_cnt (bit_cnt b));
     (n, s) \<leftarrow> wr (finode f) (bitmap_bytes b) sz 0 s;
     Some (n = sz, s) }"

definition free_map_allocate :: "writer \<Rightarrow> nat \<Rightarrow> fs \<Rightarrow> (sector option \<times> fs) option" where
  "free_map_allocate wr cnt s = do {
     let release_lock = (\<not> free_map_lock s);
     let s = s\<lparr>free_map_lock := True\<rparr>;
     (sec, b) \<leftarrow> bitmap_scan_and_flip (free_map s) 0 cnt False;
     let s = s\<lparr>free_map := b\<rparr>;
     (sec, s) \<leftarrow>
       (if sec \<noteq> BITMAP_ERROR \<and> free_map_file s \<noteq> None then do {
          (success, s) \<leftarrow> bitmap_write wr (free_map s) (free_map_file s) s;
          (if \<not> success then do {
             b \<leftarrow> bitmap_set_multiple (free_map s) sec cnt False;
             Some (BITMAP_ERROR, s\<lparr>free_map := b\<rparr>) }
           else Some (sec, s)) }
        else Some (sec, s));
     Some (if sec \<noteq> BITMAP_ERROR then Some (of_nat sec) else None,
           if release_lock then s\<lparr>free_map_lock := False\<rparr> else s) }"

definition free_map_release :: "writer \<Rightarrow> sector \<Rightarrow> nat \<Rightarrow> fs \<Rightarrow> fs option" where
  "free_map_release wr sec cnt s = do {
     ASSERT (\<not> free_map_lock s);
     let s = s\<lparr>free_map_lock := True\<rparr>;
     a \<leftarrow> bitmap_all (free_map s) (unat sec) cnt;
     ASSERT a;
     b \<leftarrow> bitmap_set_multiple (free_map s) (unat sec) cnt False;
     let s = s\<lparr>free_map := b\<rparr>;
     (_, s) \<leftarrow> bitmap_write wr (free_map s) (free_map_file s) s;
     Some (s\<lparr>free_map_lock := False\<rparr>) }"

section \<open>Finding the sector of a byte\<close>

text \<open>A buffer from \<^verbatim>\<open>calloc\<close>, filled with the on-disk inode.\<close>

definition read_inode_disk :: "sector \<Rightarrow> fs \<Rightarrow> (inode_disk \<times> fs) option" where
  "read_inode_disk sec s = do {
     s \<leftarrow> kalloc_unchecked s;
     (bs, s) \<leftarrow> cache_read sec s;
     Some (dec_inode bs, s) }"

definition byte_to_sector :: "nat \<Rightarrow> u32 \<Rightarrow> fs \<Rightarrow> (sector \<times> fs) option" where
  "byte_to_sector ip pos s = do {
     i \<leftarrow> inodes s ip;
     (disk_inode, s) \<leftarrow> read_inode_disk (isector i) s;
     (if pos <s ilength disk_inode then do {
        s \<leftarrow> kalloc_unchecked s;
        s \<leftarrow> kalloc_unchecked s;
        let level1_position = (sint pos sdiv 512) sdiv 128;
        let level2_position = (sint pos sdiv 512) smod 128;
        (doubly_indirect, s) \<leftarrow> cache_read (indirect_ptr_idx disk_inode) s;
        p \<leftarrow> arr_geti (bytes_to_words doubly_indirect) level1_position;
        (indirect, s) \<leftarrow> cache_read p s;
        r \<leftarrow> arr_geti (bytes_to_words indirect) level2_position;
        Some (r, s) }
      else Some (- 1, s)) }"

definition inode_length :: "nat \<Rightarrow> fs \<Rightarrow> (u32 \<times> fs) option" where
  "inode_length ip s = do {
     i \<leftarrow> inodes s ip;
     (disk_inode, s) \<leftarrow> read_inode_disk (isector i) s;
     Some (ilength disk_inode, s) }"

definition is_dir :: "nat \<Rightarrow> fs \<Rightarrow> (bool \<times> fs) option" where
  "is_dir ip s = do {
     i \<leftarrow> inodes s ip;
     (disk_inode, s) \<leftarrow> read_inode_disk (isector i) s;
     Some (isdir disk_inode, s) }"

definition inode_sector :: "nat \<Rightarrow> fs \<Rightarrow> sector option" where
  "inode_sector ip s = map_option isector (inodes s ip)"

section \<open>Growing and shrinking a file\<close>

definition add_sector_to_file :: "writer \<Rightarrow> fs \<Rightarrow> (sector option \<times> fs) option" where
  "add_sector_to_file wr s = do {
     (r, s) \<leftarrow> free_map_allocate wr 1 s;
     (case r of
        None \<Rightarrow> Some (None, s)
      | Some sec \<Rightarrow> do { s \<leftarrow> cache_write sec (replicate BLOCK_SECTOR_SIZE 0) s; Some (Some sec, s) }) }"

text \<open>A step that needs a sector at index \<open>k\<close> of a pointer array: \<^term>\<open>Inl\<close> if the allocation failed.\<close>

definition need_sector :: "writer \<Rightarrow> bool \<Rightarrow> nat \<Rightarrow> u32 list \<Rightarrow> fs \<Rightarrow> (fs + u32 list \<times> fs) option" where
  "need_sector wr needed k ptrs s = do {
     p \<leftarrow> arr_get ptrs k;
     (if needed \<and> p = 0 then do {
        (r, s) \<leftarrow> add_sector_to_file wr s;
        (case r of None \<Rightarrow> Some (Inl s) | Some sec \<Rightarrow> Some (Inr (ptrs[k := sec], s))) }
      else Some (Inr (ptrs, s))) }"

definition drop_sector :: "writer \<Rightarrow> bool \<Rightarrow> nat \<Rightarrow> u32 list \<Rightarrow> fs \<Rightarrow> (u32 list \<times> fs) option" where
  "drop_sector wr unneeded k ptrs s = do {
     p \<leftarrow> arr_get ptrs k;
     (if unneeded \<and> p \<noteq> 0 then do {
        s \<leftarrow> free_map_release wr p 1 s;
        Some (ptrs[k := 0], s) }
      else Some (ptrs, s)) }"

fun level2_loop :: "writer \<Rightarrow> u32 \<Rightarrow> nat \<Rightarrow> nat list \<Rightarrow> u32 list \<Rightarrow> fs \<Rightarrow> (fs + u32 list \<times> fs) option" where
  "level2_loop wr sz i [] ptrs s = Some (Inr (ptrs, s))"
| "level2_loop wr sz i (j # js) ptrs s = do {
     let pos = int (i * (BLOCK_SECTOR_SIZE * NUM_POINTERS) + j * BLOCK_SECTOR_SIZE);
     r \<leftarrow> need_sector wr (sint sz > pos) j ptrs s;
     (case r of
        Inl s \<Rightarrow> Some (Inl s)
      | Inr (ptrs, s) \<Rightarrow> do {
          (ptrs, s) \<leftarrow> drop_sector wr (sint sz \<le> pos) j ptrs s;
          level2_loop wr sz i js ptrs s }) }"

fun level1_loop :: "writer \<Rightarrow> u32 \<Rightarrow> bool \<Rightarrow> nat list \<Rightarrow> u32 list \<Rightarrow> fs \<Rightarrow> (fs + u32 list \<times> fs) option" where
  "level1_loop wr sz mem_ok [] ptrs s = Some (Inr (ptrs, s))"
| "level1_loop wr sz mem_ok (i # is) ptrs s = do {
     let pos = int (i * (BLOCK_SECTOR_SIZE * NUM_POINTERS));
     r \<leftarrow> need_sector wr (sint sz > pos) i ptrs s;
     (case r of
        Inl s \<Rightarrow> Some (Inl s)
      | Inr (ptrs, s) \<Rightarrow> do {
          p \<leftarrow> arr_get ptrs i;
          r \<leftarrow> (if p \<noteq> 0 then do {
                  ASSERT mem_ok;
                  (bs, s) \<leftarrow> cache_read p s;
                  r \<leftarrow> level2_loop wr sz i [0..<NUM_POINTERS] (bytes_to_words bs) s;
                  (case r of
                     Inl s \<Rightarrow> Some (Inl s)
                   | Inr (ind, s) \<Rightarrow> do { s \<leftarrow> cache_write p (words_to_bytes ind) s; Some (Inr s) }) }
                else Some (Inr s));
          (case r of
             Inl s \<Rightarrow> Some (Inl s)
           | Inr s \<Rightarrow> do {
               (ptrs, s) \<leftarrow> drop_sector wr (sint sz \<le> pos) i ptrs s;
               level1_loop wr sz mem_ok is ptrs s }) }) }"

text \<open>The body of \<^verbatim>\<open>inode_resize\<close> up to the point where an allocation fails (\<^term>\<open>Inl\<close>) or to its end.\<close>

definition resize_try ::
    "writer \<Rightarrow> inode_disk \<Rightarrow> u32 \<Rightarrow> fs \<Rightarrow> ((inode_disk \<times> fs) + (inode_disk \<times> fs)) option" where
  "resize_try wr d sz s = do {
     let (ok1, s) = kalloc s;
     let (ok2, s) = kalloc s;
     (if indirect_ptr_idx d = 0 \<and> sz = 0 then Some (Inr (d, s))
      else do {
        r \<leftarrow> (if indirect_ptr_idx d = 0 then do {
                (a, s) \<leftarrow> add_sector_to_file wr s;
                (case a of None \<Rightarrow> Some (Inl s) | Some sec \<Rightarrow> Some (Inr (d\<lparr>indirect_ptr_idx := sec\<rparr>, s))) }
              else Some (Inr (d, s)));
        (case r of
           Inl s \<Rightarrow> Some (Inl (d, s))
         | Inr (d, s) \<Rightarrow> do {
             ASSERT ok1;
             (bs, s) \<leftarrow> cache_read (indirect_ptr_idx d) s;
             r \<leftarrow> level1_loop wr sz ok2 [0..<NUM_POINTERS] (bytes_to_words bs) s;
             (case r of
                Inl s \<Rightarrow> Some (Inl (d, s))
              | Inr (ptrs, s) \<Rightarrow> do {
                  s \<leftarrow> cache_write (indirect_ptr_idx d) (words_to_bytes ptrs) s;
                  (d, s) \<leftarrow> (if sz = 0 then do {
                                s \<leftarrow> free_map_release wr (indirect_ptr_idx d) 1 s;
                                Some (d\<lparr>indirect_ptr_idx := 0\<rparr>, s) }
                              else Some (d, s));
                  Some (Inr (d\<lparr>ilength := sz\<rparr>, s)) }) }) }) }"

partial_function (option) inode_resize ::
    "writer \<Rightarrow> inode_disk \<Rightarrow> u32 \<Rightarrow> fs \<Rightarrow> (bool \<times> inode_disk \<times> fs) option" where
  "inode_resize wr d sz s = do {
     r \<leftarrow> resize_try wr d sz s;
     (case r of
        Inr (d', s) \<Rightarrow> Some (True, d', s)
      | Inl (d', s) \<Rightarrow> do {
          (_, d', s) \<leftarrow> inode_resize wr d' (ilength d) s;
          Some (False, d', s) }) }"

definition inode_create :: "writer \<Rightarrow> sector \<Rightarrow> u32 \<Rightarrow> fs \<Rightarrow> (bool \<times> fs) option" where
  "inode_create wr sec len s = do {
     let (ok1, s) = kalloc s;
     let (ok2, s) = kalloc s;
     ASSERT (0 \<le>s len);
     (if ok1 \<and> ok2 then do {
        let d = empty_inode_disk\<lparr>magic := INODE_MAGIC\<rparr>;
        (r, s) \<leftarrow> free_map_allocate wr 1 s;
        (case r of
           None \<Rightarrow> Some (False, s)
         | Some p \<Rightarrow> do {
             let d = d\<lparr>indirect_ptr_idx := p\<rparr>;
             s \<leftarrow> cache_write p (replicate BLOCK_SECTOR_SIZE 0) s;
             (ok, d, s) \<leftarrow> (if 0 <s len then inode_resize wr d len s else Some (True, d, s));
             (if \<not> ok then Some (False, s)
              else do { s \<leftarrow> cache_write sec (enc_inode d) s; Some (True, s) }) }) }
      else Some (False, s)) }"

definition inode_create_dir :: "writer \<Rightarrow> sector \<Rightarrow> u32 \<Rightarrow> fs \<Rightarrow> (bool \<times> fs) option" where
  "inode_create_dir wr sec len s = do {
     let (ok, s) = kalloc s;
     (success, s) \<leftarrow> inode_create wr sec len s;
     (if success then do {
        ASSERT ok;
        (bs, s) \<leftarrow> cache_read sec s;
        s \<leftarrow> cache_write sec (enc_inode (set_isdir (dec_inode bs))) s;
        Some (True, s) }
      else Some (False, s)) }"

section \<open>Opening and closing\<close>

definition inode_reopen :: "nat option \<Rightarrow> fs \<Rightarrow> (nat option \<times> fs) option" where
  "inode_reopen ipo s =
     (case ipo of
        None \<Rightarrow> Some (None, s)
      | Some ip \<Rightarrow> do {
          s \<leftarrow> writer_checkin ip s;
          s \<leftarrow> upd_inode ip (\<lambda>i. i\<lparr>open_cnt := open_cnt i + 1\<rparr>) s;
          s \<leftarrow> writer_checkout ip s;
          Some (Some ip, s) })"

fun find_inode :: "sector \<Rightarrow> nat list \<Rightarrow> fs \<Rightarrow> nat option option" where
  "find_inode sec [] s = Some None"
| "find_inode sec (ip # ips) s = do {
     i \<leftarrow> inodes s ip;
     (if isector i = sec then Some (Some ip) else find_inode sec ips s) }"

text \<open>When \<^verbatim>\<open>malloc\<close> fails, the function returns without releasing \<^verbatim>\<open>open_inodes_lock\<close>.\<close>

definition inode_open :: "sector \<Rightarrow> fs \<Rightarrow> (nat option \<times> fs) option" where
  "inode_open sec s = do {
     ASSERT (\<not> open_inodes_lock s);
     let s = s\<lparr>open_inodes_lock := True\<rparr>;
     r \<leftarrow> find_inode sec (open_inodes s) s;
     (case r of
        Some ip \<Rightarrow> inode_reopen (Some ip) (s\<lparr>open_inodes_lock := False\<rparr>)
      | None \<Rightarrow> do {
          let (ok, s) = kalloc s;
          (if \<not> ok then Some (None, s)
           else do {
             let ip = next_inode s;
             Some (Some ip,
               s\<lparr>inodes := (inodes s)(ip \<mapsto> \<lparr>isector = sec, open_cnt = 1, removed = False, deny_write_cnt = 0,
                     active_writers = 0, active_readers = 0, waiting_writers = 0, waiting_readers = 0\<rparr>),
                 next_inode := ip + 1, open_inodes := ip # open_inodes s, open_inodes_lock := False\<rparr>) }) }) }"

definition free_all_data_sectors :: "writer \<Rightarrow> sector \<Rightarrow> fs \<Rightarrow> fs option" where
  "free_all_data_sectors wr sec s = do {
     (d, s) \<leftarrow> read_inode_disk sec s;
     (_, _, s) \<leftarrow> inode_resize wr d 0 s;
     Some s }"

definition inode_close :: "writer \<Rightarrow> nat option \<Rightarrow> fs \<Rightarrow> fs option" where
  "inode_close wr ipo s =
     (case ipo of
        None \<Rightarrow> Some s
      | Some ip \<Rightarrow> do {
          s \<leftarrow> writer_checkin ip s;
          s \<leftarrow> upd_inode ip (\<lambda>i. i\<lparr>open_cnt := open_cnt i - 1\<rparr>) s;
          i \<leftarrow> inodes s ip;
          (if open_cnt i = 0 then do {
             ASSERT (\<not> open_inodes_lock s);
             let s = s\<lparr>open_inodes := removeAll ip (open_inodes s)\<rparr>;
             s \<leftarrow> (if removed i then do {
                     s \<leftarrow> free_all_data_sectors wr (isector i) s;
                     free_map_release wr (isector i) 1 s }
                   else Some s);
             s \<leftarrow> writer_checkout ip s;
             Some (s\<lparr>inodes := (inodes s)(ip := None)\<rparr>) }
           else writer_checkout ip s) })"

definition inode_remove :: "nat \<Rightarrow> fs \<Rightarrow> fs option" where
  "inode_remove ip s = do {
     s \<leftarrow> writer_checkin ip s;
     s \<leftarrow> upd_inode ip (\<lambda>i. i\<lparr>removed := True\<rparr>) s;
     writer_checkout ip s }"

definition inode_deny_write :: "nat \<Rightarrow> fs \<Rightarrow> fs option" where
  "inode_deny_write ip s = do {
     s \<leftarrow> writer_checkin ip s;
     s \<leftarrow> upd_inode ip (\<lambda>i. i\<lparr>deny_write_cnt := deny_write_cnt i + 1\<rparr>) s;
     i \<leftarrow> inodes s ip;
     ASSERT (deny_write_cnt i \<le> open_cnt i);
     writer_checkout ip s }"

definition inode_allow_write :: "nat \<Rightarrow> fs \<Rightarrow> fs option" where
  "inode_allow_write ip s = do {
     s \<leftarrow> writer_checkin ip s;
     i \<leftarrow> inodes s ip;
     ASSERT (deny_write_cnt i > 0);
     ASSERT (deny_write_cnt i \<le> open_cnt i);
     s \<leftarrow> upd_inode ip (\<lambda>i. i\<lparr>deny_write_cnt := deny_write_cnt i - 1\<rparr>) s;
     writer_checkout ip s }"

section \<open>Reading and writing at an offset\<close>

text \<open>The number of bytes to copy in one iteration: \<^verbatim>\<open>inode_left\<close> and \<^verbatim>\<open>sector_left\<close> are signed, \<^verbatim>\<open>size\<close> is
  unsigned and makes the last comparison unsigned.\<close>

definition chunk_size :: "u32 \<Rightarrow> u32 \<Rightarrow> u32 \<Rightarrow> u32" where
  "chunk_size sz offset len =
     (let inode_left = len - offset;
          sector_left = 512 - offset mod 512;
          min_left = (if inode_left <s sector_left then inode_left else sector_left)
      in if sz < min_left then sz else min_left)"

lemma chunk_size_decreases:
  assumes "\<not> chunk_size sz ofs len \<le>s 0"
  shows "unat (sz - chunk_size sz ofs len) < unat sz"
proof -
  let ?c = "chunk_size sz ofs len"
  have "?c \<noteq> 0" using assms by auto
  moreover have "?c \<le> sz" by (auto simp: chunk_size_def Let_def)
  ultimately show ?thesis
    by (metis diff_less unat_gt_0 unat_sub word_gt_0 leD linorder_not_less word_le_nat_alt bot_nat_0.not_eq_extremum le_zero_eq)
qed

function read_loop :: "nat \<Rightarrow> u32 \<Rightarrow> u32 \<Rightarrow> byte list \<Rightarrow> fs \<Rightarrow> (byte list \<times> fs) option" where
  "read_loop ip sz offset acc s =
     (if sz > 0 then
        (case byte_to_sector ip offset s of
           None \<Rightarrow> None
         | Some (sec, s) \<Rightarrow>
             if sec = - 1 then Some (acc, s)
             else (case inode_length ip s of
                     None \<Rightarrow> None
                   | Some (len, s) \<Rightarrow>
                       if chunk_size sz offset len \<le>s 0 then Some (acc, s)
                       else (case cache_read_with_size_and_offset sec (unat (chunk_size sz offset len))
                                    (unat (offset mod 512)) s of
                               None \<Rightarrow> None
                             | Some (bs, s) \<Rightarrow>
                                 read_loop ip (sz - chunk_size sz offset len)
                                   (offset + chunk_size sz offset len) (acc @ bs) s)))
      else Some (acc, s))"
  by pat_completeness auto
termination
  by (relation "measure (\<lambda>(ip, sz, offset, acc, s). unat sz)") (auto simp: chunk_size_decreases)

text \<open>Returns the bytes that were read; their number is the result of the C function.\<close>

definition inode_read_at :: "nat \<Rightarrow> u32 \<Rightarrow> u32 \<Rightarrow> fs \<Rightarrow> (byte list \<times> fs) option" where
  "inode_read_at ip sz offset s = do {
     s \<leftarrow> reader_checkin ip s;
     (bs, s) \<leftarrow> read_loop ip sz offset [] s;
     s \<leftarrow> reader_checkout ip s;
     Some (bs, s) }"

function write_loop :: "nat \<Rightarrow> byte list \<Rightarrow> u32 \<Rightarrow> u32 \<Rightarrow> u32 \<Rightarrow> fs \<Rightarrow> (u32 \<times> fs) option" where
  "write_loop ip buffer sz offset bytes_written s =
     (if sz > 0 then
        (case byte_to_sector ip offset s of
           None \<Rightarrow> None
         | Some (sec, s) \<Rightarrow>
             (case inode_length ip s of
                None \<Rightarrow> None
              | Some (len, s) \<Rightarrow>
                  if chunk_size sz offset len \<le>s 0 then Some (bytes_written, s)
                  else (case cache_write_with_size_and_offset sec (drop (unat bytes_written) buffer)
                               (unat (chunk_size sz offset len)) (unat (offset mod 512)) s of
                          None \<Rightarrow> None
                        | Some s \<Rightarrow>
                            write_loop ip buffer (sz - chunk_size sz offset len)
                              (offset + chunk_size sz offset len)
                              (bytes_written + chunk_size sz offset len) s)))
      else Some (bytes_written, s))"
  by pat_completeness auto
termination
  by (relation "measure (\<lambda>(ip, buffer, sz, offset, bytes_written, s). unat sz)")
     (auto simp: chunk_size_decreases)

definition write_at_with :: "writer \<Rightarrow> writer" where
  "write_at_with wr ip buffer sz offset s = do {
     i \<leftarrow> inodes s ip;
     let (ok, s) = kalloc s;
     s \<leftarrow> reader_checkin ip s;
     (if deny_write_cnt i \<noteq> 0 then do { s \<leftarrow> reader_checkout ip s; Some (0, s) }
      else do {
        (len, s) \<leftarrow> inode_length ip s;
        (if len < sz + offset then do {
           s \<leftarrow> reader_checkout ip s;
           s \<leftarrow> writer_checkin ip s;
           ASSERT ok;
           (bs, s) \<leftarrow> cache_read (isector i) s;
           (success, d, s) \<leftarrow> inode_resize wr (dec_inode bs) (sz + offset) s;
           (if \<not> success then do { s \<leftarrow> writer_checkout ip s; Some (0, s) }
            else do {
              s \<leftarrow> cache_write (isector i) (enc_inode d) s;
              (n, s) \<leftarrow> write_loop ip buffer sz offset 0 s;
              s \<leftarrow> writer_checkout ip s;
              Some (n, s) }) }
         else do {
           (n, s) \<leftarrow> write_loop ip buffer sz offset 0 s;
           s \<leftarrow> reader_checkout ip s;
           Some (n, s) }) }) }"

text \<open>\<^verbatim>\<open>inode_write_at\<close> calls itself through the free map only: a file that grows allocates sectors, and each allocation writes the
  free map file. If that inner write had to extend the free map file, its own allocation would write the free map
  file a second time, while the inode of that file is checked in for writing: the code waits for
  itself there and never returns. So two levels are exact, and the third one is \<^term>\<open>None\<close>.\<close>

primrec inode_write_at_depth :: "nat \<Rightarrow> writer" where
  "inode_write_at_depth 0 = (\<lambda>_ _ _ _ _. None)"
| "inode_write_at_depth (Suc n) = write_at_with (inode_write_at_depth n)"

definition inode_write_at :: writer where
  "inode_write_at = inode_write_at_depth 2"

declare read_loop.simps [simp del] write_loop.simps [simp del]

section \<open>Encoding of the on-disk structures\<close>

lemma enc_inode_length: "length (unused d) = 124 \<Longrightarrow> length (enc_inode d) = BLOCK_SECTOR_SIZE"
  by (simp add: enc_inode_def length_words_to_bytes BLOCK_SECTOR_SIZE_def)

lemma dec_enc_inode [simp]: "dec_inode (enc_inode d) = d"
  unfolding dec_inode_def enc_inode_def bytes_to_words_words_to_bytes by (simp add: Let_def)

section \<open>Steps that do not change what is stored\<close>

definition same_view :: "fs \<Rightarrow> fs \<Rightarrow> bool" where
  "same_view s s' \<longleftrightarrow> cache_ok s' \<and> view s' = view s \<and> only_cache s s'"

lemma same_view_refl: "cache_ok s \<Longrightarrow> same_view s s"
  by (simp add: same_view_def)

lemma same_view_trans: "same_view s s' \<Longrightarrow> same_view s' s'' \<Longrightarrow> same_view s s''"
  by (auto simp: same_view_def only_cache_def)

lemma same_viewD:
  "same_view s s' \<Longrightarrow> cache_ok s'" "same_view s s' \<Longrightarrow> view s' = view s"
  "same_view s s' \<Longrightarrow> blk_size (fs_device s') = blk_size (fs_device s)"
  "same_view s s' \<Longrightarrow> inodes s' = inodes s" "same_view s s' \<Longrightarrow> fs_rest s' = fs_rest s"
  using only_cache_rest [of s s'] by (auto simp: same_view_def only_cache_def fs_rest_eq)

lemma kalloc_ok [simp]: "cache_ok s \<Longrightarrow> kalloc s = (True, s)" "cache_ok s \<Longrightarrow> kalloc_unchecked s = Some s"
  by (simp_all add: kalloc_def kalloc_unchecked_def cache_ok_def)

lemma cache_read_same:
  "cache_ok s \<Longrightarrow> on_disk s sec \<Longrightarrow> \<exists>s'. cache_read sec s = Some (view s sec, s') \<and> same_view s s'"
  using cache_read_spec [of s sec] by (auto simp: same_view_def)

lemma read_inode_disk_spec:
  "cache_ok s \<Longrightarrow> on_disk s sec \<Longrightarrow>
   \<exists>s'. read_inode_disk sec s = Some (dec_inode (view s sec), s') \<and> same_view s s'"
  using cache_read_same [of s sec] by (auto simp: read_inode_disk_def)

section \<open>The contents of a file\<close>

text \<open>All of these are functions of the contents of the sectors.\<close>

type_synonym store = "sector \<Rightarrow> byte list"

definition file_len :: "store \<Rightarrow> sector \<Rightarrow> nat" where
  "file_len v sec = unat (ilength (dec_inode (v sec)))"

definition level1_ptr :: "store \<Rightarrow> sector \<Rightarrow> nat \<Rightarrow> sector" where
  "level1_ptr v sec i = bytes_to_words (v (indirect_ptr_idx (dec_inode (v sec)))) ! i"

definition data_ptr :: "store \<Rightarrow> sector \<Rightarrow> nat \<Rightarrow> sector" where
  "data_ptr v sec k = bytes_to_words (v (level1_ptr v sec (k div 128))) ! (k mod 128)"

definition file_byte :: "store \<Rightarrow> sector \<Rightarrow> nat \<Rightarrow> byte" where
  "file_byte v sec p = v (data_ptr v sec (p div 512)) ! (p mod 512)"

definition file_bytes :: "store \<Rightarrow> sector \<Rightarrow> byte list" where
  "file_bytes v sec = map (file_byte v sec) [0..<file_len v sec]"

text \<open>The sectors that a file of this length uses lie on the device. A file has at most 128 * 128
  sectors.\<close>

definition file_ok :: "sector \<Rightarrow> store \<Rightarrow> sector \<Rightarrow> bool" where
  "file_ok n v sec \<longleftrightarrow> sec < n \<and> file_len v sec \<le> 128 * 128 * 512 \<and>
     (\<forall>p < file_len v sec. indirect_ptr_idx (dec_inode (v sec)) < n \<and>
        level1_ptr v sec (p div 512 div 128) < n \<and> data_ptr v sec (p div 512) < n)"

lemma length_file_bytes [simp]: "length (file_bytes v sec) = file_len v sec"
  by (simp add: file_bytes_def)

lemma nth_file_bytes [simp]: "p < file_len v sec \<Longrightarrow> file_bytes v sec ! p = file_byte v sec p"
  by (simp add: file_bytes_def)

section \<open>Signed and unsigned words\<close>

lemma sint_small: "unat (w :: u32) < 2 ^ 31 \<Longrightarrow> sint w = uint w"
proof -
  assume "unat w < 2 ^ 31"
  then have "uint w < 2 ^ 31" by (metis of_nat_less_iff of_nat_numeral of_nat_power uint_nat)
  moreover have "- (2 ^ 31) \<le> uint w" by (rule order_trans [of _ 0]) simp_all
  ultimately show ?thesis unfolding sint_uint by (intro signed_take_bit_int_eq_self) simp_all
qed

lemma sless_small: "unat (a :: u32) < 2 ^ 31 \<Longrightarrow> unat b < 2 ^ 31 \<Longrightarrow> a <s b \<longleftrightarrow> unat a < unat b"
  using sint_small [of a] sint_small [of b] by (simp add: word_sless_alt word_less_def [symmetric] word_less_nat_alt)

lemma sle_small: "unat (a :: u32) < 2 ^ 31 \<Longrightarrow> unat b < 2 ^ 31 \<Longrightarrow> a \<le>s b \<longleftrightarrow> unat a \<le> unat b"
  using sint_small [of a] sint_small [of b] by (simp add: word_sle_eq word_le_def [symmetric] word_le_nat_alt)

lemma chunk_size_value:
  assumes "0 < sz" "unat ofs < unat len" "unat len < 2 ^ 31"
  shows "unat (chunk_size sz ofs len) = min (unat sz) (min (unat len - unat ofs) (512 - unat ofs mod 512))"
    "\<not> chunk_size sz ofs len \<le>s 0"
proof -
  have l: "unat (len - ofs) = unat len - unat ofs"
    using assms(2) by (simp add: unat_sub word_le_nat_alt)
  have m: "unat (ofs mod 512) = unat ofs mod 512"
    by (simp add: unat_mod)
  have "unat ofs mod 512 < 512" by simp
  then have le: "ofs mod 512 \<le> (512 :: u32)"
    using m by (simp add: word_le_nat_alt)
  have r: "unat (512 - ofs mod 512 :: u32) = 512 - unat ofs mod 512"
    using unat_sub [OF le] m by simp
  have b: "unat (len - ofs) < 2 ^ 31" "unat (512 - ofs mod 512 :: u32) < 2 ^ 31"
    unfolding l r using assms(3) by simp_all
  show v: "unat (chunk_size sz ofs len) = min (unat sz) (min (unat len - unat ofs) (512 - unat ofs mod 512))"
    unfolding chunk_size_def Let_def sless_small [OF b] word_less_nat_alt
    by (simp add: l r min_def if_distrib [of unat])
  have "0 < unat sz" using assms(1) by (simp add: word_less_nat_alt)
  then have "0 < unat (chunk_size sz ofs len)" "unat (chunk_size sz ofs len) < 2 ^ 31"
    unfolding v min_less_iff_disj using assms(2,3) by (simp, linarith)
  then show "\<not> chunk_size sz ofs len \<le>s 0"
    by (simp add: sle_small)
qed

section \<open>Reading\<close>

lemma bytes_to_words_length: "length bs = BLOCK_SECTOR_SIZE \<Longrightarrow> length (bytes_to_words bs) = 128"
  using length_bytes_to_words [of bs] by (simp add: BLOCK_SECTOR_SIZE_def)

lemma on_disk_neq_error: "(p :: sector) < n \<Longrightarrow> p \<noteq> - 1"
  using word_order.extremum_strict [of n] by auto

lemma sdiv_pos:
  "(int n sdiv 512) sdiv 128 = int (n div 512 div 128)" "(int n sdiv 512) smod 128 = int (n div 512 mod 128)"
proof -
  have "int n sdiv 512 = int (n div 512)"
    by (cases "n = 0") (simp_all add: signed_divide_int_def zdiv_int)
  moreover have "int m sdiv 128 = int (m div 128)" "int m smod 128 = int (m mod 128)" for m
    by (cases "m = 0"; simp add: signed_divide_int_def signed_modulo_int_def zdiv_int zmod_int
        minus_div_mult_eq_mod)+
  ultimately show "(int n sdiv 512) sdiv 128 = int (n div 512 div 128)"
    "(int n sdiv 512) smod 128 = int (n div 512 mod 128)" by simp_all
qed

lemma byte_to_sector_spec:
  assumes i: "inodes s ip = Some i" and ok: "cache_ok s" and pos: "unat pos < 2 ^ 31"
    and f: "file_ok (blk_size (fs_device s)) (view s) (isector i)"
  shows "\<exists>s'. byte_to_sector ip pos s =
      Some (if unat pos < file_len (view s) (isector i) then data_ptr (view s) (isector i) (unat pos div 512)
            else - 1, s') \<and> same_view s s'"
proof -
  let ?v = "view s" and ?sec = "isector i" and ?k = "unat pos div 512"
  let ?d = "dec_inode (?v ?sec)"
  obtain s1 where s1: "read_inode_disk ?sec s = Some (?d, s1)" "same_view s s1"
    using read_inode_disk_spec [OF ok] f by (auto simp: file_ok_def)
  have len: "unat (ilength ?d) < 2 ^ 31"
    using f by (simp add: file_ok_def file_len_def)
  show ?thesis
  proof (cases "unat pos < file_len ?v ?sec")
    case False
    then show ?thesis
      using i s1 sless_small [OF pos len] by (auto simp: byte_to_sector_def file_len_def)
  next
    case True
    have d: "indirect_ptr_idx ?d < blk_size (fs_device s)" "level1_ptr ?v ?sec (?k div 128) < blk_size (fs_device s)"
      using f True by (auto simp: file_ok_def)
    have k: "?k div 128 < 128"
      using True f by (simp add: file_ok_def div_mult2_eq [symmetric] less_mult_imp_div_less)
    have q: "(sint pos sdiv 512) sdiv 128 = int (?k div 128)" "(sint pos sdiv 512) smod 128 = int (?k mod 128)"
      unfolding sint_small [OF pos] uint_nat by (rule sdiv_pos)+
    obtain s2 where s2: "cache_read (indirect_ptr_idx ?d) s1 = Some (?v (indirect_ptr_idx ?d), s2)" "same_view s1 s2"
      using cache_read_same [of s1 "indirect_ptr_idx ?d"] d(1) same_viewD [OF s1(2)] by auto
    obtain s3 where s3: "cache_read (level1_ptr ?v ?sec (?k div 128)) s2 =
        Some (?v (level1_ptr ?v ?sec (?k div 128)), s3)" "same_view s2 s3"
      using cache_read_same [of s2 "level1_ptr ?v ?sec (?k div 128)"] d(2) same_viewD [OF s1(2)] same_viewD [OF s2(2)]
      by auto
    have l: "length (bytes_to_words (?v (indirect_ptr_idx ?d))) = 128"
        "length (bytes_to_words (?v (level1_ptr ?v ?sec (?k div 128)))) = 128"
      using d view_length [OF ok] by (simp_all add: BLOCK_SECTOR_SIZE_def)
    have "pos <s ilength ?d" using sless_small [OF pos len] True by (simp add: file_len_def)
    then have "byte_to_sector ip pos s = Some (data_ptr ?v ?sec ?k, s3)"
      using i s1 s2 s3 l k same_viewD(1) [OF s1(2)]
      by (simp add: byte_to_sector_def Let_def q arr_geti_def level1_ptr_def [symmetric] data_ptr_def)
    then show ?thesis
      using True same_view_trans [OF s1(2) same_view_trans [OF s2(2) s3(2)]] by auto
  qed
qed

lemma inode_length_spec:
  assumes "inodes s ip = Some i" "cache_ok s" "on_disk s (isector i)"
  shows "\<exists>s'. inode_length ip s = Some (ilength (dec_inode (view s (isector i))), s') \<and> same_view s s'"
  using read_inode_disk_spec [OF assms(2,3)] assms(1) by (auto simp: inode_length_def)

text \<open>One chunk of a file lies in one sector.\<close>

lemma slice_file_chunk:
  assumes "p + n \<le> file_len v sec" "p mod 512 + n \<le> 512" "length (v (data_ptr v sec (p div 512))) = 512"
  shows "slice p n (file_bytes v sec) = slice (p mod 512) n (v (data_ptr v sec (p div 512)))"
proof (rule nth_equalityI)
  show "length (slice p n (file_bytes v sec)) = length (slice (p mod 512) n (v (data_ptr v sec (p div 512))))"
    using assms by (simp add: slice_def)
next
  fix j assume "j < length (slice p n (file_bytes v sec))"
  then have j: "j < n" by (simp add: slice_def)
  have "(q * 512 + r) div 512 = q" "(q * 512 + r) mod 512 = r" if "r < 512" for q r :: nat
    using that by simp_all
  from this [of "p mod 512 + j" "p div 512"]
  have "(p + j) div 512 = p div 512" "(p + j) mod 512 = p mod 512 + j"
    using assms(2) j by (simp_all only: add.assoc [symmetric] div_mult_mod_eq)
  then show "slice p n (file_bytes v sec) ! j = slice (p mod 512) n (v (data_ptr v sec (p div 512))) ! j"
    using assms j by (simp add: slice_def file_byte_def)
qed

lemma slice_append_slice: "n \<le> m \<Longrightarrow> slice p n xs @ slice (p + n) (m - n) xs = slice p m xs"
  by (simp add: slice_def) (metis add.commute drop_drop le_add_diff_inverse take_add)

lemma slice_beyond [simp]: "length xs \<le> p \<Longrightarrow> slice p n xs = []"
  by (simp add: slice_def)

lemma read_loop_spec:
  assumes "inodes s ip = Some i" "cache_ok s" "file_ok (blk_size (fs_device s)) (view s) (isector i)"
    "unat ofs + unat sz < 2 ^ 31"
  shows "\<exists>s'. read_loop ip sz ofs acc s = Some (acc @ slice (unat ofs) (unat sz) (file_bytes (view s) (isector i)), s') \<and>
              same_view s s'"
  using assms
proof (induction "unat sz" arbitrary: sz ofs acc s rule: less_induct)
  case less
  let ?v = "view s" and ?sec = "isector i" and ?o = "unat ofs"
  have pos: "?o < 2 ^ 31" using less.prems(4) by simp
  obtain s1 where s1: "byte_to_sector ip ofs s =
      Some (if ?o < file_len ?v ?sec then data_ptr ?v ?sec (?o div 512) else - 1, s1)" "same_view s s1"
    using byte_to_sector_spec [OF less.prems(1,2) pos less.prems(3)] by blast
  note sv = same_viewD [OF s1(2)]
  show ?case
  proof (cases "0 < sz \<and> ?o < file_len ?v ?sec")
    case False
    then consider "sz = 0" | "0 < sz" "\<not> ?o < file_len ?v ?sec" by (auto simp: word_gt_0)
    then show ?thesis
      using s1 same_view_refl [OF less.prems(2)] by cases (auto simp: read_loop.simps [of ip sz] read_loop.simps [of ip 0])
  next
    case True
    let ?len = "ilength (dec_inode (?v ?sec))" and ?p = "data_ptr ?v ?sec (?o div 512)"
    have on: "on_disk s ?sec" "on_disk s ?p" "unat ?len < 2 ^ 31" "?o < unat ?len"
      using less.prems(3) True by (auto simp: file_ok_def file_len_def)
    obtain s2 where s2: "inode_length ip s1 = Some (?len, s2)" "same_view s1 s2"
      using inode_length_spec [of s1 ip i] less.prems(1) on(1) sv by auto
    note sv2 = same_viewD [OF s2(2)]
    let ?c = "chunk_size sz ofs ?len"
    have c: "unat ?c = min (unat sz) (min (unat ?len - ?o) (512 - ?o mod 512))" "\<not> ?c \<le>s 0"
      using chunk_size_value [OF _ on(4,3)] True by auto
    have m: "unat (ofs mod 512) = ?o mod 512" by (simp add: unat_mod)
    have fit: "?o mod 512 + unat ?c \<le> 512" "?o + unat ?c \<le> file_len ?v ?sec" "unat ?c \<le> unat sz"
    proof -
      have "unat ?c \<le> 512 - ?o mod 512" "unat ?c \<le> unat ?len - ?o" "?o mod 512 < 512"
        unfolding c(1) by (rule min.coboundedI2, rule min.cobounded2, rule min.coboundedI2, rule min.cobounded1, simp)
      moreover have "unat ?c \<le> unat sz" unfolding c(1) by (rule min.cobounded1)
      ultimately show "?o mod 512 + unat ?c \<le> 512" "?o + unat ?c \<le> file_len ?v ?sec" "unat ?c \<le> unat sz"
        using on(4) unfolding file_len_def by linarith+
    qed
    obtain s3 where s3: "cache_read_with_size_and_offset ?p (unat ?c) (?o mod 512) s2 =
        Some (slice (?o mod 512) (unat ?c) (?v ?p), s3)" "same_view s2 s3"
      using cache_read_at_spec [of s2 ?p "?o mod 512" "unat ?c"] on(2) fit(1) sv sv2
      by (auto simp: BLOCK_SECTOR_SIZE_def same_view_def)
    have s3': "same_view s s3" using same_view_trans [OF s1(2) same_view_trans [OF s2(2) s3(2)]] .
    note sv3 = same_viewD [OF s3']
    have dec: "unat (sz - ?c) < unat sz" using chunk_size_decreases [OF c(2)] .
    have u: "unat (sz - ?c) = unat sz - unat ?c" "unat (ofs + ?c) = ?o + unat ?c"
      using fit(3) less.prems(4) by (auto simp: unat_sub word_le_nat_alt unat_plus_if_size word_size)
    have "\<exists>s'. read_loop ip (sz - ?c) (ofs + ?c) (acc @ slice (?o mod 512) (unat ?c) (?v ?p)) s3 =
        Some ((acc @ slice (?o mod 512) (unat ?c) (?v ?p)) @
              slice (unat (ofs + ?c)) (unat (sz - ?c)) (file_bytes (view s3) ?sec), s') \<and> same_view s3 s'"
      by (rule less.hyps [OF dec]) (use less.prems sv3 u fit(3) in auto)
    moreover have "slice (?o mod 512) (unat ?c) (?v ?p) = slice ?o (unat ?c) (file_bytes ?v ?sec)"
      using slice_file_chunk [OF fit(2,1)] view_length [OF less.prems(2) on(2)] by (simp add: BLOCK_SECTOR_SIZE_def)
    ultimately show ?thesis
      using True s1(1) s2(1) s3(1) c(2) m u sv3(2) slice_append_slice [OF fit(3)] same_view_trans [OF s3']
        on_disk_neq_error [OF on(2)]
      by (auto simp: read_loop.simps [of ip sz])
  qed
qed

lemma inode_read_at_spec:
  assumes i: "inodes s ip = Some i" "quiet i" and ok: "cache_ok s"
    and f: "file_ok (blk_size (fs_device s)) (view s) (isector i)" and sz: "unat ofs + unat sz < 2 ^ 31"
  shows "\<exists>s'. inode_read_at ip sz ofs s = Some (slice (unat ofs) (unat sz) (file_bytes (view s) (isector i)), s') \<and>
              same_view s s'"
proof -
  let ?i = "i\<lparr>active_readers := 1\<rparr>"
  let ?s = "s\<lparr>inodes := (inodes s)(ip \<mapsto> ?i)\<rparr>"
  obtain s1 where s1: "read_loop ip sz ofs [] ?s =
      Some (slice (unat ofs) (unat sz) (file_bytes (view s) (isector i)), s1)" "same_view ?s s1"
    using read_loop_spec [of ?s ip ?i ofs sz "[]"] ok f sz by auto
  have "inodes s1 = (inodes s)(ip \<mapsto> ?i)" using same_viewD(4) [OF s1(2)] by simp
  moreover have "?i\<lparr>active_readers := 0\<rparr> = i" using i(2) by (simp add: quiet_def)
  ultimately have "reader_checkout ip s1 = Some (s1\<lparr>inodes := inodes s\<rparr>)"
    using i(1) by (simp add: reader_checkout_def upd_inode_def fun_upd_idem)
  moreover have "same_view s (s1\<lparr>inodes := inodes s\<rparr>)"
    using s1(2) by (simp add: same_view_def only_cache_iff fs_rest_eq)
  ultimately show ?thesis
    using s1(1) reader_checkin_quiet [OF i] by (auto simp: inode_read_at_def)
qed

section \<open>Writing in place\<close>

text \<open>The sectors of a file are distinct, and none of them is a sector of its metadata.\<close>

definition blocks :: "store \<Rightarrow> sector \<Rightarrow> nat" where
  "blocks v sec = bytes_to_sectors (file_len v sec)"

definition meta_sectors :: "store \<Rightarrow> sector \<Rightarrow> sector set" where
  "meta_sectors v sec = {sec, indirect_ptr_idx (dec_inode (v sec))} \<union>
                        (\<lambda>k. level1_ptr v sec (k div 128)) ` {..<blocks v sec}"

definition data_sectors :: "store \<Rightarrow> sector \<Rightarrow> sector set" where
  "data_sectors v sec = data_ptr v sec ` {..<blocks v sec}"

definition file_sep :: "store \<Rightarrow> sector \<Rightarrow> bool" where
  "file_sep v sec \<longleftrightarrow> inj_on (data_ptr v sec) {..<blocks v sec} \<and> meta_sectors v sec \<inter> data_sectors v sec = {}"

lemma blocks_iff: "p < file_len v sec \<Longrightarrow> p div 512 < blocks v sec"
  using less_DIV_ROUND_UP [of 512 p "file_len v sec"]
  by (simp add: blocks_def bytes_to_sectors_def BLOCK_SECTOR_SIZE_def)

lemma write_data_sector:
  fixes b :: "byte list"
  assumes sep: "file_sep v sec" and k: "k < blocks v sec"
  defines "v' \<equiv> v(data_ptr v sec k := b)"
  shows "v' sec = v sec" "file_len v' sec = file_len v sec" "blocks v' sec = blocks v sec"
    "level1_ptr v' sec = level1_ptr v sec"
    "\<And>q. q < blocks v sec \<Longrightarrow> data_ptr v' sec q = data_ptr v sec q"
    "\<And>p. p < file_len v sec \<Longrightarrow>
       file_byte v' sec p = (if p div 512 = k then b ! (p mod 512) else file_byte v sec p)"
proof -
  have dk: "data_ptr v sec k \<in> data_sectors v sec" using k by (simp add: data_sectors_def)
  then have m: "data_ptr v sec k \<notin> meta_sectors v sec" using sep by (auto simp: file_sep_def)
  then show sec: "v' sec = v sec" by (auto simp: v'_def meta_sectors_def)
  then show l: "file_len v' sec = file_len v sec" and bl: "blocks v' sec = blocks v sec"
    by (simp_all add: file_len_def blocks_def)
  have "v' (indirect_ptr_idx (dec_inode (v sec))) = v (indirect_ptr_idx (dec_inode (v sec)))"
    using m by (auto simp: v'_def meta_sectors_def)
  then show l1: "level1_ptr v' sec = level1_ptr v sec"
    by (simp add: level1_ptr_def fun_eq_iff sec)
  show dp: "data_ptr v' sec q = data_ptr v sec q" if "q < blocks v sec" for q
  proof -
    have "level1_ptr v sec (q div 128) \<noteq> data_ptr v sec k"
      using m that unfolding meta_sectors_def by (metis UnI2 imageI lessThan_iff)
    then show ?thesis by (simp add: data_ptr_def l1) (simp add: v'_def data_ptr_def)
  qed
  show "file_byte v' sec p = (if p div 512 = k then b ! (p mod 512) else file_byte v sec p)"
    if p: "p < file_len v sec" for p
  proof -
    have "data_ptr v sec (p div 512) = data_ptr v sec k \<longleftrightarrow> p div 512 = k"
      using sep k blocks_iff [OF p] by (auto simp: file_sep_def inj_on_def)
    then show ?thesis
      using dp [OF blocks_iff [OF p]] by (auto simp: file_byte_def v'_def)
  qed
qed

lemma write_data_sector_ok:
  assumes "file_sep v sec" "k < blocks v sec" "file_ok n v sec"
  shows "file_sep (v(data_ptr v sec k := b)) sec" "file_ok n (v(data_ptr v sec k := b)) sec"
    "data_sectors (v(data_ptr v sec k := b)) sec = data_sectors v sec"
proof -
  let ?v = "v(data_ptr v sec k := b)"
  note w = write_data_sector [OF assms(1,2), where b = b]
  show d: "data_sectors ?v sec = data_sectors v sec"
    unfolding data_sectors_def w(3) by (rule image_cong) (simp_all add: w(5))
  have "inj_on (data_ptr ?v sec) {..<blocks v sec} = inj_on (data_ptr v sec) {..<blocks v sec}"
    by (rule inj_on_cong) (simp add: w(5))
  moreover have "meta_sectors ?v sec = meta_sectors v sec"
    unfolding meta_sectors_def w(1,3,4) ..
  ultimately show "file_sep ?v sec"
    using assms(1) d w(3) by (simp add: file_sep_def)
  show "file_ok n ?v sec"
    using assms(3) w(5) blocks_iff [of _ v sec] unfolding file_ok_def w(1,2,4) by simp
qed

text \<open>What a write of \<open>bs\<close> at offset \<open>ofs\<close> does to the store: the file holds the bytes afterwards, blocks
  outside the written range keep theirs, and no sector but the data sectors of the file changes.\<close>

definition file_written :: "store \<Rightarrow> sector \<Rightarrow> nat \<Rightarrow> byte list \<Rightarrow> store \<Rightarrow> bool" where
  "file_written v sec ofs bs v' \<longleftrightarrow>
     v' sec = v sec \<and> file_sep v' sec \<and> data_sectors v' sec = data_sectors v sec \<and>
     (\<forall>j < length bs. file_byte v' sec (ofs + j) = bs ! j) \<and>
     (\<forall>p < file_len v sec. bs = [] \<or> p div 512 < ofs div 512 \<or> (ofs + length bs - 1) div 512 < p div 512 \<longrightarrow>
        file_byte v' sec p = file_byte v sec p) \<and>
     (\<forall>x. x \<notin> data_sectors v sec \<longrightarrow> v' x = v x)"

lemma file_written_Nil: "file_sep v sec \<Longrightarrow> file_written v sec ofs [] v"
  by (simp add: file_written_def)

lemma div512_same: "p mod 512 + j < 512 \<Longrightarrow> (p + j) div 512 = p div (512 :: nat)" "p mod 512 + j < 512 \<Longrightarrow> (p + j) mod 512 = p mod (512 :: nat) + j"
proof -
  assume a: "p mod 512 + j < 512"
  have "(q * 512 + r) div 512 = q" "(q * 512 + r) mod 512 = r" if "r < 512" for q r :: nat
    using that by simp_all
  from this [OF a, of "p div 512"] show "(p + j) div 512 = p div 512" "(p + j) mod 512 = p mod 512 + j"
    by (simp_all only: add.assoc [symmetric] div_mult_mod_eq)
qed

lemma div512_next: "p mod 512 + c = 512 \<Longrightarrow> (p + c) div 512 = Suc (p div (512 :: nat))"
proof -
  assume a: "p mod 512 + c = 512"
  have "p + c = Suc (p div 512) * 512"
    using a div_mult_mod_eq [of p 512] unfolding mult_Suc by linarith
  then show ?thesis by simp
qed

lemma chunk_fit:
  "(a :: nat) \<le> b \<Longrightarrow> min a (min b d) = min a d"
  "c = min a (512 - m) \<Longrightarrow> m < 512 \<Longrightarrow> 0 < a \<Longrightarrow> m + c \<le> 512 \<and> c \<le> a \<and> 0 < (c :: nat)"
  "c = min a (512 - m) \<Longrightarrow> m < 512 \<Longrightarrow> a - c \<noteq> 0 \<Longrightarrow> m + c = (512 :: nat)"
  by (auto simp: min_def split: if_splits)

text \<open>A chunk followed by the rest.\<close>

lemma file_written_step:
  assumes sep: "file_sep v sec" and k: "ofs div 512 < blocks v sec"
    and b: "length base = 512" and cs: "ofs mod 512 + length cs \<le> 512" "cs \<noteq> []"
    and fits: "ofs + length cs + length ds \<le> file_len v sec"
    and full: "ds \<noteq> [] \<Longrightarrow> ofs mod 512 + length cs = 512"
    and rest: "file_written (v(data_ptr v sec (ofs div 512) := overwrite base (ofs mod 512) cs)) sec (ofs + length cs) ds v'"
  shows "file_written v sec ofs (cs @ ds) v'"
proof -
  let ?k = "ofs div 512" and ?b = "overwrite base (ofs mod 512) cs"
  let ?v = "v(data_ptr v sec ?k := ?b)"
  note w = write_data_sector [OF sep k, where b = ?b]
  have ds: "data_sectors ?v sec = data_sectors v sec"
    unfolding data_sectors_def w(3) by (rule image_cong) (simp_all add: w(5))
  have keep: "file_byte v' sec p = file_byte ?v sec p"
    if "p < file_len v sec" "p div 512 \<le> ?k" for p
  proof -
    have "ds = [] \<or> p div 512 < (ofs + length cs) div 512"
      using full that(2) div512_next by fastforce
    then show ?thesis using rest that(1) w(2) by (auto simp: file_written_def)
  qed
  have written: "file_byte v' sec (ofs + j) = (cs @ ds) ! j" if j: "j < length (cs @ ds)" for j
  proof (cases "j < length cs")
    case True
    then have "ofs mod 512 + j < 512" using cs by linarith
    note d = div512_same [OF this]
    have "file_byte v' sec (ofs + j) = file_byte ?v sec (ofs + j)"
      using keep [of "ofs + j"] fits True d(1) by simp
    also have "\<dots> = ?b ! (ofs mod 512 + j)"
      using w(6) [of "ofs + j"] fits True d by simp
    also have "\<dots> = cs ! j"
      using True cs b by (simp add: nth_overwrite)
    finally show ?thesis using True by (simp add: nth_append)
  next
    case False
    then have "j - length cs < length ds" "ofs + length cs + (j - length cs) = ofs + j" using j by auto
    then show ?thesis
      using rest False by (auto simp: file_written_def nth_append)
  qed
  have frame: "file_byte v' sec p = file_byte v sec p"
    if p: "p < file_len v sec" and out: "p div 512 < ?k \<or> (ofs + length (cs @ ds) - 1) div 512 < p div 512" for p
  proof -
    have nk: "p div 512 \<noteq> ?k"
      using out cs(2) div_le_mono [of ofs "ofs + length (cs @ ds) - 1" 512] by (cases cs) auto
    have "file_byte v' sec p = file_byte ?v sec p"
    proof (cases "p div 512 < ?k")
      case True
      then show ?thesis using keep [OF p] by simp
    next
      case False
      then show ?thesis
        using rest p w(2) out by (auto simp: file_written_def add.assoc)
    qed
    then show ?thesis using w(6) [OF p] nk by simp
  qed
  have "data_ptr v sec ?k \<in> data_sectors v sec" using k by (simp add: data_sectors_def)
  then have "\<forall>x. x \<notin> data_sectors v sec \<longrightarrow> v' x = v x"
    using rest ds by (auto simp: file_written_def)
  with written frame rest ds w(1) cs(2) show ?thesis
    by (auto simp: file_written_def)
qed

lemma write_loop_spec:
  assumes "inodes s ip = Some i" "cache_ok s" "file_ok (blk_size (fs_device s)) (view s) (isector i)"
    "file_sep (view s) (isector i)" "unat ofs + unat sz \<le> file_len (view s) (isector i)"
    "unat bw + unat sz \<le> length buf" "unat bw + unat sz < 2 ^ 32"
  shows "\<exists>s'. write_loop ip buf sz ofs bw s = Some (bw + sz, s') \<and> cache_ok s' \<and> only_cache s s' \<and>
     file_written (view s) (isector i) (unat ofs) (slice (unat bw) (unat sz) buf) (view s') \<and>
     file_ok (blk_size (fs_device s)) (view s') (isector i)"
  using assms
proof (induction "unat sz" arbitrary: sz ofs bw s rule: less_induct)
  case less
  let ?v = "view s" and ?sec = "isector i" and ?o = "unat ofs" and ?len = "ilength (dec_inode (view s (isector i)))"
  note i = less.prems(1) and ok = less.prems(2) and f = less.prems(3) and sep = less.prems(4)
    and fits = less.prems(5) and buf = less.prems(6,7)
  show ?case
  proof (cases "sz = 0")
    case True
    then show ?thesis
      using ok sep f by (auto simp: write_loop.simps [of ip buf 0] file_written_Nil)
  next
    case False
    then have pos: "0 < sz" "0 < unat sz" by (simp_all add: word_gt_0 unat_gt_0)
    have len: "?o < file_len ?v ?sec" "unat ?len < 2 ^ 31" "?o < unat ?len" "on_disk s ?sec" "?o < 2 ^ 31"
      using fits pos(2) f by (auto simp: file_ok_def file_len_def)
    let ?p = "data_ptr ?v ?sec (?o div 512)"
    have on: "on_disk s ?p" using f len(1) by (auto simp: file_ok_def)
    obtain s1 where s1: "byte_to_sector ip ofs s = Some (?p, s1)" "same_view s s1"
      using byte_to_sector_spec [OF i ok len(5) f] len(1) by auto
    note sv = same_viewD [OF s1(2)]
    obtain s2 where s2: "inode_length ip s1 = Some (?len, s2)" "same_view s1 s2"
      using inode_length_spec [of s1 ip i] i len(4) sv by auto
    have s2': "same_view s s2" using same_view_trans [OF s1(2) s2(2)] .
    note sv2 = same_viewD [OF s2']
    let ?c = "chunk_size sz ofs ?len"
    have c: "unat ?c = min (unat sz) (min (unat ?len - ?o) (512 - ?o mod 512))" "\<not> ?c \<le>s 0"
      using chunk_size_value [OF pos(1) len(3,2)] by auto
    have lt: "?o mod 512 < 512" by simp
    have c': "unat ?c = min (unat sz) (512 - ?o mod 512)"
      unfolding c(1) using fits by (intro chunk_fit(1)) (simp add: file_len_def)
    have fit: "?o mod 512 + unat ?c \<le> 512" "unat ?c \<le> unat sz" "0 < unat ?c"
      using chunk_fit(2) [OF c' lt pos(2)] by blast+
    have full: "?o mod 512 + unat ?c = 512" if "unat sz - unat ?c \<noteq> 0"
      by (rule chunk_fit(3) [OF c' lt that])
    have m: "unat (ofs mod 512) = ?o mod 512" by (simp add: unat_mod)
    let ?cs = "take (unat ?c) (drop (unat bw) buf)" and ?base = "write_base s2 ?p"
    obtain s3 where s3: "cache_write_with_size_and_offset ?p (drop (unat bw) buf) (unat ?c) (?o mod 512) s2 = Some s3"
      "cache_ok s3" "view s3 = ?v(?p := overwrite ?base (?o mod 512) ?cs)" "only_cache s2 s3"
    proof -
      have "unat ?c \<le> length (drop (unat bw) buf)" using fit(2) buf(1) by simp
      then show thesis
        using that cache_write_at_spec [of s2 ?p "?o mod 512" "unat ?c" "drop (unat bw) buf"] on fit(1) sv2
        by (auto simp: BLOCK_SECTOR_SIZE_def)
    qed
    have k: "?o div 512 < blocks ?v ?sec" using blocks_iff [OF len(1)] .
    have oc: "only_cache s s3" using s2' s3(4) by (auto simp: same_view_def intro: only_cache_trans)
    have rest: "inodes s3 = inodes s" "blk_size (fs_device s3) = blk_size (fs_device s)"
      using oc by (auto simp: only_cache_iff fs_rest_eq)
    have l3: "file_len (view s3) ?sec = file_len ?v ?sec"
      using write_data_sector(2) [OF sep k] s3(3) by simp
    have u: "unat (sz - ?c) = unat sz - unat ?c" "unat (ofs + ?c) = ?o + unat ?c" "unat (bw + ?c) = unat bw + unat ?c"
      using fit(2) len(3,2) fits buf(2)
      by (auto simp: unat_sub word_le_nat_alt unat_plus_if_size word_size file_len_def)
    obtain s4 where s4: "write_loop ip buf (sz - ?c) (ofs + ?c) (bw + ?c) s3 = Some (bw + ?c + (sz - ?c), s4)"
      "cache_ok s4" "only_cache s3 s4"
      "file_written (view s3) ?sec (?o + unat ?c) (slice (unat bw + unat ?c) (unat sz - unat ?c) buf) (view s4)"
      "file_ok (blk_size (fs_device s)) (view s4) ?sec"
      using less.hyps [OF chunk_size_decreases [OF c(2)], of s3 "ofs + ?c" "bw + ?c"] i s3(2,3) rest
        write_data_sector_ok [OF sep k f] l3 u fits fit(2) buf by auto
    have cs: "length ?cs = unat ?c" using fit(2) buf(1) by simp
    let ?ds = "slice (unat bw + unat ?c) (unat sz - unat ?c) buf"
    have ds: "length ?ds = unat sz - unat ?c" using buf(1) fit(2) by (simp add: slice_def)
    have "file_written ?v ?sec ?o (?cs @ ?ds) (view s4)"
    proof (rule file_written_step [OF sep k, where base = ?base])
      show "length ?base = 512"
        using view_length [of s2 ?p] on sv2 by (simp add: write_base_def BLOCK_SECTOR_SIZE_def)
      show "?o mod 512 + length ?cs \<le> 512" unfolding cs by (rule fit(1))
      show "?cs \<noteq> []" using fit(3) cs by (metis length_0_conv less_irrefl)
      show "?o + length ?cs + length ?ds \<le> file_len ?v ?sec" unfolding cs ds using fits fit(2) by linarith
      show "?o mod 512 + length ?cs = 512" if "?ds \<noteq> []"
        unfolding cs using full ds that by (metis length_0_conv)
      show "file_written (?v(?p := overwrite ?base (?o mod 512) ?cs)) ?sec (?o + length ?cs) ?ds (view s4)"
        unfolding cs using s4(4) s3(3) by simp
    qed
    moreover have "?cs @ slice (unat bw + unat ?c) (unat sz - unat ?c) buf = slice (unat bw) (unat sz) buf"
      using slice_append_slice [OF fit(2), of "unat bw" buf] by (simp add: slice_def)
    ultimately show ?thesis
      using pos(1) s1(1) s2(1) s3(1) s4 c(2) m oc
      by (auto simp: write_loop.simps [of ip buf sz] intro: only_cache_trans)
  qed
qed

lemma reader_restore:
  assumes "inodes s ip = Some i" "quiet i"
    and "only_cache (s\<lparr>inodes := (inodes s)(ip \<mapsto> i\<lparr>active_readers := 1\<rparr>)\<rparr>) s1" "cache_ok s1"
  shows "\<exists>s2. reader_checkout ip s1 = Some s2 \<and> cache_ok s2 \<and> view s2 = view s1 \<and> only_cache s s2"
proof -
  have "inodes s1 = (inodes s)(ip \<mapsto> i\<lparr>active_readers := 1\<rparr>)"
    using assms(3) by (simp add: only_cache_iff fs_rest_eq)
  moreover have "i\<lparr>active_readers := 0\<rparr> = i" using assms(2) by (simp add: quiet_def)
  ultimately have "reader_checkout ip s1 = Some (s1\<lparr>inodes := inodes s\<rparr>)"
    using assms(1) by (simp add: reader_checkout_def upd_inode_def fun_upd_idem)
  then show ?thesis
    using assms(3,4) by (simp add: only_cache_iff fs_rest_eq)
qed

lemma inode_write_in_place:
  assumes i: "inodes s ip = Some i" "quiet i" "deny_write_cnt i = 0" and ok: "cache_ok s"
    and f: "file_ok (blk_size (fs_device s)) (view s) (isector i)" "file_sep (view s) (isector i)"
    and fits: "unat ofs + unat sz \<le> file_len (view s) (isector i)" and buf: "unat sz \<le> length buf"
  shows "\<exists>s'. write_at_with wr ip buf sz ofs s = Some (sz, s') \<and> cache_ok s' \<and> only_cache s s' \<and>
     file_written (view s) (isector i) (unat ofs) (take (unat sz) buf) (view s') \<and>
     file_ok (blk_size (fs_device s)) (view s') (isector i)"
proof -
  let ?i = "i\<lparr>active_readers := 1\<rparr>"
  let ?s = "s\<lparr>inodes := (inodes s)(ip \<mapsto> ?i)\<rparr>" and ?len = "ilength (dec_inode (view s (isector i)))"
  obtain s1 where s1: "inode_length ip ?s = Some (?len, s1)" "same_view ?s s1"
    using inode_length_spec [of ?s ip ?i] ok f(1) by (auto simp: file_ok_def)
  note sv = same_viewD [OF s1(2)]
  have small: "unat ofs + unat sz < 2 ^ 32"
    using fits f(1) by (simp add: file_ok_def)
  then have "unat sz + unat ofs < 2 ^ LENGTH(32)"
    unfolding add.commute [of "unat sz"] by simp
  then have "unat (sz + ofs) = unat sz + unat ofs"
    by (rule unat_add_lem [THEN iffD1])
  then have nw: "\<not> ?len < sz + ofs"
    using fits unfolding word_less_nat_alt file_len_def by linarith
  obtain s2 where s2: "write_loop ip buf sz ofs 0 s1 = Some (sz, s2)" "cache_ok s2" "only_cache s1 s2"
    "file_written (view s) (isector i) (unat ofs) (take (unat sz) buf) (view s2)"
    "file_ok (blk_size (fs_device s)) (view s2) (isector i)"
    using write_loop_spec [of s1 ip ?i ofs sz 0 buf] sv f fits buf small by (auto simp: slice_def)
  have "only_cache ?s s2" using s1(2) s2(3) by (auto simp: same_view_def intro: only_cache_trans)
  then obtain s3 where "reader_checkout ip s2 = Some s3" "cache_ok s3" "view s3 = view s2" "only_cache s s3"
    using reader_restore [OF i(1,2) _ s2(2)] by blast
  then show ?thesis
    using i ok s1(1) s2 nw reader_checkin_quiet [OF i(1,2)] by (auto simp: write_at_with_def)
qed

lemma inode_write_denied:
  assumes i: "inodes s ip = Some i" "quiet i" "deny_write_cnt i \<noteq> 0" and ok: "cache_ok s"
  shows "\<exists>s'. write_at_with wr ip buf sz ofs s = Some (0, s') \<and> same_view s s'"
proof -
  let ?s = "s\<lparr>inodes := (inodes s)(ip \<mapsto> i\<lparr>active_readers := 1\<rparr>)\<rparr>"
  obtain s3 where "reader_checkout ip ?s = Some s3" "cache_ok s3" "view s3 = view ?s" "only_cache s s3"
    using reader_restore [OF i(1,2), of ?s] ok by auto
  then show ?thesis
    using i ok reader_checkin_quiet [OF i(1,2)] by (simp add: write_at_with_def same_view_def)
qed

section \<open>Properties\<close>

text \<open>C17: \<^verbatim>\<open>inode_read_at\<close> reads the file: for an inode that no other thread reads or writes and whose pointer sectors are well-formed, a
  consistent cache that gets the memory it asks for, and an offset and size whose sum is less than \<open>2 ^ 31\<close>, it returns exactly the
  bytes of the file from the offset on, cut at the end of the file, and changes neither the
  contents of any sector nor any inode.\<close>
theorem inode_read_at_correct:
  assumes "inodes s ip = Some i" "quiet i" "cache_ok s" "unat ofs + unat sz < 2 ^ 31"
    and "file_ok (blk_size (fs_device s)) (view s) (isector i)"
  shows "\<exists>s'. inode_read_at ip sz ofs s = Some (take (unat sz) (drop (unat ofs) (file_bytes (view s) (isector i))), s') \<and>
              cache_ok s' \<and> view s' = view s \<and> fs_rest s' = fs_rest s"
  using inode_read_at_spec [OF assms(1-3) assms(5,4)] by (auto simp: slice_def dest: same_viewD)

text \<open>A device with one file of \<open>len\<close> bytes, at most a sector: inode in sector 0, pointers in sectors 1
  and 2, data in 3.\<close>

definition demo_inode :: inode where
  "demo_inode = \<lparr>isector = 0, open_cnt = 1, removed = False, deny_write_cnt = 0, active_writers = 0,
                 active_readers = 0, waiting_writers = 0, waiting_readers = 0\<rparr>"

definition demo_disk_inode :: "u32 \<Rightarrow> inode_disk" where
  "demo_disk_inode len = empty_inode_disk\<lparr>indirect_ptr_idx := 1, ilength := len, magic := INODE_MAGIC\<rparr>"

definition demo_fs :: "u32 \<Rightarrow> byte list \<Rightarrow> fs" where
  "demo_fs len dat =
     \<lparr>fs_device = \<lparr>blk_name = [], blk_type = BLOCK_FILESYS, blk_size = 4,
        media = [enc_inode (demo_disk_inode len),
                 words_to_bytes (2 # replicate 127 0), words_to_bytes (3 # replicate 127 0), dat],
        read_cnt = 0, write_cnt = 0\<rparr>,
      buffer_cache = [], mem = [], inodes = [5 \<mapsto> demo_inode],
      next_inode = 6, open_inodes = [5], open_inodes_lock = False, files = Map.empty, next_file = 1,
      free_map = \<lparr>bit_cnt = 4, bits = [15]\<rparr>, free_map_file = None, free_map_lock = False\<rparr>"

lemma demo_view:
  "view (demo_fs len dat) 0 = enc_inode (demo_disk_inode len)"
  "view (demo_fs len dat) 1 = words_to_bytes (2 # replicate 127 0)"
  "view (demo_fs len dat) 2 = words_to_bytes (3 # replicate 127 0)" "view (demo_fs len dat) 3 = dat"
  by (simp_all add: view_def demo_fs_def)

lemma demo_len: "file_len (view (demo_fs len dat)) 0 = unat len"
  by (simp add: file_len_def demo_view demo_disk_inode_def)

lemma demo_blocks: "0 < unat len \<Longrightarrow> unat len \<le> 512 \<Longrightarrow> blocks (view (demo_fs len dat)) 0 = 1"
  by (simp add: demo_len blocks_def bytes_to_sectors_def DIV_ROUND_UP_def BLOCK_SECTOR_SIZE_def div_nat_eqI)

lemma demo_ptrs: "level1_ptr (view (demo_fs len dat)) 0 0 = 2" "data_ptr (view (demo_fs len dat)) 0 0 = 3"
proof -
  have w: "bytes_to_words (words_to_bytes (x # xs)) ! 0 = x" for x xs
    unfolding bytes_to_words_words_to_bytes by simp
  show l: "level1_ptr (view (demo_fs len dat)) 0 0 = 2"
    unfolding level1_ptr_def demo_view(1) dec_enc_inode
    by (simp add: demo_disk_inode_def demo_view w del: words_to_bytes_simps)
  show "data_ptr (view (demo_fs len dat)) 0 0 = 3"
    by (simp add: data_ptr_def l demo_view w del: words_to_bytes_simps)
qed

lemma demo_fs_ok:
  "inodes (demo_fs len dat) 5 = Some demo_inode" "quiet demo_inode" "isector demo_inode = 0"
  "deny_write_cnt demo_inode = 0"
  by (simp_all add: demo_fs_def demo_inode_def quiet_def)

lemma demo_fs_cache_ok: "length dat = 512 \<Longrightarrow> cache_ok (demo_fs len dat)"
  by (simp add: demo_fs_def cache_ok_def block_ok_def BLOCK_SECTOR_SIZE_def
      enc_inode_def empty_inode_disk_def demo_disk_inode_def del: words_to_bytes_simps)

lemma demo_file_ok:
  assumes "0 < unat len" "unat len \<le> 512"
  shows "file_ok (blk_size (fs_device (demo_fs len dat))) (view (demo_fs len dat)) 0"
    "file_sep (view (demo_fs len dat)) 0"
proof -
  have n: "blk_size (fs_device (demo_fs len dat)) = 4" by (simp add: demo_fs_def)
  have idx: "indirect_ptr_idx (dec_inode (view (demo_fs len dat) 0)) = 1" by (simp add: demo_view demo_disk_inode_def)
  have "p div 512 = 0" if "p < unat len" for p using that assms by simp
  then show "file_ok (blk_size (fs_device (demo_fs len dat))) (view (demo_fs len dat)) 0"
    unfolding file_ok_def demo_len n idx using assms by (auto simp: demo_ptrs)
  show "file_sep (view (demo_fs len dat)) 0"
    unfolding file_sep_def meta_sectors_def data_sectors_def demo_blocks [OF assms] idx
    by (simp add: demo_ptrs lessThan_Suc)
qed

lemma demo_bytes:
  assumes "unat len \<le> 512" "length dat = 512"
  shows "file_bytes (view (demo_fs len dat)) 0 = take (unat len) dat"
proof (rule nth_equalityI)
  fix p assume "p < length (file_bytes (view (demo_fs len dat)) 0)"
  then have "p < unat len" "p div 512 = 0" "p mod 512 = p" using assms by (auto simp: demo_len)
  then show "file_bytes (view (demo_fs len dat)) 0 ! p = take (unat len) dat ! p"
    by (simp add: demo_len file_byte_def demo_ptrs demo_view)
qed (use assms in \<open>simp add: demo_len\<close>)

theorem inode_read_at_correct_witness:
  "\<exists>s'. inode_read_at 5 10 1 (demo_fs 3 (replicate 512 9)) =
      Some (take (unat (10 :: u32)) (drop (unat (1 :: u32)) (file_bytes (view (demo_fs 3 (replicate 512 9))) (isector demo_inode))), s') \<and>
        cache_ok s' \<and> view s' = view (demo_fs 3 (replicate 512 9)) \<and> fs_rest s' = fs_rest (demo_fs 3 (replicate 512 9))"
  by (rule inode_read_at_correct [OF demo_fs_ok(1,2)]) (simp_all add: demo_file_ok demo_fs_ok(3) demo_fs_cache_ok)

text \<open>C16: Writing inside a file and reading back: for a well-formed file that is not write-protected and that no other thread
  reads or writes, and a consistent cache that gets the memory it asks for, \<^verbatim>\<open>inode_write_at\<close> within the length of the file writes
  every byte, a following \<^verbatim>\<open>inode_read_at\<close> at the same offset returns exactly the bytes written, the length does not change, and no
  sector outside the data sectors of this file is changed.\<close>
theorem inode_write_read_roundtrip:
  assumes "inodes s ip = Some i" "quiet i" "deny_write_cnt i = 0" "cache_ok s"
    and "file_ok (blk_size (fs_device s)) (view s) (isector i)" "file_sep (view s) (isector i)"
    and "unat ofs + unat sz \<le> file_len (view s) (isector i)" "length buf = unat sz"
  shows "\<exists>s' s''. inode_write_at ip buf sz ofs s = Some (sz, s') \<and> inode_read_at ip sz ofs s' = Some (buf, s'') \<and>
     file_len (view s') (isector i) = file_len (view s) (isector i) \<and>
     (\<forall>x. x \<notin> data_sectors (view s) (isector i) \<longrightarrow> view s' x = view s x)"
proof -
  have wr: "inode_write_at = write_at_with (inode_write_at_depth 1)"
    by (simp add: inode_write_at_def numeral_2_eq_2)
  have "unat sz \<le> length buf" using assms(8) by simp
  then obtain s' where s': "inode_write_at ip buf sz ofs s = Some (sz, s')" "cache_ok s'" "only_cache s s'"
    "file_written (view s) (isector i) (unat ofs) buf (view s')"
    "file_ok (blk_size (fs_device s)) (view s') (isector i)"
    unfolding wr using inode_write_in_place [OF assms(1-7)] assms(8) by fastforce
  have len: "file_len (view s') (isector i) = file_len (view s) (isector i)"
    using s'(4) by (simp add: file_written_def file_len_def)
  have small: "unat ofs + unat sz < 2 ^ 31" using assms(5,7) by (simp add: file_ok_def)
  have "inodes s' = inodes s" "blk_size (fs_device s') = blk_size (fs_device s)"
    using s'(3) by (auto simp: only_cache_iff fs_rest_eq)
  then obtain s'' where "inode_read_at ip sz ofs s' =
      Some (slice (unat ofs) (unat sz) (file_bytes (view s') (isector i)), s'')"
    using inode_read_at_spec [of s' ip i ofs sz] assms(1,2) s'(2,5) small by auto
  moreover have "slice (unat ofs) (unat sz) (file_bytes (view s') (isector i)) = buf"
    using s'(4) assms(7,8) len by (intro nth_equalityI) (auto simp: slice_def file_written_def)
  ultimately show ?thesis
    using s' len by (auto simp: file_written_def)
qed

theorem inode_write_read_roundtrip_witness:
  "\<exists>s' s''. inode_write_at 5 [1, 2] 2 1 (demo_fs 3 (replicate 512 9)) = Some (2, s') \<and>
     inode_read_at 5 2 1 s' = Some ([1, 2], s'') \<and>
     file_len (view s') (isector demo_inode) = file_len (view (demo_fs 3 (replicate 512 9))) (isector demo_inode) \<and>
     (\<forall>x. x \<notin> data_sectors (view (demo_fs 3 (replicate 512 9))) (isector demo_inode) \<longrightarrow>
          view s' x = view (demo_fs 3 (replicate 512 9)) x)"
  by (rule inode_write_read_roundtrip [OF demo_fs_ok(1,2,4)])
     (simp_all add: demo_file_ok demo_fs_ok(3) demo_fs_cache_ok demo_len)

end
