(* ===== verification/Directory.thy ===== *)
theory Directory
  imports Inode
begin

text \<open>
  Open files (\<^verbatim>\<open>filesys/file.c\<close>) and directories (\<^verbatim>\<open>filesys/directory.c\<close>) on top of inodes. A directory is
  a file of 20-byte entries. A \<^verbatim>\<open>struct dir\<close> is a value here: only \<^verbatim>\<open>dir_readdir\<close> changes it, and returns it.
  Names are byte strings without their terminator.
\<close>

section \<open>Open files\<close>

definition file_open :: "nat option \<Rightarrow> fs \<Rightarrow> (nat option \<times> fs) option" where
  "file_open ipo s = do {
     let (ok, s) = kalloc s;
     (case ipo of
        None \<Rightarrow> Some (None, s)
      | Some ip \<Rightarrow>
          (if ok then
             Some (Some (next_file s),
               s\<lparr>files := (files s)(next_file s \<mapsto> \<lparr>finode = ip, fpos = 0, deny_write = False\<rparr>),
                 next_file := next_file s + 1\<rparr>)
           else do { s \<leftarrow> inode_close inode_write_at (Some ip) s; Some (None, s) })) }"

definition file_reopen :: "nat \<Rightarrow> fs \<Rightarrow> (nat option \<times> fs) option" where
  "file_reopen fp s = do {
     f \<leftarrow> files s fp;
     (ipo, s) \<leftarrow> inode_reopen (Some (finode f)) s;
     file_open ipo s }"

definition file_deny_write :: "nat \<Rightarrow> fs \<Rightarrow> fs option" where
  "file_deny_write fp s = do {
     f \<leftarrow> files s fp;
     (if \<not> deny_write f then
        inode_deny_write (finode f) (s\<lparr>files := (files s)(fp \<mapsto> f\<lparr>deny_write := True\<rparr>)\<rparr>)
      else Some s) }"

definition file_allow_write :: "nat \<Rightarrow> fs \<Rightarrow> fs option" where
  "file_allow_write fp s = do {
     f \<leftarrow> files s fp;
     (if deny_write f then
        inode_allow_write (finode f) (s\<lparr>files := (files s)(fp \<mapsto> f\<lparr>deny_write := False\<rparr>)\<rparr>)
      else Some s) }"

definition file_close :: "nat option \<Rightarrow> fs \<Rightarrow> fs option" where
  "file_close fpo s =
     (case fpo of
        None \<Rightarrow> Some s
      | Some fp \<Rightarrow> do {
          s \<leftarrow> file_allow_write fp s;
          f \<leftarrow> files s fp;
          s \<leftarrow> inode_close inode_write_at (Some (finode f)) s;
          Some (s\<lparr>files := (files s)(fp := None)\<rparr>) })"

definition file_get_inode :: "nat \<Rightarrow> fs \<Rightarrow> nat option" where
  "file_get_inode fp s = map_option finode (files s fp)"

definition file_read :: "nat \<Rightarrow> u32 \<Rightarrow> fs \<Rightarrow> (byte list \<times> fs) option" where
  "file_read fp sz s = do {
     f \<leftarrow> files s fp;
     (bs, s) \<leftarrow> inode_read_at (finode f) sz (fpos f) s;
     Some (bs, s\<lparr>files := (files s)(fp \<mapsto> f\<lparr>fpos := fpos f + of_nat (length bs)\<rparr>)\<rparr>) }"

definition file_read_at :: "nat \<Rightarrow> u32 \<Rightarrow> u32 \<Rightarrow> fs \<Rightarrow> (byte list \<times> fs) option" where
  "file_read_at fp sz ofs s = do { f \<leftarrow> files s fp; inode_read_at (finode f) sz ofs s }"

definition file_write :: "nat \<Rightarrow> byte list \<Rightarrow> u32 \<Rightarrow> fs \<Rightarrow> (u32 \<times> fs) option" where
  "file_write fp buffer sz s = do {
     f \<leftarrow> files s fp;
     (n, s) \<leftarrow> inode_write_at (finode f) buffer sz (fpos f) s;
     Some (n, s\<lparr>files := (files s)(fp \<mapsto> f\<lparr>fpos := fpos f + n\<rparr>)\<rparr>) }"

definition file_write_at :: "nat \<Rightarrow> byte list \<Rightarrow> u32 \<Rightarrow> u32 \<Rightarrow> fs \<Rightarrow> (u32 \<times> fs) option" where
  "file_write_at fp buffer sz ofs s = do { f \<leftarrow> files s fp; inode_write_at (finode f) buffer sz ofs s }"

definition file_length :: "nat \<Rightarrow> fs \<Rightarrow> (u32 \<times> fs) option" where
  "file_length fp s = do { f \<leftarrow> files s fp; inode_length (finode f) s }"

definition file_seek :: "nat \<Rightarrow> u32 \<Rightarrow> fs \<Rightarrow> fs option" where
  "file_seek fp new_pos s = do {
     f \<leftarrow> files s fp;
     ASSERT (0 \<le>s new_pos);
     Some (s\<lparr>files := (files s)(fp \<mapsto> f\<lparr>fpos := new_pos\<rparr>)\<rparr>) }"

definition file_tell :: "nat \<Rightarrow> fs \<Rightarrow> u32 option" where
  "file_tell fp s = map_option fpos (files s fp)"

definition file_inumber :: "nat \<Rightarrow> fs \<Rightarrow> sector option" where
  "file_inumber fp s = do { f \<leftarrow> files s fp; inode_sector (finode f) s }"

section \<open>Directory entries\<close>

definition NAME_MAX :: nat where
  "NAME_MAX = 14"

definition ENTRY_SIZE :: nat where
  "ENTRY_SIZE = 20"

abbreviation entry_size :: u32 where
  "entry_size \<equiv> 20"

text \<open>An entry is kept as its bytes: sector (4), name (15), \<^verbatim>\<open>in_use\<close> (1).\<close>

type_synonym dir_entry = "byte list"

definition e_sector :: "dir_entry \<Rightarrow> sector" where
  "e_sector e = of_le32 (take 4 e)"

definition e_name :: "dir_entry \<Rightarrow> byte list" where
  "e_name e = slice 4 (NAME_MAX + 1) e"

definition e_in_use :: "dir_entry \<Rightarrow> bool" where
  "e_in_use e \<longleftrightarrow> e ! 19 \<noteq> 0"

definition set_sector :: "sector \<Rightarrow> dir_entry \<Rightarrow> dir_entry" where
  "set_sector sec e = overwrite e 0 (le32 sec)"

definition set_name :: "byte list \<Rightarrow> dir_entry \<Rightarrow> dir_entry" where
  "set_name name e = overwrite e 4 (take NAME_MAX name @ [0])"

definition set_in_use :: "bool \<Rightarrow> dir_entry \<Rightarrow> dir_entry" where
  "set_in_use b e = e[19 := (if b then 1 else 0)]"

text \<open>\<^verbatim>\<open>!strcmp (name, buf)\<close> for the string \<open>name\<close> and an array \<open>buf\<close>; reading past the array is a fault.\<close>

fun streq :: "byte list \<Rightarrow> byte list \<Rightarrow> bool option" where
  "streq name [] = None"
| "streq [] (b # bs) = Some (b = 0)"
| "streq (c # cs) (b # bs) = (if c = b then streq cs bs else Some False)"

definition bytes_of :: "string \<Rightarrow> byte list" where
  "bytes_of = map (\<lambda>c. of_nat (of_char c))"

definition PARENT_NAME :: "byte list" where
  "PARENT_NAME = [46, 46]"

definition SELF_NAME :: "byte list" where
  "SELF_NAME = [46]"

section \<open>Directories\<close>

record dir =
  dinode :: nat
  dpos :: u32

definition dir_open :: "nat option \<Rightarrow> fs \<Rightarrow> (dir option \<times> fs) option" where
  "dir_open ipo s = do {
     let (ok, s) = kalloc s;
     (case ipo of
        None \<Rightarrow> Some (None, s)
      | Some ip \<Rightarrow>
          (if ok then Some (Some \<lparr>dinode = ip, dpos = 0\<rparr>, s)
           else do { s \<leftarrow> inode_close inode_write_at (Some ip) s; Some (None, s) })) }"

definition dir_open_root :: "fs \<Rightarrow> (dir option \<times> fs) option" where
  "dir_open_root s = do { (ipo, s) \<leftarrow> inode_open ROOT_DIR_SECTOR s; dir_open ipo s }"

definition dir_reopen :: "dir \<Rightarrow> fs \<Rightarrow> (dir option \<times> fs) option" where
  "dir_reopen d s = do { (ipo, s) \<leftarrow> inode_reopen (Some (dinode d)) s; dir_open ipo s }"

definition dir_close :: "dir option \<Rightarrow> fs \<Rightarrow> fs option" where
  "dir_close d s = (case d of None \<Rightarrow> Some s | Some d \<Rightarrow> inode_close inode_write_at (Some (dinode d)) s)"

definition dir_get_inode :: "dir \<Rightarrow> nat" where
  "dir_get_inode d = dinode d"

text \<open>\<^verbatim>\<open>lookup\<close> returns the entry and its offset.\<close>

partial_function (option) lookup_from ::
    "nat \<Rightarrow> byte list \<Rightarrow> u32 \<Rightarrow> fs \<Rightarrow> ((dir_entry \<times> u32) option \<times> fs) option" where
  "lookup_from ip name ofs s = do {
     (e, s) \<leftarrow> inode_read_at ip entry_size ofs s;
     (if length e = ENTRY_SIZE then
        (if e_in_use e then do {
           eq \<leftarrow> streq name (e_name e);
           (if eq then Some (Some (e, ofs), s) else lookup_from ip name (ofs + entry_size) s) }
         else lookup_from ip name (ofs + entry_size) s)
      else Some (None, s)) }"

definition lookup :: "dir \<Rightarrow> byte list \<Rightarrow> fs \<Rightarrow> ((dir_entry \<times> u32) option \<times> fs) option" where
  "lookup d name s = lookup_from (dinode d) name 0 s"

definition dir_lookup :: "dir \<Rightarrow> byte list \<Rightarrow> fs \<Rightarrow> (nat option \<times> fs) option" where
  "dir_lookup d name s = do {
     (r, s) \<leftarrow> lookup d name s;
     (case r of Some (e, _) \<Rightarrow> inode_open (e_sector e) s | None \<Rightarrow> Some (None, s)) }"

text \<open>The search for a free slot. The local variable \<^verbatim>\<open>e\<close> is overwritten by what each read returned, also
  by a short read.\<close>

partial_function (option) free_slot :: "nat \<Rightarrow> u32 \<Rightarrow> dir_entry \<Rightarrow> fs \<Rightarrow> (u32 \<times> dir_entry \<times> fs) option" where
  "free_slot ip ofs e s = do {
     (bs, s) \<leftarrow> inode_read_at ip entry_size ofs s;
     let e = overwrite e 0 bs;
     (if length bs = ENTRY_SIZE \<and> e_in_use e then free_slot ip (ofs + entry_size) e s
      else Some (ofs, e, s)) }"

text \<open>\<open>junk\<close> is what the uninitialised variable holds.\<close>

definition dir_add :: "dir_entry \<Rightarrow> dir \<Rightarrow> byte list \<Rightarrow> sector \<Rightarrow> fs \<Rightarrow> (bool \<times> fs) option" where
  "dir_add junk d name sec s = do {
     (r, s) \<leftarrow> lookup d name s;
     (if r \<noteq> None then Some (False, s)
      else do {
        (ofs, e, s) \<leftarrow> free_slot (dinode d) 0 junk s;
        let e = set_sector sec (set_name name (set_in_use True e));
        (n, s) \<leftarrow> inode_write_at (dinode d) e entry_size ofs s;
        Some (n = entry_size, s) }) }"

definition dir_create :: "dir_entry \<Rightarrow> sector \<Rightarrow> u32 \<Rightarrow> sector \<Rightarrow> fs \<Rightarrow> (bool \<times> fs) option" where
  "dir_create junk sec entry_cnt parent_sector s = do {
     (created, s) \<leftarrow> inode_create_dir inode_write_at sec ((entry_cnt + 2) * entry_size) s;
     (if created then do {
        (ipo, s) \<leftarrow> inode_open sec s;
        (d, s) \<leftarrow> dir_open ipo s;
        dd \<leftarrow> d;
        (success, s) \<leftarrow> dir_add junk dd PARENT_NAME parent_sector s;
        (success, s) \<leftarrow> (if success then dir_add junk dd SELF_NAME sec s else Some (False, s));
        s \<leftarrow> dir_close d s;
        Some (success, s) }
      else Some (False, s)) }"

partial_function (option) count_entries :: "nat \<Rightarrow> u32 \<Rightarrow> nat \<Rightarrow> fs \<Rightarrow> (nat \<times> fs) option" where
  "count_entries ip ofs cnt s = do {
     (e, s) \<leftarrow> inode_read_at ip entry_size ofs s;
     (if length e = ENTRY_SIZE then count_entries ip (ofs + entry_size) (if e_in_use e then cnt + 1 else cnt) s
      else Some (cnt, s)) }"

definition number_entries :: "dir \<Rightarrow> fs \<Rightarrow> (nat \<times> fs) option" where
  "number_entries d s = count_entries (dinode d) 0 0 s"

text \<open>\<open>cwd\<close> is the current directory of the thread; every \<^verbatim>\<open>goto done\<close> closes the inode.\<close>

definition dir_remove :: "dir option \<Rightarrow> dir \<Rightarrow> byte list \<Rightarrow> fs \<Rightarrow> (bool \<times> fs) option" where
  "dir_remove cwd d name s = do {
     (r, s) \<leftarrow> lookup d name s;
     (case r of
        None \<Rightarrow> Some (False, s)
      | Some (e, ofs) \<Rightarrow> do {
          (ipo, s) \<leftarrow> inode_open (e_sector e) s;
          (case ipo of
             None \<Rightarrow> Some (False, s)
           | Some ip \<Rightarrow> do {
               i \<leftarrow> inodes s ip;
               c \<leftarrow> cwd;
               ci \<leftarrow> inodes s (dinode c);
               (if isector i = isector ci then do { s \<leftarrow> inode_close inode_write_at ipo s; Some (False, s) }
                else do {
                  (isd, s) \<leftarrow> is_dir ip s;
                  (busy, s) \<leftarrow>
                    (if isd then do {
                       (dd, s) \<leftarrow> dir_open ipo s;
                       dd \<leftarrow> dd;
                       (n, s) \<leftarrow> number_entries dd s;
                       i \<leftarrow> inodes s ip;
                       Some (n > 2 \<or> open_cnt i > 2, s) }
                     else Some (False, s));
                  (if busy then do { s \<leftarrow> inode_close inode_write_at ipo s; Some (False, s) }
                   else do {
                     (n, s) \<leftarrow> inode_write_at (dinode d) (set_in_use False e) entry_size ofs s;
                     (if n \<noteq> entry_size then do { s \<leftarrow> inode_close inode_write_at ipo s; Some (False, s) }
                      else do {
                        s \<leftarrow> inode_remove ip s;
                        s \<leftarrow> inode_close inode_write_at ipo s;
                        Some (True, s) }) }) }) }) }) }"

partial_function (option) dir_readdir :: "dir \<Rightarrow> fs \<Rightarrow> (byte list option \<times> dir \<times> fs) option" where
  "dir_readdir d s = do {
     (e, s) \<leftarrow> inode_read_at (dinode d) entry_size (dpos d) s;
     (if length e = ENTRY_SIZE then do {
        let d = d\<lparr>dpos := dpos d + entry_size\<rparr>;
        (if e_in_use e then do {
           self \<leftarrow> streq SELF_NAME (e_name e);
           parent \<leftarrow> streq PARENT_NAME (e_name e);
           (if \<not> self \<and> \<not> parent then Some (Some (takeWhile (\<lambda>c. c \<noteq> 0) (e_name e)), d, s)
            else dir_readdir d s) }
         else dir_readdir d s) }
      else Some (None, d, s)) }"

text \<open>The loop stops at the first entry whose name is \<^emph>\<open>not\<close> \<^verbatim>\<open>".."\<close>: \<^verbatim>\<open>strcmp\<close> is nonzero then.\<close>

partial_function (option) not_parent_slot :: "nat \<Rightarrow> u32 \<Rightarrow> dir_entry \<Rightarrow> fs \<Rightarrow> (u32 \<times> dir_entry \<times> fs) option" where
  "not_parent_slot ip ofs e s = do {
     (bs, s) \<leftarrow> inode_read_at ip entry_size ofs s;
     let e = overwrite e 0 bs;
     (if length bs = ENTRY_SIZE then do {
        parent \<leftarrow> streq PARENT_NAME (e_name e);
        (if \<not> parent then Some (ofs, e, s) else not_parent_slot ip (ofs + entry_size) e s) }
      else Some (ofs, e, s)) }"

definition change_parent_dir :: "dir_entry \<Rightarrow> dir \<Rightarrow> sector \<Rightarrow> fs \<Rightarrow> (bool \<times> fs) option" where
  "change_parent_dir junk d parent_sector s = do {
     (ofs, e, s) \<leftarrow> not_parent_slot (dinode d) 0 junk s;
     (n, s) \<leftarrow> inode_write_at (dinode d) (set_sector parent_sector e) entry_size ofs s;
     Some (n = entry_size, s) }"

definition dir_inumber :: "dir \<Rightarrow> fs \<Rightarrow> sector option" where
  "dir_inumber d s = inode_sector (dinode d) s"

section \<open>What a directory contains\<close>

definition dir_entries :: "store \<Rightarrow> sector \<Rightarrow> dir_entry list" where
  "dir_entries v sec = map (\<lambda>k. slice (20 * k) 20 (file_bytes v sec)) [0..<file_len v sec div 20]"

definition entry_str :: "dir_entry \<Rightarrow> byte list" where
  "entry_str e = takeWhile (\<lambda>c. c \<noteq> 0) (e_name e)"

text \<open>The names of the entries in use are terminated.\<close>

definition names_ok :: "dir_entry list \<Rightarrow> bool" where
  "names_ok es \<longleftrightarrow> (\<forall>e \<in> set es. e_in_use e \<longrightarrow> 0 \<in> set (e_name e))"

fun find_entry :: "byte list \<Rightarrow> dir_entry list \<Rightarrow> nat \<Rightarrow> (dir_entry \<times> nat) option" where
  "find_entry name [] k = None"
| "find_entry name (e # es) k =
     (if e_in_use e \<and> entry_str e = name then Some (e, k) else find_entry name es (k + 1))"

lemma streq_spec: "0 \<in> set buf \<Longrightarrow> 0 \<notin> set name \<Longrightarrow> streq name buf = Some (takeWhile (\<lambda>c. c \<noteq> 0) buf = name)"
proof (induction name buf rule: streq.induct)
  case (3 c cs b bs)
  then show ?case by (cases "b = 0") auto
qed auto

lemma length_dir_entries [simp]: "length (dir_entries v sec) = file_len v sec div 20"
  by (simp add: dir_entries_def)

text \<open>One read of an entry: it succeeds in full exactly if the entry exists.\<close>

lemma read_entry:
  assumes i: "inodes s ip = Some i" "quiet i" and ok: "cache_ok s"
    and f: "file_ok (blk_size (fs_device s)) (view s) (isector i)" and k: "k \<le> file_len (view s) (isector i) div 20"
    and ofs: "unat ofs = 20 * k"
  shows "\<exists>s'. same_view s s' \<and>
    (if k < file_len (view s) (isector i) div 20
     then inode_read_at ip entry_size ofs s = Some (dir_entries (view s) (isector i) ! k, s') \<and>
          length (dir_entries (view s) (isector i) ! k) = ENTRY_SIZE
     else \<exists>bs. inode_read_at ip entry_size ofs s = Some (bs, s') \<and> length bs < ENTRY_SIZE)"
proof -
  let ?fb = "file_bytes (view s) (isector i)" and ?n = "file_len (view s) (isector i)"
  have "20 * (?n div 20) \<le> ?n" "?n \<le> 8388608" using f by (simp_all add: file_ok_def)
  then have small: "20 * k \<le> ?n" "unat ofs + unat entry_size < 2 ^ 31" using k ofs by simp_all
  obtain s' where s': "inode_read_at ip entry_size ofs s = Some (slice (20 * k) 20 ?fb, s')" "same_view s s'"
    using inode_read_at_spec [OF i ok f small(2)] ofs by auto
  show ?thesis
  proof (cases "k < ?n div 20")
    case True
    then have "20 * k + 20 \<le> ?n" by simp
    then show ?thesis
      using s' True by (auto simp: dir_entries_def slice_def ENTRY_SIZE_def)
  next
    case False
    then have "?n < 20 * k + 20" using k by simp
    then show ?thesis
      using s' False by (auto simp: slice_def ENTRY_SIZE_def)
  qed
qed

lemma lookup_from_spec:
  assumes "inodes s ip = Some i" "quiet i" "cache_ok s" "file_ok (blk_size (fs_device s)) (view s) (isector i)"
    and n: "names_ok (dir_entries (view s) (isector i))" "0 \<notin> set name"
    and "unat ofs = 20 * k" "k \<le> file_len (view s) (isector i) div 20"
  shows "\<exists>s'. lookup_from ip name ofs s =
      Some (map_option (\<lambda>(e, k). (e, of_nat (20 * k))) (find_entry name (drop k (dir_entries (view s) (isector i))) k), s') \<and>
      same_view s s'"
  using assms(1-4,7-) n(1)
proof (induction "file_len (view s) (isector i) div 20 - k" arbitrary: k ofs s)
  case 0
  then obtain s' bs where "same_view s s'" "inode_read_at ip entry_size ofs s = Some (bs, s')" "length bs < ENTRY_SIZE"
    using read_entry [OF 0(2-5) 0(7,6)] by auto
  then show ?case using 0 by (auto simp: lookup_from.simps [of ip name ofs s])
next
  case (Suc m)
  let ?es = "dir_entries (view s) (isector i)" and ?n = "file_len (view s) (isector i)"
  have k: "k < ?n div 20" and m: "m = ?n div 20 - Suc k" using Suc(2) by simp_all
  then obtain s' where s': "same_view s s'" "inode_read_at ip entry_size ofs s = Some (?es ! k, s')"
      "length (?es ! k) = ENTRY_SIZE"
    using read_entry [OF Suc(3-6) Suc(8,7)] by auto
  note sv = same_viewD [OF s'(1)]
  have dk: "drop k ?es = ?es ! k # drop (k + 1) ?es"
    using k by (simp add: Cons_nth_drop_Suc)
  have "20 * k + 20 \<le> ?n" "?n \<le> 8388608" using k Suc(6) by (simp_all add: file_ok_def)
  then have "unat (ofs + entry_size) = 20 * (k + 1)"
    using Suc(7) by (simp add: unat_plus_if_size word_size)
  then obtain s'' where s'': "lookup_from ip name (ofs + entry_size) s' =
      Some (map_option (\<lambda>(e, k). (e, of_nat (20 * k))) (find_entry name (drop (k + 1) ?es) (k + 1)), s'')" "same_view s' s''"
    using Suc(1) [of s' "k + 1" "ofs + entry_size"] Suc(2-9) sv k m by auto
  have "streq name (e_name (?es ! k)) = Some (entry_str (?es ! k) = name)" if "e_in_use (?es ! k)"
    using Suc(9) k that n(2) by (auto simp: names_ok_def entry_str_def intro!: streq_spec)
  moreover have "of_nat (20 * k) = ofs"
    unfolding Suc(7) [symmetric] by simp
  ultimately show ?case
    using s' s'' dk same_view_trans [OF s'(1) s''(2)]
    by (auto simp: lookup_from.simps [of ip name ofs s])
qed

lemma lookup_spec:
  assumes "inodes s (dinode d) = Some i" "quiet i" "cache_ok s"
    and "file_ok (blk_size (fs_device s)) (view s) (isector i)"
    and "names_ok (dir_entries (view s) (isector i))" "0 \<notin> set name"
  shows "\<exists>s'. lookup d name s =
      Some (map_option (\<lambda>(e, k). (e, of_nat (20 * k))) (find_entry name (dir_entries (view s) (isector i)) 0), s') \<and>
      same_view s s'"
  using lookup_from_spec [OF assms, of 0 0] by (simp add: lookup_def)

lemma find_entry_None: "find_entry name es k = None \<longleftrightarrow> (\<forall>e \<in> set es. \<not> (e_in_use e \<and> entry_str e = name))"
  by (induction es arbitrary: k) auto

lemma find_entry_Some:
  "find_entry name es k = Some (e, n) \<Longrightarrow>
   k \<le> n \<and> n - k < length es \<and> e = es ! (n - k) \<and> e_in_use e \<and> entry_str e = name \<and>
   (\<forall>j < n - k. \<not> (e_in_use (es ! j) \<and> entry_str (es ! j) = name))"
proof (induction es arbitrary: k)
  case (Cons x es)
  show ?case
  proof (cases "e_in_use x \<and> entry_str x = name")
    case True
    then show ?thesis using Cons.prems by auto
  next
    case False
    then have "find_entry name es (k + 1) = Some (e, n)" using Cons.prems by (auto split: if_splits)
    note IH = Cons.IH [OF this]
    then have "n - k = Suc (n - (k + 1))" by linarith
    with IH False show ?thesis by (auto simp: less_Suc_eq_0_disj)
  qed
qed simp

lemma count_entries_spec:
  assumes "inodes s ip = Some i" "quiet i" "cache_ok s" "file_ok (blk_size (fs_device s)) (view s) (isector i)"
    and "unat ofs = 20 * k" "k \<le> file_len (view s) (isector i) div 20"
  shows "\<exists>s'. count_entries ip ofs n s =
      Some (n + length (filter e_in_use (drop k (dir_entries (view s) (isector i)))), s') \<and> same_view s s'"
  using assms
proof (induction "file_len (view s) (isector i) div 20 - k" arbitrary: k ofs n s)
  case 0
  then obtain s' bs where "same_view s s'" "inode_read_at ip entry_size ofs s = Some (bs, s')" "length bs < ENTRY_SIZE"
    using read_entry [OF 0(2-5) 0(7,6)] by auto
  then show ?case using 0 by (auto simp: count_entries.simps [of ip ofs n s])
next
  case (Suc m)
  let ?es = "dir_entries (view s) (isector i)" and ?n = "file_len (view s) (isector i)"
  have k: "k < ?n div 20" and m: "m = ?n div 20 - Suc k" using Suc(2) by simp_all
  then obtain s' where s': "same_view s s'" "inode_read_at ip entry_size ofs s = Some (?es ! k, s')"
      "length (?es ! k) = ENTRY_SIZE"
    using read_entry [OF Suc(3-6) Suc(8,7)] by auto
  note sv = same_viewD [OF s'(1)]
  have dk: "drop k ?es = ?es ! k # drop (k + 1) ?es"
    using k by (simp add: Cons_nth_drop_Suc)
  have "20 * k + 20 \<le> ?n" "?n \<le> 8388608" using k Suc(6) by (simp_all add: file_ok_def)
  then have "unat (ofs + entry_size) = 20 * (k + 1)"
    using Suc(7) by (simp add: unat_plus_if_size word_size)
  then obtain s'' where s'': "count_entries ip (ofs + entry_size) (if e_in_use (?es ! k) then n + 1 else n) s' =
      Some ((if e_in_use (?es ! k) then n + 1 else n) + length (filter e_in_use (drop (k + 1) ?es)), s'')" "same_view s' s''"
    using Suc(1) [of s' "k + 1" "ofs + entry_size" "if e_in_use (?es ! k) then n + 1 else n"] Suc(2-8) sv k m by auto
  then show ?case
    using s' dk same_view_trans [OF s'(1) s''(2)]
    by (auto simp: count_entries.simps [of ip ofs n s])
qed

section \<open>Properties\<close>

text \<open>C19: \<^verbatim>\<open>lookup\<close> searches a directory correctly: on a well-formed directory that no other thread reads or writes, with a consistent cache
  that gets the memory it asks for, it terminates without a fault,
  returns the first entry in use with the given name together with its byte offset, or nothing exactly
  if no entry in use has that name, and changes nothing.\<close>
theorem lookup_correct:
  assumes "inodes s (dinode d) = Some i" "quiet i" "cache_ok s"
    and "file_ok (blk_size (fs_device s)) (view s) (isector i)"
    and "names_ok (dir_entries (view s) (isector i))" "0 \<notin> set name"
  defines "es \<equiv> dir_entries (view s) (isector i)"
  shows "\<exists>r s'. lookup d name s = Some (r, s') \<and> view s' = view s \<and> fs_rest s' = fs_rest s \<and>
    (case r of
       None \<Rightarrow> \<forall>e \<in> set es. \<not> (e_in_use e \<and> entry_str e = name)
     | Some (e, ofs) \<Rightarrow> \<exists>k < length es. e = es ! k \<and> ofs = of_nat (20 * k) \<and> e_in_use e \<and> entry_str e = name \<and>
                                      (\<forall>j < k. \<not> (e_in_use (es ! j) \<and> entry_str (es ! j) = name)))"
proof -
  obtain s' where s': "lookup d name s = Some (map_option (\<lambda>(e, k). (e, of_nat (20 * k))) (find_entry name es 0), s')"
    "same_view s s'"
    using lookup_spec [OF assms(1-6)] by (auto simp: es_def)
  show ?thesis
  proof (cases "find_entry name es 0")
    case None
    moreover have "\<forall>e \<in> set es. \<not> (e_in_use e \<and> entry_str e = name)"
      using None find_entry_None by blast
    ultimately show ?thesis using s' same_viewD [OF s'(2)] by auto
  next
    case (Some x)
    obtain e k where x: "x = (e, k)" by (cases x)
    show ?thesis
      using Some s' same_viewD [OF s'(2)] find_entry_Some [of name es 0 e k] unfolding x by auto
  qed
qed

definition demo_entries :: "byte list" where
  "demo_entries = le32 7 @ [97] @ replicate 14 0 @ [1] @ replicate 492 0"

theorem lookup_correct_witness:
  "\<exists>r s'. lookup \<lparr>dinode = 5, dpos = 0\<rparr> [97] (demo_fs 20 demo_entries) = Some (r, s') \<and>
    view s' = view (demo_fs 20 demo_entries) \<and> fs_rest s' = fs_rest (demo_fs 20 demo_entries) \<and>
    (case r of
       None \<Rightarrow> \<forall>e \<in> set (dir_entries (view (demo_fs 20 demo_entries)) (isector demo_inode)).
                 \<not> (e_in_use e \<and> entry_str e = [97])
     | Some (e, ofs) \<Rightarrow> \<exists>k < length (dir_entries (view (demo_fs 20 demo_entries)) (isector demo_inode)).
          e = dir_entries (view (demo_fs 20 demo_entries)) (isector demo_inode) ! k \<and> ofs = of_nat (20 * k) \<and>
          e_in_use e \<and> entry_str e = [97] \<and>
          (\<forall>j < k. \<not> (e_in_use (dir_entries (view (demo_fs 20 demo_entries)) (isector demo_inode) ! j) \<and>
                      entry_str (dir_entries (view (demo_fs 20 demo_entries)) (isector demo_inode) ! j) = [97])))"
proof -
  have len: "length demo_entries = 512" by (simp add: demo_entries_def)
  have "dir_entries (view (demo_fs 20 demo_entries)) 0 = [take 20 demo_entries]"
    using demo_bytes [of 20 demo_entries] len by (simp add: dir_entries_def demo_len slice_def)
  then have "names_ok (dir_entries (view (demo_fs 20 demo_entries)) (isector demo_inode))"
    by (simp add: demo_fs_ok(3) names_ok_def e_name_def NAME_MAX_def slice_def demo_entries_def)
  then show ?thesis
    using len by (intro lookup_correct) (simp_all add: demo_fs_ok demo_file_ok demo_fs_cache_ok)
qed

text \<open>\<^verbatim>\<open>number_entries\<close> counts the entries in use of a well-formed directory, so the emptiness test of
  \<^verbatim>\<open>dir_remove\<close> (more than the two entries every directory has) looks at what the directory holds.\<close>
theorem number_entries_correct:
  assumes "inodes s (dinode d) = Some i" "quiet i" "cache_ok s"
    and "file_ok (blk_size (fs_device s)) (view s) (isector i)"
  shows "\<exists>s'. number_entries d s = Some (length (filter e_in_use (dir_entries (view s) (isector i))), s') \<and>
              view s' = view s \<and> fs_rest s' = fs_rest s"
  using count_entries_spec [OF assms, of 0 0 0] by (auto simp: number_entries_def dest: same_viewD)

theorem number_entries_correct_witness:
  "\<exists>s'. number_entries \<lparr>dinode = 5, dpos = 0\<rparr> (demo_fs 20 demo_entries) =
      Some (length (filter e_in_use (dir_entries (view (demo_fs 20 demo_entries)) (isector demo_inode))), s') \<and>
        view s' = view (demo_fs 20 demo_entries) \<and> fs_rest s' = fs_rest (demo_fs 20 demo_entries)"
  by (rule number_entries_correct)
     (simp_all add: demo_fs_ok demo_file_ok demo_fs_cache_ok demo_entries_def)

end
