(* ===== verification/Filesys.thy ===== *)
theory Filesys
  imports Directory
begin

text \<open>
  \<^verbatim>\<open>filesys/filesys.c\<close>: parsing of path names, walking a path, creating, opening and removing files, and the
  start and end of the file system with the remaining functions of \<^verbatim>\<open>filesys/free-map.c\<close>. Paths are byte
  strings without their terminator; a \<^verbatim>\<open>char part[NAME_MAX + 1]\<close> is a list of 15 bytes.
\<close>

section \<open>Path names\<close>

definition SLASH :: byte where
  "SLASH = 47"

fun skip_slashes :: "byte list \<Rightarrow> byte list" where
  "skip_slashes [] = []"
| "skip_slashes (c # src) = (if c = SLASH then skip_slashes src else c # src)"

text \<open>The copying loop: \<^term>\<open>Inl\<close> with the bytes copied so far if the part is too long, \<^term>\<open>Inr\<close> with the
  part and the rest of the source.\<close>

fun copy_part :: "byte list \<Rightarrow> byte list \<Rightarrow> byte list + byte list \<times> byte list" where
  "copy_part dst [] = Inr (dst, [])"
| "copy_part dst (c # src) =
     (if c = SLASH then Inr (dst, c # src)
      else if length dst < NAME_MAX then copy_part (dst @ [c]) src
      else Inl dst)"

text \<open>Result: the status, the array \<^verbatim>\<open>part\<close>, and the new \<^verbatim>\<open>*srcp\<close>.\<close>

definition get_next_part :: "byte list \<Rightarrow> byte list \<Rightarrow> int \<times> byte list \<times> byte list" where
  "get_next_part part srcp =
     (let src = skip_slashes srcp in
      if src = [] then (0, part, srcp)
      else case copy_part [] src of
             Inl dst \<Rightarrow> (- 1, overwrite part 0 dst, srcp)
           | Inr (dst, rest) \<Rightarrow> (1, overwrite part 0 (dst @ [0]), rest))"

lemma copy_part_rest: "copy_part dst src = Inr (p, rest) \<Longrightarrow> length rest \<le> length src"
  by (induction dst src rule: copy_part.induct) (auto split: if_splits)

lemma skip_slashes_length: "length (skip_slashes src) \<le> length src"
  by (induction src) auto

lemma skip_slashes_head: "skip_slashes src = c # cs \<Longrightarrow> c \<noteq> SLASH"
  by (induction src) (auto split: if_splits)

lemma get_next_part_shorter: "get_next_part part src = (1, part', rest) \<Longrightarrow> length rest < length src"
proof -
  assume a: "get_next_part part src = (1, part', rest)"
  then obtain c cs where c: "skip_slashes src = c # cs"
    by (cases "skip_slashes src") (auto simp: get_next_part_def)
  with a obtain p where "copy_part [] (c # cs) = Inr (p, rest)"
    by (auto simp: get_next_part_def split: sum.splits)
  then have "length rest \<le> length cs"
    using skip_slashes_head [OF c] copy_part_rest by (auto simp: NAME_MAX_def)
  then show ?thesis using skip_slashes_length [of src] c by simp
qed

function get_filename_from_path :: "byte list \<Rightarrow> byte list \<Rightarrow> bool \<times> byte list" where
  "get_filename_from_path fp name =
     (case get_next_part name fp of
        (status, name', fp') \<Rightarrow>
          if status = 0 then (True, name')
          else if status = - 1 then (False, name')
          else if status = 1 then get_filename_from_path fp' name' else (False, name'))"
  by pat_completeness auto
termination
  by (relation "measure (\<lambda>(fp, name). length fp)") (auto dest: sym [THEN get_next_part_shorter])

declare get_filename_from_path.simps [simp del]

text \<open>The C string that an array holds; without a terminator the access runs past the array.\<close>

definition c_string :: "byte list \<Rightarrow> byte list option" where
  "c_string buf = (if 0 \<in> set buf then Some (takeWhile (\<lambda>c. c \<noteq> 0) buf) else None)"

section \<open>Walking a path\<close>

partial_function (option) last_dir_loop ::
    "dir option \<Rightarrow> dir option \<Rightarrow> byte list \<Rightarrow> byte list \<Rightarrow> fs \<Rightarrow> (dir option \<times> fs) option" where
  "last_dir_loop dir prev name fp s =
     (case get_next_part name fp of
        (status, name, fp) \<Rightarrow>
          if status = 0 then do { s \<leftarrow> dir_close dir s; Some (prev, s) }
          else do {
            d \<leftarrow> dir;
            str \<leftarrow> c_string name;
            (ipo, s) \<leftarrow> dir_lookup d str s;
            (case ipo of
               None \<Rightarrow>
                 (if fst (get_next_part name fp) \<noteq> 1 then do { s \<leftarrow> dir_close prev s; Some (dir, s) }
                  else do { s \<leftarrow> dir_close dir s; Some (None, s) })
             | Some ip \<Rightarrow> do {
                 (isd, s) \<leftarrow> is_dir ip s;
                 (if \<not> isd then
                    (if fst (get_next_part name fp) = 0 then do { s \<leftarrow> dir_close prev s; Some (dir, s) }
                     else do { s \<leftarrow> dir_close dir s; Some (None, s) })
                  else do {
                    s \<leftarrow> dir_close prev s;
                    (dir', s) \<leftarrow> dir_open (Some ip) s;
                    last_dir_loop dir' dir name fp s }) }) })"

text \<open>The state of the calling thread is its current directory \<open>cwd\<close>.\<close>

definition get_last_dir :: "byte list \<Rightarrow> dir option \<Rightarrow> fs \<Rightarrow> (dir option \<times> dir option \<times> fs) option" where
  "get_last_dir fp cwd s =
     (if fp = [] then Some (None, cwd, s)
      else do {
        (dir, cwd, s) \<leftarrow>
          (if hd fp = SLASH then do { (dir, s) \<leftarrow> dir_open_root s; Some (dir, cwd, s) }
           else do {
             (cwd, s) \<leftarrow> (if cwd = None then dir_open_root s else Some (cwd, s));
             c \<leftarrow> cwd;
             (dir, s) \<leftarrow> dir_reopen c s;
             Some (dir, cwd, s) });
        (r, s) \<leftarrow> last_dir_loop dir None (replicate (NAME_MAX + 1) 0) fp s;
        Some (r, cwd, s) })"

text \<open>The loop of \<^verbatim>\<open>verify_filepath\<close> returns whether the path is valid and the last inode it found.\<close>

partial_function (option) verify_loop ::
    "dir option \<Rightarrow> nat option \<Rightarrow> byte list \<Rightarrow> byte list \<Rightarrow> fs \<Rightarrow> (bool \<times> nat option \<times> fs) option" where
  "verify_loop dir ino name fp s =
     (case get_next_part name fp of
        (status, name, fp) \<Rightarrow>
          if status = 0 then Some (True, ino, s)
          else do {
            d \<leftarrow> dir;
            str \<leftarrow> c_string name;
            (ipo, s) \<leftarrow> dir_lookup d str s;
            (case ipo of
               None \<Rightarrow> do { s \<leftarrow> dir_close dir s; Some (False, None, s) }
             | Some ip \<Rightarrow> do {
                 (isd, s) \<leftarrow> is_dir ip s;
                 (if isd then do {
                    s \<leftarrow> dir_close dir s;
                    (dir', s) \<leftarrow> dir_open (Some ip) s;
                    verify_loop dir' ipo name fp s }
                  else if fst (get_next_part name fp) = 1 then do { s \<leftarrow> dir_close dir s; Some (False, ipo, s) }
                  else Some (True, ipo, s)) }) })"

text \<open>\<open>ino0\<close> is the value of \<^verbatim>\<open>*inode\<close> before the call.\<close>

definition verify_filepath ::
    "byte list \<Rightarrow> nat option \<Rightarrow> dir option \<Rightarrow> fs \<Rightarrow> (bool \<times> nat option \<times> dir option \<times> fs) option" where
  "verify_filepath fp ino0 cwd s =
     (if fp = [] then Some (False, ino0, cwd, s)
      else do {
        (dir, cwd, s) \<leftarrow>
          (case cwd of
             None \<Rightarrow> do { (d, s) \<leftarrow> dir_open_root s; Some (d, d, s) }
           | Some c \<Rightarrow> do { (d, s) \<leftarrow> dir_open (Some (dir_get_inode c)) s; Some (d, cwd, s) });
        (dir, ino, s) \<leftarrow>
          (if hd fp = SLASH then do {
             s \<leftarrow> dir_close dir s;
             (dir, s) \<leftarrow> dir_open_root s;
             d \<leftarrow> dir;
             Some (dir, Some (dir_get_inode d), s) }
           else Some (dir, ino0, s));
        (r, ino, s) \<leftarrow> verify_loop dir ino (replicate (NAME_MAX + 1) 0) fp s;
        Some (r, ino, cwd, s) })"

definition chdir :: "byte list \<Rightarrow> dir option \<Rightarrow> fs \<Rightarrow> (bool \<times> dir option \<times> fs) option" where
  "chdir name cwd s = do {
     (success, ino, cwd, s) \<leftarrow> verify_filepath name None cwd s;
     (if success then do { (d, s) \<leftarrow> dir_open ino s; Some (True, d, s) }
      else Some (False, cwd, s)) }"

section \<open>Creating, opening and removing\<close>

text \<open>\<open>junk\<close> stands for the uninitialised local arrays.\<close>

definition filesys_create ::
    "byte list \<Rightarrow> byte list \<Rightarrow> u32 \<Rightarrow> bool \<Rightarrow> dir option \<Rightarrow> fs \<Rightarrow> (bool \<times> dir option \<times> fs) option" where
  "filesys_create junk name initial_size isd cwd s = do {
     (dir, cwd, s) \<leftarrow> get_last_dir name cwd s;
     (case get_filename_from_path name (take 16 junk) of
        (False, _) \<Rightarrow> Some (False, cwd, s)
      | (True, filename) \<Rightarrow>
          (case dir of
             None \<Rightarrow> do { s \<leftarrow> dir_close dir s; Some (False, cwd, s) }
           | Some d \<Rightarrow> do {
               (r, s) \<leftarrow> free_map_allocate inode_write_at 1 s;
               (case r of
                  None \<Rightarrow> do { s \<leftarrow> dir_close dir s; Some (False, cwd, s) }
                | Some isec \<Rightarrow> do {
                    di \<leftarrow> inodes s (dinode d);
                    (created, s) \<leftarrow>
                      (if isd then dir_create (take 20 junk) isec initial_size (isector di) s
                       else inode_create inode_write_at isec initial_size s);
                    (success, s) \<leftarrow>
                      (if created then do {
                         str \<leftarrow> c_string filename;
                         dir_add (take 20 junk) d str isec s }
                       else Some (False, s));
                    s \<leftarrow> (if \<not> success \<and> isec \<noteq> 0 then free_map_release inode_write_at isec 1 s
                          else Some s);
                    s \<leftarrow> dir_close dir s;
                    Some (success, cwd, s) }) })) }"

datatype fhandle = FileH nat | DirH dir

text \<open>When the name is not found, the directory is not closed.\<close>

definition filesys_open ::
    "byte list \<Rightarrow> byte list \<Rightarrow> dir option \<Rightarrow> fs \<Rightarrow> (fhandle option \<times> dir option \<times> fs) option" where
  "filesys_open junk name cwd s =
     (if name = [SLASH] then do { (d, s) \<leftarrow> dir_open_root s; Some (map_option DirH d, cwd, s) }
      else do {
        (dir, cwd, s) \<leftarrow> get_last_dir name cwd s;
        (case dir of
           None \<Rightarrow> Some (None, cwd, s)
         | Some d \<Rightarrow> do {
             str \<leftarrow> c_string (snd (get_filename_from_path name (take 15 junk)));
             (ipo, s) \<leftarrow> dir_lookup d str s;
             (case ipo of
                None \<Rightarrow> Some (None, cwd, s)
              | Some ip \<Rightarrow> do {
                  s \<leftarrow> dir_close dir s;
                  (isd, s) \<leftarrow> is_dir ip s;
                  (if isd then do { (d, s) \<leftarrow> dir_open ipo s; Some (map_option DirH d, cwd, s) }
                   else do { (f, s) \<leftarrow> file_open ipo s; Some (map_option FileH f, cwd, s) }) }) }) })"

definition filesys_remove :: "byte list \<Rightarrow> byte list \<Rightarrow> dir option \<Rightarrow> fs \<Rightarrow> (bool \<times> dir option \<times> fs) option" where
  "filesys_remove junk name cwd s = do {
     (dir, cwd, s) \<leftarrow> get_last_dir name cwd s;
     (success, s) \<leftarrow>
       (case dir of
          None \<Rightarrow> Some (False, s)
        | Some d \<Rightarrow> do {
            str \<leftarrow> c_string (snd (get_filename_from_path name (take 15 junk)));
            dir_remove cwd d str s });
     s \<leftarrow> dir_close dir s;
     Some (success, cwd, s) }"

section \<open>The free map file, start and end of the file system\<close>

text \<open>\<open>garbage\<close> is the uninitialised array from \<^verbatim>\<open>malloc\<close>, \<^term>\<open>None\<close> if the allocation failed.\<close>

definition free_map_init :: "u32 list option \<Rightarrow> fs \<Rightarrow> fs option" where
  "free_map_init garbage s = do {
     bm \<leftarrow> bitmap_create (unat (block_size (fs_device s))) garbage;
     b \<leftarrow> bm;
     b \<leftarrow> bitmap_mark b (unat FREE_MAP_SECTOR);
     b \<leftarrow> bitmap_mark b (unat ROOT_DIR_SECTOR);
     Some (s\<lparr>free_map := b, free_map_lock := False\<rparr>) }"

definition open_free_map_file :: "fs \<Rightarrow> fs option" where
  "open_free_map_file s = do {
     (ipo, s) \<leftarrow> inode_open FREE_MAP_SECTOR s;
     (f, s) \<leftarrow> file_open ipo s;
     ASSERT (f \<noteq> None);
     Some (s\<lparr>free_map_file := f\<rparr>) }"

definition free_map_open :: "fs \<Rightarrow> fs option" where
  "free_map_open s = do {
     ASSERT (\<not> free_map_lock s);
     s \<leftarrow> open_free_map_file (s\<lparr>free_map_lock := True\<rparr>);
     fp \<leftarrow> free_map_file s;
     (ok, s) \<leftarrow>
       (if bit_cnt (free_map s) > 0 then do {
          let n = byte_cnt (bit_cnt (free_map s));
          (bs, s) \<leftarrow> file_read_at fp (of_nat n) 0 s;
          b \<leftarrow> bitmap_load (free_map s) bs;
          Some (length bs = n, s\<lparr>free_map := b\<rparr>) }
        else Some (True, s));
     ASSERT ok;
     Some (s\<lparr>free_map_lock := False\<rparr>) }"

definition free_map_close :: "fs \<Rightarrow> fs option" where
  "free_map_close s = do {
     ASSERT (\<not> free_map_lock s);
     let s = s\<lparr>free_map_lock := True\<rparr>;
     (ok, s) \<leftarrow> bitmap_write inode_write_at (free_map s) (free_map_file s) s;
     ASSERT ok;
     s \<leftarrow> file_close (free_map_file s) s;
     Some (s\<lparr>free_map_lock := False\<rparr>) }"

definition free_map_create :: "fs \<Rightarrow> fs option" where
  "free_map_create s = do {
     ASSERT (\<not> free_map_lock s);
     let s = s\<lparr>free_map_lock := True\<rparr>;
     (ok, s) \<leftarrow> inode_create inode_write_at FREE_MAP_SECTOR (of_nat (bitmap_file_size (free_map s))) s;
     ASSERT ok;
     s \<leftarrow> open_free_map_file s;
     (ok, s) \<leftarrow> bitmap_write inode_write_at (free_map s) (free_map_file s) s;
     ASSERT ok;
     Some (s\<lparr>free_map_lock := False\<rparr>) }"

definition do_format :: "byte list \<Rightarrow> fs \<Rightarrow> fs option" where
  "do_format junk s = do {
     s \<leftarrow> free_map_create s;
     (ok, s) \<leftarrow> dir_create junk ROOT_DIR_SECTOR 16 ROOT_DIR_SECTOR s;
     ASSERT ok;
     free_map_close s }"

definition inode_init :: "fs \<Rightarrow> fs" where
  "inode_init s = s\<lparr>open_inodes := [], open_inodes_lock := False, buffer_cache := []\<rparr>"

definition filesys_init :: "block option \<Rightarrow> bool \<Rightarrow> u32 list option \<Rightarrow> byte list \<Rightarrow> fs \<Rightarrow> fs option" where
  "filesys_init role format garbage junk s = do {
     dev \<leftarrow> role;
     s \<leftarrow> free_map_init garbage (inode_init (s\<lparr>fs_device := dev\<rparr>));
     s \<leftarrow> (if format then do_format junk s else Some s);
     free_map_open s }"

definition filesys_done :: "fs \<Rightarrow> fs option" where
  "filesys_done s = do { s \<leftarrow> write_all_dirty_sectors s; free_map_close s }"

section \<open>The components of a path\<close>

function components :: "byte list \<Rightarrow> byte list list" where
  "components p =
     (let q = dropWhile (\<lambda>c. c = SLASH) p in
      if q = [] then [] else takeWhile (\<lambda>c. c \<noteq> SLASH) q # components (dropWhile (\<lambda>c. c \<noteq> SLASH) q))"
  by pat_completeness auto
termination
proof (relation "measure length")
  fix p q :: "byte list"
  assume q: "q = dropWhile (\<lambda>c. c = SLASH) p" "q \<noteq> []"
  then have "hd q \<noteq> SLASH" using hd_dropWhile [of "\<lambda>c. c = SLASH" p] by blast
  then have "length (dropWhile (\<lambda>c. c \<noteq> SLASH) q) < length q"
    using q(2) by (cases q) (auto simp: length_dropWhile_le le_imp_less_Suc)
  moreover have "length q \<le> length p" using q(1) length_dropWhile_le by blast
  ultimately show "(dropWhile (\<lambda>c. c \<noteq> SLASH) q, p) \<in> measure length" by simp
qed simp

declare components.simps [simp del]

lemma skip_slashes_dropWhile: "skip_slashes src = dropWhile (\<lambda>c. c = SLASH) src"
  by (induction src) auto

lemma copy_part_spec:
  "length dst \<le> NAME_MAX \<Longrightarrow>
   copy_part dst src =
     (let p = takeWhile (\<lambda>c. c \<noteq> SLASH) src in
      if length dst + length p \<le> NAME_MAX then Inr (dst @ p, dropWhile (\<lambda>c. c \<noteq> SLASH) src)
      else Inl (take NAME_MAX (dst @ p)))"
  by (induction dst src rule: copy_part.induct) (auto simp: Let_def)

lemma get_next_part_spec:
  "get_next_part part src =
     (case components src of
        [] \<Rightarrow> (0, part, src)
      | c # cs \<Rightarrow> if length c \<le> NAME_MAX
                 then (1, overwrite part 0 (c @ [0]), dropWhile (\<lambda>c. c \<noteq> SLASH) (skip_slashes src))
                 else (- 1, overwrite part 0 (take NAME_MAX c), src))"
  by (simp add: get_next_part_def components.simps [of src] skip_slashes_dropWhile copy_part_spec Let_def)

lemma components_rest:
  "components src = c # cs \<Longrightarrow> components (dropWhile (\<lambda>c. c \<noteq> SLASH) (skip_slashes src)) = cs"
  by (simp add: components.simps [of src] skip_slashes_dropWhile Let_def split: if_splits)

lemma components_no_NUL:
  "0 \<notin> set p \<Longrightarrow> c \<in> set (components p) \<Longrightarrow> 0 \<notin> set c \<and> c \<noteq> [] \<and> SLASH \<notin> set c"
proof (induction p rule: components.induct)
  case (1 p)
  let ?q = "dropWhile (\<lambda>c. c = SLASH) p"
  have ne: "?q \<noteq> []" using 1(3) by (auto simp: components.simps [of p] Let_def split: if_splits)
  have nz: "0 \<notin> set ?q" using 1(2) by (meson set_dropWhileD)
  have hd: "hd ?q \<noteq> SLASH" using hd_dropWhile [OF ne] .
  have eq: "components p = takeWhile (\<lambda>c. c \<noteq> SLASH) ?q # components (dropWhile (\<lambda>c. c \<noteq> SLASH) ?q)"
    unfolding components.simps [of p] Let_def using ne by (rule if_not_P)
  from 1(3) consider "c = takeWhile (\<lambda>c. c \<noteq> SLASH) ?q" | "c \<in> set (components (dropWhile (\<lambda>c. c \<noteq> SLASH) ?q))"
    unfolding eq by (metis set_ConsD)
  then show ?case
  proof cases
    case 1
    then show ?thesis
      using nz ne hd by (cases ?q) (auto dest: set_takeWhileD)
  next
    case 2
    then show ?thesis
      using "1.IH" [OF refl ne] nz by (meson set_dropWhileD)
  qed
qed

lemma get_filename_ok:
  "\<forall>c \<in> set (components fp). length c \<le> NAME_MAX \<Longrightarrow>
   get_filename_from_path fp buf = (True, fold (\<lambda>c b. overwrite b 0 (c @ [0])) (components fp) buf)"
proof (induction fp buf rule: get_filename_from_path.induct)
  case (1 fp buf)
  show ?case
  proof (cases "components fp")
    case Nil
    then show ?thesis by (simp add: get_filename_from_path.simps [of fp] get_next_part_spec)
  next
    case (Cons c cs)
    let ?rest = "dropWhile (\<lambda>c. c \<noteq> SLASH) (skip_slashes fp)" and ?buf = "overwrite buf 0 (c @ [0])"
    have p: "get_next_part buf fp = (1, ?buf, ?rest)"
      using Cons 1(2) by (simp add: get_next_part_spec)
    have "get_filename_from_path ?rest ?buf = (True, fold (\<lambda>c b. overwrite b 0 (c @ [0])) cs ?buf)"
      using 1(1) [OF p [symmetric] refl] 1(2) Cons components_rest [OF Cons] by simp
    then show ?thesis using p Cons by (simp add: get_filename_from_path.simps [of fp])
  qed
qed

lemma get_filename_too_long:
  "\<exists>c \<in> set (components fp). \<not> length c \<le> NAME_MAX \<Longrightarrow> \<not> fst (get_filename_from_path fp buf)"
proof (induction fp buf rule: get_filename_from_path.induct)
  case (1 fp buf)
  obtain c cs where cs: "components fp = c # cs" using 1(2) by (cases "components fp") auto
  let ?rest = "dropWhile (\<lambda>c. c \<noteq> SLASH) (skip_slashes fp)" and ?buf = "overwrite buf 0 (c @ [0])"
  show ?case
  proof (cases "length c \<le> NAME_MAX")
    case True
    then have p: "get_next_part buf fp = (1, ?buf, ?rest)"
      using cs by (simp add: get_next_part_spec)
    then show ?thesis
      using 1(1) [OF p [symmetric] refl] 1(2) True cs components_rest [OF cs]
      by (simp add: get_filename_from_path.simps [of fp])
  next
    case False
    then show ?thesis using cs by (simp add: get_filename_from_path.simps [of fp] get_next_part_spec)
  qed
qed

lemma c_string_overwrite: "0 \<notin> set c \<Longrightarrow> c_string (overwrite b 0 (c @ [0])) = Some c"
proof -
  assume "0 \<notin> set c"
  then have "takeWhile (\<lambda>x. x \<noteq> 0) c = c" by (auto simp: takeWhile_eq_all_conv)
  then show ?thesis by (simp add: c_string_def overwrite_def takeWhile_tail)
qed

section \<open>Properties\<close>

text \<open>\<^verbatim>\<open>get_filename_from_path\<close> succeeds exactly if no component of the path is longer than
  \<^verbatim>\<open>NAME_MAX\<close> characters, and then leaves the last component of the path, terminated, in the buffer,
  provided that the path has a component. Components are the maximal substrings without a slash, so
  leading, trailing and repeated slashes do not matter.\<close>
theorem get_filename_from_path_correct:
  assumes "0 \<notin> set fp"
  shows "(fst (get_filename_from_path fp buf) \<longleftrightarrow> (\<forall>c \<in> set (components fp). length c \<le> NAME_MAX)) \<and>
    (fst (get_filename_from_path fp buf) \<and> components fp \<noteq> [] \<longrightarrow>
     c_string (snd (get_filename_from_path fp buf)) = Some (last (components fp)))"
proof (cases "\<forall>c \<in> set (components fp). length c \<le> NAME_MAX")
  case True
  have "c_string (fold (\<lambda>c b. overwrite b 0 (c @ [0])) (components fp) buf) = Some (last (components fp))"
    if ne: "components fp \<noteq> []"
  proof -
    obtain cs c where "components fp = cs @ [c]" using ne rev_exhaust by blast
    then show ?thesis using components_no_NUL [OF assms, of c] by (simp add: c_string_overwrite)
  qed
  then show ?thesis using get_filename_ok [OF True, of buf] True by simp
next
  case False
  then show ?thesis using get_filename_too_long [of fp buf] by auto
qed

theorem get_filename_from_path_correct_witness:
  "fst (get_filename_from_path [47, 97, 47, 47, 98] (replicate 16 0)) \<and>
   c_string (snd (get_filename_from_path [47, 97, 47, 47, 98] (replicate 16 0))) = Some [98]"
proof -
  have c: "components [47, 97, 47, 47, 98] = [[97], [98]]"
    by (simp add: components.simps [of "[47, 97, 47, 47, 98]"] components.simps [of "[47, 47, 98]"]
        components.simps [of "[]"] SLASH_def)
  show ?thesis
    using get_filename_from_path_correct [of "[47, 97, 47, 47, 98]" "replicate 16 0"]
    by (simp add: c NAME_MAX_def)
qed

end
