(* ===== verification/Threads.thy ===== *)
theory Threads
  imports Prelude
begin

text \<open>
  Kernel threads, the scheduler, interrupts and synchronization: \<^verbatim>\<open>threads/thread.c\<close>,
  \<^verbatim>\<open>threads/synch.c\<close> and the parts of \<^verbatim>\<open>threads/interrupt.c\<close> and \<^verbatim>\<open>devices/timer.c\<close> that drive preemption.

  A thread's kernel stack is a list of frames: what the thread does when it next runs, innermost call
  first. Code that runs with interrupts disabled is one transition; wherever interrupts may be on, a
  call is a frame of its own, so that a timer or device interrupt can come between any two of them.
  A switch of threads replaces the running thread and leaves the frames of the other one on its stack.
  The step relation \<open>kstep\<close> interleaves all of this with arbitrary thread bodies that call the
  kernel's interface; \<open>None\<close> is a failed \<^verbatim>\<open>ASSERT\<close>.
\<close>

section \<open>State\<close>

datatype thread_status = THREAD_RUNNING | THREAD_READY | THREAD_BLOCKED | THREAD_DYING

type_synonym tptr = nat

text \<open>A semaphore lives in a variable of its own, in a lock, or in the \<^verbatim>\<open>struct semaphore_elem\<close> on the
  stack of a thread in \<^verbatim>\<open>cond_wait\<close>.\<close>

datatype sema_addr = Sema nat | In_lock nat | Waiter tptr

record semaphore =
  sema_value :: u32
  waiters :: "tptr list"

record thread =
  tid :: int
  status :: thread_status
  tname :: string
  priority :: int
  has_pagedir :: bool

text \<open>What a thread and its parent share. It is allocated per thread and named by the thread's identifier.\<close>

record wait_status =
  dead :: semaphore
  exit_status :: int
  ws_tid :: int
  reference_count :: int
  ws_lock :: "semaphore \<times> tptr option"
  done_loading :: semaphore
  load_error :: int

datatype call =
    Sema_init nat u32 | Sema_down sema_addr | Sema_try_down sema_addr | Sema_up sema_addr
  | Lock_acquire nat | Lock_try_acquire nat | Lock_release nat
  | Cond_wait nat nat | Cond_signal nat nat | Cond_broadcast nat nat
  | Thread_create "tptr option" string int | Thread_yield | Set_level bool | Set_priority int

datatype frame =
    Call call
  | Down sema_addr bool \<comment> \<open>in the loop of \<^verbatim>\<open>sema_down\<close>, with \<^verbatim>\<open>old_level\<close>\<close>
  | Set_holder nat \<comment> \<open>in \<^verbatim>\<open>lock_acquire\<close>, after \<^verbatim>\<open>sema_down\<close>\<close>
  | Tid_read tptr | Tid_write int tptr \<comment> \<open>in \<^verbatim>\<open>allocate_tid\<close>: \<^verbatim>\<open>tid = next_tid++\<close>\<close>
  | Create_rest int tptr \<comment> \<open>in \<^verbatim>\<open>thread_create\<close>, after \<^verbatim>\<open>allocate_tid\<close>\<close>
  | Kernel_thread | Body | Exit \<comment> \<open>the three statements of \<^verbatim>\<open>kernel_thread\<close>\<close>
  | Idle_start sema_addr | Idle_loop | Idle_hlt \<comment> \<open>the function of the idle thread\<close>

record kernel =
  threads :: "tptr \<Rightarrow> thread option"
  stacks :: "tptr \<Rightarrow> frame list"
  saved_level :: "tptr \<Rightarrow> bool option" \<comment> \<open>\<^verbatim>\<open>old_level\<close> of a thread in \<^verbatim>\<open>thread_yield\<close>\<close>
  ready_list :: "tptr list"
  all_list :: "tptr list"
  idle_thread :: "tptr option"
  initial_thread :: tptr
  running :: tptr
  intr_on :: bool
  in_external_intr :: bool
  yield_on_return :: bool
  semas :: "sema_addr \<Rightarrow> semaphore"
  holder :: "nat \<Rightarrow> tptr option"
  conds :: "nat \<Rightarrow> tptr list"
  next_tid :: int
  thread_ticks :: nat
  idle_ticks :: int
  kernel_ticks :: int
  user_ticks :: int
  ticks :: int
  wait_statuses :: "int \<Rightarrow> wait_status option"
  children :: "tptr \<Rightarrow> int list"
  unexpected_cnt :: "u32 \<Rightarrow> u32"

definition tid_lock :: nat where
  "tid_lock = 0"

text \<open>The lock of the page allocator, \<^verbatim>\<open>palloc_lock\<close> of \<^verbatim>\<open>threads/palloc.c\<close>. A thread body takes it with
  \<open>Lock_acquire\<close> like any other lock.\<close>

definition palloc_lock :: nat where
  "palloc_lock = 1"

definition TIME_SLICE :: nat where
  "TIME_SLICE = 4"

definition PRI_MIN :: int where
  "PRI_MIN = 0"

definition PRI_DEFAULT :: int where
  "PRI_DEFAULT = 31"

definition PRI_MAX :: int where
  "PRI_MAX = 63"

section \<open>Interrupt level\<close>

definition intr_disable :: "kernel \<Rightarrow> bool \<times> kernel" where
  "intr_disable k = (intr_on k, k\<lparr>intr_on := False\<rparr>)"

definition intr_enable :: "kernel \<Rightarrow> (bool \<times> kernel) option" where
  "intr_enable k = do { ASSERT (\<not> in_external_intr k); Some (intr_on k, k\<lparr>intr_on := True\<rparr>) }"

definition intr_set_level :: "bool \<Rightarrow> kernel \<Rightarrow> (bool \<times> kernel) option" where
  "intr_set_level level k = (if level then intr_enable k else Some (intr_disable k))"

definition intr_yield_on_return :: "kernel \<Rightarrow> kernel option" where
  "intr_yield_on_return k = do { ASSERT (in_external_intr k); Some (k\<lparr>yield_on_return := True\<rparr>) }"

section \<open>Threads and the scheduler\<close>

definition push_frames :: "frame list \<Rightarrow> kernel \<Rightarrow> kernel" where
  "push_frames fs k = k\<lparr>stacks := (stacks k)(running k := fs @ stacks k (running k))\<rparr>"

definition set_status :: "tptr \<Rightarrow> thread_status \<Rightarrow> kernel \<Rightarrow> kernel option" where
  "set_status t st k = do {
     th \<leftarrow> threads k t;
     Some (k\<lparr>threads := (threads k)(t \<mapsto> th\<lparr>status := st\<rparr>)\<rparr>)
   }"

definition is_thread :: "tptr \<Rightarrow> kernel \<Rightarrow> bool" where
  "is_thread t k = (threads k t \<noteq> None)"

definition thread_current :: "kernel \<Rightarrow> tptr option" where
  "thread_current k = do {
     ASSERT (is_thread (running k) k);
     th \<leftarrow> threads k (running k);
     ASSERT (status th = THREAD_RUNNING);
     Some (running k)
   }"

definition next_thread_to_run :: "kernel \<Rightarrow> tptr option \<times> kernel" where
  "next_thread_to_run k =
     (case ready_list k of [] \<Rightarrow> (idle_thread k, k) | t # ts \<Rightarrow> (Some t, k\<lparr>ready_list := ts\<rparr>))"

text \<open>\<^verbatim>\<open>thread_schedule_tail\<close> runs on the new thread, and frees the page of a dead one with \<^verbatim>\<open>palloc_free_page\<close>, which
  acquires \<^verbatim>\<open>palloc_lock\<close>. The assertion of \<^verbatim>\<open>lock_acquire\<close>, that the new thread does not hold that lock
  already, is part of the model. What the model leaves out is the wait: when the lock is taken and the new
  thread is not its holder, the code blocks the new thread in the middle of the switch until the lock is
  released, and here the page is given up at once. (A new thread that was preempted in \<^verbatim>\<open>lock_acquire\<close> or
  \<^verbatim>\<open>lock_release\<close> of that very lock, between the change of the semaphore and that of the holder, waits for itself.)
  Nor does the model wake, at the end of \<^verbatim>\<open>palloc_free_page\<close>, a further thread that waits for the lock.
  \<^verbatim>\<open>process_activate\<close> loads the page directory of the new thread and its kernel stack, and does not touch the state
  modelled here.\<close>

definition thread_schedule_tail :: "tptr option \<Rightarrow> kernel \<Rightarrow> kernel option" where
  "thread_schedule_tail prev k = do {
     ASSERT (\<not> intr_on k);
     k \<leftarrow> set_status (running k) THREAD_RUNNING k;
     let k = k\<lparr>thread_ticks := 0\<rparr>;
     case prev of None \<Rightarrow> Some k
     | Some p \<Rightarrow> do {
         th \<leftarrow> threads k p;
         if status th = THREAD_DYING \<and> p \<noteq> initial_thread k then do {
           ASSERT (p \<noteq> running k);
           ASSERT (holder k palloc_lock \<noteq> Some (running k));
           Some (k\<lparr>threads := (threads k)(p := None)\<rparr>)
         } else Some k
       }
   }"

definition schedule :: "kernel \<Rightarrow> kernel option" where
  "schedule k = do {
     let cur = running k;
     let (next, k) = next_thread_to_run k;
     ASSERT (\<not> intr_on k);
     th \<leftarrow> threads k cur;
     ASSERT (status th \<noteq> THREAD_RUNNING);
     next \<leftarrow> next;
     ASSERT (is_thread next k);
     if cur \<noteq> next then thread_schedule_tail (Some cur) (k\<lparr>running := next\<rparr>)
     else thread_schedule_tail None k
   }"

definition thread_block :: "kernel \<Rightarrow> kernel option" where
  "thread_block k = do {
     ASSERT (\<not> in_external_intr k);
     ASSERT (\<not> intr_on k);
     t \<leftarrow> thread_current k;
     k \<leftarrow> set_status t THREAD_BLOCKED k;
     schedule k
   }"

definition thread_unblock :: "tptr \<Rightarrow> kernel \<Rightarrow> kernel option" where
  "thread_unblock t k = do {
     ASSERT (is_thread t k);
     let (old_level, k) = intr_disable k;
     th \<leftarrow> threads k t;
     ASSERT (status th = THREAD_BLOCKED);
     let k = k\<lparr>ready_list := ready_list k @ [t]\<rparr>;
     k \<leftarrow> set_status t THREAD_READY k;
     (_, k) \<leftarrow> intr_set_level old_level k;
     Some k
   }"

definition thread_yield :: "kernel \<Rightarrow> kernel option" where
  "thread_yield k = do {
     cur \<leftarrow> thread_current k;
     ASSERT (\<not> in_external_intr k);
     let (old_level, k) = intr_disable k;
     let k = (if Some cur \<noteq> idle_thread k then k\<lparr>ready_list := ready_list k @ [cur]\<rparr> else k);
     k \<leftarrow> set_status cur THREAD_READY k;
     schedule (k\<lparr>saved_level := (saved_level k)(cur \<mapsto> old_level)\<rparr>)
   }"

definition thread_yield_return :: "bool \<Rightarrow> kernel \<Rightarrow> kernel option" where
  "thread_yield_return old_level k = do {
     (_, k) \<leftarrow> intr_set_level old_level (k\<lparr>saved_level := (saved_level k)(running k := None)\<rparr>);
     Some k
   }"

text \<open>The process side of \<^verbatim>\<open>thread_exit\<close>, which closes files and frees the address space, works on the
  exiting thread alone; here is what \<^verbatim>\<open>thread_exit\<close> does to the scheduler's state. It does not return, so
  the thread's frames are given up.\<close>

definition thread_exit :: "kernel \<Rightarrow> kernel option" where
  "thread_exit k = do {
     ASSERT (\<not> in_external_intr k);
     let (_, k) = intr_disable k;
     t \<leftarrow> thread_current k;
     let k = k\<lparr>all_list := remove1 t (all_list k), stacks := (stacks k)(t := [])\<rparr>;
     k \<leftarrow> set_status t THREAD_DYING k;
     schedule k
   }"

definition init_thread :: "tptr \<Rightarrow> string \<Rightarrow> int \<Rightarrow> kernel \<Rightarrow> kernel option" where
  "init_thread t name prio k = do {
     ASSERT (t \<noteq> 0);
     ASSERT (PRI_MIN \<le> prio \<and> prio \<le> PRI_MAX);
     Some (k\<lparr>threads := (threads k)(t \<mapsto> \<lparr>tid = 0, status = THREAD_BLOCKED, tname = [],
                                           priority = prio, has_pagedir = False\<rparr>),
             stacks := (stacks k)(t := []),
             saved_level := (saved_level k)(t := None),
             children := (children k)(t := []),
             all_list := all_list k @ [t]\<rparr>)
   }"

definition init_wait_status :: "int \<Rightarrow> wait_status" where
  "init_wait_status v = \<lparr>dead = \<lparr>sema_value = 0, waiters = []\<rparr>, exit_status = 0, ws_tid = v, reference_count = 2,
     ws_lock = (\<lparr>sema_value = 1, waiters = []\<rparr>, None), done_loading = \<lparr>sema_value = 0, waiters = []\<rparr>,
     load_error = 0\<rparr>"

text \<open>\<^verbatim>\<open>thread_create\<close> up to the call of \<^verbatim>\<open>allocate_tid\<close>, given the page that \<^verbatim>\<open>palloc_get_page\<close> returns.\<close>

definition thread_create :: "tptr option \<Rightarrow> string \<Rightarrow> int \<Rightarrow> kernel \<Rightarrow> kernel option" where
  "thread_create page name prio k = (case page of None \<Rightarrow> Some k
     | Some t \<Rightarrow> do {
         k \<leftarrow> init_thread t name prio k;
         Some (push_frames [Call (Lock_acquire tid_lock), Tid_read t] k)
       })"

definition allocate_tid_read :: "tptr \<Rightarrow> kernel \<Rightarrow> kernel" where
  "allocate_tid_read t k = push_frames [Tid_write (next_tid k) t] k"

definition allocate_tid_write :: "int \<Rightarrow> tptr \<Rightarrow> kernel \<Rightarrow> kernel option" where
  "allocate_tid_write v t k = do {
     ASSERT (v < 2 ^ 31 - 1);
     Some (push_frames [Call (Lock_release tid_lock), Create_rest v t] (k\<lparr>next_tid := v + 1\<rparr>))
   }"

definition thread_create_rest :: "frame list \<Rightarrow> int \<Rightarrow> tptr \<Rightarrow> kernel \<Rightarrow> kernel option" where
  "thread_create_rest function v t k = do {
     th \<leftarrow> threads k t;
     let k = k\<lparr>threads := (threads k)(t \<mapsto> th\<lparr>tid := v\<rparr>),
               stacks := (stacks k)(t := Kernel_thread # function),
               wait_statuses := (wait_statuses k)(v \<mapsto> init_wait_status v)\<rparr>;
     cur \<leftarrow> thread_current k;
     thread_unblock t (k\<lparr>children := (children k)(cur := v # children k cur)\<rparr>)
   }"

definition thread_tick :: "kernel \<Rightarrow> kernel option" where
  "thread_tick k = do {
     t \<leftarrow> thread_current k;
     th \<leftarrow> threads k t;
     let k = (if Some t = idle_thread k then k\<lparr>idle_ticks := idle_ticks k + 1\<rparr>
              else if has_pagedir th then k\<lparr>user_ticks := user_ticks k + 1\<rparr>
              else k\<lparr>kernel_ticks := kernel_ticks k + 1\<rparr>);
     let k = k\<lparr>thread_ticks := thread_ticks k + 1\<rparr>;
     if thread_ticks k \<ge> TIME_SLICE then intr_yield_on_return k else Some k
   }"

definition thread_set_priority :: "int \<Rightarrow> kernel \<Rightarrow> kernel option" where
  "thread_set_priority p k = do {
     t \<leftarrow> thread_current k;
     th \<leftarrow> threads k t;
     Some (k\<lparr>threads := (threads k)(t \<mapsto> th\<lparr>priority := p\<rparr>)\<rparr>)
   }"

definition thread_get_priority :: "kernel \<Rightarrow> int option" where
  "thread_get_priority k = do { t \<leftarrow> thread_current k; th \<leftarrow> threads k t; Some (priority th) }"

definition timer_interrupt :: "kernel \<Rightarrow> kernel option" where
  "timer_interrupt k = thread_tick (k\<lparr>ticks := ticks k + 1\<rparr>)"

section \<open>Semaphores\<close>

definition set_sema :: "sema_addr \<Rightarrow> semaphore \<Rightarrow> kernel \<Rightarrow> kernel" where
  "set_sema s x k = k\<lparr>semas := (semas k)(s := x)\<rparr>"

definition sema_init :: "sema_addr \<Rightarrow> u32 \<Rightarrow> kernel \<Rightarrow> kernel" where
  "sema_init s v k = set_sema s \<lparr>sema_value = v, waiters = []\<rparr> k"

definition sema_down_loop :: "sema_addr \<Rightarrow> bool \<Rightarrow> kernel \<Rightarrow> kernel option" where
  "sema_down_loop s old_level k =
     (let x = semas k s in
      if sema_value x = 0 then do {
        t \<leftarrow> thread_current k;
        thread_block (push_frames [Down s old_level] (set_sema s (x\<lparr>waiters := waiters x @ [t]\<rparr>) k))
      } else do {
        (_, k) \<leftarrow> intr_set_level old_level (set_sema s (x\<lparr>sema_value := sema_value x - 1\<rparr>) k);
        Some k
      })"

definition sema_down :: "sema_addr \<Rightarrow> kernel \<Rightarrow> kernel option" where
  "sema_down s k = do {
     ASSERT (\<not> in_external_intr k);
     let (old_level, k) = intr_disable k;
     sema_down_loop s old_level k
   }"

definition sema_try_down :: "sema_addr \<Rightarrow> kernel \<Rightarrow> (bool \<times> kernel) option" where
  "sema_try_down s k = do {
     let (old_level, k) = intr_disable k;
     let x = semas k s;
     let success = (sema_value x > 0);
     let k = (if success then set_sema s (x\<lparr>sema_value := sema_value x - 1\<rparr>) k else k);
     (_, k) \<leftarrow> intr_set_level old_level k;
     Some (success, k)
   }"

definition sema_up :: "sema_addr \<Rightarrow> kernel \<Rightarrow> kernel option" where
  "sema_up s k = do {
     let (old_level, k) = intr_disable k;
     k \<leftarrow> (case waiters (semas k s) of [] \<Rightarrow> Some k
            | t # ts \<Rightarrow> thread_unblock t (set_sema s ((semas k s)\<lparr>waiters := ts\<rparr>) k));
     let x = semas k s;
     (_, k) \<leftarrow> intr_set_level old_level (set_sema s (x\<lparr>sema_value := sema_value x + 1\<rparr>) k);
     Some k
   }"

section \<open>Locks and condition variables\<close>

definition lock_init :: "nat \<Rightarrow> kernel \<Rightarrow> kernel" where
  "lock_init l k = sema_init (In_lock l) 1 (k\<lparr>holder := (holder k)(l := None)\<rparr>)"

definition lock_held_by_current_thread :: "nat \<Rightarrow> kernel \<Rightarrow> bool option" where
  "lock_held_by_current_thread l k = do { t \<leftarrow> thread_current k; Some (holder k l = Some t) }"

definition lock_acquire :: "nat \<Rightarrow> kernel \<Rightarrow> kernel option" where
  "lock_acquire l k = do {
     ASSERT (\<not> in_external_intr k);
     held \<leftarrow> lock_held_by_current_thread l k;
     ASSERT (\<not> held);
     Some (push_frames [Call (Sema_down (In_lock l)), Set_holder l] k)
   }"

definition lock_set_holder :: "nat \<Rightarrow> kernel \<Rightarrow> kernel option" where
  "lock_set_holder l k = do { t \<leftarrow> thread_current k; Some (k\<lparr>holder := (holder k)(l \<mapsto> t)\<rparr>) }"

definition lock_try_acquire :: "nat \<Rightarrow> kernel \<Rightarrow> (bool \<times> kernel) option" where
  "lock_try_acquire l k = do {
     held \<leftarrow> lock_held_by_current_thread l k;
     ASSERT (\<not> held);
     (success, k) \<leftarrow> sema_try_down (In_lock l) k;
     Some (success, if success then push_frames [Set_holder l] k else k)
   }"

definition lock_release :: "nat \<Rightarrow> kernel \<Rightarrow> kernel option" where
  "lock_release l k = do {
     held \<leftarrow> lock_held_by_current_thread l k;
     ASSERT held;
     Some (push_frames [Call (Sema_up (In_lock l))] (k\<lparr>holder := (holder k)(l := None)\<rparr>))
   }"

definition cond_init :: "nat \<Rightarrow> kernel \<Rightarrow> kernel" where
  "cond_init c k = k\<lparr>conds := (conds k)(c := [])\<rparr>"

definition cond_wait :: "nat \<Rightarrow> nat \<Rightarrow> kernel \<Rightarrow> kernel option" where
  "cond_wait c l k = do {
     ASSERT (\<not> in_external_intr k);
     held \<leftarrow> lock_held_by_current_thread l k;
     ASSERT held;
     let t = running k;
     let k = sema_init (Waiter t) 0 k;
     let k = k\<lparr>conds := (conds k)(c := conds k c @ [t])\<rparr>;
     Some (push_frames [Call (Lock_release l), Call (Sema_down (Waiter t)), Call (Lock_acquire l)] k)
   }"

definition cond_signal :: "nat \<Rightarrow> nat \<Rightarrow> kernel \<Rightarrow> kernel option" where
  "cond_signal c l k = do {
     ASSERT (\<not> in_external_intr k);
     held \<leftarrow> lock_held_by_current_thread l k;
     ASSERT held;
     case conds k c of [] \<Rightarrow> Some k
     | t # ts \<Rightarrow> Some (push_frames [Call (Sema_up (Waiter t))] (k\<lparr>conds := (conds k)(c := ts)\<rparr>))
   }"

definition cond_broadcast :: "nat \<Rightarrow> nat \<Rightarrow> kernel \<Rightarrow> kernel option" where
  "cond_broadcast c l k =
     (if conds k c = [] then Some k
      else Some (push_frames [Call (Cond_signal c l), Call (Cond_broadcast c l)] k))"

section \<open>The idle thread and interrupt handling\<close>

definition idle_init :: "sema_addr \<Rightarrow> kernel \<Rightarrow> kernel option" where
  "idle_init s k = do {
     t \<leftarrow> thread_current k;
     Some (push_frames [Call (Sema_up s), Idle_loop] (k\<lparr>idle_thread := Some t\<rparr>))
   }"

definition idle_block :: "kernel \<Rightarrow> kernel option" where
  "idle_block k = do {
     let (_, k) = intr_disable k;
     thread_block (push_frames [Idle_hlt] k)
   }"

definition idle_halt :: "kernel \<Rightarrow> kernel" where
  "idle_halt k = push_frames [Idle_loop] (k\<lparr>intr_on := True\<rparr>)"

text \<open>External interrupts: the timer, a device whose handler ups a semaphore, and an interrupt vector without
  a handler.\<close>

definition unexpected_interrupt :: "u32 \<Rightarrow> kernel \<Rightarrow> kernel" where
  "unexpected_interrupt vec k = k\<lparr>unexpected_cnt := (unexpected_cnt k)(vec := unexpected_cnt k vec + 1)\<rparr>"

datatype handler = Timer | Device nat | No_handler u32

fun run_handler :: "handler \<Rightarrow> kernel \<Rightarrow> kernel option" where
  "run_handler Timer k = timer_interrupt k"
| "run_handler (Device n) k = sema_up (Sema n) k"
| "run_handler (No_handler vec) k = Some (if vec = 0x27 \<or> vec = 0x2f then k else unexpected_interrupt vec k)"

definition intr_handler :: "handler \<Rightarrow> kernel \<Rightarrow> kernel option" where
  "intr_handler h k = do {
     ASSERT (\<not> intr_on k);
     ASSERT (\<not> in_external_intr k);
     k \<leftarrow> run_handler h (k\<lparr>in_external_intr := True, yield_on_return := False\<rparr>);
     ASSERT (\<not> intr_on k);
     ASSERT (in_external_intr k);
     let k = k\<lparr>in_external_intr := False\<rparr>;
     if yield_on_return k then thread_yield k else Some k
   }"

text \<open>The processor disables interrupts on entry through an interrupt gate; the interrupted thread's
  \<^verbatim>\<open>iret\<close> enables them again, at once or after it has been scheduled again.\<close>

definition external_interrupt :: "handler \<Rightarrow> kernel \<Rightarrow> kernel option" where
  "external_interrupt h k = do {
     let t = running k;
     k \<leftarrow> intr_handler h (k\<lparr>intr_on := False\<rparr>);
     Some (if saved_level k t = None then k\<lparr>intr_on := True\<rparr>
           else k\<lparr>saved_level := (saved_level k)(t \<mapsto> True)\<rparr>)
   }"

section \<open>Steps\<close>

definition exec_call :: "call \<Rightarrow> kernel \<Rightarrow> kernel option" where
  "exec_call c k = (case c of
     Sema_init n v \<Rightarrow> Some (sema_init (Sema n) v k)
   | Sema_down s \<Rightarrow> sema_down s k
   | Sema_try_down s \<Rightarrow> map_option snd (sema_try_down s k)
   | Sema_up s \<Rightarrow> sema_up s k
   | Lock_acquire l \<Rightarrow> lock_acquire l k
   | Lock_try_acquire l \<Rightarrow> map_option snd (lock_try_acquire l k)
   | Lock_release l \<Rightarrow> lock_release l k
   | Cond_wait c l \<Rightarrow> cond_wait c l k
   | Cond_signal c l \<Rightarrow> cond_signal c l k
   | Cond_broadcast c l \<Rightarrow> cond_broadcast c l k
   | Thread_create page name prio \<Rightarrow> thread_create page name prio k
   | Thread_yield \<Rightarrow> thread_yield k
   | Set_level b \<Rightarrow> map_option snd (intr_set_level b k)
   | Set_priority p \<Rightarrow> thread_set_priority p k)"

definition exec_frame :: "frame \<Rightarrow> kernel \<Rightarrow> kernel option" where
  "exec_frame f k = (case f of
     Call c \<Rightarrow> exec_call c k
   | Down s old_level \<Rightarrow> sema_down_loop s old_level k
   | Set_holder l \<Rightarrow> lock_set_holder l k
   | Tid_read t \<Rightarrow> Some (allocate_tid_read t k)
   | Tid_write v t \<Rightarrow> allocate_tid_write v t k
   | Create_rest v t \<Rightarrow> thread_create_rest [Body, Exit] v t k
   | Kernel_thread \<Rightarrow> map_option snd (intr_enable k)
   | Body \<Rightarrow> Some k
   | Exit \<Rightarrow> thread_exit k
   | Idle_start s \<Rightarrow> idle_init s k
   | Idle_loop \<Rightarrow> idle_block k
   | Idle_hlt \<Rightarrow> Some (idle_halt k))"

text \<open>What a thread body may call: semaphores of its own, every operation on locks and condition
  variables, and the thread operations. A semaphore is not initialized while threads wait for it, and
  the page for a new thread is not in use.\<close>

definition client_ok :: "call \<Rightarrow> kernel \<Rightarrow> bool" where
  "client_ok c k = (case c of
     Sema_init n v \<Rightarrow> waiters (semas k (Sema n)) = []
   | Sema_down s \<Rightarrow> (\<exists>n. s = Sema n)
   | Sema_try_down s \<Rightarrow> (\<exists>n. s = Sema n)
   | Sema_up s \<Rightarrow> (\<exists>n. s = Sema n)
   | Thread_create page name prio \<Rightarrow> (\<forall>t. page = Some t \<longrightarrow> threads k t = None)
   | _ \<Rightarrow> True)"

datatype event = Run | Interrupt handler

inductive kstep :: "kernel \<Rightarrow> event \<Rightarrow> kernel \<Rightarrow> bool" where
  resume: "saved_level k (running k) = Some b \<Longrightarrow> thread_yield_return b k = Some k' \<Longrightarrow> kstep k Run k'"
| frame: "saved_level k (running k) = None \<Longrightarrow> stacks k (running k) = f # fs \<Longrightarrow>
     exec_frame f (k\<lparr>stacks := (stacks k)(running k := fs)\<rparr>) = Some k' \<Longrightarrow> kstep k Run k'"
| body: "saved_level k (running k) = None \<Longrightarrow> stacks k (running k) = Body # fs \<Longrightarrow>
     client_ok c k \<Longrightarrow> exec_call c k = Some k' \<Longrightarrow> kstep k Run k'"
| interrupt: "intr_on k \<Longrightarrow> external_interrupt h k = Some k' \<Longrightarrow> kstep k (Interrupt h) k'"

inductive ksteps :: "kernel \<Rightarrow> event list \<Rightarrow> kernel \<Rightarrow> bool" where
  ksteps_refl: "ksteps k [] k"
| ksteps_step: "ksteps k es k' \<Longrightarrow> kstep k' e k'' \<Longrightarrow> ksteps k (es @ [e]) k''"

section \<open>Start of the thread system\<close>

text \<open>\<^verbatim>\<open>allocate_tid\<close> in one piece, as it runs during the start, where interrupts are off and the lock is
  free.\<close>

definition allocate_tid :: "kernel \<Rightarrow> (int \<times> kernel) option" where
  "allocate_tid k = do {
     k \<leftarrow> sema_down (In_lock tid_lock) k;
     k \<leftarrow> lock_set_holder tid_lock k;
     let t = next_tid k;
     ASSERT (t < 2 ^ 31 - 1);
     let k = k\<lparr>next_tid := t + 1, holder := (holder k)(tid_lock := None)\<rparr>;
     k \<leftarrow> sema_up (In_lock tid_lock) k;
     Some (t, k)
   }"

definition thread_init :: "kernel \<Rightarrow> kernel option" where
  "thread_init k = do {
     ASSERT (\<not> intr_on k);
     let k = lock_init tid_lock k;
     let main = running k;
     let k = k\<lparr>ready_list := [], all_list := [], initial_thread := main\<rparr>;
     k \<leftarrow> init_thread main ''main'' PRI_DEFAULT k;
     k \<leftarrow> set_status main THREAD_RUNNING k;
     (v, k) \<leftarrow> allocate_tid k;
     th \<leftarrow> threads k main;
     Some (k\<lparr>threads := (threads k)(main \<mapsto> th\<lparr>tid := v\<rparr>), stacks := (stacks k)(main := [Body, Exit])\<rparr>)
   }"

definition idle_started :: sema_addr where
  "idle_started = Sema 0"

definition thread_start :: "tptr \<Rightarrow> kernel \<Rightarrow> kernel option" where
  "thread_start idle k = do {
     let k = sema_init idle_started 0 k;
     k \<leftarrow> init_thread idle ''idle'' PRI_MIN k;
     (v, k) \<leftarrow> allocate_tid k;
     k \<leftarrow> thread_create_rest [Idle_start idle_started, Exit] v idle k;
     (_, k) \<leftarrow> intr_enable k;
     Some (push_frames [Call (Sema_down idle_started)] k)
   }"

definition bss :: "tptr \<Rightarrow> kernel" where
  "bss main = \<lparr>threads = Map.empty, stacks = (\<lambda>_. []), saved_level = Map.empty, ready_list = [], all_list = [],
     idle_thread = None, initial_thread = 0, running = main, intr_on = False, in_external_intr = False,
     yield_on_return = False,
     semas = (\<lambda>s. \<lparr>sema_value = (case s of In_lock l \<Rightarrow> 1 | _ \<Rightarrow> 0), waiters = []\<rparr>), holder = Map.empty,
     conds = (\<lambda>_. []), next_tid = 1, thread_ticks = 0, idle_ticks = 0, kernel_ticks = 0, user_ticks = 0,
     ticks = 0, wait_statuses = Map.empty, children = (\<lambda>_. []), unexpected_cnt = (\<lambda>_. 0)\<rparr>"

definition boot :: "tptr \<Rightarrow> tptr \<Rightarrow> kernel option" where
  "boot main idle = do { k \<leftarrow> thread_init (bss main); thread_start idle k }"

definition reachable :: "tptr \<Rightarrow> tptr \<Rightarrow> kernel \<Rightarrow> bool" where
  "reachable main idle k = (main \<noteq> 0 \<and> idle \<noteq> 0 \<and> main \<noteq> idle \<and> (\<exists>k0 es. boot main idle = Some k0 \<and> ksteps k0 es k))"

end
