(* ===== verification/Scheduler.thy ===== *)
theory Scheduler
  imports Threads
begin

text \<open>
  Invariants of the thread system over every interleaving of threads and interrupts: the queues of the
  scheduler and of the semaphores, ownership of locks, and the creation of threads.
\<close>

section \<open>Invariants\<close>

definition stat :: "kernel \<Rightarrow> tptr \<Rightarrow> thread_status option" where
  "stat k t = map_option status (threads k t)"

definition in_down :: "kernel \<Rightarrow> sema_addr \<Rightarrow> tptr \<Rightarrow> bool" where
  "in_down k s t = (\<exists>b fs. stacks k t = Down s b # fs)"

text \<open>The ready list holds the ready threads other than the idle thread, and a semaphore's wait list the
  blocked threads that are inside \<^verbatim>\<open>sema_down\<close> on it.\<close>

definition queues_ok :: "kernel \<Rightarrow> bool" where
  "queues_ok k \<longleftrightarrow> distinct (ready_list k) \<and>
     (\<forall>t. t \<in> set (ready_list k) \<longleftrightarrow> stat k t = Some THREAD_READY \<and> idle_thread k \<noteq> Some t) \<and>
     (\<forall>s. distinct (waiters (semas k s))) \<and>
     (\<forall>s t. t \<in> set (waiters (semas k s)) \<longleftrightarrow> stat k t = Some THREAD_BLOCKED \<and> in_down k s t)"

definition running_ok :: "kernel \<Rightarrow> bool" where
  "running_ok k \<longleftrightarrow> (\<forall>t. stat k t = Some THREAD_RUNNING \<longleftrightarrow> t = running k)"

fun idle_frame :: "frame \<Rightarrow> bool" where
  "idle_frame (Idle_start _) = True"
| "idle_frame Idle_loop = True"
| "idle_frame Idle_hlt = True"
| "idle_frame _ = False"

definition idle_stack :: "kernel \<Rightarrow> frame list \<Rightarrow> bool" where
  "idle_stack k fs \<longleftrightarrow>
     (if idle_thread k = None then fs = [Kernel_thread, Idle_start idle_started, Exit] \<or> fs = [Idle_start idle_started, Exit]
      else fs = [Call (Sema_up idle_started), Idle_loop, Exit] \<or> fs = [Idle_loop, Exit] \<or> fs = [Idle_hlt, Exit])"

definition idle_ok :: "tptr \<Rightarrow> kernel \<Rightarrow> bool" where
  "idle_ok i k \<longleftrightarrow> (\<forall>t f. t \<noteq> i \<longrightarrow> f \<in> set (stacks k t) \<longrightarrow> \<not> idle_frame f) \<and>
     (idle_thread k = None \<or> idle_thread k = Some i) \<and> idle_stack k (stacks k i) \<and>
     stat k i \<noteq> None \<and> stat k i \<noteq> Some THREAD_DYING \<and>
     (stat k i = Some THREAD_BLOCKED \<longrightarrow> stacks k i = [Idle_hlt, Exit])"

text \<open>Which frames can lie below the innermost one, and what lies below the frames of \<^verbatim>\<open>sema_down\<close>.\<close>

fun lower_frame :: "tptr \<Rightarrow> frame \<Rightarrow> bool" where
  "lower_frame t (Call c) = (case c of Sema_down s \<Rightarrow> s = Waiter t | Lock_acquire _ \<Rightarrow> True | Lock_release _ \<Rightarrow> True
     | Cond_signal _ _ \<Rightarrow> True | Cond_broadcast _ _ \<Rightarrow> True | _ \<Rightarrow> False)"
| "lower_frame t (Tid_read _) = True"
| "lower_frame t (Create_rest _ _) = True"
| "lower_frame t Body = True"
| "lower_frame t Exit = True"
| "lower_frame t (Idle_start _) = True"
| "lower_frame t Idle_loop = True"
| "lower_frame t _ = False"

definition below_down :: "tptr \<Rightarrow> sema_addr \<Rightarrow> frame list \<Rightarrow> bool" where
  "below_down t s fs = (case s of
     Sema _ \<Rightarrow> list_all (lower_frame t) fs
   | Waiter u \<Rightarrow> u = t \<and> list_all (lower_frame t) fs
   | In_lock l \<Rightarrow> (case fs of Set_holder l' # gs \<Rightarrow> l' = l \<and> list_all (lower_frame t) gs | _ \<Rightarrow> False))"

fun stack_ok :: "tptr \<Rightarrow> frame list \<Rightarrow> bool" where
  "stack_ok t [] = True"
| "stack_ok t (Down s b # fs) = below_down t s fs"
| "stack_ok t (Call (Sema_down s) # fs) = below_down t s fs"
| "stack_ok t (Call (Sema_up s) # fs) = list_all (lower_frame t) fs"
| "stack_ok t (Set_holder l # fs) = list_all (lower_frame t) fs"
| "stack_ok t (Tid_write v u # fs) = list_all (lower_frame t) fs"
| "stack_ok t (Kernel_thread # fs) = list_all (lower_frame t) fs"
| "stack_ok t (Idle_hlt # fs) = list_all (lower_frame t) fs"
| "stack_ok t fs = list_all (lower_frame t) fs"

text \<open>A thread owns a lock from the moment \<^verbatim>\<open>sema_down\<close> in \<^verbatim>\<open>lock_acquire\<close> succeeds until \<^verbatim>\<open>sema_up\<close> in
  \<^verbatim>\<open>lock_release\<close>.\<close>

fun transit :: "nat \<Rightarrow> frame list \<Rightarrow> bool" where
  "transit l (Set_holder l' # _) = (l' = l)"
| "transit l (Call (Sema_up (In_lock l')) # _) = (l' = l)"
| "transit l _ = False"

definition owns :: "kernel \<Rightarrow> nat \<Rightarrow> tptr \<Rightarrow> bool" where
  "owns k l t \<longleftrightarrow> holder k l = Some t \<or> transit l (stacks k t)"

definition lock_ok :: "kernel \<Rightarrow> nat \<Rightarrow> bool" where
  "lock_ok k l \<longleftrightarrow> (\<forall>t. transit l (stacks k t) \<longrightarrow> holder k l = None) \<and>
     (sema_value (semas k (In_lock l)) = 1 \<and> (\<forall>t. \<not> owns k l t) \<or>
      sema_value (semas k (In_lock l)) = 0 \<and> (\<exists>!t. owns k l t))"

text \<open>A thread that is being created is blocked and has no stack yet, and one thread creates it.\<close>

fun nascent :: "frame list \<Rightarrow> tptr list" where
  "nascent [] = []"
| "nascent (Tid_read u # fs) = u # nascent fs"
| "nascent (Tid_write v u # fs) = u # nascent fs"
| "nascent (Create_rest v u # fs) = u # nascent fs"
| "nascent (_ # fs) = nascent fs"

definition nascent_ok :: "kernel \<Rightarrow> bool" where
  "nascent_ok k \<longleftrightarrow>
     (\<forall>t u. u \<in> set (nascent (stacks k t)) \<longrightarrow> stat k u = Some THREAD_BLOCKED \<and> stacks k u = []) \<and>
     (\<forall>t. distinct (nascent (stacks k t))) \<and>
     (\<forall>t t' u. u \<in> set (nascent (stacks k t)) \<longrightarrow> u \<in> set (nascent (stacks k t')) \<longrightarrow> t = t')"

definition kinv :: "tptr \<Rightarrow> kernel \<Rightarrow> bool" where
  "kinv i k \<longleftrightarrow> queues_ok k \<and> running_ok k \<and> idle_ok i k \<and> \<not> in_external_intr k \<and> thread_ticks k < TIME_SLICE \<and>
     (\<forall>t. stack_ok t (stacks k t)) \<and> (\<forall>t. stat k t = None \<longrightarrow> stacks k t = []) \<and>
     nascent_ok k"

definition locks_ok :: "kernel \<Rightarrow> bool" where
  "locks_ok k \<longleftrightarrow> (\<forall>l. lock_ok k l)"

section \<open>The scheduler keeps its queues\<close>

lemma stat_upd [simp]:
  "stat (k\<lparr>stacks := a\<rparr>) = stat k" "stat (k\<lparr>saved_level := b\<rparr>) = stat k" "stat (k\<lparr>ready_list := c\<rparr>) = stat k"
  "stat (k\<lparr>semas := d\<rparr>) = stat k" "stat (k\<lparr>holder := e\<rparr>) = stat k" "stat (k\<lparr>intr_on := f\<rparr>) = stat k"
  "stat (k\<lparr>conds := g\<rparr>) = stat k" "stat (k\<lparr>next_tid := h\<rparr>) = stat k" "stat (k\<lparr>all_list := i\<rparr>) = stat k"
  "stat (k\<lparr>idle_thread := j\<rparr>) = stat k" "stat (k\<lparr>in_external_intr := l\<rparr>) = stat k" "stat (k\<lparr>running := m\<rparr>) = stat k"
  by (simp_all add: stat_def fun_eq_iff)

definition scheduled :: "tptr \<Rightarrow> kernel \<Rightarrow> kernel" where
  "scheduled n k = k\<lparr>ready_list := tl (ready_list k), running := n, thread_ticks := 0,
     threads := (\<lambda>t. if t = n then map_option (\<lambda>th. th\<lparr>status := THREAD_RUNNING\<rparr>) (threads k n)
                     else if t = running k \<and> stat k t = Some THREAD_DYING \<and> t \<noteq> initial_thread k then None
                     else threads k t)\<rparr>"

lemma scheduled_simps [simp]:
  "stacks (scheduled n k) = stacks k" "semas (scheduled n k) = semas k" "holder (scheduled n k) = holder k"
  "conds (scheduled n k) = conds k" "saved_level (scheduled n k) = saved_level k"
  "idle_thread (scheduled n k) = idle_thread k" "initial_thread (scheduled n k) = initial_thread k"
  "intr_on (scheduled n k) = intr_on k" "in_external_intr (scheduled n k) = in_external_intr k"
  "next_tid (scheduled n k) = next_tid k" "running (scheduled n k) = n" "thread_ticks (scheduled n k) = 0"
  "ready_list (scheduled n k) = tl (ready_list k)" "all_list (scheduled n k) = all_list k"
  by (simp_all add: scheduled_def)

lemma stat_scheduled:
  "stat k n \<noteq> None \<Longrightarrow> stat (scheduled n k) t =
     (if t = n then Some THREAD_RUNNING
      else if t = running k \<and> stat k t = Some THREAD_DYING \<and> t \<noteq> initial_thread k then None else stat k t)"
  by (auto simp: stat_def scheduled_def)

text \<open>When the running thread is dying, the thread that runs next does not hold the lock that it takes to free
  the dead thread's page.\<close>

definition page_free_ok :: "kernel \<Rightarrow> bool" where
  "page_free_ok k \<longleftrightarrow> (stat k (running k) = Some THREAD_DYING \<longrightarrow> running k \<noteq> initial_thread k \<longrightarrow>
     (\<forall>n. fst (next_thread_to_run k) = Some n \<longrightarrow> n \<noteq> running k \<longrightarrow> holder k palloc_lock \<noteq> Some n))"

lemma schedule_eq:
  assumes "\<not> intr_on k" "stat k (running k) \<noteq> None" "stat k (running k) \<noteq> Some THREAD_RUNNING"
    and "fst (next_thread_to_run k) = Some n" "stat k n \<noteq> None" "page_free_ok k"
  shows "schedule k = Some (scheduled n k)"
proof -
  obtain c d where cd: "threads k (running k) = Some c" "status c \<noteq> THREAD_RUNNING" "threads k n = Some d"
    using assms by (auto simp: stat_def)
  show ?thesis
  proof (cases "ready_list k")
    case Nil
    then show ?thesis using assms cd
      by (auto simp: schedule_def page_free_ok_def next_thread_to_run_def is_thread_def thread_schedule_tail_def set_status_def
          scheduled_def stat_def fun_eq_iff Let_def)
  next
    case (Cons a list)
    then show ?thesis using assms cd
      by (auto simp: schedule_def page_free_ok_def next_thread_to_run_def is_thread_def thread_schedule_tail_def set_status_def
          scheduled_def stat_def fun_eq_iff Let_def)
  qed
qed

lemma schedule_tail_page_free:
  "thread_schedule_tail (Some p) k = Some k' \<Longrightarrow> stat k p = Some THREAD_DYING \<Longrightarrow> p \<noteq> running k \<Longrightarrow> p \<noteq> initial_thread k \<Longrightarrow>
     holder k palloc_lock \<noteq> Some (running k)"
  by (auto simp: thread_schedule_tail_def set_status_def stat_def Let_def bind_eq_Some_conv)

lemma schedule_page_free:
  assumes "schedule k = Some k'" shows "page_free_ok k"
proof -
  obtain n k1 where n: "next_thread_to_run k = (Some n, k1)" "stat k1 = stat k" "holder k1 = holder k"
      "initial_thread k1 = initial_thread k" "running k1 = running k"
      "if running k \<noteq> n then thread_schedule_tail (Some (running k)) (k1\<lparr>running := n\<rparr>) = Some k'
       else thread_schedule_tail None k1 = Some k'"
    using assms by (cases "ready_list k")
      (auto simp: schedule_def next_thread_to_run_def stat_def Let_def bind_eq_Some_conv split: if_splits)
  then show ?thesis
    using schedule_tail_page_free [of "running k" "k1\<lparr>running := n\<rparr>" k'] by (auto simp: page_free_ok_def split: if_splits)
qed

text \<open>What the scheduler expects on entry: no thread is marked running, the queues are in order, and
  there is a thread to run.\<close>

definition to_schedule :: "kernel \<Rightarrow> bool" where
  "to_schedule k \<longleftrightarrow> \<not> intr_on k \<and> stat k (running k) \<noteq> None \<and> (\<forall>t. stat k t \<noteq> Some THREAD_RUNNING) \<and>
     queues_ok k \<and> page_free_ok k \<and> (ready_list k = [] \<longrightarrow> idle_thread k \<noteq> None) \<and>
     (\<forall>i. idle_thread k = Some i \<longrightarrow> stat k i \<noteq> None \<and> stat k i \<noteq> Some THREAD_DYING \<and> (\<forall>s. \<not> in_down k s i))"

lemma queues_okD:
  assumes "queues_ok k"
  shows "distinct (ready_list k)"
    and "t \<in> set (ready_list k) \<longleftrightarrow> stat k t = Some THREAD_READY \<and> idle_thread k \<noteq> Some t"
    and "distinct (waiters (semas k s))"
    and "t \<in> set (waiters (semas k s)) \<longleftrightarrow> stat k t = Some THREAD_BLOCKED \<and> in_down k s t"
  using assms by (simp_all add: queues_ok_def)

lemma schedule_spec:
  assumes "to_schedule k"
  obtains n where "schedule k = Some (scheduled n k)" "stat k n = Some THREAD_READY \<or> stat k n = Some THREAD_BLOCKED"
    "\<forall>s. n \<notin> set (waiters (semas k s))"
    "(case ready_list k of [] \<Rightarrow> idle_thread k | t # _ \<Rightarrow> Some t) = Some n"
    "queues_ok (scheduled n k)" "running_ok (scheduled n k)"
proof -
  have q: "queues_ok k" and nr: "stat k t \<noteq> Some THREAD_RUNNING" for t
    using assms by (auto simp: to_schedule_def)
  note qs = queues_okD [OF q]
  have idle: "stat k i = Some THREAD_READY \<or> stat k i = Some THREAD_BLOCKED" "\<not> in_down k s i"
    if "idle_thread k = Some i" for i s
  proof -
    show "\<not> in_down k s i" using assms that by (simp add: to_schedule_def)
    have "stat k i \<noteq> None \<and> stat k i \<noteq> Some THREAD_DYING" using assms that by (simp add: to_schedule_def)
    then show "stat k i = Some THREAD_READY \<or> stat k i = Some THREAD_BLOCKED"
      using nr [of i] by (auto intro: thread_status.exhaust)
  qed
  obtain n where n: "fst (next_thread_to_run k) = Some n"
    and n': "(case ready_list k of [] \<Rightarrow> idle_thread k | t # _ \<Rightarrow> Some t) = Some n"
    and c: "idle_thread k = Some n \<and> ready_list k = [] \<or> (\<exists>xs. ready_list k = n # xs)"
    using assms by (cases "ready_list k") (auto simp: to_schedule_def next_thread_to_run_def)
  have s: "stat k n = Some THREAD_READY \<or> stat k n = Some THREAD_BLOCKED"
    using c idle(1) [of n] qs(2) [of n] by auto
  have w: "n \<notin> set (waiters (semas k s))" for s
    using c idle(2) [of n s] qs(2) [of n] qs(4) [of n s] by auto
  have sn: "stat k n \<noteq> None" using s by auto
  have sch: "schedule k = Some (scheduled n k)"
    using assms sn n nr by (intro schedule_eq) (auto simp: to_schedule_def)
  have r: "running_ok (scheduled n k)"
    using nr by (simp add: running_ok_def stat_scheduled [OF sn])
  have rl: "t \<in> set (tl (ready_list k)) \<longleftrightarrow> t \<in> set (ready_list k) \<and> t \<noteq> n" for t
    using c qs(1) qs(2) [of t] by (cases "ready_list k") auto
  have q': "queues_ok (scheduled n k)"
    unfolding queues_ok_def
  proof (intro conjI allI)
    show "distinct (ready_list (scheduled n k))" using qs(1) by (simp add: distinct_tl)
    show "t \<in> set (ready_list (scheduled n k)) \<longleftrightarrow>
        stat (scheduled n k) t = Some THREAD_READY \<and> idle_thread (scheduled n k) \<noteq> Some t" for t
      using rl [of t] qs(2) [of t] by (auto simp: stat_scheduled [OF sn])
    show "distinct (waiters (semas (scheduled n k) s))" for s using qs(3) by simp
    show "t \<in> set (waiters (semas (scheduled n k) s)) \<longleftrightarrow>
        stat (scheduled n k) t = Some THREAD_BLOCKED \<and> in_down (scheduled n k) s t" for s t
      using qs(4) [of t s] w [of s] by (auto simp: stat_scheduled [OF sn] in_down_def)
  qed
  show ?thesis using that [OF sch s _ n' q' r] w by blast
qed

text \<open>Each operation that switches threads amounts to a change of the caller's state followed by
  \<open>schedule\<close>.\<close>

definition with_stat :: "tptr \<Rightarrow> thread_status \<Rightarrow> kernel \<Rightarrow> kernel" where
  "with_stat t st k = k\<lparr>threads := (threads k)(t := map_option (\<lambda>th. th\<lparr>status := st\<rparr>) (threads k t))\<rparr>"

lemma with_stat_simps [simp]:
  "stacks (with_stat t st k) = stacks k" "semas (with_stat t st k) = semas k" "holder (with_stat t st k) = holder k"
  "conds (with_stat t st k) = conds k" "saved_level (with_stat t st k) = saved_level k"
  "idle_thread (with_stat t st k) = idle_thread k" "initial_thread (with_stat t st k) = initial_thread k"
  "intr_on (with_stat t st k) = intr_on k" "in_external_intr (with_stat t st k) = in_external_intr k"
  "next_tid (with_stat t st k) = next_tid k" "running (with_stat t st k) = running k"
  "ready_list (with_stat t st k) = ready_list k" "thread_ticks (with_stat t st k) = thread_ticks k"
  "all_list (with_stat t st k) = all_list k"
  by (simp_all add: with_stat_def)

lemma stat_with_stat [simp]:
  "stat (with_stat t st k) u = (if u = t \<and> stat k t \<noteq> None then Some st else stat k u)"
  by (auto simp: stat_def with_stat_def)

lemma set_status_eq: "stat k t \<noteq> None \<Longrightarrow> set_status t st k = Some (with_stat t st k)"
  by (auto simp: set_status_def with_stat_def stat_def)

lemma running_stat: "running_ok k \<Longrightarrow> stat k (running k) = Some THREAD_RUNNING"
  by (simp add: running_ok_def)

lemma thread_current_eq: "running_ok k \<Longrightarrow> thread_current k = Some (running k)"
  by (drule running_stat) (auto simp: thread_current_def is_thread_def stat_def)

lemma push_frames_simps [simp]:
  "threads (push_frames fs k) = threads k" "semas (push_frames fs k) = semas k" "holder (push_frames fs k) = holder k"
  "conds (push_frames fs k) = conds k" "saved_level (push_frames fs k) = saved_level k"
  "idle_thread (push_frames fs k) = idle_thread k" "initial_thread (push_frames fs k) = initial_thread k"
  "intr_on (push_frames fs k) = intr_on k" "in_external_intr (push_frames fs k) = in_external_intr k"
  "next_tid (push_frames fs k) = next_tid k" "running (push_frames fs k) = running k"
  "ready_list (push_frames fs k) = ready_list k" "thread_ticks (push_frames fs k) = thread_ticks k"
  "all_list (push_frames fs k) = all_list k" "stat (push_frames fs k) = stat k"
  "stacks (push_frames fs k) = (stacks k)(running k := fs @ stacks k (running k))"
  by (simp_all add: push_frames_def)

lemma set_sema_simps [simp]:
  "threads (set_sema s x k) = threads k" "stacks (set_sema s x k) = stacks k" "holder (set_sema s x k) = holder k"
  "conds (set_sema s x k) = conds k" "saved_level (set_sema s x k) = saved_level k"
  "idle_thread (set_sema s x k) = idle_thread k" "initial_thread (set_sema s x k) = initial_thread k"
  "intr_on (set_sema s x k) = intr_on k" "in_external_intr (set_sema s x k) = in_external_intr k"
  "next_tid (set_sema s x k) = next_tid k" "running (set_sema s x k) = running k"
  "ready_list (set_sema s x k) = ready_list k" "thread_ticks (set_sema s x k) = thread_ticks k"
  "all_list (set_sema s x k) = all_list k" "stat (set_sema s x k) = stat k"
  "semas (set_sema s x k) = (semas k)(s := x)"
  by (simp_all add: set_sema_def)

text \<open>The idle thread can always run when no other thread can.\<close>

definition idle_av :: "tptr \<Rightarrow> kernel \<Rightarrow> bool" where
  "idle_av i k \<longleftrightarrow>
     (if idle_thread k = None then stat k i = Some THREAD_READY \<or> stat k i = Some THREAD_RUNNING
      else idle_thread k = Some i \<and> stat k i \<noteq> None \<and> stat k i \<noteq> Some THREAD_DYING \<and> (\<forall>s. \<not> in_down k s i))"

lemma in_down_simps [simp]:
  "in_down (with_stat t st k) = in_down k" "in_down (set_sema a x k) = in_down k" "in_down (scheduled n k) = in_down k"
  "in_down (k\<lparr>ready_list := rl\<rparr>) = in_down k" "in_down (k\<lparr>saved_level := sl\<rparr>) = in_down k"
  "in_down (k\<lparr>intr_on := b\<rparr>) = in_down k" "in_down (k\<lparr>all_list := al\<rparr>) = in_down k" "in_down (k\<lparr>holder := ho\<rparr>) = in_down k"
  "in_down (k\<lparr>conds := cs\<rparr>) = in_down k" "in_down (k\<lparr>next_tid := nt\<rparr>) = in_down k"
  "in_down (k\<lparr>idle_thread := it\<rparr>) = in_down k" "in_down (k\<lparr>in_external_intr := ie\<rparr>) = in_down k"
  by (simp_all add: in_down_def fun_eq_iff)

lemma block_to_schedule:
  assumes "queues_ok k" "running_ok k" "\<not> intr_on k" "idle_av i k" "running k \<noteq> i"
  shows "to_schedule (with_stat (running k) THREAD_BLOCKED (push_frames [Down s b]
           (set_sema s ((semas k s)\<lparr>waiters := waiters (semas k s) @ [running k]\<rparr>) k)))" (is "to_schedule ?K")
proof -
  note q = queues_okD [OF assms(1)]
  have r: "stat k t = Some THREAD_RUNNING \<longleftrightarrow> t = running k" for t using assms(2) by (simp add: running_ok_def)
  have "queues_ok ?K"
    unfolding queues_ok_def using q(1) q(2) q(3) q(4) running_stat [OF assms(2)] by (auto simp: in_down_def)
  moreover have "ready_list k \<noteq> []" if "idle_thread k = None"
    using that assms(4,5) q(2) [of i] r [of i] by (auto simp: idle_av_def)
  ultimately show ?thesis
    using assms(3,4,5) r running_stat [OF assms(2)] by (auto simp: to_schedule_def page_free_ok_def idle_av_def in_down_def split: if_splits)
qed

lemma yield_to_schedule:
  assumes "queues_ok k" "running_ok k" "idle_av i k"
  defines "rl \<equiv> if Some (running k) \<noteq> idle_thread k then ready_list k @ [running k] else ready_list k"
  shows "to_schedule (with_stat (running k) THREAD_READY (k\<lparr>intr_on := False, ready_list := rl,
           saved_level := (saved_level k)(running k \<mapsto> b)\<rparr>))" (is "to_schedule ?K")
proof -
  note q = queues_okD [OF assms(1)]
  have rs: "stat k (running k) = Some THREAD_RUNNING" using assms(2) by (rule running_stat)
  have r: "stat k t = Some THREAD_RUNNING \<longleftrightarrow> t = running k" for t using assms(2) by (simp add: running_ok_def)
  have "queues_ok ?K"
    unfolding queues_ok_def rl_def using q(1) q(2) q(3) q(4) rs by auto
  then show ?thesis
    using assms(3) r rs by (auto simp: to_schedule_def page_free_ok_def idle_av_def rl_def split: if_splits)
qed

lemma exit_to_schedule:
  assumes "queues_ok k" "running_ok k" "idle_av i k" "running k \<noteq> i"
    and "page_free_ok (with_stat (running k) THREAD_DYING (k\<lparr>intr_on := False, all_list := al, stacks := (stacks k)(running k := [])\<rparr>))"
  shows "to_schedule (with_stat (running k) THREAD_DYING (k\<lparr>intr_on := False, all_list := al, stacks := (stacks k)(running k := [])\<rparr>))" (is "to_schedule ?K")
proof -
  note q = queues_okD [OF assms(1)]
  have rs: "stat k (running k) = Some THREAD_RUNNING" using assms(2) by (rule running_stat)
  have r: "stat k t = Some THREAD_RUNNING \<longleftrightarrow> t = running k" for t using assms(2) by (simp add: running_ok_def)
  have "queues_ok ?K"
    unfolding queues_ok_def using q(1) q(2) q(3) q(4) rs by (auto simp: in_down_def)
  moreover have "ready_list k \<noteq> []" if "idle_thread k = None"
    using that assms(3,4) q(2) [of i] r [of i] by (auto simp: idle_av_def)
  ultimately show ?thesis
    using assms(3,4,5) r rs by (auto simp: to_schedule_def idle_av_def in_down_def split: if_splits)
qed

lemma idle_to_schedule:
  assumes "queues_ok k" "running_ok k" "idle_thread k = Some (running k)" "stacks k (running k) = [Exit]"
  shows "to_schedule (with_stat (running k) THREAD_BLOCKED (push_frames [Idle_hlt] (k\<lparr>intr_on := False\<rparr>)))"
    (is "to_schedule ?K")
proof -
  note q = queues_okD [OF assms(1)]
  have rs: "stat k (running k) = Some THREAD_RUNNING" using assms(2) by (rule running_stat)
  have r: "stat k t = Some THREAD_RUNNING \<longleftrightarrow> t = running k" for t using assms(2) by (simp add: running_ok_def)
  have "queues_ok ?K"
    unfolding queues_ok_def using q(1) q(2) q(3) q(4) rs by (auto simp: in_down_def)
  then show ?thesis
    using assms(3) r rs by (auto simp: to_schedule_def page_free_ok_def in_down_def)
qed

lemma thread_block_eq:
  "running_ok k \<Longrightarrow> \<not> in_external_intr k \<Longrightarrow> \<not> intr_on k \<Longrightarrow>
     thread_block k = schedule (with_stat (running k) THREAD_BLOCKED k)"
  by (simp add: thread_block_def thread_current_eq set_status_eq running_stat)

lemma running_ok_simps [simp]:
  "running_ok (set_sema s x k) = running_ok k" "running_ok (push_frames fs k) = running_ok k"
  "running_ok (k\<lparr>stacks := a\<rparr>) = running_ok k" "running_ok (k\<lparr>saved_level := b\<rparr>) = running_ok k"
  "running_ok (k\<lparr>ready_list := c\<rparr>) = running_ok k" "running_ok (k\<lparr>holder := d\<rparr>) = running_ok k"
  "running_ok (k\<lparr>intr_on := e\<rparr>) = running_ok k" "running_ok (k\<lparr>conds := f\<rparr>) = running_ok k"
  "running_ok (k\<lparr>next_tid := g\<rparr>) = running_ok k" "running_ok (k\<lparr>all_list := h\<rparr>) = running_ok k"
  "running_ok (k\<lparr>idle_thread := j\<rparr>) = running_ok k" "running_ok (k\<lparr>in_external_intr := l\<rparr>) = running_ok k"
  by (simp_all add: running_ok_def)

lemma thread_yield_eq:
  assumes "running_ok k" "\<not> in_external_intr k"
  shows "thread_yield k = schedule (with_stat (running k) THREAD_READY (k\<lparr>intr_on := False,
     ready_list := (if Some (running k) \<noteq> idle_thread k then ready_list k @ [running k] else ready_list k),
     saved_level := (saved_level k)(running k \<mapsto> intr_on k)\<rparr>))"
proof -
  let ?k = "k\<lparr>intr_on := False\<rparr>"
  let ?k1 = "if Some (running k) \<noteq> idle_thread k then ?k\<lparr>ready_list := ready_list k @ [running k]\<rparr> else ?k"
  have "thread_yield k = schedule ((with_stat (running k) THREAD_READY ?k1)\<lparr>saved_level := (saved_level k)(running k \<mapsto> intr_on k)\<rparr>)"
    using assms running_stat [OF assms(1)]
    by (simp add: thread_yield_def thread_current_eq intr_disable_def set_status_eq Let_def)
  then show ?thesis
    by (rule trans) (rule arg_cong [where f = schedule], rule kernel.equality, simp_all add: with_stat_def)
qed

lemma thread_exit_eq:
  assumes "running_ok k" "\<not> in_external_intr k"
  shows "thread_exit k = schedule (with_stat (running k) THREAD_DYING (k\<lparr>intr_on := False,
     all_list := remove1 (running k) (all_list k), stacks := (stacks k)(running k := [])\<rparr>))"
  using assms running_stat [OF assms(1)]
  by (simp add: thread_exit_def thread_current_eq intr_disable_def set_status_eq Let_def)

lemma intr_set_level_eq: "(b \<longrightarrow> \<not> in_external_intr k) \<Longrightarrow> intr_set_level b k = Some (intr_on k, k\<lparr>intr_on := b\<rparr>)"
  by (auto simp: intr_set_level_def intr_enable_def intr_disable_def)

lemma thread_unblock_eq:
  assumes "stat k t = Some THREAD_BLOCKED" "intr_on k \<longrightarrow> \<not> in_external_intr k"
  shows "thread_unblock t k = Some (with_stat t THREAD_READY (k\<lparr>ready_list := ready_list k @ [t]\<rparr>))"
  using assms
  by (auto simp: thread_unblock_def is_thread_def intr_disable_def set_status_def intr_set_level_eq stat_def
      with_stat_def Let_def)

definition upped :: "sema_addr \<Rightarrow> kernel \<Rightarrow> kernel" where
  "upped s k = (case waiters (semas k s) of [] \<Rightarrow> set_sema s ((semas k s)\<lparr>sema_value := sema_value (semas k s) + 1\<rparr>) k
     | t # ts \<Rightarrow> with_stat t THREAD_READY (set_sema s ((semas k s)\<lparr>waiters := ts, sema_value := sema_value (semas k s) + 1\<rparr>)
                    (k\<lparr>ready_list := ready_list k @ [t]\<rparr>)))"

lemma sema_up_eq:
  assumes "queues_ok k" "intr_on k \<longrightarrow> \<not> in_external_intr k"
  shows "sema_up s k = Some (upped s k)"
proof (cases "waiters (semas k s)")
  case Nil
  then show ?thesis using assms(2)
    by (simp add: sema_up_def intr_disable_def intr_set_level_eq upped_def set_sema_def Let_def)
next
  case (Cons t ts)
  then have "stat k t = Some THREAD_BLOCKED" using queues_okD(4) [OF assms(1), of t s] by simp
  then show ?thesis using Cons assms(2)
    by (simp add: sema_up_def intr_disable_def thread_unblock_eq intr_set_level_eq upped_def set_sema_def with_stat_def Let_def)
qed

lemma upped_simps [simp]:
  "stacks (upped s k) = stacks k" "holder (upped s k) = holder k" "conds (upped s k) = conds k"
  "saved_level (upped s k) = saved_level k" "idle_thread (upped s k) = idle_thread k"
  "initial_thread (upped s k) = initial_thread k" "intr_on (upped s k) = intr_on k"
  "in_external_intr (upped s k) = in_external_intr k" "next_tid (upped s k) = next_tid k"
  "running (upped s k) = running k" "thread_ticks (upped s k) = thread_ticks k" "all_list (upped s k) = all_list k"
  "in_down (upped s k) = in_down k" "yield_on_return (upped s k) = yield_on_return k"
  "semas (upped s k) = (semas k)(s := (semas k s)\<lparr>waiters := tl (waiters (semas k s)), sema_value := sema_value (semas k s) + 1\<rparr>)"
  by (cases "waiters (semas k s)"; simp add: upped_def with_stat_def set_sema_def in_down_def fun_eq_iff)+

lemma stat_upped:
  "queues_ok k \<Longrightarrow> stat (upped s k) t =
     (if waiters (semas k s) \<noteq> [] \<and> t = hd (waiters (semas k s)) then Some THREAD_READY else stat k t)"
  using queues_okD(4) [of k "hd (waiters (semas k s))" s] by (cases "waiters (semas k s)") (auto simp: upped_def)

lemma upped_ok:
  assumes "queues_ok k" "running_ok k" "idle_av i k"
  shows "queues_ok (upped s k)" "running_ok (upped s k)"
proof -
  note q = queues_okD [OF assms(1)]
  show "running_ok (upped s k)"
  proof (cases "waiters (semas k s)")
    case Nil
    then show ?thesis using assms(2) by (simp add: running_ok_def stat_upped [OF assms(1)])
  next
    case (Cons t ts)
    then have "t \<noteq> running k" using running_stat [OF assms(2)] q(4) [of t s] by auto
    with Cons assms(2) show ?thesis by (simp add: running_ok_def stat_upped [OF assms(1)])
  qed
  show "queues_ok (upped s k)"
  proof (cases "waiters (semas k s)")
    case Nil
    then show ?thesis
      unfolding queues_ok_def using q(1) q(2) q(3) q(4) q(4) [of _ s] by (auto simp: upped_def)
  next
    case (Cons t ts)
    have t: "stat k t = Some THREAD_BLOCKED" "in_down k s t" "t \<notin> set ts" "distinct ts"
      using q(4) [of t s] q(3) [of s] Cons by auto
    have u: "u \<in> set ts \<longleftrightarrow> u \<noteq> t \<and> stat k u = Some THREAD_BLOCKED \<and> in_down k s u" for u
      using q(4) [of u s] Cons t(3) by auto
    have nd: "\<not> in_down k s' t" if "s' \<noteq> s" for s' using t(2) that by (auto simp: in_down_def)
    have ni: "idle_thread k \<noteq> Some t" using assms(3) t(2) by (auto simp: idle_av_def split: if_splits)
    show ?thesis
      unfolding queues_ok_def using Cons q(1) q(2) q(3) q(4) t u ni nd
      by (auto simp: upped_def)
  qed
qed

section \<open>Every step keeps the invariant\<close>

lemma transit_lower: "list_all (lower_frame t) fs \<Longrightarrow> \<not> transit l fs"
  by (cases "(l, fs)" rule: transit.cases) auto

lemma stack_ok_lower: "list_all (lower_frame t) fs \<Longrightarrow> stack_ok t fs"
  by (cases "(t, fs)" rule: stack_ok.cases) (auto simp: below_down_def)

lemma idle_avI:
  assumes "idle_ok i k" shows "idle_av i k"
proof -
  have s: "stat k i \<noteq> None" "stat k i \<noteq> Some THREAD_DYING" using assms by (simp_all add: idle_ok_def)
  have "stat k i \<noteq> Some THREAD_BLOCKED" if "idle_thread k = None"
    using assms that by (auto simp: idle_ok_def idle_stack_def)
  with s show ?thesis
    using assms by (cases "stat k i"; cases "the (stat k i)")
      (auto simp: idle_ok_def idle_av_def idle_stack_def in_down_def split: if_splits)
qed

lemma kinvD:
  assumes "kinv i k"
  shows "queues_ok k" "running_ok k" "idle_ok i k" "idle_av i k" "\<not> in_external_intr k" "thread_ticks k < TIME_SLICE"
    "stack_ok t (stacks k t)" "stat k t = None \<Longrightarrow> stacks k t = []" "nascent_ok k"
  using assms idle_avI by (auto simp: kinv_def)

text \<open>Transitions of the running thread that touch neither threads nor queues.\<close>

lemma local_kinv:
  assumes "kinv i k" "running k \<noteq> i"
    and "stat k' = stat k" "ready_list k' = ready_list k" "idle_thread k' = idle_thread k" "running k' = running k"
    and "in_external_intr k' = in_external_intr k" "thread_ticks k' = thread_ticks k"
    and "\<And>s. waiters (semas k' s) = waiters (semas k s)"
    and "stacks k' = (stacks k)(running k := B)" "stack_ok (running k) B" "\<forall>f \<in> set B. \<not> idle_frame f"
    and "set (nascent B) \<subseteq> set (nascent (stacks k (running k)))" "distinct (nascent B)"
  shows "kinv i k'"
proof -
  note inv = kinvD [OF assms(1)]
  have r: "stat k (running k) = Some THREAD_RUNNING" using inv(2) by (rule running_stat)
  have nr: "running k \<notin> set (nascent (stacks k t))" for t
    using inv(9) r by (auto simp: nascent_ok_def)
  have d: "in_down k' s t = in_down k s t" if "t \<noteq> running k" for s t
    using that assms(10) by (simp add: in_down_def)
  have "queues_ok k'"
    unfolding queues_ok_def
  proof (intro conjI allI)
    show "t \<in> set (waiters (semas k' s)) \<longleftrightarrow> stat k' t = Some THREAD_BLOCKED \<and> in_down k' s t" for s t
      using queues_okD(4) [OF inv(1), of t s] d [of t s] r assms(3,9) by (cases "t = running k") auto
  qed (use queues_okD [OF inv(1)] assms(3-9) in simp_all)
  moreover have "running_ok k'" using inv(2) assms(3,6) by (simp add: running_ok_def)
  moreover have "idle_ok i k'"
    using inv(3) assms(2,3,5,10,12) by (auto simp: idle_ok_def idle_stack_def)
  moreover have ns: "u \<in> set (nascent (stacks k' t)) \<Longrightarrow> u \<in> set (nascent (stacks k t))" for u t
    using assms(10,13) by (auto split: if_splits)
  have "nascent_ok k'"
    unfolding nascent_ok_def
  proof (intro conjI allI impI)
    show "stat k' u = Some THREAD_BLOCKED" "stacks k' u = []" if "u \<in> set (nascent (stacks k' t))" for t u
      using ns [OF that] inv(9) nr [of t] assms(3,10) by (auto simp: nascent_ok_def)
    show "distinct (nascent (stacks k' t))" for t
      using inv(9) assms(10,14) by (simp add: nascent_ok_def)
    show "t = t'" if "u \<in> set (nascent (stacks k' t))" "u \<in> set (nascent (stacks k' t'))" for t t' u
      using ns [OF that(1)] ns [OF that(2)] inv(9) unfolding nascent_ok_def by blast
  qed
  ultimately show ?thesis
    using inv(5-8) assms(3,7,8,10,11) r by (auto simp: kinv_def)
qed

lemma schedule_kinv:
  assumes "to_schedule K" "schedule K = Some k'" "idle_ok i K" "\<not> in_external_intr K"
    and "\<And>t. stack_ok t (stacks K t)" "\<And>t. stat K t = None \<Longrightarrow> stacks K t = []"
    and "stat K (running K) = Some THREAD_DYING \<Longrightarrow> stacks K (running K) = []"
    and "nascent_ok K"
  shows "kinv i k'"
proof -
  obtain n where n: "k' = scheduled n K" "stat K n = Some THREAD_READY \<or> stat K n = Some THREAD_BLOCKED"
      "(case ready_list K of [] \<Rightarrow> idle_thread K | t # _ \<Rightarrow> Some t) = Some n"
      "queues_ok k'" "running_ok k'"
    using schedule_spec [OF assms(1)] assms(2) by auto
  have sn: "stat K n \<noteq> None" using n(2) by auto
  note st = stat_scheduled [OF sn]
  have "idle_ok i k'"
    using assms(3) unfolding n(1) idle_ok_def idle_stack_def by (simp add: st split: if_splits)
  moreover have "nascent_ok k'"
  proof -
    have "n \<notin> set (nascent (stacks K t))" for t
    proof
      assume u: "n \<in> set (nascent (stacks K t))"
      then have b: "stat K n = Some THREAD_BLOCKED" "stacks K n = []" using assms(8) by (auto simp: nascent_ok_def)
      show False
      proof (cases "ready_list K")
        case Nil
        then have "idle_thread K = Some n" using n(3) by simp
        then show False using assms(3) b(2) by (auto simp: idle_ok_def idle_stack_def)
      next
        case (Cons a xs)
        then have "n \<in> set (ready_list K)" using n(3) by simp
        then show False using assms(1) b(1) by (simp add: to_schedule_def queues_ok_def)
      qed
    qed
    then show ?thesis
      using assms(8) unfolding n(1) nascent_ok_def by (simp add: st)
  qed
  moreover have "stacks k' t = []" if "stat k' t = None" for t
    using that assms(6,7) unfolding n(1) by (auto simp: st split: if_splits)
  ultimately show ?thesis
    using n(4,5) assms(4,5) by (simp add: kinv_def n(1) TIME_SLICE_def)
qed

lemma kinv_cong:
  assumes "kinv i k" "stat k' = stat k" "stacks k' = stacks k" "ready_list k' = ready_list k" "idle_thread k' = idle_thread k"
    and "running k' = running k" "in_external_intr k' = in_external_intr k" "thread_ticks k' = thread_ticks k"
    and "\<And>s. waiters (semas k' s) = waiters (semas k s)"
  shows "kinv i k'"
proof -
  have "in_down k' = in_down k" by (simp add: in_down_def fun_eq_iff assms(3))
  then have "queues_ok k' = queues_ok k" by (simp add: queues_ok_def assms(2,4,5,9))
  moreover have "running_ok k' = running_ok k" by (simp add: running_ok_def assms(2,6))
  moreover have "idle_ok i k' = idle_ok i k" by (simp add: idle_ok_def idle_stack_def assms(2,3,5))
  moreover have "nascent_ok k' = nascent_ok k" by (simp add: nascent_ok_def assms(2,3))
  ultimately show ?thesis using assms(1) by (simp add: kinv_def assms(2,3,7,8))
qed

lemma kinv_upd [simp]:
  "kinv i (k\<lparr>holder := a\<rparr>) = kinv i k" "kinv i (k\<lparr>conds := b\<rparr>) = kinv i k" "kinv i (k\<lparr>intr_on := c\<rparr>) = kinv i k"
  "kinv i (k\<lparr>saved_level := d\<rparr>) = kinv i k" "kinv i (k\<lparr>next_tid := e\<rparr>) = kinv i k" "kinv i (k\<lparr>all_list := f\<rparr>) = kinv i k"
  "kinv i (k\<lparr>yield_on_return := g\<rparr>) = kinv i k" "kinv i (k\<lparr>ticks := h\<rparr>) = kinv i k"
  "kinv i (k\<lparr>idle_ticks := j\<rparr>) = kinv i k" "kinv i (k\<lparr>kernel_ticks := l\<rparr>) = kinv i k"
  "kinv i (k\<lparr>user_ticks := m\<rparr>) = kinv i k"
  by (auto simp: stat_def fun_eq_iff elim!: kinv_cong)

lemma set_sema_kinv:
  "kinv i k \<Longrightarrow> waiters x = waiters (semas k s) \<Longrightarrow> kinv i (set_sema s x k)"
  by (erule kinv_cong) auto

lemma stack_ok_tl: "stack_ok t (f # fs) \<Longrightarrow> stack_ok t fs"
  by (cases "(t, f # fs)" rule: stack_ok.cases)
    (auto simp: stack_ok_lower below_down_def split: sema_addr.splits list.splits frame.splits)

lemma nascent_Cons: "set (nascent fs) \<subseteq> set (nascent (f # fs))" "distinct (nascent (f # fs)) \<Longrightarrow> distinct (nascent fs)"
  by (cases f; auto)+

lemma no_idle_frames: "kinv i k \<Longrightarrow> t \<noteq> i \<Longrightarrow> f \<in> set (stacks k t) \<Longrightarrow> \<not> idle_frame f"
  by (auto simp: kinv_def idle_ok_def)

lemma pop_kinv:
  assumes "kinv i k" "running k \<noteq> i" "stacks k (running k) = f # fs"
  shows "kinv i (k\<lparr>stacks := (stacks k)(running k := fs)\<rparr>)"
proof (rule local_kinv [OF assms(1,2)])
  show "stack_ok (running k) fs" using kinvD(7) [OF assms(1), of "running k"] assms(3) by (simp add: stack_ok_tl)
  show "\<forall>f\<in>set fs. \<not> idle_frame f" using no_idle_frames [OF assms(1,2)] assms(3) by auto
  show "set (nascent fs) \<subseteq> set (nascent (stacks k (running k)))" using nascent_Cons(1) assms(3) by metis
  show "distinct (nascent fs)"
    using kinvD(9) [OF assms(1)] assms(3) nascent_Cons(2) [of f fs] by (metis nascent_ok_def)
qed simp_all

lemma nascent_append [simp]: "nascent (fs @ gs) = nascent fs @ nascent gs"
  by (induction fs rule: nascent.induct) auto

lemma push_kinv:
  assumes "kinv i k" "running k \<noteq> i" "stack_ok (running k) (fs @ stacks k (running k))"
    and "\<forall>f\<in>set fs. \<not> idle_frame f" "nascent fs = []"
  shows "kinv i (push_frames fs k)"
proof (rule local_kinv [OF assms(1,2)])
  show "stacks (push_frames fs k) = (stacks k)(running k := fs @ stacks k (running k))" by simp
  show "\<forall>f\<in>set (fs @ stacks k (running k)). \<not> idle_frame f"
    using no_idle_frames [OF assms(1,2)] assms(4) by auto
  show "distinct (nascent (fs @ stacks k (running k)))"
    using kinvD(9) [OF assms(1)] assms(5) by (simp add: nascent_ok_def)
qed (use assms(3,5) in simp_all)

lemma upped_kinv:
  assumes "kinv i k" shows "kinv i (upped s k)"
proof -
  note inv = kinvD [OF assms]
  note st = stat_upped [OF inv(1), of s]
  have h: "stat k t = Some THREAD_BLOCKED \<and> in_down k s t" if "waiters (semas k s) \<noteq> []" "t = hd (waiters (semas k s))" for t
    using queues_okD(4) [OF inv(1), of t s] that by simp
  have ni: "\<not> in_down k s i" using inv(3) by (auto simp: idle_ok_def idle_stack_def in_down_def split: if_splits)
  have "idle_ok i (upped s k)"
    using inv(3) h ni by (auto simp: idle_ok_def idle_stack_def st)
  moreover have "nascent_ok (upped s k)"
    using inv(9) h by (auto simp: nascent_ok_def st in_down_def)
  moreover have "stacks k t = []" if "stat (upped s k) t = None" for t
    using that inv(8) h by (auto simp: st split: if_splits)
  ultimately show ?thesis
    using upped_ok [OF inv(1,2,4)] inv(5-7) by (simp add: kinv_def)
qed

lemma sema_down_loop_kinv:
  assumes "kinv i k" "running k \<noteq> i" "below_down (running k) s (stacks k (running k))"
    and "sema_down_loop s b k = Some k'"
  shows "kinv i k'"
proof (cases "sema_value (semas k s) = 0")
  case False
  then have "k' = (set_sema s ((semas k s)\<lparr>sema_value := sema_value (semas k s) - 1\<rparr>) k)\<lparr>intr_on := b\<rparr>"
    using assms(4) kinvD(5) [OF assms(1)] by (simp add: sema_down_loop_def Let_def intr_set_level_eq)
  then show ?thesis using set_sema_kinv [OF assms(1)] by simp
next
  case True
  note inv = kinvD [OF assms(1)]
  let ?K = "with_stat (running k) THREAD_BLOCKED (push_frames [Down s b]
           (set_sema s ((semas k s)\<lparr>waiters := waiters (semas k s) @ [running k]\<rparr>) k))"
  have r: "stat k (running k) = Some THREAD_RUNNING" by (rule running_stat [OF inv(2)])
  have io: "\<not> intr_on k"
    using assms(4) True by (auto simp: sema_down_loop_def Let_def thread_block_def bind_eq_Some_conv)
  show ?thesis
  proof (rule schedule_kinv)
    show "to_schedule ?K" by (rule block_to_schedule [OF inv(1,2) io inv(4) assms(2)])
    show "schedule ?K = Some k'"
      using assms(4) io True inv(2,5) by (simp add: sema_down_loop_def Let_def thread_current_eq thread_block_eq)
    show "idle_ok i ?K" using inv(3) assms(2) by (auto simp: idle_ok_def idle_stack_def)
    show "stack_ok t (stacks ?K t)" for t using inv(7) assms(3) by simp
    show "nascent_ok ?K"
      using inv(9) r by (fastforce simp: nascent_ok_def)
  qed (use inv(5,8) r in \<open>auto split: if_splits\<close>)
qed

lemma nascent_okD:
  assumes "nascent_ok k"
  shows "u \<in> set (nascent (stacks k t)) \<Longrightarrow> stat k u = Some THREAD_BLOCKED"
    and "u \<in> set (nascent (stacks k t)) \<Longrightarrow> stacks k u = []"
    and "distinct (nascent (stacks k t))"
    and "u \<in> set (nascent (stacks k t)) \<Longrightarrow> u \<in> set (nascent (stacks k t')) \<Longrightarrow> t = t'"
  using assms unfolding nascent_ok_def by blast+

lemma ticks_simps [simp]:
  "stat (k\<lparr>thread_ticks := n\<rparr>) = stat k" "queues_ok (k\<lparr>thread_ticks := n\<rparr>) = queues_ok k"
  "running_ok (k\<lparr>thread_ticks := n\<rparr>) = running_ok k" "idle_ok i (k\<lparr>thread_ticks := n\<rparr>) = idle_ok i k"
  "idle_av i (k\<lparr>thread_ticks := n\<rparr>) = idle_av i k" "nascent_ok (k\<lparr>thread_ticks := n\<rparr>) = nascent_ok k"
  by (simp_all add: stat_def queues_ok_def running_ok_def idle_ok_def idle_stack_def idle_av_def in_down_def nascent_ok_def fun_eq_iff)

lemma kinv_new_slice: "kinv i k \<Longrightarrow> kinv i (k\<lparr>thread_ticks := 0\<rparr>)"
  by (simp add: kinv_def TIME_SLICE_def)

lemma thread_yield_kinv:
  assumes "kinv i (k\<lparr>thread_ticks := 0\<rparr>)" "thread_yield k = Some k'"
  shows "kinv i k'"
proof -
  note inv = kinvD [OF assms(1), simplified]
  let ?rl = "if Some (running k) \<noteq> idle_thread k then ready_list k @ [running k] else ready_list k"
  let ?K = "with_stat (running k) THREAD_READY (k\<lparr>intr_on := False, ready_list := ?rl,
           saved_level := (saved_level k)(running k \<mapsto> intr_on k)\<rparr>)"
  have r: "stat k (running k) = Some THREAD_RUNNING" by (rule running_stat [OF inv(2)])
  show ?thesis
  proof (rule schedule_kinv)
    show "to_schedule ?K" by (rule yield_to_schedule [OF inv(1,2,4)])
    show "schedule ?K = Some k'" using assms(2) thread_yield_eq [OF inv(2,5)] by simp
    show "idle_ok i ?K" using inv(3) by (auto simp: idle_ok_def idle_stack_def)
    show "nascent_ok ?K" using inv(9) r by (fastforce simp: nascent_ok_def)
  qed (use inv(5,7,8) r in \<open>auto split: if_splits\<close>)
qed

lemma thread_exit_kinv:
  assumes "kinv i k" "running k \<noteq> i" "thread_exit k = Some k'"
  shows "kinv i k'"
proof -
  note inv = kinvD [OF assms(1)]
  let ?K = "with_stat (running k) THREAD_DYING (k\<lparr>intr_on := False, all_list := remove1 (running k) (all_list k),
      stacks := (stacks k)(running k := [])\<rparr>)"
  have r: "stat k (running k) = Some THREAD_RUNNING" by (rule running_stat [OF inv(2)])
  show ?thesis
  proof (rule schedule_kinv)
    show sch: "schedule ?K = Some k'" using assms(3) thread_exit_eq [OF inv(2,5)] by simp
    show "to_schedule ?K" by (rule exit_to_schedule [OF inv(1,2,4) assms(2) schedule_page_free [OF sch]])
    show "idle_ok i ?K" using inv(3) assms(2) by (auto simp: idle_ok_def idle_stack_def)
    show "nascent_ok ?K" using inv(9) r by (auto simp: nascent_ok_def split: if_splits)
  qed (use inv(5,7,8) r in \<open>auto split: if_splits\<close>)
qed

lemma thread_create_kinv:
  assumes "kinv i k" "running k \<noteq> i" "list_all (lower_frame (running k)) (stacks k (running k))"
    and "\<And>t. page = Some t \<Longrightarrow> threads k t = None" "thread_create page name prio k = Some k'"
  shows "kinv i k'"
proof (cases page)
  case None
  then show ?thesis using assms by (simp add: thread_create_def)
next
  case (Some u)
  note inv = kinvD [OF assms(1)]
  have r: "stat k (running k) = Some THREAD_RUNNING" by (rule running_stat [OF inv(2)])
  have u: "stat k u = None" using assms(4) Some by (simp add: stat_def)
  then have ur: "u \<noteq> running k" and ui: "u \<noteq> i" using r inv(3) by (auto simp: idle_ok_def)
  have ns: "u \<notin> set (nascent (stacks k t))" for t using inv(9) u by (auto simp: nascent_ok_def)
  have k': "k' = push_frames [Call (Lock_acquire tid_lock), Tid_read u]
      (k\<lparr>threads := (threads k)(u \<mapsto> \<lparr>tid = 0, status = THREAD_BLOCKED, tname = [], priority = prio, has_pagedir = False\<rparr>),
         stacks := (stacks k)(u := []), saved_level := (saved_level k)(u := None),
         children := (children k)(u := []), all_list := all_list k @ [u]\<rparr>)"
    using assms(5) Some by (auto simp: thread_create_def init_thread_def bind_eq_Some_conv)
  have st: "stat k' t = (if t = u then Some THREAD_BLOCKED else stat k t)" for t
    by (simp add: k' stat_def)
  have sk: "stacks k' t = (if t = u then [] else if t = running k then [Call (Lock_acquire tid_lock), Tid_read u] @ stacks k t
      else stacks k t)" for t
    using ur by (simp add: k')
  have other: "semas k' = semas k" "ready_list k' = ready_list k" "idle_thread k' = idle_thread k" "running k' = running k"
      "in_external_intr k' = in_external_intr k" "thread_ticks k' = thread_ticks k"
    by (simp_all add: k')
  have d: "in_down k' s t = in_down k s t" if "t \<noteq> u" "t \<noteq> running k" for s t
    using that by (simp add: in_down_def sk)
  have du: "\<not> in_down k' s u" for s by (simp add: in_down_def sk)
  have "queues_ok k'"
    unfolding queues_ok_def
  proof (intro conjI allI)
    show "t \<in> set (ready_list k') \<longleftrightarrow> stat k' t = Some THREAD_READY \<and> idle_thread k' \<noteq> Some t" for t
      using queues_okD(2) [OF inv(1), of t] u by (simp add: st other)
    show "t \<in> set (waiters (semas k' s)) \<longleftrightarrow> stat k' t = Some THREAD_BLOCKED \<and> in_down k' s t" for s t
      using queues_okD(4) [OF inv(1), of t s] d [of t s] du [of s] u r by (cases "t = running k") (auto simp: st other)
  qed (use queues_okD [OF inv(1)] other in simp_all)
  moreover have "running_ok k'" using inv(2) ur by (auto simp: running_ok_def st other)
  moreover have "idle_ok i k'"
    using inv(3) ui assms(2) by (auto simp: idle_ok_def idle_stack_def st sk other)
  moreover have "nascent_ok k'"
    unfolding nascent_ok_def
  proof (intro conjI allI impI)
    have m: "v \<in> set (nascent (stacks k' t)) \<longleftrightarrow> t = running k \<and> v = u \<or> t \<noteq> u \<and> v \<in> set (nascent (stacks k t))" for v t
      using ur by (auto simp: sk)
    have rn: "running k \<notin> set (nascent (stacks k t))" for t using inv(9) r by (auto simp: nascent_ok_def)
    show "stat k' v = Some THREAD_BLOCKED" "stacks k' v = []" if "v \<in> set (nascent (stacks k' t))" for t v
      using that inv(9) ns rn [of t] unfolding m by (auto simp: nascent_ok_def st sk)
    show "distinct (nascent (stacks k' t))" for t
      using inv(9) ns by (simp add: nascent_ok_def sk)
    show "t = t'" if "v \<in> set (nascent (stacks k' t))" "v \<in> set (nascent (stacks k' t'))" for t t' v
      using that inv(9) ns unfolding m nascent_ok_def by blast
  qed
  ultimately show ?thesis
    using inv(5-8) assms(3) u r by (auto simp: kinv_def st sk other stack_ok_lower)
qed

definition created :: "frame list \<Rightarrow> int \<Rightarrow> tptr \<Rightarrow> thread \<Rightarrow> kernel \<Rightarrow> kernel" where
  "created fr v u th k = k\<lparr>threads := (threads k)(u \<mapsto> th\<lparr>tid := v\<rparr>), stacks := (stacks k)(u := Kernel_thread # fr),
     wait_statuses := (wait_statuses k)(v \<mapsto> init_wait_status v),
     children := (children k)(running k := v # children k (running k))\<rparr>"

lemma created_simps [simp]:
  "threads (created fr v u th k) = (threads k)(u \<mapsto> th\<lparr>tid := v\<rparr>)" "stacks (created fr v u th k) = (stacks k)(u := Kernel_thread # fr)"
  "running (created fr v u th k) = running k" "ready_list (created fr v u th k) = ready_list k"
  "semas (created fr v u th k) = semas k" "idle_thread (created fr v u th k) = idle_thread k"
  "in_external_intr (created fr v u th k) = in_external_intr k" "thread_ticks (created fr v u th k) = thread_ticks k"
  "intr_on (created fr v u th k) = intr_on k" "saved_level (created fr v u th k) = saved_level k"
  "holder (created fr v u th k) = holder k" "next_tid (created fr v u th k) = next_tid k" "conds (created fr v u th k) = conds k"
  by (simp_all add: created_def)

lemma stat_created: "threads k u = Some th \<Longrightarrow> stat (created fr v u th k) = stat k"
  by (auto simp: stat_def fun_eq_iff)

lemma create_restD:
  "thread_create_rest fr v u k = Some k' \<Longrightarrow>
     \<exists>th. threads k u = Some th \<and> thread_unblock u (created fr v u th k) = Some k'"
  by (auto simp: thread_create_rest_def thread_current_def created_def Let_def bind_eq_Some_conv)

lemma create_rest_eq:
  assumes "running_ok k" "threads k u = Some th"
  shows "thread_create_rest fr v u k = thread_unblock u (created fr v u th k)"
proof -
  let ?K = "k\<lparr>threads := (threads k)(u \<mapsto> th\<lparr>tid := v\<rparr>), stacks := (stacks k)(u := Kernel_thread # fr),
     wait_statuses := (wait_statuses k)(v \<mapsto> init_wait_status v)\<rparr>"
  have "stat ?K = stat k" using assms(2) by (auto simp: stat_def fun_eq_iff)
  then have "running_ok ?K" using assms(1) by (simp add: running_ok_def)
  then show ?thesis using assms(2) thread_current_eq [of ?K] by (simp add: thread_create_rest_def created_def Let_def)
qed

lemma create_rest_kinv:
  assumes "kinv i k" "running k \<noteq> i" "stacks k (running k) = Create_rest v u # fs"
    and "thread_create_rest [Body, Exit] v u (k\<lparr>stacks := (stacks k)(running k := fs)\<rparr>) = Some k'"
  shows "kinv i k'"
proof -
  note inv = kinvD [OF assms(1)]
  let ?k = "k\<lparr>stacks := (stacks k)(running k := fs)\<rparr>"
  have k0: "kinv i ?k" by (rule pop_kinv [OF assms(1-3)])
  note inv0 = kinvD [OF k0]
  have r: "stat k (running k) = Some THREAD_RUNNING" by (rule running_stat [OF inv(2)])
  have u: "stat k u = Some THREAD_BLOCKED" "stacks k u = []"
    using nascent_okD(1,2) [OF inv(9), of u "running k"] assms(3) by simp_all
  have ui: "u \<noteq> i" using u inv(3) by (auto simp: idle_ok_def idle_stack_def)
  have ur: "u \<noteq> running k" using u assms(3) by auto
  have ns: "u \<notin> set (nascent (stacks ?k t))" for t
    using nascent_okD(3) [OF inv(9), of "running k"] nascent_okD(4) [OF inv(9), of u "running k" t] assms(3)
    by (cases "t = running k") auto
  obtain th where th: "threads k u = Some th" using u(1) by (auto simp: stat_def)
  let ?K = "created [Body, Exit] v u th ?k"
  have sK: "stat ?K t = stat k t" for t using stat_created [of ?k u th] th by simp
  have k': "k' = with_stat u THREAD_READY (?K\<lparr>ready_list := ready_list k @ [u]\<rparr>)"
    using assms(4) th thread_unblock_eq [of ?K u] sK u inv(5) create_rest_eq [OF kinvD(2) [OF k0], of u th] by simp
  have st: "stat k' t = (if t = u then Some THREAD_READY else stat k t)" for t
    using sK [of t] u(1) unfolding k' by (auto simp: stat_def with_stat_def)
  have sk: "stacks k' t = (if t = u then [Kernel_thread, Body, Exit] else stacks ?k t)" for t
    unfolding k' by simp
  have other: "semas k' = semas k" "ready_list k' = ready_list k @ [u]" "idle_thread k' = idle_thread k" "running k' = running k"
      "in_external_intr k' = in_external_intr k" "thread_ticks k' = thread_ticks k"
    unfolding k' by simp_all
  have "queues_ok k'"
    unfolding queues_ok_def
  proof (intro conjI allI)
    show "t \<in> set (ready_list k') \<longleftrightarrow> stat k' t = Some THREAD_READY \<and> idle_thread k' \<noteq> Some t" for t
      using queues_okD(2) [OF inv(1), of t] ui inv(3) by (auto simp: st other idle_ok_def)
    show "distinct (ready_list k')"
      using queues_okD(1) [OF inv(1)] queues_okD(2) [OF inv(1), of u] u(1) by (simp add: other)
    show "t \<in> set (waiters (semas k' s)) \<longleftrightarrow> stat k' t = Some THREAD_BLOCKED \<and> in_down k' s t" for s t
      using queues_okD(4) [OF inv0(1), of t s] queues_okD(4) [OF inv(1), of u s] u(2) by (auto simp: st other in_down_def sk)
  qed (use queues_okD [OF inv(1)] other in simp_all)
  moreover have "running_ok k'" using inv(2) u ur by (auto simp: running_ok_def st other)
  moreover have "idle_ok i k'"
    using inv0(3) ui assms(2) by (auto simp: idle_ok_def idle_stack_def st sk other)
  moreover have "nascent_ok k'"
  proof -
    have m: "nascent (stacks k' t) = (if t = u then [] else nascent (stacks ?k t))" for t by (simp add: sk)
    show ?thesis
      unfolding nascent_ok_def m
    proof (intro conjI allI impI)
      show "stat k' w = Some THREAD_BLOCKED" "stacks k' w = []"
        if "w \<in> set (if t = u then [] else nascent (stacks ?k t))" for t w
        using that nascent_okD(1,2) [OF inv0(9), of w t] ns [of t] by (auto simp: st sk split: if_splits)
      show "distinct (if t = u then [] else nascent (stacks ?k t))" for t
        using nascent_okD(3) [OF inv0(9), of t] by simp
      show "t = t'" if "w \<in> set (if t = u then [] else nascent (stacks ?k t))"
          "w \<in> set (if t' = u then [] else nascent (stacks ?k t'))" for t t' w
        using that nascent_okD(4) [OF inv0(9), of w t t'] by (auto split: if_splits)
    qed
  qed
  ultimately show ?thesis
    using inv0(5-8) u r by (auto simp: kinv_def st sk other split: if_splits)
qed

lemma own_waiter_idle:
  assumes "kinv i k" shows "waiters (semas k (Waiter (running k))) = []"
proof -
  note inv = kinvD [OF assms]
  have False if "u \<in> set (waiters (semas k (Waiter (running k))))" for u
  proof -
    have u: "stat k u = Some THREAD_BLOCKED" "in_down k (Waiter (running k)) u"
      using queues_okD(4) [OF inv(1), of u] that by blast+
    then have "u = running k" using inv(7) [of u] by (auto simp: in_down_def below_down_def)
    then show False using u(1) running_stat [OF inv(2)] by simp
  qed
  then show ?thesis by (meson last_in_set)
qed

lemma sema_init_kinv: "kinv i k \<Longrightarrow> waiters (semas k s) = [] \<Longrightarrow> kinv i (sema_init s v k)"
  by (simp add: sema_init_def set_sema_kinv)

lemma sema_down_kinv:
  assumes "kinv i k" "running k \<noteq> i" "below_down (running k) s (stacks k (running k))" "sema_down s k = Some k'"
  shows "kinv i k'"
  using sema_down_loop_kinv [of i "k\<lparr>intr_on := False\<rparr>" s "intr_on k" k'] assms kinvD(5) [OF assms(1)]
  by (simp add: sema_down_def intr_disable_def)

lemma sema_try_down_kinv:
  assumes "kinv i k" "sema_try_down s k = Some (b, k')"
  shows "kinv i k'" "stacks k' = stacks k" "running k' = running k"
  using assms kinvD(5) [OF assms(1)] set_sema_kinv [of i "k\<lparr>intr_on := False\<rparr>"]
  by (auto simp: sema_try_down_def intr_disable_def intr_set_level_eq Let_def split: if_splits)

lemma set_priority_kinv:
  assumes "kinv i k" "thread_set_priority p k = Some k'" shows "kinv i k'"
proof -
  obtain th where th: "threads k (running k) = Some th" "k' = k\<lparr>threads := (threads k)(running k \<mapsto> th\<lparr>priority := p\<rparr>)\<rparr>"
    using assms thread_current_eq [OF kinvD(2) [OF assms(1)]] by (auto simp: thread_set_priority_def bind_eq_Some_conv)
  have "stat k' = stat k" using th by (auto simp: stat_def fun_eq_iff)
  then show ?thesis by (rule kinv_cong [OF assms(1)]) (simp_all add: th(2))
qed

lemmas lock_call_defs = lock_acquire_def lock_release_def lock_try_acquire_def cond_wait_def cond_signal_def
  cond_broadcast_def lock_held_by_current_thread_def

lemma lock_call_kinv:
  assumes "kinv i k" "running k \<noteq> i" "list_all (lower_frame (running k)) (stacks k (running k))"
  shows "lock_acquire l k = Some k' \<Longrightarrow> kinv i k'" "lock_release l k = Some k' \<Longrightarrow> kinv i k'"
    and "lock_try_acquire l k = Some (b, k') \<Longrightarrow> kinv i k'"
proof -
  have p: "kinv i (push_frames fs k1)"
    if "kinv i k1" "running k1 = running k" "stacks k1 = stacks k"
      "fs = [Call (Sema_down (In_lock l)), Set_holder l] \<or> fs = [Call (Sema_up (In_lock l))] \<or> fs = [Set_holder l]" for fs k1
    by (rule push_kinv) (use assms that in \<open>auto simp: below_down_def\<close>)
  show "lock_acquire l k = Some k' \<Longrightarrow> kinv i k'" "lock_release l k = Some k' \<Longrightarrow> kinv i k'"
    using p assms(1) by (auto simp: lock_call_defs bind_eq_Some_conv)
  show "lock_try_acquire l k = Some (b, k') \<Longrightarrow> kinv i k'"
    using p sema_try_down_kinv [OF assms(1)] by (auto simp: lock_call_defs bind_eq_Some_conv split: if_splits)
qed

lemma cond_call_kinv:
  assumes "kinv i k" "running k \<noteq> i" "list_all (lower_frame (running k)) (stacks k (running k))"
  shows "cond_wait c l k = Some k' \<Longrightarrow> kinv i k'" "cond_signal c l k = Some k' \<Longrightarrow> kinv i k'"
    and "cond_broadcast c l k = Some k' \<Longrightarrow> kinv i k'"
proof -
  have w: "kinv i (sema_init (Waiter (running k)) 0 k)"
    by (rule sema_init_kinv [OF assms(1) own_waiter_idle [OF assms(1)]])
  have p: "kinv i (push_frames fs k1)"
    if "kinv i k1" "running k1 = running k" "stacks k1 = stacks k"
      "fs = [Call (Lock_release l), Call (Sema_down (Waiter (running k))), Call (Lock_acquire l)] \<or>
       fs = [Call (Cond_signal c l), Call (Cond_broadcast c l)] \<or> fs = [Call (Sema_up (Waiter u))]" for fs k1 u
    by (rule push_kinv) (use assms that in \<open>auto simp: below_down_def\<close>)
  show "cond_wait c l k = Some k' \<Longrightarrow> kinv i k'"
    using p [of "(sema_init (Waiter (running k)) 0 k)\<lparr>conds := (conds k)(c := conds k c @ [running k])\<rparr>"] w
    by (auto simp: lock_call_defs bind_eq_Some_conv Let_def sema_init_def)
  show "cond_signal c l k = Some k' \<Longrightarrow> kinv i k'"
    using p [of "k\<lparr>conds := (conds k)(c := tl (conds k c))\<rparr>"] assms(1)
    by (auto simp: lock_call_defs bind_eq_Some_conv split: list.splits)
  show "cond_broadcast c l k = Some k' \<Longrightarrow> kinv i k'"
    using p [of k] assms(1) by (auto simp: lock_call_defs split: if_splits)
qed

lemma exec_call_kinv:
  assumes "kinv i k" "running k \<noteq> i" "exec_call c k = Some k'"
    and "\<And>s. c = Sema_down s \<Longrightarrow> below_down (running k) s (stacks k (running k))"
    and "(\<And>s. c \<noteq> Sema_down s) \<Longrightarrow> list_all (lower_frame (running k)) (stacks k (running k))"
    and "\<And>n v. c = Sema_init n v \<Longrightarrow> waiters (semas k (Sema n)) = []"
    and "\<And>t n p. c = Thread_create (Some t) n p \<Longrightarrow> threads k t = None"
  shows "kinv i k'"
proof (cases c)
  case (Sema_init n v)
  then show ?thesis using assms by (auto simp: exec_call_def sema_init_kinv)
next
  case (Sema_down s)
  then show ?thesis using assms sema_down_kinv by (auto simp: exec_call_def)
next
  case (Sema_try_down s)
  then show ?thesis using assms(1,3) sema_try_down_kinv(1) by (auto simp: exec_call_def)
next
  case (Sema_up s)
  then show ?thesis using assms(1,3) kinvD(1,5) [OF assms(1)] by (auto simp: exec_call_def sema_up_eq upped_kinv)
next
  case (Lock_acquire l)
  then show ?thesis using assms lock_call_kinv(1) by (auto simp: exec_call_def)
next
  case (Lock_try_acquire l)
  then show ?thesis using assms lock_call_kinv(3) by (auto simp: exec_call_def)
next
  case (Lock_release l)
  then show ?thesis using assms lock_call_kinv(2) by (auto simp: exec_call_def)
next
  case (Cond_wait c l)
  then show ?thesis using assms cond_call_kinv(1) by (auto simp: exec_call_def)
next
  case (Cond_signal c l)
  then show ?thesis using assms cond_call_kinv(2) by (auto simp: exec_call_def)
next
  case (Cond_broadcast c l)
  then show ?thesis using assms cond_call_kinv(3) by (auto simp: exec_call_def)
next
  case (Thread_create page n p)
  show ?thesis
  proof (rule thread_create_kinv [OF assms(1,2)])
    show "list_all (lower_frame (running k)) (stacks k (running k))" using assms(5) Thread_create by simp
    show "thread_create page n p k = Some k'" using assms(3) Thread_create by (simp add: exec_call_def)
    show "threads k t = None" if "page = Some t" for t using assms(7) Thread_create that by simp
  qed
next
  case Thread_yield
  then show ?thesis using assms(3) thread_yield_kinv [OF kinv_new_slice [OF assms(1)]] by (simp add: exec_call_def)
next
  case (Set_level b)
  then show ?thesis using assms(1,3) kinvD(5) [OF assms(1)] by (auto simp: exec_call_def intr_set_level_eq)
next
  case (Set_priority p)
  then show ?thesis using assms(1,3) set_priority_kinv by (auto simp: exec_call_def)
qed

lemma stack_ok_below:
  "stack_ok t (f # fs) \<Longrightarrow> (\<And>s b. f \<noteq> Down s b) \<Longrightarrow> (\<And>s. f \<noteq> Call (Sema_down s)) \<Longrightarrow> list_all (lower_frame t) fs"
  by (cases "(t, f # fs)" rule: stack_ok.cases) auto

text \<open>A frame of a thread other than the idle thread.\<close>

lemma exec_frame_kinv:
  assumes "kinv i k" "running k \<noteq> i" "stacks k (running k) = f # fs"
    and "exec_frame f (k\<lparr>stacks := (stacks k)(running k := fs)\<rparr>) = Some k'"
  shows "kinv i k'"
proof -
  let ?k = "k\<lparr>stacks := (stacks k)(running k := fs)\<rparr>"
  have k0: "kinv i ?k" by (rule pop_kinv [OF assms(1-3)])
  have so: "stack_ok (running k) (f # fs)" using kinvD(7) [OF assms(1), of "running k"] assms(3) by simp
  have ni: "\<not> idle_frame f" "\<forall>g\<in>set fs. \<not> idle_frame g" using no_idle_frames [OF assms(1,2)] assms(3) by auto
  have dn: "distinct (nascent (f # fs))" using nascent_okD(3) [OF kinvD(9) [OF assms(1)], of "running k"] assms(3) by simp
  show ?thesis
  proof (cases f)
    case (Call c)
    show ?thesis
    proof (rule exec_call_kinv [OF k0])
      show "below_down (running ?k) s (stacks ?k (running ?k))" if "c = Sema_down s" for s
        using so that Call by simp
      show "list_all (lower_frame (running ?k)) (stacks ?k (running ?k))" if "\<And>s. c \<noteq> Sema_down s"
        using stack_ok_below [OF so] that Call by simp
      show "waiters (semas ?k (Sema n)) = []" if "c = Sema_init n v" for n v using so that Call by simp
      show "threads ?k t = None" if "c = Thread_create (Some t) n p" for t n p using so that Call by simp
    qed (use assms(2,4) Call in \<open>simp_all add: exec_frame_def\<close>)
  next
    case (Down s' b')
    then show ?thesis using sema_down_loop_kinv [OF k0] assms(2,4) so by (simp add: exec_frame_def)
  next
    case (Set_holder l)
    then show ?thesis using assms(4) k0 by (auto simp: exec_frame_def lock_set_holder_def bind_eq_Some_conv)
  next
    case (Tid_read u)
    have "k' = k\<lparr>stacks := (stacks k)(running k := Tid_write (next_tid k) u # fs)\<rparr>"
      using assms(4) Tid_read by (simp add: exec_frame_def allocate_tid_read_def push_frames_def)
    then show ?thesis
      by (intro local_kinv [OF assms(1,2), of k' "Tid_write (next_tid k) u # fs"])
        (use so ni dn assms(3) Tid_read in \<open>auto dest: stack_ok_below\<close>)
  next
    case (Tid_write v u)
    have "k' = k\<lparr>next_tid := v + 1, stacks := (stacks k)(running k := Call (Lock_release tid_lock) # Create_rest v u # fs)\<rparr>"
      using assms(4) Tid_write by (simp add: exec_frame_def allocate_tid_write_def push_frames_def bind_eq_Some_conv)
    then show ?thesis
      by (intro local_kinv [OF assms(1,2), of k' "Call (Lock_release tid_lock) # Create_rest v u # fs"])
        (use so ni dn assms(3) Tid_write in \<open>auto dest: stack_ok_below\<close>)
  next
    case (Create_rest v u)
    then show ?thesis using create_rest_kinv [OF assms(1,2)] assms(3,4) by (simp add: exec_frame_def)
  next
    case Kernel_thread
    then show ?thesis using k0 assms(4) by (auto simp: exec_frame_def intr_enable_def bind_eq_Some_conv)
  next
    case Body
    then show ?thesis using k0 assms(4) by (simp add: exec_frame_def)
  next
    case Exit
    then show ?thesis using thread_exit_kinv [OF k0] assms(2,4) by (simp add: exec_frame_def)
  qed (use ni in simp_all)
qed

text \<open>The frames of the idle thread.\<close>

lemma idle_local_kinv:
  assumes "kinv i k" "running k = i"
    and "stat k' = stat k" "ready_list k' = ready_list k" "running k' = i" "semas k' = semas k"
    and "in_external_intr k' = in_external_intr k" "thread_ticks k' = thread_ticks k"
    and "idle_thread k' = idle_thread k \<or> idle_thread k' = Some i"
    and "stacks k' = (stacks k)(i := B)" "idle_stack k' B" "stack_ok i B"
  shows "kinv i k'"
proof -
  note inv = kinvD [OF assms(1)]
  have r: "stat k i = Some THREAD_RUNNING" using running_stat [OF inv(2)] assms(2) by simp
  have nB: "nascent B = []" using assms(11) by (auto simp: idle_stack_def split: if_splits)
  have d: "in_down k' s t = in_down k s t" if "t \<noteq> i" for s t using that assms(10) by (simp add: in_down_def)
  have it: "idle_thread k' = Some t \<longleftrightarrow> idle_thread k = Some t" if "t \<noteq> i" for t
    using that assms(9) inv(3) by (auto simp: idle_ok_def)
  have "queues_ok k'"
    unfolding queues_ok_def
  proof (intro conjI allI)
    show "t \<in> set (ready_list k') \<longleftrightarrow> stat k' t = Some THREAD_READY \<and> idle_thread k' \<noteq> Some t" for t
      using queues_okD(2) [OF inv(1), of t] it [of t] r assms(3,4) by (cases "t = i") auto
    show "t \<in> set (waiters (semas k' s)) \<longleftrightarrow> stat k' t = Some THREAD_BLOCKED \<and> in_down k' s t" for s t
      using queues_okD(4) [OF inv(1), of t s] d [of t s] r assms(3,6) by (cases "t = i") auto
  qed (use queues_okD [OF inv(1)] assms(4,6) in simp_all)
  moreover have "running_ok k'" using inv(2) assms(2,3,5) by (simp add: running_ok_def)
  moreover have "idle_ok i k'" using inv(3) assms(3,9,10,11) r by (auto simp: idle_ok_def)
  moreover have "nascent_ok k'"
    using inv(9) assms(3,10) nB r unfolding nascent_ok_def by (auto split: if_splits)
  ultimately show ?thesis using inv(5-8) r assms(3,7,8,10,12) by (auto simp: kinv_def)
qed

lemma idle_block_kinv:
  assumes "kinv i k" "running k = i" "stacks k i = [Idle_loop, Exit]"
    and "idle_block (k\<lparr>stacks := (stacks k)(i := [Exit])\<rparr>) = Some k'"
  shows "kinv i k'"
proof -
  note inv = kinvD [OF assms(1)]
  let ?k = "k\<lparr>stacks := (stacks k)(i := [Exit])\<rparr>"
  let ?K = "with_stat i THREAD_BLOCKED (push_frames [Idle_hlt] (?k\<lparr>intr_on := False\<rparr>))"
  have r: "stat k i = Some THREAD_RUNNING" using running_stat [OF inv(2)] assms(2) by simp
  have it: "idle_thread k = Some i" using inv(3) assms(3) by (auto simp: idle_ok_def idle_stack_def)
  have ro: "running_ok ?k" using inv(2) by simp
  have q: "queues_ok ?k"
    unfolding queues_ok_def
  proof (intro conjI allI)
    show "t \<in> set (waiters (semas ?k s)) \<longleftrightarrow> stat ?k t = Some THREAD_BLOCKED \<and> in_down ?k s t" for s t
      using queues_okD(4) [OF inv(1), of t s] r by (cases "t = i") (auto simp: in_down_def)
  qed (use queues_okD [OF inv(1)] in simp_all)
  show ?thesis
  proof (rule schedule_kinv)
    show "to_schedule ?K" using idle_to_schedule [OF q ro] assms(2) it by simp
    show "schedule ?K = Some k'"
      using assms(2,4) inv(2,5) thread_block_eq [of "push_frames [Idle_hlt] (?k\<lparr>intr_on := False\<rparr>)"]
      by (simp add: idle_block_def intr_disable_def)
    show "idle_ok i ?K" using inv(3) it assms(2) by (auto simp: idle_ok_def idle_stack_def)
    show "stack_ok t (stacks ?K t)" for t using inv(7) assms(2) by simp
    show "nascent_ok ?K" using inv(9) r assms(2,3) by (auto simp: nascent_ok_def split: if_splits)
  qed (use inv(5,8) r assms(2) in \<open>auto split: if_splits\<close>)
qed

lemma idle_frame_kinv:
  assumes "kinv i k" "running k = i" "stacks k i = f # fs"
    and "exec_frame f (k\<lparr>stacks := (stacks k)(i := fs)\<rparr>) = Some k'"
  shows "kinv i k'"
proof -
  note inv = kinvD [OF assms(1)]
  have sh: "idle_stack k (f # fs)" using inv(3) assms(3) by (simp add: idle_ok_def)
  consider "f = Kernel_thread" "fs = [Idle_start idle_started, Exit]" "idle_thread k = None"
    | "f = Idle_start idle_started" "fs = [Exit]" "idle_thread k = None"
    | "f = Call (Sema_up idle_started)" "fs = [Idle_loop, Exit]" "idle_thread k = Some i"
    | "f = Idle_loop" "fs = [Exit]" "idle_thread k = Some i" | "f = Idle_hlt" "fs = [Exit]" "idle_thread k = Some i"
    using sh inv(3) by (auto simp: idle_stack_def idle_ok_def split: if_splits)
  then show ?thesis
  proof cases
    case 1
    then show ?thesis using assms(4) assms(2)
      by (intro idle_local_kinv [OF assms(1,2), of k' fs])
        (auto simp: exec_frame_def intr_enable_def bind_eq_Some_conv idle_stack_def)
  next
    case 2
    then have "k' = push_frames [Call (Sema_up idle_started), Idle_loop] (k\<lparr>stacks := (stacks k)(i := fs), idle_thread := Some i\<rparr>)"
      using assms(2,4) thread_current_eq inv(2) by (simp add: exec_frame_def idle_init_def)
    then show ?thesis using assms(2) 2
      by (intro idle_local_kinv [OF assms(1,2), of k' "[Call (Sema_up idle_started), Idle_loop, Exit]"])
        (auto simp: idle_stack_def)
  next
    case 3
    let ?k = "k\<lparr>stacks := (stacks k)(i := fs)\<rparr>"
    have k0: "kinv i ?k"
      by (rule idle_local_kinv [OF assms(1,2), of ?k fs]) (use 3 assms(2) in \<open>auto simp: idle_stack_def\<close>)
    have "k' = upped idle_started ?k"
      using assms(4) 3 kinvD(1,5) [OF k0] sema_up_eq [of ?k] by (simp add: exec_frame_def exec_call_def)
    then show ?thesis using upped_kinv [OF k0] by blast
  next
    case 4
    then show ?thesis using idle_block_kinv [OF assms(1,2)] assms(3,4) by (simp add: exec_frame_def)
  next
    case 5
    then show ?thesis using assms(2,4)
      by (intro idle_local_kinv [OF assms(1,2), of k' "[Idle_loop, Exit]"])
        (auto simp: exec_frame_def idle_halt_def push_frames_def idle_stack_def)
  qed
qed

text \<open>Interrupts. Apart from the interrupt flags and the tick counters, a timer interrupt leaves the state
  alone until the thread yields.\<close>

definition same_core :: "kernel \<Rightarrow> kernel \<Rightarrow> bool" where
  "same_core k k' \<longleftrightarrow> threads k' = threads k \<and> stacks k' = stacks k \<and> saved_level k' = saved_level k \<and>
     ready_list k' = ready_list k \<and> all_list k' = all_list k \<and> idle_thread k' = idle_thread k \<and>
     initial_thread k' = initial_thread k \<and> running k' = running k \<and> semas k' = semas k \<and> holder k' = holder k \<and>
     conds k' = conds k \<and> next_tid k' = next_tid k"

lemma same_coreD:
  assumes "same_core k k'"
  shows "stat k' = stat k" "in_down k' = in_down k" "queues_ok k' = queues_ok k" "running_ok k' = running_ok k"
    "idle_ok i k' = idle_ok i k" "nascent_ok k' = nascent_ok k"
proof -
  show s: "stat k' = stat k" and d: "in_down k' = in_down k"
    using assms by (simp_all add: same_core_def stat_def in_down_def fun_eq_iff)
  show "queues_ok k' = queues_ok k" "running_ok k' = running_ok k" "idle_ok i k' = idle_ok i k" "nascent_ok k' = nascent_ok k"
    using assms s d by (simp_all add: same_core_def queues_ok_def running_ok_def idle_ok_def idle_stack_def nascent_ok_def)
qed

lemma same_core_kinv:
  "kinv i k \<Longrightarrow> same_core k k' \<Longrightarrow> \<not> in_external_intr k' \<Longrightarrow> thread_ticks k' < TIME_SLICE \<Longrightarrow> kinv i k'"
  by (simp add: kinv_def same_coreD) (simp add: same_core_def)

lemma thread_tick_eq:
  assumes "running_ok k" "in_external_intr k"
  obtains k1 where "thread_tick k = Some k1" "same_core k k1" "intr_on k1 = intr_on k" "in_external_intr k1"
    "thread_ticks k1 = thread_ticks k + 1"
    "yield_on_return k1 = (yield_on_return k \<or> thread_ticks k + 1 \<ge> TIME_SLICE)"
proof -
  obtain th where th: "threads k (running k) = Some th" using running_stat [OF assms(1)] by (auto simp: stat_def)
  define k0 where "k0 = (if Some (running k) = idle_thread k then k\<lparr>idle_ticks := idle_ticks k + 1\<rparr>
              else if has_pagedir th then k\<lparr>user_ticks := user_ticks k + 1\<rparr>
              else k\<lparr>kernel_ticks := kernel_ticks k + 1\<rparr>)\<lparr>thread_ticks := thread_ticks k + 1\<rparr>"
  have "thread_tick k = Some (if thread_ticks k + 1 \<ge> TIME_SLICE then k0\<lparr>yield_on_return := True\<rparr> else k0)"
    using th assms thread_current_eq [OF assms(1)]
    by (auto simp: thread_tick_def k0_def intr_yield_on_return_def Let_def)
  then show ?thesis
    by (rule that) (use assms(2) in \<open>auto simp: k0_def same_core_def\<close>)
qed

lemma timer_handler_eq:
  assumes "kinv i k"
  obtains k1 where "intr_handler Timer (k\<lparr>intr_on := False\<rparr>) = (if thread_ticks k + 1 \<ge> TIME_SLICE then thread_yield k1 else Some k1)"
    "same_core k k1" "\<not> intr_on k1" "\<not> in_external_intr k1" "thread_ticks k1 = thread_ticks k + 1"
proof -
  let ?k = "k\<lparr>intr_on := False, in_external_intr := True, yield_on_return := False, ticks := ticks k + 1\<rparr>"
  have c: "same_core k ?k" by (simp add: same_core_def)
  then have "running_ok ?k" using kinvD(2) [OF assms] same_coreD(4) by blast
  then obtain k1 where t: "thread_tick ?k = Some k1" "same_core ?k k1" "intr_on k1 = intr_on ?k" "in_external_intr k1"
    "thread_ticks k1 = thread_ticks ?k + 1" "yield_on_return k1 = (yield_on_return ?k \<or> thread_ticks ?k + 1 \<ge> TIME_SLICE)"
    by (rule thread_tick_eq) simp
  show ?thesis
    by (rule that [of "k1\<lparr>in_external_intr := False\<rparr>"])
      (use t kinvD(5) [OF assms] in \<open>auto simp: intr_handler_def timer_interrupt_def Let_def same_core_def\<close>)
qed

lemma device_handler_eq:
  assumes "kinv i k"
  obtains k1 where "intr_handler (Device n) (k\<lparr>intr_on := False\<rparr>) = Some (upped (Sema n) k1)"
    "same_core k k1" "\<not> intr_on k1" "\<not> in_external_intr k1" "thread_ticks k1 = thread_ticks k"
proof -
  let ?k = "k\<lparr>intr_on := False, in_external_intr := True, yield_on_return := False\<rparr>"
  have c: "same_core k ?k" by (simp add: same_core_def)
  then have "queues_ok ?k" using kinvD(1) [OF assms] same_coreD(3) by blast
  then have u: "sema_up (Sema n) ?k = Some (upped (Sema n) ?k)" by (simp add: sema_up_eq)
  have "(upped (Sema n) ?k)\<lparr>in_external_intr := False\<rparr> = upped (Sema n) (?k\<lparr>in_external_intr := False\<rparr>)"
    by (cases "waiters (semas k (Sema n))") (simp_all add: upped_def with_stat_def set_sema_def)
  then show ?thesis
    by (intro that [of "?k\<lparr>in_external_intr := False\<rparr>"])
      (use u kinvD(5) [OF assms] in \<open>simp_all add: intr_handler_def Let_def same_core_def\<close>)
qed

lemma no_handler_eq:
  assumes "kinv i k"
  obtains k1 where "intr_handler (No_handler v) (k\<lparr>intr_on := False\<rparr>) = Some k1"
    "same_core k k1" "\<not> intr_on k1" "\<not> in_external_intr k1" "thread_ticks k1 = thread_ticks k"
  by (rule that [of "(if v = 0x27 \<or> v = 0x2f then k else unexpected_interrupt v k)
      \<lparr>intr_on := False, in_external_intr := False, yield_on_return := False\<rparr>"])
    (use kinvD(5) [OF assms] in \<open>auto simp: intr_handler_def unexpected_interrupt_def Let_def same_core_def\<close>)

lemma external_interrupt_kinv:
  assumes "kinv i k" "external_interrupt h k = Some k'"
  shows "kinv i k'"
proof -
  obtain k2 where k2: "intr_handler h (k\<lparr>intr_on := False\<rparr>) = Some k2" "kinv i k2 \<Longrightarrow> kinv i k'"
    using assms(2) by (auto simp: external_interrupt_def Let_def bind_eq_Some_conv split: if_splits)
  have "kinv i k2"
  proof (cases h)
    case Timer
    obtain k1 where k1: "intr_handler Timer (k\<lparr>intr_on := False\<rparr>) = (if thread_ticks k + 1 \<ge> TIME_SLICE then thread_yield k1 else Some k1)"
      "same_core k k1" "\<not> intr_on k1" "\<not> in_external_intr k1" "thread_ticks k1 = thread_ticks k + 1"
      by (rule timer_handler_eq [OF assms(1)])
    show ?thesis
    proof (cases "thread_ticks k + 1 \<ge> TIME_SLICE")
      case True
      have "kinv i (k1\<lparr>thread_ticks := 0\<rparr>)"
        by (rule same_core_kinv [OF assms(1)]) (use k1(2,4) in \<open>simp_all add: same_core_def TIME_SLICE_def\<close>)
      then show ?thesis by (rule thread_yield_kinv) (use k2(1) k1(1) True Timer in simp)
    next
      case False
      show ?thesis by (rule same_core_kinv [OF assms(1)]) (use k2(1) k1 False Timer in simp_all)
    qed
  next
    case (Device n)
    obtain k1 where k1: "intr_handler (Device n) (k\<lparr>intr_on := False\<rparr>) = Some (upped (Sema n) k1)"
      "same_core k k1" "\<not> intr_on k1" "\<not> in_external_intr k1" "thread_ticks k1 = thread_ticks k"
      by (rule device_handler_eq [OF assms(1)])
    have "kinv i k1" by (rule same_core_kinv [OF assms(1)]) (use k1 kinvD(6) [OF assms(1)] in simp_all)
    then show ?thesis using k2(1) k1(1) Device upped_kinv by auto
  next
    case (No_handler v)
    show ?thesis
      by (rule no_handler_eq [OF assms(1), of v], rule same_core_kinv [OF assms(1)])
        (use k2(1) No_handler kinvD(6) [OF assms(1)] in simp_all)
  qed
  then show ?thesis by (rule k2(2))
qed

theorem kstep_kinv:
  assumes "kstep k e k'" "kinv i k" shows "kinv i k'"
  using assms(1)
proof cases
  case (resume b)
  then show ?thesis using assms(2) kinvD(5) [OF assms(2)] by (auto simp: thread_yield_return_def intr_set_level_eq)
next
  case (frame f fs)
  show ?thesis
  proof (cases "running k = i")
    case True
    then show ?thesis using idle_frame_kinv [OF assms(2)] frame by simp
  next
    case False
    then show ?thesis using exec_frame_kinv [OF assms(2)] frame by simp
  qed
next
  case (body fs c)
  have so: "stack_ok (running k) (Body # fs)" using kinvD(7) [OF assms(2), of "running k"] body(3) by simp
  have ni: "running k \<noteq> i" using kinvD(3) [OF assms(2)] body(3) by (auto simp: idle_ok_def idle_stack_def split: if_splits)
  show ?thesis
    by (rule exec_call_kinv [OF assms(2) ni body(5)])
      (use so body(3,4) in \<open>auto simp: client_ok_def below_down_def\<close>)
next
  case (interrupt h)
  then show ?thesis using external_interrupt_kinv [OF assms(2)] by simp
qed

text \<open>The invariant holds when the thread system has started.\<close>

lemma boot_eq:
  assumes "main \<noteq> 0" "idle \<noteq> 0" "main \<noteq> idle"
  shows "boot main idle = Some ((bss main)\<lparr>
     threads := [main \<mapsto> \<lparr>tid = 1, status = THREAD_RUNNING, tname = [], priority = PRI_DEFAULT, has_pagedir = False\<rparr>,
                 idle \<mapsto> \<lparr>tid = 2, status = THREAD_READY, tname = [], priority = PRI_MIN, has_pagedir = False\<rparr>],
     stacks := (\<lambda>_. [])(main := [Call (Sema_down idle_started), Body, Exit], idle := [Kernel_thread, Idle_start idle_started, Exit]),
     ready_list := [idle], all_list := [main, idle], initial_thread := main, intr_on := True, next_tid := 3,
     wait_statuses := [2 \<mapsto> init_wait_status 2], children := (\<lambda>_. [])(main := [2])\<rparr>)"
  using assms
  by (simp add: boot_def thread_init_def thread_start_def bss_def lock_init_def sema_init_def set_sema_def init_thread_def
      set_status_def allocate_tid_def sema_down_def sema_down_loop_def intr_disable_def intr_set_level_def intr_enable_def
      lock_set_holder_def thread_current_def is_thread_def sema_up_def thread_create_rest_def thread_unblock_def
      push_frames_def PRI_DEFAULT_def PRI_MIN_def PRI_MAX_def Let_def fun_eq_iff tid_lock_def idle_started_def)

lemma boot_fields:
  assumes "boot main idle = Some k" "main \<noteq> 0" "idle \<noteq> 0" "main \<noteq> idle"
  shows "stat k t = (if t = idle then Some THREAD_READY else if t = main then Some THREAD_RUNNING else None)"
    and "stacks k t = (if t = idle then [Kernel_thread, Idle_start idle_started, Exit]
                       else if t = main then [Call (Sema_down idle_started), Body, Exit] else [])"
    and "ready_list k = [idle]" "running k = main" "idle_thread k = None" "\<not> in_external_intr k" "thread_ticks k = 0"
    and "waiters (semas k s) = []" "sema_value (semas k (In_lock l)) = 1" "holder k l = None" "next_tid k = 3"
    and "saved_level k t = None" "intr_on k" "finite (dom (threads k))"
  using assms boot_eq [OF assms(2-4)] by (auto simp: bss_def stat_def)

lemma boot_kinv:
  assumes "boot main idle = Some k" "main \<noteq> 0" "idle \<noteq> 0" "main \<noteq> idle"
  shows "kinv idle k"
proof -
  note b = boot_fields [OF assms]
  have "queues_ok k" "running_ok k" "nascent_ok k"
    using assms(4) by (auto simp: queues_ok_def running_ok_def nascent_ok_def in_down_def b split: if_splits)
  moreover have "idle_ok idle k" using assms(4) by (auto simp: idle_ok_def idle_stack_def b split: if_splits)
  moreover have "stack_ok t (stacks k t)" for t by (simp add: b below_down_def idle_started_def)
  ultimately show ?thesis by (simp add: kinv_def b TIME_SLICE_def)
qed

lemma ksteps_kinv: "ksteps k es k' \<Longrightarrow> kinv i k \<Longrightarrow> kinv i k'"
  by (induction rule: ksteps.induct) (auto intro: kstep_kinv)

lemma reachable_induct [consumes 1, case_names boot step]:
  assumes "reachable main idle k"
    and "\<And>k. boot main idle = Some k \<Longrightarrow> main \<noteq> 0 \<Longrightarrow> idle \<noteq> 0 \<Longrightarrow> main \<noteq> idle \<Longrightarrow> P k"
    and "\<And>k e k'. reachable main idle k \<Longrightarrow> P k \<Longrightarrow> kstep k e k' \<Longrightarrow> P k'"
  shows "P k"
proof -
  obtain k0 es where k0: "main \<noteq> 0" "idle \<noteq> 0" "main \<noteq> idle" "boot main idle = Some k0" "ksteps k0 es k"
    using assms(1) by (auto simp: reachable_def)
  from k0(5) have "reachable main idle k \<and> P k"
  proof (induction k0 \<equiv> k0 es k rule: ksteps.induct)
    case ksteps_refl
    then show ?case using k0 assms(2) by (auto simp: reachable_def intro: ksteps.ksteps_refl)
  next
    case (ksteps_step es k' e k'')
    then show ?case using assms(3) k0 by (auto simp: reachable_def intro: ksteps.ksteps_step)
  qed
  then show ?thesis ..
qed

theorem reachable_kinv: "reachable main idle k \<Longrightarrow> kinv idle k"
  by (induction rule: reachable_induct) (auto intro: boot_kinv kstep_kinv)

end
