(* ===== verification/Lock_Safety.thy ===== *)
theory Lock_Safety
  imports Scheduler
begin

text \<open>
  Locks: in every interleaving at most one thread is between the acquisition of a lock and its release.
  The proof follows the value of the lock's semaphore and the frames of the threads through every step.
\<close>

section \<open>What the operations leave alone\<close>

definition frame_eq :: "kernel \<Rightarrow> kernel \<Rightarrow> bool" where
  "frame_eq k k' \<longleftrightarrow> stacks k' = stacks k \<and> holder k' = holder k \<and> next_tid k' = next_tid k \<and> conds k' = conds k"

definition values_eq :: "kernel \<Rightarrow> kernel \<Rightarrow> bool" where
  "values_eq k k' \<longleftrightarrow> (\<forall>s. sema_value (semas k' s) = sema_value (semas k s))"

lemma frame_eqD:
  "frame_eq k k' \<Longrightarrow> stacks k' = stacks k" "frame_eq k k' \<Longrightarrow> holder k' = holder k"
  "frame_eq k k' \<Longrightarrow> next_tid k' = next_tid k" "values_eq k k' \<Longrightarrow> sema_value (semas k' s) = sema_value (semas k s)"
  by (simp_all add: frame_eq_def values_eq_def)

lemma set_status_frame: "set_status t st k = Some k' \<Longrightarrow> k' = k\<lparr>threads := threads k'\<rparr>"
  by (auto simp: set_status_def bind_eq_Some_conv)

lemma schedule_tail_frame:
  "thread_schedule_tail p k = Some k' \<Longrightarrow> frame_eq k k' \<and> semas k' = semas k \<and> saved_level k' = saved_level k"
  by (auto simp: thread_schedule_tail_def set_status_def frame_eq_def Let_def bind_eq_Some_conv
      split: option.splits if_splits)

lemma schedule_frame:
  "schedule k = Some k' \<Longrightarrow> frame_eq k k' \<and> semas k' = semas k \<and> saved_level k' = saved_level k"
  by (cases "ready_list k")
    (auto simp: schedule_def next_thread_to_run_def frame_eq_def Let_def bind_eq_Some_conv
      dest!: schedule_tail_frame split: if_splits)

lemma thread_block_frame: "thread_block k = Some k' \<Longrightarrow> frame_eq k k' \<and> semas k' = semas k"
  by (auto simp: thread_block_def set_status_def frame_eq_def bind_eq_Some_conv dest!: schedule_frame)

lemma thread_yield_frame: "thread_yield k = Some k' \<Longrightarrow> frame_eq k k' \<and> semas k' = semas k"
  by (auto simp: thread_yield_def set_status_def frame_eq_def bind_eq_Some_conv intr_disable_def Let_def
      dest!: schedule_frame split: if_splits)

lemma thread_exit_frame:
  "thread_exit k = Some k' \<Longrightarrow> frame_eq (k\<lparr>stacks := (stacks k)(running k := [])\<rparr>) k' \<and> semas k' = semas k"
  by (auto simp: thread_exit_def thread_current_def set_status_def frame_eq_def bind_eq_Some_conv intr_disable_def Let_def
      dest!: schedule_frame)

lemma intr_set_level_frame: "intr_set_level b k = Some (c, k') \<Longrightarrow> k' = k\<lparr>intr_on := b\<rparr>"
  by (auto simp: intr_set_level_def intr_enable_def intr_disable_def bind_eq_Some_conv split: if_splits)

lemma thread_unblock_frame: "thread_unblock t k = Some k' \<Longrightarrow> frame_eq k k' \<and> semas k' = semas k"
  by (auto simp: thread_unblock_def set_status_def frame_eq_def bind_eq_Some_conv intr_disable_def Let_def
      dest!: intr_set_level_frame)

lemma sema_up_frame:
  "sema_up s k = Some k' \<Longrightarrow> frame_eq k k' \<and>
     (\<forall>x. sema_value (semas k' x) = (if x = s then sema_value (semas k s) + 1 else sema_value (semas k x)))"
  by (auto simp: sema_up_def frame_eq_def bind_eq_Some_conv intr_disable_def Let_def set_sema_def
      dest!: intr_set_level_frame thread_unblock_frame split: list.splits)

lemma sema_down_loop_frame:
  assumes "sema_down_loop s b k = Some k'"
  shows "if sema_value (semas k s) = 0
         then frame_eq (push_frames [Down s b] k) k' \<and> values_eq k k'
         else frame_eq k k' \<and>
              (\<forall>x. sema_value (semas k' x) = (if x = s then sema_value (semas k s) - 1 else sema_value (semas k x)))"
proof (cases "sema_value (semas k s) = 0")
  case True
  then obtain t where "thread_block (push_frames [Down s b] (set_sema s ((semas k s)\<lparr>waiters := waiters (semas k s) @ [t]\<rparr>) k)) = Some k'"
    using assms by (auto simp: sema_down_loop_def Let_def bind_eq_Some_conv)
  from thread_block_frame [OF this] True show ?thesis by (simp add: frame_eq_def values_eq_def)
next
  case False
  then show ?thesis
    using assms by (auto simp: sema_down_loop_def Let_def bind_eq_Some_conv frame_eq_def dest!: intr_set_level_frame)
qed

lemma sema_down_frame:
  assumes "sema_down s k = Some k'"
  shows "if sema_value (semas k s) = 0
         then (\<exists>b. frame_eq (push_frames [Down s b] k) k') \<and> values_eq k k'
         else frame_eq k k' \<and>
              (\<forall>x. sema_value (semas k' x) = (if x = s then sema_value (semas k s) - 1 else sema_value (semas k x)))"
  using assms sema_down_loop_frame [of s "intr_on k" "k\<lparr>intr_on := False\<rparr>" k']
  by (auto simp: sema_down_def intr_disable_def bind_eq_Some_conv frame_eq_def values_eq_def split: if_splits)

lemma sema_try_down_frame:
  assumes "sema_try_down s k = Some (ok, k')"
  shows "frame_eq k k'" "ok \<longleftrightarrow> sema_value (semas k s) \<noteq> 0"
    "sema_value (semas k' x) = (if x = s \<and> ok then sema_value (semas k s) - 1 else sema_value (semas k x))"
    "running k' = running k" "threads k' = threads k"
proof -
  have "frame_eq k k' \<and> (ok \<longleftrightarrow> sema_value (semas k s) \<noteq> 0) \<and>
    sema_value (semas k' x) = (if x = s \<and> ok then sema_value (semas k s) - 1 else sema_value (semas k x)) \<and>
    running k' = running k \<and> threads k' = threads k"
    using assms
    by (auto simp: sema_try_down_def intr_disable_def Let_def bind_eq_Some_conv frame_eq_def word_gt_0
        dest!: intr_set_level_frame split: if_splits)
  then show "frame_eq k k'" "ok \<longleftrightarrow> sema_value (semas k s) \<noteq> 0"
    "sema_value (semas k' x) = (if x = s \<and> ok then sema_value (semas k s) - 1 else sema_value (semas k x))"
    "running k' = running k" "threads k' = threads k"
    by simp_all
qed

section \<open>The life of a lock\<close>

definition lock_at :: "(tptr \<Rightarrow> frame list) \<Rightarrow> tptr option \<Rightarrow> u32 \<Rightarrow> nat \<Rightarrow> bool" where
  "lock_at S h v l \<longleftrightarrow> (\<forall>t. transit l (S t) \<longrightarrow> h = None) \<and>
     (v = 1 \<and> (\<forall>t. \<not> (h = Some t \<or> transit l (S t))) \<or> v = 0 \<and> (\<exists>!t. h = Some t \<or> transit l (S t)))"

lemma lock_ok_at: "lock_ok k l = lock_at (stacks k) (holder k l) (sema_value (semas k (In_lock l))) l"
  by (simp add: lock_ok_def lock_at_def owns_def)

lemma lock_at_upd: "lock_at S h v l \<Longrightarrow> transit l B = transit l (S r) \<Longrightarrow> lock_at (S(r := B)) h v l"
proof -
  assume a: "lock_at S h v l" "transit l B = transit l (S r)"
  then have e: "transit l ((S(r := B)) t) = transit l (S t)" for t by simp
  from a(1) show ?thesis unfolding lock_at_def e .
qed

lemma lock_at_take: "lock_at S h v l \<Longrightarrow> v \<noteq> 0 \<Longrightarrow> transit l B \<Longrightarrow> lock_at (S(r := B)) h (v - 1) l"
  by (auto simp: lock_at_def)

lemma lock_at_hold:
  assumes "lock_at S h v l" "transit l (S r)" "\<not> transit l B" shows "lock_at (S(r := B)) (Some r) v l"
proof -
  have "v = 0" "\<And>t. transit l (S t) \<Longrightarrow> t = r" using assms by (auto simp: lock_at_def)
  with assms(3) show ?thesis unfolding lock_at_def by auto
qed

lemma lock_at_unhold:
  assumes "lock_at S (Some r) v l" "transit l B" shows "lock_at (S(r := B)) None v l"
proof -
  have "v = 0" "\<And>t. \<not> transit l (S t)" using assms(1) by (auto simp: lock_at_def)
  with assms(2) show ?thesis unfolding lock_at_def by auto
qed

lemma lock_at_up:
  assumes "lock_at S h v l" "transit l (S r)" "\<not> transit l B" shows "lock_at (S(r := B)) h (v + 1) l"
proof -
  have "v = 0" "h = None" "\<And>t. transit l (S t) \<Longrightarrow> t = r" using assms(1,2) by (auto simp: lock_at_def)
  with assms(3) show ?thesis unfolding lock_at_def by auto
qed

lemma locks_ok_at: "locks_ok k \<longleftrightarrow> (\<forall>l. lock_at (stacks k) (holder k l) (sema_value (semas k (In_lock l))) l)"
  by (simp add: locks_ok_def lock_ok_at)

text \<open>A call by the running thread; \<open>P\<close> is the thread's stack before the call.\<close>

lemma exec_call_locks:
  assumes "exec_call c k = Some k'" "running_ok k"
    and "locks_ok (k\<lparr>stacks := (stacks k)(running k := P)\<rparr>)" "\<And>l. transit l P \<longleftrightarrow> c = Sema_up (In_lock l)"
    and "\<And>s. c = Sema_down s \<Longrightarrow> below_down (running k) s (stacks k (running k))"
    and "(\<And>s. c \<noteq> Sema_down s) \<Longrightarrow> list_all (lower_frame (running k)) (stacks k (running k))"
    and "\<And>l. c \<noteq> Sema_try_down (In_lock l)"
    and "\<And>t n p. c = Thread_create (Some t) n p \<Longrightarrow> threads k t = None \<and> stacks k t = []"
  shows "locks_ok k'"
proof -
  let ?r = "running k"
  have cur: "thread_current k = Some ?r" using assms(2) by (rule thread_current_eq)
  have pre: "lock_at ((stacks k)(?r := P)) (holder k l) (sema_value (semas k (In_lock l))) l" for l
    using assms(3) by (simp add: locks_ok_at)
  \<comment> \<open>a new stack on which the running thread owns the same locks\<close>
  have keep: "lock_at ((stacks k)(?r := B)) (holder k l) (sema_value (semas k (In_lock l))) l"
    if "transit l B = transit l P" for B l
    using lock_at_upd [OF pre, of l B ?r] that by simp
  have low: "\<not> transit l (stacks k ?r)" if "\<And>s. c \<noteq> Sema_down s" for l
    using transit_lower [OF assms(6)] that by blast
  have id: "locks_ok k" if "\<And>s. c \<noteq> Sema_down s" "\<And>s. c \<noteq> Sema_up s"
    using keep [of _ "stacks k ?r"] low that assms(4) by (simp add: locks_ok_at)
  show ?thesis
  proof (cases c)
    case (Sema_init n v)
    then show ?thesis using id assms(1) by (auto simp: exec_call_def locks_ok_at sema_init_def)
  next
    case (Sema_down s)
    have P: "\<not> transit l P" for l using assms(4) Sema_down by simp
    have bd: "below_down ?r s (stacks k ?r)" using assms(5) Sema_down by simp
    have sd: "sema_down s k = Some k'" using assms(1) Sema_down by (simp add: exec_call_def)
    show ?thesis
    proof (cases "sema_value (semas k s) = 0")
      case True
      then show ?thesis using sema_down_frame [OF sd] keep P
        by (auto simp: locks_ok_at frame_eq_def values_eq_def)
    next
      case False
      have f: "stacks k' = (stacks k)(?r := stacks k ?r)" "holder k' = holder k"
        "\<And>x. sema_value (semas k' x) = (if x = s then sema_value (semas k s) - 1 else sema_value (semas k x))"
        using sema_down_frame [OF sd] False by (auto simp: frame_eq_def)
      have "lock_at (stacks k') (holder k' l) (sema_value (semas k' (In_lock l))) l" for l
      proof (cases "s = In_lock l")
        case True
        then have "transit l (stacks k ?r)" using bd by (auto simp: below_down_def split: list.splits frame.splits)
        then show ?thesis using lock_at_take [OF pre [of l], of "stacks k ?r" ?r] True False f by simp
      next
        case False
        then have "\<not> transit l (stacks k ?r)"
          using bd transit_lower by (auto simp: below_down_def split: sema_addr.splits list.splits frame.splits)
        then show ?thesis using keep [of l "stacks k ?r"] P False f by simp
      qed
      then show ?thesis by (simp add: locks_ok_at)
    qed
  next
    case (Sema_try_down s)
    then show ?thesis using assms(1,7) id sema_try_down_frame by (fastforce simp: exec_call_def locks_ok_at frame_eq_def)
  next
    case (Sema_up s)
    have su: "sema_up s k = Some k'" using assms(1) Sema_up by (simp add: exec_call_def)
    have "lock_at (stacks k') (holder k' l) (sema_value (semas k' (In_lock l))) l" for l
      using sema_up_frame [OF su] keep [of l "stacks k ?r"] lock_at_up [OF pre [of l], of ?r "stacks k ?r"] assms(4) [of l] low [of l] Sema_up
      by (cases "s = In_lock l") (auto simp: frame_eq_def)
    then show ?thesis by (simp add: locks_ok_at)
  next
    case (Lock_acquire l)
    then show ?thesis using assms(1,4) keep by (auto simp: exec_call_def lock_call_defs cur locks_ok_at bind_eq_Some_conv)
  next
    case (Lock_try_acquire l)
    then obtain ok k1 where t: "sema_try_down (In_lock l) k = Some (ok, k1)" "k' = (if ok then push_frames [Set_holder l] k1 else k1)"
      using assms(1) by (auto simp: exec_call_def lock_call_defs bind_eq_Some_conv)
    note fr = sema_try_down_frame [OF t(1)]
    show ?thesis
    proof (cases ok)
      case True
      have "lock_at (stacks k') (holder k' l') (sema_value (semas k' (In_lock l'))) l'" for l'
        using fr True t(2) keep [of l' "Set_holder l # stacks k ?r"] assms(4) [of l'] Lock_try_acquire
          lock_at_take [OF pre [of l'], of "Set_holder l # stacks k ?r" ?r]
        by (cases "l' = l") (auto simp: frame_eq_def)
      then show ?thesis by (simp add: locks_ok_at)
    next
      case False
      then show ?thesis using fr t(2) id Lock_try_acquire by (auto simp: locks_ok_at frame_eq_def)
    qed
  next
    case (Lock_release l)
    then have h: "holder k l = Some ?r" "k' = push_frames [Call (Sema_up (In_lock l))] (k\<lparr>holder := (holder k)(l := None)\<rparr>)"
      using assms(1) by (auto simp: exec_call_def lock_call_defs cur bind_eq_Some_conv)
    have "lock_at (stacks k') (holder k' l') (sema_value (semas k' (In_lock l'))) l'" for l'
      using h keep [of l' "Call (Sema_up (In_lock l)) # stacks k ?r"] assms(4) [of l'] Lock_release
        lock_at_unhold [of "(stacks k)(?r := P)" ?r "sema_value (semas k (In_lock l))" l "Call (Sema_up (In_lock l)) # stacks k ?r"] pre [of l]
      by (cases "l' = l") auto
    then show ?thesis by (simp add: locks_ok_at)
  next
    case (Cond_wait cv l)
    then show ?thesis using assms(1,4) keep
      by (auto simp: exec_call_def lock_call_defs cur locks_ok_at bind_eq_Some_conv sema_init_def Let_def)
  next
    case (Cond_signal cv l)
    then show ?thesis using assms(1,4) keep id
      by (auto simp: exec_call_def lock_call_defs cur locks_ok_at bind_eq_Some_conv split: list.splits)
  next
    case (Cond_broadcast cv l)
    then show ?thesis using assms(1,4) keep id
      by (auto simp: exec_call_def lock_call_defs cur locks_ok_at bind_eq_Some_conv split: if_splits)
  next
    case (Thread_create page n p)
    show ?thesis
    proof (cases page)
      case None
      then show ?thesis using assms(1) id Thread_create by (auto simp: exec_call_def thread_create_def)
    next
      case (Some u)
      then have u: "threads k u = None" "stacks k u = []" using assms(8) Thread_create by auto
      then have ur: "u \<noteq> ?r" using cur by (auto simp: thread_current_def is_thread_def bind_eq_Some_conv)
      have s: "stacks k' = ((stacks k)(?r := [Call (Lock_acquire tid_lock), Tid_read u] @ stacks k ?r))(u := [])"
          "holder k' = holder k" "semas k' = semas k"
        using assms(1) Thread_create Some ur
        by (auto simp: exec_call_def thread_create_def init_thread_def bind_eq_Some_conv fun_upd_twist)
      have "lock_at (stacks k') (holder k' l) (sema_value (semas k' (In_lock l))) l" for l
        unfolding s using u(2) assms(4) [of l] Thread_create ur
        by (intro lock_at_upd keep) auto
      then show ?thesis by (simp add: locks_ok_at)
    qed
  next
    case Thread_yield
    then show ?thesis using assms(1) id thread_yield_frame [of k k'] by (auto simp: exec_call_def locks_ok_at frame_eq_def)
  next
    case (Set_level b)
    then show ?thesis using assms(1) id by (auto simp: exec_call_def locks_ok_at dest!: intr_set_level_frame)
  next
    case (Set_priority p)
    then show ?thesis using assms(1) id by (auto simp: exec_call_def thread_set_priority_def locks_ok_at bind_eq_Some_conv)
  qed
qed

lemma exec_frame_locks:
  assumes "kinv i k" "locks_ok k" "stacks k (running k) = f # fs"
    and "exec_frame f (k\<lparr>stacks := (stacks k)(running k := fs)\<rparr>) = Some k'"
  shows "locks_ok k'"
proof -
  let ?r = "running k" and ?k = "k\<lparr>stacks := (stacks k)(running k := fs)\<rparr>"
  note inv = kinvD [OF assms(1)]
  have so: "stack_ok ?r (f # fs)" using inv(7) [of ?r] assms(3) by simp
  have ro: "running_ok ?k" using inv(2) by simp
  have cur: "thread_current ?k = Some ?r" using thread_current_eq [OF ro] by simp
  have pre: "lock_at (stacks k) (holder k l) (sema_value (semas k (In_lock l))) l" for l
    using assms(2) by (simp add: locks_ok_at)
  have keep: "lock_at ((stacks k)(?r := B)) (holder k l) (sema_value (semas k (In_lock l))) l"
    if "transit l B = transit l (f # fs)" for B l
    using lock_at_upd [OF pre, of l B ?r] that assms(3) by simp
  have low: "\<not> transit l fs" if "\<And>s b. f \<noteq> Down s b" "\<And>s. f \<noteq> Call (Sema_down s)" for l
    using transit_lower [OF stack_ok_below [OF so]] that by blast
  show ?thesis
  proof (cases f)
    case (Call c)
    show ?thesis
    proof (rule exec_call_locks)
      show "exec_call c ?k = Some k'" using assms(4) Call by (simp add: exec_frame_def)
      show "running_ok ?k" by (rule ro)
      show "locks_ok (?k\<lparr>stacks := (stacks ?k)(running ?k := f # fs)\<rparr>)"
        using assms(2,3) by (simp add: locks_ok_at fun_upd_idem)
      show "transit l (f # fs) \<longleftrightarrow> c = Sema_up (In_lock l)" for l
        using Call by (cases "(l, f # fs)" rule: transit.cases) auto
      show "below_down (running ?k) s (stacks ?k (running ?k))" if "c = Sema_down s" for s
        using so that Call by simp
      show "list_all (lower_frame (running ?k)) (stacks ?k (running ?k))" if "\<And>s. c \<noteq> Sema_down s"
        using stack_ok_below [OF so] that Call by simp
    qed (use so Call in auto)
  next
    case (Down s b)
    have sd: "sema_down_loop s b ?k = Some k'" using assms(4) Down by (simp add: exec_frame_def)
    have bd: "below_down ?r s fs" using so Down by simp
    have "lock_at (stacks k') (holder k' l) (sema_value (semas k' (In_lock l))) l" for l
    proof (cases "sema_value (semas k s) = 0")
      case True
      then show ?thesis using sema_down_loop_frame [OF sd] keep [of l "Down s b # fs"] Down
        by (simp add: frame_eq_def values_eq_def)
    next
      case False
      have f: "stacks k' = (stacks k)(?r := fs)" "holder k' = holder k"
        "\<And>x. sema_value (semas k' x) = (if x = s then sema_value (semas k s) - 1 else sema_value (semas k x))"
        using sema_down_loop_frame [OF sd] False by (auto simp: frame_eq_def)
      show ?thesis
      proof (cases "s = In_lock l")
        case True
        then have "transit l fs" using bd by (auto simp: below_down_def split: list.splits frame.splits)
        then show ?thesis using lock_at_take [OF pre [of l], of fs ?r] True False f by simp
      next
        case False
        then have "\<not> transit l fs"
          using bd transit_lower by (auto simp: below_down_def split: sema_addr.splits list.splits frame.splits)
        then show ?thesis using keep [of l fs] Down False f by simp
      qed
    qed
    then show ?thesis by (simp add: locks_ok_at)
  next
    case (Set_holder l)
    have k': "k' = ?k\<lparr>holder := (holder k)(l \<mapsto> ?r)\<rparr>"
      using assms(4) Set_holder cur by (simp add: exec_frame_def lock_set_holder_def)
    have "lock_at (stacks k') (holder k' l') (sema_value (semas k' (In_lock l'))) l'" for l'
      using keep [of l' fs] low [of l'] lock_at_hold [OF pre [of l'], of ?r fs] assms(3) Set_holder
      by (cases "l' = l") (auto simp: k')
    then show ?thesis by (simp add: locks_ok_at)
  next
    case (Tid_read u)
    then show ?thesis using assms(4) keep by (auto simp: exec_frame_def allocate_tid_read_def locks_ok_at)
  next
    case (Tid_write v u)
    then show ?thesis using assms(4) keep by (auto simp: exec_frame_def allocate_tid_write_def locks_ok_at bind_eq_Some_conv)
  next
    case (Create_rest v u)
    then obtain th where th: "threads k u = Some th"
      "thread_unblock u (created [Body, Exit] v u th ?k) = Some k'"
      using assms(4) by (auto simp: exec_frame_def dest!: create_restD)
    have u: "stacks k u = []" using nascent_okD(2) [OF inv(9), of u ?r] assms(3) Create_rest by simp
    then have ur: "u \<noteq> ?r" using assms(3) by auto
    have "lock_at (((stacks k)(?r := fs))(u := [Kernel_thread, Body, Exit])) (holder k l) (sema_value (semas k (In_lock l))) l" for l
      by (intro lock_at_upd keep) (use low Create_rest u ur in auto)
    then show ?thesis using thread_unblock_frame [OF th(2)] by (simp add: locks_ok_at frame_eq_def)
  next
    case Exit
    then show ?thesis using assms(4) thread_exit_frame [of ?k k'] keep by (simp add: exec_frame_def locks_ok_at frame_eq_def)
  next
    case (Idle_start s)
    then have "?r = i" using inv(3) assms(3) by (auto simp: idle_ok_def)
    then have "s = idle_started" using inv(3) assms(3) Idle_start by (auto simp: idle_ok_def idle_stack_def split: if_splits)
    then show ?thesis using assms(4) Idle_start cur low keep
      by (auto simp: exec_frame_def idle_init_def locks_ok_at idle_started_def)
  next
    case Idle_loop
    then show ?thesis using assms(4) keep low
      by (auto simp: exec_frame_def idle_block_def intr_disable_def locks_ok_at frame_eq_def dest!: thread_block_frame)
  qed (use assms(4) keep low in \<open>auto simp: exec_frame_def locks_ok_at intr_enable_def bind_eq_Some_conv idle_halt_def\<close>)
qed

lemma external_interrupt_frame:
  assumes "kinv i k" "external_interrupt h k = Some k'"
  shows "frame_eq k k' \<and> (\<forall>l. sema_value (semas k' (In_lock l)) = sema_value (semas k (In_lock l)))"
proof -
  obtain k2 where k2: "intr_handler h (k\<lparr>intr_on := False\<rparr>) = Some k2" "frame_eq k2 k'" "semas k' = semas k2"
    using assms(2) by (auto simp: external_interrupt_def Let_def bind_eq_Some_conv frame_eq_def)
  have "frame_eq k k2 \<and> (\<forall>l. sema_value (semas k2 (In_lock l)) = sema_value (semas k (In_lock l)))"
  proof (cases h)
    case Timer
    obtain k1 where k1: "intr_handler Timer (k\<lparr>intr_on := False\<rparr>) = (if thread_ticks k + 1 \<ge> TIME_SLICE then thread_yield k1 else Some k1)"
      "same_core k k1"
      by (rule timer_handler_eq [OF assms(1)])
    then show ?thesis using k2(1) Timer thread_yield_frame [of k1 k2]
      by (auto simp: frame_eq_def same_core_def split: if_splits)
  next
    case (Device n)
    obtain k1 where k1: "intr_handler (Device n) (k\<lparr>intr_on := False\<rparr>) = Some (upped (Sema n) k1)" "same_core k k1"
      by (rule device_handler_eq [OF assms(1)])
    then show ?thesis using k2(1) Device by (auto simp: frame_eq_def same_core_def)
  next
    case (No_handler v)
    show ?thesis
      by (rule no_handler_eq [OF assms(1), of v]) (use k2(1) No_handler in \<open>auto simp: frame_eq_def same_core_def\<close>)
  qed
  then show ?thesis using k2(2,3) by (simp add: frame_eq_def)
qed

lemma kstep_locks:
  assumes "kstep k e k'" "kinv i k" "locks_ok k" shows "locks_ok k'"
  using assms(1)
proof cases
  case (resume b)
  then show ?thesis using assms(3)
    by (auto simp: thread_yield_return_def locks_ok_at bind_eq_Some_conv dest!: intr_set_level_frame)
next
  case (frame f fs)
  then show ?thesis using exec_frame_locks [OF assms(2,3)] by simp
next
  case (body fs c)
  have so: "stack_ok (running k) (Body # fs)" using kinvD(7) [OF assms(2), of "running k"] body(3) by simp
  show ?thesis
  proof (rule exec_call_locks [OF body(5) kinvD(2) [OF assms(2)]])
    show "locks_ok (k\<lparr>stacks := (stacks k)(running k := Body # fs)\<rparr>)"
      using assms(3) body(3) by (simp add: locks_ok_at fun_upd_idem)
    show "threads k t = None \<and> stacks k t = []" if "c = Thread_create (Some t) n p" for t n p
      using that body(4) kinvD(8) [OF assms(2), of t] by (auto simp: client_ok_def stat_def)
  qed (use so body(3,4) in \<open>auto simp: client_ok_def below_down_def\<close>)
next
  case (interrupt h)
  then show ?thesis using external_interrupt_frame [OF assms(2)] assms(3) by (auto simp: locks_ok_at frame_eq_def)
qed

lemma reachable_locks: "reachable main idle k \<Longrightarrow> locks_ok k"
proof (induction rule: reachable_induct)
  case (boot k)
  have "\<not> transit l (stacks k t)" for l t by (auto simp: boot_fields(2) [OF boot] idle_started_def)
  then show ?case by (auto simp: locks_ok_at lock_at_def boot_fields(9,10) [OF boot])
next
  case (step k e k')
  then show ?case using kstep_locks reachable_kinv by blast
qed

section \<open>Properties\<close>

text \<open>C1: Locks exclude each other in every interleaving of threads, timer and device interrupts: at most one
  thread is in possession of a lock, counted from the moment its \<^verbatim>\<open>lock_acquire\<close> or \<^verbatim>\<open>lock_try_acquire\<close> takes
  the semaphore until its \<^verbatim>\<open>lock_release\<close> ups it again, and the semaphore of the lock is 0 exactly while
  the lock is in some thread's possession and 1 otherwise.\<close>
theorem lock_mutual_exclusion:
  assumes "reachable main idle k"
  shows "(owns k l t \<and> owns k l t' \<longrightarrow> t = t') \<and>
         sema_value (semas k (In_lock l)) = (if \<exists>t. owns k l t then 0 else 1)"
  using reachable_locks [OF assms] by (auto simp: locks_ok_def lock_ok_def)

theorem lock_mutual_exclusion_witness:
  "\<exists>k. reachable 4096 8192 k \<and> sema_value (semas k (In_lock 7)) = (if \<exists>t. owns k 7 t then 0 else 1)"
proof -
  obtain k where "boot 4096 8192 = Some k" using boot_eq [of 4096 8192] by simp
  then have r: "reachable 4096 8192 k" by (auto simp: reachable_def intro: ksteps.ksteps_refl)
  show ?thesis using lock_mutual_exclusion [OF r, of 7] r by blast
qed

text \<open>C5: The list element of a thread serves one queue at a time, as the comment on \<^verbatim>\<open>struct thread\<close> demands:
  in every reachable state the ready list and all semaphore wait lists have no repetitions and no
  thread in common, a thread is on the ready list exactly if it is ready and not the idle thread, it is
  on a wait list exactly if it is blocked in \<^verbatim>\<open>sema_down\<close> on that semaphore, and the running thread is
  the only one marked as running.\<close>
theorem queues_exclusive:
  assumes "reachable main idle k"
  shows "distinct (ready_list k) \<and> distinct (waiters (semas k s)) \<and>
         (t \<in> set (ready_list k) \<longleftrightarrow> stat k t = Some THREAD_READY \<and> idle_thread k \<noteq> Some t) \<and>
         (t \<in> set (waiters (semas k s)) \<longleftrightarrow> stat k t = Some THREAD_BLOCKED \<and> in_down k s t) \<and>
         (stat k t = Some THREAD_RUNNING \<longleftrightarrow> t = running k) \<and>
         set (ready_list k) \<inter> set (waiters (semas k s)) = {} \<and>
         (s \<noteq> s' \<longrightarrow> set (waiters (semas k s)) \<inter> set (waiters (semas k s')) = {})"
proof -
  note inv = kinvD [OF reachable_kinv [OF assms]]
  have "set (ready_list k) \<inter> set (waiters (semas k s)) = {}"
    using queues_okD(2,4) [OF inv(1)] by fastforce
  moreover have "set (waiters (semas k s)) \<inter> set (waiters (semas k s')) = {}" if "s \<noteq> s'"
    using that queues_okD(4) [OF inv(1)] by (fastforce simp: in_down_def)
  ultimately show ?thesis
    using queues_okD [OF inv(1)] inv(2) by (simp add: running_ok_def)
qed

theorem queues_exclusive_witness:
  "\<exists>k. reachable 4096 8192 k \<and> 8192 \<in> set (ready_list k) \<and> stat k 8192 = Some THREAD_READY \<and> stat k 4096 = Some THREAD_RUNNING"
proof -
  obtain k where b: "boot 4096 8192 = Some k" using boot_eq [of 4096 8192] by simp
  then have r: "reachable 4096 8192 k" by (auto simp: reachable_def intro: ksteps.ksteps_refl)
  show ?thesis
    using queues_exclusive [OF r, of "Sema 0" 8192 "Sema 1"] queues_exclusive [OF r, of "Sema 0" 4096 "Sema 1"] r
      boot_fields(3,4) [OF b]
    by auto
qed

end
