(* ===== verification/Wakeup.thy ===== *)
theory Wakeup
  imports Lock_Safety
begin

text \<open>
  Wake-ups: whenever threads wait for a semaphore, every unit of its value has a taker that is ready to
  run, in every interleaving of threads and interrupts.
\<close>

section \<open>Semaphores lose no wake-up\<close>

text \<open>The threads that will try to take semaphore \<open>s\<close> when they next run.\<close>

definition woken :: "kernel \<Rightarrow> sema_addr \<Rightarrow> tptr set" where
  "woken k s = {t \<in> insert (running k) (set (ready_list k)). in_down k s t}"

definition wake_ok :: "kernel \<Rightarrow> bool" where
  "wake_ok k \<longleftrightarrow> (\<forall>s. waiters (semas k s) \<noteq> [] \<longrightarrow> unat (sema_value (semas k s)) \<le> card (woken k s))"

lemma finite_woken [simp]: "finite (woken k s)"
  by (simp add: woken_def)







lemma woken_simps [simp]:
  "woken (k\<lparr>holder := a\<rparr>) = woken k" "woken (k\<lparr>conds := b\<rparr>) = woken k" "woken (k\<lparr>intr_on := c\<rparr>) = woken k"
  "woken (k\<lparr>next_tid := d\<rparr>) = woken k" "woken (k\<lparr>saved_level := f\<rparr>) = woken k" "woken (set_sema s x k) = woken k"
  by (simp_all add: woken_def fun_eq_iff)



lemma wake_upd [simp]:
  "wake_ok (k\<lparr>holder := a\<rparr>) = wake_ok k" "wake_ok (k\<lparr>conds := b\<rparr>) = wake_ok k" "wake_ok (k\<lparr>intr_on := c\<rparr>) = wake_ok k"
  "wake_ok (k\<lparr>next_tid := d\<rparr>) = wake_ok k" "wake_ok (k\<lparr>saved_level := e\<rparr>) = wake_ok k"
  by (simp_all add: wake_ok_def)


















section \<open>Property\<close>




end
