(* ===== verification/Tid_Unique.thy ===== *)
theory Tid_Unique
  imports Lock_Safety
begin

text \<open>
  Thread identifiers: \<^verbatim>\<open>allocate_tid\<close> reads and writes \<^verbatim>\<open>next_tid\<close> in two steps between which other threads
  can run; its lock makes the identifiers unique all the same.
\<close>

section \<open>Stacks of threads that create threads\<close>

fun plain_frame :: "frame \<Rightarrow> bool" where
  "plain_frame (Tid_read _) = False"
| "plain_frame (Tid_write _ _) = False"
| "plain_frame (Create_rest _ _) = False"
| "plain_frame Body = False"
| "plain_frame Exit = False"
| "plain_frame _ = True"

text \<open>What lies above a frame of \<^verbatim>\<open>allocate_tid\<close>, given the holder of the lock and the value of \<^verbatim>\<open>next_tid\<close>.\<close>

definition locking :: "frame list \<Rightarrow> bool" where
  "locking p \<longleftrightarrow> p = [Call (Lock_acquire tid_lock)] \<or> p = [Call (Sema_down (In_lock tid_lock)), Set_holder tid_lock] \<or>
     (\<exists>b. p = [Down (In_lock tid_lock) b, Set_holder tid_lock]) \<or> p = [Set_holder tid_lock]"

definition unlocking :: "frame list \<Rightarrow> bool" where
  "unlocking p \<longleftrightarrow> p = [Call (Lock_release tid_lock)] \<or> p = [Call (Sema_up (In_lock tid_lock))] \<or> p = []"

definition creating :: "tptr option \<Rightarrow> int \<Rightarrow> tptr \<Rightarrow> frame list \<Rightarrow> bool" where
  "creating h n t fs \<longleftrightarrow>
     (\<exists>p u. fs = p @ [Tid_read u, Body, Exit] \<and> (locking p \<or> p = [] \<and> h = Some t)) \<or>
     (\<exists>u. fs = [Tid_write n u, Body, Exit] \<and> h = Some t) \<or>
     (\<exists>p v u. fs = p @ [Create_rest v u, Body, Exit] \<and> unlocking p)"

definition tail :: "frame list \<Rightarrow> bool" where
  "tail fs \<longleftrightarrow> fs = [] \<or> fs = [Exit] \<or> fs = [Body, Exit]"

definition tid_stack :: "tptr option \<Rightarrow> int \<Rightarrow> tptr \<Rightarrow> frame list \<Rightarrow> bool" where
  "tid_stack h n t fs \<longleftrightarrow> (\<exists>p q. fs = p @ q \<and> list_all plain_frame p \<and> tail q) \<or> creating h n t fs"

definition tid_stacks :: "kernel \<Rightarrow> bool" where
  "tid_stacks k \<longleftrightarrow> (\<forall>t. tid_stack (holder k tid_lock) (next_tid k) t (stacks k t))"

lemma tid_stack_plain: "list_all plain_frame p \<Longrightarrow> tail q \<Longrightarrow> tid_stack h n t (p @ q)"
  by (auto simp: tid_stack_def)

lemma tid_stack_cases:
  assumes "tid_stack h n t (f # fs)"
  obtains (plain) p q where "fs = p @ q" "list_all plain_frame (f # p)" "tail q"
    | (tail) "tail (f # fs)"
    | (acquire) u where "f = Call (Lock_acquire tid_lock)" "fs = [Tid_read u, Body, Exit]"
    | (down) u where "f = Call (Sema_down (In_lock tid_lock))" "fs = [Set_holder tid_lock, Tid_read u, Body, Exit]"
    | (waiting) u b where "f = Down (In_lock tid_lock) b" "fs = [Set_holder tid_lock, Tid_read u, Body, Exit]"
    | (hold) u where "f = Set_holder tid_lock" "fs = [Tid_read u, Body, Exit]"
    | (got) u where "f = Tid_read u" "fs = [Body, Exit]" "h = Some t"
    | (store) u where "f = Tid_write n u" "fs = [Body, Exit]" "h = Some t"
    | (release) v u where "f = Call (Lock_release tid_lock)" "fs = [Create_rest v u, Body, Exit]"
    | (up) v u where "f = Call (Sema_up (In_lock tid_lock))" "fs = [Create_rest v u, Body, Exit]"
    | (rest) v u where "f = Create_rest v u" "fs = [Body, Exit]"
proof -
  from assms consider p q where "f # fs = p @ q" "list_all plain_frame p" "tail q" | "creating h n t (f # fs)"
    by (auto simp: tid_stack_def)
  then show ?thesis
  proof cases
    case (1 p q)
    then show ?thesis using plain tail by (cases p) auto
  next
    case 2
    then show ?thesis unfolding creating_def locking_def unlocking_def
      using acquire down waiting hold got store release up rest by auto
  qed
qed

text \<open>Other threads' stacks do not care what the running thread does to the lock and to \<^verbatim>\<open>next_tid\<close>, as
  long as they do not hold the lock.\<close>

lemma tid_stack_other:
  assumes "tid_stack h n t fs" "h = Some t \<Longrightarrow> h' = h \<and> n' = n"
  shows "tid_stack h' n' t fs"
  using assms unfolding tid_stack_def creating_def by blast

section \<open>What calls do to stacks and identifiers\<close>

definition tids_kept :: "kernel \<Rightarrow> kernel \<Rightarrow> bool" where
  "tids_kept k k' \<longleftrightarrow> (\<forall>t th'. threads k' t = Some th' \<longrightarrow> (\<exists>th. threads k t = Some th \<and> tid th = tid th'))"

lemma tids_kept_refl [simp]: "threads k' = threads k \<Longrightarrow> tids_kept k k'"
  by (simp add: tids_kept_def)

lemma tids_kept_trans: "tids_kept k k' \<Longrightarrow> tids_kept k' k'' \<Longrightarrow> tids_kept k k''"
  by (force simp: tids_kept_def)

lemma set_status_tids: "set_status t st k = Some k' \<Longrightarrow> tids_kept k k'"
  by (auto simp: set_status_def tids_kept_def bind_eq_Some_conv split: if_splits)

lemma schedule_tail_tids: "thread_schedule_tail p k = Some k' \<Longrightarrow> tids_kept k k'"
  by (cases p) (auto simp: thread_schedule_tail_def tids_kept_def Let_def bind_eq_Some_conv set_status_def split: if_splits)

lemma schedule_tids: "schedule k = Some k' \<Longrightarrow> tids_kept k k'"
  by (cases "ready_list k")
    (auto simp: schedule_def next_thread_to_run_def Let_def bind_eq_Some_conv tids_kept_def dest!: schedule_tail_tids split: if_splits)

lemma switch_tids:
  "thread_block k = Some k' \<Longrightarrow> tids_kept k k'" "thread_yield k = Some k' \<Longrightarrow> tids_kept k k'"
  "thread_exit k = Some k' \<Longrightarrow> tids_kept k k'"
  by (auto simp: thread_block_def thread_yield_def thread_exit_def intr_disable_def bind_eq_Some_conv tids_kept_def Let_def
      dest!: set_status_tids schedule_tids split: if_splits) (fastforce)+

lemma unblock_tids: "thread_unblock t k = Some k' \<Longrightarrow> tids_kept k k'"
  by (auto simp: thread_unblock_def intr_disable_def bind_eq_Some_conv tids_kept_def Let_def set_status_def
      dest!: intr_set_level_frame split: if_splits)

lemma sema_up_tids: "sema_up s k = Some k' \<Longrightarrow> tids_kept k k'"
  by (cases "waiters (semas k s)")
    (auto simp: sema_up_def intr_disable_def bind_eq_Some_conv Let_def tids_kept_def dest!: intr_set_level_frame unblock_tids)

lemma sema_down_loop_tids: "sema_down_loop s b k = Some k' \<Longrightarrow> tids_kept k k'"
  by (auto simp: sema_down_loop_def Let_def bind_eq_Some_conv tids_kept_def dest!: intr_set_level_frame switch_tids(1)
      split: if_splits)

lemma sema_down_tids: "sema_down s k = Some k' \<Longrightarrow> tids_kept k k'"
  by (auto simp: sema_down_def intr_disable_def bind_eq_Some_conv tids_kept_def dest!: sema_down_loop_tids)

text \<open>The frames a call adds, and its effect on the holder of a lock.\<close>

definition adds :: "kernel \<Rightarrow> call \<Rightarrow> frame list \<Rightarrow> bool" where
  "adds k c new \<longleftrightarrow> list_all plain_frame new \<and> (case c of
     Sema_down s \<Rightarrow> new = [] \<or> (\<exists>b. new = [Down s b])
   | Sema_up s \<Rightarrow> new = []
   | Lock_acquire l \<Rightarrow> new = [Call (Sema_down (In_lock l)), Set_holder l]
   | Lock_release l \<Rightarrow> holder k l = Some (running k) \<and> new = [Call (Sema_up (In_lock l))]
   | _ \<Rightarrow> True)"

definition new_holder :: "kernel \<Rightarrow> call \<Rightarrow> nat \<Rightarrow> tptr option" where
  "new_holder k c = (case c of Lock_release l \<Rightarrow> (holder k)(l := None) | _ \<Rightarrow> holder k)"

lemma exec_call_effect:
  assumes "exec_call c k = Some k'" "running_ok k" "\<And>t n p. c \<noteq> Thread_create (Some t) n p"
  shows "\<exists>new. adds k c new \<and> stacks k' = (stacks k)(running k := new @ stacks k (running k)) \<and>
               holder k' = new_holder k c \<and> next_tid k' = next_tid k \<and> tids_kept k k'"
proof -
  have cur: "thread_current k = Some (running k)" using assms(2) by (rule thread_current_eq)
  have none: "?thesis" if "frame_eq k k'" "tids_kept k k'" "adds k c []" "new_holder k c = holder k"
    using that by (intro exI [of _ "[]"]) (simp add: frame_eq_def)
  note simps = exec_call_def lock_call_defs bind_eq_Some_conv adds_def new_holder_def
  show ?thesis
  proof (cases c)
    case (Sema_init n v)
    then show ?thesis using assms(1) by (intro none) (auto simp: simps frame_eq_def sema_init_def)
  next
    case (Sema_down s)
    then have sd: "sema_down s k = Some k'" using assms(1) by (simp add: simps)
    show ?thesis
    proof (cases "sema_value (semas k s) = 0")
      case True
      then obtain b where "frame_eq (push_frames [Down s b] k) k'" using sema_down_frame [OF sd] by auto
      then show ?thesis using Sema_down sema_down_tids [OF sd]
        by (intro exI [of _ "[Down s b]"]) (simp add: frame_eq_def adds_def new_holder_def)
    next
      case False
      then show ?thesis using Sema_down sema_down_tids [OF sd] sema_down_frame [OF sd]
        by (intro none) (auto simp: adds_def new_holder_def)
    qed
  next
    case (Sema_try_down s)
    then obtain ok where "sema_try_down s k = Some (ok, k')" using assms(1) by (auto simp: simps)
    note fr = sema_try_down_frame [OF this]
    show ?thesis using Sema_try_down fr by (intro none) (auto simp: adds_def new_holder_def)
  next
    case (Sema_up s)
    then have su: "sema_up s k = Some k'" using assms(1) by (simp add: simps)
    then show ?thesis using Sema_up sema_up_frame [OF su] sema_up_tids [OF su] by (intro none) (auto simp: adds_def new_holder_def)
  next
    case (Lock_acquire l)
    then show ?thesis using assms(1) cur
      by (intro exI [of _ "[Call (Sema_down (In_lock l)), Set_holder l]"]) (auto simp: simps)
  next
    case (Lock_try_acquire l)
    then obtain ok k1 where t: "sema_try_down (In_lock l) k = Some (ok, k1)" "k' = (if ok then push_frames [Set_holder l] k1 else k1)"
      using assms(1) by (auto simp: simps)
    note fr = sema_try_down_frame [OF t(1)]
    show ?thesis
      using fr t(2) Lock_try_acquire
      by (intro exI [of _ "if ok then [Set_holder l] else []"]) (auto simp: simps frame_eq_def)
  next
    case (Lock_release l)
    then show ?thesis using assms(1) cur
      by (intro exI [of _ "[Call (Sema_up (In_lock l))]"]) (auto simp: simps)
  next
    case (Cond_wait cv l)
    then show ?thesis using assms(1) cur
      by (intro exI [of _ "[Call (Lock_release l), Call (Sema_down (Waiter (running k))), Call (Lock_acquire l)]"])
        (auto simp: simps Let_def sema_init_def)
  next
    case (Cond_signal cv l)
    show ?thesis
    proof (cases "conds k cv")
      case Nil
      then show ?thesis using assms(1) Cond_signal by (intro none) (auto simp: simps frame_eq_def)
    next
      case (Cons u us)
      then show ?thesis using assms(1) Cond_signal by (intro exI [of _ "[Call (Sema_up (Waiter u))]"]) (auto simp: simps)
    qed
  next
    case (Cond_broadcast cv l)
    show ?thesis
    proof (cases "conds k cv = []")
      case True
      then show ?thesis using assms(1) Cond_broadcast by (intro none) (auto simp: simps frame_eq_def)
    next
      case False
      then show ?thesis using assms(1) Cond_broadcast
        by (intro exI [of _ "[Call (Cond_signal cv l), Call (Cond_broadcast cv l)]"]) (auto simp: simps)
    qed
  next
    case (Thread_create page n p)
    then show ?thesis using assms(1,3) by (intro none; cases page) (auto simp: simps thread_create_def frame_eq_def)
  next
    case Thread_yield
    then have "thread_yield k = Some k'" using assms(1) by (simp add: simps)
    then show ?thesis using Thread_yield thread_yield_frame switch_tids(2) by (intro none) (auto simp: adds_def new_holder_def)
  next
    case (Set_level b)
    then show ?thesis using assms(1) by (intro none) (auto simp: simps frame_eq_def dest!: intr_set_level_frame)
  next
    case (Set_priority p)
    then show ?thesis using assms(1)
      by (intro none) (auto simp: simps frame_eq_def thread_set_priority_def tids_kept_def split: if_splits)
  qed
qed

section \<open>Stacks stay in shape\<close>

lemma tail_Cons: "tail (f # fs) \<Longrightarrow> (f = Exit \<and> fs = [] \<or> f = Body \<and> fs = [Exit])"
  by (auto simp: tail_def)

lemma call_tid_stack:
  assumes "tid_stack h n t (Call c # fs)" "list_all plain_frame new"
    and "\<And>s. c = Sema_down s \<Longrightarrow> new = [] \<or> (\<exists>b. new = [Down s b])" "\<And>s. c = Sema_up s \<Longrightarrow> new = []"
    and "\<And>l. c = Lock_acquire l \<Longrightarrow> new = [Call (Sema_down (In_lock l)), Set_holder l]"
    and "\<And>l. c = Lock_release l \<Longrightarrow> new = [Call (Sema_up (In_lock l))]"
  shows "tid_stack h' n' t (new @ fs)"
  using assms(1)
proof (cases rule: tid_stack_cases)
  case (plain p q)
  then show ?thesis using tid_stack_plain [of "new @ p" q] assms(2) by simp
next
  case tail
  then show ?thesis by (auto dest: tail_Cons)
next
  case (acquire u)
  then show ?thesis using assms(5) by (auto simp: tid_stack_def creating_def locking_def)
next
  case (down u)
  then have "new = [] \<or> (\<exists>b. new = [Down (In_lock tid_lock) b])" using assms(3) by simp
  then show ?thesis
  proof
    assume "new = []"
    then show ?thesis using down unfolding tid_stack_def creating_def locking_def by (intro disjI2 disjI1 exI [of _ "[Set_holder tid_lock]"]) auto
  next
    assume "\<exists>b. new = [Down (In_lock tid_lock) b]"
    then obtain b where "new = [Down (In_lock tid_lock) b]" ..
    then show ?thesis using down unfolding tid_stack_def creating_def locking_def
      by (intro disjI2 disjI1 exI [of _ "[Down (In_lock tid_lock) b, Set_holder tid_lock]"]) auto
  qed
next
  case (release v u)
  then show ?thesis using assms(6) unfolding tid_stack_def creating_def unlocking_def
    by (intro disjI2 exI [of _ "[Call (Sema_up (In_lock tid_lock))]"]) auto
next
  case (up v u)
  then show ?thesis using assms(4) by (auto simp: tid_stack_def creating_def unlocking_def)
qed auto

lemma tid_stacksI:
  assumes "tid_stacks k" "\<And>t. t \<noteq> r \<Longrightarrow> stacks k' t = stacks k t"
    and "\<And>t. t \<noteq> r \<Longrightarrow> holder k tid_lock = Some t \<Longrightarrow> holder k' tid_lock = holder k tid_lock \<and> next_tid k' = next_tid k"
    and "tid_stack (holder k' tid_lock) (next_tid k') r (stacks k' r)"
  shows "tid_stacks k'"
  unfolding tid_stacks_def
proof
  fix t show "tid_stack (holder k' tid_lock) (next_tid k') t (stacks k' t)"
  proof (cases "t = r")
    case False
    then show ?thesis
      using assms(1,2) tid_stack_other [of "holder k tid_lock" "next_tid k" t "stacks k t"] assms(3) [of t]
      by (auto simp: tid_stacks_def)
  qed (use assms(4) in simp)
qed

lemma exec_frame_tid_stacks:
  assumes "kinv i k" "locks_ok k" "tid_stacks k" "stacks k (running k) = f # fs"
    and "exec_frame f (k\<lparr>stacks := (stacks k)(running k := fs)\<rparr>) = Some k'"
  shows "tid_stacks k'"
proof -
  let ?r = "running k" and ?k = "k\<lparr>stacks := (stacks k)(running k := fs)\<rparr>"
  note inv = kinvD [OF assms(1)]
  have ro: "running_ok ?k" using inv(2) by simp
  have cur: "thread_current ?k = Some ?r" using thread_current_eq [OF ro] by simp
  have ts: "tid_stack (holder k tid_lock) (next_tid k) ?r (f # fs)" using assms(3,4) by (metis tid_stacks_def)
  have pl: "tid_stack h n ?r (new @ fs)" if "list_all plain_frame [f]" "list_all plain_frame new" "\<And>c. f \<noteq> Call c"
      "\<And>s b. f \<noteq> Down s b" "\<And>l. f \<noteq> Set_holder l" for new h n
    using ts by (cases rule: tid_stack_cases) (use that tid_stack_plain [of "new @ _" _ h n ?r] in \<open>auto dest: tail_Cons\<close>)
  show ?thesis
  proof (cases f)
    case (Call c)
    have so: "stack_ok ?r (f # fs)" using inv(7) [of ?r] assms(4) by simp
    have ec: "exec_call c ?k = Some k'" using assms(5) Call by (simp add: exec_frame_def)
    have nc: "c \<noteq> Thread_create (Some t) n p" for t n p using so Call by auto
    obtain new where n: "adds ?k c new" "stacks k' = (stacks ?k)(?r := new @ fs)" "holder k' = new_holder ?k c" "next_tid k' = next_tid k"
      using exec_call_effect [OF ec ro nc] by auto
    show ?thesis
    proof (rule tid_stacksI [OF assms(3), of ?r])
      show "holder k' tid_lock = holder k tid_lock \<and> next_tid k' = next_tid k" if "t \<noteq> ?r" "holder k tid_lock = Some t" for t
        using n that by (auto simp: adds_def new_holder_def split: call.splits)
      show "tid_stack (holder k' tid_lock) (next_tid k') ?r (stacks k' ?r)"
        unfolding n(2) fun_upd_same
        by (rule call_tid_stack [of "holder k tid_lock" "next_tid k" ?r c]) (use ts n(1) Call in \<open>auto simp: adds_def\<close>)
    qed (use n in auto)
  next
    case (Down s b)
    have sd: "sema_down_loop s b ?k = Some k'" using assms(5) Down by (simp add: exec_frame_def)
    then have s: "stacks k' = (stacks k)(?r := fs) \<or> stacks k' = (stacks k)(?r := f # fs)" "holder k' = holder k" "next_tid k' = next_tid k"
      using sema_down_loop_frame [OF sd] Down by (auto simp: frame_eq_def split: if_splits)
    have "tid_stack (holder k tid_lock) (next_tid k) ?r fs"
      using ts
    proof (cases rule: tid_stack_cases)
      case (plain p q)
      then show ?thesis using tid_stack_plain [of p q] by simp
    next
      case (waiting u b)
      then show ?thesis unfolding tid_stack_def creating_def locking_def by (intro disjI2 disjI1 exI [of _ "[Set_holder tid_lock]"]) auto
    qed (use Down in \<open>auto dest: tail_Cons\<close>)
    then show ?thesis using s ts by (intro tid_stacksI [OF assms(3), of ?r]) auto
  next
    case (Set_holder l)
    have k': "k' = ?k\<lparr>holder := (holder k)(l \<mapsto> ?r)\<rparr>"
      using assms(5) Set_holder cur by (simp add: exec_frame_def lock_set_holder_def)
    have "transit l (stacks k ?r)" using assms(4) Set_holder by simp
    then have "holder k l = None" using assms(2) unfolding locks_ok_def lock_ok_def by blast
    moreover have "tid_stack (holder k' tid_lock) (next_tid k') ?r fs"
      using ts
    proof (cases rule: tid_stack_cases)
      case (plain p q)
      then show ?thesis using tid_stack_plain [of p q] by simp
    next
      case (hold u)
      then show ?thesis using k' Set_holder by (auto simp: tid_stack_def creating_def)
    qed (use Set_holder in \<open>auto dest: tail_Cons\<close>)
    ultimately show ?thesis by (intro tid_stacksI [OF assms(3), of ?r]) (auto simp: k')
  next
    case (Tid_read u)
    have k': "k' = push_frames [Tid_write (next_tid k) u] ?k" using assms(5) Tid_read by (simp add: exec_frame_def allocate_tid_read_def)
    from ts have "fs = [Body, Exit] \<and> holder k tid_lock = Some ?r"
      by (cases rule: tid_stack_cases) (use Tid_read in \<open>auto dest: tail_Cons\<close>)
    then show ?thesis by (intro tid_stacksI [OF assms(3), of ?r]) (auto simp: k' tid_stack_def creating_def)
  next
    case (Tid_write v u)
    have k': "k' = push_frames [Call (Lock_release tid_lock), Create_rest v u] (?k\<lparr>next_tid := v + 1\<rparr>)"
      using assms(5) Tid_write by (simp add: exec_frame_def allocate_tid_write_def bind_eq_Some_conv)
    from ts have w: "fs = [Body, Exit] \<and> holder k tid_lock = Some ?r"
      by (cases rule: tid_stack_cases) (use Tid_write in \<open>auto dest: tail_Cons\<close>)
    then have "tid_stack (holder k' tid_lock) (next_tid k') ?r (stacks k' ?r)"
      unfolding tid_stack_def creating_def unlocking_def by (intro disjI2 exI [of _ "[Call (Lock_release tid_lock)]"]) (simp add: k')
    then show ?thesis using w by (intro tid_stacksI [OF assms(3), of ?r]) (auto simp: k')
  next
    case (Create_rest v u)
    then obtain th where th: "threads k u = Some th"
      "thread_unblock u (created [Body, Exit] v u th ?k) = Some k'"
      using assms(5) by (auto simp: exec_frame_def dest!: create_restD)
    from ts have "fs = [Body, Exit]" by (cases rule: tid_stack_cases) (use Create_rest in \<open>auto dest: tail_Cons\<close>)
    moreover have "tid_stack h n t [Kernel_thread, Body, Exit]" "tid_stack h n t [Body, Exit]" for h n t
      using tid_stack_plain [of "[Kernel_thread]" "[Body, Exit]"] tid_stack_plain [of "[]" "[Body, Exit]"] by (simp_all add: tail_def)
    ultimately show ?thesis
      using assms(3) thread_unblock_frame [OF th(2)] by (auto simp: tid_stacks_def frame_eq_def)
  next
    case Kernel_thread
    then show ?thesis using assms(5) pl [of "[]"] by (intro tid_stacksI [OF assms(3), of ?r]) (auto simp: exec_frame_def intr_enable_def bind_eq_Some_conv)
  next
    case Body
    from ts have "fs = [Exit]" by (cases rule: tid_stack_cases) (use Body in \<open>auto dest: tail_Cons\<close>)
    then show ?thesis using assms(5) Body tid_stack_plain [of "[]" "[Exit]"]
      by (intro tid_stacksI [OF assms(3), of ?r]) (auto simp: exec_frame_def tail_def)
  next
    case Exit
    then show ?thesis using assms(5) tid_stack_plain [of "[]" "[]"] thread_exit_frame [of ?k k']
      by (intro tid_stacksI [OF assms(3), of ?r]) (auto simp: exec_frame_def tail_def frame_eq_def)
  next
    case (Idle_start s)
    then show ?thesis using assms(5) pl [of "[Call (Sema_up s), Idle_loop]"] cur
      by (intro tid_stacksI [OF assms(3), of ?r]) (auto simp: exec_frame_def idle_init_def)
  next
    case Idle_loop
    then show ?thesis using assms(5) pl [of "[Idle_hlt]"] thread_block_frame [of "push_frames [Idle_hlt] (?k\<lparr>intr_on := False\<rparr>)" k']
      by (intro tid_stacksI [OF assms(3), of ?r]) (auto simp: exec_frame_def idle_block_def intr_disable_def frame_eq_def)
  next
    case Idle_hlt
    then show ?thesis using assms(5) pl [of "[Idle_loop]"]
      by (intro tid_stacksI [OF assms(3), of ?r]) (auto simp: exec_frame_def idle_halt_def)
  qed
qed

lemma kstep_tid_stacks:
  assumes "kstep k e k'" "kinv i k" "locks_ok k" "tid_stacks k" shows "tid_stacks k'"
  using assms(1)
proof cases
  case (resume b)
  then show ?thesis using assms(4)
    by (auto simp: thread_yield_return_def tid_stacks_def bind_eq_Some_conv dest!: intr_set_level_frame)
next
  case (frame f fs)
  then show ?thesis using exec_frame_tid_stacks [OF assms(2-4)] by simp
next
  case (body fs c)
  let ?r = "running k"
  have "tid_stack (holder k tid_lock) (next_tid k) ?r (Body # fs)" using assms(4) body(3) by (metis tid_stacks_def)
  then have fs: "fs = [Exit]" by (cases rule: tid_stack_cases) (auto dest: tail_Cons)
  note inv = kinvD [OF assms(2)]
  show ?thesis
  proof (cases "\<exists>u n p. c = Thread_create (Some u) n p")
    case True
    then obtain u n p where c: "c = Thread_create (Some u) n p" by blast
    then have "threads k u = None" using body(4) by (simp add: client_ok_def)
    then have ur: "u \<noteq> ?r" using running_stat [OF inv(2)] by (auto simp: stat_def)
    have k': "stacks k' = (stacks k)(?r := [Call (Lock_acquire tid_lock)] @ [Tid_read u, Body, Exit], u := [])" "holder k' = holder k" "next_tid k' = next_tid k"
      using body(3,5) c fs ur by (auto simp: exec_call_def thread_create_def init_thread_def bind_eq_Some_conv fun_upd_twist)
    have "tid_stack h n t []" for h n t using tid_stack_plain [of "[]" "[]"] by (simp add: tail_def)
    moreover have "tid_stack h n t ([Call (Lock_acquire tid_lock)] @ [Tid_read u, Body, Exit])" for h n t
      unfolding tid_stack_def creating_def locking_def by blast
    ultimately show ?thesis using assms(4) unfolding tid_stacks_def k' by simp
  next
    case False
    then obtain new where n: "adds k c new" "stacks k' = (stacks k)(?r := new @ stacks k ?r)" "holder k' = new_holder k c" "next_tid k' = next_tid k"
      using exec_call_effect [OF body(5) inv(2)] by auto
    show ?thesis
    proof (rule tid_stacksI [OF assms(4), of ?r])
      show "holder k' tid_lock = holder k tid_lock \<and> next_tid k' = next_tid k" if "t \<noteq> ?r" "holder k tid_lock = Some t" for t
        using n that by (auto simp: adds_def new_holder_def split: call.splits)
      show "tid_stack (holder k' tid_lock) (next_tid k') ?r (stacks k' ?r)"
        using n(1,2) body(3) fs by (auto simp: adds_def tail_def intro!: tid_stack_plain)
    qed (use n in auto)
  qed
next
  case (interrupt h)
  then show ?thesis using external_interrupt_frame [OF assms(2)] assms(4) by (auto simp: tid_stacks_def frame_eq_def)
qed

section \<open>Identifiers stay unique\<close>

text \<open>Thread \<open>t\<close> has identifier \<open>v\<close>, or is about to get it.\<close>

definition has_tid :: "kernel \<Rightarrow> tptr \<Rightarrow> int \<Rightarrow> bool" where
  "has_tid k t v \<longleftrightarrow> (\<exists>th. threads k t = Some th \<and> tid th = v \<and> (\<forall>t'. t \<notin> set (nascent (stacks k t')))) \<or>
     (\<exists>t'. Create_rest v t \<in> set (stacks k t'))"

definition tids_ok :: "kernel \<Rightarrow> bool" where
  "tids_ok k \<longleftrightarrow> (\<forall>t v. has_tid k t v \<longrightarrow> v < next_tid k) \<and>
     (\<forall>t t' v. has_tid k t v \<longrightarrow> has_tid k t' v \<longrightarrow> t = t')"

fun creation :: "frame \<Rightarrow> bool" where
  "creation (Tid_read _) = True"
| "creation (Tid_write _ _) = True"
| "creation (Create_rest _ _) = True"
| "creation _ = False"

lemma nascent_filter: "nascent (filter creation fs) = nascent fs"
  by (induction fs rule: nascent.induct) auto

lemma Create_rest_filter: "Create_rest v t \<in> set fs \<longleftrightarrow> Create_rest v t \<in> set (filter creation fs)"
  by simp

lemma plain_no_creation: "list_all plain_frame fs \<Longrightarrow> filter creation fs = []"
  by (induction fs) (auto elim: plain_frame.elims)

lemma tids_ok_mono:
  assumes "tids_ok k" "tids_kept k k'" "next_tid k' = next_tid k"
    and "\<And>t. nascent (stacks k' t) = nascent (stacks k t)"
    and "\<And>v t t'. Create_rest v t \<in> set (stacks k' t') \<Longrightarrow> Create_rest v t \<in> set (stacks k t')"
  shows "tids_ok k'"
proof -
  have "has_tid k t v" if "has_tid k' t v" for t v
    using that assms(2,5) unfolding has_tid_def assms(4) tids_kept_def by blast
  then show ?thesis using assms(1,3) unfolding tids_ok_def by metis
qed

lemma tids_ok_keep:
  assumes "tids_ok k" "tids_kept k k'" "\<And>t. filter creation (stacks k' t) = filter creation (stacks k t)" "next_tid k' = next_tid k"
  shows "tids_ok k'"
  by (rule tids_ok_mono [OF assms(1,2,4)]) (metis assms(3) nascent_filter Create_rest_filter)+

lemma exec_call_tids:
  assumes "exec_call c k = Some k'" "running_ok k" "tids_ok k" "\<And>t n p. c \<noteq> Thread_create (Some t) n p"
  shows "tids_ok k'"
proof -
  obtain new where n: "adds k c new" "stacks k' = (stacks k)(running k := new @ stacks k (running k))"
      "next_tid k' = next_tid k" "tids_kept k k'"
    using exec_call_effect [OF assms(1,2,4)] by auto
  have "filter creation (stacks k' t) = filter creation (stacks k t)" for t
    using n(1,2) by (auto simp: adds_def plain_no_creation)
  then show ?thesis using tids_ok_keep [OF assms(3) n(4) _ n(3)] by blast
qed

lemma pop_tids:
  assumes "tids_ok k" "stacks k r = f # fs" "\<not> creation f"
  shows "tids_ok (k\<lparr>stacks := (stacks k)(r := fs)\<rparr>)"
  by (rule tids_ok_keep [OF assms(1)]) (use assms(2,3) in auto)

lemma create_rest_tids:
  assumes "kinv i k" "tids_ok k" "stacks k (running k) = Create_rest v u # fs"
    and "thread_create_rest [Body, Exit] v u (k\<lparr>stacks := (stacks k)(running k := fs)\<rparr>) = Some k'"
  shows "tids_ok k'"
proof -
  let ?r = "running k" and ?k = "k\<lparr>stacks := (stacks k)(running k := fs)\<rparr>"
  note inv = kinvD [OF assms(1)]
  obtain th where th: "threads k u = Some th"
    "thread_unblock u (created [Body, Exit] v u th ?k) = Some k'"
    using assms(4) by (auto dest!: create_restD)
  have s: "stacks k' = (stacks k)(?r := fs, u := [Kernel_thread, Body, Exit])" "next_tid k' = next_tid k"
    using thread_unblock_frame [OF th(2)] by (auto simp: frame_eq_def)
  have tk: "\<exists>tha. (if t = u then Some (th\<lparr>tid := v\<rparr>) else threads k t) = Some tha \<and> tid tha = tid th'"
    if "threads k' t = Some th'" for t th'
    using unblock_tids [OF th(2)] that by (simp add: tids_kept_def)
  have u: "stacks k u = []" using nascent_okD(2) [OF inv(9), of u ?r] assms(3) by simp
  have uv: "has_tid k u v" using assms(3) by (auto simp: has_tid_def intro: exI [of _ ?r])
  have "has_tid k t w \<or> t = u \<and> w = v" if ht: "has_tid k' t w" for t w
  proof (cases "t = u")
    case True
    show ?thesis
    proof (cases "\<exists>t'. Create_rest w u \<in> set (stacks k' t')")
      case True
      then show ?thesis using \<open>t = u\<close> assms(3) by (auto simp: s has_tid_def split: if_splits intro: exI [of _ ?r])
    next
      case False
      then obtain th' where th': "threads k' u = Some th'" "tid th' = w" using ht \<open>t = u\<close> by (auto simp: has_tid_def)
      then have "w = v" using tk [of u th'] by auto
      then show ?thesis using \<open>t = u\<close> by simp
    qed
  next
    case False
    have n: "t \<in> set (nascent (stacks k t')) \<Longrightarrow> t \<in> set (nascent (stacks k' t'))" for t'
      using False u assms(3) by (auto simp: s)
    have "Create_rest w t \<in> set (stacks k t')" if "Create_rest w t \<in> set (stacks k' t')" for t'
      using that assms(3) by (auto simp: s split: if_splits)
    moreover have "\<exists>th. threads k t = Some th \<and> tid th = tid th'" if "threads k' t = Some th'" for th'
      using tk [OF that] False by simp
    ultimately show ?thesis using ht n unfolding has_tid_def by blast
  qed
  then show ?thesis using assms(2) uv s(2) unfolding tids_ok_def by metis
qed

lemma tid_write_tids:
  assumes "tids_ok k" "stacks k (running k) = Tid_write (next_tid k) u # fs"
    and "allocate_tid_write (next_tid k) u (k\<lparr>stacks := (stacks k)(running k := fs)\<rparr>) = Some k'"
  shows "tids_ok k'"
proof -
  let ?r = "running k" and ?n = "next_tid k"
  have k': "stacks k' = (stacks k)(?r := Call (Lock_release tid_lock) # Create_rest ?n u # fs)" "next_tid k' = ?n + 1" "threads k' = threads k"
    using assms(3) by (auto simp: allocate_tid_write_def bind_eq_Some_conv)
  have "nascent (stacks k' t) = nascent (stacks k t)" for t using assms(2) by (simp add: k')
  moreover have "Create_rest v t \<in> set (stacks k' t') \<Longrightarrow> Create_rest v t \<in> set (stacks k t') \<or> v = ?n \<and> t = u" for v t t'
    using assms(2) by (auto simp: k' split: if_splits)
  ultimately have "has_tid k t v \<or> v = ?n \<and> t = u" if "has_tid k' t v" for t v
    using that unfolding has_tid_def k'(3) by metis
  then show ?thesis using assms(1) unfolding tids_ok_def k'(2) by (metis less_irrefl zless_add1_eq)
qed

lemma exec_frame_tids:
  assumes "kinv i k" "tid_stacks k" "tids_ok k" "stacks k (running k) = f # fs"
    and "exec_frame f (k\<lparr>stacks := (stacks k)(running k := fs)\<rparr>) = Some k'"
  shows "tids_ok k'"
proof -
  let ?r = "running k" and ?k = "k\<lparr>stacks := (stacks k)(running k := fs)\<rparr>"
  note inv = kinvD [OF assms(1)]
  have ro: "running_ok ?k" using inv(2) by simp
  have cur: "thread_current ?k = Some ?r" using thread_current_eq [OF ro] by simp
  have pop: "tids_ok ?k" if "\<not> creation f" using pop_tids [OF assms(3,4) that] .
  have keep: "tids_ok k'" if "\<not> creation f" "tids_kept ?k k'" "stacks k' = (stacks k)(?r := new @ fs)" "list_all plain_frame new"
      "next_tid k' = next_tid k" for new
    by (rule tids_ok_keep [OF pop [OF that(1)] that(2)]) (use that plain_no_creation in auto)
  have so: "stack_ok ?r (f # fs)" using inv(7) [of ?r] assms(4) by simp
  show ?thesis
  proof (cases f)
    case (Call c)
    have "exec_call c ?k = Some k'" using assms(5) Call by (simp add: exec_frame_def)
    then show ?thesis by (rule exec_call_tids [OF _ ro pop]) (use so Call in auto)
  next
    case (Down s b)
    have sd: "sema_down_loop s b ?k = Some k'" using assms(5) Down by (simp add: exec_frame_def)
    then show ?thesis using sema_down_loop_frame [OF sd] sema_down_loop_tids [OF sd] keep [of "[]"] keep [of "[Down s b]"] Down
      by (auto simp: frame_eq_def split: if_splits)
  next
    case (Set_holder l)
    then show ?thesis using assms(5) cur keep [of "[]"] by (auto simp: exec_frame_def lock_set_holder_def)
  next
    case (Tid_read u)
    then show ?thesis using assms(4,5)
      by (intro tids_ok_mono [OF assms(3)]) (auto simp: exec_frame_def allocate_tid_read_def split: if_splits)
  next
    case (Tid_write v u)
    have "tid_stack (holder k tid_lock) (next_tid k) ?r (f # fs)" using assms(2,4) by (metis tid_stacks_def)
    then have "v = next_tid k" by (cases rule: tid_stack_cases) (use Tid_write in \<open>auto dest: tail_Cons\<close>)
    then show ?thesis using tid_write_tids [OF assms(3)] assms(4,5) Tid_write by (simp add: exec_frame_def)
  next
    case (Create_rest v u)
    then show ?thesis using create_rest_tids [OF assms(1,3)] assms(4,5) by (simp add: exec_frame_def)
  next
    case Exit
    have "tid_stack (holder k tid_lock) (next_tid k) ?r (f # fs)" using assms(2,4) by (metis tid_stacks_def)
    then have "fs = []" by (cases rule: tid_stack_cases) (use Exit in \<open>auto dest: tail_Cons\<close>)
    then show ?thesis using assms(5) Exit keep [of "[]"] thread_exit_frame [of ?k k'] switch_tids(3) [of ?k k']
      by (auto simp: exec_frame_def frame_eq_def)
  next
    case (Idle_start s)
    then show ?thesis using assms(5) keep [of "[Call (Sema_up s), Idle_loop]"] cur by (auto simp: exec_frame_def idle_init_def)
  next
    case Idle_loop
    let ?kb = "push_frames [Idle_hlt] (?k\<lparr>intr_on := False\<rparr>)"
    have "thread_block ?kb = Some k'" using assms(5) Idle_loop by (simp add: exec_frame_def idle_block_def intr_disable_def)
    then have "frame_eq ?kb k'" "tids_kept ?kb k'" using thread_block_frame switch_tids(1) by auto
    then show ?thesis using Idle_loop by (intro keep [of "[Idle_hlt]"]) (auto simp: frame_eq_def tids_kept_def)
  qed (use assms(5) keep [of "[]"] keep [of "[Idle_loop]"] in
      \<open>auto simp: exec_frame_def intr_enable_def bind_eq_Some_conv idle_halt_def\<close>)
qed

lemma thread_create_tids:
  assumes "kinv i k" "tids_ok k" "stacks k (running k) = [Body, Exit]" "threads k u = None" "stacks k u = []"
    and "thread_create (Some u) n p k = Some k'"
  shows "tids_ok k'"
proof -
  let ?r = "running k"
  have ur: "u \<noteq> ?r" using assms(3,5) by auto
  have k': "stacks k' = (stacks k)(?r := [Call (Lock_acquire tid_lock), Tid_read u, Body, Exit], u := [])" "next_tid k' = next_tid k"
      "threads k' t = (if t = u then threads k' u else threads k t)" for t
    using assms(3,6) ur by (auto simp: thread_create_def init_thread_def bind_eq_Some_conv fun_upd_twist)
  have nu: "u \<in> set (nascent (stacks k' ?r))" using ur by (simp add: k')
  have "has_tid k t v" if "has_tid k' t v" for t v
  proof (cases "t = u")
    case True
    then have "\<exists>t'. Create_rest v u \<in> set (stacks k' t')" using that nu unfolding has_tid_def by blast
    then show ?thesis using True by (auto simp: k' has_tid_def split: if_splits)
  next
    case False
    have "t \<in> set (nascent (stacks k t')) \<Longrightarrow> t \<in> set (nascent (stacks k' t'))" for t'
      using assms(3,5) by (auto simp: k')
    moreover have "Create_rest v t \<in> set (stacks k' t') \<Longrightarrow> Create_rest v t \<in> set (stacks k t')" for t'
      by (auto simp: k' split: if_splits)
    ultimately show ?thesis using that False k'(3) [of t] unfolding has_tid_def by auto
  qed
  then show ?thesis using assms(2) k'(2) unfolding tids_ok_def by metis
qed

lemma external_interrupt_tids:
  assumes "kinv i k" "external_interrupt h k = Some k'" shows "tids_kept k k'"
proof -
  obtain k2 where k2: "intr_handler h (k\<lparr>intr_on := False\<rparr>) = Some k2" "threads k' = threads k2"
    using assms(2) by (auto simp: external_interrupt_def Let_def bind_eq_Some_conv)
  have "tids_kept k k2"
  proof (cases h)
    case Timer
    obtain k1 where k1: "intr_handler Timer (k\<lparr>intr_on := False\<rparr>) = (if thread_ticks k + 1 \<ge> TIME_SLICE then thread_yield k1 else Some k1)"
      "same_core k k1"
      by (rule timer_handler_eq [OF assms(1)])
    then show ?thesis using k2(1) Timer switch_tids(2) [of k1 k2] by (auto simp: tids_kept_def same_core_def split: if_splits)
  next
    case (Device n)
    obtain k1 where k1: "intr_handler (Device n) (k\<lparr>intr_on := False\<rparr>) = Some (upped (Sema n) k1)" "same_core k k1"
      by (rule device_handler_eq [OF assms(1)])
    have "tids_kept k1 (upped (Sema n) k1)"
      by (auto simp: upped_def tids_kept_def with_stat_def split: list.splits if_splits)
    then show ?thesis using k2(1) k1 Device by (simp add: tids_kept_def same_core_def)
  next
    case (No_handler v)
    show ?thesis
      by (rule no_handler_eq [OF assms(1), of v]) (use k2(1) No_handler in \<open>simp add: tids_kept_def same_core_def\<close>)
  qed
  then show ?thesis using k2(2) by (simp add: tids_kept_def)
qed

lemma kstep_tids:
  assumes "kstep k e k'" "kinv i k" "tid_stacks k" "tids_ok k" shows "tids_ok k'"
  using assms(1)
proof cases
  case (resume b)
  then show ?thesis
    by (intro tids_ok_mono [OF assms(4)])
      (auto simp: thread_yield_return_def bind_eq_Some_conv dest!: intr_set_level_frame)
next
  case (frame f fs)
  then show ?thesis using exec_frame_tids [OF assms(2-4)] by simp
next
  case (body fs c)
  have "tid_stack (holder k tid_lock) (next_tid k) (running k) (Body # fs)" using assms(3) body(3) by (metis tid_stacks_def)
  then have fs: "fs = [Exit]" by (cases rule: tid_stack_cases) (auto dest: tail_Cons)
  show ?thesis
  proof (cases "\<exists>u n p. c = Thread_create (Some u) n p")
    case True
    then obtain u n p where c: "c = Thread_create (Some u) n p" by blast
    then have u: "threads k u = None" using body(4) by (simp add: client_ok_def)
    then have "stacks k u = []" using kinvD(8) [OF assms(2), of u] by (simp add: stat_def)
    then show ?thesis using thread_create_tids [OF assms(2,4)] u body(3,5) fs c by (simp add: exec_call_def)
  next
    case False
    then show ?thesis using exec_call_tids [OF body(5) kinvD(2) [OF assms(2)] assms(4)] by blast
  qed
next
  case (interrupt h)
  then have "frame_eq k k'" "tids_kept k k'" using external_interrupt_frame [OF assms(2)] external_interrupt_tids [OF assms(2)] by auto
  then show ?thesis by (intro tids_ok_mono [OF assms(4)]) (auto simp: frame_eq_def)
qed

lemma reachable_tids: "reachable main idle k \<Longrightarrow> tid_stacks k \<and> tids_ok k"
proof (induction rule: reachable_induct)
  case (boot k)
  note b = boot_fields [OF boot]
  have "tid_stack h n t ([Kernel_thread, Idle_start idle_started] @ [Exit])" "tid_stack h n t ([Call (Sema_down idle_started)] @ [Body, Exit])"
      "tid_stack h n t ([] @ [])" for h n t
    by (intro tid_stack_plain; simp add: tail_def)+
  then have "tid_stacks k" by (simp add: tid_stacks_def b)
  moreover have "tids_ok k"
    using boot(1) boot_eq [OF boot(2-4)] boot(4)
    by (auto simp: tids_ok_def has_tid_def bss_def split: if_splits)
  ultimately show ?case ..
next
  case (step k e k')
  then show ?case using kstep_tids kstep_tid_stacks reachable_kinv reachable_locks by blast
qed

section \<open>Property\<close>

text \<open>C6: Thread identifiers are unique: although \<^verbatim>\<open>allocate_tid\<close> reads and increments \<^verbatim>\<open>next_tid\<close> in separate
  steps between which any thread can be scheduled, in every reachable state two different threads
  that have been created never have the same identifier, and every identifier is below \<^verbatim>\<open>next_tid\<close>.\<close>
theorem tids_unique:
  assumes "reachable main idle k" "threads k t = Some th" "threads k t' = Some th'" "stacks k t \<noteq> []" "stacks k t' \<noteq> []"
  shows "tid th < next_tid k \<and> (tid th = tid th' \<longrightarrow> t = t')"
proof -
  have ok: "tids_ok k" using reachable_tids [OF assms(1)] by blast
  have n: "t \<notin> set (nascent (stacks k u))" if "stacks k t \<noteq> []" for t u
    using nascent_okD(2) [OF kinvD(9) [OF reachable_kinv [OF assms(1)]], of t u] that by blast
  have "has_tid k t (tid th)" "has_tid k t' (tid th')"
    using assms(2-5) n by (auto simp: has_tid_def)
  then show ?thesis using ok unfolding tids_ok_def by metis
qed

theorem tids_unique_witness:
  "\<exists>k th th'. reachable 4096 8192 k \<and> threads k 4096 = Some th \<and> threads k 8192 = Some th' \<and> tid th < next_tid k \<and> tid th \<noteq> tid th'"
proof -
  obtain k where b: "boot 4096 8192 = Some k" using boot_eq [of 4096 8192] by simp
  then have r: "reachable 4096 8192 k" by (auto simp: reachable_def intro: ksteps.ksteps_refl)
  note f = boot_fields [OF b]
  obtain th th' where th: "threads k 4096 = Some th" "threads k 8192 = Some th'"
    using f(1) [of 4096] f(1) [of 8192] by (auto simp: stat_def)
  show ?thesis
    using tids_unique [OF r th] th r f(2) [of 4096] f(2) [of 8192] by auto
qed

end
