(* ===== verification/Panic_Free.thy ===== *)
theory Panic_Free
  imports Lock_Safety
begin

text \<open>
  Which assertions of the scheduler and of the semaphores can fail: in every state the thread system
  can reach, an interrupt is handled, and a step of the running thread inside \<^verbatim>\<open>threads/thread.c\<close> and
  \<^verbatim>\<open>threads/synch.c\<close> gives a next state, unless it calls an operation whose contract is the caller's
  (a lock is not acquired twice, it is released and waited on by its holder, identifiers do not run out), or
  a thread exits and the next one was preempted while it held the lock of the page allocator.
\<close>

section \<open>Interrupt levels\<close>

text \<open>The running thread is \<open>calm\<close> when it is neither inside \<^verbatim>\<open>sema_down\<close> nor inside \<^verbatim>\<open>thread_yield\<close>. Only then
  may interrupts be on, and a thread inside \<^verbatim>\<open>thread_yield\<close> is not inside \<^verbatim>\<open>sema_down\<close>.\<close>

definition calm :: "kernel \<Rightarrow> bool" where
  "calm k \<longleftrightarrow> saved_level k (running k) = None \<and> (\<forall>s. \<not> in_down k s (running k))"

definition yields_ok :: "kernel \<Rightarrow> bool" where
  "yields_ok k \<longleftrightarrow> (\<forall>t s. saved_level k t \<noteq> None \<longrightarrow> \<not> in_down k s t)"

definition level_ok :: "kernel \<Rightarrow> bool" where
  "level_ok k \<longleftrightarrow> (intr_on k \<longrightarrow> calm k) \<and> yields_ok k"

lemma schedule_tail_level: "thread_schedule_tail p k = Some k' \<Longrightarrow> \<not> intr_on k'"
  by (cases p) (auto simp: thread_schedule_tail_def Let_def bind_eq_Some_conv set_status_def split: if_splits)

lemma schedule_level: "schedule k = Some k' \<Longrightarrow> \<not> intr_on k' \<and> stacks k' = stacks k \<and> saved_level k' = saved_level k"
  using schedule_frame [of k k'] frame_eqD [of k k']
  by (auto simp: schedule_def Let_def bind_eq_Some_conv dest!: schedule_tail_level split: prod.splits if_splits)

lemma switch_level:
  shows "thread_block k = Some k' \<Longrightarrow> \<not> intr_on k' \<and> stacks k' = stacks k \<and> saved_level k' = saved_level k"
    and "thread_yield k = Some k' \<Longrightarrow> \<not> intr_on k' \<and> stacks k' = stacks k \<and> saved_level k' = (saved_level k)(running k \<mapsto> intr_on k)"
    and "thread_exit k = Some k' \<Longrightarrow> \<not> intr_on k' \<and> stacks k' = (stacks k)(running k := []) \<and> saved_level k' = saved_level k"
  by (auto simp: thread_block_def thread_yield_def thread_exit_def thread_current_def set_status_def Let_def bind_eq_Some_conv
      intr_disable_def dest!: schedule_level split: if_splits)

lemma calm_cong: "stacks k' = stacks k \<Longrightarrow> running k' = running k \<Longrightarrow> saved_level k' = saved_level k \<Longrightarrow> calm k' = calm k"
  by (simp add: calm_def in_down_def)

lemma yields_ok_cong: "stacks k' = stacks k \<Longrightarrow> saved_level k' = saved_level k \<Longrightarrow> yields_ok k' = yields_ok k"
  by (simp add: yields_ok_def in_down_def)

lemma off_level: "\<not> intr_on k \<Longrightarrow> yields_ok k \<Longrightarrow> level_ok k"
  by (simp add: level_ok_def)

lemma calm_level: "calm k \<Longrightarrow> yields_ok k \<Longrightarrow> level_ok k"
  by (simp add: level_ok_def)

lemma push_level:
  assumes "calm k" "yields_ok k" "stacks k' = (stacks k)(running k := f # fs)" "running k' = running k" "saved_level k' = saved_level k"
    and "\<And>s b. f \<noteq> Down s b"
  shows "level_ok k'"
  using assms by (auto simp: level_ok_def calm_def yields_ok_def in_down_def)

lemma same_level:
  assumes "calm k" "yields_ok k" "stacks k' = stacks k" "running k' = running k" "saved_level k' = saved_level k"
  shows "level_ok k'"
  using assms calm_cong yields_ok_cong calm_level by blast

lemma unblock_same: "thread_unblock t k = Some k' \<Longrightarrow> stacks k' = stacks k \<and> running k' = running k \<and> saved_level k' = saved_level k"
  by (auto simp: thread_unblock_def set_status_def intr_disable_def Let_def bind_eq_Some_conv dest!: intr_set_level_frame)

lemma sema_up_same: "sema_up s k = Some k' \<Longrightarrow> stacks k' = stacks k \<and> running k' = running k \<and> saved_level k' = saved_level k"
  by (cases "waiters (semas k s)")
    (auto simp: sema_up_def intr_disable_def Let_def bind_eq_Some_conv set_sema_def dest!: intr_set_level_frame unblock_same)

lemma sema_try_down_same:
  "sema_try_down s k = Some (b, k') \<Longrightarrow> stacks k' = stacks k \<and> running k' = running k \<and> saved_level k' = saved_level k"
  by (auto simp: sema_try_down_def intr_disable_def Let_def bind_eq_Some_conv set_sema_def dest!: intr_set_level_frame)

lemma sema_down_loop_level: "sema_down_loop s b k = Some k' \<Longrightarrow> calm k \<Longrightarrow> yields_ok k \<Longrightarrow> level_ok k'"
  by (auto simp: sema_down_loop_def Let_def bind_eq_Some_conv level_ok_def calm_def yields_ok_def in_down_def set_sema_def
      dest!: intr_set_level_frame switch_level(1) split: if_splits)

lemma yield_level: "thread_yield k = Some k' \<Longrightarrow> calm k \<Longrightarrow> yields_ok k \<Longrightarrow> level_ok k'"
  by (auto simp: level_ok_def calm_def yields_ok_def in_down_def dest!: switch_level(2) split: if_splits)

lemma exec_call_level:
  assumes "exec_call c k = Some k'" "calm k" "yields_ok k" "\<And>t n p. c = Thread_create (Some t) n p \<Longrightarrow> t \<noteq> running k"
  shows "level_ok k'"
proof (cases c)
  case (Sema_down s)
  then have "sema_down_loop s (intr_on k) (k\<lparr>intr_on := False\<rparr>) = Some k'"
    using assms(1) by (simp add: exec_call_def sema_down_def intr_disable_def bind_eq_Some_conv)
  then show ?thesis
    by (rule sema_down_loop_level) (use assms(2,3) in \<open>simp_all add: calm_def yields_ok_def\<close>)
next
  case (Sema_up s)
  then show ?thesis using assms(1-3) by (auto simp: exec_call_def dest!: sema_up_same intro: same_level)
next
  case Thread_yield
  then show ?thesis using assms(1-3) yield_level by (simp add: exec_call_def)
next
  case (Sema_try_down s)
  then show ?thesis using assms(1-3) by (auto simp: exec_call_def dest!: sema_try_down_same intro: same_level)
next
  case (Lock_try_acquire l)
  then show ?thesis using assms(1-3)
    by (auto simp: exec_call_def lock_call_defs bind_eq_Some_conv dest!: sema_try_down_same
        intro: same_level push_level split: if_splits)
next
  case (Thread_create page n p)
  then show ?thesis using assms
    by (cases page) (auto simp: exec_call_def thread_create_def init_thread_def bind_eq_Some_conv level_ok_def calm_def
        yields_ok_def in_down_def split: if_splits)
next
  case (Cond_signal cv l)
  then show ?thesis using assms(1-3)
    by (cases "conds k cv") (auto simp: exec_call_def lock_call_defs bind_eq_Some_conv intro: same_level push_level)
next
  case (Cond_broadcast cv l)
  then show ?thesis using assms(1-3)
    by (cases "conds k cv") (auto simp: exec_call_def lock_call_defs bind_eq_Some_conv intro: same_level push_level)
next
  case (Set_level b)
  then show ?thesis using assms(1-3) by (auto simp: exec_call_def dest!: intr_set_level_frame intro: same_level)
next
  case (Set_priority p)
  then show ?thesis using assms(1-3)
    by (auto simp: exec_call_def thread_set_priority_def bind_eq_Some_conv intro: same_level)
qed (use assms(1-3) in \<open>auto simp: exec_call_def sema_init_def set_sema_def lock_call_defs Let_def bind_eq_Some_conv
      intro: same_level push_level\<close>)

lemma pop_calm:
  assumes "kinv i k" "saved_level k (running k) = None" "stacks k (running k) = f # fs" "yields_ok k"
  shows "calm (k\<lparr>stacks := (stacks k)(running k := fs)\<rparr>)" "yields_ok (k\<lparr>stacks := (stacks k)(running k := fs)\<rparr>)"
proof -
  have "stack_ok (running k) (f # fs)" using kinvD(7) [OF assms(1), of "running k"] assms(3) by simp
  then have "fs \<noteq> Down s b # gs" for s b gs
    by (cases "(running k, f # fs)" rule: stack_ok.cases)
      (auto simp: below_down_def split: sema_addr.splits list.splits frame.splits)
  then show "calm (k\<lparr>stacks := (stacks k)(running k := fs)\<rparr>)" using assms(2) by (simp add: calm_def in_down_def)
  show "yields_ok (k\<lparr>stacks := (stacks k)(running k := fs)\<rparr>)" using assms(2,4) by (auto simp: yields_ok_def in_down_def)
qed

lemma exec_frame_level:
  assumes "kinv i k" "saved_level k (running k) = None" "stacks k (running k) = f # fs" "yields_ok k"
    and "exec_frame f (k\<lparr>stacks := (stacks k)(running k := fs)\<rparr>) = Some k'"
  shows "level_ok k'"
proof -
  let ?k = "k\<lparr>stacks := (stacks k)(running k := fs)\<rparr>"
  note c = pop_calm [OF assms(1-4)]
  show ?thesis
  proof (cases f)
    case (Call x)
    have so: "stack_ok (running k) (f # fs)" using kinvD(7) [OF assms(1), of "running k"] assms(3) by simp
    show ?thesis
      by (rule exec_call_level [OF _ c, of x]) (use assms(5) Call so in \<open>auto simp: exec_frame_def\<close>)
  next
    case (Down s b)
    then show ?thesis using assms(5) sema_down_loop_level [OF _ c] by (simp add: exec_frame_def)
  next
    case (Set_holder l)
    then show ?thesis using assms(5) same_level [OF c] by (auto simp: exec_frame_def lock_set_holder_def bind_eq_Some_conv)
  next
    case (Tid_read u)
    then show ?thesis using assms(5) by (intro push_level [OF c]) (auto simp: exec_frame_def allocate_tid_read_def)
  next
    case (Tid_write v u)
    then show ?thesis using assms(5)
      by (intro push_level [OF c]) (auto simp: exec_frame_def allocate_tid_write_def bind_eq_Some_conv)
  next
    case (Create_rest v u)
    have "u \<noteq> running k"
      using nascent_okD(2) [OF kinvD(9) [OF assms(1)], of u "running k"] assms(3) Create_rest by auto
    then show ?thesis using assms(2,4,5) c(1) Create_rest
      by (auto simp: exec_frame_def level_ok_def calm_def yields_ok_def in_down_def
          dest!: create_restD unblock_same split: if_splits)
  next
    case Kernel_thread
    then show ?thesis using assms(5) same_level [OF c] by (auto simp: exec_frame_def intr_enable_def bind_eq_Some_conv)
  next
    case Body
    then show ?thesis using assms(5) same_level [OF c] by (auto simp: exec_frame_def)
  next
    case Exit
    then show ?thesis using assms(2,4,5)
      by (auto simp: exec_frame_def level_ok_def yields_ok_def in_down_def dest!: switch_level(3) split: if_splits)
  next
    case (Idle_start s)
    then show ?thesis using assms(5)
      by (intro push_level [OF c]) (auto simp: exec_frame_def idle_init_def bind_eq_Some_conv)
  next
    case Idle_loop
    then show ?thesis using assms(2,4,5)
      by (auto simp: exec_frame_def idle_block_def intr_disable_def level_ok_def yields_ok_def in_down_def dest!: switch_level(1)
          split: if_splits)
  next
    case Idle_hlt
    then show ?thesis using assms(5) by (intro push_level [OF c]) (auto simp: exec_frame_def idle_halt_def)
  qed
qed

lemma external_interrupt_level:
  assumes "kinv i k" "level_ok k" "intr_on k" "external_interrupt h k = Some k'"
  shows "level_ok k'"
proof -
  have c: "calm k" "yields_ok k" using assms(2,3) by (simp_all add: level_ok_def)
  obtain k2 where k2: "intr_handler h (k\<lparr>intr_on := False\<rparr>) = Some k2"
    "k' = (if saved_level k2 (running k) = None then k2\<lparr>intr_on := True\<rparr>
           else k2\<lparr>saved_level := (saved_level k2)(running k \<mapsto> True)\<rparr>)"
    using assms(4) by (auto simp: external_interrupt_def Let_def bind_eq_Some_conv)
  have same: ?thesis if "stacks k2 = stacks k" "running k2 = running k" "saved_level k2 = saved_level k"
    using that c k2(2) by (intro same_level [OF c]) (auto simp: calm_def)
  show ?thesis
  proof (cases h)
    case Timer
    obtain k1 where k1: "intr_handler Timer (k\<lparr>intr_on := False\<rparr>) = (if thread_ticks k + 1 \<ge> TIME_SLICE then thread_yield k1 else Some k1)"
      "same_core k k1" "\<not> intr_on k1"
      by (rule timer_handler_eq [OF assms(1)])
    have e: "stacks k1 = stacks k" "running k1 = running k" "saved_level k1 = saved_level k"
      using k1(2) by (simp_all add: same_core_def)
    show ?thesis
    proof (cases "thread_ticks k + 1 \<ge> TIME_SLICE")
      case True
      then have y: "\<not> intr_on k2" "stacks k2 = stacks k" "saved_level k2 = (saved_level k)(running k \<mapsto> False)"
        using switch_level(2) [of k1 k2] k1 k2(1) Timer e by auto
      then show ?thesis using c k2(2) by (auto simp: level_ok_def calm_def yields_ok_def in_down_def)
    next
      case False
      then show ?thesis using k1(1) k2(1) Timer e by (intro same) simp_all
    qed
  next
    case (Device n)
    obtain k1 where k1: "intr_handler (Device n) (k\<lparr>intr_on := False\<rparr>) = Some (upped (Sema n) k1)" "same_core k k1"
      by (rule device_handler_eq [OF assms(1)])
    then show ?thesis using k2(1) Device by (intro same) (auto simp: same_core_def)
  next
    case (No_handler v)
    show ?thesis
      by (rule no_handler_eq [OF assms(1), of v], rule same) (use k2(1) No_handler in \<open>auto simp: same_core_def\<close>)
  qed
qed

lemma kstep_level:
  assumes "kstep k e k'" "kinv i k" "level_ok k" shows "level_ok k'"
  using assms(1)
proof cases
  case (resume b)
  then show ?thesis using assms(3) kinvD(5) [OF assms(2)]
    by (auto simp: thread_yield_return_def intr_set_level_eq level_ok_def calm_def yields_ok_def split: if_splits)
next
  case (frame f fs)
  then show ?thesis using exec_frame_level [OF assms(2)] assms(3) by (simp add: level_ok_def)
next
  case (body fs c)
  have "calm k" using body by (simp add: calm_def in_down_def)
  moreover have "t \<noteq> running k" if "c = Thread_create (Some t) n p" for t n p
    using that body(4) running_stat [OF kinvD(2) [OF assms(2)]] by (auto simp: client_ok_def stat_def)
  ultimately show ?thesis using exec_call_level [OF body(5)] assms(3) by (simp add: level_ok_def)
next
  case (interrupt h)
  then show ?thesis using external_interrupt_level [OF assms(2,3)] by simp
qed

lemma reachable_level: "reachable main idle k \<Longrightarrow> level_ok k"
proof (induction rule: reachable_induct)
  case (boot k)
  note b = boot_fields [OF boot]
  show ?case by (auto simp: level_ok_def calm_def yields_ok_def in_down_def b)
next
  case (step k e k')
  then show ?case using kstep_level reachable_kinv by blast
qed

section \<open>When a step fails\<close>

lemma schedule_total: "to_schedule k \<Longrightarrow> \<exists>k'. schedule k = Some k'"
  using schedule_spec [of k] by metis

lemma thread_yield_total:
  assumes "queues_ok k" "running_ok k" "idle_av i k" "\<not> in_external_intr k" shows "\<exists>k'. thread_yield k = Some k'"
  unfolding thread_yield_eq [OF assms(2,4)] by (rule schedule_total [OF yield_to_schedule [OF assms(1-3)]])

text \<open>The thread that runs after the exit of the running one holds the lock of the page allocator, which it takes
  again to free the page.\<close>

definition exit_broken :: "kernel \<Rightarrow> bool" where
  "exit_broken k = (running k \<noteq> initial_thread k \<and>
     (case fst (next_thread_to_run k) of None \<Rightarrow> False | Some n \<Rightarrow> holder k palloc_lock = Some n))"

lemma thread_exit_total:
  assumes "kinv i k" "running k \<noteq> i" shows "thread_exit k = None \<longleftrightarrow> exit_broken k"
proof -
  note inv = kinvD [OF assms(1)]
  let ?K = "with_stat (running k) THREAD_DYING (k\<lparr>intr_on := False, all_list := remove1 (running k) (all_list k),
      stacks := (stacks k)(running k := [])\<rparr>)"
  have n: "fst (next_thread_to_run ?K) = fst (next_thread_to_run k)" by (simp add: next_thread_to_run_def split: list.split)
  have "fst (next_thread_to_run k) \<noteq> Some (running k)"
    using inv(4) assms(2) queues_okD(2) [OF inv(1), of "running k"] running_stat [OF inv(2)]
    by (auto simp: next_thread_to_run_def idle_av_def split: list.splits if_splits)
  then have p: "page_free_ok ?K \<longleftrightarrow> \<not> exit_broken k"
    using running_stat [OF inv(2)] n by (auto simp: page_free_ok_def exit_broken_def split: option.splits)
  show ?thesis
    unfolding thread_exit_eq [OF inv(2,5)]
    using p schedule_page_free [of ?K] schedule_total [OF exit_to_schedule [OF inv(1,2,4) assms(2), of "remove1 (running k) (all_list k)"]]
    by (cases "schedule ?K") auto
qed

lemma sema_down_loop_total:
  assumes "kinv i k" "running k \<noteq> i" "\<not> intr_on k" shows "\<exists>k'. sema_down_loop s b k = Some k'"
  using kinvD(2,5) [OF assms(1)] assms(3)
    schedule_total [OF block_to_schedule [OF kinvD(1,2) [OF assms(1)] assms(3) kinvD(4) [OF assms(1)] assms(2)], of s b]
  by (auto simp: sema_down_loop_def Let_def thread_current_eq thread_block_eq intr_set_level_eq)

text \<open>The assertions that are the caller's to meet.\<close>

definition call_broken :: "call \<Rightarrow> kernel \<Rightarrow> bool" where
  "call_broken c k = (case c of
     Lock_acquire l \<Rightarrow> holder k l = Some (running k)
   | Lock_try_acquire l \<Rightarrow> holder k l = Some (running k)
   | Lock_release l \<Rightarrow> holder k l \<noteq> Some (running k)
   | Cond_wait _ l \<Rightarrow> holder k l \<noteq> Some (running k)
   | Cond_signal _ l \<Rightarrow> holder k l \<noteq> Some (running k)
   | Thread_create (Some t) _ prio \<Rightarrow> t = 0 \<or> prio < PRI_MIN \<or> PRI_MAX < prio
   | _ \<Rightarrow> False)"

definition frame_broken :: "frame \<Rightarrow> kernel \<Rightarrow> bool" where
  "frame_broken f k = (case f of Call c \<Rightarrow> call_broken c k | Tid_write v _ \<Rightarrow> v \<ge> 2 ^ 31 - 1
   | Exit \<Rightarrow> exit_broken k | _ \<Rightarrow> False)"

lemma exec_call_total:
  assumes "kinv i k" "running k \<noteq> i"
  shows "exec_call c k = None \<longleftrightarrow> call_broken c k"
proof -
  note inv = kinvD [OF assms(1)]
  note cur = thread_current_eq [OF inv(2)]
  obtain th where th: "threads k (running k) = Some th" using running_stat [OF inv(2)] by (auto simp: stat_def)
  show ?thesis
  proof (cases c)
    case (Sema_down s)
    have "kinv i (k\<lparr>intr_on := False\<rparr>)" using assms(1) by simp
    then show ?thesis using sema_down_loop_total [of i "k\<lparr>intr_on := False\<rparr>" s "intr_on k"] assms(2) inv(5) Sema_down
      by (auto simp: exec_call_def call_broken_def sema_down_def intr_disable_def)
  next
    case (Cond_signal cv l)
    then show ?thesis using cur inv(5)
      by (cases "conds k cv") (auto simp: exec_call_def call_broken_def lock_call_defs ASSERT_bind)
  next
    case (Thread_create page n p)
    then show ?thesis by (cases page) (auto simp: exec_call_def call_broken_def thread_create_def init_thread_def ASSERT_bind)
  next
    case Thread_yield
    then show ?thesis using thread_yield_total [OF inv(1,2,4,5)] by (auto simp: exec_call_def call_broken_def)
  qed (use inv(1,5) cur th in \<open>auto simp: exec_call_def call_broken_def sema_up_eq sema_try_down_def intr_disable_def
      intr_set_level_eq lock_call_defs thread_set_priority_def Let_def ASSERT_bind\<close>)
qed

lemma exec_frame_total:
  assumes "kinv i k" "level_ok k" "saved_level k (running k) = None" "stacks k (running k) = f # fs"
  shows "exec_frame f (k\<lparr>stacks := (stacks k)(running k := fs)\<rparr>) = None \<longleftrightarrow> frame_broken f k"
proof (cases "running k = i")
  case False
  let ?k = "k\<lparr>stacks := (stacks k)(running k := fs)\<rparr>"
  have k0: "kinv i ?k" by (rule pop_kinv [OF assms(1) False assms(4)])
  have ni: "\<not> idle_frame f" using no_idle_frames [OF assms(1) False] assms(4) by auto
  note cur = thread_current_eq [OF kinvD(2) [OF k0]]
  show ?thesis
  proof (cases f)
    case (Call c)
    have "call_broken c ?k = call_broken c k" by (simp add: call_broken_def split: call.splits option.splits)
    then show ?thesis using exec_call_total [OF k0] False Call by (simp add: exec_frame_def frame_broken_def)
  next
    case (Down s b)
    then have "\<not> intr_on k" using assms(2,4) by (auto simp: level_ok_def calm_def in_down_def)
    then show ?thesis using sema_down_loop_total [OF k0] False Down by (simp add: exec_frame_def frame_broken_def)
  next
    case (Create_rest v u)
    then have u: "stat k u = Some THREAD_BLOCKED"
      using nascent_okD(1) [OF kinvD(9) [OF assms(1)], of u "running k"] assms(4) by simp
    then obtain th where th: "threads k u = Some th" by (auto simp: stat_def)
    let ?K = "created [Body, Exit] v u th ?k"
    have "stat ?K u = Some THREAD_BLOCKED" using stat_created [of ?k u th] u th by simp
    then show ?thesis using thread_unblock_eq [of ?K u] kinvD(5) [OF k0] th Create_rest create_rest_eq [OF kinvD(2) [OF k0], of u th]
      by (simp add: exec_frame_def frame_broken_def)
  next
    case Exit
    have "exit_broken ?k = exit_broken k" by (simp add: exit_broken_def next_thread_to_run_def split: list.split option.split)
    then show ?thesis using thread_exit_total [OF k0] False Exit by (simp add: exec_frame_def frame_broken_def)
  qed (use ni cur kinvD(5) [OF k0] in \<open>auto simp: exec_frame_def frame_broken_def lock_set_holder_def allocate_tid_write_def
      intr_enable_def ASSERT_bind\<close>)
next
  case True
  note inv = kinvD [OF assms(1)]
  have sh: "idle_stack k (f # fs)" using inv(3) assms(4) True by (simp add: idle_ok_def)
  have r: "stat k i = Some THREAD_RUNNING" using running_stat [OF inv(2)] True by simp
  let ?k = "k\<lparr>stacks := (stacks k)(i := fs)\<rparr>"
  have q: "queues_ok ?k"
    unfolding queues_ok_def
  proof (intro conjI allI)
    show "t \<in> set (waiters (semas ?k s)) \<longleftrightarrow> stat ?k t = Some THREAD_BLOCKED \<and> in_down ?k s t" for s t
      using queues_okD(4) [OF inv(1), of t s] r by (cases "t = i") (auto simp: in_down_def)
  qed (use queues_okD [OF inv(1)] in simp_all)
  have ro: "running_ok ?k" using inv(2) by simp
  show ?thesis
  proof (cases "f = Idle_loop")
    case l: True
    then have fs: "fs = [Exit]" "idle_thread k = Some i" using sh inv(3) by (auto simp: idle_stack_def idle_ok_def split: if_splits)
    show ?thesis
      using schedule_total [OF idle_to_schedule [OF q ro]] fs l True inv(2,5)
        thread_block_eq [of "push_frames [Idle_hlt] (?k\<lparr>intr_on := False\<rparr>)"]
      by (simp add: exec_frame_def frame_broken_def idle_block_def intr_disable_def)
  next
    case False
    have cur: "thread_current ?k = Some i" using thread_current_eq [OF ro] True by simp
    show ?thesis
      using False sh True inv(5) cur sema_up_eq [OF q, of idle_started]
      by (auto simp: idle_stack_def exec_frame_def frame_broken_def call_broken_def exec_call_def idle_init_def intr_enable_def
          split: if_splits)
  qed
qed

lemma external_interrupt_total: "kinv i k \<Longrightarrow> \<exists>k'. external_interrupt h k = Some k'"
proof (cases h)
  case Timer
  assume k: "kinv i k"
  obtain k1 where k1: "intr_handler Timer (k\<lparr>intr_on := False\<rparr>) = (if thread_ticks k + 1 \<ge> TIME_SLICE then thread_yield k1 else Some k1)"
      "same_core k k1" "\<not> intr_on k1" "\<not> in_external_intr k1"
    by (rule timer_handler_eq [OF k])
  have "kinv i (k1\<lparr>thread_ticks := 0\<rparr>)"
    by (rule same_core_kinv [OF k]) (use k1(2,4) in \<open>simp_all add: same_core_def TIME_SLICE_def\<close>)
  then obtain k2 where "thread_yield k1 = Some k2"
    using thread_yield_total [of k1 i] kinvD(1,2,4) [of i "k1\<lparr>thread_ticks := 0\<rparr>"] k1(4) by auto
  then show ?thesis using k1(1) Timer by (auto simp: external_interrupt_def Let_def)
next
  case (Device n)
  assume k: "kinv i k"
  show ?thesis
    by (rule device_handler_eq [OF k, of n]) (use Device in \<open>auto simp: external_interrupt_def Let_def\<close>)
next
  case (No_handler v)
  assume k: "kinv i k"
  show ?thesis
    by (rule no_handler_eq [OF k, of v]) (use No_handler in \<open>auto simp: external_interrupt_def Let_def\<close>)
qed

section \<open>A run\<close>

text \<open>Sequences of steps that can be computed: the running thread goes on, its body takes a lock or creates a
  thread, or the timer ticks.\<close>

datatype act = Go | Take nat | Create tptr | Tick

definition go :: "kernel \<Rightarrow> kernel option" where
  "go k = (case saved_level k (running k) of Some b \<Rightarrow> thread_yield_return b k
     | None \<Rightarrow> (case stacks k (running k) of [] \<Rightarrow> None
         | f # fs \<Rightarrow> exec_frame f (k\<lparr>stacks := (stacks k)(running k := fs)\<rparr>)))"

definition in_body :: "kernel \<Rightarrow> bool" where
  "in_body k = (saved_level k (running k) = None \<and> (case stacks k (running k) of Body # _ \<Rightarrow> True | _ \<Rightarrow> False))"

fun act_step :: "act \<Rightarrow> kernel \<Rightarrow> kernel option" where
  "act_step Go k = go k"
| "act_step (Take l) k = (if in_body k then exec_call (Lock_acquire l) k else None)"
| "act_step (Create t) k = (if in_body k \<and> threads k t = None then exec_call (Thread_create (Some t) [] PRI_DEFAULT) k else None)"
| "act_step Tick k = (if intr_on k then external_interrupt Timer k else None)"

fun act_steps :: "act list \<Rightarrow> kernel \<Rightarrow> kernel option" where
  "act_steps [] k = Some k"
| "act_steps (a # as) k = do { k \<leftarrow> act_step a k; act_steps as k }"

lemma in_body_step: "in_body k \<Longrightarrow> client_ok c k \<Longrightarrow> exec_call c k = Some k' \<Longrightarrow> kstep k Run k'"
  by (auto simp: in_body_def split: list.splits frame.splits intro: kstep.body)

lemma act_step_kstep:
  assumes "act_step a k = Some k'" shows "\<exists>e. kstep k e k'"
proof (cases a)
  case Go
  then show ?thesis using assms
    by (auto simp: go_def split: option.splits list.splits intro: kstep.resume kstep.frame)
next
  case (Take l)
  then show ?thesis using assms in_body_step [of k "Lock_acquire l" k'] by (auto simp: client_ok_def split: if_splits)
next
  case (Create t)
  then show ?thesis using assms in_body_step [of k "Thread_create (Some t) [] PRI_DEFAULT" k']
    by (auto simp: client_ok_def split: if_splits)
next
  case Tick
  then show ?thesis using assms by (auto split: if_splits intro: kstep.interrupt)
qed

lemma act_steps_reachable:
  "act_steps as k = Some k' \<Longrightarrow> reachable main idle k \<Longrightarrow> reachable main idle k'"
proof (induction as arbitrary: k)
  case (Cons a as)
  then obtain k1 where k1: "act_step a k = Some k1" "act_steps as k1 = Some k'" by (auto simp: bind_eq_Some_conv)
  then obtain e where "kstep k e k1" using act_step_kstep by blast
  then have "reachable main idle k1" using Cons.prems(2) by (auto simp: reachable_def intro: ksteps.ksteps_step)
  then show ?case using Cons.IH k1(2) by blast
qed simp

text \<open>The initial thread creates thread 3 and takes the lock of the page allocator; its time slice ends, and thread
  3 runs to its end. The initial thread is next, with the lock.\<close>

definition exit_run :: "act list" where
  "exit_run = replicate 6 Go @ [Create 3] @ replicate 8 Go @ [Take palloc_lock] @ replicate 2 Go @ replicate 4 Tick @ [Go, Go]"

definition exit_state :: "kernel option" where
  "exit_state = do { k \<leftarrow> boot 1 2; act_steps exit_run k }"

lemma exit_state_facts:
  "case exit_state of None \<Rightarrow> False | Some k \<Rightarrow> running k = 3 \<and> saved_level k 3 = None \<and> stacks k 3 = [Exit] \<and>
     holder k palloc_lock = Some 1 \<and> ready_list k = [1] \<and> initial_thread k = 1"
  by code_simp

section \<open>Properties\<close>

text \<open>C3: Which assertions of the scheduler, the semaphores and the locks can fail. In every reachable state an
  interrupt that the processor accepts is handled and a thread that returns from \<^verbatim>\<open>thread_yield\<close> goes on. The next
  step of the running thread fails exactly when it breaks the contract of a lock operation, when the thread
  identifiers are used up, or when the thread exits (and is not the initial thread) while the thread that the
  scheduler takes next holds \<^verbatim>\<open>palloc_lock\<close>: then \<^verbatim>\<open>thread_schedule_tail\<close>, which frees the page of the dead thread,
  acquires a lock that its own thread holds. A call that a thread's body makes fails exactly when the body breaks
  the call's contract. When \<^verbatim>\<open>palloc_lock\<close> is taken
  and the next thread is not its holder, the code makes that thread wait in the middle of the switch; this wait is not modelled.\<close>
theorem panics_are_broken_contracts:
  assumes "reachable main idle k"
  shows "(\<exists>k'. external_interrupt h k = Some k') \<and>
     (\<exists>k'. thread_yield_return b k = Some k') \<and>
     (saved_level k (running k) = None \<longrightarrow> stacks k (running k) = f # fs \<longrightarrow>
        (exec_frame f (k\<lparr>stacks := (stacks k)(running k := fs)\<rparr>) = None \<longleftrightarrow> frame_broken f k)) \<and>
     (stacks k (running k) = Body # fs \<longrightarrow> (exec_call c k = None \<longleftrightarrow> call_broken c k))"
proof -
  have i: "kinv idle k" using reachable_kinv [OF assms] .
  have "running k \<noteq> idle" if "stacks k (running k) = Body # fs"
    using kinvD(3) [OF i] that by (auto simp: idle_ok_def idle_stack_def split: if_splits)
  moreover have "\<exists>k'. thread_yield_return b k = Some k'"
    using kinvD(5) [OF i] by (simp add: thread_yield_return_def intr_set_level_eq)
  ultimately show ?thesis
    using external_interrupt_total [OF i] exec_frame_total [OF i reachable_level [OF assms]] exec_call_total [OF i] by blast
qed

text \<open>Just after the start the main thread's first step does not fail. At the end of \<open>exit_run\<close>, in which no thread has
  broken a contract, the exit of thread 3 fails.\<close>
theorem panics_are_broken_contracts_witness:
  "\<exists>k k1. reachable 1 2 k \<and> (\<exists>k'. external_interrupt Timer k = Some k') \<and>
     exec_frame (Call (Sema_down idle_started)) (k\<lparr>stacks := (stacks k)(running k := [Body, Exit])\<rparr>) \<noteq> None \<and>
     reachable 1 2 k1 \<and> stacks k1 (running k1) = [Exit] \<and> exec_frame Exit (k1\<lparr>stacks := (stacks k1)(running k1 := [])\<rparr>) = None"
proof -
  obtain k where k: "boot 1 2 = Some k" using boot_eq [of 1 2] by simp
  then have r: "reachable 1 2 k" by (auto simp: reachable_def intro: ksteps.ksteps_refl)
  obtain k1 where k1: "act_steps exit_run k = Some k1" "running k1 = 3" "saved_level k1 3 = None" "stacks k1 3 = [Exit]"
    "holder k1 palloc_lock = Some 1" "ready_list k1 = [1]" "initial_thread k1 = 1"
    using exit_state_facts k by (auto simp: exit_state_def split: option.splits)
  have r1: "reachable 1 2 k1" by (rule act_steps_reachable [OF k1(1) r])
  have "frame_broken Exit k1" using k1 by (simp add: frame_broken_def exit_broken_def next_thread_to_run_def)
  then have e: "exec_frame Exit (k1\<lparr>stacks := (stacks k1)(running k1 := [])\<rparr>) = None"
    using panics_are_broken_contracts [OF r1, of Timer True Exit "[]" Thread_yield] k1 by simp
  have "(\<exists>k'. external_interrupt Timer k = Some k') \<and>
      exec_frame (Call (Sema_down idle_started)) (k\<lparr>stacks := (stacks k)(running k := [Body, Exit])\<rparr>) \<noteq> None"
    using panics_are_broken_contracts [OF r, of Timer True "Call (Sema_down idle_started)" "[Body, Exit]" Thread_yield]
      boot_fields [OF k] by (simp add: frame_broken_def call_broken_def)
  then show ?thesis using r r1 e k1(2,4) by (intro exI [of _ k] exI [of _ k1]) simp
qed

end
