(* ===== verification/Round_Robin.thy ===== *)
theory Round_Robin
  imports Panic_Free
begin

text \<open>
  Progress of the scheduler: a ready thread runs after a bounded number of timer ticks.
\<close>

section \<open>The ready list is served in order\<close>

definition advances :: "kernel \<Rightarrow> kernel \<Rightarrow> bool" where
  "advances k k' \<longleftrightarrow> ready_list k = [] \<or>
     (\<exists>zs. ready_list k' = ready_list k @ zs \<and> running k' = running k \<and> thread_ticks k' = thread_ticks k) \<or>
     (\<exists>zs. ready_list k' = tl (ready_list k @ zs) \<and> running k' = hd (ready_list k @ zs) \<and> thread_ticks k' = 0)"

lemma advances_same:
  "ready_list k' = ready_list k @ zs \<Longrightarrow> running k' = running k \<Longrightarrow> thread_ticks k' = thread_ticks k \<Longrightarrow> advances k k'"
  by (auto simp: advances_def)

lemma schedule_tail_queue:
  "thread_schedule_tail p k = Some k' \<Longrightarrow> ready_list k' = ready_list k \<and> running k' = running k \<and> thread_ticks k' = 0"
  by (cases p) (auto simp: thread_schedule_tail_def set_status_def Let_def bind_eq_Some_conv split: if_splits)

lemma schedule_queue:
  "schedule k = Some k' \<Longrightarrow> ready_list k \<noteq> [] \<Longrightarrow>
     ready_list k' = tl (ready_list k) \<and> running k' = hd (ready_list k) \<and> thread_ticks k' = 0"
  by (cases "ready_list k")
    (auto simp: schedule_def next_thread_to_run_def Let_def bind_eq_Some_conv dest!: schedule_tail_queue split: if_splits)

lemma schedule_advances:
  assumes "schedule K = Some k'" "ready_list K = ready_list k @ zs" shows "advances k k'"
proof (cases "ready_list k = []")
  case True
  then show ?thesis by (simp add: advances_def)
next
  case False
  then show ?thesis using schedule_queue [OF assms(1)] assms(2) by (auto simp: advances_def)
qed

lemma block_advances: "thread_block k1 = Some k' \<Longrightarrow> ready_list k1 = ready_list k \<Longrightarrow> advances k k'"
  by (auto simp: thread_block_def set_status_def bind_eq_Some_conv intro: schedule_advances [where zs = "[]"])

lemma yield_advances:
  assumes "thread_yield k1 = Some k'" "ready_list k1 = ready_list k" shows "advances k k'"
  using assms
  by (auto simp: thread_yield_def set_status_def intr_disable_def Let_def bind_eq_Some_conv
      intro: schedule_advances [where zs = "[]"] schedule_advances split: if_splits)

lemma exit_advances: "thread_exit k1 = Some k' \<Longrightarrow> ready_list k1 = ready_list k \<Longrightarrow> advances k k'"
  by (auto simp: thread_exit_def set_status_def intr_disable_def Let_def bind_eq_Some_conv
      intro: schedule_advances [where zs = "[]"])

lemma unblock_queue:
  "thread_unblock t k = Some k' \<Longrightarrow> ready_list k' = ready_list k @ [t] \<and> running k' = running k \<and> thread_ticks k' = thread_ticks k"
  by (auto simp: thread_unblock_def set_status_def intr_disable_def Let_def bind_eq_Some_conv dest!: intr_set_level_frame)

lemma sema_up_queue:
  "sema_up s k = Some k' \<Longrightarrow> (\<exists>zs. ready_list k' = ready_list k @ zs) \<and> running k' = running k \<and> thread_ticks k' = thread_ticks k"
  by (cases "waiters (semas k s)")
    (auto simp: sema_up_def intr_disable_def Let_def bind_eq_Some_conv dest!: intr_set_level_frame unblock_queue)

lemma sema_down_loop_advances:
  "sema_down_loop s b k1 = Some k' \<Longrightarrow> ready_list k1 = ready_list k \<Longrightarrow> running k1 = running k \<Longrightarrow> thread_ticks k1 = thread_ticks k \<Longrightarrow> advances k k'"
  by (auto simp: sema_down_loop_def Let_def bind_eq_Some_conv dest!: intr_set_level_frame
      intro: block_advances advances_same [where zs = "[]"] split: if_splits)

lemma sema_try_down_queue:
  "sema_try_down s k = Some (ok, k') \<Longrightarrow> ready_list k' = ready_list k \<and> running k' = running k \<and> thread_ticks k' = thread_ticks k"
  by (auto simp: sema_try_down_def intr_disable_def Let_def bind_eq_Some_conv dest!: intr_set_level_frame split: if_splits)

lemma exec_call_advances:
  assumes "exec_call c k1 = Some k'" "ready_list k1 = ready_list k" "running k1 = running k" "thread_ticks k1 = thread_ticks k"
  shows "advances k k'"
proof (cases c)
  case (Sema_down s)
  then show ?thesis using assms
    by (auto simp: exec_call_def sema_down_def intr_disable_def bind_eq_Some_conv intro: sema_down_loop_advances)
next
  case (Sema_up s)
  then show ?thesis using assms by (auto simp: exec_call_def dest!: sema_up_queue intro: advances_same)
next
  case Thread_yield
  then show ?thesis using assms by (auto simp: exec_call_def intro: yield_advances)
next
  case (Sema_try_down s)
  then show ?thesis using assms by (auto simp: exec_call_def dest!: sema_try_down_queue intro: advances_same [where zs = "[]"])
next
  case (Lock_try_acquire l)
  then show ?thesis using assms
    by (auto simp: exec_call_def lock_call_defs bind_eq_Some_conv dest!: sema_try_down_queue intro: advances_same [where zs = "[]"])
next
  case (Thread_create page n p)
  then show ?thesis using assms
    by (cases page) (auto simp: exec_call_def thread_create_def init_thread_def bind_eq_Some_conv intro: advances_same [where zs = "[]"])
next
  case (Cond_signal cv l)
  then show ?thesis using assms
    by (cases "conds k1 cv") (auto simp: exec_call_def lock_call_defs bind_eq_Some_conv intro: advances_same [where zs = "[]"])
next
  case (Cond_broadcast cv l)
  then show ?thesis using assms
    by (cases "conds k1 cv") (auto simp: exec_call_def lock_call_defs bind_eq_Some_conv intro: advances_same [where zs = "[]"])
next
  case (Set_level b)
  then show ?thesis using assms by (auto simp: exec_call_def dest!: intr_set_level_frame intro: advances_same [where zs = "[]"])
qed (use assms in \<open>auto simp: exec_call_def sema_init_def set_sema_def lock_call_defs thread_set_priority_def Let_def bind_eq_Some_conv
      intro: advances_same [where zs = "[]"]\<close>)

lemma exec_frame_advances:
  assumes "exec_frame f (k\<lparr>stacks := S\<rparr>) = Some k'" shows "advances k k'"
proof (cases f)
  case (Call c)
  then show ?thesis using assms exec_call_advances [of c "k\<lparr>stacks := S\<rparr>"] by (simp add: exec_frame_def)
next
  case (Down s b)
  then show ?thesis using assms sema_down_loop_advances [of s b "k\<lparr>stacks := S\<rparr>"] by (simp add: exec_frame_def)
next
  case (Create_rest v t)
  then show ?thesis using assms
    by (auto simp: exec_frame_def dest!: create_restD unblock_queue intro: advances_same)
next
  case Exit
  then show ?thesis using assms exit_advances [of "k\<lparr>stacks := S\<rparr>"] by (simp add: exec_frame_def)
next
  case Idle_loop
  then show ?thesis using assms block_advances [of "push_frames [Idle_hlt] (k\<lparr>stacks := S, intr_on := False\<rparr>)"]
    by (simp add: exec_frame_def idle_block_def intr_disable_def)
qed (use assms in \<open>auto simp: exec_frame_def lock_set_holder_def allocate_tid_read_def allocate_tid_write_def intr_enable_def
      idle_init_def idle_halt_def bind_eq_Some_conv intro: advances_same [where zs = "[]"]\<close>)

text \<open>The number of timer ticks thread \<open>t\<close> at position \<open>n\<close> of the ready list may still have to wait.\<close>

definition patience :: "kernel \<Rightarrow> nat \<Rightarrow> nat" where
  "patience k n = TIME_SLICE * n + (TIME_SLICE - thread_ticks k)"

definition at_pos :: "kernel \<Rightarrow> tptr \<Rightarrow> nat \<Rightarrow> bool" where
  "at_pos k t n \<longleftrightarrow> (\<exists>xs ys. ready_list k = xs @ t # ys \<and> length xs = n)"

lemma switch_pos:
  assumes "ready_list k' = tl (ready_list k @ zs)" "running k' = hd (ready_list k @ zs)" "at_pos k t n" "running k' \<noteq> t"
  shows "\<exists>n'. n = Suc n' \<and> at_pos k' t n'"
proof -
  obtain xs ys where xs: "ready_list k = xs @ t # ys" "length xs = n" using assms(3) by (auto simp: at_pos_def)
  then obtain x xs' where x: "xs = x # xs'" using assms(2,4) by (cases xs) auto
  then have "at_pos k' t (length xs')" using assms(1) xs(1) by (auto simp: at_pos_def)
  then show ?thesis using xs(2) x by auto
qed

lemma advances_pos:
  assumes "advances k k'" "at_pos k t n" "running k' \<noteq> t" "thread_ticks k < TIME_SLICE"
  shows "\<exists>n'. at_pos k' t n' \<and> patience k' n' \<le> patience k n"
proof -
  have "ready_list k \<noteq> []" using assms(2) by (auto simp: at_pos_def)
  with assms(1) consider zs where "ready_list k' = ready_list k @ zs" "thread_ticks k' = thread_ticks k"
    | zs where "ready_list k' = tl (ready_list k @ zs)" "running k' = hd (ready_list k @ zs)" "thread_ticks k' = 0"
    by (auto simp: advances_def)
  then show ?thesis
  proof cases
    case (1 zs)
    obtain xs ys where "ready_list k = xs @ t # ys" "length xs = n" using assms(2) by (auto simp: at_pos_def)
    then have "ready_list k' = xs @ t # (ys @ zs)" "length xs = n" using 1(1) by simp_all
    then have "at_pos k' t n" unfolding at_pos_def by blast
    then show ?thesis using 1(2) by (auto simp: patience_def)
  next
    case (2 zs)
    then obtain n' where "n = Suc n'" "at_pos k' t n'" using switch_pos [OF 2(1,2) assms(2,3)] by blast
    then show ?thesis using 2(3) by (auto simp: patience_def)
  qed
qed

lemma kstep_pos:
  assumes "kstep k e k'" "kinv i k" "at_pos k t n" "running k' \<noteq> t"
  shows "\<exists>n'. at_pos k' t n' \<and> patience k' n' + (if e = Interrupt Timer then 1 else 0) \<le> patience k n"
  using assms(1)
proof cases
  case (resume b)
  then have "advances k k'"
    by (auto simp: thread_yield_return_def bind_eq_Some_conv dest!: intr_set_level_frame intro: advances_same [where zs = "[]"])
  then show ?thesis using advances_pos [OF _ assms(3,4) kinvD(6) [OF assms(2)]] resume(1) by fastforce
next
  case (frame f fs)
  then have "advances k k'" using exec_frame_advances by blast
  then show ?thesis using advances_pos [OF _ assms(3,4) kinvD(6) [OF assms(2)]] frame(1) by fastforce
next
  case (body fs c)
  then have "advances k k'" using exec_call_advances by blast
  then show ?thesis using advances_pos [OF _ assms(3,4) kinvD(6) [OF assms(2)]] body(1) by fastforce
next
  case (interrupt h)
  obtain k2 where k2: "intr_handler h (k\<lparr>intr_on := False\<rparr>) = Some k2" "ready_list k' = ready_list k2" "running k' = running k2"
      "thread_ticks k' = thread_ticks k2"
    using interrupt(3) by (auto simp: external_interrupt_def Let_def bind_eq_Some_conv)
  show ?thesis
  proof (cases h)
    case Timer
    obtain k1 where k1: "intr_handler Timer (k\<lparr>intr_on := False\<rparr>) = (if thread_ticks k + 1 \<ge> TIME_SLICE then thread_yield k1 else Some k1)"
      "same_core k k1" "\<not> intr_on k1" "\<not> in_external_intr k1" "thread_ticks k1 = thread_ticks k + 1"
      by (rule timer_handler_eq [OF assms(2)])
    show ?thesis
    proof (cases "thread_ticks k + 1 \<ge> TIME_SLICE")
      case True
      have rl: "ready_list k \<noteq> []" using assms(3) by (auto simp: at_pos_def)
      have "thread_yield k1 = Some k2" using k2(1) k1(1) True Timer by simp
      then obtain zs where "ready_list k2 = tl (ready_list k @ zs)" "running k2 = hd (ready_list k @ zs)" "thread_ticks k2 = 0"
        using k1(2) rl
        by (auto simp: thread_yield_def set_status_def intr_disable_def Let_def bind_eq_Some_conv same_core_def
            dest!: schedule_queue split: if_splits)
      then obtain n' where "n = Suc n'" "at_pos k' t n'" "thread_ticks k' = 0"
        using switch_pos [of k' k zs t n] k2 assms(3,4) by auto
      then show ?thesis using kinvD(6) [OF assms(2)] by (intro exI [of _ n']) (auto simp: patience_def)
    next
      case False
      then have "k2 = k1" using k2(1) k1(1) Timer by simp
      then have "at_pos k' t n" "thread_ticks k' = thread_ticks k + 1" using assms(3) k2 k1(2,5) by (simp_all add: at_pos_def same_core_def)
      then show ?thesis using False interrupt(1) Timer by (intro exI [of _ n]) (simp add: patience_def)
    qed
  next
    case (Device m)
    obtain k1 where k1: "intr_handler (Device m) (k\<lparr>intr_on := False\<rparr>) = Some (upped (Sema m) k1)"
      "same_core k k1" "\<not> intr_on k1" "\<not> in_external_intr k1" "thread_ticks k1 = thread_ticks k"
      by (rule device_handler_eq [OF assms(2)])
    have "\<exists>zs. ready_list (upped (Sema m) k1) = ready_list k1 @ zs" by (cases "waiters (semas k1 (Sema m))") (auto simp: upped_def)
    then have "advances k k'" using k2 k1 Device by (auto simp: advances_def same_core_def)
    then show ?thesis using advances_pos [OF _ assms(3,4) kinvD(6) [OF assms(2)]] interrupt(1) Device by fastforce
  next
    case (No_handler v)
    obtain k1 where k1: "intr_handler (No_handler v) (k\<lparr>intr_on := False\<rparr>) = Some k1" "same_core k k1"
      "\<not> intr_on k1" "\<not> in_external_intr k1" "thread_ticks k1 = thread_ticks k"
      by (rule no_handler_eq [OF assms(2)])
    then have "advances k k'" using k2 k1 No_handler by (auto simp: advances_def same_core_def)
    then show ?thesis using advances_pos [OF _ assms(3,4) kinvD(6) [OF assms(2)]] interrupt(1) No_handler by fastforce
  qed
qed

lemma ksteps_trans:
  assumes "ksteps k es k'" "ksteps k' es' k''" shows "ksteps k (es @ es') k''"
  using assms(2,1)
proof (induction rule: ksteps.induct)
  case (ksteps_step k es k' e k'')
  then show ?case using ksteps.ksteps_step by (metis append_assoc)
qed simp

lemma ksteps_pos:
  assumes "ksteps k es k'" "kinv i k" "at_pos k t n"
  shows "(\<exists>es1 es2 km. es = es1 @ es2 \<and> ksteps k es1 km \<and> ksteps km es2 k' \<and> running km = t) \<or>
         (\<exists>n'. at_pos k' t n' \<and> patience k' n' + count_list es (Interrupt Timer) \<le> patience k n)"
  using assms
proof (induction rule: ksteps.induct)
  case (ksteps_refl k)
  then show ?case by auto
next
  case (ksteps_step k es k' e k'')
  from ksteps_step.IH [OF ksteps_step.prems] show ?case
  proof
    assume "\<exists>es1 es2 km. es = es1 @ es2 \<and> ksteps k es1 km \<and> ksteps km es2 k' \<and> running km = t"
    then obtain es1 es2 km where m: "es = es1 @ es2" "ksteps k es1 km" "ksteps km es2 k'" "running km = t" by blast
    then have "ksteps km (es2 @ [e]) k''" using ksteps_step.hyps(2) ksteps.ksteps_step by blast
    then show ?thesis using m by (metis append_assoc)
  next
    assume "\<exists>n'. at_pos k' t n' \<and> patience k' n' + count_list es (Interrupt Timer) \<le> patience k n"
    then obtain n' where n': "at_pos k' t n'" "patience k' n' + count_list es (Interrupt Timer) \<le> patience k n" by blast
    have i': "kinv i k'" using ksteps_kinv [OF ksteps_step.hyps(1) ksteps_step.prems(1)] .
    show ?thesis
    proof (cases "running k'' = t")
      case True
      have "ksteps k (es @ [e]) k''" using ksteps_step.hyps ksteps.ksteps_step by blast
      then show ?thesis using True ksteps.ksteps_refl [of k''] by (metis append_Nil2)
    next
      case False
      then obtain n'' where "at_pos k'' t n''" "patience k'' n'' + (if e = Interrupt Timer then 1 else 0) \<le> patience k' n'"
        using kstep_pos [OF ksteps_step.hyps(2) i' n'(1)] by blast
      then show ?thesis using n'(2) by (intro disjI2 exI [of _ n'']) (auto simp: split: if_splits)
    qed
  qed
qed

section \<open>Properties\<close>

text \<open>C2: Round-robin scheduling has bounded waiting: from any reachable state, in any execution with at least
  \<open>4 \<cdot> (n + 1)\<close> timer ticks, a thread that has \<open>n\<close> threads ahead of it on the ready list gets to run,
  whatever the other threads and the devices do in between.\<close>
theorem round_robin_bounded_wait:
  assumes "reachable main idle k" "ready_list k = xs @ t # ys" "ksteps k es k'"
    and "TIME_SLICE * (length xs + 1) \<le> count_list es (Interrupt Timer)"
  shows "\<exists>es1 es2 km. es = es1 @ es2 \<and> ksteps k es1 km \<and> ksteps km es2 k' \<and> running km = t"
proof -
  have i: "kinv idle k" using reachable_kinv [OF assms(1)] .
  have "at_pos k t (length xs)" using assms(2) by (auto simp: at_pos_def)
  then have "(\<exists>es1 es2 km. es = es1 @ es2 \<and> ksteps k es1 km \<and> ksteps km es2 k' \<and> running km = t) \<or>
       (\<exists>n'. at_pos k' t n' \<and> patience k' n' + count_list es (Interrupt Timer) \<le> patience k (length xs))"
    by (rule ksteps_pos [OF assms(3) i])
  moreover have "patience k (length xs) \<le> TIME_SLICE * (length xs + 1)" by (simp add: patience_def)
  moreover have "0 < patience k' n'" for n'
    using kinvD(6) [OF ksteps_kinv [OF assms(3) i]] by (simp add: patience_def)
  ultimately show ?thesis using assms(4) by (metis add_leE add_le_same_cancel2 dual_order.trans not_le)
qed

text \<open>Four ticks after the start, the idle thread runs.\<close>

lemma tick_step:
  assumes "kinv i k" "intr_on k" "saved_level k (running k) = None" "thread_ticks k + 1 < TIME_SLICE"
  shows "\<exists>k'. kstep k (Interrupt Timer) k' \<and> kinv i k' \<and> intr_on k' \<and> saved_level k' (running k') = None \<and>
     thread_ticks k' = thread_ticks k + 1"
proof -
  obtain k1 where k1: "intr_handler Timer (k\<lparr>intr_on := False\<rparr>) = (if thread_ticks k + 1 \<ge> TIME_SLICE then thread_yield k1 else Some k1)"
      "same_core k k1" "\<not> intr_on k1" "\<not> in_external_intr k1" "thread_ticks k1 = thread_ticks k + 1"
    by (rule timer_handler_eq [OF assms(1)])
  then have "external_interrupt Timer k = Some (k1\<lparr>intr_on := True\<rparr>)"
    using assms(3,4) by (simp add: external_interrupt_def same_core_def)
  then have s: "kstep k (Interrupt Timer) (k1\<lparr>intr_on := True\<rparr>)" using assms(2) by (rule kstep.interrupt [rotated])
  show ?thesis
    by (rule exI [of _ "k1\<lparr>intr_on := True\<rparr>"])
      (use s kstep_kinv [OF s assms(1)] k1(2,5) assms(3) in \<open>simp add: same_core_def\<close>)
qed

theorem round_robin_bounded_wait_witness:
  "\<exists>k k' es1 es2 km. boot 4096 8192 = Some k \<and> ksteps k (replicate 4 (Interrupt Timer)) k' \<and>
     replicate 4 (Interrupt Timer) = es1 @ es2 \<and> ksteps k es1 km \<and> ksteps km es2 k' \<and> running km = 8192"
proof -
  obtain k where k: "boot 4096 8192 = Some k" using boot_eq [of 4096 8192] by simp
  then have r: "reachable 4096 8192 k" by (auto simp: reachable_def intro: ksteps.ksteps_refl)
  note b = boot_fields [OF k, simplified]
  have i: "kinv 8192 k" using reachable_kinv [OF r] .
  obtain k1 where k1: "kstep k (Interrupt Timer) k1" "kinv 8192 k1" "intr_on k1" "saved_level k1 (running k1) = None"
      "thread_ticks k1 = 1"
    using tick_step [OF i] b by (auto simp: TIME_SLICE_def)
  obtain k2 where k2: "kstep k1 (Interrupt Timer) k2" "kinv 8192 k2" "intr_on k2" "saved_level k2 (running k2) = None"
      "thread_ticks k2 = 2"
    using tick_step [OF k1(2-4)] k1(5) by (auto simp: TIME_SLICE_def)
  obtain k3 where k3: "kstep k2 (Interrupt Timer) k3" "kinv 8192 k3" "intr_on k3"
    using tick_step [OF k2(2-4)] k2(5) by (auto simp: TIME_SLICE_def)
  obtain k4 where k4: "kstep k3 (Interrupt Timer) k4"
    using external_interrupt_total [OF k3(2)] k3(3) by (blast intro: kstep.interrupt)
  have es: "replicate 4 (Interrupt Timer) = ((([] @ [Interrupt Timer]) @ [Interrupt Timer]) @ [Interrupt Timer]) @ [Interrupt Timer]"
    by (simp add: numeral_eq_Suc)
  have s: "ksteps k (replicate 4 (Interrupt Timer)) k4"
    unfolding es by (rule ksteps_step [OF ksteps_step [OF ksteps_step [OF ksteps_step [OF ksteps_refl k1(1)] k2(1)] k3(1)] k4])
  have rl: "ready_list k = [] @ 8192 # []" using b by simp
  have c: "TIME_SLICE * (length ([] :: tptr list) + 1) \<le> count_list (replicate 4 (Interrupt Timer)) (Interrupt Timer)"
    by (simp add: TIME_SLICE_def numeral_eq_Suc)
  show ?thesis
    using round_robin_bounded_wait [OF r rl s c] s k by blast
qed

end
