(* ===== verification/Arithmetic64.thy ===== *)
theory Arithmetic64
  imports Prelude "HOL-Library.Signed_Division"
begin

text \<open>
  64-bit division on the 32-bit processor: \<^verbatim>\<open>lib/arithmetic.c\<close>. The instruction \<^verbatim>\<open>divl\<close> traps (\<open>None\<close>) when
  the divisor is 0 or the quotient does not fit in 32 bits; signed integers are words read with
  \<open>sint\<close>, and the negation of the smallest one wraps around.
\<close>

section \<open>Definitions\<close>

definition divl :: "u64 \<Rightarrow> u32 \<Rightarrow> u32 option" where
  "divl n d = do {
     ASSERT (d \<noteq> 0);
     let q = unat n div unat d;
     ASSERT (q < 2 ^ 32);
     Some (of_nat q)
   }"

definition nlz :: "u32 \<Rightarrow> nat" where
  "nlz x =
    (let (n, x) = (if x \<le> 0x0000FFFF then (16, push_bit 16 x) else (0, x));
         (n, x) = (if x \<le> 0x00FFFFFF then (n + 8, push_bit 8 x) else (n, x));
         (n, x) = (if x \<le> 0x0FFFFFFF then (n + 4, push_bit 4 x) else (n, x));
         (n, x) = (if x \<le> 0x3FFFFFFF then (n + 2, push_bit 2 x) else (n, x))
     in if x \<le> 0x7FFFFFFF then n + 1 else n)"

definition udiv64 :: "u64 \<Rightarrow> u64 \<Rightarrow> u64 option" where
  "udiv64 n d =
    (if drop_bit 32 d = 0 then do {
       let b = push_bit 32 (1 :: u64);
       let n1 = (ucast (drop_bit 32 n) :: u32);
       let n0 = (ucast n :: u32);
       let d0 = (ucast d :: u32);
       ASSERT (d0 \<noteq> 0);
       q \<leftarrow> divl (b * ucast (n1 mod d0) + ucast n0) d0;
       Some (ucast q + b * ucast (n1 div d0))
     } else if n < d then Some 0
     else do {
       let d1 = (ucast (drop_bit 32 d) :: u32);
       let s = nlz d1;
       q \<leftarrow> divl (drop_bit 1 n) (ucast (drop_bit 32 (push_bit s d)));
       let q = (ucast (drop_bit (31 - s) q) :: u64);
       Some (if n - (q - 1) * d < d then q - 1 else q)
     })"

definition umod64 :: "u64 \<Rightarrow> u64 \<Rightarrow> u32 option" where
  "umod64 n d = do { q \<leftarrow> udiv64 n d; Some (ucast (n - d * q)) }"

definition abs64 :: "u64 \<Rightarrow> u64" where
  "abs64 n = (if 0 \<le>s n then n else - n)"

definition sdiv64 :: "u64 \<Rightarrow> u64 \<Rightarrow> u64 option" where
  "sdiv64 n d = do {
     q_abs \<leftarrow> udiv64 (abs64 n) (abs64 d);
     Some (if (n <s 0) = (d <s 0) then q_abs else - q_abs)
   }"

definition smod64 :: "u64 \<Rightarrow> u64 \<Rightarrow> u32 option" where
  "smod64 n d = do { q \<leftarrow> sdiv64 n d; Some (ucast (n - d * q)) }"

definition divdi3 :: "u64 \<Rightarrow> u64 \<Rightarrow> u64 option" where
  "divdi3 n d = sdiv64 n d"

definition moddi3 :: "u64 \<Rightarrow> u64 \<Rightarrow> u64 option" where
  "moddi3 n d = do { r \<leftarrow> smod64 n d; Some (scast r) }"

definition udivdi3 :: "u64 \<Rightarrow> u64 \<Rightarrow> u64 option" where
  "udivdi3 n d = udiv64 n d"

definition umoddi3 :: "u64 \<Rightarrow> u64 \<Rightarrow> u64 option" where
  "umoddi3 n d = do { r \<leftarrow> umod64 n d; Some (ucast r) }"

section \<open>Leading zeros\<close>

lemma push_small:
  fixes x :: u32
  assumes "unat x * 2 ^ k < 2 ^ 32"
  shows "unat (push_bit k x) = unat x * 2 ^ k"
  using assms by (simp only: unsigned_push_bit_eq) (simp add: take_bit_eq_mod push_bit_eq_mult)

lemma nlz_step:
  fixes x z b :: u32
  assumes "unat z = unat x * 2 ^ n" "2 ^ (32 - 2 * m) \<le> unat z" "unat b + 1 = 2 ^ (32 - m)" "2 * m \<le> 32"
    and "(if z \<le> b then (n + m, push_bit m z) else (n, z)) = (n', y)"
  shows "unat y = unat x * 2 ^ n'" "2 ^ (32 - m) \<le> unat y"
proof -
  have e: "(2 :: nat) ^ 32 = 2 ^ (32 - m) * 2 ^ m" "(2 :: nat) ^ (32 - m) = 2 ^ (32 - 2 * m) * 2 ^ m"
    using assms(4) by (simp_all flip: power_add)
  show "unat y = unat x * 2 ^ n'" "2 ^ (32 - m) \<le> unat y"
  proof (atomize (full), cases "z \<le> b")
    case True
    then have "unat z < 2 ^ (32 - m)" using assms(3) by (simp add: word_le_nat_alt)
    then have "unat z * 2 ^ m < 2 ^ 32" unfolding e(1) by simp
    from push_small [OF this] show "unat y = unat x * 2 ^ n' \<and> 2 ^ (32 - m) \<le> unat y"
      using True assms(1,2,5) e(2) by (auto simp: power_add)
  next
    case False
    then show "unat y = unat x * 2 ^ n' \<and> 2 ^ (32 - m) \<le> unat y"
      using assms(1,3,5) by (auto simp: word_le_nat_alt)
  qed
qed

lemma nlz_bounds:
  assumes "x \<noteq> 0"
  shows "nlz x \<le> 31" "2 ^ 31 \<le> unat x * 2 ^ nlz x" "unat x * 2 ^ nlz x < 2 ^ 32"
proof -
  obtain n1 :: nat and x1 where s1: "(if x \<le> 0x0000FFFF then (0 + 16, push_bit 16 x) else (0, x)) = (n1, x1)" by fastforce
  obtain n2 x2 where s2: "(if x1 \<le> 0x00FFFFFF then (n1 + 8, push_bit 8 x1) else (n1, x1)) = (n2, x2)" by fastforce
  obtain n3 x3 where s3: "(if x2 \<le> 0x0FFFFFFF then (n2 + 4, push_bit 4 x2) else (n2, x2)) = (n3, x3)" by fastforce
  obtain n4 x4 where s4: "(if x3 \<le> 0x3FFFFFFF then (n3 + 2, push_bit 2 x3) else (n3, x3)) = (n4, x4)" by fastforce
  obtain n5 x5 where s5: "(if x4 \<le> 0x7FFFFFFF then (n4 + 1, push_bit 1 x4) else (n4, x4)) = (n5, x5)" by fastforce
  have n5: "n5 = (if x4 \<le> 0x7FFFFFFF then n4 + 1 else n4)" using s5 by (simp split: if_splits)
  have n: "nlz x = n5"
    unfolding nlz_def s1 [simplified add_0] s2 [symmetric, THEN sym] Let_def by (simp only: s1 [simplified add_0] s2 s3 s4 n5 prod.case)
  have "1 \<le> unat x" using assms by (simp add: Suc_le_eq unat_gt_0)
  then have b1: "unat x1 = unat x * 2 ^ n1" "2 ^ (32 - 16) \<le> unat x1"
    by (rule_tac nlz_step [OF _ _ _ _ s1]; simp)+
  have b2: "unat x2 = unat x * 2 ^ n2" "2 ^ (32 - 8) \<le> unat x2"
    by (rule nlz_step [OF b1(1) _ _ _ s2]; use b1(2) in simp)+
  have b3: "unat x3 = unat x * 2 ^ n3" "2 ^ (32 - 4) \<le> unat x3"
    by (rule nlz_step [OF b2(1) _ _ _ s3]; use b2(2) in simp)+
  have b4: "unat x4 = unat x * 2 ^ n4" "2 ^ (32 - 2) \<le> unat x4"
    by (rule nlz_step [OF b3(1) _ _ _ s4]; use b3(2) in simp)+
  have b5: "unat x5 = unat x * 2 ^ n5" "2 ^ (32 - 1) \<le> unat x5"
    by (rule nlz_step [OF b4(1) _ _ _ s5]; use b4(2) in simp)+
  show "2 ^ 31 \<le> unat x * 2 ^ nlz x" "unat x * 2 ^ nlz x < 2 ^ 32"
    using b5 unsigned_less [of x5] by (simp_all add: n flip: b5(1))
  show "nlz x \<le> 31" unfolding n using s1 s2 s3 s4 s5 by (auto split: if_splits)
qed

section \<open>Unsigned division\<close>

lemma divl_eq: "d \<noteq> 0 \<Longrightarrow> unat n div unat d < 2 ^ 32 \<Longrightarrow> divl n d = Some (of_nat (unat n div unat d))"
  by (simp add: divl_def Let_def)

text \<open>The estimate of the quotient from the leading 32 bits of the divisor is exact or one too large.\<close>

lemma quotient_estimate:
  fixes n d k :: nat
  assumes "n < 2 ^ 64" "2 ^ (31 + k) \<le> d" "1 \<le> k"
  defines "q \<equiv> n div (d div 2 ^ k * 2 ^ k)"
  shows "n div d \<le> q" "q = 0 \<or> (q - 1) * d \<le> n" "q < 2 ^ 32"
proof -
  let ?D = "d div 2 ^ k * 2 ^ k"
  have D: "2 ^ (31 + k) \<le> ?D"
  proof -
    have "2 ^ 31 \<le> d div 2 ^ k"
      using assms(2) by (simp add: power_add less_eq_div_iff_mult_less_eq)
    then show ?thesis by (simp add: power_add)
  qed
  have "d - ?D = d mod 2 ^ k" "d mod 2 ^ k < 2 ^ k" by (simp_all add: minus_div_mult_eq_mod)
  then have Dd: "?D \<le> d" "d - ?D \<le> 2 ^ k - 1" by (simp, linarith)
  have D0: "0 < ?D" using D by (rule less_le_trans [rotated]) simp
  show "n div d \<le> q" unfolding q_def by (rule div_le_mono2 [OF D0 Dd(1)])
  have q: "q * 2 ^ (31 + k) < 2 ^ 64"
  proof -
    have "q * 2 ^ (31 + k) \<le> q * ?D" using D by simp
    also have "\<dots> \<le> n" by (simp add: q_def)
    finally show ?thesis using assms(1) by simp
  qed
  show "q < 2 ^ 32"
  proof -
    have "q * 2 ^ 32 \<le> q * 2 ^ (31 + k)" using assms(3) by (intro mult_le_mono2 power_increasing) auto
    then have "q * 2 ^ 32 < 2 ^ 64" using q by (rule le_less_trans)
    then show ?thesis by simp
  qed
  have "q * (d - ?D) \<le> d"
  proof (cases "k = 1")
    case True
    have "q * (d - ?D) \<le> q * 1" using Dd(2) True by (intro mult_le_mono2) simp
    then have "q * (d - ?D) \<le> q" by simp
    moreover have "q < 2 ^ 32" "2 ^ 32 \<le> d" using q assms(2) True by simp_all
    ultimately show ?thesis by linarith
  next
    case False
    have "q * (d - ?D) \<le> q * 2 ^ k" using Dd(2) by (intro mult_le_mono2) simp
    moreover have "q * 2 ^ k < 2 ^ 33" using q by (simp add: power_add)
    moreover have "(2 :: nat) ^ 33 \<le> 2 ^ (31 + k)" using False assms(3) by (intro power_increasing) auto
    ultimately show ?thesis using assms(2) by linarith
  qed
  moreover have "q * d = q * ?D + q * (d - ?D)" using Dd(1) by (simp flip: distrib_left)
  moreover have "q * ?D \<le> n" by (simp add: q_def)
  ultimately have "q * d - d \<le> n" by linarith
  then show "q = 0 \<or> (q - 1) * d \<le> n" by (simp add: diff_mult_distrib)
qed

lemma unat_hi: "unat (drop_bit k w) = unat (w :: 'a::len word) div 2 ^ k"
  by (subst unat_drop_bit_eq) (rule drop_bit_eq_div)

lemma unat_lo: "unat (ucast (w :: u64) :: u32) = unat w mod 2 ^ 32"
  by (simp only: unsigned_ucast_eq take_bit_eq_mod) simp

lemma unat_up: "unat (ucast (w :: u32) :: u64) = unat w"
  by (simp only: unsigned_ucast_eq) (use unsigned_less [where ?'a = nat, of w] in \<open>simp add: take_bit_eq_mod\<close>)

lemma unat_b: "unat (push_bit 32 (1 :: u64)) = 2 ^ 32"
  by simp

lemma word_eqI_nat: "unat a = unat b \<Longrightarrow> a = (b :: 'a::len word)"
  by (rule unsigned_word_eqI)

lemma mul_add_small: "a * b + c < 2 ^ 64 \<Longrightarrow> unat x = a \<Longrightarrow> unat y = b \<Longrightarrow> unat z = c \<Longrightarrow> unat (x * y + z :: u64) = a * b + c"
  by (auto simp: unat_word_ariths mod_add_left_eq)

lemma udiv64_small:
  assumes "d \<noteq> 0" "drop_bit 32 d = 0"
  shows "udiv64 n d = Some (n div d)"
proof -
  define N D N1 N0 where nd: "N = unat n" "D = unat d" "N1 = N div 2 ^ 32" "N0 = N mod 2 ^ 32"
  have D: "0 < D" "D < 2 ^ 32"
  proof -
    show "0 < D" using assms(1) by (simp add: nd unat_gt_0)
    have "D div 2 ^ 32 = 0" using unat_hi [of 32 d] assms(2) nd by simp
    then show "D < 2 ^ 32" by (simp add: div_eq_0_iff)
  qed
  have b: "N < 2 ^ 64" "N1 < 2 ^ 32" "N0 < 2 ^ 32"
    using unsigned_less [where ?'a = nat, of n] by (auto simp: nd less_mult_imp_div_less)
  have N: "N = 2 ^ 32 * N1 + N0" by (simp add: nd)
  let ?n1 = "ucast (drop_bit 32 n) :: u32" and ?n0 = "ucast n :: u32" and ?d0 = "ucast d :: u32" and ?b = "push_bit 32 (1 :: u64)"
  have u: "unat ?n1 = N1" "unat ?n0 = N0" "unat ?d0 = D"
    using b D by (simp_all only: unat_lo unat_hi nd) simp_all
  have d0: "?d0 \<noteq> 0" using u(3) D by auto
  have m: "N1 mod D < D" using D by simp
  let ?A = "2 ^ 32 * (N1 mod D) + N0"
  have lt: "?A < 2 ^ 32 * D"
  proof -
    have "?A < 2 ^ 32 * (N1 mod D) + 2 ^ 32" using b by simp
    also have "\<dots> = 2 ^ 32 * (N1 mod D + 1)" by simp
    also have "\<dots> \<le> 2 ^ 32 * D" using m by (intro mult_le_mono2) simp
    finally show ?thesis .
  qed
  have A: "unat (?b * ucast (?n1 mod ?d0) + ucast ?n0) = ?A"
    by (rule mul_add_small [OF _ unat_b]) (use lt D u in \<open>simp_all add: unat_up unat_mod del: unsigned_ucast_eq\<close>)
  have q: "?A div D < 2 ^ 32" using lt by (simp add: less_mult_imp_div_less)
  have "N = (a * 2 ^ 32) * D + (2 ^ 32 * r + N0)" if "N1 = a * D + r" for a r
    using that by (simp add: N algebra_simps)
  from this [OF div_mult_mod_eq [symmetric]]
  have e: "N div D = ?A div D + 2 ^ 32 * (N1 div D)"
    using D(1) by (metis add.commute div_mult_self3 less_numeral_extra(3) mult.commute)
  have "unat (n div d) = ?A div D + 2 ^ 32 * (N1 div D)" using e by (simp add: unat_div nd)
  moreover have "N div D < 2 ^ 64" using b(1) by (meson div_le_dividend le_less_trans)
  then have "unat (?b * ucast (?n1 div ?d0) + ucast (of_nat (?A div D) :: u32)) = 2 ^ 32 * (N1 div D) + ?A div D"
    by (intro mul_add_small [OF _ unat_b]) (use q u e in \<open>simp_all add: unat_up unat_div unat_of_nat del: unsigned_ucast_eq\<close>)
  ultimately have r: "ucast (of_nat (?A div D) :: u32) + ?b * ucast (?n1 div ?d0) = n div d"
    by (intro word_eqI_nat) (simp add: add.commute)
  show ?thesis
    unfolding udiv64_def Let_def using assms(2) d0 divl_eq [OF d0] A u(3) q r by simp
qed

text \<open>The normalized divisor of the second case.\<close>

lemma normalize_divisor:
  fixes D :: nat
  assumes "2 ^ 32 \<le> D" "D < 2 ^ 64"
  defines "s \<equiv> nlz (of_nat (D div 2 ^ 32))"
  shows "s \<le> 31" "D * 2 ^ s < 2 ^ 64" "2 ^ (31 + (32 - s)) \<le> D"
    "D * 2 ^ s div 2 ^ 32 = D div 2 ^ (32 - s)" "2 ^ 31 \<le> D div 2 ^ (32 - s)" "D div 2 ^ (32 - s) < 2 ^ 32"
proof -
  define d1 where "d1 = D div 2 ^ 32"
  have d1: "0 < d1" "d1 < 2 ^ 32" using assms(1,2) by (auto simp: d1_def div_greater_zero_iff less_mult_imp_div_less)
  then have u: "unat (of_nat d1 :: u32) = d1" by (simp add: unat_of_nat)
  have nz: "(of_nat d1 :: u32) \<noteq> 0" using u d1(1) by auto
  note b = nlz_bounds [OF nz, unfolded u, folded s_def d1_def]
  show s: "s \<le> 31" unfolding s_def d1_def [symmetric] by (rule nlz_bounds(1) [OF nz])
  have b1: "2 ^ 31 \<le> d1 * 2 ^ s" "d1 * 2 ^ s < 2 ^ 32" unfolding s_def d1_def [symmetric] using nlz_bounds(2,3) [OF nz] u by simp_all
  have p: "(2 :: nat) ^ 32 = 2 ^ (32 - s) * 2 ^ s" "(2 :: nat) ^ (31 + (32 - s)) * 2 ^ s = 2 ^ 31 * 2 ^ 32"
    using s by (simp_all flip: power_add)
  have D: "d1 * 2 ^ 32 \<le> D" "D < (d1 + 1) * 2 ^ 32"
    unfolding d1_def by (simp_all add: dividend_less_div_times)
  have "(d1 + 1) * 2 ^ s \<le> 2 ^ 32"
  proof -
    have "d1 < 2 ^ (32 - s)" using b1(2) unfolding p(1) by simp
    then have "(d1 + 1) * 2 ^ s \<le> 2 ^ (32 - s) * 2 ^ s" by (intro mult_le_mono1) simp
    then show ?thesis by (simp only: p(1))
  qed
  then have m: "(d1 + 1) * 2 ^ s * 2 ^ 32 \<le> 2 ^ 32 * 2 ^ 32" by (intro mult_le_mono1)
  have "D * 2 ^ s < (d1 + 1) * 2 ^ 32 * 2 ^ s" using D(2) by (intro mult_strict_right_mono) simp_all
  also have "\<dots> = (d1 + 1) * 2 ^ s * 2 ^ 32" by (simp only: ac_simps)
  also note m
  finally show lt: "D * 2 ^ s < 2 ^ 64" by simp
  have "2 ^ 31 * 2 ^ 32 \<le> D * 2 ^ s"
  proof -
    have "2 ^ 31 * 2 ^ 32 \<le> d1 * 2 ^ s * 2 ^ 32" using b1(1) by (intro mult_le_mono1)
    also have "\<dots> = d1 * 2 ^ 32 * 2 ^ s" by simp
    also have "\<dots> \<le> D * 2 ^ s" using D(1) by (intro mult_le_mono1)
    finally show ?thesis .
  qed
  then show ge: "2 ^ (31 + (32 - s)) \<le> D" unfolding p(2) [symmetric] by simp
  show v: "D * 2 ^ s div 2 ^ 32 = D div 2 ^ (32 - s)" unfolding p(1) by simp
  show "2 ^ 31 \<le> D div 2 ^ (32 - s)" using ge by (simp add: power_add less_eq_div_iff_mult_less_eq)
  show "D div 2 ^ (32 - s) < 2 ^ 32" using lt unfolding v [symmetric] by (simp add: less_mult_imp_div_less)
qed

lemma correct_quotient:
  fixes N D q :: nat
  assumes "N div D \<le> q" "q = 0 \<or> (q - 1) * D \<le> N" "D \<le> N" "0 < D"
  shows "0 < q" "(q - 1) * D \<le> N" "N div D = (if N - (q - 1) * D < D then q - 1 else q)"
proof -
  have "0 < N div D" using assms(3,4) by (simp add: div_greater_zero_iff)
  then show q: "0 < q" using assms(1) by simp
  then show le: "(q - 1) * D \<le> N" using assms(2) by simp
  have qD: "q * D = (q - 1) * D + D" using q by (cases q) auto
  show "N div D = (if N - (q - 1) * D < D then q - 1 else q)"
  proof (cases "N - (q - 1) * D < D")
    case True
    then have "N div D < q" using le qD assms(4) by (simp add: div_less_iff_less_mult)
    moreover have "q - 1 \<le> N div D" using le assms(4) by (simp add: less_eq_div_iff_mult_less_eq)
    ultimately show ?thesis using True by simp
  next
    case False
    then have "q \<le> N div D" using le qD assms(4) by (simp add: less_eq_div_iff_mult_less_eq)
    then show ?thesis using False assms(1) by simp
  qed
qed

lemma udiv64_large:
  assumes "drop_bit 32 d \<noteq> 0" "d \<le> n"
  shows "udiv64 n d = Some (n div d)"
proof -
  define N D where nd: "N = unat n" "D = unat d"
  have b: "N < 2 ^ 64" "D < 2 ^ 64" "D \<le> N"
    using unsigned_less [where ?'a = nat, of n] unsigned_less [where ?'a = nat, of d] assms(2) by (auto simp: nd word_le_nat_alt)
  have "D div 2 ^ 32 \<noteq> 0" using assms(1) unat_hi [of 32 d] unsigned_eq_0_iff [where ?'a = nat, of "drop_bit 32 d"] nd by metis
  then have D: "2 ^ 32 \<le> D" by (simp add: div_eq_0_iff)
  let ?d1 = "ucast (drop_bit 32 d) :: u32"
  have "unat ?d1 = D div 2 ^ 32" using b(2) by (simp only: unat_lo unat_hi nd) (simp add: less_mult_imp_div_less)
  then have d1: "?d1 = of_nat (D div 2 ^ 32)"
    using b(2) by (intro word_eqI_nat) (simp add: unat_of_nat less_mult_imp_div_less del: unsigned_ucast_eq)
  define s where "s = nlz (of_nat (D div 2 ^ 32))"
  note nm = normalize_divisor [OF D b(2), folded s_def]
  let ?k = "32 - s" let ?v = "D div 2 ^ ?k"
  have "unat (push_bit s d) = D * 2 ^ s"
    by (simp only: unsigned_push_bit_eq) (use nm(2) in \<open>simp add: take_bit_eq_mod push_bit_eq_mult nd\<close>)
  then have "unat (drop_bit 32 (push_bit s d)) = ?v" using nm(4) by (simp only: unat_hi)
  then have v: "unat (ucast (drop_bit 32 (push_bit s d)) :: u32) = ?v" using nm(6) by (simp only: unat_lo) simp
  have v0: "(ucast (drop_bit 32 (push_bit s d)) :: u32) \<noteq> 0" using v nm(5) by auto
  have n1: "unat (drop_bit 1 n) = N div 2" by (simp only: unat_hi nd) simp
  have lt: "N div 2 div ?v < 2 ^ 32"
  proof -
    have "N div 2 < 2 ^ 32 * 2 ^ 31" using b(1) by simp
    also have "\<dots> \<le> 2 ^ 32 * ?v" using nm(5) by simp
    finally show ?thesis by (simp add: less_mult_imp_div_less)
  qed
  let ?q = "N div (?v * 2 ^ ?k)"
  have "unat (drop_bit (31 - s) (of_nat (N div 2 div ?v) :: u32)) = N div 2 div ?v div 2 ^ (31 - s)"
    using lt by (simp only: unat_hi) (simp add: unat_of_nat)
  also have "\<dots> = N div (?v * (2 * 2 ^ (31 - s)))" by (simp only: mult.left_commute [of _ 2]) (simp only: div_mult2_eq)
  also have "2 * 2 ^ (31 - s) = (2 :: nat) ^ ?k" using nm(1) by (simp flip: power_Suc add: Suc_diff_le)
  finally have q: "unat (ucast (drop_bit (31 - s) (of_nat (N div 2 div ?v) :: u32)) :: u64) = ?q" by (simp only: unat_up)
  have k: "1 \<le> ?k" using nm(1) by simp
  note est = quotient_estimate [OF b(1) nm(3) k]
  have D0: "0 < D" using D by (rule less_le_trans [rotated]) simp
  note cq = correct_quotient [OF est(1,2) b(3) D0]
  let ?Q = "ucast (drop_bit (31 - s) (of_nat (N div 2 div ?v) :: u32)) :: u64"
  have Q1: "unat (?Q - 1) = ?q - 1" using q cq(1) by (subst unat_sub) (auto simp: word_le_nat_alt simp del: unsigned_ucast_eq)
  have "(?q - 1) * D < 2 ^ 64" using cq(2) b(1) by simp
  then have Qd: "unat ((?Q - 1) * d) = (?q - 1) * D" using Q1 nd(2) by (simp add: unat_word_ariths)
  have "(?Q - 1) * d \<le> n" using Qd cq(2) unfolding word_le_nat_alt nd by (simp only:)
  then have r: "unat (n - (?Q - 1) * d) = N - (?q - 1) * D"
    using Qd unat_sub [of "(?Q - 1) * d" n] by (simp only: nd)
  have "unat (if n - (?Q - 1) * d < d then ?Q - 1 else ?Q) = N div D"
    by (simp only: if_distrib [of unat] word_less_nat_alt r Q1 q cq(3) nd(2) [symmetric])
  then have res: "(if n - (?Q - 1) * d < d then ?Q - 1 else ?Q) = n div d"
    by (intro word_eqI_nat) (simp only: unat_div nd)
  have "divl (drop_bit 1 n) (ucast (drop_bit 32 (push_bit s d))) = Some (of_nat (N div 2 div ?v))"
    using divl_eq [OF v0, of "drop_bit 1 n"] lt by (simp only: v n1)
  moreover have "nlz ?d1 = s" by (simp only: d1 s_def)
  moreover have "\<not> n < d" using assms(2) by simp
  ultimately show ?thesis
    unfolding udiv64_def Let_def using assms(1) res by (simp only: if_False bind.simps)
qed

lemma udiv64_eq: "d \<noteq> 0 \<Longrightarrow> udiv64 n d = Some (n div d)"
proof (cases "drop_bit 32 d = 0")
  case False
  show ?thesis
  proof (cases "n < d")
    case True
    then have "n div d = 0" by (simp add: word_less_nat_alt word_eqI_nat unat_div)
    then show ?thesis using True False by (simp add: udiv64_def)
  next
    case n: False
    then show ?thesis using udiv64_large [OF False] by simp
  qed
qed (simp add: udiv64_small)

section \<open>Signed division\<close>

lemma sint_range: "- (2 ^ 63) \<le> sint (n :: u64)" "sint (n :: u64) < 2 ^ 63"
  using sint_ge [of n] sint_lt [of n] by simp_all

lemma uint_mod: "uint (n :: u64) = sint n mod 2 ^ 64"
  by (simp only: uint_sint take_bit_eq_mod) simp

lemma abs64_eq: "uint (abs64 n) = \<bar>sint n\<bar>"
proof (cases "0 \<le> sint n")
  case True
  then show ?thesis using sint_range [of n] by (simp add: abs64_def word_sle_eq uint_mod)
next
  case False
  have "uint (- n) = (- uint n) mod 2 ^ 64" by (simp add: uint_word_ariths)
  then have "uint (- n) = (- sint n) mod 2 ^ 64" unfolding uint_mod [of n] mod_minus_eq .
  then show ?thesis using False sint_range [of n] by (simp add: abs64_def word_sle_eq)
qed

lemma sint_word_of_int: "- (2 ^ 63) \<le> v \<Longrightarrow> v < 2 ^ 63 \<Longrightarrow> sint (word_of_int v :: u64) = v"
  by (simp add: sint_sbintrunc' signed_take_bit_int_eq_self)

lemma sdiv64_eq:
  assumes "d \<noteq> 0"
  shows "sdiv64 n d = Some (word_of_int (sint n sdiv sint d))"
proof -
  have d: "sint d \<noteq> 0" using assms by (metis signed_eq_0_iff)
  have "abs64 d \<noteq> 0" using abs64_eq [of d] d by auto
  then have u: "udiv64 (abs64 n) (abs64 d) = Some (abs64 n div abs64 d)" by (rule udiv64_eq)
  let ?q = "\<bar>sint n\<bar> div \<bar>sint d\<bar>"
  have q: "abs64 n div abs64 d = word_of_int ?q"
    by (simp add: word_div_def flip: abs64_eq)
  have "?q = 0" if "sint n = 0" using that by simp
  then show ?thesis using u d
    by (auto simp: sdiv64_def q word_sless_alt signed_divide_int_def sgn_if)
qed

lemma trunc_of_int: "ucast (word_of_int v :: u64) = (word_of_int v :: u32)"
  by transfer simp

lemma smod64_eq:
  assumes "d \<noteq> 0"
  shows "smod64 n d = Some (word_of_int (sint n smod sint d))"
proof -
  have "n - d * word_of_int (sint n sdiv sint d) = word_of_int (sint n - sint d * (sint n sdiv sint d))"
    by (simp add: wi_hom_syms)
  also have "sint n - sint d * (sint n sdiv sint d) = sint n smod sint d"
    using sdiv_mult_smod_eq [of "sint n" "sint d"] by (simp add: algebra_simps)
  finally show ?thesis using sdiv64_eq [OF assms, of n] by (simp add: smod64_def trunc_of_int)
qed

lemma low_bits: "take_bit 32 w = w \<longleftrightarrow> (w :: u64) < 2 ^ 32"
proof -
  have "take_bit 32 w = w \<longleftrightarrow> unat (take_bit 32 w) = unat w" by (metis word_eqI_nat)
  also have "unat (take_bit 32 w) = unat w mod 2 ^ 32" by (simp only: unsigned_take_bit_eq) (simp only: take_bit_eq_mod)
  finally show ?thesis by (simp add: word_less_nat_alt mod_eq_self_iff_div_eq_0 div_eq_0_iff)
qed

section \<open>Properties\<close>

text \<open>C30: The 64-bit division routines compute the quotient: for every divisor other than 0 the unsigned
  routine returns the quotient of the unsigned values and never traps, and the signed routine
  returns the quotient rounded towards 0, except for the one quotient that does not fit in 64 bits.\<close>
theorem division64_correct:
  assumes "d \<noteq> 0"
  shows "udivdi3 n d = Some (n div d) \<and>
    (\<exists>q. divdi3 n d = Some q \<and> (sint n \<noteq> - (2 ^ 63) \<or> sint d \<noteq> - 1 \<longrightarrow> sint q = sint n sdiv sint d))"
proof -
  have d: "sint d \<noteq> 0" using assms(1) by (metis signed_eq_0_iff)
  let ?q = "\<bar>sint n\<bar> div \<bar>sint d\<bar>"
  have q: "0 \<le> ?q" using d by (simp add: pos_imp_zdiv_nonneg_iff)
  have s: "sint n sdiv sint d = ?q \<or> sint n sdiv sint d = - ?q"
    using d by (cases "sint n = 0") (auto simp: signed_divide_int_def sgn_if)
  have "- (2 ^ 63) \<le> sint n sdiv sint d \<and> sint n sdiv sint d < 2 ^ 63"
    if o: "sint n \<noteq> - (2 ^ 63) \<or> sint d \<noteq> - 1"
  proof (cases "\<bar>sint d\<bar> = 1")
    case True
    then show ?thesis using o sint_range [of n] by (auto simp: signed_divide_int_def sgn_if abs_if split: if_splits)
  next
    case False
    then have "?q \<le> \<bar>sint n\<bar> div 2" using d by (intro zdiv_mono2) auto
    then have "?q < 2 ^ 63" using sint_range [of n] by linarith
    then show ?thesis using q s by linarith
  qed
  then show ?thesis
    using assms(1) by (simp add: udivdi3_def divdi3_def udiv64_eq sdiv64_eq sint_word_of_int)
qed

theorem division64_correct_witness:
  "udivdi3 0xFFFFFFFFFFFFFFFF 0x100000001 = Some 0xFFFFFFFF \<and> map_option sint (divdi3 (- 7) 2) = Some (- 3)"
  using division64_correct [of "0x100000001" "0xFFFFFFFFFFFFFFFF"] division64_correct [of 2 "- 7"]
  by auto

text \<open>The remainder routines pass the remainder through a 32-bit return type: the unsigned routine returns
  the lowest 32 bits of the remainder, so it is right exactly when the remainder fits in 32 bits, and
  the signed routine returns the remainder reduced to a signed 32-bit integer.\<close>
theorem remainder64_truncated:
  assumes "d \<noteq> 0"
  shows "umoddi3 n d = Some (take_bit 32 (n mod d)) \<and> (umoddi3 n d = Some (n mod d) \<longleftrightarrow> n mod d < 2 ^ 32) \<and>
     map_option sint (moddi3 n d) = Some (signed_take_bit 31 (sint n smod sint d))"
proof -
  have "ucast (ucast (n mod d) :: u32) = take_bit 32 (n mod d)" by (rule word_eqI_nat) (simp only: unsigned_take_bit_eq, simp add: take_bit_eq_mod unat_lo unat_up)
  then have u: "umoddi3 n d = Some (take_bit 32 (n mod d))"
    using assms by (simp add: umoddi3_def umod64_def udiv64_eq minus_mult_div_eq_mod)
  moreover have "take_bit 32 (n mod d) = n mod d \<longleftrightarrow> n mod d < 2 ^ 32"
    using low_bits [of "n mod d"] by simp
  moreover have "sint (scast (word_of_int v :: u32) :: u64) = signed_take_bit 31 v" for v
    by (subst sint_up_scast) (simp_all add: is_up sint_sbintrunc')
  ultimately show ?thesis using assms by (simp add: moddi3_def smod64_eq)
qed

theorem remainder64_truncated_witness:
  "umoddi3 0x100000000 0x200000000 = Some 0 \<and> umoddi3 0x100000000 0x200000000 \<noteq> Some (0x100000000 mod 0x200000000)"
  using remainder64_truncated [of "0x200000000" "0x100000000"] by simp

section \<open>Division of C\<close>

lemma sdiv_nonneg: "0 \<le> a \<Longrightarrow> 0 < b \<Longrightarrow> a sdiv b = a div b" for a b :: int
  by (cases "a = 0") (simp_all add: signed_divide_int_def)

lemma sdiv_neg: "a < 0 \<Longrightarrow> 0 < b \<Longrightarrow> a sdiv b = - (- a div b)" for a b :: int
  by (simp add: signed_divide_int_def)

end
