(* ===== verification/Hash_Table.thy ===== *)
theory Hash_Table
  imports List_Sort
begin

text \<open>
  Hash tables with chaining: \<^verbatim>\<open>lib/kernel/hash.c\<close>. A bucket is the sequence of the elements on its list
  (the list operations themselves are the subject of \<open>Kernel_List\<close>), the table is the array of its
  buckets, and the client's hash and comparison functions are fields of the table, as in the code.
  Whether \<^verbatim>\<open>malloc\<close> finds memory is an argument of the operations that call it.

  The table is shown to implement a set of pairwise inequivalent elements, whatever \<^verbatim>\<open>rehash\<close> does in
  between.
\<close>

section \<open>The code\<close>

record 'e hash =
  elem_cnt :: u32
  bucket_cnt :: u32
  buckets :: "'e list list"
  hash_of :: "'e \<Rightarrow> u32"
  less_of :: "'e \<Rightarrow> 'e \<Rightarrow> bool"

definition find_bucket :: "'e hash \<Rightarrow> 'e \<Rightarrow> nat" where
  "find_bucket h e = unat (hash_of h e AND (bucket_cnt h - 1))"

fun find_elem_loop :: "('e \<Rightarrow> 'e \<Rightarrow> bool) \<Rightarrow> 'e list \<Rightarrow> 'e \<Rightarrow> 'e option" where
  "find_elem_loop lt [] e = None"
| "find_elem_loop lt (hi # his) e = (if \<not> lt hi e \<and> \<not> lt e hi then Some hi else find_elem_loop lt his e)"

definition find_elem :: "'e hash \<Rightarrow> nat \<Rightarrow> 'e \<Rightarrow> 'e option option" where
  "find_elem h b e = do { bucket \<leftarrow> arr_get (buckets h) b; Some (find_elem_loop (less_of h) bucket e) }"

definition turn_off_least_1bit :: "u32 \<Rightarrow> u32" where
  "turn_off_least_1bit x = x AND (x - 1)"

definition is_power_of_2 :: "u32 \<Rightarrow> bool" where
  "is_power_of_2 x = (x \<noteq> 0 \<and> turn_off_least_1bit x = 0)"

text \<open>Inserts at the front of a bucket; unlinks an element from the bucket it is in.\<close>

definition push_bucket :: "nat \<Rightarrow> 'e \<Rightarrow> 'e hash \<Rightarrow> 'e hash option" where
  "push_bucket b e h = do { bucket \<leftarrow> arr_get (buckets h) b; Some (h\<lparr>buckets := (buckets h)[b := e # bucket]\<rparr>) }"

definition insert_elem :: "'e hash \<Rightarrow> nat \<Rightarrow> 'e \<Rightarrow> 'e hash option" where
  "insert_elem h b e = push_bucket b e (h\<lparr>elem_cnt := elem_cnt h + 1\<rparr>)"

definition remove_elem :: "'e hash \<Rightarrow> 'e \<Rightarrow> 'e hash" where
  "remove_elem h e = h\<lparr>elem_cnt := elem_cnt h - 1, buckets := map (remove1 e) (buckets h)\<rparr>"

lemma and_pred_nat: "0 < (x :: nat) \<Longrightarrow> x AND (x - 1) < x \<and> (x AND (x - 1) = 0 \<longrightarrow> (\<exists>k. x = 2 ^ k))"
proof (induction x rule: less_induct)
  case (less x)
  have rec: "x AND (x - 1) = of_bool (odd x \<and> odd (x - 1)) + 2 * ((x div 2) AND ((x - 1) div 2))"
    by (rule and_rec)
  show ?case
  proof (cases "odd x")
    case True
    then have "(x - 1) div 2 = x div 2" by presburger
    then have "x AND (x - 1) = x - 1" using True rec by auto
    then show ?thesis using less.prems by (cases "x = 1") (auto intro: exI [of _ 0])
  next
    case False
    then have h: "0 < x div 2" "x div 2 < x" "(x - 1) div 2 = x div 2 - 1" "x = 2 * (x div 2)" using less.prems by presburger+
    then have e: "x AND (x - 1) = 2 * ((x div 2) AND (x div 2 - 1))" using False rec by simp
    from less.IH [OF h(2,1)] show ?thesis
      using e h(4) by (metis mult_eq_0_iff nat_mult_less_cancel_disj power_Suc zero_neq_numeral zero_less_numeral)
  qed
qed

lemma turn_off_nat: "x \<noteq> 0 \<Longrightarrow> unat (turn_off_least_1bit x) = unat x AND (unat x - 1)"
  by (simp add: turn_off_least_1bit_def unsigned_and_eq unat_minus_one)

lemma turn_off_less: "x \<noteq> 0 \<Longrightarrow> unat (turn_off_least_1bit x) < unat x"
  using and_pred_nat [of "unat x"] by (simp add: turn_off_nat unat_gt_0)

function round_power :: "u32 \<Rightarrow> u32" where
  "round_power x = (if x = 0 \<or> is_power_of_2 x then x else round_power (turn_off_least_1bit x))"
  by auto
termination by (relation "measure unat") (auto simp: turn_off_less)

declare round_power.simps [simp del]

definition new_bucket_count :: "u32 \<Rightarrow> u32" where
  "new_bucket_count n = (let m = n div 2 in round_power (if m < 4 then 4 else m))"

fun move_elems :: "'e list \<Rightarrow> 'e hash \<Rightarrow> 'e hash option" where
  "move_elems [] h = Some h"
| "move_elems (e # es) h = do { h \<leftarrow> push_bucket (find_bucket h e) e h; move_elems es h }"

fun move_buckets :: "'e list list \<Rightarrow> 'e hash \<Rightarrow> 'e hash option" where
  "move_buckets [] h = Some h"
| "move_buckets (b # bs) h = do { h \<leftarrow> move_elems b h; move_buckets bs h }"

definition rehash :: "bool \<Rightarrow> 'e hash \<Rightarrow> 'e hash option" where
  "rehash malloc_ok h =
    (let n = new_bucket_count (elem_cnt h) in
     if n = bucket_cnt h \<or> \<not> malloc_ok then Some h
     else move_buckets (buckets h) (h\<lparr>buckets := replicate (unat n) [], bucket_cnt := n\<rparr>))"

text \<open>An action on an element is a function on the state it works on.\<close>

fun apply_loop :: "('e \<Rightarrow> 's \<Rightarrow> 's) \<Rightarrow> 'e list \<Rightarrow> 's \<Rightarrow> 's" where
  "apply_loop action [] s = s"
| "apply_loop action (e # es) s = apply_loop action es (action e s)"

fun hash_apply_from :: "('e \<Rightarrow> 's \<Rightarrow> 's) \<Rightarrow> 'e list list \<Rightarrow> 's \<Rightarrow> 's" where
  "hash_apply_from action [] s = s"
| "hash_apply_from action (b # bs) s = hash_apply_from action bs (apply_loop action b s)"

definition hash_apply :: "'e hash \<Rightarrow> ('e \<Rightarrow> 's \<Rightarrow> 's) \<Rightarrow> 's \<Rightarrow> 's" where
  "hash_apply h action s = hash_apply_from action (buckets h) s"

definition hash_clear :: "'e hash \<Rightarrow> ('e \<Rightarrow> 's \<Rightarrow> 's) option \<Rightarrow> 's \<Rightarrow> 's \<times> 'e hash" where
  "hash_clear h destructor s =
    ((case destructor of None \<Rightarrow> s | Some d \<Rightarrow> hash_apply_from d (buckets h) s),
     h\<lparr>buckets := map (\<lambda>_. []) (buckets h), elem_cnt := 0\<rparr>)"

definition hash_destroy :: "'e hash \<Rightarrow> ('e \<Rightarrow> 's \<Rightarrow> 's) option \<Rightarrow> 's \<Rightarrow> 's" where
  "hash_destroy h destructor s = (if destructor \<noteq> None then fst (hash_clear h destructor s) else s)"

definition hash_init :: "bool \<Rightarrow> ('e \<Rightarrow> u32) \<Rightarrow> ('e \<Rightarrow> 'e \<Rightarrow> bool) \<Rightarrow> 'e hash option" where
  "hash_init malloc_ok hf lf =
    (if malloc_ok then Some (snd (hash_clear \<lparr>elem_cnt = 0, bucket_cnt = 4, buckets = replicate 4 [], hash_of = hf, less_of = lf\<rparr> None ()))
     else None)"

definition hash_insert :: "bool \<Rightarrow> 'e hash \<Rightarrow> 'e \<Rightarrow> ('e option \<times> 'e hash) option" where
  "hash_insert malloc_ok h new = do {
     let bucket = find_bucket h new;
     old \<leftarrow> find_elem h bucket new;
     h \<leftarrow> (if old = None then insert_elem h bucket new else Some h);
     h \<leftarrow> rehash malloc_ok h;
     Some (old, h)
   }"

definition hash_replace :: "bool \<Rightarrow> 'e hash \<Rightarrow> 'e \<Rightarrow> ('e option \<times> 'e hash) option" where
  "hash_replace malloc_ok h new = do {
     let bucket = find_bucket h new;
     old \<leftarrow> find_elem h bucket new;
     let h = (case old of Some old \<Rightarrow> remove_elem h old | None \<Rightarrow> h);
     h \<leftarrow> insert_elem h bucket new;
     h \<leftarrow> rehash malloc_ok h;
     Some (old, h)
   }"

definition hash_find :: "'e hash \<Rightarrow> 'e \<Rightarrow> 'e option option" where
  "hash_find h e = find_elem h (find_bucket h e) e"

definition hash_delete :: "bool \<Rightarrow> 'e hash \<Rightarrow> 'e \<Rightarrow> ('e option \<times> 'e hash) option" where
  "hash_delete malloc_ok h e = do {
     found \<leftarrow> find_elem h (find_bucket h e) e;
     case found of None \<Rightarrow> Some (None, h)
     | Some f \<Rightarrow> do { h \<leftarrow> rehash malloc_ok (remove_elem h f); Some (found, h) }
   }"

definition hash_size :: "'e hash \<Rightarrow> u32" where
  "hash_size h = elem_cnt h"

definition hash_empty :: "'e hash \<Rightarrow> bool" where
  "hash_empty h = (elem_cnt h = 0)"

text \<open>An iterator: the bucket, and the position on its list, where 0 is the list head; the position is
  \<open>None\<close> at the end of the table.\<close>

record hash_iterator =
  it_bucket :: nat
  it_pos :: "nat option"

definition hash_first :: hash_iterator where
  "hash_first = \<lparr>it_bucket = 0, it_pos = Some 0\<rparr>"

function next_loop :: "'e list list \<Rightarrow> nat \<Rightarrow> nat \<Rightarrow> hash_iterator" where
  "next_loop bs b p =
    (if b < length bs \<and> p = length (bs ! b) + 1 then
       (if b + 1 \<ge> length bs then \<lparr>it_bucket = b + 1, it_pos = None\<rparr> else next_loop bs (b + 1) 1)
     else \<lparr>it_bucket = b, it_pos = Some p\<rparr>)"
  by auto
termination by (relation "measure (\<lambda>(bs, b, p). length bs - b)") auto

declare next_loop.simps [simp del]

definition hash_cur :: "'e hash \<Rightarrow> hash_iterator \<Rightarrow> 'e option" where
  "hash_cur h i = (case it_pos i of None \<Rightarrow> None | Some p \<Rightarrow> Some (buckets h ! it_bucket i ! (p - 1)))"

definition hash_next :: "'e hash \<Rightarrow> hash_iterator \<Rightarrow> ('e option \<times> hash_iterator) option" where
  "hash_next h i = (case it_pos i of None \<Rightarrow> None
     | Some p \<Rightarrow> (let i = next_loop (buckets h) (it_bucket i) (p + 1) in Some (hash_cur h i, i)))"

section \<open>The sample hash functions\<close>

definition FNV_32_PRIME :: u32 where
  "FNV_32_PRIME = 16777619"

definition FNV_32_BASIS :: u32 where
  "FNV_32_BASIS = 2166136261"

fun fnv_loop :: "u32 \<Rightarrow> byte list \<Rightarrow> u32" where
  "fnv_loop hash [] = hash"
| "fnv_loop hash (c # cs) = fnv_loop ((hash * FNV_32_PRIME) XOR ucast c) cs"

definition hash_bytes :: "byte list \<Rightarrow> nat \<Rightarrow> u32 option" where
  "hash_bytes buf sz = do { ASSERT (sz \<le> length buf); Some (fnv_loop FNV_32_BASIS (take sz buf)) }"

fun fnv_string_loop :: "u32 \<Rightarrow> byte list \<Rightarrow> u32 option" where
  "fnv_string_loop hash [] = None"
| "fnv_string_loop hash (c # cs) = (if c = 0 then Some hash else fnv_string_loop ((hash * FNV_32_PRIME) XOR ucast c) cs)"

definition hash_string :: "byte list \<Rightarrow> u32 option" where
  "hash_string s = fnv_string_loop FNV_32_BASIS s"

definition hash_int :: "u32 \<Rightarrow> u32" where
  "hash_int i = fnv_loop FNV_32_BASIS (le32 i)"

section \<open>Buckets\<close>

lemma unat_pow2: "k < 32 \<Longrightarrow> unat (2 ^ k :: u32) = 2 ^ k"
  using unat_of_nat [where ?'a = 32, of "2 ^ k"] power_strict_increasing [of k 32 "2 :: nat"] by simp

lemma round_power_spec: "x \<noteq> 0 \<Longrightarrow> \<exists>k<32. round_power x = 2 ^ k"
proof (induction x rule: round_power.induct)
  case (1 x)
  show ?case
  proof (cases "is_power_of_2 x")
    case True
    then have "unat x AND (unat x - 1) = 0" using turn_off_nat [OF 1(2)] by (simp add: is_power_of_2_def)
    then obtain k where k: "unat x = 2 ^ k" using and_pred_nat [of "unat x"] 1(2) by (auto simp: unat_gt_0)
    then have "(2 :: nat) ^ k < 2 ^ 32" using unsigned_less [where ?'a = nat, of x] by simp
    then have "k < 32" by (rule power_less_imp_less_exp [rotated]) simp
    moreover from this k have "x = 2 ^ k" by (intro unsigned_word_eqI [where ?'a = nat]) (simp add: unat_pow2)
    ultimately show ?thesis using True round_power.simps [of x] by auto
  next
    case False
    then show ?thesis using 1 by (simp add: round_power.simps [of x] is_power_of_2_def)
  qed
qed

lemma new_bucket_count_spec: "\<exists>k<32. new_bucket_count n = 2 ^ k"
  unfolding new_bucket_count_def Let_def by (rule round_power_spec) auto

definition same :: "('e \<Rightarrow> 'e \<Rightarrow> bool) \<Rightarrow> 'e \<Rightarrow> 'e \<Rightarrow> bool" where
  "same lt a b \<longleftrightarrow> \<not> lt a b \<and> \<not> lt b a"

definition shape :: "'e hash \<Rightarrow> bool" where
  "shape h \<longleftrightarrow> (\<exists>k<32. bucket_cnt h = 2 ^ k \<and> length (buckets h) = 2 ^ k)"

definition placed :: "'e hash \<Rightarrow> bool" where
  "placed h \<longleftrightarrow> (\<forall>b<length (buckets h). \<forall>e\<in>set (buckets h ! b). find_bucket h e = b)"

definition contents :: "'e hash \<Rightarrow> 'e multiset" where
  "contents h = mset (concat (buckets h))"

definition same_funs :: "'e hash \<Rightarrow> 'e hash \<Rightarrow> bool" where
  "same_funs h h' \<longleftrightarrow> hash_of h' = hash_of h \<and> less_of h' = less_of h"

definition hash_ok :: "'e hash \<Rightarrow> bool" where
  "hash_ok h \<longleftrightarrow> shape h \<and> placed h \<and> unat (elem_cnt h) = size (contents h) \<and> distinct (concat (buckets h)) \<and>
     (\<forall>a\<in>set (concat (buckets h)). \<forall>b\<in>set (concat (buckets h)). same (less_of h) a b \<longrightarrow> a = b)"

lemma find_bucket_less:
  assumes "shape h" shows "find_bucket h e < length (buckets h)"
proof -
  obtain k where k: "k < 32" "bucket_cnt h = 2 ^ k" "length (buckets h) = 2 ^ k" using assms by (auto simp: shape_def)
  have "hash_of h e AND (bucket_cnt h - 1) = take_bit k (hash_of h e)"
    by (simp add: k take_bit_eq_mask mask_eq_decr_exp)
  then have "find_bucket h e = unat (hash_of h e) mod 2 ^ k"
    unfolding find_bucket_def by (simp only: unsigned_take_bit_eq) (simp add: take_bit_eq_mod)
  then show ?thesis by (simp add: k)
qed

lemma find_bucket_cong: "hash_of h' = hash_of h \<Longrightarrow> bucket_cnt h' = bucket_cnt h \<Longrightarrow> find_bucket h' = find_bucket h"
  by (simp add: find_bucket_def fun_eq_iff)

lemma mset_concat_update:
  "b < length bs \<Longrightarrow> mset (concat (bs[b := e # bs ! b])) = add_mset e (mset (concat bs))"
  by (induction bs arbitrary: b) (auto split: nat.splits)

lemma push_bucket_spec:
  assumes "shape h"
  shows "\<exists>h'. push_bucket (find_bucket h e) e h = Some h' \<and> shape h' \<and> (placed h \<longrightarrow> placed h') \<and>
     contents h' = add_mset e (contents h) \<and> elem_cnt h' = elem_cnt h \<and> bucket_cnt h' = bucket_cnt h \<and> same_funs h h'"
proof -
  let ?b = "find_bucket h e" let ?h = "h\<lparr>buckets := (buckets h)[?b := e # buckets h ! ?b]\<rparr>"
  have b: "?b < length (buckets h)" by (rule find_bucket_less [OF assms])
  have f: "find_bucket ?h = find_bucket h" by (simp add: find_bucket_def fun_eq_iff)
  have "placed ?h" if "placed h"
    using that b unfolding placed_def f by (auto simp: nth_list_update split: if_splits)
  then show ?thesis
    using b assms by (auto simp: push_bucket_def shape_def contents_def mset_concat_update same_funs_def)
qed

lemma move_elems_spec:
  "shape h \<Longrightarrow> \<exists>h'. move_elems es h = Some h' \<and> shape h' \<and> (placed h \<longrightarrow> placed h') \<and>
     contents h' = mset es + contents h \<and> elem_cnt h' = elem_cnt h \<and> same_funs h h'"
proof (induction es arbitrary: h)
  case (Cons e es)
  obtain h1 where h1: "push_bucket (find_bucket h e) e h = Some h1" "shape h1" "placed h \<longrightarrow> placed h1"
      "contents h1 = add_mset e (contents h)" "elem_cnt h1 = elem_cnt h" "same_funs h h1"
    using push_bucket_spec [OF Cons.prems] by blast
  from Cons.IH [OF h1(2)] obtain h' where "move_elems es h1 = Some h'" "shape h'" "placed h1 \<longrightarrow> placed h'"
      "contents h' = mset es + contents h1" "elem_cnt h' = elem_cnt h1" "same_funs h1 h'"
    by blast
  with h1 show ?case by (auto simp: same_funs_def)
qed (simp add: same_funs_def)

lemma move_buckets_spec:
  "shape h \<Longrightarrow> \<exists>h'. move_buckets bs h = Some h' \<and> shape h' \<and> (placed h \<longrightarrow> placed h') \<and>
     contents h' = mset (concat bs) + contents h \<and> elem_cnt h' = elem_cnt h \<and> same_funs h h'"
proof (induction bs arbitrary: h)
  case (Cons b bs)
  obtain h1 where h1: "move_elems b h = Some h1" "shape h1" "placed h \<longrightarrow> placed h1"
      "contents h1 = mset b + contents h" "elem_cnt h1 = elem_cnt h" "same_funs h h1"
    using move_elems_spec [OF Cons.prems] by blast
  from Cons.IH [OF h1(2)] obtain h' where "move_buckets bs h1 = Some h'" "shape h'" "placed h1 \<longrightarrow> placed h'"
      "contents h' = mset (concat bs) + contents h1" "elem_cnt h' = elem_cnt h1" "same_funs h1 h'"
    by blast
  with h1 show ?case by (auto simp: same_funs_def)
qed (simp add: same_funs_def)

lemma rehash_spec:
  assumes "shape h" "placed h"
  shows "\<exists>h'. rehash m h = Some h' \<and> shape h' \<and> placed h' \<and> contents h' = contents h \<and> elem_cnt h' = elem_cnt h \<and> same_funs h h'"
proof (cases "new_bucket_count (elem_cnt h) = bucket_cnt h \<or> \<not> m")
  case True
  then show ?thesis using assms by (auto simp: rehash_def same_funs_def)
next
  case False
  let ?n = "new_bucket_count (elem_cnt h)"
  let ?h = "h\<lparr>buckets := replicate (unat ?n) [], bucket_cnt := ?n\<rparr>"
  obtain k where k: "k < 32" "?n = 2 ^ k" using new_bucket_count_spec by blast
  then have "shape ?h" by (auto simp: shape_def unat_pow2)
  moreover have "placed ?h" "contents ?h = {#}" by (simp_all add: placed_def contents_def)
  ultimately obtain h' where "move_buckets (buckets h) ?h = Some h'" "shape h'" "placed h'"
      "contents h' = mset (concat (buckets h))" "elem_cnt h' = elem_cnt ?h" "same_funs ?h h'"
    using move_buckets_spec [of ?h "buckets h"] by auto
  then show ?thesis using False by (auto simp: rehash_def contents_def same_funs_def)
qed

lemma hash_okI:
  assumes "shape h'" "placed h'" "contents h' = M" "unat (elem_cnt h') = size M" "\<And>x. count M x \<le> 1"
    and "\<And>a b. a \<in># M \<Longrightarrow> b \<in># M \<Longrightarrow> same (less_of h') a b \<Longrightarrow> a = b"
  shows "hash_ok h'"
proof -
  have "distinct (concat (buckets h'))"
    unfolding distinct_count_atmost_1
  proof
    fix a
    show "count (mset (concat (buckets h'))) a = (if a \<in> set (concat (buckets h')) then 1 else 0)"
      using assms(3) assms(5) [of a] by (cases "a \<in># M") (auto simp: contents_def le_Suc_eq not_in_iff simp flip: set_mset_mset)
  qed
  moreover have "set (concat (buckets h')) = set_mset M" using assms(3) by (metis contents_def set_mset_mset)
  ultimately show ?thesis using assms unfolding hash_ok_def by blast
qed

section \<open>The table as a set\<close>

definition elems :: "'e hash \<Rightarrow> 'e set" where
  "elems h = set (concat (buckets h))"

lemma elems_contents: "elems h = set_mset (contents h)"
  unfolding elems_def contents_def by (rule set_mset_mset [symmetric])

lemma find_elem_loop_None: "find_elem_loop lt b e = None \<longleftrightarrow> (\<forall>x\<in>set b. \<not> same lt x e)"
  by (induction b) (auto simp: same_def)

lemma find_elem_loop_Some: "find_elem_loop lt b e = Some x \<Longrightarrow> x \<in> set b \<and> same lt x e"
  by (induction b) (auto simp: same_def split: if_splits)

lemma remove_contents:
  "distinct (concat bs) \<Longrightarrow> mset (concat (map (remove1 e) bs)) = mset (concat bs) - {#e#}"
proof (induction bs)
  case (Cons b bs)
  show ?case
  proof (cases "e \<in> set b")
    case True
    then have "map (remove1 e) bs = bs" using Cons.prems by (intro map_idI remove1_idem) auto
    then show ?thesis using True by (simp add: mset_remove1 del: mset_concat)
  next
    case False
    have c: "count (mset b) e = 0" using False by (rule count_mset_0_iff [THEN iffD2])
    have "mset b + (M - {#e#}) = mset b + M - {#e#}" for M
    proof (rule multiset_eqI)
      show "count (mset b + (M - {#e#})) x = count (mset b + M - {#e#}) x" for x
        by (cases "x = e") (simp_all add: c del: count_mset_0_iff)
    qed
    then show ?thesis using Cons False by (simp add: remove1_idem del: mset_concat)
  qed
qed simp

text \<open>The operations and what they mean for a set of pairwise inequivalent elements.\<close>

datatype 'e hop = Insert bool 'e | Replace bool 'e | Find 'e | Delete bool 'e

fun hash_step :: "'e hop \<Rightarrow> 'e hash \<Rightarrow> ('e option \<times> 'e hash) option" where
  "hash_step (Insert m e) h = hash_insert m h e"
| "hash_step (Replace m e) h = hash_replace m h e"
| "hash_step (Find e) h = do { r \<leftarrow> hash_find h e; Some (r, h) }"
| "hash_step (Delete m e) h = hash_delete m h e"

fun hash_run :: "'e hop list \<Rightarrow> 'e hash \<Rightarrow> ('e option list \<times> 'e hash) option" where
  "hash_run [] h = Some ([], h)"
| "hash_run (op # ops) h = do { (r, h) \<leftarrow> hash_step op h; (rs, h) \<leftarrow> hash_run ops h; Some (r # rs, h) }"

inductive set_step :: "('e \<Rightarrow> 'e \<Rightarrow> bool) \<Rightarrow> 'e set \<Rightarrow> 'e hop \<Rightarrow> 'e option \<Rightarrow> 'e set \<Rightarrow> bool" for lt where
  insert_new: "\<forall>x\<in>S. \<not> same lt x e \<Longrightarrow> set_step lt S (Insert m e) None (insert e S)"
| insert_old: "x \<in> S \<Longrightarrow> same lt x e \<Longrightarrow> set_step lt S (Insert m e) (Some x) S"
| replace_new: "\<forall>x\<in>S. \<not> same lt x e \<Longrightarrow> set_step lt S (Replace m e) None (insert e S)"
| replace_old: "x \<in> S \<Longrightarrow> same lt x e \<Longrightarrow> set_step lt S (Replace m e) (Some x) (insert e (S - {x}))"
| find_none: "\<forall>x\<in>S. \<not> same lt x e \<Longrightarrow> set_step lt S (Find e) None S"
| find_some: "x \<in> S \<Longrightarrow> same lt x e \<Longrightarrow> set_step lt S (Find e) (Some x) S"
| delete_none: "\<forall>x\<in>S. \<not> same lt x e \<Longrightarrow> set_step lt S (Delete m e) None S"
| delete_some: "x \<in> S \<Longrightarrow> same lt x e \<Longrightarrow> set_step lt S (Delete m e) (Some x) (S - {x})"

inductive set_run :: "('e \<Rightarrow> 'e \<Rightarrow> bool) \<Rightarrow> 'e set \<Rightarrow> 'e hop list \<Rightarrow> 'e option list \<Rightarrow> 'e set \<Rightarrow> bool" for lt where
  run_nil: "set_run lt S [] [] S"
| run_cons: "set_step lt S op r S' \<Longrightarrow> set_run lt S' ops rs S'' \<Longrightarrow> set_run lt S (op # ops) (r # rs) S''"

lemma hash_okD:
  assumes "hash_ok h"
  shows "shape h" "placed h" "unat (elem_cnt h) = size (contents h)" "distinct (concat (buckets h))"
    "a \<in> elems h \<Longrightarrow> b \<in> elems h \<Longrightarrow> same (less_of h) a b \<Longrightarrow> a = b" "count (contents h) x \<le> 1"
proof -
  show d: "distinct (concat (buckets h))" using assms by (simp add: hash_ok_def)
  then show "count (contents h) x \<le> 1"
    unfolding contents_def by (simp add: distinct_count_atmost_1 del: mset_concat)
qed (use assms in \<open>auto simp: hash_ok_def elems_def\<close>)

definition is_table :: "('e \<Rightarrow> 'e \<Rightarrow> bool) \<Rightarrow> ('e \<Rightarrow> u32) \<Rightarrow> 'e hash \<Rightarrow> bool" where
  "is_table lt hf h \<longleftrightarrow> hash_ok h \<and> hash_of h = hf \<and> less_of h = lt"

locale hashing = strict_weak_order lt for lt :: "'e \<Rightarrow> 'e \<Rightarrow> bool" +
  fixes hf :: "'e \<Rightarrow> u32"
  assumes hash_same: "same lt a b \<Longrightarrow> hf a = hf b"
begin

lemma same_sym: "same lt a b \<Longrightarrow> same lt b a"
  by (simp add: same_def)

lemma same_trans: "same lt a b \<Longrightarrow> same lt b c \<Longrightarrow> same lt a c"
  unfolding same_def using neg_trans by blast

lemma find_elem_spec:
  assumes "is_table lt hf h"
  obtains "find_elem h (find_bucket h e) e = Some None" "\<forall>x\<in>elems h. \<not> same lt x e"
  | x where "find_elem h (find_bucket h e) e = Some (Some x)" "x \<in> elems h" "same lt x e"
proof -
  let ?b = "find_bucket h e"
  have h: "hash_ok h" "hash_of h = hf" "less_of h = lt" using assms by (simp_all add: is_table_def)
  have b: "?b < length (buckets h)" by (rule find_bucket_less [OF hash_okD(1) [OF h(1)]])
  have f: "find_elem h ?b e = Some (find_elem_loop lt (buckets h ! ?b) e)" using b h(3) by (simp add: find_elem_def)
  show ?thesis
  proof (cases "find_elem_loop lt (buckets h ! ?b) e")
    case None
    have "\<not> same lt x e" if x: "x \<in> elems h" for x
    proof
      assume s: "same lt x e"
      obtain bk where "bk \<in> set (buckets h)" "x \<in> set bk" using x by (auto simp: elems_def)
      then obtain c where c: "c < length (buckets h)" "x \<in> set (buckets h ! c)" by (metis in_set_conv_nth)
      then have "find_bucket h x = c" using hash_okD(2) [OF h(1)] by (simp add: placed_def)
      moreover have "find_bucket h x = ?b" using hash_same [OF s] h(2) by (simp add: find_bucket_def)
      ultimately have "x \<in> set (buckets h ! ?b)" using c(2) by simp
      then show False using None s by (simp add: find_elem_loop_None)
    qed
    then show ?thesis using that(1) f None by simp
  next
    case (Some x)
    then have "x \<in> set (buckets h ! ?b)" "same lt x e" using find_elem_loop_Some by metis+
    moreover from this(1) have "x \<in> elems h" using b by (auto simp: elems_def)
    ultimately show ?thesis using that(2) f Some by simp
  qed
qed

lemma rehashed_table:
  assumes "shape h" "placed h" "hash_of h = hf" "less_of h = lt" "unat (elem_cnt h) = size (contents h)"
    and "\<And>x. count (contents h) x \<le> 1" "\<And>a b. a \<in> elems h \<Longrightarrow> b \<in> elems h \<Longrightarrow> same lt a b \<Longrightarrow> a = b"
  shows "\<exists>h'. rehash m h = Some h' \<and> is_table lt hf h' \<and> elems h' = elems h \<and> contents h' = contents h"
proof -
  obtain h' where h': "rehash m h = Some h'" "shape h'" "placed h'" "contents h' = contents h" "elem_cnt h' = elem_cnt h" "same_funs h h'"
    using rehash_spec [OF assms(1,2)] by blast
  have "hash_ok h'"
    by (rule hash_okI [OF h'(2-4)]) (use h' assms in \<open>auto simp: same_funs_def elems_contents\<close>)
  then show ?thesis using h' assms(3,4) by (auto simp: is_table_def same_funs_def elems_contents)
qed

lemma insert_elem_table:
  assumes "is_table lt hf h" "\<forall>x\<in>elems h. \<not> same lt x e" "size (contents h) + 1 < 2 ^ 32"
  shows "\<exists>h1 h'. insert_elem h (find_bucket h e) e = Some h1 \<and> rehash m h1 = Some h' \<and> is_table lt hf h' \<and> elems h' = insert e (elems h) \<and>
     size (contents h') = size (contents h) + 1"
proof -
  have h: "hash_ok h" "hash_of h = hf" "less_of h = lt" using assms(1) by (simp_all add: is_table_def)
  note ok = hash_okD [OF h(1)]
  let ?h = "h\<lparr>elem_cnt := elem_cnt h + 1\<rparr>"
  have "shape ?h" "find_bucket ?h e = find_bucket h e" using ok(1) by (simp_all add: shape_def find_bucket_def)
  moreover have p: "placed ?h" using ok(2) by (simp add: placed_def find_bucket_def)
  ultimately obtain h1 where h1: "push_bucket (find_bucket h e) e ?h = Some h1" "shape h1" "placed h1"
      "contents h1 = add_mset e (contents h)" "elem_cnt h1 = elem_cnt h + 1" "same_funs h h1"
    using push_bucket_spec [of ?h e] by (auto simp: contents_def same_funs_def)
  have el: "elems h1 = insert e (elems h)" using h1(4) by (simp add: elems_contents)
  have e: "same lt e e" using asym by (auto simp: same_def)
  then have ne: "e \<notin> elems h" using assms(2) by blast
  have cnt: "unat (elem_cnt h1) = size (contents h1)"
    using assms(3) ok(3) h1(4,5) by (simp add: unat_word_ariths)
  have "\<exists>h'. rehash m h1 = Some h' \<and> is_table lt hf h' \<and> elems h' = elems h1 \<and> contents h' = contents h1"
  proof (rule rehashed_table [OF h1(2,3) _ _ cnt])
    show "count (contents h1) x \<le> 1" for x
      using ok(6) [of x] ne h1(4) by (auto simp: elems_contents not_in_iff)
    show "a = b" if "a \<in> elems h1" "b \<in> elems h1" "same lt a b" for a b
      using that assms(2) ok(5) [of a b] h(3) same_sym unfolding el by blast
  qed (use h1(6) h in \<open>simp_all add: same_funs_def\<close>)
  then show ?thesis using h1(1,4) el by (auto simp: insert_elem_def)
qed

lemma remove_elem_table:
  assumes "is_table lt hf h" "x \<in> elems h"
  shows "shape (remove_elem h x)" "placed (remove_elem h x)" "elems (remove_elem h x) = elems h - {x}"
    "contents (remove_elem h x) = contents h - {#x#}" "is_table lt hf (remove_elem h x)"
    "find_bucket (remove_elem h x) = find_bucket h" "size (contents (remove_elem h x)) + 1 = size (contents h)"
proof -
  have h: "hash_ok h" "hash_of h = hf" "less_of h = lt" using assms(1) by (simp_all add: is_table_def)
  note ok = hash_okD [OF h(1)]
  let ?h = "remove_elem h x"
  show s: "shape ?h" using ok(1) by (simp add: shape_def remove_elem_def)
  show f: "find_bucket ?h = find_bucket h" by (simp add: remove_elem_def find_bucket_def fun_eq_iff)
  show p: "placed ?h"
    using ok(2) unfolding placed_def f by (auto simp: remove_elem_def dest: notin_set_remove1 set_mp [OF set_remove1_subset])
  show c: "contents ?h = contents h - {#x#}"
    unfolding contents_def using remove_contents [OF ok(4)] by (simp add: remove_elem_def del: mset_concat)
  have x: "x \<in># contents h" using assms(2) by (simp add: elems_contents)
  have cx: "count (contents h) x = 1" using ok(6) [of x] x count_greater_zero_iff [of "contents h" x] by linarith
  show el: "elems ?h = elems h - {x}"
    using c cx by (auto simp: elems_contents in_diff_count split: if_splits)
  show sz: "size (contents ?h) + 1 = size (contents h)" using x c by (metis Suc_eq_plus1 insert_DiffM size_add_mset)
  have cnt: "unat (elem_cnt ?h) = size (contents ?h)"
  proof -
    have "elem_cnt h \<noteq> 0" using ok(3) sz by auto
    then show ?thesis using ok(3) sz by (simp add: remove_elem_def unat_minus_one)
  qed
  have "hash_ok ?h"
  proof (rule hash_okI [OF s p c])
    show "unat (elem_cnt ?h) = size (contents h - {#x#})" using cnt c by simp
    show "count (contents h - {#x#}) y \<le> 1" for y using ok(6) [of y] by simp
    show "a = b" if "a \<in># contents h - {#x#}" "b \<in># contents h - {#x#}" "same (less_of ?h) a b" for a b
      using that ok(5) [of a b] by (auto simp: remove_elem_def elems_contents dest: in_diffD)
  qed
  then show "is_table lt hf ?h" using h by (simp add: is_table_def remove_elem_def)
qed

lemma hash_step_refines:
  assumes "is_table lt hf h" "size (contents h) + 1 < 2 ^ 32"
  shows "\<exists>r h'. hash_step op h = Some (r, h') \<and> set_step lt (elems h) op r (elems h') \<and> is_table lt hf h' \<and>
     size (contents h') \<le> size (contents h) + 1"
proof (cases op)
  case (Insert m e)
  show ?thesis
  proof (rule find_elem_spec [OF assms(1), of e])
    assume f: "find_elem h (find_bucket h e) e = Some None" "\<forall>x\<in>elems h. \<not> same lt x e"
    then obtain h1 h' where "insert_elem h (find_bucket h e) e = Some h1" "rehash m h1 = Some h'" "is_table lt hf h'"
        "elems h' = insert e (elems h)" "size (contents h') = size (contents h) + 1"
      using insert_elem_table [OF assms(1) _ assms(2)] by blast
    then show ?thesis using f Insert by (auto simp: hash_insert_def Let_def intro: set_step.insert_new)
  next
    fix x assume f: "find_elem h (find_bucket h e) e = Some (Some x)" "x \<in> elems h" "same lt x e"
    obtain h' where "rehash m h = Some h'" "is_table lt hf h'" "elems h' = elems h" "contents h' = contents h"
      using rehashed_table [of h m] hash_okD [of h] assms(1) by (auto simp: is_table_def)
    then show ?thesis using f Insert by (auto simp: hash_insert_def Let_def intro: set_step.insert_old)
  qed
next
  case (Replace m e)
  show ?thesis
  proof (rule find_elem_spec [OF assms(1), of e])
    assume f: "find_elem h (find_bucket h e) e = Some None" "\<forall>x\<in>elems h. \<not> same lt x e"
    then obtain h1 h' where "insert_elem h (find_bucket h e) e = Some h1" "rehash m h1 = Some h'" "is_table lt hf h'"
        "elems h' = insert e (elems h)" "size (contents h') = size (contents h) + 1"
      using insert_elem_table [OF assms(1) _ assms(2)] by blast
    then show ?thesis using f Replace by (auto simp: hash_replace_def Let_def intro: set_step.replace_new)
  next
    fix x assume f: "find_elem h (find_bucket h e) e = Some (Some x)" "x \<in> elems h" "same lt x e"
    let ?h = "remove_elem h x"
    note r = remove_elem_table [OF assms(1) f(2)]
    have "\<not> same lt y e" if "y \<in> elems ?h" for y
    proof
      assume "same lt y e"
      then have "same lt y x" using f(3) same_sym same_trans by metis
      then have "y = x" using that r(3) f(2) hash_okD(5) [of h y x] assms(1) by (simp add: is_table_def)
      then show False using that r(3) by simp
    qed
    then obtain h1 h' where "insert_elem ?h (find_bucket h e) e = Some h1" "rehash m h1 = Some h'" "is_table lt hf h'"
        "elems h' = insert e (elems ?h)" "size (contents h') = size (contents ?h) + 1"
      using insert_elem_table [OF r(5), of e m] assms(2) r(6,7) by auto
    then show ?thesis using f Replace r(3,7) by (auto simp: hash_replace_def Let_def intro: set_step.replace_old)
  qed
next
  case (Find e)
  show ?thesis
    by (rule find_elem_spec [OF assms(1), of e]) (use Find assms(1) in \<open>auto simp: hash_find_def intro: set_step.find_none set_step.find_some\<close>)
next
  case (Delete m e)
  show ?thesis
  proof (rule find_elem_spec [OF assms(1), of e])
    assume "find_elem h (find_bucket h e) e = Some None" "\<forall>x\<in>elems h. \<not> same lt x e"
    then show ?thesis using Delete assms(1) by (auto simp: hash_delete_def intro: set_step.delete_none)
  next
    fix x assume f: "find_elem h (find_bucket h e) e = Some (Some x)" "x \<in> elems h" "same lt x e"
    note r = remove_elem_table [OF assms(1) f(2)]
    obtain h' where "rehash m (remove_elem h x) = Some h'" "is_table lt hf h'" "elems h' = elems h - {x}"
        "contents h' = contents (remove_elem h x)"
      using rehashed_table [of "remove_elem h x" m] r hash_okD [of "remove_elem h x"] by (auto simp: is_table_def)
    then show ?thesis using f Delete r(7) by (auto simp: hash_delete_def intro: set_step.delete_some)
  qed
qed

lemma hash_run_refines:
  "is_table lt hf h \<Longrightarrow> size (contents h) + length ops < 2 ^ 32 \<Longrightarrow>
     \<exists>rs h'. hash_run ops h = Some (rs, h') \<and> set_run lt (elems h) ops rs (elems h') \<and> is_table lt hf h'"
proof (induction ops arbitrary: h)
  case (Cons op ops)
  obtain r h1 where h1: "hash_step op h = Some (r, h1)" "set_step lt (elems h) op r (elems h1)" "is_table lt hf h1"
      "size (contents h1) \<le> size (contents h) + 1"
    using hash_step_refines [OF Cons.prems(1), of op] Cons.prems(2) by auto
  with Cons.IH [OF h1(3)] Cons.prems(2) obtain rs h' where "hash_run ops h1 = Some (rs, h')"
      "set_run lt (elems h1) ops rs (elems h')" "is_table lt hf h'"
    by auto
  with h1 show ?case by (auto intro: set_run.run_cons)
qed (auto intro: set_run.run_nil)

lemma init_table: "hash_init True hf lt = Some h \<Longrightarrow> is_table lt hf h \<and> elems h = {} \<and> contents h = {#}"
  by (auto simp: hash_init_def hash_clear_def is_table_def hash_ok_def shape_def placed_def contents_def elems_def numeral_eq_Suc
      less_Suc_eq intro!: exI [of _ 2])

end

text \<open>Integers, hashed with \<^verbatim>\<open>hash_int\<close>.\<close>

definition int_less :: "u32 \<Rightarrow> u32 \<Rightarrow> bool" where
  "int_less a b = (a <s b)"

interpretation int_table: hashing int_less hash_int
proof
  show "hash_int a = hash_int b" if "same int_less a b" for a b
  proof -
    have "sint a = sint b" using that by (simp add: same_def int_less_def word_sless_alt)
    then have "a = b" by (rule signed_word_eqI)
    then show ?thesis by simp
  qed
qed (auto simp: int_less_def word_sless_alt)

section \<open>Properties\<close>

text \<open>C29: A hash table implements a set of pairwise inequivalent elements: for any comparison that is a strict weak
  order and any hash function that respects it, every sequence of insertions, replacements, searches
  and deletions on a new table returns what the set returns and leaves what the set holds, whichever
  reallocations of the bucket array fail.\<close>
theorem hash_table_refines_set:
  assumes "hashing lt hf" "hash_init True hf lt = Some h" "length ops < 2 ^ 32"
  shows "\<exists>rs h'. hash_run ops h = Some (rs, h') \<and> set_run lt {} ops rs (elems h') \<and> unat (hash_size h') = card (elems h')"
proof -
  have i: "is_table lt hf h" "elems h = {}" "contents h = {#}" using hashing.init_table [OF assms(1,2)] by auto
  then obtain rs h' where r: "hash_run ops h = Some (rs, h')" "set_run lt {} ops rs (elems h')" "is_table lt hf h'"
    using hashing.hash_run_refines [OF assms(1) i(1), of ops] assms(3) by auto
  have "size (contents h') = card (elems h')"
    using hash_okD(4) [of h'] r(3) by (simp add: is_table_def contents_def elems_def distinct_card [symmetric] del: mset_concat set_concat)
  then show ?thesis using r hash_okD(3) [of h'] by (auto simp: hash_size_def is_table_def)
qed

text \<open>Three operations on a table of integers.\<close>
theorem hash_table_refines_set_witness:
  "\<exists>h rs h'. hash_init True hash_int int_less = Some h \<and>
     hash_run [Insert True 7, Insert False 7, Delete True 7] h = Some (rs, h') \<and>
     set_run int_less {} [Insert True 7, Insert False 7, Delete True 7] rs (elems h') \<and> unat (hash_size h') = card (elems h')"
proof -
  obtain h where h: "hash_init True hash_int int_less = Some h" by (simp add: hash_init_def)
  from hash_table_refines_set [OF int_table.hashing_axioms h, of "[Insert True 7, Insert False 7, Delete True 7]"] h
  show ?thesis by auto
qed

text \<open>The iteration idiom of \<^verbatim>\<open>hash_first\<close>: the elements that \<^verbatim>\<open>hash_next\<close> returns until it returns a null
  pointer, with a bound on the number of calls.\<close>

fun hash_walk :: "nat \<Rightarrow> 'e hash \<Rightarrow> hash_iterator \<Rightarrow> 'e list option" where
  "hash_walk 0 h i = None"
| "hash_walk (Suc n) h i = do {
     (r, i) \<leftarrow> hash_next h i;
     case r of None \<Rightarrow> Some [] | Some e \<Rightarrow> do { es \<leftarrow> hash_walk n h i; Some (e # es) }
   }"

text \<open>What is left of the table from a position on.\<close>

definition rest_from :: "'e list list \<Rightarrow> nat \<Rightarrow> nat \<Rightarrow> 'e list" where
  "rest_from bs b p = drop p (bs ! b) @ concat (drop (Suc b) bs)"

definition visits :: "'e list list \<Rightarrow> 'e list \<Rightarrow> hash_iterator \<Rightarrow> bool" where
  "visits bs es i \<longleftrightarrow> it_pos i = None \<and> es = [] \<or>
     (\<exists>q. it_pos i = Some q \<and> it_bucket i < length bs \<and> 1 \<le> q \<and> q \<le> length (bs ! it_bucket i) \<and>
       es = bs ! it_bucket i ! (q - 1) # rest_from bs (it_bucket i) q)"

lemma next_loop_spec:
  "b < length bs \<Longrightarrow> 1 \<le> p \<Longrightarrow> p \<le> length (bs ! b) + 1 \<Longrightarrow> visits bs (rest_from bs b (p - 1)) (next_loop bs b p)"
proof (induction bs b p rule: next_loop.induct)
  case (1 bs b p)
  show ?case
  proof (cases "p = length (bs ! b) + 1")
    case True
    show ?thesis
    proof (cases "b + 1 \<ge> length bs")
      case l: True
      have "next_loop bs b p = \<lparr>it_bucket = b + 1, it_pos = None\<rparr>"
        by (subst next_loop.simps) (use True l "1.prems" in simp)
      then show ?thesis using True l by (simp add: visits_def rest_from_def)
    next
      case False
      have "rest_from bs b (p - 1) = rest_from bs (b + 1) (1 - 1)"
        using True False Cons_nth_drop_Suc [of "Suc b" bs] by (simp add: rest_from_def) (metis concat.simps(2))
      moreover have "next_loop bs b p = next_loop bs (b + 1) 1"
        by (subst next_loop.simps) (use True False "1.prems" in simp)
      moreover have "visits bs (rest_from bs (b + 1) (1 - 1)) (next_loop bs (b + 1) 1)"
        by (rule "1.IH") (use True False "1.prems" in auto)
      ultimately show ?thesis by (simp only:)
    qed
  next
    case False
    then have "p \<le> length (bs ! b)" using "1.prems" by simp
    moreover from this have "drop (p - 1) (bs ! b) = bs ! b ! (p - 1) # drop p (bs ! b)"
      using "1.prems" Cons_nth_drop_Suc [of "p - 1" "bs ! b"] by simp
    moreover have "next_loop bs b p = \<lparr>it_bucket = b, it_pos = Some p\<rparr>"
      by (subst next_loop.simps) (use False in simp)
    ultimately show ?thesis using "1.prems" by (simp add: visits_def rest_from_def)
  qed
qed

lemma hash_walk_spec:
  "b < length (buckets h) \<Longrightarrow> p \<le> length (buckets h ! b) \<Longrightarrow> length (rest_from (buckets h) b p) < n \<Longrightarrow>
     hash_walk n h \<lparr>it_bucket = b, it_pos = Some p\<rparr> = Some (rest_from (buckets h) b p)"
proof (induction n arbitrary: b p)
  case (Suc n)
  let ?i = "next_loop (buckets h) b (p + 1)"
  have s: "visits (buckets h) (rest_from (buckets h) b p) ?i"
    using next_loop_spec [of b "buckets h" "p + 1", OF Suc.prems(1)] Suc.prems(2) by simp
  show ?case
  proof (cases "it_pos ?i")
    case None
    then show ?thesis using s by (simp add: visits_def hash_next_def hash_cur_def Let_def)
  next
    case (Some q)
    then have q: "it_bucket ?i < length (buckets h)" "1 \<le> q" "q \<le> length (buckets h ! it_bucket ?i)"
        "rest_from (buckets h) b p = buckets h ! it_bucket ?i ! (q - 1) # rest_from (buckets h) (it_bucket ?i) q"
      using s by (simp_all add: visits_def)
    have "?i = \<lparr>it_bucket = it_bucket ?i, it_pos = Some q\<rparr>" using Some by (intro hash_iterator.equality) simp_all
    then have "hash_walk n h ?i = Some (rest_from (buckets h) (it_bucket ?i) q)"
      using Suc.IH [OF q(1,3)] Suc.prems(3) q(4) by simp
    then show ?thesis using Some q(4) by (simp add: hash_next_def hash_cur_def Let_def)
  qed
qed simp

text \<open>The iterator visits every element of the table exactly once and then reports the end: from
  \<^verbatim>\<open>hash_first\<close>, one call of \<^verbatim>\<open>hash_next\<close> per element and one more return the elements in the order of the
  buckets, the order in which \<^verbatim>\<open>hash_apply\<close> calls its action.\<close>
theorem hash_iteration_complete:
  assumes "hash_ok h"
  shows "hash_walk (unat (hash_size h) + 1) h hash_first = Some (concat (buckets h)) \<and>
     distinct (concat (buckets h)) \<and> hash_apply h action s = fold action (concat (buckets h)) s"
proof -
  have ap: "apply_loop action es s = fold action es s" for es s by (induction es arbitrary: s) auto
  have app: "hash_apply_from action bs s = fold action (concat bs) s" for bs s
    by (induction bs arbitrary: s) (simp_all add: ap)
  obtain k where "length (buckets h) = 2 ^ k" using hash_okD(1) [OF assms] by (auto simp: shape_def)
  then have b: "0 < length (buckets h)" by simp
  then have r: "rest_from (buckets h) 0 0 = concat (buckets h)"
    by (cases "buckets h") (simp_all add: rest_from_def)
  have "unat (hash_size h) = length (concat (buckets h))"
    using hash_okD(3) [OF assms] by (simp add: hash_size_def contents_def del: mset_concat)
  then show ?thesis
    using hash_walk_spec [OF b, of 0 "unat (hash_size h) + 1"] r hash_okD(4) [OF assms]
    by (simp add: hash_first_def hash_apply_def app)
qed

theorem hash_iteration_complete_witness:
  "\<exists>h. hash_init True hash_int int_less = Some h \<and> hash_walk (unat (hash_size h) + 1) h hash_first = Some (concat (buckets h))"
proof -
  obtain h where h: "hash_init True hash_int int_less = Some h" by (simp add: hash_init_def)
  then have "hash_ok h" using int_table.init_table by (simp add: is_table_def)
  then show ?thesis using hash_iteration_complete [of h "\<lambda>_ s. s" "()"] h by simp
qed

end
