(* ===== verification/Intq.thy ===== *)
theory Intq
  imports Prelude
begin

text \<open>
  Interrupt queues: the circular byte queue that the keyboard and the serial port share with kernel
  threads (\<^verbatim>\<open>devices/intq.c\<close>, and the input buffer of \<^verbatim>\<open>devices/input.c\<close> over it).

  Every function runs with interrupts off, so that it is atomic up to the points where the running
  thread blocks: on the queue's lock, and in \<^verbatim>\<open>wait\<close>. The step relation \<open>istep\<close> interleaves these
  pieces of \<^verbatim>\<open>intq_getc\<close> and \<^verbatim>\<open>intq_putc\<close> for any number of threads and interrupt handlers.
\<close>

section \<open>The queue\<close>

type_synonym thread_id = nat

definition INTQ_BUFSIZE :: nat where
  "INTQ_BUFSIZE = 64"

record intq =
  lock :: "thread_id option" \<comment> \<open>the holder\<close>
  not_full :: "thread_id option"
  not_empty :: "thread_id option"
  buf :: "byte list"
  head :: nat
  tail :: nat

definition intq_init :: "intq \<Rightarrow> intq" where
  "intq_init q = q\<lparr>lock := None, not_full := None, not_empty := None, head := 0, tail := 0\<rparr>"

definition next_pos :: "nat \<Rightarrow> nat" where
  "next_pos pos = (pos + 1) mod INTQ_BUFSIZE"

definition intq_empty :: "intq \<Rightarrow> bool" where
  "intq_empty q = (head q = tail q)"

definition intq_full :: "intq \<Rightarrow> bool" where
  "intq_full q = (next_pos (head q) = tail q)"

text \<open>\<^verbatim>\<open>wait\<close> up to the call of \<^verbatim>\<open>thread_block\<close>, and \<^verbatim>\<open>signal\<close>, which returns the thread it wakes up.\<close>

definition wait_not_empty :: "thread_id \<Rightarrow> intq \<Rightarrow> intq option" where
  "wait_not_empty t q = do { ASSERT (intq_empty q); Some (q\<lparr>not_empty := Some t\<rparr>) }"

definition wait_not_full :: "thread_id \<Rightarrow> intq \<Rightarrow> intq option" where
  "wait_not_full t q = do { ASSERT (intq_full q); Some (q\<lparr>not_full := Some t\<rparr>) }"

definition signal_not_empty :: "intq \<Rightarrow> (thread_id option \<times> intq) option" where
  "signal_not_empty q = do { ASSERT (\<not> intq_empty q); Some (not_empty q, q\<lparr>not_empty := None\<rparr>) }"

definition signal_not_full :: "intq \<Rightarrow> (thread_id option \<times> intq) option" where
  "signal_not_full q = do { ASSERT (\<not> intq_full q); Some (not_full q, q\<lparr>not_full := None\<rparr>) }"

text \<open>The parts of \<^verbatim>\<open>intq_getc\<close> and \<^verbatim>\<open>intq_putc\<close> after their loops.\<close>

definition take_byte :: "intq \<Rightarrow> (byte \<times> thread_id option \<times> intq) option" where
  "take_byte q = do {
     b \<leftarrow> arr_get (buf q) (tail q);
     (woken, q) \<leftarrow> signal_not_full (q\<lparr>tail := next_pos (tail q)\<rparr>);
     Some (b, woken, q)
   }"

definition add_byte :: "byte \<Rightarrow> intq \<Rightarrow> (thread_id option \<times> intq) option" where
  "add_byte b q = do {
     bs \<leftarrow> arr_set (buf q) (head q) b;
     signal_not_empty (q\<lparr>buf := bs, head := next_pos (head q)\<rparr>)
   }"

section \<open>Threads and interrupts\<close>

text \<open>Where a thread is: outside, blocked on the lock, blocked in \<^verbatim>\<open>wait\<close>, or woken up there.\<close>

datatype place = Outside | Get_lock | Get_wait | Get_woken | Put_lock byte | Put_wait byte | Put_woken byte

record isys =
  iq :: intq
  at :: "thread_id \<Rightarrow> place"
  bytes_put :: "byte list"
  bytes_got :: "byte list"

fun wake :: "thread_id option \<Rightarrow> (thread_id \<Rightarrow> place) \<Rightarrow> thread_id \<Rightarrow> place" where
  "wake None f = f"
| "wake (Some t) f = f(t := (case f t of Get_wait \<Rightarrow> Get_woken | Put_wait b \<Rightarrow> Put_woken b | p \<Rightarrow> p))"

text \<open>A thread waits while it holds the lock; the wait fails when the condition no longer holds.\<close>

definition getc_wait :: "thread_id \<Rightarrow> isys \<Rightarrow> isys option" where
  "getc_wait t s = do {
     q \<leftarrow> wait_not_empty t ((iq s)\<lparr>lock := Some t\<rparr>);
     Some (s\<lparr>iq := q, at := (at s)(t := Get_wait)\<rparr>)
   }"

definition getc_finish :: "isys \<Rightarrow> isys option" where
  "getc_finish s = do {
     (b, woken, q) \<leftarrow> take_byte (iq s);
     Some (s\<lparr>iq := q, at := wake woken (at s), bytes_got := bytes_got s @ [b]\<rparr>)
   }"

definition intq_getc :: "thread_id \<Rightarrow> isys \<Rightarrow> isys option" where
  "intq_getc t s =
    (if intq_empty (iq s)
     then (if lock (iq s) = None then getc_wait t s else Some (s\<lparr>at := (at s)(t := Get_lock)\<rparr>))
     else getc_finish (s\<lparr>at := (at s)(t := Outside)\<rparr>))"

definition getc_after_wait :: "thread_id \<Rightarrow> isys \<Rightarrow> isys option" where
  "getc_after_wait t s = intq_getc t (s\<lparr>iq := (iq s)\<lparr>lock := None\<rparr>\<rparr>)"

definition putc_wait :: "thread_id \<Rightarrow> byte \<Rightarrow> isys \<Rightarrow> isys option" where
  "putc_wait t b s = do {
     q \<leftarrow> wait_not_full t ((iq s)\<lparr>lock := Some t\<rparr>);
     Some (s\<lparr>iq := q, at := (at s)(t := Put_wait b)\<rparr>)
   }"

definition putc_finish :: "byte \<Rightarrow> isys \<Rightarrow> isys option" where
  "putc_finish b s = do {
     (woken, q) \<leftarrow> add_byte b (iq s);
     Some (s\<lparr>iq := q, at := wake woken (at s), bytes_put := bytes_put s @ [b]\<rparr>)
   }"

definition intq_putc :: "thread_id \<Rightarrow> byte \<Rightarrow> isys \<Rightarrow> isys option" where
  "intq_putc t b s =
    (if intq_full (iq s)
     then (if lock (iq s) = None then putc_wait t b s else Some (s\<lparr>at := (at s)(t := Put_lock b)\<rparr>))
     else putc_finish b (s\<lparr>at := (at s)(t := Outside)\<rparr>))"

definition putc_after_wait :: "thread_id \<Rightarrow> byte \<Rightarrow> isys \<Rightarrow> isys option" where
  "putc_after_wait t b s = intq_putc t b (s\<lparr>iq := (iq s)\<lparr>lock := None\<rparr>\<rparr>)"

text \<open>In an interrupt handler the queue must not be full, or empty.\<close>

definition intr_putc :: "byte \<Rightarrow> isys \<Rightarrow> isys option" where
  "intr_putc b s = do { ASSERT (\<not> intq_full (iq s)); putc_finish b s }"

definition intr_getc :: "isys \<Rightarrow> isys option" where
  "intr_getc s = do { ASSERT (\<not> intq_empty (iq s)); getc_finish s }"

datatype act = Thread_getc thread_id | Thread_putc thread_id byte | Intr_putc byte | Intr_getc

text \<open>What the next piece of a thread's code does; \<open>None\<close> of the outer option: the thread is blocked.\<close>

definition proceed :: "act \<Rightarrow> isys \<Rightarrow> isys option option" where
  "proceed a s = (case a of
     Thread_getc t \<Rightarrow> (case at s t of
         Outside \<Rightarrow> Some (intq_getc t s)
       | Get_lock \<Rightarrow> (if lock (iq s) = None then Some (getc_wait t s) else None)
       | Get_woken \<Rightarrow> Some (getc_after_wait t s)
       | _ \<Rightarrow> None)
   | Thread_putc t b \<Rightarrow> (case at s t of
         Outside \<Rightarrow> Some (intq_putc t b s)
       | Put_lock c \<Rightarrow> (if lock (iq s) = None then Some (putc_wait t c s) else None)
       | Put_woken c \<Rightarrow> Some (putc_after_wait t c s)
       | _ \<Rightarrow> None)
   | Intr_putc b \<Rightarrow> (if intq_full (iq s) then None else Some (intr_putc b s))
   | Intr_getc \<Rightarrow> (if intq_empty (iq s) then None else Some (intr_getc s)))"

inductive istep :: "isys \<Rightarrow> isys \<Rightarrow> bool" where
  istep: "proceed a s = Some (Some s') \<Longrightarrow> istep s s'"

definition start :: "intq \<Rightarrow> isys" where
  "start q = \<lparr>iq = intq_init q, at = (\<lambda>_. Outside), bytes_put = [], bytes_got = []\<rparr>"

section \<open>The queue holds its bytes in order\<close>

definition used :: "intq \<Rightarrow> nat" where
  "used q = (head q + INTQ_BUFSIZE - tail q) mod INTQ_BUFSIZE"

definition queued :: "intq \<Rightarrow> byte list" where
  "queued q = map (\<lambda>i. buf q ! ((tail q + i) mod INTQ_BUFSIZE)) [0..<used q]"

definition intq_ok :: "intq \<Rightarrow> bool" where
  "intq_ok q \<longleftrightarrow> length (buf q) = INTQ_BUFSIZE \<and> head q < INTQ_BUFSIZE \<and> tail q < INTQ_BUFSIZE"

lemma ring_gap: "h < 64 \<Longrightarrow> t < 64 \<Longrightarrow> (h + 64 - t) mod 64 = (if t \<le> h then h - t else h + 64 - t)" for h t :: nat
proof (cases "t \<le> h")
  case True
  assume "h < 64"
  have "h + 64 - t = h - t + 64" using True by simp
  then have "(h + 64 - t) mod 64 = (h - t) mod 64" by (metis mod_add_self2)
  then show ?thesis using True \<open>h < 64\<close> by simp
qed simp

lemma ring_inc: "h < 64 \<Longrightarrow> (h + 1) mod 64 = (if h = 63 then 0 else h + 1)" for h :: nat
  by (cases "h = 63") auto

lemma ring_add: "t < 64 \<Longrightarrow> i < 64 \<Longrightarrow> (t + i) mod 64 = (if t + i < 64 then t + i else t + i - 64)" for t i :: nat
proof (cases "t + i < 64")
  case False
  assume "t < 64" "i < 64"
  have "t + i = t + i - 64 + 64" using False by simp
  then have "(t + i) mod 64 = (t + i - 64) mod 64" by (metis mod_add_self2)
  then show ?thesis using False \<open>t < 64\<close> \<open>i < 64\<close> by simp
qed simp

lemma ring_arith:
  fixes h t i :: nat
  assumes "h < 64" "t < 64"
  shows "(h + 64 - t) mod 64 = 0 \<longleftrightarrow> h = t"
    and "((h + 1) mod 64 = t) = ((h + 64 - t) mod 64 = 63)"
    and "(h + 1) mod 64 \<noteq> t \<Longrightarrow> ((h + 1) mod 64 + 64 - t) mod 64 = (h + 64 - t) mod 64 + 1"
    and "h \<noteq> t \<Longrightarrow> (h + 64 - (t + 1) mod 64) mod 64 + 1 = (h + 64 - t) mod 64"
    and "(t + (h + 64 - t) mod 64) mod 64 = h"
    and "i < (h + 64 - t) mod 64 \<Longrightarrow> (t + i) mod 64 \<noteq> h"
    and "h \<noteq> t \<Longrightarrow> (h + 1) mod 64 \<noteq> (t + 1) mod 64"
proof -
  note g = ring_gap [OF assms] ring_inc [OF assms(1)] ring_inc [OF assms(2)]
  show "(h + 64 - t) mod 64 = 0 \<longleftrightarrow> h = t" "((h + 1) mod 64 = t) = ((h + 64 - t) mod 64 = 63)"
      "h \<noteq> t \<Longrightarrow> (h + 1) mod 64 \<noteq> (t + 1) mod 64"
    unfolding g using assms by auto
  show "((h + 1) mod 64 + 64 - t) mod 64 = (h + 64 - t) mod 64 + 1" if "(h + 1) mod 64 \<noteq> t"
    using that assms ring_gap [of "(h + 1) mod 64" t] unfolding g by (cases "h = 63"; cases "t \<le> h") auto
  show "(h + 64 - (t + 1) mod 64) mod 64 + 1 = (h + 64 - t) mod 64" if "h \<noteq> t"
    using that assms ring_gap [of h "(t + 1) mod 64"] unfolding g by (cases "t = 63"; cases "t \<le> h") auto
  show "(t + (h + 64 - t) mod 64) mod 64 = h"
    unfolding g using assms by auto
  show "(t + i) mod 64 \<noteq> h" if "i < (h + 64 - t) mod 64"
    using that assms ring_add [of t i] unfolding g by (cases "t \<le> h"; cases "t + i < 64") auto
qed

lemma intq_empty_iff: "intq_ok q \<Longrightarrow> intq_empty q \<longleftrightarrow> queued q = []"
  using ring_arith(1) [of "head q" "tail q"] by (auto simp: intq_ok_def intq_empty_def queued_def used_def INTQ_BUFSIZE_def)

lemma intq_full_iff: "intq_ok q \<Longrightarrow> intq_full q \<longleftrightarrow> length (queued q) = INTQ_BUFSIZE - 1"
  using ring_arith(2) [of "head q" "tail q"] by (auto simp: intq_ok_def intq_full_def next_pos_def queued_def used_def INTQ_BUFSIZE_def)

lemma add_byte_spec:
  assumes "intq_ok q" "\<not> intq_full q"
  shows "\<exists>q'. add_byte b q = Some (not_empty q, q') \<and> intq_ok q' \<and> queued q' = queued q @ [b] \<and>
     lock q' = lock q \<and> not_full q' = not_full q \<and> not_empty q' = None"
proof -
  note r = ring_arith [of "head q" "tail q"]
  have ok: "length (buf q) = 64" "head q < 64" "tail q < 64" using assms(1) by (simp_all add: intq_ok_def INTQ_BUFSIZE_def)
  let ?q = "q\<lparr>buf := (buf q)[head q := b], head := next_pos (head q)\<rparr>"
  have nf: "(head q + 1) mod 64 \<noteq> tail q" using assms(2) by (simp add: intq_full_def next_pos_def INTQ_BUFSIZE_def)
  then have ne: "\<not> intq_empty ?q" by (simp add: intq_empty_def next_pos_def INTQ_BUFSIZE_def)
  have u: "used ?q = used q + 1" using r(3) [OF ok(2,3) nf] by (simp add: used_def next_pos_def INTQ_BUFSIZE_def)
  have "map (\<lambda>i. (buf q)[head q := b] ! ((tail q + i) mod 64)) [0..<used q] = queued q"
    unfolding queued_def INTQ_BUFSIZE_def
  proof (rule map_cong [OF refl])
    fix i assume "i \<in> set [0..<used q]"
    then have "(tail q + i) mod 64 \<noteq> head q" using r(6) [OF ok(2,3), of i] by (simp add: used_def INTQ_BUFSIZE_def)
    then show "(buf q)[head q := b] ! ((tail q + i) mod 64) = buf q ! ((tail q + i) mod 64)" by simp
  qed
  moreover have "(tail q + used q) mod 64 = head q" using r(5) [OF ok(2,3)] by (simp only: used_def INTQ_BUFSIZE_def)
  ultimately have "queued ?q = queued q @ [b]"
    using ok by (simp add: queued_def [of ?q] u INTQ_BUFSIZE_def)
  moreover have "intq_ok ?q" using ok by (simp add: intq_ok_def next_pos_def INTQ_BUFSIZE_def)
  ultimately show ?thesis
    using ok ne by (auto simp: add_byte_def signal_not_empty_def intq_ok_def queued_def used_def)
qed

lemma take_byte_spec:
  assumes "intq_ok q" "\<not> intq_empty q"
  shows "\<exists>b q'. take_byte q = Some (b, not_full q, q') \<and> intq_ok q' \<and> queued q = b # queued q' \<and>
     lock q' = lock q \<and> not_empty q' = not_empty q \<and> not_full q' = None"
proof -
  note r = ring_arith [of "head q" "tail q"]
  have ok: "length (buf q) = 64" "head q < 64" "tail q < 64" using assms(1) by (simp_all add: intq_ok_def INTQ_BUFSIZE_def)
  let ?q = "q\<lparr>tail := next_pos (tail q)\<rparr>"
  have ne: "head q \<noteq> tail q" using assms(2) by (simp add: intq_empty_def)
  then have nf: "\<not> intq_full ?q" using r(7) [OF ok(2,3)] by (simp add: intq_full_def next_pos_def INTQ_BUFSIZE_def)
  have u: "used q = used ?q + 1" using r(4) [OF ok(2,3) ne] by (simp add: used_def next_pos_def INTQ_BUFSIZE_def)
  have "queued q = buf q ! tail q # queued ?q"
    using ok by (simp add: queued_def u map_upt_Suc next_pos_def INTQ_BUFSIZE_def mod_add_left_eq del: upt_Suc)
  moreover have "intq_ok ?q" using ok by (simp add: intq_ok_def next_pos_def INTQ_BUFSIZE_def)
  ultimately show ?thesis
    using ok nf by (auto simp: take_byte_def signal_not_full_def intq_ok_def queued_def used_def)
qed

section \<open>Invariant\<close>

definition waiting :: "place \<Rightarrow> bool" where
  "waiting p \<longleftrightarrow> (\<exists>b. p \<in> {Get_wait, Get_woken, Put_wait b, Put_woken b})"

text \<open>The lock belongs to the thread that waits; it is registered with the queue until it is woken up, and
  until then the condition it waits for does not hold.\<close>

definition iinv :: "isys \<Rightarrow> bool" where
  "iinv s \<longleftrightarrow> intq_ok (iq s) \<and> bytes_put s = bytes_got s @ queued (iq s) \<and>
     (\<forall>t. lock (iq s) = Some t \<longleftrightarrow> waiting (at s t)) \<and>
     (\<forall>t. not_empty (iq s) = Some t \<longleftrightarrow> at s t = Get_wait) \<and>
     (\<forall>t. not_full (iq s) = Some t \<longleftrightarrow> (\<exists>b. at s t = Put_wait b)) \<and>
     (not_empty (iq s) \<noteq> None \<longrightarrow> intq_empty (iq s)) \<and> (not_full (iq s) \<noteq> None \<longrightarrow> intq_full (iq s))"

lemma intq_upd [simp]:
  "queued (q\<lparr>lock := l\<rparr>) = queued q" "queued (q\<lparr>not_empty := w\<rparr>) = queued q" "queued (q\<lparr>not_full := w\<rparr>) = queued q"
  "intq_ok (q\<lparr>lock := l\<rparr>) = intq_ok q" "intq_ok (q\<lparr>not_empty := w\<rparr>) = intq_ok q" "intq_ok (q\<lparr>not_full := w\<rparr>) = intq_ok q"
  "intq_empty (q\<lparr>lock := l\<rparr>) = intq_empty q" "intq_empty (q\<lparr>not_empty := w\<rparr>) = intq_empty q" "intq_empty (q\<lparr>not_full := w\<rparr>) = intq_empty q"
  "intq_full (q\<lparr>lock := l\<rparr>) = intq_full q" "intq_full (q\<lparr>not_empty := w\<rparr>) = intq_full q" "intq_full (q\<lparr>not_full := w\<rparr>) = intq_full q"
  by (simp_all add: queued_def used_def intq_ok_def intq_empty_def intq_full_def)

lemma iinvD:
  assumes "iinv s"
  shows "intq_ok (iq s)" "bytes_put s = bytes_got s @ queued (iq s)" "lock (iq s) = Some t \<longleftrightarrow> waiting (at s t)"
    "not_empty (iq s) = Some t \<longleftrightarrow> at s t = Get_wait" "not_full (iq s) = Some t \<longleftrightarrow> (\<exists>b. at s t = Put_wait b)"
    "not_empty (iq s) \<noteq> None \<Longrightarrow> intq_empty (iq s)" "not_full (iq s) \<noteq> None \<Longrightarrow> intq_full (iq s)"
  using assms unfolding iinv_def by blast+

text \<open>Moving a thread between places where it holds no lock.\<close>

lemma move_iinv: "iinv s \<Longrightarrow> \<not> waiting (at s t) \<Longrightarrow> \<not> waiting p \<Longrightarrow> iinv (s\<lparr>at := (at s)(t := p)\<rparr>)"
  by (auto simp: iinv_def waiting_def)

lemma getc_wait_iinv:
  assumes "iinv s" "lock (iq s) = None" "getc_wait t s = Some s'"
  shows "iinv s'"
proof -
  have s': "s' = s\<lparr>iq := (iq s)\<lparr>lock := Some t, not_empty := Some t\<rparr>, at := (at s)(t := Get_wait)\<rparr>" "intq_empty (iq s)"
    using assms(3) by (auto simp: getc_wait_def wait_not_empty_def bind_eq_Some_conv)
  have nw: "\<not> waiting (at s u)" for u using iinvD(3) [OF assms(1), of u] assms(2) by simp
  then have "at s u \<noteq> Get_wait" "at s u \<noteq> Put_wait b" for u b by (metis insert_iff waiting_def)+
  then show ?thesis
    using assms(1) s' nw by (auto simp: iinv_def waiting_def)
qed

lemma putc_wait_iinv:
  assumes "iinv s" "lock (iq s) = None" "putc_wait t b s = Some s'"
  shows "iinv s'"
proof -
  have s': "s' = s\<lparr>iq := (iq s)\<lparr>lock := Some t, not_full := Some t\<rparr>, at := (at s)(t := Put_wait b)\<rparr>" "intq_full (iq s)"
    using assms(3) by (auto simp: putc_wait_def wait_not_full_def bind_eq_Some_conv)
  have nw: "\<not> waiting (at s u)" for u using iinvD(3) [OF assms(1), of u] assms(2) by simp
  then have "at s u \<noteq> Get_wait" "at s u \<noteq> Put_wait b" for u b by (metis insert_iff waiting_def)+
  then show ?thesis
    using assms(1) s' nw by (auto simp: iinv_def waiting_def)
qed

lemma getc_finish_iinv:
  assumes "iinv s" "\<not> intq_empty (iq s)"
  shows "\<exists>s'. getc_finish s = Some s' \<and> iinv s'"
proof -
  note inv = iinvD [OF assms(1)]
  obtain b q' where q': "take_byte (iq s) = Some (b, not_full (iq s), q')" "intq_ok q'" "queued (iq s) = b # queued q'"
     "lock q' = lock (iq s)" "not_empty q' = not_empty (iq s)" "not_full q' = None"
    using take_byte_spec [OF inv(1) assms(2)] by blast
  have ne: "not_empty (iq s) = None" using inv(6) assms(2) by blast
  let ?s = "s\<lparr>iq := q', at := wake (not_full (iq s)) (at s), bytes_got := bytes_got s @ [b]\<rparr>"
  have "iinv ?s"
  proof (cases "not_full (iq s)")
    case None
    then show ?thesis using assms(1) q' ne by (auto simp: iinv_def)
  next
    case (Some w)
    then obtain c where w: "at s w = Put_wait c" using inv(5) by blast
    have "u = w" if "waiting (at s u)" for u
      using that inv(3) [of u] inv(3) [of w] w by (auto simp: waiting_def)
    then show ?thesis using Some assms(1) q' ne w by (auto simp: iinv_def waiting_def)
  qed
  then show ?thesis using q'(1) by (auto simp: getc_finish_def)
qed

lemma putc_finish_iinv:
  assumes "iinv s" "\<not> intq_full (iq s)"
  shows "\<exists>s'. putc_finish b s = Some s' \<and> iinv s'"
proof -
  note inv = iinvD [OF assms(1)]
  obtain q' where q': "add_byte b (iq s) = Some (not_empty (iq s), q')" "intq_ok q'" "queued q' = queued (iq s) @ [b]"
     "lock q' = lock (iq s)" "not_full q' = not_full (iq s)" "not_empty q' = None"
    using add_byte_spec [OF inv(1) assms(2)] by blast
  have ne: "not_full (iq s) = None" using inv(7) assms(2) by blast
  let ?s = "s\<lparr>iq := q', at := wake (not_empty (iq s)) (at s), bytes_put := bytes_put s @ [b]\<rparr>"
  have "iinv ?s"
  proof (cases "not_empty (iq s)")
    case None
    then show ?thesis using assms(1) q' ne by (auto simp: iinv_def)
  next
    case (Some w)
    then have w: "at s w = Get_wait" using inv(4) by blast
    have "u = w" if "waiting (at s u)" for u
      using that inv(3) [of u] inv(3) [of w] w by (auto simp: waiting_def)
    then show ?thesis using Some assms(1) q' ne w by (auto simp: iinv_def waiting_def)
  qed
  then show ?thesis using q'(1) by (auto simp: putc_finish_def)
qed

lemma intq_getc_iinv:
  assumes "iinv s" "\<not> waiting (at s t)"
  shows "\<exists>s'. intq_getc t s = Some s' \<and> iinv s'"
proof (cases "intq_empty (iq s)")
  case True
  show ?thesis
  proof (cases "lock (iq s) = None")
    case l: True
    then obtain s' where "getc_wait t s = Some s'" using True by (auto simp: getc_wait_def wait_not_empty_def)
    then show ?thesis using getc_wait_iinv [OF assms(1) l] True l by (auto simp: intq_getc_def)
  next
    case False
    then show ?thesis using move_iinv [OF assms, of Get_lock] True by (auto simp: intq_getc_def waiting_def)
  qed
next
  case False
  then show ?thesis using getc_finish_iinv [OF move_iinv [OF assms, of Outside]] by (simp add: intq_getc_def waiting_def)
qed

lemma intq_putc_iinv:
  assumes "iinv s" "\<not> waiting (at s t)"
  shows "\<exists>s'. intq_putc t b s = Some s' \<and> iinv s'"
proof (cases "intq_full (iq s)")
  case True
  show ?thesis
  proof (cases "lock (iq s) = None")
    case l: True
    then obtain s' where "putc_wait t b s = Some s'" using True by (auto simp: putc_wait_def wait_not_full_def)
    then show ?thesis using putc_wait_iinv [OF assms(1) l] True l by (auto simp: intq_putc_def)
  next
    case False
    then show ?thesis using move_iinv [OF assms, of "Put_lock b"] True by (auto simp: intq_putc_def waiting_def)
  qed
next
  case False
  then show ?thesis using putc_finish_iinv [OF move_iinv [OF assms, of Outside]] by (simp add: intq_putc_def waiting_def)
qed

text \<open>A woken thread releases the lock and starts over.\<close>

lemma woken_iinv:
  assumes "iinv s" "at s t = Get_woken \<or> at s t = Put_woken b"
  shows "iinv (s\<lparr>iq := (iq s)\<lparr>lock := None\<rparr>, at := (at s)(t := Outside)\<rparr>)"
proof -
  have "u = t" if "waiting (at s u)" for u
    using that iinvD(3) [OF assms(1), of u] iinvD(3) [OF assms(1), of t] assms(2) by (auto simp: waiting_def)
  then show ?thesis using assms by (auto simp: iinv_def waiting_def)
qed

lemma intq_getc_at: "intq_getc t (s\<lparr>at := (at s)(t := p)\<rparr>) = intq_getc t s"
  by (simp add: intq_getc_def getc_wait_def)

lemma intq_putc_at: "intq_putc t b (s\<lparr>at := (at s)(t := p)\<rparr>) = intq_putc t b s"
  by (simp add: intq_putc_def putc_wait_def)

lemma getc_after_wait_iinv:
  assumes "iinv s" "at s t = Get_woken"
  shows "\<exists>s'. getc_after_wait t s = Some s' \<and> iinv s'"
proof -
  let ?s = "s\<lparr>iq := (iq s)\<lparr>lock := None\<rparr>\<rparr>"
  have "iinv (?s\<lparr>at := (at ?s)(t := Outside)\<rparr>)" using woken_iinv [OF assms(1)] assms(2) by simp
  then show ?thesis
    using intq_getc_iinv [of "?s\<lparr>at := (at ?s)(t := Outside)\<rparr>" t] intq_getc_at [of t ?s Outside]
    by (simp add: getc_after_wait_def waiting_def)
qed

lemma putc_after_wait_iinv:
  assumes "iinv s" "at s t = Put_woken b"
  shows "\<exists>s'. putc_after_wait t b s = Some s' \<and> iinv s'"
proof -
  let ?s = "s\<lparr>iq := (iq s)\<lparr>lock := None\<rparr>\<rparr>"
  have "iinv (?s\<lparr>at := (at ?s)(t := Outside)\<rparr>)" using woken_iinv [OF assms(1)] assms(2) by simp
  then show ?thesis
    using intq_putc_iinv [of "?s\<lparr>at := (at ?s)(t := Outside)\<rparr>" t b] intq_putc_at [of t b ?s Outside]
    by (simp add: putc_after_wait_def waiting_def)
qed

text \<open>A piece of code either keeps the invariant, or it is the wait of a thread that was blocked on the lock
  and finds its condition gone.\<close>

lemma proceed_iinv:
  assumes "iinv s" "proceed a s = Some r"
  shows "(\<exists>s'. r = Some s' \<and> iinv s') \<or>
    r = None \<and> (\<exists>t. a = Thread_getc t \<and> at s t = Get_lock \<and> \<not> intq_empty (iq s) \<or>
       (\<exists>b c. a = Thread_putc t b \<and> at s t = Put_lock c \<and> \<not> intq_full (iq s)))"
proof (cases a)
  case (Thread_getc t)
  show ?thesis
  proof (cases "at s t")
    case Outside
    then show ?thesis using assms(2) Thread_getc intq_getc_iinv [OF assms(1), of t] by (auto simp: proceed_def waiting_def)
  next
    case Get_lock
    then have l: "lock (iq s) = None" "r = getc_wait t s" using assms(2) Thread_getc by (auto simp: proceed_def split: if_splits)
    then show ?thesis using getc_wait_iinv [OF assms(1) l(1), of t] Thread_getc Get_lock
      by (cases "intq_empty (iq s)") (auto simp: getc_wait_def wait_not_empty_def)
  next
    case Get_woken
    then show ?thesis using assms(2) Thread_getc getc_after_wait_iinv [OF assms(1), of t] by (auto simp: proceed_def)
  qed (use assms(2) Thread_getc in \<open>auto simp: proceed_def\<close>)
next
  case (Thread_putc t b)
  show ?thesis
  proof (cases "at s t")
    case Outside
    then show ?thesis using assms(2) Thread_putc intq_putc_iinv [OF assms(1), of t b] by (auto simp: proceed_def waiting_def)
  next
    case (Put_lock c)
    then have l: "lock (iq s) = None" "r = putc_wait t c s" using assms(2) Thread_putc by (auto simp: proceed_def split: if_splits)
    then show ?thesis using putc_wait_iinv [OF assms(1) l(1), of t c] Thread_putc Put_lock
      by (cases "intq_full (iq s)") (auto simp: putc_wait_def wait_not_full_def)
  next
    case (Put_woken c)
    then show ?thesis using assms(2) Thread_putc putc_after_wait_iinv [OF assms(1), of t c] by (auto simp: proceed_def)
  qed (use assms(2) Thread_putc in \<open>auto simp: proceed_def\<close>)
next
  case (Intr_putc b)
  then show ?thesis using assms(2) putc_finish_iinv [OF assms(1), of b] by (auto simp: proceed_def intr_putc_def split: if_splits)
next
  case Intr_getc
  then show ?thesis using assms(2) getc_finish_iinv [OF assms(1)] by (auto simp: proceed_def intr_getc_def split: if_splits)
qed

lemma start_iinv: "length (buf q) = INTQ_BUFSIZE \<Longrightarrow> iinv (start q)"
  by (auto simp: iinv_def start_def intq_init_def intq_ok_def queued_def used_def INTQ_BUFSIZE_def waiting_def)

lemma isteps_iinv: "istep\<^sup>*\<^sup>* s s' \<Longrightarrow> iinv s \<Longrightarrow> iinv s'"
  by (induction rule: rtranclp_induct) (auto elim!: istep.cases dest: proceed_iinv)

lemma used_max: "used q \<le> INTQ_BUFSIZE - 1"
  by (simp add: used_def INTQ_BUFSIZE_def less_Suc_eq_le [symmetric])

lemma proceed_panics:
  assumes "iinv s"
  shows "proceed a s = Some None \<longleftrightarrow> lock (iq s) = None \<and>
    (\<exists>t. a = Thread_getc t \<and> at s t = Get_lock \<and> queued (iq s) \<noteq> [] \<or>
       (\<exists>b c. a = Thread_putc t b \<and> at s t = Put_lock c \<and> length (queued (iq s)) < INTQ_BUFSIZE - 1))" (is "_ \<longleftrightarrow> ?R")
proof
  note q = intq_empty_iff [OF iinvD(1) [OF assms]] intq_full_iff [OF iinvD(1) [OF assms]]
  {
    assume p: "proceed a s = Some None"
    then have "\<exists>t. a = Thread_getc t \<and> at s t = Get_lock \<and> queued (iq s) \<noteq> [] \<or>
         (\<exists>b c. a = Thread_putc t b \<and> at s t = Put_lock c \<and> length (queued (iq s)) < INTQ_BUFSIZE - 1)"
      using proceed_iinv [OF assms, of a None] q used_max [of "iq s"] by (force simp: queued_def)
    then show ?R using p by (auto simp: proceed_def split: if_splits)
  }
  assume ?R
  then show "proceed a s = Some None" using q by (auto simp: proceed_def getc_wait_def putc_wait_def wait_not_empty_def wait_not_full_def
      intq_empty_def intq_full_def)
qed

section \<open>Properties\<close>

text \<open>C31: An interrupt queue is a first-in, first-out queue, for any number of readers and writers in threads and
  interrupt handlers: the bytes put so far are the bytes got so far followed by the at most 63 bytes in
  the buffer, and no thread sleeps for a byte while there is one, or for room while there is room.\<close>
theorem intq_fifo:
  assumes "length (buf q) = INTQ_BUFSIZE" "istep\<^sup>*\<^sup>* (start q) s"
  shows "bytes_put s = bytes_got s @ queued (iq s) \<and> length (queued (iq s)) < INTQ_BUFSIZE \<and>
     (at s t = Get_wait \<longrightarrow> queued (iq s) = []) \<and> (at s t = Put_wait b \<longrightarrow> length (queued (iq s)) = INTQ_BUFSIZE - 1)"
proof -
  have i: "iinv s" using isteps_iinv [OF assms(2)] start_iinv [OF assms(1)] by blast
  have "length (queued (iq s)) < INTQ_BUFSIZE" by (simp add: queued_def used_def INTQ_BUFSIZE_def)
  then show ?thesis
    using iinvD(1,2,4-7) [OF i] intq_empty_iff [OF iinvD(1) [OF i]] intq_full_iff [OF iinvD(1) [OF i]] by fastforce
qed

text \<open>The queue of the examples, and a run in which two threads wait for input.\<close>

definition demo_queue :: intq where
  "demo_queue = \<lparr>lock = None, not_full = None, not_empty = None, buf = replicate 64 0, head = 0, tail = 0\<rparr>"

fun run_acts :: "act list \<Rightarrow> isys \<Rightarrow> isys option" where
  "run_acts [] s = Some s"
| "run_acts (a # as) s = (case proceed a s of Some (Some s') \<Rightarrow> run_acts as s' | _ \<Rightarrow> None)"

lemma run_acts_isteps: "run_acts as s = Some s' \<Longrightarrow> istep\<^sup>*\<^sup>* s s'"
  by (induction as arbitrary: s) (auto split: option.splits intro: converse_rtranclp_into_rtranclp istep.istep)

lemmas act_defs = proceed_def intq_getc_def getc_wait_def wait_not_empty_def getc_finish_def take_byte_def signal_not_full_def
  signal_not_empty_def putc_finish_def add_byte_def intr_putc_def getc_after_wait_def intq_empty_def intq_full_def next_pos_def
  INTQ_BUFSIZE_def start_def intq_init_def demo_queue_def

theorem intq_fifo_witness:
  "\<exists>s. istep\<^sup>*\<^sup>* (start demo_queue) s \<and> bytes_put s = [65, 66] \<and> bytes_put s = bytes_got s @ queued (iq s)"
proof -
  obtain s where s: "run_acts [Thread_getc 1, Intr_putc 65, Intr_putc 66, Thread_getc 1] (start demo_queue) = Some s"
      "bytes_put s = [65, 66]"
    by (simp add: act_defs)
  have "length (buf demo_queue) = INTQ_BUFSIZE" by (simp add: demo_queue_def INTQ_BUFSIZE_def)
  then show ?thesis using intq_fifo [OF _ run_acts_isteps [OF s(1)]] run_acts_isteps [OF s(1)] s(2) by blast
qed

text \<open>C39: the assertion in \<^verbatim>\<open>wait\<close> fails for a thread exactly when the thread was blocked on the queue's lock, the lock is free
  again, and the condition that the thread wants to wait for is gone: a reader finds a byte in the queue, or a writer finds room.
  And this can happen: with two threads in \<^verbatim>\<open>intq_getc\<close> and two bytes that arrive before the first of them runs
  again, the second one panics.\<close>
theorem intq_second_waiter_panics:
  assumes "length (buf q) = INTQ_BUFSIZE"
  shows "(\<exists>s t. istep\<^sup>*\<^sup>* (start q) s \<and> at s t = Get_lock \<and> proceed (Thread_getc t) s = Some None) \<and>
    (istep\<^sup>*\<^sup>* (start q) s \<longrightarrow>
      (proceed a s = Some None \<longleftrightarrow> lock (iq s) = None \<and>
        (\<exists>t. a = Thread_getc t \<and> at s t = Get_lock \<and> queued (iq s) \<noteq> [] \<or>
           (\<exists>b c. a = Thread_putc t b \<and> at s t = Put_lock c \<and> length (queued (iq s)) < INTQ_BUFSIZE - 1))))"
proof -
  obtain s' where s': "run_acts [Thread_getc 1, Thread_getc 2, Intr_putc 65, Intr_putc 66, Thread_getc 1] (start q) = Some s'"
      "at s' 2 = Get_lock" "proceed (Thread_getc 2) s' = Some None"
    using assms by (simp add: act_defs)
  have "proceed a s = Some None \<longleftrightarrow> lock (iq s) = None \<and>
        (\<exists>t. a = Thread_getc t \<and> at s t = Get_lock \<and> queued (iq s) \<noteq> [] \<or>
           (\<exists>b c. a = Thread_putc t b \<and> at s t = Put_lock c \<and> length (queued (iq s)) < INTQ_BUFSIZE - 1))"
    if "istep\<^sup>*\<^sup>* (start q) s"
    using proceed_panics [of s a] isteps_iinv [OF that] start_iinv [OF assms] by blast
  then show ?thesis using run_acts_isteps [OF s'(1)] s'(2,3) by blast
qed

theorem intq_second_waiter_panics_witness:
  "\<exists>s t. istep\<^sup>*\<^sup>* (start demo_queue) s \<and> at s t = Get_lock \<and> proceed (Thread_getc t) s = Some None"
  using intq_second_waiter_panics [of demo_queue] by (simp add: demo_queue_def INTQ_BUFSIZE_def)

end
