(* ===== verification/Vaddr.thy ===== *)
theory Vaddr
  imports Prelude
begin

text \<open>
  Virtual addresses and page table entries: \<^verbatim>\<open>threads/vaddr.h\<close> and \<^verbatim>\<open>threads/pte.h\<close>. An address is a 32-bit
  word, and the arithmetic on it wraps around as it does in the code.
\<close>

section \<open>Addresses\<close>

definition PGBITS :: nat where
  "PGBITS = 12"

definition BITMASK :: "nat \<Rightarrow> nat \<Rightarrow> u32" where
  "BITMASK s n = push_bit s (push_bit n 1 - 1)"

definition PGSIZE :: u32 where
  "PGSIZE = push_bit PGBITS 1"

definition PGMASK :: u32 where
  "PGMASK = BITMASK 0 PGBITS"

definition pg_ofs :: "u32 \<Rightarrow> u32" where
  "pg_ofs va = va AND PGMASK"

definition pg_no :: "u32 \<Rightarrow> u32" where
  "pg_no va = drop_bit PGBITS va"

definition pg_round_up :: "u32 \<Rightarrow> u32" where
  "pg_round_up va = (va + PGSIZE - 1) AND NOT PGMASK"

definition pg_round_down :: "u32 \<Rightarrow> u32" where
  "pg_round_down va = va AND NOT PGMASK"

definition PHYS_BASE :: u32 where
  "PHYS_BASE = 0xc0000000"

definition is_user_vaddr :: "u32 \<Rightarrow> bool" where
  "is_user_vaddr va = (va < PHYS_BASE)"

definition is_kernel_vaddr :: "u32 \<Rightarrow> bool" where
  "is_kernel_vaddr va = (va \<ge> PHYS_BASE)"

definition ptov :: "u32 \<Rightarrow> u32 option" where
  "ptov paddr = do { ASSERT (paddr < PHYS_BASE); Some (paddr + PHYS_BASE) }"

definition vtop :: "u32 \<Rightarrow> u32 option" where
  "vtop va = do { ASSERT (is_kernel_vaddr va); Some (va - PHYS_BASE) }"

section \<open>Page table entries\<close>

definition PTBITS :: nat where
  "PTBITS = 10"

definition PTMASK :: u32 where
  "PTMASK = BITMASK PGBITS PTBITS"

definition PDSHIFT :: nat where
  "PDSHIFT = PGBITS + PTBITS"

definition pt_no :: "u32 \<Rightarrow> u32" where
  "pt_no va = drop_bit PGBITS (va AND PTMASK)"

definition pd_no :: "u32 \<Rightarrow> u32" where
  "pd_no va = drop_bit PDSHIFT va"

definition PTE_ADDR :: u32 where
  "PTE_ADDR = 0xfffff000"

definition PTE_P :: u32 where
  "PTE_P = 0x1"

definition PTE_W :: u32 where
  "PTE_W = 0x2"

definition PTE_U :: u32 where
  "PTE_U = 0x4"

definition PTE_A :: u32 where
  "PTE_A = 0x20"

definition PTE_D :: u32 where
  "PTE_D = 0x40"

definition pde_create :: "u32 \<Rightarrow> u32 option" where
  "pde_create pt = do { ASSERT (pg_ofs pt = 0); p \<leftarrow> vtop pt; Some (((p OR PTE_U) OR PTE_P) OR PTE_W) }"

definition pde_get_pt :: "u32 \<Rightarrow> u32 option" where
  "pde_get_pt pde = do { ASSERT (pde AND PTE_P \<noteq> 0); ptov (pde AND PTE_ADDR) }"

definition pte_create_kernel :: "u32 \<Rightarrow> bool \<Rightarrow> u32 option" where
  "pte_create_kernel page writable = do {
     ASSERT (pg_ofs page = 0);
     p \<leftarrow> vtop page;
     Some ((p OR PTE_P) OR (if writable then PTE_W else 0))
   }"

definition pte_create_user :: "u32 \<Rightarrow> bool \<Rightarrow> u32 option" where
  "pte_create_user page writable = do { e \<leftarrow> pte_create_kernel page writable; Some (e OR PTE_U) }"

definition pte_get_page :: "u32 \<Rightarrow> u32 option" where
  "pte_get_page pte = ptov (pte AND PTE_ADDR)"

section \<open>Lemmas\<close>

lemma PGMASK_eq: "PGMASK = mask 12"
  by (simp add: PGMASK_def BITMASK_def PGBITS_def mask_eq_decr_exp)

lemma PTE_ADDR_eq: "PTE_ADDR = NOT (mask 12)"
  by (simp add: PTE_ADDR_def mask_eq_decr_exp)

lemma PGSIZE_eq: "PGSIZE = 4096"
  by (simp add: PGSIZE_def PGBITS_def)

lemma unat_pg_ofs: "unat (pg_ofs va) = unat va mod 4096"
proof -
  have "pg_ofs va = take_bit 12 va" by (simp add: pg_ofs_def PGMASK_eq take_bit_eq_mask)
  then show ?thesis by (simp only: unsigned_take_bit_eq) (simp add: take_bit_eq_mod)
qed

lemma unat_pg_no: "unat (pg_no va) = unat va div 4096"
  unfolding pg_no_def PGBITS_def by (subst unat_drop_bit_eq) (simp add: drop_bit_eq_div)

lemma round_down_split: "va = pg_round_down va OR pg_ofs va" "pg_round_down va AND pg_ofs va = 0"
  by (rule bit_word_eqI; auto simp: pg_round_down_def pg_ofs_def PGMASK_eq bit_simps)+

lemma round_down_add: "va = pg_round_down va + pg_ofs va"
  using round_down_split disjunctive_add [of "pg_round_down va" "pg_ofs va"] by (metis bit_0_eq bit_and_iff bot_apply bot_bool_def)

lemma unat_round_down: "unat (pg_round_down va) = unat va div 4096 * 4096"
proof -
  have "pg_round_down va = push_bit 12 (drop_bit 12 va)"
    by (rule bit_word_eqI) (auto simp: pg_round_down_def PGMASK_eq bit_simps)
  then have "unat (pg_round_down va) = unat va div 4096 * 4096 mod 2 ^ 32"
    by (simp only: unsigned_push_bit_eq unat_drop_bit_eq) (simp add: take_bit_eq_mod push_bit_eq_mult drop_bit_eq_div)
  moreover have "unat va div 4096 * 4096 < 2 ^ 32"
    using unsigned_less [where ?'a = nat, of va] by (simp add: le_less_trans [OF div_times_less_eq_dividend])
  ultimately show ?thesis by simp
qed

lemma unat_pd_no: "unat (pd_no va) = unat va div 2 ^ 22"
  unfolding pd_no_def PDSHIFT_def PGBITS_def PTBITS_def by (subst unat_drop_bit_eq) (simp add: drop_bit_eq_div)

lemma PTMASK_eq: "PTMASK = push_bit 12 (mask 10)"
  by (simp add: PTMASK_def BITMASK_def PGBITS_def PTBITS_def mask_eq_decr_exp)

lemma pt_no_eq: "pt_no va = take_bit 10 (drop_bit 12 va)"
  by (rule bit_word_eqI) (auto simp: pt_no_def PTMASK_eq PGBITS_def bit_simps)

lemma unat_pt_no: "unat (pt_no va) = unat va div 4096 mod 1024"
  unfolding pt_no_eq by (simp only: unsigned_take_bit_eq unat_drop_bit_eq) (simp add: take_bit_eq_mod drop_bit_eq_div)

text \<open>The page number is the page directory index and the page table index.\<close>

lemma pg_no_split: "pg_no a = pg_no b \<longleftrightarrow> pd_no a = pd_no b \<and> pt_no a = pt_no b"
proof -
  have "x div 4096 = y div 4096 \<longleftrightarrow> x div 2 ^ 22 = y div 2 ^ 22 \<and> x div 4096 mod 1024 = y div 4096 mod 1024" for x y :: nat
  proof -
    have "z div 2 ^ 22 = z div 4096 div 1024" for z :: nat by (simp add: div_mult2_eq [symmetric])
    then show ?thesis by (metis div_mult_mod_eq)
  qed
  then show ?thesis
    by (simp only: word_unat_eq_iff unat_pg_no unat_pd_no unat_pt_no)
qed

lemma user_pd_no: "is_user_vaddr va \<longleftrightarrow> unat (pd_no va) < 768"
  unfolding unat_pd_no by (simp add: is_user_vaddr_def PHYS_BASE_def word_less_nat_alt div_less_iff_less_mult)

lemma vtop_eq: "is_kernel_vaddr va \<Longrightarrow> vtop va = Some (va - PHYS_BASE)"
  by (simp add: vtop_def)

lemma unat_vtop: "is_kernel_vaddr va \<Longrightarrow> unat (va - PHYS_BASE) = unat va - 0xc0000000"
  by (subst unat_sub) (auto simp: is_kernel_vaddr_def PHYS_BASE_def)

lemma vtop_ptov:
  assumes "vtop va = Some p" shows "ptov p = Some va"
proof -
  have k: "is_kernel_vaddr va" "p = va - PHYS_BASE" using assms by (auto simp: vtop_def bind_eq_Some_conv)
  have "unat p < 0x40000000" using unat_vtop [OF k(1)] unsigned_less [where ?'a = nat, of va] k(2) by simp
  then have "p < PHYS_BASE" by (simp add: word_less_nat_alt PHYS_BASE_def)
  then show ?thesis using k(2) by (simp add: ptov_def)
qed

lemma pg_ofs_zero: "pg_ofs va = 0 \<longleftrightarrow> va AND PTE_ADDR = va"
proof -
  have l: "n < 12 \<Longrightarrow> n < 32" for n :: nat by simp
  have "pg_ofs va = 0 \<longleftrightarrow> (\<forall>n<12. \<not> bit va n)"
    unfolding pg_ofs_def PGMASK_eq bit_eq_iff by (simp add: bit_simps) (use l in blast)
  moreover have "va AND PTE_ADDR = va \<longleftrightarrow> (\<forall>n<12. \<not> bit va n)"
    unfolding PTE_ADDR_eq bit_eq_iff by (simp add: bit_simps) (use l in blast)
  ultimately show ?thesis by simp
qed

lemma vtop_aligned:
  assumes "is_kernel_vaddr va" "pg_ofs va = 0" shows "pg_ofs (va - PHYS_BASE) = 0"
proof -
  have "unat (pg_ofs (va - PHYS_BASE)) = (unat va - 0xc0000000) mod 4096" by (simp add: unat_pg_ofs unat_vtop [OF assms(1)])
  moreover have "unat va mod 4096 = 0" using assms(2) unat_pg_ofs [of va] by simp
  moreover have "(0xc0000000 :: nat) mod 4096 = 0" by simp
  ultimately have "unat (pg_ofs (va - PHYS_BASE)) = 0" by (metis dvd_diff_nat mod_0_imp_dvd dvd_imp_mod_0)
  then show ?thesis by (simp add: unsigned_eq_0_iff)
qed

lemma flags_addr: "pg_ofs p = 0 \<Longrightarrow> f AND PTE_ADDR = 0 \<Longrightarrow> (p OR f) AND PTE_ADDR = p"
  by (simp add: pg_ofs_zero bit.conj_disj_distrib2)

lemma pde_create_get:
  assumes "pde_create pt = Some e"
  shows "pde_get_pt e = Some pt" "e \<noteq> 0" "pg_ofs pt = 0"
proof -
  obtain p where p: "pg_ofs pt = 0" "vtop pt = Some p" "e = p OR (PTE_U OR PTE_P OR PTE_W)"
    using assms by (auto simp: pde_create_def bind_eq_Some_conv or.assoc)
  have "pg_ofs p = 0" using p(1,2) vtop_aligned by (auto simp: vtop_def bind_eq_Some_conv)
  then have "e AND PTE_ADDR = p" unfolding p(3) by (rule flags_addr) (simp add: PTE_U_def PTE_P_def PTE_W_def PTE_ADDR_def)
  moreover have b: "bit e 0" by (simp add: p(3) bit_or_iff PTE_U_def PTE_P_def PTE_W_def)
  then have "e AND PTE_P \<noteq> 0" by (metis PTE_P_def and_one_eq bit_0 odd_iff_mod_2_eq_one one_neq_zero)
  ultimately show "pde_get_pt e = Some pt" using vtop_ptov [OF p(2)] by (simp add: pde_get_pt_def)
  show "e \<noteq> 0" using b by auto
  show "pg_ofs pt = 0" by (rule p(1))
qed

lemma pte_create_get:
  assumes "pte_create_user page w = Some e"
  shows "pte_get_page e = Some page" "e AND PTE_P \<noteq> 0" "pg_ofs page = 0" "e AND PTE_W \<noteq> 0 \<longleftrightarrow> w"
proof -
  obtain p where p: "pg_ofs page = 0" "vtop page = Some p" "e = p OR ((PTE_P OR (if w then PTE_W else 0)) OR PTE_U)"
    using assms by (auto simp: pte_create_user_def pte_create_kernel_def bind_eq_Some_conv or.assoc)
  have al: "pg_ofs p = 0" using p(1,2) vtop_aligned by (auto simp: vtop_def bind_eq_Some_conv)
  then have "e AND PTE_ADDR = p" unfolding p(3) by (rule flags_addr) (simp add: PTE_U_def PTE_P_def PTE_W_def PTE_ADDR_def)
  then show "pte_get_page e = Some page" using vtop_ptov [OF p(2)] by (simp add: pte_get_page_def)
  have b: "bit e 0" by (simp add: p(3) bit_or_iff PTE_U_def PTE_P_def PTE_W_def)
  then show "e AND PTE_P \<noteq> 0" by (metis PTE_P_def and_one_eq bit_0 odd_iff_mod_2_eq_one one_neq_zero)
  show "pg_ofs page = 0" by (rule p(1))
  have "\<not> bit (p AND mask 12) 1" using al by (simp add: pg_ofs_def PGMASK_eq)
  then have "\<not> bit p 1" by (simp add: bit_and_iff bit_mask_iff)
  then have "bit e 1 \<longleftrightarrow> w" by (simp add: p(3) bit_or_iff PTE_P_def PTE_W_def PTE_U_def bit_numeral_rec bit_1_iff)
  then show "e AND PTE_W \<noteq> 0 \<longleftrightarrow> w" using and_exp_eq_0_iff_not_bit [of e 1] by (simp add: PTE_W_def)
qed

end
