(* ===== verification/Page_Dir.thy ===== *)
theory Page_Dir
  imports Vaddr
begin

text \<open>
  Page directories: \<^verbatim>\<open>userprog/pagedir.c\<close> over the two-level page tables of the processor. The directory and
  its tables are pages of 32-bit entries in the kernel's memory. The page that \<^verbatim>\<open>palloc_get_page\<close> returns
  is an argument of the operations that may call it; the pages that \<^verbatim>\<open>pagedir_destroy\<close> frees are its
  result.

  A well-formed directory represents a map from user pages to frames, and the operations are shown to
  update exactly the page they are called for.
\<close>

section \<open>The code\<close>

record pmem =
  words :: "u32 \<Rightarrow> u32" \<comment> \<open>the 32-bit words of memory, by kernel virtual address\<close>
  init_page_dir :: u32
  init_ram_pages :: u32
  cr3 :: u32
  tlb :: "u32 \<Rightarrow> u32 option" \<comment> \<open>cached page table entries, by page number\<close>

definition set_word :: "u32 \<Rightarrow> u32 \<Rightarrow> pmem \<Rightarrow> pmem" where
  "set_word a v m = m\<lparr>words := (words m)(a := v)\<rparr>"

definition zero_page :: "u32 \<Rightarrow> pmem \<Rightarrow> pmem" where
  "zero_page p m = m\<lparr>words := (\<lambda>a. if pg_no a = pg_no p then 0 else words m a)\<rparr>"

definition copy_page :: "u32 \<Rightarrow> u32 \<Rightarrow> pmem \<Rightarrow> pmem" where
  "copy_page dst src m = m\<lparr>words := (\<lambda>a. if pg_no a = pg_no dst then words m (src + (a - dst)) else words m a)\<rparr>"

definition entry :: "u32 \<Rightarrow> u32 \<Rightarrow> u32" where
  "entry t i = t + 4 * i"

definition pagedir_create :: "u32 option \<Rightarrow> pmem \<Rightarrow> u32 option \<times> pmem" where
  "pagedir_create page m = (case page of None \<Rightarrow> (None, m) | Some pd \<Rightarrow> (Some pd, copy_page pd (init_page_dir m) m))"

definition lookup_page :: "u32 option \<Rightarrow> u32 \<Rightarrow> u32 \<Rightarrow> bool \<Rightarrow> pmem \<Rightarrow> (u32 option \<times> pmem) option" where
  "lookup_page page pd va create m = do {
     ASSERT (pd \<noteq> 0);
     ASSERT (\<not> create \<or> is_user_vaddr va);
     let pde = entry pd (pd_no va);
     if words m pde = 0 then
       (if create then
          (case page of None \<Rightarrow> Some (None, m)
           | Some pt \<Rightarrow> do {
               let m = zero_page pt m;
               e \<leftarrow> pde_create pt;
               let m = set_word pde e m;
               pt \<leftarrow> pde_get_pt (words m pde);
               Some (Some (entry pt (pt_no va)), m)
             })
        else Some (None, m))
     else do {
       pt \<leftarrow> pde_get_pt (words m pde);
       Some (Some (entry pt (pt_no va)), m)
     }
   }"

definition pagedir_activate :: "u32 option \<Rightarrow> pmem \<Rightarrow> pmem option" where
  "pagedir_activate pd m = do {
     p \<leftarrow> vtop (case pd of None \<Rightarrow> init_page_dir m | Some pd \<Rightarrow> pd);
     Some (m\<lparr>cr3 := p, tlb := Map.empty\<rparr>)
   }"

definition active_pd :: "pmem \<Rightarrow> u32 option" where
  "active_pd m = ptov (cr3 m)"

definition invalidate_pagedir :: "u32 \<Rightarrow> pmem \<Rightarrow> pmem option" where
  "invalidate_pagedir pd m = do { a \<leftarrow> active_pd m; if a = pd then pagedir_activate (Some pd) m else Some m }"

definition pagedir_set_page :: "u32 option \<Rightarrow> u32 \<Rightarrow> u32 \<Rightarrow> u32 \<Rightarrow> bool \<Rightarrow> pmem \<Rightarrow> (bool \<times> pmem) option" where
  "pagedir_set_page page pd upage kpage writable m = do {
     ASSERT (pg_ofs upage = 0);
     ASSERT (pg_ofs kpage = 0);
     ASSERT (is_user_vaddr upage);
     p \<leftarrow> vtop kpage;
     ASSERT (drop_bit PGBITS p < init_ram_pages m);
     ASSERT (pd \<noteq> init_page_dir m);
     (pte, m) \<leftarrow> lookup_page page pd upage True m;
     case pte of None \<Rightarrow> Some (False, m)
     | Some pte \<Rightarrow> do {
         ASSERT (words m pte AND PTE_P = 0);
         e \<leftarrow> pte_create_user kpage writable;
         Some (True, set_word pte e m)
       }
   }"

definition pagedir_get_page :: "u32 \<Rightarrow> u32 \<Rightarrow> pmem \<Rightarrow> u32 option option" where
  "pagedir_get_page pd uaddr m = do {
     ASSERT (is_user_vaddr uaddr);
     (pte, m) \<leftarrow> lookup_page None pd uaddr False m;
     case pte of None \<Rightarrow> Some None
     | Some pte \<Rightarrow> (if words m pte AND PTE_P \<noteq> 0
         then do { p \<leftarrow> pte_get_page (words m pte); Some (Some (p + pg_ofs uaddr)) }
         else Some None)
   }"

definition pagedir_clear_page :: "u32 \<Rightarrow> u32 \<Rightarrow> pmem \<Rightarrow> pmem option" where
  "pagedir_clear_page pd upage m = do {
     ASSERT (pg_ofs upage = 0);
     ASSERT (is_user_vaddr upage);
     (pte, m) \<leftarrow> lookup_page None pd upage False m;
     case pte of None \<Rightarrow> Some m
     | Some pte \<Rightarrow> (if words m pte AND PTE_P \<noteq> 0
         then invalidate_pagedir pd (set_word pte (words m pte AND NOT PTE_P) m)
         else Some m)
   }"

definition pagedir_test :: "u32 \<Rightarrow> u32 \<Rightarrow> u32 \<Rightarrow> pmem \<Rightarrow> bool option" where
  "pagedir_test bits pd vpage m = do {
     (pte, m) \<leftarrow> lookup_page None pd vpage False m;
     Some (case pte of None \<Rightarrow> False | Some pte \<Rightarrow> words m pte AND bits \<noteq> 0)
   }"

definition pagedir_assign :: "u32 \<Rightarrow> u32 \<Rightarrow> u32 \<Rightarrow> bool \<Rightarrow> pmem \<Rightarrow> pmem option" where
  "pagedir_assign bits pd vpage value m = do {
     (pte, m) \<leftarrow> lookup_page None pd vpage False m;
     case pte of None \<Rightarrow> Some m
     | Some pte \<Rightarrow> (if value then Some (set_word pte (words m pte OR bits) m)
         else invalidate_pagedir pd (set_word pte (words m pte AND NOT bits) m))
   }"

definition pagedir_is_dirty :: "u32 \<Rightarrow> u32 \<Rightarrow> pmem \<Rightarrow> bool option" where
  "pagedir_is_dirty = pagedir_test PTE_D"

definition pagedir_set_dirty :: "u32 \<Rightarrow> u32 \<Rightarrow> bool \<Rightarrow> pmem \<Rightarrow> pmem option" where
  "pagedir_set_dirty = pagedir_assign PTE_D"

definition pagedir_is_accessed :: "u32 \<Rightarrow> u32 \<Rightarrow> pmem \<Rightarrow> bool option" where
  "pagedir_is_accessed = pagedir_test PTE_A"

definition pagedir_set_accessed :: "u32 \<Rightarrow> u32 \<Rightarrow> bool \<Rightarrow> pmem \<Rightarrow> pmem option" where
  "pagedir_set_accessed = pagedir_assign PTE_A"

text \<open>The pages that \<^verbatim>\<open>pagedir_destroy\<close> frees, in order.\<close>

fun destroy_table :: "u32 \<Rightarrow> nat list \<Rightarrow> pmem \<Rightarrow> u32 list option" where
  "destroy_table pt [] m = Some []"
| "destroy_table pt (j # js) m = do {
     let e = words m (entry pt (of_nat j));
     ps \<leftarrow> (if e AND PTE_P \<noteq> 0 then do { p \<leftarrow> pte_get_page e; Some [p] } else Some []);
     rest \<leftarrow> destroy_table pt js m;
     Some (ps @ rest)
   }"

fun destroy_dir :: "u32 \<Rightarrow> nat list \<Rightarrow> pmem \<Rightarrow> u32 list option" where
  "destroy_dir pd [] m = Some []"
| "destroy_dir pd (i # is) m = do {
     let e = words m (entry pd (of_nat i));
     ps \<leftarrow> (if e AND PTE_P \<noteq> 0 then do {
              pt \<leftarrow> pde_get_pt e;
              ps \<leftarrow> destroy_table pt [0..<1024] m;
              Some (ps @ [pt]) } else Some []);
     rest \<leftarrow> destroy_dir pd is m;
     Some (ps @ rest)
   }"

definition pagedir_destroy :: "u32 \<Rightarrow> pmem \<Rightarrow> u32 list option" where
  "pagedir_destroy pd m =
    (if pd = 0 then Some []
     else do {
       ASSERT (pd \<noteq> init_page_dir m);
       ps \<leftarrow> destroy_dir pd [0..<unat (pd_no PHYS_BASE)] m;
       Some (ps @ [pd])
     })"

section \<open>Entries do not overlap\<close>

lemma aligned_mult:
  assumes "pg_ofs t = 0" obtains k where "unat t = 4096 * k" "k < 2 ^ 20"
proof -
  have "unat t mod 4096 = 0" using assms unat_pg_ofs [of t] by simp
  then obtain k where k: "unat t = 4096 * k" by auto
  then have "k < 2 ^ 20" using unsigned_less [where ?'a = nat, of t] by simp
  with k show ?thesis by (rule that)
qed

lemma unat_entry:
  assumes "pg_ofs t = 0" "unat i < 1024" shows "unat (entry t i) = unat t + 4 * unat i"
proof -
  obtain k where "unat t = 4096 * k" "k < 2 ^ 20" using aligned_mult [OF assms(1)] .
  then have "unat t + 4 * unat i < 2 ^ 32" using assms(2) by simp
  then show ?thesis using assms(2) by (simp add: entry_def unat_word_ariths)
qed

lemma pg_no_entry: "pg_ofs t = 0 \<Longrightarrow> unat i < 1024 \<Longrightarrow> pg_no (entry t i) = pg_no t"
proof -
  assume a: "pg_ofs t = 0" "unat i < 1024"
  obtain k where "unat t = 4096 * k" using aligned_mult [OF a(1)] .
  then have "(unat t + 4 * unat i) div 4096 = unat t div 4096" using a(2) by simp
  then show ?thesis by (simp add: word_unat_eq_iff unat_pg_no unat_entry [OF a])
qed

lemma aligned_eq: "pg_ofs s = 0 \<Longrightarrow> pg_ofs t = 0 \<Longrightarrow> pg_no s = pg_no t \<longleftrightarrow> s = t"
proof -
  assume a: "pg_ofs s = 0" "pg_ofs t = 0"
  obtain k l where "unat s = 4096 * k" "unat t = 4096 * l" using aligned_mult [OF a(1)] aligned_mult [OF a(2)] by metis
  then show ?thesis by (simp add: word_unat_eq_iff unat_pg_no)
qed

lemma entry_eq:
  assumes "pg_ofs s = 0" "pg_ofs t = 0" "unat i < 1024" "unat j < 1024"
  shows "entry s i = entry t j \<longleftrightarrow> s = t \<and> i = j"
proof
  assume e: "entry s i = entry t j"
  have "s = t" using aligned_eq [OF assms(1,2)] pg_no_entry [OF assms(1,3)] pg_no_entry [OF assms(2,4)] e by simp
  moreover have "unat i = unat j"
    using unat_entry [OF assms(1,3)] unat_entry [OF assms(2,4)] e \<open>s = t\<close> by simp
  ultimately show "s = t \<and> i = j" by (simp add: word_unat_eq_iff)
qed simp

lemma pd_no_less: "unat (pd_no va) < 1024"
  using unsigned_less [where ?'a = nat, of va] by (simp add: unat_pd_no less_mult_imp_div_less)

lemma pt_no_less: "unat (pt_no va) < 1024"
  by (simp add: unat_pt_no)

section \<open>Well-formed directories\<close>

definition table_at :: "u32 \<Rightarrow> (u32 \<Rightarrow> u32) \<Rightarrow> u32 \<Rightarrow> u32 option" where
  "table_at pd w i = (if w (entry pd i) = 0 then None else pde_get_pt (w (entry pd i)))"

text \<open>Each entry of the user part is empty or points to a table; no two point to the same one; and a present
  entry of a table has the address of a frame.\<close>

definition pd_ok :: "u32 \<Rightarrow> (u32 \<Rightarrow> u32) \<Rightarrow> bool" where
  "pd_ok pd w \<longleftrightarrow> pg_ofs pd = 0 \<and> pd \<noteq> 0 \<and>
     (\<forall>i. unat i < 768 \<longrightarrow> w (entry pd i) \<noteq> 0 \<longrightarrow> (\<exists>pt. table_at pd w i = Some pt \<and> pg_ofs pt = 0 \<and> pt \<noteq> pd)) \<and>
     (\<forall>i j pt. unat i < 768 \<longrightarrow> unat j < 768 \<longrightarrow> table_at pd w i = Some pt \<longrightarrow> table_at pd w j = Some pt \<longrightarrow> i = j) \<and>
     (\<forall>i j pt. unat i < 768 \<longrightarrow> unat j < 1024 \<longrightarrow> table_at pd w i = Some pt \<longrightarrow> w (entry pt j) AND PTE_P \<noteq> 0 \<longrightarrow>
        pte_get_page (w (entry pt j)) \<noteq> None)"

lemma pd_okD:
  assumes "pd_ok pd w"
  shows "pg_ofs pd = 0" "pd \<noteq> 0"
    "unat i < 768 \<Longrightarrow> w (entry pd i) \<noteq> 0 \<Longrightarrow> \<exists>pt. table_at pd w i = Some pt"
    "unat i < 768 \<Longrightarrow> table_at pd w i = Some pt \<Longrightarrow> pg_ofs pt = 0 \<and> pt \<noteq> pd"
    "unat i < 768 \<Longrightarrow> unat j < 768 \<Longrightarrow> table_at pd w i = Some pt \<Longrightarrow> table_at pd w j = Some pt \<Longrightarrow> i = j"
    "unat i < 768 \<Longrightarrow> unat j < 1024 \<Longrightarrow> table_at pd w i = Some pt \<Longrightarrow> w (entry pt j) AND PTE_P \<noteq> 0 \<Longrightarrow>
       pte_get_page (w (entry pt j)) \<noteq> None"
  using assms unfolding pd_ok_def by (blast, blast, blast, (metis option.inject option.distinct(1) table_at_def)+)

definition pte_of :: "u32 \<Rightarrow> (u32 \<Rightarrow> u32) \<Rightarrow> u32 \<Rightarrow> u32" where
  "pte_of pd w va = (case table_at pd w (pd_no va) of None \<Rightarrow> 0 | Some pt \<Rightarrow> w (entry pt (pt_no va)))"

text \<open>A page for a new table: aligned, in the kernel's part, and not in use by the directory.\<close>

definition fresh_page :: "u32 \<Rightarrow> (u32 \<Rightarrow> u32) \<Rightarrow> u32 \<Rightarrow> bool" where
  "fresh_page pd w pt \<longleftrightarrow> pg_ofs pt = 0 \<and> is_kernel_vaddr pt \<and> pt \<noteq> pd \<and> (\<forall>i. unat i < 768 \<longrightarrow> table_at pd w i \<noteq> Some pt)"

lemma lookup_page_found:
  assumes "pd_ok pd (words m)" "is_user_vaddr va" "table_at pd (words m) (pd_no va) = Some pt"
  shows "lookup_page page pd va c m = Some (Some (entry pt (pt_no va)), m)"
  using assms pd_okD(2) by (auto simp: lookup_page_def table_at_def Let_def split: if_splits)

lemma lookup_page_missing:
  assumes "pd_ok pd (words m)" "is_user_vaddr va" "table_at pd (words m) (pd_no va) = None"
  shows "words m (entry pd (pd_no va)) = 0" "lookup_page page pd va False m = Some (None, m)"
    "lookup_page None pd va c m = Some (None, m)"
proof -
  show "words m (entry pd (pd_no va)) = 0"
    using pd_okD(3) [OF assms(1)] user_pd_no assms(2,3) by (metis option.distinct(1))
  then show "lookup_page page pd va False m = Some (None, m)" "lookup_page None pd va c m = Some (None, m)"
    using pd_okD(2) [OF assms(1)] assms(2) by (simp_all add: lookup_page_def Let_def)
qed

lemma new_table:
  assumes "pd_ok pd (words m)" "is_user_vaddr va" "table_at pd (words m) (pd_no va) = None" "fresh_page pd (words m) pt"
  shows "\<exists>m'. lookup_page (Some pt) pd va True m = Some (Some (entry pt (pt_no va)), m') \<and> pd_ok pd (words m') \<and>
     table_at pd (words m') (pd_no va) = Some pt \<and> words m' (entry pt (pt_no va)) = 0 \<and>
     (\<forall>vb. is_user_vaddr vb \<longrightarrow> pte_of pd (words m') vb = pte_of pd (words m) vb) \<and>
     (\<forall>j. unat j < 768 \<longrightarrow> table_at pd (words m') j = (if j = pd_no va then Some pt else table_at pd (words m) j)) \<and>
     m' = m\<lparr>words := words m'\<rparr>"
proof -
  let ?w = "words m" and ?i = "pd_no va"
  note ok = pd_okD [OF assms(1)]
  have fr: "pg_ofs pt = 0" "is_kernel_vaddr pt" "pt \<noteq> pd" "\<And>i. unat i < 768 \<Longrightarrow> table_at pd ?w i \<noteq> Some pt"
    using assms(4) by (auto simp: fresh_page_def)
  have i: "unat ?i < 768" "unat ?i < 1024" using assms(2) user_pd_no pd_no_less by auto
  obtain e where e: "pde_create pt = Some e" using fr(1,2) by (simp add: pde_create_def vtop_def)
  note eg = pde_create_get [OF e]
  define m' where "m' = set_word (entry pd ?i) e (zero_page pt m)"
  have w': "words m' a = (if a = entry pd ?i then e else if pg_no a = pg_no pt then 0 else ?w a)" for a
    by (simp add: m'_def set_word_def zero_page_def)
  have pdn: "pg_no (entry pd j) \<noteq> pg_no pt" if "unat j < 1024" for j
    using pg_no_entry [OF ok(1) that] aligned_eq [OF ok(1) fr(1)] fr(3) by simp
  have ent: "words m' (entry pd j) = (if j = ?i then e else ?w (entry pd j))" if "unat j < 1024" for j
    using pdn [OF that] entry_eq [OF ok(1,1) that i(2)] by (simp add: w')
  have tab: "table_at pd (words m') j = (if j = ?i then Some pt else table_at pd ?w j)" if "unat j < 768" for j
    using ent [of j] that eg(1,2) by (cases "j = ?i") (simp_all add: table_at_def)
  have inpt: "words m' (entry pt j) = 0" if "unat j < 1024" for j
    using pg_no_entry [OF fr(1) that] pdn [OF i(2)] w' [of "entry pt j"] by (metis (full_types))
  have intab: "words m' (entry q j) = ?w (entry q j)" if q: "table_at pd ?w l = Some q" "unat l < 768" "unat j < 1024" for q l j
  proof -
    have "pg_ofs q = 0" "q \<noteq> pd" "q \<noteq> pt" using ok(4) [OF q(2,1)] fr(4) [OF q(2)] q(1) by auto
    then show ?thesis
      using pg_no_entry [of q j] q(3) aligned_eq [of q pt] fr(1) entry_eq [of q pd j ?i] ok(1) i(2) by (simp add: w')
  qed
  have pdok: "pd_ok pd (words m')"
    unfolding pd_ok_def
  proof (intro conjI allI impI)
    show "pg_ofs pd = 0" "pd \<noteq> 0" using ok(1,2) by auto
    show "\<exists>q. table_at pd (words m') j = Some q \<and> pg_ofs q = 0 \<and> q \<noteq> pd" if "unat j < 768" "words m' (entry pd j) \<noteq> 0" for j
      using that tab [of j] ent [of j] ok(3,4) [of j] fr(1,3) by auto
    show "j = l" if "unat j < 768" "unat l < 768" "table_at pd (words m') j = Some q" "table_at pd (words m') l = Some q" for j l q
      using that tab ok(5) [of j l q] fr(4) [of j] fr(4) [of l] by (auto split: if_splits)
    show "pte_get_page (words m' (entry q l)) \<noteq> None"
      if "unat j < 768" "unat l < 1024" "table_at pd (words m') j = Some q" "words m' (entry q l) AND PTE_P \<noteq> 0" for j l q
      using that tab [of j] inpt [of l] intab [of j q l] ok(6) [of j l q] by (auto split: if_splits)
  qed
  have "pte_of pd (words m') vb = pte_of pd ?w vb" if vb: "is_user_vaddr vb" for vb
    using tab [of "pd_no vb"] vb user_pd_no [of vb] inpt [OF pt_no_less] assms(3) intab [of "pd_no vb" _ "pt_no vb"] pt_no_less
    by (cases "table_at pd ?w (pd_no vb)") (auto simp: pte_of_def)
  moreover have "lookup_page (Some pt) pd va True m = Some (Some (entry pt (pt_no va)), m')"
    using lookup_page_missing(1) [OF assms(1-3)] ok(2) assms(2) e eg(1) by (simp add: lookup_page_def Let_def m'_def set_word_def zero_page_def)
  moreover have "m' = m\<lparr>words := words m'\<rparr>" by (simp add: m'_def set_word_def zero_page_def)
  ultimately show ?thesis using pdok tab i(1) inpt [OF pt_no_less] by auto
qed

lemma set_pte:
  assumes "pd_ok pd w" "is_user_vaddr va" "table_at pd w (pd_no va) = Some pt"
    and "v AND PTE_P \<noteq> 0 \<Longrightarrow> pte_get_page v \<noteq> None"
  defines "w' \<equiv> w(entry pt (pt_no va) := v)"
  shows "pd_ok pd w'" "is_user_vaddr vb \<Longrightarrow> pte_of pd w' vb = (if pg_no vb = pg_no va then v else pte_of pd w vb)"
    "unat j < 768 \<Longrightarrow> table_at pd w' j = table_at pd w j"
proof -
  note ok = pd_okD [OF assms(1)]
  have i: "unat (pd_no va) < 768" using assms(2) user_pd_no by auto
  have pt: "pg_ofs pt = 0" "pt \<noteq> pd" using ok(4) [OF i assms(3)] by auto
  have ent: "w' (entry pd j) = w (entry pd j)" if "unat j < 1024" for j
    using entry_eq [OF ok(1) pt(1) that pt_no_less] pt(2) by (auto simp: w'_def)
  have tab: "table_at pd w' j = table_at pd w j" if "unat j < 768" for j
    using ent [of j] that by (simp add: table_at_def)
  then show "unat j < 768 \<Longrightarrow> table_at pd w' j = table_at pd w j" .
  have intab: "w' (entry q l) = (if q = pt \<and> l = pt_no va then v else w (entry q l))"
    if "table_at pd w j = Some q" "unat j < 768" "unat l < 1024" for q j l
    using entry_eq [OF _ pt(1) that(3) pt_no_less, of q] ok(4) [OF that(2,1)] by (auto simp: w'_def)
  show "pd_ok pd w'"
    unfolding pd_ok_def
  proof (intro conjI allI impI)
    show "pg_ofs pd = 0" "pd \<noteq> 0" using ok(1,2) by auto
    show "\<exists>q. table_at pd w' j = Some q \<and> pg_ofs q = 0 \<and> q \<noteq> pd" if "unat j < 768" "w' (entry pd j) \<noteq> 0" for j
      using that tab [of j] ent [of j] ok(3,4) [of j] by auto
    show "j = l" if "unat j < 768" "unat l < 768" "table_at pd w' j = Some q" "table_at pd w' l = Some q" for j l q
      using that tab ok(5) [of j l q] by auto
    show "pte_get_page (w' (entry q l)) \<noteq> None"
      if "unat j < 768" "unat l < 1024" "table_at pd w' j = Some q" "w' (entry q l) AND PTE_P \<noteq> 0" for j l q
      using that tab [of j] intab [of j q l] ok(6) [of j l q] assms(4) by (auto split: if_splits)
  qed
  show "pte_of pd w' vb = (if pg_no vb = pg_no va then v else pte_of pd w vb)" if vb: "is_user_vaddr vb"
  proof -
    have j: "unat (pd_no vb) < 768" using vb user_pd_no by auto
    show ?thesis
    proof (cases "table_at pd w (pd_no vb)")
      case None
      then show ?thesis using tab [OF j] assms(3) pg_no_split [of vb va] by (auto simp: pte_of_def)
    next
      case (Some q)
      then have "q = pt \<longleftrightarrow> pd_no vb = pd_no va" using ok(5) [OF j i, of pt] assms(3) by auto
      then show ?thesis using Some tab [OF j] intab [OF Some j pt_no_less] pg_no_split [of vb va] by (auto simp: pte_of_def)
    qed
  qed
qed

section \<open>The operations on the represented map\<close>

lemma get_page_eq:
  assumes "pd_ok pd (words m)" "is_user_vaddr va"
  shows "pagedir_get_page pd va m = Some (if pte_of pd (words m) va AND PTE_P = 0 then None
     else map_option (\<lambda>p. p + pg_ofs va) (pte_get_page (pte_of pd (words m) va)))"
    and "pte_of pd (words m) va AND PTE_P \<noteq> 0 \<Longrightarrow> pte_get_page (pte_of pd (words m) va) \<noteq> None"
proof -
  let ?w = "words m"
  have i: "unat (pd_no va) < 768" using assms(2) user_pd_no by auto
  show p: "pte_get_page (pte_of pd ?w va) \<noteq> None" if "pte_of pd ?w va AND PTE_P \<noteq> 0"
    using that pd_okD(6) [OF assms(1) i pt_no_less] by (cases "table_at pd ?w (pd_no va)") (auto simp: pte_of_def)
  show "pagedir_get_page pd va m = Some (if pte_of pd ?w va AND PTE_P = 0 then None
     else map_option (\<lambda>p. p + pg_ofs va) (pte_get_page (pte_of pd ?w va)))"
  proof (cases "table_at pd ?w (pd_no va)")
    case None
    then show ?thesis using lookup_page_missing(2) [OF assms None] assms(2) by (simp add: pagedir_get_page_def pte_of_def)
  next
    case (Some pt)
    then have e: "pte_of pd ?w va = ?w (entry pt (pt_no va))" by (simp add: pte_of_def)
    show ?thesis
    proof (cases "pte_of pd ?w va AND PTE_P = 0")
      case False
      then obtain q where "pte_get_page (pte_of pd ?w va) = Some q" using p by auto
      then show ?thesis using False lookup_page_found [OF assms Some] assms(2) e by (simp add: pagedir_get_page_def)
    qed (use lookup_page_found [OF assms Some] assms(2) e in \<open>simp add: pagedir_get_page_def\<close>)
  qed
qed

lemma invalidate_words:
  assumes "is_kernel_vaddr pd" "cr3 m < PHYS_BASE"
  shows "\<exists>m'. invalidate_pagedir pd m = Some m' \<and> words m' = words m \<and> (active_pd m = Some pd \<longrightarrow> tlb m' = Map.empty)"
  using assms by (auto simp: invalidate_pagedir_def active_pd_def ptov_def pagedir_activate_def vtop_def)

lemma clear_bits: "(e AND NOT b) AND b = 0" "PTE_P AND b = 0 \<Longrightarrow> (e AND NOT b) AND PTE_P = e AND PTE_P"
  "b AND PTE_ADDR = 0 \<Longrightarrow> pte_get_page (e AND NOT b) = pte_get_page e" "b AND PTE_ADDR = 0 \<Longrightarrow> pte_get_page (e OR b) = pte_get_page e"
  "PTE_P AND b = 0 \<Longrightarrow> (e OR b) AND PTE_P = e AND PTE_P"
proof -
  show "(e AND NOT b) AND b = 0" by (rule bit_word_eqI) (auto simp: bit_simps)
  show "(e AND NOT b) AND PTE_P = e AND PTE_P" "(e OR b) AND PTE_P = e AND PTE_P" if "PTE_P AND b = 0"
    using that by (auto simp: bit_eq_iff bit_simps)
  show "pte_get_page (e AND NOT b) = pte_get_page e" "pte_get_page (e OR b) = pte_get_page e" if "b AND PTE_ADDR = 0"
  proof -
    have "(e AND NOT b) AND PTE_ADDR = e AND PTE_ADDR" "(e OR b) AND PTE_ADDR = e AND PTE_ADDR"
      using that by (auto simp: bit_eq_iff bit_simps)
    then show "pte_get_page (e AND NOT b) = pte_get_page e" "pte_get_page (e OR b) = pte_get_page e"
      by (simp_all add: pte_get_page_def)
  qed
qed

lemma set_page_spec:
  assumes "pd_ok pd (words m)" "pg_ofs upage = 0" "is_user_vaddr upage" "pg_ofs kpage = 0" "vtop kpage = Some p"
    and "drop_bit PGBITS p < init_ram_pages m" "pd \<noteq> init_page_dir m" "pte_of pd (words m) upage AND PTE_P = 0"
    and "\<And>pt. page = Some pt \<Longrightarrow> fresh_page pd (words m) pt"
  obtains (mapped) m' e where "pagedir_set_page page pd upage kpage wr m = Some (True, m')" "pd_ok pd (words m')"
      "pte_create_user kpage wr = Some e"
      "\<And>vb. is_user_vaddr vb \<Longrightarrow> pte_of pd (words m') vb = (if pg_no vb = pg_no upage then e else pte_of pd (words m) vb)"
      "m' = m\<lparr>words := words m'\<rparr>"
      "\<And>j. unat j < 768 \<Longrightarrow> table_at pd (words m') j =
         (if j = pd_no upage \<and> table_at pd (words m) j = None then page else table_at pd (words m) j)"
  | (no_memory) "pagedir_set_page page pd upage kpage wr m = Some (False, m)" "page = None" "table_at pd (words m) (pd_no upage) = None"
proof -
  obtain e where e: "pte_create_user kpage wr = Some e"
    using assms(4,5) by (simp add: pte_create_user_def pte_create_kernel_def)
  have eP: "pte_get_page e \<noteq> None" using pte_create_get(1) [OF e] by simp
  have step: thesis
    if l: "lookup_page page pd upage True m = Some (Some (entry pt (pt_no upage)), m1)" "pd_ok pd (words m1)"
      "table_at pd (words m1) (pd_no upage) = Some pt" "words m1 (entry pt (pt_no upage)) AND PTE_P = 0"
      "\<And>vb. is_user_vaddr vb \<Longrightarrow> pte_of pd (words m1) vb = pte_of pd (words m) vb"
      "m1 = m\<lparr>words := words m1\<rparr>"
      "\<And>j. unat j < 768 \<Longrightarrow> table_at pd (words m1) j =
         (if j = pd_no upage \<and> table_at pd (words m) j = None then page else table_at pd (words m) j)" for pt m1
  proof (rule mapped [OF _ _ e])
    let ?m' = "set_word (entry pt (pt_no upage)) e m1"
    show "pagedir_set_page page pd upage kpage wr m = Some (True, ?m')"
      using assms(2-7) l(1,4) e by (simp add: pagedir_set_page_def)
    have w: "words ?m' = (words m1)(entry pt (pt_no upage) := e)" by (simp add: set_word_def)
    show "pd_ok pd (words ?m')" unfolding w by (rule set_pte(1) [OF l(2) assms(3) l(3)]) (use eP in simp)
    show "pte_of pd (words ?m') vb = (if pg_no vb = pg_no upage then e else pte_of pd (words m) vb)" if "is_user_vaddr vb" for vb
      unfolding w using set_pte(2) [OF l(2) assms(3) l(3) _ that, of e] eP l(5) [OF that] by simp
    show "?m' = m\<lparr>words := words ?m'\<rparr>" using arg_cong [OF l(6), of "set_word (entry pt (pt_no upage)) e"] by (simp add: set_word_def)
    show "table_at pd (words ?m') j = (if j = pd_no upage \<and> table_at pd (words m) j = None then page else table_at pd (words m) j)"
      if "unat j < 768" for j
      unfolding w using set_pte(3) [OF l(2) assms(3) l(3) _ that, of e] eP l(7) [OF that] by simp
  qed
  show thesis
  proof (cases "table_at pd (words m) (pd_no upage)")
    case (Some pt)
    then show thesis using assms(1,8) by (intro step [OF lookup_page_found [OF assms(1,3) Some]]) (auto simp: pte_of_def)
  next
    case None
    show thesis
    proof (cases page)
      case n: None
      then show thesis using assms(2-7) lookup_page_missing(3) [OF assms(1,3) None]
        by (intro no_memory) (simp_all add: pagedir_set_page_def None)
    next
      case (Some pt)
      obtain m1 where "lookup_page (Some pt) pd upage True m = Some (Some (entry pt (pt_no upage)), m1)" "pd_ok pd (words m1)"
          "table_at pd (words m1) (pd_no upage) = Some pt" "words m1 (entry pt (pt_no upage)) = 0"
          "\<And>vb. is_user_vaddr vb \<Longrightarrow> pte_of pd (words m1) vb = pte_of pd (words m) vb" "m1 = m\<lparr>words := words m1\<rparr>"
          "\<And>j. unat j < 768 \<Longrightarrow> table_at pd (words m1) j = (if j = pd_no upage then Some pt else table_at pd (words m) j)"
        using new_table [OF assms(1,3) None assms(9) [OF Some]] by blast
      then show thesis using Some None by (intro step [of pt m1]) auto
    qed
  qed
qed

section \<open>Properties\<close>

text \<open>C28: A page directory implements a map from user pages to frames. Adding a mapping for an unmapped page
  fails exactly when the directory has no table for the page and there is no page for a new one, and then changes
  nothing; otherwise it succeeds. It keeps the directory well-formed; and afterwards every user address of that page translates to
  the same offset in its frame, and every other user address translates as before.\<close>
theorem pagedir_set_page_refines:
  assumes "pd_ok pd (words m)" "pg_ofs upage = 0" "is_user_vaddr upage" "pg_ofs kpage = 0" "vtop kpage = Some p"
    and "drop_bit PGBITS p < init_ram_pages m" "pd \<noteq> init_page_dir m" "pagedir_get_page pd upage m = Some None"
    and "\<And>pt. page = Some pt \<Longrightarrow> fresh_page pd (words m) pt" "is_user_vaddr va"
  shows "\<exists>b m'. pagedir_set_page page pd upage kpage wr m = Some (b, m') \<and> pd_ok pd (words m') \<and>
     (\<not> b \<longleftrightarrow> page = None \<and> table_at pd (words m) (pd_no upage) = None) \<and> (b \<or> m' = m) \<and>
     pagedir_get_page pd va m' =
       (if b \<and> pg_no va = pg_no upage then Some (Some (kpage + pg_ofs va)) else pagedir_get_page pd va m)"
proof -
  have np: "pte_of pd (words m) upage AND PTE_P = 0"
    using assms(8) get_page_eq [OF assms(1,3)] by (auto split: if_splits)
  show ?thesis
  proof (rule set_page_spec [OF assms(1-7) np assms(9), of page wr])
    fix m' e
    assume s: "pagedir_set_page page pd upage kpage wr m = Some (True, m')" "pd_ok pd (words m')" "pte_create_user kpage wr = Some e"
      "\<And>vb. is_user_vaddr vb \<Longrightarrow> pte_of pd (words m') vb = (if pg_no vb = pg_no upage then e else pte_of pd (words m) vb)"
      "\<And>j. unat j < 768 \<Longrightarrow> table_at pd (words m') j =
         (if j = pd_no upage \<and> table_at pd (words m) j = None then page else table_at pd (words m) j)"
    have "pte_of pd (words m') upage \<noteq> 0" using s(4) [OF assms(3)] pte_create_get(2) [OF s(3)] by auto
    then have "table_at pd (words m') (pd_no upage) \<noteq> None" by (auto simp: pte_of_def split: option.splits)
    then have "\<not> (page = None \<and> table_at pd (words m) (pd_no upage) = None)"
      using s(5) [of "pd_no upage"] user_pd_no [of upage] assms(3) by auto
    then show ?thesis
      using s(1,2) s(4) [OF assms(10)] get_page_eq(1) [OF s(2) assms(10)] get_page_eq(1) [OF assms(1,10)] pte_create_get [OF s(3)]
      by auto
  next
    assume "pagedir_set_page page pd upage kpage wr m = Some (False, m)" "page = None" "table_at pd (words m) (pd_no upage) = None"
    then show ?thesis using assms(1) by (intro exI [of _ False] exI [of _ m]) simp
  qed auto
qed

text \<open>An empty directory, to which the page at address \<^verbatim>\<open>0x08048000\<close> is added.\<close>

definition demo_mem :: pmem where
  "demo_mem = \<lparr>words = (\<lambda>_. 0), init_page_dir = 0xc0001000, init_ram_pages = 1024, cr3 = 0x100000, tlb = Map.empty\<rparr>"

lemmas addr_defs = pg_ofs_def PGMASK_def BITMASK_def PGBITS_def is_user_vaddr_def PHYS_BASE_def is_kernel_vaddr_def vtop_def

lemma demo_mem_ok: "pd_ok 0xc0100000 (words demo_mem)" "fresh_page 0xc0100000 (words demo_mem) 0xc0300000"
  by (simp_all add: pd_ok_def fresh_page_def table_at_def demo_mem_def addr_defs)

theorem pagedir_set_page_refines_witness:
  "\<exists>m'. pagedir_set_page (Some 0xc0300000) 0xc0100000 0x08048000 0xc0200000 True demo_mem = Some (True, m') \<and>
     pagedir_get_page 0xc0100000 0x08048123 m' = Some (Some 0xc0200123)"
proof -
  have g: "pagedir_get_page 0xc0100000 0x08048000 demo_mem = Some None"
    by (simp add: pagedir_get_page_def lookup_page_def demo_mem_def addr_defs Let_def)
  show ?thesis
    using pagedir_set_page_refines [OF demo_mem_ok(1), of "0x08048000" "0xc0200000" "0x200000" "Some 0xc0300000" "0x08048123" True] g demo_mem_ok(2)
    by (auto simp: demo_mem_def addr_defs pg_no_def)
qed

text \<open>Clearing a user page unmaps exactly that page: afterwards it does not translate, every other user
  page translates as before, the directory stays well-formed, and if the directory is the active one,
  the processor holds no stale translation.\<close>
theorem pagedir_clear_page_unmaps:
  assumes "pd_ok pd (words m)" "pg_ofs upage = 0" "is_user_vaddr upage" "is_kernel_vaddr pd" "cr3 m < PHYS_BASE" "is_user_vaddr va"
  shows "\<exists>m'. pagedir_clear_page pd upage m = Some m' \<and> pd_ok pd (words m') \<and>
     pagedir_get_page pd va m' = (if pg_no va = pg_no upage then Some None else pagedir_get_page pd va m) \<and>
     (pagedir_get_page pd upage m \<noteq> Some None \<longrightarrow> active_pd m = Some pd \<longrightarrow> tlb m' = Map.empty)"
proof (cases "pte_of pd (words m) upage AND PTE_P = 0")
  case True
  have "pagedir_clear_page pd upage m = Some m"
    using True assms(2,3) lookup_page_found [OF assms(1,3)] lookup_page_missing(2) [OF assms(1,3)]
    by (cases "table_at pd (words m) (pd_no upage)") (auto simp: pagedir_clear_page_def pte_of_def)
  moreover have "pte_of pd (words m) va = pte_of pd (words m) upage" if "pg_no va = pg_no upage"
    using that pg_no_split [of va upage] by (auto simp: pte_of_def split: option.split)
  ultimately show ?thesis
    using True assms(1) get_page_eq(1) [OF assms(1,3)] get_page_eq(1) [OF assms(1,6)] by auto
next
  case False
  then obtain pt where pt: "table_at pd (words m) (pd_no upage) = Some pt" by (auto simp: pte_of_def split: option.splits)
  let ?e = "words m (entry pt (pt_no upage))" let ?m1 = "set_word (entry pt (pt_no upage)) (?e AND NOT PTE_P) m"
  have e: "pte_of pd (words m) upage = ?e" using pt by (simp add: pte_of_def)
  obtain m' where m': "invalidate_pagedir pd ?m1 = Some m'" "words m' = words ?m1" "active_pd ?m1 = Some pd \<longrightarrow> tlb m' = Map.empty"
    using invalidate_words [OF assms(4), of ?m1] assms(5) by (auto simp: set_word_def)
  have c: "pagedir_clear_page pd upage m = Some m'"
    using False assms(2,3) lookup_page_found [OF assms(1,3) pt] m'(1) e by (simp add: pagedir_clear_page_def)
  have w: "words m' = (words m)(entry pt (pt_no upage) := ?e AND NOT PTE_P)" using m'(2) by (simp add: set_word_def)
  have z: "(?e AND NOT PTE_P) AND PTE_P = 0" by (rule clear_bits(1))
  have ok: "pd_ok pd (words m')" unfolding w by (rule set_pte(1) [OF assms(1,3) pt]) (use z in simp)
  have "pte_of pd (words m') va = (if pg_no va = pg_no upage then ?e AND NOT PTE_P else pte_of pd (words m) va)"
    unfolding w by (rule set_pte(2) [OF assms(1,3) pt _ assms(6)]) (use z in simp)
  then show ?thesis
    using c ok z get_page_eq(1) [OF ok assms(6)] get_page_eq(1) [OF assms(1,6)] m'(3)
    by (auto simp: active_pd_def set_word_def)
qed

theorem pagedir_clear_page_unmaps_witness:
  "\<exists>m1 m'. pagedir_set_page (Some 0xc0300000) 0xc0100000 0x08048000 0xc0200000 True demo_mem = Some (True, m1) \<and>
     pagedir_clear_page 0xc0100000 0x08048000 m1 = Some m' \<and> pagedir_get_page 0xc0100000 0x08048123 m' = Some None"
proof -
  have z: "pte_of 0xc0100000 (words demo_mem) 0x08048000 AND PTE_P = 0"
    by (simp add: pte_of_def table_at_def demo_mem_def)
  obtain m1 where m1: "pagedir_set_page (Some 0xc0300000) 0xc0100000 0x08048000 0xc0200000 True demo_mem = Some (True, m1)"
      "pd_ok 0xc0100000 (words m1)" "m1 = demo_mem\<lparr>words := words m1\<rparr>"
    by (rule set_page_spec [OF demo_mem_ok(1), of "0x08048000" "0xc0200000" "0x200000" "Some 0xc0300000" True])
      (use z demo_mem_ok(2) in \<open>auto simp: demo_mem_def addr_defs\<close>)
  have "cr3 m1 = 0x100000" using arg_cong [OF m1(3), of cr3] by (simp add: demo_mem_def)
  then show ?thesis
    using pagedir_clear_page_unmaps [OF m1(2), of "0x08048000" "0x08048123"] m1(1) by (auto simp: addr_defs pg_no_def)
qed

text \<open>What a directory refers to: its user tables, and the frames of their present entries.\<close>

definition tables_of :: "u32 \<Rightarrow> pmem \<Rightarrow> u32 list" where
  "tables_of pd m = List.map_filter (\<lambda>i. table_at pd (words m) (of_nat i)) [0..<768]"

definition frames_in :: "u32 \<Rightarrow> pmem \<Rightarrow> u32 list" where
  "frames_in pt m = List.map_filter (\<lambda>j. let e = words m (entry pt (of_nat j)) in
     if e AND PTE_P = 0 then None else pte_get_page e) [0..<1024]"

lemma destroy_table_eq:
  "(\<And>j. j \<in> set js \<Longrightarrow> words m (entry pt (of_nat j)) AND PTE_P \<noteq> 0 \<Longrightarrow> pte_get_page (words m (entry pt (of_nat j))) \<noteq> None) \<Longrightarrow>
    destroy_table pt js m = Some (List.map_filter (\<lambda>j. let e = words m (entry pt (of_nat j)) in
     if e AND PTE_P = 0 then None else pte_get_page e) js)"
proof (induction js)
  case (Cons j js)
  let ?e = "words m (entry pt (of_nat j))"
  show ?case
  proof (cases "?e AND PTE_P = 0")
    case False
    then obtain p where "pte_get_page ?e = Some p" using Cons.prems [of j] by auto
    then show ?thesis using Cons False by (simp add: map_filter_simps Let_def)
  qed (use Cons in \<open>simp add: map_filter_simps Let_def\<close>)
qed (simp add: map_filter_simps)

lemma destroy_dir_eq:
  assumes "pd_ok pd (words m)" "\<And>i. unat i < 768 \<Longrightarrow> words m (entry pd i) \<noteq> 0 \<Longrightarrow> words m (entry pd i) AND PTE_P \<noteq> 0"
  shows "set is \<subseteq> {0..<768} \<Longrightarrow> destroy_dir pd is m =
    Some (concat (map (\<lambda>pt. frames_in pt m @ [pt]) (List.map_filter (\<lambda>i. table_at pd (words m) (of_nat i)) is)))"
proof (induction "is")
  case (Cons i "is")
  have i: "unat (of_nat i :: u32) < 768" using Cons.prems by (simp add: unat_of_nat)
  let ?e = "words m (entry pd (of_nat i))"
  have rest: "destroy_dir pd is m =
    Some (concat (map (\<lambda>pt. frames_in pt m @ [pt]) (List.map_filter (\<lambda>i. table_at pd (words m) (of_nat i)) is)))"
    using Cons by simp
  show ?case
  proof (cases "?e = 0")
    case True
    then show ?thesis using rest by (simp add: table_at_def map_filter_simps)
  next
    case False
    then obtain pt where pt: "table_at pd (words m) (of_nat i) = Some pt" using pd_okD(3) [OF assms(1) i] by blast
    then have g: "pde_get_pt ?e = Some pt" using False by (simp add: table_at_def)
    have "destroy_table pt [0..<1024] m = Some (frames_in pt m)"
      unfolding frames_in_def
      by (rule destroy_table_eq) (use pd_okD(6) [OF assms(1) i _ pt] in \<open>simp add: unat_of_nat\<close>)
    then show ?thesis using rest False assms(2) [OF i False] g pt by (simp add: map_filter_simps)
  qed
qed (simp add: map_filter_simps)

text \<open>Destroying a page directory frees its user tables with the frames they map, and then the directory: for
  each table in order its frames and itself. The tables and the directory are freed once each.\<close>
theorem pagedir_destroy_frees:
  assumes "pd_ok pd (words m)" "pd \<noteq> init_page_dir m"
    and "\<And>i. unat i < 768 \<Longrightarrow> words m (entry pd i) \<noteq> 0 \<Longrightarrow> words m (entry pd i) AND PTE_P \<noteq> 0"
  shows "pagedir_destroy pd m = Some (concat (map (\<lambda>pt. frames_in pt m @ [pt]) (tables_of pd m)) @ [pd]) \<and>
    distinct (pd # tables_of pd m)"
proof -
  have n: "unat (pd_no PHYS_BASE) = 768" by (simp add: unat_pd_no PHYS_BASE_def)
  have t: "i < 768 \<Longrightarrow> unat (of_nat i :: u32) = i" for i :: nat by (simp add: unat_of_nat)
  have "distinct (List.map_filter (\<lambda>i. table_at pd (words m) (of_nat i)) is) \<and>
      (\<forall>pt. pt \<in> set (List.map_filter (\<lambda>i. table_at pd (words m) (of_nat i)) is) \<longleftrightarrow> (\<exists>i\<in>set is. table_at pd (words m) (of_nat i) = Some pt))"
    if "set is \<subseteq> {0..<768}" "distinct is" for "is"
    using that
  proof (induction "is")
    case (Cons i "is")
    have "table_at pd (words m) (of_nat j) \<noteq> Some pt" if "table_at pd (words m) (of_nat i) = Some pt" "j \<in> set is" for j pt
    proof
      assume j: "table_at pd (words m) (of_nat j) = Some pt"
      have b: "i < 768" "j < 768" "i \<noteq> j" using Cons.prems that(2) by auto
      have "(of_nat i :: u32) = of_nat j"
        using pd_okD(5) [OF assms(1)] t [OF b(1)] t [OF b(2)] b that(1) j by metis
      then show False using t [OF b(1)] t [OF b(2)] b(3) by metis
    qed
    then show ?case using Cons by (auto simp: map_filter_simps split: option.splits)
  qed (simp add: map_filter_simps)
  from this [of "[0..<768]"] have d: "distinct (tables_of pd m)"
      "\<And>pt. pt \<in> set (tables_of pd m) \<Longrightarrow> \<exists>i<768. table_at pd (words m) (of_nat i) = Some pt"
    by (auto simp: tables_of_def)
  moreover have "pd \<notin> set (tables_of pd m)"
    using d(2) pd_okD(4) [OF assms(1)] t by metis
  ultimately show ?thesis
    using destroy_dir_eq [OF assms(1,3), of "[0..<768]"] pd_okD(2) [OF assms(1)] assms(2) n
    by (simp add: pagedir_destroy_def tables_of_def)
qed

theorem pagedir_destroy_frees_witness:
  "pagedir_destroy 0xc0100000 demo_mem = Some [0xc0100000]"
proof -
  have "tables_of 0xc0100000 demo_mem = []" by (simp add: tables_of_def table_at_def demo_mem_def map_filter_def)
  then show ?thesis using pagedir_destroy_frees [OF demo_mem_ok(1)] by (simp add: demo_mem_def)
qed

end
