(* ===== verification/Palloc.thy ===== *)
theory Palloc
  imports Bitmap Vaddr "HOL-Library.Signed_Division"
begin

text \<open>
  The page allocator of \<^verbatim>\<open>threads/palloc.c\<close>. The two pools with the bitmaps of their used pages and the bytes
  of memory are the state; a null pointer is the address 0. The functions hold \<^verbatim>\<open>palloc_lock\<close> from
  their first to their last statement, so each of them is one step. The messages of \<^verbatim>\<open>init_pool\<close> are
  dropped.
\<close>

section \<open>Pools\<close>

definition PAL_ASSERT :: u32 where
  "PAL_ASSERT = 1"

definition PAL_ZERO :: u32 where
  "PAL_ZERO = 2"

definition PAL_USER :: u32 where
  "PAL_USER = 4"

record pool =
  used_map :: bitmap
  base :: u32

record pages =
  kernel_pool :: pool
  user_pool :: pool
  bytes :: "u32 \<Rightarrow> byte"

definition fill :: "u32 \<Rightarrow> u32 \<Rightarrow> byte \<Rightarrow> (u32 \<Rightarrow> byte) \<Rightarrow> u32 \<Rightarrow> byte" where
  "fill p n v m = (\<lambda>a. if a - p < n then v else m a)"

definition pool_of :: "bool \<Rightarrow> 'a pages_scheme \<Rightarrow> pool" where
  "pool_of user s = (if user then user_pool s else kernel_pool s)"

definition set_pool :: "bool \<Rightarrow> pool \<Rightarrow> 'a pages_scheme \<Rightarrow> 'a pages_scheme" where
  "set_pool user p s = (if user then s\<lparr>user_pool := p\<rparr> else s\<lparr>kernel_pool := p\<rparr>)"

definition page_from_pool :: "pool \<Rightarrow> u32 \<Rightarrow> bool" where
  "page_from_pool pool page =
    (let page_no = pg_no page;
         start_page = pg_no (base pool);
         end_page = start_page + of_nat (bitmap_size (used_map pool))
     in page_no \<ge> start_page \<and> page_no < end_page)"

text \<open>The words that the buffer of the bitmap holds before it is initialized are an argument.\<close>

definition init_pool :: "u32 \<Rightarrow> u32 \<Rightarrow> (nat \<Rightarrow> u32) \<Rightarrow> pool option" where
  "init_pool b page_cnt garbage = do {
     let bm_pages = DIV_ROUND_UP (bitmap_buf_size (unat page_cnt)) (unat PGSIZE);
     ASSERT (\<not> bm_pages > unat page_cnt);
     let page_cnt = page_cnt - of_nat bm_pages;
     m \<leftarrow> bitmap_create_in_buf (unat page_cnt) (map garbage [0..<elem_cnt (unat page_cnt)]) (bm_pages * unat PGSIZE);
     Some \<lparr>used_map = m, base = b + of_nat bm_pages * PGSIZE\<rparr>
   }"

definition palloc_init :: "u32 \<Rightarrow> u32 \<Rightarrow> (nat \<Rightarrow> u32) \<Rightarrow> (nat \<Rightarrow> u32) \<Rightarrow> (u32 \<Rightarrow> byte) \<Rightarrow> pages option" where
  "palloc_init init_ram_pages user_page_limit garbage1 garbage2 m = do {
     free_start \<leftarrow> ptov (1024 * 1024);
     free_end \<leftarrow> ptov (init_ram_pages * PGSIZE);
     let free_pages = (word_of_int (sint (free_end - free_start) sdiv sint PGSIZE) :: u32);
     let user_pages = free_pages div 2;
     let user_pages = (if user_pages > user_page_limit then user_page_limit else user_pages);
     let kernel_pages = free_pages - user_pages;
     kp \<leftarrow> init_pool free_start kernel_pages garbage1;
     up \<leftarrow> init_pool (free_start + kernel_pages * PGSIZE) user_pages garbage2;
     Some \<lparr>kernel_pool = kp, user_pool = up, bytes = m\<rparr>
   }"

section \<open>Getting and freeing pages\<close>

definition palloc_get_multiple :: "u32 \<Rightarrow> u32 \<Rightarrow> 'a pages_scheme \<Rightarrow> (u32 \<times> 'a pages_scheme) option" where
  "palloc_get_multiple flags page_cnt s = do {
     let user = (flags AND PAL_USER \<noteq> 0);
     let pool = pool_of user s;
     if page_cnt = 0 then Some (0, s)
     else do {
       (page_idx, m) \<leftarrow> bitmap_scan_and_flip (used_map pool) 0 (unat page_cnt) False;
       let s = set_pool user (pool\<lparr>used_map := m\<rparr>) s;
       let pages = (if page_idx \<noteq> BITMAP_ERROR then base pool + PGSIZE * of_nat page_idx else 0);
       if pages \<noteq> 0 then
         Some (pages, if flags AND PAL_ZERO \<noteq> 0 then s\<lparr>bytes := fill pages (PGSIZE * page_cnt) 0 (bytes s)\<rparr> else s)
       else do {
         ASSERT (flags AND PAL_ASSERT = 0);
         Some (pages, s)
       }
     }
   }"

definition palloc_get_page :: "u32 \<Rightarrow> 'a pages_scheme \<Rightarrow> (u32 \<times> 'a pages_scheme) option" where
  "palloc_get_page flags s = palloc_get_multiple flags 1 s"

definition palloc_free_multiple :: "u32 \<Rightarrow> u32 \<Rightarrow> 'a pages_scheme \<Rightarrow> 'a pages_scheme option" where
  "palloc_free_multiple pages page_cnt s = do {
     ASSERT (pg_ofs pages = 0);
     if pages = 0 \<or> page_cnt = 0 then Some s
     else do {
       user \<leftarrow> (if page_from_pool (kernel_pool s) pages then Some False
                else if page_from_pool (user_pool s) pages then Some True
                else None);
       let pool = pool_of user s;
       let page_idx = pg_no pages - pg_no (base pool);
       let s = s\<lparr>bytes := fill pages (PGSIZE * page_cnt) 0xcc (bytes s)\<rparr>;
       all \<leftarrow> bitmap_all (used_map pool) (unat page_idx) (unat page_cnt);
       ASSERT all;
       m \<leftarrow> bitmap_set_multiple (used_map pool) (unat page_idx) (unat page_cnt) False;
       Some (set_pool user (pool\<lparr>used_map := m\<rparr>) s)
     }
   }"

definition palloc_free_page :: "u32 \<Rightarrow> 'a pages_scheme \<Rightarrow> 'a pages_scheme option" where
  "palloc_free_page page s = palloc_free_multiple page 1 s"

section \<open>Pages in use\<close>

text \<open>The number of the first page of a pool, the pages it holds and those marked in its bitmap.\<close>

definition first_page :: "pool \<Rightarrow> nat" where
  "first_page p = unat (base p) div 4096"

definition pool_pages :: "pool \<Rightarrow> nat set" where
  "pool_pages p = {first_page p..<first_page p + bit_cnt (used_map p)}"

definition used_pages :: "pool \<Rightarrow> nat set" where
  "used_pages p = {first_page p + i | i. i < bit_cnt (used_map p) \<and> bitmap_abs (used_map p) ! i}"

definition pool_ok :: "pool \<Rightarrow> bool" where
  "pool_ok p \<longleftrightarrow> bitmap_inv (used_map p) \<and> pg_ofs (base p) = 0 \<and> base p \<noteq> 0 \<and>
     first_page p + bit_cnt (used_map p) < 2 ^ 20"

definition pools_ok :: "'a pages_scheme \<Rightarrow> bool" where
  "pools_ok s \<longleftrightarrow> pool_ok (kernel_pool s) \<and> pool_ok (user_pool s) \<and>
     pool_pages (kernel_pool s) \<inter> pool_pages (user_pool s) = {}"

text \<open>A block that a client holds: its address and its number of pages.\<close>

type_synonym page_block = "u32 \<times> u32"

definition pages_of :: "page_block \<Rightarrow> nat list" where
  "pages_of b = [unat (fst b) div 4096..<unat (fst b) div 4096 + unat (snd b)]"

definition block_ok :: "'a pages_scheme \<Rightarrow> page_block \<Rightarrow> bool" where
  "block_ok s b \<longleftrightarrow> pg_ofs (fst b) = 0 \<and> snd b \<noteq> 0 \<and>
     (\<exists>user. set (pages_of b) \<subseteq> pool_pages (pool_of user s))"

definition holds :: "'a pages_scheme \<Rightarrow> page_block list \<Rightarrow> bool" where
  "holds s live \<longleftrightarrow> pools_ok s \<and> (\<forall>b\<in>set live. block_ok s b) \<and> distinct (concat (map pages_of live)) \<and>
     set (concat (map pages_of live)) = used_pages (kernel_pool s) \<union> used_pages (user_pool s)"

lemma poolD:
  assumes "pool_ok p"
  shows "bitmap_inv (used_map p)" "unat (base p) = 4096 * first_page p" "first_page p > 0"
    "first_page p + bit_cnt (used_map p) < 2 ^ 20"
proof -
  have "unat (base p) mod 4096 = 0" using assms unat_pg_ofs [of "base p"] by (simp add: pool_ok_def)
  then show u: "unat (base p) = 4096 * first_page p" unfolding first_page_def by auto
  have "base p \<noteq> 0" using assms by (simp add: pool_ok_def)
  then have "unat (base p) \<noteq> 0" by (simp add: unsigned_eq_0_iff)
  then show "first_page p > 0" using u by simp
qed (use assms in \<open>simp_all add: pool_ok_def\<close>)

lemma page_addr:
  assumes "unat b = 4096 * f" "f + i < 2 ^ 20"
  shows "unat (b + PGSIZE * of_nat i) = 4096 * (f + i)"
proof -
  have "unat (PGSIZE * of_nat i) = 4096 * i"
    using assms(2) by (simp add: PGSIZE_eq unat_word_ariths unat_of_nat)
  then show ?thesis using assms by (simp add: unat_word_ariths)
qed

lemma page_from_pool_iff:
  assumes "pool_ok p" shows "page_from_pool p a \<longleftrightarrow> unat a div 4096 \<in> pool_pages p"
proof -
  note p = poolD [OF assms]
  have "unat (pg_no (base p) + of_nat (bit_cnt (used_map p))) = first_page p + bit_cnt (used_map p)"
    using p(4) by (simp add: unat_word_ariths unat_pg_no unat_of_nat first_page_def)
  then show ?thesis
    by (simp add: page_from_pool_def Let_def word_le_nat_alt word_less_nat_alt unat_pg_no pool_pages_def first_page_def bitmap_size_def)
qed

lemma used_pages_sub: "used_pages p \<subseteq> pool_pages p"
  by (auto simp: used_pages_def pool_pages_def)

lemma used_pages_overwrite:
  assumes "r + n \<le> bit_cnt m" "bit_cnt m' = bit_cnt m" "bitmap_abs m' = overwrite (bitmap_abs m) r (replicate n v)"
    and "base p' = base p" "used_map p = m" "used_map p' = m'"
  shows "used_pages p' = (if v then used_pages p \<union> {first_page p + r..<first_page p + r + n}
                          else used_pages p - {first_page p + r..<first_page p + r + n})"
proof -
  have b: "bitmap_abs m' ! i = (if r \<le> i \<and> i < r + n then v else bitmap_abs m ! i)" if "i < bit_cnt m" for i
    using assms that nth_overwrite [of r "replicate n v" "bitmap_abs m" i] by auto
  have "first_page p' = first_page p" using assms by (simp add: first_page_def)
  then have "x \<in> used_pages p' \<longleftrightarrow> (\<exists>i. x = first_page p + i \<and> i < bit_cnt m \<and>
      (if r \<le> i \<and> i < r + n then v else bitmap_abs m ! i))" for x
    using b assms by (auto simp: used_pages_def)
  moreover have "x \<in> {first_page p + r..<first_page p + r + n} \<longleftrightarrow> (\<exists>i. x = first_page p + i \<and> i < bit_cnt m \<and> r \<le> i \<and> i < r + n)" for x
    using assms(1) by (auto intro!: exI [of _ "x - first_page p"])
  ultimately show ?thesis
    using assms by (auto simp: used_pages_def split: if_splits)
qed

lemma set_pool_simps [simp]:
  "pool_of u (set_pool v p s) = (if u = v then p else pool_of u s)" "bytes (set_pool v p s) = bytes s"
  "pool_of u (s\<lparr>bytes := m\<rparr>) = pool_of u s"
  by (auto simp: pool_of_def set_pool_def)

lemma pools_alt:
  "pools_ok s \<longleftrightarrow> (\<forall>u. pool_ok (pool_of u s)) \<and> pool_pages (pool_of True s) \<inter> pool_pages (pool_of False s) = {}"
  by (auto simp: pools_ok_def pool_of_def)

lemma holds_alt:
  "holds s live \<longleftrightarrow> (\<forall>u. pool_ok (pool_of u s)) \<and> pool_pages (pool_of True s) \<inter> pool_pages (pool_of False s) = {} \<and>
     (\<forall>b\<in>set live. block_ok s b) \<and> distinct (concat (map pages_of live)) \<and>
     set (concat (map pages_of live)) = (\<Union>u. used_pages (pool_of u s))"
  by (auto simp: holds_def pools_alt pool_of_def UNIV_bool)

lemma set_pool_holds:
  assumes "holds s live" "pool_ok p'" "base p' = base (pool_of u s)" "bit_cnt (used_map p') = bit_cnt (used_map (pool_of u s))"
    and "\<forall>b\<in>set live'. block_ok s b" "distinct (concat (map pages_of live'))"
    and "set (concat (map pages_of live')) = used_pages p' \<union> used_pages (pool_of (\<not> u) s)"
  shows "holds (set_pool u p' s) live'"
proof -
  have f: "first_page p' = first_page (pool_of u s)" using assms(3) by (simp add: first_page_def)
  then have p: "pool_pages (pool_of v (set_pool u p' s)) = pool_pages (pool_of v s)" for v
    using assms(4) by (simp add: pool_pages_def)
  have "block_ok (set_pool u p' s) b = block_ok s b" for b unfolding block_ok_def p ..
  moreover have "(\<Union>v. used_pages (pool_of v (set_pool u p' s))) = used_pages p' \<union> used_pages (pool_of (\<not> u) s)"
    by (cases u) (auto simp: UNIV_bool)
  ultimately show ?thesis
    using assms unfolding holds_alt p by simp
qed

lemma holds_bytes [simp]: "holds (s\<lparr>bytes := m\<rparr>) live = holds s live"
  by (simp add: holds_alt block_ok_def)

section \<open>Getting pages\<close>

lemma set_pool_same [simp]: "set_pool u (pool_of u s) s = s"
  by (simp add: set_pool_def pool_of_def)

lemma more_set_pool [simp]: "pages.more (set_pool u p s) = pages.more s"
  by (simp add: set_pool_def)

lemma scan_error_same: "bitmap_scan_and_flip b i n v = Some (BITMAP_ERROR, b') \<Longrightarrow> b' = b"
  by (auto simp: bitmap_scan_and_flip_def split: bind_splits if_splits)

definition free_run :: "pool \<Rightarrow> u32 \<Rightarrow> nat \<Rightarrow> bool" where
  "free_run p n j \<longleftrightarrow> run_at (bitmap_abs (used_map p)) j (unat n) False"

lemma block_pages:
  assumes "unat p = 4096 * k" shows "set (pages_of (p, n)) = {k..<k + unat n}" "distinct (pages_of (p, n))"
  using assms by (auto simp: pages_of_def)

lemma pages_of_neq_Nil: "snd b \<noteq> 0 \<Longrightarrow> pages_of b \<noteq> []"
  using unsigned_eq_0_iff [where ?'a = nat, of "snd b"] by (simp add: pages_of_def)

lemma get_multiple_spec:
  fixes s :: "'a pages_scheme" and flags :: u32
  assumes "holds s live"
  defines "u \<equiv> flags AND PAL_USER \<noteq> 0"
  obtains (got) p s' where "n \<noteq> 0" "palloc_get_multiple flags n s = Some (p, s')" "p \<noteq> 0" "holds s' ((p, n) # live)"
      "set (pages_of (p, n)) \<subseteq> pool_pages (pool_of u s)" "pages.more s' = pages.more s"
      "\<And>v. pool_pages (pool_of v s') = pool_pages (pool_of v s)"
      "bytes s' = (if flags AND PAL_ZERO \<noteq> 0 then fill p (PGSIZE * n) 0 (bytes s) else bytes s)"
  | (none) "n = 0 \<or> (\<forall>j. \<not> free_run (pool_of u s) n j)"
      "palloc_get_multiple flags n s = (if n = 0 \<or> flags AND PAL_ASSERT = 0 then Some (0, s) else None)"
proof (cases "n = 0")
  case True
  then show thesis using none by (simp add: palloc_get_multiple_def)
next
  case False
  let ?p = "pool_of u s"
  have ok: "pool_ok ?p" using assms(1) by (simp add: holds_alt)
  note p = poolD [OF ok]
  obtain r m where r: "bitmap_scan_and_flip (used_map ?p) 0 (unat n) False = Some (r, m)" "bitmap_inv m"
      "bit_cnt m = bit_cnt (used_map ?p)" "scan_result (bitmap_abs (used_map ?p)) 0 (unat n) False r"
      "bitmap_abs m = (if r = BITMAP_ERROR then bitmap_abs (used_map ?p)
                       else overwrite (bitmap_abs (used_map ?p)) r (replicate (unat n) True))"
    using bitmap_scan_and_flip_spec [OF p(1), of 0 "unat n" False] by auto
  show thesis
  proof (cases "r = BITMAP_ERROR")
    case True
    then have "m = used_map ?p" using r(1) scan_error_same by blast
    then show thesis
      using none True False r(1,4) by (simp add: palloc_get_multiple_def Let_def u_def free_run_def scan_result_def)
  next
    case neq: False
    let ?a = "base ?p + PGSIZE * of_nat r" and ?p' = "?p\<lparr>used_map := m\<rparr>"
    have run: "r + unat n \<le> bit_cnt (used_map ?p)" "\<And>k. k < unat n \<Longrightarrow> \<not> bitmap_abs (used_map ?p) ! (r + k)"
      using r(4) neq by (auto simp: scan_result_def run_at_def)
    have a: "unat ?a = 4096 * (first_page ?p + r)"
      using page_addr [OF p(2), of r] run(1) p(4) by simp
    have nz: "?a \<noteq> 0" using a p(3) by (metis add_is_0 mult_is_0 neq0_conv unsigned_0 zero_neq_numeral)
    note bp = block_pages [OF a, of n]
    have in_pool: "set (pages_of (?a, n)) \<subseteq> pool_pages ?p"
      using run(1) by (auto simp: bp(1) pool_pages_def)
    have new: "used_pages ?p \<inter> set (pages_of (?a, n)) = {}"
    proof (rule ccontr)
      assume "used_pages ?p \<inter> set (pages_of (?a, n)) \<noteq> {}"
      then obtain i where "bitmap_abs (used_map ?p) ! i" "r \<le> i" "i < r + unat n"
        by (auto simp: used_pages_def bp(1) simp del: bitmap_abs_nth)
      moreover obtain k where "i = r + k" "k < unat n" using calculation(2,3) by (metis le_iff_add nat_add_left_cancel_less)
      ultimately show False using run(2) by simp
    qed
    have "pool_pages ?p \<inter> pool_pages (pool_of (\<not> u) s) = {}"
      using assms(1) by (cases u) (auto simp: holds_alt)
    then have other: "used_pages (pool_of (\<not> u) s) \<inter> set (pages_of (?a, n)) = {}"
      using in_pool used_pages_sub by blast
    have used: "used_pages ?p' = used_pages ?p \<union> set (pages_of (?a, n))"
      using used_pages_overwrite [OF run(1) r(3), of True ?p' ?p] r(5) neq bp(1) by (simp add: add.assoc)
    have live: "set (concat (map pages_of live)) = used_pages ?p \<union> used_pages (pool_of (\<not> u) s)"
      using assms(1) by (cases u) (auto simp: holds_alt UNIV_bool)
    have aligned: "pg_ofs ?a = 0"
      using unat_pg_ofs [of ?a] a by (simp add: unsigned_eq_0_iff)
    have "block_ok s (?a, n)" using aligned in_pool False by (auto simp: block_ok_def)
    then have h: "holds (set_pool u ?p' s) ((?a, n) # live)"
      by (intro set_pool_holds [OF assms(1)])
        (use assms(1) ok r(2,3) used live bp(2) new other in \<open>auto simp: holds_alt pool_ok_def first_page_def\<close>)
    have pp: "pool_pages (pool_of v (set_pool u ?p' s)) = pool_pages (pool_of v s)" for v
      using r(3) by (simp add: pool_pages_def first_page_def)
    show thesis
    proof (rule got [OF False _ nz])
      show "palloc_get_multiple flags n s = Some (?a,
          if flags AND PAL_ZERO \<noteq> 0 then (set_pool u ?p' s)\<lparr>bytes := fill ?a (PGSIZE * n) 0 (bytes s)\<rparr> else set_pool u ?p' s)"
        using r(1) neq False nz by (simp add: palloc_get_multiple_def Let_def u_def)
    qed (use h in_pool pp in auto)
  qed
qed

section \<open>Freeing pages\<close>

lemma concat_remove1:
  assumes "b \<in> set live" "distinct (concat (map f live))" "f b \<noteq> []"
  shows "distinct (concat (map f (remove1 b live)))"
    "set (concat (map f (remove1 b live))) = set (concat (map f live)) - set (f b)"
proof -
  obtain xs ys where "live = xs @ b # ys" "b \<notin> set xs"
    using split_list_first [OF assms(1)] by blast
  then show "distinct (concat (map f (remove1 b live)))"
    "set (concat (map f (remove1 b live))) = set (concat (map f live)) - set (f b)"
    using assms by (auto simp: remove1_append)
qed

lemma free_multiple_spec:
  assumes "holds s live" "(p, n) \<in> set live"
  obtains s' where "palloc_free_multiple p n s = Some s'" "holds s' (remove1 (p, n) live)" "pages.more s' = pages.more s"
    "\<And>v. pool_pages (pool_of v s') = pool_pages (pool_of v s)"
    "bytes s' = fill p (PGSIZE * n) 0xcc (bytes s)"
proof -
  have b: "block_ok s (p, n)" using assms by (simp add: holds_def)
  then obtain u where u: "pg_ofs p = 0" "n \<noteq> 0" "set (pages_of (p, n)) \<subseteq> pool_pages (pool_of u s)"
    by (auto simp: block_ok_def)
  have ok: "pool_ok (pool_of v s)" for v using assms(1) by (simp add: holds_alt)
  let ?p = "pool_of u s"
  note pd = poolD [OF ok, of u]
  have n: "unat n > 0" using u(2) by (simp add: unat_gt_0)
  have "unat p mod 4096 = 0" using u(1) unat_pg_ofs [of p] by simp
  then obtain k where k: "unat p = 4096 * k" by auto
  note bp = block_pages [OF k, of n]
  have kp: "first_page ?p \<le> k" "k + unat n \<le> first_page ?p + bit_cnt (used_map ?p)"
    using u(3) n by (auto simp: bp(1) pool_pages_def)
  define r where "r = k - first_page ?p"
  have r: "k = first_page ?p + r" "r + unat n \<le> bit_cnt (used_map ?p)" using kp by (auto simp: r_def)
  have inp: "unat p div 4096 \<in> pool_pages ?p" using kp n k by (simp add: pool_pages_def)
  have dis: "pool_pages ?p \<inter> pool_pages (pool_of (\<not> u) s) = {}"
    using assms(1) by (cases u) (auto simp: holds_alt)
  then have pool: "(if page_from_pool (kernel_pool s) p then Some False
      else if page_from_pool (user_pool s) p then Some True else None) = Some u"
    using page_from_pool_iff [OF ok [of False], of p] page_from_pool_iff [OF ok [of True], of p] inp
    by (cases u) (auto simp: pool_of_def)
  have idx: "unat (pg_no p - pg_no (base ?p)) = r"
  proof -
    have "unat (pg_no p) = k" "unat (pg_no (base ?p)) = first_page ?p"
      using k pd(2) by (simp_all add: unat_pg_no)
    then show ?thesis using r(1) by (simp add: unat_sub word_le_nat_alt)
  qed
  have live: "set (concat (map pages_of live)) = used_pages ?p \<union> used_pages (pool_of (\<not> u) s)"
    using assms(1) by (cases u) (auto simp: holds_alt UNIV_bool)
  have "set (pages_of (p, n)) \<subseteq> set (concat (map pages_of live))" using assms(2) by auto
  then have marked: "set (pages_of (p, n)) \<subseteq> used_pages ?p"
    using u(3) dis used_pages_sub [of "pool_of (\<not> u) s"] unfolding live by blast
  have all: "bitmap_all (used_map ?p) r (unat n) = Some True"
  proof -
    have "bitmap_abs (used_map ?p) ! i" if i: "r \<le> i" "i < r + unat n" for i
    proof -
      have "first_page ?p + i \<in> set (pages_of (p, n))" using i r(1) by (simp add: bp(1))
      then show ?thesis using marked by (auto simp: used_pages_def simp del: bitmap_abs_nth)
    qed
    then show ?thesis using bitmap_all_spec [OF pd(1) r(2)] by simp
  qed
  obtain m where m: "bitmap_set_multiple (used_map ?p) r (unat n) False = Some m" "bitmap_inv m"
      "bit_cnt m = bit_cnt (used_map ?p)" "bitmap_abs m = overwrite (bitmap_abs (used_map ?p)) r (replicate (unat n) False)"
    using bitmap_set_multiple_spec [OF pd(1) r(2)] by blast
  let ?p' = "?p\<lparr>used_map := m\<rparr>"
  have "used_pages ?p' = used_pages ?p - set (pages_of (p, n))"
    using used_pages_overwrite [OF r(2) m(3,4), of ?p' ?p] bp(1) r(1) by (simp add: add.assoc)
  moreover have "used_pages (pool_of (\<not> u) s) \<inter> set (pages_of (p, n)) = {}"
    using u(3) dis used_pages_sub [of "pool_of (\<not> u) s"] by blast
  moreover note rm = concat_remove1 [OF assms(2), of pages_of] pages_of_neq_Nil [of "(p, n)"]
  ultimately have h: "holds (set_pool u ?p' s) (remove1 (p, n) live)"
    by (intro set_pool_holds [OF assms(1)])
      (use assms(1) ok [of u] m(2,3) live u(2) set_remove1_subset [of "(p, n)" live] in
        \<open>auto simp: holds_alt pool_ok_def first_page_def\<close>)
  have pp: "pool_pages ?p' = pool_pages ?p"
    using m(3) by (simp add: pool_pages_def first_page_def)
  have nz: "p \<noteq> 0" using k kp(1) pd(3) n by (metis add_is_0 le_zero_eq mult_is_0 neq0_conv unsigned_0 zero_neq_numeral)
  show thesis
  proof (rule that)
    show "palloc_free_multiple p n s = Some (set_pool u ?p' (s\<lparr>bytes := fill p (PGSIZE * n) 0xcc (bytes s)\<rparr>))"
      using u(1,2) nz pool idx all m(1) by (simp add: palloc_free_multiple_def Let_def)
    have e: "set_pool u ?p' (s\<lparr>bytes := b\<rparr>) = (set_pool u ?p' s)\<lparr>bytes := b\<rparr>" for b
      by (simp add: set_pool_def)
    show "holds (set_pool u ?p' (s\<lparr>bytes := fill p (PGSIZE * n) 0xcc (bytes s)\<rparr>)) (remove1 (p, n) live)"
      unfolding e using h by simp
  qed (use pp in auto)
qed

section \<open>The allocator at work\<close>

text \<open>What a client does: it gets blocks, and frees blocks that it holds.\<close>

inductive pstep :: "pages \<times> page_block list \<Rightarrow> pages \<times> page_block list \<Rightarrow> bool" where
  pstep_get: "palloc_get_multiple flags n s = Some (p, s') \<Longrightarrow> pstep (s, live) (s', if p = 0 then live else (p, n) # live)"
| pstep_free: "(p, n) \<in> set live \<Longrightarrow> palloc_free_multiple p n s = Some s' \<Longrightarrow> pstep (s, live) (s', remove1 (p, n) live)"

lemma pstep_holds:
  assumes "pstep x y" "holds (fst x) (snd x)"
  shows "holds (fst y) (snd y) \<and> (\<forall>v. pool_pages (pool_of v (fst y)) = pool_pages (pool_of v (fst x)))"
  using assms
proof cases
  case (pstep_get flags n s p s' live)
  have h: "holds s live" using assms(2) pstep_get by simp
  show ?thesis
    by (rule get_multiple_spec [OF h, where flags = flags and n = n])
      (use pstep_get h in \<open>auto split: if_splits\<close>)
next
  case (pstep_free p n live s s')
  then have h: "holds s live" using assms(2) by simp
  show ?thesis
    by (rule free_multiple_spec [OF h pstep_free(3)]) (use pstep_free in auto)
qed

lemma psteps_holds:
  "pstep\<^sup>*\<^sup>* x y \<Longrightarrow> holds (fst x) (snd x) \<Longrightarrow>
    holds (fst y) (snd y) \<and> (\<forall>v. pool_pages (pool_of v (fst y)) = pool_pages (pool_of v (fst x)))"
  by (induction rule: rtranclp_induct) (use pstep_holds in blast)+

section \<open>Initialization\<close>

lemma bitmap_buf_size_bounds: "bitmap_buf_size n \<le> 12 + n" "m \<le> n \<Longrightarrow> bitmap_buf_size m \<le> bitmap_buf_size n"
  by (auto simp: bitmap_buf_size_def byte_cnt_def elem_cnt_def DIV_ROUND_UP_def ELEM_BITS_def intro: div_le_mono)

lemma init_pool_spec:
  assumes "unat b = 4096 * f" "f > 0" "f + unat n < 2 ^ 20" "n \<noteq> 0"
  obtains p where "init_pool b n garbage = Some p" "pool_ok p" "pool_pages p \<subseteq> {f..<f + unat n}" "used_pages p = {}"
proof -
  have n: "0 < unat n" using assms(4) by (simp add: unat_gt_0)
  define bm where "bm = DIV_ROUND_UP (bitmap_buf_size (unat n)) 4096"
  have bm: "bm \<le> unat n" "bitmap_buf_size (unat n) \<le> bm * 4096" "0 < bm"
    using bitmap_buf_size_bounds(1) [of "unat n"] n DIV_ROUND_UP_bounds [of 4096 "bitmap_buf_size (unat n)"]
    by (auto simp: bm_def DIV_ROUND_UP_def bitmap_buf_size_def)
  have bmn: "unat (of_nat bm :: u32) = bm" using bm(1) assms(3) by (simp add: unat_of_nat)
  then have cnt: "unat (n - of_nat bm) = unat n - bm" using bm(1) by (simp add: unat_sub word_le_nat_alt)
  let ?c = "unat n - bm" and ?g = "map garbage [0..<elem_cnt (unat n - bm)]"
  have "bitmap_buf_size ?c \<le> bm * 4096" using bitmap_buf_size_bounds(2) [of ?c "unat n"] bm(2) by simp
  moreover obtain m where m: "bitmap_set_all \<lparr>bit_cnt = ?c, bits = ?g\<rparr> False = Some m" "bitmap_inv m" "bit_cnt m = ?c"
      "bitmap_abs m = replicate ?c False"
    using bitmap_set_all_spec [of "\<lparr>bit_cnt = ?c, bits = ?g\<rparr>" False] assms(3)
    by (force simp: bitmap_inv_def SIZE_MAX_def)
  ultimately have i: "init_pool b n garbage = Some \<lparr>used_map = m, base = b + of_nat bm * PGSIZE\<rparr>"
    using bm(1) by (simp add: init_pool_def Let_def PGSIZE_eq bm_def [symmetric] cnt bitmap_create_in_buf_def)
  have a: "unat (b + of_nat bm * PGSIZE) = 4096 * (f + bm)"
    using page_addr [OF assms(1), of bm] bm(1) assms(3) by (simp add: mult.commute)
  then have f: "first_page \<lparr>used_map = m, base = b + of_nat bm * PGSIZE\<rparr> = f + bm" by (simp add: first_page_def)
  show thesis
  proof (rule that [OF i])
    have "b + of_nat bm * PGSIZE \<noteq> 0" using a assms(2) by (metis add_is_0 mult_is_0 neq0_conv unsigned_0 zero_neq_numeral)
    moreover have "pg_ofs (b + of_nat bm * PGSIZE) = 0"
      using unat_pg_ofs [of "b + of_nat bm * PGSIZE"] a by (simp add: unsigned_eq_0_iff)
    ultimately show "pool_ok \<lparr>used_map = m, base = b + of_nat bm * PGSIZE\<rparr>"
      using m(2,3) f bm(1) assms(3) by (simp add: pool_ok_def)
  qed (use m(3,4) f bm(1) in \<open>auto simp: pool_pages_def used_pages_def simp del: bitmap_abs_nth\<close>)
qed

lemma ram_pages:
  assumes "258 \<le> unat ram" "unat ram < 0x40000"
  shows "ptov (1024 * 1024) = Some 0xc0100000" "ptov (ram * PGSIZE) = Some (ram * PGSIZE + 0xc0000000)"
    "unat (word_of_int (sint (ram * PGSIZE + 0xc0000000 - 0xc0100000) sdiv sint PGSIZE) :: u32) = unat ram - 256"
proof -
  show "ptov (1024 * 1024) = Some 0xc0100000" by (simp add: ptov_def PHYS_BASE_def)
  have r: "unat (ram * PGSIZE) = 4096 * unat ram"
    using assms(2) by (simp add: PGSIZE_eq unat_word_ariths)
  then show "ptov (ram * PGSIZE) = Some (ram * PGSIZE + 0xc0000000)"
    using assms(2) by (simp add: ptov_def PHYS_BASE_def word_less_nat_alt)
  let ?d = "ram * PGSIZE + 0xc0000000 - 0xc0100000"
  have "?d = ram * PGSIZE - 0x100000" by simp
  then have d: "unat ?d = 4096 * (unat ram - 256)"
    using r assms(1) by (simp add: unat_sub word_le_nat_alt diff_mult_distrib2)
  have s: "sint ?d = 4096 * (int (unat ram) - 256)"
  proof -
    have u: "uint ?d = 4096 * (int (unat ram) - 256)" using arg_cong [OF d, of int] assms(1) by (simp add: of_nat_diff)
    have "signed_take_bit 31 (4096 * (int n - 256)) = 4096 * (int n - 256)" if "258 \<le> n" "n < 0x40000" for n
      using that by (intro signed_take_bit_int_eq_self) auto
    note this [OF assms]
    then show ?thesis unfolding sint_uint u by simp
  qed
  have "sint ?d sdiv sint PGSIZE = int (unat ram - 256)"
    using assms unfolding s by (simp add: PGSIZE_eq signed_divide_int_def sgn_if of_nat_diff)
  then have "word_of_int (sint ?d sdiv sint PGSIZE) = (of_nat (unat ram - 256) :: u32)" by (simp only: of_int_of_nat_eq)
  then show "unat (word_of_int (sint ?d sdiv sint PGSIZE) :: u32) = unat ram - 256"
    using assms by (simp only: unat_of_nat) simp
qed

lemma palloc_init_spec:
  assumes "258 \<le> unat ram" "unat ram < 0x40000" "limit \<noteq> 0"
  obtains s where "palloc_init ram limit g1 g2 m = Some s" "holds s []"
    "\<And>v. pool_pages (pool_of v s) \<subseteq> {0xc0100..<0xc0000 + unat ram}"
proof -
  note r = ram_pages [OF assms(1,2)]
  define free :: u32 where "free = word_of_int (sint (ram * PGSIZE - 0x100000) sdiv sint PGSIZE)"
  have free: "unat free = unat ram - 256" unfolding free_def using r(3) by simp
  define up where "up = (if free div 2 > limit then limit else free div 2)"
  have "unat (free div 2) = unat free div 2" by (simp add: unat_div)
  then have up: "unat up \<le> unat free div 2" "up \<noteq> 0"
    using free assms by (auto simp: up_def word_less_nat_alt unsigned_eq_0_iff [symmetric, where ?'a = nat])
  have kp: "unat (free - up) = unat free - unat up" using up(1) by (simp add: unat_sub word_le_nat_alt)
  have kp0: "free - up \<noteq> 0" using kp up(1) free assms(1) by (auto simp: unsigned_eq_0_iff [symmetric, where ?'a = nat])
  obtain k where k: "init_pool 0xc0100000 (free - up) g1 = Some k" "pool_ok k"
      "pool_pages k \<subseteq> {0xc0100..<0xc0100 + unat (free - up)}" "used_pages k = {}"
    by (rule init_pool_spec [of "0xc0100000" "0xc0100" "free - up" g1]) (use kp kp0 free assms(2) in auto)
  have b: "unat (0xc0100000 + (free - up) * PGSIZE) = 4096 * (0xc0100 + unat (free - up))"
  proof -
    have "(free - up) * PGSIZE = PGSIZE * of_nat (unat (free - up))" by (simp add: mult.commute)
    moreover have "0xc0100 + unat (free - up) < 2 ^ 20" using kp free assms(2) by simp
    ultimately show ?thesis using page_addr [of "0xc0100000" "0xc0100" "unat (free - up)"] by (simp add: mult.commute)
  qed
  obtain w where w: "init_pool (0xc0100000 + (free - up) * PGSIZE) up g2 = Some w" "pool_ok w"
      "pool_pages w \<subseteq> {0xc0100 + unat (free - up)..<0xc0100 + unat (free - up) + unat up}" "used_pages w = {}"
    by (rule init_pool_spec [OF b, of up g2]) (use kp up free assms(2) in auto)
  show thesis
  proof (rule that)
    show "palloc_init ram limit g1 g2 m = Some \<lparr>kernel_pool = k, user_pool = w, bytes = m\<rparr>"
      using k(1) w(1) r(1,2) unfolding up_def by (auto simp: palloc_init_def Let_def free_def [symmetric])
    have "pool_pages k \<inter> pool_pages w = {}" using k(3) w(3) by fastforce
    then show "holds \<lparr>kernel_pool = k, user_pool = w, bytes = m\<rparr> []"
      using k(2,4) w(2,4) by (simp add: holds_def pools_ok_def)
    show "pool_pages (pool_of v \<lparr>kernel_pool = k, user_pool = w, bytes = m\<rparr>) \<subseteq> {0xc0100..<0xc0000 + unat ram}" for v
    proof -
      have "{0xc0100..<0xc0100 + unat (free - up)} \<subseteq> {0xc0100..<0xc0000 + unat ram}"
        "{0xc0100 + unat (free - up)..<0xc0100 + unat (free - up) + unat up} \<subseteq> {0xc0100..<0xc0000 + unat ram}"
        using kp up(1) free assms(1) by auto
      then show ?thesis using k(3) w(3) by (cases v) (auto simp: pool_of_def)
    qed
  qed
qed

text \<open>C9: With at least 258 pages and less than 1 GB of RAM and a nonzero user page limit, the page allocator
  initializes. From then on, however its clients get blocks and free blocks they hold, the blocks held are page-aligned,
  lie in the RAM above 1 MB and share no page; no call panics except one that asks to panic
  when memory is exhausted; and a request is refused only if its pool has no run of free pages long enough.\<close>
theorem palloc_blocks_disjoint:
  assumes "258 \<le> unat ram" "unat ram < 0x40000" "limit \<noteq> 0"
  shows "\<exists>s0. palloc_init ram limit g1 g2 m = Some s0 \<and>
    (\<forall>s live. pstep\<^sup>*\<^sup>* (s0, []) (s, live) \<longrightarrow>
      distinct (concat (map pages_of live)) \<and>
      (\<forall>(p, n)\<in>set live. pg_ofs p = 0 \<and> set (pages_of (p, n)) \<subseteq> {0xc0100..<0xc0000 + unat ram} \<and>
         palloc_free_multiple p n s \<noteq> None) \<and>
      (\<forall>flags n. flags AND PAL_ASSERT = 0 \<longrightarrow> palloc_get_multiple flags n s \<noteq> None) \<and>
      (\<forall>flags n s' j. n \<noteq> 0 \<longrightarrow> palloc_get_multiple flags n s = Some (0, s') \<longrightarrow>
         \<not> free_run (pool_of (flags AND PAL_USER \<noteq> 0) s) n j))"
proof -
  obtain s0 where s0: "palloc_init ram limit g1 g2 m = Some s0" "holds s0 []"
      "\<And>v. pool_pages (pool_of v s0) \<subseteq> {0xc0100..<0xc0000 + unat ram}"
    by (rule palloc_init_spec [OF assms, of g1 g2 m]) blast
  {
    fix s live assume "pstep\<^sup>*\<^sup>* (s0, []) (s, live)"
    then have h: "holds s live" "\<And>v. pool_pages (pool_of v s) \<subseteq> {0xc0100..<0xc0000 + unat ram}"
      using psteps_holds [of "(s0, [])" "(s, live)"] s0(2,3) by auto
    have "palloc_free_multiple p n s \<noteq> None" if "(p, n) \<in> set live" for p n
      by (rule free_multiple_spec [OF h(1) that]) simp
    moreover have "flags AND PAL_ASSERT = 0 \<longrightarrow> palloc_get_multiple flags n s \<noteq> None" for flags n
      by (rule get_multiple_spec [OF h(1), where flags = flags and n = n]) auto
    moreover have "\<not> free_run (pool_of (flags AND PAL_USER \<noteq> 0) s) n j"
      if "n \<noteq> 0" "palloc_get_multiple flags n s = Some (0, s')" for flags n s' j
      by (rule get_multiple_spec [OF h(1), where flags = flags and n = n]) (use that in auto)
    ultimately have "distinct (concat (map pages_of live)) \<and>
      (\<forall>(p, n)\<in>set live. pg_ofs p = 0 \<and> set (pages_of (p, n)) \<subseteq> {0xc0100..<0xc0000 + unat ram} \<and>
         palloc_free_multiple p n s \<noteq> None) \<and>
      (\<forall>flags n. flags AND PAL_ASSERT = 0 \<longrightarrow> palloc_get_multiple flags n s \<noteq> None) \<and>
      (\<forall>flags n s' j. n \<noteq> 0 \<longrightarrow> palloc_get_multiple flags n s = Some (0, s') \<longrightarrow>
         \<not> free_run (pool_of (flags AND PAL_USER \<noteq> 0) s) n j)"
      using h by (fastforce simp: holds_def block_ok_def)
  }
  then show ?thesis using s0(1) by blast
qed

theorem palloc_blocks_disjoint_witness:
  "\<exists>s0. palloc_init 1024 0xffffffff (\<lambda>_. 0) (\<lambda>_. 7) (\<lambda>_. 0) = Some s0 \<and> palloc_get_multiple 0 3 s0 \<noteq> None"
proof -
  obtain s0 where s0: "palloc_init 1024 0xffffffff (\<lambda>_. 0) (\<lambda>_. 7) (\<lambda>_. 0) = Some s0"
      "\<And>s live flags n. pstep\<^sup>*\<^sup>* (s0, []) (s, live) \<Longrightarrow> flags AND PAL_ASSERT = 0 \<Longrightarrow> palloc_get_multiple flags n s \<noteq> None"
    using palloc_blocks_disjoint [of 1024 "0xffffffff" "\<lambda>_. 0" "\<lambda>_. 7" "\<lambda>_. 0"] by auto
  then show ?thesis using s0(2) [of s0 "[]" 0 3] by auto
qed

end
