(* ===== verification/Malloc.thy ===== *)
theory Malloc
  imports Palloc
begin

text \<open>
  The block allocator of \<^verbatim>\<open>threads/malloc.c\<close> on top of the page allocator. The arena headers, which the
  code keeps in the first bytes of their pages, are a map from page addresses; a page without a header
  stands for one whose first word is not \<^verbatim>\<open>ARENA_MAGIC\<close>. The free lists are the sequences of block
  addresses that the linked lists hold. Every function that works on a descriptor holds its lock, so
  each call is one step.
\<close>

section \<open>Descriptors and arenas\<close>

definition ARENA_MAGIC :: u32 where
  "ARENA_MAGIC = 0x9a548eed"

record desc =
  block_size :: u32
  blocks_per_arena :: u32
  free_list :: "u32 list"

record arena =
  magic :: u32
  desc :: "nat option"
  free_cnt :: u32

record heap = pages +
  descs :: "desc list"
  arenas :: "u32 \<Rightarrow> arena option"

definition sizeof_arena :: u32 where
  "sizeof_arena = 12"

partial_function (option) desc_loop :: "u32 \<Rightarrow> desc list \<Rightarrow> desc list option" where
  "desc_loop bs ds =
    (if bs < PGSIZE div 2 then do {
       ASSERT (length ds + 1 \<le> 10);
       desc_loop (bs * 2)
         (ds @ [\<lparr>block_size = bs, blocks_per_arena = (PGSIZE - sizeof_arena) div bs, free_list = []\<rparr>])
     } else Some ds)"

definition malloc_init :: "pages \<Rightarrow> heap option" where
  "malloc_init s = do {
     ds \<leftarrow> desc_loop 16 [];
     Some (pages.extend s \<lparr>descs = ds, arenas = (\<lambda>_. None)\<rparr>)
   }"

definition set_free_list :: "nat \<Rightarrow> u32 list \<Rightarrow> heap \<Rightarrow> heap" where
  "set_free_list d fl hp = hp\<lparr>descs := (descs hp)[d := (descs hp ! d)\<lparr>free_list := fl\<rparr>]\<rparr>"

definition set_arena :: "u32 \<Rightarrow> arena option \<Rightarrow> heap \<Rightarrow> heap" where
  "set_arena a ar hp = hp\<lparr>arenas := (arenas hp)(a := ar)\<rparr>"

definition block_to_arena :: "u32 \<Rightarrow> heap \<Rightarrow> u32 option" where
  "block_to_arena b hp = do {
     let a = pg_round_down b;
     ASSERT (a \<noteq> 0);
     ar \<leftarrow> arenas hp a;
     ASSERT (magic ar = ARENA_MAGIC);
     case desc ar of
       None \<Rightarrow> do { ASSERT (pg_ofs b = sizeof_arena); Some a }
     | Some d \<Rightarrow> do {
         dd \<leftarrow> arr_get (descs hp) d;
         ASSERT ((pg_ofs b - sizeof_arena) mod block_size dd = 0);
         Some a
       }
   }"

definition arena_to_block :: "u32 \<Rightarrow> u32 \<Rightarrow> heap \<Rightarrow> u32 option" where
  "arena_to_block a idx hp = do {
     ASSERT (a \<noteq> 0);
     ar \<leftarrow> arenas hp a;
     ASSERT (magic ar = ARENA_MAGIC);
     d \<leftarrow> desc ar;
     dd \<leftarrow> arr_get (descs hp) d;
     ASSERT (idx < blocks_per_arena dd);
     Some (a + sizeof_arena + idx * block_size dd)
   }"

section \<open>Allocation\<close>

fun find_desc :: "desc list \<Rightarrow> u32 \<Rightarrow> nat option" where
  "find_desc [] sz = None"
| "find_desc (d # ds) sz = (if block_size d \<ge> sz then Some 0 else map_option Suc (find_desc ds sz))"

fun add_blocks :: "u32 \<Rightarrow> nat \<Rightarrow> nat list \<Rightarrow> heap \<Rightarrow> heap option" where
  "add_blocks a d [] hp = Some hp"
| "add_blocks a d (i # is) hp = do {
     b \<leftarrow> arena_to_block a (of_nat i) hp;
     dd \<leftarrow> arr_get (descs hp) d;
     add_blocks a d is (set_free_list d (free_list dd @ [b]) hp)
   }"

definition new_arena :: "nat \<Rightarrow> heap \<Rightarrow> (bool \<times> heap) option" where
  "new_arena d hp = do {
     dd \<leftarrow> arr_get (descs hp) d;
     (a, hp) \<leftarrow> palloc_get_page 0 hp;
     if a = 0 then Some (False, hp)
     else do {
       hp \<leftarrow> add_blocks a d [0..<unat (blocks_per_arena dd)]
              (set_arena a (Some \<lparr>magic = ARENA_MAGIC, desc = Some d, free_cnt = blocks_per_arena dd\<rparr>) hp);
       Some (True, hp)
     }
   }"

definition take_block :: "nat \<Rightarrow> heap \<Rightarrow> (u32 \<times> heap) option" where
  "take_block d hp = do {
     dd \<leftarrow> arr_get (descs hp) d;
     case free_list dd of
       [] \<Rightarrow> None
     | b # fl \<Rightarrow> do {
         let hp = set_free_list d fl hp;
         a \<leftarrow> block_to_arena b hp;
         ar \<leftarrow> arenas hp a;
         Some (b, set_arena a (Some (ar\<lparr>free_cnt := free_cnt ar - 1\<rparr>)) hp)
       }
   }"

definition malloc_big :: "u32 \<Rightarrow> heap \<Rightarrow> (u32 \<times> heap) option" where
  "malloc_big sz hp = do {
     let page_cnt = (sz + sizeof_arena + PGSIZE - 1) div PGSIZE;
     (a, hp) \<leftarrow> palloc_get_multiple 0 page_cnt hp;
     if a = 0 then Some (0, hp)
     else Some (a + sizeof_arena, set_arena a (Some \<lparr>magic = ARENA_MAGIC, desc = None, free_cnt = page_cnt\<rparr>) hp)
   }"

definition malloc :: "u32 \<Rightarrow> heap \<Rightarrow> (u32 \<times> heap) option" where
  "malloc sz hp =
    (if sz = 0 then Some (0, hp)
     else case find_desc (descs hp) sz of
       None \<Rightarrow> malloc_big sz hp
     | Some d \<Rightarrow> do {
         dd \<leftarrow> arr_get (descs hp) d;
         (ok, hp) \<leftarrow> (if free_list dd = [] then new_arena d hp else Some (True, hp));
         if ok then take_block d hp else Some (0, hp)
       })"

definition calloc :: "u32 \<Rightarrow> u32 \<Rightarrow> heap \<Rightarrow> (u32 \<times> heap) option" where
  "calloc a b hp = do {
     let sz = a * b;
     if sz < a \<or> sz < b then Some (0, hp)
     else do {
       (p, hp) \<leftarrow> malloc sz hp;
       Some (p, if p \<noteq> 0 then hp\<lparr>bytes := fill p sz 0 (bytes hp)\<rparr> else hp)
     }
   }"

section \<open>Deallocation\<close>

definition alloc_size :: "u32 \<Rightarrow> heap \<Rightarrow> u32 option" where
  "alloc_size b hp = do {
     a \<leftarrow> block_to_arena b hp;
     ar \<leftarrow> arenas hp a;
     case desc ar of
       None \<Rightarrow> Some (PGSIZE * free_cnt ar - pg_ofs b)
     | Some d \<Rightarrow> map_option block_size (arr_get (descs hp) d)
   }"

fun remove_blocks :: "u32 \<Rightarrow> nat \<Rightarrow> nat list \<Rightarrow> heap \<Rightarrow> heap option" where
  "remove_blocks a d [] hp = Some hp"
| "remove_blocks a d (i # is) hp = do {
     b \<leftarrow> arena_to_block a (of_nat i) hp;
     dd \<leftarrow> arr_get (descs hp) d;
     ASSERT (b \<in> set (free_list dd));
     remove_blocks a d is (set_free_list d (remove1 b (free_list dd)) hp)
   }"

definition free_small :: "u32 \<Rightarrow> u32 \<Rightarrow> nat \<Rightarrow> heap \<Rightarrow> heap option" where
  "free_small b a d hp = do {
     dd \<leftarrow> arr_get (descs hp) d;
     ar \<leftarrow> arenas hp a;
     let hp = hp\<lparr>bytes := fill b (block_size dd) 0xcc (bytes hp)\<rparr>;
     let hp = set_free_list d (b # free_list dd) hp;
     let ar = ar\<lparr>free_cnt := free_cnt ar + 1\<rparr>;
     let hp = set_arena a (Some ar) hp;
     if free_cnt ar \<ge> blocks_per_arena dd then do {
       ASSERT (free_cnt ar = blocks_per_arena dd);
       hp \<leftarrow> remove_blocks a d [0..<unat (blocks_per_arena dd)] hp;
       hp \<leftarrow> palloc_free_page a hp;
       Some (set_arena a None hp)
     } else Some hp
   }"

definition free :: "u32 \<Rightarrow> heap \<Rightarrow> heap option" where
  "free p hp =
    (if p = 0 then Some hp
     else do {
       a \<leftarrow> block_to_arena p hp;
       ar \<leftarrow> arenas hp a;
       case desc ar of
         Some d \<Rightarrow> free_small p a d hp
       | None \<Rightarrow> do {
           hp \<leftarrow> palloc_free_multiple a (free_cnt ar) hp;
           Some (set_arena a None hp)
         }
     })"

definition copy_bytes :: "u32 \<Rightarrow> u32 \<Rightarrow> u32 \<Rightarrow> (u32 \<Rightarrow> byte) \<Rightarrow> u32 \<Rightarrow> byte" where
  "copy_bytes dst src n m = (\<lambda>a. if a - dst < n then m (src + (a - dst)) else m a)"

definition realloc :: "u32 \<Rightarrow> u32 \<Rightarrow> heap \<Rightarrow> (u32 \<times> heap) option" where
  "realloc old_block new_size hp =
    (if new_size = 0 then do { hp \<leftarrow> free old_block hp; Some (0, hp) }
     else do {
       (new_block, hp) \<leftarrow> malloc new_size hp;
       if old_block \<noteq> 0 \<and> new_block \<noteq> 0 then do {
         old_size \<leftarrow> alloc_size old_block hp;
         let min_size = (if new_size < old_size then new_size else old_size);
         let hp = hp\<lparr>bytes := copy_bytes new_block old_block min_size (bytes hp)\<rparr>;
         hp \<leftarrow> free old_block hp;
         Some (new_block, hp)
       } else Some (new_block, hp)
     })"

section \<open>The invariant of the heap\<close>

definition blk :: "u32 \<Rightarrow> desc \<Rightarrow> nat \<Rightarrow> u32" where
  "blk a dd i = a + sizeof_arena + of_nat i * block_size dd"

definition blks :: "u32 \<Rightarrow> desc \<Rightarrow> u32 list" where
  "blks a dd = map (blk a dd) [0..<unat (blocks_per_arena dd)]"

definition desc_ok :: "desc \<Rightarrow> bool" where
  "desc_ok dd \<longleftrightarrow> 0 < unat (block_size dd) \<and> 0 < unat (blocks_per_arena dd) \<and>
     12 + unat (blocks_per_arena dd) * unat (block_size dd) \<le> 4096"

definition page_count :: "arena \<Rightarrow> u32" where
  "page_count ar = (if desc ar = None then free_cnt ar else 1)"

definition page_blocks :: "heap \<Rightarrow> page_block set" where
  "page_blocks hp = {(a, page_count ar) | a ar. arenas hp a = Some ar}"

definition arena_ok :: "heap \<Rightarrow> u32 \<Rightarrow> arena \<Rightarrow> bool" where
  "arena_ok hp a ar \<longleftrightarrow> magic ar = ARENA_MAGIC \<and>
     (\<forall>d. desc ar = Some d \<longrightarrow> d < length (descs hp) \<and>
        unat (free_cnt ar) = length (filter (\<lambda>b. pg_round_down b = a) (free_list (descs hp ! d))))"

definition list_ok :: "heap \<Rightarrow> nat \<Rightarrow> bool" where
  "list_ok hp d \<longleftrightarrow> distinct (free_list (descs hp ! d)) \<and>
     (\<forall>b\<in>set (free_list (descs hp ! d)). \<exists>ar. arenas hp (pg_round_down b) = Some ar \<and> desc ar = Some d \<and>
        b \<in> set (blks (pg_round_down b) (descs hp ! d)))"

text \<open>The page allocator sees the arenas among the blocks it has given out; the other ones belong to
  other parts of the kernel.\<close>

definition heap_inv :: "heap \<Rightarrow> page_block list \<Rightarrow> bool" where
  "heap_inv hp others \<longleftrightarrow> (\<forall>dd\<in>set (descs hp). desc_ok dd) \<and>
     (\<exists>pl. holds hp (pl @ others) \<and> set pl = page_blocks hp) \<and>
     (\<forall>a ar. arenas hp a = Some ar \<longrightarrow> arena_ok hp a ar) \<and>
     (\<forall>d < length (descs hp). list_ok hp d)"

text \<open>What the clients hold: the blocks in use with their sizes.\<close>

definition alloc :: "heap \<Rightarrow> u32 \<Rightarrow> u32 option" where
  "alloc hp p =
    (case arenas hp (pg_round_down p) of None \<Rightarrow> None
     | Some ar \<Rightarrow>
       (case desc ar of
          None \<Rightarrow> if pg_ofs p = sizeof_arena then Some (PGSIZE * free_cnt ar - sizeof_arena) else None
        | Some d \<Rightarrow>
            let dd = descs hp ! d in
            if p \<in> set (blks (pg_round_down p) dd) \<and> p \<notin> set (free_list dd) then Some (block_size dd) else None))"

section \<open>Addresses of blocks\<close>

lemma aligned_page:
  fixes a :: u32
  assumes "pg_ofs a = 0" obtains k where "unat a = 4096 * k" "k < 2 ^ 20"
proof -
  have "unat a mod 4096 = 0" using assms unat_pg_ofs [of a] by simp
  then obtain k where k: "unat a = 4096 * k" by auto
  have "unat a < 2 ^ 32" using unsigned_less [where ?'a = nat, of a] by simp
  then show thesis using that k by simp
qed

lemma in_page:
  assumes "pg_ofs a = 0" "unat x < 4096"
  shows "unat (a + x) = unat a + unat x" "pg_round_down (a + x) = a" "pg_ofs (a + x) = x"
proof -
  obtain k where k: "unat a = 4096 * k" "k < 2 ^ 20" by (rule aligned_page [OF assms(1)])
  have u: "unat (a + x) = 4096 * k + unat x" using k assms(2) by (simp add: unat_word_ariths)
  then show "unat (a + x) = unat a + unat x" using k by simp
  have "unat (pg_round_down (a + x)) = unat a" using u k(1) assms(2) by (simp add: unat_round_down)
  then show "pg_round_down (a + x) = a" by (rule unsigned_word_eqI)
  have "unat (pg_ofs (a + x)) = unat x" using u assms(2) by (simp add: unat_pg_ofs)
  then show "pg_ofs (a + x) = x" by (rule unsigned_word_eqI)
qed

lemma blk_offset:
  assumes "desc_ok dd" "i < unat (blocks_per_arena dd)"
  shows "unat (sizeof_arena + of_nat i * block_size dd) = 12 + i * unat (block_size dd)"
    "12 + i * unat (block_size dd) + unat (block_size dd) \<le> 4096"
    "unat (of_nat i * block_size dd) = i * unat (block_size dd)"
proof -
  have "(i + 1) * unat (block_size dd) \<le> unat (blocks_per_arena dd) * unat (block_size dd)"
    using assms(2) by (intro mult_le_mono1) simp
  then show b: "12 + i * unat (block_size dd) + unat (block_size dd) \<le> 4096"
    using assms(1) by (simp add: desc_ok_def)
  have "i < 2 ^ 32" using assms(2) unsigned_less [where ?'a = nat, of "blocks_per_arena dd"] by simp
  then have "unat (of_nat i :: u32) = i" by (simp add: unat_of_nat)
  then show m: "unat (of_nat i * block_size dd) = i * unat (block_size dd)" using b by (simp add: unat_word_ariths)
  show "unat (sizeof_arena + of_nat i * block_size dd) = 12 + i * unat (block_size dd)"
    using b by (simp add: sizeof_arena_def unat_word_ariths(1) m)
qed

lemma blk_addr:
  assumes "desc_ok dd" "i < unat (blocks_per_arena dd)" "pg_ofs a = 0"
  shows "unat (blk a dd i) = unat a + 12 + i * unat (block_size dd)" "pg_round_down (blk a dd i) = a"
    "unat (pg_ofs (blk a dd i)) = 12 + i * unat (block_size dd)" "(pg_ofs (blk a dd i) - sizeof_arena) mod block_size dd = 0"
proof -
  note o = blk_offset [OF assms(1,2)]
  have bs: "0 < unat (block_size dd)" using assms(1) by (simp add: desc_ok_def)
  let ?x = "sizeof_arena + of_nat i * block_size dd"
  have x: "unat ?x < 4096" using o bs by linarith
  note p = in_page [OF assms(3) x]
  have e: "blk a dd i = a + ?x" by (simp add: blk_def add.assoc)
  show "unat (blk a dd i) = unat a + 12 + i * unat (block_size dd)" using p(1) o(1) by (simp add: e)
  show "pg_round_down (blk a dd i) = a" using p(2) by (simp add: e)
  show "unat (pg_ofs (blk a dd i)) = 12 + i * unat (block_size dd)" using p(3) o(1) by (simp add: e)
  have "pg_ofs (blk a dd i) - sizeof_arena = of_nat i * block_size dd" using p(3) by (simp add: e)
  then have "unat ((pg_ofs (blk a dd i) - sizeof_arena) mod block_size dd) = 0" using o(3) by (simp add: unat_mod)
  then show "(pg_ofs (blk a dd i) - sizeof_arena) mod block_size dd = 0" by (simp add: unsigned_eq_0_iff)
qed

lemma blks_distinct:
  assumes "desc_ok dd" "pg_ofs a = 0" shows "distinct (blks a dd)"
proof -
  have "i = j" if "i < unat (blocks_per_arena dd)" "j < unat (blocks_per_arena dd)" "blk a dd i = blk a dd j" for i j
    using arg_cong [OF that(3), of unat] blk_addr(1) [OF assms(1) _ assms(2)] that(1,2) assms(1)
    by (simp add: desc_ok_def)
  then show ?thesis by (auto simp: blks_def distinct_map inj_on_def)
qed

lemma in_blks:
  assumes "desc_ok dd" "pg_ofs a = 0" "b \<in> set (blks a dd)"
  obtains i where "i < unat (blocks_per_arena dd)" "b = blk a dd i" "pg_round_down b = a"
  using assms blk_addr(2) [OF assms(1) _ assms(2)] by (auto simp: blks_def)

section \<open>Changes of the heap\<close>

lemma set_simps [simp]:
  "arenas (set_free_list d fl hp) = arenas hp" "arenas (set_arena a ar hp) = (arenas hp)(a := ar)"
  "descs (set_arena a ar hp) = descs hp" "length (descs (set_free_list d fl hp)) = length (descs hp)"
  "pool_of u (set_free_list d fl hp) = pool_of u hp" "pool_of u (set_arena a ar hp) = pool_of u hp"
  "bytes (set_free_list d fl hp) = bytes hp" "bytes (set_arena a ar hp) = bytes hp"
  by (simp_all add: set_free_list_def set_arena_def pool_of_def)

lemma descs_set_free_list [simp]:
  "d < length (descs hp) \<Longrightarrow> descs (set_free_list d fl hp) ! e = (if e = d then (descs hp ! d)\<lparr>free_list := fl\<rparr> else descs hp ! e)"
  by (auto simp: set_free_list_def nth_list_update)

lemma blks_free_list [simp]:
  "blks a (dd\<lparr>free_list := fl\<rparr>) = blks a dd" "desc_ok (dd\<lparr>free_list := fl\<rparr>) = desc_ok dd" "blk a (dd\<lparr>free_list := fl\<rparr>) i = blk a dd i"
  by (simp_all add: blks_def blk_def [abs_def] desc_ok_def)

lemma holds_cong: "(\<And>u. pool_of u s = pool_of u t) \<Longrightarrow> holds s live = holds t live"
  by (simp add: holds_alt block_ok_def)

lemma more_heap: "pages.more (s :: heap) = pages.more t \<Longrightarrow> descs s = descs t \<and> arenas s = arenas t"
  by (cases s; cases t) (auto simp: heap.defs)

lemma heapD:
  assumes "heap_inv hp others"
  shows "d < length (descs hp) \<Longrightarrow> desc_ok (descs hp ! d)" "d < length (descs hp) \<Longrightarrow> list_ok hp d"
    "arenas hp a = Some ar \<Longrightarrow> magic ar = ARENA_MAGIC" "arenas hp a = Some ar \<Longrightarrow> pg_ofs a = 0" "arenas hp a = Some ar \<Longrightarrow> a \<noteq> 0"
    "arenas hp a = Some ar \<Longrightarrow> desc ar = Some d \<Longrightarrow> d < length (descs hp)"
    "arenas hp a = Some ar \<Longrightarrow> desc ar = Some d \<Longrightarrow>
       unat (free_cnt ar) = length (filter (\<lambda>b. pg_round_down b = a) (free_list (descs hp ! d)))"
proof -
  obtain pl where pl: "holds hp (pl @ others)" "set pl = page_blocks hp" using assms by (auto simp: heap_inv_def)
  {
    assume "arenas hp a = Some ar"
    then have "(a, page_count ar) \<in> set pl" unfolding pl(2) page_blocks_def by blast
    then have b: "block_ok hp (a, page_count ar)" using pl(1) by (auto simp: holds_def)
    then show "pg_ofs a = 0" by (simp add: block_ok_def)
    obtain u n where "set (pages_of (a, n)) \<subseteq> pool_pages (pool_of u hp)" "n \<noteq> 0" using b by (auto simp: block_ok_def)
    then have "unat a div 4096 \<in> pool_pages (pool_of u hp)"
      using unsigned_eq_0_iff [where ?'a = nat, of n] by (auto simp: pages_of_def)
    moreover have "first_page (pool_of u hp) > 0" using poolD(3) pl(1) by (simp add: holds_alt)
    ultimately have "unat a \<noteq> 0" by (auto simp: pool_pages_def)
    then show "a \<noteq> 0" by auto
  }
qed (use assms in \<open>auto simp: heap_inv_def arena_ok_def\<close>)

lemma change_list:
  assumes "heap_inv hp others" "arenas hp a = Some ar" "desc ar = Some d" "distinct fl"
    and "set fl \<subseteq> set (free_list (descs hp ! d)) \<union> set (blks a (descs hp ! d))"
    and "unat c = length (filter (\<lambda>b. pg_round_down b = a) fl)"
    and "\<And>a'. a' \<noteq> a \<Longrightarrow> filter (\<lambda>b. pg_round_down b = a') fl = filter (\<lambda>b. pg_round_down b = a') (free_list (descs hp ! d))"
  defines "hp' \<equiv> set_arena a (Some (ar\<lparr>free_cnt := c\<rparr>)) (set_free_list d fl hp)"
  shows "heap_inv hp' others"
    "alloc hp' p = (if pg_round_down p = a then
        (if p \<in> set (blks a (descs hp ! d)) \<and> p \<notin> set fl then Some (block_size (descs hp ! d)) else None) else alloc hp p)"
proof -
  note h = heapD [OF assms(1)]
  have d: "d < length (descs hp)" using h(6) assms(2,3) by blast
  have al: "pg_ofs a = 0" using h(4) assms(2) by blast
  have pb: "page_blocks hp' = page_blocks hp"
    using assms(2,3) by (auto simp: page_blocks_def hp'_def page_count_def) (metis option.distinct(1))+
  have hol: "holds hp' l = holds hp l" for l by (rule holds_cong) (simp add: hp'_def)
  have ds: "desc_ok dd" if "dd \<in> set (descs hp')" for dd
    using that h(1) d by (auto simp: hp'_def in_set_conv_nth split: if_splits)
  have ao: "arena_ok hp' a' ar'" if "arenas hp' a' = Some ar'" for a' ar'
    using that d assms(1-3,6,7) h(3,6,7) by (auto simp: arena_ok_def hp'_def split: if_splits)
  have lo: "list_ok hp' e" if e: "e < length (descs hp')" for e
  proof (cases "e = d")
    case True
    have "\<exists>ar. arenas hp' (pg_round_down b) = Some ar \<and> desc ar = Some d \<and> b \<in> set (blks (pg_round_down b) (descs hp ! d))"
      if "b \<in> set fl" for b
    proof (cases "b \<in> set (free_list (descs hp ! d))")
      case True
      then show ?thesis using h(2) [OF d] assms(2) by (auto simp: list_ok_def hp'_def)
    next
      case False
      then have "b \<in> set (blks a (descs hp ! d))" using that assms(5) by blast
      then show ?thesis using in_blks [OF h(1) [OF d] al] assms(3) by (auto simp: hp'_def)
    qed
    then show ?thesis using True d assms(4) by (simp add: list_ok_def hp'_def)
  next
    case False
    have "list_ok hp e" using h(2) e by (simp add: hp'_def)
    then show ?thesis using False d assms(2,3) by (fastforce simp: list_ok_def hp'_def)
  qed
  show "heap_inv hp' others"
    using assms(1) pb hol ds ao lo by (auto simp: heap_inv_def)
  have mem: "p \<in> set fl \<longleftrightarrow> p \<in> set (free_list (descs hp ! d))" if "pg_round_down p \<noteq> a"
    using arg_cong [OF assms(7) [OF that], of "\<lambda>xs. p \<in> set xs"] by simp
  show "alloc hp' p = (if pg_round_down p = a then
        (if p \<in> set (blks a (descs hp ! d)) \<and> p \<notin> set fl then Some (block_size (descs hp ! d)) else None) else alloc hp p)"
    using d assms(3) mem by (auto simp: alloc_def hp'_def split: option.splits)
qed

lemma alloc_cong: "descs hp' = descs hp \<Longrightarrow> arenas hp' (pg_round_down p) = arenas hp (pg_round_down p) \<Longrightarrow> alloc hp' p = alloc hp p"
  by (simp only: alloc_def)

lemma add_arena:
  assumes "heap_inv hp others" "holds hp' ((a, n) # pl @ others)" "set pl = page_blocks hp"
    and "descs hp' = descs hp" "arenas hp' = (arenas hp)(a \<mapsto> ar)" "magic ar = ARENA_MAGIC"
    and "n = page_count ar"
    and "\<And>d. desc ar = Some d \<Longrightarrow> d < length (descs hp) \<and> free_cnt ar = 0"
  shows "arenas hp a = None" "heap_inv hp' others" "pg_ofs a = 0" "a \<noteq> 0"
    "pg_round_down p \<noteq> a \<Longrightarrow> alloc hp' p = alloc hp p"
proof -
  note h = heapD [OF assms(1)]
  show new: "arenas hp a = None"
  proof (rule ccontr)
    assume "arenas hp a \<noteq> None"
    then obtain m where "(a, m) \<in> set pl" unfolding assms(3) page_blocks_def by auto
    moreover have "block_ok hp' (a, m)" "block_ok hp' (a, n)" using assms(2) calculation by (auto simp: holds_def)
    ultimately have "unat a div 4096 \<in> set (pages_of (a, n)) \<inter> set (concat (map pages_of pl))"
      using unsigned_eq_0_iff [where ?'a = nat, of n] unsigned_eq_0_iff [where ?'a = nat, of m]
      by (force simp: pages_of_def block_ok_def)
    then show False using assms(2) by (auto simp: holds_def)
  qed
  have none: "filter (\<lambda>b. pg_round_down b = a) (free_list (descs hp ! d)) = []" if "d < length (descs hp)" for d
    using h(2) [OF that] new by (auto simp: list_ok_def filter_empty_conv)
  have "page_blocks hp' = insert (a, n) (page_blocks hp)"
    using new assms(5,7) by (auto simp: page_blocks_def split: if_splits)
  then have pl: "\<exists>pl. holds hp' (pl @ others) \<and> set pl = page_blocks hp'"
    using assms(2,3) by (intro exI [of _ "(a, n) # pl"]) simp
  have ao: "arena_ok hp' a' ar'" if "arenas hp' a' = Some ar'" for a' ar'
    using that h(3,6,7) none assms(4-6,8) by (auto simp: arena_ok_def split: if_splits)
  have lo: "list_ok hp' d" if "d < length (descs hp')" for d
    using h(2) [of d] that new assms(4,5) by (auto simp: list_ok_def)
  show inv: "heap_inv hp' others"
    unfolding heap_inv_def using pl ao lo assms(1,4) by (auto simp: heap_inv_def)
  show "pg_ofs a = 0" "a \<noteq> 0" using heapD(4,5) [OF inv] assms(5) by auto
  show "alloc hp' p = alloc hp p" if "pg_round_down p \<noteq> a"
    by (rule alloc_cong) (use that assms(4,5) in auto)
qed

lemma drop_arena:
  assumes "heap_inv hp others" "holds hp' (remove1 (a, n) pl @ others)" "holds hp (pl @ others)" "set pl = page_blocks hp"
    and "descs hp' = descs hp" "arenas hp' = (arenas hp)(a := None)" "arenas hp a = Some ar"
    and "n = page_count ar"
    and "\<And>d. desc ar = Some d \<Longrightarrow> free_cnt ar = 0"
  shows "heap_inv hp' others" "alloc hp' p = (if pg_round_down p = a then None else alloc hp p)"
proof -
  note h = heapD [OF assms(1)]
  have "(a, n) \<in> set pl" unfolding assms(4) using assms(7,8) by (auto simp: page_blocks_def)
  have dpl: "distinct pl"
  proof -
    have "distinct (concat (map pages_of pl))" "\<forall>b\<in>set pl. pages_of b \<noteq> []"
      using assms(3) pages_of_neq_Nil by (auto simp: holds_def block_ok_def)
    then show ?thesis
    proof (induction pl)
      case (Cons x xs)
      obtain y where "y \<in> set (pages_of x)" using Cons.prems(2) by (cases "pages_of x") auto
      then have "x \<notin> set xs" using Cons.prems(1) by auto
      then show ?case using Cons by simp
    qed simp
  qed
  have "page_blocks hp' = page_blocks hp - {(a, n)}"
    using assms(6-8) by (auto simp: page_blocks_def split: if_splits) (metis option.inject)
  then have pl: "\<exists>pl. holds hp' (pl @ others) \<and> set pl = page_blocks hp'"
    using assms(2,4) dpl by (intro exI [of _ "remove1 (a, n) pl"]) simp
  have ao: "arena_ok hp' a' ar'" if "arenas hp' a' = Some ar'" for a' ar'
    using that h(3,6,7) assms(5,6) by (auto simp: arena_ok_def split: if_splits)
  have none: "pg_round_down b \<noteq> a" if "b \<in> set (free_list (descs hp ! d))" "d < length (descs hp)" for b d
  proof
    assume e: "pg_round_down b = a"
    then have "desc ar = Some d" using h(2) [OF that(2)] that(1) assms(7) by (auto simp: list_ok_def)
    then have "filter (\<lambda>b. pg_round_down b = a) (free_list (descs hp ! d)) = []"
      using h(7) [OF assms(7), of d] assms(9) by simp
    then show False using that(1) e by (auto simp: filter_empty_conv)
  qed
  have lo: "list_ok hp' d" if "d < length (descs hp')" for d
    using h(2) [of d] that none [of _ d] assms(5,6) by (auto simp: list_ok_def)
  show "heap_inv hp' others"
    unfolding heap_inv_def using pl ao lo assms(1,5) by (auto simp: heap_inv_def)
  show "alloc hp' p = (if pg_round_down p = a then None else alloc hp p)"
    using assms(6) alloc_cong [OF assms(5), of p] by (auto simp: alloc_def)
qed

section \<open>Allocation\<close>

lemma block_to_arena_small:
  assumes "arenas hp a = Some ar" "desc ar = Some d" "d < length (descs hp)" "desc_ok (descs hp ! d)" "magic ar = ARENA_MAGIC"
    and "pg_ofs a = 0" "a \<noteq> 0" "b \<in> set (blks a (descs hp ! d))"
  shows "block_to_arena b hp = Some a"
proof -
  obtain i where i: "i < unat (blocks_per_arena (descs hp ! d))" "b = blk a (descs hp ! d) i" "pg_round_down b = a"
    by (rule in_blks [OF assms(4,6,8)])
  show ?thesis
    using assms i(3) blk_addr(4) [OF assms(4) i(1) assms(6)] by (simp add: block_to_arena_def Let_def i(2))
qed

lemma take_block_spec:
  assumes "heap_inv hp others" "d < length (descs hp)" "free_list (descs hp ! d) \<noteq> []"
  obtains b hp' where "take_block d hp = Some (b, hp')" "heap_inv hp' others" "b \<noteq> 0" "alloc hp b = None"
    "alloc hp' = (alloc hp)(b \<mapsto> block_size (descs hp ! d))" "bytes hp' = bytes hp"
    "\<And>u. pool_of u hp' = pool_of u hp"
proof -
  note h = heapD [OF assms(1)]
  obtain b fl where fl: "free_list (descs hp ! d) = b # fl" using assms(3) by (cases "free_list (descs hp ! d)") auto
  let ?a = "pg_round_down b" and ?dd = "descs hp ! d"
  obtain ar where ar: "arenas hp ?a = Some ar" "desc ar = Some d" "b \<in> set (blks ?a ?dd)" and dis: "distinct (b # fl)"
    using h(2) [OF assms(2)] fl by (auto simp: list_ok_def)
  have cnt: "unat (free_cnt ar) = Suc (length (filter (\<lambda>b. pg_round_down b = ?a) fl))"
    using h(7) [OF ar(1,2)] fl by simp
  then have c: "unat (free_cnt ar - 1) = length (filter (\<lambda>b. pg_round_down b = ?a) fl)"
    by (simp add: unat_sub word_le_nat_alt)
  let ?hp = "set_arena ?a (Some (ar\<lparr>free_cnt := free_cnt ar - 1\<rparr>)) (set_free_list d fl hp)"
  have sub: "set fl \<subseteq> set (free_list ?dd) \<union> set (blks ?a ?dd)" and oth: "\<And>a'. a' \<noteq> ?a \<Longrightarrow>
      filter (\<lambda>b. pg_round_down b = a') fl = filter (\<lambda>b. pg_round_down b = a') (free_list ?dd)"
    using fl by auto
  note ch = change_list [OF assms(1) ar(1,2) _ sub c oth]
  have dfl: "distinct fl" using dis by simp
  have a: "pg_ofs ?a = 0" "?a \<noteq> 0" "magic ar = ARENA_MAGIC" using h(3-5) ar(1) by blast+
  have nb: "block_to_arena b (set_free_list d fl hp) = Some ?a"
    by (rule block_to_arena_small [of _ _ ar d]) (use ar a assms(2) h(1) in auto)
  have al: "alloc ?hp = (alloc hp)(b \<mapsto> block_size ?dd)"
  proof
    fix p show "alloc ?hp p = ((alloc hp)(b \<mapsto> block_size ?dd)) p"
      using ch(2) [OF dfl, of p] ar fl dis by (auto simp: alloc_def Let_def)
  qed
  have "b \<noteq> 0"
  proof
    assume "b = 0"
    moreover have "pg_round_down 0 = 0" by (simp add: pg_round_down_def)
    ultimately show False using a(2) by simp
  qed
  moreover have "alloc hp b = None" using ar fl by (simp add: alloc_def)
  ultimately show thesis
    using that [of b ?hp] ch(1) [OF dfl] al nb fl ar(1) assms(2) by (simp add: take_block_def)
qed

lemma set_free_list_twice [simp]:
  "d < length (descs hp) \<Longrightarrow> set_free_list d fl' (set_free_list d fl hp) = set_free_list d fl' hp"
  by (simp add: set_free_list_def)

lemma arena_to_block_eq:
  assumes "arenas hp a = Some ar" "desc ar = Some d" "d < length (descs hp)" "magic ar = ARENA_MAGIC" "a \<noteq> 0"
    and "desc_ok (descs hp ! d)" "i < unat (blocks_per_arena (descs hp ! d))"
  shows "arena_to_block a (of_nat i) hp = Some (blk a (descs hp ! d) i)"
proof -
  have "i < 2 ^ 32" using assms(7) unsigned_less [where ?'a = nat, of "blocks_per_arena (descs hp ! d)"] by simp
  then have "(of_nat i :: u32) < blocks_per_arena (descs hp ! d)" using assms(7) by (simp add: word_less_nat_alt unat_of_nat)
  then show ?thesis using assms by (simp add: arena_to_block_def blk_def)
qed

lemma add_blocks_eq:
  assumes "arenas hp a = Some ar" "desc ar = Some d" "d < length (descs hp)" "magic ar = ARENA_MAGIC" "a \<noteq> 0"
    and "desc_ok (descs hp ! d)" "set is \<subseteq> {0..<unat (blocks_per_arena (descs hp ! d))}"
  shows "add_blocks a d is hp = Some (set_free_list d (free_list (descs hp ! d) @ map (blk a (descs hp ! d)) is) hp)"
  using assms
proof (induction "is" arbitrary: hp)
  case Nil
  then show ?case by (simp add: set_free_list_def)
next
  case (Cons i "is")
  let ?dd = "descs hp ! d"
  have b: "arena_to_block a (of_nat i) hp = Some (blk a ?dd i)"
    by (rule arena_to_block_eq [OF Cons.prems(1-6)]) (use Cons.prems(7) in simp)
  have "add_blocks a d is (set_free_list d (free_list ?dd @ [blk a ?dd i]) hp) =
      Some (set_free_list d (free_list ?dd @ map (blk a ?dd) (i # is)) hp)"
    using Cons.IH [of "set_free_list d (free_list ?dd @ [blk a ?dd i]) hp"] Cons.prems by simp
  then show ?case using b Cons.prems(3) by simp
qed

lemma no_flags [simp]: "0 AND PAL_USER = 0" "0 AND PAL_ZERO = 0" "0 AND PAL_ASSERT = 0"
  by simp_all

lemma new_arena_spec:
  assumes "heap_inv hp others" "d < length (descs hp)" "free_list (descs hp ! d) = []"
  obtains (new) hp' where "new_arena d hp = Some (True, hp')" "heap_inv hp' others" "alloc hp' = alloc hp" "bytes hp' = bytes hp"
      "length (descs hp') = length (descs hp)" "block_size (descs hp' ! d) = block_size (descs hp ! d)" "free_list (descs hp' ! d) \<noteq> []"
  | (none) "new_arena d hp = Some (False, hp)"
proof -
  note h = heapD [OF assms(1)]
  obtain pl where pl: "holds hp (pl @ others)" "set pl = page_blocks hp" using assms(1) by (auto simp: heap_inv_def)
  let ?dd = "descs hp ! d"
  show thesis
  proof (rule get_multiple_spec [OF pl(1), of 1 0])
    fix a s assume g: "palloc_get_multiple 0 1 hp = Some (a, s)" "a \<noteq> 0" "holds s ((a, 1) # pl @ others)"
      "pages.more s = pages.more hp" "bytes s = (if 0 AND PAL_ZERO \<noteq> 0 then fill a (PGSIZE * 1) 0 (bytes hp) else bytes hp)"
    have more: "descs s = descs hp" "arenas s = arenas hp" using more_heap [OF g(4)] by auto
    define ar0 where "ar0 = \<lparr>magic = ARENA_MAGIC, desc = Some d, free_cnt = 0\<rparr>"
    let ?ar = "\<lparr>magic = ARENA_MAGIC, desc = Some d, free_cnt = blocks_per_arena ?dd\<rparr>"
    define s0 where "s0 = set_arena a (Some ar0) s"
    have "holds s0 ((a, 1) # pl @ others)" using g(3) holds_cong [of s0 s] by (simp add: s0_def)
    note ad = add_arena [OF assms(1) this pl(2), of ar0]
    have s0: "arenas hp a = None" "heap_inv s0 others" "pg_ofs a = 0" "\<And>p. pg_round_down p \<noteq> a \<Longrightarrow> alloc s0 p = alloc hp p"
      using ad assms(2) more by (auto simp: s0_def ar0_def page_count_def)
    have ds: "descs s0 = descs hp" "arenas s0 a = Some ar0" using more by (simp_all add: s0_def)
    have ok: "desc_ok ?dd" using h(1) assms(2) .
    have all: "filter (\<lambda>b. pg_round_down b = a) (blks a ?dd) = blks a ?dd"
      using in_blks [OF ok s0(3)] by (simp add: filter_id_conv) metis
    have oth: "filter (\<lambda>b. pg_round_down b = a') (blks a ?dd) = filter (\<lambda>b. pg_round_down b = a') (free_list (descs s0 ! d))"
      if "a' \<noteq> a" for a'
      using that in_blks [OF ok s0(3)] assms(3) ds by (simp add: filter_empty_conv) metis
    let ?hp = "set_free_list d (blks a ?dd) (set_arena a (Some ?ar) s)"
    have e: "set_arena a (Some (ar0\<lparr>free_cnt := blocks_per_arena ?dd\<rparr>)) (set_free_list d (blks a ?dd) s0) = ?hp"
      by (simp add: s0_def set_arena_def set_free_list_def ar0_def)
    note ch = change_list [OF s0(2) ds(2), of d "blks a ?dd" "blocks_per_arena ?dd", unfolded e]
    have inv: "heap_inv ?hp others"
      by (rule ch(1)) (use oth all ds blks_distinct [OF ok s0(3)] in \<open>auto simp: ar0_def blks_def\<close>)
    have "alloc ?hp p = alloc hp p" for p
    proof (cases "pg_round_down p = a")
      case True
      have "alloc ?hp p = None"
        by (subst ch(2)) (use oth all ds blks_distinct [OF ok s0(3)] True in \<open>auto simp: ar0_def blks_def\<close>)
      moreover have "alloc hp p = None" using s0(1) True by (simp add: alloc_def)
      ultimately show ?thesis by simp
    next
      case False
      have "alloc ?hp p = alloc s0 p"
        by (subst ch(2)) (use oth all ds blks_distinct [OF ok s0(3)] False in \<open>auto simp: ar0_def blks_def\<close>)
      then show ?thesis using s0(4) False by simp
    qed
    moreover have "add_blocks a d [0..<unat (blocks_per_arena ?dd)] (set_arena a (Some ?ar) s) = Some ?hp"
      using add_blocks_eq [of "set_arena a (Some ?ar) s" a ?ar d "[0..<unat (blocks_per_arena ?dd)]"] assms(2,3) ok g(2) more
      by (simp add: blks_def)
    ultimately show thesis
      using new [of ?hp] inv g(1,2,5) assms(2) more ok by (auto simp: new_arena_def palloc_get_page_def blks_def desc_ok_def)
  next
    assume "1 = 0 \<or> (\<forall>j. \<not> free_run (pool_of (0 AND PAL_USER \<noteq> 0) hp) 1 j)"
      "palloc_get_multiple 0 1 hp = (if 1 = 0 \<or> 0 AND PAL_ASSERT = 0 then Some (0, hp) else None)"
    then show thesis using none assms(2) by (simp add: new_arena_def palloc_get_page_def)
  qed
qed

lemma at_arena_start:
  assumes "pg_ofs a = 0"
  shows "pg_round_down (a + sizeof_arena) = a" "pg_ofs (a + sizeof_arena) = sizeof_arena"
    "pg_round_down p = a \<Longrightarrow> pg_ofs p = sizeof_arena \<Longrightarrow> p = a + sizeof_arena"
  using in_page(2,3) [OF assms, of sizeof_arena] round_down_add [of p] by (auto simp: sizeof_arena_def)

lemma round_down_0 [simp]: "pg_round_down 0 = 0"
  by (simp add: pg_round_down_def)

lemma big_size:
  fixes sz :: u32
  assumes "unat sz \<le> 2 ^ 32 - 4108"
  shows "sz \<le> PGSIZE * ((sz + sizeof_arena + PGSIZE - 1) div PGSIZE) - sizeof_arena"
proof -
  have e: "sz + sizeof_arena + PGSIZE - 1 = sz + 4107" by (simp add: sizeof_arena_def PGSIZE_eq)
  have s: "unat (sz + 4107) = unat sz + 4107" using assms by (simp add: unat_word_ariths)
  have q: "unat ((sz + 4107) div PGSIZE) = (unat sz + 4107) div 4096" using s by (simp add: unat_div PGSIZE_eq)
  have "(unat sz + 4107) div 4096 * 4096 \<le> unat sz + 4107" "unat sz + 12 \<le> (unat sz + 4107) div 4096 * 4096" by simp_all
  moreover have "unat (PGSIZE * ((sz + 4107) div PGSIZE)) = 4096 * ((unat sz + 4107) div 4096)"
    using q assms calculation(1) by (simp add: unat_word_ariths PGSIZE_eq)
  ultimately show ?thesis unfolding e by (simp add: word_le_nat_alt unat_sub sizeof_arena_def)
qed

lemma malloc_big_spec:
  assumes "heap_inv hp others"
  obtains (got) p n hp' where "malloc_big sz hp = Some (p, hp')" "heap_inv hp' others" "p \<noteq> 0" "alloc hp p = None"
      "alloc hp' = (alloc hp)(p \<mapsto> n)" "unat sz \<le> 2 ^ 32 - 4108 \<Longrightarrow> sz \<le> n" "bytes hp' = bytes hp"
  | (none) "malloc_big sz hp = Some (0, hp)"
proof -
  obtain pl where pl: "holds hp (pl @ others)" "set pl = page_blocks hp" using assms by (auto simp: heap_inv_def)
  define n where "n = (sz + sizeof_arena + PGSIZE - 1) div PGSIZE"
  show thesis
  proof (rule get_multiple_spec [OF pl(1), of n 0])
    fix a s assume g: "palloc_get_multiple 0 n hp = Some (a, s)" "a \<noteq> 0" "holds s ((a, n) # pl @ others)"
      "pages.more s = pages.more hp" "bytes s = (if 0 AND PAL_ZERO \<noteq> 0 then fill a (PGSIZE * n) 0 (bytes hp) else bytes hp)"
    have more: "descs s = descs hp" "arenas s = arenas hp" using more_heap [OF g(4)] by auto
    let ?ar = "\<lparr>magic = ARENA_MAGIC, desc = None, free_cnt = n\<rparr>"
    let ?hp = "set_arena a (Some ?ar) s"
    have "holds ?hp ((a, n) # pl @ others)" using g(3) holds_cong [of ?hp s] by simp
    note ad = add_arena [OF assms this pl(2), of ?ar]
    have hp: "arenas hp a = None" "heap_inv ?hp others" "pg_ofs a = 0" "\<And>p. pg_round_down p \<noteq> a \<Longrightarrow> alloc ?hp p = alloc hp p"
      using ad more by (auto simp: page_count_def)
    note st = at_arena_start [OF hp(3)]
    have "alloc ?hp = (alloc hp)(a + sizeof_arena \<mapsto> PGSIZE * n - sizeof_arena)"
    proof
      fix p show "alloc ?hp p = ((alloc hp)(a + sizeof_arena \<mapsto> PGSIZE * n - sizeof_arena)) p"
      proof (cases "pg_round_down p = a")
        case True
        then have "alloc ?hp p = (if pg_ofs p = sizeof_arena then Some (PGSIZE * n - sizeof_arena) else None)" "alloc hp p = None"
          using hp(1) by (simp_all add: alloc_def)
        moreover have "p = a + sizeof_arena \<longleftrightarrow> pg_ofs p = sizeof_arena" using st(2) st(3) [OF True] by blast
        ultimately show ?thesis by simp
      next
        case False
        then show ?thesis using hp(4) st(1) by auto
      qed
    qed
    moreover have "alloc hp (a + sizeof_arena) = None" using st(1) hp(1) by (simp add: alloc_def)
    moreover have "a + sizeof_arena \<noteq> 0" using st(1) g(2) by auto
    moreover have "malloc_big sz hp = Some (a + sizeof_arena, ?hp)"
      using g(1,2) unfolding malloc_big_def Let_def n_def [symmetric] by simp
    moreover have "bytes ?hp = bytes hp" using g(5) by simp
    ultimately show thesis using got hp(2) big_size [of sz, folded n_def] by blast
  next
    assume "n = 0 \<or> (\<forall>j. \<not> free_run (pool_of (0 AND PAL_USER \<noteq> 0) hp) n j)"
      "palloc_get_multiple 0 n hp = (if n = 0 \<or> 0 AND PAL_ASSERT = 0 then Some (0, hp) else None)"
    then show thesis using none by (simp add: malloc_big_def n_def)
  qed
qed

lemma find_desc_Some: "find_desc ds sz = Some d \<Longrightarrow> d < length ds \<and> sz \<le> block_size (ds ! d)"
  by (induction ds arbitrary: d) (auto split: if_splits)

lemma malloc_spec:
  assumes "heap_inv hp others"
  obtains (got) p n hp' where "malloc sz hp = Some (p, hp')" "heap_inv hp' others" "p \<noteq> 0" "alloc hp p = None"
      "alloc hp' = (alloc hp)(p \<mapsto> n)" "unat sz \<le> 2 ^ 32 - 4108 \<Longrightarrow> sz \<le> n" "bytes hp' = bytes hp"
  | (none) "malloc sz hp = Some (0, hp)"
proof (cases "sz = 0")
  case True
  then show thesis using none by (simp add: malloc_def)
next
  case sz: False
  show thesis
  proof (cases "find_desc (descs hp) sz")
    case None
    then have e: "malloc sz hp = malloc_big sz hp" using sz by (simp add: malloc_def)
    show thesis by (rule malloc_big_spec [OF assms, of sz]) (use got none in \<open>simp_all add: e\<close>)
  next
    case (Some d)
    then have d: "d < length (descs hp)" "sz \<le> block_size (descs hp ! d)" using find_desc_Some by blast+
    have go: thesis if s: "heap_inv s others" "alloc s = alloc hp" "bytes s = bytes hp" "d < length (descs s)"
        "block_size (descs s ! d) = block_size (descs hp ! d)" "free_list (descs s ! d) \<noteq> []"
        "malloc sz hp = take_block d s" for s
    proof (rule take_block_spec [OF s(1,4,6)])
      fix b s'
      assume "take_block d s = Some (b, s')" "heap_inv s' others" "b \<noteq> 0" "alloc s b = None"
        "alloc s' = (alloc s)(b \<mapsto> block_size (descs s ! d))" "bytes s' = bytes s"
      then show thesis using got [of b s' "block_size (descs hp ! d)"] s d(2) by simp
    qed
    show thesis
    proof (cases "free_list (descs hp ! d) = []")
      case False
      then show thesis using go [of hp] assms d Some sz by (simp add: malloc_def)
    next
      case True
      show thesis
      proof (rule new_arena_spec [OF assms d(1) True])
        fix s
        assume "new_arena d hp = Some (True, s)" "heap_inv s others" "alloc s = alloc hp" "bytes s = bytes hp"
          "length (descs s) = length (descs hp)" "block_size (descs s ! d) = block_size (descs hp ! d)" "free_list (descs s ! d) \<noteq> []"
        then show thesis using go [of s] Some sz d True by (simp add: malloc_def)
      next
        assume "new_arena d hp = Some (False, hp)"
        then show thesis using none Some sz d True by (simp add: malloc_def)
      qed
    qed
  qed
qed

section \<open>Deallocation\<close>

lemma remove_blocks_eq:
  assumes "arenas hp a = Some ar" "desc ar = Some d" "d < length (descs hp)" "magic ar = ARENA_MAGIC" "a \<noteq> 0" "pg_ofs a = 0"
    and "desc_ok (descs hp ! d)" "set is \<subseteq> {0..<unat (blocks_per_arena (descs hp ! d))}" "distinct is"
    and "blk a (descs hp ! d) ` set is \<subseteq> set (free_list (descs hp ! d))" "distinct (free_list (descs hp ! d))"
  shows "remove_blocks a d is hp =
    Some (set_free_list d (filter (\<lambda>b. b \<notin> blk a (descs hp ! d) ` set is) (free_list (descs hp ! d))) hp)"
  using assms
proof (induction "is" arbitrary: hp)
  case Nil
  then show ?case by (simp add: set_free_list_def)
next
  case (Cons i "is")
  let ?dd = "descs hp ! d" and ?fl = "free_list (descs hp ! d)"
  have b: "arena_to_block a (of_nat i) hp = Some (blk a ?dd i)"
    by (rule arena_to_block_eq [OF Cons.prems(1-5,7)]) (use Cons.prems(8) in simp)
  have "distinct (blks a ?dd)" using blks_distinct Cons.prems(6,7) by blast
  then have inj: "inj_on (blk a ?dd) {0..<unat (blocks_per_arena ?dd)}" by (simp add: blks_def distinct_map)
  have ni: "blk a ?dd i \<notin> blk a ?dd ` set is"
  proof
    assume "blk a ?dd i \<in> blk a ?dd ` set is"
    then obtain j where "j \<in> set is" "blk a ?dd i = blk a ?dd j" by auto
    then have "i = j" using Cons.prems(8) by (intro inj_onD [OF inj]) auto
    then show False using \<open>j \<in> set is\<close> Cons.prems(9) by simp
  qed
  let ?hp = "set_free_list d (remove1 (blk a ?dd i) ?fl) hp"
  have "remove_blocks a d is ?hp =
      Some (set_free_list d (filter (\<lambda>b. b \<notin> blk a ?dd ` set is) (remove1 (blk a ?dd i) ?fl)) hp)"
    using Cons.IH [of ?hp] Cons.prems ni by (auto simp: subset_iff)
  moreover have "filter (\<lambda>b. b \<notin> blk a ?dd ` set is) (remove1 (blk a ?dd i) ?fl) = filter (\<lambda>b. b \<notin> blk a ?dd ` set (i # is)) ?fl"
    using Cons.prems(11) by (auto simp: distinct_remove1_removeAll removeAll_filter_not_eq intro: filter_cong)
  ultimately show ?case using b Cons.prems(3,10) by simp
qed

lemma alloc_arena:
  assumes "heap_inv hp others" "alloc hp p = Some n"
  obtains (small) ar d where "arenas hp (pg_round_down p) = Some ar" "desc ar = Some d" "d < length (descs hp)"
      "p \<in> set (blks (pg_round_down p) (descs hp ! d))" "p \<notin> set (free_list (descs hp ! d))" "n = block_size (descs hp ! d)"
      "block_to_arena p hp = Some (pg_round_down p)"
  | (big) ar where "arenas hp (pg_round_down p) = Some ar" "desc ar = None" "pg_ofs p = sizeof_arena"
      "n = PGSIZE * free_cnt ar - sizeof_arena" "block_to_arena p hp = Some (pg_round_down p)"
proof -
  note h = heapD [OF assms(1)]
  obtain ar where ar: "arenas hp (pg_round_down p) = Some ar" using assms(2) by (auto simp: alloc_def split: option.splits)
  note a = h(3-5) [OF ar]
  show thesis
  proof (cases "desc ar")
    case None
    then show thesis
      using big [OF ar None] assms(2) ar a by (auto simp: alloc_def block_to_arena_def Let_def split: if_splits)
  next
    case (Some d)
    have d: "d < length (descs hp)" using h(6) [OF ar Some] .
    moreover have p: "p \<in> set (blks (pg_round_down p) (descs hp ! d))" "p \<notin> set (free_list (descs hp ! d))"
      "n = block_size (descs hp ! d)"
      using assms(2) ar Some by (auto simp: alloc_def Let_def split: if_splits)
    ultimately show thesis
      using small [OF ar Some d p] block_to_arena_small [OF ar Some d h(1) [OF d] a p(1)] by blast
  qed
qed

section \<open>Blocks do not overlap\<close>

lemma range_iff:
  fixes x p n :: u32
  assumes "unat p + unat n \<le> 2 ^ 32"
  shows "x - p < n \<longleftrightarrow> unat p \<le> unat x \<and> unat x < unat p + unat n"
proof (cases "p \<le> x")
  case True
  then show ?thesis by (auto simp: word_less_nat_alt word_le_nat_alt unat_sub)
next
  case False
  have "unat (x - p) = 2 ^ 32 + unat x - unat p"
    using False unsigned_less [where ?'a = nat, of p] by (simp add: unat_sub_if' word_le_nat_alt)
  then show ?thesis using False assms by (simp add: word_less_nat_alt word_le_nat_alt)
qed

lemma concat_disjoint:
  "distinct (concat (map f xs)) \<Longrightarrow> x \<in> set xs \<Longrightarrow> y \<in> set xs \<Longrightarrow> x \<noteq> y \<Longrightarrow> set (f x) \<inter> set (f y) = {}"
  by (induction xs) auto

lemma arena_pages:
  assumes "heap_inv hp others" "arenas hp a = Some ar"
  shows "page_count ar \<noteq> 0" "unat a + 4096 * unat (page_count ar) \<le> 2 ^ 32"
    "arenas hp b = Some br \<Longrightarrow> a \<noteq> b \<Longrightarrow>
       unat a + 4096 * unat (page_count ar) \<le> unat b \<or> unat b + 4096 * unat (page_count br) \<le> unat a"
proof -
  obtain pl where pl: "holds hp (pl @ others)" "set pl = page_blocks hp" using assms(1) by (auto simp: heap_inv_def)
  have blk: "block_ok hp (c, page_count cr) \<and> (c, page_count cr) \<in> set pl" if "arenas hp c = Some cr" for c cr
    using that pl unfolding page_blocks_def by (auto simp: holds_def)
  then have ok: "block_ok hp (a, page_count ar)" using assms(2) by blast
  then show nz: "page_count ar \<noteq> 0" by (simp add: block_ok_def)
  obtain u where u: "set (pages_of (a, page_count ar)) \<subseteq> pool_pages (pool_of u hp)" using ok by (auto simp: block_ok_def)
  obtain k where k: "unat a = 4096 * k" by (rule aligned_page [OF heapD(4) [OF assms]])
  have "first_page (pool_of u hp) + bit_cnt (used_map (pool_of u hp)) < 2 ^ 20" using poolD(4) pl(1) by (simp add: holds_alt)
  moreover have "k + unat (page_count ar) - 1 \<in> pool_pages (pool_of u hp)"
    using u block_pages(1) [OF k] nz unat_gt_0 [of "page_count ar"] by (intro subsetD [OF u]) auto
  ultimately show "unat a + 4096 * unat (page_count ar) \<le> 2 ^ 32"
    using k by (auto simp: pool_pages_def)
  assume b: "arenas hp b = Some br" "a \<noteq> b"
  obtain j where j: "unat b = 4096 * j" by (rule aligned_page [OF heapD(4) [OF assms(1) b(1)]])
  have "page_count br \<noteq> 0" using blk b(1) by (auto simp: block_ok_def)
  moreover have "set (pages_of (a, page_count ar)) \<inter> set (pages_of (b, page_count br)) = {}"
    using concat_disjoint [of pages_of pl "(a, page_count ar)" "(b, page_count br)"] blk assms(2) b pl(1)
    by (simp add: holds_def)
  ultimately have "k + unat (page_count ar) \<le> j \<or> j + unat (page_count br) \<le> k"
    using nz unat_gt_0 [of "page_count ar"] unat_gt_0 [of "page_count br"]
    unfolding block_pages(1) [OF k] block_pages(1) [OF j] by (auto simp: disjoint_iff)
  then show "unat a + 4096 * unat (page_count ar) \<le> unat b \<or> unat b + 4096 * unat (page_count br) \<le> unat a"
    using k j by auto
qed

lemma alloc_range:
  assumes "heap_inv hp others" "alloc hp p = Some n" "arenas hp (pg_round_down p) = Some ar"
  shows "unat (pg_round_down p) + 12 \<le> unat p" "unat p + unat n \<le> unat (pg_round_down p) + 4096 * unat (page_count ar)"
    "unat p + unat n \<le> 2 ^ 32"
proof -
  note h = heapD [OF assms(1)]
  have al: "pg_ofs (pg_round_down p) = 0" using h(4) assms(3) by blast
  have "unat (pg_round_down p) + 12 \<le> unat p \<and> unat p + unat n \<le> unat (pg_round_down p) + 4096 * unat (page_count ar)"
  proof (rule alloc_arena [OF assms(1,2)])
    fix ar' d assume a: "arenas hp (pg_round_down p) = Some ar'" "desc ar' = Some d" "d < length (descs hp)"
      "p \<in> set (blks (pg_round_down p) (descs hp ! d))" "n = block_size (descs hp ! d)"
    obtain i where i: "i < unat (blocks_per_arena (descs hp ! d))" "p = blk (pg_round_down p) (descs hp ! d) i"
      by (rule in_blks [OF h(1) [OF a(3)] al a(4)])
    have "page_count ar = 1" using a(1,2) assms(3) by (simp add: page_count_def)
    then show ?thesis
      using blk_addr(1) [OF h(1) [OF a(3)] i(1) al, folded i(2)] blk_offset(2) [OF h(1) [OF a(3)] i(1)] a(5) by simp
  next
    fix ar' assume a: "arenas hp (pg_round_down p) = Some ar'" "desc ar' = None" "pg_ofs p = sizeof_arena"
      "n = PGSIZE * free_cnt ar' - sizeof_arena"
    have c: "page_count ar = free_cnt ar'" using a(1,2) assms(3) by (simp add: page_count_def)
    have p: "unat p = unat (pg_round_down p) + 12"
      using at_arena_start(3) [OF al refl a(3)] in_page(1) [OF al, of sizeof_arena] by (simp add: sizeof_arena_def)
    note r = arena_pages(1,2) [OF assms(1,3)]
    have "0 < unat (page_count ar)" using r(1) by (simp add: unat_gt_0)
    show ?thesis
    proof (cases "4096 * unat (page_count ar) = 2 ^ 32")
      case True
      then have "PGSIZE * free_cnt ar' = 0"
        by (intro unsigned_word_eqI [where ?'a = nat]) (simp add: PGSIZE_eq unat_word_ariths c)
      then have "unat n = 2 ^ 32 - 12" using a(4) by (simp add: sizeof_arena_def)
      then show ?thesis using p True by simp
    next
      case False
      then have "unat (PGSIZE * free_cnt ar') = 4096 * unat (page_count ar)"
        using r(2) by (simp add: PGSIZE_eq unat_word_ariths c)
      moreover have "12 \<le> 4096 * unat (page_count ar)" using \<open>0 < unat (page_count ar)\<close> by simp
      ultimately have "unat n = 4096 * unat (page_count ar) - 12"
        using a(4) by (simp add: sizeof_arena_def unat_sub word_le_nat_alt)
      then show ?thesis using p \<open>12 \<le> 4096 * unat (page_count ar)\<close> by simp
    qed
  qed
  then show "unat (pg_round_down p) + 12 \<le> unat p" "unat p + unat n \<le> unat (pg_round_down p) + 4096 * unat (page_count ar)"
    "unat p + unat n \<le> 2 ^ 32"
    using arena_pages(2) [OF assms(1,3)] by auto
qed

lemma alloc_apart:
  assumes "heap_inv hp others" "alloc hp p = Some n" "alloc hp q = Some m" "p \<noteq> q"
  shows "unat p + unat n \<le> unat q \<or> unat q + unat m \<le> unat p"
proof -
  note h = heapD [OF assms(1)]
  obtain ar br where a: "arenas hp (pg_round_down p) = Some ar" "arenas hp (pg_round_down q) = Some br"
    using assms(2,3) by (auto simp: alloc_def split: option.splits)
  note r = alloc_range [OF assms(1,2) a(1)] alloc_range [OF assms(1,3) a(2)]
  show ?thesis
  proof (cases "pg_round_down p = pg_round_down q")
    case False
    then show ?thesis using arena_pages(3) [OF assms(1) a] r by linarith
  next
    case True
    then have b: "br = ar" using a by simp
    show ?thesis
    proof (cases "desc ar")
      case None
      then have "pg_ofs p = sizeof_arena" "pg_ofs q = sizeof_arena"
        using assms(2,3) a b by (auto simp: alloc_def split: if_splits)
      then have "p = q" using True round_down_add [of p] round_down_add [of q] by metis
      then show ?thesis using assms(4) by simp
    next
      case (Some d)
      let ?dd = "descs hp ! d" and ?a = "pg_round_down p"
      have ok: "desc_ok ?dd" "pg_ofs ?a = 0" using h(1) h(6) [OF a(1) Some] h(4) [OF a(1)] by blast+
      have p: "p \<in> set (blks ?a ?dd)" "q \<in> set (blks ?a ?dd)" "n = block_size ?dd" "m = block_size ?dd"
        using assms(2,3) a b Some True by (auto simp: alloc_def Let_def split: if_splits)
      obtain i where i: "i < unat (blocks_per_arena ?dd)" "p = blk ?a ?dd i" by (rule in_blks [OF ok p(1)])
      obtain j where j: "j < unat (blocks_per_arena ?dd)" "q = blk ?a ?dd j" by (rule in_blks [OF ok p(2)])
      have "i \<noteq> j" using assms(4) i(2) j(2) by auto
      then have "i + 1 \<le> j \<or> j + 1 \<le> i" by auto
      then have "(i + 1) * unat n \<le> j * unat n \<or> (j + 1) * unat n \<le> i * unat n"
        using mult_le_mono1 by blast
      then show ?thesis
        using blk_addr(1) [OF ok(1) i(1) ok(2), folded i(2)] blk_addr(1) [OF ok(1) j(1) ok(2), folded j(2)] p(3,4) by auto
    qed
  qed
qed

definition keeps :: "heap \<Rightarrow> heap \<Rightarrow> bool" where
  "keeps hp hp' \<longleftrightarrow> (\<forall>p n x. alloc hp p = Some n \<longrightarrow> alloc hp' p = Some n \<longrightarrow> x - p < n \<longrightarrow> bytes hp' x = bytes hp x)"

lemma fill_other:
  assumes "heap_inv hp others" "alloc hp p = Some n" "alloc hp q = Some m" "p \<noteq> q" "x - q < m"
  shows "fill p n v (bytes hp) x = bytes hp x"
proof -
  obtain ar br where "arenas hp (pg_round_down p) = Some ar" "arenas hp (pg_round_down q) = Some br"
    using assms(2,3) by (auto simp: alloc_def split: option.splits)
  then have "unat p + unat n \<le> 2 ^ 32" "unat q + unat m \<le> 2 ^ 32" using alloc_range(3) assms(1-3) by blast+
  then have "\<not> x - p < n"
    using range_iff [of p n x] range_iff [of q m x] assms(5) alloc_apart [OF assms(1-4)] by linarith
  then show ?thesis by (simp add: fill_def)
qed

lemma fill_arena:
  assumes "heap_inv hp others" "arenas hp a = Some ar" "alloc hp q = Some m" "pg_round_down q \<noteq> a" "x - q < m"
  shows "fill a (PGSIZE * page_count ar) v b x = b x"
proof -
  obtain br where br: "arenas hp (pg_round_down q) = Some br" using assms(3) by (auto simp: alloc_def split: option.splits)
  note r = alloc_range [OF assms(1,3) br]
  have q: "unat q \<le> unat x" "unat x < unat q + unat m" using range_iff [OF r(3)] assms(5) by blast+
  note ap = arena_pages [OF assms(1,2)]
  show ?thesis
  proof (cases "4096 * unat (page_count ar) = 2 ^ 32")
    case True
    then have "PGSIZE * page_count ar = 0"
      by (intro unsigned_word_eqI [where ?'a = nat]) (simp add: PGSIZE_eq unat_word_ariths)
    then show ?thesis by (simp add: fill_def)
  next
    case False
    then have u: "unat (PGSIZE * page_count ar) = 4096 * unat (page_count ar)"
      using ap(2) by (simp add: PGSIZE_eq unat_word_ariths)
    have "\<not> x - a < PGSIZE * page_count ar"
      using range_iff [of a "PGSIZE * page_count ar" x] u ap(2) ap(3) [OF br] assms(4) r q by fastforce
    then show ?thesis by (simp add: fill_def)
  qed
qed

section \<open>Deallocation keeps the other blocks\<close>

lemma heap_bytes [simp]: "heap_inv (hp\<lparr>bytes := m\<rparr>) others = heap_inv hp others" "alloc (hp\<lparr>bytes := m\<rparr>) = alloc hp"
  by (simp add: heap_inv_def page_blocks_def arena_ok_def list_ok_def) (rule ext, rule alloc_cong, simp_all)

lemma free_blocks_count:
  assumes "heap_inv hp others" "arenas hp a = Some ar" "desc ar = Some d" "p \<in> set (blks a (descs hp ! d))"
    and "p \<notin> set (free_list (descs hp ! d))"
  defines "K \<equiv> filter (\<lambda>b. pg_round_down b = a) (free_list (descs hp ! d))"
  shows "unat (free_cnt ar + 1) = Suc (length K)" "Suc (length K) \<le> unat (blocks_per_arena (descs hp ! d))"
    "Suc (length K) = unat (blocks_per_arena (descs hp ! d)) \<Longrightarrow> insert p (set K) = set (blks a (descs hp ! d))"
proof -
  note h = heapD [OF assms(1)]
  have d: "d < length (descs hp)" using h(6) assms(2,3) by blast
  have B: "distinct (blks a (descs hp ! d))" using blks_distinct h(1) [OF d] h(4) assms(2) by blast
  have lB: "length (blks a (descs hp ! d)) = unat (blocks_per_arena (descs hp ! d))" by (simp add: blks_def)
  have K: "distinct (p # K)" "set (p # K) \<subseteq> set (blks a (descs hp ! d))"
    using h(2) [OF d] assms(4,5) by (auto simp: list_ok_def K_def)
  then have c: "card (set (p # K)) \<le> card (set (blks a (descs hp ! d)))" by (intro card_mono) auto
  have k: "card (set (p # K)) = Suc (length K)" "card (set (blks a (descs hp ! d))) = unat (blocks_per_arena (descs hp ! d))"
    using distinct_card [OF K(1)] distinct_card [OF B] lB by simp_all
  then show le: "Suc (length K) \<le> unat (blocks_per_arena (descs hp ! d))" using c by simp
  have "unat (free_cnt ar) = length K" using h(7) [OF assms(2,3)] by (simp add: K_def)
  then show "unat (free_cnt ar + 1) = Suc (length K)"
    using le unsigned_less [where ?'a = nat, of "blocks_per_arena (descs hp ! d)"] by (simp add: unat_word_ariths)
  assume "Suc (length K) = unat (blocks_per_arena (descs hp ! d))"
  then show "insert p (set K) = set (blks a (descs hp ! d))" using card_subset_eq [OF _ K(2)] k by simp
qed

lemma free_small_spec:
  assumes "heap_inv hp others" "alloc hp p = Some n" "arenas hp a = Some ar" "desc ar = Some d" "a = pg_round_down p"
  obtains hp' where "free_small p a d hp = Some hp'" "heap_inv hp' others" "alloc hp' = (alloc hp)(p := None)" "keeps hp hp'"
proof -
  note h = heapD [OF assms(1)]
  let ?dd = "descs hp ! d" and ?fl = "free_list (descs hp ! d)"
  have d: "d < length (descs hp)" using h(6) assms(3,4) by blast
  have ok: "desc_ok ?dd" "pg_ofs a = 0" "a \<noteq> 0" "magic ar = ARENA_MAGIC" using h(1) [OF d] h(3-5) assms(3) by blast+
  have p: "p \<in> set (blks a ?dd)" "p \<notin> set ?fl" "n = block_size ?dd"
    using assms(2-5) by (auto simp: alloc_def Let_def split: if_splits)
  note cnt = free_blocks_count [OF assms(1,3,4) p(1,2)]
  define hb where "hb = hp\<lparr>bytes := fill p (block_size ?dd) 0xcc (bytes hp)\<rparr>"
  have hb: "heap_inv hb others" "alloc hb = alloc hp" "descs hb = descs hp" "arenas hb = arenas hp"
    "\<And>u. pool_of u hb = pool_of u hp" using assms(1) by (simp_all add: hb_def)
  have lo: "distinct ?fl" "\<And>b. b \<in> set ?fl \<Longrightarrow> b \<in> set (blks (pg_round_down b) ?dd)"
    using h(2) [OF d] by (auto simp: list_ok_def)
  define h1 where "h1 = set_arena a (Some (ar\<lparr>free_cnt := free_cnt ar + 1\<rparr>)) (set_free_list d (p # ?fl) hb)"
  have c1: "heap_inv h1 others" "\<And>q. alloc h1 q = (if pg_round_down q = a then
      (if q \<in> set (blks a ?dd) \<and> q \<notin> set (p # ?fl) then Some (block_size ?dd) else None) else alloc hb q)"
    unfolding h1_def
    by (rule change_list [OF hb(1), of a ar d "p # ?fl" "free_cnt ar + 1", unfolded hb(3)];
        use assms(3-5) hb(4) lo(1) p cnt(1) in auto)+
  have al: "alloc hp q = (if q \<in> set (blks a ?dd) \<and> q \<notin> set ?fl then Some (block_size ?dd) else None)" if "pg_round_down q = a" for q
    using that assms(3,4) by (auto simp: alloc_def Let_def)
  have a1: "alloc h1 = (alloc hp)(p := None)"
    using c1(2) al hb(2) assms(5) p(1) by (auto simp: fun_eq_iff)
  have st: "free_small p a d hp = (if free_cnt ar + 1 \<ge> blocks_per_arena ?dd then do {
       ASSERT (free_cnt ar + 1 = blocks_per_arena ?dd);
       hp \<leftarrow> remove_blocks a d [0..<unat (blocks_per_arena ?dd)] h1;
       hp \<leftarrow> palloc_free_page a hp;
       Some (set_arena a None hp)
     } else Some h1)"
    using d assms(3) by (simp add: free_small_def Let_def h1_def hb_def)
  have by1: "bytes h1 = fill p n 0xcc (bytes hp)" by (simp add: h1_def hb_def p(3))
  show thesis
  proof (cases "free_cnt ar + 1 \<ge> blocks_per_arena ?dd")
    case False
    have "keeps hp h1" unfolding keeps_def by1 using fill_other [OF assms(1,2)] a1 by auto
    then show thesis using that [of h1] st False c1(1) a1 by simp
  next
    case True
    then have full: "unat (free_cnt ar + 1) = unat (blocks_per_arena ?dd)" using cnt(1,2) by (simp add: word_le_nat_alt)
    then have full': "free_cnt ar + 1 = blocks_per_arena ?dd" by (rule unsigned_word_eqI)
    define K where "K = filter (\<lambda>b. pg_round_down b = a) ?fl"
    have K: "insert p (set K) = set (blks a ?dd)" using cnt(1,3) full by (simp add: K_def)
    define fl where "fl = filter (\<lambda>b. b \<notin> set (blks a ?dd)) (p # ?fl)"
    have rb: "remove_blocks a d [0..<unat (blocks_per_arena ?dd)] h1 = Some (set_free_list d fl h1)"
    proof -
      have im: "blk a ?dd ` set [0..<unat (blocks_per_arena ?dd)] = set (blks a ?dd)" by (simp add: blks_def)
      have "set (blks a ?dd) \<subseteq> set (p # ?fl)" using K by (auto simp: K_def)
      then show ?thesis
        using remove_blocks_eq [of h1 a "ar\<lparr>free_cnt := free_cnt ar + 1\<rparr>" d "[0..<unat (blocks_per_arena ?dd)]"]
          d ok assms(4) hb(3) p(2) lo(1) im
        by (simp add: h1_def fl_def)
    qed
    define g where "g = set_arena a (Some (ar\<lparr>free_cnt := 0\<rparr>)) (set_free_list d fl hb)"
    have nr: "pg_round_down b = a" if "b \<in> set (blks a ?dd)" for b using in_blks [OF ok(1,2) that] by metis
    have cg: "heap_inv g others" "\<And>q. alloc g q = (if pg_round_down q = a then
      (if q \<in> set (blks a ?dd) \<and> q \<notin> set fl then Some (block_size ?dd) else None) else alloc hb q)"
      unfolding g_def
      by (rule change_list [OF hb(1), of a ar d fl 0, unfolded hb(3)];
          use assms(3-5) hb(4) lo p nr in \<open>auto simp: fl_def filter_empty_conv intro!: filter_cong\<close>)+
    obtain pl where pl: "holds g (pl @ others)" "set pl = page_blocks g" using cg(1) by (auto simp: heap_inv_def)
    have inpl: "(a, 1) \<in> set pl" unfolding pl(2) page_blocks_def using assms(4) by (auto simp: g_def page_count_def)
    define h2 where "h2 = set_free_list d fl h1"
    have "holds h2 (pl @ others)" using pl(1) holds_cong [of h2 g] by (simp add: h2_def h1_def g_def)
    then obtain s where s: "palloc_free_multiple a 1 h2 = Some s" "holds s (remove1 (a, 1) (pl @ others))" "pages.more s = pages.more h2"
        "bytes s = fill a (PGSIZE * 1) 0xcc (bytes h2)"
      by (rule free_multiple_spec [of h2 "pl @ others" a 1]) (use inpl in auto)
    have more: "descs s = descs h2" "arenas s = arenas h2" using more_heap [OF s(3)] by auto
    have fin: "heap_inv (set_arena a None s) others" "\<And>q. alloc (set_arena a None s) q = (if pg_round_down q = a then None else alloc g q)"
      by (rule drop_arena [OF cg(1) _ pl, of "set_arena a None s" a 1 "ar\<lparr>free_cnt := 0\<rparr>"];
          use s(2) inpl more d hb(3) assms(4) holds_cong [of "set_arena a None s" s] in
          \<open>auto simp: h2_def h1_def g_def remove1_append page_count_def set_free_list_def\<close>)+
    have alf: "alloc (set_arena a None s) = (alloc hp)(p := None)"
    proof
      fix q show "alloc (set_arena a None s) q = ((alloc hp)(p := None)) q"
        using fin(2) [of q] cg(2) [of q] al [of q] hb(2) K assms(5) by (auto simp: K_def)
    qed
    have "keeps hp (set_arena a None s)"
      unfolding keeps_def
    proof (intro allI impI)
      fix q m x assume q: "alloc hp q = Some m" "alloc (set_arena a None s) q = Some m" "x - q < m"
      have "q \<noteq> p" "pg_round_down q \<noteq> a" using q(2) alf fin(2) [of q] by (auto split: if_splits)
      then show "bytes (set_arena a None s) x = bytes hp x"
        using fill_other [OF assms(1,2) q(1) _ q(3)] fill_arena [OF assms(1,3) q(1) _ q(3)] s(4) by1 assms(4)
        by (simp add: h2_def page_count_def)
    qed
    then show thesis
      using that [of "set_arena a None s"] st True full' rb s(1) fin(1) alf by (simp add: palloc_free_page_def h2_def)
  qed
qed

lemma alloc_0:
  assumes "heap_inv hp others" shows "alloc hp 0 = None"
proof -
  have "arenas hp 0 = None" using heapD(5) [OF assms, of 0] by (cases "arenas hp 0") auto
  then show ?thesis by (simp add: alloc_def)
qed

lemma free_spec:
  assumes "heap_inv hp others" "alloc hp p = Some n"
  obtains hp' where "free p hp = Some hp'" "heap_inv hp' others" "alloc hp' = (alloc hp)(p := None)" "keeps hp hp'"
proof -
  have nz: "p \<noteq> 0" using assms(2) alloc_0 [OF assms(1)] by auto
  show thesis
  proof (rule alloc_arena [OF assms])
    fix ar d assume a: "arenas hp (pg_round_down p) = Some ar" "desc ar = Some d" "block_to_arena p hp = Some (pg_round_down p)"
    show thesis
      by (rule free_small_spec [OF assms a(1,2) refl]) (use that nz a in \<open>simp add: free_def\<close>)
  next
    fix ar assume a: "arenas hp (pg_round_down p) = Some ar" "desc ar = None" "pg_ofs p = sizeof_arena"
      "block_to_arena p hp = Some (pg_round_down p)"
    let ?a = "pg_round_down p" and ?n = "page_count ar"
    obtain pl where pl: "holds hp (pl @ others)" "set pl = page_blocks hp" using assms(1) by (auto simp: heap_inv_def)
    have inpl: "(?a, ?n) \<in> set pl" unfolding pl(2) page_blocks_def using a(1) by auto
    obtain s where s: "palloc_free_multiple ?a ?n hp = Some s" "holds s (remove1 (?a, ?n) (pl @ others))" "pages.more s = pages.more hp"
        "bytes s = fill ?a (PGSIZE * ?n) 0xcc (bytes hp)"
      by (rule free_multiple_spec [OF pl(1), of ?a ?n]) (use inpl in auto)
    have more: "descs s = descs hp" "arenas s = arenas hp" using more_heap [OF s(3)] by auto
    have fin: "heap_inv (set_arena ?a None s) others" "\<And>q. alloc (set_arena ?a None s) q = (if pg_round_down q = ?a then None else alloc hp q)"
      by (rule drop_arena [OF assms(1) _ pl, of "set_arena ?a None s" ?a ?n ar];
          use s(2) inpl more a holds_cong [of "set_arena ?a None s" s] in \<open>auto simp: remove1_append\<close>)+
    have alf: "alloc (set_arena ?a None s) = (alloc hp)(p := None)"
    proof
      fix q show "alloc (set_arena ?a None s) q = ((alloc hp)(p := None)) q"
      proof (cases "pg_round_down q = ?a")
        case True
        have "alloc hp q = None" if "q \<noteq> p"
        proof -
          have "pg_ofs q \<noteq> sizeof_arena" using that True round_down_add [of p] round_down_add [of q] a(3) by metis
          then show ?thesis using True a(1,2) by (simp add: alloc_def)
        qed
        then show ?thesis using fin(2) [of q] True by auto
      qed (use fin(2) [of q] in auto)
    qed
    have "keeps hp (set_arena ?a None s)"
      unfolding keeps_def
    proof (intro allI impI)
      fix q m x assume q: "alloc hp q = Some m" "alloc (set_arena ?a None s) q = Some m" "x - q < m"
      have "pg_round_down q \<noteq> ?a" using q(2) fin(2) [of q] by (auto split: if_splits)
      then show "bytes (set_arena ?a None s) x = bytes hp x"
        using fill_arena [OF assms(1) a(1) q(1) _ q(3)] s(4) by simp
    qed
    moreover have "free p hp = Some (set_arena ?a None s)"
      using nz a s(1) by (simp add: free_def page_count_def)
    ultimately show thesis using that fin(1) alf by blast
  qed
qed

lemma alloc_size_spec:
  assumes "heap_inv hp others" "alloc hp p = Some n" shows "alloc_size p hp = Some n"
  by (rule alloc_arena [OF assms]) (auto simp: alloc_size_def)

lemma keeps_refl: "bytes hp' = bytes hp \<Longrightarrow> keeps hp hp'"
  by (simp add: keeps_def)


lemma realloc_spec:
  assumes "heap_inv hp others" "alloc hp old = Some m" "sz \<noteq> 0" "unat sz \<le> 2 ^ 32 - 4108"
  obtains (got) p n hp' where "realloc old sz hp = Some (p, hp')" "heap_inv hp' others" "p \<noteq> 0" "alloc hp p = None" "sz \<le> n"
      "alloc hp' = (alloc hp)(p \<mapsto> n, old := None)" "keeps hp hp'" "\<And>i. i < sz \<Longrightarrow> i < m \<Longrightarrow> bytes hp' (p + i) = bytes hp (old + i)"
  | (none) "realloc old sz hp = Some (0, hp)"
proof (rule malloc_spec [OF assms(1), of sz])
  have nz: "old \<noteq> 0" using assms(2) alloc_0 [OF assms(1)] by auto
  fix p n s assume g: "malloc sz hp = Some (p, s)" "heap_inv s others" "p \<noteq> 0" "alloc hp p = None"
    "alloc s = (alloc hp)(p \<mapsto> n)" "unat sz \<le> 2 ^ 32 - 4108 \<Longrightarrow> sz \<le> n" "bytes s = bytes hp"
  have po: "p \<noteq> old" using g(4) assms(2) by auto
  have os: "alloc s old = Some m" using g(5) assms(2) po by simp
  define k where "k = (if sz < m then sz else m)"
  have kn: "k \<le> n" using g(6) assms(4) by (auto simp: k_def)
  define t where "t = s\<lparr>bytes := copy_bytes p old k (bytes s)\<rparr>"
  have t: "heap_inv t others" "alloc t = alloc s" using g(2) by (simp_all add: t_def)
  obtain u where u: "free old t = Some u" "heap_inv u others" "alloc u = (alloc t)(old := None)" "keeps t u"
    by (rule free_spec [OF t(1), of old m]) (use t(2) os in auto)
  have r: "realloc old sz hp = Some (p, u)"
    using assms(3) g(1,3) nz alloc_size_spec [OF g(2) os] u(1) by (simp add: realloc_def t_def k_def Let_def)
  have ku: "x - q < l \<Longrightarrow> bytes u x = bytes t x" if "alloc s q = Some l" "q \<noteq> old" for q l x
    using u(3,4) t(2) that unfolding keeps_def by simp
  have kp: "keeps hp u"
    unfolding keeps_def
  proof (intro allI impI)
    fix q l x assume q: "alloc hp q = Some l" "alloc u q = Some l" "x - q < l"
    have qs: "q \<noteq> p" "q \<noteq> old" "alloc s q = Some l" using q g(4,5) u(3) t(2) by auto
    have "\<not> x - p < n"
      using fill_other [OF g(2), of p n q l x "bytes s x + 1"] qs q(3) g(5) by (auto simp: fill_def split: if_splits)
    then have "\<not> x - p < k" using kn by auto
    then show "bytes u x = bytes hp x"
      using ku [OF qs(3,2) q(3)] g(7) by (simp add: t_def copy_bytes_def)
  qed
  have cp: "bytes u (p + i) = bytes hp (old + i)" if "i < sz" "i < m" for i
  proof -
    have "i < k" using that by (simp add: k_def)
    then have "bytes u (p + i) = bytes t (p + i)" using ku [of p n "p + i"] g(5) po kn by auto
    then show ?thesis using \<open>i < k\<close> g(7) by (simp add: t_def copy_bytes_def)
  qed
  show thesis
    by (rule got [OF r u(2) g(3,4) g(6) [OF assms(4)] _ kp cp]) (use g(5) u(3) t(2) in auto)
next
  assume "malloc sz hp = Some (0, hp)"
  then show thesis using none assms(3) by (simp add: realloc_def)
qed

section \<open>The heap at work\<close>

lemma desc_loop_16:
  "desc_loop 16 [] = Some (map (\<lambda>(s, n). \<lparr>block_size = s, blocks_per_arena = n, free_list = []\<rparr>)
     [(16, 255), (32, 127), (64, 63), (128, 31), (256, 15), (512, 7), (1024, 3)])"
  by (simp add: desc_loop.simps [of 16] desc_loop.simps [of 32] desc_loop.simps [of 64] desc_loop.simps [of 128]
      desc_loop.simps [of 256] desc_loop.simps [of 512] desc_loop.simps [of 1024] desc_loop.simps [of 2048] PGSIZE_eq sizeof_arena_def)

lemma malloc_init_spec:
  assumes "holds s []"
  obtains hp where "malloc_init s = Some hp" "heap_inv hp []" "alloc hp = (\<lambda>_. None)"
proof -
  define hp where "hp = pages.extend s \<lparr>descs = map (\<lambda>(s, n). \<lparr>block_size = s, blocks_per_arena = n, free_list = []\<rparr>)
     [(16, 255), (32, 127), (64, 63), (128, 31), (256, 15), (512, 7), (1024, 3)], arenas = (\<lambda>_. None)\<rparr>"
  have d: "arenas hp = (\<lambda>_. None)" "descs hp = map (\<lambda>(s, n). \<lparr>block_size = s, blocks_per_arena = n, free_list = []\<rparr>)
     [(16, 255), (32, 127), (64, 63), (128, 31), (256, 15), (512, 7), (1024, 3)]"
    by (simp_all add: hp_def pages.defs)
  have "holds hp [] = holds s []"
    by (simp add: holds_def pools_ok_def hp_def pages.defs)
  moreover have "list_ok hp i" if "i < length (descs hp)" for i
  proof -
    have "\<forall>dd\<in>set (descs hp). free_list dd = []" by (simp add: d)
    then have "free_list (descs hp ! i) = []" using that nth_mem by blast
    then show ?thesis by (simp add: list_ok_def)
  qed
  moreover have "\<forall>dd\<in>set (descs hp). desc_ok dd" by (simp add: d desc_ok_def)
  ultimately have "heap_inv hp []" using assms d(1) by (simp add: heap_inv_def page_blocks_def)
  moreover have "malloc_init s = Some hp" by (simp add: malloc_init_def desc_loop_16 hp_def)
  moreover have "alloc hp = (\<lambda>_. None)" by (simp add: alloc_def [abs_def] d(1))
  ultimately show thesis using that by blast
qed






section \<open>What the heap promises\<close>

definition demo_pages :: "pages option" where
  "demo_pages = palloc_init 1024 0xffffffff (\<lambda>_. 0) (\<lambda>_. 0) (\<lambda>_. 0)"

lemma demo_heap:
  obtains s hp where "demo_pages = Some s" "malloc_init s = Some hp" "holds s []" "heap_inv hp []" "alloc hp = (\<lambda>_. None)"
proof -
  obtain s where s: "demo_pages = Some s" "holds s []"
    unfolding demo_pages_def by (rule palloc_init_spec [of 1024 "0xffffffff" "\<lambda>_. 0" "\<lambda>_. 0" "\<lambda>_. 0"]) auto
  then show thesis using that malloc_init_spec [OF s(2)] by metis
qed



text \<open>C7: The heap refines a map from the addresses of the blocks in use to their sizes. \<^verbatim>\<open>malloc\<close> adds a new block or changes
  nothing, and the block is at least as large as the request if that is at most \<open>2 ^ 32 - 4108\<close> bytes, so that the
  computation of the number of pages does not wrap around. \<^verbatim>\<open>free\<close> removes exactly its block. \<^verbatim>\<open>realloc\<close> to a
  nonzero size of at most \<open>2 ^ 32 - 4108\<close> bytes does both and copies the old contents, as far as they fit, or changes
  nothing. None of them changes a byte of another block in use.\<close>
theorem heap_refines_map:
  assumes "heap_inv hp others"
  shows "(\<exists>p hp'. malloc sz hp = Some (p, hp') \<and> heap_inv hp' others \<and> keeps hp hp' \<and>
      (if p = 0 then hp' = hp else alloc hp p = None \<and>
         (\<exists>n. alloc hp' = (alloc hp)(p \<mapsto> n) \<and> (unat sz \<le> 2 ^ 32 - 4108 \<longrightarrow> sz \<le> n)))) \<and>
    (alloc hp old = Some m \<longrightarrow> (\<exists>hp'. free old hp = Some hp' \<and> heap_inv hp' others \<and> keeps hp hp' \<and> alloc hp' = (alloc hp)(old := None))) \<and>
    (alloc hp old = Some m \<longrightarrow> sz \<noteq> 0 \<longrightarrow> unat sz \<le> 2 ^ 32 - 4108 \<longrightarrow>
      (\<exists>p hp'. realloc old sz hp = Some (p, hp') \<and> heap_inv hp' others \<and> keeps hp hp' \<and>
        (if p = 0 then hp' = hp else alloc hp p = None \<and>
           (\<exists>n \<ge> sz. alloc hp' = (alloc hp)(p \<mapsto> n, old := None)) \<and>
           (\<forall>i. i < sz \<longrightarrow> i < m \<longrightarrow> bytes hp' (p + i) = bytes hp (old + i)))))"
proof (intro conjI impI)
  show "\<exists>p hp'. malloc sz hp = Some (p, hp') \<and> heap_inv hp' others \<and> keeps hp hp' \<and>
      (if p = 0 then hp' = hp else alloc hp p = None \<and>
         (\<exists>n. alloc hp' = (alloc hp)(p \<mapsto> n) \<and> (unat sz \<le> 2 ^ 32 - 4108 \<longrightarrow> sz \<le> n)))"
    by (rule malloc_spec [OF assms, of sz]) (use assms keeps_refl in auto)
next
  assume o: "alloc hp old = Some m"
  show "\<exists>hp'. free old hp = Some hp' \<and> heap_inv hp' others \<and> keeps hp hp' \<and> alloc hp' = (alloc hp)(old := None)"
    by (rule free_spec [OF assms o]) blast
next
  assume o: "alloc hp old = Some m" "sz \<noteq> 0" "unat sz \<le> 2 ^ 32 - 4108"
  show "\<exists>p hp'. realloc old sz hp = Some (p, hp') \<and> heap_inv hp' others \<and> keeps hp hp' \<and>
        (if p = 0 then hp' = hp else alloc hp p = None \<and>
           (\<exists>n \<ge> sz. alloc hp' = (alloc hp)(p \<mapsto> n, old := None)) \<and>
           (\<forall>i. i < sz \<longrightarrow> i < m \<longrightarrow> bytes hp' (p + i) = bytes hp (old + i)))"
  proof (rule realloc_spec [OF assms o])
    fix p n hp' assume r: "realloc old sz hp = Some (p, hp')" "heap_inv hp' others" "p \<noteq> 0" "alloc hp p = None" "sz \<le> n"
      "alloc hp' = (alloc hp)(p \<mapsto> n, old := None)" "keeps hp hp'" "\<And>i. i < sz \<Longrightarrow> i < m \<Longrightarrow> bytes hp' (p + i) = bytes hp (old + i)"
    then show ?thesis by (intro exI [of _ p] exI [of _ hp']) auto
  qed (use assms keeps_refl in auto)
qed

theorem heap_refines_map_witness:
  "\<exists>s hp0 p hp. demo_pages = Some s \<and> malloc_init s = Some hp0 \<and> malloc 100 hp0 = Some (p, hp) \<and> keeps hp0 hp"
proof -
  obtain s hp0 where s: "demo_pages = Some s" "malloc_init s = Some hp0" "heap_inv hp0 []" by (rule demo_heap)
  then show ?thesis using heap_refines_map [OF s(3), of 100] by blast
qed

text \<open>The check in \<^verbatim>\<open>calloc\<close> that the product fits does not find every overflow: 65537 objects of 65537 bytes pass
  it, and the block asked for has 131073 bytes. In the same way \<^verbatim>\<open>malloc\<close> asks for one page
  when the request plus the header wraps around.\<close>
lemma calloc_overflow_missed:
  "calloc 0x10001 0x10001 hp = do { (p, hp) \<leftarrow> malloc 0x20001 hp; Some (p, if p \<noteq> 0 then hp\<lparr>bytes := fill p 0x20001 0 (bytes hp)\<rparr> else hp) }"
proof -
  have "0x10001 * 0x10001 = (0x20001 :: u32)" by simp
  then show ?thesis unfolding calloc_def Let_def by (simp only:) simp
qed

lemma malloc_overflow_missed: "(0xfffffff8 + sizeof_arena + PGSIZE - 1) div PGSIZE = 1"
  by (simp add: sizeof_arena_def PGSIZE_eq)

end
