(* ===== verification/Process_Args.thy ===== *)
theory Process_Args
  imports C_String Vaddr
begin

text \<open>
  The arguments of a new process: \<^verbatim>\<open>get_word_list\<close> splits the command line, \<^verbatim>\<open>load_arguments_to_stack\<close> lays the words out
  on the user stack (\<^verbatim>\<open>userprog/process.c\<close>). The command line lies in the kernel's memory, where the
  string functions work; user memory is a partial function from addresses, undefined where no
  page is mapped, and a store to such an address is a fault in the kernel. The allocation of
  the list cells of \<^verbatim>\<open>get_word_list\<close> is not tested by the code and is taken to succeed.
\<close>

section \<open>The words of the command line\<close>

partial_function (option) get_word_list :: "nat \<Rightarrow> nat \<Rightarrow> cmem \<Rightarrow> ((nat \<times> nat) list \<times> cmem) option" where
  "get_word_list rest delims m = do {
     (token, rest, m) \<leftarrow> strtok_r rest delims rest m;
     if token = 0 then Some ([], m)
     else do {
       n \<leftarrow> strlen token m;
       (ws, m) \<leftarrow> get_word_list rest delims m;
       Some ((token, n + 1) # ws, m)
     }
   }"

definition get_argv_from_list :: "(nat \<times> nat) list \<Rightarrow> nat list \<times> nat list" where
  "get_argv_from_list word_lst = (map fst word_lst @ [0], map snd word_lst)"

section \<open>The stack\<close>

type_synonym umem = "u32 \<Rightarrow> byte option"

definition ust :: "umem \<Rightarrow> u32 \<Rightarrow> byte \<Rightarrow> umem option" where
  "ust m a v = (if m a = None then None else Some (m(a \<mapsto> v)))"

definition stack_alignment_calc :: "u32 \<Rightarrow> u32 \<Rightarrow> u32" where
  "stack_alignment_calc stack_pointer argc =
    (let end_stack_pointer = stack_pointer - 16 - 4 * argc in
     if end_stack_pointer mod 16 \<noteq> 12 then
       (if end_stack_pointer mod 16 > 12 then end_stack_pointer mod 16 - 12 else end_stack_pointer mod 16 + 4)
     else 0)"

fun memset_word_loop :: "u32 \<Rightarrow> u32 \<Rightarrow> nat list \<Rightarrow> umem \<Rightarrow> umem option" where
  "memset_word_loop sp w [] m = Some m"
| "memset_word_loop sp w (i # is) m = do {
     m \<leftarrow> ust m (sp + of_nat i) (ucast (drop_bit (8 * i) w));
     memset_word_loop sp w is m
   }"

definition memset_word :: "u32 \<Rightarrow> u32 \<Rightarrow> umem \<Rightarrow> umem option" where
  "memset_word current_sp w m = memset_word_loop current_sp w [0..<4] m"

fun umemset :: "u32 \<Rightarrow> byte \<Rightarrow> nat \<Rightarrow> umem \<Rightarrow> umem option" where
  "umemset a v 0 m = Some m"
| "umemset a v (Suc n) m = do { m \<leftarrow> ust m a v; umemset (a + 1) v n m }"

fun push_chars :: "cmem \<Rightarrow> nat \<Rightarrow> nat \<Rightarrow> u32 \<Rightarrow> umem \<Rightarrow> (u32 \<times> umem) option" where
  "push_chars km p 0 sp m = Some (sp, m)"
| "push_chars km p (Suc j) sp m = do {
     c \<leftarrow> ld km (p + j);
     let sp = sp - 1;
     m \<leftarrow> ust m sp c;
     push_chars km p j sp m
   }"

fun push_words :: "cmem \<Rightarrow> nat list \<Rightarrow> nat list \<Rightarrow> nat list \<Rightarrow> u32 \<Rightarrow> umem \<Rightarrow> (u32 list \<times> u32 \<times> umem) option" where
  "push_words km argv lens [] sp m = Some ([], sp, m)"
| "push_words km argv lens (i # is) sp m = do {
     n \<leftarrow> arr_get lens i;
     p \<leftarrow> arr_get argv i;
     (sp, m) \<leftarrow> push_chars km p n sp m;
     (as, sp', m) \<leftarrow> push_words km argv lens is sp m;
     Some (sp # as, sp', m)
   }"

fun push_addrs :: "u32 list \<Rightarrow> u32 \<Rightarrow> umem \<Rightarrow> (u32 \<times> umem) option" where
  "push_addrs [] sp m = Some (sp, m)"
| "push_addrs (a # as) sp m = do {
     let sp = sp - 4;
     m \<leftarrow> memset_word sp a m;
     push_addrs as sp m
   }"

text \<open>The address of the variable that holds the stack pointer is an argument: the code compares with it.\<close>

definition load_arguments_to_stack ::
    "cmem \<Rightarrow> nat \<Rightarrow> nat list \<Rightarrow> nat list \<Rightarrow> u32 \<Rightarrow> u32 \<Rightarrow> umem \<Rightarrow> (bool \<times> u32 \<times> umem) option" where
  "load_arguments_to_stack km argc argv argv_lengths if_esp esp m = do {
     (address_lst, sp, m) \<leftarrow> push_words km argv argv_lengths [0..<argc] esp m;
     let stack_alignment = stack_alignment_calc sp (of_nat argc);
     let sp = sp - stack_alignment;
     m \<leftarrow> umemset sp 0 (unat stack_alignment) m;
     let sp = sp - 4;
     m \<leftarrow> memset_word sp 0 m;
     (sp, m) \<leftarrow> push_addrs (rev address_lst) sp m;
     let sp = sp - 4;
     m \<leftarrow> memset_word sp (sp + 4) m;
     let sp = sp - 4;
     m \<leftarrow> memset_word sp (of_nat argc) m;
     let sp = sp - 4;
     m \<leftarrow> memset_word sp 69 m;
     if sp > if_esp then Some (False, esp, m) else Some (True, sp, m)
   }"

section \<open>The words are those between the blanks\<close>

function split_words :: "byte list \<Rightarrow> byte list list" where
  "split_words s =
    (let u = dropWhile (\<lambda>x. x = 32) s; t = takeWhile (\<lambda>x. x \<noteq> 32) u in
     if u = [] then [] else t # split_words (drop (length t + 1) u))"
  by pat_completeness auto
termination
proof (relation "measure length")
  fix s u t :: "byte list"
  assume u: "u = dropWhile (\<lambda>x. x = 32) s" and "u \<noteq> []"
  have "length u \<le> length s" unfolding u by (rule length_dropWhile_le)
  then show "(drop (length t + 1) u, s) \<in> measure length" using \<open>u \<noteq> []\<close> by (cases u) auto
qed simp

declare split_words.simps [simp del]

lemma split_words_Nil: "dropWhile (\<lambda>x. x = 32) s = [] \<Longrightarrow> split_words s = []"
  by (simp add: split_words.simps del: dropWhile_eq_Nil_conv)

lemma split_words_Cons:
  "u = dropWhile (\<lambda>x. x = 32) s \<Longrightarrow> u \<noteq> [] \<Longrightarrow> t = takeWhile (\<lambda>x. x \<noteq> 32) u \<Longrightarrow>
    split_words s = t # split_words (drop (length t + 1) u)"
  by (subst split_words.simps) (simp add: Let_def)

text \<open>A word of the list: where it is and how long it is with its terminator.\<close>

definition word_at :: "cmem \<Rightarrow> nat \<Rightarrow> nat \<Rightarrow> nat \<times> nat \<Rightarrow> byte list \<Rightarrow> bool" where
  "word_at m p e w t \<longleftrightarrow> str_at m (fst w) t \<and> snd w = length t + 1 \<and> p \<le> fst w \<and> fst w + length t \<le> e"

lemma blank_set: "(\<lambda>x. x \<in> set [32 :: byte]) = (\<lambda>x. x = 32)" "(\<lambda>x. x \<notin> set [32 :: byte]) = (\<lambda>x. x \<noteq> 32)"
  by auto

lemma get_word_list_spec:
  assumes "str_at m p s" "str_at m d [32]" "d + 1 < p \<or> p + length s < d"
  shows "\<exists>ws m'. get_word_list p d m = Some (ws, m') \<and> list_all2 (word_at m' p (p + length s)) ws (split_words s) \<and>
    length m' = length m \<and> (\<forall>i. i < p \<or> p + length s < i \<longrightarrow> m' ! i = m ! i)"
  using assms
proof (induction "length s" arbitrary: s p m rule: less_induct)
  case less
  define u where "u = dropWhile (\<lambda>x. x = 32) s"
  define t where "t = takeWhile (\<lambda>x. x \<noteq> 32) u"
  have sp: "if u = [] then strtok_r p d p m = Some (0, p + length s, m)
         else \<exists>tok q m'. strtok_r p d p m = Some (tok, q, m') \<and> tok \<noteq> 0 \<and> str_at m' tok t \<and>
                str_at m' q (drop (length t + 1) u) \<and> str_at m' d [32] \<and>
                p \<le> tok \<and> tok + length t \<le> q \<and> q \<le> p + length s \<and> q + length (drop (length t + 1) u) = p + length s \<and>
                (\<exists>e. tok + length t \<le> e \<and> e \<le> q \<and> (m' = m \<or> m' = m[e := 0] \<and> e < q))"
    unfolding u_def t_def by (rule strtok_r_spec [OF less.prems(1,2), unfolded blank_set]) (use less.prems(3) in auto)
  show ?case
  proof (cases "u = []")
    case True
    then show ?thesis
      using sp split_words_Nil [of s] unfolding u_def [symmetric]
      by (subst get_word_list.simps) simp
  next
    case False
    then obtain tok q m1 where m1: "strtok_r p d p m = Some (tok, q, m1)" "tok \<noteq> 0" "str_at m1 tok t"
        "str_at m1 q (drop (length t + 1) u)" "str_at m1 d [32]"
        "p \<le> tok" "tok + length t \<le> q" "q \<le> p + length s" "q + length (drop (length t + 1) u) = p + length s"
        and e: "\<exists>e. tok + length t \<le> e \<and> e \<le> q \<and> (m1 = m \<or> m1 = m[e := 0] \<and> e < q)"
      using sp by auto
    let ?r = "drop (length t + 1) u"
    have len: "length ?r < length s"
      using False length_dropWhile_le [of "\<lambda>x. x = 32" s] unfolding u_def [symmetric] by (cases u) auto
    have eq: "length m1 = length m" "\<forall>i. i < p \<or> p + length s < i \<longrightarrow> m1 ! i = m ! i"
      using e m1(6,8) by auto
    obtain ws m2 where m2: "get_word_list q d m1 = Some (ws, m2)" "list_all2 (word_at m2 q (q + length ?r)) ws (split_words ?r)"
        "length m2 = length m1" "\<forall>i. i < q \<or> q + length ?r < i \<longrightarrow> m2 ! i = m1 ! i"
      using less.hyps [OF len m1(4,5)] less.prems(3) m1(6-9) by auto
    have tq: "str_at m2 tok t"
    proof (cases "tok + length t < q")
      case True
      have "slice tok (length t + 1) m2 = slice tok (length t + 1) m1"
        using True m2(3,4) by (intro nth_equalityI) (auto simp: slice_def)
      then show ?thesis using m1(3) m2(3) by (simp add: str_at_slice in_mem_def)
    next
      case False
      then have q: "q = tok + length t" using m1(7) by simp
      have "ld m1 q = Some 0" using m1(3) str_at_append [of m1 tok t "[]"] q by simp
      then have "?r = []" using m1(4) by (cases ?r) auto
      then have "strtok_r q d q m1 = Some (0, q, m1)"
        using strtok_r_spec [OF m1(4,5), of q] less.prems(3) m1(6-9) by auto
      then have "get_word_list q d m1 = Some ([], m1)" by (subst get_word_list.simps) simp
      then show ?thesis using m2(1) m1(3) by simp
    qed
    have "strlen tok m1 = Some (length t)" using strlen_spec [OF m1(3)] .
    then have g: "get_word_list p d m = Some ((tok, length t + 1) # ws, m2)"
      using m1(1,2) m2(1) by (subst get_word_list.simps) simp
    have "word_at m2 p (p + length s) (tok, length t + 1) t"
      using tq m1(6-8) by (simp add: word_at_def)
    moreover have "list_all2 (word_at m2 p (p + length s)) ws (split_words ?r)"
      by (rule list_all2_mono [OF m2(2)]) (use m1(6-9) in \<open>auto simp: word_at_def\<close>)
    ultimately have "list_all2 (word_at m2 p (p + length s)) ((tok, length t + 1) # ws) (split_words s)"
      using split_words_Cons [OF u_def False t_def] by simp
    moreover have "\<forall>i. i < p \<or> p + length s < i \<longrightarrow> m2 ! i = m ! i"
      using m2(4) eq(2) m1(6-9) by (metis add_leD1 le_trans less_le_trans linorder_not_less)
    ultimately show ?thesis using g m2(3) eq(1) by auto
  qed
qed

section \<open>Bytes stored below the stack pointer\<close>

definition uput :: "u32 \<Rightarrow> byte list \<Rightarrow> umem \<Rightarrow> umem" where
  "uput a bs m = (\<lambda>x. if unat (x - a) < length bs then Some (bs ! unat (x - a)) else m x)"

definition room :: "umem \<Rightarrow> u32 \<Rightarrow> nat \<Rightarrow> bool" where
  "room m sp n \<longleftrightarrow> (\<forall>i. 0 < i \<and> i \<le> n \<longrightarrow> m (sp - of_nat i) \<noteq> None)"

definition holds_at :: "umem \<Rightarrow> u32 \<Rightarrow> byte list \<Rightarrow> bool" where
  "holds_at m a bs \<longleftrightarrow> (\<forall>i < length bs. m (a + of_nat i) = Some (bs ! i))"

lemma uput_Nil [simp]: "uput a [] m = m"
  by (simp add: uput_def)

lemma uput_single: "uput a [v] m = m(a \<mapsto> v)"
  by (auto simp: uput_def fun_eq_iff unsigned_eq_0_iff)

lemma uput_append: "length xs < 2 ^ 32 \<Longrightarrow> uput a xs (uput (a + of_nat (length xs)) ys m) = uput a (xs @ ys) m"
proof
  fix x assume n: "length xs < 2 ^ 32"
  show "uput a xs (uput (a + of_nat (length xs)) ys m) x = uput a (xs @ ys) m x"
  proof (cases "unat (x - a) < length xs")
    case False
    have u: "unat (of_nat (length xs) :: u32) = length xs" using n by (simp add: unat_of_nat)
    then have le: "of_nat (length xs) \<le> x - a" using False by (simp add: word_le_nat_alt)
    have "unat (x - (a + of_nat (length xs))) = unat (x - a) - length xs"
      using unat_sub [OF le] u by (metis diff_diff_add)
    then show ?thesis using False by (auto simp: uput_def nth_append)
  qed (simp add: uput_def nth_append)
qed

lemma room_uput: "room m sp n \<Longrightarrow> room (uput a bs m) sp n"
  by (simp add: room_def uput_def)

lemma room_less: "room m sp n \<Longrightarrow> k \<le> n \<Longrightarrow> room m sp k"
  by (auto simp: room_def)

lemma room_below: "room m sp (k + n) \<Longrightarrow> room m (sp - of_nat k) n"
  unfolding room_def
proof (intro allI impI)
  fix i assume h: "\<forall>i. 0 < i \<and> i \<le> k + n \<longrightarrow> m (sp - of_nat i) \<noteq> None" and i: "0 < i \<and> i \<le> n"
  have "sp - of_nat k - of_nat i = sp - of_nat (k + i)" by simp
  then show "m (sp - of_nat k - of_nat i) \<noteq> None" using h i by (metis add_gr_0 nat_add_left_cancel_le)
qed

lemma room_ust: "room m sp n \<Longrightarrow> 0 < i \<Longrightarrow> i \<le> n \<Longrightarrow> ust m (sp - of_nat i) v = Some (m(sp - of_nat i \<mapsto> v))"
  by (auto simp: room_def ust_def)

lemma push_chars_eq:
  "room m sp n \<Longrightarrow> in_mem km p n \<Longrightarrow> n < 2 ^ 32 \<Longrightarrow>
    push_chars km p n sp m = Some (sp - of_nat n, uput (sp - of_nat n) (slice p n km) m)"
proof (induction n arbitrary: sp m)
  case (Suc j)
  let ?c = "km ! (p + j)" and ?m = "m(sp - 1 \<mapsto> km ! (p + j))"
  have c: "ld km (p + j) = Some ?c" using Suc.prems(2) by (simp add: ld_def in_mem_def)
  have s: "ust m (sp - 1) ?c = Some ?m" using room_ust [OF Suc.prems(1), of 1] by simp
  have "room m (sp - of_nat 1) j" using Suc.prems(1) by (intro room_below) simp
  then have "room ?m (sp - 1) j" using room_uput [of m "sp - 1" j "sp - 1" "[?c]"] by (simp add: uput_single)
  then have "push_chars km p j (sp - 1) ?m = Some (sp - 1 - of_nat j, uput (sp - 1 - of_nat j) (slice p j km) ?m)"
    using Suc by (simp add: in_mem_def)
  moreover have "sp - 1 - of_nat j = sp - of_nat (Suc j)" by simp
  moreover have "uput (sp - of_nat (Suc j)) (slice p j km) ?m = uput (sp - of_nat (Suc j)) (slice p (Suc j) km) m"
  proof -
    have l: "length (slice p j km) = j" using Suc.prems(2) by (auto simp: in_mem_def)
    have "sp - of_nat (Suc j) + of_nat j = sp - 1" by simp
    then show ?thesis
      using uput_append [of "slice p j km" "sp - of_nat (Suc j)" "[?c]" m] Suc.prems(2,3) unfolding l
      by (simp add: uput_single slice_snoc in_mem_def)
  qed
  ultimately show ?case using c s by simp
qed (simp add: slice_def)

lemma room_ust_up: "room m (a + of_nat n) n \<Longrightarrow> i < n \<Longrightarrow> ust m (a + of_nat i) v = Some (m(a + of_nat i \<mapsto> v))"
  using room_ust [of m "a + of_nat n" n "n - i" v] by (simp add: of_nat_diff)

lemma umemset_eq:
  "room m (a + of_nat n) n \<Longrightarrow> n < 2 ^ 32 \<Longrightarrow> umemset a v n m = Some (uput a (replicate n v) m)"
proof (induction n arbitrary: a m)
  case (Suc n)
  have s: "ust m a v = Some (m(a \<mapsto> v))" using room_ust_up [OF Suc.prems(1), of 0] by simp
  have "room m (a + 1 + of_nat n) n" using room_less [OF Suc.prems(1), of n] by (simp add: add.assoc)
  then have "room (m(a \<mapsto> v)) (a + 1 + of_nat n) n" using room_uput [of m _ n a "[v]"] by (simp add: uput_single)
  then have "umemset (a + 1) v n (m(a \<mapsto> v)) = Some (uput (a + 1) (replicate n v) (m(a \<mapsto> v)))"
    using Suc by simp
  moreover have "uput (a + 1) (replicate n v) (m(a \<mapsto> v)) = uput a (replicate (Suc n) v) m"
  proof -
    have "unat (a - (a + 1)) = 2 ^ 32 - 1" by (simp add: unsigned_minus_1_eq_mask mask_eq_exp_minus_1)
    then have "uput (a + 1) (replicate n v) (m(a \<mapsto> v)) = (uput (a + 1) (replicate n v) m)(a \<mapsto> v)"
      using Suc.prems(2) by (auto simp: uput_def fun_eq_iff)
    then show ?thesis using uput_append [of "[v]" a "replicate n v" m] by (simp add: uput_single)
  qed
  ultimately show ?case using s by simp
qed simp

lemma memset_word_eq:
  assumes "room m (sp + 4) 4" shows "memset_word sp w m = Some (uput sp (le32 w) m)"
proof -
  have u: "uput sp [a, b, c, d] m = m(sp \<mapsto> a, sp + 1 \<mapsto> b, sp + 2 \<mapsto> c, sp + 3 \<mapsto> d)" for a b c d
  proof -
    have "uput sp [a, b, c, d] m = (((m(sp + 3 \<mapsto> d))(sp + 2 \<mapsto> c))(sp + 1 \<mapsto> b))(sp \<mapsto> a)"
      using uput_append [of "[a]" sp "[b, c, d]" m, symmetric] uput_append [of "[b]" "sp + 1" "[c, d]" m, symmetric]
        uput_append [of "[c]" "sp + 2" "[d]" m, symmetric]
      by (simp add: uput_single add.assoc)
    then show ?thesis by (auto simp: fun_eq_iff)
  qed
  have "ust m' (sp + of_nat i) v = Some (m'(sp + of_nat i \<mapsto> v))" if "i < 4" "\<And>x. m x \<noteq> None \<Longrightarrow> m' x \<noteq> None" for m' i v
  proof (rule room_ust_up [of _ _ 4])
    show "room m' (sp + of_nat 4) 4" using assms that(2) by (simp add: room_def)
  qed (use that(1) in simp)
  from this [of 0] this [of 1] this [of 2] this [of 3] show ?thesis
    unfolding le32_def u memset_word_def by (simp add: upt_rec numeral_eq_Suc)
qed

fun addrs :: "u32 \<Rightarrow> nat list \<Rightarrow> u32 list" where
  "addrs sp [] = []"
| "addrs sp (n # ns) = (sp - of_nat n) # addrs (sp - of_nat n) ns"

lemma length_addrs [simp]: "length (addrs sp ns) = length ns"
  by (induction ns arbitrary: sp) auto

lemma nth_addrs: "i < length ns \<Longrightarrow> addrs sp ns ! i = sp - of_nat (sum_list (take (Suc i) ns))"
proof (induction ns arbitrary: sp i)
  case (Cons n ns)
  show ?case
  proof (cases i)
    case (Suc j)
    then have "addrs (sp - of_nat n) ns ! j = sp - of_nat n - of_nat (sum_list (take (Suc j) ns))" using Cons by simp
    then show ?thesis using Suc by (simp add: diff_diff_add)
  qed simp
qed simp

lemma push_on:
  assumes "length bs < 2 ^ 32" "m' = uput sp img m"
  shows "uput (sp - of_nat (length bs)) bs m' = uput (sp - of_nat (length bs)) (bs @ img) m"
  using uput_append [OF assms(1), of "sp - of_nat (length bs)" img m] assms(2) by simp

lemma push_words_eq:
  assumes "\<And>i. i \<in> set is \<Longrightarrow> i < length argv \<and> i < length lens \<and> in_mem km (argv ! i) (lens ! i)"
    and "room m sp (sum_list (map ((!) lens) is))" "sum_list (map ((!) lens) is) < 2 ^ 32"
  shows "push_words km argv lens is sp m =
    Some (addrs sp (map ((!) lens) is), sp - of_nat (sum_list (map ((!) lens) is)),
      uput (sp - of_nat (sum_list (map ((!) lens) is))) (concat (rev (map (\<lambda>i. slice (argv ! i) (lens ! i) km) is))) m)"
  using assms
proof (induction "is" arbitrary: sp m)
  case (Cons i "is")
  let ?n = "lens ! i" and ?L = "sum_list (map ((!) lens) is)"
  let ?sp = "sp - of_nat (lens ! i)" and ?w = "slice (argv ! i) (lens ! i) km"
  have i: "arr_get lens i = Some ?n" "arr_get argv i = Some (argv ! i)" "in_mem km (argv ! i) ?n"
    using Cons.prems(1) by auto
  have w: "length ?w = ?n" using i(3) by (auto simp: in_mem_def)
  have p: "push_chars km (argv ! i) ?n sp m = Some (?sp, uput ?sp ?w m)"
    using push_chars_eq i(3) room_less [OF Cons.prems(2)] Cons.prems(3) by simp
  have "room (uput ?sp ?w m) ?sp ?L" using Cons.prems(2) by (intro room_uput room_below) simp
  then have "push_words km argv lens is ?sp (uput ?sp ?w m) =
    Some (addrs ?sp (map ((!) lens) is), ?sp - of_nat ?L,
      uput (?sp - of_nat ?L) (concat (rev (map (\<lambda>i. slice (argv ! i) (lens ! i) km) is))) (uput ?sp ?w m))"
    using Cons by simp
  moreover have "?sp - of_nat ?L = sp - of_nat (?n + ?L)" by simp
  moreover have len: "length (concat (rev (map (\<lambda>i. slice (argv ! i) (lens ! i) km) is))) = ?L"
  proof -
    have "length (slice (argv ! j) (lens ! j) km) = lens ! j" if "j \<in> set is" for j
      using Cons.prems(1) [of j] that by (auto simp: in_mem_def)
    then have "(\<Sum>j\<leftarrow>is. length (slice (argv ! j) (lens ! j) km)) = sum_list (map ((!) lens) is)"
      by (intro arg_cong [where f = sum_list] map_cong) auto
    then show ?thesis by (simp add: length_concat rev_map [symmetric] comp_def del: length_slice)
  qed
  moreover have "uput (?sp - of_nat ?L) (concat (rev (map (\<lambda>i. slice (argv ! i) (lens ! i) km) is))) (uput ?sp ?w m) =
      uput (?sp - of_nat ?L) (concat (rev (map (\<lambda>i. slice (argv ! i) (lens ! i) km) is)) @ ?w) m"
    using push_on [OF _ refl, of "concat (rev (map (\<lambda>i. slice (argv ! i) (lens ! i) km) is))" ?sp ?w m] Cons.prems(3)
    unfolding len by simp
  ultimately show ?case using i(1,2) p by (simp add: diff_diff_add)
qed simp

lemma push_word4:
  assumes "room m (sp) 4" shows "memset_word (sp - 4) w m = Some (uput (sp - 4) (le32 w) m)"
  using memset_word_eq [of m "sp - 4"] assms by simp

lemma length_concat_le32 [simp]: "length (concat (map le32 ws)) = 4 * length ws"
  by (induction ws) auto

lemma push_addrs_eq:
  "room m sp (4 * length as) \<Longrightarrow> 4 * length as < 2 ^ 32 \<Longrightarrow>
    push_addrs as sp m = Some (sp - of_nat (4 * length as), uput (sp - of_nat (4 * length as)) (concat (map le32 (rev as))) m)"
proof (induction as arbitrary: sp m)
  case (Cons a as)
  let ?m = "uput (sp - 4) (le32 a) m"
  have a: "memset_word (sp - 4) a m = Some ?m" using push_word4 room_less [OF Cons.prems(1), of 4] by simp
  have "room ?m (sp - of_nat 4) (4 * length as)" using Cons.prems(1) by (intro room_uput room_below) simp
  then have "push_addrs as (sp - 4) ?m = Some (sp - 4 - of_nat (4 * length as),
      uput (sp - 4 - of_nat (4 * length as)) (concat (map le32 (rev as))) ?m)"
    using Cons by simp
  moreover have "uput (sp - 4 - of_nat (4 * length as)) (concat (map le32 (rev as))) ?m =
      uput (sp - 4 - of_nat (4 * length as)) (concat (map le32 (rev as)) @ le32 a) m"
    using push_on [OF _ refl, of "concat (map le32 (rev as))" "sp - 4" "le32 a" m] Cons.prems(2) by simp
  moreover have "sp - 4 - of_nat (4 * length as) = sp - of_nat (4 * length (a # as))" by (simp add: diff_diff_add)
  ultimately show ?case using a by (simp add: Let_def diff_diff_add)
qed simp

lemma room_img: "room m esp T \<Longrightarrow> k + n \<le> T \<Longrightarrow> room (uput a img m) (esp - of_nat k) n"
  by (intro room_uput room_below) (rule room_less)

text \<open>The image of the stack, from its lowest address: a return address, \<^verbatim>\<open>argc\<close>, \<^verbatim>\<open>argv\<close>, the vector with its null
  pointer, padding, and the strings.\<close>

definition stack_image :: "u32 \<Rightarrow> nat \<Rightarrow> byte list list \<Rightarrow> u32 \<Rightarrow> byte list" where
  "stack_image esp pad wbs sp = le32 69 @ le32 (of_nat (length wbs)) @ le32 (sp + 12) @
     concat (map le32 (addrs esp (map length wbs))) @ le32 0 @ replicate pad 0 @ concat (rev wbs)"

lemma load_arguments_eq:
  fixes wbs :: "byte list list" and esp :: u32
  assumes "length argv = length wbs + 1" "length lens = length wbs"
    and w: "\<And>i. i < length wbs \<Longrightarrow> in_mem km (argv ! i) (lens ! i) \<and> slice (argv ! i) (lens ! i) km = wbs ! i"
  defines "pad \<equiv> unat (stack_alignment_calc (esp - of_nat (length (concat wbs))) (of_nat (length wbs)))"
  defines "T \<equiv> length (concat wbs) + pad + 16 + 4 * length wbs"
  defines "sp \<equiv> esp - of_nat T"
  assumes "room m esp T" "T < 2 ^ 32" "sp \<le> if_esp"
  shows "load_arguments_to_stack km (length wbs) argv lens if_esp esp m = Some (True, sp, uput sp (stack_image esp pad wbs sp) m)"
proof -
  let ?n = "length wbs" and ?L = "length (concat wbs)"
  have lw: "length (wbs ! i) = lens ! i" if "i < ?n" for i
    using w [OF that] length_slice [of "argv ! i" "lens ! i" km] by (auto simp: in_mem_def)
  have lens: "map ((!) lens) [0..<?n] = map length wbs" by (intro nth_equalityI) (auto simp: lw)
  have strs: "map (\<lambda>i. slice (argv ! i) (lens ! i) km) [0..<?n] = wbs" by (intro nth_equalityI) (auto simp: w)
  have L: "sum_list (map length wbs) = ?L" by (simp add: length_concat)
  define s0 where "s0 = esp - of_nat ?L"
  define i0 where "i0 = concat (rev wbs)"
  have l0: "length i0 = ?L" by (simp add: i0_def length_concat rev_map [symmetric])
  have p0: "push_words km argv lens [0..<?n] esp m = Some (addrs esp (map length wbs), s0, uput s0 i0 m)"
    unfolding s0_def i0_def
    using push_words_eq [of "[0..<?n]" argv lens km m esp, unfolded lens strs L] assms(1,2) w room_less [OF assms(7), of ?L] assms(8)
    by (simp add: T_def)
  define s1 where "s1 = esp - of_nat (?L + pad)"
  define i1 where "i1 = replicate pad 0 @ i0"
  have s1: "s0 - of_nat pad = s1" by (simp add: s0_def s1_def diff_diff_add)
  have p1: "umemset s1 0 pad (uput s0 i0 m) = Some (uput s1 i1 m)"
  proof -
    have "room (uput s0 i0 m) (s1 + of_nat pad) pad"
      using room_img [OF assms(7), of ?L pad s0 i0] unfolding s1 [symmetric] s0_def T_def by simp
    then show ?thesis
      using umemset_eq [of "uput s0 i0 m" s1 pad 0] push_on [OF _ refl, of "replicate pad 0" s0 i0 m] assms(8)
      unfolding i1_def s1 [symmetric] by (simp add: T_def)
  qed
  have wd: "memset_word (s - 4) x (uput s img m) = Some (uput (s - 4) (le32 x @ img) m)"
    if "s = esp - of_nat k" "k + 4 \<le> T" for s k x img
  proof -
    have "room (uput s img m) s 4" unfolding that(1) using room_img [OF assms(7) that(2)] .
    then have "memset_word (s - 4) x (uput s img m) = Some (uput (s - 4) (le32 x) (uput s img m))" by (rule push_word4)
    also have "uput (s - 4) (le32 x) (uput s img m) = uput (s - 4) (le32 x @ img) m"
      using push_on [OF _ refl, of "le32 x" s img m] by simp
    finally show ?thesis .
  qed
  let ?as = "addrs esp (map length wbs)" and ?k2 = "?L + pad + 4" and ?k3 = "?L + pad + 4 + 4 * ?n"
  define s2 where "s2 = s1 - 4"
  define s3 where "s3 = s2 - of_nat (4 * ?n)"
  define s4 where "s4 = s3 - 4"
  define s5 where "s5 = s4 - 4"
  have s2: "s2 = esp - of_nat ?k2" and s3: "s3 = esp - of_nat ?k3" and s4: "s4 = esp - of_nat (?k3 + 4)" and s5: "s5 = esp - of_nat (?k3 + 8)"
    by (simp_all add: s1_def s2_def s3_def s4_def s5_def diff_diff_add)
  have fin: "s5 - 4 = sp" "s4 + 4 = sp + 12" by (simp_all add: s5 s4 sp_def T_def algebra_simps)
  define i2 where "i2 = le32 0 @ i1"
  define i3 where "i3 = concat (map le32 ?as) @ i2"
  have p2: "memset_word s2 0 (uput s1 i1 m) = Some (uput s2 i2 m)"
    unfolding s2_def i2_def by (rule wd [OF s1_def]) (simp add: T_def)
  have p3: "push_addrs (rev ?as) s2 (uput s2 i2 m) = Some (s3, uput s3 i3 m)"
  proof -
    have "room (uput s2 i2 m) s2 (4 * ?n)"
      unfolding s2 by (rule room_img [OF assms(7)]) (simp add: T_def)
    moreover have "uput s3 (concat (map le32 ?as)) (uput s2 i2 m) = uput s3 i3 m"
      using push_on [OF _ refl, of "concat (map le32 ?as)" s2 i2 m] assms(8) by (simp add: T_def i3_def s3_def)
    ultimately show ?thesis
      using push_addrs_eq [of "uput s2 i2 m" s2 "rev ?as"] assms(8) by (simp add: T_def s3_def)
  qed
  have p4: "memset_word s4 (sp + 12) (uput s3 i3 m) = Some (uput s4 (le32 (sp + 12) @ i3) m)"
    unfolding s4_def by (rule wd [OF s3]) (simp add: T_def)
  have p5: "memset_word s5 (of_nat ?n) (uput s4 (le32 (sp + 12) @ i3) m) = Some (uput s5 (le32 (of_nat ?n) @ le32 (sp + 12) @ i3) m)"
    unfolding s5_def by (rule wd [OF s4]) (simp add: T_def)
  have p6: "memset_word sp 69 (uput s5 (le32 (of_nat ?n) @ le32 (sp + 12) @ i3) m) =
      Some (uput sp (le32 69 @ le32 (of_nat ?n) @ le32 (sp + 12) @ i3) m)"
    unfolding fin(1) [symmetric] by (rule wd [OF s5]) (simp add: T_def)
  have al: "s0 - stack_alignment_calc s0 (of_nat ?n) = s1" "unat (stack_alignment_calc s0 (of_nat ?n)) = pad"
    using s1 by (simp_all add: pad_def s0_def)
  have img: "stack_image esp pad wbs sp = le32 69 @ le32 (of_nat ?n) @ le32 (sp + 12) @ i3"
    by (simp add: stack_image_def i3_def i2_def i1_def i0_def)
  have e: "s3 = sp + 12" "s4 = 8 + sp" "s5 = 4 + sp" by (simp_all add: s3 s4 s5 sp_def T_def algebra_simps)
  show ?thesis
    unfolding load_arguments_to_stack_def img
    using p0 p1 p2 p3 p4 p5 p6 al assms(9) unfolding e by (simp add: Let_def s2_def [symmetric])
qed

section \<open>What the process finds\<close>

lemma alignment:
  fixes sp argc :: u32
  defines "e \<equiv> sp - 16 - 4 * argc"
  shows "unat (stack_alignment_calc sp argc) \<le> 15" "16 \<le> unat e \<Longrightarrow> (e - stack_alignment_calc sp argc) mod 16 = 12"
proof -
  define r where "r = unat e mod 16"
  have r: "unat (e mod 16) = r" "r < 16" by (simp_all add: r_def unat_mod)
  have e: "unat e = 16 * (unat e div 16) + r" by (simp add: r_def)
  consider "r = 12" | "12 < r" | "r < 12" by linarith
  then have "unat (stack_alignment_calc sp argc) = (if r = 12 then 0 else if 12 < r then r - 12 else r + 4)"
  proof cases
    case 1
    then have "e mod 16 = 12" using r(1) by (intro unsigned_word_eqI [where ?'a = nat]) simp
    then show ?thesis using 1 by (simp add: stack_alignment_calc_def e_def)
  next
    case 2
    then have "e mod 16 > 12" using r(1) by (simp add: word_less_nat_alt)
    then show ?thesis using 2 r by (simp add: stack_alignment_calc_def e_def [symmetric] unat_sub word_le_nat_alt less_imp_neq)
  next
    case 3
    then have "\<not> e mod 16 > 12" "e mod 16 \<noteq> 12" using r(1) by (auto simp: word_less_nat_alt)
    then show ?thesis using 3 r by (simp add: stack_alignment_calc_def e_def [symmetric] unat_word_ariths)
  qed
  note al = this
  show "unat (stack_alignment_calc sp argc) \<le> 15" using al r(2) by auto
  assume "16 \<le> unat e"
  then obtain q where q: "unat e = 16 * Suc q + r"
    using e by (metis Suc_diff_1 Suc_leI div_greater_zero_iff numeral_One one_eq_numeral_iff semiring_norm(86) zero_less_numeral)
  have le: "stack_alignment_calc sp argc \<le> e" using al q r(2) by (auto simp: word_le_nat_alt)
  have "unat (e - stack_alignment_calc sp argc) mod 16 = 12"
    using unat_sub [OF le] al q r(2) by (cases "r < 12") (auto simp: mod_simps)
  then have "unat ((e - stack_alignment_calc sp argc) mod 16) = unat (12 :: u32)" by (simp add: unat_mod)
  then show "(e - stack_alignment_calc sp argc) mod 16 = 12" by (rule unsigned_word_eqI)
qed

lemma holds_at_uput:
  assumes "length (xs @ bs @ ys) < 2 ^ 32"
  shows "holds_at (uput sp (xs @ bs @ ys) m) (sp + of_nat (length xs)) bs"
  unfolding holds_at_def
proof (intro allI impI)
  fix i assume i: "i < length bs"
  have "sp + of_nat (length xs) + of_nat i - sp = of_nat (length xs + i)" by simp
  moreover have "unat (of_nat (length xs + i) :: u32) = length xs + i" using i assms by (simp add: unat_of_nat del: of_nat_add)
  ultimately show "uput sp (xs @ bs @ ys) m (sp + of_nat (length xs) + of_nat i) = Some (bs ! i)"
    using i unfolding uput_def by (simp add: nth_append del: of_nat_add)
qed

lemma uput_outside:
  assumes "unat sp + length img = unat esp" "x < sp \<or> esp \<le> x"
  shows "uput sp img m x = m x"
proof -
  have "\<not> unat (x - sp) < length img"
  proof (cases "sp \<le> x")
    case True
    then show ?thesis using assms by (auto simp: unat_sub word_le_nat_alt word_less_nat_alt)
  next
    case False
    have "unat (x - sp) = 2 ^ 32 + unat x - unat sp"
      using False unsigned_less [where ?'a = nat, of sp] by (simp add: unat_sub_if' word_le_nat_alt)
    then show ?thesis using assms unsigned_less [where ?'a = nat, of esp] by auto
  qed
  then show ?thesis by (simp add: uput_def)
qed

lemma split_words_length: "length (concat (map (\<lambda>t. t @ [0]) (split_words s))) \<le> length s + 1"
proof (induction "length s" arbitrary: s rule: less_induct)
  case less
  define u where "u = dropWhile (\<lambda>x. x = 32) s"
  define t where "t = takeWhile (\<lambda>x. x \<noteq> 32) u"
  have us: "length u \<le> length s" unfolding u_def by (rule length_dropWhile_le)
  show ?case
  proof (cases "u = []")
    case True
    then show ?thesis using split_words_Nil [of s] unfolding u_def by simp
  next
    case False
    have tu: "length t \<le> length u" unfolding t_def by (rule length_takeWhile_le)
    have "length (concat (map (\<lambda>t. t @ [0]) (split_words (drop (length t + 1) u)))) \<le> length (drop (length t + 1) u) + 1"
      using less.hyps [of "drop (length t + 1) u"] us False by (cases u) auto
    moreover have "split_words [] = []" using split_words_Nil [of "[]"] by simp
    ultimately show ?thesis
      using split_words_Cons [OF u_def False t_def] us tu by (cases "length t < length u") auto
  qed
qed

lemma concat_map_at: "i < length xs \<Longrightarrow> concat (map f xs) = concat (map f (take i xs)) @ f (xs ! i) @ concat (map f (drop (Suc i) xs))"
  by (induction xs arbitrary: i) (auto simp: less_Suc_eq_0_disj)

lemma length_concat_rev: "length (concat (rev wbs)) = length (concat wbs)"
  by (induction wbs) auto

lemma image_entries:
  fixes esp sp :: u32 and m :: umem
  assumes "length (stack_image esp pad wbs sp) < 2 ^ 32" "sp = esp - of_nat (length (stack_image esp pad wbs sp))"
  defines "m' \<equiv> uput sp (stack_image esp pad wbs sp) m" and "n \<equiv> length wbs"
  shows "holds_at m' (sp + 4) (le32 (of_nat n))" "holds_at m' (sp + 8) (le32 (sp + 12))" "holds_at m' (sp + 12 + 4 * of_nat n) (le32 0)"
    "i < n \<Longrightarrow> holds_at m' (sp + 12 + 4 * of_nat i) (le32 (addrs esp (map length wbs) ! i))"
    "i < n \<Longrightarrow> holds_at m' (addrs esp (map length wbs) ! i) (wbs ! i)"
proof -
  let ?as = "addrs esp (map length wbs)"
  have img: "stack_image esp pad wbs sp = le32 69 @ le32 (of_nat n) @ le32 (sp + 12) @ concat (map le32 ?as) @ le32 0 @ replicate pad 0 @ concat (rev wbs)"
    by (simp add: stack_image_def n_def)
  note at = holds_at_uput [where sp = sp and m = m]
  show "holds_at m' (sp + 4) (le32 (of_nat n))"
    using at [of "le32 69" "le32 (of_nat n)"] assms(1) unfolding m'_def img by simp
  show "holds_at m' (sp + 8) (le32 (sp + 12))"
    using at [of "le32 69 @ le32 (of_nat n)" "le32 (sp + 12)"] assms(1) unfolding m'_def img by simp
  show "holds_at m' (sp + 12 + 4 * of_nat n) (le32 0)"
    using at [of "le32 69 @ le32 (of_nat n) @ le32 (sp + 12) @ concat (map le32 ?as)" "le32 0"] assms(1)
    unfolding m'_def img by (simp add: n_def add.assoc)
  assume i: "i < n"
  have c: "concat (map le32 ?as) = concat (map le32 (take i ?as)) @ le32 (?as ! i) @ concat (map le32 (drop (Suc i) ?as))"
    using i by (intro concat_map_at) (simp add: n_def)
  show "holds_at m' (sp + 12 + 4 * of_nat i) (le32 (?as ! i))"
    using at [of "le32 69 @ le32 (of_nat n) @ le32 (sp + 12) @ concat (map le32 (take i ?as))" "le32 (?as ! i)"] assms(1) i
    unfolding m'_def img c by (simp add: n_def add.assoc)
  have "wbs = take i wbs @ wbs ! i # drop (Suc i) wbs" using i by (intro id_take_nth_drop) (simp add: n_def)
  then have "rev wbs = rev (drop (Suc i) wbs) @ wbs ! i # rev (take i wbs)" by (metis append.assoc append_Cons append_Nil rev.simps(2) rev_append)
  then have r: "concat (rev wbs) = concat (rev (drop (Suc i) wbs)) @ wbs ! i @ concat (rev (take i wbs))" by simp
  let ?pre = "le32 69 @ le32 (of_nat n) @ le32 (sp + 12) @ concat (map le32 ?as) @ le32 0 @ replicate pad 0 @ concat (rev (drop (Suc i) wbs))"
  have "holds_at m' (sp + of_nat (length ?pre)) (wbs ! i)"
    using at [of ?pre "wbs ! i" "concat (rev (take i wbs))"] assms(1) unfolding m'_def img r by simp
  moreover have "sp + of_nat (length ?pre) = ?as ! i"
  proof -
    have "length (stack_image esp pad wbs sp) = length ?pre + sum_list (take (Suc i) (map length wbs))"
      unfolding img r using i by (simp add: length_concat rev_map [symmetric] take_map take_Suc_conv_app_nth n_def)
    then have "sp = esp - of_nat (sum_list (take (Suc i) (map length wbs))) - of_nat (length ?pre)" using assms(2) by (simp add: diff_diff_add add.commute)
    moreover have "?as ! i = esp - of_nat (sum_list (take (Suc i) (map length wbs)))"
      using nth_addrs [of i "map length wbs" esp] i by (simp add: n_def)
    ultimately show ?thesis using eq_diff_eq by metis
  qed
  ultimately show "holds_at m' (?as ! i) (wbs ! i)" by simp
qed

text \<open>C26: The words of the command line reach the new process. Splitting a command line that fits in the stack page and
  loading its words gives a stack pointer 12 above a multiple of 16. Above a return address the
  process finds the number of the words, the address of the vector that follows, and in
  the vector, in order, the addresses of null-terminated copies of the words between the blanks, and a null
  pointer at its end. Nothing outside the part of the stack in use is written.\<close>
theorem arguments_reach_process:
  assumes "str_at km p s" "str_at km d [32]" "d + 1 < p \<or> p + length s < d"
    and "room m PHYS_BASE 4096" "length s + 4 * length (split_words s) + 32 \<le> 4096" "PHYS_BASE \<le> if_esp"
  shows "\<exists>ws km' sp m'. get_word_list p d km = Some (ws, km') \<and>
    load_arguments_to_stack km' (length ws) (fst (get_argv_from_list ws)) (snd (get_argv_from_list ws)) if_esp PHYS_BASE m =
      Some (True, sp, m') \<and>
    sp mod 16 = 12 \<and> holds_at m' (sp + 4) (le32 (of_nat (length (split_words s)))) \<and> holds_at m' (sp + 8) (le32 (sp + 12)) \<and>
    (\<forall>i < length (split_words s). \<exists>a. holds_at m' (sp + 12 + 4 * of_nat i) (le32 a) \<and> holds_at m' a (split_words s ! i @ [0])) \<and>
    holds_at m' (sp + 12 + 4 * of_nat (length (split_words s))) (le32 0) \<and> (\<forall>x. x < sp \<or> PHYS_BASE \<le> x \<longrightarrow> m' x = m x)"
proof -
  obtain ws km' where ws: "get_word_list p d km = Some (ws, km')" "list_all2 (word_at km' p (p + length s)) ws (split_words s)"
    using get_word_list_spec [OF assms(1-3)] by blast
  define wbs where "wbs = map (\<lambda>t. t @ [0 :: byte]) (split_words s)"
  have n: "length wbs = length (split_words s)" "length ws = length (split_words s)" using list_all2_lengthD [OF ws(2)] by (simp_all add: wbs_def)
  have w: "in_mem km' (fst (ws ! i)) (snd (ws ! i)) \<and> slice (fst (ws ! i)) (snd (ws ! i)) km' = wbs ! i" if "i < length wbs" for i
    using list_all2_nthD2 [OF ws(2), of i] that n by (simp add: word_at_def str_at_slice wbs_def)
  let ?L = "length (concat wbs)" and ?n = "length wbs"
  define pad where "pad = unat (stack_alignment_calc (PHYS_BASE - of_nat ?L) (of_nat ?n))"
  define T where "T = ?L + pad + 16 + 4 * ?n"
  have L: "?L \<le> length s + 1" unfolding wbs_def by (rule split_words_length)
  have T: "T \<le> 4096" using alignment(1) [of "PHYS_BASE - of_nat ?L" "of_nat ?n"] L assms(5) n(1) by (simp add: T_def pad_def)
  define sp where "sp = PHYS_BASE - of_nat T"
  have Tn: "unat (of_nat T :: u32) = T" using T by (simp add: unat_of_nat)
  have spn: "unat sp + T = unat PHYS_BASE" "sp < PHYS_BASE \<or> T = 0"
    using T Tn by (auto simp: sp_def PHYS_BASE_def unat_sub word_le_nat_alt word_less_nat_alt)
  let ?img = "stack_image PHYS_BASE pad wbs sp"
  have li: "length ?img = T" by (simp add: stack_image_def T_def length_concat_rev)
  have "sp \<le> if_esp" using spn(1) assms(6) by (simp add: word_le_nat_alt)
  then have ld: "load_arguments_to_stack km' ?n (map fst ws @ [0]) (map snd ws) if_esp PHYS_BASE m = Some (True, sp, uput sp ?img m)"
    unfolding sp_def T_def pad_def
    by (intro load_arguments_eq)
      (use n w T room_less [OF assms(4), of T] in \<open>auto simp: nth_append T_def pad_def\<close>)
  note ent = image_entries [where esp = PHYS_BASE and pad = pad and wbs = wbs and sp = sp and m = m]
  have e: "holds_at (uput sp ?img m) (sp + 4) (le32 (of_nat ?n))" "holds_at (uput sp ?img m) (sp + 8) (le32 (sp + 12))"
      "holds_at (uput sp ?img m) (sp + 12 + 4 * of_nat ?n) (le32 0)"
      "\<And>i. i < ?n \<Longrightarrow> \<exists>a. holds_at (uput sp ?img m) (sp + 12 + 4 * of_nat i) (le32 a) \<and> holds_at (uput sp ?img m) a (wbs ! i)"
    using ent T unfolding li sp_def [symmetric] by auto
  have "sp mod 16 = 12"
  proof -
    let ?e = "PHYS_BASE - of_nat ?L - 16 - 4 * of_nat ?n"
    have "?e - stack_alignment_calc (PHYS_BASE - of_nat ?L) (of_nat ?n) = PHYS_BASE - of_nat (?L + 16 + 4 * ?n) - of_nat pad"
      by (simp add: pad_def diff_diff_add)
    also have "\<dots> = sp" by (simp add: sp_def T_def algebra_simps)
    finally have s: "?e - stack_alignment_calc (PHYS_BASE - of_nat ?L) (of_nat ?n) = sp" .
    have "?e = PHYS_BASE - of_nat (?L + 16 + 4 * ?n)" by (simp add: diff_diff_add)
    moreover have "unat (of_nat (?L + 16 + 4 * ?n) :: u32) = ?L + 16 + 4 * ?n" using T by (simp add: unat_of_nat T_def del: of_nat_add)
    moreover have "unat (PHYS_BASE - w) = unat PHYS_BASE - unat w" if "unat w \<le> 4096" for w
      using that by (intro unat_sub) (simp add: word_le_nat_alt PHYS_BASE_def)
    ultimately have "unat ?e = unat PHYS_BASE - (?L + 16 + 4 * ?n)" using T by (metis (no_types, lifting) T_def add.commute add.left_commute le_add1 le_trans)
    then have "16 \<le> unat ?e" using T by (simp add: PHYS_BASE_def T_def)
    then show ?thesis using alignment(2) s by metis
  qed
  moreover have "\<forall>x. x < sp \<or> PHYS_BASE \<le> x \<longrightarrow> uput sp ?img m x = m x"
    using uput_outside [of sp ?img PHYS_BASE] spn(1) li by simp
  ultimately show ?thesis
    using ws(1) ld e n unfolding get_argv_from_list_def
    by (intro exI [of _ ws] exI [of _ km'] exI [of _ sp] exI [of _ "uput sp ?img m"]) (auto simp: wbs_def)
qed

text \<open>The command line \<open>a  b\<close>.\<close>

theorem arguments_reach_process_witness:
  "\<exists>ws km' sp m' a. get_word_list 1 6 [0, 97, 32, 32, 98, 0, 32, 0] = Some (ws, km') \<and>
    load_arguments_to_stack km' (length ws) (fst (get_argv_from_list ws)) (snd (get_argv_from_list ws)) PHYS_BASE PHYS_BASE (\<lambda>_. Some 0) =
      Some (True, sp, m') \<and>
    sp mod 16 = 12 \<and> holds_at m' (sp + 4) (le32 2) \<and> holds_at m' (sp + 16) (le32 a) \<and> holds_at m' a [98, 0]"
proof -
  have w: "split_words [97, 32, 32, 98] = [[97], [98]]" by (simp add: split_words.simps)
  have r: "room (\<lambda>_. Some 0) PHYS_BASE 4096" by (simp add: room_def)
  have s: "str_at [0, 97, 32, 32, 98, 0, 32, 0] 1 [97, 32, 32, 98]" "str_at [0, 97, 32, 32, 98, 0, 32, 0] 6 [32]"
    by (simp_all add: ld_def)
  obtain ws km' sp m' where f: "get_word_list 1 6 [0, 97, 32, 32, 98, 0, 32, 0] = Some (ws, km')"
      "load_arguments_to_stack km' (length ws) (fst (get_argv_from_list ws)) (snd (get_argv_from_list ws)) PHYS_BASE PHYS_BASE (\<lambda>_. Some 0) =
        Some (True, sp, m')" "sp mod 16 = 12" "holds_at m' (sp + 4) (le32 (of_nat 2))"
      "\<forall>i < 2. \<exists>a. holds_at m' (sp + 12 + 4 * of_nat i) (le32 a) \<and> holds_at m' a ([[97], [98]] ! i @ [0])"
    using arguments_reach_process [OF s _ r, of PHYS_BASE] unfolding w by auto
  obtain a where "holds_at m' (sp + 16) (le32 a)" "holds_at m' a [98, 0]" using f(5) [rule_format, of 1] by (auto simp: add.commute)
  then show ?thesis using f(1-4) by auto
qed

end
