(* ===== verification/Exec_Load.thy ===== *)
theory Exec_Load
  imports Filesys Page_Dir Palloc
begin

text \<open>
  Loading an executable: \<^verbatim>\<open>load\<close> and its helpers in \<^verbatim>\<open>userprog/process.c\<close>, on top of the page allocator, the page
  directories and the file system. The state has the memory of the page allocator, whose bytes are the
  contents of the frames, the words of the page tables, the file system, and the fields of the running
  thread that \<^verbatim>\<open>load\<close> uses. The messages printed on errors and \<^verbatim>\<open>tss_update\<close> are dropped.

  An image that is well-formed is mapped exactly as its program headers say, and \<^verbatim>\<open>load\<close> fails only for a
  malformed image or when memory is exhausted.
\<close>

section \<open>Headers\<close>

type_synonym u16 = "16 word"

record Elf32_Ehdr =
  e_ident :: "byte list"
  e_type :: u16
  e_machine :: u16
  e_version :: u32
  e_entry :: u32
  e_phoff :: u32
  e_shoff :: u32
  e_flags :: u32
  e_ehsize :: u16
  e_phentsize :: u16
  e_phnum :: u16
  e_shentsize :: u16
  e_shnum :: u16
  e_shstrndx :: u16

record Elf32_Phdr =
  p_type :: u32
  p_offset :: u32
  p_vaddr :: u32
  p_paddr :: u32
  p_filesz :: u32
  p_memsz :: u32
  p_flags :: u32
  p_align :: u32

definition half_at :: "byte list \<Rightarrow> nat \<Rightarrow> u16" where
  "half_at bs i = ucast (bs ! i) OR push_bit 8 (ucast (bs ! (i + 1)))"

definition word32_at :: "byte list \<Rightarrow> nat \<Rightarrow> u32" where
  "word32_at bs i = of_le32 (slice i 4 bs)"

text \<open>The structures as they lie in the 52 and 32 bytes read from the file.\<close>

definition dec_ehdr :: "byte list \<Rightarrow> Elf32_Ehdr" where
  "dec_ehdr bs = \<lparr>e_ident = take 16 bs, e_type = half_at bs 16, e_machine = half_at bs 18, e_version = word32_at bs 20,
     e_entry = word32_at bs 24, e_phoff = word32_at bs 28, e_shoff = word32_at bs 32, e_flags = word32_at bs 36,
     e_ehsize = half_at bs 40, e_phentsize = half_at bs 42, e_phnum = half_at bs 44, e_shentsize = half_at bs 46,
     e_shnum = half_at bs 48, e_shstrndx = half_at bs 50\<rparr>"

definition dec_phdr :: "byte list \<Rightarrow> Elf32_Phdr" where
  "dec_phdr bs = \<lparr>p_type = word32_at bs 0, p_offset = word32_at bs 4, p_vaddr = word32_at bs 8, p_paddr = word32_at bs 12,
     p_filesz = word32_at bs 16, p_memsz = word32_at bs 20, p_flags = word32_at bs 24, p_align = word32_at bs 28\<rparr>"

definition PT_LOAD :: u32 where
  "PT_LOAD = 1"

definition PT_DYNAMIC :: u32 where
  "PT_DYNAMIC = 2"

definition PT_INTERP :: u32 where
  "PT_INTERP = 3"

definition PT_SHLIB :: u32 where
  "PT_SHLIB = 5"

definition PF_W :: u32 where
  "PF_W = 2"

definition bad_ehdr :: "Elf32_Ehdr \<Rightarrow> bool" where
  "bad_ehdr h \<longleftrightarrow> take 7 (e_ident h) \<noteq> [0x7f, 0x45, 0x4c, 0x46, 1, 1, 1] \<or> e_type h \<noteq> 2 \<or> e_machine h \<noteq> 3 \<or> e_version h \<noteq> 1 \<or>
     e_phentsize h \<noteq> 32 \<or> e_phnum h > 1024"

section \<open>Pages\<close>

record exec_state =
  ram :: pages
  ptabs :: pmem
  fsys :: fs
  pagedir :: "u32 option"
  executable :: "nat option"
  cwd :: "dir option"

definition put_bytes :: "u32 \<Rightarrow> byte list \<Rightarrow> (u32 \<Rightarrow> byte) \<Rightarrow> u32 \<Rightarrow> byte" where
  "put_bytes p bs m = (\<lambda>a. if unat (a - p) < length bs then bs ! unat (a - p) else m a)"

definition set_bytes :: "(u32 \<Rightarrow> byte) \<Rightarrow> exec_state \<Rightarrow> exec_state" where
  "set_bytes m s = s\<lparr>ram := (ram s)\<lparr>bytes := m\<rparr>\<rparr>"

definition free_page :: "u32 \<Rightarrow> exec_state \<Rightarrow> exec_state option" where
  "free_page p s = do { r \<leftarrow> palloc_free_page p (ram s); Some (s\<lparr>ram := r\<rparr>) }"

definition get_page :: "u32 \<Rightarrow> exec_state \<Rightarrow> (u32 option \<times> exec_state) option" where
  "get_page flags s = do {
     (p, r) \<leftarrow> palloc_get_page flags (ram s);
     Some (if p = 0 then None else Some p, s\<lparr>ram := r\<rparr>)
   }"

text \<open>\<^verbatim>\<open>pagedir_set_page\<close> takes a page from the allocator when the directory has no table for the address.\<close>

definition set_page :: "u32 \<Rightarrow> u32 \<Rightarrow> u32 \<Rightarrow> bool \<Rightarrow> exec_state \<Rightarrow> (bool \<times> exec_state) option" where
  "set_page pd upage kpage writable s = do {
     (page, s) \<leftarrow> (if words (ptabs s) (entry pd (pd_no upage)) = 0 then get_page PAL_ZERO s else Some (None, s));
     (ok, m) \<leftarrow> pagedir_set_page page pd upage kpage writable (ptabs s);
     Some (ok, s\<lparr>ptabs := m\<rparr>)
   }"

definition install_page :: "u32 \<Rightarrow> u32 \<Rightarrow> bool \<Rightarrow> exec_state \<Rightarrow> (bool \<times> exec_state) option" where
  "install_page upage kpage writable s = do {
     pd \<leftarrow> pagedir s;
     old \<leftarrow> pagedir_get_page pd upage (ptabs s);
     if old = None then set_page pd upage kpage writable s else Some (False, s)
   }"

definition setup_stack :: "exec_state \<Rightarrow> (u32 option \<times> exec_state) option" where
  "setup_stack s = do {
     (kpage, s) \<leftarrow> get_page (PAL_USER OR PAL_ZERO) s;
     case kpage of None \<Rightarrow> Some (None, s)
     | Some kpage \<Rightarrow> do {
         (success, s) \<leftarrow> install_page (PHYS_BASE - PGSIZE) kpage True s;
         if success then Some (Some PHYS_BASE, s)
         else do { s \<leftarrow> free_page kpage s; Some (None, s) }
       }
   }"

section \<open>Segments\<close>

definition page_read_bytes :: "u32 \<Rightarrow> u32" where
  "page_read_bytes read_bytes = (if read_bytes < PGSIZE then read_bytes else PGSIZE)"

partial_function (option) load_loop :: "nat \<Rightarrow> u32 \<Rightarrow> u32 \<Rightarrow> u32 \<Rightarrow> bool \<Rightarrow> exec_state \<Rightarrow> (bool \<times> exec_state) option" where
  "load_loop file upage read_bytes zero_bytes writable s =
    (if read_bytes > 0 \<or> zero_bytes > 0 then do {
       let page_zero_bytes = PGSIZE - page_read_bytes read_bytes;
       (kpage, s) \<leftarrow> get_page PAL_USER s;
       case kpage of None \<Rightarrow> Some (False, s)
       | Some kpage \<Rightarrow> do {
           (bs, f) \<leftarrow> file_read file (page_read_bytes read_bytes) (fsys s);
           let s = set_bytes (put_bytes kpage bs (bytes (ram s))) (s\<lparr>fsys := f\<rparr>);
           if length bs \<noteq> unat (page_read_bytes read_bytes) then do { s \<leftarrow> free_page kpage s; Some (False, s) }
           else do {
             let s = set_bytes (fill (kpage + page_read_bytes read_bytes) page_zero_bytes 0 (bytes (ram s))) s;
             (ok, s) \<leftarrow> install_page upage kpage writable s;
             if \<not> ok then do { s \<leftarrow> free_page kpage s; Some (False, s) }
             else load_loop file (upage + PGSIZE) (read_bytes - page_read_bytes read_bytes) (zero_bytes - page_zero_bytes) writable s
           }
         }
     }
     else Some (True, s))"

definition load_segment :: "nat \<Rightarrow> u32 \<Rightarrow> u32 \<Rightarrow> u32 \<Rightarrow> u32 \<Rightarrow> bool \<Rightarrow> exec_state \<Rightarrow> (bool \<times> exec_state) option" where
  "load_segment file ofs upage read_bytes zero_bytes writable s = do {
     ASSERT ((read_bytes + zero_bytes) mod PGSIZE = 0);
     ASSERT (pg_ofs upage = 0);
     ASSERT (ofs mod PGSIZE = 0);
     f \<leftarrow> file_seek file ofs (fsys s);
     load_loop file upage read_bytes zero_bytes writable (s\<lparr>fsys := f\<rparr>)
   }"

definition validate_segment :: "Elf32_Phdr \<Rightarrow> nat \<Rightarrow> exec_state \<Rightarrow> (bool \<times> exec_state) option" where
  "validate_segment phdr file s =
    (if p_offset phdr AND PGMASK \<noteq> p_vaddr phdr AND PGMASK then Some (False, s)
     else do {
       (len, f) \<leftarrow> file_length file (fsys s);
       let s = s\<lparr>fsys := f\<rparr>;
       if p_offset phdr > len then Some (False, s)
       else if p_memsz phdr < p_filesz phdr then Some (False, s)
       else if p_memsz phdr = 0 then Some (False, s)
       else if \<not> is_user_vaddr (p_vaddr phdr) then Some (False, s)
       else if \<not> is_user_vaddr (p_vaddr phdr + p_memsz phdr) then Some (False, s)
       else if p_vaddr phdr + p_memsz phdr < p_vaddr phdr then Some (False, s)
       else if p_vaddr phdr < PGSIZE then Some (False, s)
       else Some (True, s)
     })"

definition round_up :: "u32 \<Rightarrow> u32 \<Rightarrow> u32" where
  "round_up x step = (x + step - 1) div step * step"

definition load_phdr :: "nat \<Rightarrow> Elf32_Phdr \<Rightarrow> exec_state \<Rightarrow> (bool \<times> exec_state) option" where
  "load_phdr file phdr s =
    (if p_type phdr \<in> {PT_DYNAMIC, PT_INTERP, PT_SHLIB} then Some (False, s)
     else if p_type phdr = PT_LOAD then do {
       (valid, s) \<leftarrow> validate_segment phdr file s;
       if valid then do {
         let writable = (p_flags phdr AND PF_W \<noteq> 0);
         let file_page = p_offset phdr AND NOT PGMASK;
         let mem_page = p_vaddr phdr AND NOT PGMASK;
         let page_offset = p_vaddr phdr AND PGMASK;
         let (read_bytes, zero_bytes) =
           (if p_filesz phdr > 0
            then (page_offset + p_filesz phdr, round_up (page_offset + p_memsz phdr) PGSIZE - (page_offset + p_filesz phdr))
            else (0, round_up (page_offset + p_memsz phdr) PGSIZE));
         load_segment file file_page mem_page read_bytes zero_bytes writable s
       }
       else Some (False, s)
     }
     else Some (True, s))"

fun load_phdrs :: "nat \<Rightarrow> u32 \<Rightarrow> nat list \<Rightarrow> exec_state \<Rightarrow> (bool \<times> exec_state) option" where
  "load_phdrs file file_ofs [] s = Some (True, s)"
| "load_phdrs file file_ofs (i # is) s =
    (if file_ofs <s 0 then Some (False, s)
     else do {
       (len, f) \<leftarrow> file_length file (fsys s);
       let s = s\<lparr>fsys := f\<rparr>;
       if len <s file_ofs then Some (False, s)
       else do {
         f \<leftarrow> file_seek file file_ofs (fsys s);
         (bs, f) \<leftarrow> file_read file 32 f;
         let s = s\<lparr>fsys := f\<rparr>;
         if length bs \<noteq> 32 then Some (False, s)
         else do {
           (ok, s) \<leftarrow> load_phdr file (dec_phdr bs) s;
           if ok then load_phdrs file (file_ofs + 32) is s else Some (False, s)
         }
       }
     })"

section \<open>Loading\<close>

text \<open>\<^verbatim>\<open>load\<close> from the check of the executable header on; the result is the entry point and the stack
  pointer.\<close>

definition load_image :: "nat \<Rightarrow> exec_state \<Rightarrow> ((u32 \<times> u32) option \<times> exec_state) option" where
  "load_image file s = do {
     (bs, f) \<leftarrow> file_read file 52 (fsys s);
     let s = s\<lparr>fsys := f\<rparr>;
     let ehdr = dec_ehdr bs;
     if length bs \<noteq> 52 \<or> bad_ehdr ehdr then Some (None, s)
     else do {
       (ok, s) \<leftarrow> load_phdrs file (e_phoff ehdr) [0..<unat (e_phnum ehdr)] s;
       if \<not> ok then Some (None, s)
       else do {
         (esp, s) \<leftarrow> setup_stack s;
         case esp of None \<Rightarrow> Some (None, s) | Some esp \<Rightarrow> Some (Some (e_entry ehdr, esp), s)
       }
     }
   }"

definition process_activate :: "exec_state \<Rightarrow> exec_state option" where
  "process_activate s = do { m \<leftarrow> pagedir_activate (pagedir s) (ptabs s); Some (s\<lparr>ptabs := m\<rparr>) }"

text \<open>Opening a directory gives a pointer to a \<^verbatim>\<open>struct dir\<close>, which \<^verbatim>\<open>load\<close> uses as a \<^verbatim>\<open>struct file\<close>: the behaviour is
  undefined.\<close>

definition load :: "byte list \<Rightarrow> byte list \<Rightarrow> exec_state \<Rightarrow> ((u32 \<times> u32) option \<times> exec_state) option" where
  "load junk file_name s = do {
     (page, s) \<leftarrow> get_page 0 s;
     let (pd, m) = pagedir_create page (ptabs s);
     let s = s\<lparr>ptabs := m, pagedir := pd\<rparr>;
     if pd = None then Some (None, s)
     else do {
       s \<leftarrow> process_activate s;
       (h, c, f) \<leftarrow> filesys_open junk file_name (cwd s) (fsys s);
       let s = s\<lparr>fsys := f, cwd := c\<rparr>;
       case h of None \<Rightarrow> Some (None, s)
       | Some (DirH d) \<Rightarrow> None
       | Some (FileH file) \<Rightarrow> do {
           f \<leftarrow> file_deny_write file (fsys s);
           load_image file (s\<lparr>fsys := f, executable := Some file\<rparr>)
         }
     }
   }"

section \<open>Open files\<close>

text \<open>An open file with its contents and position; no thread is using its inode.\<close>

definition open_at :: "nat \<Rightarrow> byte list \<Rightarrow> nat \<Rightarrow> fs \<Rightarrow> bool" where
  "open_at fp fb pos f \<longleftrightarrow> cache_ok f \<and> (\<exists>x i. files f fp = Some x \<and> unat (fpos x) = pos \<and> inodes f (finode x) = Some i \<and> quiet i \<and>
     file_ok (blk_size (fs_device f)) (view f) (isector i) \<and> fb = file_bytes (view f) (isector i))"

lemma open_length: "open_at fp fb pos f \<Longrightarrow> length fb \<le> 2 ^ 23"
  by (auto simp: open_at_def file_ok_def)

lemma open_move:
  assumes "open_at fp fb pos f" "same_view f f'" "files f fp = Some x"
  shows "open_at fp fb (unat q) (f'\<lparr>files := (files f')(fp \<mapsto> x\<lparr>fpos := q\<rparr>)\<rparr>)"
  using assms same_viewD [OF assms(2)] by (auto simp: open_at_def fs_rest_eq)

lemma open_same: "open_at fp fb pos f \<Longrightarrow> same_view f f' \<Longrightarrow> open_at fp fb pos f'"
  using same_viewD [of f f'] by (auto simp: open_at_def fs_rest_eq)

lemma file_read_open:
  assumes "open_at fp fb pos f" "pos + unat n < 2 ^ 31"
  shows "\<exists>f'. file_read fp n f = Some (slice pos (unat n) fb, f') \<and> open_at fp fb (pos + length (slice pos (unat n) fb)) f'"
proof -
  obtain x i where x: "files f fp = Some x" "unat (fpos x) = pos" "inodes f (finode x) = Some i" "quiet i" "cache_ok f"
      "file_ok (blk_size (fs_device f)) (view f) (isector i)" "fb = file_bytes (view f) (isector i)"
    using assms(1) by (auto simp: open_at_def)
  obtain f1 where f1: "inode_read_at (finode x) n (fpos x) f = Some (slice pos (unat n) fb, f1)" "same_view f f1"
    using inode_read_at_spec [OF x(3-6), of "fpos x" n] x(2,7) assms(2) by auto
  have l: "length (slice pos (unat n) fb) \<le> unat n" by (simp add: slice_def)
  have "unat (fpos x + of_nat (length (slice pos (unat n) fb))) = pos + length (slice pos (unat n) fb)"
    using x(2) assms(2) l by (simp add: unat_word_ariths unat_of_nat)
  then show ?thesis
    using f1 x(1) open_move [OF assms(1) f1(2) x(1), of "fpos x + of_nat (length (slice pos (unat n) fb))"] by (simp add: file_read_def)
qed

lemma file_seek_open:
  assumes "open_at fp fb pos f" "unat q < 2 ^ 31"
  shows "\<exists>f'. file_seek fp q f = Some f' \<and> open_at fp fb (unat q) f'"
proof -
  obtain x where x: "files f fp = Some x" "cache_ok f" using assms(1) by (auto simp: open_at_def)
  moreover have "0 \<le>s q" using sle_small [of 0 q] assms(2) by simp
  ultimately show ?thesis using open_move [OF assms(1) same_view_refl [OF x(2)] x(1)] by (auto simp: file_seek_def)
qed

lemma file_length_open:
  assumes "open_at fp fb pos f"
  shows "\<exists>n f'. file_length fp f = Some (n, f') \<and> unat n = length fb \<and> open_at fp fb pos f'"
proof -
  obtain x i where x: "files f fp = Some x" "inodes f (finode x) = Some i" "cache_ok f"
      "file_ok (blk_size (fs_device f)) (view f) (isector i)" "fb = file_bytes (view f) (isector i)"
    using assms(1) by (auto simp: open_at_def)
  have "on_disk f (isector i)" using x(4) by (simp add: file_ok_def)
  from inode_length_spec [OF x(2,3) this] show ?thesis
    using x(1,5) open_same [OF assms] by (auto simp: file_length_def file_len_def)
qed

section \<open>The address space of a process\<close>

text \<open>What the process finds at an address, and whether it may write there.\<close>

definition frame_of :: "u32 \<Rightarrow> (u32 \<Rightarrow> u32) \<Rightarrow> u32 \<Rightarrow> u32 option" where
  "frame_of pd w va = (if pte_of pd w va AND PTE_P = 0 then None else pte_get_page (pte_of pd w va))"

definition user_byte :: "exec_state \<Rightarrow> u32 \<Rightarrow> (byte \<times> bool) option" where
  "user_byte s va = (case pagedir s of None \<Rightarrow> None
     | Some pd \<Rightarrow> if is_user_vaddr va
         then map_option (\<lambda>p. (bytes (ram s) (p + pg_ofs va), pte_of pd (words (ptabs s)) va AND PTE_W \<noteq> 0)) (frame_of pd (words (ptabs s)) va)
         else None)"

lemma get_page_frame:
  "pd_ok pd (words m) \<Longrightarrow> is_user_vaddr va \<Longrightarrow> pagedir_get_page pd va m = Some (map_option (\<lambda>p. p + pg_ofs va) (frame_of pd (words m) va))"
  using get_page_eq(1) [of pd m va] by (simp add: frame_of_def)

definition inuse :: "page_block list \<Rightarrow> nat set" where
  "inuse live = set (concat (map pages_of live))"

lemma inuse_simps [simp]: "inuse [] = {}" "inuse (b # live) = set (pages_of b) \<union> inuse live" "inuse (xs @ ys) = inuse xs \<union> inuse ys"
  by (simp_all add: inuse_def)

lemma pages_of_1 [simp]: "pages_of (p, 1) = [unat p div 4096]"
  by (simp add: pages_of_def)

text \<open>The blocks \<open>live\<close> hold the directory, its tables and the frames, all distinct.\<close>

definition frames_ok :: "u32 \<Rightarrow> page_block list \<Rightarrow> (u32 \<Rightarrow> u32) \<Rightarrow> bool" where
  "frames_ok pd live w \<longleftrightarrow>
     (\<forall>i pt. unat i < 768 \<longrightarrow> table_at pd w i = Some pt \<longrightarrow> unat pt div 4096 \<in> inuse live) \<and>
     (\<forall>va p. is_user_vaddr va \<longrightarrow> frame_of pd w va = Some p \<longrightarrow> pg_ofs p = 0 \<and> unat p div 4096 \<in> inuse live \<and> p \<noteq> pd) \<and>
     (\<forall>va p i. is_user_vaddr va \<longrightarrow> frame_of pd w va = Some p \<longrightarrow> unat i < 768 \<longrightarrow> table_at pd w i \<noteq> Some p) \<and>
     (\<forall>va vb p. is_user_vaddr va \<longrightarrow> is_user_vaddr vb \<longrightarrow> frame_of pd w va = Some p \<longrightarrow> frame_of pd w vb = Some p \<longrightarrow> pg_no va = pg_no vb)"

lemma frames_okD:
  assumes "frames_ok pd live w"
  shows "unat i < 768 \<Longrightarrow> table_at pd w i = Some pt \<Longrightarrow> unat pt div 4096 \<in> inuse live"
    "is_user_vaddr va \<Longrightarrow> frame_of pd w va = Some p \<Longrightarrow> pg_ofs p = 0 \<and> unat p div 4096 \<in> inuse live \<and> p \<noteq> pd"
    "is_user_vaddr va \<Longrightarrow> frame_of pd w va = Some p \<Longrightarrow> unat i < 768 \<Longrightarrow> table_at pd w i \<noteq> Some p"
    "is_user_vaddr va \<Longrightarrow> is_user_vaddr vb \<Longrightarrow> frame_of pd w va = Some p \<Longrightarrow> frame_of pd w vb = Some p \<Longrightarrow> pg_no va = pg_no vb"
  using assms unfolding frames_ok_def by blast+

text \<open>The blocks \<open>extra\<close> are pages taken for the next frame.\<close>

definition exec_ok :: "u32 \<Rightarrow> page_block list \<Rightarrow> page_block list \<Rightarrow> exec_state \<Rightarrow> bool" where
  "exec_ok pd live extra s \<longleftrightarrow> pagedir s = Some pd \<and> pd_ok pd (words (ptabs s)) \<and> pd \<noteq> init_page_dir (ptabs s) \<and>
     holds (ram s) (extra @ live) \<and>
     (\<forall>u. pool_pages (pool_of u (ram s)) \<subseteq> {0xc0000..<0xc0000 + unat (init_ram_pages (ptabs s))}) \<and>
     unat pd div 4096 \<in> inuse live \<and> frames_ok pd live (words (ptabs s))"

lemma exec_okD:
  assumes "exec_ok pd live extra s"
  shows "pagedir s = Some pd" "pd_ok pd (words (ptabs s))" "pd \<noteq> init_page_dir (ptabs s)" "holds (ram s) (extra @ live)"
    "pool_pages (pool_of u (ram s)) \<subseteq> {0xc0000..<0xc0000 + unat (init_ram_pages (ptabs s))}" "unat pd div 4096 \<in> inuse live"
    "frames_ok pd live (words (ptabs s))"
  using assms unfolding exec_ok_def by simp_all

text \<open>Only the allocator's state and the bytes changed.\<close>

lemma exec_ok_ram:
  assumes "exec_ok pd live extra s" "holds r (extra' @ live)" "\<And>u. pool_pages (pool_of u r) = pool_pages (pool_of u (ram s))"
  shows "exec_ok pd live extra' (s\<lparr>ram := r\<rparr>)"
  using assms unfolding exec_ok_def by simp

lemma exec_ok_fs [simp]: "exec_ok pd live extra (s\<lparr>fsys := f\<rparr>) = exec_ok pd live extra s"
  by (simp add: exec_ok_def)

lemma exec_ok_bytes [simp]: "exec_ok pd live extra (set_bytes m s) = exec_ok pd live extra s"
  by (simp add: exec_ok_def set_bytes_def)

lemma user_byte_fs [simp]: "user_byte (s\<lparr>fsys := f\<rparr>) = user_byte s"
  by (rule ext) (simp add: user_byte_def split: option.split)

text \<open>Bytes outside the frames do not matter to the process.\<close>

lemma user_byte_ram:
  assumes "exec_ok pd live extra s" "\<And>a. unat a div 4096 \<in> inuse live \<Longrightarrow> bytes r a = bytes (ram s) a"
  shows "user_byte (s\<lparr>ram := r\<rparr>) va = user_byte s va"
proof (cases "is_user_vaddr va \<and> frame_of pd (words (ptabs s)) va \<noteq> None")
  case True
  then obtain p where p: "frame_of pd (words (ptabs s)) va = Some p" by auto
  then have f: "pg_ofs p = 0" "unat p div 4096 \<in> inuse live" using frames_okD(2) [OF exec_okD(7) [OF assms(1)]] True by auto
  obtain k where k: "unat p = 4096 * k" "k < 2 ^ 20" using aligned_mult [OF f(1)] .
  have "unat (p + pg_ofs va) = 4096 * k + unat (pg_ofs va)" "unat (pg_ofs va) < 4096"
    using k by (simp_all add: unat_word_ariths unat_pg_ofs)
  then have "unat (p + pg_ofs va) div 4096 = unat p div 4096" using k(1) by simp
  then show ?thesis using p exec_okD(1) [OF assms(1)] assms(2) f(2) by (simp add: user_byte_def)
next
  case False
  then show ?thesis using exec_okD(1) [OF assms(1)] by (auto simp: user_byte_def)
qed

lemma offset_range:
  fixes a p :: u32
  assumes "unat p + n \<le> 2 ^ 32" shows "unat (a - p) < n \<longleftrightarrow> unat p \<le> unat a \<and> unat a < unat p + n"
  using assms unsigned_less [where ?'a = nat, of a] by (auto simp: unat_sub_if')

lemma page_range: "unat p = 4096 * k \<Longrightarrow> unat p \<le> unat a \<and> unat a < unat p + 4096 \<longleftrightarrow> unat a div 4096 = unat p div 4096"
  by auto

lemma fill_page:
  assumes "pg_ofs p = 0" shows "fill p PGSIZE v m a = (if unat a div 4096 = unat p div 4096 then v else m a)"
proof -
  obtain k where k: "unat p = 4096 * k" "k < 2 ^ 20" using aligned_mult [OF assms] .
  have "a - p < PGSIZE \<longleftrightarrow> unat (a - p) < 4096" by (simp add: PGSIZE_eq word_less_nat_alt)
  then show ?thesis using offset_range [of p 4096 a] page_range [OF k(1), of a] k by (simp add: fill_def)
qed

text \<open>All the pages of one of the pools are in use.\<close>

definition exhausted :: "exec_state \<Rightarrow> bool" where
  "exhausted s \<longleftrightarrow> (\<exists>u. pool_pages (pool_of u (ram s)) = used_pages (pool_of u (ram s)))"

lemma no_free_run:
  assumes "pool_ok p" "\<And>j. \<not> free_run p 1 j" shows "pool_pages p = used_pages p"
proof -
  have "bitmap_abs (used_map p) ! j" if "j < bit_cnt (used_map p)" for j
    using assms(2) [of j] that by (simp add: free_run_def run_at_def bitmap_abs_def)
  then have "x \<in> used_pages p" if "x \<in> pool_pages p" for x
    using that unfolding pool_pages_def used_pages_def by (intro CollectI exI [of _ "x - first_page p"]) auto
  then show ?thesis using used_pages_sub by blast
qed

lemma exhausted_inuse:
  assumes "holds (ram s) live" shows "exhausted s \<longleftrightarrow> (\<exists>u. pool_pages (pool_of u (ram s)) \<subseteq> inuse live)"
proof -
  have u: "inuse live = (\<Union>u. used_pages (pool_of u (ram s)))" "pool_pages (pool_of True (ram s)) \<inter> pool_pages (pool_of False (ram s)) = {}"
    using assms by (auto simp: holds_alt inuse_def)
  have "pool_pages (pool_of v (ram s)) = used_pages (pool_of v (ram s)) \<longleftrightarrow> pool_pages (pool_of v (ram s)) \<subseteq> inuse live" for v
    using u used_pages_sub [of "pool_of True (ram s)"] used_pages_sub [of "pool_of False (ram s)"]
    by (cases v) (auto simp: UNIV_bool)
  then show ?thesis by (simp add: exhausted_def)
qed

lemma get_page_spec:
  assumes ok: "exec_ok pd live extra s" and fl: "flags AND PAL_ASSERT = 0"
  obtains (got) p r where "get_page flags s = Some (Some p, s\<lparr>ram := r\<rparr>)" "exec_ok pd live ((p, 1) # extra) (s\<lparr>ram := r\<rparr>)"
      "pg_ofs p = 0" "is_kernel_vaddr p" "unat p div 4096 \<notin> inuse (extra @ live)" "p \<noteq> 0"
      "unat p div 4096 \<in> pool_pages (pool_of (flags AND PAL_USER \<noteq> 0) (ram s))"
      "\<And>u. pool_pages (pool_of u r) = pool_pages (pool_of u (ram s))"
      "bytes r = (\<lambda>a. if flags AND PAL_ZERO \<noteq> 0 \<and> unat a div 4096 = unat p div 4096 then 0 else bytes (ram s) a)"
  | (none) "get_page flags s = Some (None, s)"
      "pool_pages (pool_of (flags AND PAL_USER \<noteq> 0) (ram s)) = used_pages (pool_of (flags AND PAL_USER \<noteq> 0) (ram s))"
proof -
  note h = exec_okD(4) [OF ok]
  show thesis
  proof (rule get_multiple_spec [OF h, where flags = flags and n = 1])
    fix p r
    assume g: "palloc_get_multiple flags 1 (ram s) = Some (p, r)" "p \<noteq> 0" "holds r ((p, 1) # extra @ live)"
      "set (pages_of (p, 1)) \<subseteq> pool_pages (pool_of (flags AND PAL_USER \<noteq> 0) (ram s))"
      "\<And>v. pool_pages (pool_of v r) = pool_pages (pool_of v (ram s))"
      "bytes r = (if flags AND PAL_ZERO \<noteq> 0 then fill p (PGSIZE * 1) 0 (bytes (ram s)) else bytes (ram s))"
    have al: "pg_ofs p = 0" using g(3) by (auto simp: holds_def block_ok_def)
    have pp: "unat p div 4096 \<in> pool_pages (pool_of (flags AND PAL_USER \<noteq> 0) (ram s))" using g(4) by simp
    then have "0xc0000 \<le> unat p div 4096" using exec_okD(5) [OF ok] by fastforce
    then have "is_kernel_vaddr p" by (simp add: is_kernel_vaddr_def PHYS_BASE_def word_le_nat_alt)
    moreover have "unat p div 4096 \<notin> inuse (extra @ live)" using g(3) by (simp add: holds_def inuse_def)
    moreover have "exec_ok pd live ((p, 1) # extra) (s\<lparr>ram := r\<rparr>)" using exec_ok_ram [OF ok, of r "(p, 1) # extra"] g(3,5) by simp
    moreover have "bytes r = (\<lambda>a. if flags AND PAL_ZERO \<noteq> 0 \<and> unat a div 4096 = unat p div 4096 then 0 else bytes (ram s) a)"
      by (rule ext) (simp add: g(6) fill_page [OF al])
    moreover have "get_page flags s = Some (Some p, s\<lparr>ram := r\<rparr>)" using g(1,2) by (simp add: get_page_def palloc_get_page_def)
    ultimately show thesis using got [of p r] g(2,5) al pp by blast
  next
    assume "1 = (0 :: u32) \<or> (\<forall>j. \<not> free_run (pool_of (flags AND PAL_USER \<noteq> 0) (ram s)) 1 j)"
      "palloc_get_multiple flags 1 (ram s) = (if 1 = (0 :: u32) \<or> flags AND PAL_ASSERT = 0 then Some (0, ram s) else None)"
    moreover have "pool_ok (pool_of (flags AND PAL_USER \<noteq> 0) (ram s))" using h by (simp add: holds_alt)
    ultimately show thesis
      using fl no_free_run by (intro none) (auto simp: get_page_def palloc_get_page_def)
  qed
qed

lemma free_page_spec:
  assumes ok: "exec_ok pd live ((p, 1) # extra) s"
  obtains s' where "free_page p s = Some s'" "exec_ok pd live extra s'" "user_byte s' = user_byte s" "fsys s' = fsys s"
    "\<And>u. pool_pages (pool_of u (ram s')) = pool_pages (pool_of u (ram s))"
proof -
  have h: "holds (ram s) ((p, 1) # extra @ live)" using exec_okD(4) [OF ok] by simp
  obtain r where r: "palloc_free_multiple p 1 (ram s) = Some r" "holds r (remove1 (p, 1) ((p, 1) # extra @ live))"
      "\<And>v. pool_pages (pool_of v r) = pool_pages (pool_of v (ram s))" "bytes r = fill p PGSIZE 0xcc (bytes (ram s))"
    using free_multiple_spec [OF h, of p 1] by auto
  have al: "pg_ofs p = 0" "unat p div 4096 \<notin> inuse live" using h by (auto simp: holds_def block_ok_def inuse_def)
  have "user_byte (s\<lparr>ram := r\<rparr>) = user_byte s"
    by (rule ext, rule user_byte_ram [OF ok]) (use al in \<open>auto simp: r(4) fill_page\<close>)
  moreover have "exec_ok pd live extra (s\<lparr>ram := r\<rparr>)" using exec_ok_ram [OF ok, of r extra] r(2,3) by simp
  ultimately show thesis using that r(1,3) by (simp add: free_page_def palloc_free_page_def)
qed

lemma frames_add:
  assumes f: "frames_ok pd live w" "unat pd div 4096 \<in> inuse live" and k: "unat k div 4096 \<notin> inuse live" "pg_ofs k = 0"
    and t: "\<And>j. unat j < 768 \<Longrightarrow> table_at pd w' j = table_at pd w j \<or> (\<exists>pt. table_at pd w' j = Some pt \<and> unat pt div 4096 \<in> inuse new - inuse live \<and> pt \<noteq> k)"
    and e: "\<And>vb. is_user_vaddr vb \<Longrightarrow> frame_of pd w' vb = (if pg_no vb = pg_no va then Some k else frame_of pd w vb)"
    and n: "inuse live' = insert (unat k div 4096) (inuse live \<union> inuse new)"
  shows "frames_ok pd live' w'"
proof -
  note f1 = frames_okD [OF f(1)]
  have ne: "unat q div 4096 \<in> inuse live \<Longrightarrow> q \<noteq> k" for q using k by auto
  show ?thesis
    unfolding frames_ok_def
  proof (intro conjI allI impI)
    show "unat pt div 4096 \<in> inuse live'" if "unat i < 768" "table_at pd w' i = Some pt" for i pt
      using t [OF that(1)] that f1(1) n by auto
    show "pg_ofs p = 0" "unat p div 4096 \<in> inuse live'" "p \<noteq> pd" if "is_user_vaddr vb" "frame_of pd w' vb = Some p" for vb p
      using e [OF that(1)] that f1(2) [OF that(1), of p] n k ne [OF f(2)] by (auto split: if_splits)
    show "table_at pd w' i \<noteq> Some p" if "is_user_vaddr vb" "frame_of pd w' vb = Some p" "unat i < 768" for vb p i
    proof (cases "pg_no vb = pg_no va")
      case True
      then show ?thesis using e [OF that(1)] that(2) t [OF that(3)] f1(1) [OF that(3), of k] k(1) by auto
    next
      case False
      then have "frame_of pd w vb = Some p" using e [OF that(1)] that(2) by simp
      then show ?thesis using t [OF that(3)] f1(2) [OF that(1), of p] f1(3) [OF that(1) _ that(3), of p] by auto
    qed
    show "pg_no vb = pg_no vc" if "is_user_vaddr vb" "is_user_vaddr vc" "frame_of pd w' vb = Some p" "frame_of pd w' vc = Some p" for vb vc p
    proof (cases "p = k")
      case True
      then have "frame_of pd w vb \<noteq> Some p" "frame_of pd w vc \<noteq> Some p" using f1(2) [OF that(1), of k] f1(2) [OF that(2), of k] k(1) by auto
      then show ?thesis using e [OF that(1)] e [OF that(2)] that(3,4) by (metis (full_types))
    next
      case False
      then have "frame_of pd w vb = Some p" "frame_of pd w vc = Some p" using e [OF that(1)] e [OF that(2)] that(3,4) by (metis option.inject)+
      then show ?thesis by (rule f1(4) [OF that(1,2)])
    qed
  qed
qed

lemma frame_of_new:
  assumes "pte_create_user k wr = Some e" "pte_of pd w va = e"
  shows "frame_of pd w va = Some k" "pte_of pd w va AND PTE_W \<noteq> 0 \<longleftrightarrow> wr"
  using pte_create_get [OF assms(1)] assms(2) by (simp_all add: frame_of_def)

lemma kernel_frame:
  assumes "exec_ok pd live extra s" "is_kernel_vaddr k" "unat k div 4096 \<in> pool_pages (pool_of u (ram s))"
  shows "vtop k = Some (k - PHYS_BASE)" "drop_bit PGBITS (k - PHYS_BASE) < init_ram_pages (ptabs s)"
proof -
  show "vtop k = Some (k - PHYS_BASE)" using assms(2) by (rule vtop_eq)
  have "unat k div 4096 < 0xc0000 + unat (init_ram_pages (ptabs s))" using exec_okD(5) [OF assms(1)] assms(3) by fastforce
  moreover have "unat (drop_bit PGBITS (k - PHYS_BASE)) = (unat k - 0xc0000000) div 4096"
    using unat_vtop [OF assms(2)] by (simp add: unat_drop_bit_eq drop_bit_eq_div PGBITS_def unat_div)
  moreover have "(unat k - 0xc0000000) div 4096 = unat k div 4096 - 0xc0000" by simp
  ultimately show "drop_bit PGBITS (k - PHYS_BASE) < init_ram_pages (ptabs s)"
    using assms(2) by (simp add: word_less_nat_alt word_le_nat_alt is_kernel_vaddr_def PHYS_BASE_def)
qed

lemma mapped_ok:
  assumes ok: "exec_ok pd live (new @ [(k, 1)]) s" and u: "is_user_vaddr upage" "frame_of pd (words (ptabs s)) upage = None"
    and m: "pd_ok pd (words m')" "pte_create_user k wr = Some e" "m' = (ptabs s)\<lparr>words := words m'\<rparr>"
      "\<And>vb. is_user_vaddr vb \<Longrightarrow> pte_of pd (words m') vb = (if pg_no vb = pg_no upage then e else pte_of pd (words (ptabs s)) vb)"
    and t: "\<And>j. unat j < 768 \<Longrightarrow> table_at pd (words m') j = table_at pd (words (ptabs s)) j \<or>
        (\<exists>pt. table_at pd (words m') j = Some pt \<and> (pt, 1) \<in> set new)"
  shows "exec_ok pd (new @ (k, 1) # live) [] (s\<lparr>ptabs := m'\<rparr>)"
    "user_byte (s\<lparr>ptabs := m'\<rparr>) va = (if is_user_vaddr va \<and> pg_no va = pg_no upage then Some (bytes (ram s) (k + pg_ofs va), wr) else user_byte s va)"
proof -
  note d = exec_okD [OF ok] and f = frame_of_new [OF m(2)]
  let ?w = "words (ptabs s)"
  have dist: "distinct (concat (map pages_of (new @ (k, 1) # live)))" using d(4) by (simp add: holds_def)
  have k: "unat k div 4096 \<notin> inuse live" "pg_ofs k = 0" using dist pte_create_get(3) [OF m(2)] by (auto simp: inuse_def)
  have fr: "frame_of pd (words m') vb = (if pg_no vb = pg_no upage then Some k else frame_of pd ?w vb)" if "is_user_vaddr vb" for vb
    using f(1) m(4) [OF that] by (auto simp: frame_of_def)
  have new: "unat pt div 4096 \<in> inuse new - inuse live \<and> pt \<noteq> k" if "(pt, 1) \<in> set new" for pt
  proof -
    have "set (pages_of (pt, 1)) \<subseteq> inuse new" unfolding inuse_def set_concat set_map using that by blast
    then have i: "unat pt div 4096 \<in> inuse new" by simp
    moreover have "inuse new \<inter> inuse live = {}" "unat k div 4096 \<notin> inuse new" using dist by (auto simp: inuse_def)
    ultimately show ?thesis by auto
  qed
  have "frames_ok pd (new @ (k, 1) # live) (words m')"
    by (rule frames_add [OF d(7,6) k _ fr, of new]) (use t new in blast, auto)
  moreover have "init_page_dir m' = init_page_dir (ptabs s)" "init_ram_pages m' = init_ram_pages (ptabs s)"
    using m(3) by (metis pmem.select_convs(2) pmem.surjective pmem.update_convs(1), metis pmem.select_convs(3) pmem.surjective pmem.update_convs(1))
  ultimately show "exec_ok pd (new @ (k, 1) # live) [] (s\<lparr>ptabs := m'\<rparr>)"
    using d m(1) by (simp add: exec_ok_def)
  show "user_byte (s\<lparr>ptabs := m'\<rparr>) va = (if is_user_vaddr va \<and> pg_no va = pg_no upage then Some (bytes (ram s) (k + pg_ofs va), wr) else user_byte s va)"
    using d(1) fr [of va] m(4) [of va] pte_create_get(4) [OF m(2)] by (auto simp: user_byte_def)
qed

lemma unmapped: "exec_ok pd live extra s \<Longrightarrow> is_user_vaddr va \<Longrightarrow> user_byte s va = None \<longleftrightarrow> frame_of pd (words (ptabs s)) va = None"
  using exec_okD(1) by (simp add: user_byte_def)

lemma install_page_spec:
  assumes ok: "exec_ok pd live [(k, 1)] s" and k: "is_kernel_vaddr k" "unat k div 4096 \<in> pool_pages (pool_of True (ram s))" "pg_ofs k = 0"
    and u: "pg_ofs upage = 0" "is_user_vaddr upage"
  obtains (mapped) s' live' where "install_page upage k wr s = Some (True, s')" "user_byte s upage = None" "exec_ok pd live' [] s'" "fsys s' = fsys s"
      "\<And>va. user_byte s' va = (if is_user_vaddr va \<and> pg_no va = pg_no upage then Some (bytes (ram s) (k + pg_ofs va), wr) else user_byte s va)"
  | (refused) "install_page upage k wr s = Some (False, s)" "user_byte s upage \<noteq> None"
  | (no_memory) "install_page upage k wr s = Some (False, s)" "pool_pages (pool_of False (ram s)) \<subseteq> inuse live"
proof (cases "frame_of pd (words (ptabs s)) upage")
  case (Some p)
  then show thesis
    using exec_okD(1,2) [OF ok] u(2) by (intro refused) (simp_all add: install_page_def get_page_frame unmapped [OF ok])
next
  case None
  note d = exec_okD [OF ok]
  have np: "pte_of pd (words (ptabs s)) upage AND PTE_P = 0"
    using None get_page_eq(2) [OF d(2) u(2)] by (auto simp: frame_of_def split: if_splits)
  have i: "install_page upage k wr s = set_page pd upage k wr s"
    using d(1,2) u(2) None by (simp add: install_page_def get_page_frame)
  have kf: "vtop k = Some (k - PHYS_BASE)" "drop_bit PGBITS (k - PHYS_BASE) < init_ram_pages (ptabs s)"
    using kernel_frame [OF ok k(1,2)] by auto
  have nb: "user_byte s upage = None" using None unmapped [OF ok u(2)] by simp
  have ud: "unat (pd_no upage) < 768" using u(2) user_pd_no by simp
  show thesis
  proof (cases "table_at pd (words (ptabs s)) (pd_no upage)")
    case (Some pt)
    then have w: "words (ptabs s) (entry pd (pd_no upage)) \<noteq> 0" by (auto simp: table_at_def)
    show thesis
    proof (rule set_page_spec [OF d(2) u k(3) kf d(3) np, of None wr])
      fix m' e
      assume m: "pagedir_set_page None pd upage k wr (ptabs s) = Some (True, m')" "pd_ok pd (words m')" "pte_create_user k wr = Some e"
        "\<And>vb. is_user_vaddr vb \<Longrightarrow> pte_of pd (words m') vb = (if pg_no vb = pg_no upage then e else pte_of pd (words (ptabs s)) vb)"
        "m' = (ptabs s)\<lparr>words := words m'\<rparr>"
        "\<And>j. unat j < 768 \<Longrightarrow> table_at pd (words m') j =
           (if j = pd_no upage \<and> table_at pd (words (ptabs s)) j = None then None else table_at pd (words (ptabs s)) j)"
      have t: "table_at pd (words m') j = table_at pd (words (ptabs s)) j" if "unat j < 768" for j using m(6) [OF that] by auto
      note r = mapped_ok [where new = "[]" and k = k, simplified, OF ok u(2) None m(2,3,5,4) t]
      show thesis using mapped [OF _ nb r(1) _ r(2)] i w m(1) by (simp add: set_page_def)
    qed (use Some in auto)
  next
    case t0: None
    then have w: "words (ptabs s) (entry pd (pd_no upage)) = 0" using pd_okD(3) [OF d(2) ud] by force
    show thesis
    proof (rule get_page_spec [OF ok, of PAL_ZERO])
      show "PAL_ZERO AND PAL_ASSERT = 0" by (simp add: PAL_ZERO_def PAL_ASSERT_def)
    next
      assume g: "get_page PAL_ZERO s = Some (None, s)"
        "pool_pages (pool_of (PAL_ZERO AND PAL_USER \<noteq> 0) (ram s)) = used_pages (pool_of (PAL_ZERO AND PAL_USER \<noteq> 0) (ram s))"
      have "pool_pages (pool_of False (ram s)) \<subseteq> inuse ([(k, 1)] @ live)"
        using g(2) d(4) by (auto simp: PAL_ZERO_def PAL_USER_def holds_alt inuse_def)
      moreover have "unat k div 4096 \<notin> pool_pages (pool_of False (ram s))" using d(4) k(2) by (auto simp: holds_alt)
      ultimately have "pool_pages (pool_of False (ram s)) \<subseteq> inuse live" by auto
      moreover have "set_page pd upage k wr s = Some (False, s)"
        using w g(1) lookup_page_missing(3) [OF d(2) u(2) t0] u k(3) kf d(3) by (simp add: set_page_def pagedir_set_page_def)
      ultimately show thesis using no_memory i by simp
    next
      fix pt r
      assume g: "get_page PAL_ZERO s = Some (Some pt, s\<lparr>ram := r\<rparr>)" "exec_ok pd live ((pt, 1) # [(k, 1)]) (s\<lparr>ram := r\<rparr>)"
        "pg_ofs pt = 0" "is_kernel_vaddr pt" "unat pt div 4096 \<notin> inuse ([(k, 1)] @ live)"
        "bytes r = (\<lambda>a. if PAL_ZERO AND PAL_ZERO \<noteq> 0 \<and> unat a div 4096 = unat pt div 4096 then 0 else bytes (ram s) a)"
      have fresh: "fresh_page pd (words (ptabs s)) pt"
        using g(3-5) d(6) frames_okD(1) [OF d(7), of _ pt] by (auto simp: fresh_page_def)
      have ub: "user_byte (s\<lparr>ram := r\<rparr>) = user_byte s"
        by (rule ext, rule user_byte_ram [OF ok]) (use g(5) in \<open>auto simp: g(6)\<close>)
      have kb: "bytes r (k + pg_ofs va) = bytes (ram s) (k + pg_ofs va)" for va
      proof -
        obtain j where j: "unat k = 4096 * j" "j < 2 ^ 20" using aligned_mult [OF k(3)] .
        have "unat (k + pg_ofs va) = 4096 * j + unat (pg_ofs va)" "unat (pg_ofs va) < 4096"
          using j by (simp_all add: unat_word_ariths unat_pg_ofs)
        then have "unat (k + pg_ofs va) div 4096 = unat k div 4096" using j(1) by simp
        then show ?thesis using g(5) by (simp add: g(6))
      qed
      show thesis
      proof (rule set_page_spec [OF d(2) u k(3) kf d(3) np, of "Some pt" wr])
        show "fresh_page pd (words (ptabs s)) q" if "Some pt = Some q" for q using that fresh by simp
        fix m' e
        assume m: "pagedir_set_page (Some pt) pd upage k wr (ptabs s) = Some (True, m')" "pd_ok pd (words m')" "pte_create_user k wr = Some e"
          "\<And>vb. is_user_vaddr vb \<Longrightarrow> pte_of pd (words m') vb = (if pg_no vb = pg_no upage then e else pte_of pd (words (ptabs s)) vb)"
          "m' = (ptabs s)\<lparr>words := words m'\<rparr>"
          "\<And>j. unat j < 768 \<Longrightarrow> table_at pd (words m') j =
             (if j = pd_no upage \<and> table_at pd (words (ptabs s)) j = None then Some pt else table_at pd (words (ptabs s)) j)"
        have t: "table_at pd (words m') j = table_at pd (words (ptabs s)) j \<or> (\<exists>q. table_at pd (words m') j = Some q \<and> (q, 1) \<in> set [(pt, 1 :: u32)])"
          if "unat j < 768" for j using m(6) [OF that] by auto
        have g2: "exec_ok pd live ([(pt, 1)] @ [(k, 1)]) (s\<lparr>ram := r\<rparr>)" using g(2) by simp
        have pr: "ptabs (s\<lparr>ram := r\<rparr>) = ptabs s" by simp
        note rr = mapped_ok [OF g2 u(2), unfolded pr, OF None m(2,3,5,4) t]
        show thesis using mapped [OF _ nb rr(1)] rr(2) i w m(1) g(1) kb by (simp add: set_page_def ub)
      qed auto
    qed
  qed
qed

section \<open>Segments\<close>

lemma page_contents:
  assumes "pg_ofs k = 0" "length bs = unat pr" "unat pr \<le> 4096"
  shows "fill (k + pr) (PGSIZE - pr) 0 (put_bytes k bs m) a =
    (if unat a div 4096 = unat k div 4096 then (if unat a mod 4096 < unat pr then bs ! (unat a mod 4096) else 0) else m a)"
proof -
  obtain j where j: "unat k = 4096 * j" "j < 2 ^ 20" using aligned_mult [OF assms(1)] .
  define q r where qr: "q = unat a div 4096" "r = unat a mod 4096"
  have a: "unat a = 4096 * q + r" "r < 4096" by (simp_all add: qr)
  have p: "unat (a - k) < unat pr \<longleftrightarrow> q = j \<and> r < unat pr"
    using offset_range [of k "unat pr" a] j a assms(3) by (cases q j rule: linorder_cases) auto
  have po: "unat (a - k) = r" if "q = j" using that a j by (simp add: unat_sub word_le_nat_alt)
  have f: "a - (k + pr) < PGSIZE - pr \<longleftrightarrow> q = j \<and> unat pr \<le> r"
  proof (cases "unat pr = 4096")
    case True
    then have "pr = PGSIZE" by (simp add: word_unat_eq_iff PGSIZE_eq)
    then show ?thesis using True a(2) by simp
  next
    case False
    have "unat (PGSIZE - pr) = 4096 - unat pr" using assms(3) by (simp add: PGSIZE_eq unat_sub word_le_nat_alt)
    moreover have "unat (k + pr) = 4096 * j + unat pr" using j assms(3) False by (simp add: unat_word_ariths)
    ultimately show ?thesis
      using offset_range [of "k + pr" "4096 - unat pr" a] j a assms(3) False by (cases q j rule: linorder_cases) (auto simp: word_less_nat_alt)
  qed
  show ?thesis using p f po assms(2) unfolding qr [symmetric] j(1) by (auto simp: fill_def put_bytes_def)
qed

definition in_pages :: "u32 \<Rightarrow> nat \<Rightarrow> u32 \<Rightarrow> bool" where
  "in_pages upage n va \<longleftrightarrow> unat upage \<le> unat va \<and> unat va < unat upage + 4096 * n"

lemma user_range: "unat upage + 4096 * n \<le> unat PHYS_BASE \<Longrightarrow> in_pages upage n va \<Longrightarrow> is_user_vaddr va"
  by (simp add: in_pages_def is_user_vaddr_def word_less_nat_alt)

lemma in_pages_Suc:
  assumes "pg_ofs upage = 0" "unat upage + 4096 * Suc n \<le> unat PHYS_BASE"
  shows "in_pages upage (Suc n) va \<longleftrightarrow> pg_no va = pg_no upage \<or> in_pages (upage + PGSIZE) n va"
    "pg_no va = pg_no upage \<Longrightarrow> \<not> in_pages (upage + PGSIZE) n va" "pg_no va = pg_no upage \<Longrightarrow> unat va = unat upage + unat va mod 4096"
    "unat (upage + PGSIZE) = unat upage + 4096" "pg_ofs (upage + PGSIZE) = 0" "is_user_vaddr upage"
proof -
  obtain j where j: "unat upage = 4096 * j" "j < 2 ^ 20" using aligned_mult [OF assms(1)] .
  show u: "unat (upage + PGSIZE) = unat upage + 4096" using assms(2) by (simp add: PGSIZE_eq unat_word_ariths PHYS_BASE_def)
  have "unat (pg_ofs (upage + PGSIZE)) = 0" unfolding unat_pg_ofs u j(1) by simp
  then show "pg_ofs (upage + PGSIZE) = 0" by (simp add: unsigned_eq_0_iff)
  show "is_user_vaddr upage" using assms(2) by (simp add: is_user_vaddr_def word_less_nat_alt)
  have e: "pg_no va = pg_no upage \<longleftrightarrow> unat va div 4096 = j" by (simp add: word_unat_eq_iff unat_pg_no j(1))
  then show "in_pages upage (Suc n) va \<longleftrightarrow> pg_no va = pg_no upage \<or> in_pages (upage + PGSIZE) n va"
    "pg_no va = pg_no upage \<Longrightarrow> \<not> in_pages (upage + PGSIZE) n va" "pg_no va = pg_no upage \<Longrightarrow> unat va = unat upage + unat va mod 4096"
    unfolding in_pages_def u j(1) by auto
qed

lemma same_page: "pg_no va = pg_no vb \<Longrightarrow> pte_of pd w va = pte_of pd w vb"
proof -
  assume "pg_no va = pg_no vb"
  then have "pd_no va = pd_no vb" "pt_no va = pt_no vb" using pg_no_split by auto
  then show ?thesis unfolding pte_of_def by (simp split: option.split)
qed

lemma frame_offset: "pg_ofs k = 0 \<Longrightarrow> unat (k + pg_ofs va) div 4096 = unat k div 4096 \<and> unat (k + pg_ofs va) mod 4096 = unat va mod 4096"
proof -
  assume "pg_ofs k = 0"
  then obtain j where j: "unat k = 4096 * j" "j < 2 ^ 20" using aligned_mult by blast
  have "unat (k + pg_ofs va) = 4096 * j + unat (pg_ofs va)" "unat (pg_ofs va) < 4096" "unat (pg_ofs va) = unat va mod 4096"
    using j by (simp_all add: unat_word_ariths unat_pg_ofs)
  then show ?thesis using j(1) by simp
qed

lemma load_loop_spec:
  assumes "exec_ok pd live [] s" "open_at file fb p (fsys s)" "p \<le> length fb" "pg_ofs upage = 0"
    and "unat rb + unat zb = 4096 * n" "unat upage + 4096 * n \<le> unat PHYS_BASE"
  shows "\<exists>b s' live' p'. load_loop file upage rb zb wr s = Some (b, s') \<and> exec_ok pd live' [] s' \<and> open_at file fb p' (fsys s') \<and>
    (b \<longrightarrow> p + unat rb \<le> length fb \<and> (\<forall>va. in_pages upage n va \<longrightarrow> user_byte s va = None) \<and>
       (\<forall>va. user_byte s' va = (if in_pages upage n va
          then Some (if unat va - unat upage < unat rb then fb ! (p + (unat va - unat upage)) else 0, wr) else user_byte s va))) \<and>
    (\<not> b \<longrightarrow> length fb < p + unat rb \<or> (\<exists>va. in_pages upage n va \<and> user_byte s va \<noteq> None) \<or> exhausted s')"
  using assms
proof (induction n arbitrary: live s p upage rb zb)
  case 0
  then have "rb = 0" "zb = 0" by (simp_all add: unsigned_eq_0_iff)
  moreover have "load_loop file upage 0 0 wr s = Some (True, s)" by (subst load_loop.simps) simp
  ultimately show ?case using 0
    by (intro exI [of _ True] exI [of _ s] exI [of _ live] exI [of _ p]) (auto simp: in_pages_def)
next
  case (Suc n)
  let ?pr = "page_read_bytes rb"
  note ip = in_pages_Suc [OF Suc.prems(4,6)]
  have pr: "unat ?pr = min (unat rb) 4096" by (simp add: page_read_bytes_def PGSIZE_eq word_less_nat_alt)
  have go: "rb > 0 \<or> zb > 0" using Suc.prems(5) by (cases "rb = 0") (auto simp: word_gt_0)
  show ?case
  proof (rule get_page_spec [OF Suc.prems(1), of PAL_USER])
    show "PAL_USER AND PAL_ASSERT = 0" by (simp add: PAL_USER_def PAL_ASSERT_def)
  next
    assume "get_page PAL_USER s = Some (None, s)"
      "pool_pages (pool_of (PAL_USER AND PAL_USER \<noteq> 0) (ram s)) = used_pages (pool_of (PAL_USER AND PAL_USER \<noteq> 0) (ram s))"
    then have "load_loop file upage rb zb wr s = Some (False, s)" "exhausted s"
      using go by (subst load_loop.simps, simp_all add: Let_def exhausted_def) blast
    then show ?thesis using Suc.prems(1,2) by blast
  next
    fix k r
    assume g: "get_page PAL_USER s = Some (Some k, s\<lparr>ram := r\<rparr>)" "exec_ok pd live [(k, 1)] (s\<lparr>ram := r\<rparr>)" "pg_ofs k = 0" "is_kernel_vaddr k"
      "unat k div 4096 \<notin> inuse ([] @ live)" "unat k div 4096 \<in> pool_pages (pool_of (PAL_USER AND PAL_USER \<noteq> 0) (ram s))"
      "\<And>u. pool_pages (pool_of u r) = pool_pages (pool_of u (ram s))"
      "bytes r = (\<lambda>a. if PAL_USER AND PAL_ZERO \<noteq> 0 \<and> unat a div 4096 = unat k div 4096 then 0 else bytes (ram s) a)"
    have ub: "user_byte (s\<lparr>ram := r\<rparr>) = user_byte s"
      by (rule ext, rule user_byte_ram [OF Suc.prems(1)]) (use g(5) in \<open>auto simp: g(8)\<close>)
    have ln: "p + unat ?pr < 2 ^ 31" using open_length [OF Suc.prems(2)] Suc.prems(3) pr by simp
    define bs where "bs = slice p (unat ?pr) fb"
    obtain f where f: "file_read file ?pr (fsys s) = Some (bs, f)" "open_at file fb (p + length bs) f"
      using file_read_open [OF Suc.prems(2) ln] unfolding bs_def by blast
    let ?s1 = "set_bytes (put_bytes k bs (bytes r)) (s\<lparr>ram := r, fsys := f\<rparr>)"
    have ok1: "exec_ok pd live [(k, 1)] (set_bytes m (s\<lparr>ram := r, fsys := f\<rparr>))" for m
      using g(2) by simp
    show ?thesis
    proof (cases "length bs = unat ?pr")
      case False
      then have short: "length fb < p + unat rb" using pr Suc.prems(3) by (auto simp: bs_def slice_def)
      obtain s' where s': "free_page k ?s1 = Some s'" "exec_ok pd live [] s'" "fsys s' = fsys ?s1" using free_page_spec [OF ok1] by metis
      have "load_loop file upage rb zb wr s = Some (False, s')"
        using go g(1) f(1) False s'(1) by (subst load_loop.simps) (simp add: Let_def)
      then show ?thesis using s'(2,3) f(2) short by (auto simp: set_bytes_def)
    next
      case True
      let ?s2 = "set_bytes (fill (k + ?pr) (PGSIZE - ?pr) 0 (put_bytes k bs (bytes r))) (s\<lparr>ram := r, fsys := f\<rparr>)"
      have step: "load_loop file upage rb zb wr s = do { (ok, s) \<leftarrow> install_page upage k wr ?s2;
          if \<not> ok then do { s \<leftarrow> free_page k s; Some (False, s) }
          else load_loop file (upage + PGSIZE) (rb - ?pr) (zb - (PGSIZE - ?pr)) wr s }"
        using go g(1) f(1) True by (subst load_loop.simps) (simp add: Let_def set_bytes_def)
      define M where "M = fill (k + ?pr) (PGSIZE - ?pr) 0 (put_bytes k bs (bytes r))"
      have M: "M a = (if unat a div 4096 = unat k div 4096 then (if unat a mod 4096 < unat ?pr then bs ! (unat a mod 4096) else 0) else bytes r a)" for a
        unfolding M_def by (rule page_contents [OF g(3)]) (use True pr in auto)
      let ?s2 = "set_bytes M (s\<lparr>ram := r, fsys := f\<rparr>)"
      note step = step [folded M_def]
      have "user_byte (s\<lparr>fsys := f, ram := r\<lparr>bytes := M\<rparr>\<rparr>) va = user_byte (s\<lparr>fsys := f\<rparr>) va" for va
        by (rule user_byte_ram [of pd live "[]"]) (use Suc.prems(1) g(5) in \<open>auto simp: M g(8)\<close>)
      then have ub2: "user_byte ?s2 = user_byte s" by (simp add: set_bytes_def fun_eq_iff)
      have kp: "unat k div 4096 \<in> pool_pages (pool_of True (ram ?s2))"
        using g(6,7) by (simp add: set_bytes_def PAL_USER_def)
      have here: "in_pages upage (Suc n) upage" by (simp add: in_pages_def)
      show ?thesis
      proof (rule install_page_spec [OF ok1 g(4) kp g(3) Suc.prems(4) ip(6), of wr])
        assume i: "install_page upage k wr ?s2 = Some (False, ?s2)" "user_byte ?s2 upage \<noteq> None"
        obtain s' where s': "free_page k ?s2 = Some s'" "exec_ok pd live [] s'" "fsys s' = fsys ?s2" using free_page_spec [OF ok1] by metis
        show ?thesis using step i s' f(2) here ub2 by (auto simp: set_bytes_def)
      next
        assume i: "install_page upage k wr ?s2 = Some (False, ?s2)" "pool_pages (pool_of False (ram ?s2)) \<subseteq> inuse live"
        obtain s' where s': "free_page k ?s2 = Some s'" "exec_ok pd live [] s'" "fsys s' = fsys ?s2"
            "\<And>u. pool_pages (pool_of u (ram s')) = pool_pages (pool_of u (ram ?s2))" using free_page_spec [OF ok1] by metis
        have "exhausted s'" using exhausted_inuse [of s' live] exec_okD(4) [OF s'(2)] s'(4) i(2) by auto
        then show ?thesis using step i(1) s'(1-3) f(2) by (auto simp: set_bytes_def)
      next
        fix s' live'
        assume i: "install_page upage k wr ?s2 = Some (True, s')" "user_byte ?s2 upage = None" "exec_ok pd live' [] s'" "fsys s' = fsys ?s2"
          "\<And>va. user_byte s' va = (if is_user_vaddr va \<and> pg_no va = pg_no upage then Some (bytes (ram ?s2) (k + pg_ofs va), wr) else user_byte ?s2 va)"
        define rb' zb' where rz: "rb' = rb - ?pr" "zb' = zb - (PGSIZE - ?pr)"
        have pz: "unat (PGSIZE - ?pr) = 4096 - unat ?pr" using pr by (simp add: unat_sub word_le_nat_alt PGSIZE_eq)
        have r': "unat rb' = unat rb - unat ?pr" unfolding rz using pr by (intro unat_sub) (simp add: word_le_nat_alt)
        moreover have "unat zb' = unat zb - (4096 - unat ?pr)"
          unfolding rz pz [symmetric] using pr pz Suc.prems(5) by (intro unat_sub) (auto simp: word_le_nat_alt)
        ultimately have sum: "unat rb' + unat zb' = 4096 * n" using pr Suc.prems(5) by auto
        have pl: "p + unat ?pr \<le> length fb" "length bs = unat ?pr"
          using True Suc.prems(3) by (auto simp: bs_def slice_def)
        have op: "open_at file fb (p + unat ?pr) (fsys s')" using f(2) i(4) pl(2) by (simp add: set_bytes_def)
        have bound: "unat (upage + PGSIZE) + 4096 * n \<le> unat PHYS_BASE" using ip(4) Suc.prems(6) by simp
        obtain b s'' live'' p' where ih: "load_loop file (upage + PGSIZE) rb' zb' wr s' = Some (b, s'')" "exec_ok pd live'' [] s''"
            "open_at file fb p' (fsys s'')"
            "b \<Longrightarrow> p + unat ?pr + unat rb' \<le> length fb \<and> (\<forall>va. in_pages (upage + PGSIZE) n va \<longrightarrow> user_byte s' va = None) \<and>
             (\<forall>va. user_byte s'' va = (if in_pages (upage + PGSIZE) n va
               then Some (if unat va - unat (upage + PGSIZE) < unat rb' then fb ! (p + unat ?pr + (unat va - unat (upage + PGSIZE))) else 0, wr)
               else user_byte s' va))"
            "\<not> b \<Longrightarrow> length fb < p + unat ?pr + unat rb' \<or> (\<exists>va. in_pages (upage + PGSIZE) n va \<and> user_byte s' va \<noteq> None) \<or> exhausted s''"
          using Suc.IH [OF i(3) op pl(1) ip(5) sum bound] by blast
        have tot: "unat ?pr + unat rb' = unat rb" using r' pr by simp
        have l: "load_loop file upage rb zb wr s = Some (b, s'')" using step i(1) ih(1) by (simp add: rz)
        have later: "user_byte s' va = user_byte s va" if "in_pages (upage + PGSIZE) n va" for va
          using i(5) [of va] ip(2) [of va] that ub2 by auto
        have first: "user_byte s' va = Some (if unat va - unat upage < unat rb then fb ! (p + (unat va - unat upage)) else 0, wr)"
          if "pg_no va = pg_no upage" for va
        proof -
          have u: "is_user_vaddr va" using user_range [OF Suc.prems(6)] ip(1) that by blast
          have o: "unat va - unat upage = unat va mod 4096" using ip(3) [OF that] by simp
          have "M (k + pg_ofs va) = (if unat va mod 4096 < unat ?pr then bs ! (unat va mod 4096) else 0)"
            using frame_offset [OF g(3), of va] by (simp add: M)
          moreover have "unat va mod 4096 < unat ?pr \<longleftrightarrow> unat va mod 4096 < unat rb" using pr by simp
          moreover have "bs ! j = fb ! (p + j)" if "j < unat ?pr" for j
            using that pl by (simp add: bs_def slice_def)
          ultimately show ?thesis using i(5) [of va] u that o by (simp add: set_bytes_def)
        qed
        have old: "user_byte s va = None" if "pg_no va = pg_no upage" for va
        proof -
          have "frame_of pd (words (ptabs s)) va = frame_of pd (words (ptabs s)) upage"
            using same_page [OF that] by (simp add: frame_of_def)
          moreover have "is_user_vaddr va" using user_range [OF Suc.prems(6)] ip(1) that by blast
          ultimately show ?thesis using i(2) ub2 unmapped [OF Suc.prems(1)] ip(6) by metis
        qed
        show ?thesis
        proof (cases b)
          case True
          note t = ih(4) [OF True]
          have "user_byte s'' va = (if in_pages upage (Suc n) va
              then Some (if unat va - unat upage < unat rb then fb ! (p + (unat va - unat upage)) else 0, wr) else user_byte s va)" for va
          proof (cases "in_pages (upage + PGSIZE) n va")
            case True
            then have "unat va - unat (upage + PGSIZE) + 4096 = unat va - unat upage" using ip(4) by (auto simp: in_pages_def)
            then show ?thesis using t True ip(1) [of va] pr tot
              by (cases "unat rb < 4096") (auto simp: ac_simps)
          next
            case False
            then show ?thesis using t ip(1) [of va] first [of va] i(5) [of va] ub2 by auto
          qed
          moreover have "user_byte s va = None" if "in_pages upage (Suc n) va" for va using that t later old ip(1) by metis
          moreover have "p + unat rb \<le> length fb" using t tot by simp
          ultimately show ?thesis using l ih(2,3) True by blast
        next
          case False
          have "length fb < p + unat rb \<or> (\<exists>va. in_pages upage (Suc n) va \<and> user_byte s va \<noteq> None) \<or> exhausted s''"
            using ih(5) [OF False] later ip(1) unfolding add.assoc tot by metis
          then show ?thesis using l ih(2,3) False by blast
        qed
      qed
    qed
  qed
qed

section \<open>Images\<close>

text \<open>What a program header asks for. A loadable segment occupies whole pages, from the page of its first byte to
  that of its last one.\<close>

definition segment_ok :: "nat \<Rightarrow> Elf32_Phdr \<Rightarrow> bool" where
  "segment_ok len h \<longleftrightarrow> unat (p_offset h) mod 4096 = unat (p_vaddr h) mod 4096 \<and> unat (p_offset h) \<le> len \<and> p_filesz h \<le> p_memsz h \<and>
     0 < p_memsz h \<and> unat (p_vaddr h) + unat (p_memsz h) < 0xc0000000 \<and> 4096 \<le> unat (p_vaddr h) \<and>
     (p_filesz h = 0 \<or> unat (p_offset h) + unat (p_filesz h) \<le> len)"

definition phdr_ok :: "nat \<Rightarrow> Elf32_Phdr \<Rightarrow> bool" where
  "phdr_ok len h \<longleftrightarrow> p_type h \<notin> {PT_DYNAMIC, PT_INTERP, PT_SHLIB} \<and> (p_type h = PT_LOAD \<longrightarrow> segment_ok len h)"

definition in_seg :: "Elf32_Phdr \<Rightarrow> u32 \<Rightarrow> bool" where
  "in_seg h va \<longleftrightarrow> unat (p_vaddr h) div 4096 \<le> unat va div 4096 \<and>
     unat va div 4096 \<le> (unat (p_vaddr h) + unat (p_memsz h) - 1) div 4096"

definition seg_byte :: "byte list \<Rightarrow> Elf32_Phdr \<Rightarrow> u32 \<Rightarrow> byte \<times> bool" where
  "seg_byte fb h va =
     (if 0 < p_filesz h \<and> unat va < unat (p_vaddr h) + unat (p_filesz h) then fb ! (unat (p_offset h) + unat va - unat (p_vaddr h)) else 0,
      p_flags h AND PF_W \<noteq> 0)"

lemma validate_spec:
  assumes "open_at file fb p (fsys s)"
  shows "\<exists>b f. validate_segment h file s = Some (b, s\<lparr>fsys := f\<rparr>) \<and> open_at file fb p f \<and>
    (b \<longleftrightarrow> segment_ok (length fb) (h\<lparr>p_filesz := 0\<rparr>) \<and> p_filesz h \<le> p_memsz h)"
proof -
  obtain n f where f: "file_length file (fsys s) = Some (n, f)" "unat n = length fb" "open_at file fb p f"
    using file_length_open [OF assms] by blast
  have al: "p_offset h AND PGMASK = p_vaddr h AND PGMASK \<longleftrightarrow> unat (p_offset h) mod 4096 = unat (p_vaddr h) mod 4096"
    using unat_pg_ofs [of "p_offset h"] unat_pg_ofs [of "p_vaddr h"] by (simp add: pg_ofs_def word_unat_eq_iff)
  have wrap: "is_user_vaddr (p_vaddr h) \<and> is_user_vaddr (p_vaddr h + p_memsz h) \<and> \<not> p_vaddr h + p_memsz h < p_vaddr h \<longleftrightarrow>
      unat (p_vaddr h) + unat (p_memsz h) < 0xc0000000"
    using unsigned_less [where ?'a = nat, of "p_vaddr h"] unsigned_less [where ?'a = nat, of "p_memsz h"]
    by (auto simp: is_user_vaddr_def PHYS_BASE_def word_less_nat_alt unat_plus_if')
  show ?thesis
  proof (cases "p_offset h AND PGMASK = p_vaddr h AND PGMASK")
    case False
    then show ?thesis using assms al by (intro exI [of _ False] exI [of _ "fsys s"]) (simp add: validate_segment_def segment_ok_def)
  next
    case True
    have "validate_segment h file s = Some (\<not> p_offset h > n \<and> \<not> p_memsz h < p_filesz h \<and> p_memsz h \<noteq> 0 \<and>
        (is_user_vaddr (p_vaddr h) \<and> is_user_vaddr (p_vaddr h + p_memsz h) \<and> \<not> p_vaddr h + p_memsz h < p_vaddr h) \<and> \<not> p_vaddr h < PGSIZE,
        s\<lparr>fsys := f\<rparr>)"
      using True f(1) by (simp add: validate_segment_def Let_def)
    then show ?thesis unfolding wrap using True al f(2,3)
      by - (rule exI, rule exI [of _ f], intro conjI, assumption, assumption, auto simp: segment_ok_def word_less_nat_alt word_le_nat_alt PGSIZE_eq unat_gt_0 not_less)
  qed
qed

lemma round_up_page:
  assumes "unat x \<le> 0xc0000000" shows "unat (round_up x PGSIZE) = (unat x + 4095) div 4096 * 4096"
proof -
  have e: "x + PGSIZE - 1 = x + 4095" by (simp add: PGSIZE_eq)
  have "unat (x + 4095) = unat x + 4095" using assms by (simp add: unat_word_ariths)
  then have "unat ((x + 4095) div PGSIZE) = (unat x + 4095) div 4096" by (simp add: PGSIZE_eq unat_div)
  moreover have "(unat x + 4095) div 4096 * 4096 < 2 ^ 32" using assms by (auto intro: le_less_trans [OF div_times_less_eq_dividend])
  ultimately show ?thesis unfolding round_up_def e by (simp add: unat_word_ariths PGSIZE_eq)
qed

lemma seg_pages:
  assumes "segment_ok len (h\<lparr>p_filesz := 0\<rparr>)" "p_filesz h \<le> p_memsz h"
  defines "mp \<equiv> p_vaddr h AND NOT PGMASK" and "fp \<equiv> p_offset h AND NOT PGMASK" and "po \<equiv> p_vaddr h AND PGMASK"
    and "n \<equiv> (unat (p_vaddr h) mod 4096 + unat (p_memsz h) + 4095) div 4096"
  defines "rb \<equiv> (if p_filesz h > 0 then po + p_filesz h else 0)"
  shows "pg_ofs mp = 0" "fp mod PGSIZE = 0" "unat mp + 4096 * n \<le> unat PHYS_BASE" "unat (round_up (po + p_memsz h) PGSIZE) = 4096 * n"
    "unat rb + unat (round_up (po + p_memsz h) PGSIZE - rb) = 4096 * n" "(rb + (round_up (po + p_memsz h) PGSIZE - rb)) mod PGSIZE = 0"
    "in_pages mp n va \<longleftrightarrow> in_seg h va" "unat fp \<le> unat (p_offset h)"
    "unat fp + unat rb \<le> len \<longleftrightarrow> p_filesz h = 0 \<or> unat (p_offset h) + unat (p_filesz h) \<le> len"
    "in_seg h va \<Longrightarrow> (if unat va - unat mp < unat rb then fb ! (unat fp + (unat va - unat mp)) else 0) = fst (seg_byte fb h va)"
proof -
  define v q t o' m fz where d: "v = unat (p_vaddr h)" "q = v div 4096" "t = v mod 4096" "o' = unat (p_offset h)" "m = unat (p_memsz h)" "fz = unat (p_filesz h)"
  have v: "v = 4096 * q + t" "t < 4096" by (simp_all add: d)
  have a: "o' mod 4096 = t" "o' \<le> len" "0 < m" "v + m < 0xc0000000" "4096 \<le> v" "fz \<le> m"
    using assms(1,2) by (auto simp: segment_ok_def d word_le_nat_alt unat_gt_0)
  define r where "r = o' div 4096"
  have o: "o' = 4096 * r + t" using a(1) by (simp add: r_def) (metis mult_div_mod_eq)
  have mp: "unat mp = 4096 * q" using unat_round_down [of "p_vaddr h"] by (simp add: mp_def pg_round_down_def d)
  have fp: "unat fp = 4096 * r" using unat_round_down [of "p_offset h"] by (simp add: fp_def pg_round_down_def d r_def)
  have po: "unat po = t" using unat_pg_ofs [of "p_vaddr h"] by (simp add: po_def pg_ofs_def d)
  have n: "n = (t + m + 4095) div 4096" by (simp add: n_def d)
  have nb: "t + m \<le> 4096 * n" "4096 * n \<le> t + m + 4095" unfolding n by auto
  have "unat (pg_ofs mp) = 0" "unat (fp mod PGSIZE) = 0" using mp fp by (simp_all add: unat_pg_ofs unat_mod PGSIZE_eq)
  then show "pg_ofs mp = 0" "fp mod PGSIZE = 0" by (simp_all add: unsigned_eq_0_iff)
  have "q + n \<le> 0xc0000" using a(4) v nb(2) by linarith
  then show bound: "unat mp + 4096 * n \<le> unat PHYS_BASE" using mp by (simp add: PHYS_BASE_def)
  have pm: "unat (po + p_memsz h) = t + m" using a(4) v po by (simp add: unat_word_ariths d)
  have "unat (po + p_memsz h) \<le> 0xc0000000" using pm a(4) v by simp
  from round_up_page [OF this] show ru: "unat (round_up (po + p_memsz h) PGSIZE) = 4096 * n" unfolding pm n by simp
  have rb: "unat rb = (if 0 < fz then t + fz else 0)"
    using a(4,6) v po by (auto simp: rb_def unat_word_ariths d word_less_nat_alt)
  show sum: "unat rb + unat (round_up (po + p_memsz h) PGSIZE - rb) = 4096 * n"
    using ru rb nb(1) a(6) by (subst unat_sub) (auto simp: word_le_nat_alt)
  have "unat ((rb + (round_up (po + p_memsz h) PGSIZE - rb)) mod PGSIZE) = 0" using ru by (simp add: unat_mod PGSIZE_eq)
  then show "(rb + (round_up (po + p_memsz h) PGSIZE - rb)) mod PGSIZE = 0" by (simp add: unsigned_eq_0_iff)
  have e: "(v + m - 1) div 4096 + 1 = q + n"
  proof -
    have "v + m - 1 + 4096 = 4096 * q + (t + m + 4095)" using v a(3) by simp
    then have "(v + m - 1 + 4096) div 4096 = q + n" unfolding n by simp
    then show ?thesis by simp
  qed
  have in': "in_seg h va \<longleftrightarrow> q \<le> unat va div 4096 \<and> unat va div 4096 < q + n"
    using e by (auto simp: in_seg_def d [symmetric])
  then show ip: "in_pages mp n va \<longleftrightarrow> in_seg h va" unfolding in_pages_def mp by auto
  show "unat fp \<le> unat (p_offset h)" using fp o by (simp add: d)
  have fz0: "p_filesz h = 0 \<longleftrightarrow> fz = 0" by (simp add: d unsigned_eq_0_iff)
  show "unat fp + unat rb \<le> len \<longleftrightarrow> p_filesz h = 0 \<or> unat (p_offset h) + unat (p_filesz h) \<le> len"
    using fp rb o a(2) fz0 unfolding d [symmetric] by auto
  show "(if unat va - unat mp < unat rb then fb ! (unat fp + (unat va - unat mp)) else 0) = fst (seg_byte fb h va)" if "in_seg h va"
  proof -
    have ge: "4096 * q \<le> unat va" using ip that mp by (simp add: in_pages_def)
    then have "unat fp + (unat va - unat mp) = o' + unat va - v" using fp mp o v by simp
    moreover have "unat va - unat mp < unat rb \<longleftrightarrow> 0 < fz \<and> unat va < v + fz" using ge mp rb v by auto
    moreover have "0 < p_filesz h \<longleftrightarrow> 0 < fz" using fz0 by (simp add: word_gt_0)
    ultimately show ?thesis by (simp add: seg_byte_def d)
  qed
qed

lemma load_phdr_spec:
  assumes "exec_ok pd live [] s" "open_at file fb p (fsys s)"
  shows "\<exists>b s' live' p'. load_phdr file h s = Some (b, s') \<and> exec_ok pd live' [] s' \<and> open_at file fb p' (fsys s') \<and>
    (b \<longrightarrow> phdr_ok (length fb) h \<and> (p_type h = PT_LOAD \<longrightarrow> (\<forall>va. in_seg h va \<longrightarrow> user_byte s va = None)) \<and>
       (\<forall>va. user_byte s' va = (if p_type h = PT_LOAD \<and> in_seg h va then Some (seg_byte fb h va) else user_byte s va))) \<and>
    (\<not> b \<longrightarrow> \<not> phdr_ok (length fb) h \<or> p_type h = PT_LOAD \<and> (\<exists>va. in_seg h va \<and> user_byte s va \<noteq> None) \<or> exhausted s')"
proof (cases "p_type h = PT_LOAD")
  case False
  then show ?thesis
    using assms by (cases "p_type h \<in> {PT_DYNAMIC, PT_INTERP, PT_SHLIB}") (auto simp: load_phdr_def phdr_ok_def)
next
  case True
  have ty: "p_type h \<notin> {PT_DYNAMIC, PT_INTERP, PT_SHLIB}" using True by (simp add: PT_LOAD_def PT_DYNAMIC_def PT_INTERP_def PT_SHLIB_def)
  obtain b f where v: "validate_segment h file s = Some (b, s\<lparr>fsys := f\<rparr>)" "open_at file fb p f"
      "b \<longleftrightarrow> segment_ok (length fb) (h\<lparr>p_filesz := 0\<rparr>) \<and> p_filesz h \<le> p_memsz h"
    using validate_spec [OF assms(2)] by blast
  show ?thesis
  proof (cases b)
    case False
    then have "\<not> phdr_ok (length fb) h" using v(3) True by (auto simp: phdr_ok_def segment_ok_def)
    then show ?thesis using False v(1,2) True ty assms(1)
      by (intro exI [of _ False] exI [of _ "s\<lparr>fsys := f\<rparr>"] exI [of _ live] exI [of _ p]) (auto simp: load_phdr_def)
  next
    case b: True
    let ?mp = "p_vaddr h AND NOT PGMASK" and ?fp = "p_offset h AND NOT PGMASK" and ?po = "p_vaddr h AND PGMASK" and ?wr = "p_flags h AND PF_W \<noteq> 0"
    let ?rb = "if p_filesz h > 0 then ?po + p_filesz h else 0" and ?n = "(unat (p_vaddr h) mod 4096 + unat (p_memsz h) + 4095) div 4096"
    let ?zb = "round_up (?po + p_memsz h) PGSIZE - ?rb"
    have vv: "segment_ok (length fb) (h\<lparr>p_filesz := 0\<rparr>)" "p_filesz h \<le> p_memsz h" using v(3) b by auto
    note sp = seg_pages [OF vv]
    have ok: "phdr_ok (length fb) h \<longleftrightarrow> unat ?fp + unat ?rb \<le> length fb"
      unfolding sp(9) using True ty vv by (auto simp: phdr_ok_def segment_ok_def)
    have fl: "unat ?fp \<le> length fb" using sp(8) vv by (auto simp: segment_ok_def)
    obtain f' where f': "file_seek file ?fp f = Some f'" "open_at file fb (unat ?fp) f'"
      using file_seek_open [OF v(2), of ?fp] fl open_length [OF v(2)] by auto
    let ?s = "s\<lparr>fsys := f'\<rparr>"
    have "exec_ok pd live [] ?s" "open_at file fb (unat ?fp) (fsys ?s)" using assms(1) f'(2) by simp_all
    from load_loop_spec [OF this fl sp(1,5,3), of ?wr] obtain c s' live' p' where
      l: "load_loop file ?mp ?rb ?zb ?wr ?s = Some (c, s')" "exec_ok pd live' [] s'" "open_at file fb p' (fsys s')"
        "c \<Longrightarrow> unat ?fp + unat ?rb \<le> length fb \<and> (\<forall>va. in_pages ?mp ?n va \<longrightarrow> user_byte ?s va = None) \<and>
           (\<forall>va. user_byte s' va = (if in_pages ?mp ?n va
              then Some (if unat va - unat ?mp < unat ?rb then fb ! (unat ?fp + (unat va - unat ?mp)) else 0, ?wr) else user_byte ?s va))"
        "\<not> c \<Longrightarrow> length fb < unat ?fp + unat ?rb \<or> (\<exists>va. in_pages ?mp ?n va \<and> user_byte ?s va \<noteq> None) \<or> exhausted s'"
      by blast
    have "load_segment file ?fp ?mp ?rb ?zb ?wr (s\<lparr>fsys := f\<rparr>) = Some (c, s')"
      using sp(1,2,6) f'(1) l(1) unfolding load_segment_def by (simp del: if_split)
    moreover have "load_phdr file h s = load_segment file ?fp ?mp ?rb ?zb ?wr (s\<lparr>fsys := f\<rparr>)"
      using True ty v(1) b unfolding load_phdr_def by (auto simp: Let_def)
    ultimately have ld: "load_phdr file h s = Some (c, s')" by simp
    have sb: "(if unat va - unat ?mp < unat ?rb then fb ! (unat ?fp + (unat va - unat ?mp)) else 0, ?wr) = seg_byte fb h va" if "in_seg h va" for va
      using sp(10) [OF that, of fb] by (simp add: prod_eq_iff seg_byte_def)
    show ?thesis
    proof (cases c)
      case c: True
      have "user_byte s' va = (if in_seg h va then Some (seg_byte fb h va) else user_byte s va)" for va
        using l(4) [OF c] sb [of va] sp(7) [of va] by (simp del: if_split)
      then show ?thesis using ld l(2,3) l(4) [OF c] c True sp(7) ok
        by (intro exI [of _ True] exI [of _ s'] exI [of _ live'] exI [of _ p']) (simp del: if_split)
    next
      case c: False
      have "\<not> phdr_ok (length fb) h \<or> (\<exists>va. in_seg h va \<and> user_byte s va \<noteq> None) \<or> exhausted s'"
        using l(5) [OF c] unfolding ok not_le [symmetric] sp(7) user_byte_fs by blast
      then show ?thesis using ld l(2,3) c True by blast
    qed
  qed
qed

text \<open>The program headers of an image, its loadable segments, and the memory they describe.\<close>

definition phdrs :: "byte list \<Rightarrow> nat \<Rightarrow> nat \<Rightarrow> Elf32_Phdr list" where
  "phdrs fb ofs n = map (\<lambda>i. dec_phdr (slice (ofs + 32 * i) 32 fb)) [0..<n]"

definition segments :: "Elf32_Phdr list \<Rightarrow> Elf32_Phdr list" where
  "segments hs = filter (\<lambda>h. p_type h = PT_LOAD) hs"

definition apart :: "Elf32_Phdr list \<Rightarrow> bool" where
  "apart gs \<longleftrightarrow> sorted_wrt (\<lambda>g h. \<forall>va. \<not> (in_seg g va \<and> in_seg h va)) gs"

definition seg_mem :: "byte list \<Rightarrow> Elf32_Phdr list \<Rightarrow> u32 \<Rightarrow> (byte \<times> bool) option" where
  "seg_mem fb gs va = map_option (\<lambda>h. seg_byte fb h va) (find (\<lambda>h. in_seg h va) gs)"

lemma phdrs_Suc: "phdrs fb ofs (Suc n) = dec_phdr (slice ofs 32 fb) # phdrs fb (ofs + 32) n"
  unfolding phdrs_def by (subst upt_conv_Cons) (auto simp: map_Suc_upt [symmetric] o_def algebra_simps simp del: upt_Suc)

lemma seg_mem_None: "seg_mem fb gs va = None \<longleftrightarrow> (\<forall>g\<in>set gs. \<not> in_seg g va)"
  by (auto simp: seg_mem_def find_None_iff)

lemma seg_mem_append: "seg_mem fb (gs @ [h]) va = (if seg_mem fb gs va = None \<and> in_seg h va then Some (seg_byte fb h va) else seg_mem fb gs va)"
  by (induction gs) (auto simp: seg_mem_def)

lemma apart_append: "apart (gs @ [h]) \<longleftrightarrow> apart gs \<and> (\<forall>va. in_seg h va \<longrightarrow> seg_mem fb gs va = None)"
  by (auto simp: apart_def sorted_wrt_append seg_mem_None)

lemma apart_prefix: "apart (gs @ hs) \<Longrightarrow> apart gs"
  by (simp add: apart_def sorted_wrt_append)

lemma negative_word: "(w :: u32) <s 0 \<longleftrightarrow> \<not> unat w < 2 ^ 31"
proof (cases "w <s 0")
  case False
  then have s: "0 \<le> sint w" "sint w < 2 ^ 31" using sint_lt [of w] by (simp_all add: word_sless_alt)
  have "uint w = take_bit 32 (sint w)" using uint_sint [of w] by simp
  then have "uint w < 2 ^ 31" using s by (simp add: take_bit_int_eq_self)
  then have "int (unat w) < int (2 ^ 31)" by (simp only: uint_nat [symmetric]) simp
  then have "unat w < 2 ^ 31" by (simp only: of_nat_less_iff)
  then show ?thesis using False by simp
qed (use sless_small [of w 0] in auto)

lemma load_phdrs_spec:
  assumes "exec_ok pd live [] s" "open_at file fb p (fsys s)" "user_byte s = seg_mem fb gs" "apart gs"
  shows "\<exists>b s' live' p'. load_phdrs file ofs is s = Some (b, s') \<and> exec_ok pd live' [] s' \<and> open_at file fb p' (fsys s') \<and>
    (b \<longrightarrow> (is = [] \<or> unat ofs + 32 * length is \<le> length fb) \<and> (\<forall>h\<in>set (phdrs fb (unat ofs) (length is)). phdr_ok (length fb) h) \<and>
       apart (gs @ segments (phdrs fb (unat ofs) (length is))) \<and> user_byte s' = seg_mem fb (gs @ segments (phdrs fb (unat ofs) (length is)))) \<and>
    (\<not> b \<longrightarrow> \<not> (is = [] \<or> unat ofs + 32 * length is \<le> length fb) \<or> (\<exists>h\<in>set (phdrs fb (unat ofs) (length is)). \<not> phdr_ok (length fb) h) \<or>
       \<not> apart (gs @ segments (phdrs fb (unat ofs) (length is))) \<or> exhausted s')"
  using assms
proof (induction "is" arbitrary: live s p ofs gs)
  case Nil
  then show ?case by (intro exI [of _ True] exI [of _ s] exI [of _ live] exI [of _ p]) (simp add: phdrs_def segments_def)
next
  case (Cons i "is")
  obtain n f where f: "file_length file (fsys s) = Some (n, f)" "unat n = length fb" "open_at file fb p f"
    using file_length_open [OF Cons.prems(2)] by blast
  have fb: "length fb \<le> 2 ^ 23" using open_length [OF f(3)] .
  have neg: "ofs <s 0 \<longleftrightarrow> \<not> unat ofs < 2 ^ 31" by (rule negative_word)
  show ?case
  proof (cases "unat ofs \<le> length fb")
    case False
    have "load_phdrs file ofs (i # is) s = Some (False, s) \<or> load_phdrs file ofs (i # is) s = Some (False, s\<lparr>fsys := f\<rparr>)"
      using neg f(1,2) False sless_small [of n ofs] fb by (auto simp: Let_def)
    then show ?thesis using False Cons.prems(1,2) f(3) by (elim disjE) (fastforce intro!: exI [of _ live] exI [of _ p])+
  next
    case True
    have le: "\<not> ofs <s 0" "\<not> n <s ofs" using neg True fb f(2) sless_small [of n ofs] by auto
    obtain f1 where f1: "file_seek file ofs f = Some f1" "open_at file fb (unat ofs) f1"
      using file_seek_open [OF f(3), of ofs] True fb by auto
    obtain f2 where f2: "file_read file 32 f1 = Some (slice (unat ofs) 32 fb, f2)" "open_at file fb (unat ofs + length (slice (unat ofs) 32 fb)) f2"
      using file_read_open [OF f1(2), of 32] True fb by auto
    let ?h = "dec_phdr (slice (unat ofs) 32 fb)"
    have len: "length (slice (unat ofs) 32 fb) = 32 \<longleftrightarrow> unat ofs + 32 \<le> length fb" by (auto simp: slice_def)
    show ?thesis
    proof (cases "unat ofs + 32 \<le> length fb")
      case False
      then have "load_phdrs file ofs (i # is) s = Some (False, s\<lparr>fsys := f2\<rparr>)"
        using le f(1) f1(1) f2(1) len by (simp add: Let_def del: length_slice)
      then show ?thesis using False Cons.prems(1) f2(2)
        by (intro exI [of _ False] exI [of _ "s\<lparr>fsys := f2\<rparr>"] exI [of _ live]) auto
    next
      case in_file: True
      have "exec_ok pd live [] (s\<lparr>fsys := f2\<rparr>)" "open_at file fb (unat ofs + length (slice (unat ofs) 32 fb)) (fsys (s\<lparr>fsys := f2\<rparr>))"
        using Cons.prems(1) f2(2) by simp_all
      from load_phdr_spec [OF this, of ?h] obtain b s' live' p' where
        l: "load_phdr file ?h (s\<lparr>fsys := f2\<rparr>) = Some (b, s')" "exec_ok pd live' [] s'" "open_at file fb p' (fsys s')"
          "b \<Longrightarrow> phdr_ok (length fb) ?h \<and> (p_type ?h = PT_LOAD \<longrightarrow> (\<forall>va. in_seg ?h va \<longrightarrow> user_byte s va = None)) \<and>
            (\<forall>va. user_byte s' va = (if p_type ?h = PT_LOAD \<and> in_seg ?h va then Some (seg_byte fb ?h va) else user_byte s va))"
          "\<not> b \<Longrightarrow> \<not> phdr_ok (length fb) ?h \<or> p_type ?h = PT_LOAD \<and> (\<exists>va. in_seg ?h va \<and> user_byte s va \<noteq> None) \<or> exhausted s'"
        unfolding user_byte_fs by blast
      have ld: "load_phdrs file ofs (i # is) s = (if b then load_phdrs file (ofs + 32) is s' else Some (False, s'))"
        using le f(1) f1(1) f2(1) len in_file l(1) by (simp add: Let_def del: length_slice)
      have o: "unat (ofs + 32) = unat ofs + 32" using True fb by (simp add: unat_word_ariths)
      let ?hs = "phdrs fb (unat ofs) (length (i # is))" and ?hs' = "phdrs fb (unat ofs + 32) (length is)"
      have hs: "?hs = ?h # ?hs'" by (simp add: phdrs_Suc)
      show ?thesis
      proof (cases b)
        case False
        have "\<not> apart (gs @ segments ?hs)" if "p_type ?h = PT_LOAD" "in_seg ?h va" "user_byte s va \<noteq> None" for va
          using apart_prefix [of "gs @ [?h]" "segments ?hs'"] that apart_append [of gs ?h fb] Cons.prems(3) hs by (auto simp: segments_def)
        then show ?thesis using ld l(2,3) l(5) [OF False] False hs by auto
      next
        case b: True
        define gs' where "gs' = (if p_type ?h = PT_LOAD then gs @ [?h] else gs)"
        have ap: "apart gs'" using Cons.prems(3,4) l(4) [OF b] apart_append [of gs ?h fb] by (auto simp: gs'_def)
        have ub: "user_byte s' = seg_mem fb gs'"
          using Cons.prems(3) l(4) [OF b] by (auto simp: gs'_def seg_mem_append fun_eq_iff)
        have seg: "gs @ segments ?hs = gs' @ segments ?hs'" unfolding hs by (simp add: gs'_def segments_def)
        obtain c s'' live'' p'' where ih: "load_phdrs file (ofs + 32) is s' = Some (c, s'')" "exec_ok pd live'' [] s''" "open_at file fb p'' (fsys s'')"
            "c \<Longrightarrow> (is = [] \<or> unat ofs + 32 + 32 * length is \<le> length fb) \<and> (\<forall>h\<in>set ?hs'. phdr_ok (length fb) h) \<and>
               apart (gs' @ segments ?hs') \<and> user_byte s'' = seg_mem fb (gs' @ segments ?hs')"
            "\<not> c \<Longrightarrow> \<not> (is = [] \<or> unat ofs + 32 + 32 * length is \<le> length fb) \<or> (\<exists>h\<in>set ?hs'. \<not> phdr_ok (length fb) h) \<or>
               \<not> apart (gs' @ segments ?hs') \<or> exhausted s''"
          using Cons.IH [OF l(2,3) ub ap, of "ofs + 32"] unfolding o by metis
        have fits: "(i # is = [] \<or> unat ofs + 32 * length (i # is) \<le> length fb) \<longleftrightarrow> (is = [] \<or> unat ofs + 32 + 32 * length is \<le> length fb)"
          using in_file by (cases "is") auto
        have all: "(\<forall>h\<in>set ?hs. phdr_ok (length fb) h) \<longleftrightarrow> (\<forall>h\<in>set ?hs'. phdr_ok (length fb) h)" using l(4) [OF b] unfolding hs by simp
        have lc: "load_phdrs file ofs (i # is) s = Some (c, s'')" using ld b ih(1) by simp
        show ?thesis
        proof (cases c)
          case True
          then show ?thesis using lc ih(2,3) ih(4) [OF True] unfolding fits all seg by blast
        next
          case False
          have "\<not> (i # is = [] \<or> unat ofs + 32 * length (i # is) \<le> length fb) \<or> \<not> (\<forall>h\<in>set ?hs. phdr_ok (length fb) h) \<or>
              \<not> apart (gs @ segments ?hs) \<or> exhausted s''"
            using ih(5) [OF False] unfolding fits all seg by blast
          then show ?thesis using lc ih(2,3) False by blast
        qed
      qed
    qed
  qed
qed

text \<open>The page of the stack.\<close>

definition in_stack :: "u32 \<Rightarrow> bool" where
  "in_stack va \<longleftrightarrow> 0xbffff000 \<le> unat va \<and> unat va < 0xc0000000"

lemma stack_page: "is_user_vaddr va \<and> pg_no va = pg_no (PHYS_BASE - PGSIZE) \<longleftrightarrow> in_stack va" "pg_ofs (PHYS_BASE - PGSIZE) = 0"
  "is_user_vaddr (PHYS_BASE - PGSIZE)" "in_stack (PHYS_BASE - PGSIZE)"
proof -
  have e: "PHYS_BASE - PGSIZE = 0xbffff000" by (simp add: PHYS_BASE_def PGSIZE_eq)
  have "pg_no va = pg_no 0xbffff000 \<longleftrightarrow> unat va div 4096 = 0xbffff" by (simp add: word_unat_eq_iff unat_pg_no)
  then show "is_user_vaddr va \<and> pg_no va = pg_no (PHYS_BASE - PGSIZE) \<longleftrightarrow> in_stack va"
    unfolding e in_stack_def by (auto simp: is_user_vaddr_def PHYS_BASE_def word_less_nat_alt)
  show "pg_ofs (PHYS_BASE - PGSIZE) = 0" "is_user_vaddr (PHYS_BASE - PGSIZE)" "in_stack (PHYS_BASE - PGSIZE)"
    unfolding e by (simp_all add: pg_ofs_def PGMASK_def BITMASK_def PGBITS_def is_user_vaddr_def PHYS_BASE_def in_stack_def)
qed

lemma setup_stack_spec:
  assumes "exec_ok pd live [] s"
  shows "\<exists>b s' live'. setup_stack s = Some (b, s') \<and> exec_ok pd live' [] s' \<and> fsys s' = fsys s \<and>
    (b \<noteq> None \<longrightarrow> b = Some PHYS_BASE \<and> (\<forall>va. in_stack va \<longrightarrow> user_byte s va = None) \<and>
      (\<forall>va. user_byte s' va = (if in_stack va then Some (0, True) else user_byte s va))) \<and>
    (b = None \<longrightarrow> (\<exists>va. in_stack va \<and> user_byte s va \<noteq> None) \<or> exhausted s')"
proof (rule get_page_spec [OF assms, of "PAL_USER OR PAL_ZERO"])
  show "(PAL_USER OR PAL_ZERO) AND PAL_ASSERT = 0" by (simp add: PAL_USER_def PAL_ZERO_def PAL_ASSERT_def)
next
  assume "get_page (PAL_USER OR PAL_ZERO) s = Some (None, s)"
    "pool_pages (pool_of ((PAL_USER OR PAL_ZERO) AND PAL_USER \<noteq> 0) (ram s)) = used_pages (pool_of ((PAL_USER OR PAL_ZERO) AND PAL_USER \<noteq> 0) (ram s))"
  then have "setup_stack s = Some (None, s)" "exhausted s" unfolding exhausted_def by (auto simp: setup_stack_def)
  then show ?thesis using assms by blast
next
  fix k r
  assume g: "get_page (PAL_USER OR PAL_ZERO) s = Some (Some k, s\<lparr>ram := r\<rparr>)" "exec_ok pd live [(k, 1)] (s\<lparr>ram := r\<rparr>)" "pg_ofs k = 0" "is_kernel_vaddr k"
    "unat k div 4096 \<notin> inuse ([] @ live)" "unat k div 4096 \<in> pool_pages (pool_of ((PAL_USER OR PAL_ZERO) AND PAL_USER \<noteq> 0) (ram s))"
    "\<And>u. pool_pages (pool_of u r) = pool_pages (pool_of u (ram s))"
    "bytes r = (\<lambda>a. if (PAL_USER OR PAL_ZERO) AND PAL_ZERO \<noteq> 0 \<and> unat a div 4096 = unat k div 4096 then 0 else bytes (ram s) a)"
  let ?s = "s\<lparr>ram := r\<rparr>" and ?u = "PHYS_BASE - PGSIZE"
  have ub: "user_byte ?s = user_byte s"
    by (rule ext, rule user_byte_ram [OF assms]) (use g(5) in \<open>auto simp: g(8)\<close>)
  have kp: "unat k div 4096 \<in> pool_pages (pool_of True (ram ?s))" using g(6,7) by (simp add: PAL_USER_def PAL_ZERO_def)
  obtain s' where s': "free_page k ?s = Some s'" "exec_ok pd live [] s'" "fsys s' = fsys ?s"
      "\<And>u. pool_pages (pool_of u (ram s')) = pool_pages (pool_of u (ram ?s))" using free_page_spec [OF g(2)] by metis
  show ?thesis
  proof (rule install_page_spec [OF g(2,4) kp g(3) stack_page(2,3), of True])
    assume "install_page ?u k True ?s = Some (False, ?s)" "user_byte ?s ?u \<noteq> None"
    then show ?thesis using g(1) s'(1-3) stack_page(4) ub by (auto simp: setup_stack_def)
  next
    assume i: "install_page ?u k True ?s = Some (False, ?s)" "pool_pages (pool_of False (ram ?s)) \<subseteq> inuse live"
    have "exhausted s'" using exhausted_inuse [of s' live] exec_okD(4) [OF s'(2)] s'(4) i(2) by auto
    then show ?thesis using g(1) s'(1-3) i(1) by (auto simp: setup_stack_def)
  next
    fix s2 live2
    assume i: "install_page ?u k True ?s = Some (True, s2)" "user_byte ?s ?u = None" "exec_ok pd live2 [] s2" "fsys s2 = fsys ?s"
      "\<And>va. user_byte s2 va = (if is_user_vaddr va \<and> pg_no va = pg_no ?u then Some (bytes (ram ?s) (k + pg_ofs va), True) else user_byte ?s va)"
    have z: "bytes r (k + pg_ofs va) = 0" for va using frame_offset [OF g(3), of va] by (simp add: g(8) PAL_USER_def PAL_ZERO_def)
    have "user_byte s va = None" if "in_stack va" for va
    proof -
      have "is_user_vaddr va" "pg_no va = pg_no ?u" using that stack_page(1) by auto
      moreover from this(2) have "frame_of pd (words (ptabs s)) va = frame_of pd (words (ptabs s)) ?u"
        using same_page [of va ?u] by (simp add: frame_of_def)
      ultimately show ?thesis using i(2) ub unmapped [OF assms] stack_page(3) by metis
    qed
    moreover have "user_byte s2 va = (if in_stack va then Some (0, True) else user_byte s va)" for va
      using i(5) [of va] ub stack_page(1) [of va] z by simp
    ultimately show ?thesis using g(1) i(1,3,4) by (auto simp: setup_stack_def)
  qed
qed

section \<open>Properties\<close>

text \<open>A well-formed executable: its header, all program headers inside the file, no two loadable segments on the same
  page and none on the page of the stack.\<close>

definition image_ok :: "byte list \<Rightarrow> bool" where
  "image_ok fb \<longleftrightarrow> (let h = dec_ehdr (take 52 fb); n = unat (e_phnum h); hs = phdrs fb (unat (e_phoff h)) n in
     52 \<le> length fb \<and> \<not> bad_ehdr h \<and> (n = 0 \<or> unat (e_phoff h) + 32 * n \<le> length fb) \<and> (\<forall>h\<in>set hs. phdr_ok (length fb) h) \<and>
     apart (segments hs) \<and> (\<forall>g\<in>set (segments hs). \<forall>va. in_seg g va \<longrightarrow> \<not> in_stack va))"

definition image_byte :: "byte list \<Rightarrow> u32 \<Rightarrow> (byte \<times> bool) option" where
  "image_byte fb va =
     (if in_stack va then Some (0, True)
      else let h = dec_ehdr (take 52 fb) in seg_mem fb (segments (phdrs fb (unat (e_phoff h)) (unat (e_phnum h)))) va)"

text \<open>C22: Loading an executable gives the process exactly the memory that the file describes. For an open file read from its
  start and an empty address space, loading always returns. It succeeds only for a well-formed
  executable, and then every user address holds the byte of the file or the zero that the program
  headers place there, with their permission, the stack page is zero, everything else is unmapped, and
  the entry point and stack pointer are set. It fails only if the file is malformed or all the
  pages of a pool are in use.\<close>
theorem load_image_correct:
  assumes "exec_ok pd live [] s" "open_at file fb 0 (fsys s)" "\<And>va. user_byte s va = None"
  shows "\<exists>r s'. load_image file s = Some (r, s') \<and>
    (case r of None \<Rightarrow> \<not> image_ok fb \<or> exhausted s'
     | Some (eip, esp) \<Rightarrow> image_ok fb \<and> eip = e_entry (dec_ehdr (take 52 fb)) \<and> esp = PHYS_BASE \<and> user_byte s' = image_byte fb)"
proof -
  let ?h = "dec_ehdr (take 52 fb)"
  let ?n = "unat (e_phnum ?h)"
  let ?hs = "phdrs fb (unat (e_phoff ?h)) ?n"
  obtain f where f: "file_read file 52 (fsys s) = Some (take 52 fb, f)" "open_at file fb (length (take 52 fb)) f"
    using file_read_open [OF assms(2), of 52] by (auto simp: slice_def)
  show ?thesis
  proof (cases "length (take 52 fb) \<noteq> 52 \<or> bad_ehdr ?h")
    case True
    then have "load_image file s = Some (None, s\<lparr>fsys := f\<rparr>)" "\<not> image_ok fb"
      using f(1) by (auto simp: load_image_def image_ok_def Let_def)
    then show ?thesis by auto
  next
    case False
    have "exec_ok pd live [] (s\<lparr>fsys := f\<rparr>)" "open_at file fb (length (take 52 fb)) (fsys (s\<lparr>fsys := f\<rparr>))"
        "user_byte (s\<lparr>fsys := f\<rparr>) = seg_mem fb []" "apart []"
      using assms(1,3) f(2) by (simp_all add: seg_mem_def fun_eq_iff apart_def)
    moreover have "length [0..<?n] = ?n" "[0..<?n] = [] \<longleftrightarrow> ?n = 0" by auto
    moreover note load_phdrs_spec [OF calculation(1-4), of "e_phoff ?h" "[0..<?n]", unfolded calculation(5,6) append_Nil]
    ultimately obtain b s' live' p' where
      l: "load_phdrs file (e_phoff ?h) [0..<?n] (s\<lparr>fsys := f\<rparr>) = Some (b, s')" "exec_ok pd live' [] s'" "open_at file fb p' (fsys s')"
        "b \<Longrightarrow> (?n = 0 \<or> unat (e_phoff ?h) + 32 * ?n \<le> length fb) \<and> (\<forall>h\<in>set ?hs. phdr_ok (length fb) h) \<and> apart (segments ?hs) \<and>
           user_byte s' = seg_mem fb (segments ?hs)"
        "\<not> b \<Longrightarrow> \<not> (?n = 0 \<or> unat (e_phoff ?h) + 32 * ?n \<le> length fb) \<or> (\<exists>h\<in>set ?hs. \<not> phdr_ok (length fb) h) \<or> \<not> apart (segments ?hs) \<or> exhausted s'"
      by blast
    show ?thesis
    proof (cases b)
      case b: False
      then have "load_image file s = Some (None, s')" using f(1) False l(1) by (simp add: load_image_def Let_def)
      then show ?thesis using l(5) [OF b] by (auto simp: image_ok_def Let_def)
    next
      case b: True
      obtain c s2 live2 where st: "setup_stack s' = Some (c, s2)" "exec_ok pd live2 [] s2"
          "c \<noteq> None \<Longrightarrow> c = Some PHYS_BASE \<and> (\<forall>va. in_stack va \<longrightarrow> user_byte s' va = None) \<and>
             (\<forall>va. user_byte s2 va = (if in_stack va then Some (0, True) else user_byte s' va))"
          "c = None \<Longrightarrow> (\<exists>va. in_stack va \<and> user_byte s' va \<noteq> None) \<or> exhausted s2"
        using setup_stack_spec [OF l(2)] by blast
      have clash: "(\<forall>va. in_stack va \<longrightarrow> user_byte s' va = None) \<longleftrightarrow> (\<forall>g\<in>set (segments ?hs). \<forall>va. in_seg g va \<longrightarrow> \<not> in_stack va)"
        using l(4) [OF b] by (auto simp: seg_mem_None)
      have ok: "image_ok fb \<longleftrightarrow> (\<forall>va. in_stack va \<longrightarrow> user_byte s' va = None)"
        unfolding clash using l(4) [OF b] False by (auto simp: image_ok_def Let_def)
      show ?thesis
      proof (cases c)
        case None
        then show ?thesis using f(1) False l(1) b st(1) st(4) ok by (auto simp: load_image_def Let_def)
      next
        case (Some e)
        then show ?thesis using f(1) False l(1) b st(1) st(3) ok l(4) [OF b]
          by (auto simp: load_image_def Let_def image_byte_def fun_eq_iff)
      qed
    qed
  qed
qed

text \<open>An executable of 88 bytes with one segment at \<^verbatim>\<open>0x08048000\<close>, and two small pools of pages; the first kernel page holds
  the page directory.\<close>

definition demo_elf :: "byte list" where
  "demo_elf = [0x7f, 0x45, 0x4c, 0x46, 1, 1, 1, 0, 0, 0, 0, 0, 0, 0, 0, 0, 2, 0, 3, 0, 1, 0, 0, 0, 0x54, 0x80, 4, 8, 52, 0, 0, 0,
     0, 0, 0, 0, 0, 0, 0, 0, 52, 0, 32, 0, 1, 0, 0, 0, 0, 0, 0, 0,
     1, 0, 0, 0, 0, 0, 0, 0, 0, 0x80, 4, 8, 0, 0x80, 4, 8, 88, 0, 0, 0, 0, 0x20, 0, 0, 5, 0, 0, 0, 0, 0x10, 0, 0,
     0xb8, 1, 0, 0]"

definition demo_pages :: pages where
  "demo_pages = \<lparr>kernel_pool = \<lparr>used_map = \<lparr>bit_cnt = 4, bits = [1]\<rparr>, base = 0xc0100000\<rparr>,
     user_pool = \<lparr>used_map = \<lparr>bit_cnt = 8, bits = [0]\<rparr>, base = 0xc0200000\<rparr>, bytes = (\<lambda>_. 7)\<rparr>"

definition demo_exec :: exec_state where
  "demo_exec = \<lparr>ram = demo_pages, ptabs = \<lparr>words = (\<lambda>_. 0), init_page_dir = 0, init_ram_pages = 1024, cr3 = 0, tlb = Map.empty\<rparr>,
     fsys = (demo_fs 88 (demo_elf @ replicate 424 0))\<lparr>files := [7 \<mapsto> \<lparr>finode = 5, fpos = 0, deny_write = False\<rparr>]\<rparr>,
     pagedir = Some 0xc0100000, executable = Some 7, cwd = None\<rparr>"

lemma demo_elf_ok: "open_at 7 demo_elf 0 (fsys demo_exec)"
proof -
  have l: "length (demo_elf @ replicate 424 0) = 512" by (simp add: demo_elf_def)
  have "take 88 (demo_elf @ replicate 424 0) = demo_elf" by (simp add: demo_elf_def)
  then show ?thesis
    using demo_fs_ok(1) [of 88 "demo_elf @ replicate 424 0"] demo_fs_ok(2,3) demo_fs_cache_ok [OF l, of 88]
      demo_file_ok(1) [of 88 "demo_elf @ replicate 424 0"] demo_bytes [OF _ l, of 88]
    by (simp add: open_at_def demo_exec_def del: take_append)
qed

lemma demo_pages_ok: "holds demo_pages [(0xc0100000, 1)]" "pool_pages (pool_of u demo_pages) \<subseteq> {0xc0000..<0xc0000 + 1024}"
proof -
  have k: "used_pages (kernel_pool demo_pages) = {0xc0100}"
    by (auto simp: used_pages_def demo_pages_def first_page_def bitmap_abs_def bitmap_bit_def bit_1_iff)
  have u: "used_pages (user_pool demo_pages) = {}"
    by (auto simp: used_pages_def demo_pages_def first_page_def bitmap_abs_def bitmap_bit_def)
  have "pools_ok demo_pages"
    by (simp add: pools_ok_def pool_ok_def demo_pages_def first_page_def pool_pages_def bitmap_inv_def elem_cnt_def DIV_ROUND_UP_def ELEM_BITS_def SIZE_MAX_def addr_defs)
  moreover have "block_ok demo_pages (0xc0100000, 1)"
    by (auto simp: block_ok_def demo_pages_def pool_pages_def pool_of_def first_page_def addr_defs intro!: exI [of _ False])
  ultimately show "holds demo_pages [(0xc0100000, 1)]" using k u by (simp add: holds_def)
  show "pool_pages (pool_of u demo_pages) \<subseteq> {0xc0000..<0xc0000 + 1024}"
    by (auto simp: pool_of_def demo_pages_def pool_pages_def first_page_def)
qed

lemma demo_exec_ok: "exec_ok 0xc0100000 [(0xc0100000, 1)] [] demo_exec" "user_byte demo_exec va = None"
  using demo_pages_ok
  by (simp_all add: exec_ok_def demo_exec_def pd_ok_def table_at_def frames_ok_def frame_of_def pte_of_def user_byte_def addr_defs)

definition demo_phdr :: Elf32_Phdr where
  "demo_phdr = \<lparr>p_type = 1, p_offset = 0, p_vaddr = 0x08048000, p_paddr = 0x08048000, p_filesz = 88, p_memsz = 0x2000, p_flags = 5, p_align = 0x1000\<rparr>"

lemma dec_ehdr_sel:
  "e_ident (dec_ehdr bs) = take 16 bs" "e_type (dec_ehdr bs) = half_at bs 16" "e_machine (dec_ehdr bs) = half_at bs 18"
  "e_version (dec_ehdr bs) = word32_at bs 20" "e_entry (dec_ehdr bs) = word32_at bs 24" "e_phoff (dec_ehdr bs) = word32_at bs 28"
  "e_phentsize (dec_ehdr bs) = half_at bs 42" "e_phnum (dec_ehdr bs) = half_at bs 44"
  by (simp_all add: dec_ehdr_def)

lemma demo_fields:
  "take 7 (take 16 (take 52 demo_elf)) = [0x7f, 0x45, 0x4c, 0x46, 1, 1, 1]" "half_at (take 52 demo_elf) 16 = 2" "half_at (take 52 demo_elf) 18 = 3"
  "word32_at (take 52 demo_elf) 20 = 1" "word32_at (take 52 demo_elf) 24 = 0x08048054" "word32_at (take 52 demo_elf) 28 = 52"
  "half_at (take 52 demo_elf) 42 = 32" "half_at (take 52 demo_elf) 44 = 1"
  by (simp_all add: word32_at_def half_at_def slice_def demo_elf_def of_le32_def)

lemma demo_headers:
  "e_entry (dec_ehdr (take 52 demo_elf)) = 0x08048054" "e_phoff (dec_ehdr (take 52 demo_elf)) = 52" "e_phnum (dec_ehdr (take 52 demo_elf)) = 1"
  "\<not> bad_ehdr (dec_ehdr (take 52 demo_elf))"
  using demo_fields by (simp_all add: bad_ehdr_def dec_ehdr_sel)

lemma demo_phdrs: "phdrs demo_elf 52 1 = [demo_phdr]"
proof -
  define bs where "bs = slice 52 32 demo_elf"
  have "bs = [1, 0, 0, 0, 0, 0, 0, 0, 0, 0x80, 4, 8, 0, 0x80, 4, 8, 88, 0, 0, 0, 0, 0x20, 0, 0, 5, 0, 0, 0, 0, 0x10, 0, 0]"
    by (simp add: bs_def slice_def demo_elf_def)
  then have "dec_phdr bs = demo_phdr" by (simp add: dec_phdr_def demo_phdr_def word32_at_def slice_def of_le32_def)
  then show ?thesis by (simp add: phdrs_def bs_def)
qed

lemma demo_image: "image_ok demo_elf" "image_byte demo_elf 0x08048001 = Some (0x45, False)"
proof -
  have s: "segments [demo_phdr] = [demo_phdr]" by (simp add: segments_def demo_phdr_def PT_LOAD_def)
  have l: "length demo_elf = 88" by (simp add: demo_elf_def)
  have "phdr_ok 88 demo_phdr"
    by (simp add: phdr_ok_def segment_ok_def demo_phdr_def PT_DYNAMIC_def PT_INTERP_def PT_SHLIB_def word_le_nat_alt)
  moreover have "in_seg demo_phdr va \<Longrightarrow> \<not> in_stack va" for va by (auto simp: in_seg_def in_stack_def demo_phdr_def)
  ultimately show "image_ok demo_elf"
    using demo_headers demo_phdrs l by (simp add: image_ok_def Let_def s apart_def)
  have "demo_elf ! 1 = 0x45" by (simp add: demo_elf_def)
  then show "image_byte demo_elf 0x08048001 = Some (0x45, False)"
    using demo_headers demo_phdrs s by (simp add: image_byte_def Let_def seg_mem_def in_stack_def) (simp add: seg_byte_def in_seg_def demo_phdr_def PF_W_def)
qed

theorem load_image_correct_witness:
  "\<exists>r s'. load_image 7 demo_exec = Some (r, s') \<and>
    (exhausted s' \<or> r = Some (0x08048054, PHYS_BASE) \<and> user_byte s' 0x08048001 = Some (0x45, False))"
proof -
  obtain r s' where "load_image 7 demo_exec = Some (r, s')"
      "case r of None \<Rightarrow> \<not> image_ok demo_elf \<or> exhausted s'
        | Some (eip, esp) \<Rightarrow> image_ok demo_elf \<and> eip = e_entry (dec_ehdr (take 52 demo_elf)) \<and> esp = PHYS_BASE \<and> user_byte s' = image_byte demo_elf"
    using load_image_correct [OF demo_exec_ok(1) demo_elf_ok demo_exec_ok(2)] by blast
  then show ?thesis using demo_image demo_headers(1) by (cases r) auto
qed

end
