(* ===== verification/Syscall.thy ===== *)
theory Syscall
  imports Exec_Load
begin

text \<open>
  System calls: \<^verbatim>\<open>userprog/syscall.c\<close> on top of the address space of the process, its descriptors and the file
  system, and the cleanup of descriptors in \<^verbatim>\<open>threads/thread.c\<close>. A page fault of the kernel while it
  follows a user pointer panics (\<^verbatim>\<open>kill\<close> in \<^verbatim>\<open>userprog/exception.c\<close>), so it is \<^term>\<open>None\<close>, as are failed
  assertions. The outcome of a call says whether the process goes on, and with which value in
  \<^verbatim>\<open>eax\<close>, or what the kernel does next. The message that \<^verbatim>\<open>exit\<close> prints is dropped.

  A call is one transition: other processes run before and after it. So the model does not show the race on
  \<^verbatim>\<open>fd_count\<close>, which \<^verbatim>\<open>open\<close> reads twice and increments without a lock. The descriptor table, \<^verbatim>\<open>fd_count\<close> and the file system are
  fields of their own, apart from the bytes of memory; a write to a kernel address, which a bad buffer of
  \<^verbatim>\<open>read\<close> or \<^verbatim>\<open>readdir\<close> can cause, changes the byte and not these fields.
\<close>

section \<open>State\<close>

record thread_fd =
  fd :: u32
  fd_file :: "nat option"
  fd_dir :: "dir option"

text \<open>\<open>ktext\<close> says which kernel addresses are mapped read-only.\<close>

record sys =
  proc :: exec_state
  fd_map :: "thread_fd list"
  fd_count :: u32
  console :: "byte list"
  ktext :: "u32 \<Rightarrow> bool"

datatype outcome = Resume u32 | Exited u32 | Execute "byte list" | WaitFor u32 | PowerOff

definition set_fs :: "fs \<Rightarrow> sys \<Rightarrow> sys" where
  "set_fs f s = s\<lparr>proc := (proc s)\<lparr>fsys := f\<rparr>\<rparr>"

definition set_cwd :: "dir option \<Rightarrow> sys \<Rightarrow> sys" where
  "set_cwd c s = s\<lparr>proc := (proc s)\<lparr>cwd := c\<rparr>\<rparr>"

section \<open>Access to memory\<close>

text \<open>The kernel address of the byte at an address, and whether the kernel may write it.\<close>

definition translate :: "sys \<Rightarrow> u32 \<Rightarrow> (u32 \<times> bool) option" where
  "translate s a =
    (if is_user_vaddr a then do {
       pd \<leftarrow> pagedir (proc s);
       p \<leftarrow> frame_of pd (words (ptabs (proc s))) a;
       Some (p + pg_ofs a, pte_of pd (words (ptabs (proc s))) a AND PTE_W \<noteq> 0)
     }
     else if unat a div 4096 < 0xc0000 + unat (init_ram_pages (ptabs (proc s))) then Some (a, \<not> ktext s a)
     else None)"

definition rd8 :: "sys \<Rightarrow> u32 \<Rightarrow> byte option" where
  "rd8 s a = do { (k, w) \<leftarrow> translate s a; Some (bytes (ram (proc s)) k) }"

definition wr8 :: "u32 \<Rightarrow> byte \<Rightarrow> sys \<Rightarrow> sys option" where
  "wr8 a v s = do {
     (k, w) \<leftarrow> translate s a;
     ASSERT w;
     Some (s\<lparr>proc := set_bytes ((bytes (ram (proc s)))(k := v)) (proc s)\<rparr>)
   }"

definition rd32 :: "sys \<Rightarrow> u32 \<Rightarrow> u32 option" where
  "rd32 s a = do { b0 \<leftarrow> rd8 s a; b1 \<leftarrow> rd8 s (a + 1); b2 \<leftarrow> rd8 s (a + 2); b3 \<leftarrow> rd8 s (a + 3); Some (of_le32 [b0, b1, b2, b3]) }"

fun wr_bytes :: "u32 \<Rightarrow> byte list \<Rightarrow> sys \<Rightarrow> sys option" where
  "wr_bytes a [] s = Some s"
| "wr_bytes a (b # bs) s = do { s \<leftarrow> wr8 a b s; wr_bytes (a + 1) bs s }"

text \<open>The part of a buffer that can be read.\<close>

fun rd_prefix :: "sys \<Rightarrow> u32 \<Rightarrow> nat \<Rightarrow> byte list" where
  "rd_prefix s a 0 = []"
| "rd_prefix s a (Suc n) = (case rd8 s a of None \<Rightarrow> [] | Some b \<Rightarrow> b # rd_prefix s (a + 1) n)"

partial_function (option) user_str :: "sys \<Rightarrow> u32 \<Rightarrow> byte list option" where
  "user_str s a = do { c \<leftarrow> rd8 s a; if c = 0 then Some [] else do { cs \<leftarrow> user_str s (a + 1); Some (c # cs) } }"

fun user_strn :: "sys \<Rightarrow> u32 \<Rightarrow> nat \<Rightarrow> byte list option" where
  "user_strn s a 0 = Some []"
| "user_strn s a (Suc n) = do { c \<leftarrow> rd8 s a; if c = 0 then Some [] else do { cs \<leftarrow> user_strn s (a + 1) n; Some (c # cs) } }"

definition is_valid_args :: "u32 \<Rightarrow> u32 \<Rightarrow> sys \<Rightarrow> bool option" where
  "is_valid_args args number_args s =
    (if \<not> (is_user_vaddr args \<and> is_user_vaddr (args + 4 * number_args)) then Some False
     else do {
       active_pd \<leftarrow> pagedir (proc s);
       pd_beginning \<leftarrow> pagedir_get_page active_pd args (ptabs (proc s));
       pd_end \<leftarrow> pagedir_get_page active_pd (args + 4 * number_args) (ptabs (proc s));
       Some (pd_beginning \<noteq> None \<and> pd_end \<noteq> None)
     })"

definition is_valid_file :: "u32 \<Rightarrow> sys \<Rightarrow> bool option" where
  "is_valid_file file s = (if file = 0 then Some False else is_valid_args file 1 s)"

definition exit_file_call :: "u32 \<Rightarrow> sys \<Rightarrow> (outcome \<times> sys) option" where
  "exit_file_call status s = Some (Exited status, s)"

section \<open>Descriptors\<close>

definition find_fd :: "u32 \<Rightarrow> sys \<Rightarrow> thread_fd option" where
  "find_fd n s = find (\<lambda>w. fd w = n) (fd_map s)"

definition get_file_from_fd :: "u32 \<Rightarrow> sys \<Rightarrow> nat option" where
  "get_file_from_fd n s = (case find_fd n s of None \<Rightarrow> None | Some w \<Rightarrow> fd_file w)"

definition get_dir_from_fd :: "u32 \<Rightarrow> sys \<Rightarrow> dir option" where
  "get_dir_from_fd n s = (case find_fd n s of None \<Rightarrow> None | Some w \<Rightarrow> fd_dir w)"

fun remove_fd :: "u32 \<Rightarrow> thread_fd list \<Rightarrow> thread_fd list" where
  "remove_fd n [] = []"
| "remove_fd n (w # ws) = (if fd w = n then ws else w # remove_fd n ws)"

definition remove_file :: "u32 \<Rightarrow> sys \<Rightarrow> sys" where
  "remove_file n s = s\<lparr>fd_map := remove_fd n (fd_map s)\<rparr>"

section \<open>The calls\<close>

definition sys_create :: "byte list \<Rightarrow> u32 \<Rightarrow> u32 \<Rightarrow> bool \<Rightarrow> sys \<Rightarrow> (outcome \<times> sys) option" where
  "sys_create junk file initial_size isd s = do {
     valid \<leftarrow> is_valid_file file s;
     if \<not> valid then exit_file_call (- 1) s
     else do {
       name \<leftarrow> user_str s file;
       (ok, c, f) \<leftarrow> filesys_create junk name initial_size isd (cwd (proc s)) (fsys (proc s));
       Some (Resume (if ok then 1 else 0), set_cwd c (set_fs f s))
     }
   }"

definition sys_remove :: "byte list \<Rightarrow> u32 \<Rightarrow> sys \<Rightarrow> (outcome \<times> sys) option" where
  "sys_remove junk file s = do {
     name \<leftarrow> user_str s file;
     (ok, c, f) \<leftarrow> filesys_remove junk name (cwd (proc s)) (fsys (proc s));
     Some (Resume (if ok then 1 else 0), set_cwd c (set_fs f s))
   }"

definition new_fd :: "fhandle \<Rightarrow> u32 \<Rightarrow> thread_fd" where
  "new_fd h n = (case h of DirH d \<Rightarrow> \<lparr>fd = n, fd_file = None, fd_dir = Some d\<rparr> | FileH p \<Rightarrow> \<lparr>fd = n, fd_file = Some p, fd_dir = None\<rparr>)"

definition sys_open :: "byte list \<Rightarrow> u32 \<Rightarrow> sys \<Rightarrow> (outcome \<times> sys) option" where
  "sys_open junk file s = do {
     valid \<leftarrow> is_valid_file file s;
     if \<not> valid then exit_file_call (- 1) s
     else do {
       name \<leftarrow> user_str s file;
       (retval, c, f) \<leftarrow> filesys_open junk name (cwd (proc s)) (fsys (proc s));
       let s = set_cwd c (set_fs f s);
       case retval of None \<Rightarrow> Some (Resume (- 1), s)
       | Some h \<Rightarrow> do {
           f \<leftarrow> kalloc_unchecked f;
           let s = set_fs f s;
           let s = s\<lparr>fd_map := new_fd h (fd_count s) # fd_map s, fd_count := fd_count s + 1\<rparr>;
           Some (Resume (fd_count s - 1), s)
         }
     }
   }"

definition sys_filesize :: "u32 \<Rightarrow> sys \<Rightarrow> (outcome \<times> sys) option" where
  "sys_filesize n s = do {
     p \<leftarrow> get_file_from_fd n s;
     (len, f) \<leftarrow> file_length p (fsys (proc s));
     Some (Resume len, set_fs f s)
   }"

definition sys_read :: "u32 \<Rightarrow> u32 \<Rightarrow> u32 \<Rightarrow> sys \<Rightarrow> (outcome \<times> sys) option" where
  "sys_read n buffer sz s = do {
     valid \<leftarrow> is_valid_file buffer s;
     if \<not> valid then exit_file_call (- 1) s
     else case get_file_from_fd n s of
       Some p \<Rightarrow> do {
         (bs, f) \<leftarrow> file_read p sz (fsys (proc s));
         s \<leftarrow> wr_bytes buffer bs (set_fs f s);
         Some (Resume (of_nat (length bs)), s)
       }
     | None \<Rightarrow> Some (Resume (- 1), s)
   }"

definition sys_write :: "u32 \<Rightarrow> u32 \<Rightarrow> u32 \<Rightarrow> sys \<Rightarrow> (outcome \<times> sys) option" where
  "sys_write n buffer sz s = do {
     valid \<leftarrow> is_valid_file buffer s;
     if \<not> valid then exit_file_call (- 1) s
     else case get_file_from_fd n s of
       Some p \<Rightarrow> do {
         (cnt, f) \<leftarrow> file_write p (rd_prefix s buffer (unat sz)) sz (fsys (proc s));
         Some (Resume cnt, set_fs f s)
       }
     | None \<Rightarrow> Some (Resume 0, s)
   }"

definition sys_seek :: "u32 \<Rightarrow> u32 \<Rightarrow> sys \<Rightarrow> sys option" where
  "sys_seek n new_pos s = do {
     p \<leftarrow> get_file_from_fd n s;
     f \<leftarrow> file_seek p new_pos (fsys (proc s));
     Some (set_fs f s)
   }"

definition sys_tell :: "u32 \<Rightarrow> sys \<Rightarrow> (outcome \<times> sys) option" where
  "sys_tell n s = do {
     p \<leftarrow> get_file_from_fd n s;
     pos \<leftarrow> file_tell p (fsys (proc s));
     Some (Resume pos, s)
   }"

definition sys_close :: "u32 \<Rightarrow> sys \<Rightarrow> sys option" where
  "sys_close n s = do {
     f \<leftarrow> file_close (get_file_from_fd n s) (fsys (proc s));
     Some (remove_file n (set_fs f s))
   }"

definition sys_isdir :: "u32 \<Rightarrow> sys \<Rightarrow> bool" where
  "sys_isdir n s = (get_dir_from_fd n s \<noteq> None)"

definition sys_inumber :: "u32 \<Rightarrow> sys \<Rightarrow> (outcome \<times> sys) option" where
  "sys_inumber n s =
    (case get_dir_from_fd n s of
       Some d \<Rightarrow> do { sec \<leftarrow> dir_inumber d (fsys (proc s)); Some (Resume sec, s) }
     | None \<Rightarrow>
         (case get_file_from_fd n s of
            Some p \<Rightarrow> do { sec \<leftarrow> file_inumber p (fsys (proc s)); Some (Resume sec, s) }
          | None \<Rightarrow> Some (Resume (- 1), s)))"

text \<open>\<^verbatim>\<open>printf ("%.*s", size, buffer)\<close>: a negative precision is no limit, and a null pointer prints \<^verbatim>\<open>(null)\<close>.\<close>

definition print_buffer :: "u32 \<Rightarrow> u32 \<Rightarrow> sys \<Rightarrow> sys option" where
  "print_buffer sz buffer s = do {
     let n = (if sz <s 0 then unat (- 1 :: u32) else unat sz);
     cs \<leftarrow> (if buffer = 0 then Some (take n (bytes_of ''(null)'')) else user_strn s buffer n);
     Some (s\<lparr>console := console s @ cs\<rparr>)
   }"

definition set_fd_dir :: "u32 \<Rightarrow> dir \<Rightarrow> thread_fd \<Rightarrow> thread_fd" where
  "set_fd_dir n d w = (if fd w = n then w\<lparr>fd_dir := Some d\<rparr> else w)"

definition sys_readdir :: "u32 \<Rightarrow> u32 \<Rightarrow> sys \<Rightarrow> (outcome \<times> sys) option" where
  "sys_readdir n name s = do {
     d \<leftarrow> get_dir_from_fd n s;
     (r, d, f) \<leftarrow> dir_readdir d (fsys (proc s));
     let s = (set_fs f s)\<lparr>fd_map := map (set_fd_dir n d) (fd_map s)\<rparr>;
     case r of None \<Rightarrow> Some (Resume 0, s)
     | Some str \<Rightarrow> do { s \<leftarrow> wr_bytes name (str @ [0]) s; Some (Resume 1, s) }
   }"

definition sys_chdir :: "u32 \<Rightarrow> sys \<Rightarrow> (outcome \<times> sys) option" where
  "sys_chdir name s = do {
     str \<leftarrow> user_str s name;
     (ok, c, f) \<leftarrow> chdir str (cwd (proc s)) (fsys (proc s));
     Some (Resume (if ok then 1 else 0), set_cwd c (set_fs f s))
   }"

text \<open>The closing of all descriptors when a thread exits.\<close>

fun close_fds :: "thread_fd list \<Rightarrow> fs \<Rightarrow> fs option" where
  "close_fds [] f = Some f"
| "close_fds (w # ws) f = do {
     f \<leftarrow> (if fd_dir w \<noteq> None then dir_close (fd_dir w) f else file_close (fd_file w) f);
     close_fds ws f
   }"

definition destroy_thread_fd :: "sys \<Rightarrow> sys option" where
  "destroy_thread_fd s = do {
     f \<leftarrow> close_fds (fd_map s) (fsys (proc s));
     Some ((set_fs f s)\<lparr>fd_map := []\<rparr>)
   }"

section \<open>Dispatch\<close>

definition SYS_HALT :: u32 where "SYS_HALT = 0"
definition SYS_EXIT :: u32 where "SYS_EXIT = 1"
definition SYS_EXEC :: u32 where "SYS_EXEC = 2"
definition SYS_WAIT :: u32 where "SYS_WAIT = 3"
definition SYS_CREATE :: u32 where "SYS_CREATE = 4"
definition SYS_REMOVE :: u32 where "SYS_REMOVE = 5"
definition SYS_OPEN :: u32 where "SYS_OPEN = 6"
definition SYS_FILESIZE :: u32 where "SYS_FILESIZE = 7"
definition SYS_READ :: u32 where "SYS_READ = 8"
definition SYS_WRITE :: u32 where "SYS_WRITE = 9"
definition SYS_SEEK :: u32 where "SYS_SEEK = 10"
definition SYS_TELL :: u32 where "SYS_TELL = 11"
definition SYS_CLOSE :: u32 where "SYS_CLOSE = 12"
definition SYS_PRACTICE :: u32 where "SYS_PRACTICE = 13"
definition SYS_CHDIR :: u32 where "SYS_CHDIR = 16"
definition SYS_MKDIR :: u32 where "SYS_MKDIR = 17"
definition SYS_READDIR :: u32 where "SYS_READDIR = 18"
definition SYS_ISDIR :: u32 where "SYS_ISDIR = 19"
definition SYS_INUMBER :: u32 where "SYS_INUMBER = 20"

lemmas sys_defs = SYS_HALT_def SYS_EXIT_def SYS_EXEC_def SYS_WAIT_def SYS_CREATE_def SYS_REMOVE_def SYS_OPEN_def SYS_FILESIZE_def
  SYS_READ_def SYS_WRITE_def SYS_SEEK_def SYS_TELL_def SYS_CLOSE_def SYS_PRACTICE_def SYS_CHDIR_def SYS_MKDIR_def SYS_READDIR_def
  SYS_ISDIR_def SYS_INUMBER_def

definition arg :: "sys \<Rightarrow> u32 \<Rightarrow> u32 \<Rightarrow> u32 option" where
  "arg s args i = rd32 s (args + 4 * i)"

definition checked :: "u32 \<Rightarrow> u32 \<Rightarrow> sys \<Rightarrow> (outcome \<times> sys) option \<Rightarrow> (outcome \<times> sys) option" where
  "checked args n s k = do { valid \<leftarrow> is_valid_args args n s; if valid then k else exit_file_call (- 1) s }"

definition write_call :: "u32 \<Rightarrow> u32 \<Rightarrow> sys \<Rightarrow> (outcome \<times> sys) option" where
  "write_call args eax s = do {
     sz \<leftarrow> arg s args 3;
     buffer \<leftarrow> arg s args 2;
     n \<leftarrow> arg s args 1;
     if sys_isdir n s then exit_file_call (- 1) s
     else if n = 1 then do { s \<leftarrow> print_buffer sz buffer s; Some (Resume eax, s) }
     else sys_write n buffer sz s
   }"

definition file_operation_handler :: "byte list \<Rightarrow> u32 \<Rightarrow> u32 \<Rightarrow> sys \<Rightarrow> (outcome \<times> sys) option" where
  "file_operation_handler junk args eax s = do {
     no \<leftarrow> arg s args 0;
     if no = SYS_CREATE then
       checked args 3 s (do { file \<leftarrow> arg s args 1; sz \<leftarrow> arg s args 2; sys_create junk file sz False s })
     else if no = SYS_REMOVE then checked args 2 s (do { file \<leftarrow> arg s args 1; sys_remove junk file s })
     else if no = SYS_OPEN then checked args 2 s (do { file \<leftarrow> arg s args 1; sys_open junk file s })
     else if no = SYS_FILESIZE then checked args 2 s (do { n \<leftarrow> arg s args 1; sys_filesize n s })
     else if no = SYS_READ then
       checked args 4 s (do { sz \<leftarrow> arg s args 3; buffer \<leftarrow> arg s args 2; n \<leftarrow> arg s args 1; sys_read n buffer sz s })
     else if no = SYS_WRITE then checked args 4 s (write_call args eax s)
     else if no = SYS_SEEK then
       checked args 3 s (do { pos \<leftarrow> arg s args 2; n \<leftarrow> arg s args 1; s \<leftarrow> sys_seek n pos s; Some (Resume eax, s) })
     else if no = SYS_TELL then checked args 2 s (do { n \<leftarrow> arg s args 1; sys_tell n s })
     else if no = SYS_CLOSE then
       checked args 2 s (do { n \<leftarrow> arg s args 1; s \<leftarrow> sys_close n s; Some (Resume eax, s) })
     else if no = SYS_CHDIR then checked args 2 s (do { name \<leftarrow> arg s args 1; sys_chdir name s })
     else if no = SYS_MKDIR then checked args 2 s (do { file \<leftarrow> arg s args 1; sys_create junk file 16 True s })
     else if no = SYS_READDIR then
       checked args 3 s (do { n \<leftarrow> arg s args 1; name \<leftarrow> arg s args 2; sys_readdir n name s })
     else if no = SYS_ISDIR then
       checked args 2 s (do { n \<leftarrow> arg s args 1; Some (Resume (if sys_isdir n s then 1 else 0), s) })
     else if no = SYS_INUMBER then checked args 2 s (do { n \<leftarrow> arg s args 1; sys_inumber n s })
     else Some (Resume eax, s)
   }"

definition syscall_handler :: "byte list \<Rightarrow> u32 \<Rightarrow> u32 \<Rightarrow> sys \<Rightarrow> (outcome \<times> sys) option" where
  "syscall_handler junk args eax s = do {
     valid \<leftarrow> is_valid_args args 1 s;
     if \<not> valid then Some (Exited (- 1), s)
     else do {
       no \<leftarrow> arg s args 0;
       if no = SYS_EXIT then do { status \<leftarrow> arg s args 1; Some (Exited status, s) }
       else if no = SYS_PRACTICE then do { i \<leftarrow> arg s args 1; Some (Resume (i + 1), s) }
       else if no = SYS_HALT then Some (PowerOff, s)
       else if no = SYS_EXEC then
         checked args 2 s (do {
           file \<leftarrow> arg s args 1;
           ok \<leftarrow> is_valid_file file s;
           if \<not> ok then Some (Exited (- 1), s)
           else do { command \<leftarrow> user_str s file; Some (Execute command, s) }
         })
       else if no = SYS_WAIT then checked args 2 s (do { t \<leftarrow> arg s args 1; Some (WaitFor t, s) })
       else file_operation_handler junk args eax s
     }
   }"

section \<open>Descriptors in use\<close>

definition fds :: "sys \<Rightarrow> u32 set" where
  "fds s = fd ` set (fd_map s)"

text \<open>No two descriptors of a process are the same, those of the console are never used for files, all numbers were given out
  before, and each one stands for either a file or a directory.\<close>

definition fds_ok :: "sys \<Rightarrow> bool" where
  "fds_ok s \<longleftrightarrow> distinct (map fd (fd_map s)) \<and>
     (\<forall>w\<in>set (fd_map s). 2 \<le> fd w \<and> fd w < fd_count s \<and> (fd_file w = None \<longleftrightarrow> fd_dir w \<noteq> None))"

lemma set_remove_fd: "distinct (map fd ws) \<Longrightarrow> set (remove_fd n ws) = {w \<in> set ws. fd w \<noteq> n} \<and> distinct (map fd (remove_fd n ws))"
  by (induction ws) (auto, metis image_eqI)

text \<open>Most calls leave the table alone.\<close>

definition same_fds :: "sys \<Rightarrow> sys \<Rightarrow> bool" where
  "same_fds s s' \<longleftrightarrow> fd_map s' = fd_map s \<and> fd_count s' = fd_count s"

lemma same_fds_simps [simp]:
  "same_fds s s" "same_fds s (set_fs f s)" "same_fds s (set_cwd c s')  = same_fds s s'" "same_fds s (set_fs f s') = same_fds s s'"
  "same_fds (set_fs f s) s' = same_fds s s'" "same_fds s (s'\<lparr>console := cs\<rparr>) = same_fds s s'" "fd_map (set_fs f s) = fd_map s" "fd_count (set_fs f s) = fd_count s"
  "fd_map (set_cwd c s) = fd_map s" "fd_count (set_cwd c s) = fd_count s"
  by (simp_all add: same_fds_def set_fs_def set_cwd_def)

lemma same_fds_trans: "same_fds s s' \<Longrightarrow> same_fds s' s'' \<Longrightarrow> same_fds s s''"
  by (simp add: same_fds_def)

lemma wr_bytes_same: "wr_bytes a bs s = Some s' \<Longrightarrow> same_fds s s'"
  by (induction bs arbitrary: a s) (auto simp: wr8_def bind_eq_Some_conv same_fds_def)

lemma same_ok: "same_fds s s' \<Longrightarrow> fds_ok s \<Longrightarrow> fds_ok s' \<and> fds s' = fds s"
  by (simp add: same_fds_def fds_ok_def fds_def)

lemma new_fd_simps [simp]: "fd (new_fd h n) = n" "fd_file (new_fd h n) = None \<longleftrightarrow> fd_dir (new_fd h n) \<noteq> None"
  by (simp_all add: new_fd_def split: fhandle.split)

lemma set_fd_dir_simps [simp]: "fd (set_fd_dir n d w) = fd w" "fd_file (set_fd_dir n d w) = fd_file w"
  "fd_dir (set_fd_dir n d w) = (if fd w = n then Some d else fd_dir w)" "fd \<circ> set_fd_dir n d = fd"
  by (simp_all add: set_fd_dir_def fun_eq_iff)

lemma open_cases:
  assumes "sys_open junk file s = Some (out, s')"
  obtains "same_fds s s'" | h where "fd_map s' = new_fd h (fd_count s) # fd_map s" "fd_count s' = fd_count s + 1" "out = Resume (fd_count s)"
proof -
  obtain v where v: "is_valid_file file s = Some v" using assms by (auto simp: sys_open_def bind_eq_Some_conv)
  show thesis
  proof (cases v)
    case False
    then show thesis using that(1) assms v by (simp add: sys_open_def exit_file_call_def)
  next
    case True
    then obtain name r c f where "filesys_open junk name (cwd (proc s)) (fsys (proc s)) = Some (r, c, f)" "user_str s file = Some name"
      using assms v by (auto simp: sys_open_def bind_eq_Some_conv)
    then show thesis using assms v True that
      by (cases r) (auto simp: sys_open_def bind_eq_Some_conv Let_def)
  qed
qed

lemma open_fds:
  assumes "sys_open junk file s = Some (out, s')" "fds_ok s" "2 \<le> fd_count s" "fd_count s \<noteq> - 1"
  shows "fds_ok s' \<and> (fds s' = fds s \<or> out = Resume (fd_count s) \<and> fd_count s \<notin> fds s \<and> fds s' = insert (fd_count s) (fds s))"
proof (rule open_cases [OF assms(1)])
  assume "same_fds s s'" then show ?thesis using same_ok assms(2) by blast
next
  fix h
  assume w: "fd_map s' = new_fd h (fd_count s) # fd_map s" "fd_count s' = fd_count s + 1" "out = Resume (fd_count s)"
  have "unat (fd_count s) \<noteq> 2 ^ 32 - 1" using assms(4) unsigned_minus_1_eq_mask [where ?'a = nat and ?'b = 32] by (simp add: word_unat_eq_iff mask_eq_exp_minus_1)
  then have "unat (fd_count s) + 1 < 2 ^ 32" using unsigned_less [where ?'a = nat, of "fd_count s"] by simp
  then have "fd_count s < fd_count s + 1" by (simp add: word_less_nat_alt unat_word_ariths)
  then have less: "x < fd_count s \<Longrightarrow> x < fd_count s + 1" for x by simp
  have new: "fd_count s \<notin> fds s" using assms(2) by (auto simp: fds_ok_def fds_def)
  have "fds_ok s'" unfolding fds_ok_def w
    using assms(2,3) new less \<open>fd_count s < fd_count s + 1\<close> by (simp add: fds_ok_def fds_def)
  then show ?thesis using w new by (simp add: fds_def)
qed

lemma close_fds_ok:
  assumes "sys_close n s = Some s'" "fds_ok s" shows "fds_ok s' \<and> fds s' = fds s - {n}"
proof -
  have "fd_map s' = remove_fd n (fd_map s)" "fd_count s' = fd_count s" using assms(1) by (auto simp: sys_close_def remove_file_def bind_eq_Some_conv)
  then show ?thesis using assms(2) set_remove_fd [of "fd_map s" n] by (auto simp: fds_ok_def fds_def)
qed

lemma find_fd_mem: "find_fd n s = Some w \<Longrightarrow> w \<in> set (fd_map s) \<and> fd w = n"
  by (auto simp: find_fd_def find_Some_iff)

lemma readdir_fds:
  assumes "sys_readdir n name s = Some (out, s')" "fds_ok s" shows "fds_ok s' \<and> fds s' = fds s"
proof -
  obtain d r d' f where d: "get_dir_from_fd n s = Some d" "dir_readdir d (fsys (proc s)) = Some (r, d', f)"
    using assms(1) by (auto simp: sys_readdir_def bind_eq_Some_conv)
  define t where "t = (set_fs f s)\<lparr>fd_map := map (set_fd_dir n d') (fd_map s)\<rparr>"
  have "(case r of None \<Rightarrow> Some (Resume 0, t) | Some str \<Rightarrow> do { s \<leftarrow> wr_bytes name (str @ [0]) t; Some (Resume 1, s) }) = Some (out, s')"
    unfolding t_def using assms(1) d by (simp add: sys_readdir_def Let_def)
  then have "same_fds t s'" by (cases r) (auto simp: bind_eq_Some_conv dest!: wr_bytes_same)
  then have m: "fd_map s' = map (set_fd_dir n d') (fd_map s)" "fd_count s' = fd_count s" by (simp_all add: same_fds_def t_def)
  obtain w where w: "w \<in> set (fd_map s)" "fd w = n" "fd_dir w = Some d"
    using d(1) find_fd_mem by (auto simp: get_dir_from_fd_def split: option.splits)
  have dis: "distinct (map fd (fd_map s))" using assms(2) by (simp add: fds_ok_def)
  have "v = w" if "v \<in> set (fd_map s)" "fd v = n" for v
    using that w(1,2) dis by (auto simp: distinct_map intro: inj_onD)
  moreover have "fd_file w = None" using assms(2) w by (simp add: fds_ok_def)
  ultimately have "\<forall>v\<in>set (fd_map s). fd v = n \<longrightarrow> fd_file v = None" by blast
  then have "\<forall>w\<in>set (fd_map s'). 2 \<le> fd w \<and> fd w < fd_count s' \<and> (fd_file w = None \<longleftrightarrow> fd_dir w \<noteq> None)"
    using assms(2) unfolding m set_map by (auto simp: fds_ok_def)
  moreover have e: "map fd (fd_map s') = map fd (fd_map s)" by (simp add: m)
  ultimately show ?thesis using dis unfolding fds_ok_def fds_def set_map [symmetric] e by simp
qed

text \<open>The other calls keep the table.\<close>

definition keeps_fds :: "(outcome \<times> sys) option \<Rightarrow> sys \<Rightarrow> bool" where
  "keeps_fds r s \<longleftrightarrow> (\<forall>out s'. r = Some (out, s') \<longrightarrow> same_fds s s')"

lemma keeps_simps:
  "keeps_fds None s" "keeps_fds (Some (out, s')) s \<longleftrightarrow> same_fds s s'" "keeps_fds (exit_file_call n s) s"
  "keeps_fds (if b then r else r') s \<longleftrightarrow> (if b then keeps_fds r s else keeps_fds r' s)"
  by (auto simp: keeps_fds_def exit_file_call_def)

lemma keeps_bind: "(\<And>x. m = Some x \<Longrightarrow> keeps_fds (k x) s) \<Longrightarrow> keeps_fds (m \<bind> k) s"
  by (cases m) (auto simp: keeps_simps)

lemmas keeps_rules = keeps_bind keeps_simps

lemma keeps_calls:
  "keeps_fds (sys_create junk file n b s) s" "keeps_fds (sys_remove junk file s) s" "keeps_fds (sys_filesize n s) s"
  "keeps_fds (sys_read n buf sz s) s" "keeps_fds (sys_write n buf sz s) s" "keeps_fds (sys_tell n s) s" "keeps_fds (sys_chdir file s) s"
  "keeps_fds (sys_inumber n s) s"
proof -
  show "keeps_fds (sys_create junk file n b s) s" "keeps_fds (sys_remove junk file s) s" "keeps_fds (sys_filesize n s) s"
    "keeps_fds (sys_tell n s) s" "keeps_fds (sys_chdir file s) s"
    unfolding sys_create_def sys_remove_def sys_filesize_def sys_tell_def sys_chdir_def
    by (auto simp: keeps_simps intro!: keeps_bind)
  show "keeps_fds (sys_inumber n s) s"
    unfolding sys_inumber_def by (auto simp: keeps_simps split: option.split intro!: keeps_bind)
  show "keeps_fds (sys_read n buf sz s) s" "keeps_fds (sys_write n buf sz s) s"
    unfolding sys_read_def sys_write_def
    by (auto simp: keeps_simps split: option.split intro!: keeps_bind dest!: wr_bytes_same)
qed

lemma keeps_write_call: "keeps_fds (write_call args eax s) s"
  unfolding write_call_def print_buffer_def
  by (auto simp: keeps_simps keeps_calls Let_def intro!: keeps_bind)

text \<open>What a call may do to the table.\<close>

definition fd_change :: "(outcome \<times> sys) option \<Rightarrow> sys \<Rightarrow> bool" where
  "fd_change r s \<longleftrightarrow> (\<forall>out s'. r = Some (out, s') \<longrightarrow> fds_ok s' \<and>
     (fds s' = fds s \<or> out = Resume (fd_count s) \<and> fd_count s \<notin> fds s \<and> fds s' = insert (fd_count s) (fds s) \<or>
      (\<exists>n. fds s' = fds s - {n})))"

lemma fd_change_keeps: "fds_ok s \<Longrightarrow> keeps_fds r s \<Longrightarrow> fd_change r s"
  unfolding fd_change_def keeps_fds_def using same_ok by blast

lemma fd_change_bind: "(\<And>x. m = Some x \<Longrightarrow> fd_change (k x) s) \<Longrightarrow> fd_change (m \<bind> k) s"
  by (cases m) (auto simp: fd_change_def)

lemma fd_change_if: "(b \<Longrightarrow> fd_change r s) \<Longrightarrow> (\<not> b \<Longrightarrow> fd_change r' s) \<Longrightarrow> fd_change (if b then r else r') s"
  by simp

lemma fd_change_checked: "fds_ok s \<Longrightarrow> fd_change k s \<Longrightarrow> fd_change (checked args n s k) s"
  unfolding checked_def by (rule fd_change_bind) (auto intro: fd_change_keeps simp: keeps_simps)

lemma fd_change_calls:
  assumes "fds_ok s" "2 \<le> fd_count s" "fd_count s \<noteq> - 1"
  shows "fd_change (sys_open junk file s) s" "fd_change (sys_readdir n name s) s"
    "sys_close n s = Some s' \<Longrightarrow> fd_change (Some (Resume eax, s')) s" "sys_seek n pos s = Some s' \<Longrightarrow> fd_change (Some (Resume eax, s')) s"
proof -
  show "fd_change (sys_open junk file s) s" unfolding fd_change_def using open_fds [OF _ assms] by blast
  show "fd_change (Some (Resume eax, s')) s" if "sys_close n s = Some s'"
    using close_fds_ok [OF that assms(1)] by (auto simp: fd_change_def)
  show "fd_change (sys_readdir n name s) s" unfolding fd_change_def using readdir_fds [OF _ assms(1)] by blast
  show "fd_change (Some (Resume eax, s')) s" if "sys_seek n pos s = Some s'"
    by (rule fd_change_keeps [OF assms(1)]) (use that in \<open>auto simp: keeps_simps sys_seek_def bind_eq_Some_conv\<close>)
qed

text \<open>The call changes no memory except what the process can write itself.\<close>

definition writes_own_memory :: "sys \<Rightarrow> sys \<Rightarrow> bool" where
  "writes_own_memory s s' \<longleftrightarrow> (\<forall>k. bytes (ram (proc s')) k \<noteq> bytes (ram (proc s)) k \<longrightarrow>
     (\<exists>a. is_user_vaddr a \<and> translate s a = Some (k, True)))"

text \<open>C23: The descriptors of a process stay well-formed. Take a system call that returns, that writes no memory but that of the process
  (\<^verbatim>\<open>read\<close> and \<^verbatim>\<open>readdir\<close> do not check all of their buffer, and with one that reaches into the kernel they can
  overwrite the table itself), during which no other process opens a file, and before which the counter of
  descriptor numbers, which all processes share and which no lock protects, has not reached \<open>2 ^ 32 - 1\<close>. Afterwards no two descriptors
  of the process have the same number, numbers 0 and 1 are not given to a file, and every descriptor stands
  for exactly one file or directory. The call leaves the set of open descriptors alone, or adds one number that was not
  in use and returns it, or removes at most one.\<close>
theorem descriptors_well_formed:
  assumes "fds_ok s" "2 \<le> fd_count s" "fd_count s \<noteq> - 1" "syscall_handler junk args eax s = Some (out, s')"
    and "exec_ok pd live extra (proc s)" "writes_own_memory s s'"
  shows "fds_ok s' \<and> (fds s' = fds s \<or> out = Resume (fd_count s) \<and> fd_count s \<notin> fds s \<and> fds s' = insert (fd_count s) (fds s) \<or>
     (\<exists>n. fds s' = fds s - {n}))"
proof -
  note k = fd_change_keeps [OF assms(1)]
  note c = fd_change_calls [OF assms(1-3)]
  have fin: "fd_change (Some (out, s)) s" for out by (rule k) (simp add: keeps_simps)
  note rules = fd_change_bind fd_change_if fd_change_checked [OF assms(1)]
  have f: "fd_change (file_operation_handler junk args eax s) s"
    unfolding file_operation_handler_def
    by (intro rules c(1,2) keeps_calls [THEN k] keeps_write_call [THEN k]; (erule c(3) | erule c(4) | rule fin))
  have "fd_change (syscall_handler junk args eax s) s"
    unfolding syscall_handler_def by (intro rules f; rule fin)
  then show ?thesis using assms(4) by (simp add: fd_change_def)
qed

section \<open>Reading a file\<close>

lemma translate_user:
  "exec_ok pd live extra (proc s) \<Longrightarrow> is_user_vaddr a \<Longrightarrow> translate s a =
     map_option (\<lambda>p. (p + pg_ofs a, pte_of pd (words (ptabs (proc s))) a AND PTE_W \<noteq> 0)) (frame_of pd (words (ptabs (proc s))) a)"
  using exec_okD(1) [of pd live extra "proc s"] by (cases "frame_of pd (words (ptabs (proc s))) a") (simp_all add: translate_def)

lemma rd8_user: "exec_ok pd live extra (proc s) \<Longrightarrow> is_user_vaddr a \<Longrightarrow> rd8 s a = map_option fst (user_byte (proc s) a)"
  using exec_okD(1) [of pd live extra "proc s"]
  by (cases "frame_of pd (words (ptabs (proc s))) a") (simp_all add: rd8_def translate_user user_byte_def)

lemma translate_inj:
  assumes ok: "exec_ok pd live extra (proc s)" and u: "is_user_vaddr a" "is_user_vaddr b"
    and t: "translate s a = Some (k, w)" "translate s b = Some (k, w')"
  shows "a = b"
proof -
  obtain p q where p: "frame_of pd (words (ptabs (proc s))) a = Some p" "k = p + pg_ofs a"
      and q: "frame_of pd (words (ptabs (proc s))) b = Some q" "k = q + pg_ofs b"
    using t translate_user [OF ok u(1)] translate_user [OF ok u(2)] by auto
  note f = frames_okD [OF exec_okD(7) [OF ok]]
  have al: "pg_ofs p = 0" "pg_ofs q = 0" using f(2) p q u by blast+
  have fr: "unat p div 4096 = unat q div 4096" "unat a mod 4096 = unat b mod 4096"
    using frame_offset [OF al(1), of a] frame_offset [OF al(2), of b] p(2) q(2) by auto
  then have "p = q" using aligned_eq [OF al] by (simp add: word_unat_eq_iff unat_pg_no)
  then have "pg_no a = pg_no b" using f(4) u p(1) q(1) by blast
  then have "unat a div 4096 = unat b div 4096" by (simp add: word_unat_eq_iff unat_pg_no)
  then show ?thesis using fr(2) by (metis div_mult_mod_eq word_unat_eq_iff)
qed

lemma wr8_user:
  assumes ok: "exec_ok pd live extra (proc s)" and u: "is_user_vaddr a" "translate s a = Some (k, True)"
  shows "\<exists>s'. wr8 a v s = Some s' \<and> exec_ok pd live extra (proc s') \<and> translate s' = translate s \<and> fsys (proc s') = fsys (proc s) \<and>
    (\<forall>b. is_user_vaddr b \<longrightarrow> rd8 s' b = (if b = a then Some v else rd8 s b))"
proof -
  let ?s = "s\<lparr>proc := set_bytes ((bytes (ram (proc s)))(k := v)) (proc s)\<rparr>"
  have tr: "translate ?s = translate s" by (simp add: translate_def set_bytes_def fun_eq_iff)
  have "rd8 ?s b = (if b = a then Some v else rd8 s b)" if "is_user_vaddr b" for b
    unfolding rd8_def tr using translate_inj [OF ok u(1) that u(2)] u(2)
    by (cases "translate s b") (auto simp: set_bytes_def)
  moreover have "wr8 a v s = Some ?s" using u(2) by (simp add: wr8_def)
  ultimately show ?thesis using ok tr by (intro exI [of _ ?s]) (simp add: set_bytes_def exec_ok_def)
qed

lemma wr_bytes_user:
  assumes "exec_ok pd live extra (proc s)" "length bs < 2 ^ 32"
    and "\<And>i. i < length bs \<Longrightarrow> is_user_vaddr (a + of_nat i) \<and> (\<exists>k. translate s (a + of_nat i) = Some (k, True))"
  shows "\<exists>s'. wr_bytes a bs s = Some s' \<and> exec_ok pd live extra (proc s') \<and> fsys (proc s') = fsys (proc s) \<and>
    (\<forall>b. is_user_vaddr b \<longrightarrow> rd8 s' b = (if unat (b - a) < length bs then Some (bs ! unat (b - a)) else rd8 s b))"
  using assms
proof (induction bs arbitrary: a s)
  case (Cons v bs)
  obtain k where u: "is_user_vaddr a" "translate s a = Some (k, True)" using Cons.prems(3) [of 0] by auto
  obtain s1 where s1: "wr8 a v s = Some s1" "exec_ok pd live extra (proc s1)" "translate s1 = translate s" "fsys (proc s1) = fsys (proc s)"
      "\<And>b. is_user_vaddr b \<Longrightarrow> rd8 s1 b = (if b = a then Some v else rd8 s b)"
    using wr8_user [OF Cons.prems(1) u] by blast
  have "is_user_vaddr (a + 1 + of_nat i) \<and> (\<exists>k. translate s1 (a + 1 + of_nat i) = Some (k, True))" if "i < length bs" for i
    using Cons.prems(3) [of "Suc i"] that s1(3) by (simp add: add.assoc)
  then obtain s' where s': "wr_bytes (a + 1) bs s1 = Some s'" "exec_ok pd live extra (proc s')" "fsys (proc s') = fsys (proc s1)"
      "\<And>b. is_user_vaddr b \<Longrightarrow> rd8 s' b = (if unat (b - (a + 1)) < length bs then Some (bs ! unat (b - (a + 1))) else rd8 s1 b)"
    using Cons.IH [OF s1(2)] Cons.prems(2) by force
  have "rd8 s' b = (if unat (b - a) < length (v # bs) then Some ((v # bs) ! unat (b - a)) else rd8 s b)" if "is_user_vaddr b" for b
  proof (cases "b = a")
    case True
    have "unat (b - (a + 1)) = 2 ^ 32 - 1" using True unsigned_minus_1_eq_mask [where ?'a = nat and ?'b = 32] by (simp add: mask_eq_exp_minus_1)
    then have "\<not> unat (b - (a + 1)) < length bs" using Cons.prems(2) by simp
    then show ?thesis using s'(4) [OF that] s1(5) [OF that] True by simp
  next
    case False
    then have "b - a \<noteq> 0" by simp
    then have "unat (b - a) = Suc (unat (b - (a + 1)))"
      by (metis Suc_pred' diff_diff_add unat_gt_0 unat_minus_one word_neq_0_conv)
    then show ?thesis using s'(4) [OF that] s1(5) [OF that] False by simp
  qed
  then show ?case using s1(1,4) s'(1,2,3) by auto
qed auto

text \<open>C24: The read system call. In a well-formed address space, when the arguments are mapped, the descriptor is an open file, the file position plus the
  requested number is less than \<open>2 ^ 31\<close>, the byte 4 after the start of the buffer is mapped too (the kernel checks that address and the
  start), and the buffer lies in writable pages of the process, the call returns the number of bytes
  between the file position and the end of the file or the requested number, whichever is less, puts exactly those bytes of the
  file into the buffer, changes no other byte that the process can see, and advances the file position by that number.\<close>
theorem read_call_correct:
  assumes "exec_ok pd live extra (proc s)" "is_valid_args args 1 s = Some True" "is_valid_args args 4 s = Some True"
    and "arg s args 0 = Some SYS_READ" "arg s args 1 = Some n" "arg s args 2 = Some buffer" "arg s args 3 = Some sz"
    and "is_valid_file buffer s = Some True" "get_file_from_fd n s = Some p" "open_at p fb pos (fsys (proc s))" "pos + unat sz < 2 ^ 31"
    and "\<And>i. i < unat sz \<Longrightarrow> is_user_vaddr (buffer + of_nat i) \<and> (\<exists>k. translate s (buffer + of_nat i) = Some (k, True))"
  defines "bs \<equiv> take (unat sz) (drop pos fb)"
  shows "\<exists>s'. syscall_handler junk args eax s = Some (Resume (of_nat (length bs)), s') \<and> open_at p fb (pos + length bs) (fsys (proc s')) \<and>
    (\<forall>b. is_user_vaddr b \<longrightarrow> rd8 s' b = (if unat (b - buffer) < length bs then Some (bs ! unat (b - buffer)) else rd8 s b))"
proof -
  have bs: "slice pos (unat sz) fb = bs" by (simp add: bs_def slice_def)
  have len: "length bs \<le> unat sz" by (simp add: bs_def)
  obtain f where f: "file_read p sz (fsys (proc s)) = Some (bs, f)" "open_at p fb (pos + length bs) f"
    using file_read_open [OF assms(10,11)] unfolding bs by blast
  have "exec_ok pd live extra (proc (set_fs f s))" using assms(1) by (simp add: set_fs_def)
  moreover have "translate (set_fs f s) = translate s" by (simp add: translate_def set_fs_def fun_eq_iff)
  ultimately obtain s' where s': "wr_bytes buffer bs (set_fs f s) = Some s'" "fsys (proc s') = fsys (proc (set_fs f s))"
      "\<And>b. is_user_vaddr b \<Longrightarrow> rd8 s' b = (if unat (b - buffer) < length bs then Some (bs ! unat (b - buffer)) else rd8 (set_fs f s) b)"
    using wr_bytes_user [of pd live extra "set_fs f s" bs buffer] assms(12) len unsigned_less [where ?'a = nat, of sz] by auto
  have rd: "rd8 (set_fs f s) = rd8 s" by (simp add: rd8_def translate_def set_fs_def fun_eq_iff)
  have "sys_read n buffer sz s = Some (Resume (of_nat (length bs)), s')"
    using assms(8,9) f(1) s'(1) by (simp add: sys_read_def)
  then have "file_operation_handler junk args eax s = Some (Resume (of_nat (length bs)), s')"
    using assms(3-7) by (simp add: file_operation_handler_def checked_def) (simp add: sys_defs)
  then have "syscall_handler junk args eax s = Some (Resume (of_nat (length bs)), s')"
    using assms(2,4) by (simp add: syscall_handler_def) (simp add: sys_defs)
  then show ?thesis using s'(2,3) f(2) rd by (auto simp: set_fs_def)
qed

text \<open>A process with one page at \<^verbatim>\<open>0x08048000\<close>, whose first words are the arguments of a call, and descriptor 2 for
  the file of 88 bytes.\<close>

definition demo_call :: "byte list \<Rightarrow> exec_state" where
  "demo_call ws = demo_exec\<lparr>ram := demo_pages\<lparr>user_pool := \<lparr>used_map = \<lparr>bit_cnt = 8, bits = [1]\<rparr>, base = 0xc0200000\<rparr>,
     bytes := put_bytes 0xc0200000 ws (\<lambda>_. 0)\<rparr>\<rparr>"

definition demo_sys :: "exec_state \<Rightarrow> sys" where
  "demo_sys e = \<lparr>proc = e, fd_map = [\<lparr>fd = 2, fd_file = Some 7, fd_dir = None\<rparr>], fd_count = 3, console = [], ktext = (\<lambda>_. False)\<rparr>"

lemma demo_call_ok: "exec_ok 0xc0100000 [(0xc0100000, 1)] [(0xc0200000, 1)] (demo_call ws)" "user_byte (demo_call ws) va = None"
proof -
  let ?r = "ram (demo_call ws)"
  have k: "used_pages (kernel_pool ?r) = {0xc0100}"
    by (auto simp: used_pages_def demo_call_def demo_pages_def first_page_def bitmap_abs_def bitmap_bit_def bit_1_iff)
  have u: "used_pages (user_pool ?r) = {0xc0200}"
    by (auto simp: used_pages_def demo_call_def demo_pages_def first_page_def bitmap_abs_def bitmap_bit_def bit_1_iff)
  have "pools_ok ?r"
    by (simp add: pools_ok_def pool_ok_def demo_call_def demo_pages_def first_page_def pool_pages_def bitmap_inv_def elem_cnt_def DIV_ROUND_UP_def
        ELEM_BITS_def SIZE_MAX_def addr_defs)
  moreover have "block_ok ?r (0xc0100000, 1)"
    by (auto simp: block_ok_def demo_call_def demo_pages_def pool_pages_def pool_of_def first_page_def addr_defs intro!: exI [of _ False])
  moreover have "block_ok ?r (0xc0200000, 1)"
    by (auto simp: block_ok_def demo_call_def demo_pages_def pool_pages_def pool_of_def first_page_def addr_defs intro!: exI [of _ True])
  ultimately have "holds ?r ([(0xc0200000, 1)] @ [(0xc0100000, 1)])" using k u by (auto simp: holds_def)
  moreover have "pool_pages (pool_of u ?r) \<subseteq> {0xc0000..<0xc0000 + 1024}" for u
    by (auto simp: pool_of_def demo_call_def demo_pages_def pool_pages_def first_page_def)
  ultimately show "exec_ok 0xc0100000 [(0xc0100000, 1)] [(0xc0200000, 1)] (demo_call ws)" "user_byte (demo_call ws) va = None"
    by (simp_all add: exec_ok_def demo_call_def demo_exec_def pd_ok_def table_at_def frames_ok_def frame_of_def pte_of_def user_byte_def addr_defs)
qed

lemma demo_page:
  assumes "i < 4096"
  shows "is_user_vaddr (0x08048000 + of_nat i)" "pg_no (0x08048000 + of_nat i) = pg_no 0x08048000" "unat (pg_ofs (0x08048000 + of_nat i)) = i"
    "0xc0200000 + pg_ofs (0x08048000 + of_nat i) - 0xc0200000 = pg_ofs (0x08048000 + of_nat i)"
proof -
  have u: "unat (0x08048000 + of_nat i :: u32) = 0x08048000 + i" using assms by (simp add: unat_word_ariths unat_of_nat)
  have e: "0x08048000 + i = i + 0x8048 * 4096" by simp
  have "(0x08048000 + i) div 4096 = 0x8048 + i div 4096" "(0x08048000 + i) mod 4096 = i mod 4096"
    unfolding e by (rule div_mult_self1, simp) (rule mod_mult_self1)
  then have d: "(0x08048000 + i) div 4096 = 0x8048" "(0x08048000 + i) mod 4096 = i" using assms by simp_all
  show "is_user_vaddr (0x08048000 + of_nat i)" using assms u by (simp add: is_user_vaddr_def PHYS_BASE_def word_less_nat_alt)
  show "pg_no (0x08048000 + of_nat i) = pg_no 0x08048000" by (rule unsigned_word_eqI [where ?'a = nat]) (simp only: unat_pg_no u d, simp)
  show "unat (pg_ofs (0x08048000 + of_nat i)) = i" by (simp only: unat_pg_ofs u d)
qed simp

definition demo_ready :: "byte list \<Rightarrow> exec_state \<Rightarrow> page_block list \<Rightarrow> bool" where
  "demo_ready ws e live \<longleftrightarrow> install_page 0x08048000 0xc0200000 True (demo_call ws) = Some (True, e) \<and> exec_ok 0xc0100000 live [] e \<and>
    user_byte e 0x08049000 = None \<and> fsys e = fsys demo_exec \<and>
    (\<forall>i. i < length ws \<longrightarrow> i < 4096 \<longrightarrow> user_byte e (0x08048000 + of_nat i) = Some (ws ! i, True)) \<and>
    (\<forall>i < 4096. \<exists>k. translate (demo_sys e) (0x08048000 + of_nat i) = Some (k, True))"

lemma demo_mapped: "\<exists>e live. demo_ready ws e live"
proof -
  have k: "is_kernel_vaddr 0xc0200000" "unat (0xc0200000 :: u32) div 4096 \<in> pool_pages (pool_of True (ram (demo_call ws)))" "pg_ofs 0xc0200000 = 0"
      "pg_ofs 0x08048000 = 0" "is_user_vaddr 0x08048000"
    by (simp_all add: addr_defs demo_call_def pool_of_def pool_pages_def first_page_def)
  show ?thesis
  proof (rule install_page_spec [OF demo_call_ok(1) k, of True])
    assume "user_byte (demo_call ws) 0x08048000 \<noteq> None" then show ?thesis by (simp add: demo_call_ok)
  next
    assume "pool_pages (pool_of False (ram (demo_call ws))) \<subseteq> inuse [(0xc0100000, 1)]"
    moreover have "0xc0101 \<in> pool_pages (pool_of False (ram (demo_call ws)))"
      by (simp add: demo_call_def demo_pages_def pool_of_def pool_pages_def first_page_def)
    ultimately show ?thesis by auto
  next
    fix e live
    assume e: "install_page 0x08048000 0xc0200000 True (demo_call ws) = Some (True, e)" "exec_ok 0xc0100000 live [] e" "fsys e = fsys (demo_call ws)"
      "\<And>va. user_byte e va = (if is_user_vaddr va \<and> pg_no va = pg_no 0x08048000
         then Some (bytes (ram (demo_call ws)) (0xc0200000 + pg_ofs va), True) else user_byte (demo_call ws) va)"
    have b: "user_byte e (0x08048000 + of_nat i) = Some (if i < length ws then ws ! i else 0, True)" if "i < 4096" for i
      using e(4) [of "0x08048000 + of_nat i"] demo_page [OF that] by (simp add: demo_call_def put_bytes_def)
    have ok: "exec_ok 0xc0100000 live [] (proc (demo_sys e))" using e(2) by (simp add: demo_sys_def)
    have "\<exists>k. translate (demo_sys e) (0x08048000 + of_nat i) = Some (k, True)" if "i < 4096" for i
      using b [OF that] translate_user [OF ok demo_page(1) [OF that]] exec_okD(1) [OF e(2)] demo_page(1) [OF that]
      by (auto simp: user_byte_def demo_sys_def)
    moreover have "pg_no 0x08049000 \<noteq> pg_no 0x08048000" by (simp add: pg_no_def PGBITS_def)
    then have "user_byte e 0x08049000 = None" using e(4) [of "0x08049000"] demo_call_ok(2) by auto
    ultimately show ?thesis using e(1-3) b unfolding demo_ready_def by (intro exI [of _ e] exI [of _ live]) (simp add: demo_call_def)
  qed
qed

lemma valid_args_mapped:
  assumes "exec_ok pd live extra (proc s)" "is_user_vaddr args" "is_user_vaddr (args + 4 * n)" "translate s args \<noteq> None" "translate s (args + 4 * n) \<noteq> None"
  shows "is_valid_args args n s = Some True"
  using assms translate_user [OF assms(1,2)] translate_user [OF assms(1,3)] exec_okD(1,2) [OF assms(1)]
  by (auto simp: is_valid_args_def get_page_frame)

lemma demo_args:
  assumes "exec_ok 0xc0100000 live [] e" "\<And>i. i < length ws \<Longrightarrow> i < 4096 \<Longrightarrow> user_byte e (0x08048000 + of_nat i) = Some (ws ! i, True)"
    and "length ws \<le> 4096" "4 * i + 4 \<le> length ws"
  shows "arg (demo_sys e) 0x08048000 (of_nat i) = Some (of_le32 (slice (4 * i) 4 ws))"
proof -
  have ok: "exec_ok 0xc0100000 live [] (proc (demo_sys e))" using assms(1) by (simp add: demo_sys_def)
  have r: "rd8 (demo_sys e) (0x08048000 + of_nat j) = Some (ws ! j)" if "j < length ws" for j
    using rd8_user [OF ok demo_page(1) [of j]] assms(2) [of j] that assms(3) by (simp add: demo_sys_def)
  have s: "slice (4 * i) 4 ws = [ws ! (4 * i), ws ! (4 * i + 1), ws ! (4 * i + 2), ws ! (4 * i + 3)]"
    by (rule nth_equalityI) (use assms(4) in \<open>auto simp: slice_def less_Suc_eq numeral_eq_Suc\<close>)
  show ?thesis
    using r [of "4 * i"] r [of "4 * i + 1"] r [of "4 * i + 2"] r [of "4 * i + 3"] assms(4)
    by (simp add: arg_def rd32_def s add.assoc)
qed

lemma demo_valid:
  assumes "exec_ok 0xc0100000 live [] e" "\<And>i. i < 4096 \<Longrightarrow> \<exists>k. translate (demo_sys e) (0x08048000 + of_nat i) = Some (k, True)" "i + 4 * j < 4096"
  shows "is_valid_args (0x08048000 + of_nat i) (of_nat j) (demo_sys e) = Some True"
proof -
  have ok: "exec_ok 0xc0100000 live [] (proc (demo_sys e))" using assms(1) by (simp add: demo_sys_def)
  have "0x08048000 + of_nat i + 4 * of_nat j = (0x08048000 + of_nat (i + 4 * j) :: u32)" by simp
  then show ?thesis
    using valid_args_mapped [OF ok, of "0x08048000 + of_nat i" "of_nat j"] assms(2) [of i] assms(2) [of "i + 4 * j"] assms(3)
      demo_page(1) [of i] demo_page(1) [of "i + 4 * j"] by (auto simp: add.assoc)
qed

text \<open>A call of \<^verbatim>\<open>tell\<close> on descriptor 2.\<close>

theorem descriptors_well_formed_witness:
  "\<exists>e s'. install_page 0x08048000 0xc0200000 True (demo_call (le32 11 @ le32 2)) = Some (True, e) \<and>
    syscall_handler [] 0x08048000 0 (demo_sys e) = Some (Resume 0, s') \<and> fds_ok s'"
proof -
  obtain e live where e: "install_page 0x08048000 0xc0200000 True (demo_call (le32 11 @ le32 2)) = Some (True, e)" "exec_ok 0xc0100000 live [] e"
      "user_byte e 0x08049000 = None" "fsys e = fsys demo_exec"
      "\<And>i. i < length (le32 11 @ le32 2) \<Longrightarrow> i < 4096 \<Longrightarrow> user_byte e (0x08048000 + of_nat i) = Some ((le32 11 @ le32 2) ! i, True)"
      "\<And>i. i < 4096 \<Longrightarrow> \<exists>k. translate (demo_sys e) (0x08048000 + of_nat i) = Some (k, True)"
    using demo_mapped [where ws = "le32 11 @ le32 2"] unfolding demo_ready_def by metis
  have v: "is_valid_args 0x08048000 1 (demo_sys e) = Some True" "is_valid_args 0x08048000 2 (demo_sys e) = Some True"
    using demo_valid [OF e(2,6), of 0 1] demo_valid [OF e(2,6), of 0 2] by simp_all
  have a: "arg (demo_sys e) 0x08048000 0 = Some 11" "arg (demo_sys e) 0x08048000 1 = Some 2"
    using demo_args [OF e(2,5), of 0] demo_args [OF e(2,5), of 1] by (simp_all add: slice_def)
  have "file_tell 7 (fsys e) = Some 0" by (simp add: e(4) file_tell_def demo_exec_def)
  then have t: "sys_tell 2 (demo_sys e) = Some (Resume 0, demo_sys e)"
    by (simp add: sys_tell_def get_file_from_fd_def find_fd_def demo_sys_def)
  have h: "syscall_handler [] 0x08048000 0 (demo_sys e) = Some (Resume 0, demo_sys e)"
    using v a t by (simp add: syscall_handler_def file_operation_handler_def checked_def sys_defs)
  have "fds_ok (demo_sys e)" by (simp add: fds_ok_def demo_sys_def)
  moreover have "exec_ok 0xc0100000 live [] (proc (demo_sys e))" using e(2) by (simp add: demo_sys_def)
  moreover have "writes_own_memory (demo_sys e) (demo_sys e)" by (simp add: writes_own_memory_def)
  ultimately show ?thesis using descriptors_well_formed [OF _ _ _ h] h e(1) by (auto simp: demo_sys_def)
qed

text \<open>A call that reads 3 bytes into the buffer at \<^verbatim>\<open>0x08048100\<close>.\<close>

theorem read_call_correct_witness:
  "\<exists>e s'. install_page 0x08048000 0xc0200000 True (demo_call (le32 8 @ le32 2 @ le32 0x08048100 @ le32 3)) = Some (True, e) \<and>
    syscall_handler [] 0x08048000 0 (demo_sys e) = Some (Resume 3, s') \<and> rd8 s' 0x08048101 = Some 0x45"
proof -
  let ?ws = "le32 8 @ le32 2 @ le32 0x08048100 @ le32 3"
  obtain e live where e: "install_page 0x08048000 0xc0200000 True (demo_call (?ws)) = Some (True, e)" "exec_ok 0xc0100000 live [] e"
      "user_byte e 0x08049000 = None" "fsys e = fsys demo_exec"
      "\<And>i. i < length (?ws) \<Longrightarrow> i < 4096 \<Longrightarrow> user_byte e (0x08048000 + of_nat i) = Some ((?ws) ! i, True)"
      "\<And>i. i < 4096 \<Longrightarrow> \<exists>k. translate (demo_sys e) (0x08048000 + of_nat i) = Some (k, True)"
    using demo_mapped [where ws = "?ws"] unfolding demo_ready_def by metis
  have v: "is_valid_args 0x08048000 1 (demo_sys e) = Some True" "is_valid_args 0x08048000 4 (demo_sys e) = Some True"
      "is_valid_file 0x08048100 (demo_sys e) = Some True"
    using demo_valid [OF e(2,6), of 0 1] demo_valid [OF e(2,6), of 0 4] demo_valid [OF e(2,6), of 256 1] by (simp_all add: is_valid_file_def)
  have a: "arg (demo_sys e) 0x08048000 0 = Some SYS_READ" "arg (demo_sys e) 0x08048000 1 = Some 2" "arg (demo_sys e) 0x08048000 2 = Some 0x08048100"
      "arg (demo_sys e) 0x08048000 3 = Some 3"
    using demo_args [OF e(2,5), of 0] demo_args [OF e(2,5), of 1] demo_args [OF e(2,5), of 2] demo_args [OF e(2,5), of 3]
    by (simp_all add: slice_def sys_defs)
  have ok: "exec_ok 0xc0100000 live [] (proc (demo_sys e))" using e(2) by (simp add: demo_sys_def)
  have f: "get_file_from_fd 2 (demo_sys e) = Some 7" by (simp add: get_file_from_fd_def find_fd_def demo_sys_def)
  have op: "open_at 7 demo_elf 0 (fsys (proc (demo_sys e)))" using demo_elf_ok e(4) by (simp add: demo_sys_def)
  have buf: "is_user_vaddr (0x08048100 + of_nat i) \<and> (\<exists>k. translate (demo_sys e) (0x08048100 + of_nat i) = Some (k, True))" if "i < unat (3 :: u32)" for i
    using demo_page(1) [of "256 + i"] e(6) [of "256 + i"] that by (simp add: add.assoc)
  have bs: "take (unat (3 :: u32)) (drop 0 demo_elf) = [0x7f, 0x45, 0x4c]" by (simp add: demo_elf_def)
  obtain s' where "syscall_handler [] 0x08048000 0 (demo_sys e) = Some (Resume (of_nat (length [0x7f, 0x45, 0x4c :: byte])), s')"
      "\<And>b. is_user_vaddr b \<Longrightarrow> rd8 s' b = (if unat (b - 0x08048100) < length [0x7f, 0x45, 0x4c :: byte] then Some ([0x7f, 0x45, 0x4c] ! unat (b - 0x08048100))
        else rd8 (demo_sys e) b)"
    using read_call_correct [OF ok v(1,2) a v(3) f op _ buf, of "[]" 0] unfolding bs by auto
  moreover have "is_user_vaddr 0x08048101" by (simp add: is_user_vaddr_def PHYS_BASE_def)
  ultimately show ?thesis using e(1) by auto
qed

section \<open>Checks of the arguments\<close>

lemma same_page_translate:
  assumes "exec_ok pd live extra (proc s)" "is_user_vaddr a" "is_user_vaddr b" "pg_no a = pg_no b" "translate s a \<noteq> None"
  shows "translate s b \<noteq> None"
  using assms(5) translate_user [OF assms(1,2)] translate_user [OF assms(1,3)] same_page [OF assms(4)] by (auto simp: frame_of_def)

lemma between_pages:
  assumes "is_user_vaddr a" "unat n \<le> 1024" "j < 4 * unat n"
  shows "unat (a + 4 * n) = unat a + 4 * unat n" "unat (a + of_nat j) = unat a + j"
    "pg_no (a + of_nat j) = pg_no a \<or> pg_no (a + of_nat j) = pg_no (a + 4 * n)"
proof -
  have a: "unat a < 0xc0000000" using assms(1) by (simp add: is_user_vaddr_def PHYS_BASE_def word_less_nat_alt)
  show u: "unat (a + 4 * n) = unat a + 4 * unat n" "unat (a + of_nat j) = unat a + j"
    using a assms(2,3) by (simp_all add: unat_word_ariths unat_of_nat)
  have "(unat a + j) div 4096 = unat a div 4096 \<or> (unat a + j) div 4096 = (unat a + 4 * unat n) div 4096"
  proof -
    define q r where qr: "q = unat a div 4096" "r = unat a mod 4096"
    have a': "unat a = 4096 * q + r" "r < 4096" by (simp_all add: qr)
    have "(4096 * q + r + j) div 4096 = q + (r + j) div 4096" "(4096 * q + r + 4 * unat n) div 4096 = q + (r + 4 * unat n) div 4096"
      by (simp_all add: add.assoc)
    moreover have "(r + j) div 4096 = 0 \<or> (r + j) div 4096 = 1 \<and> (r + 4 * unat n) div 4096 = 1"
      using a'(2) assms(2,3) by (cases "r + j < 4096") (auto simp: div_nat_eqI)
    ultimately show ?thesis unfolding a'(1) using a'(2) by auto
  qed
  then show "pg_no (a + of_nat j) = pg_no a \<or> pg_no (a + of_nat j) = pg_no (a + 4 * n)"
    by (simp add: word_unat_eq_iff unat_pg_no u)
qed

text \<open>The number of words of arguments, with the number of the call, that the handler checks.\<close>

definition checked_words :: "u32 \<Rightarrow> u32" where
  "checked_words no = (if no \<in> {SYS_READ, SYS_WRITE} then 4 else if no \<in> {SYS_CREATE, SYS_SEEK, SYS_READDIR} then 3 else 2)"

text \<open>C25: The check of the arguments of a call is sound and never panics. If it accepts \<open>n\<close> words (at most 1024), each of them can be
  read without a page fault; if it refuses the stack pointer, or the arguments of a call that takes
  any, other than \<^verbatim>\<open>exit\<close> and \<^verbatim>\<open>practice\<close>, the process exits with status -1 and nothing else changes. \<^verbatim>\<open>exit\<close> and
  \<^verbatim>\<open>practice\<close> read their argument after a check of the first word only: the kernel panics
  exactly when that argument cannot be read.\<close>
theorem argument_check_sound:
  assumes "exec_ok pd live extra (proc s)" "unat n \<le> 1024"
  shows "(\<exists>b. is_valid_args args n s = Some b \<and> (b \<longrightarrow> (\<forall>i < n. arg s args i \<noteq> None))) \<and>
    (is_valid_args args 1 s = Some False \<longrightarrow> syscall_handler junk args eax s = Some (Exited (- 1), s)) \<and>
    (\<forall>no \<in> {SYS_EXEC, SYS_WAIT, SYS_CREATE, SYS_REMOVE, SYS_OPEN, SYS_FILESIZE, SYS_READ, SYS_WRITE, SYS_SEEK, SYS_TELL, SYS_CLOSE, SYS_CHDIR,
       SYS_MKDIR, SYS_READDIR, SYS_ISDIR, SYS_INUMBER}.
      is_valid_args args 1 s = Some True \<longrightarrow> arg s args 0 = Some no \<longrightarrow> is_valid_args args (checked_words no) s = Some False \<longrightarrow>
      syscall_handler junk args eax s = Some (Exited (- 1), s)) \<and>
    (\<forall>no \<in> {SYS_EXIT, SYS_PRACTICE}. is_valid_args args 1 s = Some True \<longrightarrow> arg s args 0 = Some no \<longrightarrow>
      (syscall_handler junk args eax s = None \<longleftrightarrow> arg s args 1 = None))"
proof (intro conjI)
  show "\<exists>b. is_valid_args args n s = Some b \<and> (b \<longrightarrow> (\<forall>i < n. arg s args i \<noteq> None))"
  proof (cases "is_user_vaddr args \<and> is_user_vaddr (args + 4 * n)")
    case False
    then show ?thesis by (intro exI [of _ False]) (auto simp: is_valid_args_def)
  next
    case True
    have rd: "rd8 s (args + of_nat j) \<noteq> None" if "translate s args \<noteq> None" "translate s (args + 4 * n) \<noteq> None" "j < 4 * unat n" for j
    proof -
      note b = between_pages [OF _ assms(2) that(3), of args]
      have u: "is_user_vaddr (args + of_nat j)" using True b(1,2) that(3) by (simp add: is_user_vaddr_def word_less_nat_alt)
      then have "translate s (args + of_nat j) \<noteq> None"
        using b(3) True that same_page_translate [OF assms(1) _ u] by metis
      then show ?thesis by (auto simp: rd8_def)
    qed
    have "arg s args i \<noteq> None" if t: "translate s args \<noteq> None" "translate s (args + 4 * n) \<noteq> None" and i: "i < n" for i
    proof -
      have i': "unat i < unat n" using i by (simp add: word_less_nat_alt)
      have "args + 4 * i + of_nat k = args + of_nat (4 * unat i + k)" for k by simp
      then have "rd8 s (args + 4 * i + of_nat k) \<noteq> None" if "k < 4" for k using rd [OF t, of "4 * unat i + k"] i' that by (simp add: add.assoc)
      from this [of 0] this [of 1] this [of 2] this [of 3] show ?thesis by (auto simp: arg_def rd32_def)
    qed
    then show ?thesis
      using True exec_okD(1,2) [OF assms(1)] translate_user [OF assms(1), of args] translate_user [OF assms(1), of "args + 4 * n"]
      by (auto simp: is_valid_args_def get_page_frame)
  qed
  show "is_valid_args args 1 s = Some False \<longrightarrow> syscall_handler junk args eax s = Some (Exited (- 1), s)"
    by (simp add: syscall_handler_def)
  show "\<forall>no \<in> {SYS_EXEC, SYS_WAIT, SYS_CREATE, SYS_REMOVE, SYS_OPEN, SYS_FILESIZE, SYS_READ, SYS_WRITE, SYS_SEEK, SYS_TELL, SYS_CLOSE, SYS_CHDIR,
       SYS_MKDIR, SYS_READDIR, SYS_ISDIR, SYS_INUMBER}.
      is_valid_args args 1 s = Some True \<longrightarrow> arg s args 0 = Some no \<longrightarrow> is_valid_args args (checked_words no) s = Some False \<longrightarrow>
      syscall_handler junk args eax s = Some (Exited (- 1), s)"
    by (auto simp: syscall_handler_def file_operation_handler_def checked_def exit_file_call_def checked_words_def sys_defs)
  show "\<forall>no \<in> {SYS_EXIT, SYS_PRACTICE}. is_valid_args args 1 s = Some True \<longrightarrow> arg s args 0 = Some no \<longrightarrow>
      (syscall_handler junk args eax s = None \<longleftrightarrow> arg s args 1 = None)"
    by (cases "arg s args 1") (auto simp: syscall_handler_def sys_defs)
qed

text \<open>C38: A process can panic the kernel with a descriptor that it has not opened: the calls that ask for the size or position of
  a file, or set its position, pass the null pointer of an unknown descriptor, or of a directory, on to functions that
  assert that it is not null.\<close>
theorem unknown_descriptor_panics:
  assumes "is_valid_args args 1 s = Some True" "is_valid_args args 2 s = Some True" "is_valid_args args 3 s = Some True"
    and "arg s args 0 = Some no" "no \<in> {SYS_FILESIZE, SYS_SEEK, SYS_TELL}" "arg s args 1 = Some n" "get_file_from_fd n s = None"
  shows "syscall_handler junk args eax s = None"
  using assms
  by (auto simp: syscall_handler_def file_operation_handler_def checked_def sys_filesize_def sys_seek_def sys_tell_def sys_defs)

text \<open>A page with the number of \<^verbatim>\<open>exit\<close> in the bytes from \<^verbatim>\<open>0x08048ff9\<close> on; the argument of the call would reach into the next page.\<close>

definition exit_page :: "byte list" where
  "exit_page = replicate 4089 0 @ le32 1"

lemma exit_page_nth: "exit_page ! 4089 = 1" "exit_page ! 4090 = 0" "exit_page ! 4091 = 0" "exit_page ! 4092 = 0" "length exit_page = 4093"
  by (simp_all add: exit_page_def nth_append le32_def)

text \<open>The stack pointer at the last word of the page: the check of its first word looks at the next page. The stack pointer 7 bytes before the
  end of the page: the check accepts, and the call of \<^verbatim>\<open>exit\<close> faults.\<close>

theorem argument_check_sound_witness:
  "\<exists>e. install_page 0x08048000 0xc0200000 True (demo_call exit_page) = Some (True, e) \<and> arg (demo_sys e) 0x08048000 1 \<noteq> None \<and>
    syscall_handler [] 0x08048ffc 0 (demo_sys e) = Some (Exited (- 1), demo_sys e) \<and> syscall_handler [] 0x08048ff9 0 (demo_sys e) = None"
proof -
  obtain e live where e: "install_page 0x08048000 0xc0200000 True (demo_call exit_page) = Some (True, e)" "exec_ok 0xc0100000 live [] e"
      "user_byte e 0x08049000 = None" "fsys e = fsys demo_exec"
      "\<And>i. i < length exit_page \<Longrightarrow> i < 4096 \<Longrightarrow> user_byte e (0x08048000 + of_nat i) = Some (exit_page ! i, True)"
      "\<And>i. i < 4096 \<Longrightarrow> \<exists>k. translate (demo_sys e) (0x08048000 + of_nat i) = Some (k, True)"
    using demo_mapped [where ws = exit_page] unfolding demo_ready_def by metis
  have ok: "exec_ok 0xc0100000 live [] (proc (demo_sys e))" using e(2) by (simp add: demo_sys_def)
  have u: "is_user_vaddr 0x08048ffc" "is_user_vaddr 0x08049000" by (simp_all add: is_user_vaddr_def PHYS_BASE_def)
  have n: "frame_of 0xc0100000 (words (ptabs e)) 0x08049000 = None" using unmapped [OF e(2) u(2)] e(3) by simp
  then have "is_valid_args 0x08048ffc 1 (demo_sys e) = Some False"
    using u exec_okD(1,2) [OF e(2)] by (auto simp: is_valid_args_def demo_sys_def get_page_frame)
  then have "syscall_handler [] 0x08048ffc 0 (demo_sys e) = Some (Exited (- 1), demo_sys e)"
    using argument_check_sound [OF ok, of 1 "0x08048ffc"] by simp
  moreover have "is_valid_args 0x08048000 2 (demo_sys e) = Some True" using demo_valid [OF e(2,6), of 0 2] by simp
  then have "arg (demo_sys e) 0x08048000 1 \<noteq> None" using conjunct1 [OF argument_check_sound [OF ok, of 2 "0x08048000"]] by (auto simp: word_less_nat_alt)
  moreover have "is_valid_args 0x08048ff9 1 (demo_sys e) = Some True" using demo_valid [OF e(2,6), of 4089 1] by simp
  moreover have r: "rd8 (demo_sys e) (0x08048000 + of_nat i) = Some (exit_page ! i)" if "i < 4093" for i
    using rd8_user [OF ok demo_page(1) [of i]] e(5) [of i] that exit_page_nth(5) by (simp add: demo_sys_def)
  have "arg (demo_sys e) 0x08048ff9 0 = Some SYS_EXIT"
    using r [of 4089] r [of 4090] r [of 4091] r [of 4092] by (simp add: arg_def rd32_def exit_page_nth sys_defs of_le32_def)
  moreover have "rd8 (demo_sys e) 0x08049000 = None" using rd8_user [OF ok u(2)] e(3) by (simp add: demo_sys_def)
  then have "arg (demo_sys e) 0x08048ff9 1 = None" by (auto simp: arg_def rd32_def bind_eq_None_conv)
  ultimately show ?thesis using e(1) argument_check_sound [OF ok, of 1 "0x08048ff9"] by auto
qed

text \<open>A call of \<^verbatim>\<open>filesize\<close> on descriptor 9.\<close>

theorem unknown_descriptor_panics_witness:
  "\<exists>e. install_page 0x08048000 0xc0200000 True (demo_call (le32 7 @ le32 9)) = Some (True, e) \<and> syscall_handler [] 0x08048000 0 (demo_sys e) = None"
proof -
  obtain e live where e: "install_page 0x08048000 0xc0200000 True (demo_call (le32 7 @ le32 9)) = Some (True, e)" "exec_ok 0xc0100000 live [] e"
      "user_byte e 0x08049000 = None" "fsys e = fsys demo_exec"
      "\<And>i. i < length (le32 7 @ le32 9) \<Longrightarrow> i < 4096 \<Longrightarrow> user_byte e (0x08048000 + of_nat i) = Some ((le32 7 @ le32 9) ! i, True)"
      "\<And>i. i < 4096 \<Longrightarrow> \<exists>k. translate (demo_sys e) (0x08048000 + of_nat i) = Some (k, True)"
    using demo_mapped [where ws = "le32 7 @ le32 9"] unfolding demo_ready_def by metis
  have v: "is_valid_args 0x08048000 1 (demo_sys e) = Some True" "is_valid_args 0x08048000 2 (demo_sys e) = Some True"
      "is_valid_args 0x08048000 3 (demo_sys e) = Some True"
    using demo_valid [OF e(2,6), of 0 1] demo_valid [OF e(2,6), of 0 2] demo_valid [OF e(2,6), of 0 3] by simp_all
  have a: "arg (demo_sys e) 0x08048000 0 = Some SYS_FILESIZE" "arg (demo_sys e) 0x08048000 1 = Some 9"
    using demo_args [OF e(2,5), of 0] demo_args [OF e(2,5), of 1] by (simp_all add: slice_def sys_defs)
  have "get_file_from_fd 9 (demo_sys e) = None" by (simp add: get_file_from_fd_def find_fd_def demo_sys_def)
  then have "syscall_handler [] 0x08048000 0 (demo_sys e) = None" by (intro unknown_descriptor_panics [OF v a(1) _ a(2)]) simp
  then show ?thesis using e(1) by blast
qed

end
