(* ===== verification/Process_Wait.thy ===== *)
theory Process_Wait
  imports Threads
begin

text \<open>
  Parents and children: \<^verbatim>\<open>process_execute\<close>, \<^verbatim>\<open>process_wait\<close> and the part of \<^verbatim>\<open>start_process\<close> and
  \<^verbatim>\<open>process_exit\<close> in \<^verbatim>\<open>userprog/process.c\<close> that works on the \<^verbatim>\<open>struct wait_status\<close> that a parent shares with each of
  its children. Every process is at some point of one of these functions, and the steps of all processes
  interleave. A wait status is named by the identifier of the child. It is freed once, and the list of children
  lies in the page of the parent, which is freed after its last step; a step that touches memory after
  it was freed is \<^term>\<open>None\<close>. The section between \<^verbatim>\<open>lock_acquire\<close> and \<^verbatim>\<open>lock_release\<close> is one step, since
  all threads that change the count hold the lock, and \<^verbatim>\<open>sema_down\<close> is a step that is possible only
  when the value is positive; both rest on the properties of the synchronization primitives.
\<close>

section \<open>State\<close>

datatype pc =
    Unborn
  | Loading \<comment> \<open>in \<^verbatim>\<open>load\<close>\<close>
  | Running \<comment> \<open>in user code\<close>
  | Wait_load int \<comment> \<open>in \<^verbatim>\<open>process_execute\<close>, before \<^verbatim>\<open>sema_down (&ws->done_loading)\<close>\<close>
  | In_wait int \<comment> \<open>in \<^verbatim>\<open>process_wait\<close>, before \<^verbatim>\<open>sema_down (&ws->dead)\<close>\<close>
  | Collect int \<comment> \<open>in \<^verbatim>\<open>process_wait\<close>, after it\<close>
  | Dec \<comment> \<open>in \<^verbatim>\<open>decrement_all_references\<close>, before its own wait status is decremented\<close>
  | Destroy \<comment> \<open>in \<^verbatim>\<open>decrement_and_destroy_if_zero\<close>, the count was 0\<close>
  | Up \<comment> \<open>before \<^verbatim>\<open>sema_up (&ws->dead)\<close>\<close>
  | Loop "int option" \<comment> \<open>in the loop over the children, with the next one\<close>
  | Loop_destroy int "int option"
  | Gone \<comment> \<open>the page of the thread is freed\<close>

record procs =
  wss :: "int \<Rightarrow> wait_status option"
  kids :: "int \<Rightarrow> int list"
  parent :: "int \<Rightarrow> int"
  pcs :: "int \<Rightarrow> pc"
  fresh :: int
  waits :: "(int \<times> int \<times> int option) list" \<comment> \<open>results of \<^verbatim>\<open>process_wait\<close>, the latest first; none is the immediate -1\<close>
  execs :: "(int \<times> int \<times> bool) list" \<comment> \<open>results of \<^verbatim>\<open>process_execute\<close>: the caller, the child, and whether it is returned\<close>
  loads :: "int \<Rightarrow> bool option" \<comment> \<open>whether the program of a process was loaded\<close>
  exits :: "int \<Rightarrow> int option" \<comment> \<open>the status that a process gave to \<^verbatim>\<open>exit\<close>\<close>

datatype act = Exec bool | Load bool | Exit int | Wait int | Tau

definition goto :: "int \<Rightarrow> pc \<Rightarrow> procs \<Rightarrow> procs" where
  "goto t p s = s\<lparr>pcs := (pcs s)(t := p)\<rparr>"

definition upd_ws :: "int \<Rightarrow> (wait_status \<Rightarrow> wait_status) \<Rightarrow> procs \<Rightarrow> procs option" where
  "upd_ws c f s = do { w \<leftarrow> wss s c; Some (s\<lparr>wss := (wss s)(c \<mapsto> f w)\<rparr>) }"

definition up :: "semaphore \<Rightarrow> semaphore" where
  "up x = x\<lparr>sema_value := sema_value x + 1\<rparr>"

definition down :: "semaphore \<Rightarrow> semaphore" where
  "down x = x\<lparr>sema_value := sema_value x - 1\<rparr>"

section \<open>The code\<close>

fun find_child_ws :: "int list \<Rightarrow> int \<Rightarrow> procs \<Rightarrow> int option option" where
  "find_child_ws [] c s = Some None"
| "find_child_ws (e # es) c s = do { w \<leftarrow> wss s e; if ws_tid w = c then Some (Some e) else find_child_ws es c s }"

text \<open>Removing an element writes to its neighbours; the ends of the list lie in the page of the parent.\<close>

definition list_remove_ws :: "int \<Rightarrow> procs \<Rightarrow> procs option" where
  "list_remove_ws c s = do {
     let p = parent s c;
     ASSERT (c \<in> set (kids s p));
     ASSERT (\<not> ((hd (kids s p) = c \<or> last (kids s p) = c) \<and> pcs s p = Gone));
     Some (s\<lparr>kids := (kids s)(p := remove1 c (kids s p))\<rparr>)
   }"

definition destroy_wait_status :: "int \<Rightarrow> procs \<Rightarrow> procs option" where
  "destroy_wait_status c s = do {
     w \<leftarrow> wss s c;
     s \<leftarrow> list_remove_ws c s;
     Some (s\<lparr>wss := (wss s)(c := None)\<rparr>)
   }"

text \<open>The count after the decrement.\<close>

definition decrement :: "int \<Rightarrow> procs \<Rightarrow> (int \<times> procs) option" where
  "decrement c s = do {
     w \<leftarrow> wss s c;
     s \<leftarrow> upd_ws c (\<lambda>w. w\<lparr>reference_count := reference_count w - 1\<rparr>) s;
     Some (reference_count w - 1, s)
   }"

fun next_elem :: "int \<Rightarrow> int list \<Rightarrow> int option" where
  "next_elem c [] = None"
| "next_elem c (x # xs) = (if x = c then (case xs of [] \<Rightarrow> None | y # _ \<Rightarrow> Some y) else next_elem c xs)"

text \<open>The first argument of \<^verbatim>\<open>Exec\<close> is whether the thread could be created.\<close>

definition process_execute :: "int \<Rightarrow> bool \<Rightarrow> procs \<Rightarrow> procs option" where
  "process_execute t created s = (if \<not> created then Some s else do {
     let c = fresh s;
     let s = s\<lparr>wss := (wss s)(c \<mapsto> init_wait_status c), kids := (kids s)(t := c # kids s t, c := []), parent := (parent s)(c := t),
               pcs := (pcs s)(c := Loading), fresh := c + 1\<rparr>;
     ws \<leftarrow> find_child_ws (kids s t) c s;
     case ws of None \<Rightarrow> Some (goto t Running s) | Some e \<Rightarrow> Some (goto t (Wait_load e) s)
   })"

definition process_execute_end :: "int \<Rightarrow> int \<Rightarrow> procs \<Rightarrow> procs option" where
  "process_execute_end t c s = do {
     s \<leftarrow> upd_ws c (\<lambda>w. w\<lparr>done_loading := down (done_loading w)\<rparr>) s;
     w \<leftarrow> wss s c;
     Some (goto t Running (s\<lparr>execs := (t, c, load_error w = 0) # execs s\<rparr>))
   }"

definition start_process :: "int \<Rightarrow> bool \<Rightarrow> procs \<Rightarrow> procs option" where
  "start_process t success s =
    (if success then do {
       s \<leftarrow> upd_ws t (\<lambda>w. w\<lparr>done_loading := up (done_loading w)\<rparr>) s;
       Some (goto t Running (s\<lparr>loads := (loads s)(t \<mapsto> True)\<rparr>))
     }
     else do {
       s \<leftarrow> upd_ws t (\<lambda>w. w\<lparr>exit_status := 1, load_error := 1, done_loading := up (done_loading w)\<rparr>) s;
       Some (goto t Dec (s\<lparr>loads := (loads s)(t \<mapsto> False), exits := (exits s)(t \<mapsto> 1)\<rparr>))
     })"

definition process_wait :: "int \<Rightarrow> int \<Rightarrow> procs \<Rightarrow> procs option" where
  "process_wait t c s = do {
     ws \<leftarrow> find_child_ws (kids s t) c s;
     case ws of None \<Rightarrow> Some (s\<lparr>waits := (t, c, None) # waits s\<rparr>)
     | Some e \<Rightarrow> Some (goto t (In_wait e) s)
   }"

definition process_wait_end :: "int \<Rightarrow> int \<Rightarrow> procs \<Rightarrow> procs option" where
  "process_wait_end t c s = do {
     w \<leftarrow> wss s c;
     s \<leftarrow> destroy_wait_status c s;
     Some (goto t Running (s\<lparr>waits := (t, c, Some (exit_status w)) # waits s\<rparr>))
   }"

definition thread_exit_with_status :: "int \<Rightarrow> int \<Rightarrow> procs \<Rightarrow> procs option" where
  "thread_exit_with_status t v s = do {
     s \<leftarrow> upd_ws t (\<lambda>w. w\<lparr>exit_status := v\<rparr>) s;
     Some (goto t Dec (s\<lparr>exits := (exits s)(t \<mapsto> v)\<rparr>))
   }"

definition first_child :: "int \<Rightarrow> procs \<Rightarrow> int option" where
  "first_child t s = (case kids s t of [] \<Rightarrow> None | c # _ \<Rightarrow> Some c)"

text \<open>One step of a process that is inside one of the functions.\<close>

definition tau :: "int \<Rightarrow> procs \<Rightarrow> procs option" where
  "tau t s = (case pcs s t of
     Wait_load c \<Rightarrow> process_execute_end t c s
   | In_wait c \<Rightarrow> do { s \<leftarrow> upd_ws c (\<lambda>w. w\<lparr>dead := down (dead w)\<rparr>) s; Some (goto t (Collect c) s) }
   | Collect c \<Rightarrow> process_wait_end t c s
   | Dec \<Rightarrow> do { (n, s) \<leftarrow> decrement t s; Some (goto t (if n = 0 then Destroy else Up) s) }
   | Destroy \<Rightarrow> do { s \<leftarrow> destroy_wait_status t s; Some (goto t (Loop (first_child t s)) s) }
   | Up \<Rightarrow> do { s \<leftarrow> upd_ws t (\<lambda>w. w\<lparr>dead := up (dead w)\<rparr>) s; Some (goto t (Loop (first_child t s)) s) }
   | Loop None \<Rightarrow> Some (goto t Gone s)
   | Loop (Some c) \<Rightarrow> do {
       (n, s) \<leftarrow> decrement c s;
       let e = next_elem c (kids s t);
       Some (goto t (if n = 0 then Loop_destroy c e else Loop e) s)
     }
   | Loop_destroy c e \<Rightarrow> do { s \<leftarrow> destroy_wait_status c s; Some (goto t (Loop e) s) }
   | _ \<Rightarrow> None)"

definition do_act :: "int \<Rightarrow> act \<Rightarrow> procs \<Rightarrow> procs option" where
  "do_act t a s = (case a of
     Exec b \<Rightarrow> process_execute t b s
   | Load b \<Rightarrow> start_process t b s
   | Exit v \<Rightarrow> thread_exit_with_status t v s
   | Wait c \<Rightarrow> process_wait t c s
   | Tau \<Rightarrow> tau t s)"

text \<open>The actions that a process may take next; \<^verbatim>\<open>sema_down\<close> waits for a positive value. The initial process never
  exits.\<close>

definition positive :: "(wait_status \<Rightarrow> semaphore) \<Rightarrow> int \<Rightarrow> procs \<Rightarrow> bool" where
  "positive f c s = (case wss s c of None \<Rightarrow> True | Some w \<Rightarrow> sema_value (f w) > 0)"

definition can :: "int \<Rightarrow> act \<Rightarrow> procs \<Rightarrow> bool" where
  "can t a s = (case pcs s t of
     Unborn \<Rightarrow> False
   | Gone \<Rightarrow> False
   | Loading \<Rightarrow> (case a of Load _ \<Rightarrow> True | _ \<Rightarrow> False)
   | Running \<Rightarrow> (case a of Exec _ \<Rightarrow> True | Exit _ \<Rightarrow> t \<noteq> 1 | Wait _ \<Rightarrow> True | _ \<Rightarrow> False)
   | Wait_load c \<Rightarrow> a = Tau \<and> positive done_loading c s
   | In_wait c \<Rightarrow> a = Tau \<and> positive dead c s
   | _ \<Rightarrow> a = Tau)"

definition procs0 :: procs where
  "procs0 = \<lparr>wss = Map.empty, kids = (\<lambda>_. []), parent = (\<lambda>_. 0), pcs = (\<lambda>_. Unborn)(1 := Running), fresh = 2, waits = [], execs = [], loads = Map.empty, exits = Map.empty\<rparr>"

text \<open>Runs of the system in which every step meets a condition; in an orderly run a process exits only after
  all children that it has not waited for are gone.\<close>

inductive run :: "(int \<Rightarrow> act \<Rightarrow> procs \<Rightarrow> bool) \<Rightarrow> procs \<Rightarrow> bool" for ok where
  run_start: "run ok procs0"
| run_step: "run ok s \<Longrightarrow> can t a s \<Longrightarrow> ok t a s \<Longrightarrow> do_act t a s = Some s' \<Longrightarrow> run ok s'"

fun is_Exit :: "act \<Rightarrow> bool" where
  "is_Exit (Exit v) = True"
| "is_Exit _ = False"

definition orderly :: "int \<Rightarrow> act \<Rightarrow> procs \<Rightarrow> bool" where
  "orderly t a s \<longleftrightarrow> (is_Exit a \<longrightarrow> list_all (\<lambda>c. pcs s c = Gone) (kids s t))"

definition anyhow :: "int \<Rightarrow> act \<Rightarrow> procs \<Rightarrow> bool" where
  "anyhow t a s \<longleftrightarrow> True"

text \<open>The state after a list of steps.\<close>

fun play :: "(int \<Rightarrow> act \<Rightarrow> procs \<Rightarrow> bool) \<Rightarrow> (int \<times> act) list \<Rightarrow> procs \<Rightarrow> procs option" where
  "play ok [] s = Some s"
| "play ok ((t, a) # as) s = (if can t a s \<and> ok t a s then do { s \<leftarrow> do_act t a s; play ok as s } else None)"

lemma play_run: "run ok s \<Longrightarrow> play ok as s = Some s' \<Longrightarrow> run ok s'"
  by (induction ok as s rule: play.induct) (auto simp: bind_eq_Some_conv split: if_splits intro: run_step)

section \<open>The invariant of orderly runs\<close>

fun past :: "pc \<Rightarrow> bool" where
  "past (Loop e) = True"
| "past (Loop_destroy c e) = True"
| "past Gone = True"
| "past _ = False"

definition exiting :: "pc \<Rightarrow> bool" where
  "exiting p \<longleftrightarrow> past p \<or> p \<in> {Dec, Destroy, Up}"

lemma exiting_past [simp]: "past p \<Longrightarrow> exiting p"
  by (simp add: exiting_def)

fun freeing :: "int \<Rightarrow> pc \<Rightarrow> bool" where
  "freeing c (Loop_destroy d e) = (d = c)"
| "freeing c _ = False"

text \<open>What a wait status holds, given where the child and its parent are.\<close>

definition ws_ok :: "int \<Rightarrow> wait_status \<Rightarrow> pc \<Rightarrow> pc \<Rightarrow> int option \<Rightarrow> bool option \<Rightarrow> bool" where
  "ws_ok c w pc pp ex ld \<longleftrightarrow> ws_tid w = c \<and>
     reference_count w = (if past pc \<or> pc = Up then if freeing c pp then 0 else 1 else 2) \<and>
     sema_value (dead w) = (if past pc \<and> pp \<noteq> Collect c then 1 else 0) \<and>
     sema_value (done_loading w) = (if pc \<noteq> Loading \<and> pp = Wait_load c then 1 else 0) \<and>
     (exiting pc \<longrightarrow> ex = Some (exit_status w)) \<and>
     (if pc = Loading then load_error w = 0 \<and> pp = Wait_load c else ld = Some (load_error w = 0))"

lemma ws_ok_child:
  "ws_ok c w p q e l \<Longrightarrow> past p = past p' \<Longrightarrow> exiting p = exiting p' \<Longrightarrow> (p = Up) = (p' = Up) \<Longrightarrow> (p = Loading) = (p' = Loading) \<Longrightarrow>
    ws_ok c w p' q e l"
  by (simp add: ws_ok_def)

lemma ws_ok_parent:
  "ws_ok c w p q e l \<Longrightarrow> freeing c q = freeing c q' \<Longrightarrow> (q = Collect c) = (q' = Collect c) \<Longrightarrow> (q = Wait_load c) = (q' = Wait_load c) \<Longrightarrow>
    ws_ok c w p q' e l"
  unfolding ws_ok_def by presburger

text \<open>What a process owns at each point.\<close>

definition pc_ok :: "pc \<Rightarrow> int list \<Rightarrow> (int \<Rightarrow> pc) \<Rightarrow> bool" where
  "pc_ok p ks q \<longleftrightarrow> (case p of
     Wait_load c \<Rightarrow> c \<in> set ks
   | In_wait c \<Rightarrow> c \<in> set ks
   | Collect c \<Rightarrow> c \<in> set ks \<and> past (q c)
   | Running \<Rightarrow> True
   | Destroy \<Rightarrow> False
   | Dec \<Rightarrow> list_all (\<lambda>c. q c = Gone) ks
   | Up \<Rightarrow> list_all (\<lambda>c. q c = Gone) ks
   | Loop e \<Rightarrow> list_all (\<lambda>c. q c = Gone) ks \<and> e = (case ks of [] \<Rightarrow> None | c # _ \<Rightarrow> Some c)
   | Loop_destroy c e \<Rightarrow> list_all (\<lambda>c. q c = Gone) ks \<and> ks \<noteq> [] \<and> hd ks = c \<and> e = (case tl ks of [] \<Rightarrow> None | c # _ \<Rightarrow> Some c)
   | _ \<Rightarrow> ks = [])"

definition shape :: "procs \<Rightarrow> bool" where
  "shape s \<longleftrightarrow> 2 \<le> fresh s \<and> \<not> exiting (pcs s 1) \<and> pcs s 1 \<noteq> Loading \<and> (\<forall>t. pcs s t = Unborn \<longleftrightarrow> \<not> (1 \<le> t \<and> t < fresh s)) \<and>
     (\<forall>t. distinct (kids s t)) \<and>
     (\<forall>t. \<forall>c\<in>set (kids s t). parent s c = t \<and> t < c \<and> 2 \<le> c \<and> c < fresh s \<and> wss s c \<noteq> None) \<and>
     (\<forall>c. wss s c \<noteq> None \<longrightarrow> 2 \<le> c \<and> c < fresh s \<and> c \<in> set (kids s (parent s c))) \<and>
     (\<forall>c. 2 \<le> c \<and> c < fresh s \<and> wss s c = None \<longrightarrow> past (pcs s c))"

definition wss_ok :: "procs \<Rightarrow> bool" where
  "wss_ok s \<longleftrightarrow> (\<forall>c w. wss s c = Some w \<longrightarrow> ws_ok c w (pcs s c) (pcs s (parent s c)) (exits s c) (loads s c))"

definition pcs_ok :: "procs \<Rightarrow> bool" where
  "pcs_ok s \<longleftrightarrow> (\<forall>t. pc_ok (pcs s t) (kids s t) (pcs s))"

definition waited :: "procs \<Rightarrow> int list" where
  "waited s = map (fst \<circ> snd) (filter (\<lambda>(t, c, v). v \<noteq> None) (waits s))"

lemma waited_iff: "c \<in> set (waited s) \<longleftrightarrow> (\<exists>t v. (t, c, Some v) \<in> set (waits s))"
  by (force simp: waited_def)

definition logs_ok :: "procs \<Rightarrow> bool" where
  "logs_ok s \<longleftrightarrow> distinct (waited s) \<and>
     (\<forall>t c r. (t, c, r) \<in> set (waits s) \<longrightarrow> r \<noteq> None \<longrightarrow> wss s c = None \<and> 2 \<le> c \<and> c < fresh s \<and> parent s c = t \<and> exits s c = r) \<and>
     (\<forall>t c r. (t, c, r) \<in> set (execs s) \<longrightarrow> 2 \<le> c \<and> c < fresh s \<and> pcs s c \<noteq> Loading \<and> parent s c = t \<and> loads s c = Some r) \<and>
     (\<forall>c. 2 \<le> c \<longrightarrow> c < fresh s \<longrightarrow> wss s c = None \<longrightarrow> \<not> exiting (pcs s (parent s c)) \<longrightarrow> c \<in> set (waited s))"

definition pinv :: "procs \<Rightarrow> bool" where
  "pinv s \<longleftrightarrow> shape s \<and> wss_ok s \<and> pcs_ok s \<and> logs_ok s"

lemmas pinv_defs = pinv_def shape_def wss_ok_def pcs_ok_def logs_ok_def

lemma pinv_start: "pinv procs0"
  by (auto simp: pinv_defs procs0_def pc_ok_def exiting_def waited_def)

lemma shape_kid:
  "shape s \<Longrightarrow> c \<in> set (kids s t) \<Longrightarrow> parent s c = t \<and> t < c \<and> 2 \<le> c \<and> c < fresh s \<and> wss s c \<noteq> None"
  unfolding shape_def by blast

lemma shape_ws: "shape s \<Longrightarrow> wss s c = Some w \<Longrightarrow> 2 \<le> c \<and> c < fresh s \<and> c \<in> set (kids s (parent s c))"
  unfolding shape_def by blast

lemma pc_ok_move:
  "pc_ok r ks q \<Longrightarrow> (past (q t) \<longrightarrow> past p) \<Longrightarrow> (q t = Gone \<longrightarrow> p = Gone) \<Longrightarrow> pc_ok r ks (q(t := p))"
  unfolding pc_ok_def by (cases r) (auto simp: list_all_iff)

text \<open>Moving one process to another point, when its children and its wait status allow it.\<close>

lemma pinv_move:
  assumes "pinv s" "1 \<le> t" "t < fresh s" "p \<noteq> Unborn" "p \<noteq> Loading" "past (pcs s t) \<longrightarrow> past p" "pcs s t = Gone \<longrightarrow> p = Gone"
    "(t = 1 \<longrightarrow> \<not> exiting p) \<and> (exiting (pcs s t) \<longrightarrow> exiting p)"
    "pc_ok p (kids s t) ((pcs s)(t := p))"
    "\<And>w. wss s t = Some w \<Longrightarrow> f t = Some (g t w) \<and> ws_ok t (g t w) p (pcs s (parent s t)) (ex t) (ld t)"
    "\<And>c w. c \<in> set (kids s t) \<Longrightarrow> wss s c = Some w \<Longrightarrow> f c = Some (g c w) \<and> ws_ok c (g c w) (pcs s c) p (exits s c) (loads s c)"
    "\<And>c. c \<noteq> t \<Longrightarrow> c \<notin> set (kids s t) \<Longrightarrow> f c = wss s c" "wss s t = None \<Longrightarrow> f t = None"
    "\<And>c. c \<noteq> t \<Longrightarrow> ex c = exits s c" "\<And>c. c \<noteq> t \<Longrightarrow> ld c = loads s c"
    "wss s t = None \<Longrightarrow> ex t = exits s t" "pcs s t \<noteq> Loading \<Longrightarrow> ld t = loads s t"
  shows "pinv (s\<lparr>wss := f, pcs := (pcs s)(t := p), exits := ex, loads := ld\<rparr>)"
proof -
  let ?s = "s\<lparr>wss := f, pcs := (pcs s)(t := p), exits := ex, loads := ld\<rparr>"
  have i: "shape s" "wss_ok s" "pcs_ok s" "logs_ok s" using assms(1) by (auto simp: pinv_def)
  have dom: "f c = None \<longleftrightarrow> wss s c = None" for c
  proof (cases "wss s c")
    case None
    then have "c \<notin> set (kids s t)" using shape_kid [OF i(1)] by blast
    then show ?thesis using None assms(12,13) by (cases "c = t") auto
  next
    case (Some w)
    then show ?thesis using assms(10) [of w] assms(11) [of c w] assms(12) [of c] by (cases "c = t"; cases "c \<in> set (kids s t)") auto
  qed
  have "shape ?s" unfolding shape_def
  proof (intro conjI allI ballI impI)
    show "pcs ?s u = Unborn \<longleftrightarrow> \<not> (1 \<le> u \<and> u < fresh ?s)" for u using i(1) assms(2-4) unfolding shape_def by (cases "u = t") auto
    show "past (pcs ?s c)" if "2 \<le> c \<and> c < fresh ?s \<and> wss ?s c = None" for c
      using i(1) assms(6) that dom unfolding shape_def by (cases "c = t") auto
    show "\<not> exiting (pcs ?s 1)" "pcs ?s 1 \<noteq> Loading" "2 \<le> fresh ?s" using i(1) assms(5,8) unfolding shape_def by (cases "t = 1"; simp)+
    show "distinct (kids ?s u)" for u using i(1) unfolding shape_def by simp
    show "parent ?s c = u" "u < c" "2 \<le> c" "c < fresh ?s" "wss ?s c \<noteq> None" if "c \<in> set (kids ?s u)" for u c
      using shape_kid [OF i(1), of c u] that dom [of c] by simp_all
    show "2 \<le> c" "c < fresh ?s" "c \<in> set (kids ?s (parent ?s c))" if "wss ?s c \<noteq> None" for c
      using shape_ws [OF i(1), of c] that dom [of c] by (cases "wss s c"; simp)+
  qed
  moreover have "wss_ok ?s" unfolding wss_ok_def
  proof (intro allI impI)
    fix c w assume "wss ?s c = Some w"
    then have c: "f c = Some w" by simp
    then obtain v where v: "wss s c = Some v" using dom [of c] by (cases "wss s c") auto
    then have k: "c \<in> set (kids s (parent s c))" "\<And>u. c \<in> set (kids s u) \<Longrightarrow> parent s c = u \<and> u < c"
      using shape_kid [OF i(1)] shape_ws [OF i(1)] by blast+
    have o: "ws_ok c v (pcs s c) (pcs s (parent s c)) (exits s c) (loads s c)" using i(2) v unfolding wss_ok_def by blast
    consider "c = t" | "c \<noteq> t" "parent s c = t" | "c \<noteq> t" "parent s c \<noteq> t" by auto
    then show "ws_ok c w (pcs ?s c) (pcs ?s (parent ?s c)) (exits ?s c) (loads ?s c)"
    proof cases
      case 1
      then have "parent s c \<noteq> t" using k(2) [OF k(1)] by auto
      then show ?thesis using 1 assms(10) [of v] v c by simp
    next
      case 2
      then have "c \<in> set (kids s t)" using k(1) by simp
      then show ?thesis using 2 assms(11) [of c v] v c assms(14,15) by simp
    next
      case 3
      then have "f c = wss s c" using assms(12) k(2) by auto
      then show ?thesis using 3 v c o assms(14,15) by simp
    qed
  qed
  moreover have "pcs_ok ?s" unfolding pcs_ok_def
  proof
    fix u
    have "pc_ok (pcs s u) (kids s u) (pcs s)" using i(3) unfolding pcs_ok_def by blast
    then show "pc_ok (pcs ?s u) (kids ?s u) (pcs ?s)" using assms(6,7,9) pc_ok_move by (cases "u = t") auto
  qed
  moreover have "logs_ok ?s"
  proof -
    have ex: "ex c = exits s c" if "wss s c = None" for c using assms(14,16) that by (cases "c = t") auto
    have ld: "ld c = loads s c" if "pcs s c \<noteq> Loading" for c using assms(15,17) that by (cases "c = t") auto
    have "c \<in> set (waited s)" if "2 \<le> c" "c < fresh s" "wss s c = None" "\<not> exiting (((pcs s)(t := p)) (parent s c))" for c
      using i(4) that assms(8) unfolding logs_ok_def by (auto split: if_splits)
    moreover have "waited ?s = waited s" by (simp add: waited_def)
    ultimately show ?thesis using i(4) assms(5) ex ld unfolding logs_ok_def by (simp add: dom) blast
  qed
  ultimately show ?thesis by (simp add: pinv_def)
qed

text \<open>Removing the wait status of a child that has ended.\<close>

lemma pinv_destroy:
  assumes "pinv s" "c \<in> set (kids s t)" "past (pcs s c)" "p \<noteq> Unborn" "p \<noteq> Loading" "past (pcs s t) \<longrightarrow> past p" "pcs s t \<noteq> Gone"
    "(t = 1 \<longrightarrow> \<not> exiting p) \<and> (exiting (pcs s t) \<longrightarrow> exiting p)"
    "pc_ok p (remove1 c (kids s t)) ((pcs s)(t := p))"
    "\<And>w. wss s t = Some w \<Longrightarrow> ws_ok t w p (pcs s (parent s t)) (exits s t) (loads s t)"
    "\<And>d w. d \<in> set (kids s t) \<Longrightarrow> d \<noteq> c \<Longrightarrow> wss s d = Some w \<Longrightarrow> ws_ok d w (pcs s d) p (exits s d) (loads s d)"
    "ws = waits s \<and> exiting p \<or> (\<exists>v. ws = (t, c, Some v) # waits s \<and> exits s c = Some v)"
  shows "pinv (s\<lparr>wss := (wss s)(c := None), kids := (kids s)(t := remove1 c (kids s t)), pcs := (pcs s)(t := p), waits := ws\<rparr>)"
    (is "pinv ?s")
proof -
  have i: "shape s" "wss_ok s" "pcs_ok s" "logs_ok s" using assms(1) by (auto simp: pinv_def)
  note kid = shape_kid [OF i(1)]
  have pt: "parent s c = t" "t < c" "2 \<le> c" "c < fresh s" "wss s c \<noteq> None" using kid [OF assms(2)] by auto
  have dist: "distinct (kids s u)" for u using i(1) unfolding shape_def by blast
  have born: "pcs s u = Unborn \<longleftrightarrow> \<not> (1 \<le> u \<and> u < fresh s)" for u using i(1) unfolding shape_def by blast
  have t: "1 \<le> t" "t < fresh s"
  proof -
    have "pc_ok (pcs s t) (kids s t) (pcs s)" using i(3) unfolding pcs_ok_def by blast
    then have "pcs s t \<noteq> Unborn" using assms(2) by (auto simp: pc_ok_def)
    then show "1 \<le> t" "t < fresh s" using born by auto
  qed
  have "shape ?s" unfolding shape_def
  proof (intro conjI allI ballI impI)
    show "pcs ?s u = Unborn \<longleftrightarrow> \<not> (1 \<le> u \<and> u < fresh ?s)" for u using born assms(4) t by (cases "u = t") auto
    show "past (pcs ?s d)" if "2 \<le> d \<and> d < fresh ?s \<and> wss ?s d = None" for d
      using i(1) assms(3,6) that unfolding shape_def by (cases "d = c"; cases "d = t") auto
    show "\<not> exiting (pcs ?s 1)" "pcs ?s 1 \<noteq> Loading" "2 \<le> fresh ?s" using i(1) assms(5,8) unfolding shape_def by (cases "t = 1"; simp)+
    show "distinct (kids ?s u)" for u using dist by simp
    show "parent ?s d = u" "u < d" "2 \<le> d" "d < fresh ?s" "wss ?s d \<noteq> None" if d: "d \<in> set (kids ?s u)" for u d
    proof -
      have "d \<in> set (kids s u)" "d \<noteq> c"
        using d dist [of t] kid [of d u] pt(1) by (cases "u = t"; auto)+
      then show "parent ?s d = u" "u < d" "2 \<le> d" "d < fresh ?s" "wss ?s d \<noteq> None" using kid [of d u] by simp_all
    qed
    show "2 \<le> d" "d < fresh ?s" "d \<in> set (kids ?s (parent ?s d))" if "wss ?s d \<noteq> None" for d
    proof -
      have d: "d \<noteq> c" "wss s d \<noteq> None" using that by (auto split: if_splits)
      then obtain w where "wss s d = Some w" by blast
      then have "2 \<le> d" "d < fresh s" "d \<in> set (kids s (parent s d))" using shape_ws [OF i(1), of d] by blast+
      then show "2 \<le> d" "d < fresh ?s" "d \<in> set (kids ?s (parent ?s d))" using d(1) by auto
    qed
  qed
  moreover have "wss_ok ?s" unfolding wss_ok_def
  proof (intro allI impI)
    fix d w assume "wss ?s d = Some w"
    then have d: "d \<noteq> c" "wss s d = Some w" by (auto split: if_splits)
    have k: "d \<in> set (kids s (parent s d))" using shape_ws [OF i(1) d(2)] by simp
    have o: "ws_ok d w (pcs s d) (pcs s (parent s d)) (exits s d) (loads s d)" using i(2) d unfolding wss_ok_def by blast
    consider "d = t" | "d \<noteq> t" "parent s d = t" | "d \<noteq> t" "parent s d \<noteq> t" by auto
    then show "ws_ok d w (pcs ?s d) (pcs ?s (parent ?s d)) (exits ?s d) (loads ?s d)"
    proof cases
      case 1
      then have "parent s d \<noteq> t" using kid [OF k] by auto
      then show ?thesis using 1 assms(10) [of w] d by simp
    next
      case 2
      then have "d \<in> set (kids s t)" using k by simp
      then show ?thesis using 2 assms(11) [of d w] d by simp
    next
      case 3
      then show ?thesis using o by simp
    qed
  qed
  moreover have "pcs_ok ?s" unfolding pcs_ok_def
  proof
    fix u
    have "pc_ok (pcs s u) (kids s u) (pcs s)" using i(3) unfolding pcs_ok_def by blast
    then show "pc_ok (pcs ?s u) (kids ?s u) (pcs ?s)" using assms(6,7,9) pc_ok_move by (cases "u = t") auto
  qed
  moreover have "logs_ok ?s"
  proof -
    have a: "distinct (waited s)" "\<And>u d r. (u, d, r) \<in> set (waits s) \<Longrightarrow> r \<noteq> None \<Longrightarrow> wss s d = None \<and> 2 \<le> d \<and> d < fresh s \<and> parent s d = u \<and> exits s d = r"
      "\<And>u d r. (u, d, r) \<in> set (execs s) \<Longrightarrow> 2 \<le> d \<and> d < fresh s \<and> pcs s d \<noteq> Loading \<and> parent s d = u \<and> loads s d = Some r"
      using i(4) unfolding logs_ok_def by blast+
    have "c \<notin> set (waited s)" using a(2) pt(5) by (force simp: waited_def)
    then have "distinct (waited ?s)" using a(1) assms(12) by (auto simp: waited_def)
    moreover have "wss ?s d = None \<and> 2 \<le> d \<and> d < fresh s \<and> parent s d = u \<and> exits s d = r"
      if "(u, d, r) \<in> set ws" "r \<noteq> None" for u d r
    proof -
      have "(u, d, r) \<in> set (waits s) \<or> (u = t \<and> d = c \<and> exits s c = r)" using assms(12) that by auto
      then show ?thesis using a(2) [OF _ that(2), of u d] pt by auto
    qed
    moreover have "2 \<le> d \<and> d < fresh s \<and> pcs ?s d \<noteq> Loading \<and> parent s d = u \<and> loads s d = Some r"
      if "(u, d, r) \<in> set (execs s)" for u d r
      using a(3) [OF that] assms(5) by simp
    moreover have "d \<in> set (waited ?s)" if "2 \<le> d" "d < fresh s" "wss ?s d = None" "\<not> exiting (pcs ?s (parent s d))" for d
    proof (cases "d = c")
      case True
      then have "\<exists>v. ws = (t, c, Some v) # waits s" using that(4) assms(12) pt(1) by auto
      then obtain v where "ws = (t, c, Some v) # waits s" by blast
      then have "(t, d, Some v) \<in> set (waits ?s)" using True by simp
      then show ?thesis unfolding waited_iff by blast
    next
      case False
      then have "d \<in> set (waited s)" using that i(4) assms(8) unfolding logs_ok_def by (auto split: if_splits)
      moreover have "set (waits s) \<subseteq> set (waits ?s)" using assms(12) by auto
      ultimately show ?thesis unfolding waited_iff by blast
    qed
    ultimately show ?thesis unfolding logs_ok_def by simp
  qed
  ultimately show ?thesis by (simp add: pinv_def)
qed

lemma find_child_ws_eq:
  "(\<And>e. e \<in> set ks \<Longrightarrow> map_option ws_tid (wss s e) = Some e) \<Longrightarrow>
    find_child_ws ks c s = Some (if c \<in> set ks then Some c else None)"
proof (induction ks)
  case (Cons e es)
  obtain w where "wss s e = Some w" "ws_tid w = e" using Cons.prems [of e] by auto
  then show ?case using Cons by auto
qed simp

lemma pinv_tid: "pinv s \<Longrightarrow> e \<in> set (kids s t) \<Longrightarrow> map_option ws_tid (wss s e) = Some e"
  unfolding pinv_def using shape_kid [of s e t] by (auto simp: wss_ok_def ws_ok_def)

lemma pinv_pc: "pinv s \<Longrightarrow> pc_ok (pcs s t) (kids s t) (pcs s)"
  by (auto simp: pinv_def pcs_ok_def)

lemma pinv_ws: "pinv s \<Longrightarrow> wss s c = Some w \<Longrightarrow> ws_ok c w (pcs s c) (pcs s (parent s c)) (exits s c) (loads s c)"
  unfolding pinv_def wss_ok_def by blast

lemma pinv_alive:
  assumes "pinv s" "pcs s t \<noteq> Unborn" "\<not> past (pcs s t)" "t \<noteq> 1"
  obtains w where "wss s t = Some w"
proof -
  have "wss s t \<noteq> None" using assms unfolding pinv_def shape_def by (metis linorder_not_less one_add_one order_antisym_conv zless_add1_eq)
  then show ?thesis using that by blast
qed

lemma pinv_born: "pinv s \<Longrightarrow> pcs s t \<noteq> Unborn \<Longrightarrow> 1 \<le> t \<and> t < fresh s"
  unfolding pinv_def shape_def by blast

lemma pinv_main: "pinv s \<Longrightarrow> \<not> exiting (pcs s 1)" "pinv s \<Longrightarrow> pcs s 1 \<noteq> Loading"
  unfolding pinv_def shape_def by blast+

lemma pinv_kid:
  assumes "pinv s" "c \<in> set (kids s t)"
  obtains w where "parent s c = t" "t < c" "wss s c = Some w" "ws_ok c w (pcs s c) (pcs s t) (exits s c) (loads s c)"
  using assms shape_kid [of s c t] pinv_ws [of s c] unfolding pinv_def by fastforce

lemma pinv_kid_ws:
  assumes "pinv s" "c \<in> set (kids s t)" "wss s c = Some w"
  shows "ws_ok c w (pcs s c) (pcs s t) (exits s c) (loads s c)"
proof -
  have "parent s c = t" using assms(1,2) shape_kid [of s c t] by (simp add: pinv_def)
  then show ?thesis using pinv_ws [OF assms(1,3)] by simp
qed

text \<open>Creating a child.\<close>

definition executed :: "int \<Rightarrow> procs \<Rightarrow> procs" where
  "executed t s = s\<lparr>wss := (wss s)(fresh s \<mapsto> init_wait_status (fresh s)), kids := (kids s)(t := fresh s # kids s t, fresh s := []),
     parent := (parent s)(fresh s := t), pcs := (pcs s)(fresh s := Loading, t := Wait_load (fresh s)), fresh := fresh s + 1\<rparr>"

lemma process_execute_eq:
  assumes "t \<noteq> fresh s"
  shows "process_execute t b s = Some (if b then executed t s else s)"
  using assms by (simp add: process_execute_def executed_def goto_def init_wait_status_def Let_def)

lemma executed_pinv:
  assumes "pinv s" "pcs s t = Running"
  shows "pinv (executed t s)" (is "pinv ?s")
proof -
  let ?c = "fresh s"
  have i: "shape s" "wss_ok s" "pcs_ok s" "logs_ok s" using assms(1) by (auto simp: pinv_def)
  note kid = shape_kid [OF i(1)]
  have t: "1 \<le> t" "t < ?c" using pinv_born [OF assms(1), of t] assms(2) by auto
  have c: "2 \<le> ?c" "pcs s ?c = Unborn" "wss s ?c = None" using i(1) unfolding shape_def by (blast, fastforce, fastforce)
  have nk: "?c \<notin> set (kids s u)" for u using kid [of ?c u] by auto
  have kc: "kids s ?c = []" using pinv_pc [OF assms(1), of ?c] c(2) by (simp add: pc_ok_def)
  have "shape ?s" unfolding shape_def
  proof (intro conjI allI ballI impI)
    show "pcs ?s u = Unborn \<longleftrightarrow> \<not> (1 \<le> u \<and> u < fresh ?s)" for u
    proof -
      have "pcs s u = Unborn \<longleftrightarrow> \<not> (1 \<le> u \<and> u < ?c)" using i(1) unfolding shape_def by blast
      then show ?thesis using t c(1) by (cases "u = ?c"; cases "u = t") (auto simp: executed_def)
    qed
    show "past (pcs ?s d)" if "2 \<le> d \<and> d < fresh ?s \<and> wss ?s d = None" for d
      using i(1) that assms(2) t unfolding shape_def executed_def by (cases "d = t"; cases "d = ?c") auto
    show "\<not> exiting (pcs ?s 1)" "pcs ?s 1 \<noteq> Loading" "2 \<le> fresh ?s"
      using i(1) c(1) unfolding shape_def executed_def by (auto simp: exiting_def)
    show "distinct (kids ?s u)" for u using i(1) nk [of t] unfolding shape_def executed_def by simp
    show "parent ?s d = u" "u < d" "2 \<le> d" "d < fresh ?s" "wss ?s d \<noteq> None" if d: "d \<in> set (kids ?s u)" for u d
      using d kid [of d u] t c(1) nk [of u] by (cases "d = ?c"; cases "u = t"; cases "u = ?c"; auto simp: executed_def)+
    show "2 \<le> d" "d < fresh ?s" "d \<in> set (kids ?s (parent ?s d))" if d: "wss ?s d \<noteq> None" for d
    proof -
      have "d = ?c \<or> (d \<noteq> ?c \<and> 2 \<le> d \<and> d < ?c \<and> d \<in> set (kids s (parent s d)))"
        using d shape_ws [OF i(1), of d] c(3) by (cases "d = ?c") (auto simp: executed_def)
      then show "2 \<le> d" "d < fresh ?s" "d \<in> set (kids ?s (parent ?s d))"
        using c(1) t kc by (auto simp: executed_def)
    qed
  qed
  moreover have "wss_ok ?s" unfolding wss_ok_def
  proof (intro allI impI)
    fix d w assume w: "wss ?s d = Some w"
    show "ws_ok d w (pcs ?s d) (pcs ?s (parent ?s d)) (exits ?s d) (loads ?s d)"
    proof (cases "d = ?c")
      case True
      then show ?thesis using w t by (auto simp: executed_def ws_ok_def init_wait_status_def exiting_def)
    next
      case False
      then have d: "wss s d = Some w" using w by (simp add: executed_def)
      have k: "d \<in> set (kids s (parent s d))" using shape_ws [OF i(1) d] by blast
      have p: "parent s d < ?c" "d < ?c" "2 \<le> d" using kid [OF k] by auto
      have "ws_ok d w (pcs s d) (pcs s (parent s d)) (exits s d) (loads s d)" by (rule pinv_ws [OF assms(1) d])
      then have "ws_ok d w (pcs ?s d) (pcs s (parent s d)) (exits s d) (loads s d)"
        by (rule ws_ok_child) (use False p assms(2) in \<open>auto simp: executed_def exiting_def\<close>)
      then have "ws_ok d w (pcs ?s d) (pcs ?s (parent s d)) (exits s d) (loads s d)"
        by (rule ws_ok_parent) (use False p assms(2) in \<open>auto simp: executed_def\<close>)
      then show ?thesis using False by (simp add: executed_def)
    qed
  qed
  moreover have "pcs_ok ?s" unfolding pcs_ok_def
  proof
    fix u
    have "pc_ok (pcs s u) (kids s u) ((pcs s)(?c := Loading, t := Wait_load ?c))"
      using pinv_pc [OF assms(1), of u] assms(2) c(2) by (intro pc_ok_move) auto
    then show "pc_ok (pcs ?s u) (kids ?s u) (pcs ?s)" using t by (cases "u = t"; cases "u = ?c") (auto simp: executed_def pc_ok_def)
  qed
  moreover have "logs_ok ?s" unfolding logs_ok_def
  proof (intro conjI allI impI)
    show "distinct (waited ?s)" using i(4) by (simp add: logs_ok_def waited_def executed_def)
    fix u d r
    show "wss ?s d = None" "2 \<le> d" "d < fresh ?s" "parent ?s d = u" "exits ?s d = r" if "(u, d, r) \<in> set (waits ?s)" "r \<noteq> None"
    proof -
      have "wss s d = None \<and> 2 \<le> d \<and> d < fresh s \<and> parent s d = u \<and> exits s d = r"
        using i(4) that unfolding logs_ok_def executed_def by simp
      then show "wss ?s d = None" "2 \<le> d" "d < fresh ?s" "parent ?s d = u" "exits ?s d = r" by (auto simp: executed_def)
    qed
    fix v
    show "2 \<le> d" "d < fresh ?s" "pcs ?s d \<noteq> Loading" "parent ?s d = u" "loads ?s d = Some v" if "(u, d, v) \<in> set (execs ?s)"
    proof -
      have "2 \<le> d \<and> d < fresh s \<and> pcs s d \<noteq> Loading \<and> parent s d = u \<and> loads s d = Some v"
        using i(4) that unfolding logs_ok_def executed_def by simp
      then show "2 \<le> d" "d < fresh ?s" "pcs ?s d \<noteq> Loading" "parent ?s d = u" "loads ?s d = Some v" by (auto simp: executed_def)
    qed
    show "d \<in> set (waited ?s)" if "2 \<le> d" "d < fresh ?s" "wss ?s d = None" "\<not> exiting (pcs ?s (parent ?s d))"
    proof -
      have d: "d \<noteq> ?c" "d < ?c" "wss s d = None" using that by (auto simp: executed_def split: if_splits)
      have "\<not> exiting (pcs s (parent s d))"
        using that(4) d(1) c(2) assms(2) by (auto simp: executed_def exiting_def split: if_splits)
      then show ?thesis using i(4) d that(1) by (simp add: logs_ok_def waited_def executed_def)
    qed
  qed
  ultimately show ?thesis by (simp add: pinv_def)
qed

text \<open>The other steps.\<close>

lemma positive_up [simp]: "sema_value (up x) = sema_value x + 1" "sema_value (down x) = sema_value x - 1"
  by (simp_all add: up_def down_def)

lemma start_process_pinv:
  assumes "pinv s" "pcs s t = Loading"
  shows "\<exists>s'. start_process t b s = Some s' \<and> pinv s'"
proof -
  have t: "t \<noteq> 1" "1 \<le> t" "t < fresh s" using pinv_main(2) [OF assms(1)] pinv_born [OF assms(1), of t] assms(2) by auto
  obtain w where w: "wss s t = Some w" using pinv_alive [OF assms(1), of t] assms(2) t(1) by auto
  have o: "ws_ok t w Loading (pcs s (parent s t)) (exits s t) (loads s t)" using pinv_ws [OF assms(1) w] assms(2) by simp
  have k: "kids s t = []" using pinv_pc [OF assms(1), of t] assms(2) by (simp add: pc_ok_def)
  define v where "v = w\<lparr>done_loading := up (done_loading w)\<rparr>"
  define v' where "v' = w\<lparr>exit_status := 1, load_error := 1, done_loading := up (done_loading w)\<rparr>"
  show ?thesis
  proof (cases b)
    case True
    then have "start_process t b s = Some (s\<lparr>wss := (wss s)(t \<mapsto> v), pcs := (pcs s)(t := Running), exits := exits s, loads := (loads s)(t \<mapsto> True)\<rparr>)"
      using w by (simp add: start_process_def upd_ws_def goto_def v_def)
    moreover have "pinv (s\<lparr>wss := (wss s)(t \<mapsto> v), pcs := (pcs s)(t := Running), exits := exits s, loads := (loads s)(t \<mapsto> True)\<rparr>)"
      by (rule pinv_move [OF assms(1) t(2,3), where g = "\<lambda>_ _. v"])
        (use assms(2) t k w o in \<open>auto simp: pc_ok_def exiting_def ws_ok_def v_def\<close>)
    ultimately show ?thesis by blast
  next
    case False
    then have "start_process t b s = Some (s\<lparr>wss := (wss s)(t \<mapsto> v'), pcs := (pcs s)(t := Dec), exits := (exits s)(t \<mapsto> 1), loads := (loads s)(t \<mapsto> False)\<rparr>)"
      using w by (simp add: start_process_def upd_ws_def goto_def v'_def)
    moreover have "pinv (s\<lparr>wss := (wss s)(t \<mapsto> v'), pcs := (pcs s)(t := Dec), exits := (exits s)(t \<mapsto> 1), loads := (loads s)(t \<mapsto> False)\<rparr>)"
      by (rule pinv_move [OF assms(1) t(2,3), where g = "\<lambda>_ _. v'"])
        (use assms(2) t k w o in \<open>auto simp: pc_ok_def exiting_def ws_ok_def v'_def\<close>)
    ultimately show ?thesis by blast
  qed
qed

lemma thread_exit_pinv:
  assumes "pinv s" "pcs s t = Running" "t \<noteq> 1" "list_all (\<lambda>c. pcs s c = Gone) (kids s t)"
  shows "\<exists>s'. thread_exit_with_status t x s = Some s' \<and> pinv s'"
proof -
  have t: "1 \<le> t" "t < fresh s" using pinv_born [OF assms(1), of t] assms(2) by auto
  obtain w where w: "wss s t = Some w" using pinv_alive [OF assms(1), of t] assms(2,3) by auto
  have o: "ws_ok t w Running (pcs s (parent s t)) (exits s t) (loads s t)" using pinv_ws [OF assms(1) w] assms(2) by simp
  let ?s = "s\<lparr>wss := (wss s)(t \<mapsto> w\<lparr>exit_status := x\<rparr>), pcs := (pcs s)(t := Dec), exits := (exits s)(t \<mapsto> x), loads := loads s\<rparr>"
  have nt: "t \<notin> set (kids s t)" using shape_kid [of s t t] assms(1) by (auto simp: pinv_def)
  have "pinv ?s"
  proof (rule pinv_move [OF assms(1) t, where g = "\<lambda>c v. if c = t then w\<lparr>exit_status := x\<rparr> else v"])
    fix c v assume c: "c \<in> set (kids s t)" "wss s c = Some v"
    have "ws_ok c v (pcs s c) (pcs s t) (exits s c) (loads s c)" using c by (rule pinv_kid_ws [OF assms(1)])
    then show "((wss s)(t \<mapsto> w\<lparr>exit_status := x\<rparr>)) c = Some (if c = t then w\<lparr>exit_status := x\<rparr> else v) \<and>
      ws_ok c (if c = t then w\<lparr>exit_status := x\<rparr> else v) (pcs s c) Dec (exits s c) (loads s c)"
      using c nt assms(2) by (auto simp: ws_ok_def)
  qed (use assms(2-4) w o nt in \<open>auto simp: pc_ok_def exiting_def ws_ok_def list_all_iff\<close>)
  moreover have "thread_exit_with_status t x s = Some ?s" using w by (simp add: thread_exit_with_status_def upd_ws_def goto_def)
  ultimately show ?thesis by blast
qed

lemma pinv_execs:
  assumes "pinv s" "2 \<le> c" "c < fresh s" "pcs s c \<noteq> Loading" "parent s c = t" "loads s c = Some r" "es = (t, c, r) # execs s"
  shows "pinv (s\<lparr>execs := es\<rparr>)"
proof -
  have "shape (s\<lparr>execs := es\<rparr>) = shape s" "wss_ok (s\<lparr>execs := es\<rparr>) = wss_ok s" "pcs_ok (s\<lparr>execs := es\<rparr>) = pcs_ok s"
    by (simp_all add: shape_def wss_ok_def pcs_ok_def)
  moreover have "logs_ok s \<Longrightarrow> logs_ok (s\<lparr>execs := es\<rparr>)"
    unfolding logs_ok_def using assms(2-7) by (simp add: waited_def)
  ultimately show ?thesis using assms(1) by (simp add: pinv_def)
qed

lemma process_execute_end_pinv:
  assumes "pinv s" "pcs s t = Wait_load c" "positive done_loading c s"
  shows "\<exists>s'. process_execute_end t c s = Some s' \<and> pinv s'"
proof -
  have t: "1 \<le> t" "t < fresh s" using pinv_born [OF assms(1), of t] assms(2) by auto
  have c: "c \<in> set (kids s t)" using pinv_pc [OF assms(1), of t] assms(2) by (simp add: pc_ok_def)
  obtain w where w: "parent s c = t" "t < c" "wss s c = Some w" "ws_ok c w (pcs s c) (pcs s t) (exits s c) (loads s c)"
    using pinv_kid [OF assms(1) c] by blast
  have nl: "pcs s c \<noteq> Loading" using w assms(2,3) by (auto simp: positive_def ws_ok_def)
  define v where "v = w\<lparr>done_loading := down (done_loading w)\<rparr>"
  let ?s = "s\<lparr>wss := (wss s)(c \<mapsto> v), pcs := (pcs s)(t := Running), exits := exits s, loads := loads s\<rparr>"
  have "pinv ?s"
  proof (rule pinv_move [OF assms(1) t, where g = "\<lambda>d u. if d = c then v else u"])
    fix d u assume d: "d \<in> set (kids s t)" "wss s d = Some u"
    have o: "ws_ok d u (pcs s d) (pcs s t) (exits s d) (loads s d)" using d by (rule pinv_kid_ws [OF assms(1)])
    show "((wss s)(c \<mapsto> v)) d = Some (if d = c then v else u) \<and> ws_ok d (if d = c then v else u) (pcs s d) Running (exits s d) (loads s d)"
    proof (cases "d = c")
      case True
      then show ?thesis using o d w assms(2) nl by (simp add: ws_ok_def v_def)
    next
      case False
      then show ?thesis using ws_ok_parent [OF o, of Running] d assms(2) by simp
    qed
  next
    fix u assume u: "wss s t = Some u"
    show "((wss s)(c \<mapsto> v)) t = Some (if t = c then v else u) \<and> ws_ok t (if t = c then v else u) Running (pcs s (parent s t)) (exits s t) (loads s t)"
      using ws_ok_child [OF pinv_ws [OF assms(1) u], of Running] w(2) u assms(2) by (simp add: exiting_def)
  qed (use assms(2) w c in \<open>auto simp: pc_ok_def exiting_def\<close>)
  moreover have "loads s c = Some (load_error v = 0)" using w(4) nl by (auto simp: ws_ok_def v_def)
  moreover have "2 \<le> c" "c < fresh s" using assms(1) shape_kid [OF _ c] by (auto simp: pinv_def)
  ultimately have "pinv (?s\<lparr>execs := (t, c, load_error v = 0) # execs s\<rparr>)"
    using w(1,2) nl by (intro pinv_execs) simp_all
  moreover have "process_execute_end t c s = Some (?s\<lparr>execs := (t, c, load_error v = 0) # execs s\<rparr>)"
    using w(3) by (simp add: process_execute_end_def upd_ws_def goto_def v_def)
  ultimately show ?thesis by blast
qed

lemma process_wait_pinv:
  assumes "pinv s" "pcs s t = Running"
  shows "process_wait t c s = Some (if c \<in> set (kids s t) then goto t (In_wait c) s else s\<lparr>waits := (t, c, None) # waits s\<rparr>)"
    and "\<exists>s'. process_wait t c s = Some s' \<and> pinv s'"
proof -
  have t: "1 \<le> t" "t < fresh s" using pinv_born [OF assms(1), of t] assms(2) by auto
  have "find_child_ws (kids s t) c s = Some (if c \<in> set (kids s t) then Some c else None)"
    by (rule find_child_ws_eq) (rule pinv_tid [OF assms(1)])
  then show e: "process_wait t c s = Some (if c \<in> set (kids s t) then goto t (In_wait c) s else s\<lparr>waits := (t, c, None) # waits s\<rparr>)"
    by (simp add: process_wait_def)
  have "pinv (s\<lparr>waits := (t, c, None) # waits s\<rparr>)"
  proof -
    let ?s = "s\<lparr>waits := (t, c, None) # waits s\<rparr>"
    have "shape ?s = shape s" "wss_ok ?s = wss_ok s" "pcs_ok ?s = pcs_ok s" by (simp_all add: shape_def wss_ok_def pcs_ok_def)
    moreover have "logs_ok s \<Longrightarrow> logs_ok ?s" unfolding logs_ok_def by (simp add: waited_def)
    ultimately show ?thesis using assms(1) by (simp add: pinv_def)
  qed
  moreover have "pinv (goto t (In_wait c) s)" if c: "c \<in> set (kids s t)"
  proof -
    have "pinv (s\<lparr>wss := wss s, pcs := (pcs s)(t := In_wait c), exits := exits s, loads := loads s\<rparr>)"
    proof (rule pinv_move [OF assms(1) t, where g = "\<lambda>d u. u"])
      fix d u assume d: "d \<in> set (kids s t)" "wss s d = Some u"
      show "wss s d = Some u \<and> ws_ok d u (pcs s d) (In_wait c) (exits s d) (loads s d)"
        using ws_ok_parent [OF pinv_kid_ws [OF assms(1) d], of "In_wait c"] d assms(2) by simp
    next
      fix u assume u: "wss s t = Some u"
      show "wss s t = Some u \<and> ws_ok t u (In_wait c) (pcs s (parent s t)) (exits s t) (loads s t)"
        using ws_ok_child [OF pinv_ws [OF assms(1) u], of "In_wait c"] u assms(2) by (simp add: exiting_def)
    qed (use assms(2) c in \<open>auto simp: pc_ok_def exiting_def\<close>)
    then show ?thesis by (simp add: goto_def)
  qed
  ultimately show "\<exists>s'. process_wait t c s = Some s' \<and> pinv s'" using e by simp
qed

lemma In_wait_pinv:
  assumes "pinv s" "pcs s t = In_wait c" "positive dead c s"
  shows "\<exists>s'. tau t s = Some s' \<and> pinv s'"
proof -
  have t: "1 \<le> t" "t < fresh s" using pinv_born [OF assms(1), of t] assms(2) by auto
  have c: "c \<in> set (kids s t)" using pinv_pc [OF assms(1), of t] assms(2) by (simp add: pc_ok_def)
  obtain w where w: "parent s c = t" "t < c" "wss s c = Some w" "ws_ok c w (pcs s c) (pcs s t) (exits s c) (loads s c)"
    using pinv_kid [OF assms(1) c] by blast
  have pa: "past (pcs s c)" "pcs s c \<noteq> Loading" using w assms(2,3) by (auto simp: positive_def ws_ok_def split: if_splits)
  define v where "v = w\<lparr>dead := down (dead w)\<rparr>"
  let ?s = "s\<lparr>wss := (wss s)(c \<mapsto> v), pcs := (pcs s)(t := Collect c), exits := exits s, loads := loads s\<rparr>"
  have "pinv ?s"
  proof (rule pinv_move [OF assms(1) t, where g = "\<lambda>d u. if d = c then v else u"])
    fix d u assume d: "d \<in> set (kids s t)" "wss s d = Some u"
    have o: "ws_ok d u (pcs s d) (pcs s t) (exits s d) (loads s d)" using d by (rule pinv_kid_ws [OF assms(1)])
    show "((wss s)(c \<mapsto> v)) d = Some (if d = c then v else u) \<and> ws_ok d (if d = c then v else u) (pcs s d) (Collect c) (exits s d) (loads s d)"
    proof (cases "d = c")
      case True
      then show ?thesis using o d w assms(2) pa by (simp add: ws_ok_def v_def)
    next
      case False
      then show ?thesis using ws_ok_parent [OF o, of "Collect c"] d assms(2) by simp
    qed
  next
    fix u assume u: "wss s t = Some u"
    show "((wss s)(c \<mapsto> v)) t = Some (if t = c then v else u) \<and> ws_ok t (if t = c then v else u) (Collect c) (pcs s (parent s t)) (exits s t) (loads s t)"
      using ws_ok_child [OF pinv_ws [OF assms(1) u], of "Collect c"] w(2) u assms(2) by (simp add: exiting_def)
  qed (use assms(2) w c pa in \<open>auto simp: pc_ok_def exiting_def\<close>)
  moreover have "tau t s = Some ?s" using w(3) assms(2) by (simp add: tau_def upd_ws_def goto_def v_def)
  ultimately show ?thesis by blast
qed

lemma list_remove_kid:
  assumes "pinv s" "c \<in> set (kids s t)" "pcs s t \<noteq> Gone"
  shows "destroy_wait_status c s = Some (s\<lparr>wss := (wss s)(c := None), kids := (kids s)(t := remove1 c (kids s t))\<rparr>)"
proof -
  obtain w where "parent s c = t" "wss s c = Some w" using pinv_kid [OF assms(1,2)] by blast
  then show ?thesis using assms(2,3) by (simp add: destroy_wait_status_def list_remove_ws_def)
qed

lemma Collect_pinv:
  assumes "pinv s" "pcs s t = Collect c"
  shows "\<exists>s'. tau t s = Some s' \<and> pinv s'"
proof -
  have c: "c \<in> set (kids s t)" "past (pcs s c)" using pinv_pc [OF assms(1), of t] assms(2) by (simp_all add: pc_ok_def)
  obtain w where w: "parent s c = t" "t < c" "wss s c = Some w" "ws_ok c w (pcs s c) (pcs s t) (exits s c) (loads s c)"
    using pinv_kid [OF assms(1) c(1)] by blast
  let ?s = "s\<lparr>wss := (wss s)(c := None), kids := (kids s)(t := remove1 c (kids s t)), pcs := (pcs s)(t := Running),
    waits := (t, c, Some (exit_status w)) # waits s\<rparr>"
  have "pinv ?s"
  proof (rule pinv_destroy [OF assms(1) c])
    fix u assume u: "wss s t = Some u"
    show "ws_ok t u Running (pcs s (parent s t)) (exits s t) (loads s t)"
      using ws_ok_child [OF pinv_ws [OF assms(1) u], of Running] assms(2) by (simp add: exiting_def)
  next
    fix d u assume d: "d \<in> set (kids s t)" "d \<noteq> c" "wss s d = Some u"
    show "ws_ok d u (pcs s d) Running (exits s d) (loads s d)"
      using ws_ok_parent [OF pinv_kid_ws [OF assms(1) d(1,3)], of Running] d(2) assms(2) by simp
  qed (use assms(2) w(4) c(2) in \<open>auto simp: pc_ok_def exiting_def ws_ok_def\<close>)
  moreover have "tau t s = Some ?s"
    using w(3) assms(2) list_remove_kid [OF assms(1) c(1)] by (simp add: tau_def process_wait_end_def goto_def)
  ultimately show ?thesis by blast
qed

lemma ws_ok_Dec:
  "ws_ok c w Dec q e l \<Longrightarrow> \<not> freeing c q \<Longrightarrow> ws_ok c (w\<lparr>reference_count := reference_count w - 1\<rparr>) Up q e l"
  by (simp add: ws_ok_def exiting_def)

lemma ws_ok_Up:
  "ws_ok c w Up q e l \<Longrightarrow> q \<noteq> Collect c \<Longrightarrow> ws_ok c (w\<lparr>dead := up (dead w)\<rparr>) (Loop f) q e l"
  by (simp add: ws_ok_def exiting_def)

text \<open>The parent of a process that has not ended is not at a point where it should have.\<close>

lemma pinv_parent:
  assumes "pinv s" "\<not> past (pcs s t)" "wss s t = Some w"
  shows "\<not> freeing t (pcs s (parent s t))" "pcs s (parent s t) \<noteq> Collect t"
proof -
  have "t \<in> set (kids s (parent s t))" using assms(1,3) shape_ws [of s t w] by (simp add: pinv_def)
  then show "\<not> freeing t (pcs s (parent s t))" "pcs s (parent s t) \<noteq> Collect t"
    using pinv_pc [OF assms(1), of "parent s t"] assms(2) by (auto simp: pc_ok_def list_all_iff split: pc.splits)
qed

text \<open>A step of an exiting process that changes its own wait status.\<close>

lemma pinv_own:
  assumes "pinv s" "pcs s t \<in> {Dec, Up}" "wss s t = Some w" "exiting p" "p \<noteq> Destroy"
    "pc_ok p (kids s t) ((pcs s)(t := p))" "ws_ok t v p (pcs s (parent s t)) (exits s t) (loads s t)"
    "\<not> (\<exists>d e. p = Loop_destroy d e)"
  shows "pinv (s\<lparr>wss := (wss s)(t \<mapsto> v), pcs := (pcs s)(t := p)\<rparr>)"
proof -
  have t: "1 \<le> t" "t < fresh s" using pinv_born [OF assms(1), of t] assms(2) by auto
  have nt: "t \<notin> set (kids s t)" using shape_kid [of s t t] assms(1) by (auto simp: pinv_def)
  have n1: "t \<noteq> 1" using pinv_main(1) [OF assms(1)] assms(2) by (auto simp: exiting_def)
  have "pinv (s\<lparr>wss := (wss s)(t \<mapsto> v), pcs := (pcs s)(t := p), exits := exits s, loads := loads s\<rparr>)"
  proof (rule pinv_move [OF assms(1) t, where g = "\<lambda>d u. if d = t then v else u"])
    fix d u assume d: "d \<in> set (kids s t)" "wss s d = Some u"
    have "ws_ok d u (pcs s d) p (exits s d) (loads s d)"
      by (rule ws_ok_parent [OF pinv_kid_ws [OF assms(1) d]])
        (use assms(2,4,8) in \<open>auto simp: exiting_def elim!: past.elims\<close>)
    then show "((wss s)(t \<mapsto> v)) d = Some (if d = t then v else u) \<and> ws_ok d (if d = t then v else u) (pcs s d) p (exits s d) (loads s d)"
      using d nt by auto
  qed (use assms n1 in \<open>auto simp: exiting_def\<close>)
  then show ?thesis by simp
qed

lemma Dec_pinv:
  assumes "pinv s" "pcs s t = Dec"
  shows "\<exists>s'. tau t s = Some s' \<and> pinv s'"
proof -
  have n1: "t \<noteq> 1" using pinv_main(1) [OF assms(1)] assms(2) by (auto simp: exiting_def)
  obtain w where w: "wss s t = Some w" using pinv_alive [OF assms(1), of t] assms(2) n1 by auto
  have o: "ws_ok t w Dec (pcs s (parent s t)) (exits s t) (loads s t)" using pinv_ws [OF assms(1) w] assms(2) by simp
  let ?w = "w\<lparr>reference_count := reference_count w - 1\<rparr>"
  let ?s = "s\<lparr>wss := (wss s)(t \<mapsto> ?w), pcs := (pcs s)(t := Up)\<rparr>"
  have "ws_ok t ?w Up (pcs s (parent s t)) (exits s t) (loads s t)"
    by (rule ws_ok_Dec [OF o]) (use pinv_parent(1) [OF assms(1) _ w] assms(2) in simp)
  then have "pinv ?s" using assms w pinv_pc [OF assms(1), of t]
    by (intro pinv_own [OF assms(1) _ w]) (auto simp: exiting_def pc_ok_def list_all_iff)
  moreover have "tau t s = Some ?s" using w assms(2) o by (simp add: tau_def decrement_def upd_ws_def goto_def ws_ok_def)
  ultimately show ?thesis by blast
qed

lemma Up_pinv:
  assumes "pinv s" "pcs s t = Up"
  shows "\<exists>s'. tau t s = Some s' \<and> pinv s'"
proof -
  have n1: "t \<noteq> 1" using pinv_main(1) [OF assms(1)] assms(2) by (auto simp: exiting_def)
  obtain w where w: "wss s t = Some w" using pinv_alive [OF assms(1), of t] assms(2) n1 by auto
  have o: "ws_ok t w Up (pcs s (parent s t)) (exits s t) (loads s t)" using pinv_ws [OF assms(1) w] assms(2) by simp
  let ?w = "w\<lparr>dead := up (dead w)\<rparr>"
  let ?s = "s\<lparr>wss := (wss s)(t \<mapsto> ?w), pcs := (pcs s)(t := Loop (first_child t s))\<rparr>"
  have "ws_ok t ?w (Loop (first_child t s)) (pcs s (parent s t)) (exits s t) (loads s t)"
    by (rule ws_ok_Up [OF o]) (use pinv_parent(2) [OF assms(1) _ w] assms(2) in simp)
  then have "pinv ?s" using assms w pinv_pc [OF assms(1), of t]
    by (intro pinv_own [OF assms(1) _ w]) (auto simp: exiting_def pc_ok_def list_all_iff first_child_def)
  moreover have "tau t s = Some ?s" using w assms(2) o by (simp add: tau_def upd_ws_def goto_def first_child_def)
  ultimately show ?thesis by blast
qed

lemma Loop_pinv:
  assumes "pinv s" "pcs s t = Loop e"
  shows "\<exists>s'. tau t s = Some s' \<and> pinv s'"
proof (cases e)
  case None
  have t: "1 \<le> t" "t < fresh s" using pinv_born [OF assms(1), of t] assms(2) by auto
  have n1: "t \<noteq> 1" using pinv_main(1) [OF assms(1)] assms(2) by (auto simp: exiting_def)
  have k: "kids s t = []" using pinv_pc [OF assms(1), of t] assms(2) None by (simp add: pc_ok_def split: list.splits)
  have "pinv (s\<lparr>wss := wss s, pcs := (pcs s)(t := Gone), exits := exits s, loads := loads s\<rparr>)"
  proof (rule pinv_move [OF assms(1) t, where g = "\<lambda>d u. u"])
    fix u assume u: "wss s t = Some u"
    show "wss s t = Some u \<and> ws_ok t u Gone (pcs s (parent s t)) (exits s t) (loads s t)"
      using ws_ok_child [OF pinv_ws [OF assms(1) u], of Gone] u assms(2) by (simp add: exiting_def)
  qed (use assms(2) k n1 in \<open>auto simp: pc_ok_def exiting_def\<close>)
  moreover have "tau t s = Some (s\<lparr>wss := wss s, pcs := (pcs s)(t := Gone), exits := exits s, loads := loads s\<rparr>)"
    using assms(2) None by (simp add: tau_def goto_def)
  ultimately show ?thesis by blast
next
  case (Some c)
  have t: "1 \<le> t" "t < fresh s" using pinv_born [OF assms(1), of t] assms(2) by auto
  have n1: "t \<noteq> 1" using pinv_main(1) [OF assms(1)] assms(2) by (auto simp: exiting_def)
  obtain r where k: "kids s t = c # r" "list_all (\<lambda>c. pcs s c = Gone) (c # r)"
    using pinv_pc [OF assms(1), of t] assms(2) Some by (auto simp: pc_ok_def split: list.splits)
  obtain w where w: "parent s c = t" "t < c" "wss s c = Some w" "ws_ok c w (pcs s c) (pcs s t) (exits s c) (loads s c)"
    using pinv_kid [OF assms(1), of c t] k by auto
  define e' where "e' = next_elem c (kids s t)"
  let ?w = "w\<lparr>reference_count := reference_count w - 1\<rparr>"
  let ?s = "s\<lparr>wss := (wss s)(c \<mapsto> ?w), pcs := (pcs s)(t := Loop_destroy c e'), exits := exits s, loads := loads s\<rparr>"
  have "pinv ?s"
  proof (rule pinv_move [OF assms(1) t, where g = "\<lambda>d u. if d = c then ?w else u"])
    fix d u assume d: "d \<in> set (kids s t)" "wss s d = Some u"
    have o: "ws_ok d u (pcs s d) (pcs s t) (exits s d) (loads s d)" using d by (rule pinv_kid_ws [OF assms(1)])
    show "((wss s)(c \<mapsto> ?w)) d = Some (if d = c then ?w else u) \<and> ws_ok d (if d = c then ?w else u) (pcs s d) (Loop_destroy c e') (exits s d) (loads s d)"
    proof (cases "d = c")
      case True
      then show ?thesis using o d w assms(2) k(2) by (simp add: ws_ok_def)
    next
      case False
      then show ?thesis using ws_ok_parent [OF o, of "Loop_destroy c e'"] d assms(2) by simp
    qed
  next
    fix u assume u: "wss s t = Some u"
    show "((wss s)(c \<mapsto> ?w)) t = Some (if t = c then ?w else u) \<and> ws_ok t (if t = c then ?w else u) (Loop_destroy c e') (pcs s (parent s t)) (exits s t) (loads s t)"
      using ws_ok_child [OF pinv_ws [OF assms(1) u], of "Loop_destroy c e'"] w(2) u assms(2) by (simp add: exiting_def)
  qed (use assms(2) w k n1 in \<open>auto simp: pc_ok_def list_all_iff e'_def split: list.splits\<close>)
  moreover have "tau t s = Some ?s"
    using w(3,4) assms(2) Some k(2) by (simp add: tau_def decrement_def upd_ws_def goto_def ws_ok_def e'_def)
  ultimately show ?thesis by blast
qed

lemma Loop_destroy_pinv:
  assumes "pinv s" "pcs s t = Loop_destroy c e"
  shows "\<exists>s'. tau t s = Some s' \<and> pinv s'"
proof -
  have n1: "t \<noteq> 1" using pinv_main(1) [OF assms(1)] assms(2) by (auto simp: exiting_def)
  obtain r where k: "kids s t = c # r" "list_all (\<lambda>c. pcs s c = Gone) (c # r)" "e = (case r of [] \<Rightarrow> None | c # _ \<Rightarrow> Some c)"
    using pinv_pc [OF assms(1), of t] assms(2) by (cases "kids s t") (auto simp: pc_ok_def)
  have c: "c \<in> set (kids s t)" "past (pcs s c)" using k by simp_all
  obtain w where w: "parent s c = t" "t < c" "wss s c = Some w" using pinv_kid [OF assms(1) c(1)] by blast
  have r: "t \<notin> set r" using shape_kid [of s t t] assms(1) k(1) by (auto simp: pinv_def)
  let ?s = "s\<lparr>wss := (wss s)(c := None), kids := (kids s)(t := remove1 c (kids s t)), pcs := (pcs s)(t := Loop e), waits := waits s\<rparr>"
  have "pinv ?s"
  proof (rule pinv_destroy [OF assms(1) c])
    fix u assume u: "wss s t = Some u"
    show "ws_ok t u (Loop e) (pcs s (parent s t)) (exits s t) (loads s t)"
      using ws_ok_child [OF pinv_ws [OF assms(1) u], of "Loop e"] assms(2) by (simp add: exiting_def)
  next
    fix d u assume d: "d \<in> set (kids s t)" "d \<noteq> c" "wss s d = Some u"
    show "ws_ok d u (pcs s d) (Loop e) (exits s d) (loads s d)"
      using ws_ok_parent [OF pinv_kid_ws [OF assms(1) d(1,3)], of "Loop e"] d(2) assms(2) by simp
  qed (use assms(2) k r n1 in \<open>auto simp: pc_ok_def list_all_iff\<close>)
  moreover have "tau t s = Some ?s"
    using w(3) assms(2) list_remove_kid [OF assms(1) c(1)] by (simp add: tau_def goto_def)
  ultimately show ?thesis by blast
qed

lemma orderly_step:
  assumes "pinv s" "can t a s" "orderly t a s"
  shows "\<exists>s'. do_act t a s = Some s' \<and> pinv s'"
proof (cases "pcs s t")
  case Running
  then show ?thesis
    using assms process_execute_eq [of t s] executed_pinv [OF assms(1)] process_wait_pinv(2) [OF assms(1)] thread_exit_pinv [OF assms(1)]
      pinv_born [OF assms(1), of t]
    by (cases a) (auto simp: can_def do_act_def orderly_def)
next
  case Loading
  then show ?thesis using assms start_process_pinv [OF assms(1)] by (cases a) (auto simp: can_def do_act_def)
next
  case (Wait_load c)
  then show ?thesis using assms process_execute_end_pinv [OF assms(1)] by (cases a) (auto simp: can_def do_act_def tau_def)
next
  case (In_wait c)
  then show ?thesis using assms In_wait_pinv [OF assms(1)] by (cases a) (auto simp: can_def do_act_def)
next
  case Destroy
  then show ?thesis using pinv_pc [OF assms(1), of t] by (simp add: pc_ok_def)
qed (use assms Collect_pinv [OF assms(1)] Dec_pinv [OF assms(1)] Up_pinv [OF assms(1)] Loop_pinv [OF assms(1)]
  Loop_destroy_pinv [OF assms(1)] in \<open>auto simp: can_def do_act_def\<close>)

lemma run_pinv: "run orderly s \<Longrightarrow> pinv s"
proof (induction rule: run.induct)
  case (run_step s t a s')
  then show ?case using orderly_step [of s t a] by simp
qed (rule pinv_start)

section \<open>Properties\<close>

text \<open>C21: waiting for children, in any interleaving of processes in which a process exits only once the children it has
  not waited for are gone. No step touches a wait status or a list of children after it was freed, and no step
  fails. Every wait that returns a status returns the one that the child, a child of the caller, gave to
  \<^verbatim>\<open>exit\<close>, and at most one wait succeeds per child. \<^verbatim>\<open>process_execute\<close> returns the new process exactly if
  its program was loaded. A wait for a process that is not a child of the caller, or that was waited for, returns -1
  at once; a wait for any other child does not, and it can go on once the child is gone.\<close>

theorem process_wait_correct:
  assumes "run orderly s"
  shows "(\<forall>t a. can t a s \<and> orderly t a s \<longrightarrow> do_act t a s \<noteq> None) \<and> distinct (waited s) \<and>
    (\<forall>t c v. (t, c, Some v) \<in> set (waits s) \<longrightarrow> parent s c = t \<and> exits s c = Some v) \<and>
    (\<forall>t c b. (t, c, b) \<in> set (execs s) \<longrightarrow> parent s c = t \<and> loads s c = Some b) \<and>
    (\<forall>t c. pcs s t = Running \<longrightarrow> process_wait t c s =
      Some (if 2 \<le> c \<and> c < fresh s \<and> parent s c = t \<and> c \<notin> set (waited s) then goto t (In_wait c) s
        else s\<lparr>waits := (t, c, None) # waits s\<rparr>)) \<and>
    (\<forall>t c. pcs s t = In_wait c \<and> pcs s c = Gone \<longrightarrow> can t Tau s)"
proof (intro conjI allI impI)
  have i: "pinv s" using assms by (rule run_pinv)
  have l: "logs_ok s" "shape s" using i by (auto simp: pinv_def)
  show "do_act t a s \<noteq> None" if "can t a s \<and> orderly t a s" for t a using orderly_step [OF i, of t a] that by fastforce
  show "distinct (waited s)" using l(1) unfolding logs_ok_def by blast
  show "parent s c = t" "exits s c = Some v" if "(t, c, Some v) \<in> set (waits s)" for t c v using l(1) that unfolding logs_ok_def by blast+
  show "parent s c = t" "loads s c = Some b" if "(t, c, b) \<in> set (execs s)" for t c b using l(1) that unfolding logs_ok_def by blast+
  show "process_wait t c s = Some (if 2 \<le> c \<and> c < fresh s \<and> parent s c = t \<and> c \<notin> set (waited s) then goto t (In_wait c) s
        else s\<lparr>waits := (t, c, None) # waits s\<rparr>)" if t: "pcs s t = Running" for t c
  proof -
    have "wss s c = None" if "c \<in> set (waited s)" using l(1) that unfolding waited_iff logs_ok_def by blast
    then have "c \<in> set (kids s t) \<longleftrightarrow> 2 \<le> c \<and> c < fresh s \<and> parent s c = t \<and> c \<notin> set (waited s)"
      using l t shape_kid [OF l(2), of c t] shape_ws [OF l(2), of c] unfolding logs_ok_def by (cases "wss s c") (auto simp: exiting_def)
    then show ?thesis using process_wait_pinv(1) [OF i t] by simp
  qed
  show "can t Tau s" if t: "pcs s t = In_wait c \<and> pcs s c = Gone" for t c
  proof -
    have "c \<in> set (kids s t)" using t pinv_pc [OF i, of t] by (simp add: pc_ok_def)
    then obtain w where "wss s c = Some w" "ws_ok c w (pcs s c) (pcs s t) (exits s c) (loads s c)" using pinv_kid [OF i] by blast
    then show ?thesis using t by (simp add: can_def positive_def ws_ok_def)
  qed
qed

definition example_run :: "(int \<times> act) list" where
  "example_run = [(1, Exec False), (1, Exec True), (2, Load True), (1, Tau), (2, Exec True), (3, Load False), (2, Tau), (3, Tau), (1, Wait 2), (3, Tau), (3, Tau),
     (2, Exit 7), (2, Tau), (2, Tau), (2, Tau), (2, Tau), (2, Tau), (1, Tau), (1, Tau), (1, Wait 2)]"

definition example_state :: procs where
  "example_state = the (play orderly example_run procs0)"

theorem process_wait_correct_witness:
  "waits example_state = [(1, 2, None), (1, 2, Some 7)] \<and> execs example_state = [(2, 3, False), (1, 2, True)] \<and>
    exits example_state 2 = Some 7 \<and> loads example_state 3 = Some False \<and>
    process_wait 1 3 example_state = Some (example_state\<lparr>waits := (1, 3, None) # waits example_state\<rparr>)"
proof -
  have "play orderly example_run procs0 \<noteq> None" unfolding option.simps by code_simp
  then have "play orderly example_run procs0 = Some example_state" by (auto simp: example_state_def)
  then have r: "run orderly example_state" by (rule play_run [OF run_start])
  have e: "waits example_state = [(1, 2, None), (1, 2, Some 7)]" "execs example_state = [(2, 3, False), (1, 2, True)]"
    "pcs example_state 1 = Running" "parent example_state 3 = 2"
    by code_simp+
  have "\<forall>t c v. (t, c, Some v) \<in> set (waits example_state) \<longrightarrow> parent example_state c = t \<and> exits example_state c = Some v"
    "\<forall>t c b. (t, c, b) \<in> set (execs example_state) \<longrightarrow> parent example_state c = t \<and> loads example_state c = Some b"
    using process_wait_correct [OF r] by simp_all
  moreover have "(1, 2, Some 7) \<in> set (waits example_state)" "(2, 3, False) \<in> set (execs example_state)" using e by simp_all
  ultimately have "exits example_state 2 = Some 7" "loads example_state 3 = Some False" by blast+
  moreover have "process_wait 1 3 example_state = Some (example_state\<lparr>waits := (1, 3, None) # waits example_state\<rparr>)"
    using process_wait_correct [OF r] e(3,4) by simp
  ultimately show ?thesis using e by simp
qed

text \<open>Two runs in which a process exits before its child: the child finds the page of its parent, in which the
  ends of the list lie, freed, or the parent frees the wait status between the child's decrement and its
  \<^verbatim>\<open>sema_up\<close>.\<close>

definition exec_two :: "(int \<times> act) list" where
  "exec_two = [(1, Exec True), (2, Load True), (1, Tau), (2, Exec True), (3, Load True), (2, Tau)]"

definition orphan_run :: "(int \<times> act) list" where
  "orphan_run = exec_two @ [(2, Exit 0), (2, Tau), (2, Tau), (2, Tau), (2, Tau), (3, Exit 0), (3, Tau)]"

definition race_run :: "(int \<times> act) list" where
  "race_run = exec_two @ [(2, Exit 0), (2, Tau), (2, Tau), (3, Exit 0), (3, Tau), (2, Tau), (2, Tau)]"

text \<open>C37: a process that exits before its child can leave the child with freed memory. In one run the last of the two,
  the child, brings the count to 0 and removes its wait status from a list whose ends were freed with the page of
  the parent. In another run the count is at 0 and the parent frees the wait status while the child is about to
  signal its semaphore.\<close>

theorem exit_before_child_unsafe:
  "(\<exists>s. run anyhow s \<and> can 3 Tau s \<and> pcs s 3 = Destroy \<and> wss s 3 \<noteq> None \<and> pcs s (parent s 3) = Gone \<and> do_act 3 Tau s = None) \<and>
   (\<exists>s. run anyhow s \<and> can 3 Tau s \<and> pcs s 3 = Up \<and> wss s 3 = None \<and> do_act 3 Tau s = None)"
proof
  let ?s = "the (play anyhow orphan_run procs0)"
  have "play anyhow orphan_run procs0 \<noteq> None" unfolding option.simps by code_simp
  then have r: "run anyhow ?s" using play_run [OF run_start] by fastforce
  have "can 3 Tau ?s \<and> pcs ?s 3 = Destroy \<and> wss ?s 3 \<noteq> None \<and> pcs ?s (parent ?s 3) = Gone \<and> do_act 3 Tau ?s = None"
    by code_simp
  then show "\<exists>s. run anyhow s \<and> can 3 Tau s \<and> pcs s 3 = Destroy \<and> wss s 3 \<noteq> None \<and> pcs s (parent s 3) = Gone \<and> do_act 3 Tau s = None"
    using r by blast
next
  let ?s = "the (play anyhow race_run procs0)"
  have "play anyhow race_run procs0 \<noteq> None" unfolding option.simps by code_simp
  then have r: "run anyhow ?s" using play_run [OF run_start] by fastforce
  have "can 3 Tau ?s \<and> pcs ?s 3 = Up \<and> wss ?s 3 = None \<and> do_act 3 Tau ?s = None" by code_simp
  then show "\<exists>s. run anyhow s \<and> can 3 Tau s \<and> pcs s 3 = Up \<and> wss s 3 = None \<and> do_act 3 Tau s = None" using r by blast
qed

end
