(* ===== verification/Partition.thy ===== *)
theory Partition
  imports Block_Dev
begin

text \<open>
  Partitions of a block device, \<^verbatim>\<open>devices/partition.c\<close>. The scan works on the device it was given and the list of the partitions that
  it has registered so far; printing is dropped, and \<open>mem_ok\<close> says whether \<^verbatim>\<open>malloc\<close> succeeds. A partition is a block device
  whose sectors are those of the underlying device from its first sector on.
\<close>

section \<open>The partition table\<close>

record partition_table_entry =
  bootable :: byte
  start_chs :: "byte list"
  e_type :: byte
  end_chs :: "byte list"
  e_offset :: u32
  e_size :: u32

definition dec_entry :: "byte list \<Rightarrow> partition_table_entry" where
  "dec_entry bs = \<lparr>bootable = bs ! 0, start_chs = slice 1 3 bs, e_type = bs ! 4, end_chs = slice 5 3 bs,
     e_offset = of_le32 (slice 8 4 bs), e_size = of_le32 (slice 12 4 bs)\<rparr>"

record partition_table =
  loader :: "byte list"
  partitions :: "partition_table_entry list"
  signature :: u32

definition dec_table :: "byte list \<Rightarrow> partition_table" where
  "dec_table bs = \<lparr>loader = take 446 bs, partitions = map (\<lambda>i. dec_entry (slice (446 + 16 * i) 16 bs)) [0..<4],
     signature = of_le32 (slice 510 2 bs @ [0, 0])\<rparr>"

definition is_extended :: "byte \<Rightarrow> bool" where
  "is_extended t \<longleftrightarrow> t = 0x05 \<or> t = 0x0F \<or> t = 0x85 \<or> t = 0xC5"

section \<open>Names\<close>

definition type_names :: "(byte \<times> string) list" where
  "type_names = [(0x00, ''Empty''), (0x01, ''FAT12''), (0x02, ''XENIX root''), (0x03, ''XENIX usr''), (0x04, ''FAT16 <32M''),
     (0x05, ''Extended''), (0x06, ''FAT16''), (0x07, ''HPFS/NTFS''), (0x08, ''AIX''), (0x09, ''AIX bootable''),
     (0x0A, ''OS/2 Boot Manager''), (0x0B, ''W95 FAT32''), (0x0C, ''W95 FAT32 (LBA)''), (0x0E, ''W95 FAT16 (LBA)''),
     (0x0F, ''W95 Ext'' @ [CHR 0x27] @ ''d (LBA)''), (0x10, ''OPUS''), (0x11, ''Hidden FAT12''), (0x12, ''Compaq diagnostics''),
     (0x14, ''Hidden FAT16 <32M''), (0x16, ''Hidden FAT16''), (0x17, ''Hidden HPFS/NTFS''), (0x18, ''AST SmartSleep''),
     (0x1B, ''Hidden W95 FAT32''), (0x1C, ''Hidden W95 FAT32 (LBA)''), (0x1E, ''Hidden W95 FAT16 (LBA)''), (0x20, ''Pintos OS kernel''),
     (0x21, ''Pintos file system''), (0x22, ''Pintos scratch''), (0x23, ''Pintos swap''), (0x24, ''NEC DOS''), (0x39, ''Plan 9''),
     (0x3C, ''PartitionMagic recovery''), (0x40, ''Venix 80286''), (0x41, ''PPC PReP Boot''), (0x42, ''SFS''), (0x4D, ''QNX4.x''),
     (0x4E, ''QNX4.x 2nd part''), (0x4F, ''QNX4.x 3rd part''), (0x50, ''OnTrack DM''), (0x51, ''OnTrack DM6 Aux1''), (0x52, ''CP/M''),
     (0x53, ''OnTrack DM6 Aux3''), (0x54, ''OnTrackDM6''), (0x55, ''EZ-Drive''), (0x56, ''Golden Bow''), (0x5C, ''Priam Edisk''),
     (0x61, ''SpeedStor''), (0x63, ''GNU HURD or SysV''), (0x64, ''Novell Netware 286''), (0x65, ''Novell Netware 386''),
     (0x70, ''DiskSecure Multi-Boot''), (0x75, ''PC/IX''), (0x80, ''Old Minix''), (0x81, ''Minix / old Linux''),
     (0x82, ''Linux swap / Solaris''), (0x83, ''Linux''), (0x84, ''OS/2 hidden C: drive''), (0x85, ''Linux extended''),
     (0x86, ''NTFS volume set''), (0x87, ''NTFS volume set''), (0x88, ''Linux plaintext''), (0x8E, ''Linux LVM''), (0x93, ''Amoeba''),
     (0x94, ''Amoeba BBT''), (0x9F, ''BSD/OS''), (0xA0, ''IBM Thinkpad hibernation''), (0xA5, ''FreeBSD''), (0xA6, ''OpenBSD''),
     (0xA7, ''NeXTSTEP''), (0xA8, ''Darwin UFS''), (0xA9, ''NetBSD''), (0xAB, ''Darwin boot''), (0xB7, ''BSDI fs''),
     (0xB8, ''BSDI swap''), (0xBB, ''Boot Wizard hidden''), (0xBE, ''Solaris boot''), (0xBF, ''Solaris''),
     (0xC1, ''DRDOS/sec (FAT-12)''), (0xC4, ''DRDOS/sec (FAT-16 < 32M)''), (0xC6, ''DRDOS/sec (FAT-16)''), (0xC7, ''Syrinx''),
     (0xDA, ''Non-FS data''), (0xDB, ''CP/M / CTOS / ...''), (0xDE, ''Dell Utility''), (0xDF, ''BootIt''), (0xE1, ''DOS access''),
     (0xE3, ''DOS R/O''), (0xE4, ''SpeedStor''), (0xEB, ''BeOS fs''), (0xEE, ''EFI GPT''), (0xEF, ''EFI (FAT-12/16/32)''),
     (0xF0, ''Linux/PA-RISC boot''), (0xF1, ''SpeedStor''), (0xF4, ''SpeedStor''), (0xF2, ''DOS secondary''),
     (0xFD, ''Linux raid autodetect''), (0xFE, ''LANstep''), (0xFF, ''BBT'')]"

definition partition_type_name :: "byte \<Rightarrow> string" where
  "partition_type_name t = (case map_of type_names t of Some n \<Rightarrow> n | None \<Rightarrow> ''Unknown'')"

text \<open>The decimal digits of a number, and its two hexadecimal digits.\<close>

fun dec_text :: "nat \<Rightarrow> byte list" where
  "dec_text n = (if n < 10 then [of_nat (48 + n)] else dec_text (n div 10) @ [of_nat (48 + n mod 10)])"

definition hex_digit :: "nat \<Rightarrow> char" where
  "hex_digit n = ''0123456789abcdef'' ! n"

definition part_name :: "byte list \<Rightarrow> nat \<Rightarrow> byte list" where
  "part_name name nr = take 15 (name @ dec_text nr)"

definition extra_info :: "byte \<Rightarrow> string" where
  "extra_info t = take 127 (partition_type_name t @ '' ('' @ [hex_digit (unat t div 16), hex_digit (unat t mod 16)] @ '')'')"

section \<open>Scanning\<close>

record partition =
  p_start :: sector
  p_dev :: block
  p_extra :: string

text \<open>\<open>disk\<close> is the device that is scanned. The block of a partition holds its name, type, size and counters; its media are empty,
  because \<open>partition_read\<close> and \<open>partition_write\<close> access the disk.\<close>

record scan =
  disk :: block
  part_nr :: nat
  found :: "partition list"

definition part_type :: "byte \<Rightarrow> block_type" where
  "part_type t = (if t = 0x20 then BLOCK_KERNEL else if t = 0x21 then BLOCK_FILESYS else if t = 0x22 then BLOCK_SCRATCH
     else if t = 0x23 then BLOCK_SWAP else BLOCK_FOREIGN)"

definition found_partition :: "bool \<Rightarrow> byte \<Rightarrow> sector \<Rightarrow> sector \<Rightarrow> nat \<Rightarrow> scan \<Rightarrow> scan option" where
  "found_partition mem_ok t start sz nr s =
     (if start \<ge> block_size (disk s) then Some s
      else if start + sz < start \<or> start + sz > block_size (disk s) then Some s
      else do {
        ASSERT mem_ok;
        (_, bs) \<leftarrow> block_register (part_name (block_name (disk s)) nr) (part_type t) sz [] mem_ok
          \<lparr>all_blocks = map p_dev (found s), block_by_role = \<lambda>_. None\<rparr>;
        Some (s\<lparr>found := found s @ [\<lparr>p_start = start, p_dev = last (all_blocks bs), p_extra = extra_info t\<rparr>]\<rparr>)
      })"

text \<open>The start of \<^verbatim>\<open>read_partition_table\<close>, up to the loop: the table, or none if the function returns there. It reads sector 0,
  whatever \<open>sector\<close> is.\<close>

definition read_table :: "bool \<Rightarrow> sector \<Rightarrow> scan \<Rightarrow> (partition_table option \<times> scan) option" where
  "read_table mem_ok sector s =
     (if sector \<ge> block_size (disk s) then Some (None, s)
      else do {
        ASSERT mem_ok;
        (buf, d) \<leftarrow> block_read (disk s) 0;
        let pt = dec_table buf;
        Some (if signature pt \<noteq> 0xAA55 then None else Some pt, s\<lparr>disk := d\<rparr>)
      })"

text \<open>The sector and the primary extended sector with which the function calls itself for an extended partition.\<close>

definition sub_sector :: "sector \<Rightarrow> sector \<Rightarrow> partition_table_entry \<Rightarrow> sector" where
  "sub_sector sector primary_extended_sector e = (if sector = 0 then e_offset e else e_offset e + primary_extended_sector)"

definition sub_primary :: "sector \<Rightarrow> sector \<Rightarrow> partition_table_entry \<Rightarrow> sector" where
  "sub_primary sector primary_extended_sector e = (if sector = 0 then e_offset e else primary_extended_sector)"

text \<open>The loop over the entries from \<open>i\<close> on.\<close>

partial_function (option) scan_entries :: "bool \<Rightarrow> partition_table \<Rightarrow> sector \<Rightarrow> sector \<Rightarrow> nat \<Rightarrow> scan \<Rightarrow> scan option" where
  "scan_entries mem_ok pt sector primary_extended_sector i s =
     (if i \<ge> length (partitions pt) then Some s
      else let e = partitions pt ! i in
        if e_size e = 0 \<or> e_type e = 0 then scan_entries mem_ok pt sector primary_extended_sector (i + 1) s
        else if is_extended (e_type e) then do {
          (sub, s) \<leftarrow> read_table mem_ok (sub_sector sector primary_extended_sector e) s;
          s \<leftarrow> (case sub of None \<Rightarrow> Some s
            | Some pt' \<Rightarrow> scan_entries mem_ok pt' (sub_sector sector primary_extended_sector e) (sub_primary sector primary_extended_sector e) 0 s);
          scan_entries mem_ok pt sector primary_extended_sector (i + 1) s
        }
        else do {
          s \<leftarrow> found_partition mem_ok (e_type e) (e_offset e + sector) (e_size e) (part_nr s + 1) (s\<lparr>part_nr := part_nr s + 1\<rparr>);
          scan_entries mem_ok pt sector primary_extended_sector (i + 1) s
        })"

declare scan_entries.simps [code]

definition read_partition_table :: "bool \<Rightarrow> sector \<Rightarrow> sector \<Rightarrow> scan \<Rightarrow> scan option" where
  "read_partition_table mem_ok sector primary_extended_sector s = do {
     (pt, s) \<leftarrow> read_table mem_ok sector s;
     case pt of None \<Rightarrow> Some s | Some pt \<Rightarrow> scan_entries mem_ok pt sector primary_extended_sector 0 s }"

definition partition_scan :: "bool \<Rightarrow> block \<Rightarrow> scan option" where
  "partition_scan mem_ok b = read_partition_table mem_ok 0 0 \<lparr>disk = b, part_nr = 0, found = []\<rparr>"

section \<open>Accessing partitions\<close>

definition partition_read :: "partition \<Rightarrow> sector \<Rightarrow> block \<Rightarrow> (byte list \<times> block) option" where
  "partition_read p s d = block_read d (p_start p + s)"

definition partition_write :: "partition \<Rightarrow> sector \<Rightarrow> byte list \<Rightarrow> block \<Rightarrow> block option" where
  "partition_write p s buffer d = block_write d (p_start p + s) buffer"

text \<open>\<^verbatim>\<open>block_read\<close> and \<^verbatim>\<open>block_write\<close> of the device that the partition is registered as.\<close>

definition part_block_read :: "partition \<Rightarrow> sector \<Rightarrow> block \<Rightarrow> (byte list \<times> partition \<times> block) option" where
  "part_block_read p s d = do {
     check_sector (p_dev p) s;
     (buf, d) \<leftarrow> partition_read p s d;
     Some (buf, p\<lparr>p_dev := (p_dev p)\<lparr>read_cnt := read_cnt (p_dev p) + 1\<rparr>\<rparr>, d) }"

definition part_block_write :: "partition \<Rightarrow> sector \<Rightarrow> byte list \<Rightarrow> block \<Rightarrow> (partition \<times> block) option" where
  "part_block_write p s buffer d = do {
     check_sector (p_dev p) s;
     ASSERT (blk_type (p_dev p) \<noteq> BLOCK_FOREIGN);
     d \<leftarrow> partition_write p s buffer d;
     Some (p\<lparr>p_dev := (p_dev p)\<lparr>write_cnt := write_cnt (p_dev p) + 1\<rparr>\<rparr>, d) }"

section \<open>Where partitions lie\<close>

definition inside :: "sector \<Rightarrow> partition \<Rightarrow> bool" where
  "inside sz p \<longleftrightarrow> unat (p_start p) + unat (blk_size (p_dev p)) \<le> unat sz"

definition same_disk :: "block \<Rightarrow> block \<Rightarrow> bool" where
  "same_disk d d' \<longleftrightarrow> blk_size d' = blk_size d \<and> media d' = media d \<and> blk_type d' = blk_type d \<and> blk_name d' = blk_name d"

lemma same_disk_trans: "same_disk a b \<Longrightarrow> same_disk b c \<Longrightarrow> same_disk a c"
  by (simp add: same_disk_def)

lemma no_wrap: "\<not> a + b < a \<Longrightarrow> unat (a + b) = unat a + unat b" for a b :: u32
  by (metis not_less unat_plus_simple)

lemma found_partition_inside:
  assumes "found_partition ok t start sz nr s = Some s'" "list_all (inside (blk_size (disk s))) (found s)"
  shows "disk s' = disk s \<and> list_all (inside (blk_size (disk s))) (found s')"
  using assms
  by (auto simp: found_partition_def block_register_def block_size_def ASSERT_def Let_def inside_def not_le no_wrap
      word_le_nat_alt word_less_nat_alt split: if_splits)

lemma read_table_disk: "read_table ok sec s = Some (pt, s') \<Longrightarrow> same_disk (disk s) (disk s') \<and> found s' = found s \<and> part_nr s' = part_nr s"
  by (auto simp: read_table_def ASSERT_def block_read_def check_sector_def same_disk_def Let_def bind_eq_Some_conv split: if_splits)

definition scan_ok :: "scan \<Rightarrow> scan \<Rightarrow> bool" where
  "scan_ok s s' \<longleftrightarrow> same_disk (disk s) (disk s') \<and>
     (list_all (inside (blk_size (disk s))) (found s) \<longrightarrow> list_all (inside (blk_size (disk s))) (found s'))"

lemma scan_ok_refl [simp]: "scan_ok s s"
  by (simp add: scan_ok_def same_disk_def)

lemma scan_ok_trans: "scan_ok a b \<Longrightarrow> scan_ok b c \<Longrightarrow> scan_ok a c"
  by (auto simp: scan_ok_def same_disk_def)

lemma read_table_ok: "read_table ok sec s = Some (pt, s') \<Longrightarrow> scan_ok s s'"
  using read_table_disk [of ok sec s pt s'] by (auto simp: scan_ok_def)

lemma found_partition_ok: "found_partition ok t start sz nr (s\<lparr>part_nr := n\<rparr>) = Some s' \<Longrightarrow> scan_ok s s'"
  using found_partition_inside [of ok t start sz nr "s\<lparr>part_nr := n\<rparr>" s']
  by (cases "list_all (inside (blk_size (disk s))) (found s)") (auto simp: scan_ok_def same_disk_def
      found_partition_def block_register_def ASSERT_def Let_def split: if_splits)

definition empty_entry :: "partition_table_entry \<Rightarrow> bool" where
  "empty_entry e \<longleftrightarrow> e_size e = 0 \<or> e_type e = 0"

lemma scan_entries_ok:
  assumes "scan_entries ok pt sec pri i s = Some s'"
  shows "scan_ok s s'"
proof (rule scan_entries.raw_induct [OF _ assms], unfold Let_def empty_entry_def [symmetric])
  fix f ok and pt :: partition_table and sec pri i s s'
  let ?e = "partitions pt ! i"
  assume IH: "\<And>ok pt sec pri i s s'. f ok pt sec pri i s = Some s' \<Longrightarrow> scan_ok s s'"
    and body: "(if length (partitions pt) \<le> i then Some s
        else if empty_entry ?e then f ok pt sec pri (i + 1) s
        else if is_extended (e_type ?e) then do {
          (sub, s) \<leftarrow> read_table ok (sub_sector sec pri ?e) s;
          s \<leftarrow> (case sub of None \<Rightarrow> Some s | Some pt' \<Rightarrow> f ok pt' (sub_sector sec pri ?e) (sub_primary sec pri ?e) 0 s);
          f ok pt sec pri (i + 1) s }
        else do {
          s \<leftarrow> found_partition ok (e_type ?e) (e_offset ?e + sec) (e_size ?e) (part_nr s + 1) (s\<lparr>part_nr := part_nr s + 1\<rparr>);
          f ok pt sec pri (i + 1) s }) = Some s'"
  consider "length (partitions pt) \<le> i" | "\<not> length (partitions pt) \<le> i" "empty_entry ?e"
    | "\<not> length (partitions pt) \<le> i" "\<not> empty_entry ?e" "is_extended (e_type ?e)"
    | "\<not> length (partitions pt) \<le> i" "\<not> empty_entry ?e" "\<not> is_extended (e_type ?e)" by blast
  then show "scan_ok s s'"
  proof cases
    case 3
    then obtain sub s1 s2 where r: "read_table ok (sub_sector sec pri ?e) s = Some (sub, s1)"
      "(case sub of None \<Rightarrow> Some s1 | Some pt' \<Rightarrow> f ok pt' (sub_sector sec pri ?e) (sub_primary sec pri ?e) 0 s1) = Some s2"
      "f ok pt sec pri (i + 1) s2 = Some s'" using body by (auto simp: bind_eq_Some_conv)
    have "scan_ok s1 s2" using r(2) IH by (cases sub) auto
    then show ?thesis using read_table_ok [OF r(1)] IH [OF r(3)] scan_ok_trans by metis
  next
    case 4
    then show ?thesis using body found_partition_ok IH scan_ok_trans by (simp add: bind_eq_Some_conv) metis
  qed (use body IH in auto)
qed

lemma partition_scan_ok: "partition_scan ok b = Some s \<Longrightarrow> scan_ok \<lparr>disk = b, part_nr = 0, found = []\<rparr> s"
  using scan_entries_ok read_table_ok scan_ok_trans
  by (fastforce simp: partition_scan_def read_partition_table_def bind_eq_Some_conv split: option.splits)

text \<open>C20: Every sector of a partition that the scan registers is a sector of the disk, at the start of the partition: reading it gives
  that sector of the disk, and writing it, unless the partition is foreign, changes that sector and no other. Neither panics.\<close>

theorem partition_access:
  assumes "block_ok b" "partition_scan ok b = Some s" "p \<in> set (found s)" "t < blk_size (p_dev p)"
  shows "unat (p_start p) + unat t < length (media b) \<and>
    (\<exists>p' d'. part_block_read p t (disk s) = Some (media b ! (unat (p_start p) + unat t), p', d') \<and> same_disk b d') \<and>
    (blk_type (p_dev p) = BLOCK_FOREIGN \<or> (\<exists>p' d'. part_block_write p t buf (disk s) = Some (p', d') \<and>
       media d' = (media b)[unat (p_start p) + unat t := buf]))"
proof -
  have d: "same_disk b (disk s)" and i: "inside (blk_size b) p"
    using partition_scan_ok [OF assms(2)] assms(3) by (auto simp: scan_ok_def list_all_iff)
  have lt: "unat (p_start p) + unat t < unat (blk_size b)" using assms(4) i by (simp add: inside_def word_less_nat_alt)
  then have u: "unat (p_start p + t) = unat (p_start p) + unat t"
    using unsigned_less [where ?'a = nat, of "blk_size b"] by (simp add: unat_word_ariths(1))
  have ok: "block_ok (disk s)" "p_start p + t < blk_size (disk s)"
    using d assms(1) lt u by (simp_all add: same_disk_def block_ok_def word_less_nat_alt)
  have m: "media (disk s) = media b" "length (media b) = unat (blk_size b)" using d assms(1) by (simp_all add: same_disk_def block_ok_def)
  have c: "check_sector (p_dev p) t = Some ()" using assms(4) by (simp add: check_sector_def)
  have "part_block_read p t (disk s) = Some (media b ! (unat (p_start p) + unat t),
      p\<lparr>p_dev := (p_dev p)\<lparr>read_cnt := read_cnt (p_dev p) + 1\<rparr>\<rparr>, (disk s)\<lparr>read_cnt := read_cnt (disk s) + 1\<rparr>)"
    using block_read_ok [OF ok] c u m by (simp add: part_block_read_def partition_read_def)
  moreover have "same_disk b ((disk s)\<lparr>read_cnt := read_cnt (disk s) + 1\<rparr>)" using d by (simp add: same_disk_def)
  moreover have "blk_type (p_dev p) = BLOCK_FOREIGN \<or> (\<exists>p' d'. part_block_write p t buf (disk s) = Some (p', d') \<and>
       media d' = (media b)[unat (p_start p) + unat t := buf])"
    using block_write_ok [OF ok, of buf] c u m by (simp add: part_block_write_def partition_write_def ASSERT_def)
  ultimately show ?thesis using lt m(2) by metis
qed

section \<open>Extended partitions\<close>

lemma read_table_eq:
  assumes "block_ok b" "same_disk b (disk s)" "sec < blk_size b" "signature (dec_table (media b ! 0)) = 0xAA55"
  shows "read_table ok sec s = (if ok then Some (Some (dec_table (media b ! 0)), s\<lparr>disk := (disk s)\<lparr>read_cnt := read_cnt (disk s) + 1\<rparr>\<rparr>) else None)"
proof -
  have "block_ok (disk s)" using assms(1,2) by (simp add: same_disk_def block_ok_def)
  moreover have "0 < blk_size (disk s)" using assms(2,3) by (auto simp: same_disk_def word_less_nat_alt)
  ultimately show ?thesis using block_read_ok [of "disk s" 0] assms by (simp add: read_table_def block_size_def same_disk_def ASSERT_def not_le)
qed

text \<open>The scan does not get past an extended partition whose table would be on the disk: the function reads sector 0 for it again,
  and finds the same entry.\<close>

lemma scan_stuck:
  assumes "block_ok b" "T = dec_table (media b ! 0)" "signature T = 0xAA55" "k < length (partitions T)"
    "\<not> empty_entry (partitions T ! k)" "is_extended (e_type (partitions T ! k))"
    "\<forall>j < k. empty_entry (partitions T ! j) \<or> \<not> is_extended (e_type (partitions T ! j))"
    "2 * unat (e_offset (partitions T ! k)) < unat (blk_size b)"
    and run: "scan_entries ok pt sec pri i s = Some s'"
  shows "\<not> (pt = T \<and> same_disk b (disk s) \<and> (sec = 0 \<or> pri = e_offset (partitions T ! k)) \<and> i \<le> k)"
proof (rule scan_entries.raw_induct [OF _ run], unfold Let_def empty_entry_def [symmetric], intro notI)
  fix f ok and pt :: partition_table and sec pri i s s'
  let ?e = "partitions pt ! i"
  let ?o = "e_offset (partitions T ! k)"
  assume IH: "\<And>ok pt sec pri i s s'. f ok pt sec pri i s = Some s' \<Longrightarrow>
      \<not> (pt = T \<and> same_disk b (disk s) \<and> (sec = 0 \<or> pri = ?o) \<and> i \<le> k)"
    and body: "(if length (partitions pt) \<le> i then Some s
        else if empty_entry ?e then f ok pt sec pri (i + 1) s
        else if is_extended (e_type ?e) then do {
          (sub, s) \<leftarrow> read_table ok (sub_sector sec pri ?e) s;
          s \<leftarrow> (case sub of None \<Rightarrow> Some s | Some pt' \<Rightarrow> f ok pt' (sub_sector sec pri ?e) (sub_primary sec pri ?e) 0 s);
          f ok pt sec pri (i + 1) s }
        else do {
          s \<leftarrow> found_partition ok (e_type ?e) (e_offset ?e + sec) (e_size ?e) (part_nr s + 1) (s\<lparr>part_nr := part_nr s + 1\<rparr>);
          f ok pt sec pri (i + 1) s }) = Some s'"
    and Q: "pt = T \<and> same_disk b (disk s) \<and> (sec = 0 \<or> pri = ?o) \<and> i \<le> k"
  have i: "\<not> length (partitions pt) \<le> i" using Q assms(4) by auto
  show False
  proof (cases "i = k")
    case True
    have two: "unat (?o + ?o) = 2 * unat ?o" using assms(8) unsigned_less [where ?'a = nat, of "blk_size b"] by (simp add: unat_word_ariths)
    have "sub_sector sec pri ?e < blk_size b" using Q True two assms(8) by (auto simp: sub_sector_def word_less_nat_alt)
    then have "read_table ok (sub_sector sec pri ?e) s =
        (if ok then Some (Some T, s\<lparr>disk := (disk s)\<lparr>read_cnt := read_cnt (disk s) + 1\<rparr>\<rparr>) else None)"
      using read_table_eq [OF assms(1), of s] Q assms(2,3) by simp
    then obtain s1 s2 where "f ok T (sub_sector sec pri ?e) (sub_primary sec pri ?e) 0 s1 = Some s2" "same_disk b (disk s1)"
      using body i True Q assms(5,6) by (auto simp: bind_eq_Some_conv same_disk_def split: if_splits)
    moreover have "sub_sector sec pri ?e = 0 \<or> sub_primary sec pri ?e = ?o" using Q True by (auto simp: sub_sector_def sub_primary_def)
    ultimately show False using IH by blast
  next
    case False
    then have "empty_entry ?e \<or> \<not> is_extended (e_type ?e)" using Q assms(7) by auto
    then obtain s1 where "f ok pt sec pri (i + 1) s1 = Some s'" "scan_ok s s1"
      using body i found_partition_ok by (auto simp: bind_eq_Some_conv split: if_splits)
    moreover from this have "same_disk b (disk s1)" using Q same_disk_trans by (auto simp: scan_ok_def)
    moreover have "i + 1 \<le> k" using Q False by simp
    ultimately show False using IH Q by blast
  qed
qed

text \<open>C32: The scan of a disk with an extended partition in its partition table never returns, whatever the extended partition holds, when
  twice the offset of the partition is on the disk. An extended partition can therefore not be used.\<close>

theorem extended_partition_never_returns:
  assumes "block_ok b" "signature (dec_table (media b ! 0)) = 0xAA55" "k < 4"
    "\<not> empty_entry (partitions (dec_table (media b ! 0)) ! k)" "is_extended (e_type (partitions (dec_table (media b ! 0)) ! k))"
    "\<forall>j < k. empty_entry (partitions (dec_table (media b ! 0)) ! j) \<or> \<not> is_extended (e_type (partitions (dec_table (media b ! 0)) ! j))"
    "2 * unat (e_offset (partitions (dec_table (media b ! 0)) ! k)) < unat (blk_size b)"
  shows "partition_scan ok b = None"
proof (rule ccontr)
  let ?T = "dec_table (media b ! 0)" let ?s = "\<lparr>disk = b, part_nr = 0, found = []\<rparr>"
  have r: "same_disk b (disk ?s)" "0 < blk_size b" using assms(7) by (auto simp: same_disk_def word_less_nat_alt)
  assume "partition_scan ok b \<noteq> None"
  then obtain s1 s' where "scan_entries ok ?T 0 0 0 s1 = Some s'" "same_disk b (disk s1)"
    using read_table_eq [OF assms(1) r assms(2), of ok]
    by (auto simp: partition_scan_def read_partition_table_def bind_eq_Some_conv same_disk_def split: if_splits)
  moreover have "k < length (partitions ?T)" using assms(3) by (simp add: dec_table_def)
  ultimately show False using scan_stuck [OF assms(1) refl assms(2) _ assms(4-7)] by blast
qed

section \<open>Primary partitions\<close>

definition fits :: "block \<Rightarrow> partition_table_entry \<Rightarrow> bool" where
  "fits d e \<longleftrightarrow> \<not> empty_entry e \<and> unat (e_offset e) + unat (e_size e) \<le> unat (blk_size d)"

definition part_info :: "partition \<Rightarrow> sector \<times> sector \<times> block_type" where
  "part_info p = (p_start p, blk_size (p_dev p), blk_type (p_dev p))"

definition entry_info :: "partition_table_entry \<Rightarrow> sector \<times> sector \<times> block_type" where
  "entry_info e = (e_offset e, e_size e, part_type (e_type e))"

lemma found_partition_eq:
  assumes "\<not> empty_entry e"
  shows "\<exists>s'. found_partition True (e_type e) (e_offset e) (e_size e) nr s = Some s' \<and> disk s' = disk s \<and> part_nr s' = part_nr s \<and>
    map part_info (found s') = map part_info (found s) @ (if fits (disk s) e then [entry_info e] else [])"
proof -
  have z: "0 < unat (e_size e)" using assms by (auto simp: empty_entry_def unat_gt_0)
  have "\<not> (e_offset e \<ge> blk_size (disk s)) \<and> \<not> (e_offset e + e_size e < e_offset e \<or> e_offset e + e_size e > blk_size (disk s)) \<longleftrightarrow>
      fits (disk s) e"
  proof (cases "e_offset e + e_size e < e_offset e")
    case True
    then have "\<not> unat (e_offset e) + unat (e_size e) < 2 ^ 32" using unat_word_ariths(1) [of "e_offset e" "e_size e"] by (auto simp: word_less_nat_alt)
    then show ?thesis using True unsigned_less [where ?'a = nat, of "blk_size (disk s)"] by (simp add: fits_def)
  next
    case False
    then show ?thesis using no_wrap [OF False] z assms by (auto simp: fits_def word_le_nat_alt word_less_nat_alt)
  qed
  then show ?thesis by (auto simp: found_partition_def block_size_def block_register_def part_info_def entry_info_def)
qed

lemma scan_plain:
  assumes "\<forall>j < length (partitions pt). empty_entry (partitions pt ! j) \<or> \<not> is_extended (e_type (partitions pt ! j))"
  shows "\<exists>s'. scan_entries True pt 0 pri i s = Some s' \<and> disk s' = disk s \<and>
    part_nr s' = part_nr s + length (filter (\<lambda>e. \<not> empty_entry e) (drop i (partitions pt))) \<and>
    map part_info (found s') = map part_info (found s) @ map entry_info (filter (fits (disk s)) (drop i (partitions pt)))"
proof (induction "length (partitions pt) - i" arbitrary: i s)
  case 0
  then show ?case by (subst scan_entries.simps) auto
next
  case (Suc n)
  let ?e = "partitions pt ! i"
  have i: "i < length (partitions pt)" using Suc.hyps(2) by simp
  have dr: "drop i (partitions pt) = ?e # drop (i + 1) (partitions pt)" using i by (simp add: Cons_nth_drop_Suc)
  have IH: "\<exists>s'. scan_entries True pt 0 pri (i + 1) s = Some s' \<and> disk s' = disk s \<and>
    part_nr s' = part_nr s + length (filter (\<lambda>e. \<not> empty_entry e) (drop (i + 1) (partitions pt))) \<and>
    map part_info (found s') = map part_info (found s) @ map entry_info (filter (fits (disk s)) (drop (i + 1) (partitions pt)))" for s
    using Suc.hyps by simp
  show ?case
  proof (cases "empty_entry ?e")
    case True
    then show ?thesis using IH [of s] i dr by (subst scan_entries.simps) (simp add: empty_entry_def [symmetric] fits_def)
  next
    case False
    let ?s = "s\<lparr>part_nr := part_nr s + 1\<rparr>"
    obtain s1 where s1: "found_partition True (e_type ?e) (e_offset ?e) (e_size ?e) (part_nr s + 1) ?s = Some s1" "disk s1 = disk s"
      "part_nr s1 = part_nr s + 1" "map part_info (found s1) = map part_info (found s) @ (if fits (disk s) ?e then [entry_info ?e] else [])"
      using found_partition_eq [OF False, of "part_nr s + 1" ?s] by auto
    have "\<not> is_extended (e_type ?e)" using assms i False by auto
    then show ?thesis using IH [of s1] s1 i dr False by (subst scan_entries.simps) (auto simp: empty_entry_def [symmetric])
  qed
qed

text \<open>Without extended partitions the scan returns. It counts the entries that are not empty, and registers those that lie on the
  disk, in order, with their start, size and type.\<close>

theorem partition_scan_primary:
  assumes "block_ok b" "0 < blk_size b" "signature (dec_table (media b ! 0)) = 0xAA55"
    "\<forall>e \<in> set (partitions (dec_table (media b ! 0))). empty_entry e \<or> \<not> is_extended (e_type e)"
  shows "\<exists>s. partition_scan True b = Some s \<and>
    part_nr s = length (filter (\<lambda>e. \<not> empty_entry e) (partitions (dec_table (media b ! 0)))) \<and>
    map part_info (found s) = map entry_info (filter (fits b) (partitions (dec_table (media b ! 0))))"
proof -
  let ?s = "\<lparr>disk = b, part_nr = 0, found = []\<rparr>" let ?s1 = "?s\<lparr>disk := b\<lparr>read_cnt := read_cnt b + 1\<rparr>\<rparr>"
  have "fits (b\<lparr>read_cnt := n\<rparr>) = fits b" for n by (simp add: fits_def fun_eq_iff)
  then show ?thesis
    using scan_plain [of "dec_table (media b ! 0)" 0 0 ?s1] read_table_eq [of b ?s 0 True] assms
    by (auto simp: partition_scan_def read_partition_table_def same_disk_def)
qed

section \<open>Examples\<close>

text \<open>A disk of four sectors whose partition table has one entry, of the given type, with two sectors from sector 1 on.\<close>

definition example_disk :: "byte \<Rightarrow> block" where
  "example_disk t = \<lparr>blk_name = [104, 100, 97], blk_type = BLOCK_RAW, blk_size = 4,
     media = [replicate 446 0 @ [0, 0, 0, 0, t, 0, 0, 0, 1, 0, 0, 0, 2, 0, 0, 0] @ replicate 48 0 @ [0x55, 0xAA],
       replicate 512 1, replicate 512 2, replicate 512 3], read_cnt = 0, write_cnt = 0\<rparr>"

lemma example_ok: "block_ok (example_disk t)"
  by (simp add: block_ok_def example_disk_def BLOCK_SECTOR_SIZE_def)

theorem partition_access_witness:
  "\<exists>s p. partition_scan True (example_disk 0x21) = Some s \<and> p \<in> set (found s) \<and>
    (\<exists>p' d'. part_block_read p 1 (disk s) = Some (replicate 512 2, p', d')) \<and>
    (\<exists>p' d'. part_block_write p 1 (replicate 512 9) (disk s) = Some (p', d') \<and> media d' ! 2 = replicate 512 9)"
proof -
  let ?T = "dec_table (media (example_disk 0x21) ! 0)"
  have "signature ?T = 0xAA55" by code_simp
  moreover have "list_all (\<lambda>e. empty_entry e \<or> \<not> is_extended (e_type e)) (partitions ?T)" by code_simp
  moreover have "map entry_info (filter (fits (example_disk 0x21)) (partitions ?T)) = [(1, 2, BLOCK_FILESYS)]" by code_simp
  moreover have "0 < blk_size (example_disk 0x21)" by (simp add: example_disk_def)
  ultimately obtain s where s: "partition_scan True (example_disk 0x21) = Some s" "map part_info (found s) = [(1, 2, BLOCK_FILESYS)]"
    using partition_scan_primary [OF example_ok] by (fastforce simp: list_all_iff)
  then obtain p where p: "found s = [p]" "p_start p = 1" "blk_size (p_dev p) = 2" "blk_type (p_dev p) = BLOCK_FILESYS"
    by (auto simp: part_info_def)
  have u: "unat (p_start p) + unat (1 :: sector) = 2" using p(2) by simp
  have m: "media (example_disk 0x21) ! 2 = replicate 512 2" "length (media (example_disk 0x21)) = 4" by (simp_all add: example_disk_def)
  have "p \<in> set (found s)" "1 < blk_size (p_dev p)" using p by simp_all
  from partition_access [OF example_ok s(1) this, of "replicate 512 9"] obtain p1 d1 p2 d2 where
    "part_block_read p 1 (disk s) = Some (replicate 512 2, p1, d1)" "part_block_write p 1 (replicate 512 9) (disk s) = Some (p2, d2)"
    "media d2 = (media (example_disk 0x21))[2 := replicate 512 9]"
    unfolding u m(1) using p(4) by auto
  moreover from this(3) have "media d2 ! 2 = replicate 512 9" using m(2) by simp
  ultimately show ?thesis using s(1) \<open>p \<in> set (found s)\<close> by blast
qed

theorem extended_partition_never_returns_witness: "partition_scan True (example_disk 0x05) = None"
proof -
  have "signature (dec_table (media (example_disk 0x05) ! 0)) = 0xAA55" by code_simp
  moreover have "\<not> empty_entry (partitions (dec_table (media (example_disk 0x05) ! 0)) ! 0)" by code_simp
  moreover have "is_extended (e_type (partitions (dec_table (media (example_disk 0x05) ! 0)) ! 0))" by code_simp
  moreover have "2 * unat (e_offset (partitions (dec_table (media (example_disk 0x05) ! 0)) ! 0)) < unat (blk_size (example_disk 0x05))" by code_simp
  ultimately show ?thesis by (intro extended_partition_never_returns [OF example_ok, of _ 0]) simp_all
qed

end
