(* ===== verification/Stdlib.thy ===== *)
theory Stdlib
  imports C_String List_Sort "HOL-Library.Code_Target_Nat"
begin

text \<open>
  The functions of \<^verbatim>\<open>lib/stdlib.c\<close>: \<^verbatim>\<open>atoi\<close>, heap sort and binary search on arrays of elements of any size, and the
  character classes of \<^verbatim>\<open>lib/ctype.h\<close> that they use. An array is a range of the memory of \<open>C_String\<close>. A comparison function
  sees the bytes of the two elements whose addresses it is given. \<^verbatim>\<open>size_t\<close> arithmetic on element numbers wraps
  around at 32 bits; an element number 0 or an element outside the memory is a fault.
\<close>

section \<open>Characters\<close>

definition isdigit :: "byte \<Rightarrow> bool" where
  "isdigit c \<longleftrightarrow> 48 \<le> c \<and> c \<le> 57"

definition isspace :: "byte \<Rightarrow> bool" where
  "isspace c \<longleftrightarrow> c = 32 \<or> c = 12 \<or> c = 10 \<or> c = 13 \<or> c = 9 \<or> c = 11"

definition isprint :: "byte \<Rightarrow> bool" where
  "isprint c \<longleftrightarrow> 32 \<le> c \<and> c < 127"

section \<open>Conversion of strings to integers\<close>

definition INT_MIN :: int where
  "INT_MIN = - (2 ^ 31)"

definition INT_MAX :: int where
  "INT_MAX = 2 ^ 31 - 1"

text \<open>The result of an arithmetic operation on \<^verbatim>\<open>int\<close>; overflow is undefined.\<close>

definition c_int :: "int \<Rightarrow> int option" where
  "c_int v = (if INT_MIN \<le> v \<and> v \<le> INT_MAX then Some v else None)"

function skip_space :: "nat \<Rightarrow> cmem \<Rightarrow> nat option" where
  "skip_space s m = (case ld m s of None \<Rightarrow> None | Some c \<Rightarrow> if isspace c then skip_space (s + 1) m else Some s)"
  by auto
termination by (relation "measure (\<lambda>(s, m). length m - s)") (auto simp: ld_eq_Some)

function atoi_digits :: "nat \<Rightarrow> int \<Rightarrow> cmem \<Rightarrow> int option" where
  "atoi_digits s value m = (case ld m s of None \<Rightarrow> None
     | Some c \<Rightarrow> if isdigit c then
         (case c_int (value * 10) of None \<Rightarrow> None
          | Some v \<Rightarrow> (case c_int (v - (int (unat c) - 48)) of None \<Rightarrow> None | Some v \<Rightarrow> atoi_digits (s + 1) v m))
       else Some value)"
  by auto
termination by (relation "measure (\<lambda>(s, v, m). length m - s)") (auto simp: ld_eq_Some)

declare skip_space.simps [simp del] atoi_digits.simps [simp del]

definition atoi :: "nat \<Rightarrow> cmem \<Rightarrow> int option" where
  "atoi s m = do {
     ASSERT (s \<noteq> 0);
     s \<leftarrow> skip_space s m;
     c \<leftarrow> ld m s;
     let negative = (c = 45);
     let s = (if c = 43 \<or> c = 45 then s + 1 else s);
     value \<leftarrow> atoi_digits s 0 m;
     if \<not> negative then c_int (- value) else Some value
   }"

section \<open>Sorting arrays\<close>

type_synonym comparison = "byte list \<Rightarrow> byte list \<Rightarrow> int"

definition elem_ptr :: "nat \<Rightarrow> nat \<Rightarrow> nat \<Rightarrow> nat" where
  "elem_ptr array idx sz = array + (idx - 1) * sz"

fun swap_loop :: "nat \<Rightarrow> nat \<Rightarrow> nat \<Rightarrow> cmem \<Rightarrow> cmem option" where
  "swap_loop a b 0 m = Some m"
| "swap_loop a b (Suc n) m = do {
     t \<leftarrow> ld m a;
     u \<leftarrow> ld m b;
     m \<leftarrow> st m a u;
     m \<leftarrow> st m b t;
     swap_loop (a + 1) (b + 1) n m }"

definition do_swap :: "nat \<Rightarrow> nat \<Rightarrow> nat \<Rightarrow> nat \<Rightarrow> cmem \<Rightarrow> cmem option" where
  "do_swap array a_idx b_idx sz m = do {
     ASSERT (0 < a_idx \<and> 0 < b_idx);
     swap_loop (elem_ptr array a_idx sz) (elem_ptr array b_idx sz) sz m }"

definition do_compare :: "nat \<Rightarrow> nat \<Rightarrow> nat \<Rightarrow> nat \<Rightarrow> comparison \<Rightarrow> cmem \<Rightarrow> int option" where
  "do_compare array a_idx b_idx sz compare m = do {
     ASSERT (0 < a_idx \<and> 0 < b_idx);
     ASSERT (in_mem m (elem_ptr array a_idx sz) sz \<and> in_mem m (elem_ptr array b_idx sz) sz);
     Some (compare (slice (elem_ptr array a_idx sz) sz m) (slice (elem_ptr array b_idx sz) sz m)) }"

text \<open>The larger of the current maximum and a child, if the child exists.\<close>

definition max_child :: "nat \<Rightarrow> nat \<Rightarrow> nat \<Rightarrow> nat \<Rightarrow> nat \<Rightarrow> comparison \<Rightarrow> cmem \<Rightarrow> nat option" where
  "max_child array child mx cnt sz compare m =
    (if child \<le> cnt then do { c \<leftarrow> do_compare array child mx sz compare m; Some (if c > 0 then child else mx) } else Some mx)"

partial_function (option) heapify :: "nat \<Rightarrow> nat \<Rightarrow> nat \<Rightarrow> nat \<Rightarrow> comparison \<Rightarrow> cmem \<Rightarrow> cmem option" where
  "heapify array i cnt sz compare m = do {
     let left = (2 * i) mod 2 ^ 32;
     let right = (2 * i + 1) mod 2 ^ 32;
     mx \<leftarrow> max_child array left i cnt sz compare m;
     mx \<leftarrow> max_child array right mx cnt sz compare m;
     if mx = i then Some m
     else do { m \<leftarrow> do_swap array i mx sz m; heapify array mx cnt sz compare m }
   }"

declare heapify.simps [code]

fun build_heap :: "nat \<Rightarrow> nat \<Rightarrow> nat \<Rightarrow> nat \<Rightarrow> comparison \<Rightarrow> cmem \<Rightarrow> cmem option" where
  "build_heap array 0 cnt sz compare m = Some m"
| "build_heap array (Suc i) cnt sz compare m = do {
     m \<leftarrow> heapify array (Suc i) cnt sz compare m;
     build_heap array i cnt sz compare m }"

fun sort_heap :: "nat \<Rightarrow> nat \<Rightarrow> nat \<Rightarrow> comparison \<Rightarrow> cmem \<Rightarrow> cmem option" where
  "sort_heap array 0 sz compare m = Some m"
| "sort_heap array (Suc i) sz compare m = (if Suc i > 1 then do {
       m \<leftarrow> do_swap array 1 (Suc i) sz m;
       m \<leftarrow> heapify array 1 i sz compare m;
       sort_heap array i sz compare m }
     else Some m)"

definition sort_array :: "nat \<Rightarrow> nat \<Rightarrow> nat \<Rightarrow> comparison \<Rightarrow> cmem \<Rightarrow> cmem option" where
  "sort_array array cnt sz compare m = do {
     ASSERT (array \<noteq> 0 \<or> cnt = 0);
     ASSERT (sz > 0);
     m \<leftarrow> build_heap array (cnt div 2) cnt sz compare m;
     sort_heap array cnt sz compare m }"

definition qsort :: "nat \<Rightarrow> nat \<Rightarrow> nat \<Rightarrow> comparison \<Rightarrow> cmem \<Rightarrow> cmem option" where
  "qsort array cnt sz compare m = sort_array array cnt sz compare m"

section \<open>Searching sorted arrays\<close>

lemma middle_less: "0 < sz \<Longrightarrow> f < (l :: nat) \<Longrightarrow> (l - f) div sz div 2 * sz < l - f"
proof -
  assume "0 < sz" "f < l"
  have "(l - f) div sz div 2 * sz \<le> (l - f) div 2"
    by (metis div_mult2_eq div_times_less_eq_dividend mult.commute)
  then show ?thesis using \<open>f < l\<close> by linarith
qed

function binary_search_loop :: "byte list \<Rightarrow> nat \<Rightarrow> nat \<Rightarrow> nat \<Rightarrow> comparison \<Rightarrow> cmem \<Rightarrow> nat option" where
  "binary_search_loop key first last' sz compare m =
    (if sz = 0 then None
     else if first < last' then
       let middle = first + (last' - first) div sz div 2 * sz in
       if in_mem m middle sz then
         let cmp = compare key (slice middle sz m) in
         if cmp < 0 then binary_search_loop key first middle sz compare m
         else if cmp > 0 then binary_search_loop key (middle + sz) last' sz compare m
         else Some middle
       else None
     else Some 0)"
  by auto

termination
  by (relation "measure (\<lambda>(k, f, l, z, c, m). l - f)") (use middle_less in \<open>auto simp: Let_def diff_less_mono2\<close>)

declare binary_search_loop.simps [simp del]

definition binary_search :: "byte list \<Rightarrow> nat \<Rightarrow> nat \<Rightarrow> nat \<Rightarrow> comparison \<Rightarrow> cmem \<Rightarrow> nat option" where
  "binary_search key array cnt sz compare m = binary_search_loop key array (array + sz * cnt) sz compare m"

definition bsearch :: "byte list \<Rightarrow> nat \<Rightarrow> nat \<Rightarrow> nat \<Rightarrow> comparison \<Rightarrow> cmem \<Rightarrow> nat option" where
  "bsearch key array cnt sz compare m = binary_search key array cnt sz compare m"

section \<open>Arrays as lists of elements\<close>

definition elems :: "nat \<Rightarrow> nat \<Rightarrow> nat \<Rightarrow> cmem \<Rightarrow> byte list list" where
  "elems array cnt sz m = map (\<lambda>k. slice (array + k * sz) sz m) [0..<cnt]"

definition same_around :: "nat \<Rightarrow> nat \<Rightarrow> cmem \<Rightarrow> cmem \<Rightarrow> bool" where
  "same_around array n m m' \<longleftrightarrow> length m' = length m \<and> take array m' = take array m \<and> drop (array + n) m' = drop (array + n) m"

definition swap_list :: "nat \<Rightarrow> nat \<Rightarrow> 'a list \<Rightarrow> 'a list" where
  "swap_list i j xs = xs[i - 1 := xs ! (j - 1), j - 1 := xs ! (i - 1)]"

lemma length_elems [simp]: "length (elems array cnt sz m) = cnt"
  by (simp add: elems_def)

lemma elems_nth [simp]: "k < cnt \<Longrightarrow> elems array cnt sz m ! k = slice (array + k * sz) sz m"
  by (simp add: elems_def)

lemma length_swap_list [simp]: "length (swap_list i j xs) = length xs"
  by (simp add: swap_list_def)

lemma mset_swap_list: "1 \<le> i \<Longrightarrow> i \<le> length xs \<Longrightarrow> 1 \<le> j \<Longrightarrow> j \<le> length xs \<Longrightarrow> mset (swap_list i j xs) = mset xs"
  unfolding swap_list_def by (rule mset_swap) auto

lemma same_around_trans: "same_around a n m m' \<Longrightarrow> same_around a n m' m'' \<Longrightarrow> same_around a n m m''"
  by (simp add: same_around_def)

lemma same_around_refl [simp]: "same_around a n m m"
  by (simp add: same_around_def)

lemma swap_loop_eq:
  assumes "a \<noteq> 0" "b \<noteq> 0" "a + n \<le> length m" "b + n \<le> length m" "a + n \<le> b \<or> b + n \<le> a"
  shows "\<exists>m'. swap_loop a b n m = Some m' \<and> length m' = length m \<and> (\<forall>q < n. m' ! (a + q) = m ! (b + q) \<and> m' ! (b + q) = m ! (a + q)) \<and>
    (\<forall>p. \<not> (a \<le> p \<and> p < a + n) \<longrightarrow> \<not> (b \<le> p \<and> p < b + n) \<longrightarrow> m' ! p = m ! p)"
  using assms
proof (induction n arbitrary: a b m)
  case (Suc n)
  let ?m = "m[a := m ! b, b := m ! a]"
  obtain m' where m': "swap_loop (a + 1) (b + 1) n ?m = Some m'" "length m' = length m"
    "\<And>q. q < n \<Longrightarrow> m' ! (a + 1 + q) = ?m ! (b + 1 + q) \<and> m' ! (b + 1 + q) = ?m ! (a + 1 + q)"
    "\<And>p. \<not> (a + 1 \<le> p \<and> p < a + 1 + n) \<Longrightarrow> \<not> (b + 1 \<le> p \<and> p < b + 1 + n) \<Longrightarrow> m' ! p = ?m ! p"
    using Suc.IH [of "a + 1" "b + 1" ?m] Suc.prems by auto
  have "swap_loop a b (Suc n) m = Some m'" using Suc.prems m'(1) by (simp add: ld_def st_def)
  moreover have "m' ! (a + q) = m ! (b + q) \<and> m' ! (b + q) = m ! (a + q)" if q: "q < Suc n" for q
  proof (cases q)
    case 0
    then show ?thesis using m'(4) [of a] m'(4) [of b] Suc.prems by auto
  next
    case (Suc r)
    then show ?thesis using m'(3) [of r] q Suc.prems by auto
  qed
  moreover have "m' ! p = m ! p" if "\<not> (a \<le> p \<and> p < a + Suc n)" "\<not> (b \<le> p \<and> p < b + Suc n)" for p
  proof -
    have "\<not> (a + 1 \<le> p \<and> p < a + 1 + n)" "\<not> (b + 1 \<le> p \<and> p < b + 1 + n)" "p \<noteq> a" "p \<noteq> b" using that by auto
    then show ?thesis using m'(4) [of p] by simp
  qed
  ultimately show ?case using m'(2) by blast
qed auto

lemma elem_range_disjoint:
  assumes "i \<noteq> (j :: nat)"
  shows "i * sz + sz \<le> j * sz \<or> j * sz + sz \<le> i * sz"
proof -
  have "x * sz + sz \<le> y * sz" if "x < y" for x y :: nat
    using mult_le_mono1 [of "x + 1" y sz] that by simp
  then show ?thesis using assms by (meson linorder_neqE_nat)
qed

lemma elem_range_in: "k < (cnt :: nat) \<Longrightarrow> k * sz + sz \<le> cnt * sz"
  using mult_le_mono1 [of "k + 1" cnt sz] by simp

lemma do_swap_eq:
  assumes "in_mem m array (cnt * sz)" "1 \<le> i" "i \<le> cnt" "1 \<le> j" "j \<le> cnt" "i \<noteq> j"
  shows "\<exists>m'. do_swap array i j sz m = Some m' \<and> same_around array (cnt * sz) m m' \<and> in_mem m' array (cnt * sz) \<and>
    elems array cnt sz m' = swap_list i j (elems array cnt sz m)"
proof -
  let ?a = "array + (i - 1) * sz" let ?b = "array + (j - 1) * sz"
  have r: "(i - 1) * sz + sz \<le> cnt * sz" "(j - 1) * sz + sz \<le> cnt * sz" using assms by (auto intro!: elem_range_in)
  have ne: "i - 1 \<noteq> j - 1" using assms by auto
  have a: "array \<noteq> 0" "array + cnt * sz \<le> length m" using assms(1) by (auto simp: in_mem_def)
  obtain m' where m': "swap_loop ?a ?b sz m = Some m'" "length m' = length m"
    "\<And>q. q < sz \<Longrightarrow> m' ! (?a + q) = m ! (?b + q) \<and> m' ! (?b + q) = m ! (?a + q)"
    "\<And>p. \<not> (?a \<le> p \<and> p < ?a + sz) \<Longrightarrow> \<not> (?b \<le> p \<and> p < ?b + sz) \<Longrightarrow> m' ! p = m ! p"
    using swap_loop_eq [of ?a ?b sz m] a r elem_range_disjoint [OF ne, of sz] by auto
  define perm where "perm k = (if k = i - 1 then j - 1 else if k = j - 1 then i - 1 else k)" for k
  have el: "slice (array + k * sz) sz m' = slice (array + perm k * sz) sz m" if k: "k < cnt" for k
  proof (rule nth_equalityI)
    have pk: "perm k < cnt" using k assms by (auto simp: perm_def)
    have l: "length (slice (array + x * sz) sz mm) = sz" if "x < cnt" "length mm = length m" for x and mm :: cmem
      using elem_range_in [OF that(1), of sz] that(2) a by (simp add: slice_def)
    show "length (slice (array + k * sz) sz m') = length (slice (array + perm k * sz) sz m)"
      using l [OF k m'(2)] l [OF pk] by simp
    fix q assume "q < length (slice (array + k * sz) sz m')"
    then have q: "q < sz" using l [OF k m'(2)] by simp
    have n: "slice (array + x * sz) sz mm ! q = mm ! (array + x * sz + q)" if "x < cnt" "length mm = length m" for x and mm :: cmem
      using elem_range_in [OF that(1), of sz] that(2) a q by (simp add: slice_def)
    have "m' ! (array + k * sz + q) = m ! (array + perm k * sz + q)"
    proof (cases "k = i - 1 \<or> k = j - 1")
      case True
      then show ?thesis using m'(3) [OF q] ne by (auto simp: perm_def)
    next
      case False
      then show ?thesis
        using q elem_range_disjoint [of k "i - 1" sz] elem_range_disjoint [of k "j - 1" sz] by (subst m'(4)) (auto simp: perm_def)
    qed
    then show "slice (array + k * sz) sz m' ! q = slice (array + perm k * sz) sz m ! q" using n [OF k m'(2)] n [OF pk] by simp
  qed
  have "elems array cnt sz m' = swap_list i j (elems array cnt sz m)"
    by (rule nth_equalityI) (use el assms in \<open>auto simp: swap_list_def nth_list_update perm_def\<close>)
  moreover have "same_around array (cnt * sz) m m'" unfolding same_around_def
    by (intro conjI nth_equalityI; use m' r a in auto)
  moreover have "do_swap array i j sz m = Some m'" using assms m'(1) by (simp add: do_swap_def elem_ptr_def)
  ultimately show ?thesis using m'(2) assms(1) by (auto simp: in_mem_def)
qed

section \<open>Heaps\<close>

text \<open>Elements are numbered from 1. The same algorithm on the list of the elements.\<close>

definition pick :: "('a \<Rightarrow> 'a \<Rightarrow> bool) \<Rightarrow> nat \<Rightarrow> nat \<Rightarrow> nat \<Rightarrow> 'a list \<Rightarrow> nat" where
  "pick lt n child mx xs = (if child \<le> n \<and> lt (xs ! (mx - 1)) (xs ! (child - 1)) then child else mx)"

definition largest :: "('a \<Rightarrow> 'a \<Rightarrow> bool) \<Rightarrow> nat \<Rightarrow> nat \<Rightarrow> 'a list \<Rightarrow> nat" where
  "largest lt n i xs = pick lt n (2 * i + 1) (pick lt n (2 * i) i xs) xs"

lemma largest_cases: "largest lt n i xs \<in> {i, 2 * i, 2 * i + 1}" "largest lt n i xs \<noteq> i \<Longrightarrow> largest lt n i xs \<le> n"
  by (auto simp: largest_def pick_def split: if_splits)

function sift :: "('a \<Rightarrow> 'a \<Rightarrow> bool) \<Rightarrow> nat \<Rightarrow> nat \<Rightarrow> 'a list \<Rightarrow> 'a list" where
  "sift lt n i xs = (if i = 0 \<or> largest lt n i xs = i then xs else sift lt n (largest lt n i xs) (swap_list i (largest lt n i xs) xs))"
  by auto

termination
proof (relation "measure (\<lambda>(lt, n, i, xs). Suc n - i)", goal_cases)
  case (2 lt n i xs)
  then show ?case using largest_cases [of lt n i xs] by auto
qed auto

declare sift.simps [simp del]

definition heap_from :: "('a \<Rightarrow> 'a \<Rightarrow> bool) \<Rightarrow> nat \<Rightarrow> nat \<Rightarrow> 'a list \<Rightarrow> bool" where
  "heap_from lt l n xs \<longleftrightarrow> (\<forall>j. 2 \<le> j \<and> j \<le> n \<and> l \<le> j div 2 \<longrightarrow> \<not> lt (xs ! (j div 2 - 1)) (xs ! (j - 1)))"

text \<open>All pairs but those below \<open>i\<close> are in order, and what is below \<open>i\<close> is in order with what is above it.\<close>

definition sifting :: "('a \<Rightarrow> 'a \<Rightarrow> bool) \<Rightarrow> nat \<Rightarrow> nat \<Rightarrow> nat \<Rightarrow> 'a list \<Rightarrow> bool" where
  "sifting lt l n i xs \<longleftrightarrow>
     (\<forall>j. 2 \<le> j \<and> j \<le> n \<and> l \<le> j div 2 \<and> j div 2 \<noteq> i \<longrightarrow> \<not> lt (xs ! (j div 2 - 1)) (xs ! (j - 1))) \<and>
     (\<forall>j. 2 \<le> j \<and> j \<le> n \<and> j div 2 = i \<and> l \<le> i div 2 \<longrightarrow> \<not> lt (xs ! (i div 2 - 1)) (xs ! (j - 1)))"

text \<open>The part from \<open>n\<close> on is sorted and not below the rest.\<close>

definition sorted_above :: "('a \<Rightarrow> 'a \<Rightarrow> bool) \<Rightarrow> nat \<Rightarrow> 'a list \<Rightarrow> bool" where
  "sorted_above lt n xs \<longleftrightarrow> (\<forall>i j. i < j \<and> n \<le> j \<and> j < length xs \<longrightarrow> \<not> lt (xs ! j) (xs ! i))"

lemma swap_list_nth:
  assumes "1 \<le> i" "i \<le> length xs" "1 \<le> j" "j \<le> length xs" "1 \<le> k" "k \<le> length xs"
  shows "swap_list i j xs ! (k - 1) = (if k = j then xs ! (i - 1) else if k = i then xs ! (j - 1) else xs ! (k - 1))"
  using assms by (auto simp: swap_list_def nth_list_update)

context strict_weak_order
begin

lemma irrefl: "\<not> lt a a"
  using asym by blast

lemma pick_ge: "\<not> lt (xs ! (pick lt n child mx xs - 1)) (xs ! (mx - 1))"
  unfolding pick_def using asym [of "xs ! (mx - 1)"] irrefl by presburger

lemma pick_child: "child \<le> n \<Longrightarrow> \<not> lt (xs ! (pick lt n child mx xs - 1)) (xs ! (child - 1))"
  unfolding pick_def using irrefl by presburger

lemma largest_max:
  assumes "j div 2 = i" "2 \<le> j" "j \<le> n"
  shows "\<not> lt (xs ! (largest lt n i xs - 1)) (xs ! (j - 1))"
proof -
  let ?m = "pick lt n (2 * i) i xs"
  have u: "\<not> lt (xs ! (largest lt n i xs - 1)) (xs ! (?m - 1))" unfolding largest_def by (rule pick_ge)
  consider "j = 2 * i" | "j = 2 * i + 1" using assms by linarith
  then show ?thesis
  proof cases
    case 1
    then have "\<not> lt (xs ! (?m - 1)) (xs ! (j - 1))" using pick_child assms(3) by blast
    then show ?thesis using u neg_trans by blast
  next
    case 2
    then show ?thesis unfolding largest_def using pick_child assms(3) by blast
  qed
qed

lemma largest_ge: "\<not> lt (xs ! (largest lt n i xs - 1)) (xs ! (i - 1))"
  unfolding largest_def using pick_ge neg_trans by meson

lemma sift_step:
  assumes "sifting lt l n i xs" "1 \<le> l" "l \<le> i" "i \<le> n" "n \<le> length xs" "largest lt n i xs = m" "m \<noteq> i"
  shows "sifting lt l n m (swap_list i m xs)"
proof -
  have m: "m = 2 * i \<or> m = 2 * i + 1" "m \<le> n" "m div 2 = i" using largest_cases [of lt n i xs] assms(6,7) by auto
  have i: "1 \<le> i" "i \<le> length xs" "1 \<le> m" "m \<le> length xs" using assms m by auto
  have nth: "swap_list i m xs ! (k - 1) = (if k = m then xs ! (i - 1) else if k = i then xs ! (m - 1) else xs ! (k - 1))"
    if "1 \<le> k" "k \<le> n" for k using swap_list_nth [OF i, of k] that assms(5) by auto
  have old: "\<not> lt (xs ! (j div 2 - 1)) (xs ! (j - 1))" if "2 \<le> j" "j \<le> n" "l \<le> j div 2" "j div 2 \<noteq> i" for j
    using assms(1) that unfolding sifting_def by blast
  have up: "\<not> lt (xs ! (i div 2 - 1)) (xs ! (j - 1))" if "2 \<le> j" "j \<le> n" "j div 2 = i" "l \<le> i div 2" for j
    using assms(1) that unfolding sifting_def by blast
  show ?thesis unfolding sifting_def
  proof (intro conjI allI impI)
    fix j assume j: "2 \<le> j \<and> j \<le> n \<and> l \<le> j div 2 \<and> j div 2 \<noteq> m"
    have d: "1 \<le> j div 2" "j div 2 \<le> n" "j div 2 < j" using j by auto
    consider "j = i" | "j = m" | "j \<noteq> i" "j \<noteq> m" "j div 2 = i" | "j \<noteq> i" "j \<noteq> m" "j div 2 \<noteq> i" by blast
    then show "\<not> lt (swap_list i m xs ! (j div 2 - 1)) (swap_list i m xs ! (j - 1))"
    proof cases
      case 1
      then have "i div 2 \<noteq> i" "i div 2 \<noteq> m" using d m by auto
      then show ?thesis using nth [of "j div 2"] nth [of j] d j 1 up [of m] m assms(7) by auto
    next
      case 2
      then show ?thesis using nth [of "j div 2"] nth [of j] d j m assms(6,7) largest_ge [of xs n i] by auto
    next
      case 3
      then show ?thesis using nth [of "j div 2"] nth [of j] d j m assms(6,7) largest_max [of j i n xs] by auto
    next
      case 4
      then show ?thesis using nth [of "j div 2"] nth [of j] d j old [of j] by auto
    qed
  next
    fix j assume j: "2 \<le> j \<and> j \<le> n \<and> j div 2 = m \<and> l \<le> m div 2"
    then have "m < j" "i < m" using m i(1) by auto
    then have "\<not> lt (xs ! (m - 1)) (xs ! (j - 1))" using old [of j] j m assms(7) by auto
    then show "\<not> lt (swap_list i m xs ! (m div 2 - 1)) (swap_list i m xs ! (j - 1))"
      using nth [of i] nth [of j] j m i \<open>m < j\<close> \<open>i < m\<close> assms(4) by auto
  qed
qed

lemma sift_heap:
  assumes "sifting lt l n i xs" "1 \<le> l" "l \<le> i" "i \<le> n" "n \<le> length xs"
  shows "heap_from lt l n (sift lt n i xs)"
  using assms
proof (induction "Suc n - i" arbitrary: i xs rule: less_induct)
  case less
  let ?m = "largest lt n i xs"
  show ?case
  proof (cases "?m = i")
    case True
    then have "heap_from lt l n xs"
      using less.prems(1) largest_max [of _ i n xs] unfolding heap_from_def sifting_def by metis
    then show ?thesis using True by (simp add: sift.simps)
  next
    case False
    then have m: "?m \<le> n" "i < ?m" using largest_cases [of lt n i xs] less.prems by auto
    have "heap_from lt l n (sift lt n ?m (swap_list i ?m xs))"
      by (rule less.hyps) (use m less.prems sift_step [OF less.prems refl False] in auto)
    then show ?thesis using False less.prems by (simp add: sift.simps [of lt n i])
  qed
qed

lemma sift_others:
  assumes "1 \<le> i" "i \<le> n" "n \<le> length xs"
  shows "length (sift lt n i xs) = length xs \<and> mset (sift lt n i xs) = mset xs \<and> drop n (sift lt n i xs) = drop n xs"
  using assms
proof (induction "Suc n - i" arbitrary: i xs rule: less_induct)
  case less
  let ?m = "largest lt n i xs"
  show ?case
  proof (cases "?m = i")
    case False
    then have m: "?m \<le> n" "i < ?m" using largest_cases [of lt n i xs] less.prems by auto
    let ?xs = "swap_list i ?m xs"
    have "length (sift lt n ?m ?xs) = length ?xs \<and> mset (sift lt n ?m ?xs) = mset ?xs \<and> drop n (sift lt n ?m ?xs) = drop n ?xs"
      by (rule less.hyps) (use m less.prems in auto)
    moreover have "mset ?xs = mset xs" using m less.prems by (intro mset_swap_list) auto
    moreover have "drop n ?xs = drop n xs" using m less.prems by (simp add: swap_list_def)
    ultimately show ?thesis using False less.prems by (simp add: sift.simps [of lt n i])
  qed (simp add: sift.simps)
qed

lemma heap_root:
  assumes "heap_from lt 1 n xs" "1 \<le> j" "j \<le> n"
  shows "\<not> lt (xs ! 0) (xs ! (j - 1))"
  using assms(2,3)
proof (induction j rule: less_induct)
  case (less j)
  show ?case
  proof (cases "j = 1")
    case True
    then show ?thesis using irrefl by simp
  next
    case False
    then have "\<not> lt (xs ! 0) (xs ! (j div 2 - 1))" using less by auto
    moreover have "\<not> lt (xs ! (j div 2 - 1)) (xs ! (j - 1))" using assms(1) False less.prems unfolding heap_from_def by auto
    ultimately show ?thesis using neg_trans by blast
  qed
qed

lemma heap_sifting: "heap_from lt (Suc i) n xs \<Longrightarrow> sifting lt i n i xs"
  unfolding heap_from_def sifting_def by auto

lemma sort_step:
  assumes "heap_from lt 1 (Suc n) xs" "sorted_above lt (Suc n) xs" "1 \<le> n" "Suc n \<le> length xs"
  shows "heap_from lt 1 n (sift lt n 1 (swap_list 1 (Suc n) xs)) \<and> sorted_above lt n (sift lt n 1 (swap_list 1 (Suc n) xs))"
proof
  let ?xs = "swap_list 1 (Suc n) xs" let ?ys = "sift lt n 1 ?xs"
  have nth: "?xs ! (k - 1) = (if k = Suc n then xs ! 0 else if k = 1 then xs ! n else xs ! (k - 1))" if "1 \<le> k" "k \<le> length xs" for k
    using swap_list_nth [of 1 xs "Suc n" k] that assms(3,4) by auto
  have "\<not> lt (?xs ! (j div 2 - 1)) (?xs ! (j - 1))" if "2 \<le> j" "j \<le> n" "1 \<le> j div 2" "j div 2 \<noteq> 1" for j
    using that nth [of "j div 2"] nth [of j] assms(1,4) unfolding heap_from_def by auto
  then have "sifting lt 1 n 1 ?xs" unfolding sifting_def by auto
  then show "heap_from lt 1 n ?ys" by (rule sift_heap) (use assms in auto)
  have o: "length ?ys = length xs" "mset ?ys = mset xs" "drop n ?ys = drop n ?xs"
    using sift_others [of 1 n ?xs] mset_swap_list [of 1 xs "Suc n"] assms by auto
  have high: "?ys ! j = ?xs ! j" if "n \<le> j" "j < length xs" for j
    using arg_cong [OF o(3), of "\<lambda>l. l ! (j - n)"] that o(1) by simp
  have at_n: "?xs ! n = xs ! 0" using nth [of "Suc n"] assms(4) by simp
  have above: "?xs ! j = xs ! j" if "n < j" "j < length xs" for j using nth [of "Suc j"] that assms(3) by simp
  have low: "?ys ! i \<in> set (take (Suc n) xs)" if "i < n" for i
  proof -
    have "mset (take n ?ys) = mset (take n ?xs)"
    proof -
      have "mset (take n ?ys) + mset (drop n ?ys) = mset (take n ?xs) + mset (drop n ?xs)"
        by (metis append_take_drop_id mset_append o(2) mset_swap_list assms(3,4) le_refl le_trans One_nat_def Suc_le_mono le0)
      then show ?thesis using o(3) by simp
    qed
    then have "set (take n ?ys) = set (take n ?xs)" by (metis set_mset_mset)
    moreover have "?ys ! i \<in> set (take n ?ys)" using that assms(4) o(1) by (auto simp: in_set_conv_nth)
    moreover have "set (take n ?xs) \<subseteq> set (take (Suc n) xs)"
    proof
      fix x assume "x \<in> set (take n ?xs)"
      then obtain k where k: "k < n" "x = ?xs ! k" using assms(4) by (auto simp: in_set_conv_nth)
      then have "x = xs ! (if k = 0 then n else k)" using nth [of "Suc k"] assms(4) by auto
      moreover have "(if k = 0 then n else k) < length (take (Suc n) xs)" using k assms(4) by auto
      ultimately show "x \<in> set (take (Suc n) xs)" using k(1) by (metis in_set_conv_nth length_take less_Suc_eq min_less_iff_conj nth_take)
    qed
    ultimately show ?thesis by blast
  qed
  show "sorted_above lt n ?ys" unfolding sorted_above_def
  proof (intro allI impI)
    fix i j assume ij: "i < j \<and> n \<le> j \<and> j < length ?ys"
    then have j: "n \<le> j" "j < length xs" "i < j" using o(1) by auto
    show "\<not> lt (?ys ! j) (?ys ! i)"
    proof (cases "i < n")
      case True
      then obtain k where k: "k < Suc n" "?ys ! i = xs ! k" using low [OF True] assms(4) by (auto simp: in_set_conv_nth)
      show ?thesis
      proof (cases "j = n")
        case True
        then show ?thesis using high [OF j(1,2)] at_n heap_root [OF assms(1), of "Suc k"] k by simp
      next
        case False
        then have "?ys ! j = xs ! j" using high [OF j(1,2)] above [of j] j by simp
        then show ?thesis using assms(2) k j False unfolding sorted_above_def by auto
      qed
    next
      case False
      then have i: "?ys ! i = (if i = n then xs ! 0 else xs ! i)" using high [of i] above [of i] at_n j by auto
      have "?ys ! j = xs ! j" using high [OF j(1,2)] above [of j] j False by simp
      then show ?thesis using i j False assms(2) unfolding sorted_above_def by auto
    qed
  qed
qed

end

section \<open>The code sorts\<close>

definition cmp_less :: "comparison \<Rightarrow> byte list \<Rightarrow> byte list \<Rightarrow> bool" where
  "cmp_less compare a b \<longleftrightarrow> compare a b < 0"

text \<open>What a \<^verbatim>\<open>strcmp\<close>-type comparison promises.\<close>

definition comparator :: "comparison \<Rightarrow> bool" where
  "comparator compare \<longleftrightarrow> strict_weak_order (cmp_less compare) \<and> (\<forall>a b. 0 < compare a b \<longleftrightarrow> compare b a < 0)"

definition holds_array :: "nat \<Rightarrow> nat \<Rightarrow> nat \<Rightarrow> cmem \<Rightarrow> byte list list \<Rightarrow> bool" where
  "holds_array array cnt sz m xs \<longleftrightarrow> in_mem m array (cnt * sz) \<and> elems array cnt sz m = xs"

lemma max_child_eq:
  assumes "holds_array array cnt sz m xs" "comparator compare" "1 \<le> child" "1 \<le> mx" "mx \<le> cnt" "n \<le> cnt"
  shows "max_child array child mx n sz compare m = Some (pick (cmp_less compare) n child mx xs)"
proof (cases "child \<le> n")
  case True
  have x: "in_mem m (array + (k - 1) * sz) sz \<and> slice (array + (k - 1) * sz) sz m = xs ! (k - 1)" if "1 \<le> k" "k \<le> cnt" for k
  proof -
    have "k - 1 < cnt" using that by auto
    then show ?thesis using assms(1) elem_range_in [of "k - 1" cnt sz] elems_nth [of "k - 1" cnt array sz m] by (auto simp: holds_array_def in_mem_def)
  qed
  show ?thesis using True assms(2-6) x [of child] x [of mx]
    by (auto simp: max_child_def do_compare_def elem_ptr_def pick_def cmp_less_def comparator_def)
qed (simp add: max_child_def pick_def)

lemma heapify_eq:
  assumes "holds_array array cnt sz m xs" "comparator compare" "1 \<le> i" "i \<le> n" "n \<le> cnt" "cnt < 2 ^ 31"
  shows "\<exists>m'. heapify array i n sz compare m = Some m' \<and> same_around array (cnt * sz) m m' \<and>
    holds_array array cnt sz m' (sift (cmp_less compare) n i xs)"
  using assms(1,3,4)
proof (induction "Suc n - i" arbitrary: i m xs rule: less_induct)
  case less
  let ?lt = "cmp_less compare" let ?l = "pick ?lt n (2 * i) i xs" let ?m = "largest ?lt n i xs"
  have i: "(2 * i) mod 2 ^ 32 = 2 * i" "(2 * i + 1) mod 2 ^ 32 = 2 * i + 1" using less.prems assms(5,6) by auto
  have l: "1 \<le> ?l" "?l \<le> cnt" using less.prems assms(5) by (auto simp: pick_def)
  have c: "max_child array (2 * i) i n sz compare m = Some ?l" "max_child array (2 * i + 1) ?l n sz compare m = Some ?m"
    unfolding largest_def using less.prems assms(2,5) l by (intro max_child_eq; simp)+
  have h: "heapify array i n sz compare m = (if ?m = i then Some m else do { m \<leftarrow> do_swap array i ?m sz m; heapify array ?m n sz compare m })"
    using c by (subst heapify.simps) (simp add: i [simplified] Let_def)
  show ?case
  proof (cases "?m = i")
    case True
    then show ?thesis using h less.prems by (simp add: sift.simps [of ?lt n i])
  next
    case False
    then have m: "?m \<le> n" "i < ?m" using largest_cases [of ?lt n i xs] less.prems by auto
    obtain m1 where m1: "do_swap array i ?m sz m = Some m1" "same_around array (cnt * sz) m m1" "in_mem m1 array (cnt * sz)"
      "elems array cnt sz m1 = swap_list i ?m xs"
      using do_swap_eq [of m array cnt sz i ?m] less.prems m assms(5) by (auto simp: holds_array_def)
    have h1: "holds_array array cnt sz m1 (swap_list i ?m xs)" using m1(3,4) by (simp add: holds_array_def)
    have "Suc n - ?m < Suc n - i" using m by auto
    then obtain m2 where "heapify array ?m n sz compare m1 = Some m2" "same_around array (cnt * sz) m1 m2"
      "holds_array array cnt sz m2 (sift ?lt n ?m (swap_list i ?m xs))"
      using less.hyps [of ?m m1 "swap_list i ?m xs"] m h1 less.prems(2) by auto
    moreover have "sift ?lt n i xs = sift ?lt n ?m (swap_list i ?m xs)" using False less.prems(2) by (simp add: sift.simps [of ?lt n i])
    moreover have "heapify array i n sz compare m = heapify array ?m n sz compare m1" using h False m1(1) by simp
    ultimately show ?thesis using m1(2) same_around_trans by metis
  qed
qed

lemma build_heap_eq:
  assumes "comparator compare" "cnt < 2 ^ 31" "holds_array array cnt sz m xs" "heap_from (cmp_less compare) (Suc i) cnt xs" "i \<le> cnt"
  shows "\<exists>m' ys. build_heap array i cnt sz compare m = Some m' \<and> same_around array (cnt * sz) m m' \<and> holds_array array cnt sz m' ys \<and>
    mset ys = mset xs \<and> heap_from (cmp_less compare) 1 cnt ys"
  using assms(3-5)
proof (induction i arbitrary: m xs)
  case 0
  then show ?case by auto
next
  case (Suc i)
  let ?lt = "cmp_less compare" let ?ys = "sift ?lt cnt (Suc i) xs"
  have o: "strict_weak_order ?lt" using assms(1) by (simp add: comparator_def)
  obtain m1 where m1: "heapify array (Suc i) cnt sz compare m = Some m1" "same_around array (cnt * sz) m m1" "holds_array array cnt sz m1 ?ys"
    using heapify_eq [OF Suc.prems(1) assms(1), of "Suc i" cnt] Suc.prems assms(2) by auto
  have l: "length xs = cnt" using Suc.prems(1) by (auto simp: holds_array_def)
  have "heap_from ?lt (Suc i) cnt ?ys"
    using strict_weak_order.sift_heap [OF o strict_weak_order.heap_sifting [OF o Suc.prems(2)]] Suc.prems l by simp
  moreover have "mset ?ys = mset xs" using strict_weak_order.sift_others [OF o, of "Suc i" cnt xs] Suc.prems l by simp
  ultimately obtain m2 ys where "build_heap array i cnt sz compare m1 = Some m2" "same_around array (cnt * sz) m1 m2" "holds_array array cnt sz m2 ys"
    "mset ys = mset xs" "heap_from ?lt 1 cnt ys"
    using Suc.IH [OF m1(3)] Suc.prems(3) by auto
  moreover have "build_heap array (Suc i) cnt sz compare m = build_heap array i cnt sz compare m1" using m1(1) by simp
  ultimately show ?case using m1(2) same_around_trans by metis
qed

lemma sort_heap_eq:
  assumes "comparator compare" "cnt < 2 ^ 31" "holds_array array cnt sz m xs" "heap_from (cmp_less compare) 1 n xs"
    "sorted_above (cmp_less compare) n xs" "n \<le> cnt"
  shows "\<exists>m' ys. sort_heap array n sz compare m = Some m' \<and> same_around array (cnt * sz) m m' \<and> holds_array array cnt sz m' ys \<and>
    mset ys = mset xs \<and> sorted_wrt (\<lambda>a b. compare a b \<le> 0) ys"
  using assms(3-6)
proof (induction n arbitrary: m xs)
  case 0
  have "sorted_wrt (\<lambda>a b. compare a b \<le> 0) xs"
    using 0(3) assms(1) unfolding sorted_above_def comparator_def cmp_less_def sorted_wrt_iff_nth_less by (metis le0 linorder_not_less)
  then show ?case using 0 by auto
next
  case (Suc n)
  let ?lt = "cmp_less compare"
  have o: "strict_weak_order ?lt" using assms(1) by (simp add: comparator_def)
  have l: "length xs = cnt" using Suc.prems(1) by (auto simp: holds_array_def)
  show ?case
  proof (cases "n = 0")
    case True
    then have "sorted_above ?lt 0 xs" using Suc.prems(3) unfolding sorted_above_def by auto
    then have "sorted_wrt (\<lambda>a b. compare a b \<le> 0) xs"
      using assms(1) unfolding sorted_above_def comparator_def cmp_less_def sorted_wrt_iff_nth_less by (metis le0 linorder_not_less)
    then show ?thesis using Suc.prems True by auto
  next
    case False
    let ?xs = "swap_list 1 (Suc n) xs" let ?ys = "sift ?lt n 1 ?xs"
    obtain m1 where m1: "do_swap array 1 (Suc n) sz m = Some m1" "same_around array (cnt * sz) m m1" "holds_array array cnt sz m1 ?xs"
      using do_swap_eq [of m array cnt sz 1 "Suc n"] Suc.prems False by (auto simp: holds_array_def)
    obtain m2 where m2: "heapify array 1 n sz compare m1 = Some m2" "same_around array (cnt * sz) m1 m2" "holds_array array cnt sz m2 ?ys"
      using heapify_eq [OF m1(3) assms(1), of 1 n] Suc.prems False assms(2) by auto
    have h: "heap_from ?lt 1 n ?ys" "sorted_above ?lt n ?ys"
      using strict_weak_order.sort_step [OF o Suc.prems(2,3)] False Suc.prems(4) l by auto
    have "mset ?ys = mset xs"
      using strict_weak_order.sift_others [OF o, of 1 n ?xs] mset_swap_list [of 1 xs "Suc n"] False Suc.prems(4) l by auto
    then obtain m3 ys where m3: "sort_heap array n sz compare m2 = Some m3" "same_around array (cnt * sz) m2 m3" "holds_array array cnt sz m3 ys"
      "mset ys = mset xs" "sorted_wrt (\<lambda>a b. compare a b \<le> 0) ys"
      using Suc.IH [OF m2(3) h] Suc.prems(4) by auto
    moreover have "sort_heap array (Suc n) sz compare m = sort_heap array n sz compare m2" using m1(1) m2(1) False by simp
    moreover have "same_around array (cnt * sz) m m3" using m1(2) m2(2) m3(2) same_around_trans by blast
    ultimately show ?thesis by auto
  qed
qed

text \<open>C12: sorting an array in place with \<^verbatim>\<open>sort\<close>, the heap sort of the library, given a \<^verbatim>\<open>strcmp\<close>-type comparison and an array of fewer
  than \<open>2 ^ 31\<close> elements: the code returns without touching memory outside the array, and the array holds
  the same elements in ascending order.\<close>

theorem sort_array_correct:
  assumes "in_mem m array (cnt * sz)" "0 < sz" "cnt < 2 ^ 31" "comparator compare"
  shows "\<exists>m'. sort_array array cnt sz compare m = Some m' \<and> length m' = length m \<and>
    take array m' = take array m \<and> drop (array + cnt * sz) m' = drop (array + cnt * sz) m \<and>
    mset (elems array cnt sz m') = mset (elems array cnt sz m) \<and>
    sorted_wrt (\<lambda>a b. compare a b \<le> 0) (elems array cnt sz m')"
proof -
  let ?lt = "cmp_less compare"
  have holds: "holds_array array cnt sz m (elems array cnt sz m)" using assms(1) by (simp add: holds_array_def)
  have h: "heap_from ?lt (Suc (cnt div 2)) cnt (elems array cnt sz m)" unfolding heap_from_def by auto
  obtain m1 ys where m1: "build_heap array (cnt div 2) cnt sz compare m = Some m1" "same_around array (cnt * sz) m m1" "holds_array array cnt sz m1 ys"
    "mset ys = mset (elems array cnt sz m)" "heap_from ?lt 1 cnt ys"
    using build_heap_eq [OF assms(4,3) holds h] by auto
  have "length ys = cnt" using m1(3) by (auto simp: holds_array_def)
  then have "sorted_above ?lt cnt ys" by (auto simp: sorted_above_def)
  then obtain m2 zs where "sort_heap array cnt sz compare m1 = Some m2" "same_around array (cnt * sz) m1 m2" "holds_array array cnt sz m2 zs"
    "mset zs = mset ys" "sorted_wrt (\<lambda>a b. compare a b \<le> 0) zs"
    using sort_heap_eq [OF assms(4,3) m1(3,5)] by auto
  then show ?thesis using m1 assms(1,2) by (auto simp: sort_array_def same_around_def in_mem_def holds_array_def)
qed

definition compare_first :: comparison where
  "compare_first a b = int (unat (hd a)) - int (unat (hd b))"

lemma comparator_first: "comparator compare_first"
  by (auto simp: comparator_def cmp_less_def compare_first_def strict_weak_order_def)

theorem sort_array_correct_witness:
  "sort_array 1 4 2 compare_first [9, 3, 7, 1, 6, 2, 8, 1, 5, 9] = Some [9, 1, 6, 1, 5, 2, 8, 3, 7, 9] \<and>
    mset (elems 1 4 2 [9, 1, 6, 1, 5, 2, 8, 3, 7, 9]) = mset (elems 1 4 2 [9, 3, 7, 1, 6, 2, 8, 1, 5, 9])"
proof -
  have e: "sort_array 1 4 2 compare_first [9, 3, 7, 1, 6, 2, 8, 1, 5, 9] = Some [9, 1, 6, 1, 5, 2, 8, 3, 7, 9]" by code_simp
  then show ?thesis
    using sort_array_correct [of "[9, 3, 7, 1, 6, 2, 8, 1, 5, 9]" 1 4 2 compare_first] comparator_first by (simp add: in_mem_def)
qed

section \<open>Searching\<close>

lemma binary_search_loop_eq:
  assumes "holds_array array cnt sz m xs" "comparator compare" "0 < sz" "sorted_wrt (\<lambda>a b. compare a b \<le> 0) xs"
    "lo \<le> hi" "hi \<le> cnt" "\<And>k. k < lo \<Longrightarrow> compare key (xs ! k) \<noteq> 0" "\<And>k. hi \<le> k \<Longrightarrow> k < cnt \<Longrightarrow> compare key (xs ! k) \<noteq> 0"
  shows "\<exists>r. binary_search_loop key (array + lo * sz) (array + hi * sz) sz compare m = Some r \<and>
    (if r = 0 then \<forall>x\<in>set xs. compare key x \<noteq> 0 else \<exists>k < cnt. r = array + k * sz \<and> compare key (xs ! k) = 0)"
  using assms(5-8)
proof (induction "hi - lo" arbitrary: lo hi rule: less_induct)
  case less
  have a: "array \<noteq> 0" "array + cnt * sz \<le> length m" "length xs = cnt" using assms(1) by (auto simp: holds_array_def in_mem_def)
  show ?case
  proof (cases "lo = hi")
    case True
    then have "compare key x \<noteq> 0" if "x \<in> set xs" for x
      using that less.prems(3,4) a(3) by (metis in_set_conv_nth linorder_not_less)
    then show ?thesis using True assms(3) by (simp add: binary_search_loop.simps)
  next
    case False
    let ?k = "lo + (hi - lo) div 2"
    have k: "lo \<le> ?k" "?k < hi" "?k < cnt" using False less.prems by auto
    have lt: "array + lo * sz < array + hi * sz" using False less.prems(1) assms(3) by simp
    have "array + hi * sz - (array + lo * sz) = (hi - lo) * sz" by (simp add: diff_mult_distrib)
    then have "(array + hi * sz - (array + lo * sz)) div sz = hi - lo" using assms(3) by simp
    then have mid: "array + lo * sz + (array + hi * sz - (array + lo * sz)) div sz div 2 * sz = array + ?k * sz"
      by (simp only:) (simp add: add_mult_distrib)
    have el: "in_mem m (array + ?k * sz) sz" "slice (array + ?k * sz) sz m = xs ! ?k"
      using elem_range_in [OF k(3), of sz] a assms(1) elems_nth [OF k(3), of array sz m] by (auto simp: holds_array_def in_mem_def)
    have st: "binary_search_loop key (array + lo * sz) (array + hi * sz) sz compare m =
      (if compare key (xs ! ?k) < 0 then binary_search_loop key (array + lo * sz) (array + ?k * sz) sz compare m
       else if compare key (xs ! ?k) > 0 then binary_search_loop key (array + (?k + 1) * sz) (array + hi * sz) sz compare m
       else Some (array + ?k * sz))"
      using assms(3) lt el by (subst binary_search_loop.simps) (simp only: mid Let_def, simp add: algebra_simps)
    have o: "strict_weak_order (cmp_less compare)" "\<And>x y. 0 < compare x y \<longleftrightarrow> compare y x < 0" using assms(2) by (auto simp: comparator_def)
    have mono: "compare (xs ! i) (xs ! j) \<le> 0" if "i \<le> j" "j < cnt" for i j
    proof (cases "i = j")
      case True
      then show ?thesis using strict_weak_order.irrefl [OF o(1), of "xs ! i"] o(2) [of "xs ! i" "xs ! i"] unfolding cmp_less_def by simp
    next
      case False
      then show ?thesis using assms(4) that a(3) by (auto simp: sorted_wrt_iff_nth_less)
    qed
    have tr: "compare x z \<le> 0" if "compare x y \<le> 0" "compare y z \<le> 0" for x y z
      using strict_weak_order.neg_trans [OF o(1), of y x z] that o(2) unfolding cmp_less_def by (meson linorder_not_less)
    consider "compare key (xs ! ?k) < 0" | "compare key (xs ! ?k) > 0" | "compare key (xs ! ?k) = 0" by linarith
    then show ?thesis
    proof cases
      case 1
      have "compare key (xs ! j) \<noteq> 0" if "?k \<le> j" "j < cnt" for j
        using tr [of "xs ! ?k" "xs ! j" key] mono [OF that] o(2) 1 by (metis linorder_not_less order.irrefl order_refl)
      then show ?thesis using less.hyps [of ?k lo] k less.prems st 1 by auto
    next
      case 2
      have "compare key (xs ! j) \<noteq> 0" if "j < ?k + 1" for j
        using tr [of key "xs ! j" "xs ! ?k"] mono [of j ?k] that k(3) 2 by force
      then show ?thesis using less.hyps [of hi "?k + 1"] k less.prems st 2 by auto
    next
      case 3
      then show ?thesis using st k(3) a(1) by auto
    qed
  qed
qed

text \<open>Searching a sorted array with \<^verbatim>\<open>binary_search\<close> returns: either the null pointer, and then no element is equivalent to
  the key, or the address of an element that is.\<close>

lemma binary_search_correct:
  assumes "in_mem m array (cnt * sz)" "0 < sz" "comparator compare" "sorted_wrt (\<lambda>a b. compare a b \<le> 0) (elems array cnt sz m)"
  shows "\<exists>r. binary_search key array cnt sz compare m = Some r \<and>
    (if r = 0 then \<forall>x\<in>set (elems array cnt sz m). compare key x \<noteq> 0
     else \<exists>k < cnt. r = array + k * sz \<and> compare key (elems array cnt sz m ! k) = 0)"
  using binary_search_loop_eq [of array cnt sz m "elems array cnt sz m" compare 0 cnt key] assms
  by (simp add: binary_search_def holds_array_def mult.commute)

section \<open>Integers\<close>

definition digits_value :: "byte list \<Rightarrow> int" where
  "digits_value ds = foldl (\<lambda>v c. v * 10 + (int (unat c) - 48)) 0 ds"

lemma digits_value_snoc [simp]: "digits_value (ds @ [c]) = digits_value ds * 10 + (int (unat c) - 48)" "digits_value [] = 0"
  by (simp_all add: digits_value_def)

lemma isdigit_value: "isdigit c \<Longrightarrow> 0 \<le> int (unat c) - 48 \<and> int (unat c) - 48 \<le> 9"
  by (simp add: isdigit_def word_le_def)

lemma foldl_digits_ge:
  "list_all isdigit ds \<Longrightarrow> 0 \<le> v \<Longrightarrow> v \<le> foldl (\<lambda>v c. v * 10 + (int (unat c) - 48)) v ds"
proof (induction ds arbitrary: v)
  case (Cons c ds)
  then have c: "0 \<le> int (unat c) - 48" using isdigit_value by auto
  then have "v * 10 + (int (unat c) - 48) \<le> foldl (\<lambda>v c. v * 10 + (int (unat c) - 48)) (v * 10 + (int (unat c) - 48)) ds"
    using Cons by (intro Cons.IH) auto
  then show ?case using c Cons.prems by simp
qed simp

lemma atoi_digits_eq:
  assumes "str_at m s ds" "list_all isdigit ds" "0 \<le> v" "foldl (\<lambda>v c. v * 10 + (int (unat c) - 48)) v ds \<le> - INT_MIN"
  shows "atoi_digits s (- v) m = Some (- foldl (\<lambda>v c. v * 10 + (int (unat c) - 48)) v ds)"
  using assms
proof (induction ds arbitrary: s v)
  case Nil
  then show ?case by (simp add: atoi_digits.simps isdigit_def)
next
  case (Cons c ds)
  let ?d = "int (unat c) - 48" let ?v = "v * 10 + ?d"
  have d: "0 \<le> ?d" "isdigit c" using Cons.prems isdigit_value by auto
  have "?v \<le> foldl (\<lambda>v c. v * 10 + (int (unat c) - 48)) ?v ds" using Cons.prems d by (intro foldl_digits_ge) auto
  then have "?v \<le> - INT_MIN" using Cons.prems(4) by simp
  then have "c_int (- v * 10) = Some (- v * 10)" "c_int (- v * 10 - ?d) = Some (- ?v)"
    using d(1) Cons.prems(3) by (auto simp: c_int_def INT_MIN_def INT_MAX_def)
  then have "atoi_digits s (- v) m = atoi_digits (s + 1) (- ?v) m"
    using Cons.prems(1) d(2) by (subst atoi_digits.simps) simp
  also have "\<dots> = Some (- foldl (\<lambda>v c. v * 10 + (int (unat c) - 48)) ?v ds)"
    using Cons.prems d by (intro Cons.IH) auto
  finally show ?case by simp
qed

lemma skip_space_eq:
  assumes "str_at m s (sp @ rest)" "list_all isspace sp" "rest \<noteq> [] \<Longrightarrow> \<not> isspace (hd rest)"
  shows "skip_space s m = Some (s + length sp) \<and> str_at m (s + length sp) rest"
  using assms(1,2)
proof (induction sp arbitrary: s)
  case Nil
  have "ld m s = Some (if rest = [] then 0 else hd rest)" using Nil by (cases rest) auto
  moreover have "\<not> isspace (if rest = [] then 0 else hd rest)" using assms(3) by (cases rest) (auto simp: isspace_def)
  ultimately show ?case using Nil by (simp add: skip_space.simps [of s])
next
  case (Cons c sp)
  then have "skip_space s m = skip_space (s + 1) m" by (simp add: skip_space.simps [of s])
  moreover have "skip_space (s + 1) m = Some (s + 1 + length sp) \<and> str_at m (s + 1 + length sp) rest" using Cons by (intro Cons.IH) auto
  ultimately show ?case by simp
qed

lemma atoi_eq:
  assumes "str_at m s (sp @ sg @ ds)" "list_all isspace sp" "sg \<in> {[], [43], [45]}" "list_all isdigit ds"
    "digits_value ds \<le> (if sg = [45] then - INT_MIN else INT_MAX)"
  shows "atoi s m = Some (if sg = [45] then - digits_value ds else digits_value ds)"
proof -
  have "\<not> isspace (hd (sg @ ds))" if "sg @ ds \<noteq> []"
    using assms(3,4) that by (cases ds) (auto simp: isspace_def isdigit_def)
  then have s: "skip_space s m = Some (s + length sp)" "str_at m (s + length sp) (sg @ ds)"
    using skip_space_eq [OF assms(1,2)] by auto
  let ?c = "if sg = [] then if ds = [] then 0 else hd ds else hd sg"
  have c: "ld m (s + length sp) = Some ?c" using s(2) assms(3) by (cases ds) auto
  have ne: "?c = 43 \<longleftrightarrow> sg = [43]" "?c = 45 \<longleftrightarrow> sg = [45]" using assms(3,4) by (cases ds; auto simp: isdigit_def)+
  have "str_at m (s + length sp + length sg) ds" using s(2) assms(3) by auto
  then have "atoi_digits (s + length sp + length sg) 0 m = Some (- digits_value ds)"
    using atoi_digits_eq [of m "s + length sp + length sg" ds 0] assms(4,5)
    by (auto simp: digits_value_def INT_MIN_def INT_MAX_def split: if_splits)
  moreover have "s \<noteq> 0" using assms(1) by (cases "sp @ sg @ ds") (auto simp: ld_def split: if_splits)
  moreover have "0 \<le> digits_value ds" using foldl_digits_ge [OF assms(4), of 0] by (simp add: digits_value_def)
  ultimately show ?thesis
    using s(1) c ne assms(3,5) by (auto simp: atoi_def Let_def c_int_def INT_MIN_def INT_MAX_def)
qed

end
