(* ===== verification/Stdio.thy ===== *)
theory Stdio
  imports Stdlib
begin

text \<open>
  Formatted output: \<^verbatim>\<open>lib/stdio.c\<close> and the console of \<^verbatim>\<open>lib/kernel/console.c\<close>. A format or string is a pointer into
  the memory or a string literal; a read outside either is a fault. The argument list is the sequence of the 32-bit words
  that the caller pushed, from which \<^verbatim>\<open>va_arg\<close> takes one word, or two for a 64-bit integer; taking more than were
  pushed is a fault. The \<^verbatim>\<open>output\<close> function that the code passes around acts on the memory and on its auxiliary data.
  Overflow of \<^verbatim>\<open>int\<close> arithmetic is undefined and is a fault.
\<close>

section \<open>Strings, arguments and output functions\<close>

datatype c_text = Ptr nat | Lit "byte list"

definition char_at :: "c_text \<Rightarrow> nat \<Rightarrow> cmem \<Rightarrow> byte option" where
  "char_at t i m = (case t of Ptr p \<Rightarrow> if p = 0 then None else ld m (p + i)
     | Lit s \<Rightarrow> if i < length s then Some (s ! i) else if i = length s then Some 0 else None)"

definition left_at :: "c_text \<Rightarrow> nat \<Rightarrow> cmem \<Rightarrow> nat" where
  "left_at t i m = (case t of Ptr p \<Rightarrow> length m - (p + i) | Lit s \<Rightarrow> Suc (length s) - i)"

lemma char_at_left: "char_at t i m = Some c \<Longrightarrow> left_at t (Suc i) m < left_at t i m"
  by (auto simp: char_at_def left_at_def ld_def split: c_text.splits if_splits)

type_synonym va_list = "u32 list"

fun va32 :: "va_list \<Rightarrow> (u32 \<times> va_list) option" where
  "va32 [] = None"
| "va32 (w # ws) = Some (w, ws)"

fun va64 :: "va_list \<Rightarrow> (u64 \<times> va_list) option" where
  "va64 (l # h # ws) = Some (ucast l OR push_bit 32 (ucast h), ws)"
| "va64 _ = None"

type_synonym 'a out_fun = "byte \<Rightarrow> cmem \<times> 'a \<Rightarrow> (cmem \<times> 'a) option"

fun output_dup :: "byte \<Rightarrow> nat \<Rightarrow> 'a out_fun \<Rightarrow> cmem \<times> 'a \<Rightarrow> (cmem \<times> 'a) option" where
  "output_dup ch 0 out s = Some s"
| "output_dup ch (Suc cnt) out s = do { s \<leftarrow> out ch s; output_dup ch cnt out s }"

text \<open>A sequence of calls of the output function.\<close>

fun emit :: "'a out_fun \<Rightarrow> byte list \<Rightarrow> cmem \<times> 'a \<Rightarrow> (cmem \<times> 'a) option" where
  "emit out [] s = Some s"
| "emit out (c # cs) s = do { s \<leftarrow> out c s; emit out cs s }"

section \<open>Conversions\<close>

definition MINUS :: u32 where "MINUS = 1"
definition PLUS :: u32 where "PLUS = 2"
definition SPACE :: u32 where "SPACE = 4"
definition POUND :: u32 where "POUND = 8"
definition ZERO :: u32 where "ZERO = 16"
definition GROUP :: u32 where "GROUP = 32"

datatype arg_type = CHAR_ARG | SHORT | INT_ARG | INTMAX | LONG | LONGLONG | PTRDIFFT | SIZET

record printf_conversion =
  flags :: u32
  width :: int
  precision :: int
  arg_type :: arg_type

record integer_base =
  ib_base :: nat
  ib_digits :: "byte list"
  ib_x :: byte
  ib_group :: nat

definition dec_digits :: "byte list" where
  "dec_digits = [48, 49, 50, 51, 52, 53, 54, 55, 56, 57]"

definition base_d :: integer_base where
  "base_d = \<lparr>ib_base = 10, ib_digits = dec_digits, ib_x = 0, ib_group = 3\<rparr>"

definition base_o :: integer_base where
  "base_o = \<lparr>ib_base = 8, ib_digits = take 8 dec_digits, ib_x = 0, ib_group = 3\<rparr>"

definition base_x :: integer_base where
  "base_x = \<lparr>ib_base = 16, ib_digits = dec_digits @ [97, 98, 99, 100, 101, 102], ib_x = 120, ib_group = 4\<rparr>"

definition base_X :: integer_base where
  "base_X = \<lparr>ib_base = 16, ib_digits = dec_digits @ [65, 66, 67, 68, 69, 70], ib_x = 88, ib_group = 4\<rparr>"

text \<open>The flag that a character stands for, if any.\<close>

definition flag_of :: "byte \<Rightarrow> u32 option" where
  "flag_of c = (if c = 45 then Some MINUS else if c = 43 then Some PLUS else if c = 32 then Some SPACE
     else if c = 35 then Some POUND else if c = 48 then Some ZERO else if c = 39 then Some GROUP else None)"

function parse_flags :: "c_text \<Rightarrow> nat \<Rightarrow> u32 \<Rightarrow> cmem \<Rightarrow> (nat \<times> u32) option" where
  "parse_flags fmt i fl m = (case char_at fmt i m of None \<Rightarrow> None
     | Some c \<Rightarrow> (case flag_of c of None \<Rightarrow> Some (i, fl) | Some f \<Rightarrow> parse_flags fmt (Suc i) (fl OR f) m))"
  by auto
termination by (relation "measure (\<lambda>(fmt, i, fl, m). left_at fmt i m)") (auto simp: char_at_left)

function parse_number :: "c_text \<Rightarrow> nat \<Rightarrow> int \<Rightarrow> cmem \<Rightarrow> (nat \<times> int) option" where
  "parse_number fmt i v m = (case char_at fmt i m of None \<Rightarrow> None
     | Some c \<Rightarrow> if isdigit c then
         (case do { v \<leftarrow> c_int (v * 10); v \<leftarrow> c_int (v + int (unat c)); c_int (v - 48) } of None \<Rightarrow> None
          | Some v \<Rightarrow> parse_number fmt (Suc i) v m)
       else Some (i, v))"
  by auto
termination by (relation "measure (\<lambda>(fmt, i, v, m). left_at fmt i m)") (auto simp: char_at_left)

declare parse_flags.simps [simp del] parse_number.simps [simp del]

definition parse_width :: "c_text \<Rightarrow> nat \<Rightarrow> u32 \<Rightarrow> va_list \<Rightarrow> cmem \<Rightarrow> (nat \<times> int \<times> u32 \<times> va_list) option" where
  "parse_width fmt i fl args m = do {
     c \<leftarrow> char_at fmt i m;
     (i, w, args) \<leftarrow> (if c = 42 then do { (w, args) \<leftarrow> va32 args; Some (Suc i, sint w, args) }
                      else do { (i, w) \<leftarrow> parse_number fmt i 0 m; Some (i, w, args) });
     if w < 0 then do { w \<leftarrow> c_int (- w); Some (i, w, fl OR MINUS, args) } else Some (i, w, fl, args)
   }"

definition parse_precision :: "c_text \<Rightarrow> nat \<Rightarrow> va_list \<Rightarrow> cmem \<Rightarrow> (nat \<times> int \<times> va_list) option" where
  "parse_precision fmt i args m = do {
     c \<leftarrow> char_at fmt i m;
     if c \<noteq> 46 then Some (i, -1, args)
     else do {
       c \<leftarrow> char_at fmt (Suc i) m;
       (i, p, args) \<leftarrow> (if c = 42 then do { (w, args) \<leftarrow> va32 args; Some (Suc (Suc i), sint w, args) }
                        else do { (i, p) \<leftarrow> parse_number fmt (Suc i) 0 m; Some (i, p, args) });
       Some (i, if p < 0 then -1 else p, args)
     }
   }"

definition parse_type :: "c_text \<Rightarrow> nat \<Rightarrow> cmem \<Rightarrow> (nat \<times> arg_type) option" where
  "parse_type fmt i m = do {
     c \<leftarrow> char_at fmt i m;
     if c = 104 then do { d \<leftarrow> char_at fmt (Suc i) m; Some (if d = 104 then (i + 2, CHAR_ARG) else (i + 1, SHORT)) }
     else if c = 106 then Some (i + 1, INTMAX)
     else if c = 108 then do { d \<leftarrow> char_at fmt (Suc i) m; Some (if d = 108 then (i + 2, LONGLONG) else (i + 1, LONG)) }
     else if c = 116 then Some (i + 1, PTRDIFFT)
     else if c = 122 then Some (i + 1, SIZET)
     else Some (i, INT_ARG)
   }"

definition parse_conversion :: "c_text \<Rightarrow> nat \<Rightarrow> va_list \<Rightarrow> cmem \<Rightarrow> (nat \<times> printf_conversion \<times> va_list) option" where
  "parse_conversion fmt i args m = do {
     (i, fl) \<leftarrow> parse_flags fmt i 0 m;
     let fl = (if fl AND MINUS \<noteq> 0 then fl AND NOT ZERO else fl);
     let fl = (if fl AND PLUS \<noteq> 0 then fl AND NOT SPACE else fl);
     (i, w, fl, args) \<leftarrow> parse_width fmt i fl args m;
     (i, p, args) \<leftarrow> parse_precision fmt i args m;
     let fl = (if p \<ge> 0 then fl AND NOT ZERO else fl);
     (i, ty) \<leftarrow> parse_type fmt i m;
     Some (i, \<lparr>flags = fl, width = w, precision = p, arg_type = ty\<rparr>, args)
   }"

section \<open>Integers\<close>

text \<open>The buffer \<^verbatim>\<open>char buf[64]\<close>, in the order in which it is filled.\<close>

definition push_char :: "byte \<Rightarrow> byte list \<Rightarrow> byte list option" where
  "push_char ch buf = (if length buf < 64 then Some (buf @ [ch]) else None)"

function digit_loop :: "nat \<Rightarrow> nat \<Rightarrow> integer_base \<Rightarrow> u32 \<Rightarrow> byte list \<Rightarrow> byte list option" where
  "digit_loop value digit_cnt b fl buf = (if value = 0 then Some buf else if ib_base b < 2 then None else
     (case do {
        buf \<leftarrow> (if fl AND GROUP \<noteq> 0 \<and> digit_cnt > 0 \<and> digit_cnt mod ib_group b = 0 then push_char 44 buf else Some buf);
        d \<leftarrow> arr_get (ib_digits b) (value mod ib_base b);
        push_char d buf } of None \<Rightarrow> None
      | Some buf \<Rightarrow> digit_loop (value div ib_base b) (Suc digit_cnt) b fl buf))"
  by auto
termination by (relation "measure (\<lambda>(value, n, b, fl, buf). value)") auto

function zero_loop :: "int \<Rightarrow> byte list \<Rightarrow> byte list" where
  "zero_loop p buf = (if int (length buf) < p \<and> length buf < 63 then zero_loop p (buf @ [48]) else buf)"
  by auto
termination by (relation "measure (\<lambda>(p, buf). 63 - length buf)") auto

declare digit_loop.simps [simp del] zero_loop.simps [simp del]

definition sign_char :: "bool \<Rightarrow> bool \<Rightarrow> u32 \<Rightarrow> byte" where
  "sign_char is_signed negative fl = (if \<not> is_signed then 0
     else if fl AND PLUS \<noteq> 0 then if negative then 45 else 43
     else if fl AND SPACE \<noteq> 0 then if negative then 45 else 32
     else if negative then 45 else 0)"

definition format_integer :: "nat \<Rightarrow> bool \<Rightarrow> bool \<Rightarrow> integer_base \<Rightarrow> printf_conversion \<Rightarrow> 'a out_fun \<Rightarrow> cmem \<times> 'a \<Rightarrow> (cmem \<times> 'a) option" where
  "format_integer value is_signed negative b c out s = do {
     let sign = sign_char is_signed negative (flags c);
     let x = (if flags c AND POUND \<noteq> 0 \<and> value \<noteq> 0 then ib_x b else 0);
     buf \<leftarrow> digit_loop value 0 b (flags c) [];
     let buf = zero_loop (if precision c < 0 then 1 else precision c) buf;
     buf \<leftarrow> (if flags c AND POUND \<noteq> 0 \<and> ib_base b = 8 \<and> (buf = [] \<or> last buf \<noteq> 48) then push_char 48 buf else Some buf);
     let pad_cnt = nat (width c - int (length buf) - (if x \<noteq> 0 then 2 else 0) - (if sign \<noteq> 0 then 1 else 0));
     s \<leftarrow> (if flags c AND (MINUS OR ZERO) = 0 then output_dup 32 pad_cnt out s else Some s);
     s \<leftarrow> (if sign \<noteq> 0 then out sign s else Some s);
     s \<leftarrow> (if x \<noteq> 0 then do { s \<leftarrow> out 48 s; out x s } else Some s);
     s \<leftarrow> (if flags c AND ZERO \<noteq> 0 then output_dup 48 pad_cnt out s else Some s);
     s \<leftarrow> emit out (rev buf) s;
     if flags c AND MINUS \<noteq> 0 then output_dup 32 pad_cnt out s else Some s
   }"

text \<open>The value of a signed and of an unsigned integer argument.\<close>

definition signed_arg :: "arg_type \<Rightarrow> va_list \<Rightarrow> (int \<times> va_list) option" where
  "signed_arg ty args = (case ty of
     CHAR_ARG \<Rightarrow> do { (w, args) \<leftarrow> va32 args; Some (sint (ucast w :: 8 word), args) }
   | SHORT \<Rightarrow> do { (w, args) \<leftarrow> va32 args; Some (sint (ucast w :: 16 word), args) }
   | INTMAX \<Rightarrow> do { (w, args) \<leftarrow> va64 args; Some (sint w, args) }
   | LONGLONG \<Rightarrow> do { (w, args) \<leftarrow> va64 args; Some (sint w, args) }
   | SIZET \<Rightarrow> do { (w, args) \<leftarrow> va32 args;
       let v = int (unat w);
       Some (if v > (2 ^ 32 - 1) div 2 then v - (2 ^ 32 - 1) - 1 else v, args) }
   | _ \<Rightarrow> do { (w, args) \<leftarrow> va32 args; Some (sint w, args) })"

definition unsigned_arg :: "arg_type \<Rightarrow> va_list \<Rightarrow> (nat \<times> va_list) option" where
  "unsigned_arg ty args = (case ty of
     CHAR_ARG \<Rightarrow> do { (w, args) \<leftarrow> va32 args; Some (unat (ucast w :: 8 word), args) }
   | SHORT \<Rightarrow> do { (w, args) \<leftarrow> va32 args; Some (unat (ucast w :: 16 word), args) }
   | INTMAX \<Rightarrow> do { (w, args) \<leftarrow> va64 args; Some (unat w, args) }
   | LONGLONG \<Rightarrow> do { (w, args) \<leftarrow> va64 args; Some (unat w, args) }
   | PTRDIFFT \<Rightarrow> do { (w, args) \<leftarrow> va32 args; Some (unat ((scast w :: u64) AND 0xFFFFFFFF), args) }
   | _ \<Rightarrow> do { (w, args) \<leftarrow> va32 args; Some (unat w, args) })"

section \<open>Strings\<close>

fun output_text :: "c_text \<Rightarrow> nat \<Rightarrow> nat \<Rightarrow> 'a out_fun \<Rightarrow> cmem \<times> 'a \<Rightarrow> (cmem \<times> 'a) option" where
  "output_text t i 0 out s = Some s"
| "output_text t i (Suc n) out s = do { ch \<leftarrow> char_at t i (fst s); s \<leftarrow> out ch s; output_text t (Suc i) n out s }"

definition format_string :: "c_text \<Rightarrow> int \<Rightarrow> printf_conversion \<Rightarrow> 'a out_fun \<Rightarrow> cmem \<times> 'a \<Rightarrow> (cmem \<times> 'a) option" where
  "format_string t len c out s = do {
     s \<leftarrow> (if width c > len \<and> flags c AND MINUS = 0 then output_dup 32 (nat (width c - len)) out s else Some s);
     s \<leftarrow> output_text t 0 (nat len) out s;
     if width c > len \<and> flags c AND MINUS \<noteq> 0 then output_dup 32 (nat (width c - len)) out s else Some s
   }"

definition text_nlen :: "c_text \<Rightarrow> nat \<Rightarrow> cmem \<Rightarrow> nat option" where
  "text_nlen t maxlen m = (case t of Ptr p \<Rightarrow> strnlen p maxlen m | Lit s \<Rightarrow> Some (min maxlen (length s)))"

definition null_text :: "byte list" where
  "null_text = [40, 110, 117, 108, 108, 41]"

definition size_of_int :: "int \<Rightarrow> nat" where
  "size_of_int v = nat (v mod 2 ^ 32)"

section \<open>The interpreter of formats\<close>

definition is_conversion :: "byte \<Rightarrow> bool" where
  "is_conversion ch \<longleftrightarrow> ch \<in> {100, 105, 111, 117, 120, 88, 99, 115, 112}"

definition convert :: "byte \<Rightarrow> printf_conversion \<Rightarrow> va_list \<Rightarrow> 'a out_fun \<Rightarrow> cmem \<times> 'a \<Rightarrow> (va_list \<times> cmem \<times> 'a) option" where
  "convert ch c args out s =
    (if ch \<in> {100, 105} then do {
       (value, args) \<leftarrow> signed_arg (arg_type c) args;
       ASSERT (value \<noteq> - (2 ^ 63));
       s \<leftarrow> format_integer (nat \<bar>value\<bar>) True (value < 0) base_d c out s;
       Some (args, s) }
     else if ch \<in> {111, 117, 120, 88} then do {
       (value, args) \<leftarrow> unsigned_arg (arg_type c) args;
       s \<leftarrow> format_integer value False False (if ch = 111 then base_o else if ch = 117 then base_d else if ch = 120 then base_x else base_X) c out s;
       Some (args, s) }
     else if ch = 99 then do {
       (w, args) \<leftarrow> va32 args;
       s \<leftarrow> format_string (Lit [ucast w]) 1 c out s;
       Some (args, s) }
     else if ch = 115 then do {
       (w, args) \<leftarrow> va32 args;
       let t = (if w = 0 then Lit null_text else Ptr (unat w));
       n \<leftarrow> text_nlen t (size_of_int (precision c)) (fst s);
       s \<leftarrow> format_string t (int n) c out s;
       Some (args, s) }
     else if ch = 112 then do {
       (w, args) \<leftarrow> va32 args;
       s \<leftarrow> format_integer (unat w) False False base_x (c\<lparr>flags := POUND\<rparr>) out s;
       Some (args, s) }
     else None)"

text \<open>The messages \<^verbatim>\<open><<no %%%c in kernel>>\<close> and \<^verbatim>\<open><<no %%%c conversion>>\<close>.\<close>

definition no_in_kernel :: "byte list" where
  "no_in_kernel = [60, 60, 110, 111, 32, 37, 37, 37, 99, 32, 105, 110, 32, 107, 101, 114, 110, 101, 108, 62, 62]"

definition no_conversion :: "byte list" where
  "no_conversion = [60, 60, 110, 111, 32, 37, 37, 37, 99, 32, 99, 111, 110, 118, 101, 114, 115, 105, 111, 110, 62, 62]"

partial_function (option) do_vprintf :: "c_text \<Rightarrow> nat \<Rightarrow> va_list \<Rightarrow> 'a out_fun \<Rightarrow> cmem \<times> 'a \<Rightarrow> (cmem \<times> 'a) option" where
  "do_vprintf fmt i args out s = do {
     ch \<leftarrow> char_at fmt i (fst s);
     if ch = 0 then Some s
     else if ch \<noteq> 37 then do { s \<leftarrow> out ch s; do_vprintf fmt (i + 1) args out s }
     else do {
       ch \<leftarrow> char_at fmt (i + 1) (fst s);
       if ch = 37 then do { s \<leftarrow> out 37 s; do_vprintf fmt (i + 2) args out s }
       else do {
         (i, c, args) \<leftarrow> parse_conversion fmt (i + 1) args (fst s);
         ch \<leftarrow> char_at fmt i (fst s);
         if is_conversion ch then do {
           (args, s) \<leftarrow> convert ch c args out s;
           do_vprintf fmt (i + 1) args out s }
         else do {
           s \<leftarrow> do_vprintf (Lit (if ch \<in> {102, 101, 69, 103, 71, 110} then no_in_kernel else no_conversion)) 0 [scast ch] out s;
           do_vprintf fmt (i + 1) args out s }
       }
     }
   }"

declare do_vprintf.simps [code]

section \<open>Output to a buffer\<close>

record vsnprintf_aux =
  aux_p :: nat
  aux_length :: int
  aux_max_length :: int

definition vsnprintf_helper :: "vsnprintf_aux out_fun" where
  "vsnprintf_helper ch = (\<lambda>(m, aux). do {
     len \<leftarrow> c_int (aux_length aux + 1);
     if aux_length aux < aux_max_length aux then do {
       m \<leftarrow> st m (aux_p aux) ch;
       Some (m, aux\<lparr>aux_length := len, aux_p := aux_p aux + 1\<rparr>) }
     else Some (m, aux\<lparr>aux_length := len\<rparr>) })"

definition vsnprintf :: "nat \<Rightarrow> nat \<Rightarrow> c_text \<Rightarrow> va_list \<Rightarrow> cmem \<Rightarrow> (int \<times> cmem) option" where
  "vsnprintf buffer buf_size fmt args m = do {
     let aux = \<lparr>aux_p = buffer, aux_length = 0, aux_max_length = sint (of_nat (if buf_size > 0 then buf_size - 1 else 0) :: u32)\<rparr>;
     (m, aux) \<leftarrow> do_vprintf fmt 0 args vsnprintf_helper (m, aux);
     m \<leftarrow> (if buf_size > 0 then st m (aux_p aux) 0 else Some m);
     Some (aux_length aux, m)
   }"

definition snprintf :: "nat \<Rightarrow> nat \<Rightarrow> c_text \<Rightarrow> va_list \<Rightarrow> cmem \<Rightarrow> (int \<times> cmem) option" where
  "snprintf buffer buf_size fmt args m = vsnprintf buffer buf_size fmt args m"

section \<open>Output to the console\<close>

text \<open>The console as the running thread sees it: \<open>held\<close> is whether it holds the lock, \<open>in_intr\<close> whether it is in an
  interrupt handler. \<^verbatim>\<open>lock_acquire\<close> returns once the lock is held. The characters go to the display and to the serial port.\<close>

record console =
  use_console_lock :: bool
  console_lock_depth :: int
  held :: bool
  in_intr :: bool
  write_cnt :: int
  written :: "byte list"

definition console_init :: "console \<Rightarrow> console" where
  "console_init con = con\<lparr>held := False, use_console_lock := True\<rparr>"

definition console_panic :: "console \<Rightarrow> console" where
  "console_panic con = con\<lparr>use_console_lock := False\<rparr>"

definition acquire_console :: "console \<Rightarrow> console option" where
  "acquire_console con = (if \<not> in_intr con \<and> use_console_lock con then
     if held con then do { d \<leftarrow> c_int (console_lock_depth con + 1); Some (con\<lparr>console_lock_depth := d\<rparr>) }
     else Some (con\<lparr>held := True\<rparr>)
   else Some con)"

definition release_console :: "console \<Rightarrow> console option" where
  "release_console con = (if \<not> in_intr con \<and> use_console_lock con then
     if console_lock_depth con > 0 then Some (con\<lparr>console_lock_depth := console_lock_depth con - 1\<rparr>)
     else do { ASSERT (held con); Some (con\<lparr>held := False\<rparr>) }
   else Some con)"

definition console_locked_by_current_thread :: "console \<Rightarrow> bool" where
  "console_locked_by_current_thread con \<longleftrightarrow> in_intr con \<or> \<not> use_console_lock con \<or> held con"

definition putchar_have_lock :: "byte \<Rightarrow> console \<Rightarrow> console option" where
  "putchar_have_lock c con = do {
     ASSERT (console_locked_by_current_thread con);
     Some (con\<lparr>write_cnt := write_cnt con + 1, written := written con @ [c]\<rparr>) }"

definition vprintf_helper :: "(int \<times> console) out_fun" where
  "vprintf_helper c = (\<lambda>(m, char_cnt, con). do {
     char_cnt \<leftarrow> c_int (char_cnt + 1);
     con \<leftarrow> putchar_have_lock c con;
     Some (m, char_cnt, con) })"

definition vprintf :: "c_text \<Rightarrow> va_list \<Rightarrow> cmem \<times> console \<Rightarrow> (int \<times> cmem \<times> console) option" where
  "vprintf fmt args = (\<lambda>(m, con). do {
     con \<leftarrow> acquire_console con;
     (m, char_cnt, con) \<leftarrow> do_vprintf fmt 0 args vprintf_helper (m, 0, con);
     con \<leftarrow> release_console con;
     Some (char_cnt, m, con) })"

definition printf :: "c_text \<Rightarrow> va_list \<Rightarrow> cmem \<times> console \<Rightarrow> (cmem \<times> console) option" where
  "printf fmt args s = do { (_, s) \<leftarrow> vprintf fmt args s; Some s }"

function puts_loop :: "nat \<Rightarrow> cmem \<Rightarrow> console \<Rightarrow> console option" where
  "puts_loop s m con = (case ld m s of None \<Rightarrow> None
     | Some c \<Rightarrow> if c = 0 then Some con
       else (case putchar_have_lock c con of None \<Rightarrow> None | Some con \<Rightarrow> puts_loop (s + 1) m con))"
  by auto
termination by (relation "measure (\<lambda>(s, m, con). length m - s)") (auto simp: ld_eq_Some)

declare puts_loop.simps [simp del]

definition puts :: "nat \<Rightarrow> cmem \<Rightarrow> console \<Rightarrow> console option" where
  "puts s m con = do {
     con \<leftarrow> acquire_console con;
     con \<leftarrow> puts_loop s m con;
     con \<leftarrow> putchar_have_lock 10 con;
     release_console con }"

fun putbuf_loop :: "nat \<Rightarrow> nat \<Rightarrow> cmem \<Rightarrow> console \<Rightarrow> console option" where
  "putbuf_loop buffer 0 m con = Some con"
| "putbuf_loop buffer (Suc n) m con = do {
     c \<leftarrow> ld m buffer;
     con \<leftarrow> putchar_have_lock c con;
     putbuf_loop (buffer + 1) n m con }"

definition putbuf :: "nat \<Rightarrow> nat \<Rightarrow> cmem \<Rightarrow> console \<Rightarrow> console option" where
  "putbuf buffer n m con = do {
     con \<leftarrow> acquire_console con;
     con \<leftarrow> putbuf_loop buffer n m con;
     release_console con }"

definition putchar :: "byte \<Rightarrow> console \<Rightarrow> console option" where
  "putchar c con = do {
     con \<leftarrow> acquire_console con;
     con \<leftarrow> putchar_have_lock c con;
     release_console con }"

section \<open>Dumps and sizes\<close>

fun printf_times :: "nat \<Rightarrow> byte list \<Rightarrow> cmem \<times> console \<Rightarrow> (cmem \<times> console) option" where
  "printf_times 0 fmt s = Some s"
| "printf_times (Suc n) fmt s = do { s \<leftarrow> printf (Lit fmt) [] s; printf_times n fmt s }"

text \<open>The formats \<^verbatim>\<open>%02hhx%c\<close> and \<^verbatim>\<open>%c\<close>, for \<open>n\<close> bytes at \<open>buf\<close> in the columns from \<open>i\<close> on.\<close>

fun dump_hex :: "nat \<Rightarrow> nat \<Rightarrow> nat \<Rightarrow> cmem \<times> console \<Rightarrow> (cmem \<times> console) option" where
  "dump_hex i 0 buf s = Some s"
| "dump_hex i (Suc n) buf s = do {
     b \<leftarrow> ld (fst s) buf;
     s \<leftarrow> printf (Lit [37, 48, 50, 104, 104, 120, 37, 99]) [ucast b, if i = 7 then 45 else 32] s;
     dump_hex (i + 1) n (buf + 1) s }"

fun dump_ascii :: "nat \<Rightarrow> nat \<Rightarrow> cmem \<times> console \<Rightarrow> (cmem \<times> console) option" where
  "dump_ascii 0 buf s = Some s"
| "dump_ascii (Suc n) buf s = do {
     b \<leftarrow> ld (fst s) buf;
     s \<leftarrow> printf (Lit [37, 99]) [if isprint b then ucast b else 46] s;
     dump_ascii n (buf + 1) s }"

definition dump_line :: "u32 \<Rightarrow> nat \<Rightarrow> nat \<Rightarrow> nat \<Rightarrow> bool \<Rightarrow> cmem \<times> console \<Rightarrow> (cmem \<times> console) option" where
  "dump_line ofs start end_col buf ascii s = do {
     s \<leftarrow> printf (Lit [37, 48, 56, 106, 120, 32, 32]) [ofs - ofs mod 16, 0] s;
     s \<leftarrow> printf_times start [32, 32, 32] s;
     s \<leftarrow> dump_hex start (end_col - start) buf s;
     s \<leftarrow> (if ascii then do {
       s \<leftarrow> printf_times (16 - end_col) [32, 32, 32] s;
       s \<leftarrow> printf (Lit [124]) [] s;
       s \<leftarrow> printf_times start [32] s;
       s \<leftarrow> dump_ascii (end_col - start) buf s;
       s \<leftarrow> printf_times (16 - end_col) [32] s;
       printf (Lit [124]) [] s } else Some s);
     printf (Lit [10]) [] s
   }"

definition line_end :: "u32 \<Rightarrow> nat \<Rightarrow> nat" where
  "line_end ofs sz = (if 16 - unat (ofs mod 16) > sz then unat (ofs mod 16) + sz else 16)"

lemma line_end_bounds: "0 < sz \<Longrightarrow> unat (ofs mod 16 :: u32) < line_end ofs sz \<and> line_end ofs sz \<le> 16 \<and> line_end ofs sz - unat (ofs mod 16) \<le> sz"
  by (auto simp: line_end_def unat_mod)

function hex_dump :: "u32 \<Rightarrow> nat \<Rightarrow> nat \<Rightarrow> bool \<Rightarrow> cmem \<times> console \<Rightarrow> (cmem \<times> console) option" where
  "hex_dump ofs buf sz ascii s = (if sz = 0 then Some s
     else let n = line_end ofs sz - unat (ofs mod 16) in
       (case dump_line ofs (unat (ofs mod 16)) (line_end ofs sz) buf ascii s of None \<Rightarrow> None
        | Some s \<Rightarrow> hex_dump (ofs + of_nat n) (buf + n) (sz - n) ascii s))"
  by auto
termination
  by (relation "measure (\<lambda>(ofs, buf, sz, ascii, s). sz)") (use line_end_bounds in auto)

declare hex_dump.simps [simp del]

text \<open>The argument \<open>factors\<close> holds the addresses of the strings of the static table, the last one null.\<close>

function scale_size :: "u64 \<Rightarrow> u32 list \<Rightarrow> (u64 \<times> u32) option" where
  "scale_size sz factors = (case factors of [] \<Rightarrow> None
     | [f] \<Rightarrow> if sz \<ge> 1024 then None else Some (sz, f)
     | f # f' # fs \<Rightarrow> if sz \<ge> 1024 \<and> f' \<noteq> 0 then scale_size (sz div 1024) (f' # fs) else Some (sz, f))"
  by auto
termination by (relation "measure (\<lambda>(sz, fs). length fs)") auto

definition print_human_readable_size :: "u32 list \<Rightarrow> u64 \<Rightarrow> cmem \<times> console \<Rightarrow> (cmem \<times> console) option" where
  "print_human_readable_size factors sz s = (if sz = 1 then printf (Lit [49, 32, 98, 121, 116, 101]) [] s
     else do {
       (sz, f) \<leftarrow> scale_size sz factors;
       printf (Lit [37, 108, 108, 117, 32, 37, 115]) [ucast sz, ucast (drop_bit 32 sz), f] s })"

section \<open>Sequences of output\<close>

lemma emit_append_apply: "emit out (xs @ ys) s = Option.bind (emit out xs s) (emit out ys)"
  by (induction xs arbitrary: s) (auto split: bind_split)

lemma emit_append: "emit out (xs @ ys) = (\<lambda>s. Option.bind (emit out xs s) (emit out ys))"
  by (intro ext emit_append_apply)

lemma output_dup_emit: "output_dup ch n out = emit out (replicate n ch)"
proof (induction n)
  case (Suc n)
  then show ?case by (intro ext) simp
qed (intro ext, simp)

text \<open>The characters of an integer conversion.\<close>

definition int_chars :: "nat \<Rightarrow> bool \<Rightarrow> bool \<Rightarrow> integer_base \<Rightarrow> printf_conversion \<Rightarrow> byte list option" where
  "int_chars value is_signed negative b c = do {
     let sign = sign_char is_signed negative (flags c);
     let x = (if flags c AND POUND \<noteq> 0 \<and> value \<noteq> 0 then ib_x b else 0);
     buf \<leftarrow> digit_loop value 0 b (flags c) [];
     let buf = zero_loop (if precision c < 0 then 1 else precision c) buf;
     buf \<leftarrow> (if flags c AND POUND \<noteq> 0 \<and> ib_base b = 8 \<and> (buf = [] \<or> last buf \<noteq> 48) then push_char 48 buf else Some buf);
     let pad_cnt = nat (width c - int (length buf) - (if x \<noteq> 0 then 2 else 0) - (if sign \<noteq> 0 then 1 else 0));
     Some ((if flags c AND (MINUS OR ZERO) = 0 then replicate pad_cnt 32 else []) @ (if sign \<noteq> 0 then [sign] else []) @
       (if x \<noteq> 0 then [48, x] else []) @ (if flags c AND ZERO \<noteq> 0 then replicate pad_cnt 48 else []) @ rev buf @
       (if flags c AND MINUS \<noteq> 0 then replicate pad_cnt 32 else []))
   }"

lemma emit_if: "emit out (if P then xs else []) = (\<lambda>s. if P then emit out xs s else Some s)"
  by (intro ext) simp

lemma emit_one: "emit out [c] = out c"
proof
  show "emit out [c] s = out c s" for s by (cases "out c s") simp_all
qed

lemma emit_two: "emit out [c, d] = (\<lambda>s. Option.bind (out c s) (out d))"
  using emit_append [of out "[c]" "[d]"] by (simp only: emit_one append.simps)

lemma format_integer_emit:
  "format_integer value is_signed negative b c out s = Option.bind (int_chars value is_signed negative b c) (\<lambda>cs. emit out cs s)"
proof -
  have e: "emit out ((if A then replicate k 32 else []) @ (if B then [sg] else []) @ (if X then [48, x] else []) @
      (if Z then replicate k 48 else []) @ r @ (if M then replicate k 32 else [])) s =
    do { s \<leftarrow> (if A then output_dup 32 k out s else Some s);
         s \<leftarrow> (if B then out sg s else Some s);
         s \<leftarrow> (if X then do { s \<leftarrow> out 48 s; out x s } else Some s);
         s \<leftarrow> (if Z then output_dup 48 k out s else Some s);
         s \<leftarrow> emit out r s;
         if M then output_dup 32 k out s else Some s }" for A B X Z M k sg x r
    by (simp only: emit_append emit_if emit_one emit_two output_dup_emit)
  show ?thesis unfolding format_integer_def int_chars_def Let_def by (simp add: e)
qed

section \<open>Relations kept by the output function\<close>

definition keeps :: "(cmem \<times> 'a \<Rightarrow> bool) \<Rightarrow> 'a out_fun \<Rightarrow> bool" where
  "keeps P out \<longleftrightarrow> (\<forall>c s s'. P s \<longrightarrow> out c s = Some s' \<longrightarrow> P s')"

lemma emit_keeps:
  assumes "keeps P out"
  shows "P s \<Longrightarrow> emit out cs s = Some s' \<Longrightarrow> P s'"
proof (induction cs arbitrary: s)
  case (Cons c cs)
  then obtain s1 where "out c s = Some s1" "emit out cs s1 = Some s'" by (fastforce simp: bind_eq_Some_conv)
  then show ?case using Cons.IH [of s1] Cons.prems assms unfolding keeps_def by blast
qed simp

lemma output_text_keeps:
  assumes "keeps P out"
  shows "P s \<Longrightarrow> output_text t i n out s = Some s' \<Longrightarrow> P s'"
proof (induction n arbitrary: i s)
  case (Suc n)
  then obtain c s1 where "out c s = Some s1" "output_text t (Suc i) n out s1 = Some s'" by (fastforce simp: bind_eq_Some_conv)
  then show ?case using Suc.IH [of s1] Suc.prems assms unfolding keeps_def by blast
qed simp

lemma format_string_keeps:
  assumes "keeps P out" "P s" "format_string t n c out s = Some s'"
  shows "P s'"
proof -
  note k = emit_keeps [OF assms(1)] output_text_keeps [OF assms(1)]
  obtain s1 s2 where s: "(if width c > n \<and> flags c AND MINUS = 0 then output_dup 32 (nat (width c - n)) out s else Some s) = Some s1"
    "output_text t 0 (nat n) out s1 = Some s2"
    "(if width c > n \<and> flags c AND MINUS \<noteq> 0 then output_dup 32 (nat (width c - n)) out s2 else Some s2) = Some s'"
    using assms(3) unfolding format_string_def by (elim bind_SomeE) blast
  have "P s1" using s(1) assms(2) k(1) unfolding output_dup_emit by (simp split: if_splits)
  then have "P s2" using s(2) k(2) by blast
  then show ?thesis using s(3) k(1) unfolding output_dup_emit by (simp split: if_splits)
qed

lemma convert_keeps:
  assumes "keeps P out" "P s" "convert ch c args out s = Some (args', s')"
  shows "P s'"
  using assms(3) emit_keeps [OF assms(1,2)] format_string_keeps [OF assms(1,2)] unfolding convert_def format_integer_emit Let_def
  by (fastforce simp: bind_eq_Some_conv split: if_splits)

lemma do_vprintf_keeps:
  assumes "keeps P out" "do_vprintf fmt i args out s = Some s'" "P s"
  shows "P s'"
proof -
  have "keeps P out \<longrightarrow> P s \<longrightarrow> P s'"
  proof (rule do_vprintf.raw_induct [OF _ assms(2)], intro impI)
    fix f :: "c_text \<Rightarrow> nat \<Rightarrow> va_list \<Rightarrow> 'a out_fun \<Rightarrow> cmem \<times> 'a \<Rightarrow> (cmem \<times> 'a) option" and fmt i args out s s'
    assume IH: "\<And>fmt i args out s s'. f fmt i args out s = Some s' \<Longrightarrow> keeps P out \<longrightarrow> P s \<longrightarrow> P s'"
      and b: "do {
         ch \<leftarrow> char_at fmt i (fst s);
         if ch = 0 then Some s
         else if ch \<noteq> 37 then do { s \<leftarrow> out ch s; f fmt (i + 1) args out s }
         else do {
           ch \<leftarrow> char_at fmt (i + 1) (fst s);
           if ch = 37 then do { s \<leftarrow> out 37 s; f fmt (i + 2) args out s }
           else do {
             (i, c, args) \<leftarrow> parse_conversion fmt (i + 1) args (fst s);
             ch \<leftarrow> char_at fmt i (fst s);
             if is_conversion ch then do {
               (args, s) \<leftarrow> convert ch c args out s;
               f fmt (i + 1) args out s }
             else do {
               s \<leftarrow> f (Lit (if ch \<in> {102, 101, 69, 103, 71, 110} then no_in_kernel else no_conversion)) 0 [scast ch] out s;
               f fmt (i + 1) args out s }
           }
         }
       } = Some s'" and k: "keeps P out" "P s"
    obtain ch where ch: "char_at fmt i (fst s) = Some ch" using b by (elim bind_SomeE) blast
    show "P s'"
    proof (cases "ch = 0 \<or> ch \<noteq> 37")
      case True
      then have "ch = 0 \<and> s' = s \<or> (\<exists>s1. out ch s = Some s1 \<and> f fmt (i + 1) args out s1 = Some s')"
        using b ch by (auto elim!: bind_SomeE split: if_splits)
      then show ?thesis using k IH unfolding keeps_def by blast
    next
      case False
      then obtain d where d: "char_at fmt (i + 1) (fst s) = Some d" using b ch by (auto elim!: bind_SomeE)
      show ?thesis
      proof (cases "d = 37")
        case True
        then obtain s1 where "out 37 s = Some s1" "f fmt (i + 2) args out s1 = Some s'" using b ch d False by (auto elim!: bind_SomeE)
        then show ?thesis using k IH unfolding keeps_def by blast
      next
        case nd: False
        obtain j c args1 e where e: "parse_conversion fmt (i + 1) args (fst s) = Some (j, c, args1)" "char_at fmt j (fst s) = Some e"
          using b ch d False nd by (auto elim!: bind_SomeE)
        show ?thesis
        proof (cases "is_conversion e")
          case True
          then obtain args2 s1 where "convert e c args1 out s = Some (args2, s1)" "f fmt (j + 1) args2 out s1 = Some s'"
            using b ch d False nd e by (auto elim!: bind_SomeE)
          then show ?thesis using convert_keeps [OF k] k(1) IH by blast
        next
          case nc: False
          then obtain s1 where "f (Lit (if e \<in> {102, 101, 69, 103, 71, 110} then no_in_kernel else no_conversion)) 0 [scast e] out s = Some s1"
            "f fmt (j + 1) args1 out s1 = Some s'"
            using b ch d False nd e by (simp del: insert_iff) (elim bind_SomeE, blast)
          then show ?thesis using k IH by blast
        qed
      qed
    qed
  qed
  then show ?thesis using assms by blast
qed

section \<open>Bounds of the buffer\<close>

lemma sint_of_nat_small: "k < 2 ^ 31 \<Longrightarrow> sint (of_nat k :: u32) = int k"
  by (simp add: signed_of_nat signed_take_bit_int_eq_self)

definition buffer_inv :: "cmem \<Rightarrow> nat \<Rightarrow> nat \<Rightarrow> cmem \<times> vsnprintf_aux \<Rightarrow> bool" where
  "buffer_inv m0 buffer room = (\<lambda>(m, aux). same_around buffer room m0 m \<and> aux_max_length aux = int room \<and>
     0 \<le> aux_length aux \<and> aux_p aux = buffer + nat (min (aux_length aux) (int room)))"

lemma buffer_inv_keeps: "keeps (buffer_inv m0 buffer room) vsnprintf_helper"
  unfolding keeps_def
proof (intro allI impI)
  fix c s s' assume s: "buffer_inv m0 buffer room s" "vsnprintf_helper c s = Some s'"
  obtain m aux where [simp]: "s = (m, aux)" by (cases s)
  show "buffer_inv m0 buffer room s'"
  proof (cases "aux_length aux < aux_max_length aux")
    case True
    have p: "buffer \<le> aux_p aux" "aux_p aux < buffer + room" "aux_p aux = buffer + nat (aux_length aux)" "0 \<le> aux_length aux"
      using True s(1) by (auto simp: buffer_inv_def)
    have "s' = (m[aux_p aux := c], aux\<lparr>aux_length := aux_length aux + 1, aux_p := aux_p aux + 1\<rparr>)" "aux_p aux < length m"
      using s(2) True by (auto simp: vsnprintf_helper_def bind_eq_Some_conv c_int_def st_eq_Some split: if_splits)
    moreover have "same_around buffer room m (m[aux_p aux := c])" using p by (simp add: same_around_def)
    ultimately show ?thesis using s(1) p True same_around_trans [of buffer room m0 m] by (simp add: buffer_inv_def nat_add_distrib)
  next
    case False
    then have "s' = (m, aux\<lparr>aux_length := aux_length aux + 1\<rparr>)"
      using s(2) by (auto simp: vsnprintf_helper_def bind_eq_Some_conv c_int_def split: if_splits)
    then show ?thesis using s(1) False by (simp add: buffer_inv_def)
  qed
qed

text \<open>C15: whatever the format and the arguments, when \<^verbatim>\<open>vsnprintf\<close> returns it has changed nothing outside the
  \<open>n\<close> bytes of the buffer, and the buffer is terminated by a null character within its bounds: right after the
  characters that were written, which are as many as the returned length says, or \<open>n - 1\<close> if there are more.\<close>

theorem vsnprintf_bounded:
  assumes "vsnprintf buffer n fmt args m = Some (len, m')" "n < 2 ^ 31" "buffer + n \<le> length m"
  shows "length m' = length m \<and> take buffer m' = take buffer m \<and> drop (buffer + n) m' = drop (buffer + n) m \<and> 0 \<le> len \<and>
    (if n = 0 then m' = m else m' ! (buffer + min (nat len) (n - 1)) = 0)"
proof -
  let ?room = "n - 1"
  let ?aux = "\<lparr>aux_p = buffer, aux_length = 0, aux_max_length = sint (of_nat (if n > 0 then n - 1 else 0) :: u32)\<rparr>"
  obtain m1 aux where v: "do_vprintf fmt 0 args vsnprintf_helper (m, ?aux) = Some (m1, aux)" "len = aux_length aux"
    "(if n > 0 then st m1 (aux_p aux) 0 else Some m1) = Some m'"
    using assms(1) unfolding vsnprintf_def Let_def by (auto elim!: bind_SomeE)
  have "sint (of_nat (if n > 0 then n - 1 else 0) :: u32) = int ?room"
    by (subst sint_of_nat_small) (use assms(2) in auto)
  then have "buffer_inv m buffer ?room (m, ?aux)" by (simp add: buffer_inv_def)
  then have i: "buffer_inv m buffer ?room (m1, aux)" using do_vprintf_keeps [OF buffer_inv_keeps v(1)] by blast
  then have sa: "same_around buffer ?room m m1" "0 \<le> len" "aux_p aux = buffer + min (nat len) ?room" using v(2) by (auto simp: buffer_inv_def)
  show ?thesis
  proof (cases "n = 0")
    case True
    then have "m' = m" using sa(1) v(3) by (auto simp: same_around_def) (metis append_take_drop_id)
    then show ?thesis using True sa by simp
  next
    case False
    then have m': "m' = m1[aux_p aux := 0]" "aux_p aux < length m1" using v(3) by (auto simp: st_eq_Some)
    have r: "buffer \<le> aux_p aux" "aux_p aux < buffer + n" using sa(3) False by auto
    have "drop (buffer + n) m1 = drop 1 (drop (buffer + ?room) m1)" using False by (simp add: add.commute)
    also have "\<dots> = drop (buffer + n) m" using sa(1) False by (simp add: same_around_def add.commute)
    finally show ?thesis using m' r sa False by (simp add: same_around_def)
  qed
qed

section \<open>Decimal integers\<close>

lemma dec_digit:
  assumes "d < 10"
  shows "isdigit (dec_digits ! d) \<and> int (unat (dec_digits ! d)) - 48 = int d"
proof -
  have "d = 0 \<or> d = 1 \<or> d = 2 \<or> d = 3 \<or> d = 4 \<or> d = 5 \<or> d = 6 \<or> d = 7 \<or> d = 8 \<or> d = 9" using assms by arith
  then show ?thesis by (elim disjE) (simp_all add: dec_digits_def isdigit_def)
qed

definition place_value :: "nat \<Rightarrow> byte list \<Rightarrow> int" where
  "place_value b ds = foldl (\<lambda>v c. v * int b + (int (unat c) - 48)) 0 ds"

text \<open>The digits of a base up to 10, as the loop leaves them in the buffer.\<close>

lemma digit_loop_base:
  assumes "fl AND GROUP = 0" "2 \<le> ib_base b"
    "\<And>d. d < ib_base b \<Longrightarrow> d < length (ib_digits b) \<and> int (unat (ib_digits b ! d)) - 48 = int d"
    "v < ib_base b ^ k" "length buf + k \<le> 64"
  shows "\<exists>ds. digit_loop v n b fl buf = Some (buf @ rev ds) \<and> list_all (\<lambda>c. c \<in> set (ib_digits b)) ds \<and> length ds \<le> k \<and>
    place_value (ib_base b) ds = int v \<and> (ds = [] \<longleftrightarrow> v = 0)"
  using assms(4,5)
proof (induction v arbitrary: n buf k rule: less_induct)
  case (less v)
  let ?b = "ib_base b"
  show ?case
  proof (cases "v = 0")
    case True
    then show ?thesis by (intro exI [of _ "[]"]) (simp add: digit_loop.simps place_value_def)
  next
    case False
    then obtain k' where k: "k = Suc k'" using less.prems(1) by (cases k) auto
    let ?c = "ib_digits b ! (v mod ?b)"
    have m: "v mod ?b < ?b" using assms(2) by simp
    have c: "v mod ?b < length (ib_digits b)" "int (unat ?c) - 48 = int (v mod ?b)" using assms(3) [OF m] by auto
    have st: "digit_loop v n b fl buf = digit_loop (v div ?b) (Suc n) b fl (buf @ [?c])"
      using False assms(1,2) less.prems(2) k c(1) by (subst digit_loop.simps) (simp add: push_char_def)
    have "v div ?b < ?b ^ k'" using less.prems(1) k assms(2) by (simp add: div_less_iff_less_mult mult.commute)
    then obtain ds where ds: "digit_loop (v div ?b) (Suc n) b fl (buf @ [?c]) = Some ((buf @ [?c]) @ rev ds)"
      "list_all (\<lambda>c. c \<in> set (ib_digits b)) ds" "length ds \<le> k'" "place_value ?b ds = int (v div ?b)"
      using less.IH [of "v div ?b" k' "buf @ [?c]" "Suc n"] False less.prems(2) k assms(2) by auto
    have "place_value ?b (ds @ [?c]) = int v"
      using ds(4) c(2) by (simp add: place_value_def) (metis div_mod_decomp_int zdiv_int zmod_int mult.commute)
    then show ?thesis using st ds c(1) k False by (intro exI [of _ "ds @ [?c]"]) auto
  qed
qed

lemma digit_loop_dec:
  assumes "fl AND GROUP = 0" "v < 10 ^ k" "length buf + k \<le> 64"
  shows "\<exists>ds. digit_loop v n base_d fl buf = Some (buf @ rev ds) \<and> list_all isdigit ds \<and> length ds \<le> k \<and> digits_value ds = int v \<and>
    (ds = [] \<longleftrightarrow> v = 0)"
proof -
  have "d < length (ib_digits base_d) \<and> int (unat (ib_digits base_d ! d)) - 48 = int d" if "d < ib_base base_d" for d
    using dec_digit [of d] that by (simp add: base_d_def dec_digits_def)
  moreover have "isdigit c" if "c \<in> set (ib_digits base_d)" for c using that by (auto simp: base_d_def dec_digits_def isdigit_def)
  moreover have "place_value 10 = digits_value" by (simp add: place_value_def digits_value_def fun_eq_iff)
  ultimately show ?thesis
    using digit_loop_base [of fl base_d v k buf n] assms by (fastforce simp: base_d_def list_all_iff)
qed

lemma zero_loop_one: "zero_loop 1 buf = (if buf = [] then [48] else buf)"
  by (cases buf) (simp_all add: zero_loop.simps)

definition plain :: printf_conversion where
  "plain = \<lparr>flags = 0, width = 0, precision = -1, arg_type = INT_ARG\<rparr>"

text \<open>The characters of \<^verbatim>\<open>%d\<close>: a minus sign if the number is negative, and the decimal digits.\<close>

lemma int_chars_plain:
  assumes "v < 10 ^ 10"
  shows "\<exists>ds. int_chars v True negative base_d plain = Some ((if negative then [45] else []) @ ds) \<and> list_all isdigit ds \<and>
    digits_value ds = int v \<and> length ds \<le> 10"
proof -
  obtain ds where ds: "digit_loop v 0 base_d 0 [] = Some (rev ds)" "list_all isdigit ds" "length ds \<le> 10" "digits_value ds = int v" "ds = [] \<longleftrightarrow> v = 0"
    using digit_loop_dec [of 0 v 10 "[]" 0] assms by auto
  let ?ds = "if ds = [] then [48] else ds"
  have "int_chars v True negative base_d plain = Some ((if negative then [45] else []) @ ?ds)"
    using ds(1) by (auto simp: int_chars_def plain_def sign_char_def base_d_def zero_loop_one Let_def)
  moreover have "digits_value ?ds = int v" using ds(4,5) by (simp add: digits_value_def)
  ultimately show ?thesis using ds by (intro exI [of _ ?ds]) (auto simp: isdigit_def)
qed

lemma parse_conversion_d:
  assumes "char_at fmt i m = Some 100"
  shows "parse_conversion fmt i args m = Some (i, plain, args)"
  using assms
  by (simp add: parse_conversion_def parse_flags.simps [of fmt i] flag_of_def parse_width_def parse_number.simps [of fmt i] isdigit_def
      parse_precision_def parse_type_def plain_def)

lemma emit_buffer:
  assumes "aux_length aux + int (length cs) \<le> aux_max_length aux" "0 \<le> aux_length aux" "aux_max_length aux \<le> INT_MAX"
    "in_mem m (aux_p aux) (length cs)"
  shows "emit vsnprintf_helper cs (m, aux) = Some (overwrite m (aux_p aux) cs,
    aux\<lparr>aux_length := aux_length aux + int (length cs), aux_p := aux_p aux + length cs\<rparr>)"
  using assms
proof (induction cs arbitrary: m aux)
  case Nil
  then show ?case by (simp add: overwrite_def)
next
  case (Cons c cs)
  have h: "vsnprintf_helper c (m, aux) = Some (m[aux_p aux := c], aux\<lparr>aux_length := aux_length aux + 1, aux_p := aux_p aux + 1\<rparr>)"
    using Cons.prems by (auto simp: vsnprintf_helper_def c_int_def INT_MIN_def st_def in_mem_def)
  have "emit vsnprintf_helper cs (m[aux_p aux := c], aux\<lparr>aux_length := aux_length aux + 1, aux_p := aux_p aux + 1\<rparr>) =
    Some (overwrite (m[aux_p aux := c]) (aux_p aux + 1) cs, aux\<lparr>aux_length := aux_length aux + 1 + int (length cs), aux_p := aux_p aux + 1 + length cs\<rparr>)"
    using Cons.prems by (subst Cons.IH) (auto simp: in_mem_def)
  then show ?case using h Cons.prems overwrite_Cons [of "aux_p aux" m c cs] by (auto simp: in_mem_def)
qed

lemma str_at_overwrite_end:
  assumes "in_mem m p (Suc (length cs))" "0 \<notin> set cs"
  shows "str_at ((overwrite m p cs)[p + length cs := 0]) p cs"
  using assms
proof (induction cs arbitrary: m p)
  case Nil
  then show ?case by (simp add: ld_def in_mem_def overwrite_def)
next
  case (Cons c cs)
  have e: "overwrite m p (c # cs) = overwrite (m[p := c]) (p + 1) cs" using Cons.prems overwrite_Cons [of p m c cs] by (simp add: in_mem_def)
  have "str_at ((overwrite (m[p := c]) (p + 1) cs)[p + 1 + length cs := 0]) (p + 1) cs"
    using Cons.prems by (intro Cons.IH) (auto simp: in_mem_def)
  moreover have "ld ((overwrite (m[p := c]) (p + 1) cs)[p + 1 + length cs := 0]) p = Some c"
    using Cons.prems by (auto simp: ld_def in_mem_def overwrite_def nth_append)
  ultimately show ?case using e Cons.prems by simp
qed

lemma vprintf_d:
  assumes "char_at fmt 0 m = Some 37" "char_at fmt 1 m = Some 100"
    "int_chars (nat \<bar>sint w\<bar>) True (sint w < 0) base_d plain = Some cs" "emit out cs (m, a) = Some (m', a')" "char_at fmt 2 m' = Some 0"
  shows "do_vprintf fmt 0 [w] out (m, a) = Some (m', a')"
proof -
  have "sint w \<noteq> - (2 ^ 63)" using sint_greater_eq [of w] by auto
  then have "convert 100 plain [w] out (m, a) = Some ([], m', a')"
    using assms(3,4) by (simp add: convert_def signed_arg_def plain_def format_integer_emit)
  moreover have "do_vprintf fmt (Suc 1) [] out (m', a') = Some (m', a')"
    using assms(5) by (subst do_vprintf.simps) (simp add: numeral_2_eq_2)
  ultimately show ?thesis using assms(1,2) parse_conversion_d [OF assms(2)]
    by (subst do_vprintf.simps) (simp add: is_conversion_def)
qed

text \<open>C11: printing an \<^verbatim>\<open>int\<close> with \<^verbatim>\<open>snprintf\<close> and the format \<^verbatim>\<open>%d\<close> into a buffer of at least 12 bytes returns, leaves a string of the
  returned length in the buffer, and \<^verbatim>\<open>atoi\<close> gives the number back, for every value of \<^verbatim>\<open>int\<close>.\<close>

theorem snprintf_atoi_roundtrip:
  assumes "str_at m f [37, 100]" "in_mem m buffer n" "12 \<le> n" "n < 2 ^ 31" "f + 3 \<le> buffer \<or> buffer + n \<le> f"
  shows "\<exists>cs m'. snprintf buffer n (Ptr f) [w] m = Some (int (length cs), m') \<and> str_at m' buffer cs \<and> atoi buffer m' = Some (sint w)"
proof -
  have b: "- (2 ^ 31) \<le> sint w" "sint w < 2 ^ 31" using sint_greater_eq [of w] sint_less [of w] by simp_all
  then have "nat \<bar>sint w\<bar> < 10 ^ 10" by auto
  then obtain ds where ds: "int_chars (nat \<bar>sint w\<bar>) True (sint w < 0) base_d plain = Some ((if sint w < 0 then [45] else []) @ ds)"
    "list_all isdigit ds" "digits_value ds = \<bar>sint w\<bar>" "length ds \<le> 10"
    using int_chars_plain [of "nat \<bar>sint w\<bar>" "sint w < 0"] by auto
  define cs where "cs = (if sint w < 0 then [45] else []) @ ds"
  have len: "length cs \<le> 11" using ds(4) by (simp add: cs_def)
  let ?aux = "\<lparr>aux_p = buffer, aux_length = 0, aux_max_length = sint (of_nat (if n > 0 then n - 1 else 0) :: u32)\<rparr>"
  have "sint (of_nat (n - 1) :: u32) = int (n - 1)" by (rule sint_of_nat_small) (use assms(4) in simp)
  then have mx: "aux_max_length ?aux = int n - 1" using assms(3) by simp
  have "emit vsnprintf_helper cs (m, ?aux) = Some (overwrite m buffer cs, ?aux\<lparr>aux_length := int (length cs), aux_p := buffer + length cs\<rparr>)"
    using emit_buffer [of ?aux cs m] mx len assms(2-4) by (simp add: in_mem_def INT_MAX_def)
  moreover have "char_at (Ptr f) 0 m = Some 37" "char_at (Ptr f) 1 m = Some 100" "f + 2 < length m" "m ! (f + 2) = 0" "f \<noteq> 0"
    using assms(1) by (auto simp: char_at_def ld_def split: if_splits)
  moreover have "char_at (Ptr f) 2 (overwrite m buffer cs) = Some 0"
  proof -
    have "overwrite m buffer cs ! (f + 2) = m ! (f + 2)" "length (overwrite m buffer cs) = length m"
      using assms(2,3,5) len \<open>f + 2 < length m\<close> by (auto simp: overwrite_def in_mem_def nth_append)
    then show ?thesis using calculation(4-6) by (simp add: char_at_def ld_def)
  qed
  ultimately have "do_vprintf (Ptr f) 0 [w] vsnprintf_helper (m, ?aux) =
      Some (overwrite m buffer cs, ?aux\<lparr>aux_length := int (length cs), aux_p := buffer + length cs\<rparr>)"
    using ds(1) by (intro vprintf_d) (simp_all add: cs_def)
  then have v: "snprintf buffer n (Ptr f) [w] m = Some (int (length cs), (overwrite m buffer cs)[buffer + length cs := 0])"
    using assms(2,3) len by (simp add: snprintf_def vsnprintf_def st_def in_mem_def overwrite_def)
  have "0 \<notin> set cs" using ds(2) by (auto simp: cs_def list_all_iff isdigit_def)
  then have sa: "str_at ((overwrite m buffer cs)[buffer + length cs := 0]) buffer cs"
    using assms(2,3) len by (intro str_at_overwrite_end) (auto simp: in_mem_def)
  have "atoi buffer ((overwrite m buffer cs)[buffer + length cs := 0]) = Some (sint w)"
    using atoi_eq [of _ buffer "[]" "if sint w < 0 then [45] else []" ds] sa ds(2,3) b by (auto simp: cs_def INT_MIN_def INT_MAX_def)
  then show ?thesis using v sa by blast
qed

theorem snprintf_atoi_roundtrip_witness:
  "\<exists>cs m'. snprintf 4 12 (Ptr 1) [-7] [9, 37, 100, 0, 8, 8, 8, 8, 8, 8, 8, 8, 8, 8, 8, 8] = Some (int (length cs), m') \<and> str_at m' 4 cs \<and>
    atoi 4 m' = Some (-7)"
proof -
  let ?m = "[9, 37, 100, 0, 8, 8, 8, 8, 8, 8, 8, 8, 8, 8, 8, 8] :: cmem"
  have "str_at ?m 1 [37, 100]" "in_mem ?m 4 12" by code_simp+
  then have "\<exists>cs m'. snprintf 4 12 (Ptr 1) [-7] ?m = Some (int (length cs), m') \<and> str_at m' 4 cs \<and> atoi 4 m' = Some (sint (-7 :: u32))"
    by (rule snprintf_atoi_roundtrip) simp_all
  moreover have "sint (-7 :: u32) = -7" by simp
  ultimately show ?thesis by simp
qed

theorem vsnprintf_bounded_witness:
  "vsnprintf 4 3 (Ptr 1) [12345] [9, 37, 100, 0, 8, 8, 8, 8] = Some (5, [9, 37, 100, 0, 49, 50, 0, 8]) \<and>
    drop (4 + 3) [9, 37, 100, 0, 49, 50, 0, 8] = drop (4 + 3) [9, 37, 100, 0, 8, 8, 8, 8 :: byte]"
proof -
  have "vsnprintf 4 3 (Ptr 1) [12345] [9, 37, 100, 0, 8, 8, 8, 8] = Some (5, [9, 37, 100, 0, 49, 50, 0, 8])" by code_simp
  then show ?thesis using vsnprintf_bounded [of 4 3 "Ptr 1" "[12345]" "[9, 37, 100, 0, 8, 8, 8, 8]"] by simp
qed

section \<open>The console lock\<close>

text \<open>Printing appends to the console, counts what it appends, changes no memory, and leaves the lock and its depth as they were.\<close>

definition printing :: "cmem \<Rightarrow> console \<Rightarrow> cmem \<times> int \<times> console \<Rightarrow> bool" where
  "printing m con = (\<lambda>(m', n, con'). m' = m \<and> use_console_lock con' = use_console_lock con \<and> console_lock_depth con' = console_lock_depth con \<and>
     held con' = held con \<and> in_intr con' = in_intr con \<and> (\<exists>cs. written con' = written con @ cs \<and> n = int (length cs)))"

lemma printing_keeps: "keeps (printing m con) vprintf_helper"
  unfolding keeps_def printing_def vprintf_helper_def putchar_have_lock_def
  by (auto simp: bind_eq_Some_conv c_int_def split: if_splits)

lemma vprintf_restores:
  assumes "vprintf fmt args (m, con) = Some (n, m', con')" "0 \<le> console_lock_depth con" "held con \<or> console_lock_depth con = 0"
  shows "m' = m \<and> held con' = held con \<and> console_lock_depth con' = console_lock_depth con \<and>
    (\<exists>cs. written con' = written con @ cs \<and> n = int (length cs))"
proof -
  obtain c1 c2 where v: "acquire_console con = Some c1" "do_vprintf fmt 0 args vprintf_helper (m, 0, c1) = Some (m', n, c2)"
    "release_console c2 = Some con'"
    using assms(1) unfolding vprintf_def by (auto elim!: bind_SomeE)
  have "printing m c1 (m', n, c2)" by (rule do_vprintf_keeps [OF printing_keeps v(2)]) (simp add: printing_def)
  then show ?thesis using v(1,3) assms(2,3)
    by (auto simp: printing_def acquire_console_def release_console_def bind_eq_Some_conv c_int_def split: if_splits)
qed

end
