(* ===== verification/Ustar.thy ===== *)
theory Ustar
  imports Stdio
begin

text \<open>
  Headers of ustar archives, \<^verbatim>\<open>lib/ustar.c\<close>. The header is a range of 512 bytes of the memory of \<open>C_String\<close>, and a
  file name is a string in it or a literal. The result of parsing is an error or the name, type and size of a file.
  The message that \<^verbatim>\<open>ustar_make_header\<close> prints for a long name is dropped.
\<close>

section \<open>Layout\<close>

definition USTAR_HEADER_SIZE :: nat where
  "USTAR_HEADER_SIZE = 512"

datatype ustar_type = USTAR_REGULAR | USTAR_DIRECTORY | USTAR_EOF

fun type_byte :: "ustar_type \<Rightarrow> byte" where
  "type_byte USTAR_REGULAR = 48"
| "type_byte USTAR_DIRECTORY = 53"
| "type_byte USTAR_EOF = -1"

text \<open>The offsets of the fields that the code uses.\<close>

definition o_name :: nat where "o_name = 0"
definition o_mode :: nat where "o_mode = 100"
definition o_uid :: nat where "o_uid = 108"
definition o_gid :: nat where "o_gid = 116"
definition o_size :: nat where "o_size = 124"
definition o_mtime :: nat where "o_mtime = 136"
definition o_chksum :: nat where "o_chksum = 148"
definition o_typeflag :: nat where "o_typeflag = 156"
definition o_magic :: nat where "o_magic = 257"
definition o_version :: nat where "o_version = 263"
definition o_uname :: nat where "o_uname = 265"
definition o_gname :: nat where "o_gname = 297"
definition o_prefix :: nat where "o_prefix = 345"

lemmas offsets = o_name_def o_mode_def o_uid_def o_gid_def o_size_def o_mtime_def o_chksum_def o_typeflag_def o_magic_def o_version_def
  o_uname_def o_gname_def o_prefix_def

section \<open>Checksums\<close>

text \<open>The sum of the bytes from \<open>i\<close> on.\<close>

fun chksum_loop :: "nat \<Rightarrow> nat \<Rightarrow> nat \<Rightarrow> u32 \<Rightarrow> cmem \<Rightarrow> u32 option" where
  "chksum_loop h i 0 chksum m = Some chksum"
| "chksum_loop h i (Suc n) chksum m = do {
     c \<leftarrow> ld m (h + i);
     chksum_loop h (i + 1) n (chksum + (if o_chksum \<le> i \<and> i < o_chksum + 8 then 32 else ucast c)) m }"

definition calculate_chksum :: "nat \<Rightarrow> cmem \<Rightarrow> u32 option" where
  "calculate_chksum h m = chksum_loop h 0 USTAR_HEADER_SIZE 0 m"

section \<open>File names\<close>

text \<open>Whether \<^verbatim>\<open>memcmp\<close> of the memory with a literal gives 0.\<close>

fun prefix_at :: "byte list \<Rightarrow> nat \<Rightarrow> cmem \<Rightarrow> bool option" where
  "prefix_at [] p m = Some True"
| "prefix_at (c # cs) p m = do { x \<leftarrow> ld m p; if x \<noteq> c then Some False else prefix_at cs (p + 1) m }"

definition antisocial :: "nat \<Rightarrow> cmem \<Rightarrow> bool option" where
  "antisocial p m = do {
     c \<leftarrow> ld m p;
     if c = 47 then Some True
     else do { x \<leftarrow> prefix_at [46, 47] p m; if x then Some True else prefix_at [46, 46, 47] p m } }"

partial_function (option) strip_loop :: "nat \<Rightarrow> cmem \<Rightarrow> nat option" where
  "strip_loop p m = do {
     b \<leftarrow> antisocial p m;
     if b then do { q \<leftarrow> strchr p 47 m; ASSERT (q \<noteq> 0); strip_loop (q + 1) m } else Some p }"

declare strip_loop.simps [code]

definition strip_antisocial_prefixes :: "nat \<Rightarrow> cmem \<Rightarrow> c_text option" where
  "strip_antisocial_prefixes p m = do {
     p \<leftarrow> strip_loop p m;
     c \<leftarrow> ld m p;
     if c = 0 then Some (Lit [46])
     else do { b \<leftarrow> prefix_at [46, 46, 0] p m; Some (if b then Lit [46] else Ptr p) } }"

definition text_len :: "c_text \<Rightarrow> cmem \<Rightarrow> nat option" where
  "text_len t m = (case t of Ptr p \<Rightarrow> strlen p m | Lit s \<Rightarrow> Some (length s))"

fun store :: "nat \<Rightarrow> byte list \<Rightarrow> cmem \<Rightarrow> cmem option" where
  "store p [] m = Some m"
| "store p (c # cs) m = do { m \<leftarrow> st m p c; store (p + 1) cs m }"

text \<open>\<^verbatim>\<open>strlcpy\<close> from a string in memory or from a literal.\<close>

definition text_strlcpy :: "nat \<Rightarrow> c_text \<Rightarrow> nat \<Rightarrow> cmem \<Rightarrow> cmem option" where
  "text_strlcpy dst t sz m = (case t of
     Ptr p \<Rightarrow> do { (_, m) \<leftarrow> strlcpy dst p sz m; Some m }
   | Lit s \<Rightarrow> if sz > 0 then store dst (take (sz - 1) s @ [0]) m else Some m)"

section \<open>Making headers\<close>

text \<open>The formats \<^verbatim>\<open>%07o\<close> and \<^verbatim>\<open>%011o\<close>.\<close>

definition fmt_07o :: c_text where
  "fmt_07o = Lit [37, 48, 55, 111]"

definition fmt_011o :: c_text where
  "fmt_011o = Lit [37, 48, 49, 49, 111]"

definition put_octal :: "nat \<Rightarrow> nat \<Rightarrow> c_text \<Rightarrow> u32 \<Rightarrow> cmem \<Rightarrow> cmem option" where
  "put_octal p sz fmt v m = do { (_, m) \<leftarrow> snprintf p sz fmt [v] m; Some m }"

definition ustar_make_header :: "nat \<Rightarrow> ustar_type \<Rightarrow> int \<Rightarrow> nat \<Rightarrow> cmem \<Rightarrow> (bool \<times> cmem) option" where
  "ustar_make_header file_name type sz h m = do {
     ASSERT (type = USTAR_REGULAR \<or> type = USTAR_DIRECTORY);
     t \<leftarrow> strip_antisocial_prefixes file_name m;
     n \<leftarrow> text_len t m;
     if n > 99 then Some (False, m)
     else do {
       (_, m) \<leftarrow> memset h 0 USTAR_HEADER_SIZE m;
       m \<leftarrow> text_strlcpy (h + o_name) t 100 m;
       m \<leftarrow> put_octal (h + o_mode) 8 fmt_07o (if type = USTAR_REGULAR then 0x1A4 else 0x1ED) m;
       m \<leftarrow> text_strlcpy (h + o_uid) (Lit [48, 48, 48, 48, 48, 48, 48]) 8 m;
       m \<leftarrow> text_strlcpy (h + o_gid) (Lit [48, 48, 48, 48, 48, 48, 48]) 8 m;
       m \<leftarrow> put_octal (h + o_size) 12 fmt_011o (of_int sz) m;
       m \<leftarrow> put_octal (h + o_mtime) 12 fmt_011o 1136102400 m;
       m \<leftarrow> st m (h + o_typeflag) (type_byte type);
       m \<leftarrow> text_strlcpy (h + o_magic) (Lit [117, 115, 116, 97, 114]) 6 m;
       m \<leftarrow> st m (h + o_version + 1) 48;
       m \<leftarrow> st m (h + o_version) 48;
       m \<leftarrow> text_strlcpy (h + o_gname) (Lit [114, 111, 111, 116]) 32 m;
       m \<leftarrow> text_strlcpy (h + o_uname) (Lit [114, 111, 111, 116]) 32 m;
       c \<leftarrow> calculate_chksum h m;
       m \<leftarrow> put_octal (h + o_chksum) 8 fmt_07o c m;
       Some (True, m)
     }
   }"

section \<open>Parsing headers\<close>

text \<open>\<^verbatim>\<open>unsigned long\<close> has 32 bits. The second component is the value, and the first whether the field is valid.\<close>

fun parse_octal_loop :: "nat \<Rightarrow> nat \<Rightarrow> nat \<Rightarrow> u32 \<Rightarrow> cmem \<Rightarrow> (bool \<times> u32) option" where
  "parse_octal_loop s ofs 0 value m = Some (False, value)"
| "parse_octal_loop s ofs (Suc n) value m = do {
     c \<leftarrow> ld m (s + ofs);
     if 48 \<le> c \<and> c \<le> 55 then
       if value > (2 ^ 32 - 1) div 8 then Some (False, value)
       else parse_octal_loop s (ofs + 1) n (ucast c - 48 + value * 8) m
     else if c = 32 \<or> c = 0 then Some (ofs > 0, value)
     else Some (False, value) }"

definition parse_octal_field :: "nat \<Rightarrow> nat \<Rightarrow> cmem \<Rightarrow> (bool \<times> u32) option" where
  "parse_octal_field s sz m = parse_octal_loop s 0 sz 0 m"

fun is_all_zeros :: "nat \<Rightarrow> nat \<Rightarrow> cmem \<Rightarrow> bool option" where
  "is_all_zeros block 0 m = Some True"
| "is_all_zeros block (Suc cnt) m = do { c \<leftarrow> ld m block; if c \<noteq> 0 then Some False else is_all_zeros (block + 1) cnt m }"

datatype ustar_error = Not_ustar | Invalid_version | Corrupt_chksum | Chksum_mismatch | Name_too_long | Unimplemented_type
  | Corrupt_size | File_too_large

text \<open>The size field, for a regular file.\<close>

definition parse_size :: "nat \<Rightarrow> byte \<Rightarrow> cmem \<Rightarrow> (ustar_error + u32) option" where
  "parse_size h ty m = (if ty = type_byte USTAR_REGULAR then do {
       (ok, v) \<leftarrow> parse_octal_field (h + o_size) 12 m;
       Some (if \<not> ok then Inl Corrupt_size else if int (unat v) > INT_MAX then Inl File_too_large else Inr v) }
     else Some (Inr 0))"

definition ustar_parse_header :: "nat \<Rightarrow> cmem \<Rightarrow> (ustar_error + c_text option \<times> ustar_type \<times> int) option" where
  "ustar_parse_header h m = do {
     z \<leftarrow> is_all_zeros h USTAR_HEADER_SIZE m;
     if z then Some (Inr (None, USTAR_EOF, 0))
     else do {
       magic \<leftarrow> prefix_at [117, 115, 116, 97, 114, 0] (h + o_magic) m;
       if \<not> magic then Some (Inl Not_ustar)
       else do {
         v0 \<leftarrow> ld m (h + o_version);
         v1 \<leftarrow> ld m (h + o_version + 1);
         if v0 \<noteq> 48 \<or> v1 \<noteq> 48 then Some (Inl Invalid_version)
         else do {
           (ok, chksum) \<leftarrow> parse_octal_field (h + o_chksum) 8 m;
           if \<not> ok then Some (Inl Corrupt_chksum)
           else do {
             c \<leftarrow> calculate_chksum h m;
             if chksum \<noteq> c then Some (Inl Chksum_mismatch)
             else do {
               n99 \<leftarrow> ld m (h + o_name + 99);
               p0 \<leftarrow> ld m (h + o_prefix);
               ty \<leftarrow> ld m (h + o_typeflag);
               if n99 \<noteq> 0 \<or> p0 \<noteq> 0 then Some (Inl Name_too_long)
               else if ty \<noteq> type_byte USTAR_REGULAR \<and> ty \<noteq> type_byte USTAR_DIRECTORY then Some (Inl Unimplemented_type)
               else do {
                 r \<leftarrow> parse_size h ty m;
                 case r of Inl e \<Rightarrow> Some (Inl e)
                 | Inr sz \<Rightarrow> do {
                     t \<leftarrow> strip_antisocial_prefixes (h + o_name) m;
                     Some (Inr (Some t, if ty = type_byte USTAR_REGULAR then USTAR_REGULAR else USTAR_DIRECTORY, int (unat sz))) }
               }
             }
           }
         }
       }
     }
   }"

section \<open>Names as strings\<close>

definition bad_prefix :: "byte list \<Rightarrow> bool" where
  "bad_prefix s \<longleftrightarrow> take 1 s = [47] \<or> take 2 s = [46, 47] \<or> take 3 s = [46, 46, 47]"

lemma bad_prefix_slash: "bad_prefix s \<Longrightarrow> 47 \<in> set s"
  by (cases s; cases "tl s"; cases "tl (tl s)") (auto simp: bad_prefix_def)

function strip_str :: "byte list \<Rightarrow> byte list" where
  "strip_str s = (if bad_prefix s then strip_str (tl (dropWhile (\<lambda>c. c \<noteq> 47) s)) else s)"
  by auto
termination
proof (relation "measure length", goal_cases)
  case (2 s)
  have "dropWhile (\<lambda>c. c \<noteq> 47) s \<noteq> []" using bad_prefix_slash [OF 2] by auto
  then show ?case using length_dropWhile_le [of "\<lambda>c. c \<noteq> 47" s] by (cases "dropWhile (\<lambda>c. c \<noteq> 47) s") auto
qed simp

declare strip_str.simps [simp del]

definition strip_name :: "byte list \<Rightarrow> byte list" where
  "strip_name s = (if strip_str s = [] \<or> strip_str s = [46, 46] then [46] else strip_str s)"

lemma strip_str_good: "\<not> bad_prefix (strip_str s)"
  by (induction s rule: strip_str.induct) (metis strip_str.simps)

lemma strip_name_clean: "strip_str (strip_name s) = strip_name s" "strip_name s \<noteq> []" "strip_name s \<noteq> [46, 46]"
  using strip_str_good [of s] by (auto simp: strip_name_def strip_str.simps [of "[46]"] strip_str.simps [of "strip_str s"] bad_prefix_def)

lemma strip_str_set: "set (strip_str s) \<subseteq> set s"
proof (induction s rule: strip_str.induct)
  case (1 s)
  have "set (tl (dropWhile (\<lambda>c. c \<noteq> 47) s)) \<subseteq> set s" using set_drop_subset [of 1 "dropWhile (\<lambda>c. c \<noteq> 47) s"] set_dropWhileD [of _ "\<lambda>c. c \<noteq> 47" s] by (auto simp: drop_Suc)
  then show ?case using 1 strip_str.simps [of s] by auto
qed

lemma strip_name_set: "set (strip_name s) \<subseteq> insert 46 (set s)"
  using strip_str_set [of s] by (auto simp: strip_name_def)

lemma prefix_at_eq: "str_at m p s \<Longrightarrow> 0 \<notin> set cs \<Longrightarrow> prefix_at cs p m = Some (take (length cs) s = cs)"
proof (induction cs arbitrary: p s)
  case (Cons c cs)
  then show ?case by (cases s) auto
qed simp

lemma prefix_at_end: "str_at m p s \<Longrightarrow> 0 \<notin> set cs \<Longrightarrow> prefix_at (cs @ [0]) p m = Some (s = cs)"
proof (induction cs arbitrary: p s)
  case Nil
  then show ?case by (cases s) auto
next
  case (Cons c cs)
  then show ?case by (cases s) auto
qed

lemma antisocial_eq:
  assumes "str_at m p s"
  shows "antisocial p m = Some (bad_prefix s)"
proof -
  have pre: "prefix_at cs p m = Some (take n s = cs)" if "n = length cs" "0 \<notin> set cs" for cs n
    using prefix_at_eq [OF assms, of cs] that by simp
  have "ld m p = Some (if s = [] then 0 else hd s)" "take 1 s = [47] \<longleftrightarrow> s \<noteq> [] \<and> hd s = 47" using assms by (cases s; auto)+
  then show ?thesis using pre [of 2 "[46, 47]"] pre [of 3 "[46, 46, 47]"]
    by (auto simp: antisocial_def bad_prefix_def simp del: prefix_at.simps)
qed

lemma strip_loop_eq:
  "str_at m p s \<Longrightarrow> \<exists>q. strip_loop p m = Some q \<and> str_at m q (strip_str s) \<and> p \<le> q \<and> q + length (strip_str s) = p + length s"
proof (induction s arbitrary: p rule: strip_str.induct)
  case (1 s)
  show ?case
  proof (cases "bad_prefix s")
    case False
    then show ?thesis using 1(2) antisocial_eq [OF 1(2)] by (intro exI [of _ p]) (simp add: strip_loop.simps strip_str.simps [of s])
  next
    case True
    let ?k = "length (takeWhile (\<lambda>c. c \<noteq> 47) s)" let ?t = "tl (dropWhile (\<lambda>c. c \<noteq> 47) s)"
    have m: "47 \<in> set s" by (rule bad_prefix_slash [OF True])
    have k: "?k < length s" by (rule takeWhile_shorter [OF m])
    have d: "?t = drop (?k + 1) s" by (simp add: dropWhile_eq_drop tl_drop drop_Suc)
    have c: "strchr p 47 m = Some (p + ?k)" using strchr_spec [OF 1(2), of 47] m by simp
    have "str_at m (p + ?k + 1) ?t" using str_at_drop [OF 1(2), of "?k + 1"] k d by (simp add: add.assoc)
    then obtain q where q: "strip_loop (p + ?k + 1) m = Some q" "str_at m q (strip_str ?t)" "p + ?k + 1 \<le> q"
      "q + length (strip_str ?t) = p + ?k + 1 + length ?t"
      using 1(1) [OF True] by blast
    have "strip_loop p m = Some q"
      using antisocial_eq [OF 1(2)] True c q(1) str_at_0 [OF 1(2)] by (subst strip_loop.simps) simp
    moreover have "strip_str s = strip_str ?t" using True by (simp add: strip_str.simps [of s])
    moreover have "p + ?k + 1 + length ?t = p + length s" using d k by simp
    ultimately show ?thesis using q by auto
  qed
qed

definition text_at :: "cmem \<Rightarrow> c_text \<Rightarrow> byte list \<Rightarrow> bool" where
  "text_at m t s \<longleftrightarrow> (case t of Ptr p \<Rightarrow> str_at m p s | Lit l \<Rightarrow> l = s)"

lemma strip_eq:
  assumes "str_at m p s"
  shows "\<exists>t. strip_antisocial_prefixes p m = Some t \<and> text_at m t (strip_name s) \<and>
    (\<forall>q. t = Ptr q \<longrightarrow> p \<le> q \<and> q + length (strip_name s) = p + length s)"
proof -
  obtain q where q: "strip_loop p m = Some q" "str_at m q (strip_str s)" "p \<le> q" "q + length (strip_str s) = p + length s"
    using strip_loop_eq [OF assms] by blast
  have "ld m q = Some (if strip_str s = [] then 0 else hd (strip_str s))" "strip_str s \<noteq> [] \<Longrightarrow> hd (strip_str s) \<noteq> 0"
    using q(2) by (cases "strip_str s"; auto)+
  moreover have "prefix_at [46, 46, 0] q m = Some (strip_str s = [46, 46])" using prefix_at_end [OF q(2), of "[46, 46]"] by simp
  ultimately show ?thesis using q unfolding strip_antisocial_prefixes_def strip_name_def text_at_def by auto
qed

text \<open>A name that has been stripped is left as it is.\<close>

lemma strip_clean:
  assumes "str_at m p (strip_name s)"
  shows "strip_antisocial_prefixes p m = Some (Ptr p)"
proof -
  let ?s = "strip_name s"
  have "\<not> bad_prefix ?s" using strip_str_good [of ?s] by (simp add: strip_name_clean)
  then have l: "strip_loop p m = Some p" using antisocial_eq [OF assms] by (subst strip_loop.simps) simp
  have "ld m p = Some (hd ?s)" "hd ?s \<noteq> 0" using assms strip_name_clean(2) [of s] by (cases ?s; auto)+
  moreover have "prefix_at [46, 46, 0] p m = Some False" using prefix_at_end [OF assms, of "[46, 46]"] strip_name_clean(3) by simp
  ultimately show ?thesis using l by (simp add: strip_antisocial_prefixes_def del: prefix_at.simps)
qed

section \<open>Octal fields\<close>

definition isoctal :: "byte \<Rightarrow> bool" where
  "isoctal c \<longleftrightarrow> 48 \<le> c \<and> c \<le> 55"

lemma oct_digit: "d < 8 \<Longrightarrow> d < length (ib_digits base_o) \<and> int (unat (ib_digits base_o ! d)) - 48 = int d"
proof -
  have "length dec_digits = 10" by (simp add: dec_digits_def)
  then show "d < 8 \<Longrightarrow> ?thesis" using dec_digit [of d] by (simp add: base_o_def)
qed

lemma place_value_zeros: "place_value b (replicate n 48 @ ds) = place_value b ds"
  by (induction n) (simp_all add: place_value_def)

definition oct_conv :: "nat \<Rightarrow> printf_conversion" where
  "oct_conv n = \<lparr>flags = ZERO, width = int n, precision = -1, arg_type = INT_ARG\<rparr>"

lemma int_chars_octal:
  assumes "v < 8 ^ n" "0 < n" "n \<le> 22"
  shows "\<exists>cs. int_chars v False False base_o (oct_conv n) = Some cs \<and> length cs = n \<and> list_all isoctal cs \<and> place_value 8 cs = int v"
proof -
  have g: "ZERO AND GROUP = 0" "ZERO AND POUND = 0" "ZERO AND MINUS = 0" "ZERO AND (MINUS OR ZERO) \<noteq> 0" "ZERO \<noteq> 0"
    by (simp_all add: ZERO_def GROUP_def POUND_def MINUS_def)
  obtain ds where ds: "digit_loop v 0 base_o ZERO [] = Some (rev ds)" "list_all (\<lambda>c. c \<in> set (ib_digits base_o)) ds" "length ds \<le> n"
    "place_value 8 ds = int v" "ds = [] \<longleftrightarrow> v = 0"
    using digit_loop_base [of ZERO base_o v n "[]" 0] oct_digit assms g(1) by (auto simp: base_o_def)
  let ?ds = "if ds = [] then [48] else ds" let ?cs = "replicate (n - length ?ds) 48 @ ?ds"
  have "length ?ds \<le> n" using ds(3) assms(2) by auto
  have "int_chars v False False base_o (oct_conv n) = Some ?cs"
    using ds(1) g by (auto simp: int_chars_def oct_conv_def sign_char_def zero_loop_one Let_def nat_diff_distrib)
  moreover have "place_value 8 ?cs = int v" using ds(4,5) place_value_zeros [of 8 "n - length ?ds" ?ds] by (simp add: place_value_def)
  moreover have "list_all isoctal ?cs" using ds(2) by (auto simp: list_all_iff base_o_def dec_digits_def isoctal_def)
  ultimately show ?thesis using \<open>length ?ds \<le> n\<close> by auto
qed

lemma parse_07o: "parse_conversion fmt_07o 1 args m = Some (3, oct_conv 7, args)"
  by (simp add: parse_conversion_def parse_flags.simps parse_width_def parse_number.simps parse_precision_def parse_type_def
      fmt_07o_def char_at_def flag_of_def isdigit_def c_int_def INT_MIN_def INT_MAX_def oct_conv_def MINUS_def PLUS_def ZERO_def)

lemma parse_011o: "parse_conversion fmt_011o 1 args m = Some (4, oct_conv 11, args)"
  by (simp add: parse_conversion_def parse_flags.simps parse_width_def parse_number.simps parse_precision_def parse_type_def
      fmt_011o_def char_at_def flag_of_def isdigit_def c_int_def INT_MIN_def INT_MAX_def oct_conv_def MINUS_def PLUS_def ZERO_def)

text \<open>A format that consists of one octal conversion.\<close>

definition octal_format :: "c_text \<Rightarrow> nat \<Rightarrow> bool" where
  "octal_format fmt n \<longleftrightarrow> (\<exists>k. (\<forall>m. char_at fmt 0 m = Some 37 \<and> (\<exists>d. char_at fmt 1 m = Some d \<and> d \<noteq> 37) \<and> char_at fmt k m = Some 111 \<and>
     char_at fmt (k + 1) m = Some 0) \<and> (\<forall>args m. parse_conversion fmt 1 args m = Some (k, oct_conv n, args)))"

lemma octal_formats: "octal_format fmt_07o 7" "octal_format fmt_011o 11"
proof -
  show "octal_format fmt_07o 7" unfolding octal_format_def
    by (rule exI [of _ "3 :: nat"]) (use parse_07o in \<open>simp add: fmt_07o_def char_at_def\<close>)
  show "octal_format fmt_011o 11" unfolding octal_format_def
    by (rule exI [of _ "4 :: nat"]) (use parse_011o in \<open>simp add: fmt_011o_def char_at_def\<close>)
qed

lemma vprintf_o:
  assumes "octal_format fmt n" "int_chars (unat w) False False base_o (oct_conv n) = Some cs" "emit out cs s = Some s'"
  shows "do_vprintf fmt 0 [w] out s = Some s'"
proof -
  obtain k where k: "\<And>m. char_at fmt 0 m = Some 37" "\<And>m. \<exists>d. char_at fmt 1 m = Some d \<and> d \<noteq> 37" "\<And>m. char_at fmt k m = Some 111"
    "\<And>m. char_at fmt (k + 1) m = Some 0" "\<And>args m. parse_conversion fmt 1 args m = Some (k, oct_conv n, args)"
    using assms(1) unfolding octal_format_def by blast
  obtain d where d: "char_at fmt 1 (fst s) = Some d" "d \<noteq> 37" using k(2) by blast
  have "unsigned_arg (arg_type (oct_conv n)) [w] = Some (unat w, [])" by (simp add: unsigned_arg_def oct_conv_def)
  then have "convert 111 (oct_conv n) [w] out s = Some ([], s')" using assms(2,3) by (simp add: convert_def format_integer_emit)
  moreover have "do_vprintf fmt (k + 1) [] out s' = Some s'" using k(4) by (subst do_vprintf.simps) simp
  ultimately show ?thesis using k(1,3,5) d by (subst do_vprintf.simps) (simp add: is_conversion_def)
qed

lemma put_octal_eq:
  assumes "octal_format fmt n" "unat w < 8 ^ n" "0 < n" "n \<le> 22" "in_mem m p (Suc n)"
  shows "\<exists>cs. put_octal p (Suc n) fmt w m = Some (overwrite m p (cs @ [0])) \<and> length cs = n \<and> list_all isoctal cs \<and>
    place_value 8 cs = int (unat w)"
proof -
  obtain cs where cs: "int_chars (unat w) False False base_o (oct_conv n) = Some cs" "length cs = n" "list_all isoctal cs"
    "place_value 8 cs = int (unat w)" using int_chars_octal [OF assms(2-4)] by blast
  let ?aux = "\<lparr>aux_p = p, aux_length = 0, aux_max_length = sint (of_nat (if Suc n > 0 then Suc n - 1 else 0) :: u32)\<rparr>"
  have "sint (of_nat n :: u32) = int n" by (rule sint_of_nat_small) (use assms(4) in simp)
  then have "emit vsnprintf_helper cs (m, ?aux) = Some (overwrite m p cs, ?aux\<lparr>aux_length := int n, aux_p := p + n\<rparr>)"
    using emit_buffer [of ?aux cs m] cs(2) assms(4,5) by (simp add: in_mem_def INT_MAX_def)
  then have "do_vprintf fmt 0 [w] vsnprintf_helper (m, ?aux) = Some (overwrite m p cs, ?aux\<lparr>aux_length := int n, aux_p := p + n\<rparr>)"
    by (rule vprintf_o [OF assms(1) cs(1)])
  then have "snprintf p (Suc n) fmt [w] m = Some (int n, (overwrite m p cs)[p + n := 0])"
    using assms(5) cs(2) by (simp add: snprintf_def vsnprintf_def st_def in_mem_def)
  moreover have "(overwrite m p cs)[p + n := 0] = overwrite m p (cs @ [0])"
    using overwrite_twice [of p cs m 0] assms(5) cs(2) by (simp add: in_mem_def)
  ultimately show ?thesis using cs by (auto simp: put_octal_def)
qed

lemma isoctal_value: "isoctal c \<Longrightarrow> 48 \<le> unat c \<and> unat c \<le> 55"
  by (simp add: isoctal_def word_le_nat_alt)

definition oct_value :: "nat \<Rightarrow> byte list \<Rightarrow> nat" where
  "oct_value v cs = foldl (\<lambda>v c. v * 8 + (unat c - 48)) v cs"

lemma oct_value_simps [simp]: "oct_value v [] = v" "oct_value v (c # cs) = oct_value (v * 8 + (unat c - 48)) cs"
  by (simp_all add: oct_value_def)

lemma place_value_octal: "list_all isoctal cs \<Longrightarrow> place_value 8 cs = int (oct_value 0 cs)"
proof -
  have "foldl (\<lambda>v c. v * 8 + (int (unat c) - 48)) (int v) cs = int (oct_value v cs)" if "list_all isoctal cs" for v
    using that
  proof (induction cs arbitrary: v)
    case (Cons c cs)
    have "int v * 8 + (int (unat c) - 48) = int (v * 8 + (unat c - 48))" using isoctal_value [of c] Cons.prems by (simp add: of_nat_diff del: of_nat_unat)
    moreover have "list_all isoctal cs" using Cons.prems by simp
    ultimately show ?case using Cons.IH [of "v * 8 + (unat c - 48)"] by (simp only: foldl_Cons oct_value_simps)
  qed simp
  from this [of 0] show "list_all isoctal cs \<Longrightarrow> ?thesis" by (simp add: place_value_def del: of_nat_unat)
qed

lemma oct_value_ge: "v \<le> oct_value v cs"
proof (induction cs arbitrary: v)
  case (Cons c cs)
  have "v \<le> v * 8 + (unat c - 48)" by simp
  also have "\<dots> \<le> oct_value (v * 8 + (unat c - 48)) cs" by (rule Cons.IH)
  finally show ?case by simp
qed simp

lemma parse_octal_loop_eq:
  assumes "list_all isoctal cs" "length cs < n" "0 < ofs + length cs" "in_mem m s (ofs + n)"
    "slice (s + ofs) (Suc (length cs)) m = cs @ [0]" "oct_value (unat v) cs < 2 ^ 32"
  shows "parse_octal_loop s ofs n v m = Some (True, of_nat (oct_value (unat v) cs))"
  using assms
proof (induction cs arbitrary: ofs n v)
  case Nil
  then obtain n' where n: "n = Suc n'" by (cases n) auto
  have "ld m (s + ofs) = Some 0" using Nil by (auto simp: slice_Suc in_mem_def ld_def n)
  then show ?case using Nil n by simp
next
  case (Cons c cs)
  then obtain n' where n: "n = Suc n'" by (cases n) auto
  have b: "s + ofs < length m" "s \<noteq> 0" using Cons.prems(4) n by (auto simp: in_mem_def)
  have l: "ld m (s + ofs) = Some c" "slice (s + (ofs + 1)) (Suc (length cs)) m = cs @ [0]"
    using Cons.prems(5) b by (auto simp: slice_Suc [of "s + ofs"] ld_def)
  have c: "isoctal c" "48 \<le> unat c" "unat c \<le> 55" using Cons.prems(1) isoctal_value [of c] by auto
  let ?w = "unat v * 8 + (unat c - 48)"
  have w: "?w < 2 ^ 32" using Cons.prems(6) oct_value_ge [of ?w cs] by simp
  then have nov: "\<not> v > (2 ^ 32 - 1) div 8" by (simp add: word_less_nat_alt)
  have uc: "unat (ucast c :: u32) = unat c" using unsigned_less [where ?'a = nat, of c] by (simp add: unsigned_ucast_eq take_bit_nat_eq_self)
  have uv: "unat (ucast c - 48 + v * 8) = ?w"
  proof -
    have "unat (ucast c - 48 :: u32) = unat c - 48" using c(2) uc by (subst unat_sub) (auto simp: word_le_nat_alt)
    moreover have "unat (v * 8) = unat v * 8" using w by (simp add: unat_word_ariths)
    ultimately show ?thesis using w by (simp add: unat_word_ariths(1))
  qed
  have "parse_octal_loop s (ofs + 1) n' (ucast c - 48 + v * 8) m = Some (True, of_nat (oct_value (unat (ucast c - 48 + v * 8)) cs))"
    using Cons.prems l(2) n uv by (intro Cons.IH) auto
  then show ?case using l(1) c(1) nov n uv by (simp add: isoctal_def)
qed

section \<open>Checksums of headers\<close>

lemma chksum_loop_total: "in_mem m h (i + n) \<Longrightarrow> \<exists>c. chksum_loop h i n v m = Some c"
proof (induction n arbitrary: i v)
  case (Suc n)
  have "ld m (h + i) = Some (m ! (h + i))" using Suc.prems by (simp add: ld_def in_mem_def)
  then show ?case using Suc.IH [of "i + 1"] Suc.prems by simp
qed simp

lemma chksum_loop_bound:
  "chksum_loop h i n v m = Some c \<Longrightarrow> unat v + 255 * n < 2 ^ 32 \<Longrightarrow> unat c \<le> unat v + 255 * n"
proof (induction n arbitrary: i v)
  case (Suc n)
  then obtain x where x: "ld m (h + i) = Some x"
    "chksum_loop h (i + 1) n (v + (if o_chksum \<le> i \<and> i < o_chksum + 8 then 32 else ucast x)) m = Some c" by (auto simp: bind_eq_Some_conv)
  let ?d = "if o_chksum \<le> i \<and> i < o_chksum + 8 then 32 else ucast x :: u32"
  have "unat (ucast x :: u32) = unat x" using unsigned_less [where ?'a = nat, of x] by (simp add: unsigned_ucast_eq take_bit_nat_eq_self)
  then have d: "unat ?d \<le> 255" using unsigned_less [where ?'a = nat, of x] by auto
  then have "unat (v + ?d) = unat v + unat ?d" using Suc.prems(2) by (simp add: unat_word_ariths(1))
  then show ?case using Suc.IH [OF x(2)] Suc.prems(2) d by auto
qed simp

lemma chksum_loop_cong:
  "(\<And>j. i \<le> j \<Longrightarrow> j < i + n \<Longrightarrow> \<not> (o_chksum \<le> j \<and> j < o_chksum + 8) \<Longrightarrow> ld m (h + j) = ld m' (h + j)) \<Longrightarrow>
    (\<And>j. i \<le> j \<Longrightarrow> j < i + n \<Longrightarrow> ld m (h + j) \<noteq> None \<and> ld m' (h + j) \<noteq> None) \<Longrightarrow>
    chksum_loop h i n v m = chksum_loop h i n v m'"
proof (induction n arbitrary: i v)
  case (Suc n)
  obtain x y where xy: "ld m (h + i) = Some x" "ld m' (h + i) = Some y" using Suc.prems(2) [of i] by auto
  have "(if o_chksum \<le> i \<and> i < o_chksum + 8 then 32 else ucast x :: u32) = (if o_chksum \<le> i \<and> i < o_chksum + 8 then 32 else ucast y)"
    using Suc.prems(1) [of i] xy by auto
  moreover have "chksum_loop h (i + 1) n w m = chksum_loop h (i + 1) n w m'" for w
    by (rule Suc.IH) (use Suc.prems in auto)
  ultimately show ?case using xy by simp
qed simp

lemma is_all_zeros_nonzero:
  "in_mem m b n \<Longrightarrow> i < n \<Longrightarrow> m ! (b + i) \<noteq> 0 \<Longrightarrow> is_all_zeros b n m = Some False"
proof (induction n arbitrary: b i)
  case (Suc n)
  have l: "ld m b = Some (m ! b)" using Suc.prems by (simp add: ld_def in_mem_def)
  show ?case
  proof (cases i)
    case 0
    then show ?thesis using l Suc.prems by simp
  next
    case (Suc j)
    then show ?thesis using l Suc.IH [of "b + 1" j] Suc.prems by (simp add: in_mem_def)
  qed
qed simp

section \<open>Writing fields\<close>

lemma store_eq: "in_mem m p (length cs) \<Longrightarrow> store p cs m = Some (overwrite m p cs)"
proof (induction cs arbitrary: m p)
  case (Cons c cs)
  then show ?case using overwrite_Cons [of p m c cs] by (simp add: st_def in_mem_def)
qed simp

lemma st_overwrite: "in_mem m p 1 \<Longrightarrow> st m p v = Some (overwrite m p [v])"
  using store_eq [of m p "[v]"] by (cases "st m p v") (auto simp: st_def in_mem_def split: if_splits)

lemma in_mem_overwrite [simp]: "in_mem m q (length xs) \<Longrightarrow> in_mem (overwrite m q xs) p n = in_mem m p n"
  by (simp add: in_mem_def)

lemma prefix_at_slice:
  "in_mem m p (length cs) \<Longrightarrow> slice p (length cs) m = cs \<Longrightarrow> prefix_at cs p m = Some True"
proof (induction cs arbitrary: p)
  case (Cons c cs)
  then show ?case by (auto simp: in_mem_def ld_def slice_Suc)
qed simp

lemma prefix_at_n: "in_mem m p n \<Longrightarrow> slice p n m = cs \<Longrightarrow> n = length cs \<Longrightarrow> prefix_at cs p m = Some True"
  by (simp add: prefix_at_slice)

text \<open>A header is a memory to which fields, offsets with their bytes, are written in turn.\<close>

definition put_fields :: "nat \<Rightarrow> (nat \<times> byte list) list \<Rightarrow> cmem \<Rightarrow> cmem" where
  "put_fields h fs m = foldl (\<lambda>m (ofs, bs). overwrite m (h + ofs) bs) m fs"

definition fields_fit :: "(nat \<times> byte list) list \<Rightarrow> bool" where
  "fields_fit fs \<longleftrightarrow> list_all (\<lambda>(ofs, bs). ofs + length bs \<le> 512) fs"

lemma put_fields_snoc: "put_fields h (fs @ [(ofs, bs)]) m = overwrite (put_fields h fs m) (h + ofs) bs"
  by (simp add: put_fields_def)

lemma put_fields_append: "put_fields h (fs @ gs) m = put_fields h gs (put_fields h fs m)"
  by (simp add: put_fields_def)

lemma length_put_fields [simp]: "in_mem m h 512 \<Longrightarrow> fields_fit fs \<Longrightarrow> length (put_fields h fs m) = length m"
  by (induction fs rule: rev_induct) (auto simp: put_fields_snoc fields_fit_def in_mem_def, simp add: put_fields_def)

lemma put_fields_in_mem: "in_mem m h 512 \<Longrightarrow> fields_fit fs \<Longrightarrow> in_mem (put_fields h fs m) p n = in_mem m p n"
  by (simp add: in_mem_def [of _ p])

lemma put_fields_other:
  assumes "in_mem m h 512" "fields_fit fs" "list_all (\<lambda>(ofs, bs). q + n \<le> ofs \<or> ofs + length bs \<le> q) fs"
  shows "slice (h + q) n (put_fields h fs m) = slice (h + q) n m"
  using assms(2,3)
proof (induction fs rule: rev_induct)
  case (snoc f fs)
  obtain o' bs where f: "f = (o', bs)" by fastforce
  have "fields_fit fs" "o' + length bs \<le> 512" "q + n \<le> o' \<or> o' + length bs \<le> q" using snoc.prems f by (auto simp: fields_fit_def)
  then show ?case using snoc assms(1) f by (auto simp: put_fields_snoc slice_overwrite_other in_mem_def)
qed (simp add: put_fields_def)

text \<open>What a header holds at an offset is what the last field there says.\<close>

lemma put_fields_slice:
  assumes "in_mem m h 512" "fields_fit fs" "k < length fs" "fs ! k = (ofs, bs)" "ofs \<le> q" "q + n \<le> ofs + length bs"
    "list_all (\<lambda>(ofs, cs). q + n \<le> ofs \<or> ofs + length cs \<le> q) (drop (Suc k) fs)"
  shows "slice (h + q) n (put_fields h fs m) = take n (drop (q - ofs) bs)"
proof -
  let ?f = "take k fs" let ?g = "drop (Suc k) fs" let ?m = "put_fields h (?f @ [(ofs, bs)]) m"
  have fs: "fs = (?f @ [(ofs, bs)]) @ ?g" using id_take_nth_drop [OF assms(3)] assms(4) by simp
  then have "fields_fit ((?f @ [(ofs, bs)]) @ ?g)" using assms(2) by simp
  then have f: "fields_fit ?f" "fields_fit ?g" "fields_fit (?f @ [(ofs, bs)])" "ofs + length bs \<le> 512"
    by (auto simp: fields_fit_def)
  have "slice (h + q) n (put_fields h ?g ?m) = slice (h + q) n ?m"
    using put_fields_other [of ?m h ?g q n] put_fields_in_mem [OF assms(1) f(3)] assms(1,7) f(2) by simp
  also have "\<dots> = take n (drop (q - ofs) bs)"
    using assms(1,5,6) f(1,4) by (simp add: put_fields_snoc slice_def overwrite_def in_mem_def)
  finally show ?thesis using put_fields_append [of h "?f @ [(ofs, bs)]" ?g m] fs by simp
qed

text \<open>The fields that \<^verbatim>\<open>ustar_make_header\<close> writes before the checksum.\<close>

definition header_fields :: "byte list \<Rightarrow> byte list \<Rightarrow> byte list \<Rightarrow> byte list \<Rightarrow> ustar_type \<Rightarrow> (nat \<times> byte list) list" where
  "header_fields nm mode sz mtime ty = [(0, replicate 512 0), (0, nm @ [0]), (100, mode @ [0]), (108, [48, 48, 48, 48, 48, 48, 48, 0]),
     (116, [48, 48, 48, 48, 48, 48, 48, 0]), (124, sz @ [0]), (136, mtime @ [0]), (156, [type_byte ty]), (257, [117, 115, 116, 97, 114, 0]),
     (264, [48]), (263, [48]), (297, [114, 111, 111, 116, 0]), (265, [114, 111, 111, 116, 0])]"

lemma text_strlcpy_lit:
  "in_mem m p (Suc (length cs)) \<Longrightarrow> length cs < n \<Longrightarrow> text_strlcpy p (Lit cs) n m = Some (overwrite m p (cs @ [0]))"
  using store_eq [of m p "cs @ [0]"] by (simp add: text_strlcpy_def)

lemma text_strlcpy_eq:
  assumes "text_at m t s" "in_mem m p n" "length s < n" "\<And>q. t = Ptr q \<Longrightarrow> p + n \<le> q \<or> q + length s < p"
  shows "text_strlcpy p t n m = Some (overwrite m p (s @ [0]))"
proof (cases t)
  case (Ptr q)
  then show ?thesis using strlcpy_effect [of m q s p n] assms by (simp add: text_strlcpy_def text_at_def)
next
  case (Lit l)
  then show ?thesis using text_strlcpy_lit [of m p l n] assms by (simp add: text_at_def in_mem_def)
qed

text \<open>Each write of a literal or an octal number to a header adds a field.\<close>

lemma put_field_lit:
  "in_mem m h 512 \<Longrightarrow> fields_fit fs \<Longrightarrow> ofs + Suc (length cs) \<le> 512 \<Longrightarrow> length cs < n \<Longrightarrow>
    text_strlcpy (h + ofs) (Lit cs) n (put_fields h fs m) = Some (put_fields h (fs @ [(ofs, cs @ [0])]) m)"
  using text_strlcpy_lit [of "put_fields h fs m" "h + ofs" cs n] by (simp add: put_fields_in_mem put_fields_snoc in_mem_def)

lemma put_field_byte:
  "in_mem m h 512 \<Longrightarrow> fields_fit fs \<Longrightarrow> ofs < 512 \<Longrightarrow>
    st (put_fields h fs m) (h + ofs) v = Some (put_fields h (fs @ [(ofs, [v])]) m)"
  using st_overwrite [of "put_fields h fs m" "h + ofs" v] by (simp add: put_fields_in_mem put_fields_snoc in_mem_def)

lemma put_field_commuted:
  "in_mem m h 512 \<Longrightarrow> fields_fit fs \<Longrightarrow> ofs < 512 \<Longrightarrow>
    st (put_fields h fs m) (ofs + h) v = Some (put_fields h (fs @ [(ofs, [v])]) m)"
  using put_field_byte [of m h fs ofs v] by (simp add: add.commute)

lemma put_field_octal:
  assumes "in_mem m h 512" "fields_fit fs" "ofs + Suc n \<le> 512" "octal_format fmt n" "unat w < 8 ^ n" "0 < n" "n \<le> 22"
  shows "\<exists>cs. put_octal (h + ofs) (Suc n) fmt w (put_fields h fs m) = Some (put_fields h (fs @ [(ofs, cs @ [0])]) m) \<and> length cs = n \<and>
    list_all isoctal cs \<and> oct_value 0 cs = unat w"
proof -
  have "in_mem (put_fields h fs m) (h + ofs) (Suc n)" using assms(1-3) by (simp add: in_mem_def)
  from put_octal_eq [OF assms(4-7) this] obtain cs where "put_octal (h + ofs) (Suc n) fmt w (put_fields h fs m) =
      Some (overwrite (put_fields h fs m) (h + ofs) (cs @ [0]))" "length cs = n" "list_all isoctal cs" "place_value 8 cs = int (unat w)"
    by blast
  then show ?thesis using place_value_octal [of cs] by (auto simp: put_fields_snoc simp del: of_nat_unat)
qed

lemma calculate_chksum_total:
  assumes "in_mem m h 512"
  shows "\<exists>c. calculate_chksum h m = Some c \<and> unat c < 8 ^ 7"
proof -
  obtain c where c: "chksum_loop h 0 512 0 m = Some c" using chksum_loop_total [of m h 0 512 0] assms by auto
  then show ?thesis using chksum_loop_bound [OF c] by (auto simp: calculate_chksum_def USTAR_HEADER_SIZE_def)
qed

lemma make_header_name:
  assumes "str_at m p s" "length (strip_name s) \<le> 99" "in_mem m h 512" "p + length s < h \<or> h + 512 \<le> p"
    "ty = USTAR_REGULAR \<or> ty = USTAR_DIRECTORY"
  shows "\<exists>t. strip_antisocial_prefixes p m = Some t \<and> text_len t m = Some (length (strip_name s)) \<and>
    memset h 0 512 m = Some (h, put_fields h [(0, replicate 512 0)] m) \<and>
    text_strlcpy (h + 0) t 100 (put_fields h [(0, replicate 512 0)] m) =
      Some (put_fields h [(0, replicate 512 0), (0, strip_name s @ [0])] m)"
proof -
  obtain t where t: "strip_antisocial_prefixes p m = Some t" "text_at m t (strip_name s)"
    "\<And>q. t = Ptr q \<Longrightarrow> p \<le> q \<and> q + length (strip_name s) = p + length s"
    using strip_eq [OF assms(1)] by blast
  let ?m = "overwrite m h (replicate 512 0)"
  have apart: "q + length (strip_name s) < h \<or> h + 512 \<le> q" if "t = Ptr q" for q using t(3) [OF that] assms(4) by auto
  have "text_at ?m t (strip_name s)"
    using t(2) apart assms(3) by (cases t) (auto simp: text_at_def intro: str_at_overwrite_other)
  moreover have "in_mem ?m h 100" using assms(3) by (simp add: in_mem_def)
  ultimately have "text_strlcpy h t 100 ?m = Some (overwrite ?m h (strip_name s @ [0]))"
    by (rule text_strlcpy_eq) (use assms(2) apart in \<open>auto dest: apart\<close>)
  moreover have "text_len t m = Some (length (strip_name s))"
    using t(2) by (cases t) (auto simp: text_len_def text_at_def strlen_spec)
  ultimately show ?thesis using t(1) memset_spec [OF assms(3), of 0] by (simp add: put_fields_def)
qed

lemma make_header_eq:
  assumes "str_at m p s" "length (strip_name s) \<le> 99" "in_mem m h 512" "p + length s < h \<or> h + 512 \<le> p"
    "ty = USTAR_REGULAR \<or> ty = USTAR_DIRECTORY" "0 \<le> n" "n \<le> INT_MAX"
  shows "\<exists>mode sz mtime ck c. ustar_make_header p ty n h m =
      Some (True, put_fields h (header_fields (strip_name s) mode sz mtime ty @ [(148, ck @ [0])]) m) \<and>
    length mode = 7 \<and> length sz = 11 \<and> length mtime = 11 \<and> length ck = 7 \<and> list_all isoctal sz \<and> list_all isoctal ck \<and>
    oct_value 0 sz = nat n \<and> oct_value 0 ck = unat c \<and>
    calculate_chksum h (put_fields h (header_fields (strip_name s) mode sz mtime ty) m) = Some c"
proof -
  let ?f0 = "[(0, replicate 512 0), (0, strip_name s @ [0])] :: (nat \<times> byte list) list"
  let ?z = "[48, 48, 48, 48, 48, 48, 48] :: byte list"
  obtain t where t: "strip_antisocial_prefixes p m = Some t" "text_len t m = Some (length (strip_name s))"
    "memset h 0 512 m = Some (h, put_fields h [(0, replicate 512 0)] m)"
    "text_strlcpy (h + 0) t 100 (put_fields h [(0, replicate 512 0)] m) = Some (put_fields h ?f0 m)"
    using make_header_name [OF assms(1-5)] by blast
  have f0: "fields_fit ?f0" using assms(2) by (simp add: fields_fit_def)
  have "unat (if ty = USTAR_REGULAR then 0x1A4 else 0x1ED :: u32) < 8 ^ 7" by simp
  from put_field_octal [OF assms(3) f0 _ octal_formats(1) this, of 100] obtain mode where
    mode: "put_octal (h + 100) 8 fmt_07o (if ty = USTAR_REGULAR then 0x1A4 else 0x1ED) (put_fields h ?f0 m) =
      Some (put_fields h (?f0 @ [(100, mode @ [0])]) m)" "length mode = 7" by auto
  let ?f1 = "?f0 @ [(100, mode @ [0]), (108, ?z @ [0]), (116, ?z @ [0])]"
  have f1: "fields_fit ?f1" using f0 mode(2) by (simp add: fields_fit_def)
  have n: "unat (of_int n :: u32) = nat n" using assms(6,7) by (simp add: unat_eq_nat_uint uint_word_of_int_eq take_bit_int_eq_self INT_MAX_def)
  then have "unat (of_int n :: u32) < 8 ^ 11" using assms(7) by (simp add: INT_MAX_def)
  from put_field_octal [OF assms(3) f1 _ octal_formats(2) this, of 124] obtain sz where
    sz: "put_octal (h + 124) 12 fmt_011o (of_int n) (put_fields h ?f1 m) = Some (put_fields h (?f1 @ [(124, sz @ [0])]) m)"
      "length sz = 11" "list_all isoctal sz" "oct_value 0 sz = nat n" using n by auto
  let ?f2 = "?f1 @ [(124, sz @ [0])]"
  have f2: "fields_fit ?f2" using f1 sz(2) by (simp add: fields_fit_def)
  have "unat (1136102400 :: u32) < 8 ^ 11" by simp
  from put_field_octal [OF assms(3) f2 _ octal_formats(2) this, of 136] obtain mtime where
    mtime: "put_octal (h + 136) 12 fmt_011o 1136102400 (put_fields h ?f2 m) = Some (put_fields h (?f2 @ [(136, mtime @ [0])]) m)"
      "length mtime = 11" by auto
  let ?f3 = "header_fields (strip_name s) mode sz mtime ty"
  have f3: "fields_fit ?f3" using f2 mtime(2) assms(2) by (simp add: fields_fit_def header_fields_def)
  obtain c where c: "calculate_chksum h (put_fields h ?f3 m) = Some c" "unat c < 8 ^ 7"
    using calculate_chksum_total put_fields_in_mem [OF assms(3) f3] assms(3) by blast
  from put_field_octal [OF assms(3) f3 _ octal_formats(1) c(2), of 148] obtain ck where
    ck: "put_octal (h + 148) 8 fmt_07o c (put_fields h ?f3 m) = Some (put_fields h (?f3 @ [(148, ck @ [0])]) m)"
      "length ck = 7" "list_all isoctal ck" "oct_value 0 ck = unat c" by auto
  have "ustar_make_header p ty n h m = Some (True, put_fields h (?f3 @ [(148, ck @ [0])]) m)"
    using t mode(1) sz(1) mtime(1) c(1) ck(1) assms(2,3,5) mode(2) sz(2) mtime(2)
    by (simp add: ustar_make_header_def put_field_lit put_field_byte put_field_commuted fields_fit_def offsets USTAR_HEADER_SIZE_def header_fields_def add.assoc)
  then show ?thesis using mode(2) sz mtime(2) ck c(1) by blast
qed

text \<open>What the parser finds in such a header.\<close>

lemma ld_field: "in_mem m h 512 \<Longrightarrow> ofs < 512 \<Longrightarrow> slice (h + ofs) 1 m = [c] \<Longrightarrow> ld m (h + ofs) = Some c"
  by (auto simp: slice_Suc in_mem_def ld_def)

lemma parse_header_ok:
  assumes m: "in_mem m h 512"
    and magic: "slice (h + 257) 6 m = [117, 115, 116, 97, 114, 0]" "slice (h + 263) 1 m = [48]" "slice (h + 264) 1 m = [48]"
    and ck: "slice (h + 148) 8 m = ck @ [0]" "length ck = 7" "list_all isoctal ck" "calculate_chksum h m = Some c" "oct_value 0 ck = unat c"
    and name: "str_at m h s" "slice (h + 99) 1 m = [0]" "slice (h + 345) 1 m = [0]"
    and ty: "slice (h + 156) 1 m = [type_byte ty]" "ty = USTAR_REGULAR \<or> ty = USTAR_DIRECTORY"
    and sz: "slice (h + 124) 12 m = sz @ [0]" "length sz = 11" "list_all isoctal sz" "oct_value 0 sz = nat n" "0 \<le> n" "n \<le> INT_MAX"
    and t: "strip_antisocial_prefixes h m = Some t"
  shows "ustar_parse_header h m = Some (Inr (Some t, ty, if ty = USTAR_REGULAR then n else 0))"
proof -
  have c1: "ld m (h + 257) = Some 117"
    using slice_Suc [of "h + 257" m 5] magic(1) m by (auto simp: in_mem_def ld_def)
  have z: "is_all_zeros h 512 m = Some False"
    using is_all_zeros_nonzero [of m h 512 257] m c1 by (auto simp: ld_def split: if_splits)
  have "in_mem m (h + 257) 6" using m by (simp add: in_mem_def)
  then have mg: "prefix_at [117, 115, 116, 97, 114, 0] (h + 257) m = Some True"
    by (rule prefix_at_n [OF _ magic(1)]) simp
  have l: "ld m (h + 263) = Some 48" "ld m (h + 264) = Some 48" "ld m (264 + h) = Some 48" "ld m (h + 99) = Some 0" "ld m (h + 345) = Some 0"
    "ld m (h + 156) = Some (type_byte ty)"
    using ld_field [OF m, of 263] ld_field [OF m, of 264] ld_field [OF m, of 99] ld_field [OF m, of 345] ld_field [OF m, of 156] magic name ty
    by (simp_all add: add.commute)
  have b: "unat (0 :: u32) = 0" "oct_value 0 ck < 2 ^ 32" "oct_value 0 sz < 2 ^ 32"
    using unsigned_less [where ?'a = nat, of c] ck(5) sz(4-6) by (auto simp: INT_MAX_def)
  have pc: "parse_octal_field (h + 148) 8 m = Some (True, c)"
    using parse_octal_loop_eq [of ck 8 0 m "h + 148" 0] ck b m by (simp add: parse_octal_field_def in_mem_def)
  have ps: "parse_octal_field (h + 124) 12 m = Some (True, of_nat (nat n))"
    using parse_octal_loop_eq [of sz 12 0 m "h + 124" 0] sz b m by (simp add: parse_octal_field_def in_mem_def)
  have n: "unat (of_nat (nat n) :: u32) = nat n" using sz(5,6) by (simp add: unat_eq_nat_uint uint_word_of_int_eq take_bit_int_eq_self INT_MAX_def)
  then have "parse_size h (type_byte ty) m = Some (Inr (if ty = USTAR_REGULAR then of_nat (nat n) else 0))"
    using ty(2) ps sz(5,6) by (auto simp: parse_size_def offsets simp del: of_nat_unat)
  then show ?thesis using z mg l pc ck(4) ty(2) t n sz(5)
    by (auto simp: ustar_parse_header_def USTAR_HEADER_SIZE_def offsets add.assoc simp del: of_nat_unat prefix_at.simps)
qed

lemma calculate_chksum_put:
  assumes "in_mem m h 512" "length ck = 8"
  shows "calculate_chksum h (overwrite m (h + 148) ck) = calculate_chksum h m"
  unfolding calculate_chksum_def USTAR_HEADER_SIZE_def
  by (rule chksum_loop_cong) (use assms in \<open>auto simp: in_mem_def ld_def nth_overwrite offsets\<close>)

text \<open>A memory with a complete header at an address.\<close>

definition header_at :: "cmem \<Rightarrow> nat \<Rightarrow> byte list \<Rightarrow> ustar_type \<Rightarrow> int \<Rightarrow> bool" where
  "header_at m h s ty n \<longleftrightarrow> in_mem m h 512 \<and> slice (h + 257) 6 m = [117, 115, 116, 97, 114, 0] \<and> slice (h + 263) 1 m = [48] \<and>
     slice (h + 264) 1 m = [48] \<and> slice (h + 0) (length s + 1) m = s @ [0] \<and> 0 \<notin> set s \<and> length s \<le> 99 \<and>
     slice (h + 99) 1 m = [0] \<and> slice (h + 345) 1 m = [0] \<and> slice (h + 156) 1 m = [type_byte ty] \<and>
     (\<exists>ck c. slice (h + 148) 8 m = ck @ [0] \<and> length ck = 7 \<and> list_all isoctal ck \<and> calculate_chksum h m = Some c \<and> oct_value 0 ck = unat c) \<and>
     (\<exists>sz. slice (h + 124) 12 m = sz @ [0] \<and> length sz = 11 \<and> list_all isoctal sz \<and> oct_value 0 sz = nat n)"

lemma header_at_name: "header_at m h s ty n \<Longrightarrow> str_at m h s"
  by (auto simp: header_at_def str_at_slice in_mem_def)

lemma header_at_parse:
  assumes "header_at m h (strip_name s) ty n" "ty = USTAR_REGULAR \<or> ty = USTAR_DIRECTORY" "0 \<le> n" "n \<le> INT_MAX"
  shows "ustar_parse_header h m = Some (Inr (Some (Ptr h), ty, if ty = USTAR_REGULAR then n else 0))"
proof -
  note nm = header_at_name [OF assms(1)]
  obtain ck c sz where hd: "slice (h + 148) 8 m = ck @ [0]" "length ck = 7" "list_all isoctal ck" "calculate_chksum h m = Some c" "oct_value 0 ck = unat c"
    "slice (h + 124) 12 m = sz @ [0]" "length sz = 11" "list_all isoctal sz" "oct_value 0 sz = nat n"
    using assms(1) unfolding header_at_def by blast
  show ?thesis by (rule parse_header_ok [where ck = ck and c = c and sz = sz and s = "strip_name s"])
    (use assms hd nm strip_clean [OF nm] in \<open>auto simp: header_at_def\<close>)
qed

lemma header_at_copy:
  assumes "header_at m h s ty n" "in_mem m' h 512" "\<And>q k. q + k \<le> 512 \<Longrightarrow> slice (h + q) k m' = slice (h + q) k m"
  shows "header_at m' h s ty n"
proof -
  have "ld m' (h + j) = ld m (h + j)" if "j < 512" for j
    using assms(3) [of j 1] assms(1,2) that by (auto simp: header_at_def in_mem_def ld_def slice_Suc)
  moreover have "ld m (h + j) \<noteq> None" if "j < 512" for j using assms(1) that by (auto simp: header_at_def in_mem_def ld_def)
  ultimately have "calculate_chksum h m' = calculate_chksum h m"
    unfolding calculate_chksum_def USTAR_HEADER_SIZE_def by (intro chksum_loop_cong) auto
  moreover have "length s \<le> 99" using assms(1) by (simp add: header_at_def)
  ultimately show ?thesis using assms(1,2) assms(3) [of 0 "length s + 1"] assms(3) [of 257 6] assms(3) [of 263 1] assms(3) [of 264 1]
    assms(3) [of 99 1] assms(3) [of 345 1] assms(3) [of 156 1] assms(3) [of 148 8] assms(3) [of 124 12]
    unfolding header_at_def by simp
qed

lemma make_header_at:
  assumes "str_at m p s" "length (strip_name s) \<le> 99" "in_mem m h 512" "p + length s < h \<or> h + 512 \<le> p"
    "ty = USTAR_REGULAR \<or> ty = USTAR_DIRECTORY" "0 \<le> n" "n \<le> INT_MAX"
  shows "\<exists>m'. ustar_make_header p ty n h m = Some (True, m') \<and> length m' = length m \<and> header_at m' h (strip_name s) ty n"
proof -
  obtain mode sz mtime ck c where mk: "ustar_make_header p ty n h m =
      Some (True, put_fields h (header_fields (strip_name s) mode sz mtime ty @ [(148, ck @ [0])]) m)"
    "length mode = 7" "length sz = 11" "length mtime = 11" "length ck = 7" "list_all isoctal sz" "list_all isoctal ck"
    "oct_value 0 sz = nat n" "oct_value 0 ck = unat c"
    "calculate_chksum h (put_fields h (header_fields (strip_name s) mode sz mtime ty) m) = Some c"
    using make_header_eq [OF assms] by blast
  let ?hf = "header_fields (strip_name s) mode sz mtime ty" let ?fs = "?hf @ [(148, ck @ [0])]" let ?m = "put_fields h ?fs m"
  have fit: "fields_fit ?hf" "fields_fit ?fs" using mk(2-5) assms(2) by (simp_all add: fields_fit_def header_fields_def)
  have mem: "in_mem ?m h 512" "in_mem (put_fields h ?hf m) h 512" using put_fields_in_mem [OF assms(3)] fit assms(3) by auto
  note fields = put_fields_slice [OF assms(3) fit(2)]
  have sl: "slice (h + 257) 6 ?m = [117, 115, 116, 97, 114, 0]" "slice (h + 263) 1 ?m = [48]" "slice (h + 264) 1 ?m = [48]"
    "slice (h + 148) 8 ?m = ck @ [0]" "slice (h + 124) 12 ?m = sz @ [0]" "slice (h + 156) 1 ?m = [type_byte ty]"
    using fields [of 8 257 _ 257 6] fields [of 10 263 _ 263 1] fields [of 9 264 _ 264 1] fields [of 13 148 _ 148 8]
      fields [of 5 124 _ 124 12] fields [of 7 156 _ 156 1] mk(2-5)
    by (simp_all add: header_fields_def)
  have sn: "slice (h + 0) (length (strip_name s) + 1) ?m = strip_name s @ [0]"
    using fields [of 1 0 _ 0 "length (strip_name s) + 1"] assms(2) by (simp add: header_fields_def)
  have s99: "slice (h + 99) 1 ?m = [0]"
    using fields [of 0 0 _ 99 1] fields [of 1 0 _ 99 1] assms(2) by (cases "length (strip_name s) = 99") (simp_all add: header_fields_def)
  have s345: "slice (h + 345) 1 ?m = [0]" using fields [of 0 0 _ 345 1] assms(2) mk(2-5) by (simp add: header_fields_def)
  have "0 \<notin> set (strip_name s)" using str_at_no_NUL [OF assms(1)] strip_name_set [of s] by auto
  moreover have "?m = overwrite (put_fields h ?hf m) (h + 148) (ck @ [0])" by (rule put_fields_snoc)
  then have "calculate_chksum h ?m = Some c" using calculate_chksum_put [OF mem(2), of "ck @ [0]"] mk(5,10) by simp
  ultimately have "header_at ?m h (strip_name s) ty n"
    using mem(1) sl sn s99 s345 mk(3,5-9) assms(2) unfolding header_at_def by blast
  moreover have "length ?m = length m" by (rule length_put_fields [OF assms(3) fit(2)])
  ultimately show ?thesis using mk(1) by blast
qed

text \<open>C13: A header that \<^verbatim>\<open>ustar_make_header\<close> makes is one that \<^verbatim>\<open>ustar_parse_header\<close> accepts, and the parser gives back the type, the
  size of a regular file, and the name without its antisocial prefixes.
\<close>

theorem ustar_header_roundtrip:
  assumes "str_at m p s" "length (strip_name s) \<le> 99" "in_mem m h 512" "p + length s < h \<or> h + 512 \<le> p"
    "ty = USTAR_REGULAR \<or> ty = USTAR_DIRECTORY" "0 \<le> n" "n \<le> INT_MAX"
  shows "\<exists>m'. ustar_make_header p ty n h m = Some (True, m') \<and>
    ustar_parse_header h m' = Some (Inr (Some (Ptr h), ty, if ty = USTAR_REGULAR then n else 0)) \<and> str_at m' h (strip_name s)"
  using make_header_at [OF assms] header_at_parse header_at_name assms(5-7) by blast

theorem ustar_header_roundtrip_witness:
  "\<exists>m'. ustar_make_header 1 USTAR_REGULAR 1234 6 ([0, 46, 46, 47, 97, 0] @ replicate 512 1) = Some (True, m') \<and>
    ustar_parse_header 6 m' = Some (Inr (Some (Ptr 6), USTAR_REGULAR, 1234)) \<and> str_at m' 6 [97]"
proof -
  have s: "strip_name [46, 46, 47, 97] = [97]"
    by (simp add: strip_name_def strip_str.simps [of "[46, 46, 47, 97]"] strip_str.simps [of "[97]"] bad_prefix_def)
  have "str_at ([0, 46, 46, 47, 97, 0] @ replicate 512 1) 1 [46, 46, 47, 97]" by (simp add: ld_def)
  moreover have "in_mem ([0, 46, 46, 47, 97, 0] @ replicate 512 1) 6 512" by (simp add: in_mem_def)
  ultimately show ?thesis
    using ustar_header_roundtrip [of "[0, 46, 46, 47, 97, 0] @ replicate 512 1" 1 "[46, 46, 47, 97]" 6 USTAR_REGULAR 1234] s
    by (simp add: INT_MAX_def)
qed

end
