(* ===== verification/Fsutil.thy ===== *)
theory Fsutil
  imports Exec_Load Ustar
begin

text \<open>
  The file system utilities of \<^verbatim>\<open>filesys/fsutil.c\<close>: listing, printing and deleting files, and copying files to and from a ustar archive
  on the scratch device. What a utility prints is part of its result: the names of a listing, the arguments of the calls of \<^verbatim>\<open>hex_dump\<close>.
  \<open>junk\<close> is what the uninitialised arrays on the stack hold, and \<open>mem_ok\<close> says whether \<^verbatim>\<open>malloc\<close> succeeds.
\<close>

section \<open>State\<close>

text \<open>\<open>extract_sector\<close> and \<open>append_sector\<close> are the two static variables called \<^verbatim>\<open>sector\<close>.\<close>

record util =
  ufs :: fs
  ucwd :: "dir option"
  scratch :: "block option"
  extract_sector :: sector
  append_sector :: sector

section \<open>Listing, printing, deleting\<close>

partial_function (option) ls_loop :: "dir \<Rightarrow> fs \<Rightarrow> (byte list list \<times> dir \<times> fs) option" where
  "ls_loop d f = do {
     (name, d, f) \<leftarrow> dir_readdir d f;
     case name of None \<Rightarrow> Some ([], d, f)
     | Some n \<Rightarrow> do { (ns, d, f) \<leftarrow> ls_loop d f; Some (n # ns, d, f) } }"

definition fsutil_ls :: "util \<Rightarrow> (byte list list \<times> util) option" where
  "fsutil_ls u = do {
     (d, f) \<leftarrow> dir_open_root (ufs u);
     d \<leftarrow> d;
     (ns, d, f) \<leftarrow> ls_loop d f;
     f \<leftarrow> dir_close (Some d) f;
     Some (ns, u\<lparr>ufs := f\<rparr>) }"

partial_function (option) cat_loop :: "nat \<Rightarrow> fs \<Rightarrow> ((u32 \<times> byte list) list \<times> fs) option" where
  "cat_loop fp f = do {
     pos \<leftarrow> file_tell fp f;
     (bs, f) \<leftarrow> file_read fp 4096 f;
     if bs = [] then Some ([], f)
     else do { (ds, f) \<leftarrow> cat_loop fp f; Some ((pos, bs) # ds, f) } }"

text \<open>A directory that is used as a file is undefined.\<close>

definition opened_file :: "fhandle option \<Rightarrow> nat option" where
  "opened_file h = (case h of Some (FileH fp) \<Rightarrow> Some fp | _ \<Rightarrow> None)"

definition fsutil_cat :: "byte list \<Rightarrow> bool \<Rightarrow> byte list \<Rightarrow> util \<Rightarrow> ((u32 \<times> byte list) list \<times> util) option" where
  "fsutil_cat junk page_ok file_name u = do {
     (h, cwd, f) \<leftarrow> filesys_open junk file_name (ucwd u) (ufs u);
     fp \<leftarrow> opened_file h;
     ASSERT page_ok;
     (ds, f) \<leftarrow> cat_loop fp f;
     f \<leftarrow> file_close (Some fp) f;
     Some (ds, u\<lparr>ufs := f, ucwd := cwd\<rparr>) }"

definition fsutil_rm :: "byte list \<Rightarrow> byte list \<Rightarrow> util \<Rightarrow> util option" where
  "fsutil_rm junk file_name u = do {
     (ok, cwd, f) \<leftarrow> filesys_remove junk file_name (ucwd u) (ufs u);
     ASSERT ok;
     Some (u\<lparr>ufs := f, ucwd := cwd\<rparr>) }"

section \<open>Extracting an archive\<close>

definition copy_size :: "int \<Rightarrow> int" where
  "copy_size sz = (if sz > int BLOCK_SECTOR_SIZE then int BLOCK_SECTOR_SIZE else sz)"

definition extract_read :: "util \<Rightarrow> (byte list \<times> util) option" where
  "extract_read u = do {
     src \<leftarrow> scratch u;
     (bs, src) \<leftarrow> block_read src (extract_sector u);
     Some (bs, u\<lparr>scratch := Some src, extract_sector := extract_sector u + 1\<rparr>) }"

function extract_copy :: "nat \<Rightarrow> int \<Rightarrow> util \<Rightarrow> util option" where
  "extract_copy dst sz u =
     (if sz > 0 then do {
        (bs, u) \<leftarrow> extract_read u;
        (n, f) \<leftarrow> file_write dst bs (of_int (copy_size sz)) (ufs u);
        ASSERT (n = of_int (copy_size sz));
        extract_copy dst (sz - copy_size sz) (u\<lparr>ufs := f\<rparr>) }
      else Some u)"
  by auto
termination by (relation "measure (\<lambda>(_, sz, _). nat sz)") (auto simp: copy_size_def BLOCK_SECTOR_SIZE_def)

declare extract_copy.simps [simp del]

text \<open>The name of the file in a header that was read to address 1.\<close>

definition text_string :: "c_text \<Rightarrow> cmem \<Rightarrow> byte list option" where
  "text_string t m = (case t of Lit s \<Rightarrow> Some s | Ptr p \<Rightarrow> c_string (drop p m))"

definition extract_file :: "byte list \<Rightarrow> byte list \<Rightarrow> int \<Rightarrow> util \<Rightarrow> util option" where
  "extract_file junk file_name sz u = do {
     (ok, cwd, f) \<leftarrow> filesys_create junk file_name (of_int sz) False (ucwd u) (ufs u);
     ASSERT ok;
     (h, cwd, f) \<leftarrow> filesys_open junk file_name cwd f;
     dst \<leftarrow> opened_file h;
     u \<leftarrow> extract_copy dst sz (u\<lparr>ufs := f, ucwd := cwd\<rparr>);
     f \<leftarrow> file_close (Some dst) (ufs u);
     Some (u\<lparr>ufs := f\<rparr>) }"

partial_function (option) extract_loop :: "byte list \<Rightarrow> util \<Rightarrow> util option" where
  "extract_loop junk u = do {
     (header, u) \<leftarrow> extract_read u;
     r \<leftarrow> ustar_parse_header 1 (0 # header);
     case r of Inl e \<Rightarrow> None
     | Inr (t, type, sz) \<Rightarrow>
         if type = USTAR_EOF then Some u
         else if type = USTAR_DIRECTORY then extract_loop junk u
         else do {
           t \<leftarrow> t;
           file_name \<leftarrow> text_string t (0 # header);
           u \<leftarrow> extract_file junk file_name sz u;
           extract_loop junk u } }"

definition fsutil_extract :: "byte list \<Rightarrow> bool \<Rightarrow> util \<Rightarrow> util option" where
  "fsutil_extract junk mem_ok u = do {
     ASSERT mem_ok;
     _ \<leftarrow> scratch u;
     u \<leftarrow> extract_loop junk u;
     src \<leftarrow> scratch u;
     src \<leftarrow> block_write src 0 (replicate BLOCK_SECTOR_SIZE 0);
     src \<leftarrow> block_write src 1 (replicate BLOCK_SECTOR_SIZE 0);
     Some (u\<lparr>scratch := Some src\<rparr>) }"

section \<open>Appending to an archive\<close>

text \<open>\<open>buffer\<close> is the allocated block, at address 1, \<open>past\<close> the byte after it; the name comes next.\<close>

definition append_header :: "byte list \<Rightarrow> int \<Rightarrow> byte list \<Rightarrow> byte \<Rightarrow> byte list option" where
  "append_header file_name sz buffer past = do {
     (ok, m) \<leftarrow> ustar_make_header 514 USTAR_REGULAR sz 1 ([0] @ buffer @ [past] @ file_name @ [0]);
     ASSERT ok;
     Some (slice 1 BLOCK_SECTOR_SIZE m) }"

definition append_write :: "byte list \<Rightarrow> util \<Rightarrow> util option" where
  "append_write bs u = do {
     dst \<leftarrow> scratch u;
     dst \<leftarrow> block_write dst (append_sector u) bs;
     Some (u\<lparr>scratch := Some dst, append_sector := append_sector u + 1\<rparr>) }"

function append_copy :: "nat \<Rightarrow> int \<Rightarrow> util \<Rightarrow> util option" where
  "append_copy src sz u =
     (if sz > 0 then do {
        dst \<leftarrow> scratch u;
        ASSERT (append_sector u < block_size dst);
        (bs, f) \<leftarrow> file_read src (of_int (copy_size sz)) (ufs u);
        ASSERT (int (length bs) = copy_size sz);
        u \<leftarrow> append_write (bs @ replicate (BLOCK_SECTOR_SIZE - nat (copy_size sz)) 0) (u\<lparr>ufs := f\<rparr>);
        append_copy src (sz - copy_size sz) u }
      else Some u)"
  by auto
termination by (relation "measure (\<lambda>(_, sz, _). nat sz)") (auto simp: copy_size_def BLOCK_SECTOR_SIZE_def)

declare append_copy.simps [simp del]

text \<open>The marker is written twice to the same sector, the second time from \<^verbatim>\<open>buffer + 1\<close>.\<close>

definition append_marker :: "byte \<Rightarrow> util \<Rightarrow> util option" where
  "append_marker past u = do {
     dst \<leftarrow> scratch u;
     dst \<leftarrow> block_write dst (append_sector u) (replicate BLOCK_SECTOR_SIZE 0);
     dst \<leftarrow> block_write dst (append_sector u) (replicate (BLOCK_SECTOR_SIZE - 1) 0 @ [past]);
     Some (u\<lparr>scratch := Some dst\<rparr>) }"

text \<open>From the opened source file on.\<close>

definition append_file :: "byte list \<Rightarrow> byte \<Rightarrow> byte list \<Rightarrow> nat \<Rightarrow> util \<Rightarrow> util option" where
  "append_file buffer past file_name src u = do {
     (len, f) \<leftarrow> file_length src (ufs u);
     _ \<leftarrow> scratch u;
     header \<leftarrow> append_header file_name (sint len) buffer past;
     u \<leftarrow> append_write header (u\<lparr>ufs := f\<rparr>);
     u \<leftarrow> append_copy src (sint len) u;
     u \<leftarrow> append_marker past u;
     f \<leftarrow> file_close (Some src) (ufs u);
     Some (u\<lparr>ufs := f\<rparr>) }"

definition fsutil_append :: "byte list \<Rightarrow> byte list option \<Rightarrow> byte \<Rightarrow> byte list \<Rightarrow> util \<Rightarrow> util option" where
  "fsutil_append junk buffer past file_name u = do {
     buffer \<leftarrow> buffer;
     (h, cwd, f) \<leftarrow> filesys_open junk file_name (ucwd u) (ufs u);
     src \<leftarrow> opened_file h;
     append_file buffer past file_name src (u\<lparr>ufs := f, ucwd := cwd\<rparr>) }"

section \<open>Reading a file to its end\<close>

text \<open>An open file that is not removed and that can be closed.\<close>

definition closable :: "nat \<Rightarrow> fs \<Rightarrow> bool" where
  "closable fp f \<longleftrightarrow> \<not> open_inodes_lock f \<and> (\<exists>x i. files f fp = Some x \<and> \<not> deny_write x \<and> inodes f (finode x) = Some i \<and> \<not> removed i)"

definition source :: "nat \<Rightarrow> byte list \<Rightarrow> nat \<Rightarrow> fs \<Rightarrow> bool" where
  "source fp fb pos f \<longleftrightarrow> open_at fp fb pos f \<and> closable fp f"

lemma closable_same: "closable fp f \<Longrightarrow> same_view f f' \<Longrightarrow> closable fp f'"
  using same_viewD [of f f'] by (auto simp: closable_def fs_rest_eq)

lemma source_file_read:
  assumes "source fp fb pos f" "pos + unat n < 2 ^ 31"
  shows "\<exists>f'. file_read fp n f = Some (slice pos (unat n) fb, f') \<and> source fp fb (pos + length (slice pos (unat n) fb)) f'"
proof -
  obtain f' where f': "file_read fp n f = Some (slice pos (unat n) fb, f')" "open_at fp fb (pos + length (slice pos (unat n) fb)) f'"
    using file_read_open [of fp fb pos f n] assms by (auto simp: source_def)
  obtain x i where x: "files f fp = Some x" "unat (fpos x) = pos" "inodes f (finode x) = Some i" "quiet i" "cache_ok f"
      "file_ok (blk_size (fs_device f)) (view f) (isector i)" "fb = file_bytes (view f) (isector i)"
    using assms(1) by (auto simp: open_at_def source_def)
  obtain f1 where f1: "inode_read_at (finode x) n (fpos x) f = Some (slice pos (unat n) fb, f1)" "same_view f f1"
    using inode_read_at_spec [OF x(3-6), of "fpos x" n] x(2,7) assms(2) by auto
  have "closable fp f1" using closable_same f1(2) assms(1) by (auto simp: source_def)
  then have "closable fp f'" using f'(1) f1 x(1,3) same_viewD [OF f1(2)] by (auto simp: file_read_def closable_def fs_rest_eq)
  then show ?thesis using f' by (simp add: source_def)
qed

lemma source_file_length:
  assumes "source fp fb pos f"
  shows "\<exists>n f'. file_length fp f = Some (n, f') \<and> unat n = length fb \<and> source fp fb pos f'"
proof -
  obtain x i where x: "files f fp = Some x" "inodes f (finode x) = Some i" "cache_ok f"
      "file_ok (blk_size (fs_device f)) (view f) (isector i)" "fb = file_bytes (view f) (isector i)"
    using assms(1) by (auto simp: open_at_def source_def)
  have "on_disk f (isector i)" using x(4) by (simp add: file_ok_def)
  from inode_length_spec [OF x(2,3) this] show ?thesis
    using x(1,5) open_same closable_same assms by (fastforce simp: file_length_def file_len_def source_def)
qed

lemma source_close: "source fp fb pos f \<Longrightarrow> \<exists>f'. file_close (Some fp) f = Some f'"
  by (auto simp: source_def open_at_def closable_def file_close_def file_allow_write_def inode_close_def writer_checkin_def upd_inode_def
      writer_checkout_def quiet_def Let_def)

text \<open>The pages of a file, each with its position.\<close>

function pages_from :: "nat \<Rightarrow> byte list \<Rightarrow> (u32 \<times> byte list) list" where
  "pages_from pos bs = (if bs = [] then [] else (of_nat pos, take 4096 bs) # pages_from (pos + 4096) (drop 4096 bs))"
  by auto
termination by (relation "measure (\<lambda>(_, bs). length bs)") auto

declare pages_from.simps [simp del]

lemma pages_from_contents: "concat (map snd (pages_from pos bs)) = bs"
proof (induction pos bs rule: pages_from.induct)
  case (1 pos bs)
  then show ?case using pages_from.simps [of pos bs] by (cases "bs = []") auto
qed

lemma cat_loop_eq:
  assumes "source fp fb pos f" "pos \<le> length fb"
  shows "\<exists>p f'. cat_loop fp f = Some (pages_from pos (drop pos fb), f') \<and> source fp fb p f'"
  using assms
proof (induction "length fb - pos" arbitrary: pos f rule: less_induct)
  case less
  have l: "length fb \<le> 2 ^ 23" using less.prems(1) open_length by (auto simp: source_def)
  have t: "file_tell fp f = Some (of_nat pos)"
    using less.prems(1) by (auto simp: source_def open_at_def file_tell_def)
  obtain f1 where f1: "file_read fp 4096 f = Some (slice pos 4096 fb, f1)" "source fp fb (pos + length (slice pos 4096 fb)) f1"
    using source_file_read [OF less.prems(1), of 4096] less.prems(2) l by auto
  show ?case
  proof (cases "pos = length fb")
    case True
    then have "slice pos 4096 fb = []" by (simp add: slice_def)
    then show ?thesis using t f1 True by (subst cat_loop.simps) (auto simp: pages_from.simps)
  next
    case False
    let ?q = "pos + length (slice pos 4096 fb)"
    have ne: "slice pos 4096 fb \<noteq> []" using False less.prems(2) by (auto simp: slice_def)
    then have "length fb - ?q < length fb - pos" using False less.prems(2) by (simp add: slice_def)
    moreover have "?q \<le> length fb" using less.prems(2) by simp
    ultimately obtain p f' where "cat_loop fp f1 = Some (pages_from ?q (drop ?q fb), f')" "source fp fb p f'"
      using less.hyps f1(2) by blast
    moreover have "pages_from pos (drop pos fb) = (of_nat pos, slice pos 4096 fb) # pages_from ?q (drop ?q fb)"
    proof -
      have "drop 4096 (drop pos fb) = drop ?q fb" using less.prems(2) by (cases "pos + 4096 \<le> length fb") (simp_all add: add.commute)
      moreover have "pages_from (pos + 4096) (drop ?q fb) = pages_from ?q (drop ?q fb)"
        using less.prems(2) by (cases "pos + 4096 \<le> length fb") (auto simp: pages_from.simps [of _ "[]"])
      ultimately show ?thesis using False less.prems(2) by (subst pages_from.simps) (simp add: slice_def)
    qed
    ultimately show ?thesis using t f1 ne by (subst cat_loop.simps) auto
  qed
qed

text \<open>Printing a file prints all of it, page by page, and returns.\<close>

theorem fsutil_cat_prints:
  assumes "filesys_open junk name (ucwd u) (ufs u) = Some (Some (FileH fp), cwd', f)" "source fp fb 0 f"
  shows "\<exists>ds u'. fsutil_cat junk True name u = Some (ds, u') \<and> ds = pages_from 0 fb \<and> concat (map snd ds) = fb"
proof -
  obtain p f' where "cat_loop fp f = Some (pages_from 0 fb, f')" "source fp fb p f'" using cat_loop_eq [OF assms(2)] by auto
  then show ?thesis using source_close [of fp fb p f'] assms(1) pages_from_contents [of 0 fb] by (auto simp: fsutil_cat_def opened_file_def)
qed

section \<open>What appending writes\<close>

text \<open>The sectors that hold some bytes, the last one padded with zeros.\<close>

function sectors_of :: "byte list \<Rightarrow> byte list list" where
  "sectors_of bs = (if bs = [] then [] else (take 512 bs @ replicate (512 - length bs) 0) # sectors_of (drop 512 bs))"
  by auto
termination by (relation "measure length") auto

declare sectors_of.simps [simp del]

lemma sectors_of_Nil [simp]: "sectors_of [] = []"
  by (simp add: sectors_of.simps)

lemma sectors_of_step: "bs \<noteq> [] \<Longrightarrow> sectors_of bs = (take 512 bs @ replicate (512 - length bs) 0) # sectors_of (drop 512 bs)"
  using sectors_of.simps [of bs] by simp

lemma sectors_of_length: "s \<in> set (sectors_of bs) \<Longrightarrow> length s = 512"
proof (induction bs rule: sectors_of.induct)
  case (1 bs)
  then show ?case using sectors_of_step [of bs] by (cases "bs = []") auto
qed

text \<open>Writing a sequence of sectors from the current one on.\<close>

definition appended :: "util \<Rightarrow> byte list list \<Rightarrow> util \<Rightarrow> bool" where
  "appended u ss u' \<longleftrightarrow> (\<exists>d d'. scratch u = Some d \<and> scratch u' = Some d' \<and> Block_Dev.block_ok d' \<and> blk_size d' = blk_size d \<and>
     media d' = overwrite (media d) (unat (append_sector u)) ss \<and> unat (append_sector u') = unat (append_sector u) + length ss)"

definition room :: "util \<Rightarrow> nat \<Rightarrow> bool" where
  "room u n \<longleftrightarrow> (\<exists>d. scratch u = Some d \<and> Block_Dev.block_ok d \<and> unat (append_sector u) + n \<le> unat (blk_size d))"

lemma overwrite_append: "p + length xs \<le> length m \<Longrightarrow> overwrite (overwrite m p xs) (p + length xs) ys = overwrite m p (xs @ ys)"
  by (simp add: overwrite_def add.commute add.left_commute)

lemma appended_trans: "room u (length ss) \<Longrightarrow> appended u ss v \<Longrightarrow> appended v ts w \<Longrightarrow> appended u (ss @ ts) w"
  by (auto simp: appended_def room_def overwrite_append Block_Dev.block_ok_def)

lemma room_appended: "room u (length ss + n) \<Longrightarrow> appended u ss v \<Longrightarrow> room v n"
  by (auto simp: appended_def room_def)

lemma append_write_eq:
  assumes "room u (Suc n)" "length bs = 512"
  shows "\<exists>u'. append_write bs u = Some u' \<and> appended u [bs] u' \<and> ufs u' = ufs u"
proof -
  obtain d where d: "scratch u = Some d" "Block_Dev.block_ok d" "unat (append_sector u) < unat (blk_size d)" using assms(1) by (auto simp: room_def)
  then have "block_write d (append_sector u) bs = Some (d\<lparr>media := (media d)[unat (append_sector u) := bs], block.write_cnt := block.write_cnt d + 1\<rparr>)"
    using block_write_ok by (simp add: word_less_nat_alt)
  moreover have "Block_Dev.block_ok (d\<lparr>media := (media d)[unat (append_sector u) := bs], block.write_cnt := block.write_cnt d + 1\<rparr>)"
    using block_ok_update [OF d(2)] assms(2) by (simp add: BLOCK_SECTOR_SIZE_def)
  moreover have "(media d)[unat (append_sector u) := bs] = overwrite (media d) (unat (append_sector u)) [bs]"
    using d by (simp add: overwrite_def upd_conv_take_nth_drop Block_Dev.block_ok_def)
  moreover have "unat (append_sector u + 1) = Suc (unat (append_sector u))"
    using d(3) unsigned_less [where ?'a = nat, of "blk_size d"] by (simp add: unat_word_ariths)
  ultimately show ?thesis using d(1) by (simp add: append_write_def appended_def)
qed

lemma append_copy_eq:
  assumes "source fp fb pos (ufs u)" "pos \<le> length fb" "room u (length (sectors_of (drop pos fb)))"
  shows "\<exists>u' p. append_copy fp (int (length fb - pos)) u = Some u' \<and> appended u (sectors_of (drop pos fb)) u' \<and> source fp fb p (ufs u')"
  using assms
proof (induction "length fb - pos" arbitrary: pos u rule: less_induct)
  case less
  show ?case
  proof (cases "pos = length fb")
    case True
    then show ?thesis using less.prems by (subst append_copy.simps) (auto simp: appended_def room_def)
  next
    case False
    define c where "c = min 512 (length fb - pos)"
    define bs where "bs = take 512 (drop pos fb)"
    have l: "length fb \<le> 2 ^ 23" using less.prems(1) open_length by (auto simp: source_def)
    have lb: "length bs = c" "length fb - (pos + c) < length fb - pos" "pos + c \<le> length fb"
      using False less.prems(2) by (auto simp: bs_def c_def)
    have c: "copy_size (int (length fb - pos)) = int c" "c \<le> 512" by (auto simp: copy_size_def BLOCK_SECTOR_SIZE_def c_def)
    have uc: "unat (of_int (int c) :: u32) = c" using c(2) by (simp add: unat_of_nat)
    have sl: "slice pos c fb = bs" by (simp add: slice_def min_def bs_def c_def)
    obtain f1 where f1: "file_read fp (of_int (int c)) (ufs u) = Some (bs, f1)" "source fp fb (pos + c) f1"
      using source_file_read [OF less.prems(1), of "of_int (int c)"] l lb unfolding uc sl by auto
    let ?bs = "bs @ replicate (512 - c) 0"
    have "drop 512 (drop pos fb) = drop (pos + c) fb" by (auto simp: c_def min_def add.commute)
    moreover have "512 - length (drop pos fb) = 512 - c" by (simp add: c_def)
    ultimately have ss: "sectors_of (drop pos fb) = ?bs # sectors_of (drop (pos + c) fb)"
      using False less.prems(2) sectors_of_step [of "drop pos fb"] by (simp add: bs_def)
    have rm: "room u (Suc (length (sectors_of (drop (pos + c) fb))))" using less.prems(3) ss by simp
    then obtain u1 where u1: "append_write ?bs (u\<lparr>ufs := f1\<rparr>) = Some u1" "appended (u\<lparr>ufs := f1\<rparr>) [?bs] u1" "ufs u1 = f1"
      using append_write_eq [of "u\<lparr>ufs := f1\<rparr>" _ ?bs] lb(1) c(2) by (auto simp: room_def)
    have a1: "appended u [?bs] u1" using u1(2) by (simp add: appended_def)
    have "room u1 (length (sectors_of (drop (pos + c) fb)))" using room_appended [OF _ a1] rm by simp
    then obtain u' p where u': "append_copy fp (int (length fb - (pos + c))) u1 = Some u'" "appended u1 (sectors_of (drop (pos + c) fb)) u'"
        "source fp fb p (ufs u')"
      using less.hyps [of "pos + c" u1] f1(2) u1(3) lb by auto
    have "room u (length [?bs])" using rm by (auto simp: room_def)
    then have "appended u (sectors_of (drop pos fb)) u'" using appended_trans [OF _ a1 u'(2)] ss by simp
    moreover obtain d where d: "scratch u = Some d" "append_sector u < block_size d"
      using rm by (auto simp: room_def block_size_def word_less_nat_alt)
    moreover have "int (length fb - pos) - int c = int (length fb - (pos + c))" using lb by simp
    moreover have "0 < int (length fb - pos)" using False less.prems(2) by simp
    ultimately show ?thesis using f1 u1(1) u'(1,3) c(1) lb(1)
      by (subst append_copy.simps) (auto simp: BLOCK_SECTOR_SIZE_def simp del: of_nat_diff)
  qed
qed

lemma append_header_eq:
  assumes "0 \<notin> set name" "length (strip_name name) \<le> 99" "length buffer = 512" "0 \<le> n" "n \<le> INT_MAX"
  shows "\<exists>hd. append_header name n buffer past = Some hd \<and> length hd = 512 \<and>
    header_at (0 # hd) 1 (strip_name name) USTAR_REGULAR n"
proof -
  let ?m = "[0] @ buffer @ [past] @ name @ [0]"
  have "slice 514 (length name + 1) ?m = name @ [0]" using assms(3) by (simp add: slice_def)
  then have "str_at ?m 514 name" using assms(1,3) by (simp add: str_at_slice in_mem_def)
  moreover have "in_mem ?m 1 512" "(514::nat) + length name < 1 \<or> 1 + 512 \<le> (514::nat)" using assms(3) by (simp_all add: in_mem_def)
  ultimately obtain m' where m': "ustar_make_header 514 USTAR_REGULAR n 1 ?m = Some (True, m')" "length m' = length ?m"
    "header_at m' 1 (strip_name name) USTAR_REGULAR n"
    using make_header_at [of ?m 514 name 1 USTAR_REGULAR n] assms(2,4,5) by blast
  let ?h = "slice 1 512 m'"
  have "length ?h = 512" using m'(2) assms(3) by simp
  moreover have "slice (1 + q) k (0 # ?h) = slice (1 + q) k m'" if "q + k \<le> 512" for q k
    using that by (simp add: slice_def drop_take min_def)
  ultimately have "header_at (0 # ?h) 1 (strip_name name) USTAR_REGULAR n"
    using header_at_copy [OF m'(3), of "0 # ?h"] by (simp add: in_mem_def)
  then show ?thesis using m'(1) \<open>length ?h = 512\<close> by (simp add: append_header_def BLOCK_SECTOR_SIZE_def)
qed

lemma append_marker_eq:
  assumes "room u (Suc n)"
  shows "\<exists>u' d d'. append_marker past u = Some u' \<and> scratch u = Some d \<and> scratch u' = Some d' \<and>
    media d' = (media d)[unat (append_sector u) := replicate 511 0 @ [past]] \<and> append_sector u' = append_sector u \<and> ufs u' = ufs u"
proof -
  obtain d where d: "scratch u = Some d" "Block_Dev.block_ok d" "append_sector u < blk_size d"
    using assms by (auto simp: room_def word_less_nat_alt)
  let ?d = "d\<lparr>media := (media d)[unat (append_sector u) := replicate 512 0], block.write_cnt := block.write_cnt d + 1\<rparr>"
  have "Block_Dev.block_ok ?d" using block_ok_update [OF d(2)] by (simp add: BLOCK_SECTOR_SIZE_def)
  then show ?thesis using d block_write_ok [OF d(2,3)] block_write_ok [of ?d "append_sector u"]
    by (simp add: append_marker_def BLOCK_SECTOR_SIZE_def)
qed

text \<open>C14: Appending a file to the archive writes, from the current sector of the scratch device on, a header that the parser accepts and
  that gives the name and the size of the file, the contents of the file padded with zeros, and one sector of the end marker, whose
  last byte is whatever follows the buffer in memory. It changes no other sector, and the position is left at the marker.\<close>

theorem append_writes_archive:
  assumes "source fp fb 0 (ufs u)" "0 \<notin> set name" "length (strip_name name) \<le> 99" "length buffer = 512"
    and "scratch u = Some d" "Block_Dev.block_ok d" "unat (append_sector u) + length (sectors_of fb) + 2 \<le> unat (blk_size d)"
  shows "\<exists>u' d' hd. append_file buffer past name fp u = Some u' \<and> scratch u' = Some d' \<and>
    media d' = overwrite (media d) (unat (append_sector u)) (hd # sectors_of fb @ [replicate 511 0 @ [past]]) \<and>
    ustar_parse_header 1 (0 # hd) = Some (Inr (Some (Ptr 1), USTAR_REGULAR, int (length fb))) \<and> str_at (0 # hd) 1 (strip_name name) \<and>
    unat (append_sector u') = unat (append_sector u) + 1 + length (sectors_of fb)"
proof -
  have l: "length fb \<le> 2 ^ 23" using assms(1) open_length by (auto simp: source_def)
  obtain n f where n: "file_length fp (ufs u) = Some (n, f)" "unat n = length fb" "source fp fb 0 f"
    using source_file_length [OF assms(1)] by blast
  have si: "sint n = int (length fb)"
    using n(2) l by (simp add: sint_uint signed_take_bit_int_eq_self uint_nat)
  obtain hd where hd: "append_header name (int (length fb)) buffer past = Some hd" "length hd = 512"
      "header_at (0 # hd) 1 (strip_name name) USTAR_REGULAR (int (length fb))"
    using append_header_eq [OF assms(2-4), of "int (length fb)" past] l by (auto simp: INT_MAX_def)
  have rm: "room u (Suc (length (sectors_of fb) + 1))" using assms(5-7) by (auto simp: room_def)
  then obtain u1 where u1: "append_write hd (u\<lparr>ufs := f\<rparr>) = Some u1" "appended (u\<lparr>ufs := f\<rparr>) [hd] u1" "ufs u1 = f"
    using append_write_eq [of "u\<lparr>ufs := f\<rparr>" "length (sectors_of fb) + 1" hd] hd(2) by (auto simp: room_def)
  have a1: "appended u [hd] u1" using u1(2) by (simp add: appended_def)
  have r1: "room u1 (length (sectors_of fb) + 1)" using room_appended [OF _ a1] rm by simp
  then have "room u1 (length (sectors_of (drop 0 fb)))" by (auto simp: room_def)
  then obtain u2 p where u2: "append_copy fp (int (length fb)) u1 = Some u2" "appended u1 (sectors_of fb) u2" "source fp fb p (ufs u2)"
    using append_copy_eq [of fp fb 0 u1] n(3) u1(3) by auto
  have "room u (length [hd])" using rm by (auto simp: room_def)
  then have a2: "appended u (hd # sectors_of fb) u2" using appended_trans [OF _ a1 u2(2)] by simp
  have "room u2 (Suc 0)" using room_appended [OF r1 u2(2)] by simp
  then obtain u3 d2 d3 where u3: "append_marker past u2 = Some u3" "scratch u2 = Some d2" "scratch u3 = Some d3"
      "media d3 = (media d2)[unat (append_sector u2) := replicate 511 0 @ [past]]" "append_sector u3 = append_sector u2" "ufs u3 = ufs u2"
    using append_marker_eq by blast
  have "\<exists>f'. file_close (Some fp) (ufs u3) = Some f'" using source_close u2(3) u3(6) by simp
  then obtain u' where u': "append_file buffer past name fp u = Some u'" "scratch u' = Some d3" "append_sector u' = append_sector u2"
    using n(1) si assms(5) hd(1) u1(1) u2(1) u3 by (auto simp: append_file_def)
  have "media d2 = overwrite (media d) (unat (append_sector u)) (hd # sectors_of fb)"
    "unat (append_sector u2) = unat (append_sector u) + Suc (length (sectors_of fb))"
    using a2 assms(5) u3(2) by (auto simp: appended_def)
  moreover have "unat (append_sector u) + Suc (length (sectors_of fb)) < length (media d)" using assms(6,7) by (simp add: Block_Dev.block_ok_def)
  ultimately have "media d3 = overwrite (media d) (unat (append_sector u)) (hd # sectors_of fb @ [replicate 511 0 @ [past]])"
    using overwrite_twice [of "unat (append_sector u)" "hd # sectors_of fb" "media d" "replicate 511 0 @ [past]"] u3(4) by simp
  moreover have "ustar_parse_header 1 (0 # hd) = Some (Inr (Some (Ptr 1), USTAR_REGULAR, int (length fb)))"
    using header_at_parse [OF hd(3)] l by (simp add: INT_MAX_def)
  ultimately show ?thesis using u' header_at_name [OF hd(3)] a2 assms(5) u3(2) by (auto simp: appended_def)
qed

text \<open>A file of three bytes, open as file 7, and an empty scratch device of four sectors.\<close>

definition demo_util :: util where
  "demo_util = \<lparr>ufs = (demo_fs 3 (replicate 512 9))\<lparr>files := [7 \<mapsto> \<lparr>finode = 5, fpos = 0, deny_write = False\<rparr>]\<rparr>, ucwd = None,
     scratch = Some \<lparr>blk_name = [], blk_type = BLOCK_SCRATCH, blk_size = 4, media = replicate 4 (replicate 512 1), read_cnt = 0, write_cnt = 0\<rparr>,
     extract_sector = 0, append_sector = 0\<rparr>"

lemma demo_source: "source 7 [9, 9, 9] 0 (ufs demo_util)"
proof -
  have l: "length (replicate 512 (9 :: byte)) = 512" by simp
  have "take 3 (replicate 512 (9 :: byte)) = [9, 9, 9]" by (simp add: numeral_3_eq_3)
  then have "open_at 7 [9, 9, 9] 0 (ufs demo_util)"
    using demo_fs_ok(1) [of 3 "replicate 512 9"] demo_fs_ok(2,3) demo_fs_cache_ok [OF l, of 3]
      demo_file_ok(1) [of 3 "replicate 512 9"] demo_bytes [OF _ l, of 3]
    by (simp add: open_at_def demo_util_def)
  moreover have "closable 7 (ufs demo_util)" by (simp add: closable_def demo_util_def demo_fs_def demo_inode_def)
  ultimately show ?thesis by (simp add: source_def)
qed

theorem append_writes_archive_witness:
  "\<exists>u' d' hd. append_file (replicate 512 5) 77 [97] 7 demo_util = Some u' \<and> scratch u' = Some d' \<and>
    media d' = [hd, [9, 9, 9] @ replicate 509 0, replicate 511 0 @ [77], replicate 512 1] \<and>
    ustar_parse_header 1 (0 # hd) = Some (Inr (Some (Ptr 1), USTAR_REGULAR, 3)) \<and> str_at (0 # hd) 1 [97]"
proof -
  have n: "strip_name [97] = [97]" by (simp add: strip_name_def strip_str.simps [of "[97]"] bad_prefix_def)
  have s: "sectors_of [9, 9, 9] = [[9, 9, 9] @ replicate 509 0]" by (simp add: sectors_of_step)
  obtain d where d: "scratch demo_util = Some d" "Block_Dev.block_ok d" "blk_size d = 4" "media d = replicate 4 (replicate 512 1)"
    "append_sector demo_util = 0"
    by (simp add: demo_util_def Block_Dev.block_ok_def BLOCK_SECTOR_SIZE_def)
  have o4: "overwrite (replicate 4 x) 0 [a, b, c] = [a, b, c, x]" for a b c x :: "byte list" by (simp add: overwrite_def)
  have "length (strip_name [97]) \<le> 99" "unat (append_sector demo_util) + length (sectors_of [9, 9, 9]) + 2 \<le> unat (blk_size d)"
    unfolding n s d(3,5) by simp_all
  then show ?thesis using append_writes_archive [OF demo_source _ _ _ d(1,2), of "[97]" "replicate 512 5" 77] by (simp add: n s d(4,5) o4) blast
qed

end
