(* ===== verification/Random_Numbers.thy ===== *)
theory Random_Numbers
  imports Prelude
begin

text \<open>
  The pseudo-random number generator of \<^verbatim>\<open>lib/random.c\<close>, RC4 keyed with the four bytes of the seed.
\<close>

section \<open>State and operations\<close>

record random =
  s_arr :: "byte list"
  s_i :: byte
  s_j :: byte
  inited :: bool

definition swap_byte :: "nat \<Rightarrow> nat \<Rightarrow> byte list \<Rightarrow> byte list" where
  "swap_byte a b xs = xs[a := xs ! b, b := xs ! a]"

text \<open>The loop of \<^verbatim>\<open>random_init\<close> that mixes the seed into the array, from \<open>i\<close> on.\<close>

fun key_loop :: "byte list \<Rightarrow> nat \<Rightarrow> nat \<Rightarrow> byte \<Rightarrow> byte list \<Rightarrow> byte list" where
  "key_loop seedp i 0 j xs = xs"
| "key_loop seedp i (Suc n) j xs =
     (let j = j + (xs ! i + seedp ! (i mod 4)) in key_loop seedp (i + 1) n j (swap_byte i (unat j) xs))"

definition random_init :: "u32 \<Rightarrow> random \<Rightarrow> random" where
  "random_init seed r = r\<lparr>s_arr := key_loop (le32 seed) 0 256 0 (map of_nat [0..<256]), s_i := 0, s_j := 0, inited := True\<rparr>"

definition next_byte :: "random \<Rightarrow> byte \<times> random" where
  "next_byte r =
     (let i = s_i r + 1; j = s_j r + s_arr r ! unat i; xs = swap_byte (unat i) (unat j) (s_arr r);
          k = xs ! unat i + xs ! unat j
      in (xs ! unat k, r\<lparr>s_arr := xs, s_i := i, s_j := j\<rparr>))"

fun byte_loop :: "nat \<Rightarrow> random \<Rightarrow> byte list \<times> random" where
  "byte_loop 0 r = ([], r)"
| "byte_loop (Suc n) r = (let (b, r) = next_byte r; (bs, r) = byte_loop n r in (b # bs, r))"

definition random_bytes :: "nat \<Rightarrow> random \<Rightarrow> byte list \<times> random" where
  "random_bytes n r = byte_loop n (if inited r then r else random_init 0 r)"

definition random_ulong :: "random \<Rightarrow> u32 \<times> random" where
  "random_ulong r = (let (bs, r) = random_bytes 4 r in (of_le32 bs, r))"

section \<open>The array stays a permutation\<close>

text \<open>The array holds every byte exactly once, so every index that the generator computes is inside it.\<close>

definition permutation :: "byte list \<Rightarrow> bool" where
  "permutation xs \<longleftrightarrow> length xs = 256 \<and> distinct xs"

lemma swap_byte_length [simp]: "length (swap_byte a b xs) = length xs"
  by (simp add: swap_byte_def)

lemma swap_permutation: "permutation xs \<Longrightarrow> a < 256 \<Longrightarrow> b < 256 \<Longrightarrow> permutation (swap_byte a b xs)"
  by (auto simp: permutation_def swap_byte_def distinct_swap)

lemma byte_index: "unat (b :: byte) < 256"
  using unsigned_less [where ?'a = nat, of b] by simp

lemma key_loop_permutation: "permutation xs \<Longrightarrow> i + n \<le> 256 \<Longrightarrow> permutation (key_loop seedp i n j xs)"
proof (induction n arbitrary: i j xs)
  case (Suc n)
  then show ?case using swap_permutation byte_index by (simp add: Let_def)
qed simp

lemma initial_permutation: "permutation (map of_nat [0..<256])"
  by (auto simp: permutation_def distinct_map inj_on_def of_nat_inverse word_of_nat_eq_iff take_bit_nat_eq_self)

definition random_ok :: "random \<Rightarrow> bool" where
  "random_ok r \<longleftrightarrow> (inited r \<longrightarrow> permutation (s_arr r))"

lemma random_init_ok: "random_ok (random_init seed r) \<and> inited (random_init seed r)"
  using key_loop_permutation [OF initial_permutation, of 0 256] by (simp add: random_ok_def random_init_def)

lemma byte_loop_ok: "permutation (s_arr r) \<Longrightarrow> byte_loop n r = (bs, r') \<Longrightarrow> permutation (s_arr r') \<and> length bs = n \<and> inited r' = inited r"
proof (induction n arbitrary: r bs)
  case (Suc n)
  have "permutation (s_arr (snd (next_byte r)))" "inited (snd (next_byte r)) = inited r"
    using Suc.prems(1) by (auto simp: next_byte_def Let_def intro!: swap_permutation byte_index)
  then show ?case using Suc by (auto simp: Let_def split: prod.splits)
qed simp

text \<open>The invariant is kept by every operation: the array of an initialized generator is a permutation of the bytes, and a request
  for bytes returns as many.\<close>

theorem random_bytes_ok:
  assumes "random_ok r" "random_bytes n r = (bs, r')"
  shows "random_ok r' \<and> inited r' \<and> length bs = n"
proof (cases "inited r")
  case True
  then show ?thesis using assms byte_loop_ok [of r n bs r'] by (simp add: random_ok_def random_bytes_def)
next
  case False
  then show ?thesis using assms byte_loop_ok [of "random_init 0 r" n bs r'] random_init_ok [of 0 r] by (simp add: random_ok_def random_bytes_def)
qed

text \<open>The bytes form one stream: it does not matter how a request is divided.\<close>

lemma byte_loop_add: "byte_loop (a + b) r = (let (xs, r) = byte_loop a r; (ys, r) = byte_loop b r in (xs @ ys, r))"
  by (induction a arbitrary: r) (auto simp: Let_def split: prod.splits)

theorem random_bytes_stream:
  assumes "random_ok r"
  shows "random_bytes (a + b) r = (let (xs, r) = random_bytes a r; (ys, r) = random_bytes b r in (xs @ ys, r))"
proof -
  obtain xs r' where r': "random_bytes a r = (xs, r')" by fastforce
  then have "inited r'" using random_bytes_ok [OF assms] by blast
  then show ?thesis using r' by (simp add: random_bytes_def byte_loop_add Let_def)
qed

text \<open>Initializing again forgets the state: only the last seed counts.\<close>

theorem random_init_again: "random_init a (random_init b r) = random_init a r"
  by (simp add: random_init_def)

end
