(* ===== verification/Clock.thy ===== *)
theory Clock
  imports Stdlib Arithmetic64
begin

text \<open>
  The real time clock (\<^verbatim>\<open>devices/rtc.c\<close>) and the programmable interval timer (\<^verbatim>\<open>devices/pit.c\<close>). The clock is a function that gives what
  the \<open>n\<close>-th read of a CMOS register returns; the timer is the sequence of the bytes written to its ports.
\<close>

section \<open>Reading the real time clock\<close>

definition RTC_REG_SEC :: byte where "RTC_REG_SEC = 0"
definition RTC_REG_MIN :: byte where "RTC_REG_MIN = 2"
definition RTC_REG_HOUR :: byte where "RTC_REG_HOUR = 4"
definition RTC_REG_MDAY :: byte where "RTC_REG_MDAY = 7"
definition RTC_REG_MON :: byte where "RTC_REG_MON = 8"
definition RTC_REG_YEAR :: byte where "RTC_REG_YEAR = 9"

lemmas rtc_regs = RTC_REG_SEC_def RTC_REG_MIN_def RTC_REG_HOUR_def RTC_REG_MDAY_def RTC_REG_MON_def RTC_REG_YEAR_def

type_synonym cmos = "nat \<Rightarrow> byte \<Rightarrow> byte"

definition bcd_to_bin :: "byte \<Rightarrow> int" where
  "bcd_to_bin x = uint (x AND 0x0F) + uint (drop_bit 4 x) * 10"

record rtc =
  sec :: int
  minute :: int
  hour :: int
  mday :: int
  mon :: int
  year :: int

text \<open>The time components, read from the \<open>n\<close>-th read on until the seconds are the same before and after.\<close>

partial_function (option) rtc_read :: "cmos \<Rightarrow> nat \<Rightarrow> rtc option" where
  "rtc_read cmos_read n =
     (let r = \<lparr>sec = bcd_to_bin (cmos_read n RTC_REG_SEC), minute = bcd_to_bin (cmos_read (n + 1) RTC_REG_MIN),
         hour = bcd_to_bin (cmos_read (n + 2) RTC_REG_HOUR), mday = bcd_to_bin (cmos_read (n + 3) RTC_REG_MDAY),
         mon = bcd_to_bin (cmos_read (n + 4) RTC_REG_MON), year = bcd_to_bin (cmos_read (n + 5) RTC_REG_YEAR)\<rparr>
      in if sec r \<noteq> bcd_to_bin (cmos_read (n + 6) RTC_REG_SEC) then rtc_read cmos_read (n + 7) else Some r)"

definition days_per_month :: "int list" where
  "days_per_month = [31, 28, 31, 30, 31, 30, 31, 31, 30, 31, 30, 31]"

text \<open>The days of the first \<open>n\<close> months from month \<open>i\<close> on; reading past the table is undefined.\<close>

fun month_days :: "nat \<Rightarrow> nat \<Rightarrow> int option" where
  "month_days i 0 = Some 0"
| "month_days i (Suc n) = do { d \<leftarrow> arr_get days_per_month (i - 1); r \<leftarrow> month_days (i + 1) n; Some (d + r) }"

text \<open>\<^verbatim>\<open>time_t\<close> is an unsigned 32-bit integer. The product of the first line is an \<^verbatim>\<open>int\<close>, and its overflow undefined.\<close>

definition rtc_seconds :: "rtc \<Rightarrow> u32 option" where
  "rtc_seconds r = do {
     let y = (if year r < 70 then year r + 100 else year r) - 70;
     t \<leftarrow> c_int ((y * 365 + (y - 1) sdiv 4) * 24 * 60 * 60);
     m \<leftarrow> month_days 1 (nat (mon r));
     let leap = (if mon r > 2 \<and> y mod 4 = 0 then 1 else 0);
     Some (of_int (t + m * 86400 + leap * 86400 + (mday r - 1) * 86400 + hour r * 3600 + minute r * 60 + sec r)) }"

definition rtc_get_time :: "cmos \<Rightarrow> u32 option" where
  "rtc_get_time cmos_read = do { r \<leftarrow> rtc_read cmos_read 0; rtc_seconds r }"

section \<open>What the clock gives\<close>

definition bin_to_bcd :: "nat \<Rightarrow> byte" where
  "bin_to_bcd n = of_nat (n div 10 * 16 + n mod 10)"

lemma uint_low4: "uint (x AND 0x0F) = uint x mod 16" for x :: byte
proof -
  have "x AND 0x0F = take_bit 4 x" by (simp add: take_bit_eq_mask mask_eq_exp_minus_1)
  show ?thesis unfolding \<open>x AND 0x0F = take_bit 4 x\<close> unfolding unsigned_take_bit_eq by (simp add: take_bit_eq_mod)
qed

lemma uint_high4: "uint (drop_bit 4 x) = uint x div 16" for x :: byte
  by (simp add: drop_bit_eq_div uint_div)

theorem bcd_roundtrip:
  assumes "n < 100"
  shows "bcd_to_bin (bin_to_bcd n) = int n"
proof -
  have "n div 10 < 10" using assms by simp
  then have "unat (bin_to_bcd n) = n div 10 * 16 + n mod 10" by (simp add: bin_to_bcd_def unat_of_nat del: of_nat_add of_nat_mult)
  then have "uint (bin_to_bcd n) = int (n div 10 * 16 + n mod 10)" by (simp add: uint_nat)
  moreover have "int (n div 10 * 16 + n mod 10) mod 16 = int (n mod 10)" "int (n div 10 * 16 + n mod 10) div 16 = int (n div 10)"
    by (simp_all flip: zdiv_int zmod_int)
  moreover have "int (n mod 10) + int (n div 10) * 10 = int (n div 10 * 10 + n mod 10)" by (simp only: of_nat_add of_nat_mult of_nat_numeral add.commute)
  ultimately show ?thesis unfolding bcd_to_bin_def uint_low4 uint_high4 by (simp only: div_mult_mod_eq)
qed

text \<open>A clock that does not change during a read is read at once.\<close>

theorem rtc_read_stable:
  assumes "\<And>n. cmos_read n RTC_REG_SEC = x"
  shows "\<exists>r. rtc_read cmos_read n = Some r"
  using assms by (subst rtc_read.simps) (simp add: Let_def)

text \<open>The seconds from the start of 1970 to a date of the years from 1970 to 2037, \<open>y\<close> being the years since 1970.\<close>

definition unix_time :: "int \<Rightarrow> rtc \<Rightarrow> int" where
  "unix_time y r = (y * 365 + (y + 1) div 4 + (if mon r > 2 \<and> y mod 4 = 2 then 1 else 0) +
     sum_list (take (nat (mon r) - 1) days_per_month) + (mday r - 1)) * 86400 + hour r * 3600 + minute r * 60 + sec r"

definition valid_date :: "rtc \<Rightarrow> bool" where
  "valid_date r \<longleftrightarrow> 0 \<le> sec r \<and> sec r < 60 \<and> 0 \<le> minute r \<and> minute r < 60 \<and> 0 \<le> hour r \<and> hour r < 24 \<and>
     1 \<le> mon r \<and> mon r \<le> 12 \<and> 1 \<le> mday r \<and> mday r \<le> 31"

lemma month_days_eq: "1 \<le> i \<Longrightarrow> i + n \<le> 13 \<Longrightarrow> month_days i n = Some (sum_list (take n (drop (i - 1) days_per_month)))"
proof (induction n arbitrary: i)
  case (Suc n)
  have l: "i - 1 < length days_per_month" using Suc.prems by (simp add: days_per_month_def)
  then have "take (Suc n) (drop (i - 1) days_per_month) = days_per_month ! (i - 1) # take n (drop i days_per_month)"
    using Cons_nth_drop_Suc [OF l] Suc.prems(1) by (metis Suc_diff_1 le_less_trans less_one not_le take_Suc_Cons zero_less_one)
  then show ?case using Suc.IH [of "i + 1"] Suc.prems l by (simp add: arr_get_def)
qed simp

lemma month_sum: "1 \<le> m \<Longrightarrow> m \<le> 12 \<Longrightarrow>
    month_days 1 m = Some (sum_list (take (m - 1) days_per_month) + days_per_month ! (m - 1))"
proof -
  assume m: "1 \<le> m" "m \<le> 12"
  then obtain k where k: "m = Suc k" "k < length days_per_month" by (cases m) (auto simp: days_per_month_def)
  then show ?thesis using month_days_eq [of 1 m] m by (simp add: take_Suc_conv_app_nth)
qed

lemma leap_error:
  assumes "0 \<le> y" "y < 68"
  shows "\<bar>(if y = 0 then 0 else (y - 1) div 4) + (if b \<and> y mod 4 = 0 then 1 else 0) - ((y + 1) div 4 + (if b \<and> y mod 4 = 2 then 1 else 0))\<bar> \<le> (1 :: int)"
proof -
  have "list_all (\<lambda>b. list_all (\<lambda>y. \<bar>(if y = 0 then 0 else (y - 1) div 4) + (if b \<and> y mod 4 = 0 then 1 else 0) -
    ((y + 1) div 4 + (if b \<and> y mod 4 = 2 then 1 else 0))\<bar> \<le> (1 :: int)) [0..67]) [True, False]" by code_simp
  then show ?thesis using assms by (cases b) (auto simp: list_all_iff simp del: upto_rec_numeral)
qed

lemma ahead_arith: "t - u = 86400 * k \<Longrightarrow> 27 \<le> k \<Longrightarrow> k \<le> 32 \<Longrightarrow> u + 27 * 86400 \<le> t \<and> t \<le> u + 32 * 86400" for t u k :: int
  by linarith

text \<open>The clock is between 27 and 32 days ahead of the time it should return: the loop over the months includes the current one, and
  the leap years are taken to be 1970, 1974 and so on.\<close>

theorem rtc_ahead:
  assumes "valid_date r" "0 \<le> y" "y < 68" "year r = (if y < 30 then y + 70 else y - 30)"
  shows "\<exists>t. rtc_seconds r = Some (of_int t) \<and> unix_time y r + 27 * 86400 \<le> t \<and> t \<le> unix_time y r + 32 * 86400"
proof -
  let ?m = "nat (mon r)"
  have m: "1 \<le> ?m" "?m \<le> 12" using assms(1) by (auto simp: valid_date_def)
  have y: "(if year r < 70 then year r + 100 else year r) - 70 = y" using assms(2-4) by auto
  have q: "(y - 1) sdiv 4 = (if y = 0 then 0 else (y - 1) div 4)"
    using assms(2) sdiv_nonneg [of "y - 1" 4] by (auto simp: signed_divide_int_def)
  let ?l = "if mon r > 2 \<and> y mod 4 = 0 then 1 else 0 :: int"
  let ?e = "(y - 1) sdiv 4 + ?l - ((y + 1) div 4 + (if mon r > 2 \<and> y mod 4 = 2 then 1 else 0))"
  have e: "-1 \<le> ?e" "?e \<le> 1" unfolding q using leap_error [of y "mon r > 2"] assms(2,3) by auto
  have c: "c_int ((y * 365 + (y - 1) sdiv 4) * 24 * 60 * 60) = Some ((y * 365 + (y - 1) sdiv 4) * 86400)"
    using assms(2,3) by (auto simp: c_int_def q INT_MIN_def INT_MAX_def)
  have d: "28 \<le> days_per_month ! (?m - 1)" "days_per_month ! (?m - 1) \<le> 31"
  proof -
    have "\<forall>d \<in> set days_per_month. 28 \<le> d \<and> d \<le> 31" by (simp add: days_per_month_def)
    moreover have "days_per_month ! (?m - 1) \<in> set days_per_month" using m by (intro nth_mem) (simp add: days_per_month_def)
    ultimately show "28 \<le> days_per_month ! (?m - 1)" "days_per_month ! (?m - 1) \<le> 31" by auto
  qed
  let ?s = "sum_list (take (?m - 1) days_per_month)"
  let ?t = "(y * 365 + (y - 1) sdiv 4) * 86400 + (?s + days_per_month ! (?m - 1)) * 86400 + ?l * 86400 + (mday r - 1) * 86400 +
    hour r * 3600 + minute r * 60 + sec r"
  have "rtc_seconds r = Some (of_int ?t)" unfolding rtc_seconds_def Let_def y c month_sum [OF m] by simp
  moreover have "?t - unix_time y r = 86400 * (days_per_month ! (?m - 1) + ?e)"
    unfolding unix_time_def by (simp add: algebra_simps)
  moreover have "27 \<le> days_per_month ! (?m - 1) + ?e" "days_per_month ! (?m - 1) + ?e \<le> 32" using e d by linarith+
  ultimately show ?thesis using ahead_arith [of ?t "unix_time y r"] by blast
qed

section \<open>The programmable interval timer\<close>

definition PIT_HZ :: int where
  "PIT_HZ = 1193180"

definition PIT_PORT_CONTROL :: int where
  "PIT_PORT_CONTROL = 0x43"

definition PIT_PORT_COUNTER :: "int \<Rightarrow> int" where
  "PIT_PORT_COUNTER channel = 0x40 + channel"

definition pit_count :: "int \<Rightarrow> 16 word" where
  "pit_count frequency = (if frequency < 19 then 0 else if frequency > PIT_HZ then 2 else of_int ((PIT_HZ + frequency div 2) div frequency))"

definition pit_configure_channel :: "int \<Rightarrow> int \<Rightarrow> int \<Rightarrow> (int \<times> byte) list option" where
  "pit_configure_channel channel mode frequency = do {
     ASSERT (channel = 0 \<or> channel = 2);
     ASSERT (mode = 2 \<or> mode = 3);
     let count = pit_count frequency;
     Some [(PIT_PORT_CONTROL, of_int (channel * 64 + 0x30 + mode * 2)), (PIT_PORT_COUNTER channel, ucast count),
       (PIT_PORT_COUNTER channel, ucast (drop_bit 8 count))] }"

lemma nearest_arith: "x \<le> p + h \<Longrightarrow> p + h < x + f \<Longrightarrow> 2 * h \<le> f \<Longrightarrow> f \<le> 2 * h + 1 \<Longrightarrow> 2 * \<bar>p - x\<bar> \<le> f" for x p h f :: int
  by arith

text \<open>The two bytes that are written are the count, and for a frequency in range the count is the nearest integer to the number of
  clock cycles of a period. The count is 1, which the comment calls illegal in mode 2, from 795454 Hz on.\<close>

theorem pit_count_nearest:
  assumes "19 \<le> frequency" "frequency \<le> PIT_HZ"
  shows "1 \<le> uint (pit_count frequency) \<and> 2 * \<bar>PIT_HZ - uint (pit_count frequency) * frequency\<bar> \<le> frequency"
    "uint (pit_count frequency) = 1 \<longleftrightarrow> 795454 \<le> frequency"
proof -
  let ?q = "(PIT_HZ + frequency div 2) div frequency"
  have f: "0 < frequency" using assms by simp
  have h: "2 * (frequency div 2) \<le> frequency" "frequency \<le> 2 * (frequency div 2) + 1" by auto
  have q: "?q * frequency \<le> PIT_HZ + frequency div 2" "PIT_HZ + frequency div 2 < ?q * frequency + frequency"
    using f by (simp_all add: minus_mod_eq_div_mult [symmetric])
  have q1: "1 \<le> ?q" using assms f zdiv_mono1 [of frequency "PIT_HZ + frequency div 2" frequency] by simp
  have "(?q - 1) * 19 \<le> (?q - 1) * frequency" using q1 assms(1) by (intro mult_left_mono) auto
  also have "\<dots> \<le> PIT_HZ" using q(1) h(1) f by (simp add: left_diff_distrib)
  finally have "?q < 65536" by (simp add: PIT_HZ_def)
  then have u: "uint (pit_count frequency) = ?q"
    using assms q1 by (simp add: pit_count_def take_bit_int_eq_self uint_word_of_int_eq)
  show "1 \<le> uint (pit_count frequency) \<and> 2 * \<bar>PIT_HZ - uint (pit_count frequency) * frequency\<bar> \<le> frequency"
    unfolding u using q1 nearest_arith [OF q h] by blast
  show "uint (pit_count frequency) = 1 \<longleftrightarrow> 795454 \<le> frequency"
  proof
    assume "uint (pit_count frequency) = 1"
    then show "795454 \<le> frequency" using q(2) h unfolding u by (simp add: PIT_HZ_def)
  next
    assume "795454 \<le> frequency"
    then have "PIT_HZ + frequency div 2 < 2 * frequency" by (simp add: PIT_HZ_def)
    then have "?q * frequency < 2 * frequency" using q(1) by linarith
    then show "uint (pit_count frequency) = 1" unfolding u using q1 f by simp
  qed
qed

theorem pit_bytes:
  assumes "pit_configure_channel channel mode frequency = Some ws"
  shows "\<exists>lo hi. map snd ws = [of_int (channel * 64 + 0x30 + mode * 2), lo, hi] \<and> uint lo + 256 * uint hi = uint (pit_count frequency)"
proof -
  have "uint (ucast c :: byte) + 256 * uint (ucast (drop_bit 8 c) :: byte) = uint c" for c :: "16 word"
  proof -
    have "uint (ucast c :: byte) = uint c mod 256" by (simp only: unsigned_ucast_eq take_bit_eq_mod) simp
    moreover have "uint (ucast (drop_bit 8 c) :: byte) = uint c div 256 mod 256"
      by (simp add: unsigned_ucast_eq drop_bit_eq_div uint_div take_bit_eq_mod)
    moreover have "uint c div 256 mod 256 = uint c div 256" using unsigned_less [where ?'a = int, of c] by (intro mod_pos_pos_trivial) (auto simp: pos_imp_zdiv_nonneg_iff)
    ultimately show ?thesis by simp
  qed
  then show ?thesis using assms by (auto simp: pit_configure_channel_def ASSERT_def Let_def split: if_splits)
qed

end
