(* ===== verification/Timer_Delay.thy ===== *)
theory Timer_Delay
  imports Clock
begin

text \<open>
  Sleeping, delays and the calibration of \<^verbatim>\<open>devices/timer.c\<close>; the interrupt handler is in \<open>Threads\<close>. The tick counter is a function of
  the number of times that it has been read, and the result of \<^verbatim>\<open>too_many_loops\<close>, which depends on the speed of the processor, a
  parameter of the calibration. Delays are the numbers of ticks or of loops to wait.
\<close>

section \<open>Sleeping\<close>

definition TIMER_FREQ :: int where
  "TIMER_FREQ = 100"

definition timer_init :: "(int \<times> byte) list option" where
  "timer_init = pit_configure_channel 0 2 TIMER_FREQ"

text \<open>\<open>ticks n\<close> is what the \<open>n\<close>-th call of \<^verbatim>\<open>timer_ticks\<close> returns.\<close>

definition timer_elapsed :: "(nat \<Rightarrow> int) \<Rightarrow> nat \<Rightarrow> int \<Rightarrow> int" where
  "timer_elapsed timer_ticks n since = timer_ticks n - since"

text \<open>The loop of \<^verbatim>\<open>timer_sleep\<close>, which yields the processor in each round; the result is the number of the last call.\<close>

partial_function (option) sleep_loop :: "(nat \<Rightarrow> int) \<Rightarrow> int \<Rightarrow> int \<Rightarrow> nat \<Rightarrow> nat option" where
  "sleep_loop timer_ticks start ticks n =
     (if timer_elapsed timer_ticks n start < ticks then sleep_loop timer_ticks start ticks (n + 1) else Some n)"

definition timer_sleep :: "bool \<Rightarrow> (nat \<Rightarrow> int) \<Rightarrow> int \<Rightarrow> nat option" where
  "timer_sleep intr_on timer_ticks ticks = do {
     let start = timer_ticks 0;
     ASSERT intr_on;
     sleep_loop timer_ticks start ticks 1 }"

section \<open>Real time\<close>

definition c_int64 :: "int \<Rightarrow> int option" where
  "c_int64 v = (if - (2 ^ 63) \<le> v \<and> v < 2 ^ 63 then Some v else None)"

datatype waiting = Sleep_ticks int | Busy_loops int

definition real_time_delay :: "u32 \<Rightarrow> int \<Rightarrow> int \<Rightarrow> waiting option" where
  "real_time_delay loops_per_tick num denom = do {
     ASSERT (denom mod 1000 = 0);
     a \<leftarrow> c_int64 (uint loops_per_tick * num);
     b \<leftarrow> c_int64 (a sdiv 1000 * TIMER_FREQ);
     Some (Busy_loops (b sdiv (denom sdiv 1000))) }"

definition real_time_sleep :: "u32 \<Rightarrow> bool \<Rightarrow> int \<Rightarrow> int \<Rightarrow> waiting option" where
  "real_time_sleep loops_per_tick intr_on num denom = do {
     t \<leftarrow> c_int64 (num * TIMER_FREQ);
     let ticks = t sdiv denom;
     ASSERT intr_on;
     if ticks > 0 then Some (Sleep_ticks ticks) else real_time_delay loops_per_tick num denom }"

definition timer_msleep :: "u32 \<Rightarrow> bool \<Rightarrow> int \<Rightarrow> waiting option" where
  "timer_msleep loops_per_tick intr_on ms = real_time_sleep loops_per_tick intr_on ms 1000"

definition timer_usleep :: "u32 \<Rightarrow> bool \<Rightarrow> int \<Rightarrow> waiting option" where
  "timer_usleep loops_per_tick intr_on us = real_time_sleep loops_per_tick intr_on us (1000 * 1000)"

definition timer_nsleep :: "u32 \<Rightarrow> bool \<Rightarrow> int \<Rightarrow> waiting option" where
  "timer_nsleep loops_per_tick intr_on ns = real_time_sleep loops_per_tick intr_on ns (1000 * 1000 * 1000)"

definition timer_mdelay :: "u32 \<Rightarrow> int \<Rightarrow> waiting option" where
  "timer_mdelay loops_per_tick ms = real_time_delay loops_per_tick ms 1000"

definition timer_udelay :: "u32 \<Rightarrow> int \<Rightarrow> waiting option" where
  "timer_udelay loops_per_tick us = real_time_delay loops_per_tick us (1000 * 1000)"

definition timer_ndelay :: "u32 \<Rightarrow> int \<Rightarrow> waiting option" where
  "timer_ndelay loops_per_tick ns = real_time_delay loops_per_tick ns (1000 * 1000 * 1000)"

section \<open>Calibration\<close>

partial_function (option) double_loop :: "(u32 \<Rightarrow> bool) \<Rightarrow> u32 \<Rightarrow> u32 option" where
  "double_loop too_many_loops l =
     (if too_many_loops (push_bit 1 l) then Some l
      else if push_bit 1 l = 0 then None
      else double_loop too_many_loops (push_bit 1 l))"

partial_function (option) refine_loop :: "(u32 \<Rightarrow> bool) \<Rightarrow> u32 \<Rightarrow> u32 \<Rightarrow> u32 \<Rightarrow> u32 option" where
  "refine_loop too_many_loops high_bit test_bit l =
     (if test_bit = drop_bit 10 high_bit then Some l
      else refine_loop too_many_loops high_bit (drop_bit 1 test_bit) (if too_many_loops (l OR test_bit) then l else l OR test_bit))"

definition timer_calibrate :: "bool \<Rightarrow> (u32 \<Rightarrow> bool) \<Rightarrow> u32 option" where
  "timer_calibrate intr_on too_many_loops = do {
     ASSERT intr_on;
     l \<leftarrow> double_loop too_many_loops (push_bit 10 1);
     refine_loop too_many_loops l (drop_bit 1 l) l }"

section \<open>Sleeping waits long enough\<close>

lemma sleep_loop_first:
  assumes "ticks \<le> timer_elapsed t m start" "n \<le> m"
  shows "\<exists>k. sleep_loop t start ticks n = Some k \<and> n \<le> k \<and> ticks \<le> timer_elapsed t k start \<and>
    (\<forall>j. n \<le> j \<and> j < k \<longrightarrow> timer_elapsed t j start < ticks)"
  using assms(2)
proof (induction "m - n" arbitrary: n)
  case 0
  then show ?case using assms(1) by (subst sleep_loop.simps) auto
next
  case (Suc d)
  show ?case
  proof (cases "timer_elapsed t n start < ticks")
    case True
    have "n \<noteq> m" using True assms(1) by auto
    then have "d = m - (n + 1)" "n + 1 \<le> m" using Suc.hyps(2) Suc.prems by auto
    then obtain k where k: "sleep_loop t start ticks (n + 1) = Some k" "n + 1 \<le> k" "ticks \<le> timer_elapsed t k start"
      "\<forall>j. n + 1 \<le> j \<and> j < k \<longrightarrow> timer_elapsed t j start < ticks" using Suc.hyps(1) [of "n + 1"] by blast
    have "timer_elapsed t j start < ticks" if "n \<le> j" "j < k" for j using that k(4) True by (cases "j = n") auto
    then show ?thesis using k True by (subst sleep_loop.simps) auto
  next
    case False
    then show ?thesis by (subst sleep_loop.simps) auto
  qed
qed

text \<open>\<^verbatim>\<open>timer_sleep\<close> returns at the first reading of the counter that is the given number of ticks or more after its start, provided that
  the counter gets there.\<close>

theorem timer_sleep_returns:
  assumes "ticks \<le> t m - t 0" "1 \<le> m"
  shows "\<exists>k. timer_sleep True t ticks = Some k \<and> ticks \<le> t k - t 0 \<and> (\<forall>j. 1 \<le> j \<and> j < k \<longrightarrow> t j - t 0 < ticks)"
  using sleep_loop_first [of ticks t m "t 0" 1] assms by (auto simp: timer_sleep_def timer_elapsed_def)

text \<open>The ticks are the real time rounded down.\<close>

theorem real_time_sleep_ticks:
  assumes "real_time_sleep lpt b num denom = Some (Sleep_ticks t)" "0 \<le> num" "0 < denom"
  shows "0 < t \<and> t * denom \<le> num * TIMER_FREQ \<and> num * TIMER_FREQ < (t + 1) * denom"
proof -
  have t: "t = num * TIMER_FREQ div denom" "0 < t"
    using assms sdiv_nonneg [of "num * TIMER_FREQ" denom]
    by (auto simp: real_time_sleep_def real_time_delay_def c_int64_def ASSERT_def Let_def TIMER_FREQ_def bind_eq_Some_conv split: if_splits)
  have "t * denom + num * TIMER_FREQ mod denom = num * TIMER_FREQ" unfolding t(1) by (rule div_mult_mod_eq)
  moreover have "0 \<le> num * TIMER_FREQ mod denom" "num * TIMER_FREQ mod denom < denom" using assms(3) by simp_all
  ultimately show ?thesis using t(2) by (simp add: distrib_right)
qed

section \<open>Calibration finds the speed of the processor\<close>

lemma unat_push1: "unat l = 2 ^ k \<Longrightarrow> k < 31 \<Longrightarrow> unat (push_bit 1 l) = 2 ^ Suc k" for l :: u32
proof -
  assume l: "unat l = 2 ^ k" "k < 31"
  have "(2::nat) ^ Suc k < 2 ^ 32" using l(2) by (intro power_strict_increasing) auto
  then show ?thesis using l(1) by (simp add: unat_word_ariths)
qed

lemma double_loop_eq:
  assumes "\<And>n. too_many n \<longleftrightarrow> T < unat n" "T < 2 ^ 31"
  shows "unat l = 2 ^ k \<Longrightarrow> k < 31 \<Longrightarrow> 2 ^ k \<le> T \<Longrightarrow>
    \<exists>h K. double_loop too_many l = Some h \<and> unat h = 2 ^ K \<and> k \<le> K \<and> K < 31 \<and> 2 ^ K \<le> T \<and> T < 2 ^ Suc K"
proof (induction "31 - k" arbitrary: k l)
  case (Suc d)
  have p: "unat (push_bit 1 l) = 2 ^ Suc k" by (rule unat_push1 [OF Suc.prems(1,2)])
  show ?case
  proof (cases "T < 2 ^ Suc k")
    case True
    then show ?thesis using Suc.prems p assms(1) by (subst double_loop.simps) auto
  next
    case False
    then have "(2::nat) ^ Suc k < 2 ^ 31" using assms(2) by linarith
    then have k: "Suc k < 31" by (subst (asm) power_strict_increasing_iff) auto
    have nz: "push_bit 1 l \<noteq> 0" using p by (metis power_not_zero unsigned_0 zero_neq_numeral)
    obtain h K where "double_loop too_many (push_bit 1 l) = Some h" "unat h = 2 ^ K" "Suc k \<le> K" "K < 31" "2 ^ K \<le> T" "T < 2 ^ Suc K"
      using Suc.hyps(1) [of "Suc k" "push_bit 1 l", OF _ p k] Suc.hyps(2) False by (metis Suc_eq_plus1 diff_Suc_Suc diff_Suc_1 diff_diff_left not_le)
    then show ?thesis using nz False p assms(1) by (subst double_loop.simps) auto
  qed
qed simp

lemma unat_power: "b < 32 \<Longrightarrow> unat (2 ^ b :: u32) = 2 ^ b"
proof -
  assume "b < 32"
  then have "(2 :: nat) ^ b < 2 ^ 32" by (intro power_strict_increasing) auto
  moreover have "(2 ^ b :: u32) = of_nat (2 ^ b)" by simp
  ultimately show ?thesis by (simp only: unat_of_nat) simp
qed

lemma unat_or_bit:
  fixes l :: u32
  assumes "2 ^ Suc b dvd unat l" "b < 32"
  shows "unat (l OR 2 ^ b) = unat l + 2 ^ b" "l OR 2 ^ b = l + 2 ^ b"
proof -
  have "even (unat l div 2 ^ b)" using assms(1) by (auto elim!: dvdE)
  then have "\<not> bit (unat l) b" by (simp add: bit_iff_odd)
  then have nb: "\<not> bit l b" by (simp add: bit_unsigned_iff)
  then show o: "l OR 2 ^ b = l + 2 ^ b" by (intro disjunctive_add [symmetric]) (auto simp: bit_exp_iff)
  obtain q where q: "unat l = 2 ^ Suc b * q" using assms(1) by (elim dvdE)
  have "2 ^ Suc b * q + 2 ^ b < (2 :: nat) ^ 32"
  proof -
    obtain c where c: "32 = Suc b + c" using assms(2) less_iff_Suc_add by (metis Suc_leI le_Suc_ex)
    have "2 ^ Suc b * q < 2 ^ Suc b * (2 :: nat) ^ c" using unsigned_less [where ?'a = nat, of l] q unfolding power_add [symmetric] c [symmetric] by simp
    then have "q + 1 \<le> 2 ^ c" by simp
    then have "2 ^ Suc b * (q + 1) \<le> 2 ^ Suc b * (2 :: nat) ^ c" by (rule mult_le_mono2)
    moreover have "0 < (2 :: nat) ^ b" by simp
    ultimately show ?thesis unfolding power_add [symmetric] c [symmetric] by (simp only: power_Suc distrib_left mult_1_right)
  qed
  moreover have "unat (2 ^ b :: u32) = 2 ^ b" using assms(2) by (rule unat_power)
  ultimately show "unat (l OR 2 ^ b) = unat l + 2 ^ b" unfolding o using q by (simp add: unat_word_ariths(1))
qed

lemma drop1_power: "0 < b \<Longrightarrow> b < 32 \<Longrightarrow> drop_bit 1 (2 ^ b :: u32) = 2 ^ (b - 1)"
  by (intro bit_word_eqI) (auto simp: bit_drop_bit_eq bit_exp_iff)

lemma drop10_power: "10 \<le> K \<Longrightarrow> K < 32 \<Longrightarrow> drop_bit 10 (2 ^ K :: u32) = 2 ^ (K - 10)"
  by (intro bit_word_eqI) (auto simp: bit_drop_bit_eq bit_exp_iff)

lemma power_eq_iff_u32: "a < 32 \<Longrightarrow> b < 32 \<Longrightarrow> (2 ^ a :: u32) = 2 ^ b \<longleftrightarrow> a = b"
  by (metis unat_power power_inject_exp one_less_numeral_iff semiring_norm(76))

lemma refine_loop_eq:
  assumes tm: "\<And>n. too_many n \<longleftrightarrow> T < unat n" and K: "10 \<le> K" "K < 32"
  shows "b < K \<Longrightarrow> K - 10 \<le> b \<Longrightarrow> unat l \<le> T \<Longrightarrow> T < unat l + 2 ^ Suc b \<Longrightarrow> 2 ^ Suc b dvd unat l \<Longrightarrow>
    \<exists>r. refine_loop too_many (2 ^ K) (2 ^ b) l = Some r \<and> unat l \<le> unat r \<and> unat r \<le> T \<and> T < unat r + 2 ^ (K - 9)"
proof (induction "b - (K - 10)" arbitrary: b l)
  case 0
  then have "b = K - 10" by simp
  moreover have "Suc (K - 10) = K - 9" using K by simp
  ultimately show ?case using 0 drop10_power [OF K] by (subst refine_loop.simps) auto
next
  case (Suc d)
  have ne: "(2 ^ b :: u32) \<noteq> drop_bit 10 (2 ^ K)" using Suc.hyps(2) Suc.prems K drop10_power [OF K] power_eq_iff_u32 by simp
  have b: "0 < b" "b < 32" using Suc.hyps(2) Suc.prems(1) K by auto
  note o = unat_or_bit [OF Suc.prems(5) b(2)]
  let ?l = "if too_many (l OR 2 ^ b) then l else l OR 2 ^ b"
  have "unat ?l \<le> T" "T < unat ?l + 2 ^ Suc (b - 1)" "unat l \<le> unat ?l" using Suc.prems(3,4) o(1) tm b(1) by auto
  moreover have "2 ^ Suc (b - 1) dvd unat ?l"
  proof -
    have "2 ^ b dvd unat l" using Suc.prems(5) by (rule power_le_dvd) simp
    then show ?thesis using o(1) b(1) by simp
  qed
  moreover have "d = b - 1 - (K - 10)" "b - 1 < K" "K - 10 \<le> b - 1" using Suc.hyps(2) Suc.prems(1) by auto
  ultimately obtain r where "refine_loop too_many (2 ^ K) (2 ^ (b - 1)) ?l = Some r" "unat ?l \<le> unat r" "unat r \<le> T" "T < unat r + 2 ^ (K - 9)"
    using Suc.hyps(1) [of "b - 1" ?l] by blast
  then show ?case using ne drop1_power [OF b] \<open>unat l \<le> unat ?l\<close> by (subst refine_loop.simps) auto
qed

text \<open>On a processor that runs \<open>T\<close> loops in a tick, at least 1024 and fewer than \<open>2 ^ 31\<close>, the calibration returns a number of loops that
  does not exceed \<open>T\<close> and differs from it by less than one part in 512.\<close>

theorem timer_calibrate_precise:
  assumes "\<And>n. too_many n \<longleftrightarrow> T < unat n" "2 ^ 10 \<le> T" "T < 2 ^ 31"
  shows "\<exists>r. timer_calibrate True too_many = Some r \<and> unat r \<le> T \<and> 512 * (T - unat r) < T"
proof -
  have "unat (push_bit 10 1 :: u32) = 2 ^ 10" by simp
  then obtain h K where h: "double_loop too_many (push_bit 10 1) = Some h" "unat h = 2 ^ K" "10 \<le> K" "K < 31" "2 ^ K \<le> T" "T < 2 ^ Suc K"
    using double_loop_eq [OF assms(1,3), of "push_bit 10 1" 10] assms(2) by auto
  have K: "0 < K" "K < 32" "K - 10 \<le> K - 1" "K - 1 < K" using h(3,4) by auto
  have "unat h = unat (2 ^ K :: u32)" using h(2) unat_power [OF K(2)] by simp
  then have hp: "h = 2 ^ K" by (simp only: word_unat_eq_iff)
  have "Suc (K - 1) = K" using K by simp
  then obtain r where r: "refine_loop too_many (2 ^ K) (2 ^ (K - 1)) h = Some r" "unat h \<le> unat r" "unat r \<le> T" "T < unat r + 2 ^ (K - 9)"
    using refine_loop_eq [OF assms(1) h(3) K(2), of "K - 1" h] K h by auto
  have "512 * (T - unat r) < 512 * 2 ^ (K - 9)" using r(3,4) by simp
  also have "512 * 2 ^ (K - 9) = (2 :: nat) ^ K" using power_add [of "2 :: nat" 9 "K - 9"] h(3) by simp
  finally have "512 * (T - unat r) < T" using h(5) by simp
  then show ?thesis using h(1) r(1,3) hp drop1_power [OF K(1,2)] by (auto simp: timer_calibrate_def)
qed

end
