(* ===== verification/Shutdown.thy ===== *)
theory Shutdown
  imports Timer_Delay
begin

unbundle bit_operations_syntax

text \<open>
  The speaker (\<^verbatim>\<open>devices/speaker.c\<close>), shutting down (\<^verbatim>\<open>devices/shutdown.c\<close>) and the order of events in a panic (\<^verbatim>\<open>lib/kernel/debug.c\<close>). The gate
  register of the speaker is a byte; what the other functions do is a sequence of events. An endless loop at the end of a function is the
  end of the sequence.
\<close>

section \<open>The speaker\<close>

definition SPEAKER_PORT_GATE :: int where "SPEAKER_PORT_GATE = 0x61"
definition SPEAKER_GATE_ENABLE :: byte where "SPEAKER_GATE_ENABLE = 0x03"

record speaker =
  gate :: byte
  speaker_outs :: "(int \<times> byte) list"

definition set_gate :: "byte \<Rightarrow> speaker \<Rightarrow> speaker" where
  "set_gate v s = s\<lparr>gate := v, speaker_outs := speaker_outs s @ [(SPEAKER_PORT_GATE, v)]\<rparr>"

definition speaker_off :: "speaker \<Rightarrow> speaker" where
  "speaker_off s = set_gate (gate s AND NOT SPEAKER_GATE_ENABLE) s"

definition speaker_on :: "int \<Rightarrow> speaker \<Rightarrow> speaker option" where
  "speaker_on frequency s =
     (if frequency \<ge> 20 \<and> frequency \<le> 20000 then do {
        ws \<leftarrow> pit_configure_channel 2 3 frequency;
        let s = s\<lparr>speaker_outs := speaker_outs s @ ws\<rparr>;
        Some (set_gate (gate s OR SPEAKER_GATE_ENABLE) s) }
      else Some (speaker_off s))"

text \<open>\<open>pause\<close> says whether the sleep between switching the speaker on and off returns.\<close>

definition speaker_beep :: "bool \<Rightarrow> bool \<Rightarrow> speaker \<Rightarrow> speaker option" where
  "speaker_beep intr_on pause s =
     (if intr_on then do { s \<leftarrow> speaker_on 440 s; if pause then Some (speaker_off s) else None } else Some s)"

lemma gate_bits: "bit SPEAKER_GATE_ENABLE n \<longleftrightarrow> n < 2"
proof -
  have e: "SPEAKER_GATE_ENABLE = mask 2" by (simp add: SPEAKER_GATE_ENABLE_def mask_eq_exp_minus_1)
  show ?thesis unfolding e by (simp add: bit_mask_iff) linarith
qed

text \<open>A beep leaves the speaker off, and the other bits of its register as they were.\<close>

theorem speaker_beep_quiet:
  assumes "speaker_beep True True s = Some s'"
  shows "\<not> bit (gate s') 0" "\<not> bit (gate s') 1" "2 \<le> n \<Longrightarrow> bit (gate s') n = bit (gate s) n"
    "\<exists>ws. pit_configure_channel 2 3 440 = Some ws \<and> (\<exists>vs. speaker_outs s' = speaker_outs s @ ws @ vs)"
  using assms bit_imp_le_length [of "gate s" n] by (auto simp: speaker_beep_def speaker_on_def speaker_off_def set_gate_def Let_def bind_eq_Some_conv bit_simps gate_bits)

theorem speaker_beep_returns: "\<exists>s'. speaker_beep intr_on True s = Some s'"
  by (simp add: speaker_beep_def speaker_on_def pit_configure_channel_def Let_def)

section \<open>Shutting down\<close>

datatype event = Filesys_done | Print_stats | Say string | Flush_serial | Port8 nat byte | Port16 nat "16 word" | Halt | Backtrace | Panic_message

definition CONTROL_REG :: nat where "CONTROL_REG = 0x64"

definition shutdown_power_off :: "event list" where
  "shutdown_power_off = [Filesys_done, Print_stats, Say ''Powering off...'', Flush_serial, Port16 0xB004 0x2000] @
     map (\<lambda>c. Port8 0x8900 (of_char c)) ''Shutdown'' @ [Port8 0x501 0x31, Halt, Say ''still running...'']"

text \<open>One round of the loop that resets the machine: \<open>status\<close> gives what the reads of the controller's status return.\<close>

fun poll_loop :: "(nat \<Rightarrow> byte) \<Rightarrow> nat \<Rightarrow> nat \<Rightarrow> nat" where
  "poll_loop status 0 n = n"
| "poll_loop status (Suc k) n = (if status n AND 0x02 = 0 then n + 1 else poll_loop status k (n + 1))"

definition reboot_round :: "(nat \<Rightarrow> byte) \<Rightarrow> nat \<Rightarrow> nat \<times> event list" where
  "reboot_round status n = (poll_loop status 0x10000 n, [Port8 CONTROL_REG 0xFE])"

text \<open>The first rounds of the endless loop.\<close>

fun reboot_rounds :: "(nat \<Rightarrow> byte) \<Rightarrow> nat \<Rightarrow> nat \<Rightarrow> event list" where
  "reboot_rounds status n 0 = []"
| "reboot_rounds status n (Suc rounds) = (let (n, es) = reboot_round status n in es @ reboot_rounds status n rounds)"

definition shutdown_reboot :: "(nat \<Rightarrow> byte) \<Rightarrow> nat \<Rightarrow> event list" where
  "shutdown_reboot status rounds = Say ''Rebooting...'' # reboot_rounds status 0 rounds"

datatype shutdown_type = SHUTDOWN_NONE | SHUTDOWN_POWER_OFF | SHUTDOWN_REBOOT

text \<open>\<open>None\<close> is a return to the caller.\<close>

definition shutdown :: "(nat \<Rightarrow> byte) \<Rightarrow> nat \<Rightarrow> shutdown_type \<Rightarrow> event list option" where
  "shutdown status rounds how = (case how of
     SHUTDOWN_POWER_OFF \<Rightarrow> Some shutdown_power_off | SHUTDOWN_REBOOT \<Rightarrow> Some (shutdown_reboot status rounds) | SHUTDOWN_NONE \<Rightarrow> None)"

text \<open>The pulse is sent when the controller reports that its input buffer is empty, if it does so within 65536 polls.\<close>

theorem poll_loop_ready:
  "poll_loop status k n \<le> n + k \<and> (poll_loop status k n < n + k \<longrightarrow> status (poll_loop status k n - 1) AND 0x02 = 0)"
proof (induction k arbitrary: n)
  case (Suc k)
  show ?case using Suc.IH [of "n + 1"] by auto
qed simp

section \<open>Panic\<close>

text \<open>\<open>level\<close> counts the panics before this one.\<close>

definition debug_panic :: "(nat \<Rightarrow> byte) \<Rightarrow> nat \<Rightarrow> shutdown_type \<Rightarrow> nat \<Rightarrow> event list" where
  "debug_panic status rounds how level =
     (if level + 1 = 1 then [Panic_message, Backtrace] else if level + 1 = 2 then [Say ''Kernel PANIC recursion''] else []) @
     Flush_serial # (case shutdown status rounds how of None \<Rightarrow> [] | Some es \<Rightarrow> es)"

text \<open>Buffered output is sent before the machine is switched off or reset, in a panic too, and the file system is written only when the
  machine is switched off.\<close>

definition stops_machine :: "event \<Rightarrow> bool" where
  "stops_machine e \<longleftrightarrow> (\<exists>p v. e = Port8 p v) \<or> (\<exists>p v. e = Port16 p v) \<or> e = Halt"

lemma reboot_rounds_set: "Flush_serial \<notin> set (reboot_rounds status n r)" "Filesys_done \<notin> set (reboot_rounds status n r)"
  by (induction r arbitrary: n; auto simp: reboot_round_def)+

theorem panic_flushes_first:
  "\<exists>a b. debug_panic status rounds how level = a @ Flush_serial # b \<and> (\<forall>e \<in> set a. \<not> stops_machine e) \<and>
     (Filesys_done \<in> set b \<longleftrightarrow> how = SHUTDOWN_POWER_OFF)"
proof (intro exI conjI)
  let ?a = "if level + 1 = 1 then [Panic_message, Backtrace] else if level + 1 = 2 then [Say ''Kernel PANIC recursion''] else []"
  let ?b = "case shutdown status rounds how of None \<Rightarrow> [] | Some es \<Rightarrow> es"
  show "debug_panic status rounds how level = ?a @ Flush_serial # ?b" by (simp only: debug_panic_def)
  show "\<forall>e \<in> set ?a. \<not> stops_machine e" by (auto simp: stops_machine_def)
  show "Filesys_done \<in> set ?b \<longleftrightarrow> how = SHUTDOWN_POWER_OFF"
    by (cases how) (auto simp: shutdown_def shutdown_power_off_def shutdown_reboot_def reboot_rounds_set)
qed

end
