(* ===== verification/Boot.thy ===== *)
theory Boot
  imports Fsutil Random_Numbers Shutdown
begin

text \<open>
  The kernel's command line, \<^verbatim>\<open>threads/init.c\<close>: splitting it into words, the options, the choice of the block devices, and the actions.
  A word is a byte string. Starting and waiting for a process, the time of the real time clock, and the contents of uninitialised
  memory are arguments.
\<close>

section \<open>Reading the command line\<close>

definition LOADER_ARGS_LEN :: nat where
  "LOADER_ARGS_LEN = 128"

text \<open>The loop over the arguments: \<open>p\<close> is the offset in the loader's buffer, and \<open>argv\<close> has room for \<^verbatim>\<open>LOADER_ARGS_LEN / 2 + 1\<close>
  pointers.\<close>

fun arg_loop :: "byte list \<Rightarrow> nat \<Rightarrow> nat \<Rightarrow> nat \<Rightarrow> nat list option" where
  "arg_loop args i 0 p = (if i < LOADER_ARGS_LEN div 2 + 1 then Some [] else None)"
| "arg_loop args i (Suc n) p =
     (if p \<ge> LOADER_ARGS_LEN then None
      else if i \<ge> LOADER_ARGS_LEN div 2 + 1 then None
      else do { ps \<leftarrow> arg_loop args (i + 1) n (p + length (takeWhile (\<lambda>c. c \<noteq> 0) (drop p args)) + 1); Some (p # ps) })"

fun strings_at :: "byte list \<Rightarrow> nat list \<Rightarrow> byte list list option" where
  "strings_at args [] = Some []"
| "strings_at args (p # ps) = do { s \<leftarrow> c_string (drop p args); ss \<leftarrow> strings_at args ps; Some (s # ss) }"

definition read_command_line :: "byte list \<Rightarrow> nat \<Rightarrow> byte list list option" where
  "read_command_line args argc = do { ps \<leftarrow> arg_loop args 0 argc 0; strings_at args ps }"

section \<open>Options\<close>

record boot =
  how :: shutdown_type
  format_filesys :: bool
  filesys_bdev_name :: "byte list option"
  scratch_bdev_name :: "byte list option"
  thread_mlfqs :: bool
  user_page_limit :: u32
  rnd :: random

text \<open>The two calls of \<^verbatim>\<open>strtok_r\<close> on a word that starts with a dash.\<close>

definition split_option :: "byte list \<Rightarrow> byte list \<times> byte list option" where
  "split_option a = (takeWhile (\<lambda>c. c \<noteq> 61) a,
     case dropWhile (\<lambda>c. c \<noteq> 61) a of [] \<Rightarrow> None | _ # v \<Rightarrow> if v = [] then None else Some v)"

definition atoi_text :: "byte list option \<Rightarrow> int option" where
  "atoi_text v = (case v of None \<Rightarrow> None | Some s \<Rightarrow> atoi 1 (0 # s @ [0]))"

text \<open>The effect of an option; \<open>Inl\<close> is the help message, after which the machine is switched off.\<close>

definition do_option :: "byte list \<Rightarrow> byte list option \<Rightarrow> boot \<Rightarrow> (unit + boot) option" where
  "do_option name v b =
     (if name = bytes_of ''-h'' then Some (Inl ())
      else if name = bytes_of ''-q'' then Some (Inr (b\<lparr>how := SHUTDOWN_POWER_OFF\<rparr>))
      else if name = bytes_of ''-r'' then Some (Inr (b\<lparr>how := SHUTDOWN_REBOOT\<rparr>))
      else if name = bytes_of ''-f'' then Some (Inr (b\<lparr>format_filesys := True\<rparr>))
      else if name = bytes_of ''-filesys'' then Some (Inr (b\<lparr>filesys_bdev_name := v\<rparr>))
      else if name = bytes_of ''-scratch'' then Some (Inr (b\<lparr>scratch_bdev_name := v\<rparr>))
      else if name = bytes_of ''-rs'' then do { n \<leftarrow> atoi_text v; Some (Inr (b\<lparr>rnd := random_init (of_int n) (rnd b)\<rparr>)) }
      else if name = bytes_of ''-mlfqs'' then Some (Inr (b\<lparr>thread_mlfqs := True\<rparr>))
      else if name = bytes_of ''-ul'' then do { n \<leftarrow> atoi_text v; Some (Inr (b\<lparr>user_page_limit := of_int n\<rparr>)) }
      else None)"

fun parse_options :: "u32 \<Rightarrow> byte list list \<Rightarrow> boot \<Rightarrow> (unit + byte list list \<times> boot) option" where
  "parse_options now [] b = Some (Inr ([], b\<lparr>rnd := random_init now (rnd b)\<rparr>))"
| "parse_options now (a # as) b =
     (if a \<noteq> [] \<and> hd a = 45 then do {
        let (name, v) = split_option a;
        r \<leftarrow> do_option name v b;
        case r of Inl _ \<Rightarrow> Some (Inl ()) | Inr b \<Rightarrow> parse_options now as b }
      else Some (Inr (a # as, b\<lparr>rnd := random_init now (rnd b)\<rparr>)))"

section \<open>Block devices\<close>

function first_of_type :: "blocks \<Rightarrow> block_type \<Rightarrow> nat \<Rightarrow> nat option" where
  "first_of_type bs role i =
     (if i < length (all_blocks bs) then if block_type_of (all_blocks bs ! i) = role then Some i else first_of_type bs role (i + 1) else None)"
  by auto
termination by (relation "measure (\<lambda>(bs, _, i). length (all_blocks bs) - i)") auto

declare first_of_type.simps [simp del]

definition locate_block_device :: "block_type \<Rightarrow> byte list option \<Rightarrow> blocks \<Rightarrow> blocks option" where
  "locate_block_device role name bs = do {
     b \<leftarrow> (case name of
         Some n \<Rightarrow> (case block_get_by_name bs n of None \<Rightarrow> None | Some i \<Rightarrow> Some (Some i))
       | None \<Rightarrow> Some (case block_first bs of None \<Rightarrow> None | Some i \<Rightarrow> first_of_type bs role i));
     case b of None \<Rightarrow> Some bs | Some i \<Rightarrow> block_set_role bs role (Some i) }"

definition locate_block_devices :: "boot \<Rightarrow> blocks \<Rightarrow> blocks option" where
  "locate_block_devices b bs = do {
     bs \<leftarrow> locate_block_device BLOCK_FILESYS (filesys_bdev_name b) bs;
     locate_block_device BLOCK_SCRATCH (scratch_bdev_name b) bs }"

section \<open>Actions\<close>

text \<open>What the actions need from their surroundings.\<close>

record action_env =
  run_process :: "byte list \<Rightarrow> util \<Rightarrow> util option"
  stack_junk :: "byte list"
  mem_ok :: bool
  heap_block :: "byte list option"
  heap_past :: byte

definition actions :: "(byte list \<times> nat) list" where
  "actions = [(bytes_of ''run'', 2), (bytes_of ''ls'', 1), (bytes_of ''cat'', 2), (bytes_of ''rm'', 2), (bytes_of ''extract'', 1),
     (bytes_of ''append'', 2)]"

definition do_action :: "action_env \<Rightarrow> byte list list \<Rightarrow> util \<Rightarrow> util option" where
  "do_action e argv u =
     (let name = argv ! 0 in
      if name = bytes_of ''run'' then run_process e (argv ! 1) u
      else if name = bytes_of ''ls'' then map_option snd (fsutil_ls u)
      else if name = bytes_of ''cat'' then map_option snd (fsutil_cat (stack_junk e) (mem_ok e) (argv ! 1) u)
      else if name = bytes_of ''rm'' then fsutil_rm (stack_junk e) (argv ! 1) u
      else if name = bytes_of ''extract'' then fsutil_extract (stack_junk e) (mem_ok e) u
      else fsutil_append (stack_junk e) (heap_block e) (heap_past e) (argv ! 1) u)"

function run_actions :: "action_env \<Rightarrow> byte list list \<Rightarrow> util \<Rightarrow> util option" where
  "run_actions e argv u =
     (case argv of [] \<Rightarrow> Some u
      | a # _ \<Rightarrow> (case map_of actions a of None \<Rightarrow> None
         | Some n \<Rightarrow> if length argv < n then None else do { u \<leftarrow> do_action e argv u; run_actions e (drop n argv) u }))"
  by auto
termination
proof (relation "measure (\<lambda>(_, argv, _). length argv)", goal_cases)
  case (2 e argv u a as n u')
  then show ?case by (auto simp: actions_def split: if_splits)
qed simp

declare run_actions.simps [simp del]

section \<open>The words of the command line\<close>

definition enc_words :: "byte list list \<Rightarrow> byte list" where
  "enc_words ws = concat (map (\<lambda>w. w @ [0]) ws)"

lemma arg_loop_words:
  assumes "\<forall>w \<in> set ws. 0 \<notin> set w" "length (pre @ enc_words ws @ rest) = LOADER_ARGS_LEN" "i + length ws \<le> 64"
  shows "\<exists>ps. arg_loop (pre @ enc_words ws @ rest) i (length ws) (length pre) = Some ps \<and>
    strings_at (pre @ enc_words ws @ rest) ps = Some ws"
  using assms
proof (induction ws arbitrary: i pre)
  case Nil
  then show ?case by (simp add: LOADER_ARGS_LEN_def)
next
  case (Cons w ws)
  let ?args = "pre @ enc_words (w # ws) @ rest"
  have e: "?args = (pre @ w @ [0]) @ enc_words ws @ rest" by (simp add: enc_words_def)
  have "0 \<notin> set w" using Cons.prems(1) by simp
  then have tw: "takeWhile (\<lambda>c. c \<noteq> 0) (w @ 0 # xs) = w" for xs by (induction w) auto
  then have w: "takeWhile (\<lambda>c. c \<noteq> 0) (drop (length pre) ?args) = w" "c_string (drop (length pre) ?args) = Some w"
    by (simp_all add: enc_words_def c_string_def)
  obtain ps where "arg_loop ?args (i + 1) (length ws) (length (pre @ w @ [0])) = Some ps" "strings_at ?args ps = Some ws"
    using Cons.IH [of "pre @ w @ [0]" "i + 1"] Cons.prems unfolding e by auto
  moreover have "length (pre @ w @ [0]) = length pre + length w + 1" by simp
  moreover have "length pre < LOADER_ARGS_LEN" using Cons.prems(2) by (simp add: enc_words_def)
  moreover have "i < LOADER_ARGS_LEN div 2 + 1" using Cons.prems(3) by (simp add: LOADER_ARGS_LEN_def)
  ultimately show ?case using w by (simp del: append_assoc)
qed

text \<open>The words that the loader has stored, at most 64 of them, are read back.\<close>

theorem command_line_roundtrip:
  assumes "\<forall>w \<in> set ws. 0 \<notin> set w" "length (enc_words ws @ rest) = LOADER_ARGS_LEN" "length ws \<le> 64"
  shows "read_command_line (enc_words ws @ rest) (length ws) = Some ws"
  using arg_loop_words [OF assms(1), of "[]" rest 0] assms(2,3) by (auto simp: read_command_line_def)

lemma arg_loop_count: "arg_loop args i n p = Some ps \<Longrightarrow> i + n \<le> 64"
  by (induction args i n p arbitrary: ps rule: arg_loop.induct) (auto simp: LOADER_ARGS_LEN_def split: if_splits elim!: bind_SomeE)

text \<open>More words overrun the array of pointers, even when they are empty and fit in the loader's buffer.\<close>

theorem command_line_overrun: "65 \<le> argc \<Longrightarrow> read_command_line args argc = None"
  using arg_loop_count [of args 0 argc 0] by (cases "arg_loop args 0 argc 0") (auto simp: read_command_line_def)

section \<open>The random seed\<close>

lemma do_option_rnd: "do_option name v b = Some (Inr b') \<Longrightarrow> random_init now (rnd b') = random_init now (rnd b)"
  by (auto simp: do_option_def random_init_again split: if_splits elim!: bind_SomeE)

text \<open>The seed given with the option \<^verbatim>\<open>-rs\<close> has no effect: after the options the generator is initialized with the time, whatever
  they were.\<close>

theorem seed_option_ignored: "parse_options now argv b = Some (Inr (rest, b')) \<Longrightarrow> rnd b' = random_init now (rnd b)"
proof (induction now argv b rule: parse_options.induct)
  case (2 now a as b)
  show ?case
  proof (cases "a \<noteq> [] \<and> hd a = 45")
    case True
    obtain name v where nv: "split_option a = (name, v)" by fastforce
    obtain r where r: "do_option name v b = Some r" using 2(2) True nv by (auto elim: bind_SomeE)
    then show ?thesis using 2 True nv do_option_rnd by (cases r) auto
  next
    case False
    then show ?thesis using 2(2) by auto
  qed
qed auto

definition boot0 :: boot where
  "boot0 = \<lparr>how = SHUTDOWN_NONE, format_filesys = False, filesys_bdev_name = None, scratch_bdev_name = None, thread_mlfqs = False,
     user_page_limit = - 1, rnd = \<lparr>s_arr = replicate 256 0, s_i = 0, s_j = 0, inited = False\<rparr>\<rparr>"

lemma seed_option_parses:
  "split_option (bytes_of ''-rs=7'') = (bytes_of ''-rs'', Some (bytes_of ''7''))"
  "atoi_text (Some (bytes_of ''7'')) = Some 7"
  "parse_options now [bytes_of ''-rs=7''] b = Some (Inr ([], b\<lparr>rnd := random_init now (random_init 7 (rnd b))\<rparr>))"
proof -
  show 1: "split_option (bytes_of ''-rs=7'') = (bytes_of ''-rs'', Some (bytes_of ''7''))" by code_simp
  show 2: "atoi_text (Some (bytes_of ''7'')) = Some 7" by code_simp
  have "bytes_of ''-rs=7'' \<noteq> [] \<and> hd (bytes_of ''-rs=7'') = 45" by code_simp
  moreover have "do_option (bytes_of ''-rs'') v b =
      do { n \<leftarrow> atoi_text v; Some (Inr (b\<lparr>rnd := random_init (of_int n) (rnd b)\<rparr>)) }" for v
    by (simp add: do_option_def bytes_of_def)
  ultimately show "parse_options now [bytes_of ''-rs=7''] b = Some (Inr ([], b\<lparr>rnd := random_init now (random_init 7 (rnd b))\<rparr>))"
    using 1 2 by simp
qed

theorem seed_option_ignored_witness:
  "parse_options 5 [bytes_of ''-rs=7''] boot0 = Some (Inr ([], boot0\<lparr>rnd := random_init 5 (rnd boot0)\<rparr>))"
  using seed_option_ignored [OF seed_option_parses(3) [of 5 boot0]] seed_option_parses(3) [of 5 boot0] by simp

section \<open>Choosing devices\<close>

lemma first_of_type_eq:
  "first_of_type bs role i = (case filter (\<lambda>j. blk_type (all_blocks bs ! j) = role) [i..<length (all_blocks bs)] of [] \<Rightarrow> None | j # _ \<Rightarrow> Some j)"
proof (induction bs role i rule: first_of_type.induct)
  case (1 bs role i)
  then show ?case by (subst first_of_type.simps) (auto simp: block_type_of_def upt_conv_Cons)
qed

text \<open>Without a name the first device of the type is chosen, if there is one; with a name the device of that name, and it is an error
  if there is none. Other roles and the devices do not change.\<close>

theorem locate_block_device_correct:
  assumes "is_role role"
  shows "locate_block_device role None bs = Some (case filter (\<lambda>j. blk_type (all_blocks bs ! j) = role) [0..<length (all_blocks bs)] of
      [] \<Rightarrow> bs | j # _ \<Rightarrow> bs\<lparr>block_by_role := (block_by_role bs)(role \<mapsto> j)\<rparr>)"
    "locate_block_device role (Some n) bs = map_option (\<lambda>j. bs\<lparr>block_by_role := (block_by_role bs)(role \<mapsto> j)\<rparr>) (block_get_by_name bs n)"
  using assms by (auto simp: locate_block_device_def block_first_def list_elem_to_block_def first_of_type_eq block_set_role_def split: list.split option.split)

section \<open>Actions run in order\<close>

lemma do_action_append:
  assumes "map_of actions a = Some n" "n \<le> length (a # as)"
  shows "do_action e (a # as @ bs) u = do_action e (a # as) u"
proof (cases "n = 1")
  case True
  then have "a = bytes_of ''ls'' \<or> a = bytes_of ''extract''" using assms(1) by (auto simp: actions_def split: if_splits)
  then show ?thesis by (auto simp: do_action_def bytes_of_def)
next
  case False
  then have "n = 2" using assms(1) by (auto simp: actions_def split: if_splits)
  then show ?thesis using assms(2) by (cases as) (simp_all add: do_action_def)
qed

text \<open>Actions that run to their end leave the state in which the following ones start.\<close>

theorem run_actions_append: "run_actions e as u = Some u' \<Longrightarrow> run_actions e (as @ bs) u = run_actions e bs u'"
proof (induction e as u arbitrary: u' rule: run_actions.induct)
  case (1 e argv u)
  show ?case
  proof (cases argv)
    case Nil
    then show ?thesis using 1(2) by (simp add: run_actions.simps [of e "[]"])
  next
    case (Cons a as)
    obtain n where n: "map_of actions a = Some n" "n \<le> length argv"
      using 1(2) Cons by (subst (asm) run_actions.simps) (auto split: option.splits if_splits)
    obtain u1 where u1: "do_action e argv u = Some u1" "run_actions e (drop n argv) u1 = Some u'"
      using 1(2) Cons n by (subst (asm) run_actions.simps) (auto elim: bind_SomeE)
    have "do_action e (argv @ bs) u = Some u1" using do_action_append n Cons u1(1) by simp
    moreover have "run_actions e (drop n argv @ bs) u1 = run_actions e bs u'"
      using 1(1) [OF Cons n(1) _ u1] n(2) by simp
    moreover have "drop n (argv @ bs) = drop n argv @ bs" using n(2) by simp
    ultimately show ?thesis using n Cons by (subst run_actions.simps) simp
  qed
qed

end
