(* ===== verification/Paging.thy ===== *)
theory Paging
  imports Page_Dir
begin

text \<open>
  The kernel's page directory, \<^verbatim>\<open>paging_init\<close> of \<^verbatim>\<open>threads/init.c\<close>. The pages that \<^verbatim>\<open>palloc_get_page\<close> returns are an argument: the
  directory and then the tables in the order in which they are needed. The kernel text lies from \<open>text_start\<close> up to \<open>text_end\<close>.
\<close>

section \<open>The code\<close>

definition in_kernel_text :: "u32 \<times> u32 \<Rightarrow> u32 \<Rightarrow> bool" where
  "in_kernel_text txt va \<longleftrightarrow> fst txt \<le> va \<and> va < snd txt"

text \<open>The table for an address, a new one if the directory has none, with the pages that are left and the current table.\<close>

definition paging_table :: "u32 \<Rightarrow> u32 \<Rightarrow> u32 list \<times> u32 option \<times> pmem \<Rightarrow> (u32 list \<times> u32 option \<times> pmem) option" where
  "paging_table pd va = (\<lambda>(ts, pt, m).
     if words m (entry pd (pd_no va)) = 0 then
       (case ts of [] \<Rightarrow> None
        | t # ts \<Rightarrow> do { e \<leftarrow> pde_create t; Some (ts, Some t, set_word (entry pd (pd_no va)) e (zero_page t m)) })
     else Some (ts, pt, m))"

text \<open>One round of the loop, for page number \<open>page\<close>.\<close>

definition paging_step :: "u32 \<times> u32 \<Rightarrow> u32 \<Rightarrow> nat \<Rightarrow> u32 list \<times> u32 option \<times> pmem \<Rightarrow> (u32 list \<times> u32 option \<times> pmem) option" where
  "paging_step txt pd page = (\<lambda>(ts, pt, m). do {
     let paddr = of_nat page * PGSIZE;
     va \<leftarrow> ptov paddr;
     (ts, pt, m) \<leftarrow> paging_table pd va (ts, pt, m);
     t \<leftarrow> pt;
     e \<leftarrow> pte_create_kernel va (\<not> in_kernel_text txt va);
     Some (ts, pt, set_word (entry t (pt_no va)) e m) })"

fun paging_loop :: "u32 \<times> u32 \<Rightarrow> u32 \<Rightarrow> nat \<Rightarrow> nat \<Rightarrow> u32 list \<times> u32 option \<times> pmem \<Rightarrow> (u32 list \<times> u32 option \<times> pmem) option" where
  "paging_loop txt pd page 0 s = Some s"
| "paging_loop txt pd page (Suc n) s = do { s \<leftarrow> paging_step txt pd page s; paging_loop txt pd (page + 1) n s }"

definition paging_init :: "u32 \<times> u32 \<Rightarrow> u32 list \<Rightarrow> pmem \<Rightarrow> pmem option" where
  "paging_init txt pages m = (case pages of [] \<Rightarrow> None
     | pd # ts \<Rightarrow> do {
         (_, _, m) \<leftarrow> paging_loop txt pd 0 (unat (init_ram_pages m)) (ts, None, (zero_page pd m)\<lparr>init_page_dir := pd\<rparr>);
         p \<leftarrow> vtop (init_page_dir m);
         Some (m\<lparr>cr3 := p, tlb := Map.empty\<rparr>) })"

section \<open>Kernel addresses\<close>

definition kva :: "nat \<Rightarrow> u32" where
  "kva page = PHYS_BASE + of_nat (4096 * page)"

lemma unat_kva: "page < 2 ^ 18 \<Longrightarrow> unat (kva page) = 0xC0000000 + 4096 * page"
  by (simp add: kva_def PHYS_BASE_def unat_word_ariths unat_of_nat del: of_nat_mult)

lemma kva_facts:
  assumes "page < 2 ^ 18"
  shows "ptov (of_nat page * PGSIZE) = Some (kva page)" "pg_ofs (kva page) = 0" "is_kernel_vaddr (kva page)"
    "pd_no (kva page) = of_nat (768 + page div 1024)" "pt_no (kva page) = of_nat (page mod 1024)"
    "unat (pd_no (kva page)) = 768 + page div 1024" "unat (pt_no (kva page)) = page mod 1024"
proof -
  have u: "unat (kva page) = 0xC0000000 + 4096 * page" by (rule unat_kva [OF assms])
  have "unat (of_nat page * 4096 :: u32) = 4096 * page" using assms by (simp add: unat_word_ariths unat_of_nat)
  then show "ptov (of_nat page * PGSIZE) = Some (kva page)"
    using assms by (simp add: ptov_def PGSIZE_eq kva_def PHYS_BASE_def word_less_nat_alt)
  show "pg_ofs (kva page) = 0" using u by (simp add: word_unat_eq_iff unat_pg_ofs)
  show "is_kernel_vaddr (kva page)" using u by (simp add: is_kernel_vaddr_def PHYS_BASE_def word_le_nat_alt)
  show d: "unat (pd_no (kva page)) = 768 + page div 1024"
  proof -
    have "(0xC0000000 + 4096 * page) div 2 ^ 22 = 768 + page div 1024"
      using div_mult2_eq [of "0xC0000000 + 4096 * page" 4096 1024] by simp
    then show ?thesis unfolding unat_pd_no u .
  qed
  show t: "unat (pt_no (kva page)) = page mod 1024" using u by (simp add: unat_pt_no mod_add_eq [symmetric])
  have "page div 1024 < 256" using assms by (simp add: less_mult_imp_div_less)
  then show "pd_no (kva page) = of_nat (768 + page div 1024)" using d by (simp add: word_unat_eq_iff unat_of_nat del: of_nat_add)
  show "pt_no (kva page) = of_nat (page mod 1024)" using t by (simp add: word_unat_eq_iff unat_of_nat)
qed

section \<open>The loop fills the directory\<close>

definition pages_ok :: "u32 \<Rightarrow> u32 list \<Rightarrow> bool" where
  "pages_ok pd T \<longleftrightarrow> distinct (pd # T) \<and> (\<forall>p \<in> set (pd # T). pg_ofs p = 0 \<and> is_kernel_vaddr p)"

definition tables_for :: "nat \<Rightarrow> nat" where
  "tables_for k = (k + 1023) div 1024"

definition kernel_pte :: "u32 \<times> u32 \<Rightarrow> nat \<Rightarrow> u32" where
  "kernel_pte txt p = the (pte_create_kernel (kva p) (\<not> in_kernel_text txt (kva p)))"

definition dir_filled :: "u32 \<Rightarrow> u32 list \<Rightarrow> nat \<Rightarrow> pmem \<Rightarrow> bool" where
  "dir_filled pd T c m \<longleftrightarrow> (\<forall>i. unat i < 1024 \<longrightarrow> words m (entry pd i) =
     (if 768 \<le> unat i \<and> unat i - 768 < c then the (pde_create (T ! (unat i - 768))) else 0))"

definition tables_filled :: "u32 \<times> u32 \<Rightarrow> u32 list \<Rightarrow> nat \<Rightarrow> pmem \<Rightarrow> bool" where
  "tables_filled txt T k m \<longleftrightarrow> (\<forall>p < k. words m (entry (T ! (p div 1024)) (pt_no (kva p))) = kernel_pte txt p)"

definition paging_inv :: "u32 \<times> u32 \<Rightarrow> u32 \<Rightarrow> u32 list \<Rightarrow> nat \<Rightarrow> u32 list \<times> u32 option \<times> pmem \<Rightarrow> bool" where
  "paging_inv txt pd T k s \<longleftrightarrow> (case s of (ts, pt, m) \<Rightarrow> ts = drop (tables_for k) T \<and>
     (0 < k \<longrightarrow> pt = Some (T ! (tables_for k - 1))) \<and> dir_filled pd T (tables_for k) m \<and> tables_filled txt T k m)"

lemma tables_for_step:
  "k mod 1024 = 0 \<Longrightarrow> tables_for k = k div 1024 \<and> tables_for (Suc k) = Suc (k div 1024)"
  "k mod 1024 \<noteq> 0 \<Longrightarrow> tables_for k = Suc (k div 1024) \<and> tables_for (Suc k) = Suc (k div 1024)"
proof -
  obtain q r where k: "k = q * 1024 + r" "r < 1024" using div_mult_mod_eq [of k 1024] by (metis mod_less_divisor zero_less_numeral)
  have d: "k div 1024 = q" "k mod 1024 = r" using k by simp_all
  have s: "tables_for (q * 1024 + x) = q + (x + 1023) div 1024" for x by (simp add: tables_for_def add.assoc)
  show "k mod 1024 = 0 \<Longrightarrow> tables_for k = k div 1024 \<and> tables_for (Suc k) = Suc (k div 1024)"
    unfolding d using s [of 0] s [of 1] k(1) by simp
  have "(r + 1023) div 1024 = 1" "(Suc r + 1023) div 1024 = 1" if "r \<noteq> 0" by (rule div_nat_eqI; use that k(2) in simp)+
  then show "k mod 1024 \<noteq> 0 \<Longrightarrow> tables_for k = Suc (k div 1024) \<and> tables_for (Suc k) = Suc (k div 1024)"
    unfolding d using s [of r] s [of "Suc r"] k(1) by simp
qed

lemma pde_made:
  assumes "pages_ok pd T" "j < length T"
  shows "pde_create (T ! j) = Some (the (pde_create (T ! j)))" "the (pde_create (T ! j)) \<noteq> 0" "pde_get_pt (the (pde_create (T ! j))) = Some (T ! j)"
proof -
  have "pg_ofs (T ! j) = 0" "is_kernel_vaddr (T ! j)" using assms by (auto simp: pages_ok_def)
  then have "\<exists>e. pde_create (T ! j) = Some e" by (simp add: pde_create_def vtop_def)
  then obtain e where "pde_create (T ! j) = Some e" by blast
  then show "pde_create (T ! j) = Some (the (pde_create (T ! j)))" "the (pde_create (T ! j)) \<noteq> 0" "pde_get_pt (the (pde_create (T ! j))) = Some (T ! j)"
    using pde_create_get [of "T ! j" e] by simp_all
qed

lemma pte_made: "p < 2 ^ 18 \<Longrightarrow> pte_create_kernel (kva p) (\<not> in_kernel_text txt (kva p)) = Some (kernel_pte txt p)"
  using kva_facts(2,3) [of p] by (simp add: kernel_pte_def pte_create_kernel_def vtop_def)

text \<open>A write to a table leaves the directory and the entries of other pages alone.\<close>

lemma set_pte_dir:
  assumes "pages_ok pd T" "j < length T" "dir_filled pd T c m"
  shows "dir_filled pd T c (set_word (entry (T ! j) (pt_no va)) e m)"
proof -
  have "pg_ofs pd = 0" "pg_ofs (T ! j) = 0" "pd \<noteq> T ! j" using assms(1,2) by (auto simp: pages_ok_def)
  then have "entry pd i \<noteq> entry (T ! j) (pt_no va)" if "unat i < 1024" for i using entry_eq [OF _ _ that pt_no_less] by blast
  then show ?thesis using assms(3) by (simp add: dir_filled_def set_word_def)
qed

lemma set_pte_tables:
  assumes "pages_ok pd T" "k < 2 ^ 18" "k div 1024 < length T" "tables_filled txt T k m"
  shows "tables_filled txt T (Suc k) (set_word (entry (T ! (k div 1024)) (pt_no (kva k))) (kernel_pte txt k) m)"
proof -
  have "entry (T ! (p div 1024)) (pt_no (kva p)) \<noteq> entry (T ! (k div 1024)) (pt_no (kva k))" if "p < k" for p
  proof
    assume e: "entry (T ! (p div 1024)) (pt_no (kva p)) = entry (T ! (k div 1024)) (pt_no (kva k))"
    have l: "p div 1024 < length T" using that assms(3) div_le_mono [of p k 1024] by simp
    have a: "pg_ofs (T ! (p div 1024)) = 0" "pg_ofs (T ! (k div 1024)) = 0" using assms(1,3) l by (auto simp: pages_ok_def)
    have "T ! (p div 1024) = T ! (k div 1024)" "pt_no (kva p) = pt_no (kva k)"
      using e entry_eq [OF a pt_no_less pt_no_less] by auto
    then have "p div 1024 = k div 1024" "p mod 1024 = k mod 1024"
      using assms(1-3) l nth_eq_iff_index_eq [of T] kva_facts(7) [of p] kva_facts(7) [of k] that by (auto simp: pages_ok_def)
    then have "p = k" by (metis div_mult_mod_eq)
    then show False using that by simp
  qed
  then show ?thesis using assms(4) by (auto simp: tables_filled_def set_word_def less_Suc_eq)
qed

lemma new_table_keeps:
  assumes "pages_ok pd T" "c < length T" "k \<le> c * 1024" "768 + c < 1024" "dir_filled pd T c m" "tables_filled txt T k m" "unat i = 768 + c"
  shows "dir_filled pd T (Suc c) (set_word (entry pd i) (the (pde_create (T ! c))) (zero_page (T ! c) m))"
    "tables_filled txt T k (set_word (entry pd i) (the (pde_create (T ! c))) (zero_page (T ! c) m))"
proof -
  have al: "pg_ofs pd = 0" "\<And>j. j < length T \<Longrightarrow> pg_ofs (T ! j) = 0 \<and> T ! j \<noteq> pd" "\<And>j. j < length T \<Longrightarrow> j \<noteq> c \<Longrightarrow> T ! j \<noteq> T ! c"
    using assms(1,2) by (auto simp: pages_ok_def nth_eq_iff_index_eq)
  have pn: "pg_no (entry s j) \<noteq> pg_no (T ! c)" if "pg_ofs s = 0" "s \<noteq> T ! c" "unat j < 1024" for s j
    using pg_no_entry [OF that(1,3)] aligned_eq [OF that(1)] al(2) [OF assms(2)] that(2) by simp
  have i: "unat i < 1024" using assms(4,7) by simp
  have zd: "words (zero_page (T ! c) m) (entry pd j) = words m (entry pd j)" if "unat j < 1024" for j
    using pn [OF al(1) _ that] al(2) [OF assms(2)] by (auto simp: zero_page_def)
  have ie: "entry pd j = entry pd i \<longleftrightarrow> unat j = 768 + c" if "unat j < 1024" for j
    using entry_eq [OF al(1) al(1) that i] assms(7) by (auto simp: word_unat_eq_iff)
  show "dir_filled pd T (Suc c) (set_word (entry pd i) (the (pde_create (T ! c))) (zero_page (T ! c) m))"
    unfolding dir_filled_def
  proof (intro allI impI)
    fix j :: u32 assume j: "unat j < 1024"
    show "words (set_word (entry pd i) (the (pde_create (T ! c))) (zero_page (T ! c) m)) (entry pd j) =
        (if 768 \<le> unat j \<and> unat j - 768 < Suc c then the (pde_create (T ! (unat j - 768))) else 0)"
      using zd [OF j] ie [OF j] assms(5) j unfolding dir_filled_def by (auto simp: set_word_def less_Suc_eq)
  qed
  have "words (set_word (entry pd i) (the (pde_create (T ! c))) (zero_page (T ! c) m)) (entry (T ! (p div 1024)) (pt_no (kva p))) =
      words m (entry (T ! (p div 1024)) (pt_no (kva p)))" if "p < k" for p
  proof -
    have l: "p div 1024 < c" using that assms(3) by (simp add: less_mult_imp_div_less mult.commute)
    then have a: "pg_ofs (T ! (p div 1024)) = 0" "T ! (p div 1024) \<noteq> pd" "T ! (p div 1024) \<noteq> T ! c" using al(2,3) assms(2) by auto
    have "entry (T ! (p div 1024)) (pt_no (kva p)) \<noteq> entry pd i" using entry_eq [OF a(1) al(1) pt_no_less i] a(2) by blast
    then show ?thesis using pn [OF a(1,3) pt_no_less] by (simp add: set_word_def zero_page_def)
  qed
  then show "tables_filled txt T k (set_word (entry pd i) (the (pde_create (T ! c))) (zero_page (T ! c) m))"
    using assms(6) by (simp add: tables_filled_def)
qed

lemma paging_step_inv:
  assumes "pages_ok pd T" "k < 2 ^ 18" "k div 1024 < length T" "paging_inv txt pd T k s"
  shows "\<exists>s'. paging_step txt pd k s = Some s' \<and> paging_inv txt pd T (Suc k) s'"
proof -
  let ?c = "k div 1024" let ?t = "T ! ?c"
  obtain ts pt m where s: "s = (ts, pt, m)" by (cases s)
  have inv: "ts = drop (tables_for k) T" "0 < k \<longrightarrow> pt = Some (T ! (tables_for k - 1))" "dir_filled pd T (tables_for k) m" "tables_filled txt T k m"
    using assms(4) by (auto simp: s paging_inv_def)
  note kv = kva_facts [OF assms(2)]
  have c: "?c < 256" using assms(2) by (simp add: less_mult_imp_div_less)
  have d: "words m (entry pd (pd_no (kva k))) = (if ?c < tables_for k then the (pde_create ?t) else 0)"
    using inv(3) kv(6) c by (simp add: dir_filled_def)
  have "\<exists>m1. paging_table pd (kva k) (ts, pt, m) = Some (drop (Suc ?c) T, Some ?t, m1) \<and> dir_filled pd T (Suc ?c) m1 \<and> tables_filled txt T k m1"
  proof (cases "k mod 1024 = 0")
    case True
    have tf: "tables_for k = ?c" using tables_for_step(1) [OF True] by simp
    have "ts = ?t # drop (Suc ?c) T" using inv(1) tf Cons_nth_drop_Suc [OF assms(3)] by simp
    moreover have "k \<le> ?c * 1024" using True by (metis add.right_neutral div_mult_mod_eq order_refl)
    moreover obtain e where e: "pde_create ?t = Some e" using pde_made(1) [OF assms(1,3)] by blast
    ultimately show ?thesis
      using new_table_keeps [OF assms(1,3) _ _ _ inv(4), of "pd_no (kva k)"] d tf inv(3) kv(6) c by (simp add: paging_table_def)
  next
    case False
    have tf: "tables_for k = Suc ?c" using tables_for_step(2) [OF False] by simp
    moreover have "0 < k" using False by (cases k) auto
    ultimately show ?thesis using inv d pde_made(2) [OF assms(1,3)] by (simp add: paging_table_def)
  qed
  then obtain m1 where m1: "paging_table pd (kva k) (ts, pt, m) = Some (drop (Suc ?c) T, Some ?t, m1)" "dir_filled pd T (Suc ?c) m1" "tables_filled txt T k m1" by blast
  let ?m = "set_word (entry ?t (pt_no (kva k))) (kernel_pte txt k) m1"
  have "tables_for (Suc k) = Suc ?c" using tables_for_step [of k] by (cases "k mod 1024 = 0") auto
  then have "paging_inv txt pd T (Suc k) (drop (Suc ?c) T, Some ?t, ?m)"
    using set_pte_dir [OF assms(1,3) m1(2)] set_pte_tables [OF assms(1-3) m1(3)] by (simp add: paging_inv_def)
  moreover have "paging_step txt pd k s = Some (drop (Suc ?c) T, Some ?t, ?m)"
    unfolding paging_step_def s using m1(1) kv(1) pte_made [OF assms(2)] by simp
  ultimately show ?thesis by blast
qed

lemma paging_loop_inv:
  assumes "pages_ok pd T" "k + n \<le> 2 ^ 18" "k + n \<le> 1024 * length T" "paging_inv txt pd T k s"
  shows "\<exists>s'. paging_loop txt pd k n s = Some s' \<and> paging_inv txt pd T (k + n) s'"
  using assms(2-)
proof (induction n arbitrary: k s)
  case (Suc n)
  have "k div 1024 < length T" using Suc.prems(2) by (intro less_mult_imp_div_less) simp
  then obtain s1 where "paging_step txt pd k s = Some s1" "paging_inv txt pd T (Suc k) s1"
    using paging_step_inv [OF assms(1) _ _ Suc.prems(3)] Suc.prems(1) by auto
  then show ?case using Suc.IH [of "Suc k" s1] Suc.prems by simp
qed simp

lemma paging_table_fields: "paging_table pd va (ts, pt, m) = Some (ts', pt', m') \<Longrightarrow> init_page_dir m' = init_page_dir m"
  by (auto simp: paging_table_def bind_eq_Some_conv set_word_def zero_page_def split: if_splits list.splits)

lemma paging_step_fields:
  assumes "paging_step txt pd k (ts, pt, m) = Some (ts', pt', m')"
  shows "init_page_dir m' = init_page_dir m"
proof -
  have "\<exists>va ts1 pt1 m1 a e. paging_table pd va (ts, pt, m) = Some (ts1, pt1, m1) \<and> m' = set_word a e m1"
    using assms unfolding paging_step_def Let_def prod.case by (elim bind_SomeE) (auto elim!: bind_SomeE, blast)
  then show ?thesis using paging_table_fields by (auto simp: set_word_def)
qed

lemma paging_loop_fields: "paging_loop txt pd k n s = Some s' \<Longrightarrow> init_page_dir (snd (snd s')) = init_page_dir (snd (snd s))"
proof (induction n arbitrary: k s)
  case (Suc n)
  then obtain s1 where s1: "paging_step txt pd k s = Some s1" "paging_loop txt pd (k + 1) n s1 = Some s'" by (auto elim: bind_SomeE)
  have "init_page_dir (snd (snd s1)) = init_page_dir (snd (snd s))"
    using paging_step_fields [of _ pd k "fst s" "fst (snd s)" "snd (snd s)" "fst s1" "fst (snd s1)" "snd (snd s1)"] s1(1) by simp
  then show ?case using Suc.IH [OF s1(2)] by simp
qed simp

lemma kernel_pte_get:
  assumes "p < 2 ^ 18"
  shows "pte_get_page (kernel_pte txt p) = Some (kva p)" "kernel_pte txt p AND PTE_W \<noteq> 0 \<longleftrightarrow> \<not> in_kernel_text txt (kva p)"
proof -
  let ?w = "\<not> in_kernel_text txt (kva p)"
  have "pte_create_kernel (kva p) ?w = Some (kernel_pte txt p)" by (rule pte_made [OF assms])
  then have u: "pte_create_user (kva p) ?w = Some (kernel_pte txt p OR PTE_U)" by (simp add: pte_create_user_def)
  have z: "PTE_U AND PTE_ADDR = 0" "PTE_U AND PTE_W = 0" by (simp_all add: PTE_U_def PTE_ADDR_def PTE_W_def)
  have "(kernel_pte txt p OR PTE_U) AND PTE_ADDR = kernel_pte txt p AND PTE_ADDR" "(kernel_pte txt p OR PTE_U) AND PTE_W = kernel_pte txt p AND PTE_W"
    using z by (simp_all add: bit.conj_disj_distrib2)
  then show "pte_get_page (kernel_pte txt p) = Some (kva p)" "kernel_pte txt p AND PTE_W \<noteq> 0 \<longleftrightarrow> \<not> in_kernel_text txt (kva p)"
    using pte_create_get(1,4) [OF u] by (simp_all add: pte_get_page_def)
qed

text \<open>C36: \<^verbatim>\<open>paging_init\<close> maps all of physical memory, if that is at most 1 GB: with enough pages for its tables it returns, the page directory in use
  is the new one, every page of memory is mapped at its kernel address, read-only exactly when it lies in the kernel text, and no user
  address is mapped.\<close>

theorem paging_init_maps:
  assumes "pages_ok pd T" "unat (init_ram_pages m) \<le> 2 ^ 18" "unat (init_ram_pages m) \<le> 1024 * length T"
  shows "\<exists>m'. paging_init txt (pd # T) m = Some m' \<and> init_page_dir m' = pd \<and> active_pd m' = Some pd \<and>
    (\<forall>p < unat (init_ram_pages m). pte_of pd (words m') (kva p) = kernel_pte txt p \<and>
       pte_get_page (kernel_pte txt p) = Some (kva p) \<and> (kernel_pte txt p AND PTE_W \<noteq> 0 \<longleftrightarrow> \<not> in_kernel_text txt (kva p))) \<and>
    (\<forall>va. is_user_vaddr va \<longrightarrow> pte_of pd (words m') va = 0)"
proof -
  let ?n = "unat (init_ram_pages m)" let ?m0 = "(zero_page pd m)\<lparr>init_page_dir := pd\<rparr>"
  have pd: "pg_ofs pd = 0" "is_kernel_vaddr pd" using assms(1) by (auto simp: pages_ok_def)
  have "words ?m0 (entry pd i) = 0" if "unat i < 1024" for i using pg_no_entry [OF pd(1) that] by (simp add: zero_page_def)
  then have "paging_inv txt pd T 0 (T, None, ?m0)" by (simp add: paging_inv_def tables_for_def dir_filled_def tables_filled_def)
  then obtain ts pt m1 where lp: "paging_loop txt pd 0 ?n (T, None, ?m0) = Some (ts, pt, m1)" and inv: "paging_inv txt pd T ?n (ts, pt, m1)"
    using paging_loop_inv [OF assms(1), of 0 ?n] assms(2,3) by (metis add_0 prod_cases3)
  have ipd: "init_page_dir m1 = pd" using paging_loop_fields [OF lp] by simp
  obtain q where q: "vtop pd = Some q" using pd(2) by (simp add: vtop_def)
  let ?m = "m1\<lparr>cr3 := q, tlb := Map.empty\<rparr>"
  have df: "dir_filled pd T (tables_for ?n) m1" and tf: "tables_filled txt T ?n m1" using inv by (auto simp: paging_inv_def)
  have user: "pte_of pd (words m1) va = 0" if "is_user_vaddr va" for va
    using df pd_no_less [of va] that user_pd_no [of va] by (simp add: dir_filled_def pte_of_def table_at_def)
  have kern: "pte_of pd (words m1) (kva p) = kernel_pte txt p" if "p < ?n" for p
  proof -
    have p: "p < 2 ^ 18" using that assms(2) by simp
    note kv = kva_facts [OF p]
    have l: "p div 1024 < length T" using that assms(3) by (intro less_mult_imp_div_less) simp
    have "p div 1024 < tables_for ?n"
    proof -
      have "p div 1024 < tables_for (Suc p)" using tables_for_step [of p] by (cases "p mod 1024 = 0") auto
      also have "tables_for (Suc p) \<le> tables_for ?n" using that by (simp add: tables_for_def div_le_mono)
      finally show ?thesis .
    qed
    then have "words m1 (entry pd (pd_no (kva p))) = the (pde_create (T ! (p div 1024)))"
      using df kv(6) pd_no_less [of "kva p"] by (simp add: dir_filled_def)
    then have "table_at pd (words m1) (pd_no (kva p)) = Some (T ! (p div 1024))" using pde_made [OF assms(1) l] by (simp add: table_at_def)
    then show ?thesis using tf that by (simp add: pte_of_def tables_filled_def)
  qed
  have ent: "pte_get_page (kernel_pte txt p) = Some (kva p)" "kernel_pte txt p AND PTE_W \<noteq> 0 \<longleftrightarrow> \<not> in_kernel_text txt (kva p)" if "p < ?n" for p
    using kernel_pte_get that assms(2) by auto
  have "paging_init txt (pd # T) m = Some ?m" using lp ipd q by (simp add: paging_init_def)
  moreover have "active_pd ?m = Some pd" using vtop_ptov [OF q] by (simp add: active_pd_def)
  ultimately show ?thesis using ipd kern ent user by (intro exI [of _ ?m]) auto
qed

theorem paging_init_maps_witness:
  "\<exists>m'. paging_init (0xC0001000, 0xC0002000) [0xC0100000, 0xC0101000]
      \<lparr>words = \<lambda>_. 7, init_page_dir = 0, init_ram_pages = 3, cr3 = 0, tlb = Map.empty\<rparr> = Some m' \<and> active_pd m' = Some 0xC0100000 \<and>
    pte_get_page (pte_of 0xC0100000 (words m') (kva 1)) = Some 0xC0001000 \<and> pte_of 0xC0100000 (words m') (kva 1) AND PTE_W = 0 \<and>
    pte_of 0xC0100000 (words m') (kva 2) AND PTE_W \<noteq> 0"
proof -
  let ?m = "\<lparr>words = \<lambda>_. 7, init_page_dir = 0, init_ram_pages = 3, cr3 = 0, tlb = Map.empty\<rparr>" let ?t = "(0xC0001000, 0xC0002000)"
  have "pages_ok 0xC0100000 [0xC0101000]" by (simp add: pages_ok_def addr_defs)
  moreover have "unat (init_ram_pages ?m) = 3" by simp
  ultimately obtain m' where m': "paging_init ?t [0xC0100000, 0xC0101000] ?m = Some m'" "active_pd m' = Some 0xC0100000"
      "\<forall>p < 3. pte_of 0xC0100000 (words m') (kva p) = kernel_pte ?t p \<and> pte_get_page (kernel_pte ?t p) = Some (kva p) \<and>
        (kernel_pte ?t p AND PTE_W \<noteq> 0 \<longleftrightarrow> \<not> in_kernel_text ?t (kva p))"
    using paging_init_maps [of "0xC0100000" "[0xC0101000]" ?m ?t] by auto
  have k: "kva 1 = 0xC0001000" "kva 2 = 0xC0002000" by (simp_all add: kva_def PHYS_BASE_def)
  have "in_kernel_text ?t (kva 1)" "\<not> in_kernel_text ?t (kva 2)" unfolding k by (simp_all add: in_kernel_text_def)
  moreover have "(1 :: nat) < 3" "(2 :: nat) < 3" by simp_all
  ultimately have "pte_of 0xC0100000 (words m') (kva 1) AND PTE_W = 0" "pte_of 0xC0100000 (words m') (kva 2) AND PTE_W \<noteq> 0"
    "pte_get_page (pte_of 0xC0100000 (words m') (kva 1)) = Some (kva 1)" using m'(3) by metis+
  then show ?thesis using m'(1,2) unfolding k by blast
qed

end
