(* ===== verification/Serial.thy ===== *)
theory Serial
  imports Intq
begin

text \<open>
  The serial port (\<^verbatim>\<open>devices/serial.c\<close>) and the input buffer that it shares with the keyboard (\<^verbatim>\<open>devices/input.c\<close>), as one thread or
  interrupt handler sees them while interrupts are off. The hardware is a function that gives what the \<open>n\<close>-th read of a port returns;
  what is written to the ports is a sequence. An operation on a queue that has to wait is \<open>None\<close> here: the waiting is modelled in \<open>Intq\<close>.
\<close>

section \<open>Ports\<close>

type_synonym hardware = "nat \<Rightarrow> nat \<Rightarrow> byte"

definition IO_BASE :: nat where "IO_BASE = 0x3F8"
definition RBR_REG :: nat where "RBR_REG = IO_BASE + 0"
definition THR_REG :: nat where "THR_REG = IO_BASE + 0"
definition IER_REG :: nat where "IER_REG = IO_BASE + 1"
definition LS_REG :: nat where "LS_REG = IO_BASE + 0"
definition MS_REG :: nat where "MS_REG = IO_BASE + 1"
definition IIR_REG :: nat where "IIR_REG = IO_BASE + 2"
definition FCR_REG :: nat where "FCR_REG = IO_BASE + 2"
definition LCR_REG :: nat where "LCR_REG = IO_BASE + 3"
definition MCR_REG :: nat where "MCR_REG = IO_BASE + 4"
definition LSR_REG :: nat where "LSR_REG = IO_BASE + 5"

definition IER_RECV :: byte where "IER_RECV = 0x01"
definition IER_XMIT :: byte where "IER_XMIT = 0x02"
definition LCR_N81 :: byte where "LCR_N81 = 0x03"
definition LCR_DLAB :: byte where "LCR_DLAB = 0x80"
definition MCR_OUT2 :: byte where "MCR_OUT2 = 0x08"
definition LSR_DR :: byte where "LSR_DR = 0x01"
definition LSR_THRE :: byte where "LSR_THRE = 0x20"

lemmas serial_regs = IO_BASE_def RBR_REG_def THR_REG_def IER_REG_def LS_REG_def MS_REG_def IIR_REG_def FCR_REG_def LCR_REG_def
  MCR_REG_def LSR_REG_def

lemmas serial_bits = IER_RECV_def IER_XMIT_def LCR_N81_def LCR_DLAB_def MCR_OUT2_def LSR_DR_def LSR_THRE_def

datatype serial_mode = UNINIT | POLL | QUEUE

record devs =
  inbuf :: intq
  txq :: intq
  smode :: serial_mode
  outs :: "(nat \<times> byte) list"
  reads :: nat

definition outb :: "nat \<Rightarrow> byte \<Rightarrow> devs \<Rightarrow> devs" where
  "outb port v d = d\<lparr>outs := outs d @ [(port, v)]\<rparr>"

definition inb :: "hardware \<Rightarrow> nat \<Rightarrow> devs \<Rightarrow> byte \<times> devs" where
  "inb hw port d = (hw (reads d) port, d\<lparr>reads := reads d + 1\<rparr>)"

section \<open>Set-up and the input buffer\<close>

definition set_serial :: "int \<Rightarrow> devs \<Rightarrow> devs option" where
  "set_serial bps d = (if bps = 0 then None else do {
     let divisor = (of_int (115200 div bps) :: 16 word);
     ASSERT (bps \<ge> 300 \<and> bps \<le> 115200);
     Some (outb LCR_REG LCR_N81 (outb MS_REG (ucast (drop_bit 8 divisor)) (outb LS_REG (ucast (divisor AND 0xFF))
       (outb LCR_REG (LCR_N81 OR LCR_DLAB) d)))) })"

definition init_poll :: "devs \<Rightarrow> devs option" where
  "init_poll d = do {
     ASSERT (smode d = UNINIT);
     d \<leftarrow> set_serial 9600 (outb FCR_REG 0 (outb IER_REG 0 d));
     let d = outb MCR_REG MCR_OUT2 d;
     Some (d\<lparr>txq := intq_init (txq d), smode := POLL\<rparr>) }"

definition input_init :: "devs \<Rightarrow> devs" where
  "input_init d = d\<lparr>inbuf := intq_init (inbuf d)\<rparr>"

definition input_full :: "devs \<Rightarrow> bool" where
  "input_full d = intq_full (inbuf d)"

definition write_ier :: "devs \<Rightarrow> devs" where
  "write_ier d = outb IER_REG ((if \<not> intq_empty (txq d) then IER_XMIT else 0) OR (if \<not> input_full d then IER_RECV else 0)) d"

definition serial_notify :: "devs \<Rightarrow> devs" where
  "serial_notify d = (if smode d = QUEUE then write_ier d else d)"

definition serial_init_queue :: "devs \<Rightarrow> devs option" where
  "serial_init_queue d = do {
     d \<leftarrow> (if smode d = UNINIT then init_poll d else Some d);
     ASSERT (smode d = POLL);
     Some (write_ier (d\<lparr>smode := QUEUE\<rparr>)) }"

definition input_putc :: "byte \<Rightarrow> devs \<Rightarrow> devs option" where
  "input_putc key d = do {
     ASSERT (\<not> intq_full (inbuf d));
     (_, q) \<leftarrow> add_byte key (inbuf d);
     Some (serial_notify (d\<lparr>inbuf := q\<rparr>)) }"

definition input_getc :: "devs \<Rightarrow> (byte \<times> devs) option" where
  "input_getc d = do {
     ASSERT (\<not> intq_empty (inbuf d));
     (key, _, q) \<leftarrow> take_byte (inbuf d);
     Some (key, serial_notify (d\<lparr>inbuf := q\<rparr>)) }"

section \<open>Sending and receiving\<close>

partial_function (option) putc_poll :: "hardware \<Rightarrow> byte \<Rightarrow> devs \<Rightarrow> devs option" where
  "putc_poll hw b d =
     (let (x, d) = inb hw LSR_REG d in if x AND LSR_THRE = 0 then putc_poll hw b d else Some (outb THR_REG b d))"

definition get_tx :: "devs \<Rightarrow> (byte \<times> devs) option" where
  "get_tx d = do { ASSERT (\<not> intq_empty (txq d)); (b, _, q) \<leftarrow> take_byte (txq d); Some (b, d\<lparr>txq := q\<rparr>) }"

definition serial_putc :: "hardware \<Rightarrow> bool \<Rightarrow> byte \<Rightarrow> devs \<Rightarrow> devs option" where
  "serial_putc hw intr_on b d =
     (if smode d \<noteq> QUEUE then do {
        d \<leftarrow> (if smode d = UNINIT then init_poll d else Some d);
        putc_poll hw b d }
      else do {
        d \<leftarrow> (if \<not> intr_on \<and> intq_full (txq d) then do { (c, d) \<leftarrow> get_tx d; putc_poll hw c d } else Some d);
        ASSERT (\<not> intq_full (txq d));
        (_, q) \<leftarrow> add_byte b (txq d);
        Some (write_ier (d\<lparr>txq := q\<rparr>)) })"

partial_function (option) serial_flush :: "hardware \<Rightarrow> devs \<Rightarrow> devs option" where
  "serial_flush hw d =
     (if \<not> intq_empty (txq d) then do { (c, d) \<leftarrow> get_tx d; d \<leftarrow> putc_poll hw c d; serial_flush hw d } else Some d)"

partial_function (option) recv_loop :: "hardware \<Rightarrow> devs \<Rightarrow> devs option" where
  "recv_loop hw d =
     (if input_full d then Some d
      else let (x, d) = inb hw LSR_REG d in
        if x AND LSR_DR = 0 then Some d
        else let (b, d) = inb hw RBR_REG d in do { d \<leftarrow> input_putc b d; recv_loop hw d })"

partial_function (option) xmit_loop :: "hardware \<Rightarrow> devs \<Rightarrow> devs option" where
  "xmit_loop hw d =
     (if intq_empty (txq d) then Some d
      else let (x, d) = inb hw LSR_REG d in
        if x AND LSR_THRE = 0 then Some d
        else do { (b, d) \<leftarrow> get_tx d; xmit_loop hw (outb THR_REG b d) })"

definition serial_interrupt :: "hardware \<Rightarrow> devs \<Rightarrow> devs option" where
  "serial_interrupt hw d = do {
     let (_, d) = inb hw IIR_REG d;
     d \<leftarrow> recv_loop hw d;
     d \<leftarrow> xmit_loop hw d;
     Some (write_ier d) }"

section \<open>What goes over the line\<close>

text \<open>A byte written to the first port is sent, unless the divisor latch is selected in the line control register.\<close>

fun transmitted :: "bool \<Rightarrow> (nat \<times> byte) list \<Rightarrow> byte list" where
  "transmitted dlab [] = []"
| "transmitted dlab ((port, v) # ws) =
     (if port = LCR_REG then transmitted (v AND LCR_DLAB \<noteq> 0) ws
      else if port = THR_REG \<and> \<not> dlab then v # transmitted dlab ws
      else transmitted dlab ws)"

fun dlab_after :: "bool \<Rightarrow> (nat \<times> byte) list \<Rightarrow> bool" where
  "dlab_after dlab [] = dlab"
| "dlab_after dlab ((port, v) # ws) = dlab_after (if port = LCR_REG then v AND LCR_DLAB \<noteq> 0 else dlab) ws"

lemma transmitted_append: "transmitted dlab (a @ b) = transmitted dlab a @ transmitted (dlab_after dlab a) b"
  by (induction dlab a rule: transmitted.induct) auto

lemma dlab_append: "dlab_after dlab (a @ b) = dlab_after (dlab_after dlab a) b"
  by (induction dlab a rule: dlab_after.induct) auto

definition line :: "devs \<Rightarrow> byte list" where
  "line d = transmitted False (outs d) @ queued (txq d)"

definition serial_ok :: "devs \<Rightarrow> bool" where
  "serial_ok d \<longleftrightarrow> intq_ok (inbuf d) \<and> intq_ok (txq d) \<and> \<not> dlab_after False (outs d) \<and> (smode d \<noteq> QUEUE \<longrightarrow> queued (txq d) = [])"

text \<open>A change that sends nothing and keeps the queue.\<close>

definition silent :: "devs \<Rightarrow> devs \<Rightarrow> bool" where
  "silent d d' \<longleftrightarrow> txq d' = txq d \<and> smode d' = smode d \<and> transmitted False (outs d') = transmitted False (outs d) \<and>
     dlab_after False (outs d') = dlab_after False (outs d)"

lemma silent_refl [simp]: "silent d d"
  by (simp add: silent_def)

lemma silent_trans: "silent a b \<Longrightarrow> silent b c \<Longrightarrow> silent a c"
  by (simp add: silent_def)

lemma silent_upd [simp]: "silent d (d\<lparr>inbuf := q\<rparr>)" "silent d (d\<lparr>reads := n\<rparr>)"
  by (simp_all add: silent_def)

lemma write_ier_silent: "silent d (write_ier d)" "inbuf (write_ier d) = inbuf d" "reads (write_ier d) = reads d"
  by (simp_all add: silent_def write_ier_def outb_def transmitted_append dlab_append serial_regs)

lemma notify_silent: "silent d (serial_notify d)" "inbuf (serial_notify d) = inbuf d" "reads (serial_notify d) = reads d"
  by (simp_all add: serial_notify_def write_ier_silent)

lemma silent_line: "silent d d' \<Longrightarrow> line d' = line d" "silent d d' \<Longrightarrow> serial_ok d \<Longrightarrow> intq_ok (inbuf d') \<Longrightarrow> serial_ok d'"
  by (auto simp: silent_def line_def serial_ok_def)

text \<open>The port becomes ready for another byte again and again.\<close>

definition ready :: "hardware \<Rightarrow> bool" where
  "ready hw \<longleftrightarrow> (\<forall>n. \<exists>m \<ge> n. hw m LSR_REG AND LSR_THRE \<noteq> 0)"

lemma putc_poll_sends:
  assumes "ready hw" "\<not> dlab_after False (outs d)"
  shows "\<exists>d'. putc_poll hw b d = Some d' \<and> outs d' = outs d @ [(THR_REG, b)] \<and> txq d' = txq d \<and> smode d' = smode d \<and> inbuf d' = inbuf d"
proof -
  obtain m where m: "reads d \<le> m" "hw m LSR_REG AND LSR_THRE \<noteq> 0" using assms(1) unfolding ready_def by blast
  then show ?thesis
  proof (induction "m - reads d" arbitrary: d)
    case 0
    then show ?case by (subst putc_poll.simps) (auto simp: inb_def outb_def)
  next
    case (Suc k)
    show ?case
    proof (cases "hw (reads d) LSR_REG AND LSR_THRE = 0")
      case True
      have "reads d \<noteq> m" using True Suc.prems by auto
      then show ?thesis using Suc.hyps(1) [of "d\<lparr>reads := reads d + 1\<rparr>"] Suc.hyps(2) Suc.prems True
        by (subst putc_poll.simps) (auto simp: inb_def)
    next
      case False
      then show ?thesis by (subst putc_poll.simps) (auto simp: inb_def outb_def)
    qed
  qed
qed

lemma init_poll_ok:
  assumes "smode d = UNINIT" "serial_ok d"
  shows "\<exists>d'. init_poll d = Some d' \<and> serial_ok d' \<and> line d' = line d \<and> smode d' = POLL \<and> inbuf d' = inbuf d"
proof -
  have "LCR_N81 AND LCR_DLAB = 0" "(LCR_N81 OR LCR_DLAB) AND LCR_DLAB \<noteq> 0" by (simp_all add: serial_bits)
  moreover have "queued (intq_init q) = []" "intq_ok q \<Longrightarrow> intq_ok (intq_init q)" for q
    by (simp_all add: queued_def used_def intq_init_def intq_ok_def INTQ_BUFSIZE_def)
  ultimately show ?thesis using assms
    by (simp add: init_poll_def set_serial_def outb_def serial_ok_def line_def transmitted_append dlab_append serial_regs)
qed

lemma put_thr: "\<not> dlab_after False (outs d) \<Longrightarrow> outs d' = outs d @ [(THR_REG, b)] \<Longrightarrow>
    transmitted False (outs d') = transmitted False (outs d) @ [b] \<and> \<not> dlab_after False (outs d')"
  by (simp add: transmitted_append dlab_append serial_regs)

lemma get_tx_eq:
  assumes "intq_ok (txq d)" "\<not> intq_empty (txq d)"
  shows "\<exists>c q. get_tx d = Some (c, d\<lparr>txq := q\<rparr>) \<and> intq_ok q \<and> queued (txq d) = c # queued q"
  using take_byte_spec [OF assms] assms(2) by (auto simp: get_tx_def)

text \<open>C35: What is sent over the serial line is the sequence of the bytes that were given to \<^verbatim>\<open>serial_putc\<close>, in order, whatever mode the
  port is in: each call adds its byte at the end of what is sent or queued to be sent. The call returns if the port becomes ready
  again and again, except that a thread with interrupts on waits while the queue is full.\<close>

theorem serial_putc_appends:
  assumes "serial_ok d" "ready hw" "\<not> (smode d = QUEUE \<and> intr_on \<and> intq_full (txq d))"
  shows "\<exists>d'. serial_putc hw intr_on b d = Some d' \<and> serial_ok d' \<and> line d' = line d @ [b]"
proof (cases "smode d = QUEUE")
  case False
  obtain d1 where d1: "(if smode d = UNINIT then init_poll d else Some d) = Some d1" "serial_ok d1" "line d1 = line d" "smode d1 = POLL"
    using init_poll_ok [of d] assms(1) False by (cases "smode d") auto
  obtain d2 where d2: "putc_poll hw b d1 = Some d2" "outs d2 = outs d1 @ [(THR_REG, b)]" "txq d2 = txq d1" "smode d2 = smode d1" "inbuf d2 = inbuf d1"
    using putc_poll_sends [OF assms(2), of d1 b] d1(2) by (auto simp: serial_ok_def)
  have "serial_ok d2" "line d2 = line d @ [b]" using put_thr [OF _ d2(2)] d1(2-4) d2(3-5) by (auto simp: serial_ok_def line_def)
  then show ?thesis using d1(1) d2(1) False by (simp add: serial_putc_def)
next
  case True
  have "\<exists>d1. (if \<not> intr_on \<and> intq_full (txq d) then do { (c, d) \<leftarrow> get_tx d; putc_poll hw c d } else Some d) = Some d1 \<and>
    serial_ok d1 \<and> line d1 = line d \<and> smode d1 = QUEUE \<and> \<not> intq_full (txq d1)"
  proof (cases "intq_full (txq d)")
    case full: True
    have ok: "intq_ok (txq d)" "length (queued (txq d)) = 63" using assms(1) full intq_full_iff by (auto simp: serial_ok_def INTQ_BUFSIZE_def)
    then have "\<not> intq_empty (txq d)" using intq_empty_iff by fastforce
    then obtain c q where q: "get_tx d = Some (c, d\<lparr>txq := q\<rparr>)" "intq_ok q" "queued (txq d) = c # queued q" using get_tx_eq ok(1) by blast
    obtain d1 where d1: "putc_poll hw c (d\<lparr>txq := q\<rparr>) = Some d1" "outs d1 = outs d @ [(THR_REG, c)]" "txq d1 = q" "smode d1 = smode d" "inbuf d1 = inbuf d"
      using putc_poll_sends [OF assms(2), of "d\<lparr>txq := q\<rparr>" c] assms(1) by (auto simp: serial_ok_def)
    have "length (queued q) = 62" using ok(2) q(3) by simp
    then have "\<not> intq_full q" using intq_full_iff [OF q(2)] by (simp add: INTQ_BUFSIZE_def)
    moreover have "\<not> intr_on" using assms(3) True full by simp
    ultimately show ?thesis using q d1 put_thr [OF _ d1(2)] assms(1) True full by (auto simp: serial_ok_def line_def)
  qed (use assms(1) True in auto)
  then obtain d1 where d1: "(if \<not> intr_on \<and> intq_full (txq d) then do { (c, d) \<leftarrow> get_tx d; putc_poll hw c d } else Some d) = Some d1"
    "serial_ok d1" "line d1 = line d" "smode d1 = QUEUE" "\<not> intq_full (txq d1)" by blast
  obtain q w where q: "add_byte b (txq d1) = Some (w, q)" "intq_ok q" "queued q = queued (txq d1) @ [b]"
    using add_byte_spec [of "txq d1" b] d1(2,5) by (auto simp: serial_ok_def)
  let ?d = "d1\<lparr>txq := q\<rparr>"
  have "serial_ok ?d" "line ?d = line d @ [b]" using d1(2-4) q by (auto simp: serial_ok_def line_def)
  then have "serial_ok (write_ier ?d)" "line (write_ier ?d) = line d @ [b]"
    using silent_line [OF write_ier_silent(1) [of ?d]] write_ier_silent(2) [of ?d] by (auto simp: serial_ok_def)
  then show ?thesis using True d1(1,5) q(1) by (simp add: serial_putc_def)
qed

lemma input_putc_eq:
  assumes "intq_ok (inbuf d)" "\<not> input_full d"
  shows "\<exists>d'. input_putc b d = Some d' \<and> silent d d' \<and> intq_ok (inbuf d') \<and> queued (inbuf d') = queued (inbuf d) @ [b] \<and> reads d' = reads d"
proof -
  obtain q w where "add_byte b (inbuf d) = Some (w, q)" "intq_ok q" "queued q = queued (inbuf d) @ [b]"
    using add_byte_spec [of "inbuf d" b] assms by (auto simp: input_full_def)
  then show ?thesis using assms(2) notify_silent [of "d\<lparr>inbuf := q\<rparr>"] silent_trans [OF silent_upd(1)] by (simp add: input_putc_def input_full_def)
qed

lemma recv_loop_eq:
  assumes "intq_ok (inbuf d)"
  shows "\<exists>d' rs. recv_loop hw d = Some d' \<and> silent d d' \<and> intq_ok (inbuf d') \<and> queued (inbuf d') = queued (inbuf d) @ rs"
  using assms
proof (induction "63 - length (queued (inbuf d))" arbitrary: d rule: less_induct)
  case less
  let ?d = "d\<lparr>reads := reads d + 2\<rparr>"
  show ?case
  proof (cases "input_full d \<or> hw (reads d) LSR_REG AND LSR_DR = 0")
    case True
    then show ?thesis using less.prems by (subst recv_loop.simps) (auto simp: inb_def)
  next
    case False
    let ?b = "hw (reads d + 1) RBR_REG"
    have "input_full ?d = input_full d" by (simp add: input_full_def)
    then obtain d1 where d1: "input_putc ?b ?d = Some d1" "silent ?d d1" "intq_ok (inbuf d1)" "queued (inbuf d1) = queued (inbuf d) @ [?b]"
      using input_putc_eq [of ?d ?b] less.prems False by auto
    have "length (queued (inbuf d)) < 63"
      using intq_full_iff [OF less.prems] False by (auto simp: input_full_def INTQ_BUFSIZE_def queued_def used_def less_Suc_eq_le [symmetric]) 
    then have "63 - length (queued (inbuf d1)) < 63 - length (queued (inbuf d))" using d1(4) by simp
    then obtain d' rs where d': "recv_loop hw d1 = Some d'" "silent d1 d'" "intq_ok (inbuf d')" "queued (inbuf d') = queued (inbuf d1) @ rs"
      using less.hyps d1(3) by blast
    have "silent d d'" using silent_trans [OF silent_trans [OF silent_upd(2) d1(2)] d'(2)] .
    moreover have "recv_loop hw d = Some d'" using d1(1) d'(1) False by (subst recv_loop.simps) (simp add: inb_def)
    ultimately show ?thesis using d'(3,4) d1(4) by auto
  qed
qed

lemma xmit_loop_eq:
  assumes "serial_ok d"
  shows "\<exists>d'. xmit_loop hw d = Some d' \<and> serial_ok d' \<and> line d' = line d \<and> inbuf d' = inbuf d"
  using assms
proof (induction "length (queued (txq d))" arbitrary: d rule: less_induct)
  case less
  show ?case
  proof (cases "intq_empty (txq d) \<or> hw (reads d) LSR_REG AND LSR_THRE = 0")
    case True
    then show ?thesis using less.prems by (subst xmit_loop.simps) (auto simp: inb_def serial_ok_def line_def)
  next
    case False
    let ?d = "d\<lparr>reads := reads d + 1\<rparr>"
    obtain c q where q: "get_tx ?d = Some (c, ?d\<lparr>txq := q\<rparr>)" "intq_ok q" "queued (txq d) = c # queued q"
      using get_tx_eq [of ?d] less.prems False by (auto simp: serial_ok_def)
    let ?e = "outb THR_REG c (?d\<lparr>txq := q\<rparr>)"
    have "outs ?e = outs d @ [(THR_REG, c)]" by (simp add: outb_def)
    then have e: "serial_ok ?e" "line ?e = line d" "inbuf ?e = inbuf d" "length (queued (txq ?e)) < length (queued (txq d))"
      using put_thr [of d ?e c] less.prems q by (auto simp: serial_ok_def line_def outb_def)
    then obtain d' where "xmit_loop hw ?e = Some d'" "serial_ok d'" "line d' = line d" "inbuf d' = inbuf d" using less.hyps by metis
    then show ?thesis using q(1) False by (subst xmit_loop.simps) (simp add: inb_def)
  qed
qed

text \<open>The interrupt handler returns whatever the hardware does. It appends what it receives to the input buffer and sends from the
  queue, which leaves the sequence of bytes on the line as it was; afterwards the transmit interrupt is enabled if and only if there
  is something left to send, and the receive interrupt if and only if the buffer has room.\<close>

theorem serial_interrupt_correct:
  assumes "serial_ok d"
  shows "\<exists>d' rs. serial_interrupt hw d = Some d' \<and> serial_ok d' \<and> line d' = line d \<and> queued (inbuf d') = queued (inbuf d) @ rs \<and>
    last (outs d') = (IER_REG, (if queued (txq d') \<noteq> [] then IER_XMIT else 0) OR (if length (queued (inbuf d')) < 63 then IER_RECV else 0))"
proof -
  let ?d = "d\<lparr>reads := reads d + 1\<rparr>"
  obtain d1 rs where d1: "recv_loop hw ?d = Some d1" "silent ?d d1" "intq_ok (inbuf d1)" "queued (inbuf d1) = queued (inbuf d) @ rs"
    using recv_loop_eq [of ?d hw] assms by (auto simp: serial_ok_def)
  have ok1: "serial_ok d1" "line d1 = line d"
    using silent_line [OF silent_trans [OF silent_upd(2) d1(2)]] assms d1(3) by auto
  obtain d2 where d2: "xmit_loop hw d1 = Some d2" "serial_ok d2" "line d2 = line d" "inbuf d2 = inbuf d1" using xmit_loop_eq [OF ok1(1)] ok1(2) by metis
  have iq: "intq_ok (inbuf d2)" "intq_ok (txq d2)" using d2(2) by (auto simp: serial_ok_def)
  have "length (queued (inbuf d2)) \<le> 63" by (simp add: queued_def used_def INTQ_BUFSIZE_def)
  then have f: "input_full d2 \<longleftrightarrow> \<not> length (queued (inbuf d2)) < 63" using intq_full_iff [OF iq(1)] by (auto simp: input_full_def INTQ_BUFSIZE_def)
  have "serial_ok (write_ier d2)" "line (write_ier d2) = line d"
    using silent_line [OF write_ier_silent(1) [of d2]] d2(2,3) iq(1) by (auto simp: write_ier_silent)
  moreover have "last (outs (write_ier d2)) = (IER_REG, (if queued (txq d2) \<noteq> [] then IER_XMIT else 0) OR (if length (queued (inbuf d2)) < 63 then IER_RECV else 0))"
    using f intq_empty_iff [OF iq(2)] by (simp add: write_ier_def outb_def)
  moreover have "serial_interrupt hw d = Some (write_ier d2)" using d1(1) d2(1) by (simp add: serial_interrupt_def inb_def)
  ultimately show ?thesis using d1(4) d2(4) write_ier_silent(1) [of d2] by (auto simp: write_ier_silent silent_def)
qed

text \<open>Flushing sends everything that is queued and returns.\<close>

theorem serial_flush_sends:
  assumes "serial_ok d" "ready hw"
  shows "\<exists>d'. serial_flush hw d = Some d' \<and> serial_ok d' \<and> queued (txq d') = [] \<and> transmitted False (outs d') = line d"
  using assms(1)
proof (induction "length (queued (txq d))" arbitrary: d rule: less_induct)
  case less
  have ok: "intq_ok (txq d)" "\<not> dlab_after False (outs d)" using less.prems by (auto simp: serial_ok_def)
  show ?case
  proof (cases "intq_empty (txq d)")
    case True
    then show ?thesis using less.prems intq_empty_iff [OF ok(1)] by (subst serial_flush.simps) (auto simp: line_def)
  next
    case False
    obtain c q where q: "get_tx d = Some (c, d\<lparr>txq := q\<rparr>)" "intq_ok q" "queued (txq d) = c # queued q" using get_tx_eq [OF ok(1) False] by blast
    obtain d1 where d1: "putc_poll hw c (d\<lparr>txq := q\<rparr>) = Some d1" "outs d1 = outs d @ [(THR_REG, c)]" "txq d1 = q" "smode d1 = smode d" "inbuf d1 = inbuf d"
      using putc_poll_sends [OF assms(2), of "d\<lparr>txq := q\<rparr>" c] ok(2) by auto
    have "serial_ok d1" "line d1 = line d" "length (queued (txq d1)) < length (queued (txq d))"
      using put_thr [OF ok(2) d1(2)] q d1 less.prems by (auto simp: serial_ok_def line_def)
    then obtain d' where "serial_flush hw d1 = Some d'" "serial_ok d'" "queued (txq d') = []" "transmitted False (outs d') = line d"
      using less.hyps by metis
    then show ?thesis using q(1) d1(1) False by (subst serial_flush.simps) simp
  qed
qed

text \<open>A port that has not been initialized.\<close>

definition empty_queue :: intq where
  "empty_queue = \<lparr>lock = None, not_full = None, not_empty = None, buf = replicate 64 0, head = 0, tail = 0\<rparr>"

definition example_devs :: devs where
  "example_devs = \<lparr>inbuf = empty_queue, txq = empty_queue, smode = UNINIT, outs = [], reads = 0\<rparr>"

lemma example_devs_ok: "serial_ok example_devs" "line example_devs = []"
  by (simp_all add: serial_ok_def line_def example_devs_def empty_queue_def intq_ok_def queued_def used_def INTQ_BUFSIZE_def)

theorem serial_putc_appends_witness: "\<exists>d'. serial_putc (\<lambda>_ _. 0x20) True 65 example_devs = Some d' \<and> serial_ok d' \<and> line d' = [65]"
proof -
  have "ready (\<lambda>_ _. 0x20)" by (auto simp: ready_def LSR_THRE_def)
  moreover have "smode example_devs \<noteq> QUEUE" by (simp add: example_devs_def)
  ultimately show ?thesis using serial_putc_appends [OF example_devs_ok(1), of "\<lambda>_ _. 0x20" True 65] example_devs_ok(2) by simp
qed

end
