(* ===== verification/Keyboard.thy ===== *)
theory Keyboard
  imports Serial
begin

text \<open>
  The keyboard, \<^verbatim>\<open>devices/kbd.c\<close>: the interrupt handler keeps the state of the shift keys and puts characters into the input
  buffer. Rebooting is a result of the handler.
\<close>

section \<open>Key maps\<close>

record keymap =
  first_scancode :: nat
  chars :: "byte list"

definition codes :: "string \<Rightarrow> byte list" where
  "codes = map (\<lambda>c. of_nat (of_char c))"

definition invariant_keymap :: "keymap list" where
  "invariant_keymap = [\<lparr>first_scancode = 0x01, chars = [27]\<rparr>, \<lparr>first_scancode = 0x0E, chars = [8]\<rparr>,
     \<lparr>first_scancode = 0x0F, chars = 9 # codes ''QWERTYUIOP''\<rparr>, \<lparr>first_scancode = 0x1C, chars = [13]\<rparr>,
     \<lparr>first_scancode = 0x1E, chars = codes ''ASDFGHJKL''\<rparr>, \<lparr>first_scancode = 0x2C, chars = codes ''ZXCVBNM''\<rparr>,
     \<lparr>first_scancode = 0x37, chars = codes ''*''\<rparr>, \<lparr>first_scancode = 0x39, chars = codes '' ''\<rparr>, \<lparr>first_scancode = 0x53, chars = [127]\<rparr>]"

definition unshifted_keymap :: "keymap list" where
  "unshifted_keymap = [\<lparr>first_scancode = 0x02, chars = codes ''1234567890-=''\<rparr>, \<lparr>first_scancode = 0x1A, chars = codes ''[]''\<rparr>,
     \<lparr>first_scancode = 0x27, chars = [59, 39, 96]\<rparr>, \<lparr>first_scancode = 0x2B, chars = [92]\<rparr>, \<lparr>first_scancode = 0x33, chars = codes '',./''\<rparr>]"

definition shifted_keymap :: "keymap list" where
  "shifted_keymap = [\<lparr>first_scancode = 0x02, chars = [33, 64, 35, 36, 37, 94, 38, 42, 40, 41, 95, 43]\<rparr>, \<lparr>first_scancode = 0x1A, chars = [123, 125]\<rparr>,
     \<lparr>first_scancode = 0x27, chars = [58, 34, 126]\<rparr>, \<lparr>first_scancode = 0x2B, chars = [124]\<rparr>, \<lparr>first_scancode = 0x33, chars = codes ''<>?''\<rparr>]"

fun map_key :: "keymap list \<Rightarrow> nat \<Rightarrow> byte option" where
  "map_key [] scancode = None"
| "map_key (k # ks) scancode =
     (if scancode \<ge> first_scancode k \<and> scancode < first_scancode k + length (chars k) then Some (chars k ! (scancode - first_scancode k))
      else map_key ks scancode)"

definition key_char :: "bool \<Rightarrow> nat \<Rightarrow> byte option" where
  "key_char shift code = (case map_key invariant_keymap code of Some c \<Rightarrow> Some c
     | None \<Rightarrow> if shift then map_key shifted_keymap code else map_key unshifted_keymap code)"

definition tolower :: "byte \<Rightarrow> byte" where
  "tolower c = (if 65 \<le> c \<and> c \<le> 90 then c - 65 + 97 else c)"

section \<open>The interrupt handler\<close>

datatype shift_key = Left_shift | Right_shift | Left_alt | Right_alt | Left_ctrl | Right_ctrl

definition shift_keys :: "(nat \<times> shift_key) list" where
  "shift_keys = [(0x2A, Left_shift), (0x36, Right_shift), (0x38, Left_alt), (0xE038, Right_alt), (0x1D, Left_ctrl), (0xE01D, Right_ctrl)]"

text \<open>\<open>down\<close> holds the six variables for the shift keys.\<close>

record kbd =
  down :: "shift_key \<Rightarrow> bool"
  caps_lock :: bool
  key_cnt :: u64
  devices :: devs

definition DATA_REG :: nat where
  "DATA_REG = 0x60"

definition read_code :: "hardware \<Rightarrow> devs \<Rightarrow> nat \<times> devs" where
  "read_code hw d = (let (c, d) = inb hw DATA_REG d in
     if c = 0xE0 then let (c', d) = inb hw DATA_REG d in (0xE000 + unat c', d) else (unat c, d))"

text \<open>What control, shift, Caps Lock and Alt make of a character.\<close>

definition modify :: "bool \<Rightarrow> bool \<Rightarrow> bool \<Rightarrow> bool \<Rightarrow> byte \<Rightarrow> byte" where
  "modify ctrl shift caps alt c =
     (let c = (if ctrl \<and> c \<ge> 0x40 \<and> c < 0x60 then c - 0x40 else if shift = caps then tolower c else c)
      in if alt then c + 0x80 else c)"

definition char_key :: "byte \<Rightarrow> bool \<Rightarrow> kbd \<Rightarrow> kbd option" where
  "char_key c release k =
     (if release \<or> input_full (devices k) then Some k
      else do { d \<leftarrow> input_putc c (devices k); Some (k\<lparr>key_cnt := key_cnt k + 1, devices := d\<rparr>) })"

datatype kbd_result = Reboot | Done kbd

definition keyboard_interrupt :: "hardware \<Rightarrow> kbd \<Rightarrow> kbd_result option" where
  "keyboard_interrupt hw k =
     (let shift = down k Left_shift \<or> down k Right_shift; alt = down k Left_alt \<or> down k Right_alt;
          ctrl = down k Left_ctrl \<or> down k Right_ctrl;
          (code, d) = read_code hw (devices k); k = k\<lparr>devices := d\<rparr>;
          release = bit code 7; code = (if release then code - 0x80 else code)
      in if code = 0x3A then Some (Done (if release then k else k\<lparr>caps_lock := \<not> caps_lock k\<rparr>))
         else case key_char shift code of
           Some c \<Rightarrow> if \<not> release \<and> c = 127 \<and> ctrl \<and> alt then Some Reboot
             else map_option Done (char_key (modify ctrl shift (caps_lock k) alt c) release k)
         | None \<Rightarrow> Some (Done (case map_of shift_keys code of None \<Rightarrow> k | Some s \<Rightarrow> k\<lparr>down := (down k)(s := \<not> release)\<rparr>)))"

section \<open>What keys do\<close>

lemma read_code_eq:
  "hw (reads d) DATA_REG \<noteq> 0xE0 \<Longrightarrow> read_code hw d = (unat (hw (reads d) DATA_REG), d\<lparr>reads := reads d + 1\<rparr>)"
  by (simp add: read_code_def inb_def)

lemma read_code_devs: "\<exists>n. snd (read_code hw d) = d\<lparr>reads := n\<rparr>"
  by (auto simp: read_code_def inb_def)

definition kbd_ok :: "kbd \<Rightarrow> bool" where
  "kbd_ok k \<longleftrightarrow> serial_ok (devices k)"

lemma char_key_ok:
  assumes "kbd_ok k"
  shows "\<exists>k' rs. char_key c release k = Some k' \<and> kbd_ok k' \<and> down k' = down k \<and> caps_lock k' = caps_lock k \<and>
    queued (inbuf (devices k')) = queued (inbuf (devices k)) @ rs \<and> rs = (if release \<or> input_full (devices k) then [] else [c]) \<and>
    key_cnt k' = key_cnt k + of_nat (length rs) \<and> line (devices k') = line (devices k)"
proof (cases "release \<or> input_full (devices k)")
  case False
  then obtain d where "input_putc c (devices k) = Some d" "silent (devices k) d" "intq_ok (inbuf d)" "queued (inbuf d) = queued (inbuf (devices k)) @ [c]"
    using input_putc_eq [of "devices k" c] assms by (auto simp: kbd_ok_def serial_ok_def)
  then show ?thesis using False assms silent_line [of "devices k" d] by (auto simp: char_key_def kbd_ok_def)
qed (use assms in \<open>auto simp: char_key_def\<close>)

text \<open>The handler returns or reboots. It adds at most one character to the input buffer and counts it, sends nothing, and a release
  adds nothing.\<close>

theorem keyboard_interrupt_safe:
  assumes "kbd_ok k"
  shows "keyboard_interrupt hw k = Some Reboot \<or> (\<exists>k' rs. keyboard_interrupt hw k = Some (Done k') \<and> kbd_ok k' \<and> length rs \<le> 1 \<and>
    queued (inbuf (devices k')) = queued (inbuf (devices k)) @ rs \<and> key_cnt k' = key_cnt k + of_nat (length rs) \<and>
    line (devices k') = line (devices k))"
proof -
  obtain code n where rc: "read_code hw (devices k) = (code, (devices k)\<lparr>reads := n\<rparr>)"
    using read_code_devs [of hw "devices k"] by (metis prod.collapse)
  let ?d = "(devices k)\<lparr>reads := n\<rparr>" let ?k = "k\<lparr>devices := ?d\<rparr>"
  have ok: "kbd_ok ?k" "line ?d = line (devices k)" "input_full ?d = input_full (devices k)"
    using assms by (auto simp: kbd_ok_def serial_ok_def line_def input_full_def)
  have upd: "kbd_ok (?k\<lparr>down := f\<rparr>)" "kbd_ok (?k\<lparr>caps_lock := b\<rparr>)" for f b using ok(1) by (simp_all add: kbd_ok_def)
  have ch: "\<exists>k' rs. char_key c rel ?k = Some k' \<and> kbd_ok k' \<and> length rs \<le> 1 \<and> queued (inbuf (devices k')) = queued (inbuf (devices k)) @ rs \<and>
      key_cnt k' = key_cnt k + of_nat (length rs) \<and> line (devices k') = line (devices k)" for c rel
    using char_key_ok [OF ok(1), of c rel] ok(2) by fastforce
  show ?thesis
  proof (cases "(if bit code 7 then code - 0x80 else code) = 0x3A")
    case True
    then show ?thesis using rc ok upd(2) by (auto simp: keyboard_interrupt_def Let_def intro!: exI [of _ "[]"])
  next
    case False
    show ?thesis
    proof (cases "key_char (down k Left_shift \<or> down k Right_shift) (if bit code 7 then code - 0x80 else code)")
      case None
      then show ?thesis using rc False ok upd(1) by (auto simp: keyboard_interrupt_def Let_def split: option.splits intro!: exI [of _ "[]"])
    next
      case (Some c)
      then show ?thesis using rc False ch by (fastforce simp: keyboard_interrupt_def Let_def)
    qed
  qed
qed

text \<open>Pressing a letter key without Ctrl and Alt adds the letter, in upper case if and only if exactly one of Shift and Caps Lock is on.\<close>

theorem letter_key_types:
  assumes "kbd_ok k" "hw (reads (devices k)) DATA_REG = sc" "sc < 0x80" "map_key invariant_keymap (unat sc) = Some c" "65 \<le> c" "c \<le> 90"
    and "\<not> (down k Left_ctrl \<or> down k Right_ctrl \<or> down k Left_alt \<or> down k Right_alt)" "\<not> input_full (devices k)"
  shows "\<exists>k'. keyboard_interrupt hw k = Some (Done k') \<and> queued (inbuf (devices k')) = queued (inbuf (devices k)) @
    [if (down k Left_shift \<or> down k Right_shift) \<noteq> caps_lock k then c else c + 32]"
proof -
  have u: "unat sc < 128" using assms(3) by (simp add: word_less_nat_alt)
  then have b: "\<not> bit (unat sc) 7" by (simp add: bit_iff_odd)
  have ne: "sc \<noteq> 0xE0" "unat sc \<noteq> 0x3A" "c \<noteq> 127"
    using assms(3-6) by (auto simp: invariant_keymap_def codes_def word_le_nat_alt)
  let ?d = "(devices k)\<lparr>reads := reads (devices k) + 1\<rparr>" let ?k = "k\<lparr>devices := ?d\<rparr>"
  have rc: "read_code hw (devices k) = (unat sc, ?d)" using read_code_eq [of hw "devices k"] assms(2) ne(1) by simp
  have kc: "key_char s (unat sc) = Some c" for s using assms(4) by (simp add: key_char_def)
  have lower: "tolower c = c + 32" using assms(5,6) by (simp add: tolower_def)
  have "kbd_ok ?k" "\<not> input_full ?d" using assms(1,8) by (auto simp: kbd_ok_def serial_ok_def input_full_def)
  then have "\<exists>k'. char_key x False ?k = Some k' \<and> queued (inbuf (devices k')) = queued (inbuf (devices k)) @ [x]" for x
    using char_key_ok [of ?k x False] by auto
  then show ?thesis using assms(7) rc b ne kc lower by (auto simp: keyboard_interrupt_def Let_def modify_def)
qed

text \<open>A shift key is down from its press to its release.\<close>

theorem shift_key_tracked:
  assumes "hw (reads (devices k)) DATA_REG = of_nat (sc + (if release then 0x80 else 0))" "(sc, key) \<in> set shift_keys" "sc < 0x80"
  shows "\<exists>k'. keyboard_interrupt hw k = Some (Done k') \<and> down k' = (down k)(key := \<not> release) \<and> inbuf (devices k') = inbuf (devices k)"
proof -
  have sc: "sc \<in> {0x2A, 0x36, 0x38, 0x1D}" using assms(2,3) by (auto simp: shift_keys_def)
  have "list_all (\<lambda>sc. key_char True sc = None \<and> key_char False sc = None) [0x2A, 0x36, 0x38, 0x1D]" by code_simp
  then have kc: "key_char s sc = None" for s using sc by (cases s) auto
  have m: "map_of shift_keys sc = Some key" using assms(2,3) by (auto simp: shift_keys_def)
  let ?c = "sc + (if release then 0x80 else 0)"
  have u: "unat (of_nat ?c :: byte) = ?c" "bit ?c 7 = release" "(of_nat ?c :: byte) \<noteq> 0xE0"
    using sc by (auto simp: unat_of_nat bit_iff_odd)
  have "read_code hw (devices k) = (?c, (devices k)\<lparr>reads := reads (devices k) + 1\<rparr>)"
    using read_code_eq [of hw "devices k"] assms(1) u by simp
  moreover have "sc \<noteq> 0x3A" using sc by auto
  ultimately show ?thesis using kc m u(2) by (auto simp: keyboard_interrupt_def Let_def)
qed

end
