(* ===== verification/Fixed_Point.thy ===== *)
theory Fixed_Point
  imports Stdlib Arithmetic64
begin

text \<open>
  Fixed-point numbers, \<^verbatim>\<open>threads/fixed-point.h\<close>: 16 integer and 16 fractional bits in a 32-bit integer. \<open>c_int\<close> is the undefined
  overflow of \<^verbatim>\<open>int\<close>; the conversion from \<^verbatim>\<open>long long\<close> to \<^verbatim>\<open>int\<close> wraps; division truncates.
\<close>

section \<open>Operations\<close>

definition FIX_F :: int where
  "FIX_F = 65536"

definition FIX_MAX_INT :: int where
  "FIX_MAX_INT = 65535"

definition FIX_MIN_INT :: int where
  "FIX_MIN_INT = - FIX_MAX_INT"

record fixed_point_t =
  fx :: int

definition mk_fix :: "int \<Rightarrow> fixed_point_t" where
  "mk_fix v = \<lparr>fx = v\<rparr>"

text \<open>The conversion of a 64-bit value to \<^verbatim>\<open>int\<close>.\<close>

definition to_int :: "int \<Rightarrow> int" where
  "to_int v = signed_take_bit 31 v"

definition fix_int :: "int \<Rightarrow> fixed_point_t option" where
  "fix_int n = do { ASSERT (n \<ge> FIX_MIN_INT \<and> n \<le> FIX_MAX_INT); v \<leftarrow> c_int (n * FIX_F); Some (mk_fix v) }"

definition fix_frac :: "int \<Rightarrow> int \<Rightarrow> fixed_point_t option" where
  "fix_frac n d = do {
     ASSERT (d \<noteq> 0);
     q \<leftarrow> c_int (n sdiv d);
     ASSERT (q \<ge> FIX_MIN_INT \<and> q \<le> FIX_MAX_INT);
     Some (mk_fix (to_int (n * FIX_F sdiv d))) }"

definition fix_round :: "fixed_point_t \<Rightarrow> int option" where
  "fix_round x = do { v \<leftarrow> c_int (fx x + FIX_F sdiv 2); Some (v sdiv FIX_F) }"

definition fix_trunc :: "fixed_point_t \<Rightarrow> int" where
  "fix_trunc x = fx x sdiv FIX_F"

definition fix_add :: "fixed_point_t \<Rightarrow> fixed_point_t \<Rightarrow> fixed_point_t option" where
  "fix_add x y = do { v \<leftarrow> c_int (fx x + fx y); Some (mk_fix v) }"

definition fix_sub :: "fixed_point_t \<Rightarrow> fixed_point_t \<Rightarrow> fixed_point_t option" where
  "fix_sub x y = do { v \<leftarrow> c_int (fx x - fx y); Some (mk_fix v) }"

definition fix_mul :: "fixed_point_t \<Rightarrow> fixed_point_t \<Rightarrow> fixed_point_t" where
  "fix_mul x y = mk_fix (to_int (fx x * fx y sdiv FIX_F))"

definition fix_scale :: "fixed_point_t \<Rightarrow> int \<Rightarrow> fixed_point_t option" where
  "fix_scale x n = do { ASSERT (n \<ge> 0); v \<leftarrow> c_int (fx x * n); Some (mk_fix v) }"

definition fix_div :: "fixed_point_t \<Rightarrow> fixed_point_t \<Rightarrow> fixed_point_t option" where
  "fix_div x y = (if fx y = 0 then None else Some (mk_fix (to_int (fx x * FIX_F sdiv fx y))))"

definition fix_unscale :: "fixed_point_t \<Rightarrow> int \<Rightarrow> fixed_point_t option" where
  "fix_unscale x n = do { ASSERT (n > 0); Some (mk_fix (fx x sdiv n)) }"

definition fix_inv :: "fixed_point_t \<Rightarrow> fixed_point_t option" where
  "fix_inv x = do { one \<leftarrow> fix_int 1; fix_div one x }"

definition fix_compare :: "fixed_point_t \<Rightarrow> fixed_point_t \<Rightarrow> int" where
  "fix_compare x y = (if fx x < fx y then -1 else if fx x > fx y then 1 else 0)"

section \<open>Properties\<close>

lemmas fix_defs = FIX_F_def FIX_MAX_INT_def FIX_MIN_INT_def mk_fix_def c_int_def INT_MIN_def INT_MAX_def

text \<open>An integer with at most 15 bits converts to a fixed-point number and back by truncation, and by rounding if it is not negative:
  the rounding of a negative integer is the next integer above it. An integer that needs 16 bits passes the assertion of
  \<^verbatim>\<open>fix_int\<close> and overflows.\<close>

theorem fix_int_trunc:
  assumes "-32768 \<le> n" "n \<le> 32767"
  shows "\<exists>x. fix_int n = Some x \<and> fix_trunc x = n \<and> fix_round x = Some (if n < 0 then n + 1 else n)"
proof -
  have 1: "n * 65536 sdiv 65536 = n"
    by (cases "n < 0") (simp_all add: sdiv_nonneg sdiv_neg)
  have 2: "(n * 65536 + 32768) sdiv 65536 = (if n < 0 then n + 1 else n)"
  proof (cases "n < 0")
    case True
    then have "(n * 65536 + 32768) sdiv 65536 = - (- (n * 65536 + 32768) div 65536)" by (intro sdiv_neg) auto
    also have "- (n * 65536 + 32768) div 65536 = - n - 1" by (simp add: div_pos_pos_trivial int_div_pos_eq [of _ _ _ 32768])
    also have "- (- n - 1) = n + 1" by simp
    finally show ?thesis using True by simp
  qed (simp add: sdiv_nonneg)
  have 3: "(65536 :: int) sdiv 2 = 32768" by (simp add: sdiv_nonneg)
  show ?thesis using assms 1 2 3 by (simp add: fix_int_def fix_trunc_def fix_round_def fix_defs)
qed

theorem fix_int_overflows: "32768 \<le> \<bar>n\<bar> \<Longrightarrow> n \<noteq> -32768 \<Longrightarrow> fix_int n = None"
  by (auto simp: fix_int_def fix_defs ASSERT_def)

text \<open>Rounding gives the nearest integer for a number that is not negative.\<close>

theorem fix_round_nearest:
  assumes "0 \<le> fx x" "fx x \<le> INT_MAX - 32768"
  shows "\<exists>n. fix_round x = Some n \<and> 2 * \<bar>fx x - n * FIX_F\<bar> \<le> FIX_F"
proof -
  have "(65536 :: int) sdiv 2 = 32768" by (simp add: sdiv_nonneg)
  then show ?thesis using assms by (simp add: fix_round_def fix_defs sdiv_nonneg)
qed

text \<open>Multiplying by a converted integer is exact when the product fits.\<close>

theorem fix_mul_exact:
  assumes "fix_int a = Some x" "\<bar>a * fx y\<bar> \<le> INT_MAX"
  shows "fx (fix_mul x y) = a * fx y"
proof -
  have "a * fx y * 65536 sdiv 65536 = a * fx y"
    using sdiv_nonneg [of "a * fx y * 65536" 65536] sdiv_neg [of "a * fx y * 65536" 65536] by (cases "a * fx y < 0") simp_all
  then have "a * 65536 * fx y sdiv 65536 = a * fx y" by (simp add: ac_simps)
  moreover have "fx x = a * 65536" using assms(1) by (auto simp: fix_int_def fix_defs ASSERT_def split: if_splits)
  moreover have "signed_take_bit 31 (a * fx y) = a * fx y" using assms(2) by (intro signed_take_bit_int_eq_self) (auto simp: INT_MAX_def)
  ultimately show ?thesis by (simp add: fix_mul_def fix_defs to_int_def)
qed

text \<open>Comparison is the order of the represented numbers.\<close>

theorem fix_compare_order: "fix_compare x y = sgn (fx x - fx y)"
  by (auto simp: fix_compare_def sgn_if)

end
