(* ===== verification/Descriptors.thy ===== *)
theory Descriptors
  imports Prelude
begin

unbundle bit_operations_syntax

text \<open>
  The interrupt descriptor table, \<^verbatim>\<open>threads/interrupt.c\<close>: gates, the registration of handlers, and what the kernel's parts register
  (\<^verbatim>\<open>exception_init\<close> of \<^verbatim>\<open>userprog/exception.c\<close> and the calls that \<^verbatim>\<open>main\<close> makes). The fields that the processor reads from a descriptor are
  functions of their own, so that a lemma can compare them with what the code was asked to store. The addresses of the assembly stubs
  are arguments.
\<close>

section \<open>Gates\<close>

definition SEL_NULL :: u32 where "SEL_NULL = 0x00"
definition SEL_KCSEG :: u32 where "SEL_KCSEG = 0x08"
definition SEL_KDSEG :: u32 where "SEL_KDSEG = 0x10"
definition SEL_UCSEG :: u32 where "SEL_UCSEG = 0x1B"
definition SEL_UDSEG :: u32 where "SEL_UDSEG = 0x23"
definition SEL_TSS :: u32 where "SEL_TSS = 0x28"
definition SEL_CNT :: nat where "SEL_CNT = 6"

lemmas selectors = SEL_NULL_def SEL_KCSEG_def SEL_KDSEG_def SEL_UCSEG_def SEL_UDSEG_def SEL_TSS_def SEL_CNT_def

definition join_desc :: "u32 \<Rightarrow> u32 \<Rightarrow> u64" where
  "join_desc e0 e1 = ucast e0 OR push_bit 32 (ucast e1)"

definition make_gate :: "u32 \<Rightarrow> int \<Rightarrow> int \<Rightarrow> u64 option" where
  "make_gate function dpl type = do {
     ASSERT (function \<noteq> 0);
     ASSERT (dpl \<ge> 0 \<and> dpl \<le> 3);
     ASSERT (type \<ge> 0 \<and> type \<le> 15);
     let e0 = (function AND 0xFFFF) OR push_bit 16 SEL_KCSEG;
     let e1 = (function AND 0xFFFF0000) OR push_bit 15 1 OR push_bit 13 (of_int dpl) OR push_bit 12 0 OR push_bit 8 (of_int type);
     Some (join_desc e0 e1) }"

definition make_intr_gate :: "u32 \<Rightarrow> int \<Rightarrow> u64 option" where
  "make_intr_gate function dpl = make_gate function dpl 14"

definition make_trap_gate :: "u32 \<Rightarrow> int \<Rightarrow> u64 option" where
  "make_trap_gate function dpl = make_gate function dpl 15"

definition make_idtr_operand :: "16 word \<Rightarrow> u32 \<Rightarrow> u64" where
  "make_idtr_operand limit base = ucast limit OR push_bit 16 (ucast base)"

text \<open>The fields of a gate, as the processor reads them.\<close>

definition low_word :: "u64 \<Rightarrow> u32" where
  "low_word d = ucast d"

definition high_word :: "u64 \<Rightarrow> u32" where
  "high_word d = ucast (drop_bit 32 d)"

definition field :: "nat \<Rightarrow> nat \<Rightarrow> u32 \<Rightarrow> u32" where
  "field lo n w = take_bit n (drop_bit lo w)"

definition gate_offset :: "u64 \<Rightarrow> u32" where
  "gate_offset g = field 0 16 (low_word g) OR push_bit 16 (field 16 16 (high_word g))"

definition gate_selector :: "u64 \<Rightarrow> u32" where
  "gate_selector g = field 16 16 (low_word g)"

definition gate_dpl :: "u64 \<Rightarrow> u32" where
  "gate_dpl g = field 13 2 (high_word g)"

definition gate_type :: "u64 \<Rightarrow> u32" where
  "gate_type g = field 8 5 (high_word g)"

definition gate_present :: "u64 \<Rightarrow> bool" where
  "gate_present g = bit (high_word g) 15"

lemma join_words [simp]: "low_word (join_desc a b) = a" "high_word (join_desc a b) = b"
  proof -
  have "\<not> bit a (32 + n)" for n using bit_imp_le_length [of a "32 + n"] by auto
  then show "low_word (join_desc a b) = a" "high_word (join_desc a b) = b"
    by (auto intro!: bit_word_eqI simp: low_word_def high_word_def join_desc_def bit_simps)
qed

lemma small_bits: "0 \<le> x \<Longrightarrow> x < 2 ^ k \<Longrightarrow> bit x n \<Longrightarrow> n < k" for x :: int
  by (metis bit_take_bit_iff take_bit_int_eq_self)

lemma power_bits: "bit (8 :: int) n \<longleftrightarrow> n = 3" "bit (0x8000 :: int) n \<longleftrightarrow> n = 15" "bit (0x80000 :: int) n \<longleftrightarrow> n = 19"
  using bit_exp_iff [where 'a = int, of 3 n] bit_exp_iff [where 'a = int, of 15 n] bit_exp_iff [where 'a = int, of 19 n] by auto

lemma half_masks: "0xFFFF = (mask 16 :: u32)" "0xFFFF0000 = (push_bit 16 (mask 16) :: u32)"
  by (simp_all add: mask_eq_exp_minus_1)

lemma field_eqI:
  assumes "\<And>i. i < n \<Longrightarrow> bit w (lo + i) = bit v i" "\<And>i. bit v i \<Longrightarrow> i < n"
  shows "field lo n w = v"
  by (rule bit_eqI) (use assms in \<open>auto simp: field_def bit_simps\<close>)

text \<open>A gate leads to the given function in the kernel's code segment, and has the given privilege level and type.\<close>

theorem make_gate_fields:
  assumes "make_gate function dpl type = Some g"
  shows "gate_offset g = function" "gate_selector g = SEL_KCSEG" "gate_dpl g = of_int dpl" "gate_type g = of_int type" "gate_present g"
proof -
  have r: "0 \<le> dpl" "dpl \<le> 3" "0 \<le> type" "type \<le> 15" using assms by (auto simp: make_gate_def bind_eq_Some_conv)
  define l where "l = (function AND mask 16) OR push_bit 16 SEL_KCSEG"
  define h where "h = (function AND push_bit 16 (mask 16)) OR push_bit 15 1 OR push_bit 13 (of_int dpl) OR push_bit 12 0 OR push_bit 8 (of_int type)"
  have g: "g = join_desc l h" using assms by (auto simp: make_gate_def l_def h_def bind_eq_Some_conv half_masks Let_def)
  have s: "bit dpl n \<Longrightarrow> n < 2" "bit type n \<Longrightarrow> n < 4" for n
    using small_bits [of dpl 2 n] small_bits [of type 4 n] r by auto
  show "gate_offset g = function"
    by (rule bit_eqI) (auto simp: g gate_offset_def field_def l_def h_def bit_simps power_bits SEL_KCSEG_def dest: s)
  show "gate_selector g = SEL_KCSEG"
    unfolding gate_selector_def g join_words by (rule field_eqI) (auto simp: l_def bit_simps power_bits SEL_KCSEG_def)
  show "gate_dpl g = of_int dpl"
    unfolding gate_dpl_def g join_words by (rule field_eqI) (auto simp: h_def bit_simps power_bits dest: s)
  show "gate_type g = of_int type"
    unfolding gate_type_def g join_words by (rule field_eqI) (auto simp: h_def bit_simps power_bits dest: s)
  show "gate_present g"
    unfolding gate_present_def g join_words by (auto simp: h_def bit_simps power_bits)
qed

section \<open>The interrupt descriptor table\<close>

definition INTR_CNT :: nat where "INTR_CNT = 256"

record 'h intr_table =
  idt :: "u64 list"
  intr_handlers :: "'h option list"
  intr_names :: "string list"
  idtr :: "u64"
  pic :: "(nat \<times> byte) list"

definition PIC0_CTRL :: nat where "PIC0_CTRL = 0x20"
definition PIC0_DATA :: nat where "PIC0_DATA = 0x21"
definition PIC1_CTRL :: nat where "PIC1_CTRL = 0xA0"
definition PIC1_DATA :: nat where "PIC1_DATA = 0xA1"

lemmas pic_ports = PIC0_CTRL_def PIC0_DATA_def PIC1_CTRL_def PIC1_DATA_def

text \<open>What is written to the ports of the two interrupt controllers.\<close>

definition pic_init :: "(nat \<times> byte) list" where
  "pic_init = [(PIC0_DATA, 0xFF), (PIC1_DATA, 0xFF),
     (PIC0_CTRL, 0x11), (PIC0_DATA, 0x20), (PIC0_DATA, 0x04), (PIC0_DATA, 0x01),
     (PIC1_CTRL, 0x11), (PIC1_DATA, 0x28), (PIC1_DATA, 0x02), (PIC1_DATA, 0x01),
     (PIC0_DATA, 0x00), (PIC1_DATA, 0x00)]"

definition pic_end_of_interrupt :: "int \<Rightarrow> (nat \<times> byte) list option" where
  "pic_end_of_interrupt irq = do {
     ASSERT (irq \<ge> 0x20 \<and> irq < 0x30);
     Some ((0x20, 0x20) # (if irq \<ge> 0x28 then [(0xA0, 0x20)] else [])) }"

fun idt_loop :: "u32 list \<Rightarrow> u64 list option" where
  "idt_loop [] = Some []"
| "idt_loop (s # ss) = do { g \<leftarrow> make_intr_gate s 0; gs \<leftarrow> idt_loop ss; Some (g # gs) }"

definition exception_names :: "(nat \<times> string) list" where
  "exception_names = [(0, ''#DE Divide Error''), (1, ''#DB Debug Exception''), (2, ''NMI Interrupt''), (3, ''#BP Breakpoint Exception''),
     (4, ''#OF Overflow Exception''), (5, ''#BR BOUND Range Exceeded Exception''), (6, ''#UD Invalid Opcode Exception''),
     (7, ''#NM Device Not Available Exception''), (8, ''#DF Double Fault Exception''), (9, ''Coprocessor Segment Overrun''),
     (10, ''#TS Invalid TSS Exception''), (11, ''#NP Segment Not Present''), (12, ''#SS Stack Fault Exception''),
     (13, ''#GP General Protection Exception''), (14, ''#PF Page-Fault Exception''), (16, ''#MF x87 FPU Floating-Point Error''),
     (17, ''#AC Alignment Check Exception''), (18, ''#MC Machine-Check Exception''), (19, ''#XF SIMD Floating-Point Exception'')]"

text \<open>The table before the kernel starts is zero; \<open>stubs\<close> are the addresses in \<^verbatim>\<open>intr_stubs\<close> and \<open>base\<close> is that of the table.\<close>

definition intr_init :: "u32 list \<Rightarrow> u32 \<Rightarrow> 'h intr_table \<Rightarrow> 'h intr_table option" where
  "intr_init stubs base t = do {
     gates \<leftarrow> idt_loop (take INTR_CNT stubs);
     Some (t\<lparr>pic := pic t @ pic_init, idt := gates, idtr := make_idtr_operand (of_nat (INTR_CNT * 8 - 1)) base,
       intr_names := foldl (\<lambda>ns (i, n). ns[i := n]) (replicate INTR_CNT ''unknown'') exception_names\<rparr>) }"

definition register_handler :: "u32 list \<Rightarrow> byte \<Rightarrow> int \<Rightarrow> bool \<Rightarrow> 'h \<Rightarrow> string \<Rightarrow> 'h intr_table \<Rightarrow> 'h intr_table option" where
  "register_handler stubs vec_no dpl intr_on handler name t = do {
     let v = unat vec_no;
     ASSERT (intr_handlers t ! v = None);
     g \<leftarrow> (if intr_on then make_trap_gate (stubs ! v) dpl else make_intr_gate (stubs ! v) dpl);
     Some (t\<lparr>idt := (idt t)[v := g], intr_handlers := (intr_handlers t)[v := Some handler], intr_names := (intr_names t)[v := name]\<rparr>) }"

definition intr_register_ext :: "u32 list \<Rightarrow> byte \<Rightarrow> 'h \<Rightarrow> string \<Rightarrow> 'h intr_table \<Rightarrow> 'h intr_table option" where
  "intr_register_ext stubs vec_no handler name t = do {
     ASSERT (vec_no \<ge> 0x20 \<and> vec_no \<le> 0x2F);
     register_handler stubs vec_no 0 False handler name t }"

definition intr_register_int :: "u32 list \<Rightarrow> byte \<Rightarrow> int \<Rightarrow> bool \<Rightarrow> 'h \<Rightarrow> string \<Rightarrow> 'h intr_table \<Rightarrow> 'h intr_table option" where
  "intr_register_int stubs vec_no dpl intr_on handler name t = do {
     ASSERT (vec_no < 0x20 \<or> vec_no > 0x2F);
     register_handler stubs vec_no dpl intr_on handler name t }"

definition intr_name :: "'h intr_table \<Rightarrow> byte \<Rightarrow> string" where
  "intr_name t vec = intr_names t ! unat vec"

section \<open>The handlers of the kernel\<close>

datatype handler_func = Kill | Page_fault | Syscall_handler | Timer_interrupt | Keyboard_interrupt | Serial_interrupt | Ide_interrupt

definition exception_init :: "u32 list \<Rightarrow> handler_func intr_table \<Rightarrow> handler_func intr_table option" where
  "exception_init stubs t = do {
     t \<leftarrow> intr_register_int stubs 3 3 True Kill ''#BP Breakpoint Exception'' t;
     t \<leftarrow> intr_register_int stubs 4 3 True Kill ''#OF Overflow Exception'' t;
     t \<leftarrow> intr_register_int stubs 5 3 True Kill ''#BR BOUND Range Exceeded Exception'' t;
     t \<leftarrow> intr_register_int stubs 0 0 True Kill ''#DE Divide Error'' t;
     t \<leftarrow> intr_register_int stubs 1 0 True Kill ''#DB Debug Exception'' t;
     t \<leftarrow> intr_register_int stubs 6 0 True Kill ''#UD Invalid Opcode Exception'' t;
     t \<leftarrow> intr_register_int stubs 7 0 True Kill ''#NM Device Not Available Exception'' t;
     t \<leftarrow> intr_register_int stubs 11 0 True Kill ''#NP Segment Not Present'' t;
     t \<leftarrow> intr_register_int stubs 12 0 True Kill ''#SS Stack Fault Exception'' t;
     t \<leftarrow> intr_register_int stubs 13 0 True Kill ''#GP General Protection Exception'' t;
     t \<leftarrow> intr_register_int stubs 16 0 True Kill ''#MF x87 FPU Floating-Point Error'' t;
     t \<leftarrow> intr_register_int stubs 19 0 True Kill ''#XF SIMD Floating-Point Exception'' t;
     intr_register_int stubs 14 0 False Page_fault ''#PF Page-Fault Exception'' t }"

text \<open>The registrations of the other parts, in the order in which \<^verbatim>\<open>main\<close> calls them.\<close>

definition device_handlers :: "(byte \<times> handler_func \<times> string) list" where
  "device_handlers = [(0x24, Serial_interrupt, ''serial''), (0x2E, Ide_interrupt, ''ide0''), (0x2F, Ide_interrupt, ''ide1'')]"

fun register_devices :: "u32 list \<Rightarrow> (byte \<times> 'h \<times> string) list \<Rightarrow> 'h intr_table \<Rightarrow> 'h intr_table option" where
  "register_devices stubs [] t = Some t"
| "register_devices stubs ((v, h, n) # ds) t = do { t \<leftarrow> intr_register_ext stubs v h n t; register_devices stubs ds t }"

definition kernel_handlers :: "u32 list \<Rightarrow> u32 \<Rightarrow> handler_func intr_table \<Rightarrow> handler_func intr_table option" where
  "kernel_handlers stubs base t = do {
     t \<leftarrow> intr_init stubs base t;
     t \<leftarrow> intr_register_ext stubs 0x20 Timer_interrupt ''8254 Timer'' t;
     t \<leftarrow> intr_register_ext stubs 0x21 Keyboard_interrupt ''8042 Keyboard'' t;
     t \<leftarrow> exception_init stubs t;
     t \<leftarrow> intr_register_int stubs 0x30 3 True Syscall_handler ''syscall'' t;
     register_devices stubs device_handlers t }"

text \<open>What the processor and \<^verbatim>\<open>intr_handler\<close> find for each vector: the privilege level, whether interrupts stay on, and the handler.\<close>

type_synonym 'h vectors = "nat \<Rightarrow> int \<times> bool \<times> 'h option"

definition gate_ok :: "u32 \<Rightarrow> int \<Rightarrow> bool \<Rightarrow> u64 \<Rightarrow> bool" where
  "gate_ok stub dpl on g \<longleftrightarrow> gate_present g \<and> gate_offset g = stub \<and> gate_selector g = SEL_KCSEG \<and> gate_dpl g = of_int dpl \<and>
     gate_type g = (if on then 15 else 14)"

definition table_shows :: "u32 list \<Rightarrow> 'h vectors \<Rightarrow> 'h intr_table \<Rightarrow> bool" where
  "table_shows stubs f t \<longleftrightarrow> length (idt t) = INTR_CNT \<and> length (intr_handlers t) = INTR_CNT \<and>
     (\<forall>v < INTR_CNT. gate_ok (stubs ! v) (fst (f v)) (fst (snd (f v))) (idt t ! v) \<and> intr_handlers t ! v = snd (snd (f v)))"

lemma make_gate_total: "function \<noteq> 0 \<Longrightarrow> 0 \<le> dpl \<Longrightarrow> dpl \<le> 3 \<Longrightarrow> 0 \<le> type \<Longrightarrow> type \<le> 15 \<Longrightarrow> \<exists>g. make_gate function dpl type = Some g"
  by (simp add: make_gate_def Let_def)

lemma gate_correct:
  assumes "function \<noteq> 0" "0 \<le> dpl" "dpl \<le> 3"
  shows "\<exists>g. (if on then make_trap_gate function dpl else make_intr_gate function dpl) = Some g \<and> gate_ok function dpl on g"
proof -
  obtain g where g: "make_gate function dpl (if on then 15 else 14) = Some g"
    using make_gate_total [OF assms, of 15] make_gate_total [OF assms, of 14] by (cases on) auto
  then show ?thesis using make_gate_fields [OF g]
    by (cases on) (auto simp: make_trap_gate_def make_intr_gate_def gate_ok_def)
qed

lemma idt_loop_correct:
  "0 \<notin> set ss \<Longrightarrow> \<exists>gs. idt_loop ss = Some gs \<and> length gs = length ss \<and> (\<forall>i < length ss. gate_ok (ss ! i) 0 False (gs ! i))"
proof (induction ss)
  case (Cons s ss)
  then obtain gs where gs: "idt_loop ss = Some gs" "length gs = length ss" "\<forall>i < length ss. gate_ok (ss ! i) 0 False (gs ! i)" by auto
  obtain g where "make_intr_gate s 0 = Some g" "gate_ok s 0 False g" using gate_correct [of s 0 False] Cons.prems by auto
  then show ?case using gs by (auto simp: less_Suc_eq_0_disj)
qed simp

definition blank :: "'h intr_table \<Rightarrow> bool" where
  "blank t \<longleftrightarrow> intr_handlers t = replicate INTR_CNT None"

definition stubs_ok :: "u32 list \<Rightarrow> bool" where
  "stubs_ok stubs \<longleftrightarrow> length stubs = INTR_CNT \<and> 0 \<notin> set stubs"

lemma intr_init_shows:
  assumes "stubs_ok stubs" "blank t"
  shows "\<exists>t'. intr_init stubs base t = Some t' \<and> table_shows stubs (\<lambda>_. (0, False, None)) t'"
proof -
  obtain gs where "idt_loop stubs = Some gs" "length gs = length stubs" "\<forall>i < length stubs. gate_ok (stubs ! i) 0 False (gs ! i)"
    using idt_loop_correct [of stubs] assms(1) by (auto simp: stubs_ok_def)
  then show ?thesis using assms by (auto simp: intr_init_def table_shows_def stubs_ok_def blank_def)
qed

lemma register_shows:
  assumes "stubs_ok stubs" "table_shows stubs f t" "snd (snd (f (unat vec_no))) = None" "0 \<le> dpl" "dpl \<le> 3"
  shows "\<exists>t'. register_handler stubs vec_no dpl on h name t = Some t' \<and> table_shows stubs (f(unat vec_no := (dpl, on, Some h))) t'"
proof -
  have v: "unat vec_no < INTR_CNT" using unsigned_less [where ?'a = nat, of vec_no] by (simp add: INTR_CNT_def)
  then have "stubs ! unat vec_no \<noteq> 0" using assms(1) by (metis nth_mem stubs_ok_def)
  then obtain g where "(if on then make_trap_gate (stubs ! unat vec_no) dpl else make_intr_gate (stubs ! unat vec_no) dpl) = Some g"
      "gate_ok (stubs ! unat vec_no) dpl on g"
    using gate_correct [OF _ assms(4,5), of _ on] by blast
  then show ?thesis using assms(2,3) v by (auto simp: register_handler_def table_shows_def nth_list_update Let_def)
qed

text \<open>What a sequence of registrations adds to the vectors.\<close>

lemma ext_shows:
  assumes "stubs_ok stubs" "table_shows stubs f t" "snd (snd (f (unat v))) = None" "0x20 \<le> v" "v \<le> 0x2F"
    "\<And>t'. table_shows stubs (f(unat v := (0, False, Some h))) t' \<Longrightarrow> \<exists>t''. b t' = Some t'' \<and> Q t''"
  shows "\<exists>t'. intr_register_ext stubs v h name t \<bind> b = Some t' \<and> Q t'"
  using register_shows [OF assms(1-3), of 0 False h name] assms(4-6) by (auto simp: intr_register_ext_def)

lemma int_shows:
  assumes "stubs_ok stubs" "table_shows stubs f t" "snd (snd (f (unat v))) = None" "v < 0x20 \<or> 0x2F < v" "0 \<le> dpl" "dpl \<le> 3"
    "\<And>t'. table_shows stubs (f(unat v := (dpl, on, Some h))) t' \<Longrightarrow> \<exists>t''. b t' = Some t'' \<and> Q t''"
  shows "\<exists>t'. intr_register_int stubs v dpl on h name t \<bind> b = Some t' \<and> Q t'"
  using register_shows [OF assms(1-3,5,6), of on h name] assms(4,7) by (auto simp: intr_register_int_def)

definition exception_vectors :: "handler_func vectors \<Rightarrow> handler_func vectors" where
  "exception_vectors f = f(3 := (3, True, Some Kill), 4 := (3, True, Some Kill), 5 := (3, True, Some Kill), 0 := (0, True, Some Kill),
     1 := (0, True, Some Kill), 6 := (0, True, Some Kill), 7 := (0, True, Some Kill), 11 := (0, True, Some Kill),
     12 := (0, True, Some Kill), 13 := (0, True, Some Kill), 16 := (0, True, Some Kill), 19 := (0, True, Some Kill),
     14 := (0, False, Some Page_fault))"

definition kernel_vectors :: "handler_func vectors" where
  "kernel_vectors = (exception_vectors ((\<lambda>_. (0, False, None))(0x20 := (0, False, Some Timer_interrupt), 0x21 := (0, False, Some Keyboard_interrupt))))
     (0x30 := (3, True, Some Syscall_handler), 0x24 := (0, False, Some Serial_interrupt), 0x2E := (0, False, Some Ide_interrupt),
      0x2F := (0, False, Some Ide_interrupt))"

lemma exception_init_shows:
  assumes "stubs_ok stubs" "table_shows stubs f t" "\<forall>v < 0x20. snd (snd (f v)) = None"
    "\<And>t'. table_shows stubs (exception_vectors f) t' \<Longrightarrow> \<exists>t''. b t' = Some t'' \<and> Q t''"
  shows "\<exists>t'. exception_init stubs t \<bind> b = Some t' \<and> Q t'"
  unfolding exception_init_def bind_assoc
  by (insert assms(2), (rule int_shows [OF assms(1)], assumption, simp add: assms(3), simp, simp, simp)+, rule assms(4),
    simp add: exception_vectors_def)

text \<open>The vectors 3, 4, 5 and 0x30 are those that a user program may raise by an \<^verbatim>\<open>int\<close> instruction.\<close>

theorem kernel_handlers_correct:
  assumes "stubs_ok stubs" "blank t"
  shows "\<exists>t'. kernel_handlers stubs base t = Some t' \<and>
    (\<forall>v < INTR_CNT. gate_present (idt t' ! v) \<and> gate_selector (idt t' ! v) = SEL_KCSEG \<and> gate_offset (idt t' ! v) = stubs ! v \<and>
      (gate_dpl (idt t' ! v) = 3 \<longleftrightarrow> v \<in> {3, 4, 5, 0x30}) \<and>
      (gate_type (idt t' ! v) = 14 \<longleftrightarrow> v \<notin> {0, 1, 3, 4, 5, 6, 7, 11, 12, 13, 16, 19, 0x30}) \<and>
      intr_handlers t' ! v = snd (snd (kernel_vectors v)))"
proof -
  let ?f = "(\<lambda>_. (0, False, None)) :: handler_func vectors"
  obtain t0 where t0: "intr_init stubs base t = Some t0" "table_shows stubs ?f t0" using intr_init_shows [OF assms] by blast
  have "\<exists>t'. kernel_handlers stubs base t = Some t' \<and> table_shows stubs kernel_vectors t'"
    unfolding kernel_handlers_def t0(1) device_handlers_def register_devices.simps bind_assoc bind.bind_lunit
    by (insert t0(2), rule ext_shows [OF assms(1)], assumption, simp, simp, simp, rule ext_shows [OF assms(1)], assumption, simp, simp, simp,
      rule exception_init_shows [OF assms(1)], assumption, simp, rule int_shows [OF assms(1)], assumption, simp add: exception_vectors_def, simp, simp, simp,
      (rule ext_shows [OF assms(1)], assumption, simp add: exception_vectors_def, simp, simp)+, simp add: kernel_vectors_def)
  then obtain t' where t': "kernel_handlers stubs base t = Some t'" "table_shows stubs kernel_vectors t'" by blast
  have f: "fst (kernel_vectors v) = (if v \<in> {3, 4, 5, 0x30} then 3 else 0)"
      "fst (snd (kernel_vectors v)) \<longleftrightarrow> v \<in> {0, 1, 3, 4, 5, 6, 7, 11, 12, 13, 16, 19, 0x30}" for v
    by (simp_all add: kernel_vectors_def exception_vectors_def fun_upd_apply)
  show ?thesis
    by (rule exI [of _ t']) (use t' in \<open>simp add: table_shows_def gate_ok_def f split del: if_split\<close>, simp split: if_split)
qed

end
