(* ===== verification/Segments.thy ===== *)
theory Segments
  imports Descriptors Vaddr
begin

text \<open>
  The interrupt controllers as \<^verbatim>\<open>pic_init\<close> leaves them, the global descriptor table (\<^verbatim>\<open>userprog/gdt.c\<close>), the task-state segment
  (\<^verbatim>\<open>userprog/tss.c\<close>) and the handlers of exceptions (\<^verbatim>\<open>userprog/exception.c\<close>). A handler's messages are left out; what is kept of a page
  fault is the cause that it reports.
\<close>

unbundle bit_operations_syntax

section \<open>Interrupt controllers\<close>

text \<open>A controller of type 8259A: the initialization word it expects next (0 if none), the first vector, and the mask.\<close>

record pic8259 =
  icw :: nat
  vbase :: byte
  masked :: byte

definition pic_write :: "nat \<Rightarrow> nat \<Rightarrow> pic8259 \<Rightarrow> nat \<times> byte \<Rightarrow> pic8259" where
  "pic_write ctrl data p = (\<lambda>(port, v).
     if port = ctrl then if bit v 4 then p\<lparr>icw := 2, masked := 0\<rparr> else p
     else if port = data then
       if icw p = 2 then p\<lparr>icw := 3, vbase := v AND 0xF8\<rparr>
       else if icw p = 3 then p\<lparr>icw := 4\<rparr>
       else if icw p = 4 then p\<lparr>icw := 0\<rparr>
       else p\<lparr>masked := v\<rparr>
     else p)"

text \<open>Lines 0 to 7 of the controllers are delivered to the vectors from 0x20 and from 0x28, and none is masked.\<close>

theorem pic_init_vectors:
  assumes "icw p = 0"
  shows "foldl (pic_write PIC0_CTRL PIC0_DATA) p pic_init = \<lparr>icw = 0, vbase = 0x20, masked = 0\<rparr>"
    "foldl (pic_write PIC1_CTRL PIC1_DATA) p pic_init = \<lparr>icw = 0, vbase = 0x28, masked = 0\<rparr>"
  using assms by (simp_all add: pic_init_def pic_write_def pic_ports bit_numeral_rec)

text \<open>The end of an interrupt is signalled to the controllers that it came through, the second one being connected to the first.\<close>

theorem pic_end_of_interrupt_correct:
  assumes "0x20 \<le> irq" "irq < 0x30"
  shows "\<exists>ws. pic_end_of_interrupt irq = Some ws \<and> (PIC0_CTRL, 0x20) \<in> set ws \<and> ((PIC1_CTRL, 0x20) \<in> set ws \<longleftrightarrow> 0x28 \<le> irq)"
  using assms by (simp add: pic_end_of_interrupt_def pic_ports)

section \<open>Segments\<close>

datatype seg_class = CLS_SYSTEM | CLS_CODE_DATA

datatype seg_granularity = GRAN_BYTE | GRAN_PAGE

fun class_no :: "seg_class \<Rightarrow> u32" where
  "class_no CLS_SYSTEM = 0"
| "class_no CLS_CODE_DATA = 1"

fun gran_no :: "seg_granularity \<Rightarrow> u32" where
  "gran_no GRAN_BYTE = 0"
| "gran_no GRAN_PAGE = 1"

definition make_seg_desc :: "u32 \<Rightarrow> u32 \<Rightarrow> seg_class \<Rightarrow> int \<Rightarrow> int \<Rightarrow> seg_granularity \<Rightarrow> u64 option" where
  "make_seg_desc base limit cls type dpl granularity = do {
     ASSERT (limit \<le> 0xFFFFF);
     ASSERT (type \<ge> 0 \<and> type \<le> 15);
     ASSERT (dpl \<ge> 0 \<and> dpl \<le> 3);
     let e0 = (limit AND 0xFFFF) OR push_bit 16 base;
     let e1 = (drop_bit 16 base AND 0xFF) OR push_bit 8 (of_int type) OR push_bit 12 (class_no cls) OR push_bit 13 (of_int dpl) OR push_bit 15 1 OR
       (limit AND 0xF0000) OR push_bit 22 1 OR push_bit 23 (gran_no granularity) OR (base AND 0xFF000000);
     Some (join_desc e0 e1) }"

definition make_code_desc :: "int \<Rightarrow> u64 option" where
  "make_code_desc dpl = make_seg_desc 0 0xFFFFF CLS_CODE_DATA 10 dpl GRAN_PAGE"

definition make_data_desc :: "int \<Rightarrow> u64 option" where
  "make_data_desc dpl = make_seg_desc 0 0xFFFFF CLS_CODE_DATA 2 dpl GRAN_PAGE"

definition make_tss_desc :: "u32 \<Rightarrow> u64 option" where
  "make_tss_desc laddr = make_seg_desc laddr 0x67 CLS_SYSTEM 9 0 GRAN_BYTE"

definition make_gdtr_operand :: "16 word \<Rightarrow> u32 \<Rightarrow> u64" where
  "make_gdtr_operand limit base = ucast limit OR push_bit 16 (ucast base)"

definition gdt_index :: "u32 \<Rightarrow> nat" where
  "gdt_index sel = unat sel div 8"

record segmentation =
  gdt :: "u64 list"
  gdtr :: u64
  task_reg :: u32

definition gdt_init :: "u32 \<Rightarrow> u32 \<Rightarrow> segmentation \<Rightarrow> segmentation option" where
  "gdt_init gdt_addr tss_addr s = do {
     let g = (gdt s)[gdt_index SEL_NULL := 0];
     kc \<leftarrow> make_code_desc 0;
     let g = g[gdt_index SEL_KCSEG := kc];
     kd \<leftarrow> make_data_desc 0;
     let g = g[gdt_index SEL_KDSEG := kd];
     uc \<leftarrow> make_code_desc 3;
     let g = g[gdt_index SEL_UCSEG := uc];
     ud \<leftarrow> make_data_desc 3;
     let g = g[gdt_index SEL_UDSEG := ud];
     ASSERT (tss_addr \<noteq> 0);
     ts \<leftarrow> make_tss_desc tss_addr;
     let g = g[gdt_index SEL_TSS := ts];
     Some (s\<lparr>gdt := g, gdtr := make_gdtr_operand (of_nat (SEL_CNT * 8 - 1)) gdt_addr, task_reg := SEL_TSS\<rparr>) }"

text \<open>The fields of a descriptor, as the processor reads them.\<close>

definition seg_base :: "u64 \<Rightarrow> u32" where
  "seg_base d = field 16 16 (low_word d) OR push_bit 16 (field 0 8 (high_word d)) OR push_bit 24 (field 24 8 (high_word d))"

definition seg_limit :: "u64 \<Rightarrow> u32" where
  "seg_limit d = field 0 16 (low_word d) OR push_bit 16 (field 16 4 (high_word d))"

definition seg_type :: "u64 \<Rightarrow> u32" where
  "seg_type d = field 8 4 (high_word d)"

definition seg_dpl :: "u64 \<Rightarrow> u32" where
  "seg_dpl d = field 13 2 (high_word d)"

definition seg_bytes :: "u64 \<Rightarrow> nat" where
  "seg_bytes d = (unat (seg_limit d) + 1) * (if bit (high_word d) 23 then 4096 else 1)"

lemma more_masks: "0xFF = (mask 8 :: u32)" "0xF0000 = (push_bit 16 (mask 4) :: u32)" "0xFF000000 = (push_bit 24 (mask 8) :: u32)"
  by (simp_all add: mask_eq_exp_minus_1)

lemma more_power_bits:
  "bit (0x400000 :: int) n \<longleftrightarrow> n = 22" "bit (0x800000 :: int) n \<longleftrightarrow> n = 23" "bit (0x1000 :: int) n \<longleftrightarrow> n = 12"
  using bit_exp_iff [where 'a = int, of 22 n] bit_exp_iff [where 'a = int, of 23 n] bit_exp_iff [where 'a = int, of 12 n] by auto

lemma class_bits: "bit (class_no c) n \<longleftrightarrow> n = 0 \<and> c = CLS_CODE_DATA" "bit (gran_no g) n \<longleftrightarrow> n = 0 \<and> g = GRAN_PAGE"
  by (cases c; simp add: bit_1_iff) (cases g; simp add: bit_1_iff)

text \<open>The descriptor has the given base, limit, class, type, privilege level and granularity, and is present.\<close>

theorem make_seg_desc_fields:
  assumes "make_seg_desc base limit cls type dpl granularity = Some d"
  shows "seg_base d = base" "seg_limit d = limit" "seg_type d = of_int type" "seg_dpl d = of_int dpl"
    "bit (high_word d) 12 \<longleftrightarrow> cls = CLS_CODE_DATA" "bit (high_word d) 15" "bit (high_word d) 22" "bit (high_word d) 23 \<longleftrightarrow> granularity = GRAN_PAGE"
proof -
  have r: "limit \<le> 0xFFFFF" "0 \<le> dpl" "dpl \<le> 3" "0 \<le> type" "type \<le> 15" using assms by (auto simp: make_seg_desc_def bind_eq_Some_conv)
  define l where "l = (limit AND mask 16) OR push_bit 16 base"
  define h where "h = (drop_bit 16 base AND mask 8) OR push_bit 8 (of_int type) OR push_bit 12 (class_no cls) OR push_bit 13 (of_int dpl) OR
    push_bit 15 1 OR (limit AND push_bit 16 (mask 4)) OR push_bit 22 1 OR push_bit 23 (gran_no granularity) OR (base AND push_bit 24 (mask 8))"
  have d: "d = join_desc l h"
    using assms by (auto simp: make_seg_desc_def l_def h_def bind_eq_Some_conv half_masks(1) more_masks Let_def)
  have s: "bit dpl n \<Longrightarrow> n < 2" "bit type n \<Longrightarrow> n < 4" for n
    using small_bits [of dpl 2 n] small_bits [of type 4 n] r by auto
  have "take_bit 20 limit = limit"
    using r(1) by (simp add: word_eq_iff_unsigned [where ?'a = nat] unsigned_take_bit_eq take_bit_nat_eq_self word_le_nat_alt)
  then have lim: "bit limit n \<Longrightarrow> n < 20" for n by (metis bit_take_bit_iff)
  note bits = bit_simps power_bits more_power_bits class_bits
  have f: "field 16 16 l = take_bit 16 base" "field 0 16 l = take_bit 16 limit"
      "field 0 8 h = take_bit 8 (drop_bit 16 base)" "field 24 8 h = take_bit 8 (drop_bit 24 base)" "field 16 4 h = take_bit 4 (drop_bit 16 limit)"
    by (rule field_eqI; auto simp: l_def h_def bits dest: s lim)+
  show "seg_base d = base"
  proof (unfold seg_base_def d join_words f, rule bit_eqI)
    fix n
    show "bit (take_bit 16 base OR push_bit 16 (take_bit 8 (drop_bit 16 base)) OR push_bit 24 (take_bit 8 (drop_bit 24 base))) n = bit base n"
      by (cases "n < 24") (auto simp: bits dest: bit_imp_le_length)
  qed
  show "seg_limit d = limit"
    unfolding seg_limit_def d join_words f by (rule bit_eqI) (auto simp: bits dest: lim)
  show "seg_type d = of_int type"
    unfolding seg_type_def d join_words by (rule field_eqI) (auto simp: h_def bits dest: s lim)
  show "seg_dpl d = of_int dpl"
    unfolding seg_dpl_def d join_words by (rule field_eqI) (auto simp: h_def bits dest: s lim)
  show "bit (high_word d) 12 \<longleftrightarrow> cls = CLS_CODE_DATA" "bit (high_word d) 15" "bit (high_word d) 22"
      "bit (high_word d) 23 \<longleftrightarrow> granularity = GRAN_PAGE"
    by (auto simp: d h_def bits dest: s lim)
qed

text \<open>A segment of all 4 GB, for code or data, for one privilege level.\<close>

definition flat_segment :: "u32 \<Rightarrow> int \<Rightarrow> u64 \<Rightarrow> bool" where
  "flat_segment type dpl d \<longleftrightarrow> seg_base d = 0 \<and> seg_bytes d = 2 ^ 32 \<and> seg_type d = type \<and> seg_dpl d = of_int dpl \<and>
     bit (high_word d) 12 \<and> bit (high_word d) 15"

lemma flat_descs:
  assumes "0 \<le> dpl" "dpl \<le> 3"
  shows "\<exists>d. make_code_desc dpl = Some d \<and> flat_segment 10 dpl d" "\<exists>d. make_data_desc dpl = Some d \<and> flat_segment 2 dpl d"
proof -
  have "\<exists>d. make_seg_desc 0 0xFFFFF CLS_CODE_DATA type dpl GRAN_PAGE = Some d" if "0 \<le> type" "type \<le> 15" for type
    using that assms by (simp add: make_seg_desc_def Let_def)
  from this [of 10] this [of 2] show "\<exists>d. make_code_desc dpl = Some d \<and> flat_segment 10 dpl d" "\<exists>d. make_data_desc dpl = Some d \<and> flat_segment 2 dpl d"
    by (fastforce simp: make_code_desc_def make_data_desc_def flat_segment_def seg_bytes_def dest: make_seg_desc_fields)+
qed

text \<open>The selectors of the kernel and of user programs name flat segments with the privilege level in the selector, and the task register
  names a segment that is the task-state segment, of 104 bytes.\<close>

theorem gdt_init_segments:
  assumes "length (gdt s) = SEL_CNT" "tss_addr \<noteq> 0"
  shows "\<exists>s'. gdt_init gdt_addr tss_addr s = Some s' \<and> length (gdt s') = SEL_CNT \<and> gdt s' ! 0 = 0 \<and>
    (\<forall>sel \<in> {SEL_KCSEG, SEL_UCSEG}. flat_segment 10 (uint (sel AND 3)) (gdt s' ! gdt_index sel)) \<and>
    (\<forall>sel \<in> {SEL_KDSEG, SEL_UDSEG}. flat_segment 2 (uint (sel AND 3)) (gdt s' ! gdt_index sel)) \<and>
    (let d = gdt s' ! gdt_index (task_reg s') in seg_base d = tss_addr \<and> seg_bytes d = 104 \<and> seg_type d = 9 \<and> seg_dpl d = 0 \<and> \<not> bit (high_word d) 12)"
proof -
  obtain kc uc where c: "make_code_desc 0 = Some kc" "flat_segment 10 0 kc" "make_code_desc 3 = Some uc" "flat_segment 10 3 uc"
    using flat_descs(1) [of 0] flat_descs(1) [of 3] by auto
  obtain kd ud where e: "make_data_desc 0 = Some kd" "flat_segment 2 0 kd" "make_data_desc 3 = Some ud" "flat_segment 2 3 ud"
    using flat_descs(2) [of 0] flat_descs(2) [of 3] by auto
  obtain ts where t: "make_seg_desc tss_addr 0x67 CLS_SYSTEM 9 0 GRAN_BYTE = Some ts" by (simp add: make_seg_desc_def Let_def)
  have i: "gdt_index SEL_NULL = 0" "gdt_index SEL_KCSEG = 1" "gdt_index SEL_KDSEG = 2" "gdt_index SEL_UCSEG = 3" "gdt_index SEL_UDSEG = 4"
      "gdt_index SEL_TSS = 5" "uint (SEL_KCSEG AND 3) = 0" "uint (SEL_KDSEG AND 3) = 0" "uint (SEL_UCSEG AND 3) = 3" "uint (SEL_UDSEG AND 3) = 3"
    by (simp_all add: gdt_index_def selectors)
  show ?thesis using assms c e make_seg_desc_fields [OF t]
    by (simp add: gdt_init_def make_tss_desc_def t i Let_def seg_bytes_def SEL_CNT_def)
qed

section \<open>The task-state segment\<close>

text \<open>The fields that are set; the others stay zero. The pointer is null until \<^verbatim>\<open>tss_init\<close>.\<close>

record tss =
  esp0 :: u32
  ss0 :: u32
  io_bitmap :: u32

definition tss_update :: "u32 \<Rightarrow> (u32 \<times> tss) option \<Rightarrow> (u32 \<times> tss) option option" where
  "tss_update cur t = (case t of None \<Rightarrow> None | Some (p, s) \<Rightarrow> Some (Some (p, s\<lparr>esp0 := cur + PGSIZE\<rparr>)))"

definition tss_init :: "u32 \<Rightarrow> u32 \<Rightarrow> (u32 \<times> tss) option option" where
  "tss_init page cur = do {
     ASSERT (page \<noteq> 0);
     tss_update cur (Some (page, \<lparr>esp0 = 0, ss0 = SEL_KDSEG, io_bitmap = 0xDFFF\<rparr>)) }"

definition tss_get :: "(u32 \<times> tss) option \<Rightarrow> u32 option" where
  "tss_get t = map_option fst t"

text \<open>An interrupt in a user program pushes its first word at the end of the page of the running thread, in the kernel's data segment,
  and user programs have no access to ports, because the bitmap lies outside of the segment.\<close>

theorem tss_update_stack:
  assumes "tss_init page cur0 = Some t0" "tss_update cur t0 = Some t" "pg_ofs cur = 0"
  shows "\<exists>s. t = Some (page, s) \<and> ss0 s = SEL_KDSEG \<and> pg_round_down (esp0 s - 4) = cur \<and> pg_ofs (esp0 s - 4) = PGSIZE - 4 \<and> 104 \<le> io_bitmap s"
proof -
  have m: "PGMASK = mask 12" "PGSIZE - 4 = 0xFFC" "cur + PGSIZE - 4 = cur + 0xFFC"
    by (simp_all add: PGMASK_def BITMASK_def PGSIZE_def PGBITS_def mask_eq_exp_minus_1)
  have "cur AND 0xFFC = 0"
  proof -
    have "cur AND 0xFFC = (cur AND mask 12) AND 0xFFC" by (simp add: and.assoc mask_eq_exp_minus_1)
    then show ?thesis using assms(3) by (simp add: pg_ofs_def m(1))
  qed
  then have o: "cur + 0xFFC = cur OR 0xFFC" by (rule disjunctive_add_eq_or)
  have low: "cur AND NOT (mask 12) = cur"
    using assms(3) by (simp add: pg_ofs_def m(1) bit_eq_iff bit_simps) blast
  have "(cur OR 0xFFC) AND NOT (mask 12) = cur" "(cur OR 0xFFC) AND mask 12 = 0xFFC"
    using assms(3) low by (simp_all add: bit.conj_disj_distrib2 pg_ofs_def m(1) mask_eq_exp_minus_1)
  then have "pg_round_down (cur + PGSIZE - 4) = cur" "pg_ofs (cur + PGSIZE - 4) = PGSIZE - 4"
    unfolding m(3) o by (simp_all add: pg_round_down_def pg_ofs_def m)
  then show ?thesis using assms by (auto simp: tss_init_def tss_update_def bind_eq_Some_conv)
qed

section \<open>Exceptions\<close>

definition PF_P :: u32 where "PF_P = 0x1"
definition PF_W :: u32 where "PF_W = 0x2"
definition PF_U :: u32 where "PF_U = 0x4"

record fault_frame =
  fault_vec :: nat
  fault_cs :: u32
  error_code :: u32

datatype exn_outcome = Thread_exit int | Kernel_panic | Resume

definition kill :: "fault_frame \<Rightarrow> exn_outcome" where
  "kill f = (if fault_cs f = SEL_UCSEG then Thread_exit (- 1) else if fault_cs f = SEL_KCSEG then Kernel_panic else Thread_exit (- 1))"

text \<open>The cause that the message gives: the page is not present, the access is a write, the access is by a user program.\<close>

definition page_fault :: "fault_frame \<Rightarrow> u64 \<Rightarrow> (bool \<times> bool \<times> bool) \<times> u64 \<times> exn_outcome" where
  "page_fault f page_fault_cnt =
     ((error_code f AND PF_P = 0, error_code f AND PF_W \<noteq> 0, error_code f AND PF_U \<noteq> 0), page_fault_cnt + 1, kill f)"

text \<open>The part of \<^verbatim>\<open>intr_handler\<close> that calls the handler of an exception.\<close>

definition handle_exception :: "handler_func intr_table \<Rightarrow> fault_frame \<Rightarrow> u64 \<Rightarrow> (u64 \<times> exn_outcome) option" where
  "handle_exception t f cnt = (case intr_handlers t ! fault_vec f of
     Some Kill \<Rightarrow> Some (cnt, kill f)
   | Some Page_fault \<Rightarrow> Some (snd (page_fault f cnt))
   | None \<Rightarrow> Some (cnt, Resume)
   | _ \<Rightarrow> None)"

text \<open>An exception of a user program for which the kernel has a handler ends the program with status -1; the same exception in the kernel
  is a panic.\<close>

theorem exceptions_end_program:
  assumes "stubs_ok stubs" "blank t" "kernel_handlers stubs base t = Some t'" "fault_vec f \<in> {0, 1, 3, 4, 5, 6, 7, 11, 12, 13, 14, 16, 19}"
  shows "\<exists>n. handle_exception t' f cnt = Some (n, if fault_cs f = SEL_KCSEG then Kernel_panic else Thread_exit (- 1)) \<and>
    n = (if fault_vec f = 14 then cnt + 1 else cnt)"
proof -
  have v: "fault_vec f < INTR_CNT" using assms(4) by (auto simp: INTR_CNT_def)
  have "intr_handlers t' ! fault_vec f = snd (snd (kernel_vectors (fault_vec f)))"
    using kernel_handlers_correct [OF assms(1,2), of base] assms(3) v by auto
  also have "\<dots> = Some (if fault_vec f = 14 then Page_fault else Kill)"
    using assms(4) by (auto simp: kernel_vectors_def exception_vectors_def)
  finally show ?thesis by (simp add: handle_exception_def page_fault_def kill_def selectors)
qed

end
