(* ===== verification/Vga.thy ===== *)
theory Vga
  imports C_String
begin

unbundle bit_operations_syntax

text \<open>
  The text display, \<^verbatim>\<open>devices/vga.c\<close>. The frame buffer is a list of rows of characters with attributes; a write outside of it is \<open>None\<close>. The
  registers of the display controller hold the hardware cursor; \<^verbatim>\<open>outw\<close> to port 0x3D4 selects a register by its low byte and stores the high
  byte in it. The beep of the bell character does not change the display.
\<close>

section \<open>The display\<close>

definition COL_CNT :: nat where "COL_CNT = 80"
definition ROW_CNT :: nat where "ROW_CNT = 25"
definition GRAY_ON_BLACK :: byte where "GRAY_ON_BLACK = 0x07"

type_synonym cell = "byte \<times> byte"

record vga =
  fb :: "cell list list"
  cx :: nat
  cy :: nat
  vga_inited :: bool
  crtc :: "byte \<Rightarrow> byte"

definition outw_crtc :: "16 word \<Rightarrow> vga \<Rightarrow> vga" where
  "outw_crtc v s = s\<lparr>crtc := (crtc s)(ucast v := ucast (drop_bit 8 v))\<rparr>"

definition find_cursor :: "vga \<Rightarrow> nat \<times> nat" where
  "find_cursor s = (let cp = (push_bit 8 (ucast (crtc s 0x0E)) :: 16 word) OR ucast (crtc s 0x0F) in
     (unat cp mod COL_CNT, unat cp div COL_CNT))"

definition move_cursor :: "vga \<Rightarrow> vga" where
  "move_cursor s = (let cp = (of_nat (cx s + COL_CNT * cy s) :: 16 word) in
     outw_crtc (0x0F OR push_bit 8 cp) (outw_crtc (0x0E OR (cp AND 0xFF00)) s))"

definition vga_init :: "vga \<Rightarrow> vga" where
  "vga_init s = (if vga_inited s then s else let (x, y) = find_cursor s in s\<lparr>cx := x, cy := y, vga_inited := True\<rparr>)"

definition put_cell :: "nat \<Rightarrow> nat \<Rightarrow> cell \<Rightarrow> vga \<Rightarrow> vga option" where
  "put_cell y x c s = (if y < length (fb s) \<and> x < length (fb s ! y) then Some (s\<lparr>fb := (fb s)[y := (fb s ! y)[x := c]]\<rparr>) else None)"

fun clear_loop :: "nat \<Rightarrow> nat \<Rightarrow> nat \<Rightarrow> vga \<Rightarrow> vga option" where
  "clear_loop y x 0 s = Some s"
| "clear_loop y x (Suc n) s = do { s \<leftarrow> put_cell y x (0x20, GRAY_ON_BLACK) s; clear_loop y (x + 1) n s }"

definition clear_row :: "nat \<Rightarrow> vga \<Rightarrow> vga option" where
  "clear_row y s = clear_loop y 0 COL_CNT s"

fun cls_loop :: "nat \<Rightarrow> nat \<Rightarrow> vga \<Rightarrow> vga option" where
  "cls_loop y 0 s = Some s"
| "cls_loop y (Suc n) s = do { s \<leftarrow> clear_row y s; cls_loop (y + 1) n s }"

definition cls :: "vga \<Rightarrow> vga option" where
  "cls s = do { s \<leftarrow> cls_loop 0 ROW_CNT s; Some (move_cursor (s\<lparr>cx := 0, cy := 0\<rparr>)) }"

text \<open>The \<^verbatim>\<open>memmove\<close> copies all rows but the first one up.\<close>

definition newline :: "vga \<Rightarrow> vga option" where
  "newline s =
     (let s = s\<lparr>cx := 0, cy := cy s + 1\<rparr> in
      if cy s \<ge> ROW_CNT then clear_row (ROW_CNT - 1) (s\<lparr>cy := ROW_CNT - 1, fb := drop 1 (take ROW_CNT (fb s)) @ drop (ROW_CNT - 1) (fb s)\<rparr>)
      else Some s)"

definition vga_putc :: "byte \<Rightarrow> vga \<Rightarrow> vga option" where
  "vga_putc c s = do {
     let s = vga_init s;
     s \<leftarrow> (if c = 0x0A then newline s
          else if c = 0x0C then cls s
          else if c = 0x08 then Some (if cx s > 0 then s\<lparr>cx := cx s - 1\<rparr> else s)
          else if c = 0x0D then Some (s\<lparr>cx := 0\<rparr>)
          else if c = 0x09 then
            let s = s\<lparr>cx := ROUND_UP (cx s + 1) 8\<rparr> in if cx s \<ge> COL_CNT then newline s else Some s
          else if c = 0x07 then Some s
          else do {
            s \<leftarrow> put_cell (cy s) (cx s) (c, GRAY_ON_BLACK) s;
            let s = s\<lparr>cx := cx s + 1\<rparr>;
            if cx s \<ge> COL_CNT then newline s else Some s });
     Some (move_cursor s) }"

section \<open>The terminal that it implements\<close>

text \<open>A terminal is a sequence of cells with a position in it. When the position leaves the screen, the first row is dropped.\<close>

type_synonym terminal = "cell list \<times> nat"

definition blanks :: "nat \<Rightarrow> cell list" where
  "blanks n = replicate n (0x20, GRAY_ON_BLACK)"

definition scroll :: "terminal \<Rightarrow> terminal" where
  "scroll = (\<lambda>(cs, p). if p \<ge> ROW_CNT * COL_CNT then (drop COL_CNT cs @ blanks COL_CNT, (ROW_CNT - 1) * COL_CNT) else (cs, p))"

definition term_putc :: "byte \<Rightarrow> terminal \<Rightarrow> terminal" where
  "term_putc c = (\<lambda>(cs, p).
     if c = 0x0A then scroll (cs, p - p mod COL_CNT + COL_CNT)
     else if c = 0x0C then (blanks (ROW_CNT * COL_CNT), 0)
     else if c = 0x08 then (cs, if p mod COL_CNT = 0 then p else p - 1)
     else if c = 0x0D then (cs, p - p mod COL_CNT)
     else if c = 0x09 then scroll (cs, p - p mod 8 + 8)
     else if c = 0x07 then (cs, p)
     else scroll (cs[p := (c, GRAY_ON_BLACK)], p + 1))"

definition terminal_of :: "vga \<Rightarrow> terminal" where
  "terminal_of s = (concat (fb s), COL_CNT * cy s + cx s)"

definition fb_ok :: "cell list list \<Rightarrow> bool" where
  "fb_ok b \<longleftrightarrow> length b = ROW_CNT \<and> (\<forall>r \<in> set b. length r = COL_CNT)"

definition vga_ok :: "vga \<Rightarrow> bool" where
  "vga_ok s \<longleftrightarrow> fb_ok (fb s) \<and> vga_inited s \<and> cx s < COL_CNT \<and> cy s < ROW_CNT"

lemmas screen_size = COL_CNT_def ROW_CNT_def

lemma concat_update:
  "\<forall>r \<in> set b. length r = w \<Longrightarrow> y < length b \<Longrightarrow> x < w \<Longrightarrow> concat (b[y := (b ! y)[x := c]]) = (concat b)[w * y + x := c]"
proof (induction b arbitrary: y)
  case (Cons r b)
  then show ?case by (cases y) (auto simp: list_update_append)
qed simp

lemma length_concat: "\<forall>r \<in> set b. length r = w \<Longrightarrow> length (concat b) = w * length b"
  by (induction b) auto

lemma put_cell_spec:
  assumes "fb_ok (fb s)" "y < ROW_CNT" "x < COL_CNT"
  shows "\<exists>b. put_cell y x c s = Some (s\<lparr>fb := b\<rparr>) \<and> fb_ok b \<and> concat b = (concat (fb s))[COL_CNT * y + x := c]"
proof -
  have "fb_ok ((fb s)[y := (fb s ! y)[x := c]])" using assms(1,2) set_update_subset_insert [of "fb s" y] by (fastforce simp: fb_ok_def)
  then show ?thesis using assms concat_update [of "fb s" COL_CNT y x c] by (auto simp: put_cell_def fb_ok_def)
qed

lemma fb_same: "\<exists>b. s = s\<lparr>fb := b\<rparr> \<and> P b" if "P (fb s)" for s :: vga
  by (rule exI [of _ "fb s"]) (simp add: that)

lemma length_screen: "fb_ok b \<Longrightarrow> length (concat b) = ROW_CNT * COL_CNT"
  using length_concat [of b COL_CNT] by (simp add: fb_ok_def)

lemma clear_loop_spec:
  assumes "fb_ok (fb s)" "y < ROW_CNT" "x + n = COL_CNT"
  shows "\<exists>b. clear_loop y x n s = Some (s\<lparr>fb := b\<rparr>) \<and> fb_ok b \<and> concat b = overwrite (concat (fb s)) (COL_CNT * y + x) (blanks n)"
  using assms
proof (induction n arbitrary: x s)
  case 0
  then show ?case by (auto simp: blanks_def overwrite_def intro!: fb_same)
next
  case (Suc n)
  have p: "COL_CNT * y + x < length (concat (fb s))" using Suc.prems by (simp add: length_screen screen_size)
  obtain b where b: "put_cell y x (0x20, GRAY_ON_BLACK) s = Some (s\<lparr>fb := b\<rparr>)" "fb_ok b"
      "concat b = (concat (fb s))[COL_CNT * y + x := (0x20, GRAY_ON_BLACK)]"
    using put_cell_spec [of s y x] Suc.prems by auto
  obtain b' where "clear_loop y (x + 1) n (s\<lparr>fb := b\<rparr>) = Some (s\<lparr>fb := b'\<rparr>)" "fb_ok b'"
      "concat b' = overwrite (concat b) (COL_CNT * y + (x + 1)) (blanks n)"
    using Suc.IH [of "s\<lparr>fb := b\<rparr>" "x + 1"] Suc.prems(2,3) b(2) by auto
  then show ?case using b overwrite_Cons [OF p, of "(0x20, GRAY_ON_BLACK)" "blanks n"] by (auto simp: blanks_def)
qed

lemma clear_row_spec:
  assumes "fb_ok (fb s)" "y < ROW_CNT"
  shows "\<exists>b. clear_row y s = Some (s\<lparr>fb := b\<rparr>) \<and> fb_ok b \<and> concat b = overwrite (concat (fb s)) (COL_CNT * y) (blanks COL_CNT)"
  using clear_loop_spec [OF assms, of 0 COL_CNT] by (simp add: clear_row_def)

lemma cls_loop_spec:
  assumes "fb_ok (fb s)" "y + n = ROW_CNT"
  shows "\<exists>b. cls_loop y n s = Some (s\<lparr>fb := b\<rparr>) \<and> fb_ok b \<and> concat b = overwrite (concat (fb s)) (COL_CNT * y) (blanks (n * COL_CNT))"
  using assms
proof (induction n arbitrary: y s)
  case 0
  then show ?case by (auto simp: blanks_def overwrite_def intro!: fb_same)
next
  case (Suc n)
  obtain b where b: "clear_row y s = Some (s\<lparr>fb := b\<rparr>)" "fb_ok b" "concat b = overwrite (concat (fb s)) (COL_CNT * y) (blanks COL_CNT)"
    using clear_row_spec [of s y] Suc.prems by auto
  obtain b' where b': "cls_loop (y + 1) n (s\<lparr>fb := b\<rparr>) = Some (s\<lparr>fb := b'\<rparr>)" "fb_ok b'"
      "concat b' = overwrite (concat b) (COL_CNT * (y + 1)) (blanks (n * COL_CNT))"
    using Suc.IH [of "s\<lparr>fb := b\<rparr>" "y + 1"] Suc.prems(2) b(2) by auto
  have "COL_CNT * y + COL_CNT \<le> length (concat (fb s))" using Suc.prems by (simp add: length_screen screen_size)
  then have "concat b' = overwrite (concat (fb s)) (COL_CNT * y) (blanks (Suc n * COL_CNT))"
    unfolding b'(3) b(3) by (simp add: overwrite_def blanks_def replicate_add ac_simps)
  then show ?case using b b' by auto
qed

lemma drop_row: "\<forall>r \<in> set b. length r = w \<Longrightarrow> concat (drop n b) = drop (w * n) (concat b)"
proof (induction b arbitrary: n)
  case (Cons r b)
  then show ?case by (cases n) auto
qed simp

lemma newline_spec:
  assumes "fb_ok (fb s)" "cy s < ROW_CNT"
  shows "\<exists>b y. newline s = Some (s\<lparr>fb := b, cx := 0, cy := y\<rparr>) \<and> fb_ok b \<and> y < ROW_CNT \<and>
    (concat b, COL_CNT * y) = scroll (concat (fb s), COL_CNT * cy s + COL_CNT)"
proof (cases "cy s + 1 < ROW_CNT")
  case True
  then show ?thesis using assms
    by (intro exI [of _ "fb s"] exI [of _ "cy s + 1"]) (auto simp: newline_def scroll_def screen_size)
next
  case False
  then have y: "cy s = ROW_CNT - 1" using assms(2) by simp
  have len: "length (fb s) = ROW_CNT" "\<forall>r \<in> set (fb s). length r = COL_CNT" using assms(1) by (auto simp: fb_ok_def)
  define b0 where "b0 = drop 1 (take ROW_CNT (fb s)) @ drop (ROW_CNT - 1) (fb s)"
  have b0: "fb_ok b0" using len by (auto simp: b0_def fb_ok_def screen_size dest: in_set_dropD)
  have c0: "concat b0 = drop COL_CNT (concat (fb s)) @ drop (COL_CNT * (ROW_CNT - 1)) (concat (fb s))"
    using len(1) drop_row [OF len(2), of 1] drop_row [OF len(2), of "ROW_CNT - 1"] by (simp add: b0_def)
  let ?s = "s\<lparr>cx := 0, cy := ROW_CNT - 1, fb := b0\<rparr>"
  obtain b where b: "clear_row (ROW_CNT - 1) ?s = Some (?s\<lparr>fb := b\<rparr>)" "fb_ok b"
      "concat b = overwrite (concat b0) (COL_CNT * (ROW_CNT - 1)) (blanks COL_CNT)"
    using clear_row_spec [of ?s "ROW_CNT - 1"] b0 by (auto simp: screen_size)
  have "concat b = drop COL_CNT (concat (fb s)) @ blanks COL_CNT"
    unfolding b(3) c0 using length_screen [OF assms(1)] by (simp add: overwrite_def screen_size blanks_def)
  then show ?thesis using b(1,2) y len(1)
    by (intro exI [of _ b] exI [of _ "ROW_CNT - 1"]) (auto simp: newline_def b0_def scroll_def screen_size)
qed

lemma move_cursor_keeps [simp]:
  "fb (move_cursor s) = fb s" "cx (move_cursor s) = cx s" "cy (move_cursor s) = cy s" "vga_inited (move_cursor s) = vga_inited s"
  by (simp_all add: move_cursor_def outw_crtc_def Let_def)

lemma terminal_move [simp]: "terminal_of (move_cursor s) = terminal_of s" "vga_ok (move_cursor s) = vga_ok s"
  by (simp_all add: terminal_of_def vga_ok_def)

lemma cls_spec:
  assumes "vga_ok s"
  shows "\<exists>s'. cls s = Some s' \<and> vga_ok s' \<and> terminal_of s' = (blanks (ROW_CNT * COL_CNT), 0)"
proof -
  obtain b where "cls_loop 0 ROW_CNT s = Some (s\<lparr>fb := b\<rparr>)" "fb_ok b" "concat b = overwrite (concat (fb s)) 0 (blanks (ROW_CNT * COL_CNT))"
    using cls_loop_spec [of s 0 ROW_CNT] assms by (auto simp: vga_ok_def)
  then show ?thesis using assms length_screen [of "fb s"]
    by (auto simp: cls_def vga_ok_def terminal_of_def overwrite_def blanks_def screen_size)
qed

lemma newline_refines:
  assumes "fb_ok (fb s)" "vga_inited s" "cy s < ROW_CNT"
  shows "\<exists>s'. newline s = Some s' \<and> vga_ok s' \<and> terminal_of s' = scroll (concat (fb s), COL_CNT * cy s + COL_CNT)"
  using newline_spec [OF assms(1,3)] assms(2) by (auto simp: vga_ok_def terminal_of_def screen_size)

lemma advance_refines:
  assumes "fb_ok (fb s)" "vga_inited s" "cy s < ROW_CNT" "cx s \<le> COL_CNT"
  shows "\<exists>s'. (if cx s \<ge> COL_CNT then newline s else Some s) = Some s' \<and> vga_ok s' \<and> terminal_of s' = scroll (terminal_of s)"
proof (cases "cx s = COL_CNT")
  case True
  then show ?thesis using newline_refines [OF assms(1-3)] by (simp add: terminal_of_def)
next
  case False
  then show ?thesis using assms by (auto simp: vga_ok_def terminal_of_def scroll_def screen_size)
qed

lemma tab_stop: "ROUND_UP (x + 1) 8 = x - x mod 8 + 8" "x < 80 \<Longrightarrow> ROUND_UP (x + 1) 8 \<le> 80"
proof -
  show "ROUND_UP (x + 1) 8 = x - x mod 8 + 8" by (simp add: ROUND_UP_def minus_mod_eq_div_mult div_add_self1)
  then show "x < 80 \<Longrightarrow> ROUND_UP (x + 1) 8 \<le> 80" by presburger
qed

text \<open>C34: Once the display is initialized and the cursor is on the screen, a character written to it has the effect that it has on a terminal
  of 25 rows of 80 columns: it never writes outside of the frame buffer, the cursor stays on the screen, and the rows scroll.\<close>

theorem vga_refines_terminal:
  assumes "vga_ok s"
  shows "\<exists>s'. vga_putc c s = Some s' \<and> vga_ok s' \<and> terminal_of s' = term_putc c (terminal_of s)"
proof -
  note ok = assms [unfolded vga_ok_def]
  have i: "vga_init s = s" using ok by (simp add: vga_init_def)
  have m: "(COL_CNT * cy s + cx s) mod COL_CNT = cx s" "(COL_CNT * cy s + cx s) mod 8 = cx s mod 8" using ok by (auto simp: screen_size mod_add_eq [symmetric])
  consider "c = 0x0A" | "c = 0x0C" | "c = 0x08" | "c = 0x0D" | "c = 0x09" | "c = 0x07" | (printable) "c \<notin> {0x0A, 0x0C, 0x08, 0x0D, 0x09, 0x07}" by blast
  then show ?thesis
  proof cases
    case 1
    then show ?thesis using newline_refines [of s] ok by (auto simp: vga_putc_def i term_putc_def terminal_of_def m)
  next
    case 2
    then show ?thesis using cls_spec [OF assms] by (auto simp: vga_putc_def i term_putc_def split: prod.split)
  next
    case 5
    let ?s = "s\<lparr>cx := ROUND_UP (cx s + 1) 8\<rparr>"
    have "terminal_of ?s = (concat (fb s), COL_CNT * cy s + cx s - (COL_CNT * cy s + cx s) mod 8 + 8)" 
      using tab_stop(1) [of "cx s"] mod_less_eq_dividend [of "cx s" 8] by (simp add: terminal_of_def m)
    then show ?thesis using 5 advance_refines [of ?s] ok tab_stop(2) [of "cx s"]
      by (auto simp: vga_putc_def i term_putc_def terminal_of_def [of s] Let_def screen_size)
  next
    case printable
    obtain b where b: "put_cell (cy s) (cx s) (c, GRAY_ON_BLACK) s = Some (s\<lparr>fb := b\<rparr>)" "fb_ok b"
        "concat b = (concat (fb s))[COL_CNT * cy s + cx s := (c, GRAY_ON_BLACK)]"
      using put_cell_spec [of s "cy s" "cx s"] ok by blast
    then show ?thesis using printable advance_refines [of "s\<lparr>fb := b, cx := cx s + 1\<rparr>"] ok
      by (auto simp: vga_putc_def i term_putc_def terminal_of_def Let_def)
  qed (use ok in \<open>auto simp: vga_putc_def i term_putc_def terminal_of_def m vga_ok_def screen_size\<close>)
qed

definition blank_vga :: vga where
  "blank_vga = \<lparr>fb = replicate ROW_CNT (blanks COL_CNT), cx = 79, cy = 24, vga_inited = True, crtc = (\<lambda>_. 0)\<rparr>"

lemma blank_vga_ok: "vga_ok blank_vga"
  by (simp add: vga_ok_def fb_ok_def blank_vga_def blanks_def screen_size)

theorem vga_refines_terminal_witness:
  "vga_ok blank_vga \<and> (\<exists>s'. vga_putc 0x41 blank_vga = Some s' \<and> vga_ok s' \<and> terminal_of s' = term_putc 0x41 (terminal_of blank_vga))"
  by (rule conjI [OF blank_vga_ok vga_refines_terminal [OF blank_vga_ok]])

section \<open>The hardware cursor\<close>

lemma numeral_bits: "bit (0x0E :: int) n \<Longrightarrow> n < 4" "bit (0x0F :: int) n \<Longrightarrow> n < 4" "\<not> bit (0x0E :: int) (8 + n)" "\<not> bit (0x0F :: int) (8 + n)"
proof -
  have "bit x n \<Longrightarrow> n < 4" if "0 \<le> x" "x < 2 ^ 4" for x :: int and n using that by (metis bit_take_bit_iff take_bit_int_eq_self)
  from this [of "0x0E"] this [of "0x0F"] show "bit (0x0E :: int) n \<Longrightarrow> n < 4" "bit (0x0F :: int) n \<Longrightarrow> n < 4"
      "\<not> bit (0x0E :: int) (8 + n)" "\<not> bit (0x0F :: int) (8 + n)" for n by fastforce+
qed

text \<open>After each character, the position that is read from the display's registers is that of the next character.\<close>

theorem cursor_found:
  assumes "cx s < COL_CNT" "cy s < ROW_CNT"
  shows "find_cursor (move_cursor s) = (cx s, cy s)"
proof -
  let ?cp = "of_nat (cx s + COL_CNT * cy s) :: 16 word"
  have u: "unat ?cp = cx s + COL_CNT * cy s" using assms by (simp add: unat_of_nat screen_size take_bit_nat_eq_self del: of_nat_add of_nat_mult)
  have high: "(0xFF00 :: 16 word) = push_bit 8 (mask 8)" by (simp add: mask_eq_exp_minus_1)
  have low: "(0xFF :: 16 word) = mask 8" by (simp add: mask_eq_exp_minus_1)
  have sel: "ucast (0x0E OR (w AND 0xFF00)) = (0x0E :: byte)" "ucast (0x0F OR push_bit 8 w) = (0x0F :: byte)"
    and val: "ucast (drop_bit 8 w AND 0xFF) = (ucast (drop_bit 8 w) :: byte)" "ucast (drop_bit 8 (push_bit 8 w)) = (ucast w :: byte)" for w :: "16 word"
    unfolding high low by (rule bit_eqI; auto simp: bit_simps numeral_bits(3,4) dest: numeral_bits(1,2))+
  have "crtc (move_cursor s) 0x0E = ucast (drop_bit 8 ?cp)" "crtc (move_cursor s) 0x0F = ucast ?cp"
    by (simp_all add: move_cursor_def outw_crtc_def Let_def sel val del: of_nat_add of_nat_mult)
  moreover have "push_bit 8 (ucast (ucast (drop_bit 8 w) :: byte)) OR ucast (ucast w :: byte) = w" for w :: "16 word"
    by (rule bit_eqI) (auto simp: bit_simps)
  ultimately have "push_bit 8 (ucast (crtc (move_cursor s) 0x0E)) OR ucast (crtc (move_cursor s) 0x0F) = ?cp" by simp
  then show ?thesis using assms u by (simp add: find_cursor_def Let_def screen_size)
qed

end
