(* ===== verification/Ide.thy ===== *)
theory Ide
  imports C_String Stdlib
begin

unbundle bit_operations_syntax

text \<open>
  The driver of IDE disks, \<^verbatim>\<open>devices/ide.c\<close>, as the thread that holds a channel's lock sees it. The hardware is an argument: what the
  \<open>n\<close>-th read of a port returns, and whether the \<open>n\<close>-th interrupt that is waited for comes. What is written to the ports is a sequence, from
  which the requests that the disk gets are read off with the layout of the ATA registers. Delays and messages are left out; waiting for
  an interrupt that does not come, a panic and a failed assertion are \<open>None\<close>.
\<close>

section \<open>Channels\<close>

datatype io = Outb nat byte | Outw nat "16 word"

record ata_hw =
  in8 :: "nat \<Rightarrow> nat \<Rightarrow> byte"
  in16 :: "nat \<Rightarrow> nat \<Rightarrow> 16 word"
  irq_comes :: "nat \<Rightarrow> bool"

record channel =
  reg_base :: nat
  irq :: nat
  locked :: bool
  expecting_interrupt :: bool
  completion_wait :: nat
  is_ata :: "bool list"
  writes :: "io list"
  port_reads :: nat
  irqs :: nat

definition reg_data :: "channel \<Rightarrow> nat" where "reg_data c = reg_base c + 0"
definition reg_error :: "channel \<Rightarrow> nat" where "reg_error c = reg_base c + 1"
definition reg_nsect :: "channel \<Rightarrow> nat" where "reg_nsect c = reg_base c + 2"
definition reg_lbal :: "channel \<Rightarrow> nat" where "reg_lbal c = reg_base c + 3"
definition reg_lbam :: "channel \<Rightarrow> nat" where "reg_lbam c = reg_base c + 4"
definition reg_lbah :: "channel \<Rightarrow> nat" where "reg_lbah c = reg_base c + 5"
definition reg_device :: "channel \<Rightarrow> nat" where "reg_device c = reg_base c + 6"
definition reg_status :: "channel \<Rightarrow> nat" where "reg_status c = reg_base c + 7"
definition reg_command :: "channel \<Rightarrow> nat" where "reg_command c = reg_status c"
definition reg_ctl :: "channel \<Rightarrow> nat" where "reg_ctl c = reg_base c + 0x206"
definition reg_alt_status :: "channel \<Rightarrow> nat" where "reg_alt_status c = reg_ctl c"

lemmas ata_ports = reg_data_def reg_error_def reg_nsect_def reg_lbal_def reg_lbam_def reg_lbah_def reg_device_def reg_status_def
  reg_command_def reg_ctl_def reg_alt_status_def

definition STA_BSY :: byte where "STA_BSY = 0x80"
definition STA_DRDY :: byte where "STA_DRDY = 0x40"
definition STA_DRQ :: byte where "STA_DRQ = 0x08"
definition CTL_SRST :: byte where "CTL_SRST = 0x04"
definition DEV_MBS :: byte where "DEV_MBS = 0xA0"
definition DEV_LBA :: byte where "DEV_LBA = 0x40"
definition DEV_DEV :: byte where "DEV_DEV = 0x10"
definition CMD_IDENTIFY_DEVICE :: byte where "CMD_IDENTIFY_DEVICE = 0xEC"
definition CMD_READ_SECTOR_RETRY :: byte where "CMD_READ_SECTOR_RETRY = 0x20"
definition CMD_WRITE_SECTOR_RETRY :: byte where "CMD_WRITE_SECTOR_RETRY = 0x30"

lemmas ata_codes = DEV_MBS_def DEV_LBA_def DEV_DEV_def CMD_IDENTIFY_DEVICE_def CMD_READ_SECTOR_RETRY_def CMD_WRITE_SECTOR_RETRY_def

definition ide_outb :: "nat \<Rightarrow> byte \<Rightarrow> channel \<Rightarrow> channel" where
  "ide_outb port v c = c\<lparr>writes := writes c @ [Outb port v]\<rparr>"

definition ide_inb :: "ata_hw \<Rightarrow> nat \<Rightarrow> channel \<Rightarrow> byte \<times> channel" where
  "ide_inb hw port c = (in8 hw (port_reads c) port, c\<lparr>port_reads := port_reads c + 1\<rparr>)"

section \<open>Low-level primitives\<close>

fun idle_loop :: "ata_hw \<Rightarrow> nat \<Rightarrow> channel \<Rightarrow> channel" where
  "idle_loop hw 0 c = c"
| "idle_loop hw (Suc n) c =
     (let (v, c) = ide_inb hw (reg_status c) c in if v AND (STA_BSY OR STA_DRQ) = 0 then c else idle_loop hw n c)"

definition wait_until_idle :: "ata_hw \<Rightarrow> channel \<Rightarrow> channel" where
  "wait_until_idle hw c = idle_loop hw 1000 c"

fun busy_loop :: "ata_hw \<Rightarrow> nat \<Rightarrow> channel \<Rightarrow> bool \<times> channel" where
  "busy_loop hw 0 c = (False, c)"
| "busy_loop hw (Suc n) c =
     (let (v, c) = ide_inb hw (reg_alt_status c) c in
      if v AND STA_BSY = 0 then let (w, c) = ide_inb hw (reg_alt_status c) c in (w AND STA_DRQ \<noteq> 0, c)
      else busy_loop hw n c)"

definition wait_while_busy :: "ata_hw \<Rightarrow> channel \<Rightarrow> bool \<times> channel" where
  "wait_while_busy hw c = busy_loop hw 3000 c"

definition select_device :: "ata_hw \<Rightarrow> nat \<Rightarrow> channel \<Rightarrow> channel" where
  "select_device hw dev_no c =
     (let dev = (if dev_no = 1 then DEV_MBS OR DEV_DEV else DEV_MBS) in
      snd (ide_inb hw (reg_alt_status c) (ide_outb (reg_device c) dev c)))"

definition select_device_wait :: "ata_hw \<Rightarrow> nat \<Rightarrow> channel \<Rightarrow> channel" where
  "select_device_wait hw dev_no c = wait_until_idle hw (select_device hw dev_no (wait_until_idle hw c))"

definition select_sector :: "ata_hw \<Rightarrow> nat \<Rightarrow> u32 \<Rightarrow> channel \<Rightarrow> channel option" where
  "select_sector hw dev_no sec_no c = do {
     ASSERT (sec_no < 2 ^ 28);
     let c = select_device_wait hw dev_no c;
     let c = ide_outb (reg_nsect c) 1 c;
     let c = ide_outb (reg_lbal c) (ucast sec_no) c;
     let c = ide_outb (reg_lbam c) (ucast (drop_bit 8 sec_no)) c;
     let c = ide_outb (reg_lbah c) (ucast (drop_bit 16 sec_no)) c;
     Some (ide_outb (reg_device c) (DEV_MBS OR DEV_LBA OR (if dev_no = 1 then DEV_DEV else 0) OR ucast (drop_bit 24 sec_no)) c) }"

definition issue_pio_command :: "bool \<Rightarrow> byte \<Rightarrow> channel \<Rightarrow> channel option" where
  "issue_pio_command intr_on command c = do {
     ASSERT intr_on;
     Some (ide_outb (reg_command c) command (c\<lparr>expecting_interrupt := True\<rparr>)) }"

fun insw :: "ata_hw \<Rightarrow> nat \<Rightarrow> nat \<Rightarrow> channel \<Rightarrow> 16 word list \<times> channel" where
  "insw hw port 0 c = ([], c)"
| "insw hw port (Suc n) c =
     (let v = in16 hw (port_reads c) port; (vs, c) = insw hw port n (c\<lparr>port_reads := port_reads c + 1\<rparr>) in (v # vs, c))"

fun words16 :: "byte list \<Rightarrow> 16 word list" where
  "words16 (a # b # bs) = (ucast a OR push_bit 8 (ucast b)) # words16 bs"
| "words16 _ = []"

definition bytes16 :: "16 word list \<Rightarrow> byte list" where
  "bytes16 ws = concat (map (\<lambda>w. [ucast w, ucast (drop_bit 8 w)]) ws)"

definition input_sector :: "ata_hw \<Rightarrow> channel \<Rightarrow> byte list \<times> channel" where
  "input_sector hw c = (let (ws, c) = insw hw (reg_data c) 256 c in (bytes16 ws, c))"

definition output_sector :: "byte list \<Rightarrow> channel \<Rightarrow> channel option" where
  "output_sector sector c = do {
     ASSERT (length sector \<ge> 512);
     Some (c\<lparr>writes := writes c @ map (Outw (reg_data c)) (take 256 (words16 sector))\<rparr>) }"

section \<open>Interrupts\<close>

fun handler_loop :: "ata_hw \<Rightarrow> nat \<Rightarrow> channel list \<Rightarrow> channel list option" where
  "handler_loop hw vec [] = None"
| "handler_loop hw vec (c # cs) =
     (if vec = irq c then
        Some ((if expecting_interrupt c then let (_, c) = ide_inb hw (reg_status c) c in c\<lparr>completion_wait := completion_wait c + 1\<rparr> else c) # cs)
      else map_option ((#) c) (handler_loop hw vec cs))"

definition interrupt_handler :: "ata_hw \<Rightarrow> nat \<Rightarrow> channel list \<Rightarrow> channel list option" where
  "interrupt_handler hw vec channels = handler_loop hw vec channels"

text \<open>Waiting on the semaphore of a channel: when it is zero, the interrupt that comes next increments it.\<close>

definition await :: "ata_hw \<Rightarrow> channel \<Rightarrow> channel option" where
  "await hw c =
     (if completion_wait c > 0 then Some (c\<lparr>completion_wait := completion_wait c - 1\<rparr>)
      else if irq_comes hw (irqs c) then do {
        cs \<leftarrow> interrupt_handler hw (irq c) [c\<lparr>irqs := irqs c + 1\<rparr>];
        let c = hd cs;
        if completion_wait c > 0 then Some (c\<lparr>completion_wait := completion_wait c - 1\<rparr>) else None }
      else None)"

section \<open>Reading and writing sectors\<close>

definition ide_read :: "ata_hw \<Rightarrow> bool \<Rightarrow> nat \<Rightarrow> u32 \<Rightarrow> channel \<Rightarrow> (byte list \<times> channel) option" where
  "ide_read hw intr_on dev_no sec_no c = do {
     ASSERT (\<not> locked c);
     c \<leftarrow> select_sector hw dev_no sec_no (c\<lparr>locked := True\<rparr>);
     c \<leftarrow> issue_pio_command intr_on CMD_READ_SECTOR_RETRY c;
     c \<leftarrow> await hw c;
     let (ok, c) = wait_while_busy hw c;
     ASSERT ok;
     let (bs, c) = input_sector hw c;
     Some (bs, c\<lparr>locked := False\<rparr>) }"

definition ide_write :: "ata_hw \<Rightarrow> bool \<Rightarrow> nat \<Rightarrow> u32 \<Rightarrow> byte list \<Rightarrow> channel \<Rightarrow> channel option" where
  "ide_write hw intr_on dev_no sec_no buffer c = do {
     ASSERT (\<not> locked c);
     c \<leftarrow> select_sector hw dev_no sec_no (c\<lparr>locked := True\<rparr>);
     c \<leftarrow> issue_pio_command intr_on CMD_WRITE_SECTOR_RETRY c;
     let (ok, c) = wait_while_busy hw c;
     ASSERT ok;
     c \<leftarrow> output_sector buffer c;
     c \<leftarrow> await hw c;
     Some (c\<lparr>locked := False\<rparr>) }"

section \<open>Detection and identification\<close>

definition probe_present :: "ata_hw \<Rightarrow> nat \<Rightarrow> channel \<Rightarrow> bool \<times> channel" where
  "probe_present hw dev_no c =
     (let c = select_device hw dev_no c;
          c = ide_outb (reg_lbal c) 0xAA (ide_outb (reg_nsect c) 0x55 c);
          c = ide_outb (reg_lbal c) 0x55 (ide_outb (reg_nsect c) 0xAA c);
          c = ide_outb (reg_lbal c) 0xAA (ide_outb (reg_nsect c) 0x55 c);
          (n, c) = ide_inb hw (reg_nsect c) c
      in if n = 0x55 then let (l, c) = ide_inb hw (reg_lbal c) c in (l = 0xAA, c) else (False, c))"

fun signature_loop :: "ata_hw \<Rightarrow> nat \<Rightarrow> channel \<Rightarrow> channel" where
  "signature_loop hw 0 c = c"
| "signature_loop hw (Suc n) c =
     (let (a, c) = ide_inb hw (reg_nsect c) c in
      if a = 1 then let (b, c) = ide_inb hw (reg_lbal c) c in if b = 1 then c else signature_loop hw n c
      else signature_loop hw n c)"

definition reset_channel :: "ata_hw \<Rightarrow> channel \<Rightarrow> channel" where
  "reset_channel hw c =
     (let (present0, c) = probe_present hw 0 c;
          (present1, c) = probe_present hw 1 c;
          c = ide_outb (reg_ctl c) 0 (ide_outb (reg_ctl c) CTL_SRST (ide_outb (reg_ctl c) 0 c));
          c = (if present0 then snd (wait_while_busy hw (select_device hw 0 c)) else c)
      in if present1 then snd (wait_while_busy hw (signature_loop hw 3000 (select_device hw 1 c))) else c)"

definition check_device_type :: "ata_hw \<Rightarrow> nat \<Rightarrow> channel \<Rightarrow> bool \<times> channel" where
  "check_device_type hw dev_no c =
     (let c = select_device hw dev_no c;
          (error, c) = ide_inb hw (reg_error c) c;
          (lbam, c) = ide_inb hw (reg_lbam c) c;
          (lbah, c) = ide_inb hw (reg_lbah c) c;
          (status, c) = ide_inb hw (reg_status c) c
      in if (error \<noteq> 1 \<and> (error \<noteq> 0x81 \<or> dev_no = 1)) \<or> status AND STA_DRDY = 0 \<or> status AND STA_BSY \<noteq> 0
         then (error \<noteq> 0x81, c\<lparr>is_ata := (is_ata c)[dev_no := False]\<rparr>)
         else (True, c\<lparr>is_ata := (is_ata c)[dev_no := (lbam = 0 \<and> lbah = 0) \<or> (lbam = 0x3C \<and> lbah = 0xC3)]\<rparr>))"

text \<open>The loops of \<^verbatim>\<open>descramble_ata_string\<close>: swapping pairs, and finding the end from the right.\<close>

function swap_pairs :: "nat \<Rightarrow> nat \<Rightarrow> byte list \<Rightarrow> byte list" where
  "swap_pairs i sz bs = (if i + 1 < sz then swap_pairs (i + 2) sz (bs[i := bs ! (i + 1), i + 1 := bs ! i]) else bs)"
  by auto
termination by (relation "measure (\<lambda>(i, sz, _). sz - i)") auto

declare swap_pairs.simps [simp del]

fun find_end :: "byte list \<Rightarrow> nat \<Rightarrow> nat" where
  "find_end bs 0 = 0"
| "find_end bs (Suc n) = (if bs ! n \<noteq> 0 \<and> \<not> isspace (bs ! n) then Suc n else find_end bs n)"

definition descramble_ata_string :: "byte list \<Rightarrow> nat \<Rightarrow> byte list option" where
  "descramble_ata_string bs sz = (if 0 < sz \<and> sz \<le> length bs then
     let bs = swap_pairs 0 sz bs in Some (bs[find_end bs (sz - 1) := 0]) else None)"

text \<open>What \<^verbatim>\<open>identify_ata_device\<close> finds out; a disk that is registered is then scanned for partitions.\<close>

datatype identity = No_answer | Too_big | Disk u32 "byte list" "byte list"

definition identify_ata_device :: "ata_hw \<Rightarrow> bool \<Rightarrow> nat \<Rightarrow> channel \<Rightarrow> (identity \<times> channel) option" where
  "identify_ata_device hw intr_on dev_no c = do {
     ASSERT (is_ata c ! dev_no);
     c \<leftarrow> issue_pio_command intr_on CMD_IDENTIFY_DEVICE (select_device_wait hw dev_no c);
     c \<leftarrow> await hw c;
     let (ok, c) = wait_while_busy hw c;
     if \<not> ok then Some (No_answer, c\<lparr>is_ata := (is_ata c)[dev_no := False]\<rparr>)
     else do {
       let (id, c) = input_sector hw c;
       let capacity = of_le32 (take 4 (drop 120 id));
       model \<leftarrow> descramble_ata_string (drop 20 id) 20;
       serial \<leftarrow> descramble_ata_string (drop 54 id) 40;
       if capacity \<ge> 1024 * 1024 * 1024 div 512 then Some (Too_big, c\<lparr>is_ata := (is_ata c)[dev_no := False]\<rparr>)
       else Some (Disk capacity model serial, c) } }"

text \<open>One channel of \<^verbatim>\<open>ide_init\<close>, with the disks found on it and their names.\<close>

definition new_channel :: "nat \<Rightarrow> channel \<Rightarrow> channel" where
  "new_channel chan_no c = c\<lparr>reg_base := (if chan_no = 0 then 0x1F0 else 0x170), irq := (if chan_no = 0 then 14 + 0x20 else 15 + 0x20),
     locked := False, expecting_interrupt := False, completion_wait := 0, is_ata := [False, False]\<rparr>"

fun identify_loop :: "ata_hw \<Rightarrow> bool \<Rightarrow> nat \<Rightarrow> nat list \<Rightarrow> channel \<Rightarrow> ((byte list \<times> identity) list \<times> channel) option" where
  "identify_loop hw intr_on chan_no [] c = Some ([], c)"
| "identify_loop hw intr_on chan_no (d # ds) c =
     (if is_ata c ! d then do {
        (i, c) \<leftarrow> identify_ata_device hw intr_on d c;
        (is, c) \<leftarrow> identify_loop hw intr_on chan_no ds c;
        Some (([0x68, 0x64, 0x61 + of_nat (chan_no * 2 + d)], i) # is, c) }
      else identify_loop hw intr_on chan_no ds c)"

definition init_channel :: "ata_hw \<Rightarrow> bool \<Rightarrow> nat \<Rightarrow> channel \<Rightarrow> ((byte list \<times> identity) list \<times> channel) option" where
  "init_channel hw intr_on chan_no c = do {
     let c = reset_channel hw (new_channel chan_no c);
     let (slave, c) = check_device_type hw 0 c;
     let c = (if slave then snd (check_device_type hw 1 c) else c);
     identify_loop hw intr_on chan_no [0, 1] c }"

definition ide_init :: "ata_hw \<Rightarrow> ata_hw \<Rightarrow> bool \<Rightarrow> channel \<Rightarrow> channel \<Rightarrow> ((byte list \<times> identity) list \<times> channel list) option" where
  "ide_init hw0 hw1 intr_on c0 c1 = do {
     (ds, c0) \<leftarrow> init_channel hw0 intr_on 0 c0;
     (es, c1) \<leftarrow> init_channel hw1 intr_on 1 c1;
     Some (ds @ es, [c0, c1]) }"

section \<open>What the disk is asked for\<close>

text \<open>The registers of a disk, and the requests made by writes to its command register: the command, the device, whether the address is
  linear, the address and the number of sectors.\<close>

record ata_regs =
  r_nsect :: byte
  r_lbal :: byte
  r_lbam :: byte
  r_lbah :: byte
  r_device :: byte

record request =
  q_cmd :: byte
  q_slave :: bool
  q_linear :: bool
  q_lba :: u32
  q_count :: byte

definition join_lba :: "byte \<Rightarrow> byte \<Rightarrow> byte \<Rightarrow> byte \<Rightarrow> u32" where
  "join_lba a b c d = ucast a OR push_bit 8 (ucast b) OR push_bit 16 (ucast c) OR push_bit 24 (ucast d)"

definition request_of :: "byte \<Rightarrow> ata_regs \<Rightarrow> request" where
  "request_of v r = \<lparr>q_cmd = v, q_slave = bit (r_device r) 4, q_linear = bit (r_device r) 6,
     q_lba = join_lba (r_lbal r) (r_lbam r) (r_lbah r) (take_bit 4 (r_device r)),
     q_count = r_nsect r\<rparr>"

fun requests :: "nat \<Rightarrow> io list \<Rightarrow> ata_regs \<Rightarrow> request list" where
  "requests base [] r = []"
| "requests base (Outw p v # ws) r = requests base ws r"
| "requests base (Outb p v # ws) r =
     (if p = base + 2 then requests base ws (r\<lparr>r_nsect := v\<rparr>)
      else if p = base + 3 then requests base ws (r\<lparr>r_lbal := v\<rparr>)
      else if p = base + 4 then requests base ws (r\<lparr>r_lbam := v\<rparr>)
      else if p = base + 5 then requests base ws (r\<lparr>r_lbah := v\<rparr>)
      else if p = base + 6 then requests base ws (r\<lparr>r_device := v\<rparr>)
      else if p = base + 7 then request_of v r # requests base ws r
      else requests base ws r)"

fun data_out :: "nat \<Rightarrow> io list \<Rightarrow> 16 word list" where
  "data_out base [] = []"
| "data_out base (Outw p v # ws) = (if p = base then v # data_out base ws else data_out base ws)"
| "data_out base (Outb p v # ws) = data_out base ws"

text \<open>Operations that only read ports.\<close>

definition only_reads :: "channel \<Rightarrow> channel \<Rightarrow> bool" where
  "only_reads c c' \<longleftrightarrow> (\<exists>n. c' = c\<lparr>port_reads := n\<rparr>)"

lemma only_reads_refl [simp]: "only_reads c c"
  unfolding only_reads_def by (rule exI [of _ "port_reads c"]) simp

lemma only_reads_trans: "only_reads a b \<Longrightarrow> only_reads b c \<Longrightarrow> only_reads a c"
  by (auto simp: only_reads_def)

lemma only_reads_inb: "only_reads c (snd (ide_inb hw p c))"
  by (auto simp: only_reads_def ide_inb_def)

lemma only_reads_step: "only_reads (c\<lparr>port_reads := n\<rparr>) c' \<Longrightarrow> only_reads c c'" "only_reads c (c\<lparr>port_reads := n\<rparr>)"
  by (auto simp: only_reads_def)

lemma idle_only_reads: "only_reads c (idle_loop hw n c)"
  by (induction n arbitrary: c) (auto simp: ide_inb_def intro: only_reads_step)

lemma busy_only_reads: "only_reads c (snd (busy_loop hw n c))"
  by (induction n arbitrary: c) (auto simp: ide_inb_def intro: only_reads_step)

lemma insw_only_reads: "only_reads c (snd (insw hw p n c))"
  by (induction n arbitrary: c) (auto simp: Let_def split_beta intro: only_reads_step)

lemma length_insw: "length (fst (insw hw p n c)) = n"
  by (induction n arbitrary: c) (auto simp: Let_def split_beta)

text \<open>The writes of \<^verbatim>\<open>select_sector\<close>.\<close>

definition device_reg :: "nat \<Rightarrow> u32 \<Rightarrow> byte" where
  "device_reg dev_no sec_no = DEV_MBS OR DEV_LBA OR (if dev_no = 1 then DEV_DEV else 0) OR ucast (drop_bit 24 sec_no)"

definition sector_writes :: "nat \<Rightarrow> nat \<Rightarrow> u32 \<Rightarrow> io list" where
  "sector_writes base dev_no sec_no = [Outb (base + 6) (if dev_no = 1 then DEV_MBS OR DEV_DEV else DEV_MBS), Outb (base + 2) 1, Outb (base + 3) (ucast sec_no),
     Outb (base + 4) (ucast (drop_bit 8 sec_no)), Outb (base + 5) (ucast (drop_bit 16 sec_no)),
     Outb (base + 6) (device_reg dev_no sec_no)]"

lemma select_sector_writes:
  assumes "sec_no < 2 ^ 28"
  shows "\<exists>n. select_sector hw dev_no sec_no c = Some (c\<lparr>port_reads := n, writes := writes c @ sector_writes (reg_base c) dev_no sec_no\<rparr>)"
proof -
  obtain n where n: "wait_until_idle hw c = c\<lparr>port_reads := n\<rparr>"
    using idle_only_reads [of c hw 1000] by (auto simp: wait_until_idle_def only_reads_def)
  let ?c = "select_device hw dev_no (c\<lparr>port_reads := n\<rparr>)"
  obtain m where m: "wait_until_idle hw ?c = ?c\<lparr>port_reads := m\<rparr>"
    using idle_only_reads [of ?c hw 1000] by (auto simp: wait_until_idle_def only_reads_def)
  have "select_device_wait hw dev_no c =
      c\<lparr>port_reads := m, writes := writes c @ [Outb (reg_base c + 6) (if dev_no = 1 then DEV_MBS OR DEV_DEV else DEV_MBS)]\<rparr>"
    unfolding select_device_wait_def n m by (simp add: select_device_def ide_outb_def ide_inb_def ata_ports)
  then show ?thesis using assms by (intro exI [of _ m]) (simp add: select_sector_def ide_outb_def ata_ports sector_writes_def device_reg_def)
qed

lemma sector_bits: "n < 28" if "sec_no < 2 ^ 28" "bit sec_no n" for sec_no :: u32
proof -
  have "take_bit 28 sec_no = sec_no"
    using that(1) by (simp add: word_eq_iff_unsigned [where ?'a = nat] unsigned_take_bit_eq take_bit_nat_eq_self word_less_nat_alt)
  then show ?thesis using that(2) by (metis bit_take_bit_iff)
qed

lemma device_bits:
  assumes "n < 8"
  shows "bit DEV_MBS n \<longleftrightarrow> n = 5 \<or> n = 7" "bit DEV_LBA n \<longleftrightarrow> n = 6" "bit DEV_DEV n \<longleftrightarrow> n = 4"
proof -
  have "n \<in> {0, 1, 2, 3, 4, 5, 6, 7}" using assms by auto
  then show "bit DEV_MBS n \<longleftrightarrow> n = 5 \<or> n = 7" "bit DEV_LBA n \<longleftrightarrow> n = 6" "bit DEV_DEV n \<longleftrightarrow> n = 4"
    by (auto simp: ata_codes bit_numeral_rec)
qed

lemma device_reg_fields:
  assumes "sec_no < 2 ^ 28"
  shows "bit (device_reg dev_no sec_no) 4 \<longleftrightarrow> dev_no = 1" "bit (device_reg dev_no sec_no) 6"
    "take_bit 4 (device_reg dev_no sec_no) = ucast (drop_bit 24 sec_no)"
proof -
  have b: "\<not> bit sec_no (24 + n)" if "4 \<le> n" for n using sector_bits [OF assms, of "24 + n"] that by auto
  show "bit (device_reg dev_no sec_no) 4 \<longleftrightarrow> dev_no = 1" "bit (device_reg dev_no sec_no) 6"
    using b [of 4] b [of 6] by (auto simp: device_reg_def bit_or_iff device_bits bit_ucast_iff bit_drop_bit_eq)
  show "take_bit 4 (device_reg dev_no sec_no) = ucast (drop_bit 24 sec_no)"
    by (rule bit_eqI) (auto simp: device_reg_def bit_or_iff bit_take_bit_iff device_bits bit_ucast_iff bit_drop_bit_eq b not_less)
qed

lemma lba_joined: "join_lba (ucast s) (ucast (drop_bit 8 s)) (ucast (drop_bit 16 s)) (ucast (drop_bit 24 s)) = s"
proof (rule bit_eqI)
  fix n :: nat
  consider "n < 8" | "8 \<le> n" "n < 16" | "16 \<le> n" "n < 24" | "24 \<le> n" by linarith
  then show "bit (join_lba (ucast s) (ucast (drop_bit 8 s)) (ucast (drop_bit 16 s)) (ucast (drop_bit 24 s))) n = bit s n"
    by cases (auto simp: join_lba_def bit_simps dest: bit_imp_le_length)
qed

text \<open>The request that the writes of \<^verbatim>\<open>select_sector\<close> and a command make.\<close>

definition sector_request :: "byte \<Rightarrow> nat \<Rightarrow> u32 \<Rightarrow> request" where
  "sector_request cmd dev_no sec_no = \<lparr>q_cmd = cmd, q_slave = (dev_no = 1), q_linear = True, q_lba = sec_no, q_count = 1\<rparr>"

lemma requests_data [simp]: "requests base (map (Outw p) ws) r = []"
  by (induction ws) auto

lemma data_out_data [simp]: "data_out base (map (Outw base) ws) = ws"
  by (induction ws) auto

lemma requests_sector:
  assumes "sec_no < 2 ^ 28"
  shows "requests base (sector_writes base dev_no sec_no @ Outb (base + 7) cmd # map (Outw base) ws) r = [sector_request cmd dev_no sec_no]"
    "data_out base (sector_writes base dev_no sec_no @ Outb (base + 7) cmd # map (Outw base) ws) = ws"
  using device_reg_fields [OF assms, of dev_no] lba_joined [of sec_no]
  by (simp_all add: sector_writes_def request_of_def sector_request_def)

definition answers :: "ata_hw \<Rightarrow> channel \<Rightarrow> bool" where
  "answers hw c \<longleftrightarrow> (\<forall>n. irq_comes hw n) \<and>
     (\<forall>n. \<exists>m < 3000. in8 hw (n + m) (reg_alt_status c) AND STA_BSY = 0) \<and>
     (\<forall>n. in8 hw n (reg_alt_status c) AND STA_BSY = 0 \<longrightarrow> in8 hw (n + 1) (reg_alt_status c) AND STA_DRQ \<noteq> 0)"

lemma busy_loop_answers:
  assumes "m < n" "in8 hw (port_reads c + m) (reg_alt_status c) AND STA_BSY = 0"
    "\<forall>n. in8 hw n (reg_alt_status c) AND STA_BSY = 0 \<longrightarrow> in8 hw (n + 1) (reg_alt_status c) AND STA_DRQ \<noteq> 0"
  shows "fst (busy_loop hw n c)"
  using assms
proof (induction n arbitrary: c m)
  case (Suc n)
  show ?case
  proof (cases "in8 hw (port_reads c) (reg_alt_status c) AND STA_BSY = 0")
    case True
    then show ?thesis using Suc.prems(3) by (simp add: ide_inb_def ata_ports)
  next
    case False
    then obtain k where "m = Suc k" using Suc.prems(2) by (cases m) auto
    then show ?thesis using False Suc.IH [of k "c\<lparr>port_reads := Suc (port_reads c)\<rparr>"] Suc.prems by (simp add: ide_inb_def ata_ports)
  qed
qed simp

lemma wait_while_busy_answers:
  assumes "answers hw c"
  shows "\<exists>n. wait_while_busy hw c = (True, c\<lparr>port_reads := n\<rparr>)"
proof -
  obtain m where "m < 3000" "in8 hw (port_reads c + m) (reg_alt_status c) AND STA_BSY = 0" using assms unfolding answers_def by blast
  then have "fst (wait_while_busy hw c)" using busy_loop_answers [of m 3000] assms by (auto simp: wait_while_busy_def answers_def)
  then show ?thesis using busy_only_reads [of c hw 3000] by (auto simp: wait_while_busy_def only_reads_def prod_eq_iff)
qed

lemma await_answers:
  assumes "answers hw c" "expecting_interrupt c"
  shows "\<exists>n k i. await hw c = Some (c\<lparr>port_reads := n, completion_wait := k, irqs := i\<rparr>)"
  using assms by (cases c) (auto simp: await_def answers_def interrupt_handler_def ide_inb_def Let_def)

lemma length_bytes16: "length (bytes16 ws) = 2 * length ws"
  by (induction ws) (auto simp: bytes16_def)

lemma bytes16_words16: "even (length bs) \<Longrightarrow> bytes16 (words16 bs) = bs"
proof (induction bs rule: words16.induct)
  case (1 a b bs)
  have "ucast (ucast a OR push_bit 8 (ucast b) :: 16 word) = a" "ucast (drop_bit 8 (ucast a OR push_bit 8 (ucast b) :: 16 word)) = b"
    by (rule bit_eqI; auto simp: bit_simps dest: bit_imp_le_length)+
  then show ?case using 1 by (simp add: bytes16_def)
qed (auto simp: bytes16_def)

lemma length_words16: "length (words16 bs) = length bs div 2"
  by (induction bs rule: words16.induct) auto

text \<open>Between two states of a channel the disk got the requests \<open>qs\<close> and the bytes \<open>data\<close>, whatever its registers held before.\<close>

definition asked :: "channel \<Rightarrow> channel \<Rightarrow> request list \<Rightarrow> byte list \<Rightarrow> bool" where
  "asked c c' qs data \<longleftrightarrow> (\<exists>ws. writes c' = writes c @ ws \<and> (\<forall>r. requests (reg_base c) ws r = qs) \<and> bytes16 (data_out (reg_base c) ws) = data)"

lemma answers_cong: "reg_base c' = reg_base c \<Longrightarrow> answers hw c' = answers hw c"
  by (simp add: answers_def ata_ports)

text \<open>The state after a command, before the transfer.\<close>

lemma command_issued:
  assumes "sec_no < 2 ^ 28" "\<not> locked c"
  shows "\<exists>n. do { c \<leftarrow> select_sector hw dev_no sec_no (c\<lparr>locked := True\<rparr>); issue_pio_command True cmd c } =
    Some (c\<lparr>locked := True, expecting_interrupt := True, port_reads := n,
      writes := writes c @ sector_writes (reg_base c) dev_no sec_no @ [Outb (reg_base c + 7) cmd]\<rparr>)"
  using select_sector_writes [OF assms(1), of hw dev_no "c\<lparr>locked := True\<rparr>"]
  by (cases c) (auto simp: issue_pio_command_def ide_outb_def ata_ports)

lemma ide_read_transfer:
  assumes "\<not> locked c" "sec_no < 2 ^ 28" "answers hw c"
  shows "\<exists>bs c'. ide_read hw True dev_no sec_no c = Some (bs, c') \<and> \<not> locked c' \<and> reg_base c' = reg_base c \<and> length bs = 512 \<and>
    asked c c' [sector_request CMD_READ_SECTOR_RETRY dev_no sec_no] []"
proof -
  let ?cmd = "CMD_READ_SECTOR_RETRY" and ?ws = "sector_writes (reg_base c) dev_no sec_no @ [Outb (reg_base c + 7) CMD_READ_SECTOR_RETRY]"
  obtain n where n: "do { c \<leftarrow> select_sector hw dev_no sec_no (c\<lparr>locked := True\<rparr>); issue_pio_command True ?cmd c } =
      Some (c\<lparr>locked := True, expecting_interrupt := True, port_reads := n, writes := writes c @ ?ws\<rparr>)" (is "_ = Some ?c1")
    using command_issued [OF assms(2,1), of hw dev_no ?cmd] by blast
  obtain n2 k i where a: "await hw ?c1 = Some (?c1\<lparr>port_reads := n2, completion_wait := k, irqs := i\<rparr>)" (is "_ = Some ?c2")
    using await_answers [of hw ?c1] assms(3) answers_cong [of ?c1 c hw] by auto
  obtain n3 where w: "wait_while_busy hw ?c2 = (True, ?c2\<lparr>port_reads := n3\<rparr>)" (is "_ = (True, ?c3)")
    using wait_while_busy_answers [of hw ?c2] assms(3) answers_cong [of ?c2 c hw] by auto
  obtain ws n4 where i: "insw hw (reg_data ?c3) 256 ?c3 = (ws, ?c3\<lparr>port_reads := n4\<rparr>)" "length ws = 256"
    using insw_only_reads [of ?c3 hw "reg_data ?c3" 256] length_insw [of hw "reg_data ?c3" 256 ?c3] by (auto simp: only_reads_def prod_eq_iff)
  have "ide_read hw True dev_no sec_no c = Some (bytes16 ws, ?c3\<lparr>port_reads := n4, locked := False\<rparr>)"
    using assms(1) n a w i(1) unfolding ide_read_def input_sector_def bind_assoc [symmetric] by (simp add: bind_assoc)
  moreover have "asked c (?c3\<lparr>port_reads := n4, locked := False\<rparr>) [sector_request ?cmd dev_no sec_no] []"
    using requests_sector [OF assms(2), of "reg_base c" dev_no ?cmd "[]"] by (auto simp: asked_def bytes16_def intro!: exI [of _ ?ws])
  ultimately show ?thesis using length_bytes16 [of ws] i(2) by auto
qed

lemma ide_write_transfer:
  assumes "\<not> locked c" "sec_no < 2 ^ 28" "answers hw c" "length buffer = 512"
  shows "\<exists>c'. ide_write hw True dev_no sec_no buffer c = Some c' \<and> \<not> locked c' \<and> reg_base c' = reg_base c \<and>
    asked c c' [sector_request CMD_WRITE_SECTOR_RETRY dev_no sec_no] buffer"
proof -
  let ?cmd = "CMD_WRITE_SECTOR_RETRY" and ?ws = "sector_writes (reg_base c) dev_no sec_no @ [Outb (reg_base c + 7) CMD_WRITE_SECTOR_RETRY]"
  obtain n where n: "do { c \<leftarrow> select_sector hw dev_no sec_no (c\<lparr>locked := True\<rparr>); issue_pio_command True ?cmd c } =
      Some (c\<lparr>locked := True, expecting_interrupt := True, port_reads := n, writes := writes c @ ?ws\<rparr>)" (is "_ = Some ?c1")
    using command_issued [OF assms(2,1), of hw dev_no ?cmd] by blast
  obtain n2 where w: "wait_while_busy hw ?c1 = (True, ?c1\<lparr>port_reads := n2\<rparr>)" (is "_ = (True, ?c2)")
    using wait_while_busy_answers [of hw ?c1] assms(3) answers_cong [of ?c1 c hw] by auto
  let ?c3 = "?c2\<lparr>writes := writes ?c2 @ map (Outw (reg_base c)) (words16 buffer)\<rparr>"
  have o: "output_sector buffer ?c2 = Some ?c3" using assms(4) by (simp add: output_sector_def length_words16 ata_ports)
  obtain n4 k i where a: "await hw ?c3 = Some (?c3\<lparr>port_reads := n4, completion_wait := k, irqs := i\<rparr>)" (is "_ = Some ?c4")
    using await_answers [of hw ?c3] assms(3) answers_cong [of ?c3 c hw] by auto
  have "ide_write hw True dev_no sec_no buffer c = Some (?c4\<lparr>locked := False\<rparr>)"
    using assms(1) n a w o unfolding ide_write_def bind_assoc [symmetric] by (simp add: bind_assoc)
  moreover have "asked c (?c4\<lparr>locked := False\<rparr>) [sector_request ?cmd dev_no sec_no] buffer"
    using requests_sector [OF assms(2), of "reg_base c" dev_no ?cmd "words16 buffer"] bytes16_words16 [of buffer] assms(4)
    by (auto simp: asked_def intro!: exI [of _ "?ws @ map (Outw (reg_base c)) (words16 buffer)"])
  ultimately show ?thesis by auto
qed

text \<open>C33: A read or write of a sector of a disk that answers returns, releases the channel, and asks the disk for exactly that sector of exactly
  that device by one command; a write sends exactly the bytes of the buffer, and a read returns 512 bytes and sends none.\<close>

theorem ide_transfers:
  assumes "\<not> locked c" "sec_no < 2 ^ 28" "answers hw c" "length buffer = 512"
  shows "(\<exists>bs c'. ide_read hw True dev_no sec_no c = Some (bs, c') \<and> \<not> locked c' \<and> length bs = 512 \<and>
      asked c c' [sector_request CMD_READ_SECTOR_RETRY dev_no sec_no] []) \<and>
    (\<exists>c'. ide_write hw True dev_no sec_no buffer c = Some c' \<and> \<not> locked c' \<and>
      asked c c' [sector_request CMD_WRITE_SECTOR_RETRY dev_no sec_no] buffer)"
  using ide_read_transfer [OF assms(1-3)] ide_write_transfer [OF assms] by blast

definition ready_hw :: ata_hw where
  "ready_hw = \<lparr>in8 = (\<lambda>_ _. 0x48), in16 = (\<lambda>n _. of_nat n), irq_comes = (\<lambda>_. True)\<rparr>"

definition channel0 :: channel where
  "channel0 = \<lparr>reg_base = 0x1F0, irq = 46, locked = False, expecting_interrupt = False, completion_wait = 0, is_ata = [True, False], writes = [],
     port_reads = 0, irqs = 0\<rparr>"

lemma channel0_ready: "\<not> locked channel0" "answers ready_hw channel0"
  by (auto simp: channel0_def answers_def ready_hw_def STA_BSY_def STA_DRQ_def intro!: exI [of _ 0])

theorem ide_transfers_witness:
  "(\<exists>bs c'. ide_read ready_hw True 1 0x1234567 channel0 = Some (bs, c') \<and> \<not> locked c' \<and> length bs = 512 \<and>
      asked channel0 c' [sector_request CMD_READ_SECTOR_RETRY 1 0x1234567] []) \<and>
    (\<exists>c'. ide_write ready_hw True 1 0x1234567 (replicate 512 7) channel0 = Some c' \<and> \<not> locked c' \<and>
      asked channel0 c' [sector_request CMD_WRITE_SECTOR_RETRY 1 0x1234567] (replicate 512 7))"
proof -
  have "(0x1234567 :: u32) < 2 ^ 28" "length (replicate 512 (7 :: byte)) = 512" by simp_all
  from ide_transfers [OF channel0_ready(1) this(1) channel0_ready(2) this(2)] show ?thesis .
qed

section \<open>Errors\<close>

text \<open>A disk that stays busy, or does not request data, makes the transfer panic; it is not used silently.\<close>

lemma busy_loop_fails: "\<forall>n. in8 hw n (reg_alt_status c) AND STA_BSY \<noteq> 0 \<Longrightarrow> \<not> fst (busy_loop hw n c)"
  by (induction n arbitrary: c) (auto simp: ide_inb_def ata_ports)

theorem busy_disk_panics:
  assumes "\<forall>n. in8 hw n (reg_alt_status c) AND STA_BSY \<noteq> 0"
  shows "ide_write hw intr_on dev_no sec_no buffer c = None"
proof (cases "\<not> locked c \<and> sec_no < 2 ^ 28 \<and> intr_on")
  case True
  obtain n where n: "do { c \<leftarrow> select_sector hw dev_no sec_no (c\<lparr>locked := True\<rparr>); issue_pio_command True CMD_WRITE_SECTOR_RETRY c } =
      Some (c\<lparr>locked := True, expecting_interrupt := True, port_reads := n,
        writes := writes c @ sector_writes (reg_base c) dev_no sec_no @ [Outb (reg_base c + 7) CMD_WRITE_SECTOR_RETRY]\<rparr>)" (is "_ = Some ?c1")
    using command_issued [of sec_no c hw dev_no CMD_WRITE_SECTOR_RETRY] True by blast
  have "\<not> fst (wait_while_busy hw ?c1)" using busy_loop_fails [of hw ?c1 3000] assms by (simp add: wait_while_busy_def ata_ports)
  then show ?thesis using True n unfolding ide_write_def bind_assoc [symmetric] by (simp add: bind_assoc split_beta)
next
  case False
  then show ?thesis by (auto simp: ide_write_def select_sector_def issue_pio_command_def bind_eq_None_conv)
qed

text \<open>An interrupt of a channel that has not yet issued a command is ignored, and an interrupt of neither channel is an error.\<close>

theorem interrupt_handler_correct:
  assumes "irq c0 = 46" "irq c1 = 47"
  shows "interrupt_handler hw 46 [c0, c1] = Some [if expecting_interrupt c0 then c0\<lparr>port_reads := port_reads c0 + 1, completion_wait := completion_wait c0 + 1\<rparr> else c0, c1]"
    "interrupt_handler hw 47 [c0, c1] = Some [c0, if expecting_interrupt c1 then c1\<lparr>port_reads := port_reads c1 + 1, completion_wait := completion_wait c1 + 1\<rparr> else c1]"
    "vec \<notin> {46, 47} \<Longrightarrow> interrupt_handler hw vec [c0, c1] = None"
  using assms by (auto simp: interrupt_handler_def ide_inb_def)

section \<open>Names of disks\<close>

text \<open>Swapping pairs, as a function of the text.\<close>

fun swapped_pairs :: "byte list \<Rightarrow> byte list" where
  "swapped_pairs (a # b # bs) = b # a # swapped_pairs bs"
| "swapped_pairs bs = bs"

lemma length_swapped_pairs [simp]: "length (swapped_pairs bs) = length bs"
  by (induction bs rule: swapped_pairs.induct) auto

lemma swap_pairs_all: "swap_pairs (length pre) (length pre + length bs) (pre @ bs @ post) = pre @ swapped_pairs bs @ post"
proof (induction bs arbitrary: pre rule: swapped_pairs.induct)
  case (1 a b bs)
  have "(pre @ (a # b # bs) @ post)[length pre := (pre @ (a # b # bs) @ post) ! (length pre + 1), length pre + 1 := (pre @ (a # b # bs) @ post) ! length pre] =
      (pre @ [b, a]) @ bs @ post" by (simp add: nth_append list_update_append)
  then show ?case using 1 [of "pre @ [b, a]"] by (subst swap_pairs.simps) simp
qed (subst swap_pairs.simps, simp)+

lemma find_end_spec:
  "n \<le> length bs \<Longrightarrow> find_end bs n \<le> n \<and> (\<forall>i. find_end bs n \<le> i \<longrightarrow> i < n \<longrightarrow> bs ! i = 0 \<or> isspace (bs ! i)) \<and>
     (find_end bs n > 0 \<longrightarrow> bs ! (find_end bs n - 1) \<noteq> 0 \<and> \<not> isspace (bs ! (find_end bs n - 1)))"
  by (induction n) (auto simp: less_Suc_eq)

text \<open>The result is the text with its pairs swapped_pairs, without its last byte, which is always dropped, and without the spaces and null bytes
  at the end.\<close>

theorem descramble_correct:
  assumes "0 < sz" "length bs = sz"
  shows "\<exists>e < sz. descramble_ata_string (bs @ post) sz = Some ((swapped_pairs bs)[e := 0] @ post) \<and>
    (\<forall>i. e \<le> i \<longrightarrow> i < sz - 1 \<longrightarrow> swapped_pairs bs ! i = 0 \<or> isspace (swapped_pairs bs ! i)) \<and>
    (e > 0 \<longrightarrow> swapped_pairs bs ! (e - 1) \<noteq> 0 \<and> \<not> isspace (swapped_pairs bs ! (e - 1)))"
proof -
  let ?b = "swapped_pairs bs @ post" and ?e = "find_end (swapped_pairs bs @ post) (sz - 1)"
  have s: "swap_pairs 0 sz (bs @ post) = ?b" using swap_pairs_all [of "[]" bs post] assms(2) by simp
  have e: "?e \<le> sz - 1" "\<forall>i. ?e \<le> i \<longrightarrow> i < sz - 1 \<longrightarrow> ?b ! i = 0 \<or> isspace (?b ! i)"
      "?e > 0 \<longrightarrow> ?b ! (?e - 1) \<noteq> 0 \<and> \<not> isspace (?b ! (?e - 1))"
    using find_end_spec [of "sz - 1" ?b] assms by auto
  have n: "i < sz \<Longrightarrow> ?b ! i = swapped_pairs bs ! i" for i using assms(2) by (simp add: nth_append)
  have "?e < sz" using e(1) assms(1) by linarith
  moreover have "descramble_ata_string (bs @ post) sz = Some ((swapped_pairs bs)[?e := 0] @ post)"
    using \<open>?e < sz\<close> assms by (simp add: descramble_ata_string_def s Let_def list_update_append)
  moreover have "\<forall>i. ?e \<le> i \<longrightarrow> i < sz - 1 \<longrightarrow> swapped_pairs bs ! i = 0 \<or> isspace (swapped_pairs bs ! i)" using e(2) n by auto
  moreover have "?e > 0 \<longrightarrow> swapped_pairs bs ! (?e - 1) \<noteq> 0 \<and> \<not> isspace (swapped_pairs bs ! (?e - 1))"
    using e(3) n [of "?e - 1"] \<open>?e < sz\<close> by auto
  ultimately show ?thesis by (intro exI [of _ ?e] conjI)
qed

end
