(* ===== verification/User_Lib.thy ===== *)
theory User_Lib
  imports Stdio Syscall
begin

text \<open>
  The C library of user programs: the system call stubs (\<^verbatim>\<open>lib/user/syscall.c\<close>) and formatted output (\<^verbatim>\<open>lib/user/console.c\<close>). A stub pushes the
  arguments and the number on the user's stack, which is a map from word addresses to words; the kernel's answer is an argument. The output
  functions call \<^verbatim>\<open>write\<close>, and the sequence of these calls is what they leave behind.
\<close>

section \<open>System call stubs\<close>

definition SYS_MMAP :: u32 where "SYS_MMAP = 14"
definition SYS_MUNMAP :: u32 where "SYS_MUNMAP = 15"

type_synonym ustack = "u32 \<times> (u32 \<Rightarrow> u32)"

definition pushl :: "u32 \<Rightarrow> ustack \<Rightarrow> ustack" where
  "pushl v = (\<lambda>(esp, m). (esp - 4, m(esp - 4 := v)))"

text \<open>The stack at the \<^verbatim>\<open>int\<close> instruction.\<close>

definition syscall0 :: "u32 \<Rightarrow> ustack \<Rightarrow> ustack" where
  "syscall0 number u = pushl number u"

definition syscall1 :: "u32 \<Rightarrow> u32 \<Rightarrow> ustack \<Rightarrow> ustack" where
  "syscall1 number arg0 u = pushl number (pushl arg0 u)"

definition syscall2 :: "u32 \<Rightarrow> u32 \<Rightarrow> u32 \<Rightarrow> ustack \<Rightarrow> ustack" where
  "syscall2 number arg0 arg1 u = pushl number (pushl arg0 (pushl arg1 u))"

definition syscall3 :: "u32 \<Rightarrow> u32 \<Rightarrow> u32 \<Rightarrow> u32 \<Rightarrow> ustack \<Rightarrow> ustack" where
  "syscall3 number arg0 arg1 arg2 u = pushl number (pushl arg0 (pushl arg1 (pushl arg2 u)))"

text \<open>The functions of the library, and the stack that each hands to the kernel.\<close>

datatype user_call = Practice u32 | Halt | Exit u32 | Exec u32 | Wait u32 | Create u32 u32 | Remove u32 | Open u32 | Filesize u32
  | Read u32 u32 u32 | Write u32 u32 u32 | Seek u32 u32 | Tell u32 | Close u32 | Mmap u32 u32 | Munmap u32 | Chdir u32 | Mkdir u32
  | Readdir u32 u32 | Isdir u32 | Inumber u32

fun user_stub :: "user_call \<Rightarrow> ustack \<Rightarrow> ustack" where
  "user_stub (Practice i) = syscall1 SYS_PRACTICE i"
| "user_stub Halt = syscall0 SYS_HALT"
| "user_stub (Exit status) = syscall1 SYS_EXIT status"
| "user_stub (Exec file) = syscall1 SYS_EXEC file"
| "user_stub (Wait pid) = syscall1 SYS_WAIT pid"
| "user_stub (Create file initial_size) = syscall2 SYS_CREATE file initial_size"
| "user_stub (Remove file) = syscall1 SYS_REMOVE file"
| "user_stub (Open file) = syscall1 SYS_OPEN file"
| "user_stub (Filesize n) = syscall1 SYS_FILESIZE n"
| "user_stub (Read n buffer sz) = syscall3 SYS_READ n buffer sz"
| "user_stub (Write n buffer sz) = syscall3 SYS_WRITE n buffer sz"
| "user_stub (Seek n position) = syscall2 SYS_SEEK n position"
| "user_stub (Tell n) = syscall1 SYS_TELL n"
| "user_stub (Close n) = syscall1 SYS_CLOSE n"
| "user_stub (Mmap n addr) = syscall2 SYS_MMAP n addr"
| "user_stub (Munmap mapid) = syscall1 SYS_MUNMAP mapid"
| "user_stub (Chdir dir) = syscall1 SYS_CHDIR dir"
| "user_stub (Mkdir dir) = syscall1 SYS_MKDIR dir"
| "user_stub (Readdir n name) = syscall2 SYS_READDIR n name"
| "user_stub (Isdir n) = syscall1 SYS_ISDIR n"
| "user_stub (Inumber n) = syscall1 SYS_INUMBER n"

text \<open>The kernel reads the user's stack above the stack pointer.\<close>

definition sees :: "sys \<Rightarrow> ustack \<Rightarrow> nat \<Rightarrow> bool" where
  "sees s u n \<longleftrightarrow> (\<forall>i < n. rd32 s (fst u + 4 * of_nat i) = Some (snd u (fst u + 4 * of_nat i)))"

lemma sees_arg: "sees s u n \<Longrightarrow> i < n \<Longrightarrow> arg s (fst u) (of_nat i) = Some (snd u (fst u + 4 * of_nat i))"
  by (simp add: sees_def arg_def)

text \<open>The kernel finds the number and the arguments where its handler looks for them, and the stack pointer is the same again after the
  words have been removed.\<close>

theorem syscall3_arguments:
  assumes "u' = syscall3 number a0 a1 a2 u" "sees s u' 4"
  shows "arg s (fst u') 0 = Some number" "arg s (fst u') 1 = Some a0" "arg s (fst u') 2 = Some a1" "arg s (fst u') 3 = Some a2"
    "fst u' + 16 = fst u"
  using sees_arg [OF assms(2), of 0] sees_arg [OF assms(2), of 1] sees_arg [OF assms(2), of 2] sees_arg [OF assms(2), of 3]
  by (auto simp: assms(1) syscall3_def pushl_def split_beta)

theorem syscall2_arguments:
  assumes "u' = syscall2 number a0 a1 u" "sees s u' 3"
  shows "arg s (fst u') 0 = Some number" "arg s (fst u') 1 = Some a0" "arg s (fst u') 2 = Some a1" "fst u' + 12 = fst u"
  using sees_arg [OF assms(2), of 0] sees_arg [OF assms(2), of 1] sees_arg [OF assms(2), of 2]
  by (auto simp: assms(1) syscall2_def pushl_def split_beta)

theorem syscall1_arguments:
  assumes "u' = syscall1 number a0 u" "sees s u' 2"
  shows "arg s (fst u') 0 = Some number" "arg s (fst u') 1 = Some a0" "fst u' + 8 = fst u"
  using sees_arg [OF assms(2), of 0] sees_arg [OF assms(2), of 1] by (auto simp: assms(1) syscall1_def pushl_def split_beta)

text \<open>The words that the kernel checks before it reads the arguments of a call are those that the stub has pushed.\<close>

definition pushed :: "user_call \<Rightarrow> ustack \<Rightarrow> nat" where
  "pushed q u = unat (fst u - fst (user_stub q u)) div 4"

theorem stub_pushes_checked_words:
  assumes "q \<notin> {Halt} \<union> range Practice \<union> range Exit \<union> range Munmap \<union> {Mmap n a | n a. True}"
  shows "of_nat (pushed q u) = checked_words (snd (user_stub q u) (fst (user_stub q u)))"
  using assms by (cases q) (auto simp: pushed_def pushl_def syscall1_def syscall2_def syscall3_def split_beta checked_words_def sys_defs)

section \<open>Formatted output\<close>

definition STDOUT_FILENO :: int where "STDOUT_FILENO = 1"

record vhprintf_aux =
  aux_buf :: "byte list"
  aux_pos :: nat
  aux_char_cnt :: int
  aux_handle :: int
  aux_sent :: "(int \<times> byte list) list"

definition flush :: "vhprintf_aux \<Rightarrow> vhprintf_aux" where
  "flush aux = (if aux_pos aux > 0 then aux\<lparr>aux_sent := aux_sent aux @ [(aux_handle aux, take (aux_pos aux) (aux_buf aux))], aux_pos := 0\<rparr>
     else aux\<lparr>aux_pos := 0\<rparr>)"

definition add_char :: "vhprintf_aux out_fun" where
  "add_char c = (\<lambda>(m, aux). do {
     ASSERT (aux_pos aux < length (aux_buf aux));
     let aux = aux\<lparr>aux_buf := (aux_buf aux)[aux_pos aux := c], aux_pos := aux_pos aux + 1\<rparr>;
     let aux = (if aux_pos aux \<ge> 64 then flush aux else aux);
     n \<leftarrow> c_int (aux_char_cnt aux + 1);
     Some (m, aux\<lparr>aux_char_cnt := n\<rparr>) })"

text \<open>\<open>junk\<close> is the buffer before it is used; the result is the count and the calls of \<^verbatim>\<open>write\<close>.\<close>

definition vhprintf :: "byte list \<Rightarrow> int \<Rightarrow> c_text \<Rightarrow> va_list \<Rightarrow> cmem \<Rightarrow> (int \<times> (int \<times> byte list) list \<times> cmem) option" where
  "vhprintf junk handle fmt args m = do {
     (m, aux) \<leftarrow> do_vprintf fmt 0 args add_char (m, \<lparr>aux_buf = junk, aux_pos = 0, aux_char_cnt = 0, aux_handle = handle, aux_sent = []\<rparr>);
     let aux = flush aux;
     Some (aux_char_cnt aux, aux_sent aux, m) }"

definition hprintf :: "byte list \<Rightarrow> int \<Rightarrow> c_text \<Rightarrow> va_list \<Rightarrow> cmem \<Rightarrow> (int \<times> (int \<times> byte list) list \<times> cmem) option" where
  "hprintf junk handle fmt args m = vhprintf junk handle fmt args m"

definition u_vprintf :: "byte list \<Rightarrow> c_text \<Rightarrow> va_list \<Rightarrow> cmem \<Rightarrow> (int \<times> (int \<times> byte list) list \<times> cmem) option" where
  "u_vprintf junk fmt args m = vhprintf junk STDOUT_FILENO fmt args m"

definition u_putchar :: "byte \<Rightarrow> (int \<times> byte list) list" where
  "u_putchar c = [(STDOUT_FILENO, [c])]"

definition u_puts :: "byte list \<Rightarrow> (int \<times> byte list) list" where
  "u_puts text = (STDOUT_FILENO, text) # u_putchar 10"

definition out_bytes :: "(int \<times> byte list) list \<Rightarrow> byte list" where
  "out_bytes calls = concat (map snd calls)"

definition stream :: "vhprintf_aux \<Rightarrow> byte list" where
  "stream aux = out_bytes (aux_sent aux) @ take (aux_pos aux) (aux_buf aux)"

text \<open>The buffer never overflows, the count is that of the characters sent or buffered, and each call of \<^verbatim>\<open>write\<close> so far was for 64 bytes.\<close>

definition aux_inv :: "int \<Rightarrow> cmem \<times> vhprintf_aux \<Rightarrow> bool" where
  "aux_inv handle = (\<lambda>(m, aux). length (aux_buf aux) = 64 \<and> aux_pos aux < 64 \<and> aux_handle aux = handle \<and>
     aux_char_cnt aux = int (length (stream aux)) \<and> (\<forall>(h, bs) \<in> set (aux_sent aux). h = handle \<and> length bs = 64))"

lemma flush_cnt [simp]: "aux_char_cnt (flush aux) = aux_char_cnt aux"
  by (simp add: flush_def)

lemma add_char_total:
  assumes "aux_inv handle (m, aux)" "aux_char_cnt aux < INT_MAX"
  shows "\<exists>aux'. add_char c (m, aux) = Some (m, aux')"
proof -
  have "0 \<le> aux_char_cnt aux" "aux_pos aux < length (aux_buf aux)" using assms(1) by (auto simp: aux_inv_def)
  then show ?thesis using assms(2) by (simp add: add_char_def Let_def c_int_def INT_MIN_def)
qed

lemma flush_stream: "stream (flush aux) = stream aux" "aux_pos (flush aux) = 0"
  by (auto simp: flush_def stream_def out_bytes_def)

lemma add_char_stream:
  assumes "add_char c (m, aux) = Some (m', aux')" "aux_inv handle (m, aux)"
  shows "stream aux' = stream aux @ [c]" "m' = m" "aux_inv handle (m', aux')"
proof -
  let ?a = "aux\<lparr>aux_buf := (aux_buf aux)[aux_pos aux := c], aux_pos := aux_pos aux + 1\<rparr>"
  have i: "length (aux_buf aux) = 64" "aux_pos aux < 64" "aux_handle aux = handle" "aux_char_cnt aux = int (length (stream aux))"
      "\<forall>(h, bs) \<in> set (aux_sent aux). h = handle \<and> length bs = 64"
    using assms(2) by (auto simp: aux_inv_def)
  have s: "stream ?a = stream aux @ [c]" using i(1,2) by (simp add: stream_def take_Suc_conv_app_nth)
  have a: "aux' = (if aux_pos ?a \<ge> 64 then flush ?a else ?a)\<lparr>aux_char_cnt := aux_char_cnt aux + 1\<rparr>" "m' = m"
    using assms(1) by (auto simp: add_char_def Let_def c_int_def flush_def bind_eq_Some_conv split: if_splits)
  have k: "stream (x\<lparr>aux_char_cnt := n\<rparr>) = stream x" for x n by (simp add: stream_def)
  show "stream aux' = stream aux @ [c]" unfolding a(1) k using s flush_stream(1) [of ?a] by simp
  then show "aux_inv handle (m', aux')" using i by (auto simp: aux_inv_def a flush_def split: if_splits)
  show "m' = m" by (rule a(2))
qed

text \<open>When the function returns, everything has been written, in calls of at most 64 bytes that are not empty, and the result is the number
  of the bytes.\<close>

theorem vhprintf_complete:
  assumes "vhprintf junk handle fmt args m = Some (n, calls, m')" "length junk = 64"
  shows "n = int (length (out_bytes calls)) \<and> (\<forall>(h, bs) \<in> set calls. h = handle \<and> 0 < length bs \<and> length bs \<le> 64)"
proof -
  let ?aux = "\<lparr>aux_buf = junk, aux_pos = 0, aux_char_cnt = 0, aux_handle = handle, aux_sent = []\<rparr>"
  obtain aux where v: "do_vprintf fmt 0 args add_char (m, ?aux) = Some (m', aux)" "n = aux_char_cnt (flush aux)" "calls = aux_sent (flush aux)"
    using assms(1) by (auto simp: vhprintf_def Let_def elim!: bind_SomeE)
  have "keeps (aux_inv handle) add_char" using add_char_stream(3) by (fastforce simp: keeps_def)
  moreover have "aux_inv handle (m, ?aux)" using assms(2) by (simp add: aux_inv_def stream_def out_bytes_def)
  ultimately have i: "aux_inv handle (m', aux)" using do_vprintf_keeps v(1) by blast
  have "out_bytes calls = stream aux" using flush_stream [of aux] v(3) by (simp add: stream_def)
  then show ?thesis using i v(2,3) by (fastforce simp: aux_inv_def flush_def split: if_splits)
qed

text \<open>A text without conversions is written as it is.\<close>

lemma plain_text_stream:
  assumes "aux_inv handle (m, aux)" "37 \<notin> set cs" "0 \<notin> set cs" "aux_char_cnt aux + int (length cs) < 2 ^ 31"
  shows "\<exists>aux'. do_vprintf (Lit (pre @ cs @ [0])) (length pre) args add_char (m, aux) = Some (m, aux') \<and> stream aux' = stream aux @ cs \<and>
    aux_inv handle (m, aux')"
  using assms
proof (induction cs arbitrary: pre aux)
  case Nil
  then show ?case by (subst do_vprintf.simps) (simp add: char_at_def)
next
  case (Cons c cs)
  obtain aux1 where a: "add_char c (m, aux) = Some (m, aux1)"
    using add_char_total [OF Cons.prems(1), of c] Cons.prems(4) by (auto simp: INT_MAX_def)
  note s = add_char_stream [OF a Cons.prems(1)]
  have "aux_char_cnt aux1 + int (length cs) < 2 ^ 31" using Cons.prems(1,4) s(1,3) by (simp add: aux_inv_def)
  then obtain aux' where "do_vprintf (Lit ((pre @ [c]) @ cs @ [0])) (length (pre @ [c])) args add_char (m, aux1) = Some (m, aux')"
      "stream aux' = stream aux1 @ cs" "aux_inv handle (m, aux')"
    using Cons.IH [of aux1 "pre @ [c]"] Cons.prems(2,3) s(3) by auto
  then show ?case using a s(1) Cons.prems(2,3) by (subst do_vprintf.simps) (simp add: char_at_def nth_append)
qed

theorem vhprintf_plain:
  assumes "37 \<notin> set cs" "0 \<notin> set cs" "length cs < 2 ^ 31" "length junk = 64"
  shows "\<exists>calls. vhprintf junk handle (Lit (cs @ [0])) args m = Some (int (length cs), calls, m) \<and> out_bytes calls = cs"
proof -
  let ?aux = "\<lparr>aux_buf = junk, aux_pos = 0, aux_char_cnt = 0, aux_handle = handle, aux_sent = []\<rparr>"
  have i: "aux_inv handle (m, ?aux)" "stream ?aux = []" using assms(4) by (simp_all add: aux_inv_def stream_def out_bytes_def)
  obtain aux where v: "do_vprintf (Lit (cs @ [0])) 0 args add_char (m, ?aux) = Some (m, aux)" "stream aux = cs" "aux_inv handle (m, aux)"
    using plain_text_stream [OF i(1) assms(1,2), of "[]" args] assms(3) i(2) by auto
  have "out_bytes (aux_sent (flush aux)) = cs" using flush_stream [of aux] v(2) by (simp add: stream_def)
  moreover have "aux_char_cnt (flush aux) = int (length cs)" using v(2,3) by (simp add: flush_def aux_inv_def)
  ultimately show ?thesis using v(1) by (simp add: vhprintf_def)
qed

end
