(* ===== verification/Process_Exit.thy ===== *)
theory Process_Exit
  imports Exec_Load
begin

text \<open>
  What \<^verbatim>\<open>process_exit\<close> of \<^verbatim>\<open>userprog/process.c\<close> does to the memory of a process: the page directory is taken away from the thread, the kernel's
  own directory is activated, and only then the process's directory is destroyed. The pages that are given back are the result.
\<close>

definition release_pagedir :: "exec_state \<Rightarrow> (u32 list \<times> exec_state) option" where
  "release_pagedir s = (case pagedir s of
     None \<Rightarrow> Some ([], s)
   | Some pd \<Rightarrow> do {
       let s = s\<lparr>pagedir := None\<rparr>;
       m \<leftarrow> pagedir_activate None (ptabs s);
       let s = s\<lparr>ptabs := m\<rparr>;
       ps \<leftarrow> pagedir_destroy pd m;
       Some (ps, s) })"

text \<open>The frames and tables of the process and its directory are given back, the kernel's directory is active, and a thread switch at any
  moment afterwards activates it again, since the thread has no directory.\<close>

theorem release_pagedir_safe:
  assumes "pagedir s = Some pd" "pd_ok pd (words (ptabs s))" "pd \<noteq> init_page_dir (ptabs s)" "is_kernel_vaddr (init_page_dir (ptabs s))"
    and "\<And>i. unat i < 768 \<Longrightarrow> words (ptabs s) (entry pd i) \<noteq> 0 \<Longrightarrow> words (ptabs s) (entry pd i) AND PTE_P \<noteq> 0"
  shows "\<exists>s'. release_pagedir s = Some (concat (map (\<lambda>pt. frames_in pt (ptabs s) @ [pt]) (tables_of pd (ptabs s))) @ [pd], s') \<and>
    pagedir s' = None \<and> active_pd (ptabs s') = Some (init_page_dir (ptabs s)) \<and> words (ptabs s') = words (ptabs s) \<and>
    process_activate s' = Some s'"
proof -
  obtain p where p: "vtop (init_page_dir (ptabs s)) = Some p" "ptov p = Some (init_page_dir (ptabs s))"
    using vtop_eq [OF assms(4)] vtop_ptov by blast
  let ?m = "(ptabs s)\<lparr>cr3 := p, tlb := Map.empty\<rparr>"
  have "pagedir_destroy pd ?m = Some (concat (map (\<lambda>pt. frames_in pt ?m @ [pt]) (tables_of pd ?m)) @ [pd])"
    using pagedir_destroy_frees [of pd ?m] assms(2,3,5) by simp
  moreover have "frames_in pt ?m = frames_in pt (ptabs s)" "tables_of pd ?m = tables_of pd (ptabs s)" for pt
    by (simp_all add: frames_in_def tables_of_def)
  ultimately show ?thesis
    using assms(1) p by (simp add: release_pagedir_def pagedir_activate_def active_pd_def process_activate_def Let_def)
qed

end
