(* ===== verification/Spec2Isabelle.thy ===== *)
theory Spec2Isabelle
  imports Bitmap List_Sort C_String Filesys Wakeup Tid_Unique Round_Robin Arithmetic64 Hash_Table Intq Page_Dir Malloc Process_Args Syscall Process_Wait Partition Boot Paging Keyboard Fixed_Point Segments Vga Ide User_Lib Process_Exit
begin

text \<open>
  \<^bold>\<open>A verification library for the Pintos kernel.\<close> The program is a small operating system for 32-bit x86 computers, written in C under
  \<^verbatim>\<open>src/pintos/src\<close>: threads with a round-robin scheduler, semaphores, locks and condition variables; memory allocators and page tables; a file
  system with a buffer cache and directories; user processes with system calls; and the drivers and library functions below them. File names in
  the theories are relative to that directory.

  \<^bold>\<open>How the code is modelled.\<close> A C function is a function of the same name on an explicit state. \<^term>\<open>None\<close> stands for everything after which
  the function does not continue: a failed \<^verbatim>\<open>ASSERT\<close>, a panic, an access outside an object, other undefined behaviour, a wait that nobody ends, and
  a loop that does not end. Error results that the code returns to its caller are ordinary values. Integers are words of their width
  (\<open>u32\<close>, \<open>u64\<close>, \<open>byte\<close>) where wrap-around matters; signed arithmetic whose overflow is undefined is on \<open>int\<close> with an explicit range
  check. A \<^verbatim>\<open>struct\<close> is a record and an enumeration a datatype. Memory that is shared by pointers is a heap: list elements are addresses in a
  heap of links, inodes and open files are indices, the page tables are words at addresses, and the strings of the C library are indices in
  one array of bytes. Hardware is an argument: what a port or register returns, whether an interrupt comes, what a page holds before it
  is used. Threads and processes that run concurrently are step relations, and a property of them is an invariant of all interleavings.

  \<^bold>\<open>Library code.\<close> \<open>Prelude\<close> has the machine types, assertions, arrays and byte layout that all theories share.
  \<^item> \<open>Bitmap\<close>: \<^verbatim>\<open>lib/kernel/bitmap.c\<close>, as arrays of 32-bit elements that simulate sequences of bits, with first-fit scanning and the file format.
  \<^item> \<open>Kernel_List\<close>, \<open>List_Sort\<close>: \<^verbatim>\<open>lib/kernel/list.c\<close> over a heap of links, and its merge sort for any strict weak order (a locale).
  \<^item> \<open>Hash_Table\<close>: \<^verbatim>\<open>lib/kernel/hash.c\<close>, which refines a set of inequivalent elements (a locale for the comparison and the hash function).
  \<^item> \<open>C_String\<close>, \<open>Stdlib\<close>, \<open>Stdio\<close>, \<open>Ustar\<close>: \<^verbatim>\<open>lib/string.c\<close>, \<^verbatim>\<open>lib/stdlib.c\<close>, \<^verbatim>\<open>lib/stdio.c\<close> with \<^verbatim>\<open>lib/kernel/console.c\<close>, and \<^verbatim>\<open>lib/ustar.c\<close>:
    each function against its specification, heap sort and binary search, bounds of formatted output, and the round trips
    of printing and parsing numbers and of archive headers.
  \<^item> \<open>Arithmetic64\<close>, \<open>Random_Numbers\<close>, \<open>Fixed_Point\<close>: \<^verbatim>\<open>lib/arithmetic.c\<close>, \<^verbatim>\<open>lib/random.c\<close> and \<^verbatim>\<open>threads/fixed-point.h\<close>.
  \<^item> \<open>User_Lib\<close>: the system call stubs and formatted output of user programs, \<^verbatim>\<open>lib/user/syscall.c\<close> and \<^verbatim>\<open>lib/user/console.c\<close>. A stub pushes the words
    that the handler of the kernel checks.

  \<^bold>\<open>Threads.\<close> \<open>Threads\<close> models \<^verbatim>\<open>threads/thread.c\<close>, \<^verbatim>\<open>threads/synch.c\<close>, the levels and handlers of \<^verbatim>\<open>threads/interrupt.c\<close>, and the timer interrupt. A
  thread is a stack of frames, one for each function it is in; a step runs the thread that has the processor up to its next scheduling point,
  and an interrupt can come whenever the level allows. The theories on top are invariants of every reachable state.
  \<^item> \<open>Scheduler\<close>: queues, ownership and creation. \<open>Lock_Safety\<close>: mutual exclusion, and that a thread is in one queue at a time.
  \<^item> \<open>Panic_Free\<close>: an assertion fails only when the caller breaks the contract of a function, or when a thread exits and the next one was preempted
    with the lock of the page allocator. \<open>Wakeup\<close>: semaphores lose no wake-up.
  \<^item> \<open>Tid_Unique\<close>: thread identifiers are unique. \<open>Round_Robin\<close>: a ready thread runs after a bounded number of ticks.

  \<^bold>\<open>Memory.\<close> \<open>Vaddr\<close> has addresses and page table entries (\<^verbatim>\<open>threads/vaddr.h\<close>, \<^verbatim>\<open>threads/pte.h\<close>).
  \<^item> \<open>Palloc\<close>, \<open>Malloc\<close>: \<^verbatim>\<open>threads/palloc.c\<close> and \<^verbatim>\<open>threads/malloc.c\<close>; blocks in use are disjoint, and the heap refines a map from addresses to sizes.
  \<^item> \<open>Page_Dir\<close>: \<^verbatim>\<open>userprog/pagedir.c\<close> refines a map from user pages to frames. \<open>Paging\<close>: \<^verbatim>\<open>paging_init\<close> of \<^verbatim>\<open>threads/init.c\<close> maps all of memory.

  \<^bold>\<open>File system.\<close> Each theory is the client of the one before.
  \<^item> \<open>Block_Dev\<close>: \<^verbatim>\<open>devices/block.c\<close>. \<open>Partition\<close>: \<^verbatim>\<open>devices/partition.c\<close>; a partition gives access to its own sectors only.
  \<^item> \<open>Buffer_Cache\<close>: the cache in \<^verbatim>\<open>filesys/inode.c\<close>. The contract of a store of sectors is a locale, which the bare device and the cached device
    both satisfy; so the cache is transparent for any sequence of reads and writes of whole sectors.
  \<^item> \<open>FS_State\<close>, \<open>Inode\<close>: the rest of \<^verbatim>\<open>filesys/inode.c\<close> with \<^verbatim>\<open>filesys/free-map.c\<close>; reading and writing agree with the contents of the file.
  \<^item> \<open>Directory\<close>, \<open>Filesys\<close>: \<^verbatim>\<open>filesys/file.c\<close>, \<^verbatim>\<open>filesys/directory.c\<close>, \<^verbatim>\<open>filesys/filesys.c\<close>.
  \<^item> \<open>Fsutil\<close>: \<^verbatim>\<open>filesys/fsutil.c\<close>; what is appended to an archive can be parsed again.

  \<^bold>\<open>Processes.\<close>
  \<^item> \<open>Process_Args\<close>, \<open>Exec_Load\<close>: \<^verbatim>\<open>userprog/process.c\<close>, from the command line to the stack and the memory image of a new process.
  \<^item> \<open>Process_Wait\<close>: executing, waiting and exiting as steps of all processes on the wait statuses they share. \<open>Process_Exit\<close>: the page
    directory of a process is destroyed only after the kernel's own directory is active.
  \<^item> \<open>Syscall\<close>: \<^verbatim>\<open>userprog/syscall.c\<close> over the address space, the descriptors and the file system.
  \<^item> \<open>Descriptors\<close>, \<open>Segments\<close>: the descriptor tables and their registration (\<^verbatim>\<open>threads/interrupt.c\<close>, \<^verbatim>\<open>userprog/gdt.c\<close>, \<^verbatim>\<open>userprog/tss.c\<close>) and the
    handlers of \<^verbatim>\<open>userprog/exception.c\<close>. What the processor reads from a descriptor is what was asked for, and user programs can raise
    exactly four vectors themselves.

  \<^bold>\<open>Devices and start.\<close>
  \<^item> \<open>Intq\<close>, \<open>Serial\<close>, \<open>Keyboard\<close>: \<^verbatim>\<open>devices/intq.c\<close> as steps of readers, writers and handlers; \<^verbatim>\<open>devices/serial.c\<close>, \<^verbatim>\<open>devices/input.c\<close> and \<^verbatim>\<open>devices/kbd.c\<close>.
  \<^item> \<open>Ide\<close>: \<^verbatim>\<open>devices/ide.c\<close>; a transfer asks the disk for exactly the sector it is called for.
  \<^item> \<open>Vga\<close>: \<^verbatim>\<open>devices/vga.c\<close> refines a terminal of 25 rows.
  \<^item> \<open>Clock\<close>, \<open>Timer_Delay\<close>, \<open>Shutdown\<close>: \<^verbatim>\<open>devices/rtc.c\<close>, \<^verbatim>\<open>devices/pit.c\<close>, the delays of \<^verbatim>\<open>devices/timer.c\<close>, \<^verbatim>\<open>devices/speaker.c\<close>, \<^verbatim>\<open>devices/shutdown.c\<close>, and
    the order of events in a panic (\<^verbatim>\<open>lib/kernel/debug.c\<close>).
  \<^item> \<open>Boot\<close>: the command line, options, choice of devices and actions of \<^verbatim>\<open>threads/init.c\<close>.

  \<^bold>\<open>Termination and bounds.\<close> One definition has fuel: \<open>inode_write_at_depth\<close>, whose depth is 2 in \<open>inode_write_at\<close>. The write of a file that grows
  writes the free map file, and a third write below that one would be of the free map file while the inode of that file is checked in for
  writing, where the code waits for itself; so depth 2 cuts off no call that returns. A loop that ends by a measure is a \<^theory_text>\<open>function\<close> with its termination proof, and a loop with a
  constant bound in the source (the polls of the disk and of the keyboard controller) counts that bound down. A loop that may run for ever is a
  \<^theory_text>\<open>partial_function\<close> in which not returning is \<^term>\<open>None\<close>; the theorems that such code returns say that its result is \<^term>\<open>Some\<close> value, under
  hypotheses on the data or on the hardware. The endless loop of a reset is modelled by its first rounds, for any number of them.

  \<^bold>\<open>Where the code falls short.\<close> Some theorems are about flaws: a partial write to a sector that is not cached destroys the rest of it, a descriptor that is
  not open panics the kernel, an extended partition makes the scan run for ever, a process that exits before its child leaves it with freed
  memory, a second waiter on an interrupt queue fails an assertion, a thread that exits can make the next one acquire the lock of the page allocator
  a second time, and an exit call at the end of a page faults in the kernel. The theorems on the same operations have the hypotheses that avoid
  these cases.

  \<^bold>\<open>Not modelled.\<close>
  \<^item> The wait for the lock of the page allocator in the middle of a switch: \<^verbatim>\<open>thread_schedule_tail\<close> frees the page of a dead thread at once. The assertion
    that the new thread does not hold that lock is modelled.
  \<^item> Preemption inside a system call: a call is one transition, so races on data that the calls share, such as \<^verbatim>\<open>fd_count\<close>, do not appear; nor do
    the effects on kernel data of a system call that writes through a kernel address.
  \<^item> \<^verbatim>\<open>threads/loader.S\<close>, \<^verbatim>\<open>threads/start.S\<close>, \<^verbatim>\<open>threads/intr-stubs.S\<close>, \<^verbatim>\<open>threads/switch.S\<close> and \<^verbatim>\<open>threads/io.h\<close>: assembly. A context switch is the change of
    the running thread, and port accesses are part of each device.
  \<^item> The body of \<^verbatim>\<open>main\<close> outside the registration of handlers, which calls the parts in turn; \<^verbatim>\<open>bss_init\<close>; functions that only print (usage,
    statistics, call stacks, dumps of interrupt frames).
  \<^item> \<^verbatim>\<open>too_many_loops\<close> of \<^verbatim>\<open>devices/timer.c\<close>, which measures a busy loop against real time: an argument of the calibration.
  \<^item> The functions on niceness and load in \<^verbatim>\<open>threads/thread.c\<close> and the user allocator in \<^verbatim>\<open>lib/user/stdlib.c\<close>, which the source leaves empty.
  \<^item> The example programs, the tools of the host under \<^verbatim>\<open>utils\<close> and the tests: they use the system, or start it, and are not part of it.
\<close>

end
